(* ===== verification/Mactls_Prelude.thy ===== *)
theory Mactls_Prelude
  imports Main "HOL-Library.Word"
begin

text \<open>
  Prelude of the development: the byte and word types, the model of fixed-size C
  arrays as byte lists, the big-endian wire helpers of
  os9/ostls_tls13_handshake.c and the BearSSL codec, and the lemma collections
  the component theories share.

  A C array that starts zeroed (or whose unwritten bytes are never read) is a byte
  list: bytes past the end of the list are the bytes not written so far. \<open>byte_at\<close>
  and \<open>rd\<close> read such an array, \<open>wr\<close> writes into it; \<open>wr\<close> extends the list when the
  write goes past its end, so a write past the C array's size shows as a list longer
  than that size. The bounds theorems of the component theories rest on this.
\<close>

unbundle bit_operations_syntax

type_synonym byte = "8 word"
type_synonym bytes = "8 word list"
type_synonym u16 = "16 word"
type_synonym u32 = "32 word"
type_synonym u64 = "64 word"

named_theorems buf_simps "reading from and writing to byte buffers"
named_theorems wire_simps "wire encodings and their lengths"

section \<open>Byte buffers\<close>

definition byte_at :: "bytes \<Rightarrow> nat \<Rightarrow> byte" where
  "byte_at b i = (if i < length b then b ! i else 0)"

definition rd :: "bytes \<Rightarrow> nat \<Rightarrow> nat \<Rightarrow> bytes" where
  "rd b off n = take n (drop off b @ replicate n 0)"

definition wr :: "bytes \<Rightarrow> nat \<Rightarrow> bytes \<Rightarrow> bytes" where
  "wr b off xs = take off (b @ replicate (off - length b) 0) @ xs @ drop (off + length xs) b"

lemma length_rd [simp, buf_simps]: "length (rd b off n) = n"
  by (simp add: rd_def)

lemma length_wr [simp, buf_simps]: "length (wr b off xs) = max (length b) (off + length xs)"
  by (auto simp: wr_def max_def)

lemma rd_eq_take_drop: "off + n \<le> length b \<Longrightarrow> rd b off n = take n (drop off b)"
  by (simp add: rd_def)

lemma rd_0 [simp]: "rd b off 0 = []"
  by (simp add: rd_def)

lemma byte_at_Nil [simp]: "byte_at [] i = 0"
  by (simp add: byte_at_def)

lemma byte_at_Cons_0 [simp]: "byte_at (x # xs) 0 = x"
  by (simp add: byte_at_def)

lemma byte_at_Cons_Suc [simp]: "byte_at (x # xs) (Suc i) = byte_at xs i"
  by (simp add: byte_at_def)

lemma byte_at_Cons_numeral [simp]:
  "byte_at (x # xs) (numeral n) = byte_at xs (pred_numeral n)"
  by (simp add: numeral_eq_Suc)

lemma byte_at_append:
  "byte_at (xs @ ys) i = (if i < length xs then xs ! i else byte_at ys (i - length xs))"
  by (auto simp: byte_at_def nth_append)

lemma byte_at_drop [simp]: "byte_at (drop k xs) i = byte_at xs (k + i)"
  by (auto simp: byte_at_def)

lemma nth_rd: "i < n \<Longrightarrow> rd b off n ! i = byte_at b (off + i)"
  by (auto simp: rd_def byte_at_def nth_append)

lemma byte_at_rd: "i < n \<Longrightarrow> byte_at (rd b off n) i = byte_at b (off + i)"
  by (simp add: byte_at_def [of "rd b off n"] nth_rd)

lemma rd_byte_at: "rd b off n = map (\<lambda>i. byte_at b (off + i)) [0..<n]"
  by (rule nth_equalityI) (simp_all add: nth_rd)

lemma byte_at_wr:
  "byte_at (wr b off xs) i =
     (if off \<le> i \<and> i < off + length xs then xs ! (i - off) else byte_at b i)"
  by (auto simp: wr_def byte_at_def nth_append min_def)

lemma rd_wr_same [simp, buf_simps]: "rd (wr b off xs) off (length xs) = xs"
  by (rule nth_equalityI) (simp_all add: nth_rd byte_at_wr)

lemma rd_wr_same_len: "length xs = n \<Longrightarrow> rd (wr b off xs) off n = xs"
  by auto

lemma rd_wr_before: "off + n \<le> off' \<Longrightarrow> rd (wr b off' xs) off n = rd b off n"
  by (rule nth_equalityI) (simp_all add: nth_rd byte_at_wr)

lemma rd_wr_after: "off' + length xs \<le> off \<Longrightarrow> rd (wr b off' xs) off n = rd b off n"
  by (rule nth_equalityI) (simp_all add: nth_rd byte_at_wr)

lemma rd_rd: "i + n \<le> m \<Longrightarrow> rd (rd b off m) i n = rd b (off + i) n"
  by (rule nth_equalityI) (simp_all add: nth_rd byte_at_rd add.assoc)

lemma rd_append: "rd b off (m + n) = rd b off m @ rd b (off + m) n"
  by (rule nth_equalityI) (auto simp: nth_rd nth_append add.assoc)

lemma rd_append_left: "off + n \<le> length xs \<Longrightarrow> rd (xs @ ys) off n = rd xs off n"
  by (simp add: rd_def)

lemma rd_append_at: "rd (xs @ ys) (length xs) n = rd ys 0 n"
  by (simp add: rd_def)

lemma rd_prefix: "length xs = n \<Longrightarrow> rd (xs @ ys) 0 n = xs"
  by (simp add: rd_def)

lemma take_wr: "n \<le> off \<Longrightarrow> off \<le> length b \<Longrightarrow> take n (wr b off xs) = take n b"
  by (simp add: wr_def)

lemma take_wr_upto: "off \<le> length b \<Longrightarrow> take (off + length xs) (wr b off xs) = take off b @ xs"
  by (simp add: wr_def)

lemma wr_end: "wr b (length b) xs = b @ xs"
  by (simp add: wr_def)

lemma wr_whole: "length b \<le> length xs \<Longrightarrow> wr b 0 xs = xs"
  by (simp add: wr_def)

lemma drop_eq_drop_iff_rd:
  "length xs = length ys \<Longrightarrow> (xs = ys) = (\<forall>i < length xs. byte_at xs i = byte_at ys i)"
  by (auto simp: byte_at_def intro: nth_equalityI)

section \<open>Big-endian integers on the wire\<close>

text \<open>\<open>put_u16\<close>, \<open>get_u16\<close>, \<open>get_u24\<close>, \<open>put_u24\<close> of ostls_tls13_handshake.c;
  a \<open>put\<close> yields the bytes it stores, the callers place them with \<open>wr\<close>.\<close>

definition put_u16 :: "u16 \<Rightarrow> bytes" where
  "put_u16 v = [ucast (drop_bit 8 v), ucast v]"

definition get_u16 :: "bytes \<Rightarrow> nat \<Rightarrow> u16" where
  "get_u16 p i = push_bit 8 (ucast (byte_at p i)) OR ucast (byte_at p (i + 1))"

definition get_u24 :: "bytes \<Rightarrow> nat \<Rightarrow> u32" where
  "get_u24 p i = push_bit 16 (ucast (byte_at p i)) OR push_bit 8 (ucast (byte_at p (i + 1)))
                 OR ucast (byte_at p (i + 2))"

definition put_u24 :: "u32 \<Rightarrow> bytes" where
  "put_u24 v = [ucast (drop_bit 16 v), ucast (drop_bit 8 v), ucast v]"

text \<open>The four-byte reads the ticket parser spells out.\<close>

definition get_u32 :: "bytes \<Rightarrow> nat \<Rightarrow> u32" where
  "get_u32 p i = push_bit 24 (ucast (byte_at p i)) OR push_bit 16 (ucast (byte_at p (i + 1)))
                 OR push_bit 8 (ucast (byte_at p (i + 2))) OR ucast (byte_at p (i + 3))"

definition put_u32 :: "u32 \<Rightarrow> bytes" where
  "put_u32 v = [ucast (drop_bit 24 v), ucast (drop_bit 16 v), ucast (drop_bit 8 v), ucast v]"

lemma length_put [simp, wire_simps]:
  "length (put_u16 v) = 2" "length (put_u24 w) = 3" "length (put_u32 w) = 4"
  by (simp_all add: put_u16_def put_u24_def put_u32_def)

text \<open>Decoding what was encoded, at any place of a buffer, and the numeric value of a read.\<close>

lemma take_bit_word_small: "unat v < 2 ^ n \<Longrightarrow> take_bit n v = v"
  by (rule unsigned_word_eqI [where ?'a = nat]) (simp add: unsigned_take_bit_eq take_bit_nat_eq_self)

lemma unat_small_iff_take_bit: "take_bit n v = v \<Longrightarrow> unat v < 2 ^ n"
  by (metis take_bit_nat_less_exp unsigned_take_bit_eq)

lemma bit_byte_ge: "8 \<le> n \<Longrightarrow> \<not> bit (b :: byte) n"
  using bit_imp_le_length [of b n] by auto

lemma byte_position_cases:
  fixes n :: nat
  obtains "n < 8" | "8 \<le> n" "n < 16" | "16 \<le> n" "n < 24" | "24 \<le> n"
  by linarith

lemma get_u16_put: "rd p i 2 = put_u16 v \<Longrightarrow> get_u16 p i = v"
proof -
  assume *: "rd p i 2 = put_u16 v"
  have b: "byte_at p i = ucast (drop_bit 8 v)" "byte_at p (Suc i) = ucast v"
    using nth_rd [of 0 2 p i] nth_rd [of 1 2 p i] * by (simp_all add: put_u16_def)
  show ?thesis
  proof (rule bit_word_eqI)
    fix n assume "n < LENGTH(16)"
    then show "bit (get_u16 p i) n = bit v n"
      by (cases "n < 8") (simp_all add: get_u16_def b bit_simps less_diff_conv2)
  qed
qed

lemma get_u24_put: "rd p i 3 = put_u24 v \<Longrightarrow> unat v < 2 ^ 24 \<Longrightarrow> get_u24 p i = v"
proof -
  assume *: "rd p i 3 = put_u24 v" and lt: "unat v < 2 ^ 24"
  have b: "byte_at p i = ucast (drop_bit 16 v)" "byte_at p (Suc i) = ucast (drop_bit 8 v)"
    "byte_at p (Suc (Suc i)) = ucast v"
    using nth_rd [of 0 3 p i] nth_rd [of 1 3 p i] nth_rd [of 2 3 p i] *
    by (simp_all add: put_u24_def)
  have "get_u24 p i = take_bit 24 v"
  proof (rule bit_word_eqI)
    fix n assume "n < LENGTH(32)"
    then show "bit (get_u24 p i) n = bit (take_bit 24 v) n"
      by (rule_tac n = n in byte_position_cases) (simp_all add: get_u24_def b bit_simps less_diff_conv2)
  qed
  with take_bit_word_small [OF lt] show ?thesis by simp
qed

lemma get_u32_put: "rd p i 4 = put_u32 v \<Longrightarrow> get_u32 p i = v"
proof -
  assume *: "rd p i 4 = put_u32 v"
  have b: "byte_at p i = ucast (drop_bit 24 v)" "byte_at p (Suc i) = ucast (drop_bit 16 v)"
    "byte_at p (Suc (Suc i)) = ucast (drop_bit 8 v)" "byte_at p (i + 3) = ucast v"
    using nth_rd [of 0 4 p i] nth_rd [of 1 4 p i] nth_rd [of 2 4 p i] nth_rd [of 3 4 p i] *
    by (simp_all add: put_u32_def)
  show ?thesis
  proof (rule bit_word_eqI)
    fix n assume "n < LENGTH(32)"
    then show "bit (get_u32 p i) n = bit v n"
      by (rule_tac n = n in byte_position_cases) (simp_all add: get_u32_def b bit_simps less_diff_conv2)
  qed
qed

lemma unat_get_u24_less: "unat (get_u24 p i) < 2 ^ 24"
proof (rule unat_small_iff_take_bit, rule bit_word_eqI)
  fix n assume "n < LENGTH(32)"
  then show "bit (take_bit 24 (get_u24 p i)) n = bit (get_u24 p i) n"
    by (rule_tac n = n in byte_position_cases)
       (simp_all add: get_u24_def bit_simps bit_byte_ge)
qed

lemma unat_get_u16_less: "unat (get_u16 p i) < 2 ^ 16"
  using unsigned_less [of "get_u16 p i"] by simp

lemma put_u16_inject [simp]: "put_u16 v = put_u16 w \<longleftrightarrow> v = w"
  using get_u16_put [of "put_u16 v" 0] by (metis append_Nil2 length_put(1) rd_prefix)

section \<open>BearSSL big-endian codec\<close>

text \<open>\<open>br_dec32be\<close>, \<open>br_enc64be\<close> and the ranges of bearssl/src/codec.\<close>

definition br_enc32be :: "u32 \<Rightarrow> bytes" where
  "br_enc32be x = map (\<lambda>k. ucast (drop_bit k x)) [24, 16, 8, 0]"

definition br_dec32be :: "bytes \<Rightarrow> nat \<Rightarrow> u32" where
  "br_dec32be b i = push_bit 24 (ucast (byte_at b i)) OR push_bit 16 (ucast (byte_at b (i + 1)))
                    OR push_bit 8 (ucast (byte_at b (i + 2))) OR ucast (byte_at b (i + 3))"

definition br_enc64be :: "u64 \<Rightarrow> bytes" where
  "br_enc64be x = map (\<lambda>k. ucast (drop_bit k x)) [56, 48, 40, 32, 24, 16, 8, 0]"

definition br_dec64be :: "bytes \<Rightarrow> nat \<Rightarrow> u64" where
  "br_dec64be b i = push_bit 32 (ucast (br_dec32be b i)) OR ucast (br_dec32be b (i + 4))"

definition br_range_dec32be :: "nat \<Rightarrow> bytes \<Rightarrow> u32 list" where
  "br_range_dec32be num src = map (\<lambda>k. br_dec32be src (4 * k)) [0..<num]"

definition br_range_enc32be :: "u32 list \<Rightarrow> nat \<Rightarrow> bytes" where
  "br_range_enc32be val num = concat (map br_enc32be (take num val))"

definition br_range_dec64be :: "nat \<Rightarrow> bytes \<Rightarrow> u64 list" where
  "br_range_dec64be num src = map (\<lambda>k. br_dec64be src (8 * k)) [0..<num]"

definition br_range_enc64be :: "u64 list \<Rightarrow> nat \<Rightarrow> bytes" where
  "br_range_enc64be val num = concat (map br_enc64be (take num val))"

lemma length_enc [simp, wire_simps]: "length (br_enc32be x) = 4" "length (br_enc64be y) = 8"
  by (simp_all add: br_enc32be_def br_enc64be_def)

lemma length_concat_const: "(\<And>x. length (f x) = n) \<Longrightarrow> length (concat (map f xs)) = n * length xs"
  by (induction xs) simp_all

lemma length_range_enc32 [simp, wire_simps]:
  "length (br_range_enc32be val num) = 4 * min num (length val)"
  by (simp add: br_range_enc32be_def length_concat_const [where n = 4])

lemma length_range_enc64 [simp, wire_simps]:
  "length (br_range_enc64be val num) = 8 * min num (length val)"
  by (simp add: br_range_enc64be_def length_concat_const [where n = 8])

lemma length_range_dec [simp, wire_simps]:
  "length (br_range_dec32be n b) = n" "length (br_range_dec64be n b) = n"
  by (simp_all add: br_range_dec32be_def br_range_dec64be_def)

lemma br_dec32be_enc: "rd b i 4 = br_enc32be v \<Longrightarrow> br_dec32be b i = v"
proof -
  assume *: "rd b i 4 = br_enc32be v"
  have b: "byte_at b i = ucast (drop_bit 24 v)" "byte_at b (Suc i) = ucast (drop_bit 16 v)"
    "byte_at b (Suc (Suc i)) = ucast (drop_bit 8 v)" "byte_at b (i + 3) = ucast v"
    using nth_rd [of 0 4 b i] nth_rd [of 1 4 b i] nth_rd [of 2 4 b i] nth_rd [of 3 4 b i] *
    by (simp_all add: br_enc32be_def)
  show ?thesis
  proof (rule bit_word_eqI)
    fix n assume "n < LENGTH(32)"
    then show "bit (br_dec32be b i) n = bit v n"
      by (rule_tac n = n in byte_position_cases) (simp_all add: br_dec32be_def b bit_simps less_diff_conv2)
  qed
qed

lemma br_dec64be_enc: "rd b i 8 = br_enc64be v \<Longrightarrow> br_dec64be b i = v"
proof -
  assume *: "rd b i 8 = br_enc64be v"
  have split: "br_enc64be v = br_enc32be (ucast (drop_bit 32 v)) @ br_enc32be (ucast v)"
    by (auto simp: br_enc64be_def br_enc32be_def bit_simps intro!: bit_word_eqI)
  have "rd b i (4 + 4) = rd b i 4 @ rd b (i + 4) 4"
    by (rule rd_append)
  with * split have "rd b i 4 = br_enc32be (ucast (drop_bit 32 v))
    \<and> rd b (i + 4) 4 = br_enc32be (ucast v)"
    by simp
  then have "br_dec32be b i = ucast (drop_bit 32 v)" "br_dec32be b (i + 4) = ucast v"
    by (auto intro: br_dec32be_enc)
  then have b: "br_dec32be b i = ucast (drop_bit 32 v)" "br_dec32be b (i + 4) = ucast v"
    by auto
  show ?thesis
  proof (rule bit_word_eqI)
    fix n assume "n < LENGTH(64)"
    then show "bit (br_dec64be b i) n = bit v n"
      by (cases "n < 32") (simp_all add: br_dec64be_def b bit_simps less_diff_conv2)
  qed
qed

lemma rd_concat_blocks:
  assumes "\<And>x. length (f x) = n" "k < length xs"
  shows "rd (concat (map f xs)) (n * k) n = f (xs ! k)"
  using assms(2)
proof (induction xs arbitrary: k)
  case Nil
  then show ?case by simp
next
  case (Cons x xs)
  show ?case
  proof (cases k)
    case 0
    then show ?thesis using assms(1) by (simp add: rd_prefix)
  next
    case (Suc j)
    have "rd (f x @ concat (map f xs)) (n + n * j) n = rd (concat (map f xs)) (n * j) n"
      by (rule nth_equalityI) (simp_all add: nth_rd byte_at_append assms(1) add.assoc)
    with Suc Cons show ?thesis by simp
  qed
qed

lemma range_dec_enc32:
  "length val = num \<Longrightarrow> br_range_dec32be num (br_range_enc32be val num) = val"
  by (rule nth_equalityI)
     (auto simp: br_range_dec32be_def br_range_enc32be_def
       intro!: br_dec32be_enc rd_concat_blocks)

lemma range_dec_enc64:
  "length val = num \<Longrightarrow> br_range_dec64be num (br_range_enc64be val num) = val"
  by (rule nth_equalityI)
     (auto simp: br_range_dec64be_def br_range_enc64be_def
       intro!: br_dec64be_enc rd_concat_blocks)

end
