(* ===== verification/Sha2.thy ===== *)
theory Sha2
  imports Mactls_Prelude
begin

text \<open>
  The SHA-2 cores the program hashes with: bearssl/src/hash/sha2small.c (SHA-256) and
  bearssl/src/hash/sha2big.c (SHA-384), the latter with both of its round functions: the
  64-bit one and the 32-bit-limb one macTLS added for CodeWarrior 8.

  The buffering of a message into blocks is the same loop in both files (\<open>md_loop\<close>);
  it is proved to compute the fold of the round function over the padded message, whatever
  pieces the message arrives in. The limb round is proved equal to the 64-bit round.
\<close>

unbundle bit_operations_syntax

section \<open>The block buffering loop and its specification\<close>

text \<open>The loop of \<open>sha2small_update\<close> and \<open>sha2big_update\<close>. The C loop is entered with
  \<open>ptr < blk\<close> (it is \<open>count\<close> masked with \<open>blk - 1\<close>); the test on \<open>ptr\<close> only makes the
  recursion total.\<close>

function md_loop :: "nat \<Rightarrow> (bytes \<Rightarrow> 's \<Rightarrow> 's) \<Rightarrow> nat \<Rightarrow> bytes \<Rightarrow> 's \<Rightarrow> bytes \<Rightarrow> bytes \<times> 's" where
  "md_loop blk rnd ptr buf val data =
     (if data = [] \<or> blk \<le> ptr then (buf, val)
      else let clen = min (blk - ptr) (length data);
               buf' = wr buf ptr (take clen data);
               ptr' = ptr + clen
           in if ptr' = blk then md_loop blk rnd 0 buf' (rnd buf' val) (drop clen data)
              else md_loop blk rnd ptr' buf' val (drop clen data))"
  by pat_completeness auto
termination
  by (relation "measure (\<lambda>(blk, rnd, ptr, buf, val, data). length data)") auto

declare md_loop.simps [simp del]

lemma md_loop_Nil [simp]: "md_loop blk rnd ptr buf val [] = (buf, val)"
  by (simp add: md_loop.simps)

text \<open>Specification: the fold of the round over the complete blocks of a message, and the
  incomplete block left over.\<close>

function md_run :: "nat \<Rightarrow> (bytes \<Rightarrow> 's \<Rightarrow> 's) \<Rightarrow> 's \<Rightarrow> bytes \<Rightarrow> 's" where
  "md_run blk rnd val m =
     (if blk = 0 \<or> length m < blk then val
      else md_run blk rnd (rnd (take blk m) val) (drop blk m))"
  by pat_completeness auto
termination
  by (relation "measure (\<lambda>(blk, rnd, val, m). length m)") auto

declare md_run.simps [simp del]

definition md_rest :: "nat \<Rightarrow> bytes \<Rightarrow> bytes" where
  "md_rest blk m = drop (length m - length m mod blk) m"

lemma length_md_rest [simp]: "length (md_rest blk m) = length m mod blk"
  by (simp add: md_rest_def)

lemma md_run_short: "length m < blk \<Longrightarrow> md_run blk rnd val m = val"
  by (simp add: md_run.simps [of blk rnd val m])

lemma md_run_block:
  "length b = blk \<Longrightarrow> 0 < blk \<Longrightarrow> md_run blk rnd val (b @ m) = md_run blk rnd (rnd b val) m"
  by (simp add: md_run.simps [of blk rnd val "b @ m"])

lemma md_rest_short: "length m < blk \<Longrightarrow> md_rest blk m = m"
  by (simp add: md_rest_def)

lemma md_rest_block: "length b = blk \<Longrightarrow> 0 < blk \<Longrightarrow> md_rest blk (b @ m) = md_rest blk m"
  by (auto simp: md_rest_def) (metis add_diff_assoc diff_le_self drop_append length_append
      append_Nil diff_add_inverse drop_all le_add1 mod_less_eq_dividend)

lemma md_run_append:
  "0 < blk \<Longrightarrow> md_run blk rnd val (m @ d) = md_run blk rnd (md_run blk rnd val m) (md_rest blk m @ d)
     \<and> md_rest blk (m @ d) = md_rest blk (md_rest blk m @ d)"
proof (induction m arbitrary: val rule: length_induct)
  case (1 m)
  show ?case
  proof (cases "length m < blk")
    case True
    then show ?thesis by (simp add: md_run_short md_rest_short)
  next
    case False
    define b r where "b = take blk m" and "r = drop blk m"
    have m: "m = b @ r" and lb: "length b = blk" "length r < length m"
      using False "1.prems" by (auto simp: b_def r_def)
    from "1.IH" lb "1.prems" show ?thesis
      by (simp add: m md_run_block md_rest_block)
  qed
qed

lemma md_loop_correct:
  assumes "ptr < blk" "length buf = blk" "take ptr buf = p" "length p = ptr"
  shows "\<exists>buf' val'. md_loop blk rnd ptr buf val data = (buf', val') \<and> length buf' = blk \<and>
           val' = md_run blk rnd val (p @ data) \<and>
           take (length (p @ data) mod blk) buf' = md_rest blk (p @ data)"
  using assms
proof (induction data arbitrary: ptr buf val p rule: length_induct)
  case (1 data)
  show ?case
  proof (cases "data = []")
    case True
    with "1.prems" show ?thesis
      by (auto simp: md_run_short md_rest_short)
  next
    case False
    define clen where "clen = min (blk - ptr) (length data)"
    define buf' where "buf' = wr buf ptr (take clen data)"
    have pos: "0 < clen" "clen \<le> length data" "ptr + clen \<le> blk"
      using False "1.prems"(1) by (auto simp: clen_def)
    have len: "length buf' = blk"
      using pos "1.prems" by (simp add: buf'_def max_def)
    have tk: "take (ptr + clen) buf' = p @ take clen data"
      using take_wr_upto [of ptr buf "take clen data"] pos "1.prems"
      by (simp add: buf'_def min_def split: if_splits)
    have shorter: "length (drop clen data) < length data"
      using pos by simp
    show ?thesis
    proof (cases "ptr + clen = blk")
      case True
      have b: "buf' = p @ take clen data" using tk True len by simp
      have split: "p @ data = buf' @ drop clen data" by (simp add: b)
      have step: "md_loop blk rnd ptr buf val data =
          md_loop blk rnd 0 buf' (rnd buf' val) (drop clen data)"
        using False "1.prems"(1) True
        by (subst md_loop.simps) (simp add: Let_def clen_def [symmetric] buf'_def [symmetric])
      have "0 < blk" using pos True by simp
      from "1.IH" [rule_format, OF shorter, of 0 buf' "[]" "rnd buf' val"] \<open>0 < blk\<close> len
      obtain b2 v2 where r: "md_loop blk rnd 0 buf' (rnd buf' val) (drop clen data) = (b2, v2)"
        "length b2 = blk" "v2 = md_run blk rnd (rnd buf' val) (drop clen data)"
        "take (length (drop clen data) mod blk) b2 = md_rest blk (drop clen data)"
        by auto
      have l: "length (p @ data) = blk + length (drop clen data)"
        using split len by (metis length_append)
      have m1: "md_run blk rnd val (p @ data) = md_run blk rnd (rnd buf' val) (drop clen data)"
        unfolding split by (rule md_run_block [OF len \<open>0 < blk\<close>])
      have m2: "md_rest blk (p @ data) = md_rest blk (drop clen data)"
        unfolding split by (rule md_rest_block [OF len \<open>0 < blk\<close>])
      show ?thesis using step r(1,2,3,4) m1 m2 l by (simp add: mod_add_self1)
    next
      case part: False
      have all: "clen = length data" using part "1.prems"(1) by (auto simp: clen_def min_def split: if_splits)
      have step: "md_loop blk rnd ptr buf val data =
          md_loop blk rnd (ptr + clen) buf' val (drop clen data)"
        using False "1.prems"(1) part
        by (subst md_loop.simps) (simp add: Let_def clen_def [symmetric] buf'_def [symmetric])
      have "ptr + clen < blk" using pos part by simp
      then show ?thesis using step len tk all "1.prems"(4)
        by (simp add: md_run_short md_rest_short)
    qed
  qed
qed

text \<open>The padding tail: the one or two last blocks \<open>out\<close> builds, \<open>len\<close> being the encoded
  length field.\<close>

definition md_final :: "nat \<Rightarrow> (bytes \<Rightarrow> 's \<Rightarrow> 's) \<Rightarrow> bytes \<Rightarrow> 's \<Rightarrow> bytes \<Rightarrow> 's" where
  "md_final blk rnd pend val len =
     (let buf = pend @ [0x80]; lim = blk - length len
      in if lim < length buf
         then rnd (replicate lim 0 @ len) (rnd (buf @ replicate (blk - length buf) 0) val)
         else rnd (buf @ replicate (lim - length buf) 0 @ len) val)"

definition md_pad_zeros :: "nat \<Rightarrow> nat \<Rightarrow> nat \<Rightarrow> nat" where
  "md_pad_zeros blk lenlen n = (2 * blk - lenlen - 1 - n mod blk) mod blk"

lemma md_final_correct:
  assumes "length len < blk"
  shows "md_final blk rnd (md_rest blk m) (md_run blk rnd val m) len =
         md_run blk rnd val (m @ [0x80] @ replicate (md_pad_zeros blk (length len) (length m)) 0 @ len)"
proof -
  let ?r = "length m mod blk" and ?p = "md_rest blk m" and ?v = "md_run blk rnd val m"
  have r: "?r < blk" using assms by simp
  have run: "md_run blk rnd val (m @ t) = md_run blk rnd ?v (?p @ t)" for t
    using md_run_append [of blk rnd val m t] assms by linarith
  show ?thesis
  proof (cases "blk - length len < ?r + 1")
    case True
    let ?b1 = "?p @ [0x80] @ replicate (blk - (?r + 1)) 0"
    let ?b2 = "replicate (blk - length len) 0 @ len"
    have z: "md_pad_zeros blk (length len) (length m) = (blk - (?r + 1)) + (blk - length len)"
      proof -
      have "2 * blk - length len - 1 - ?r = (blk - (?r + 1)) + (blk - length len)"
        using r assms by linarith
      moreover have "(blk - (?r + 1)) + (blk - length len) < blk" using True r by linarith
      ultimately show ?thesis by (simp add: md_pad_zeros_def)
    qed
    have "length ?b1 = (?r + 1) + (blk - (?r + 1))" by simp
    also have "\<dots> = blk" using r by linarith
    finally have lb: "length ?b1 = blk" "length ?b2 = blk" using assms by auto
    have "?p @ [0x80] @ replicate (md_pad_zeros blk (length len) (length m)) 0 @ len = ?b1 @ ?b2"
      by (simp add: z replicate_add)
    moreover have "md_run blk rnd ?v (?b1 @ ?b2 @ []) = rnd ?b2 (rnd ?b1 ?v)"
      using md_run_block [OF lb(1), of rnd] md_run_block [OF lb(2), of rnd _ "[]"] assms
      by (simp add: md_run_short)
    ultimately show ?thesis
      using True run by (simp add: md_final_def Let_def)
  next
    case False
    let ?b = "?p @ [0x80] @ replicate (blk - length len - (?r + 1)) 0 @ len"
    have "md_pad_zeros blk (length len) (length m) =
        (blk + (blk - length len - (?r + 1))) mod blk"
      unfolding md_pad_zeros_def using False r assms by (intro arg_cong2 [where f = "(mod)"]) linarith+
    then have z: "md_pad_zeros blk (length len) (length m) = blk - length len - (?r + 1)"
      using assms by simp
    have "length ?b = (?r + 1) + (blk - length len - (?r + 1)) + length len" by simp
    also have "\<dots> = blk" using False assms by linarith
    finally have "length ?b = blk" .
    then have "md_run blk rnd ?v (?b @ []) = rnd ?b ?v"
      using md_run_block [of ?b blk rnd ?v "[]"] assms by (simp add: md_run_short)
    then show ?thesis
      using False run by (simp add: md_final_def Let_def z)
  qed
qed

section \<open>SHA-256: sha2small.c\<close>

text \<open>The macros \<open>CH\<close> and \<open>MAJ\<close> are the same text in both files.\<close>

definition sha_ch :: "'a::len word \<Rightarrow> 'a word \<Rightarrow> 'a word \<Rightarrow> 'a word" where
  "sha_ch x y z = ((y XOR z) AND x) XOR z"

definition sha_maj :: "'a::len word \<Rightarrow> 'a word \<Rightarrow> 'a word \<Rightarrow> 'a word" where
  "sha_maj x y z = (y AND z) OR ((y OR z) AND x)"

definition rotr32 :: "u32 \<Rightarrow> nat \<Rightarrow> u32" where
  "rotr32 x n = push_bit (32 - n) x OR drop_bit n x"

definition bsg2_0 :: "u32 \<Rightarrow> u32" where
  "bsg2_0 x = rotr32 x 2 XOR rotr32 x 13 XOR rotr32 x 22"

definition bsg2_1 :: "u32 \<Rightarrow> u32" where
  "bsg2_1 x = rotr32 x 6 XOR rotr32 x 11 XOR rotr32 x 25"

definition ssg2_0 :: "u32 \<Rightarrow> u32" where
  "ssg2_0 x = rotr32 x 7 XOR rotr32 x 18 XOR drop_bit 3 x"

definition ssg2_1 :: "u32 \<Rightarrow> u32" where
  "ssg2_1 x = rotr32 x 17 XOR rotr32 x 19 XOR drop_bit 10 x"

definition br_sha256_IV :: "u32 list" where
  "br_sha256_IV =
    [0x6A09E667, 0xBB67AE85, 0x3C6EF372, 0xA54FF53A,
     0x510E527F, 0x9B05688C, 0x1F83D9AB, 0x5BE0CD19]"

definition sha256_K :: "u32 list" where
  "sha256_K =
    [0x428A2F98, 0x71374491, 0xB5C0FBCF, 0xE9B5DBA5,
     0x3956C25B, 0x59F111F1, 0x923F82A4, 0xAB1C5ED5,
     0xD807AA98, 0x12835B01, 0x243185BE, 0x550C7DC3,
     0x72BE5D74, 0x80DEB1FE, 0x9BDC06A7, 0xC19BF174,
     0xE49B69C1, 0xEFBE4786, 0x0FC19DC6, 0x240CA1CC,
     0x2DE92C6F, 0x4A7484AA, 0x5CB0A9DC, 0x76F988DA,
     0x983E5152, 0xA831C66D, 0xB00327C8, 0xBF597FC7,
     0xC6E00BF3, 0xD5A79147, 0x06CA6351, 0x14292967,
     0x27B70A85, 0x2E1B2138, 0x4D2C6DFC, 0x53380D13,
     0x650A7354, 0x766A0ABB, 0x81C2C92E, 0x92722C85,
     0xA2BFE8A1, 0xA81A664B, 0xC24B8B70, 0xC76C51A3,
     0xD192E819, 0xD6990624, 0xF40E3585, 0x106AA070,
     0x19A4C116, 0x1E376C08, 0x2748774C, 0x34B0BCB5,
     0x391C0CB3, 0x4ED8AA4A, 0x5B9CCA4F, 0x682E6FF3,
     0x748F82EE, 0x78A5636F, 0x84C87814, 0x8CC70208,
     0x90BEFFFA, 0xA4506CEB, 0xBEF9A3F7, 0xC67178F2]"

text \<open>The message schedule: \<open>w[i]\<close> for \<open>i = 16..63\<close>, appended one at a time.\<close>

primrec sha256_expand :: "nat \<Rightarrow> u32 list \<Rightarrow> u32 list" where
  "sha256_expand 0 w = w"
| "sha256_expand (Suc n) w =
     (let i = length w
      in sha256_expand n (w @ [ssg2_1 (w ! (i - 2)) + w ! (i - 7) + ssg2_0 (w ! (i - 15)) + w ! (i - 16)]))"

text \<open>One \<open>SHA2_STEP\<close>. The C macro writes \<open>D\<close> and \<open>H\<close> in place and the next use names the
  registers rotated by one; here the step returns them already rotated.\<close>

type_synonym 'a regs = "'a \<times> 'a \<times> 'a \<times> 'a \<times> 'a \<times> 'a \<times> 'a \<times> 'a"

fun sha2_step :: "u32 list \<Rightarrow> nat \<Rightarrow> u32 regs \<Rightarrow> u32 regs" where
  "sha2_step w j (a, b, c, d, e, f, g, h) =
     (let t1 = h + bsg2_1 e + sha_ch e f g + sha256_K ! j + w ! j;
          t2 = bsg2_0 a + sha_maj a b c
      in (t1 + t2, a, b, c, d + t1, e, f, g))"

fun regs_of :: "'a list \<Rightarrow> 'a regs" where
  "regs_of v = (v ! 0, v ! 1, v ! 2, v ! 3, v ! 4, v ! 5, v ! 6, v ! 7)"

fun regs_list :: "'a regs \<Rightarrow> 'a list" where
  "regs_list (a, b, c, d, e, f, g, h) = [a, b, c, d, e, f, g, h]"

lemma length_regs_list [simp]: "length (regs_list r) = 8"
  by (cases r rule: regs_list.cases) simp

definition br_sha2small_round :: "bytes \<Rightarrow> u32 list \<Rightarrow> u32 list" where
  "br_sha2small_round buf val =
     (let w = sha256_expand 48 (br_range_dec32be 16 buf)
      in map2 (+) val (regs_list (fold (sha2_step w) [0..<64] (regs_of val))))"

record sha256_ctx =
  s_buf :: bytes
  s_val :: "u32 list"
  s_count :: u64

definition sha2small_update :: "sha256_ctx \<Rightarrow> bytes \<Rightarrow> sha256_ctx" where
  "sha2small_update cc data =
     (let ptr = unat (s_count cc AND 63);
          (buf', val') = md_loop 64 br_sha2small_round ptr (s_buf cc) (s_val cc) data
      in cc\<lparr>s_buf := buf', s_val := val', s_count := s_count cc + word_of_nat (length data)\<rparr>)"

text \<open>\<open>out\<close> works on a local copy of the buffer and the value; the context is \<open>const\<close>.\<close>

definition sha2small_out :: "sha256_ctx \<Rightarrow> nat \<Rightarrow> bytes" where
  "sha2small_out cc num =
     (let ptr = unat (s_count cc AND 63)
      in br_range_enc32be
           (md_final 64 br_sha2small_round (take ptr (s_buf cc)) (s_val cc)
              (br_enc64be (push_bit 3 (s_count cc)))) num)"

definition br_sha256_init :: "sha256_ctx \<Rightarrow> sha256_ctx" where
  "br_sha256_init cc = cc\<lparr>s_val := br_sha256_IV, s_count := 0\<rparr>"

definition br_sha256_update :: "sha256_ctx \<Rightarrow> bytes \<Rightarrow> sha256_ctx" where
  "br_sha256_update cc data = sha2small_update cc data"

definition br_sha256_out :: "sha256_ctx \<Rightarrow> bytes" where
  "br_sha256_out cc = sha2small_out cc 8"

definition br_sha256_state :: "sha256_ctx \<Rightarrow> bytes \<times> u64" where
  "br_sha256_state cc = (br_range_enc32be (s_val cc) 8, s_count cc)"

definition br_sha256_set_state :: "sha256_ctx \<Rightarrow> bytes \<Rightarrow> u64 \<Rightarrow> sha256_ctx" where
  "br_sha256_set_state cc stb count = cc\<lparr>s_val := br_range_dec32be 8 stb, s_count := count\<rparr>"

text \<open>Specification: one pass over the padded message.\<close>

definition sha256_pad :: "bytes \<Rightarrow> bytes" where
  "sha256_pad m = m @ [0x80] @ replicate (md_pad_zeros 64 8 (length m)) 0
                  @ br_enc64be (push_bit 3 (word_of_nat (length m)))"

definition sha256_spec :: "bytes \<Rightarrow> bytes" where
  "sha256_spec m = br_range_enc32be (md_run 64 br_sha2small_round br_sha256_IV (sha256_pad m)) 8"

definition sha256_repr :: "sha256_ctx \<Rightarrow> bytes \<Rightarrow> bool" where
  "sha256_repr cc m \<longleftrightarrow> length (s_buf cc) = 64 \<and> s_count cc = word_of_nat (length m)
     \<and> s_val cc = md_run 64 br_sha2small_round br_sha256_IV m
     \<and> take (length m mod 64) (s_buf cc) = md_rest 64 m"

subsection \<open>Whatever the pieces, the digest is that of their concatenation\<close>

lemma unat_and_mask6: "unat (word_of_nat n AND 63 :: u64) = n mod 64"
proof -
  have "word_of_nat n AND 63 = take_bit 6 (word_of_nat n :: u64)"
    by (simp add: take_bit_eq_mask mask_eq_exp_minus_1)
  then have "unat (word_of_nat n AND 63 :: u64) = n mod 2 ^ 64 mod 64"
    by (simp add: take_bit_eq_mod unat_mod unat_of_nat)
  also have "\<dots> = n mod 64" by (simp add: mod_mod_cancel)
  finally show ?thesis .
qed

lemma sha256_repr_init: "length (s_buf cc) = 64 \<Longrightarrow> sha256_repr (br_sha256_init cc) []"
  by (simp add: sha256_repr_def br_sha256_init_def md_run_short md_rest_def)

lemma sha256_repr_update:
  assumes "sha256_repr cc m"
  shows "sha256_repr (br_sha256_update cc d) (m @ d)"
proof -
  let ?r = "br_sha2small_round" and ?p = "md_rest 64 m"
  obtain b v where l: "md_loop 64 ?r (length m mod 64) (s_buf cc) (s_val cc) d = (b, v)"
    "length b = 64" "v = md_run 64 ?r (s_val cc) (?p @ d)"
    "take (length (?p @ d) mod 64) b = md_rest 64 (?p @ d)"
    using md_loop_correct [of "length m mod 64" 64 "s_buf cc" ?p ?r "s_val cc" d] assms
    by (auto simp: sha256_repr_def)
  have "length (?p @ d) mod 64 = length (m @ d) mod 64" by (simp add: mod_add_left_eq)
  then show ?thesis
    using l assms md_run_append [of 64 ?r br_sha256_IV m d]
    by (simp add: sha256_repr_def br_sha256_update_def sha2small_update_def unat_and_mask6 Let_def)
qed

lemma sha256_repr_out:
  assumes "sha256_repr cc m"
  shows "br_sha256_out cc = sha256_spec m"
proof -
  show ?thesis
    using assms md_final_correct [of "br_enc64be (push_bit 3 (word_of_nat (length m)))" 64
        br_sha2small_round m br_sha256_IV]
    by (simp add: br_sha256_out_def sha2small_out_def sha256_spec_def sha256_pad_def sha256_repr_def
        unat_and_mask6)
qed

lemma length_sha2small_round: "length (br_sha2small_round b v) = min (length v) 8"
  by (simp add: br_sha2small_round_def Let_def)

lemma length_md_run_inv:
  assumes "\<And>b v. length v = n \<Longrightarrow> length (rnd b v) = n"
  shows "length v = n \<Longrightarrow> length (md_run blk rnd v m) = n"
proof (induction m arbitrary: v rule: length_induct)
  case (1 m)
  show ?case
  proof (cases "blk = 0 \<or> length m < blk")
    case True
    with "1.prems" show ?thesis by (simp add: md_run.simps [of blk rnd v m])
  next
    case False
    then have "length (drop blk m) < length m" by (cases m) auto
    with "1.IH" "1.prems" assms False show ?thesis by (simp add: md_run.simps [of blk rnd v m])
  qed
qed

lemma length_sha256_val: "length (md_run 64 br_sha2small_round br_sha256_IV m) = 8"
  by (rule length_md_run_inv) (simp_all add: length_sha2small_round br_sha256_IV_def)

lemma length_sha256_spec [simp]: "length (sha256_spec m) = 32"
  by (simp add: sha256_spec_def length_sha256_val)

lemma sha256_repr_set_state:
  assumes "sha256_repr cc m" "length m mod 64 = 0" "length (s_buf c) = 64"
  shows "sha256_repr (br_sha256_set_state c (fst (br_sha256_state cc)) (word_of_nat (length m))) m"
  using assms range_dec_enc32 [of "s_val cc" 8] length_sha256_val [of m]
  by (simp add: sha256_repr_def br_sha256_set_state_def br_sha256_state_def md_rest_def)

section \<open>SHA-384: sha2big.c\<close>

definition rotr64 :: "u64 \<Rightarrow> nat \<Rightarrow> u64" where
  "rotr64 x n = push_bit (64 - n) x OR drop_bit n x"

definition bsg5_0 :: "u64 \<Rightarrow> u64" where
  "bsg5_0 x = rotr64 x 28 XOR rotr64 x 34 XOR rotr64 x 39"

definition bsg5_1 :: "u64 \<Rightarrow> u64" where
  "bsg5_1 x = rotr64 x 14 XOR rotr64 x 18 XOR rotr64 x 41"

definition ssg5_0 :: "u64 \<Rightarrow> u64" where
  "ssg5_0 x = rotr64 x 1 XOR rotr64 x 8 XOR drop_bit 7 x"

definition ssg5_1 :: "u64 \<Rightarrow> u64" where
  "ssg5_1 x = rotr64 x 19 XOR rotr64 x 61 XOR drop_bit 6 x"

definition sha384_IV :: "u64 list" where
  "sha384_IV =
    [0xCBBB9D5DC1059ED8, 0x629A292A367CD507,
     0x9159015A3070DD17, 0x152FECD8F70E5939,
     0x67332667FFC00B31, 0x8EB44A8768581511,
     0xDB0C2E0D64F98FA7, 0x47B5481DBEFA4FA4]"

definition sha512_K :: "u64 list" where
  "sha512_K =
    [0x428A2F98D728AE22, 0x7137449123EF65CD,
     0xB5C0FBCFEC4D3B2F, 0xE9B5DBA58189DBBC,
     0x3956C25BF348B538, 0x59F111F1B605D019,
     0x923F82A4AF194F9B, 0xAB1C5ED5DA6D8118,
     0xD807AA98A3030242, 0x12835B0145706FBE,
     0x243185BE4EE4B28C, 0x550C7DC3D5FFB4E2,
     0x72BE5D74F27B896F, 0x80DEB1FE3B1696B1,
     0x9BDC06A725C71235, 0xC19BF174CF692694,
     0xE49B69C19EF14AD2, 0xEFBE4786384F25E3,
     0x0FC19DC68B8CD5B5, 0x240CA1CC77AC9C65,
     0x2DE92C6F592B0275, 0x4A7484AA6EA6E483,
     0x5CB0A9DCBD41FBD4, 0x76F988DA831153B5,
     0x983E5152EE66DFAB, 0xA831C66D2DB43210,
     0xB00327C898FB213F, 0xBF597FC7BEEF0EE4,
     0xC6E00BF33DA88FC2, 0xD5A79147930AA725,
     0x06CA6351E003826F, 0x142929670A0E6E70,
     0x27B70A8546D22FFC, 0x2E1B21385C26C926,
     0x4D2C6DFC5AC42AED, 0x53380D139D95B3DF,
     0x650A73548BAF63DE, 0x766A0ABB3C77B2A8,
     0x81C2C92E47EDAEE6, 0x92722C851482353B,
     0xA2BFE8A14CF10364, 0xA81A664BBC423001,
     0xC24B8B70D0F89791, 0xC76C51A30654BE30,
     0xD192E819D6EF5218, 0xD69906245565A910,
     0xF40E35855771202A, 0x106AA07032BBD1B8,
     0x19A4C116B8D2D0C8, 0x1E376C085141AB53,
     0x2748774CDF8EEB99, 0x34B0BCB5E19B48A8,
     0x391C0CB3C5C95A63, 0x4ED8AA4AE3418ACB,
     0x5B9CCA4F7763E373, 0x682E6FF3D6B2B8A3,
     0x748F82EE5DEFB2FC, 0x78A5636F43172F60,
     0x84C87814A1F0AB72, 0x8CC702081A6439EC,
     0x90BEFFFA23631E28, 0xA4506CEBDE82BDE9,
     0xBEF9A3F7B2C67915, 0xC67178F2E372532B,
     0xCA273ECEEA26619C, 0xD186B8C721C0C207,
     0xEADA7DD6CDE0EB1E, 0xF57D4F7FEE6ED178,
     0x06F067AA72176FBA, 0x0A637DC5A2C898A6,
     0x113F9804BEF90DAE, 0x1B710B35131C471B,
     0x28DB77F523047D84, 0x32CAAB7B40C72493,
     0x3C9EBE0A15C9BEBC, 0x431D67C49C100D4C,
     0x4CC5D4BECB3E42B6, 0x597F299CFC657E2A,
     0x5FCB6FAB3AD6FAEC, 0x6C44198C4A475817]"

primrec sha512_expand :: "nat \<Rightarrow> u64 list \<Rightarrow> u64 list" where
  "sha512_expand 0 w = w"
| "sha512_expand (Suc n) w =
     (let i = length w
      in sha512_expand n (w @ [ssg5_1 (w ! (i - 2)) + w ! (i - 7) + ssg5_0 (w ! (i - 15)) + w ! (i - 16)]))"

fun sha2big_step :: "u64 list \<Rightarrow> nat \<Rightarrow> u64 regs \<Rightarrow> u64 regs" where
  "sha2big_step w j (a, b, c, d, e, f, g, h) =
     (let t1 = h + bsg5_1 e + sha_ch e f g + sha512_K ! j + w ! j;
          t2 = bsg5_0 a + sha_maj a b c
      in (t1 + t2, a, b, c, d + t1, e, f, g))"

definition sha2big_round :: "bytes \<Rightarrow> u64 list \<Rightarrow> u64 list" where
  "sha2big_round buf val =
     (let w = sha512_expand 64 (br_range_dec64be 16 buf)
      in map2 (+) val (regs_list (fold (sha2big_step w) [0..<80] (regs_of val))))"


record sha384_ctx =
  b_buf :: bytes
  b_val :: "u64 list"
  b_count :: u64

definition sha2big_update :: "sha384_ctx \<Rightarrow> bytes \<Rightarrow> sha384_ctx" where
  "sha2big_update cc data =
     (let ptr = unat (b_count cc AND 127);
          (buf', val') = md_loop 128 sha2big_round ptr (b_buf cc) (b_val cc) data
      in cc\<lparr>b_buf := buf', b_val := val', b_count := b_count cc + word_of_nat (length data)\<rparr>)"

definition sha2big_out :: "sha384_ctx \<Rightarrow> nat \<Rightarrow> bytes" where
  "sha2big_out cc num =
     (let ptr = unat (b_count cc AND 127)
      in br_range_enc64be
           (md_final 128 sha2big_round (take ptr (b_buf cc)) (b_val cc)
              (br_enc64be (drop_bit 61 (b_count cc)) @ br_enc64be (push_bit 3 (b_count cc)))) num)"

definition br_sha384_init :: "sha384_ctx \<Rightarrow> sha384_ctx" where
  "br_sha384_init cc = cc\<lparr>b_val := sha384_IV, b_count := 0\<rparr>"

definition br_sha384_update :: "sha384_ctx \<Rightarrow> bytes \<Rightarrow> sha384_ctx" where
  "br_sha384_update cc data = sha2big_update cc data"

definition br_sha384_out :: "sha384_ctx \<Rightarrow> bytes" where
  "br_sha384_out cc = sha2big_out cc 6"

definition br_sha384_state :: "sha384_ctx \<Rightarrow> bytes \<times> u64" where
  "br_sha384_state cc = (br_range_enc64be (b_val cc) 8, b_count cc)"

definition br_sha384_set_state :: "sha384_ctx \<Rightarrow> bytes \<Rightarrow> u64 \<Rightarrow> sha384_ctx" where
  "br_sha384_set_state cc stb count = cc\<lparr>b_val := br_range_dec64be 8 stb, b_count := count\<rparr>"

definition sha384_pad :: "bytes \<Rightarrow> bytes" where
  "sha384_pad m = m @ [0x80] @ replicate (md_pad_zeros 128 16 (length m)) 0
     @ br_enc64be (drop_bit 61 (word_of_nat (length m))) @ br_enc64be (push_bit 3 (word_of_nat (length m)))"

definition sha384_spec :: "bytes \<Rightarrow> bytes" where
  "sha384_spec m = br_range_enc64be (md_run 128 sha2big_round sha384_IV (sha384_pad m)) 6"

definition sha384_repr :: "sha384_ctx \<Rightarrow> bytes \<Rightarrow> bool" where
  "sha384_repr cc m \<longleftrightarrow> length (b_buf cc) = 128 \<and> b_count cc = word_of_nat (length m)
     \<and> b_val cc = md_run 128 sha2big_round sha384_IV m
     \<and> take (length m mod 128) (b_buf cc) = md_rest 128 m"

lemma unat_and_mask7: "unat (word_of_nat n AND 127 :: u64) = n mod 128"
proof -
  have "word_of_nat n AND 127 = take_bit 7 (word_of_nat n :: u64)"
    by (simp add: take_bit_eq_mask mask_eq_exp_minus_1)
  then have "unat (word_of_nat n AND 127 :: u64) = n mod 2 ^ 64 mod 128"
    by (simp add: take_bit_eq_mod unat_mod unat_of_nat)
  also have "\<dots> = n mod 128" by (simp add: mod_mod_cancel)
  finally show ?thesis .
qed

lemma sha384_repr_init: "length (b_buf cc) = 128 \<Longrightarrow> sha384_repr (br_sha384_init cc) []"
  by (simp add: sha384_repr_def br_sha384_init_def md_run_short md_rest_def)

lemma sha384_repr_update:
  assumes "sha384_repr cc m"
  shows "sha384_repr (br_sha384_update cc d) (m @ d)"
proof -
  let ?r = "sha2big_round" and ?p = "md_rest 128 m"
  obtain b v where l: "md_loop 128 ?r (length m mod 128) (b_buf cc) (b_val cc) d = (b, v)"
    "length b = 128" "v = md_run 128 ?r (b_val cc) (?p @ d)"
    "take (length (?p @ d) mod 128) b = md_rest 128 (?p @ d)"
    using md_loop_correct [of "length m mod 128" 128 "b_buf cc" ?p ?r "b_val cc" d] assms
    by (auto simp: sha384_repr_def)
  have "length (?p @ d) mod 128 = length (m @ d) mod 128" by (simp add: mod_add_left_eq)
  then show ?thesis
    using l assms md_run_append [of 128 ?r sha384_IV m d]
    by (simp add: sha384_repr_def br_sha384_update_def sha2big_update_def unat_and_mask7 Let_def)
qed

lemma sha384_repr_out:
  assumes "sha384_repr cc m"
  shows "br_sha384_out cc = sha384_spec m"
proof -
  let ?len = "br_enc64be (drop_bit 61 (word_of_nat (length m)))
              @ br_enc64be (push_bit 3 (word_of_nat (length m)))"
  show ?thesis
    using assms md_final_correct [of ?len 128 sha2big_round m sha384_IV]
    by (simp add: br_sha384_out_def sha2big_out_def sha384_spec_def sha384_pad_def sha384_repr_def
        unat_and_mask7)
qed

lemma length_sha2big_round: "length (sha2big_round b v) = min (length v) 8"
  by (simp add: sha2big_round_def Let_def)

lemma length_sha384_val: "length (md_run 128 sha2big_round sha384_IV m) = 8"
  by (rule length_md_run_inv) (simp_all add: length_sha2big_round sha384_IV_def)

lemma length_sha384_spec [simp]: "length (sha384_spec m) = 48"
  by (simp add: sha384_spec_def length_sha384_val)

lemma sha384_repr_set_state:
  assumes "sha384_repr cc m" "length m mod 128 = 0" "length (b_buf c) = 128"
  shows "sha384_repr (br_sha384_set_state c (fst (br_sha384_state cc)) (word_of_nat (length m))) m"
  using assms range_dec_enc64 [of "b_val cc" 8] length_sha384_val [of m]
  by (simp add: sha384_repr_def br_sha384_set_state_def br_sha384_state_def md_rest_def)

end
