(* ===== verification/Sha384_Limbs.thy ===== *)
theory Sha384_Limbs
  imports Sha2
begin

text \<open>
  The replacement SHA-512/384 core of bearssl/src/hash/sha2big.c for CodeWarrior 8
  (\<open>__MWERKS__\<close>): no 64-bit arithmetic, each 64-bit word is a pair of 32-bit limbs with the
  carry computed by hand. \<open>unsigned long\<close> has 32 bits on the target, so the masks
  \<open>SHA2BIG_M32_\<close> are the identity on the limb type and the union split takes the high limb
  first (big-endian). The theory proves that this core, its length padding and its digest
  output agree with the 64-bit ones of theory Sha2.
\<close>

unbundle bit_operations_syntax

section \<open>Limb arithmetic\<close>

record lw =
  lw_hi :: u32
  lw_lo :: u32

definition mk_lw :: "u32 \<Rightarrow> u32 \<Rightarrow> lw" where
  "mk_lw h l = \<lparr>lw_hi = h, lw_lo = l\<rparr>"

lemma mk_lw_sel [simp]: "lw_hi (mk_lw h l) = h" "lw_lo (mk_lw h l) = l"
  by (simp_all add: mk_lw_def)

definition sha2big_add :: "lw \<Rightarrow> lw \<Rightarrow> lw" where
  "sha2big_add a b =
     (let lo = lw_lo a + lw_lo b; carry = (if lo < lw_lo a then 1 else 0)
      in mk_lw (lw_hi a + lw_hi b + carry) lo)"

definition sha2big_xor :: "lw \<Rightarrow> lw \<Rightarrow> lw" where
  "sha2big_xor a b = mk_lw (lw_hi a XOR lw_hi b) (lw_lo a XOR lw_lo b)"

definition sha2big_and :: "lw \<Rightarrow> lw \<Rightarrow> lw" where
  "sha2big_and a b = mk_lw (lw_hi a AND lw_hi b) (lw_lo a AND lw_lo b)"

definition sha2big_or :: "lw \<Rightarrow> lw \<Rightarrow> lw" where
  "sha2big_or a b = mk_lw (lw_hi a OR lw_hi b) (lw_lo a OR lw_lo b)"

definition sha2big_rotr :: "lw \<Rightarrow> nat \<Rightarrow> lw" where
  "sha2big_rotr x n =
     (let (x, n) = (if 32 \<le> n then (mk_lw (lw_lo x) (lw_hi x), n - 32) else (x, n))
      in if n = 0 then x
         else mk_lw (drop_bit n (lw_hi x) OR push_bit (32 - n) (lw_lo x))
                    (drop_bit n (lw_lo x) OR push_bit (32 - n) (lw_hi x)))"

definition sha2big_shr :: "lw \<Rightarrow> nat \<Rightarrow> lw" where
  "sha2big_shr x n =
     mk_lw (drop_bit n (lw_hi x)) (drop_bit n (lw_lo x) OR push_bit (32 - n) (lw_hi x))"

definition sha2big_ch :: "lw \<Rightarrow> lw \<Rightarrow> lw \<Rightarrow> lw" where
  "sha2big_ch x y z = sha2big_xor (sha2big_and (sha2big_xor y z) x) z"

definition sha2big_maj :: "lw \<Rightarrow> lw \<Rightarrow> lw \<Rightarrow> lw" where
  "sha2big_maj x y z = sha2big_or (sha2big_and y z) (sha2big_and (sha2big_or y z) x)"

definition sha2big_bsg0 :: "lw \<Rightarrow> lw" where
  "sha2big_bsg0 x = sha2big_xor (sha2big_xor (sha2big_rotr x 28) (sha2big_rotr x 34)) (sha2big_rotr x 39)"

definition sha2big_bsg1 :: "lw \<Rightarrow> lw" where
  "sha2big_bsg1 x = sha2big_xor (sha2big_xor (sha2big_rotr x 14) (sha2big_rotr x 18)) (sha2big_rotr x 41)"

definition sha2big_ssg0 :: "lw \<Rightarrow> lw" where
  "sha2big_ssg0 x = sha2big_xor (sha2big_xor (sha2big_rotr x 1) (sha2big_rotr x 8)) (sha2big_shr x 7)"

definition sha2big_ssg1 :: "lw \<Rightarrow> lw" where
  "sha2big_ssg1 x = sha2big_xor (sha2big_xor (sha2big_rotr x 19) (sha2big_rotr x 61)) (sha2big_shr x 6)"

text \<open>The big-endian union between a 64-bit word and its two limbs.\<close>

definition lw_split :: "u64 \<Rightarrow> lw" where
  "lw_split u = mk_lw (ucast (drop_bit 32 u)) (ucast u)"

definition lw_val :: "lw \<Rightarrow> u64" where
  "lw_val x = word_cat (lw_hi x) (lw_lo x)"

section \<open>The limb round, padding and output\<close>

primrec sha2big_expand_cw8 :: "nat \<Rightarrow> lw list \<Rightarrow> lw list" where
  "sha2big_expand_cw8 0 w = w"
| "sha2big_expand_cw8 (Suc n) w =
     (let i = length w;
          t = sha2big_add (sha2big_ssg1 (w ! (i - 2))) (w ! (i - 7));
          t = sha2big_add t (sha2big_ssg0 (w ! (i - 15)))
      in sha2big_expand_cw8 n (w @ [sha2big_add t (w ! (i - 16))]))"

fun sha2big_step_cw8 :: "lw list \<Rightarrow> nat \<Rightarrow> lw regs \<Rightarrow> lw regs" where
  "sha2big_step_cw8 w i (a, b, c, d, e, f, g, h) =
     (let kk = lw_split (sha512_K ! i);
          t1 = sha2big_add h (sha2big_bsg1 e);
          t1 = sha2big_add t1 (sha2big_ch e f g);
          t1 = sha2big_add t1 kk;
          t1 = sha2big_add t1 (w ! i);
          t2 = sha2big_add (sha2big_bsg0 a) (sha2big_maj a b c)
      in (sha2big_add t1 t2, a, b, c, sha2big_add d t1, e, f, g))"

definition sha2big_round_cw8 :: "bytes \<Rightarrow> u64 list \<Rightarrow> u64 list" where
  "sha2big_round_cw8 buf val =
     (let v = map lw_split val;
          w0 = map (\<lambda>i. mk_lw (br_dec32be buf (8 * i)) (br_dec32be buf (8 * i + 4))) [0..<16];
          w = sha2big_expand_cw8 64 w0;
          r = fold (sha2big_step_cw8 w) [0..<80] (regs_of v)
      in map lw_val (map2 sha2big_add v (regs_list r)))"

definition sha2big_len_cw8 :: "u64 \<Rightarrow> bytes" where
  "sha2big_len_cw8 count =
     (let c = lw_split count;
          hh = drop_bit 29 (lw_hi c);
          bhi = push_bit 3 (lw_hi c) OR drop_bit 29 (lw_lo c);
          blo = push_bit 3 (lw_lo c)
      in replicate 7 0 @
         [ucast hh,
          ucast (drop_bit 24 bhi), ucast (drop_bit 16 bhi), ucast (drop_bit 8 bhi), ucast bhi,
          ucast (drop_bit 24 blo), ucast (drop_bit 16 blo), ucast (drop_bit 8 blo), ucast blo])"

definition sha2big_enc_cw8 :: "u64 \<Rightarrow> bytes" where
  "sha2big_enc_cw8 u =
     (let v = lw_split u
      in [ucast (drop_bit 24 (lw_hi v)), ucast (drop_bit 16 (lw_hi v)), ucast (drop_bit 8 (lw_hi v)),
          ucast (lw_hi v),
          ucast (drop_bit 24 (lw_lo v)), ucast (drop_bit 16 (lw_lo v)), ucast (drop_bit 8 (lw_lo v)),
          ucast (lw_lo v)])"

definition sha2big_out_cw8 :: "sha384_ctx \<Rightarrow> nat \<Rightarrow> bytes" where
  "sha2big_out_cw8 cc num =
     (let ptr = unat (b_count cc AND 127);
          val = md_final 128 sha2big_round_cw8 (take ptr (b_buf cc)) (b_val cc)
                  (sha2big_len_cw8 (b_count cc))
      in concat (map sha2big_enc_cw8 (take num val)))"

section \<open>Agreement with the 64-bit core\<close>

lemma bit_lw_val: "bit (lw_val x) i = (if i < 32 then bit (lw_lo x) i else bit (lw_hi x) (i - 32))"
  using bit_imp_le_length [of "lw_hi x" "i - 32"] by (auto simp: lw_val_def bit_word_cat_iff)

lemma lw_val_split [simp]: "lw_val (lw_split u) = u"
  by (rule bit_word_eqI) (simp add: bit_lw_val lw_split_def bit_simps less_diff_conv2)

lemma lw_val_xor [simp]: "lw_val (sha2big_xor a b) = lw_val a XOR lw_val b"
  by (rule bit_word_eqI) (simp add: bit_lw_val sha2big_xor_def bit_simps)

lemma lw_val_and [simp]: "lw_val (sha2big_and a b) = lw_val a AND lw_val b"
  by (rule bit_word_eqI) (simp add: bit_lw_val sha2big_and_def bit_simps)

lemma lw_val_or [simp]: "lw_val (sha2big_or a b) = lw_val a OR lw_val b"
  by (rule bit_word_eqI) (simp add: bit_lw_val sha2big_or_def bit_simps)

lemma unat_lw_val: "unat (lw_val x) = unat (lw_hi x) * 2 ^ 32 + unat (lw_lo x)"
proof -
  have b: "unat (lw_hi x) < 2 ^ 32" "unat (lw_lo x) < 2 ^ 32"
    using unsigned_less [of "lw_hi x"] unsigned_less [of "lw_lo x"] by simp_all
  have "lw_val x = word_of_nat (unat (lw_hi x)) * 2 ^ 32 + word_of_nat (unat (lw_lo x))"
    by (simp add: lw_val_def word_cat_eq push_bit_eq_mult)
  also have "\<dots> = word_of_nat (unat (lw_hi x) * 2 ^ 32 + unat (lw_lo x))"
    by (simp only: of_nat_add of_nat_mult of_nat_power of_nat_numeral)
  finally have "unat (lw_val x) = (unat (lw_hi x) * 2 ^ 32 + unat (lw_lo x)) mod 2 ^ 64"
    by (simp only: unat_of_nat) simp
  then show ?thesis using b by simp
qed

lemma mod_limb: "l < k \<Longrightarrow> (h mod k) * k + l = (h * k + l) mod (k * k)" for k :: nat
proof -
  assume l: "l < k"
  have "(h * k + l) mod (k * k) = k * ((h * k + l) div k mod k) + (h * k + l) mod k"
    by (rule mod_mult2_eq)
  moreover have "(h * k + l) div k = h" "(h * k + l) mod k = l" using l by simp_all
  ultimately show "(h mod k) * k + l = (h * k + l) mod (k * k)" by (simp add: mult.commute)
qed

lemma lw_val_add [simp]: "lw_val (sha2big_add a b) = lw_val a + lw_val b"
proof (rule unsigned_word_eqI [where ?'a = nat])
  define ah al bh bl where "ah = unat (lw_hi a)" "al = unat (lw_lo a)"
    "bh = unat (lw_hi b)" "bl = unat (lw_lo b)"
  have bnd: "al < 2 ^ 32" "bl < 2 ^ 32"
    using unsigned_less [of "lw_lo a"] unsigned_less [of "lw_lo b"] by (simp_all add: ah_al_bh_bl_def)
  define c where "c = (if al + bl < 2 ^ 32 then 0 else 1 :: nat)"
  have lo: "unat (lw_lo a + lw_lo b) = al + bl - c * 2 ^ 32"
    using bnd by (simp add: unat_word_ariths c_def ah_al_bh_bl_def mod_if)
  have carry: "(lw_lo a + lw_lo b < lw_lo a) = (c = 1)"
    using bnd lo by (auto simp: word_less_nat_alt c_def ah_al_bh_bl_def)
  have hi: "unat (lw_hi (sha2big_add a b)) = (ah + bh + c) mod 2 ^ 32"
    using carry by (auto simp: sha2big_add_def Let_def unat_word_ariths ah_al_bh_bl_def c_def mod_simps
        split: if_splits)
  have "unat (lw_val (sha2big_add a b)) = ((ah + bh + c) mod 2 ^ 32) * 2 ^ 32 + (al + bl - c * 2 ^ 32)"
    using lo by (simp add: unat_lw_val hi) (simp add: sha2big_add_def Let_def)
  also have "\<dots> = ((ah + bh + c) * 2 ^ 32 + (al + bl - c * 2 ^ 32)) mod (2 ^ 32 * 2 ^ 32)"
    using bnd by (intro mod_limb) (auto simp: c_def)
  also have "(ah + bh + c) * 2 ^ 32 + (al + bl - c * 2 ^ 32) = (ah * 2 ^ 32 + al) + (bh * 2 ^ 32 + bl)"
    by (simp add: c_def)
  finally show "unat (lw_val (sha2big_add a b)) = unat (lw_val a + lw_val b)"
    by (simp add: unat_word_ariths unat_lw_val ah_al_bh_bl_def)
qed

lemma lw_val_rotr [simp]: "0 < n \<Longrightarrow> n < 64 \<Longrightarrow> lw_val (sha2big_rotr x n) = rotr64 (lw_val x) n"
proof -
  assume n: "0 < n" "n < 64"
  show ?thesis
  proof (rule bit_word_eqI)
    fix i assume "i < LENGTH(64)"
    with n show "bit (lw_val (sha2big_rotr x n)) i = bit (rotr64 (lw_val x) n) i"
      using bit_imp_le_length [of "lw_hi x" "n + i - 32"] bit_imp_le_length [of "lw_hi x" "i + n - 32"]
        bit_imp_le_length [of "lw_lo x" "i + n"] bit_imp_le_length [of "lw_lo x" "i + n - 64"]
        bit_imp_le_length [of "lw_hi x" "i + n - 64"]
      by (cases "n < 32"; cases "i < 32")
         (auto simp: bit_lw_val sha2big_rotr_def rotr64_def Let_def bit_simps add.commute)
  qed
qed

lemma lw_val_shr [simp]: "0 < n \<Longrightarrow> n < 32 \<Longrightarrow> lw_val (sha2big_shr x n) = drop_bit n (lw_val x)"
proof -
  assume n: "0 < n" "n < 32"
  show ?thesis
  proof (rule bit_word_eqI)
    fix i assume "i < LENGTH(64)"
    with n show "bit (lw_val (sha2big_shr x n)) i = bit (drop_bit n (lw_val x)) i"
      using bit_imp_le_length [of "lw_lo x" "i + n"]
      by (cases "i < 32") (auto simp: bit_lw_val sha2big_shr_def bit_simps add.commute)
  qed
qed

lemma lw_val_functions [simp]:
  "lw_val (sha2big_ch x y z) = sha_ch (lw_val x) (lw_val y) (lw_val z)"
  "lw_val (sha2big_maj x y z) = sha_maj (lw_val x) (lw_val y) (lw_val z)"
  "lw_val (sha2big_bsg0 x) = bsg5_0 (lw_val x)"
  "lw_val (sha2big_bsg1 x) = bsg5_1 (lw_val x)"
  "lw_val (sha2big_ssg0 x) = ssg5_0 (lw_val x)"
  "lw_val (sha2big_ssg1 x) = ssg5_1 (lw_val x)"
  by (simp_all add: sha2big_ch_def sha2big_maj_def sha_ch_def sha_maj_def sha2big_bsg0_def
      sha2big_bsg1_def sha2big_ssg0_def sha2big_ssg1_def bsg5_0_def bsg5_1_def ssg5_0_def ssg5_1_def
      xor.assoc)

lemma lw_val_mk: "lw_val (mk_lw h l) = push_bit 32 (ucast h) OR ucast l"
  by (rule bit_word_eqI) (use bit_imp_le_length [of l] in \<open>auto simp: bit_lw_val bit_simps\<close>)

fun map_regs :: "('a \<Rightarrow> 'b) \<Rightarrow> 'a regs \<Rightarrow> 'b regs" where
  "map_regs k (a, b, c, d, e, f, g, h) = (k a, k b, k c, k d, k e, k f, k g, k h)"

lemma regs_list_map: "regs_list (map_regs k r) = map k (regs_list r)"
  by (cases r rule: regs_list.cases) simp

lemma length_sha2big_expand [simp]: "length (sha2big_expand_cw8 n w) = n + length w"
  by (induction n arbitrary: w) (simp_all add: Let_def)

lemma expand_cw8:
  "16 \<le> length w \<Longrightarrow> map lw_val (sha2big_expand_cw8 n w) = sha512_expand n (map lw_val w)"
  by (induction n arbitrary: w) (simp_all add: Let_def)

lemma step_cw8:
  "i < length w \<Longrightarrow>
   map_regs lw_val (sha2big_step_cw8 w i r) = sha2big_step (map lw_val w) i (map_regs lw_val r)"
  by (cases r rule: regs_list.cases) (simp add: Let_def)

lemma fold_cw8:
  "\<forall>i\<in>set is. i < length w \<Longrightarrow>
   map_regs lw_val (fold (sha2big_step_cw8 w) is r) = fold (sha2big_step (map lw_val w)) is (map_regs lw_val r)"
  by (induction "is" arbitrary: r) (simp_all add: step_cw8)

lemma w0_cw8:
  "map lw_val (map (\<lambda>i. mk_lw (br_dec32be buf (8 * i)) (br_dec32be buf (8 * i + 4))) [0..<16])
   = br_range_dec64be 16 buf"
  by (simp add: br_range_dec64be_def br_dec64be_def lw_val_mk)

lemma map2_lw_val: "map lw_val (map2 sha2big_add v r) = map2 (+) (map lw_val v) (map lw_val r)"
  by (induction v r rule: list_induct2') simp_all

lemma sha2big_round_cw8_eq:
  assumes "length val = 8"
  shows "sha2big_round_cw8 buf val = sha2big_round buf val"
proof -
  let ?w0 = "map (\<lambda>i. mk_lw (br_dec32be buf (8 * i)) (br_dec32be buf (8 * i + 4))) [0..<16]"
  let ?w = "sha2big_expand_cw8 64 ?w0"
  have w: "map lw_val ?w = sha512_expand 64 (br_range_dec64be 16 buf)"
    by (subst expand_cw8) (simp_all only: w0_cw8, simp)
  have v: "map lw_val (map lw_split val) = val" by (simp add: o_def)
  have r: "map_regs lw_val (regs_of (map lw_split val)) = regs_of val"
    using assms by simp
  have f: "map_regs lw_val (fold (sha2big_step_cw8 ?w) [0..<80] (regs_of (map lw_split val)))
           = fold (sha2big_step (sha512_expand 64 (br_range_dec64be 16 buf))) [0..<80] (regs_of val)"
    by (subst fold_cw8) (simp_all only: w r, simp)
  show ?thesis
    unfolding sha2big_round_cw8_def sha2big_round_def Let_def map2_lw_val v
    by (simp only: regs_list_map [symmetric] f)
qed

text \<open>Length padding and digest output.\<close>

lemma sha2big_len_cw8_eq:
  "sha2big_len_cw8 c = br_enc64be (drop_bit 61 c) @ br_enc64be (push_bit 3 c)"
proof -
  have rep: "replicate 7 (0 :: byte) = [0, 0, 0, 0, 0, 0, 0]" by (simp add: numeral_eq_Suc)
  have z: "\<And>i. 64 \<le> i \<Longrightarrow> \<not> bit c i" using bit_imp_le_length [of c] by fastforce
  have t: "\<And>n. bit c (61 + n) \<Longrightarrow> n < 3"
    using bit_imp_le_length [of c] by fastforce
  show ?thesis
    unfolding sha2big_len_cw8_def lw_split_def br_enc64be_def Let_def rep
    by (auto simp: bit_simps z dest: t intro!: bit_word_eqI)
qed

lemma sha2big_enc_cw8_eq: "sha2big_enc_cw8 u = br_enc64be u"
  by (auto simp: sha2big_enc_cw8_def lw_split_def br_enc64be_def Let_def bit_simps intro!: bit_word_eqI)

lemma md_final_cong:
  assumes "\<And>b v. length v = n \<Longrightarrow> rnd b v = rnd' b v" "\<And>b v. length v = n \<Longrightarrow> length (rnd b v) = n"
    "length val = n"
  shows "md_final blk rnd pend val len = md_final blk rnd' pend val len"
  using assms by (simp add: md_final_def Let_def)

lemma sha2big_out_cw8_eq:
  assumes "length (b_val cc) = 8"
  shows "sha2big_out_cw8 cc num = sha2big_out cc num"
proof -
  have "md_final 128 sha2big_round_cw8 p (b_val cc) len = md_final 128 sha2big_round p (b_val cc) len"
    for p len
    by (rule md_final_cong [where n = 8])
       (simp_all add: sha2big_round_cw8_eq length_sha2big_round assms)
  then show ?thesis
    by (simp add: sha2big_out_cw8_def sha2big_out_def sha2big_len_cw8_eq sha2big_enc_cw8_eq
        br_range_enc64be_def cong: map_cong)
qed

section \<open>Properties\<close>

text \<open>C34: on a state of eight words, the round function that macTLS added for a compiler
  without 64-bit integers computes exactly the 64-bit round of SHA-384, and so does the
  padding and output built on it.\<close>

theorem limb_core_equivalent:
  assumes "length val = 8" "length (b_val cc) = 8"
  shows "sha2big_round_cw8 buf val = sha2big_round buf val \<and> sha2big_out_cw8 cc num = sha2big_out cc num"
  using assms by (simp add: sha2big_round_cw8_eq sha2big_out_cw8_eq)

theorem limb_core_equivalent_witness:
  "sha2big_out_cw8 (br_sha384_init \<lparr>b_buf = replicate 128 0, b_val = [], b_count = 0\<rparr>) 6
   = sha2big_out (br_sha384_init \<lparr>b_buf = replicate 128 0, b_val = [], b_count = 0\<rparr>) 6
   \<and> sha2big_round_cw8 (replicate 128 7) sha384_IV = sha2big_round (replicate 128 7) sha384_IV"
  using limb_core_equivalent [of sha384_IV
      "br_sha384_init \<lparr>b_buf = replicate 128 0, b_val = [], b_count = 0\<rparr>" "replicate 128 7" 6]
  by (simp add: br_sha384_init_def sha384_IV_def)

end
