(* ===== verification/Hmac.thy ===== *)
theory Hmac
  imports Sha384_Limbs
begin

text \<open>
  The hash interface of BearSSL (\<open>br_hash_class\<close>: the vtable through which HMAC, the key
  schedule and the transcript reach SHA-256 or SHA-384), HMAC (bearssl/src/mac/hmac.c) and
  HMAC-DRBG (bearssl/src/rand/hmac_drbg.c).

  The interface is the locale \<open>stream_hash\<close>; it is interpreted on both SHA-2 models and on
  the vtable dispatch itself. HMAC is proved equal to RFC 2104 on the one-shot hashes, with
  the key halves processed once and restored through \<open>state\<close> and \<open>set_state\<close>, whatever the
  pieces the message arrives in.
\<close>

unbundle bit_operations_syntax

section \<open>The streaming hash interface\<close>

locale stream_hash =
  fixes init :: "'c"
    and update :: "'c \<Rightarrow> bytes \<Rightarrow> 'c"
    and out :: "'c \<Rightarrow> bytes"
    and state :: "'c \<Rightarrow> bytes"
    and set_state :: "'c \<Rightarrow> bytes \<Rightarrow> u64 \<Rightarrow> 'c"
    and repr :: "'c \<Rightarrow> bytes \<Rightarrow> bool"
    and H :: "bytes \<Rightarrow> bytes"
    and blen :: nat
    and hlen :: nat
  assumes repr_init: "repr init []"
    and repr_update: "repr c m \<Longrightarrow> repr (update c d) (m @ d)"
    and repr_out: "repr c m \<Longrightarrow> out c = H m"
    and repr_set_state: "repr c m \<Longrightarrow> length m mod blen = 0 \<Longrightarrow>
          repr (set_state init (state c) (word_of_nat (length m))) m"
    and length_H: "length (H m) = hlen"
    and hlen_le: "hlen \<le> blen"
    and hlen_pos: "0 < hlen"
begin

lemma repr_updates: "repr c m \<Longrightarrow> repr (foldl update c ds) (m @ concat ds)"
proof (induction ds arbitrary: c m)
  case Nil
  then show ?case by simp
next
  case (Cons d ds)
  then show ?case using repr_update [of c m d] by fastforce
qed

lemma out_updates: "out (foldl update init ds) = H (concat ds)"
  using repr_out [OF repr_updates [OF repr_init]] by simp

lemma resume_state:
  assumes "length k = blen"
  shows "out (foldl update (set_state init (state (update init k)) (word_of_nat blen)) ds)
         = H (k @ concat ds)"
proof -
  have "repr (update init k) k" using repr_update [OF repr_init, of k] by simp
  then have "repr (set_state init (state (update init k)) (word_of_nat blen)) k"
    using repr_set_state [of "update init k" k] assms by simp
  then show ?thesis by (rule repr_out [OF repr_updates])
qed

end

definition fresh256 :: sha256_ctx where
  "fresh256 = br_sha256_init \<lparr>s_buf = replicate 64 0, s_val = [], s_count = 0\<rparr>"

definition fresh384 :: sha384_ctx where
  "fresh384 = br_sha384_init \<lparr>b_buf = replicate 128 0, b_val = [], b_count = 0\<rparr>"

lemma length_fresh: "length (s_buf fresh256) = 64" "length (b_buf fresh384) = 128"
  by (simp_all add: fresh256_def fresh384_def br_sha256_init_def br_sha384_init_def)

interpretation sha256: stream_hash fresh256 br_sha256_update br_sha256_out "\<lambda>c. fst (br_sha256_state c)"
  br_sha256_set_state sha256_repr sha256_spec 64 32
  by unfold_locales
     (simp_all add: fresh256_def sha256_repr_init sha256_repr_update sha256_repr_out
       sha256_repr_set_state length_fresh [unfolded fresh256_def])

interpretation sha384: stream_hash fresh384 br_sha384_update br_sha384_out "\<lambda>c. fst (br_sha384_state c)"
  br_sha384_set_state sha384_repr sha384_spec 128 48
  by unfold_locales
     (simp_all add: fresh384_def sha384_repr_init sha384_repr_update sha384_repr_out
       sha384_repr_set_state length_fresh [unfolded fresh384_def])

section \<open>Dispatch through the vtable\<close>

text \<open>\<open>br_hash_compat_context\<close> is a union whose first field is the vtable; here the
  constructor is the vtable. A stack context before \<open>init\<close> holds arbitrary bytes; the block
  buffer of a fresh context is all zeros here, and by the representation laws its content is
  never read before it is written.\<close>

datatype hash_alg = SHA256 | SHA384

datatype hash_ctx = Ctx256 sha256_ctx | Ctx384 sha384_ctx

fun dig_init :: "hash_alg \<Rightarrow> hash_ctx" where
  "dig_init SHA256 = Ctx256 fresh256"
| "dig_init SHA384 = Ctx384 fresh384"

fun dig_update :: "hash_ctx \<Rightarrow> bytes \<Rightarrow> hash_ctx" where
  "dig_update (Ctx256 c) d = Ctx256 (br_sha256_update c d)"
| "dig_update (Ctx384 c) d = Ctx384 (br_sha384_update c d)"

fun dig_out :: "hash_ctx \<Rightarrow> bytes" where
  "dig_out (Ctx256 c) = br_sha256_out c"
| "dig_out (Ctx384 c) = br_sha384_out c"

fun dig_state :: "hash_ctx \<Rightarrow> bytes" where
  "dig_state (Ctx256 c) = fst (br_sha256_state c)"
| "dig_state (Ctx384 c) = fst (br_sha384_state c)"

fun dig_set_state :: "hash_ctx \<Rightarrow> bytes \<Rightarrow> u64 \<Rightarrow> hash_ctx" where
  "dig_set_state (Ctx256 c) st n = Ctx256 (br_sha256_set_state c st n)"
| "dig_set_state (Ctx384 c) st n = Ctx384 (br_sha384_set_state c st n)"

fun dig_alg :: "hash_ctx \<Rightarrow> hash_alg" where
  "dig_alg (Ctx256 c) = SHA256"
| "dig_alg (Ctx384 c) = SHA384"

fun block_size :: "hash_alg \<Rightarrow> nat" where
  "block_size SHA256 = 2 ^ 6"
| "block_size SHA384 = 2 ^ 7"

fun br_digest_size :: "hash_alg \<Rightarrow> nat" where
  "br_digest_size SHA256 = 32"
| "br_digest_size SHA384 = 48"

text \<open>The one-shot hash a vtable stands for, and the representation of a message by a
  context under that vtable.\<close>

fun hash_spec :: "hash_alg \<Rightarrow> bytes \<Rightarrow> bytes" where
  "hash_spec SHA256 m = sha256_spec m"
| "hash_spec SHA384 m = sha384_spec m"

fun dig_repr :: "hash_alg \<Rightarrow> hash_ctx \<Rightarrow> bytes \<Rightarrow> bool" where
  "dig_repr SHA256 (Ctx256 c) m = sha256_repr c m"
| "dig_repr SHA384 (Ctx384 c) m = sha384_repr c m"
| "dig_repr _ _ _ = False"

fun_cases dig_repr_cases: "dig_repr a c m"

lemma length_hash_spec [simp]: "length (hash_spec a m) = br_digest_size a"
  by (cases a) simp_all

lemma digest_size_bounds [simp]:
  "br_digest_size a \<le> block_size a" "0 < br_digest_size a" "br_digest_size a \<le> 48"
  by (cases a; simp)+

interpretation dig: stream_hash "dig_init a" dig_update dig_out dig_state dig_set_state
  "dig_repr a" "hash_spec a" "block_size a" "br_digest_size a" for a
proof (cases a)
  case SHA256
  show "stream_hash (dig_init a) dig_update dig_out dig_state dig_set_state
    (dig_repr a) (hash_spec a) (block_size a) (br_digest_size a)"
    unfolding SHA256
    by unfold_locales
       (auto simp: sha256.repr_init sha256.repr_out elim!: dig_repr_cases
         intro: sha256.repr_update sha256.repr_set_state [unfolded mod_eq_0_iff_dvd])
next
  case SHA384
  show "stream_hash (dig_init a) dig_update dig_out dig_state dig_set_state
    (dig_repr a) (hash_spec a) (block_size a) (br_digest_size a)"
    unfolding SHA384
    by unfold_locales
       (auto simp: sha384.repr_init sha384.repr_out elim!: dig_repr_cases
         intro: sha384.repr_update sha384.repr_set_state [unfolded mod_eq_0_iff_dvd])
qed

section \<open>HMAC\<close>

record hmac_key_ctx =
  kc_dig :: hash_alg
  ksi :: bytes
  kso :: bytes

record hmac_ctx =
  hm_dig :: hash_ctx
  hm_kso :: bytes
  hm_out_len :: nat

definition process_key :: "hash_alg \<Rightarrow> bytes \<Rightarrow> byte \<Rightarrow> bytes" where
  "process_key dig key bb =
     (let tmp = map (\<lambda>x. x XOR bb) key @ replicate (block_size dig - length key) bb
      in dig_state (dig_update (dig_init dig) tmp))"

definition br_hmac_key_init :: "hash_alg \<Rightarrow> bytes \<Rightarrow> hmac_key_ctx" where
  "br_hmac_key_init dig key =
     (let key' = (if block_size dig < length key then dig_out (dig_update (dig_init dig) key) else key)
      in \<lparr>kc_dig = dig, ksi = process_key dig key' 0x36, kso = process_key dig key' 0x5C\<rparr>)"

definition br_hmac_init :: "hmac_key_ctx \<Rightarrow> nat \<Rightarrow> hmac_ctx" where
  "br_hmac_init kc out_len =
     (let dig = kc_dig kc; hlen = br_digest_size dig
      in \<lparr>hm_dig = dig_set_state (dig_init dig) (ksi kc) (word_of_nat (block_size dig)),
          hm_kso = kso kc,
          hm_out_len = (if 0 < out_len \<and> out_len < hlen then out_len else hlen)\<rparr>)"

definition br_hmac_update :: "hmac_ctx \<Rightarrow> bytes \<Rightarrow> hmac_ctx" where
  "br_hmac_update ctx data = ctx\<lparr>hm_dig := dig_update (hm_dig ctx) data\<rparr>"

definition br_hmac_out :: "hmac_ctx \<Rightarrow> bytes" where
  "br_hmac_out ctx =
     (let dig = dig_alg (hm_dig ctx);
          tmp = dig_out (hm_dig ctx);
          hc = dig_set_state (dig_init dig) (hm_kso ctx) (word_of_nat (block_size dig));
          hc = dig_update hc (take (br_digest_size dig) tmp)
      in take (hm_out_len ctx) (dig_out hc))"

text \<open>RFC 2104 over the one-shot hash.\<close>

definition hmac_block_key :: "hash_alg \<Rightarrow> bytes \<Rightarrow> bytes" where
  "hmac_block_key a key =
     (let k = (if block_size a < length key then hash_spec a key else key)
      in k @ replicate (block_size a - length k) 0)"

definition hmac_spec :: "hash_alg \<Rightarrow> bytes \<Rightarrow> bytes \<Rightarrow> bytes" where
  "hmac_spec a key m =
     hash_spec a (map (\<lambda>x. x XOR 0x5C) (hmac_block_key a key) @
       hash_spec a (map (\<lambda>x. x XOR 0x36) (hmac_block_key a key) @ m))"

lemma length_hmac_block_key [simp]: "length (hmac_block_key a key) = block_size a"
  using digest_size_bounds(1) [of a] by (auto simp: hmac_block_key_def Let_def)

lemma process_key_eq:
  "process_key a (if block_size a < length key then dig_out (dig_update (dig_init a) key) else key) bb
   = dig_state (dig_update (dig_init a) (map (\<lambda>x. x XOR bb) (hmac_block_key a key)))"
  using dig.out_updates [of a "[key]"]
  by (simp add: process_key_def hmac_block_key_def Let_def map_replicate_const)

lemma dig_alg_simps [simp]:
  "dig_alg (dig_init a) = a" "dig_alg (dig_update c d) = dig_alg c" "dig_alg (dig_set_state c s n) = dig_alg c"
  by (cases a; simp) (cases c; simp)+

lemma dig_alg_updates [simp]: "dig_alg (foldl dig_update c ds) = dig_alg c"
  by (induction ds arbitrary: c) simp_all

lemma hmac_updates:
  "foldl br_hmac_update ctx ds = ctx\<lparr>hm_dig := foldl dig_update (hm_dig ctx) ds\<rparr>"
  by (induction ds arbitrary: ctx) (simp_all add: br_hmac_update_def)

lemma hmac_out_updates:
  "br_hmac_out (foldl br_hmac_update (br_hmac_init (br_hmac_key_init a key) n) ds)
   = take (if 0 < n \<and> n < br_digest_size a then n else br_digest_size a) (hmac_spec a key (concat ds))"
proof -
  let ?k = "\<lambda>bb. map (\<lambda>x. x XOR bb) (hmac_block_key a key)"
  have inner: "dig_out (foldl dig_update (dig_set_state (dig_init a)
      (dig_state (dig_update (dig_init a) (?k 0x36))) (word_of_nat (block_size a))) ds)
      = hash_spec a (?k 0x36 @ concat ds)"
    by (rule dig.resume_state) simp
  have outer: "dig_out (dig_update (dig_set_state (dig_init a)
      (dig_state (dig_update (dig_init a) (?k 0x5C))) (word_of_nat (block_size a))) d)
      = hash_spec a (?k 0x5C @ d)" for d
    using dig.resume_state [of "?k 0x5C" a "[d]"] by simp
  show ?thesis
    by (simp add: hmac_updates br_hmac_out_def br_hmac_init_def br_hmac_key_init_def Let_def
        process_key_eq inner outer hmac_spec_def)
qed

lemma length_hmac_spec [simp]: "length (hmac_spec a key m) = br_digest_size a"
  by (simp add: hmac_spec_def)

text \<open>The uses in the program: full output, one, two or three pieces.\<close>

lemma hmac_out_pieces:
  "br_hmac_out (br_hmac_update (br_hmac_init (br_hmac_key_init a key) 0) x) = hmac_spec a key x"
  "br_hmac_out (br_hmac_update (br_hmac_update (br_hmac_init (br_hmac_key_init a key) 0) x) y)
   = hmac_spec a key (x @ y)"
  "br_hmac_out (br_hmac_update (br_hmac_update (br_hmac_update
      (br_hmac_init (br_hmac_key_init a key) 0) x) y) z) = hmac_spec a key (x @ y @ z)"
  using hmac_out_updates [of a key 0 "[x]"] hmac_out_updates [of a key 0 "[x, y]"]
    hmac_out_updates [of a key 0 "[x, y, z]"]
  by simp_all

section \<open>HMAC-DRBG\<close>

record drbg =
  dr_K :: bytes
  dr_V :: bytes
  dr_dig :: hash_alg

definition br_hmac_drbg_update :: "drbg \<Rightarrow> bytes \<Rightarrow> drbg" where
  "br_hmac_drbg_update ctx seed =
     (let dig = dr_dig ctx;
          kc = br_hmac_key_init dig (dr_K ctx);
          K = br_hmac_out (br_hmac_update (br_hmac_update (br_hmac_update
                (br_hmac_init kc 0) (dr_V ctx)) [0]) seed);
          kc = br_hmac_key_init dig K;
          V = br_hmac_out (br_hmac_update (br_hmac_init kc 0) (dr_V ctx))
      in if seed = [] then ctx\<lparr>dr_K := K, dr_V := V\<rparr>
         else let K = br_hmac_out (br_hmac_update (br_hmac_update (br_hmac_update
                        (br_hmac_init kc 0) V) [1]) seed);
                  kc = br_hmac_key_init dig K;
                  V = br_hmac_out (br_hmac_update (br_hmac_init kc 0) V)
              in ctx\<lparr>dr_K := K, dr_V := V\<rparr>)"

definition br_hmac_drbg_init :: "hash_alg \<Rightarrow> bytes \<Rightarrow> drbg" where
  "br_hmac_drbg_init dig seed =
     br_hmac_drbg_update
       \<lparr>dr_K = replicate (br_digest_size dig) 0, dr_V = replicate (br_digest_size dig) 1, dr_dig = dig\<rparr>
       seed"

function drbg_blocks :: "hash_alg \<Rightarrow> hmac_key_ctx \<Rightarrow> bytes \<Rightarrow> nat \<Rightarrow> bytes \<times> bytes" where
  "drbg_blocks dig kc V len =
     (if len = 0 then ([], V)
      else let V' = br_hmac_out (br_hmac_update (br_hmac_init kc 0) V);
               clen = min (br_digest_size dig) len;
               (rest, V'') = drbg_blocks dig kc V' (len - clen)
           in (take clen V' @ rest, V''))"
  by pat_completeness auto
termination
  by (relation "measure (\<lambda>(dig, kc, V, len). len)") (auto simp: min_def)

declare drbg_blocks.simps [simp del]

definition br_hmac_drbg_generate :: "drbg \<Rightarrow> nat \<Rightarrow> bytes \<times> drbg" where
  "br_hmac_drbg_generate ctx len =
     (let dig = dr_dig ctx;
          kc = br_hmac_key_init dig (dr_K ctx);
          (buf, V) = drbg_blocks dig kc (dr_V ctx) len;
          K = br_hmac_out (br_hmac_update (br_hmac_update (br_hmac_init kc 0) V) [0]);
          kc = br_hmac_key_init dig K;
          V = br_hmac_out (br_hmac_update (br_hmac_init kc 0) V)
      in (buf, ctx\<lparr>dr_K := K, dr_V := V\<rparr>))"

text \<open>The generator of SP 800-90A: the stream of the iterates of \<open>V\<close>, cut to the request,
  then the state update with no additional input (which the code inlines).\<close>

primrec drbg_stream :: "hash_alg \<Rightarrow> bytes \<Rightarrow> bytes \<Rightarrow> nat \<Rightarrow> bytes" where
  "drbg_stream a K V 0 = []"
| "drbg_stream a K V (Suc n) = (let V' = hmac_spec a K V in V' @ drbg_stream a K V' n)"

lemma ceil_div_step:
  fixes h n :: nat
  assumes "0 < h" "0 < n"
  shows "(n + h - 1) div h = Suc ((n - min h n + h - 1) div h)"
proof (cases "h \<le> n")
  case True
  then have "n + h - 1 = (n - h + h - 1) + h" using assms by simp
  then have "(n + h - 1) div h = ((n - h + h - 1) + h) div h" by (rule arg_cong)
  also have "\<dots> = (n - h + h - 1) div h + 1" using assms by (intro div_add_self2) simp
  finally show ?thesis using True by (simp add: min_def)
next
  case False
  then have "n + h - 1 = (n - 1) + h" using assms by simp
  then have "(n + h - 1) div h = ((n - 1) + h) div h" by (rule arg_cong)
  also have "\<dots> = (n - 1) div h + 1" using assms by (intro div_add_self2) simp
  also have "\<dots> = 1" using False by simp
  finally show ?thesis using assms False by (simp add: min_def)
qed

lemma ceil_div_ge: "0 < h \<Longrightarrow> n \<le> (n + h - 1) div h * h" for h n :: nat
  using div_mult_mod_eq [of "n + h - 1" h] mod_less_divisor [of h "n + h - 1"] by linarith

lemma drbg_blocks_eq:
  "drbg_blocks a (br_hmac_key_init a K) V len =
     (take len (drbg_stream a K V ((len + br_digest_size a - 1) div br_digest_size a)),
      (hmac_spec a K ^^ ((len + br_digest_size a - 1) div br_digest_size a)) V)"
proof (induction len arbitrary: V rule: less_induct)
  case (less len)
  let ?h = "br_digest_size a"
  have h: "0 < ?h" by simp
  show ?case
  proof (cases "len = 0")
    case True
    have "(?h - 1) div ?h = 0" by simp
    with True show ?thesis by (simp add: drbg_blocks.simps)
  next
    case False
    let ?V = "hmac_spec a K V" and ?c = "min ?h len"
    have less: "len - ?c < len" using False h by (simp add: min_def)
    have "(len + ?h - 1) div ?h = Suc ((len - ?c + ?h - 1) div ?h)"
      using ceil_div_step [of ?h len] h False by simp
    moreover have "take ?c ?V = take len ?V" by (simp add: min_def)
    ultimately show ?thesis
      using False less.IH [OF less, of ?V]
      by (subst drbg_blocks.simps)
         (auto simp: hmac_out_pieces Let_def funpow_swap1 min_def)
  qed
qed

lemma drbg_update_empty:
  "br_hmac_drbg_update ctx [] =
     (let K = hmac_spec (dr_dig ctx) (dr_K ctx) (dr_V ctx @ [0])
      in ctx\<lparr>dr_K := K, dr_V := hmac_spec (dr_dig ctx) K (dr_V ctx)\<rparr>)"
  by (simp add: br_hmac_drbg_update_def hmac_out_pieces Let_def)

lemma drbg_generate_eq:
  "br_hmac_drbg_generate ctx len =
     (let a = dr_dig ctx; n = (len + br_digest_size a - 1) div br_digest_size a
      in (take len (drbg_stream a (dr_K ctx) (dr_V ctx) n),
          br_hmac_drbg_update (ctx\<lparr>dr_V := (hmac_spec a (dr_K ctx) ^^ n) (dr_V ctx)\<rparr>) []))"
  by (simp add: br_hmac_drbg_generate_def drbg_blocks_eq drbg_update_empty hmac_out_pieces Let_def)

lemma length_drbg_stream [simp]: "length (drbg_stream a K V n) = n * br_digest_size a"
  by (induction n arbitrary: V) (simp_all add: Let_def)

lemma length_drbg_generate:
  assumes "br_hmac_drbg_generate ctx len = (out, ctx')"
  shows "length out = len"
proof -
  have "len \<le> (len + br_digest_size (dr_dig ctx) - 1) div br_digest_size (dr_dig ctx) * br_digest_size (dr_dig ctx)"
    by (rule ceil_div_ge) simp
  with assms show ?thesis by (auto simp: drbg_generate_eq Let_def)
qed

section \<open>Properties\<close>

text \<open>Through the hash interface, the digest of a message fed in any pieces is the digest
  of their concatenation, padded and compressed in one pass, for SHA-256 and for SHA-384.\<close>

lemma streaming_digest:
  "dig_out (foldl dig_update (dig_init a) ds) = hash_spec a (concat ds)"
  by (rule dig.out_updates)

text \<open>C22: HMAC with a key of any length, the message in any pieces and the key halves processed
  once and restored for each MAC, is RFC 2104 HMAC of the whole message, cut to the length
  asked for.\<close>

theorem hmac_is_rfc2104:
  "br_hmac_out (foldl br_hmac_update (br_hmac_init (br_hmac_key_init a key) n) ds)
   = take (if 0 < n \<and> n < br_digest_size a then n else br_digest_size a) (hmac_spec a key (concat ds))"
  by (rule hmac_out_updates)

text \<open>C36: a request to the generator returns as many bytes as asked for, cut from the stream of
  the iterated HMAC, and leaves the generator in the state of SP 800-90A's update with no
  additional input.\<close>

theorem drbg_generates_stream:
  "br_hmac_drbg_generate ctx len =
     (let a = dr_dig ctx; n = (len + br_digest_size a - 1) div br_digest_size a
      in (take len (drbg_stream a (dr_K ctx) (dr_V ctx) n),
          br_hmac_drbg_update (ctx\<lparr>dr_V := (hmac_spec a (dr_K ctx) ^^ n) (dr_V ctx)\<rparr>) []))
   \<and> length (fst (br_hmac_drbg_generate ctx len)) = len"
  using drbg_generate_eq [of ctx len] length_drbg_generate [of ctx len] by (metis prod.collapse)

end
