(* ===== verification/Key_Schedule.thy ===== *)
theory Key_Schedule
  imports Hmac
begin

text \<open>
  The TLS 1.3 key schedule, os9/ostls_tls13_keysched.c: HKDF-Expand-Label, Derive-Secret,
  HKDF-Extract, and the chain Early Secret, Handshake Secret, Master Secret with the traffic
  keys taken from it. The C struct \<open>tls13_keysched\<close> is the record \<open>keysched\<close>; its two
  64-byte arrays are byte lists written by \<open>wr\<close> and read by \<open>rd\<close>.

  The abstract specification is HKDF (RFC 5869) and the chain of RFC 8446 section 7.1 over the
  one-shot HMAC; every operation is proved to refine it, and the label encoding is proved
  injective, which is what keeps secrets of different labels and transcripts apart.
\<close>

definition ascii :: "string \<Rightarrow> bytes" where
  "ascii s = map of_char s"

section \<open>Operations\<close>

text \<open>The info string: \<open>HkdfLabel\<close> as \<open>hkdf_expand_label\<close> lays it out in \<open>info\<close>.\<close>

definition hkdf_info :: "nat \<Rightarrow> bytes \<Rightarrow> bytes \<Rightarrow> bytes" where
  "hkdf_info out_len label context =
     (let tls_label_len = 6 + length label;
          info = [word_of_nat (out_len div 256), word_of_nat out_len, word_of_nat tls_label_len];
          info = wr info 3 (ascii ''tls13 '');
          info = wr info 9 label;
          info = wr info (9 + length label) [word_of_nat (length context)];
          info = (if 0 < length context then wr info (10 + length label) context else info);
          info_len = 10 + length label + length context
      in rd info 0 info_len)"

definition hkdf_expand_label :: "hash_alg \<Rightarrow> bytes \<Rightarrow> bytes \<Rightarrow> bytes \<Rightarrow> nat \<Rightarrow> bytes" where
  "hkdf_expand_label hash secret label context out_len =
     (let info = hkdf_info out_len label context;
          kc = br_hmac_key_init hash secret;
          mc = br_hmac_init kc 0;
          mc = br_hmac_update mc info;
          mc = br_hmac_update mc [0x01];
          tmp = br_hmac_out mc
      in rd tmp 0 out_len)"

definition derive_secret :: "hash_alg \<Rightarrow> nat \<Rightarrow> bytes \<Rightarrow> bytes \<Rightarrow> bytes \<Rightarrow> bytes" where
  "derive_secret hash hash_len secret label transcript_hash =
     hkdf_expand_label hash (rd secret 0 hash_len) label (rd transcript_hash 0 hash_len) hash_len"

definition hkdf_extract :: "hash_alg \<Rightarrow> bytes \<Rightarrow> bytes \<Rightarrow> bytes" where
  "hkdf_extract hash salt ikm =
     (let kc = br_hmac_key_init hash salt;
          mc = br_hmac_init kc 0
      in br_hmac_out (br_hmac_update mc ikm))"

record keysched =
  ks_hash :: hash_alg
  ks_hash_len :: nat
  ks_secret :: bytes
  ks_empty_hash :: bytes

definition tls13_ks_init :: "keysched \<Rightarrow> hash_alg \<Rightarrow> keysched" where
  "tls13_ks_init ks hash =
     \<lparr>ks_hash = hash,
      ks_hash_len = (if hash = SHA256 then 32 else 48),
      ks_secret = replicate 64 0,
      ks_empty_hash = wr (ks_empty_hash ks) 0
        (if hash = SHA256 then br_sha256_out fresh256 else br_sha384_out fresh384)\<rparr>"

definition tls13_ks_extract_early :: "keysched \<Rightarrow> keysched" where
  "tls13_ks_extract_early ks =
     (let zeros = replicate (ks_hash_len ks) 0
      in ks\<lparr>ks_secret := wr (ks_secret ks) 0 (hkdf_extract (ks_hash ks) zeros zeros)\<rparr>)"

definition tls13_ks_extract_handshake :: "keysched \<Rightarrow> bytes \<Rightarrow> keysched" where
  "tls13_ks_extract_handshake ks shared_secret =
     (let derived = derive_secret (ks_hash ks) (ks_hash_len ks) (ks_secret ks) (ascii ''derived'')
                      (ks_empty_hash ks)
      in ks\<lparr>ks_secret := wr (ks_secret ks) 0 (hkdf_extract (ks_hash ks) derived shared_secret)\<rparr>)"

record traffic_keys =
  client_key :: bytes
  client_iv :: bytes
  server_key :: bytes
  server_iv :: bytes
  client_secret :: bytes
  server_secret :: bytes

definition tls13_ks_derive_handshake_keys :: "keysched \<Rightarrow> bytes \<Rightarrow> nat \<Rightarrow> traffic_keys" where
  "tls13_ks_derive_handshake_keys ks transcript_hash key_len =
     (let h = ks_hash ks; hl = ks_hash_len ks;
          cs = derive_secret h hl (ks_secret ks) (ascii ''c hs traffic'') transcript_hash;
          ss = derive_secret h hl (ks_secret ks) (ascii ''s hs traffic'') transcript_hash
      in \<lparr>client_key = hkdf_expand_label h cs (ascii ''key'') [] key_len,
          client_iv = hkdf_expand_label h cs (ascii ''iv'') [] 12,
          server_key = hkdf_expand_label h ss (ascii ''key'') [] key_len,
          server_iv = hkdf_expand_label h ss (ascii ''iv'') [] 12,
          client_secret = cs, server_secret = ss\<rparr>)"

definition tls13_ks_extract_master :: "keysched \<Rightarrow> keysched" where
  "tls13_ks_extract_master ks =
     (let zeros = replicate (ks_hash_len ks) 0;
          derived = derive_secret (ks_hash ks) (ks_hash_len ks) (ks_secret ks) (ascii ''derived'')
                      (ks_empty_hash ks)
      in ks\<lparr>ks_secret := wr (ks_secret ks) 0 (hkdf_extract (ks_hash ks) derived zeros)\<rparr>)"

definition tls13_ks_derive_app_keys :: "keysched \<Rightarrow> bytes \<Rightarrow> nat \<Rightarrow> traffic_keys" where
  "tls13_ks_derive_app_keys ks transcript_hash key_len =
     (let h = ks_hash ks; hl = ks_hash_len ks;
          cs = derive_secret h hl (ks_secret ks) (ascii ''c ap traffic'') transcript_hash;
          ss = derive_secret h hl (ks_secret ks) (ascii ''s ap traffic'') transcript_hash
      in \<lparr>client_key = hkdf_expand_label h cs (ascii ''key'') [] key_len,
          client_iv = hkdf_expand_label h cs (ascii ''iv'') [] 12,
          server_key = hkdf_expand_label h ss (ascii ''key'') [] key_len,
          server_iv = hkdf_expand_label h ss (ascii ''iv'') [] 12,
          client_secret = cs, server_secret = ss\<rparr>)"

definition tls13_ks_derive_finished_key :: "keysched \<Rightarrow> bytes \<Rightarrow> bytes" where
  "tls13_ks_derive_finished_key ks base_key =
     hkdf_expand_label (ks_hash ks) (rd base_key 0 (ks_hash_len ks)) (ascii ''finished'') []
       (ks_hash_len ks)"

definition tls13_ks_derive_resumption_master :: "keysched \<Rightarrow> bytes \<Rightarrow> bytes" where
  "tls13_ks_derive_resumption_master ks transcript_hash =
     derive_secret (ks_hash ks) (ks_hash_len ks) (ks_secret ks) (ascii ''res master'') transcript_hash"

definition tls13_ks_derive_resumption_psk :: "keysched \<Rightarrow> bytes \<Rightarrow> bytes \<Rightarrow> bytes" where
  "tls13_ks_derive_resumption_psk ks res_master ticket_nonce =
     hkdf_expand_label (ks_hash ks) (rd res_master 0 (ks_hash_len ks)) (ascii ''resumption'')
       ticket_nonce (ks_hash_len ks)"

definition tls13_ks_extract_early_psk :: "keysched \<Rightarrow> bytes \<Rightarrow> keysched" where
  "tls13_ks_extract_early_psk ks psk =
     (let zeros = replicate (ks_hash_len ks) 0
      in ks\<lparr>ks_secret := wr (ks_secret ks) 0 (hkdf_extract (ks_hash ks) zeros psk)\<rparr>)"

definition tls13_ks_derive_binder_key :: "keysched \<Rightarrow> bytes" where
  "tls13_ks_derive_binder_key ks =
     derive_secret (ks_hash ks) (ks_hash_len ks) (ks_secret ks) (ascii ''res binder'') (ks_empty_hash ks)"

section \<open>Specification\<close>

text \<open>RFC 5869 HKDF-Expand in general, RFC 8446 section 7.1 over it.\<close>

primrec hkdf_T :: "hash_alg \<Rightarrow> bytes \<Rightarrow> bytes \<Rightarrow> nat \<Rightarrow> bytes" where
  "hkdf_T a prk info 0 = []"
| "hkdf_T a prk info (Suc i) = hmac_spec a prk (hkdf_T a prk info i @ info @ [word_of_nat (Suc i)])"

definition hkdf_expand_spec :: "hash_alg \<Rightarrow> bytes \<Rightarrow> bytes \<Rightarrow> nat \<Rightarrow> bytes" where
  "hkdf_expand_spec a prk info len =
     take len (concat (map (\<lambda>i. hkdf_T a prk info (Suc i))
                        [0..<(len + br_digest_size a - 1) div br_digest_size a]))"

definition hkdf_label_spec :: "nat \<Rightarrow> string \<Rightarrow> bytes \<Rightarrow> bytes" where
  "hkdf_label_spec len label context =
     put_u16 (word_of_nat len)
     @ [word_of_nat (length (''tls13 '' @ label))] @ ascii (''tls13 '' @ label)
     @ [word_of_nat (length context)] @ context"

definition expand_label_spec :: "hash_alg \<Rightarrow> bytes \<Rightarrow> string \<Rightarrow> bytes \<Rightarrow> nat \<Rightarrow> bytes" where
  "expand_label_spec a secret label context len =
     hkdf_expand_spec a secret (hkdf_label_spec len label context) len"

definition derive_spec :: "hash_alg \<Rightarrow> bytes \<Rightarrow> string \<Rightarrow> bytes \<Rightarrow> bytes" where
  "derive_spec a secret label th = expand_label_spec a secret label th (br_digest_size a)"

definition early_secret_spec :: "hash_alg \<Rightarrow> bytes option \<Rightarrow> bytes" where
  "early_secret_spec a psk =
     hmac_spec a (replicate (br_digest_size a) 0)
       (case psk of None \<Rightarrow> replicate (br_digest_size a) 0 | Some p \<Rightarrow> p)"

definition handshake_secret_spec :: "hash_alg \<Rightarrow> bytes option \<Rightarrow> bytes \<Rightarrow> bytes" where
  "handshake_secret_spec a psk dhe =
     hmac_spec a (derive_spec a (early_secret_spec a psk) ''derived'' (hash_spec a [])) dhe"

definition master_secret_spec :: "hash_alg \<Rightarrow> bytes option \<Rightarrow> bytes \<Rightarrow> bytes" where
  "master_secret_spec a psk dhe =
     hmac_spec a (derive_spec a (handshake_secret_spec a psk dhe) ''derived'' (hash_spec a []))
       (replicate (br_digest_size a) 0)"

section \<open>The operations refine the specification\<close>

lemma length_ascii [simp]: "length (ascii s) = length s"
  by (simp add: ascii_def)

lemma ascii_append: "ascii (s @ t) = ascii s @ ascii t"
  by (simp add: ascii_def)

lemma wr_length: "length b = n \<Longrightarrow> wr b n xs = b @ xs"
  using wr_end by auto

lemma hkdf_info_eq:
  "hkdf_info len (ascii label) context = hkdf_label_spec len label context"
proof -
  have w: "word_of_nat (len div 256) = (ucast (drop_bit 8 (word_of_nat len :: u16)) :: byte)"
    by (rule bit_word_eqI) (simp add: bit_simps flip: drop_bit_eq_div [of 8 len, simplified])
  have u: "(ucast (word_of_nat len :: u16) :: byte) = word_of_nat len"
    by (rule bit_word_eqI) (simp add: bit_simps)
  define h :: bytes where "h = [word_of_nat (len div 256), word_of_nat len, word_of_nat (6 + length label)]"
  define p where "p = ascii ''tls13 ''"
  have len: "length h = 3" "length p = 6" by (simp_all add: h_def p_def)
  have "wr h 3 p = h @ p" by (rule wr_length) (simp add: len)
  moreover have "wr (h @ p) 9 (ascii label) = (h @ p) @ ascii label" by (rule wr_length) (simp add: len)
  moreover have "wr ((h @ p) @ ascii label) (9 + length label) [word_of_nat (length context)]
     = ((h @ p) @ ascii label) @ [word_of_nat (length context)]"
    by (rule wr_length) (simp add: len)
  moreover have "wr (((h @ p) @ ascii label) @ [word_of_nat (length context)]) (10 + length label) context
     = (((h @ p) @ ascii label) @ [word_of_nat (length context)]) @ context"
    by (rule wr_length) (simp add: len)
  ultimately have "hkdf_info len (ascii label) context
      = h @ p @ ascii label @ [word_of_nat (length context)] @ context"
    by (cases "context = []")
       (simp_all only: hkdf_info_def Let_def h_def [symmetric] p_def [symmetric] length_ascii,
        simp_all add: rd_eq_take_drop len)
  also have "\<dots> = hkdf_label_spec len label context"
    by (simp add: hkdf_label_spec_def put_u16_def w u ascii_def h_def p_def)
  finally show ?thesis .
qed

lemma hkdf_expand_one_block:
  "0 < len \<Longrightarrow> len \<le> br_digest_size a \<Longrightarrow> hkdf_expand_spec a prk info len = take len (hmac_spec a prk (info @ [1]))"
proof -
  assume "0 < len" "len \<le> br_digest_size a"
  then have "(len + br_digest_size a - 1) div br_digest_size a = 1"
    using ceil_div_step [of "br_digest_size a" len] by (simp add: min_absorb2)
  then show ?thesis by (simp add: hkdf_expand_spec_def)
qed

lemma hkdf_expand_label_eq:
  assumes "len \<le> br_digest_size a"
  shows "hkdf_expand_label a secret (ascii label) context len = expand_label_spec a secret label context len"
proof (cases "len = 0")
  case True
  then show ?thesis by (simp add: hkdf_expand_label_def expand_label_spec_def hkdf_expand_spec_def Let_def)
next
  case False
  with assms show ?thesis
    by (simp add: hkdf_expand_label_def expand_label_spec_def hkdf_info_eq hmac_out_pieces Let_def
        hkdf_expand_one_block rd_eq_take_drop)
qed

lemma length_expand_label_spec [simp]:
  "len \<le> br_digest_size a \<Longrightarrow> length (expand_label_spec a secret label context len) = len"
  using hkdf_expand_label_eq [of len a secret label "context", symmetric]
  by (simp add: hkdf_expand_label_def Let_def)

lemma length_derive_spec [simp]: "length (derive_spec a s l th) = br_digest_size a"
  by (simp add: derive_spec_def)

lemma hkdf_extract_eq: "hkdf_extract a salt ikm = hmac_spec a salt ikm"
  by (simp add: hkdf_extract_def hmac_out_pieces Let_def)

text \<open>Well-formed key schedules, and the secret they hold.\<close>

definition ks_wf :: "hash_alg \<Rightarrow> keysched \<Rightarrow> bool" where
  "ks_wf a ks \<longleftrightarrow> ks_hash ks = a \<and> ks_hash_len ks = br_digest_size a \<and> length (ks_secret ks) = 64
     \<and> length (ks_empty_hash ks) = 64 \<and> rd (ks_empty_hash ks) 0 (br_digest_size a) = hash_spec a []"

definition ks_cur :: "keysched \<Rightarrow> bytes" where
  "ks_cur ks = rd (ks_secret ks) 0 (ks_hash_len ks)"

lemma digest_of_hash: "(if a = SHA256 then 32 else 48) = br_digest_size a"
  by (cases a) simp_all

lemma empty_hash_eq:
  "(if a = SHA256 then br_sha256_out fresh256 else br_sha384_out fresh384) = hash_spec a []"
  using sha256.out_updates [of "[]"] sha384.out_updates [of "[]"] by (cases a) simp_all

lemma ks_wf_init:
  "length (ks_empty_hash ks) = 64 \<Longrightarrow> ks_wf a (tls13_ks_init ks a)"
  using digest_size_bounds(3) [of a]
  by (simp add: ks_wf_def tls13_ks_init_def digest_of_hash empty_hash_eq rd_wr_same_len max_def
      del: digest_size_bounds)

lemma derive_secret_eq:
  "derive_secret a (br_digest_size a) secret (ascii label) th
   = derive_spec a (rd secret 0 (br_digest_size a)) label (rd th 0 (br_digest_size a))"
  by (simp add: derive_secret_def derive_spec_def hkdf_expand_label_eq)

lemma wr_secret:
  assumes "ks_wf a ks" "length s = br_digest_size a"
  shows "ks_wf a (ks\<lparr>ks_secret := wr (ks_secret ks) 0 s\<rparr>)"
    "ks_cur (ks\<lparr>ks_secret := wr (ks_secret ks) 0 s\<rparr>) = s"
  using assms digest_size_bounds(3) [of a]
  by (simp_all add: ks_wf_def ks_cur_def max_def rd_wr_same_len del: digest_size_bounds)

lemma ks_extract_early:
  assumes "ks_wf a ks"
  shows "ks_wf a (tls13_ks_extract_early ks)"
    "ks_cur (tls13_ks_extract_early ks) = early_secret_spec a None"
    "ks_wf a (tls13_ks_extract_early_psk ks p)"
    "ks_cur (tls13_ks_extract_early_psk ks p) = early_secret_spec a (Some p)"
proof -
  have k: "ks_hash ks = a" "ks_hash_len ks = br_digest_size a" using assms by (simp_all add: ks_wf_def)
  show "ks_wf a (tls13_ks_extract_early ks)"
    "ks_cur (tls13_ks_extract_early ks) = early_secret_spec a None"
    "ks_wf a (tls13_ks_extract_early_psk ks p)"
    "ks_cur (tls13_ks_extract_early_psk ks p) = early_secret_spec a (Some p)"
    using assms
    by (simp_all add: tls13_ks_extract_early_def tls13_ks_extract_early_psk_def Let_def
        hkdf_extract_eq early_secret_spec_def wr_secret k)
qed

lemma ks_derived:
  assumes "ks_wf a ks"
  shows "derive_secret (ks_hash ks) (ks_hash_len ks) (ks_secret ks) (ascii l) th
         = derive_spec a (ks_cur ks) l (rd th 0 (br_digest_size a))"
  using assms by (simp add: ks_wf_def ks_cur_def derive_secret_eq)

lemma ks_extract_next:
  assumes "ks_wf a ks"
  shows "ks_wf a (tls13_ks_extract_handshake ks dhe)"
    "ks_cur (tls13_ks_extract_handshake ks dhe)
       = hmac_spec a (derive_spec a (ks_cur ks) ''derived'' (hash_spec a [])) dhe"
    "ks_wf a (tls13_ks_extract_master ks)"
    "ks_cur (tls13_ks_extract_master ks)
       = hmac_spec a (derive_spec a (ks_cur ks) ''derived'' (hash_spec a [])) (replicate (br_digest_size a) 0)"
proof -
  have k: "ks_hash ks = a" "ks_hash_len ks = br_digest_size a"
    "rd (ks_empty_hash ks) 0 (br_digest_size a) = hash_spec a []" using assms by (simp_all add: ks_wf_def)
  note d = ks_derived [OF assms, unfolded k]
  show "ks_wf a (tls13_ks_extract_handshake ks dhe)"
    "ks_cur (tls13_ks_extract_handshake ks dhe)
       = hmac_spec a (derive_spec a (ks_cur ks) ''derived'' (hash_spec a [])) dhe"
    "ks_wf a (tls13_ks_extract_master ks)"
    "ks_cur (tls13_ks_extract_master ks)
       = hmac_spec a (derive_spec a (ks_cur ks) ''derived'' (hash_spec a [])) (replicate (br_digest_size a) 0)"
    using assms
    by (simp_all add: tls13_ks_extract_handshake_def tls13_ks_extract_master_def Let_def
        hkdf_extract_eq d k wr_secret)
qed

text \<open>All keys of one stage, from the stage's secret and the transcript hash.\<close>

definition traffic_keys_spec :: "hash_alg \<Rightarrow> bytes \<Rightarrow> string \<Rightarrow> string \<Rightarrow> bytes \<Rightarrow> nat \<Rightarrow> traffic_keys" where
  "traffic_keys_spec a secret cl sl th key_len =
     (let cs = derive_spec a secret cl th; ss = derive_spec a secret sl th
      in \<lparr>client_key = expand_label_spec a cs ''key'' [] key_len,
          client_iv = expand_label_spec a cs ''iv'' [] 12,
          server_key = expand_label_spec a ss ''key'' [] key_len,
          server_iv = expand_label_spec a ss ''iv'' [] 12,
          client_secret = cs, server_secret = ss\<rparr>)"

lemma twelve_le_digest [simp]: "12 \<le> br_digest_size a"
  by (cases a) simp_all

lemma ks_traffic_keys:
  assumes "ks_wf a ks" "key_len \<le> br_digest_size a"
  shows "tls13_ks_derive_handshake_keys ks th key_len =
           traffic_keys_spec a (ks_cur ks) ''c hs traffic'' ''s hs traffic'' (rd th 0 (br_digest_size a)) key_len"
    "tls13_ks_derive_app_keys ks th key_len =
           traffic_keys_spec a (ks_cur ks) ''c ap traffic'' ''s ap traffic'' (rd th 0 (br_digest_size a)) key_len"
proof -
  have k: "ks_hash ks = a" "ks_hash_len ks = br_digest_size a" using assms by (simp_all add: ks_wf_def)
  note d = ks_derived [OF assms(1), unfolded k]
  show "tls13_ks_derive_handshake_keys ks th key_len =
           traffic_keys_spec a (ks_cur ks) ''c hs traffic'' ''s hs traffic'' (rd th 0 (br_digest_size a)) key_len"
    "tls13_ks_derive_app_keys ks th key_len =
           traffic_keys_spec a (ks_cur ks) ''c ap traffic'' ''s ap traffic'' (rd th 0 (br_digest_size a)) key_len"
    by (simp_all add: tls13_ks_derive_handshake_keys_def tls13_ks_derive_app_keys_def Let_def k d
        traffic_keys_spec_def hkdf_expand_label_eq assms)
qed

lemma ks_other_keys:
  assumes "ks_wf a ks"
  shows "tls13_ks_derive_finished_key ks bk =
           expand_label_spec a (rd bk 0 (br_digest_size a)) ''finished'' [] (br_digest_size a)"
    "tls13_ks_derive_resumption_master ks th =
           derive_spec a (ks_cur ks) ''res master'' (rd th 0 (br_digest_size a))"
    "tls13_ks_derive_resumption_psk ks rm nonce =
           expand_label_spec a (rd rm 0 (br_digest_size a)) ''resumption'' nonce (br_digest_size a)"
    "tls13_ks_derive_binder_key ks = derive_spec a (ks_cur ks) ''res binder'' (hash_spec a [])"
proof -
  have k: "ks_hash ks = a" "ks_hash_len ks = br_digest_size a"
    "rd (ks_empty_hash ks) 0 (br_digest_size a) = hash_spec a []" using assms by (simp_all add: ks_wf_def)
  note d = ks_derived [OF assms, unfolded k]
  show "tls13_ks_derive_finished_key ks bk =
           expand_label_spec a (rd bk 0 (br_digest_size a)) ''finished'' [] (br_digest_size a)"
    "tls13_ks_derive_resumption_master ks th =
           derive_spec a (ks_cur ks) ''res master'' (rd th 0 (br_digest_size a))"
    "tls13_ks_derive_resumption_psk ks rm nonce =
           expand_label_spec a (rd rm 0 (br_digest_size a)) ''resumption'' nonce (br_digest_size a)"
    "tls13_ks_derive_binder_key ks = derive_spec a (ks_cur ks) ''res binder'' (hash_spec a [])"
    by (simp_all add: tls13_ks_derive_finished_key_def tls13_ks_derive_resumption_master_def
        tls13_ks_derive_resumption_psk_def tls13_ks_derive_binder_key_def d k hkdf_expand_label_eq)
qed

section \<open>Label separation\<close>

lemma word_of_nat_small:
  assumes "(word_of_nat m :: 'a::len word) = word_of_nat n" "m < 2 ^ LENGTH('a)" "n < 2 ^ LENGTH('a)"
  shows "m = n"
proof -
  have "unat (word_of_nat m :: 'a word) = unat (word_of_nat n :: 'a word)" using assms(1) by simp
  then show ?thesis using assms(2,3) by (simp add: unat_of_nat)
qed

lemma ascii_inject: "ascii s = ascii t \<Longrightarrow> s = t"
proof -
  have "inj (of_char :: char \<Rightarrow> byte)"
  proof (rule injI)
    fix c d :: char assume "(of_char c :: byte) = of_char d"
    then have "(word_of_nat (of_char c) :: byte) = word_of_nat (of_char d)"
      by (simp add: of_nat_of_char)
    then have "(of_char c :: nat) = of_char d" by (rule word_of_nat_small) simp_all
    then show "c = d" by simp
  qed
  then show "ascii s = ascii t \<Longrightarrow> s = t" by (simp add: ascii_def inj_map_eq_map)
qed

lemma hkdf_label_inject:
  assumes "hkdf_label_spec n l c = hkdf_label_spec n' l' c'"
    and "n < 2 ^ 16" "n' < 2 ^ 16" "length l < 250" "length l' < 250" "length c < 256" "length c' < 256"
  shows "n = n' \<and> l = l' \<and> c = c'"
proof -
  have "put_u16 (word_of_nat n) = put_u16 (word_of_nat n')"
    using arg_cong [OF assms(1), of "take 2"] by (simp add: hkdf_label_spec_def)
  then have n: "n = n'" using word_of_nat_small [where 'a = 16, of n n'] assms(2,3) by simp
  with assms(1) have r: "(word_of_nat (6 + length l) :: byte) = word_of_nat (6 + length l')"
    "ascii (''tls13 '' @ l) @ [word_of_nat (length c)] @ c
     = ascii (''tls13 '' @ l') @ [word_of_nat (length c')] @ c'"
    by (simp_all add: hkdf_label_spec_def)
  then have "length l = length l'"
    using word_of_nat_small [where 'a = 8, of "6 + length l" "6 + length l'"] assms(4,5) by simp
  with r(2) have "ascii (''tls13 '' @ l) = ascii (''tls13 '' @ l') \<and> c = c'" by simp
  with n show ?thesis using ascii_inject by blast
qed

section \<open>Properties\<close>

text \<open>HKDF-Expand-Label of the code is that of RFC 8446 over the HKDF-Expand of RFC 5869 for
  every output that one hash block covers, which is every use in the program.\<close>

lemma expand_label_refines:
  assumes "len \<le> br_digest_size a"
  shows "hkdf_expand_label a secret (ascii label) context len = expand_label_spec a secret label context len"
  using assms by (rule hkdf_expand_label_eq)

lemma expand_label_refines_witness:
  "hkdf_expand_label SHA384 [1, 2, 3] (ascii ''key'') [] 32 = expand_label_spec SHA384 [1, 2, 3] ''key'' [] 32"
  using expand_label_refines [of 32 SHA384] by simp

text \<open>The info strings of different labels, contexts or lengths differ, so a secret is never
  derived twice from one secret for two purposes.\<close>

lemma labels_separate:
  assumes "hkdf_info n (ascii l) c = hkdf_info n' (ascii l') c'"
    and "n < 2 ^ 16" "n' < 2 ^ 16" "length l < 250" "length l' < 250" "length c < 256" "length c' < 256"
  shows "n = n' \<and> l = l' \<and> c = c'"
  using assms hkdf_label_inject by (simp add: hkdf_info_eq)

text \<open>C15: from a fresh key schedule, with or without a pre-shared key, the extract steps yield
  the Early, Handshake and Master Secret of RFC 8446 section 7.1 for the shared secret, and the
  keys derived from the last two are those of the RFC for the transcript hash.\<close>

theorem key_schedule_chain:
  fixes ks :: keysched and psk :: "bytes option" and dhe :: bytes
  assumes "length (ks_empty_hash ks) = 64" "length th = br_digest_size a" "key_len \<le> br_digest_size a"
  defines "early \<equiv> (case psk of None \<Rightarrow> tls13_ks_extract_early (tls13_ks_init ks a)
                      | Some p \<Rightarrow> tls13_ks_extract_early_psk (tls13_ks_init ks a) p)"
  defines "hs \<equiv> tls13_ks_extract_handshake early dhe"
  shows "ks_cur early = early_secret_spec a psk
    \<and> ks_cur hs = handshake_secret_spec a psk dhe
    \<and> ks_cur (tls13_ks_extract_master hs) = master_secret_spec a psk dhe
    \<and> tls13_ks_derive_handshake_keys hs th key_len
        = traffic_keys_spec a (handshake_secret_spec a psk dhe) ''c hs traffic'' ''s hs traffic'' th key_len
    \<and> tls13_ks_derive_app_keys (tls13_ks_extract_master hs) th key_len
        = traffic_keys_spec a (master_secret_spec a psk dhe) ''c ap traffic'' ''s ap traffic'' th key_len"
proof -
  note i = ks_extract_early [OF ks_wf_init [OF assms(1)], of a]
  have e: "ks_wf a early" "ks_cur early = early_secret_spec a psk"
    using i by (cases psk; simp add: early_def)+
  note h = ks_extract_next(1,2) [OF e(1), of dhe, folded hs_def]
  note m = ks_extract_next(3,4) [OF h(1)]
  have th: "rd th 0 (br_digest_size a) = th" using assms(2) by (simp add: rd_eq_take_drop)
  show ?thesis
    using e(2) h(2) m(2) ks_traffic_keys(1) [OF h(1) assms(3), of th] ks_traffic_keys(2) [OF m(1) assms(3), of th]
    by (simp add: th handshake_secret_spec_def master_secret_spec_def)
qed

theorem key_schedule_chain_witness:
  "ks_cur (tls13_ks_extract_handshake (tls13_ks_extract_early (tls13_ks_init
      \<lparr>ks_hash = SHA256, ks_hash_len = 0, ks_secret = replicate 64 0, ks_empty_hash = replicate 64 0\<rparr> SHA256)) [5])
   = handshake_secret_spec SHA256 None [5]"
  using key_schedule_chain [of "\<lparr>ks_hash = SHA256, ks_hash_len = 0, ks_secret = replicate 64 0, ks_empty_hash = replicate 64 0\<rparr>"
      "replicate 32 0" SHA256 16 None "[5]"]
  by simp

end
