(* ===== verification/Transcript.thy ===== *)
theory Transcript
  imports Key_Schedule
begin

text \<open>
  The transcript hash of os9/ostls_tls13_handshake.c (\<open>tls13_transcript_*\<close>) and the PSK
  binder (\<open>tls13_compute_binder\<close>).

  The abstract view of a transcript is the byte string hashed so far: \<open>transcript_repr t a m\<close>.
  Every operation is shown to implement its effect on that string: update appends, snapshot is
  the one-shot hash and leaves the running state alone, the reset for a HelloRetryRequest
  replaces the string by the synthetic \<open>message_hash\<close> message of RFC 8446 section 4.4.1.
\<close>

record transcript =
  t_sha256 :: sha256_ctx
  t_sha384 :: sha384_ctx
  t_hash :: hash_alg
  t_hash_len :: nat

definition tls13_transcript_init :: "transcript \<Rightarrow> hash_alg \<Rightarrow> transcript" where
  "tls13_transcript_init t hash =
     (let t = t\<lparr>t_hash := hash\<rparr>
      in if hash = SHA256 then t\<lparr>t_hash_len := 32, t_sha256 := br_sha256_init (t_sha256 t)\<rparr>
         else t\<lparr>t_hash_len := 48, t_sha384 := br_sha384_init (t_sha384 t)\<rparr>)"

definition tls13_transcript_update :: "transcript \<Rightarrow> bytes \<Rightarrow> transcript" where
  "tls13_transcript_update t data =
     (if t_hash t = SHA256 then t\<lparr>t_sha256 := br_sha256_update (t_sha256 t) data\<rparr>
      else t\<lparr>t_sha384 := br_sha384_update (t_sha384 t) data\<rparr>)"

definition tls13_transcript_snapshot :: "transcript \<Rightarrow> bytes" where
  "tls13_transcript_snapshot t =
     (if t_hash t = SHA256 then br_sha256_out (t_sha256 t) else br_sha384_out (t_sha384 t))"

definition TLS13_HT_MESSAGE_HASH :: byte where "TLS13_HT_MESSAGE_HASH = 254"

definition tls13_transcript_reset_for_hrr :: "transcript \<Rightarrow> transcript" where
  "tls13_transcript_reset_for_hrr t =
     (let ch1_hash = tls13_transcript_snapshot t;
          synthetic = [TLS13_HT_MESSAGE_HASH, 0, 0, word_of_nat (t_hash_len t)] @ rd ch1_hash 0 (t_hash_len t)
      in tls13_transcript_update (tls13_transcript_init t (t_hash t)) synthetic)"

text \<open>The binder works on private copies of the transcript and the key schedule.\<close>

definition tls13_compute_binder :: "keysched \<Rightarrow> bytes \<Rightarrow> transcript \<Rightarrow> bytes \<Rightarrow> bytes" where
  "tls13_compute_binder ks psk base truncated_ch =
     (let tmp = tls13_transcript_update base truncated_ch;
          binder_hash = tls13_transcript_snapshot tmp;
          bks = tls13_ks_extract_early_psk ks psk;
          binder_key = tls13_ks_derive_binder_key bks;
          finished_key = tls13_ks_derive_finished_key bks binder_key;
          hk = br_hmac_key_init (ks_hash bks) (rd finished_key 0 (ks_hash_len bks));
          hc = br_hmac_update (br_hmac_init hk 0) (rd binder_hash 0 (ks_hash_len bks))
      in br_hmac_out hc)"

section \<open>The transcript as a byte string\<close>

definition transcript_repr :: "transcript \<Rightarrow> hash_alg \<Rightarrow> bytes \<Rightarrow> bool" where
  "transcript_repr t a m \<longleftrightarrow> t_hash t = a \<and> t_hash_len t = br_digest_size a
     \<and> length (s_buf (t_sha256 t)) = 64 \<and> length (b_buf (t_sha384 t)) = 128
     \<and> (case a of SHA256 \<Rightarrow> sha256_repr (t_sha256 t) m | SHA384 \<Rightarrow> sha384_repr (t_sha384 t) m)"

lemma repr_length_buf: "sha256_repr c m \<Longrightarrow> length (s_buf c) = 64" "sha384_repr d m \<Longrightarrow> length (b_buf d) = 128"
  by (simp_all add: sha256_repr_def sha384_repr_def)

lemma transcript_repr_init:
  assumes "length (s_buf (t_sha256 t)) = 64" "length (b_buf (t_sha384 t)) = 128"
  shows "transcript_repr (tls13_transcript_init t a) a []"
proof (cases a)
  case SHA256
  with assms sha256_repr_init [of "t_sha256 t"] show ?thesis
    by (simp add: transcript_repr_def tls13_transcript_init_def repr_length_buf)
next
  case SHA384
  with assms sha384_repr_init [of "t_sha384 t"] show ?thesis
    by (simp add: transcript_repr_def tls13_transcript_init_def repr_length_buf)
qed

lemma transcript_repr_update:
  assumes "transcript_repr t a m"
  shows "transcript_repr (tls13_transcript_update t d) a (m @ d)"
proof (cases a)
  case SHA256
  with assms sha256.repr_update [of "t_sha256 t" m d] show ?thesis
    by (simp add: transcript_repr_def tls13_transcript_update_def repr_length_buf)
next
  case SHA384
  with assms sha384.repr_update [of "t_sha384 t" m d] show ?thesis
    by (simp add: transcript_repr_def tls13_transcript_update_def repr_length_buf)
qed

lemma transcript_repr_snapshot:
  "transcript_repr t a m \<Longrightarrow> tls13_transcript_snapshot t = hash_spec a m"
  by (cases a) (simp_all add: transcript_repr_def tls13_transcript_snapshot_def sha256.repr_out sha384.repr_out)

text \<open>The synthetic message that stands for the first ClientHello after a retry.\<close>

definition message_hash_spec :: "hash_alg \<Rightarrow> bytes \<Rightarrow> bytes" where
  "message_hash_spec a ch1 = [254] @ put_u24 (word_of_nat (br_digest_size a)) @ hash_spec a ch1"

lemma rd_full: "length xs = n \<Longrightarrow> rd xs 0 n = xs"
  by (simp add: rd_def)

lemma transcript_repr_hrr:
  assumes "transcript_repr t a m"
  shows "transcript_repr (tls13_transcript_reset_for_hrr t) a (message_hash_spec a m)"
proof -
  have t: "t_hash t = a" "t_hash_len t = br_digest_size a" using assms by (simp_all add: transcript_repr_def)
  have i: "transcript_repr (tls13_transcript_init t a) a []"
    using assms by (intro transcript_repr_init) (simp_all add: transcript_repr_def)
  have "[TLS13_HT_MESSAGE_HASH, 0, 0, word_of_nat (br_digest_size a)] @ rd (hash_spec a m) 0 (br_digest_size a)
        = message_hash_spec a m"
    by (cases a) (simp_all add: message_hash_spec_def TLS13_HT_MESSAGE_HASH_def put_u24_def rd_full)
  with transcript_repr_update [OF i, of "message_hash_spec a m"] show ?thesis
    by (simp add: tls13_transcript_reset_for_hrr_def Let_def transcript_repr_snapshot [OF assms] t)
qed

definition binder_spec :: "hash_alg \<Rightarrow> bytes \<Rightarrow> bytes \<Rightarrow> bytes" where
  "binder_spec a psk m =
     hmac_spec a
       (expand_label_spec a (derive_spec a (early_secret_spec a (Some psk)) ''res binder'' (hash_spec a []))
          ''finished'' [] (br_digest_size a))
       (hash_spec a m)"

lemma compute_binder_eq:
  assumes "ks_wf a ks" "transcript_repr base a m"
  shows "tls13_compute_binder ks psk base trunc = binder_spec a psk (m @ trunc)"
proof -
  let ?k = "tls13_ks_extract_early_psk ks psk"
  have wf: "ks_wf a ?k" and cur: "ks_cur ?k = early_secret_spec a (Some psk)"
    using ks_extract_early [OF assms(1)] by auto
  have k: "ks_hash ?k = a" "ks_hash_len ?k = br_digest_size a" using wf by (simp_all add: ks_wf_def)
  have s: "tls13_transcript_snapshot (tls13_transcript_update base trunc) = hash_spec a (m @ trunc)"
    by (rule transcript_repr_snapshot [OF transcript_repr_update [OF assms(2)]])
  show ?thesis
    by (simp add: tls13_compute_binder_def Let_def s k ks_other_keys [OF wf] cur hmac_out_pieces
        binder_spec_def rd_full)
qed

section \<open>Properties\<close>

text \<open>C37: a transcript that stands for the messages \<open>m\<close> stands, after more data, for \<open>m\<close> with the
  data appended; its snapshot is the hash of what it stands for and does not disturb it; and
  the restart after a HelloRetryRequest leaves it standing for the \<open>message_hash\<close> message of
  RFC 8446 section 4.4.1.\<close>

theorem transcript_is_running_hash:
  assumes "transcript_repr t a m"
  shows "transcript_repr (tls13_transcript_update t d) a (m @ d)
    \<and> tls13_transcript_snapshot t = hash_spec a m
    \<and> transcript_repr (tls13_transcript_reset_for_hrr t) a (message_hash_spec a m)"
  using transcript_repr_update [OF assms] transcript_repr_snapshot [OF assms] transcript_repr_hrr [OF assms]
  by simp

theorem transcript_is_running_hash_witness:
  "\<exists>t. tls13_transcript_snapshot (tls13_transcript_update (tls13_transcript_init t SHA384) [1, 2])
        = hash_spec SHA384 [1, 2]"
proof -
  define t where "t = \<lparr>t_sha256 = fresh256, t_sha384 = fresh384, t_hash = SHA256, t_hash_len = 0\<rparr>"
  have i: "transcript_repr (tls13_transcript_init t SHA384) SHA384 []"
    by (rule transcript_repr_init) (simp_all add: t_def length_fresh)
  have "transcript_repr (tls13_transcript_update (tls13_transcript_init t SHA384) [1, 2]) SHA384 [1, 2]"
    using transcript_is_running_hash [OF i, of "[1, 2]"] by simp
  then have "tls13_transcript_snapshot (tls13_transcript_update (tls13_transcript_init t SHA384) [1, 2])
        = hash_spec SHA384 [1, 2]"
    by (rule transcript_repr_snapshot)
  then show ?thesis by blast
qed

text \<open>C38: the binder of a pre-shared key is the Finished MAC, under the binder key of that key,
  over the transcript so far followed by the truncated ClientHello.\<close>

theorem binder_is_rfc:
  assumes "ks_wf a ks" "transcript_repr base a m"
  shows "tls13_compute_binder ks psk base trunc = binder_spec a psk (m @ trunc)"
  using assms by (rule compute_binder_eq)

theorem binder_is_rfc_witness:
  "\<exists>ks t. tls13_compute_binder ks [1] t [3] = binder_spec SHA256 [1] [3]"
proof -
  have k: "ks_wf SHA256 (tls13_ks_init \<lparr>ks_hash = SHA256, ks_hash_len = 0, ks_secret = [], ks_empty_hash = replicate 64 0\<rparr> SHA256)"
    by (rule ks_wf_init) simp
  have t: "transcript_repr (tls13_transcript_init \<lparr>t_sha256 = fresh256, t_sha384 = fresh384, t_hash = SHA256, t_hash_len = 0\<rparr> SHA256) SHA256 []"
    by (rule transcript_repr_init) (simp_all add: length_fresh)
  from binder_is_rfc [OF k t, of "[1]" "[3]"] show ?thesis by auto
qed

end
