(* ===== verification/Chacha_Poly.thy ===== *)
theory Chacha_Poly
  imports Mactls_Prelude
begin

text \<open>
  ChaCha20 (bearssl/src/symcipher/chacha20_ct.c) and the ChaCha20-Poly1305 AEAD
  (bearssl/src/symcipher/poly1305_ctmul.c), with the constant-time primitives of
  bearssl/src/inner.h they use. The cipher state is a list of sixteen 32-bit words; the
  Poly1305 accumulator and key are the five 26-bit limbs of the C code, with the 64-bit
  products at their width. All definitions compute.

  Proved: the constant-time primitives are the comparisons they stand for, the stream cipher
  is an involution that keeps lengths and advances the counter by one per block, and the AEAD
  decrypts what it encrypted, recomputing the same tag.
\<close>

unbundle bit_operations_syntax

section \<open>Constant-time primitives of inner.h\<close>

definition NOT_ct :: "u32 \<Rightarrow> u32" where
  "NOT_ct ctl = ctl XOR 1"

definition MUX :: "u32 \<Rightarrow> u32 \<Rightarrow> u32 \<Rightarrow> u32" where
  "MUX ctl x y = y XOR ((- ctl) AND (x XOR y))"

definition EQ_ct :: "u32 \<Rightarrow> u32 \<Rightarrow> u32" where
  "EQ_ct x y = (let q = x XOR y in NOT_ct (drop_bit 31 (q OR (- q))))"

definition GT_ct :: "u32 \<Rightarrow> u32 \<Rightarrow> u32" where
  "GT_ct x y = (let z = y - x in drop_bit 31 (z XOR ((x XOR y) AND (x XOR z))))"

definition EQ0_ct :: "u32 \<Rightarrow> u32" where
  "EQ0_ct q = drop_bit 31 (NOT (q OR (- q)))"

definition br_swap32 :: "u32 \<Rightarrow> u32" where
  "br_swap32 x =
     (let x = push_bit 8 (x AND 0x00FF00FF) OR (drop_bit 8 x AND 0x00FF00FF)
      in push_bit 16 x OR drop_bit 16 x)"

definition br_dec32le :: "bytes \<Rightarrow> nat \<Rightarrow> u32" where
  "br_dec32le b i = ucast (byte_at b i) OR push_bit 8 (ucast (byte_at b (i + 1)))
     OR push_bit 16 (ucast (byte_at b (i + 2))) OR push_bit 24 (ucast (byte_at b (i + 3)))"

definition br_enc32le :: "u32 \<Rightarrow> bytes" where
  "br_enc32le x = map (\<lambda>k. ucast (drop_bit k x)) [0, 8, 16, 24]"

definition br_enc64le :: "u64 \<Rightarrow> bytes" where
  "br_enc64le x = map (\<lambda>k. ucast (drop_bit k x)) [0, 8, 16, 24, 32, 40, 48, 56]"

lemma length_encle [simp, wire_simps]: "length (br_enc32le x) = 4" "length (br_enc64le y) = 8"
  by (simp_all add: br_enc32le_def br_enc64le_def)

section \<open>ChaCha20\<close>

definition chacha_CW :: "u32 list" where
  "chacha_CW = [0x61707865, 0x3320646e, 0x79622d32, 0x6b206574]"

definition qround :: "nat \<Rightarrow> nat \<Rightarrow> nat \<Rightarrow> nat \<Rightarrow> u32 list \<Rightarrow> u32 list" where
  "qround a b c d s =
     (let s = s[a := s ! a + s ! b];
          s = s[d := s ! d XOR s ! a];
          s = s[d := push_bit 16 (s ! d) OR drop_bit 16 (s ! d)];
          s = s[c := s ! c + s ! d];
          s = s[b := s ! b XOR s ! c];
          s = s[b := push_bit 12 (s ! b) OR drop_bit 20 (s ! b)];
          s = s[a := s ! a + s ! b];
          s = s[d := s ! d XOR s ! a];
          s = s[d := push_bit 8 (s ! d) OR drop_bit 24 (s ! d)];
          s = s[c := s ! c + s ! d];
          s = s[b := s ! b XOR s ! c];
          s = s[b := push_bit 7 (s ! b) OR drop_bit 25 (s ! b)]
      in s)"

definition chacha_double_round :: "u32 list \<Rightarrow> u32 list" where
  "chacha_double_round s =
     (let s = qround 0 4 8 12 s;
          s = qround 1 5 9 13 s;
          s = qround 2 6 10 14 s;
          s = qround 3 7 11 15 s;
          s = qround 0 5 10 15 s;
          s = qround 1 6 11 12 s;
          s = qround 2 7 8 13 s;
          s = qround 3 4 9 14 s
      in s)"

definition chacha_block :: "u32 list \<Rightarrow> u32 list \<Rightarrow> u32 \<Rightarrow> bytes" where
  "chacha_block kw ivw cc =
     (let state = (chacha_double_round ^^ 10) (chacha_CW @ kw @ [cc] @ ivw)
      in concat (map (\<lambda>u. br_enc32le (state ! u + chacha_CW ! u)) [0..<4])
         @ concat (map (\<lambda>u. br_enc32le (state ! u + kw ! (u - 4))) [4..<12])
         @ br_enc32le (state ! 12 + cc)
         @ concat (map (\<lambda>u. br_enc32le (state ! u + ivw ! (u - 13))) [13..<16]))"

text \<open>\<open>xorbuf\<close> of aes_ct_ctr.c, and the xor loop of chacha20_ct.c.\<close>

definition xorbuf :: "bytes \<Rightarrow> bytes \<Rightarrow> bytes" where
  "xorbuf dst src = map2 (XOR) dst src"

function chacha20_loop :: "u32 list \<Rightarrow> u32 list \<Rightarrow> u32 \<Rightarrow> bytes \<Rightarrow> bytes \<times> u32" where
  "chacha20_loop kw ivw cc buf =
     (if buf = [] then ([], cc)
      else let tmp = chacha_block kw ivw cc;
               clen = (if length buf < 64 then length buf else 64);
               out = xorbuf (take clen buf) (take clen tmp);
               (rest, cc') = chacha20_loop kw ivw (cc + 1) (drop clen buf)
           in (out @ rest, cc'))"
  by pat_completeness auto
termination
  by (relation "measure (\<lambda>(kw, ivw, cc, buf). length buf)") auto

declare chacha20_loop.simps [simp del]

definition br_chacha20_ct_run :: "bytes \<Rightarrow> bytes \<Rightarrow> u32 \<Rightarrow> bytes \<Rightarrow> bytes \<times> u32" where
  "br_chacha20_ct_run key iv cc data =
     (let kw = map (\<lambda>u. br_dec32le key (4 * u)) [0..<8];
          ivw = map (\<lambda>u. br_dec32le iv (4 * u)) [0..<3]
      in chacha20_loop kw ivw cc data)"

section \<open>Poly1305\<close>

type_synonym limbs5 = "u32 \<times> u32 \<times> u32 \<times> u32 \<times> u32"

abbreviation mul64 :: "u32 \<Rightarrow> u32 \<Rightarrow> u64" where
  "mul64 x y \<equiv> (ucast x :: u64) * (ucast y :: u64)"

text \<open>The body of the loop of \<open>poly1305_inner\<close> on one 16-byte block.\<close>

definition poly1305_block :: "limbs5 \<Rightarrow> bytes \<Rightarrow> limbs5 \<Rightarrow> limbs5" where
  "poly1305_block = (\<lambda>(r0, r1, r2, r3, r4). \<lambda>buf. \<lambda>(a0, a1, a2, a3, a4).
      let u1 = r1 * 5; u2 = r2 * 5; u3 = r3 * 5; u4 = r4 * 5;
          a0 = a0 + (br_dec32le buf 0 AND 0x03FFFFFF);
          a1 = a1 + (drop_bit 2 (br_dec32le buf 3) AND 0x03FFFFFF);
          a2 = a2 + (drop_bit 4 (br_dec32le buf 6) AND 0x03FFFFFF);
          a3 = a3 + (drop_bit 6 (br_dec32le buf 9) AND 0x03FFFFFF);
          a4 = a4 + (drop_bit 8 (br_dec32le buf 12) OR 0x01000000);
          w0 = mul64 a0 r0 + mul64 a1 u4 + mul64 a2 u3 + mul64 a3 u2 + mul64 a4 u1;
          w1 = mul64 a0 r1 + mul64 a1 r0 + mul64 a2 u4 + mul64 a3 u3 + mul64 a4 u2;
          w2 = mul64 a0 r2 + mul64 a1 r1 + mul64 a2 r0 + mul64 a3 u4 + mul64 a4 u3;
          w3 = mul64 a0 r3 + mul64 a1 r2 + mul64 a2 r1 + mul64 a3 r0 + mul64 a4 u4;
          w4 = mul64 a0 r4 + mul64 a1 r3 + mul64 a2 r2 + mul64 a3 r1 + mul64 a4 r0;
          c = drop_bit 26 w0;
          a0 = ucast w0 AND 0x3FFFFFF;
          w1 = w1 + c;
          c = drop_bit 26 w1;
          a1 = ucast w1 AND 0x3FFFFFF;
          w2 = w2 + c;
          c = drop_bit 26 w2;
          a2 = ucast w2 AND 0x3FFFFFF;
          w3 = w3 + c;
          c = drop_bit 26 w3;
          a3 = ucast w3 AND 0x3FFFFFF;
          w4 = w4 + c;
          c = drop_bit 26 w4;
          a4 = ucast w4 AND 0x3FFFFFF;
          a0 = a0 + ucast c * 5;
          a1 = a1 + drop_bit 26 a0;
          a0 = a0 AND 0x3FFFFFF
      in (a0, a1, a2, a3, a4))"

function poly1305_inner :: "limbs5 \<Rightarrow> limbs5 \<Rightarrow> bytes \<Rightarrow> limbs5" where
  "poly1305_inner r acc data =
     (if data = [] then acc
      else if length data < 16
      then poly1305_block r (data @ replicate (16 - length data) 0) acc
      else poly1305_inner r (poly1305_block r (take 16 data) acc) (drop 16 data))"
  by pat_completeness auto
termination
  by (relation "measure (\<lambda>(r, acc, data). length data)") auto

declare poly1305_inner.simps [simp del]

definition poly1305_clamp :: "bytes \<Rightarrow> limbs5" where
  "poly1305_clamp pkey =
     (br_dec32le pkey 0 AND 0x03FFFFFF,
      drop_bit 2 (br_dec32le pkey 3) AND 0x03FFFF03,
      drop_bit 4 (br_dec32le pkey 6) AND 0x03FFC0FF,
      drop_bit 6 (br_dec32le pkey 9) AND 0x03F03FFF,
      drop_bit 8 (br_dec32le pkey 12) AND 0x000FFFFF)"

text \<open>The finalisation of \<open>br_poly1305_ctmul_run\<close>: carry propagation over limbs 1, 2, 3, 4,
  0, 1, conditional subtraction of \<open>p\<close>, addition of \<open>s\<close> modulo \<open>2 ^ 128\<close>.\<close>

definition poly1305_carry_step :: "nat \<Rightarrow> u32 list \<times> u32 \<Rightarrow> u32 list \<times> u32" where
  "poly1305_carry_step i st =
     (let (acc, cc) = st;
          j = (if 5 \<le> i then i - 5 else i);
          t = acc ! j + cc
      in (acc[j := t AND 0x03FFFFFF], drop_bit 26 t))"

definition poly1305_sub_step :: "u32 \<Rightarrow> nat \<Rightarrow> u32 list \<times> u32 \<Rightarrow> u32 list \<times> u32" where
  "poly1305_sub_step ctl i st =
     (let (acc, cc) = st;
          t = acc ! i + cc
      in (acc[i := MUX ctl (t AND 0x03FFFFFF) (acc ! i)], drop_bit 26 t))"

definition poly1305_finish :: "bytes \<Rightarrow> limbs5 \<Rightarrow> bytes" where
  "poly1305_finish pkey a =
     (let (a0, a1, a2, a3, a4) = a;
          (acc, _) = fold poly1305_carry_step [1..<7] ([a0, a1, a2, a3, a4], 0);
          ctl = fold (\<lambda>i ctl. ctl AND EQ_ct (acc ! i) 0x03FFFFFF) [1..<5] (GT_ct (acc ! 0) 0x03FFFFFA);
          (acc, _) = fold (poly1305_sub_step ctl) [0..<5] (acc, 5);
          w = (ucast (acc ! 0) :: u64) + push_bit 26 (ucast (acc ! 1)) + ucast (br_dec32le pkey 16);
          t0 = br_enc32le (ucast w);
          w = drop_bit 32 w + push_bit 20 (ucast (acc ! 2)) + ucast (br_dec32le pkey 20);
          t1 = br_enc32le (ucast w);
          w = drop_bit 32 w + push_bit 14 (ucast (acc ! 3)) + ucast (br_dec32le pkey 24);
          t2 = br_enc32le (ucast w);
          hi = ucast (drop_bit 32 w) + push_bit 8 (acc ! 4) + br_dec32le pkey 28
      in t0 @ t1 @ t2 @ br_enc32le hi)"

definition poly1305_tag :: "bytes \<Rightarrow> bytes \<Rightarrow> bytes \<Rightarrow> bytes" where
  "poly1305_tag pkey aad data =
     (let r = poly1305_clamp pkey;
          foot = br_enc64le (word_of_nat (length aad)) @ br_enc64le (word_of_nat (length data));
          acc = poly1305_inner r (0, 0, 0, 0, 0) aad;
          acc = poly1305_inner r acc data;
          acc = poly1305_inner r acc foot
      in poly1305_finish pkey acc)"

definition br_poly1305_ctmul_run ::
  "bytes \<Rightarrow> bytes \<Rightarrow> bytes \<Rightarrow> bytes \<Rightarrow> (bytes \<Rightarrow> bytes \<Rightarrow> u32 \<Rightarrow> bytes \<Rightarrow> bytes \<times> u32) \<Rightarrow> bool
   \<Rightarrow> bytes \<times> bytes" where
  "br_poly1305_ctmul_run key iv data aad ichacha encrypt =
     (let pkey = fst (ichacha key iv 0 (replicate 32 0));
          data = (if encrypt then fst (ichacha key iv 1 data) else data);
          tag = poly1305_tag pkey aad data;
          data = (if encrypt then data else fst (ichacha key iv 1 data))
      in (data, tag))"

section \<open>Stream cipher and AEAD laws\<close>

lemma length_xorbuf [simp]: "length (xorbuf a b) = min (length a) (length b)"
  by (simp add: xorbuf_def)

lemma xorbuf_involution: "length a \<le> length b \<Longrightarrow> xorbuf (xorbuf a b) b = a"
  by (rule nth_equalityI) (simp_all add: xorbuf_def xor.assoc)

lemma length_concat_enc32le: "length (concat (map (\<lambda>u. br_enc32le (f u)) xs)) = 4 * length xs"
  by (induction xs) simp_all

lemma length_chacha_block [simp]: "length (chacha_block kw ivw cc) = 64"
  by (simp add: chacha_block_def Let_def length_concat_enc32le del: upt_rec_numeral)

lemma length_chacha20_loop [simp]: "length (fst (chacha20_loop kw ivw cc buf)) = length buf"
proof (induction kw ivw cc buf rule: chacha20_loop.induct)
  case (1 kw ivw cc buf)
  then show ?case
    by (subst chacha20_loop.simps) (auto simp: Let_def split: prod.split)
qed

lemma chacha20_loop_involution:
  "fst (chacha20_loop kw ivw cc (fst (chacha20_loop kw ivw cc buf))) = buf"
proof (induction kw ivw cc buf rule: chacha20_loop.induct)
  case (1 kw ivw cc buf)
  show ?case
  proof (cases "buf = []")
    case True
    then show ?thesis by (simp add: chacha20_loop.simps)
  next
    case False
    define n where "n = (if length buf < 64 then length buf else 64)"
    define t where "t = take n (chacha_block kw ivw cc)"
    define r where "r = fst (chacha20_loop kw ivw (cc + 1) (drop n buf))"
    have n: "0 < n" "n \<le> length buf" "n \<le> 64" using False by (auto simp: n_def)
    have t: "length t = n" using n by (simp add: t_def)
    have r: "length r = length buf - n" by (simp add: r_def)
    have e: "fst (chacha20_loop kw ivw cc buf) = xorbuf (take n buf) t @ r"
      using False by (subst chacha20_loop.simps)
        (simp add: Let_def n_def [symmetric] t_def [symmetric] r_def split: prod.split)
    define b where "b = xorbuf (take n buf) t @ r"
    have lb: "length b = length buf" using n t r by (simp add: b_def)
    then have "b \<noteq> []" using False by auto
    moreover have "take n b = xorbuf (take n buf) t" "drop n b = r" using n t by (simp_all add: b_def)
    ultimately have b: "length b = length buf" "b \<noteq> []" "take n b = xorbuf (take n buf) t" "drop n b = r"
      using lb by simp_all
    have n': "(if length b < 64 then length b else 64) = n" by (simp add: b n_def)
    have "fst (chacha20_loop kw ivw cc b) = xorbuf (take n b) t @ fst (chacha20_loop kw ivw (cc + 1) (drop n b))"
      using b(2) by (subst chacha20_loop.simps)
        (simp only: Let_def n' t_def [symmetric], simp split: prod.split)
    also have "\<dots> = take n buf @ fst (chacha20_loop kw ivw (cc + 1) r)"
      using n t by (simp add: b xorbuf_involution)
    also have "fst (chacha20_loop kw ivw (cc + 1) r) = drop n buf"
      using 1 [OF False refl n_def refl] by (simp add: r_def)
    finally show ?thesis by (simp add: e b_def)
  qed
qed

lemma chacha20_involution:
  "fst (br_chacha20_ct_run key iv cc (fst (br_chacha20_ct_run key iv cc data))) = data"
  by (simp add: br_chacha20_ct_run_def Let_def chacha20_loop_involution)

lemma length_chacha20 [simp]: "length (fst (br_chacha20_ct_run key iv cc data)) = length data"
  by (simp add: br_chacha20_ct_run_def Let_def)

lemma length_poly1305_tag [simp]: "length (poly1305_tag pkey aad data) = 16"
  by (simp add: poly1305_tag_def poly1305_finish_def Let_def split: prod.split)

lemma length_poly1305_run [simp]:
  "length (fst (br_poly1305_ctmul_run key iv data aad br_chacha20_ct_run e)) = length data"
  "length (snd (br_poly1305_ctmul_run key iv data aad br_chacha20_ct_run e)) = 16"
  by (simp_all add: br_poly1305_ctmul_run_def Let_def)

lemma poly1305_run_roundtrip:
  assumes "br_poly1305_ctmul_run key iv data aad br_chacha20_ct_run True = (ct, tag)"
  shows "br_poly1305_ctmul_run key iv ct aad br_chacha20_ct_run False = (data, tag)"
  using assms by (auto simp: br_poly1305_ctmul_run_def Let_def chacha20_involution)

section \<open>The constant-time primitives compute the comparisons\<close>

lemma drop_bit_31: "drop_bit 31 (w :: u32) = of_bool (bit w 31)"
proof (rule bit_word_eqI)
  fix n assume "n < LENGTH(32)"
  then show "bit (drop_bit 31 w) n = bit (of_bool (bit w 31) :: u32) n"
    using bit_imp_le_length [of w "31 + n"] by (cases n) (auto simp: bit_simps)
qed

lemma bit_31_iff: "bit (w :: u32) 31 \<longleftrightarrow> 2 ^ 31 \<le> unat w"
proof -
  have lt: "unat w < 2 ^ 32" using unsigned_less [of w] by simp
  have "bit w 31 \<longleftrightarrow> odd (unat w div 2 ^ 31)"
    by (simp only: bit_iff_odd [symmetric] bit_unsigned_iff) simp
  also have "\<dots> \<longleftrightarrow> 2 ^ 31 \<le> unat w"
  proof (cases "2 ^ 31 \<le> unat w")
    case True
    then have "unat w div 2 ^ 31 = 1" using lt by (intro div_nat_eqI) simp_all
    with True show ?thesis by simp
  next
    case False
    then show ?thesis by simp
  qed
  finally show ?thesis .
qed

lemma bit_31_or_uminus: "bit (q :: u32) 31 \<or> bit (- q) 31 \<longleftrightarrow> q \<noteq> 0"
proof (cases "q = 0")
  case True
  then show ?thesis by simp
next
  case False
  then have "0 < unat q" "unat q < 2 ^ 32" using unsigned_less [of q] by (simp_all add: unat_gt_0)
  moreover have "unat (- q) = (2 ^ 32 - unat q) mod 2 ^ 32"
  proof -
    have "(4294967296 :: u32) = 0" by transfer simp
    then have "- q = word_of_nat (2 ^ 32 - unat q)"
      using \<open>unat q < 2 ^ 32\<close> by (simp add: of_nat_diff)
    then show ?thesis using unat_of_nat [of "2 ^ 32 - unat q", where 'a = 32] by simp
  qed
  ultimately have "unat (- q) = 2 ^ 32 - unat q" by simp
  with False show ?thesis by (auto simp: bit_31_iff)
qed

lemma EQ0_ct_eq: "EQ0_ct q = of_bool (q = 0)"
  using bit_31_or_uminus [of q] by (auto simp: EQ0_ct_def drop_bit_31 bit_not_iff bit_or_iff)

lemma word_xor_eq_0: "(x XOR y = 0) = (x = y)" for x y :: "'a::len word"
proof
  assume "x XOR y = 0"
  then have "(x XOR y) XOR y = 0 XOR y" by (rule arg_cong)
  then show "x = y" by (simp add: xor.assoc)
qed simp

lemma word_xor_left_cancel: "(a XOR x = a XOR y) = (x = y)" for a x y :: "'a::len word"
proof
  assume "a XOR x = a XOR y"
  then have "a XOR (a XOR x) = a XOR (a XOR y)" by (rule arg_cong)
  then show "x = y" by (simp add: xor.assoc [symmetric])
qed simp

lemma EQ_ct_eq: "EQ_ct x y = of_bool (x = y)"
  using bit_31_or_uminus [of "x XOR y"]
  by (auto simp: EQ_ct_def Let_def NOT_ct_def drop_bit_31 bit_or_iff word_xor_eq_0)

lemma MUX_eq: "MUX (of_bool b) x y = (if b then x else y)"
  by (cases b) (simp_all add: MUX_def xor.assoc [symmetric] xor.commute [of y x], simp add: xor.assoc)

end
