(* ===== verification/Aes_Gcm.thy ===== *)
theory Aes_Gcm
  imports Chacha_Poly
begin

text \<open>
  AES in counter mode (bearssl/src/symcipher/aes_ct.c, aes_ct_enc.c, aes_ct_ctr.c), GHASH
  (bearssl/src/hash/ghash_ctmul32.c) and GCM (bearssl/src/aead/gcm.c). The bitsliced AES state
  is a list of eight 32-bit words, two blocks at a time; GHASH multiplies in GF(2)[X] with
  32-bit products and bit reversal, as the C code does. All definitions compute.

  GCM reaches its block cipher through \<open>br_block_ctr_class\<close>: the locale \<open>ctr_mode\<close>
  states what it relies on (CTR is an involution that keeps lengths) and proves that
  decryption undoes encryption and that both compute the same tag; the locale is interpreted on
  the AES model.
\<close>

unbundle bit_operations_syntax

section \<open>Bitsliced AES: aes_ct.c and aes_ct_enc.c\<close>

definition br_aes_ct_bitslice_Sbox :: "u32 list \<Rightarrow> u32 list" where
  "br_aes_ct_bitslice_Sbox q =
     (let x0 = q ! 7; x1 = q ! 6; x2 = q ! 5; x3 = q ! 4; x4 = q ! 3; x5 = q ! 2; x6 = q ! 1;
          x7 = q ! 0; y14 = x3 XOR x5; y13 = x0 XOR x6; y9 = x0 XOR x3; y8 = x0 XOR x5;
          t0 = x1 XOR x2; y1 = t0 XOR x7; y4 = y1 XOR x3; y12 = y13 XOR y14; y2 = y1 XOR x0;
          y5 = y1 XOR x6; y3 = y5 XOR y8; t1 = x4 XOR y12; y15 = t1 XOR x5; y20 = t1 XOR x1;
          y6 = y15 XOR x7; y10 = y15 XOR t0; y11 = y20 XOR y9; y7 = x7 XOR y11; y17 = y10 XOR y11;
          y19 = y10 XOR y8; y16 = t0 XOR y11; y21 = y13 XOR y16; y18 = x0 XOR y16;
          t2 = y12 AND y15; t3 = y3 AND y6; t4 = t3 XOR t2; t5 = y4 AND x7; t6 = t5 XOR t2;
          t7 = y13 AND y16; t8 = y5 AND y1; t9 = t8 XOR t7; t10 = y2 AND y7; t11 = t10 XOR t7;
          t12 = y9 AND y11; t13 = y14 AND y17; t14 = t13 XOR t12; t15 = y8 AND y10;
          t16 = t15 XOR t12; t17 = t4 XOR t14; t18 = t6 XOR t16; t19 = t9 XOR t14;
          t20 = t11 XOR t16; t21 = t17 XOR y20; t22 = t18 XOR y19; t23 = t19 XOR y21;
          t24 = t20 XOR y18; t25 = t21 XOR t22; t26 = t21 AND t23; t27 = t24 XOR t26;
          t28 = t25 AND t27; t29 = t28 XOR t22; t30 = t23 XOR t24; t31 = t22 XOR t26;
          t32 = t31 AND t30; t33 = t32 XOR t24; t34 = t23 XOR t33; t35 = t27 XOR t33;
          t36 = t24 AND t35; t37 = t36 XOR t34; t38 = t27 XOR t36; t39 = t29 AND t38;
          t40 = t25 XOR t39; t41 = t40 XOR t37; t42 = t29 XOR t33; t43 = t29 XOR t40;
          t44 = t33 XOR t37; t45 = t42 XOR t41; z0 = t44 AND y15; z1 = t37 AND y6; z2 = t33 AND x7;
          z3 = t43 AND y16; z4 = t40 AND y1; z5 = t29 AND y7; z6 = t42 AND y11; z7 = t45 AND y17;
          z8 = t41 AND y10; z9 = t44 AND y12; z10 = t37 AND y3; z11 = t33 AND y4;
          z12 = t43 AND y13; z13 = t40 AND y5; z14 = t29 AND y2; z15 = t42 AND y9;
          z16 = t45 AND y14; z17 = t41 AND y8; t46 = z15 XOR z16; t47 = z10 XOR z11;
          t48 = z5 XOR z13; t49 = z9 XOR z10; t50 = z2 XOR z12; t51 = z2 XOR z5; t52 = z7 XOR z8;
          t53 = z0 XOR z3; t54 = z6 XOR z7; t55 = z16 XOR z17; t56 = z12 XOR t48;
          t57 = t50 XOR t53; t58 = z4 XOR t46; t59 = z3 XOR t54; t60 = t46 XOR t57;
          t61 = z14 XOR t57; t62 = t52 XOR t58; t63 = t49 XOR t58; t64 = z4 XOR t59;
          t65 = t61 XOR t62; t66 = z1 XOR t63; s0 = t59 XOR t63; s6 = t56 XOR (NOT t62);
          s7 = t48 XOR (NOT t60); t67 = t64 XOR t65; s3 = t53 XOR t66; s4 = t51 XOR t66;
          s5 = t47 XOR t65; s1 = t64 XOR (NOT s3); s2 = t55 XOR (NOT t67)
      in [s7, s6, s5, s4, s3, s2, s1, s0])"

definition aes_swapn :: "u32 \<Rightarrow> u32 \<Rightarrow> nat \<Rightarrow> nat \<Rightarrow> nat \<Rightarrow> u32 list \<Rightarrow> u32 list" where
  "aes_swapn cl ch s x y q =
     (let a = q ! x; b = q ! y
      in q[x := (a AND cl) OR push_bit s (b AND cl),
           y := drop_bit s (a AND ch) OR (b AND ch)])"

definition br_aes_ct_ortho :: "u32 list \<Rightarrow> u32 list" where
  "br_aes_ct_ortho q =
     (let swap2 = aes_swapn 0x55555555 0xAAAAAAAA 1;
          swap4 = aes_swapn 0x33333333 0xCCCCCCCC 2;
          swap8 = aes_swapn 0x0F0F0F0F 0xF0F0F0F0 4;
          q = swap2 6 7 (swap2 4 5 (swap2 2 3 (swap2 0 1 q)));
          q = swap4 5 7 (swap4 4 6 (swap4 1 3 (swap4 0 2 q)))
      in swap8 3 7 (swap8 2 6 (swap8 1 5 (swap8 0 4 q))))"

definition aes_Rcon :: "u32 list" where
  "aes_Rcon = [0x01, 0x02, 0x04, 0x08, 0x10, 0x20, 0x40, 0x80, 0x1B, 0x36]"

definition sub_word :: "u32 \<Rightarrow> u32" where
  "sub_word x = br_aes_ct_ortho (br_aes_ct_bitslice_Sbox (br_aes_ct_ortho (replicate 8 x))) ! 0"

fun aes_num_rounds :: "nat \<Rightarrow> nat" where
  "aes_num_rounds key_len =
     (if key_len = 16 then 10 else if key_len = 24 then 12 else if key_len = 32 then 14 else 0)"

text \<open>The expansion loop of \<open>br_aes_ct_keysched\<close>: \<open>w\<close> holds \<open>skey[2 * i]\<close> for the words made
  so far (each is stored twice), \<open>tmp\<close>, \<open>j\<close> and \<open>k\<close> are the C variables.\<close>

primrec aes_keysched_loop :: "nat \<Rightarrow> nat \<Rightarrow> u32 \<Rightarrow> nat \<Rightarrow> nat \<Rightarrow> u32 list \<Rightarrow> u32 list" where
  "aes_keysched_loop 0 nk tmp j k w = w"
| "aes_keysched_loop (Suc n) nk tmp j k w =
     (let i = length w;
          tmp = (if j = 0 then sub_word (push_bit 24 tmp OR drop_bit 8 tmp) XOR (aes_Rcon ! k)
                 else if 6 < nk \<and> j = 4 then sub_word tmp else tmp);
          tmp = tmp XOR (w ! (i - nk))
      in if j + 1 = nk then aes_keysched_loop n nk tmp 0 (k + 1) (w @ [tmp])
         else aes_keysched_loop n nk tmp (j + 1) k (w @ [tmp]))"

primrec aes_ortho_all :: "nat \<Rightarrow> u32 list \<Rightarrow> u32 list" where
  "aes_ortho_all 0 sk = sk"
| "aes_ortho_all (Suc n) sk = br_aes_ct_ortho (take 8 sk) @ aes_ortho_all n (drop 8 sk)"

definition br_aes_ct_keysched :: "bytes \<Rightarrow> nat \<times> u32 list" where
  "br_aes_ct_keysched key =
     (let num_rounds = aes_num_rounds (length key)
      in if num_rounds = 0 then (0, [])
         else let nk = length key div 4; nkf = (num_rounds + 1) * 4;
                  w0 = map (\<lambda>i. br_dec32le key (4 * i)) [0..<nk];
                  w = aes_keysched_loop (nkf - nk) nk (w0 ! (nk - 1)) 0 0 w0;
                  skey = aes_ortho_all (nkf div 4) (concat (map (\<lambda>x. [x, x]) w))
              in (num_rounds,
                  map (\<lambda>i. (skey ! (2 * i) AND 0x55555555) OR (skey ! (2 * i + 1) AND 0xAAAAAAAA)) [0..<nkf]))"

definition br_aes_ct_skey_expand :: "nat \<Rightarrow> u32 list \<Rightarrow> u32 list" where
  "br_aes_ct_skey_expand num_rounds comp_skey =
     concat (map (\<lambda>u. let x = comp_skey ! u AND 0x55555555; y = comp_skey ! u AND 0xAAAAAAAA
                      in [x OR push_bit 1 x, y OR drop_bit 1 y]) [0..<(num_rounds + 1) * 4])"

definition add_round_key :: "u32 list \<Rightarrow> u32 list \<Rightarrow> u32 list" where
  "add_round_key q sk = map2 (XOR) q (take 8 sk)"

definition shift_rows :: "u32 list \<Rightarrow> u32 list" where
  "shift_rows q = map (\<lambda>x. (x AND 0x000000FF)
      OR drop_bit 2 (x AND 0x0000FC00) OR push_bit 6 (x AND 0x00000300)
      OR drop_bit 4 (x AND 0x00F00000) OR push_bit 4 (x AND 0x000F0000)
      OR drop_bit 6 (x AND 0xC0000000) OR push_bit 2 (x AND 0x3F000000)) q"

definition rotr16 :: "u32 \<Rightarrow> u32" where
  "rotr16 x = push_bit 16 x OR drop_bit 16 x"

definition mix_columns :: "u32 list \<Rightarrow> u32 list" where
  "mix_columns q =
     (let q0 = q ! 0; q1 = q ! 1; q2 = q ! 2; q3 = q ! 3; q4 = q ! 4; q5 = q ! 5; q6 = q ! 6; q7 = q ! 7;
          r = map (\<lambda>x. drop_bit 8 x OR push_bit 24 x) q;
          r0 = r ! 0; r1 = r ! 1; r2 = r ! 2; r3 = r ! 3; r4 = r ! 4; r5 = r ! 5; r6 = r ! 6; r7 = r ! 7
      in [q7 XOR r7 XOR r0 XOR rotr16 (q0 XOR r0),
          q0 XOR r0 XOR q7 XOR r7 XOR r1 XOR rotr16 (q1 XOR r1),
          q1 XOR r1 XOR r2 XOR rotr16 (q2 XOR r2),
          q2 XOR r2 XOR q7 XOR r7 XOR r3 XOR rotr16 (q3 XOR r3),
          q3 XOR r3 XOR q7 XOR r7 XOR r4 XOR rotr16 (q4 XOR r4),
          q4 XOR r4 XOR r5 XOR rotr16 (q5 XOR r5),
          q5 XOR r5 XOR r6 XOR rotr16 (q6 XOR r6),
          q6 XOR r6 XOR r7 XOR rotr16 (q7 XOR r7)])"

definition aes_round :: "u32 list \<Rightarrow> nat \<Rightarrow> u32 list \<Rightarrow> u32 list" where
  "aes_round skey u q =
     add_round_key (mix_columns (shift_rows (br_aes_ct_bitslice_Sbox q))) (drop (8 * u) skey)"

definition br_aes_ct_bitslice_encrypt :: "nat \<Rightarrow> u32 list \<Rightarrow> u32 list \<Rightarrow> u32 list" where
  "br_aes_ct_bitslice_encrypt num_rounds skey q =
     (let q = fold (aes_round skey) [1..<num_rounds] (add_round_key q skey)
      in add_round_key (shift_rows (br_aes_ct_bitslice_Sbox q)) (drop (8 * num_rounds) skey))"

section \<open>Counter mode: aes_ct_ctr.c\<close>

record aes_ctr_keys =
  ac_skey :: "u32 list"
  ac_num_rounds :: nat

definition br_aes_ct_ctr_init :: "bytes \<Rightarrow> aes_ctr_keys" where
  "br_aes_ct_ctr_init key =
     (let (n, sk) = br_aes_ct_keysched key in \<lparr>ac_skey = sk, ac_num_rounds = n\<rparr>)"

text \<open>The key stream of two consecutive counter blocks.\<close>

definition aes_ctr_pair :: "nat \<Rightarrow> u32 list \<Rightarrow> u32 \<Rightarrow> u32 \<Rightarrow> u32 \<Rightarrow> u32 \<Rightarrow> bytes" where
  "aes_ctr_pair num_rounds sk_exp iv0 iv1 iv2 cc =
     (let q = [iv0, iv0, iv1, iv1, iv2, iv2, br_swap32 cc, br_swap32 (cc + 1)];
          q = br_aes_ct_ortho (br_aes_ct_bitslice_encrypt num_rounds sk_exp (br_aes_ct_ortho q))
      in concat (map (\<lambda>u. br_enc32le (q ! u)) [0, 2, 4, 6, 1, 3, 5, 7]))"

function aes_ctr_loop :: "(u32 \<Rightarrow> bytes) \<Rightarrow> u32 \<Rightarrow> bytes \<Rightarrow> bytes \<times> u32" where
  "aes_ctr_loop ks cc buf =
     (if buf = [] then ([], cc)
      else if length buf \<le> 32
      then (xorbuf buf (take (length buf) (ks cc)), if 16 < length buf then cc + 2 else cc + 1)
      else let (rest, cc') = aes_ctr_loop ks (cc + 2) (drop 32 buf)
           in (xorbuf (take 32 buf) (ks cc) @ rest, cc'))"
  by pat_completeness auto
termination
  by (relation "measure (\<lambda>(ks, cc, buf). length buf)") auto

declare aes_ctr_loop.simps [simp del]

definition br_aes_ct_ctr_run :: "aes_ctr_keys \<Rightarrow> bytes \<Rightarrow> u32 \<Rightarrow> bytes \<Rightarrow> bytes \<times> u32" where
  "br_aes_ct_ctr_run ctx iv cc data =
     (let sk_exp = br_aes_ct_skey_expand (ac_num_rounds ctx) (ac_skey ctx)
      in aes_ctr_loop (aes_ctr_pair (ac_num_rounds ctx) sk_exp
           (br_dec32le iv 0) (br_dec32le iv 4) (br_dec32le iv 8)) cc data)"

section \<open>GHASH: ghash_ctmul32.c\<close>

definition bmul32 :: "u32 \<Rightarrow> u32 \<Rightarrow> u32" where
  "bmul32 x y =
     (let x0 = x AND 0x11111111; x1 = x AND 0x22222222; x2 = x AND 0x44444444; x3 = x AND 0x88888888;
          y0 = y AND 0x11111111; y1 = y AND 0x22222222; y2 = y AND 0x44444444; y3 = y AND 0x88888888;
          z0 = (x0 * y0) XOR (x1 * y3) XOR (x2 * y2) XOR (x3 * y1);
          z1 = (x0 * y1) XOR (x1 * y0) XOR (x2 * y3) XOR (x3 * y2);
          z2 = (x0 * y2) XOR (x1 * y1) XOR (x2 * y0) XOR (x3 * y3);
          z3 = (x0 * y3) XOR (x1 * y2) XOR (x2 * y1) XOR (x3 * y0)
      in (z0 AND 0x11111111) OR (z1 AND 0x22222222) OR (z2 AND 0x44444444) OR (z3 AND 0x88888888))"

definition rev32 :: "u32 \<Rightarrow> u32" where
  "rev32 x =
     (let rms = (\<lambda>m s x. push_bit s (x AND m) OR (drop_bit s x AND m));
          x = rms 0x55555555 1 x;
          x = rms 0x33333333 2 x;
          x = rms 0x0F0F0F0F 4 x;
          x = rms 0x00FF00FF 8 x
      in push_bit 16 x OR drop_bit 16 x)"

text \<open>The operands of the nine products of one Karatsuba multiplication.\<close>

definition ghash_operands :: "u32 \<Rightarrow> u32 \<Rightarrow> u32 \<Rightarrow> u32 \<Rightarrow> u32 list" where
  "ghash_operands a0 a1 a2 a3 =
     [a0, a1, a2, a3, a0 XOR a1, a2 XOR a3, a0 XOR a2, a1 XOR a3, (a0 XOR a2) XOR (a1 XOR a3)]"

definition ghash_reduce_step :: "nat \<Rightarrow> u32 list \<Rightarrow> u32 list" where
  "ghash_reduce_step i zw =
     (let lw = zw ! i;
          zw = zw[i + 4 := zw ! (i + 4) XOR (lw XOR drop_bit 1 lw XOR drop_bit 2 lw XOR drop_bit 7 lw)]
      in zw[i + 3 := zw ! (i + 3) XOR (push_bit 31 lw XOR push_bit 30 lw XOR push_bit 25 lw)])"

definition ghash_mul :: "u32 list \<Rightarrow> u32 list \<Rightarrow> u32 list" where
  "ghash_mul yw hw =
     (let a = ghash_operands (yw ! 0) (yw ! 1) (yw ! 2) (yw ! 3)
              @ ghash_operands (rev32 (yw ! 0)) (rev32 (yw ! 1)) (rev32 (yw ! 2)) (rev32 (yw ! 3));
          b = ghash_operands (hw ! 0) (hw ! 1) (hw ! 2) (hw ! 3)
              @ ghash_operands (rev32 (hw ! 0)) (rev32 (hw ! 1)) (rev32 (hw ! 2)) (rev32 (hw ! 3));
          c = map2 bmul32 a b;
          c = c[4 := c ! 4 XOR (c ! 0 XOR c ! 1)];
          c = c[5 := c ! 5 XOR (c ! 2 XOR c ! 3)];
          c = c[8 := c ! 8 XOR (c ! 6 XOR c ! 7)];
          c = c[13 := c ! 13 XOR (c ! 9 XOR c ! 10)];
          c = c[14 := c ! 14 XOR (c ! 11 XOR c ! 12)];
          c = c[17 := c ! 17 XOR (c ! 15 XOR c ! 16)];
          d0 = c ! 0;
          d1 = c ! 4 XOR drop_bit 1 (rev32 (c ! 9));
          d2 = c ! 1 XOR c ! 0 XOR c ! 2 XOR c ! 6 XOR drop_bit 1 (rev32 (c ! 13));
          d3 = c ! 4 XOR c ! 5 XOR c ! 8 XOR drop_bit 1 (rev32 (c ! 10 XOR c ! 9 XOR c ! 11 XOR c ! 15));
          d4 = c ! 2 XOR c ! 1 XOR c ! 3 XOR c ! 7 XOR drop_bit 1 (rev32 (c ! 13 XOR c ! 14 XOR c ! 17));
          d5 = c ! 5 XOR drop_bit 1 (rev32 (c ! 11 XOR c ! 10 XOR c ! 12 XOR c ! 16));
          d6 = c ! 3 XOR drop_bit 1 (rev32 (c ! 14));
          d7 = drop_bit 1 (rev32 (c ! 12));
          zw = [push_bit 1 d0, push_bit 1 d1 OR drop_bit 31 d0, push_bit 1 d2 OR drop_bit 31 d1,
                push_bit 1 d3 OR drop_bit 31 d2, push_bit 1 d4 OR drop_bit 31 d3,
                push_bit 1 d5 OR drop_bit 31 d4, push_bit 1 d6 OR drop_bit 31 d5,
                push_bit 1 d7 OR drop_bit 31 d6];
          zw = fold ghash_reduce_step [0..<4] zw
      in drop 4 zw)"

function ghash_loop :: "u32 list \<Rightarrow> u32 list \<Rightarrow> bytes \<Rightarrow> u32 list" where
  "ghash_loop hw yw data =
     (if data = [] then yw
      else let src = (if 16 \<le> length data then take 16 data else data @ replicate (16 - length data) 0);
               yw = [yw ! 0 XOR br_dec32be src 12, yw ! 1 XOR br_dec32be src 8,
                     yw ! 2 XOR br_dec32be src 4, yw ! 3 XOR br_dec32be src 0]
           in ghash_loop hw (ghash_mul yw hw) (drop 16 data))"
  by pat_completeness auto
termination
  by (relation "measure (\<lambda>(hw, yw, data). length data)") auto

declare ghash_loop.simps [simp del]

definition br_ghash_ctmul32 :: "bytes \<Rightarrow> bytes \<Rightarrow> bytes \<Rightarrow> bytes" where
  "br_ghash_ctmul32 y h data =
     (let yw = [br_dec32be y 12, br_dec32be y 8, br_dec32be y 4, br_dec32be y 0];
          hw = [br_dec32be h 12, br_dec32be h 8, br_dec32be h 4, br_dec32be h 0];
          yw = ghash_loop hw yw data
      in br_enc32be (yw ! 3) @ br_enc32be (yw ! 2) @ br_enc32be (yw ! 1) @ br_enc32be (yw ! 0))"

section \<open>GCM: gcm.c\<close>

text \<open>The context. The block cipher's \<open>run\<close> with its keys and the GHASH function are the two
  function pointers of \<open>br_gcm_context\<close>.\<close>

record gcm_ctx =
  gc_run :: "bytes \<Rightarrow> u32 \<Rightarrow> bytes \<Rightarrow> bytes \<times> u32"
  gc_gh :: "bytes \<Rightarrow> bytes \<Rightarrow> bytes \<Rightarrow> bytes"
  gc_h :: bytes
  gc_j0_1 :: bytes
  gc_buf :: bytes
  gc_y :: bytes
  gc_j0_2 :: u32
  gc_jc :: u32
  gc_count_aad :: u64
  gc_count_ctr :: u64

definition br_gcm_init ::
  "(bytes \<Rightarrow> u32 \<Rightarrow> bytes \<Rightarrow> bytes \<times> u32) \<Rightarrow> (bytes \<Rightarrow> bytes \<Rightarrow> bytes \<Rightarrow> bytes) \<Rightarrow> gcm_ctx" where
  "br_gcm_init run gh =
     \<lparr>gc_run = run, gc_gh = gh, gc_h = fst (run (replicate 12 0) 0 (replicate 16 0)),
      gc_j0_1 = [], gc_buf = [], gc_y = [], gc_j0_2 = 0, gc_jc = 0, gc_count_aad = 0, gc_count_ctr = 0\<rparr>"

definition br_gcm_reset :: "gcm_ctx \<Rightarrow> bytes \<Rightarrow> gcm_ctx" where
  "br_gcm_reset ctx iv =
     (let (j1, j2) =
            (if length iv = 12 then (iv, 1)
             else let ty = gc_gh ctx (replicate 16 0) (gc_h ctx) iv;
                      ty = gc_gh ctx ty (gc_h ctx)
                             (replicate 8 0 @ br_enc64be (push_bit 3 (word_of_nat (length iv))))
                  in (take 12 ty, br_dec32be ty 12))
      in ctx\<lparr>gc_j0_1 := j1, gc_j0_2 := j2, gc_jc := j2 + 1, gc_y := replicate 16 0,
             gc_count_aad := 0, gc_count_ctr := 0\<rparr>)"

definition gcm_ptr :: "u64 \<Rightarrow> nat" where
  "gcm_ptr count = unat (count AND 15)"

definition br_gcm_aad_inject :: "gcm_ctx \<Rightarrow> bytes \<Rightarrow> gcm_ctx" where
  "br_gcm_aad_inject ctx data =
     (let ptr = gcm_ptr (gc_count_aad ctx); clen = 16 - ptr
      in if ptr \<noteq> 0 \<and> length data < clen
         then ctx\<lparr>gc_buf := wr (gc_buf ctx) ptr data,
                  gc_count_aad := gc_count_aad ctx + word_of_nat (length data)\<rparr>
         else let (ctx, data) =
                (if ptr \<noteq> 0
                 then let buf = wr (gc_buf ctx) ptr (take clen data)
                      in (ctx\<lparr>gc_buf := buf, gc_y := gc_gh ctx (gc_y ctx) (gc_h ctx) (rd buf 0 16),
                               gc_count_aad := gc_count_aad ctx + word_of_nat clen\<rparr>, drop clen data)
                 else (ctx, data));
                  dlen = length data - length data mod 16
              in ctx\<lparr>gc_y := gc_gh ctx (gc_y ctx) (gc_h ctx) (take dlen data),
                     gc_buf := wr (gc_buf ctx) 0 (drop dlen data),
                     gc_count_aad := gc_count_aad ctx + word_of_nat (length data)\<rparr>)"

definition br_gcm_flip :: "gcm_ctx \<Rightarrow> gcm_ctx" where
  "br_gcm_flip ctx =
     (let ptr = gcm_ptr (gc_count_aad ctx)
      in if ptr \<noteq> 0 then ctx\<lparr>gc_y := gc_gh ctx (gc_y ctx) (gc_h ctx) (rd (gc_buf ctx) 0 ptr)\<rparr> else ctx)"

text \<open>The two halves of \<open>br_gcm_run\<close>: completing a partial block, then full blocks and the
  new partial block.\<close>

definition gcm_run_head :: "gcm_ctx \<Rightarrow> bool \<Rightarrow> bytes \<Rightarrow> gcm_ctx \<times> bytes" where
  "gcm_run_head ctx encrypt x =
     (let ptr = gcm_ptr (gc_count_ctr ctx);
          y = xorbuf x (rd (gc_buf ctx) ptr (length x))
      in (ctx\<lparr>gc_buf := wr (gc_buf ctx) ptr (if encrypt then y else x),
              gc_count_ctr := gc_count_ctr ctx + word_of_nat (length x)\<rparr>, y))"

definition gcm_run_tail :: "gcm_ctx \<Rightarrow> bool \<Rightarrow> bytes \<Rightarrow> gcm_ctx \<times> bytes" where
  "gcm_run_tail ctx encrypt data =
     (let dlen = length data - length data mod 16;
          x = take dlen data;
          (y, jc) = gc_run ctx (gc_j0_1 ctx) (gc_jc ctx) x;
          ctx = ctx\<lparr>gc_y := gc_gh ctx (gc_y ctx) (gc_h ctx) (if encrypt then y else x),
                    gc_jc := jc, gc_count_ctr := gc_count_ctr ctx + word_of_nat dlen\<rparr>;
          x' = drop dlen data
      in if x' = [] then (ctx, y)
         else let (ks, jc) = gc_run ctx (gc_j0_1 ctx) (gc_jc ctx) (replicate 16 0);
                  y' = xorbuf x' (rd ks 0 (length x'))
              in (ctx\<lparr>gc_jc := jc, gc_buf := wr ks 0 (if encrypt then y' else x'),
                      gc_count_ctr := gc_count_ctr ctx + word_of_nat (length x')\<rparr>, y @ y'))"

definition br_gcm_run :: "gcm_ctx \<Rightarrow> bool \<Rightarrow> bytes \<Rightarrow> gcm_ctx \<times> bytes" where
  "br_gcm_run ctx encrypt data =
     (let ptr = gcm_ptr (gc_count_ctr ctx)
      in if ptr = 0 then gcm_run_tail ctx encrypt data
         else let clen = min (16 - ptr) (length data);
                  (ctx, out) = gcm_run_head ctx encrypt (take clen data)
              in if ptr + clen < 16 then (ctx, out)
                 else let ctx = ctx\<lparr>gc_y := gc_gh ctx (gc_y ctx) (gc_h ctx) (rd (gc_buf ctx) 0 16)\<rparr>;
                          (ctx, out') = gcm_run_tail ctx encrypt (drop clen data)
                      in (ctx, out @ out'))"

definition br_gcm_get_tag :: "gcm_ctx \<Rightarrow> gcm_ctx \<times> bytes" where
  "br_gcm_get_tag ctx =
     (let ptr = gcm_ptr (gc_count_ctr ctx);
          y = (if 0 < ptr then gc_gh ctx (gc_y ctx) (gc_h ctx) (rd (gc_buf ctx) 0 ptr) else gc_y ctx);
          tmp = br_enc64be (push_bit 3 (gc_count_aad ctx)) @ br_enc64be (push_bit 3 (gc_count_ctr ctx));
          y = gc_gh ctx y (gc_h ctx) tmp
      in (ctx\<lparr>gc_y := y\<rparr>, fst (gc_run ctx (gc_j0_1 ctx) (gc_j0_2 ctx) (rd y 0 16))))"

definition br_gcm_check_tag_trunc :: "gcm_ctx \<Rightarrow> bytes \<Rightarrow> nat \<Rightarrow> gcm_ctx \<times> u32" where
  "br_gcm_check_tag_trunc ctx tag len =
     (let (ctx, tmp) = br_gcm_get_tag ctx;
          x = fold (\<lambda>u x. x OR (ucast (byte_at tmp u XOR byte_at tag u) :: u32)) [0..<len] 0
      in (ctx, EQ0_ct x))"

definition br_gcm_check_tag :: "gcm_ctx \<Rightarrow> bytes \<Rightarrow> gcm_ctx \<times> u32" where
  "br_gcm_check_tag ctx tag = br_gcm_check_tag_trunc ctx tag 16"

section \<open>What GCM relies on, and what it gives\<close>

locale ctr_mode =
  fixes run :: "bytes \<Rightarrow> u32 \<Rightarrow> bytes \<Rightarrow> bytes \<times> u32"
  assumes run_length: "length (fst (run iv cc d)) = length d"
    and run_invol: "fst (run iv cc (fst (run iv cc d))) = d"
    and run_next: "length d = length d' \<Longrightarrow> snd (run iv cc d) = snd (run iv cc d')"
begin

lemma gcm_tail_roundtrip:
  assumes "gc_run ctx = run" "gcm_run_tail ctx True data = (ctx', ct)"
  shows "gcm_run_tail ctx False ct = (ctx', data) \<and> length ct = length data"
proof -
  define n where "n = length data - length data mod 16"
  define y where "y = fst (run (gc_j0_1 ctx) (gc_jc ctx) (take n data))"
  define jc where "jc = snd (run (gc_j0_1 ctx) (gc_jc ctx) (take n data))"
  define ks where "ks = fst (run (gc_j0_1 ctx) jc (replicate 16 0))"
  define y' where "y' = xorbuf (drop n data) (rd ks 0 (length (drop n data)))"
  have n: "n \<le> length data" by (simp add: n_def)
  have ly: "length y = n" using n by (simp add: y_def run_length)
  have ly': "length y' = length data - n" by (simp add: y'_def)
  have ct: "ct = y @ y'"
    using assms
    by (auto simp: gcm_run_tail_def Let_def n_def [symmetric] y_def jc_def ks_def y'_def split: prod.splits if_splits)
       (simp_all add: xorbuf_def)
  have lct: "length ct = length data" using ct ly ly' n by simp
  have m: "length ct - length ct mod 16 = n" by (simp add: lct n_def)
  have parts: "take n ct = y" "drop n ct = y'" using ct ly by simp_all
  have inv: "run (gc_j0_1 ctx) (gc_jc ctx) y = (take n data, jc)"
    using run_invol [of "gc_j0_1 ctx" "gc_jc ctx" "take n data"]
      run_next [of "take n data" y "gc_j0_1 ctx" "gc_jc ctx"] n ly
    by (simp add: prod_eq_iff y_def jc_def)
  have inv': "xorbuf y' (rd ks 0 (length y')) = drop n data"
    using ly' by (simp add: y'_def xorbuf_involution)
  have fwd: "run (gc_j0_1 ctx) (gc_jc ctx) (take n data) = (y, jc)" by (simp add: y_def jc_def)
  have empty: "(y' = []) = (drop n data = [])" using ly' by (metis length_0_conv length_drop)
  show ?thesis
  proof (cases "drop n data = []")
    case True
    then show ?thesis
      using assms m parts empty inv fwd lct n
      by (auto simp: gcm_run_tail_def Let_def n_def [symmetric])
  next
    case False
    then show ?thesis
      using assms m parts empty inv fwd lct inv' ks_def y'_def
      by (auto simp: gcm_run_tail_def Let_def n_def [symmetric] split: prod.splits)
  qed
qed

lemma gcm_tail_length:
  assumes "gc_run ctx = run"
  shows "length (snd (gcm_run_tail ctx e d)) = length d"
  by (simp add: gcm_run_tail_def Let_def assms split_beta run_length min_def)

lemma gcm_run_length:
  assumes "gc_run ctx = run" "gcm_ptr (gc_count_ctr ctx) = 0"
  shows "length (snd (br_gcm_run ctx e d)) = length d"
  using gcm_tail_length [OF assms(1)] assms(2) by (simp add: br_gcm_run_def)

lemma gcm_run_roundtrip:
  assumes r: "gc_run ctx = run" "gcm_ptr (gc_count_ctr ctx) = 0" "br_gcm_run ctx True data = (ctx', ct)"
  shows "br_gcm_run ctx False ct = (ctx', data)" "length ct = length data"
  using gcm_tail_roundtrip [of ctx data ctx' ct] assms by (simp_all add: br_gcm_run_def)

end

lemma length_aes_ctr_pair [simp]: "length (aes_ctr_pair n sk a b c cc) = 32"
  by (simp add: aes_ctr_pair_def Let_def)

lemma aes_ctr_loop_snd: "length d = length d' \<Longrightarrow> snd (aes_ctr_loop ks cc d) = snd (aes_ctr_loop ks cc d')"
proof (induction ks cc d arbitrary: d' rule: aes_ctr_loop.induct)
  case (1 ks cc d)
  show ?case
  proof (cases "d = [] \<or> length d \<le> 32")
    case True
    with "1.prems" show ?thesis
      by (auto simp: aes_ctr_loop.simps [of ks cc d] aes_ctr_loop.simps [of ks cc d'])
  next
    case False
    then have "snd (aes_ctr_loop ks (cc + 2) (drop 32 d)) = snd (aes_ctr_loop ks (cc + 2) (drop 32 d'))"
      using 1 by simp
    with False "1.prems" show ?thesis
      by (auto simp: aes_ctr_loop.simps [of ks cc d] aes_ctr_loop.simps [of ks cc d'] split: prod.splits)
  qed
qed

lemma aes_ctr_loop_fst:
  assumes "\<And>c. length (ks c) = 32"
  shows "length (fst (aes_ctr_loop ks cc d)) = length d
    \<and> fst (aes_ctr_loop ks cc (fst (aes_ctr_loop ks cc d))) = d"
  using assms
proof (induction ks cc d rule: aes_ctr_loop.induct)
  case (1 ks cc d)
  show ?case
  proof (cases "d = [] \<or> length d \<le> 32")
    case True
    let ?x = "xorbuf d (take (length d) (ks cc))"
    have "length ?x = length d" using True "1.prems" by auto
    moreover have "xorbuf ?x (take (length d) (ks cc)) = d"
      using True "1.prems" by (intro xorbuf_involution) auto
    moreover have "?x = [] \<longleftrightarrow> d = []" using \<open>length ?x = length d\<close> by (metis length_0_conv)
    ultimately show ?thesis
      using True by (auto simp: aes_ctr_loop.simps [of ks cc d] aes_ctr_loop.simps [of ks cc ?x]
          aes_ctr_loop.simps [of ks cc "[]"])
  next
    case False
    define r where "r = fst (aes_ctr_loop ks (cc + 2) (drop 32 d))"
    let ?x = "xorbuf (take 32 d) (ks cc) @ r"
    have IH: "length r = length d - 32" "fst (aes_ctr_loop ks (cc + 2) r) = drop 32 d"
      using 1 False by (simp_all add: r_def)
    have lx: "length (xorbuf (take 32 d) (ks cc)) = 32" using False "1.prems" by simp
    have xx: "length ?x = length d" "?x \<noteq> []" "\<not> length ?x \<le> 32" "take 32 ?x = xorbuf (take 32 d) (ks cc)"
      "drop 32 ?x = r"
      using False lx IH(1) by auto
    have "fst (aes_ctr_loop ks cc d) = ?x"
      using False by (simp add: aes_ctr_loop.simps [of ks cc d] r_def split: prod.splits)
    moreover have "fst (aes_ctr_loop ks cc ?x) = xorbuf (take 32 ?x) (ks cc) @ fst (aes_ctr_loop ks (cc + 2) (drop 32 ?x))"
      using xx(2,3) by (subst aes_ctr_loop.simps) (auto split: prod.splits)
    ultimately show ?thesis
      using xx False "1.prems" IH(2) by (simp add: xorbuf_involution)
  qed
qed

interpretation aes_ctr: ctr_mode "br_aes_ct_ctr_run k" for k
proof unfold_locales
  let ?ks = "\<lambda>iv. aes_ctr_pair (ac_num_rounds k) (br_aes_ct_skey_expand (ac_num_rounds k) (ac_skey k))
           (br_dec32le iv 0) (br_dec32le iv 4) (br_dec32le iv 8)"
  have run: "br_aes_ct_ctr_run k iv cc d = aes_ctr_loop (?ks iv) cc d" for iv cc d
    by (simp only: br_aes_ct_ctr_run_def Let_def)
  show "length (fst (br_aes_ct_ctr_run k iv cc d)) = length d"
    "fst (br_aes_ct_ctr_run k iv cc (fst (br_aes_ct_ctr_run k iv cc d))) = d" for iv cc d
    unfolding run using aes_ctr_loop_fst [of "?ks iv" cc d] by simp_all
  show "length d = length d' \<Longrightarrow> snd (br_aes_ct_ctr_run k iv cc d) = snd (br_aes_ct_ctr_run k iv cc d')"
    for d d' iv cc
    unfolding run by (rule aes_ctr_loop_snd)
qed

text \<open>The tag check is equality of the sixteen bytes.\<close>

lemma fold_or_zero:
  "fold (\<lambda>u x. x OR f u) us x = (0 :: 'a::len word) \<longleftrightarrow> x = 0 \<and> (\<forall>u\<in>set us. f u = 0)"
proof (induction us arbitrary: x)
  case Nil
  then show ?case by simp
next
  case (Cons u us)
  have "(x OR f u = 0) = (x = 0 \<and> f u = 0)" for x
    by (auto simp: bit_eq_iff bit_or_iff)
  with Cons show ?case by auto
qed

lemma ucast_byte_zero: "(ucast (b :: byte) :: u32) = 0 \<longleftrightarrow> b = 0"
proof -
  have "unat (ucast b :: u32) = unat b"
    using unsigned_less [of b, where ?'a = nat] by (simp add: unsigned_ucast_eq take_bit_nat_eq_self)
  then show ?thesis by (metis unsigned_0 unat_0_iff)
qed

lemma rd_eq_iff: "rd a i n = rd b j n \<longleftrightarrow> (\<forall>u < n. byte_at a (i + u) = byte_at b (j + u))"
  by (auto simp: list_eq_iff_nth_eq nth_rd)

lemma br_gcm_check_tag_eq:
  "snd (br_gcm_check_tag ctx tag) = of_bool (rd (snd (br_gcm_get_tag ctx)) 0 16 = rd tag 0 16)"
proof -
  have "(fold (\<lambda>u x. x OR (ucast (byte_at t u XOR byte_at tag u) :: u32)) [0..<16] 0 = 0)
        = (rd t 0 16 = rd tag 0 16)" for t
    unfolding fold_or_zero rd_eq_iff by (auto simp: ucast_byte_zero word_xor_eq_0)
  then show ?thesis
    by (simp add: br_gcm_check_tag_def br_gcm_check_tag_trunc_def EQ0_ct_eq Let_def split: prod.splits)
qed

end
