(* ===== verification/Record_Layer.thy ===== *)
theory Record_Layer
  imports Aes_Gcm Key_Schedule
begin

text \<open>
  TLS 1.3 record protection, os9/ostls_tls13_record.c: the per-record nonce, the additional
  data, encryption and decryption with either AEAD, removal of the padding. The C struct
  \<open>tls13_record_ctx\<close> is the record \<open>record_ctx\<close>.

  A failed decryption returns \<open>-1\<close> but has already written the unauthenticated plaintext to the
  caller's buffer; the model returns that buffer too.
\<close>

unbundle bit_operations_syntax

section \<open>Operations\<close>

definition TLS13_CHACHA20_POLY1305_SHA256 :: u16 where "TLS13_CHACHA20_POLY1305_SHA256 = 0x1303"
definition TLS13_AES_256_GCM_SHA384 :: u16 where "TLS13_AES_256_GCM_SHA384 = 0x1302"
definition TLS13_AES_128_GCM_SHA256 :: u16 where "TLS13_AES_128_GCM_SHA256 = 0x1301"

lemmas suite_defs = TLS13_CHACHA20_POLY1305_SHA256_def TLS13_AES_256_GCM_SHA384_def
  TLS13_AES_128_GCM_SHA256_def

definition TLS13_TAG_SIZE :: nat where "TLS13_TAG_SIZE = 16"

definition compute_nonce :: "bytes \<Rightarrow> u64 \<Rightarrow> bytes" where
  "compute_nonce iv seq =
     (let n = rd iv 0 12;
          x = (\<lambda>i k n. n[i := n ! i XOR ucast (drop_bit k seq)])
      in x 11 0 (x 10 8 (x 9 16 (x 8 24 (x 7 32 (x 6 40 (x 5 48 (x 4 56 n))))))))"

definition build_aad :: "nat \<Rightarrow> bytes" where
  "build_aad ciphertext_len =
     [0x17, 0x03, 0x03, word_of_nat (ciphertext_len div 256), word_of_nat ciphertext_len]"

definition tag_equal :: "bytes \<Rightarrow> bytes \<Rightarrow> bool" where
  "tag_equal a b = (fold (\<lambda>i diff. diff OR (byte_at a i XOR byte_at b i)) [0..<TLS13_TAG_SIZE] 0 = 0)"

record record_ctx =
  rc_key :: bytes
  rc_key_len :: nat
  rc_iv :: bytes
  rc_seq :: u64
  rc_suite :: u16

definition tls13_record_init :: "record_ctx \<Rightarrow> bytes \<Rightarrow> bytes \<Rightarrow> u16 \<Rightarrow> record_ctx" where
  "tls13_record_init ctx key iv suite =
     ctx\<lparr>rc_key := wr (rc_key ctx) 0 key, rc_key_len := length key, rc_iv := rd iv 0 12,
         rc_seq := 0, rc_suite := suite\<rparr>"

text \<open>The AES-GCM branch common to both directions up to the tag.\<close>

definition gcm_prepare :: "record_ctx \<Rightarrow> bytes \<Rightarrow> bytes \<Rightarrow> gcm_ctx" where
  "gcm_prepare ctx nonce aad =
     (let aes_ctx = br_aes_ct_ctr_init (rd (rc_key ctx) 0 (rc_key_len ctx));
          gcm = br_gcm_init (br_aes_ct_ctr_run aes_ctx) br_ghash_ctmul32;
          gcm = br_gcm_reset gcm nonce;
          gcm = br_gcm_aad_inject gcm aad
      in br_gcm_flip gcm)"

definition tls13_record_encrypt :: "record_ctx \<Rightarrow> bytes \<Rightarrow> byte \<Rightarrow> record_ctx \<times> bytes" where
  "tls13_record_encrypt ctx plaintext ct =
     (let total_ct_len = length plaintext + 1 + TLS13_TAG_SIZE;
          nonce = compute_nonce (rc_iv ctx) (rc_seq ctx);
          aad = build_aad total_ct_len;
          out_buf = plaintext @ [ct];
          (out, tag) =
            (if rc_suite ctx = TLS13_CHACHA20_POLY1305_SHA256
             then br_poly1305_ctmul_run (rd (rc_key ctx) 0 32) nonce out_buf aad br_chacha20_ct_run True
             else let (gcm, c) = br_gcm_run (gcm_prepare ctx nonce aad) True out_buf
                  in (c, snd (br_gcm_get_tag gcm)))
      in (ctx\<lparr>rc_seq := rc_seq ctx + 1\<rparr>, out @ tag))"

primrec strip_zeros :: "bytes \<Rightarrow> nat \<Rightarrow> nat" where
  "strip_zeros buf 0 = 0"
| "strip_zeros buf (Suc i) = (if byte_at buf i = 0 then strip_zeros buf i else Suc i)"

definition tls13_record_decrypt :: "record_ctx \<Rightarrow> bytes \<Rightarrow> record_ctx \<times> bytes \<times> (nat \<times> byte) option" where
  "tls13_record_decrypt ctx ciphertext =
     (let ct_len = length ciphertext
      in if ct_len < 1 + TLS13_TAG_SIZE then (ctx, [], None)
         else let payload_len = ct_len - TLS13_TAG_SIZE;
                  nonce = compute_nonce (rc_iv ctx) (rc_seq ctx);
                  aad = build_aad ct_len;
                  payload = take payload_len ciphertext;
                  tag = drop payload_len ciphertext;
                  (dec, ok) =
                    (if rc_suite ctx = TLS13_CHACHA20_POLY1305_SHA256
                     then let (d, calc_tag) = br_poly1305_ctmul_run (rd (rc_key ctx) 0 32) nonce payload aad
                                               br_chacha20_ct_run False
                          in (d, tag_equal calc_tag tag)
                     else let (gcm, d) = br_gcm_run (gcm_prepare ctx nonce aad) False payload
                          in (d, snd (br_gcm_check_tag gcm tag) \<noteq> 0));
                  dec_buf = dec @ tag
              in if \<not> ok then (ctx, dec_buf, None)
                 else let i = strip_zeros dec_buf payload_len
                      in if i = 0 then (ctx, dec_buf, None)
                         else (ctx\<lparr>rc_seq := rc_seq ctx + 1\<rparr>, dec_buf,
                               Some (i - 1, byte_at dec_buf (i - 1))))"

section \<open>The nonce\<close>

lemma length_compute_nonce [simp]: "length (compute_nonce iv seq) = 12"
  by (simp add: compute_nonce_def Let_def)

lemma nth_compute_nonce:
  assumes "i < 12"
  shows "compute_nonce iv seq ! i =
     byte_at iv i XOR (if 4 \<le> i then ucast (drop_bit (8 * (11 - i)) seq) else 0)"
proof -
  have "i = 0 \<or> i = 1 \<or> i = 2 \<or> i = 3 \<or> i = 4 \<or> i = 5 \<or> i = 6 \<or> i = 7 \<or> i = 8 \<or> i = 9 \<or> i = 10 \<or> i = 11"
    using assms by (auto simp: less_Suc_eq numeral_eq_Suc)
  then show ?thesis
    by (elim disjE) (simp_all add: compute_nonce_def Let_def nth_rd numeral_2_eq_2)
qed

lemma nonce_inject:
  assumes "compute_nonce iv s = compute_nonce iv t"
  shows "s = t"
proof (rule bit_word_eqI)
  fix n assume "n < LENGTH(64)"
  define i where "i = 11 - n div 8"
  have i: "4 \<le> i" "i < 12" "8 * (11 - i) = 8 * (n div 8)"
    using \<open>n < LENGTH(64)\<close> by (auto simp: i_def)
  have "byte_at iv i XOR ucast (drop_bit (8 * (n div 8)) s) = byte_at iv i XOR ucast (drop_bit (8 * (n div 8)) t)"
    using nth_compute_nonce [OF i(2), of iv s] nth_compute_nonce [OF i(2), of iv t] assms i by simp
  then have "(ucast (drop_bit (8 * (n div 8)) s) :: byte) = ucast (drop_bit (8 * (n div 8)) t)"
    by (simp only: word_xor_left_cancel)
  then have "bit (ucast (drop_bit (8 * (n div 8)) s) :: byte) (n mod 8)
           = bit (ucast (drop_bit (8 * (n div 8)) t) :: byte) (n mod 8)" by simp
  then show "bit s n = bit t n" by (simp add: bit_simps)
qed

section \<open>Tags and padding\<close>

lemma tag_equal_iff: "tag_equal a b \<longleftrightarrow> rd a 0 16 = rd b 0 16"
  unfolding tag_equal_def TLS13_TAG_SIZE_def fold_or_zero rd_eq_iff by (auto simp: word_xor_eq_0)

lemma strip_zeros_le: "strip_zeros buf n \<le> n"
  by (induction n) auto

lemma strip_zeros_skip:
  "\<forall>j. n \<le> j \<and> j < n + k \<longrightarrow> byte_at buf j = 0 \<Longrightarrow> strip_zeros buf (n + k) = strip_zeros buf n"
  by (induction k) simp_all

lemma strip_zeros_append:
  assumes "ct \<noteq> 0"
  shows "strip_zeros (pt @ ct # replicate k 0 @ r) (length pt + 1 + k) = length pt + 1"
proof -
  have "strip_zeros (pt @ ct # replicate k 0 @ r) (length pt + 1 + k)
        = strip_zeros (pt @ ct # replicate k 0 @ r) (length pt + 1)"
    by (rule strip_zeros_skip) (auto simp: byte_at_def nth_append nth_Cons split: nat.split)
  then show ?thesis using assms by (simp add: byte_at_append)
qed

section \<open>Decryption undoes encryption\<close>

lemma gc_run_prepare:
  "gc_run (gcm_prepare ctx nonce aad) =
     br_aes_ct_ctr_run (br_aes_ct_ctr_init (rd (rc_key ctx) 0 (rc_key_len ctx)))"
  "gc_count_ctr (gcm_prepare ctx nonce aad) = 0"
proof -
  have flip: "gc_run (br_gcm_flip g) = gc_run g" "gc_count_ctr (br_gcm_flip g) = gc_count_ctr g" for g
    by (simp_all add: br_gcm_flip_def Let_def)
  have aad: "gc_run (br_gcm_aad_inject g d) = gc_run g"
    "gc_count_ctr (br_gcm_aad_inject g d) = gc_count_ctr g" for g d
    by (simp_all add: br_gcm_aad_inject_def Let_def)
  have reset: "gc_run (br_gcm_reset g d) = gc_run g" "gc_count_ctr (br_gcm_reset g d) = 0" for g d
    by (simp_all add: br_gcm_reset_def Let_def)
  show "gc_run (gcm_prepare ctx nonce aad) =
     br_aes_ct_ctr_run (br_aes_ct_ctr_init (rd (rc_key ctx) 0 (rc_key_len ctx)))"
    "gc_count_ctr (gcm_prepare ctx nonce aad) = 0"
    by (simp_all add: gcm_prepare_def Let_def flip aad reset br_gcm_init_def)
qed

lemma length_gcm_get_tag [simp]:
  "gc_run ctx = br_aes_ct_ctr_run k \<Longrightarrow> length (snd (br_gcm_get_tag ctx)) = 16"
  by (simp add: br_gcm_get_tag_def Let_def aes_ctr.run_length)

text \<open>The protection of an inner plaintext (payload, content type and any padding), of which
  \<open>tls13_record_encrypt\<close> is the case without padding.\<close>

definition record_seal :: "record_ctx \<Rightarrow> bytes \<Rightarrow> bytes" where
  "record_seal ctx inner =
     (let nonce = compute_nonce (rc_iv ctx) (rc_seq ctx);
          aad = build_aad (length inner + TLS13_TAG_SIZE)
      in if rc_suite ctx = TLS13_CHACHA20_POLY1305_SHA256
         then let (c, t) = br_poly1305_ctmul_run (rd (rc_key ctx) 0 32) nonce inner aad br_chacha20_ct_run True
              in c @ t
         else let (gcm, c) = br_gcm_run (gcm_prepare ctx nonce aad) True inner
              in c @ snd (br_gcm_get_tag gcm))"

lemma record_encrypt_seal:
  "tls13_record_encrypt ctx pt ct = (ctx\<lparr>rc_seq := rc_seq ctx + 1\<rparr>, record_seal ctx (pt @ [ct]))"
  by (simp add: tls13_record_encrypt_def record_seal_def Let_def split: prod.splits)

lemma gc_run_run: "gc_run (fst (br_gcm_run ctx e d)) = gc_run ctx"
proof -
  have t: "gc_run (fst (gcm_run_tail c e d)) = gc_run c" for c d
    by (simp add: gcm_run_tail_def Let_def split_beta)
  have h: "gc_run (fst (gcm_run_head c e d)) = gc_run c" for c d
    by (simp add: gcm_run_head_def Let_def)
  show ?thesis by (simp add: br_gcm_run_def Let_def split_beta t h)
qed

lemma gcm_seal_facts:
  assumes "br_gcm_run (gcm_prepare ctx nonce aad) True inner = (gcm, c)"
  shows "br_gcm_run (gcm_prepare ctx nonce aad) False c = (gcm, inner)" "length c = length inner"
    "length (snd (br_gcm_get_tag gcm)) = 16"
proof -
  have r: "gc_run (gcm_prepare ctx nonce aad) =
      br_aes_ct_ctr_run (br_aes_ct_ctr_init (rd (rc_key ctx) 0 (rc_key_len ctx)))"
    "gcm_ptr (gc_count_ctr (gcm_prepare ctx nonce aad)) = 0"
    by (simp_all add: gc_run_prepare gcm_ptr_def)
  show "br_gcm_run (gcm_prepare ctx nonce aad) False c = (gcm, inner)" "length c = length inner"
    using aes_ctr.gcm_run_roundtrip [OF r assms] by simp_all
  have "gc_run gcm = br_aes_ct_ctr_run (br_aes_ct_ctr_init (rd (rc_key ctx) 0 (rc_key_len ctx)))"
    using gc_run_run [of "gcm_prepare ctx nonce aad" True inner] r(1) assms by simp
  then show "length (snd (br_gcm_get_tag gcm)) = 16" by simp
qed

lemma length_record_seal: "length (record_seal ctx inner) = length inner + 16"
proof -
  let ?n = "compute_nonce (rc_iv ctx) (rc_seq ctx)" and ?a = "build_aad (length inner + TLS13_TAG_SIZE)"
  obtain gcm c where "br_gcm_run (gcm_prepare ctx ?n ?a) True inner = (gcm, c)" by fastforce
  moreover obtain d t where "br_poly1305_ctmul_run (rd (rc_key ctx) 0 32) ?n inner ?a br_chacha20_ct_run True = (d, t)"
    by fastforce
  ultimately show ?thesis
    using gcm_seal_facts(2,3) [of ctx ?n ?a inner gcm c]
      length_poly1305_run [of "rd (rc_key ctx) 0 32" ?n inner ?a True]
    by (simp add: record_seal_def Let_def)
qed

lemma rd_whole: "length xs = n \<Longrightarrow> rd xs 0 n = xs"
  by (simp add: rd_def)

text \<open>Decryption of a sealed inner plaintext reaches the padding removal with the inner
  plaintext in the buffer.\<close>

lemma record_decrypt_seal:
  assumes "inner \<noteq> []"
  shows "\<exists>tag. length tag = 16 \<and> tls13_record_decrypt ctx (record_seal ctx inner) =
     (let i = strip_zeros (inner @ tag) (length inner)
      in if i = 0 then (ctx, inner @ tag, None)
         else (ctx\<lparr>rc_seq := rc_seq ctx + 1\<rparr>, inner @ tag, Some (i - 1, byte_at (inner @ tag) (i - 1))))"
proof -
  let ?n = "compute_nonce (rc_iv ctx) (rc_seq ctx)" and ?a = "build_aad (length inner + TLS13_TAG_SIZE)"
  have len: "\<not> length (record_seal ctx inner) < 1 + TLS13_TAG_SIZE"
    "length (record_seal ctx inner) - TLS13_TAG_SIZE = length inner"
    "build_aad (length (record_seal ctx inner)) = ?a"
    using assms by (simp_all add: length_record_seal TLS13_TAG_SIZE_def Suc_le_eq)
  show ?thesis
  proof (cases "rc_suite ctx = TLS13_CHACHA20_POLY1305_SHA256")
    case True
    obtain c t where ct: "br_poly1305_ctmul_run (rd (rc_key ctx) 0 32) ?n inner ?a br_chacha20_ct_run True = (c, t)"
      by fastforce
    have l: "length c = length inner" "length t = 16"
      using length_poly1305_run [of "rd (rc_key ctx) 0 32" ?n inner ?a True] ct by simp_all
    have s: "record_seal ctx inner = c @ t" using True ct by (simp add: record_seal_def Let_def)
    have d: "br_poly1305_ctmul_run (rd (rc_key ctx) 0 32) ?n c ?a br_chacha20_ct_run False = (inner, t)"
      by (rule poly1305_run_roundtrip [OF ct])
    show ?thesis
      using True len d l by (intro exI [of _ t]) (simp add: tls13_record_decrypt_def Let_def s tag_equal_iff)
  next
    case False
    obtain gcm c where ct: "br_gcm_run (gcm_prepare ctx ?n ?a) True inner = (gcm, c)" by fastforce
    define t where "t = snd (br_gcm_get_tag gcm)"
    have l: "length c = length inner" "length t = 16"
      using gcm_seal_facts [OF ct] by (simp_all add: t_def)
    have s: "record_seal ctx inner = c @ t" using False ct by (simp add: record_seal_def Let_def t_def)
    have d: "br_gcm_run (gcm_prepare ctx ?n ?a) False c = (gcm, inner)"
      by (rule gcm_seal_facts(1) [OF ct])
    show ?thesis
      using False len d l
      by (intro exI [of _ t])
         (simp add: tls13_record_decrypt_def Let_def s br_gcm_check_tag_eq t_def [symmetric])
  qed
qed

lemma record_padded_roundtrip:
  assumes "ct \<noteq> 0"
  shows "\<exists>buf. tls13_record_decrypt ctx (record_seal ctx (pt @ ct # replicate k 0)) =
           (ctx\<lparr>rc_seq := rc_seq ctx + 1\<rparr>, buf, Some (length pt, ct)) \<and> take (length pt) buf = pt"
proof -
  let ?inner = "pt @ ct # replicate k 0"
  obtain tag where t: "tls13_record_decrypt ctx (record_seal ctx ?inner) =
     (let i = strip_zeros (?inner @ tag) (length ?inner)
      in if i = 0 then (ctx, ?inner @ tag, None)
         else (ctx\<lparr>rc_seq := rc_seq ctx + 1\<rparr>, ?inner @ tag, Some (i - 1, byte_at (?inner @ tag) (i - 1))))"
    using record_decrypt_seal [of ?inner ctx] by blast
  have "strip_zeros (?inner @ tag) (length ?inner) = length pt + 1"
    using strip_zeros_append [OF assms, of pt k tag] by simp
  then show ?thesis by (auto simp: t Let_def byte_at_append)
qed

text \<open>Every outcome of a decryption.\<close>

lemma strip_zeros_last: "strip_zeros b n \<noteq> 0 \<Longrightarrow> byte_at b (strip_zeros b n - 1) \<noteq> 0"
  by (induction n) auto

lemma record_decrypt_shape:
  assumes "tls13_record_decrypt ctx c = (ctx', buf, r)" "\<not> length c < 17"
  shows "\<exists>dec ok T. length dec = length c - 16 \<and> length T = 16 \<and>
      (ctx', buf, r) = (if \<not> ok then (ctx, dec @ T, None)
         else let i = strip_zeros (dec @ T) (length c - 16)
              in if i = 0 then (ctx, dec @ T, None)
                 else (ctx\<lparr>rc_seq := rc_seq ctx + 1\<rparr>, dec @ T, Some (i - 1, byte_at (dec @ T) (i - 1))))"
proof -
  define P where "P = take (length c - 16) c"
  define T where "T = drop (length c - 16) c"
  have PT: "length P = length c - 16" "length T = 16" using assms(2) by (simp_all add: P_def T_def)
  show ?thesis
  proof (cases "rc_suite ctx = TLS13_CHACHA20_POLY1305_SHA256")
    case True
    let ?r = "br_poly1305_ctmul_run (rd (rc_key ctx) 0 32) (compute_nonce (rc_iv ctx) (rc_seq ctx)) P
                (build_aad (length c)) br_chacha20_ct_run False"
    show ?thesis
      using assms(2) True PT
      by (intro exI [of _ "fst ?r"] exI [of _ "tag_equal (snd ?r) T"] exI [of _ T])
         (simp add: assms(1) [symmetric] tls13_record_decrypt_def TLS13_TAG_SIZE_def Let_def P_def T_def split_beta)
  next
    case gcm: False
    let ?r = "br_gcm_run (gcm_prepare ctx (compute_nonce (rc_iv ctx) (rc_seq ctx)) (build_aad (length c))) False P"
    have "length (snd ?r) = length P"
      by (rule aes_ctr.gcm_run_length) (simp_all add: gc_run_prepare gcm_ptr_def)
    then show ?thesis
      using assms(2) gcm PT
      by (intro exI [of _ "snd ?r"] exI [of _ "snd (br_gcm_check_tag (fst ?r) T) \<noteq> 0"] exI [of _ T])
         (simp add: assms(1) [symmetric] tls13_record_decrypt_def TLS13_TAG_SIZE_def Let_def P_def T_def split_beta)
  qed
qed

lemma record_decrypt_length:
  assumes "tls13_record_decrypt ctx c = (ctx', buf, r)"
  shows "length buf \<le> length c"
proof (cases "length c < 17")
  case True
  then show ?thesis using assms by (simp add: tls13_record_decrypt_def TLS13_TAG_SIZE_def Let_def)
next
  case False
  obtain dec ok T where "length dec = length c - 16" "length T = 16" "buf = dec @ T"
    using record_decrypt_shape [OF assms False] by (auto simp: Let_def split: if_splits)
  then show ?thesis using False by simp
qed

lemma record_decrypt_outcomes:
  assumes "tls13_record_decrypt ctx c = (ctx', buf, r)"
  shows "(case r of None \<Rightarrow> ctx' = ctx
          | Some (n, ct) \<Rightarrow> ctx' = ctx\<lparr>rc_seq := rc_seq ctx + 1\<rparr> \<and> ct \<noteq> 0
                             \<and> n + 17 \<le> length c \<and> length buf = length c \<and> byte_at buf n = ct)"
proof (cases "length c < 17")
  case True
  then show ?thesis using assms by (simp add: tls13_record_decrypt_def TLS13_TAG_SIZE_def Let_def)
next
  case False
  obtain dec ok T where d: "length dec = length c - 16" "length T = 16" and
    e: "(ctx', buf, r) = (if \<not> ok then (ctx, dec @ T, None)
         else let i = strip_zeros (dec @ T) (length c - 16)
              in if i = 0 then (ctx, dec @ T, None)
                 else (ctx\<lparr>rc_seq := rc_seq ctx + 1\<rparr>, dec @ T, Some (i - 1, byte_at (dec @ T) (i - 1))))"
    using record_decrypt_shape [OF assms False] by blast
  have i: "strip_zeros (dec @ T) (length c - 16) \<le> length c - 16" by (rule strip_zeros_le)
  show ?thesis
    using e d i False strip_zeros_last [of "dec @ T" "length c - 16"]
    by (auto simp: Let_def split: if_splits)
qed

section \<open>Properties\<close>

text \<open>C13: what \<open>tls13_record_encrypt\<close> seals, \<open>tls13_record_decrypt\<close> opens under the same key and
  sequence number, with either cipher, returning the plaintext and its content type (other than
  zero, which RFC 8446 does not allow), also when the sender padded it with zeros; and the
  sequence numbers of both sides stay together.\<close>

theorem record_roundtrip:
  assumes "ct \<noteq> 0"
  shows "(\<exists>buf. tls13_record_decrypt ctx (record_seal ctx (pt @ ct # replicate k 0)) =
            (ctx\<lparr>rc_seq := rc_seq ctx + 1\<rparr>, buf, Some (length pt, ct)) \<and> take (length pt) buf = pt)
       \<and> tls13_record_encrypt ctx pt ct = (ctx\<lparr>rc_seq := rc_seq ctx + 1\<rparr>, record_seal ctx (pt @ [ct]))"
  by (intro conjI record_padded_roundtrip record_encrypt_seal assms)

theorem record_roundtrip_witness:
  "\<exists>ctx c buf. rc_suite ctx = TLS13_CHACHA20_POLY1305_SHA256 \<and> rc_seq ctx = 5
     \<and> snd (tls13_record_encrypt ctx [1, 2, 3] 22) = c
     \<and> tls13_record_decrypt ctx c = (ctx\<lparr>rc_seq := 6\<rparr>, buf, Some (3, 22)) \<and> take 3 buf = [1, 2, 3]"
proof -
  define ctx where "ctx = \<lparr>rc_key = replicate 32 1, rc_key_len = 32, rc_iv = replicate 12 2, rc_seq = 5,
       rc_suite = TLS13_CHACHA20_POLY1305_SHA256\<rparr>"
  have "(22 :: byte) \<noteq> 0" by simp
  note r = record_roundtrip [OF this, of ctx "[1, 2, 3]" 0]
  obtain buf where "tls13_record_decrypt ctx (record_seal ctx ([1, 2, 3] @ [22])) = (ctx\<lparr>rc_seq := rc_seq ctx + 1\<rparr>, buf, Some (3, 22))"
    "take 3 buf = [1, 2, 3]" using r by (auto simp: numeral_3_eq_3)
  moreover have "rc_seq ctx = 5" "rc_suite ctx = TLS13_CHACHA20_POLY1305_SHA256" by (simp_all add: ctx_def)
  moreover have "snd (tls13_record_encrypt ctx [1, 2, 3] 22) = record_seal ctx ([1, 2, 3] @ [22])"
    using r by (simp only: snd_conv)
  ultimately show ?thesis by (intro exI conjI) simp_all
qed

text \<open>C31: every call of \<open>tls13_record_decrypt\<close> either fails and leaves the record context as it
  was, or succeeds, advances the sequence number by one and returns a length that lies in the
  record and a content type that is not zero.\<close>

theorem record_decrypt_result:
  assumes "tls13_record_decrypt ctx c = (ctx', buf, r)"
  shows "(case r of None \<Rightarrow> ctx' = ctx
          | Some (n, ct) \<Rightarrow> ctx' = ctx\<lparr>rc_seq := rc_seq ctx + 1\<rparr> \<and> ct \<noteq> 0
                             \<and> n + 17 \<le> length c \<and> length buf = length c \<and> byte_at buf n = ct)"
  using assms by (rule record_decrypt_outcomes)

theorem record_decrypt_result_witness:
  "\<exists>ctx0 ctx' buf n. ctx0 = \<lparr>rc_key = replicate 32 1, rc_key_len = 16, rc_iv = replicate 12 2, rc_seq = 0, rc_suite = 0x1301\<rparr>
     \<and> tls13_record_decrypt ctx0 (record_seal ctx0 ([9] @ [23])) = (ctx', buf, Some (n, 23)) \<and> rc_seq ctx' = 1 \<and> n + 17 \<le> 18"
proof -
  define ctx0 where "ctx0 = \<lparr>rc_key = replicate 32 1, rc_key_len = 16, rc_iv = replicate 12 2, rc_seq = 0, rc_suite = 0x1301\<rparr>"
  obtain b where d: "tls13_record_decrypt ctx0 (record_seal ctx0 ([9] @ [23])) =
      (ctx0\<lparr>rc_seq := rc_seq ctx0 + 1\<rparr>, b, Some (1, 23))"
    using record_padded_roundtrip [of 23 ctx0 "[9]" 0] by auto
  from record_decrypt_result [OF d] have "(1 :: nat) + 17 \<le> 18" by (simp add: length_record_seal)
  moreover have "rc_seq (ctx0\<lparr>rc_seq := rc_seq ctx0 + 1\<rparr>) = 1" by (simp add: ctx0_def)
  ultimately show ?thesis using d ctx0_def by blast
qed

text \<open>The nonces of two records under one iv are equal only if their sequence numbers are, so
  no nonce repeats before the 64-bit counter wraps.\<close>

lemma nonces_differ:
  assumes "s \<noteq> t"
  shows "compute_nonce iv s \<noteq> compute_nonce iv t"
  using assms nonce_inject by blast

text \<open>The comparison of tags that looks at all sixteen bytes, and BearSSL's branch-free
  \<open>check_tag\<close>, accept exactly the equal tags.\<close>

lemma tag_checks_exact:
  "(tag_equal a b = (rd a 0 16 = rd b 0 16))
   \<and> snd (br_gcm_check_tag ctx tag) = of_bool (rd (snd (br_gcm_get_tag ctx)) 0 16 = rd tag 0 16)"
  by (simp add: tag_equal_iff br_gcm_check_tag_eq)

end
