(* ===== verification/Handshake_State.thy ===== *)
theory Handshake_State
  imports Transcript Record_Layer
begin

text \<open>
  The data of the TLS 1.3 handshake, os9/ostls_tls13_handshake.h: the states and results, the
  session ticket, the handshake context \<open>tls13_hs_ctx\<close> as the record \<open>hs_ctx\<close>, and the
  interfaces through which the handshake reaches the parts of BearSSL that are not modelled
  here.

  The record has the fields of the struct under the struct's names (prefixed \<open>hs_\<close> where the
  bare name is taken). Fixed arrays are byte lists of the array's size. The pointer
  \<open>x509_ctx\<close> with what it points to is the field \<open>hs_x509\<close>, of an abstract type; \<open>eng\<close> is the
  part of the engine context the handshake uses, \<open>None\<close> for a null pointer; the backing store
  \<open>server_pkey_data\<close> is part of the copied key.
\<close>

datatype tls13_hs_state =
    kTLS13_SendClientHello
  | kTLS13_SendCCS
  | kTLS13_RecvServerHello
  | kTLS13_RecvEncryptedExtensions
  | kTLS13_RecvCertRequestOrCert
  | kTLS13_RecvCertificate
  | kTLS13_RecvCertificateVerify
  | kTLS13_RecvFinished
  | kTLS13_SendFinished
  | kTLS13_Complete

datatype tls13_hs_result =
  kTLS13_OK | kTLS13_WantRead | kTLS13_WantWrite | kTLS13_Fallback12 | kTLS13_Error

text \<open>The C enumeration orders the states; a handshake moves up in this order except for the
  one restart a HelloRetryRequest causes.\<close>

primrec state_index :: "tls13_hs_state \<Rightarrow> nat" where
  "state_index kTLS13_SendClientHello = 0"
| "state_index kTLS13_SendCCS = 1"
| "state_index kTLS13_RecvServerHello = 2"
| "state_index kTLS13_RecvEncryptedExtensions = 3"
| "state_index kTLS13_RecvCertRequestOrCert = 4"
| "state_index kTLS13_RecvCertificate = 5"
| "state_index kTLS13_RecvCertificateVerify = 6"
| "state_index kTLS13_RecvFinished = 7"
| "state_index kTLS13_SendFinished = 8"
| "state_index kTLS13_Complete = 9"

instantiation tls13_hs_state :: linorder
begin

definition less_eq_tls13_hs_state :: "tls13_hs_state \<Rightarrow> tls13_hs_state \<Rightarrow> bool" where
  "less_eq_tls13_hs_state s t = (state_index s \<le> state_index t)"

definition less_tls13_hs_state :: "tls13_hs_state \<Rightarrow> tls13_hs_state \<Rightarrow> bool" where
  "less_tls13_hs_state s t = (state_index s < state_index t)"

instance
proof
  fix s t u :: tls13_hs_state
  show "(s < t) = (s \<le> t \<and> \<not> t \<le> s)"
    by (auto simp: less_eq_tls13_hs_state_def less_tls13_hs_state_def)
  show "s \<le> s" by (simp add: less_eq_tls13_hs_state_def)
  show "s \<le> t \<Longrightarrow> t \<le> u \<Longrightarrow> s \<le> u" by (simp add: less_eq_tls13_hs_state_def)
  show "s \<le> t \<Longrightarrow> t \<le> s \<Longrightarrow> s = t"
    unfolding less_eq_tls13_hs_state_def by (cases s; cases t) simp_all
  show "s \<le> t \<or> t \<le> s" by (auto simp: less_eq_tls13_hs_state_def)
qed

end

lemmas state_order = less_eq_tls13_hs_state_def less_tls13_hs_state_def

section \<open>Constants\<close>

definition TLS13_VERSION :: u16 where "TLS13_VERSION = 0x0304"
definition TLS12_VERSION :: u16 where "TLS12_VERSION = 0x0303"

definition TLS13_HT_CLIENT_HELLO :: byte where "TLS13_HT_CLIENT_HELLO = 1"
definition TLS13_HT_SERVER_HELLO :: byte where "TLS13_HT_SERVER_HELLO = 2"
definition TLS13_HT_NEW_SESSION_TICKET :: byte where "TLS13_HT_NEW_SESSION_TICKET = 4"
definition TLS13_HT_ENCRYPTED_EXTENSIONS :: byte where "TLS13_HT_ENCRYPTED_EXTENSIONS = 8"
definition TLS13_HT_CERTIFICATE :: byte where "TLS13_HT_CERTIFICATE = 11"
definition TLS13_HT_CERTIFICATE_REQUEST :: byte where "TLS13_HT_CERTIFICATE_REQUEST = 13"
definition TLS13_HT_CERTIFICATE_VERIFY :: byte where "TLS13_HT_CERTIFICATE_VERIFY = 15"
definition TLS13_HT_FINISHED :: byte where "TLS13_HT_FINISHED = 20"
definition TLS13_HT_KEY_UPDATE :: byte where "TLS13_HT_KEY_UPDATE = 24"

definition TLS13_CT_CHANGE_CIPHER_SPEC :: byte where "TLS13_CT_CHANGE_CIPHER_SPEC = 20"
definition TLS13_CT_ALERT :: byte where "TLS13_CT_ALERT = 21"
definition TLS13_CT_HANDSHAKE :: byte where "TLS13_CT_HANDSHAKE = 22"
definition TLS13_CT_APPLICATION_DATA :: byte where "TLS13_CT_APPLICATION_DATA = 23"

definition TLS13_EXT_SERVER_NAME :: u16 where "TLS13_EXT_SERVER_NAME = 0"
definition TLS13_EXT_SUPPORTED_GROUPS :: u16 where "TLS13_EXT_SUPPORTED_GROUPS = 10"
definition TLS13_EXT_SIGNATURE_ALGORITHMS :: u16 where "TLS13_EXT_SIGNATURE_ALGORITHMS = 13"
definition TLS13_EXT_ALPN :: u16 where "TLS13_EXT_ALPN = 16"
definition TLS13_EXT_PRE_SHARED_KEY :: u16 where "TLS13_EXT_PRE_SHARED_KEY = 41"
definition TLS13_EXT_SUPPORTED_VERSIONS :: u16 where "TLS13_EXT_SUPPORTED_VERSIONS = 43"
definition TLS13_EXT_COOKIE :: u16 where "TLS13_EXT_COOKIE = 44"
definition TLS13_EXT_PSK_KEY_EXCHANGE_MODES :: u16 where "TLS13_EXT_PSK_KEY_EXCHANGE_MODES = 45"
definition TLS13_EXT_KEY_SHARE :: u16 where "TLS13_EXT_KEY_SHARE = 51"

definition TLS13_SIG_RSA_PSS_RSAE_SHA256 :: u16 where "TLS13_SIG_RSA_PSS_RSAE_SHA256 = 0x0804"
definition TLS13_SIG_RSA_PSS_RSAE_SHA384 :: u16 where "TLS13_SIG_RSA_PSS_RSAE_SHA384 = 0x0805"
definition TLS13_SIG_ECDSA_SECP256R1_SHA256 :: u16 where "TLS13_SIG_ECDSA_SECP256R1_SHA256 = 0x0403"
definition TLS13_SIG_ECDSA_SECP384R1_SHA384 :: u16 where "TLS13_SIG_ECDSA_SECP384R1_SHA384 = 0x0503"
definition TLS13_SIG_RSA_PKCS1_SHA256 :: u16 where "TLS13_SIG_RSA_PKCS1_SHA256 = 0x0401"
definition TLS13_SIG_RSA_PKCS1_SHA384 :: u16 where "TLS13_SIG_RSA_PKCS1_SHA384 = 0x0501"

definition TLS13_GROUP_SECP256R1 :: u16 where "TLS13_GROUP_SECP256R1 = 0x0017"
definition TLS13_GROUP_SECP384R1 :: u16 where "TLS13_GROUP_SECP384R1 = 0x0018"
definition TLS13_GROUP_X25519 :: u16 where "TLS13_GROUP_X25519 = 0x001D"

lemmas ht_defs = TLS13_HT_CLIENT_HELLO_def TLS13_HT_SERVER_HELLO_def TLS13_HT_NEW_SESSION_TICKET_def
  TLS13_HT_ENCRYPTED_EXTENSIONS_def TLS13_HT_CERTIFICATE_def TLS13_HT_CERTIFICATE_REQUEST_def
  TLS13_HT_CERTIFICATE_VERIFY_def TLS13_HT_FINISHED_def TLS13_HT_KEY_UPDATE_def

lemmas ct_defs = TLS13_CT_CHANGE_CIPHER_SPEC_def TLS13_CT_ALERT_def TLS13_CT_HANDSHAKE_def
  TLS13_CT_APPLICATION_DATA_def

lemmas ext_defs = TLS13_EXT_SERVER_NAME_def TLS13_EXT_SUPPORTED_GROUPS_def
  TLS13_EXT_SIGNATURE_ALGORITHMS_def TLS13_EXT_ALPN_def TLS13_EXT_PRE_SHARED_KEY_def
  TLS13_EXT_SUPPORTED_VERSIONS_def TLS13_EXT_COOKIE_def TLS13_EXT_PSK_KEY_EXCHANGE_MODES_def
  TLS13_EXT_KEY_SHARE_def

lemmas group_defs = TLS13_GROUP_SECP256R1_def TLS13_GROUP_SECP384R1_def TLS13_GROUP_X25519_def

lemmas sig_defs = TLS13_SIG_RSA_PSS_RSAE_SHA256_def TLS13_SIG_RSA_PSS_RSAE_SHA384_def
  TLS13_SIG_ECDSA_SECP256R1_SHA256_def TLS13_SIG_ECDSA_SECP384R1_SHA384_def
  TLS13_SIG_RSA_PKCS1_SHA256_def TLS13_SIG_RSA_PKCS1_SHA384_def

lemmas version_defs = TLS13_VERSION_def TLS12_VERSION_def

text \<open>BearSSL error codes, and the failure-site markers.\<close>

definition BR_ERR_BAD_PARAM :: int where "BR_ERR_BAD_PARAM = 1"
definition BR_ERR_BAD_STATE :: int where "BR_ERR_BAD_STATE = 2"
definition BR_ERR_BAD_VERSION :: int where "BR_ERR_BAD_VERSION = 4"
definition BR_ERR_TOO_LARGE :: int where "BR_ERR_TOO_LARGE = 6"
definition BR_ERR_BAD_MAC :: int where "BR_ERR_BAD_MAC = 7"
definition BR_ERR_UNEXPECTED :: int where "BR_ERR_UNEXPECTED = 10"
definition BR_ERR_BAD_CIPHER_SUITE :: int where "BR_ERR_BAD_CIPHER_SUITE = 16"
definition BR_ERR_BAD_FINISHED :: int where "BR_ERR_BAD_FINISHED = 24"
definition BR_ERR_BAD_SIGNATURE :: int where "BR_ERR_BAD_SIGNATURE = 27"
definition BR_ERR_X509_NOT_TRUSTED :: int where "BR_ERR_X509_NOT_TRUSTED = 62"

definition TLS13_FAIL_HRR_GROUP_UNSUPP :: nat where "TLS13_FAIL_HRR_GROUP_UNSUPP = 1"
definition TLS13_FAIL_HRR_DOUBLE :: nat where "TLS13_FAIL_HRR_DOUBLE = 2"
definition TLS13_FAIL_SH_NO_KEYSHARE :: nat where "TLS13_FAIL_SH_NO_KEYSHARE = 3"
definition TLS13_FAIL_SH_HASH_MISMATCH :: nat where "TLS13_FAIL_SH_HASH_MISMATCH = 4"
definition TLS13_FAIL_SH_GROUP_MISMATCH :: nat where "TLS13_FAIL_SH_GROUP_MISMATCH = 5"
definition TLS13_FAIL_ECDH_COMPUTE :: nat where "TLS13_FAIL_ECDH_COMPUTE = 6"
definition TLS13_FAIL_KEYGEN :: nat where "TLS13_FAIL_KEYGEN = 7"
definition TLS13_FAIL_CH_BUILD :: nat where "TLS13_FAIL_CH_BUILD = 8"

definition TLS13_MAX_TICKET_LEN :: nat where "TLS13_MAX_TICKET_LEN = 512"

text \<open>\<open>sizeof msg_buf\<close> and \<open>sizeof plain_buf\<close>.\<close>

definition HS_BUF :: nat where "HS_BUF = 16640"

section \<open>Records\<close>

record session_ticket =
  tk_valid :: bool
  tk_psk :: bytes
  tk_psk_len :: nat
  tk_suite :: u16
  tk_lifetime :: u32
  tk_age_add :: u32
  tk_ticket :: bytes
  tk_ticket_len :: nat

text \<open>\<open>br_x509_pkey\<close>: an RSA modulus and exponent, or a curve and a point.\<close>

datatype x509_pkey = RsaKey bytes bytes | EcKey nat bytes | NoKey

record ssl_engine =
  eng_rng :: drbg
  eng_rng_init_done :: bool

record 'x hs_ctx =
  hs_state :: tls13_hs_state
  hs_ks :: keysched
  hs_transcript :: transcript
  hs_read_ctx :: record_ctx
  hs_write_ctx :: record_ctx
  ecdhe_secret :: bytes
  ecdhe_public :: bytes
  ecdhe_group :: u16
  ecdhe_secret_len :: nat
  ecdhe_public_len :: nat
  hrr_group :: u16
  hrr_pending :: bool
  ch_random :: bytes
  ch_session_id :: bytes
  ch_fields_valid :: bool
  client_hs_secret :: bytes
  server_hs_secret :: bytes
  msg_buf :: bytes
  msg_len :: nat
  msg_offset :: nat
  pending_recv_msg_len :: nat
  plain_buf :: bytes
  plain_len :: nat
  plain_offset :: nat
  hs_cookie :: bytes
  hs_cookie_len :: nat
  hs_cipher_suite :: u16
  is_tls13 :: bool
  hrr_received :: bool
  cert_request_received :: bool
  hs_x509 :: 'x
  hs_eng :: "ssl_engine option"
  server_pkey :: x509_pkey
  hs_error :: int
  fail_site :: nat
  res_master :: bytes
  res_master_valid :: bool
  hs_ticket :: session_ticket
  ticket_valid :: bool
  resuming :: bool
  offer_ticket :: "session_ticket option"
  offer_obfuscated_age :: u32
  resumption_accepted :: bool

text \<open>What the handshake calls in BearSSL through function pointers: the elliptic-curve
  implementation (\<open>br_ec_get_default\<close>), the signature verifiers, the X.509 engine class with
  its abstract context, and the entropy injection of os9/ostls_entropy.c on the engine.\<close>

record 'x prims =
  p_inject_entropy :: "ssl_engine \<Rightarrow> ssl_engine"
  p_ec_keygen :: "nat \<Rightarrow> drbg \<Rightarrow> bytes option \<times> drbg"
  p_ec_compute_pub :: "nat \<Rightarrow> bytes \<Rightarrow> bytes option"
  p_ec_mul :: "nat \<Rightarrow> bytes \<Rightarrow> bytes \<Rightarrow> bytes option"
  p_rsa_pss_vrfy :: "bytes \<Rightarrow> hash_alg \<Rightarrow> bytes \<Rightarrow> bytes \<times> bytes \<Rightarrow> u32"
  p_ecdsa_vrfy :: "bytes \<Rightarrow> nat \<times> bytes \<Rightarrow> bytes \<Rightarrow> u32"
  p_start_chain :: "'x \<Rightarrow> bytes \<Rightarrow> 'x"
  p_start_cert :: "'x \<Rightarrow> nat \<Rightarrow> 'x"
  p_append :: "'x \<Rightarrow> bytes \<Rightarrow> 'x"
  p_end_cert :: "'x \<Rightarrow> 'x"
  p_end_chain :: "'x \<Rightarrow> 'x \<times> nat"
  p_get_pkey :: "'x \<Rightarrow> x509_pkey option"

definition hs_fail :: "int \<Rightarrow> 'x hs_ctx \<Rightarrow> 'x hs_ctx" where
  "hs_fail e hs = hs\<lparr>hs_error := e\<rparr>"

definition hs_fail_at :: "int \<Rightarrow> nat \<Rightarrow> 'x hs_ctx \<Rightarrow> 'x hs_ctx" where
  "hs_fail_at e site hs = hs\<lparr>hs_error := e, fail_site := site\<rparr>"

section \<open>Initial context\<close>

definition zero_ctx256 :: sha256_ctx where
  "zero_ctx256 = \<lparr>s_buf = replicate 64 0, s_val = replicate 8 0, s_count = 0\<rparr>"

definition zero_ctx384 :: sha384_ctx where
  "zero_ctx384 = \<lparr>b_buf = replicate 128 0, b_val = replicate 8 0, b_count = 0\<rparr>"

definition zero_record_ctx :: record_ctx where
  "zero_record_ctx = \<lparr>rc_key = replicate 32 0, rc_key_len = 0, rc_iv = replicate 12 0, rc_seq = 0, rc_suite = 0\<rparr>"

definition zero_ticket :: session_ticket where
  "zero_ticket = \<lparr>tk_valid = False, tk_psk = replicate 64 0, tk_psk_len = 0, tk_suite = 0, tk_lifetime = 0,
     tk_age_add = 0, tk_ticket = replicate 512 0, tk_ticket_len = 0\<rparr>"

text \<open>\<open>memset(hs, 0, sizeof *hs)\<close>. A null vtable pointer is neither hash; the model takes
  SHA-256 for it (the field is set before its first use). The X.509 context pointer, cleared
  too, is set by the caller right after, so \<open>hs_x509\<close> is the caller's.\<close>

definition tls13_handshake_init :: "'x \<Rightarrow> 'x hs_ctx" where
  "tls13_handshake_init xc =
     \<lparr>hs_state = kTLS13_SendClientHello,
      hs_ks = \<lparr>ks_hash = SHA256, ks_hash_len = 0, ks_secret = replicate 64 0, ks_empty_hash = replicate 64 0\<rparr>,
      hs_transcript = \<lparr>t_sha256 = zero_ctx256, t_sha384 = zero_ctx384, t_hash = SHA256, t_hash_len = 0\<rparr>,
      hs_read_ctx = zero_record_ctx, hs_write_ctx = zero_record_ctx,
      ecdhe_secret = replicate 64 0, ecdhe_public = replicate 133 0, ecdhe_group = 0,
      ecdhe_secret_len = 0, ecdhe_public_len = 0, hrr_group = 0, hrr_pending = False,
      ch_random = replicate 32 0, ch_session_id = replicate 32 0, ch_fields_valid = False,
      client_hs_secret = replicate 64 0, server_hs_secret = replicate 64 0,
      msg_buf = replicate HS_BUF 0, msg_len = 0, msg_offset = 0, pending_recv_msg_len = 0,
      plain_buf = replicate HS_BUF 0, plain_len = 0, plain_offset = 0,
      hs_cookie = replicate 256 0, hs_cookie_len = 0, hs_cipher_suite = 0,
      is_tls13 = False, hrr_received = False, cert_request_received = False,
      hs_x509 = xc, hs_eng = None, server_pkey = NoKey, hs_error = 0, fail_site = 0,
      res_master = replicate 64 0, res_master_valid = False, hs_ticket = zero_ticket, ticket_valid = False,
      resuming = False, offer_ticket = None, offer_obfuscated_age = 0, resumption_accepted = False\<rparr>"

section \<open>Suites and groups\<close>

definition tls13_br_curve_for_group :: "u16 \<Rightarrow> nat" where
  "tls13_br_curve_for_group grp =
     (if grp = TLS13_GROUP_X25519 then 29
      else if grp = TLS13_GROUP_SECP256R1 then 23
      else if grp = TLS13_GROUP_SECP384R1 then 24 else 0)"

definition tls13_ecdh_secret_len :: "u16 \<Rightarrow> nat" where
  "tls13_ecdh_secret_len grp =
     (if grp = TLS13_GROUP_X25519 then 32
      else if grp = TLS13_GROUP_SECP256R1 then 32
      else if grp = TLS13_GROUP_SECP384R1 then 48 else 0)"

definition tls13_key_len_for_suite :: "u16 \<Rightarrow> nat" where
  "tls13_key_len_for_suite suite =
     (if suite = TLS13_AES_128_GCM_SHA256 then 16
      else if suite = TLS13_AES_256_GCM_SHA384 then 32
      else if suite = TLS13_CHACHA20_POLY1305_SHA256 then 32 else 0)"

definition tls13_hash_for_suite :: "u16 \<Rightarrow> hash_alg" where
  "tls13_hash_for_suite suite = (if suite = TLS13_AES_256_GCM_SHA384 then SHA384 else SHA256)"

end
