(* ===== verification/Client_Hello.thy ===== *)
theory Client_Hello
  imports Handshake_State
begin

text \<open>
  The client's first flight, os9/ostls_tls13_handshake.c: key-pair generation
  (\<open>tls13_generate_keypair\<close>), the ClientHello writer with its back-patched lengths and PSK
  binder (\<open>tls13_build_client_hello\<close>), the \<open>SendClientHello\<close> state and the ChangeCipherSpec
  record.

  The C writer checks \<open>pos + n > buf_size\<close> before each field and returns \<open>-1\<close> on failure, with
  what was written so far left in place. Here the writer state is the context, the generator,
  \<open>pos\<close> and a flag that is down once a check failed; after that the remaining steps do nothing.

  Proved: a ClientHello the writer completes is the nested length-prefixed encoding
  \<open>client_hello_spec\<close> (so every length field it patches in is right), never leaves \<open>msg_buf\<close>, and
  its binder is the RFC 8446 binder over the transcript and the truncated message.
\<close>

unbundle bit_operations_syntax

section \<open>Key pair\<close>

definition tls13_generate_keypair ::
  "'x prims \<Rightarrow> 'x hs_ctx \<Rightarrow> u16 \<Rightarrow> drbg \<Rightarrow> 'x hs_ctx \<times> drbg \<times> bool" where
  "tls13_generate_keypair P hs grp rng =
     (let curve = tls13_br_curve_for_group grp
      in if curve = 0 then (hs, rng, False)
         else case p_ec_keygen P curve rng of
             (None, rng) \<Rightarrow> (hs, rng, False)
           | (Some x, rng) \<Rightarrow>
               (case p_ec_compute_pub P curve x of
                  None \<Rightarrow> (hs, rng, False)
                | Some pub \<Rightarrow>
                    if 64 < length x \<or> 133 < length pub then (hs, rng, False)
                    else (hs\<lparr>ecdhe_secret := wr (ecdhe_secret hs) 0 x, ecdhe_secret_len := length x,
                             ecdhe_public := wr (ecdhe_public hs) 0 pub, ecdhe_public_len := length pub,
                             ecdhe_group := grp\<rparr>, rng, True)))"

section \<open>The ClientHello writer\<close>

definition tls12_cipher_suites :: "u16 list" where
  "tls12_cipher_suites = [0xCCA9, 0xCCA8, 0xC02B, 0xC02F]"

definition tls13_cipher_suites :: "u16 list" where
  "tls13_cipher_suites = [TLS13_CHACHA20_POLY1305_SHA256, TLS13_AES_128_GCM_SHA256]"

definition sig_algorithms :: "u16 list" where
  "sig_algorithms =
     [TLS13_SIG_RSA_PSS_RSAE_SHA256, TLS13_SIG_RSA_PSS_RSAE_SHA384, TLS13_SIG_ECDSA_SECP256R1_SHA256,
      TLS13_SIG_ECDSA_SECP384R1_SHA384, TLS13_SIG_RSA_PKCS1_SHA256, TLS13_SIG_RSA_PKCS1_SHA384]"

type_synonym 'x chw = "'x hs_ctx \<times> drbg \<times> nat \<times> bool"

text \<open>One checked step: \<open>if (pos + need > buf_size) return -1\<close>, the bytes written at \<open>pos\<close>, and
  the placeholder of \<open>skip\<close> bytes left for a length.\<close>

definition ch_emit :: "nat \<Rightarrow> bytes \<Rightarrow> nat \<Rightarrow> 'x chw \<Rightarrow> 'x chw" where
  "ch_emit need bs skip = (\<lambda>(hs, rng, pos, ok).
     if \<not> ok then (hs, rng, pos, False)
     else if HS_BUF < pos + need then (hs, rng, pos, False)
     else (hs\<lparr>msg_buf := wr (msg_buf hs) pos bs\<rparr>, rng, pos + length bs + skip, True))"

definition ch_write_random :: "'x chw \<Rightarrow> 'x chw" where
  "ch_write_random = (\<lambda>(hs, rng, pos, ok).
     if \<not> ok then (hs, rng, pos, False)
     else if HS_BUF < pos + 32 then (hs, rng, pos, False)
     else let (hs, rng) = (if ch_fields_valid hs then (hs, rng)
                           else let (r, rng) = br_hmac_drbg_generate rng 32 in (hs\<lparr>ch_random := r\<rparr>, rng))
          in (hs\<lparr>msg_buf := wr (msg_buf hs) pos (rd (ch_random hs) 0 32)\<rparr>, rng, pos + 32, True))"

definition ch_write_session_id :: "'x chw \<Rightarrow> 'x chw" where
  "ch_write_session_id = (\<lambda>(hs, rng, pos, ok).
     if \<not> ok then (hs, rng, pos, False)
     else if HS_BUF < pos + 1 + 32 then (hs, rng, pos, False)
     else let (hs, rng) = (if ch_fields_valid hs then (hs, rng)
                           else let (r, rng) = br_hmac_drbg_generate rng 32 in (hs\<lparr>ch_session_id := r\<rparr>, rng))
          in (hs\<lparr>msg_buf := wr (msg_buf hs) pos ([32] @ rd (ch_session_id hs) 0 32),
                 ch_fields_valid := True\<rparr>, rng, pos + 33, True))"

definition ext_sni :: "bytes \<Rightarrow> bytes" where
  "ext_sni hostname =
     (let sni_ext_len = 2 + 1 + 2 + length hostname
      in put_u16 TLS13_EXT_SERVER_NAME @ put_u16 (word_of_nat sni_ext_len)
         @ put_u16 (word_of_nat (sni_ext_len - 2)) @ [0] @ put_u16 (word_of_nat (length hostname)) @ hostname)"

definition ext_groups :: bytes where
  "ext_groups = put_u16 TLS13_EXT_SUPPORTED_GROUPS @ put_u16 8 @ put_u16 6
     @ put_u16 TLS13_GROUP_X25519 @ put_u16 TLS13_GROUP_SECP256R1 @ put_u16 TLS13_GROUP_SECP384R1"

definition ext_sigalgs :: bytes where
  "ext_sigalgs =
     (let list_len = length sig_algorithms * 2
      in put_u16 TLS13_EXT_SIGNATURE_ALGORITHMS @ put_u16 (word_of_nat (2 + list_len))
         @ put_u16 (word_of_nat list_len) @ concat (map put_u16 sig_algorithms))"

definition ext_versions :: bytes where
  "ext_versions = put_u16 TLS13_EXT_SUPPORTED_VERSIONS @ put_u16 5 @ [4] @ put_u16 TLS13_VERSION
     @ put_u16 TLS12_VERSION"

definition ext_key_share :: "'x hs_ctx \<Rightarrow> bytes" where
  "ext_key_share hs =
     (let klen = ecdhe_public_len hs
      in put_u16 TLS13_EXT_KEY_SHARE @ put_u16 (word_of_nat (6 + klen)) @ put_u16 (word_of_nat (4 + klen))
         @ put_u16 (ecdhe_group hs) @ put_u16 (word_of_nat klen) @ rd (ecdhe_public hs) 0 klen)"

definition ext_cookie :: "'x hs_ctx \<Rightarrow> bytes" where
  "ext_cookie hs =
     put_u16 TLS13_EXT_COOKIE @ put_u16 (word_of_nat (2 + hs_cookie_len hs))
     @ put_u16 (word_of_nat (hs_cookie_len hs)) @ rd (hs_cookie hs) 0 (hs_cookie_len hs)"

definition ext_alpn :: bytes where
  "ext_alpn = put_u16 TLS13_EXT_ALPN @ put_u16 11 @ put_u16 9 @ [8] @ ascii ''http/1.1''"

definition ext_psk_modes :: bytes where
  "ext_psk_modes = put_u16 TLS13_EXT_PSK_KEY_EXCHANGE_MODES @ put_u16 2 @ [1, 1]"

text \<open>The pre_shared_key extension as first written, with a zero binder.\<close>

definition ext_psk :: "session_ticket \<Rightarrow> u32 \<Rightarrow> bytes" where
  "ext_psk tk age =
     (let id_len = tk_ticket_len tk; blen = tk_psk_len tk;
          identities_block = 2 + id_len + 4; binders_block = 1 + blen;
          psk_ext_data = 2 + identities_block + 2 + binders_block
      in put_u16 TLS13_EXT_PRE_SHARED_KEY @ put_u16 (word_of_nat psk_ext_data)
         @ put_u16 (word_of_nat identities_block) @ put_u16 (word_of_nat id_len)
         @ rd (tk_ticket tk) 0 id_len @ put_u32 age
         @ put_u16 (word_of_nat binders_block) @ [word_of_nat blen] @ replicate blen 0)"

definition stack_ks :: keysched where
  "stack_ks = \<lparr>ks_hash = SHA256, ks_hash_len = 0, ks_secret = replicate 64 0, ks_empty_hash = replicate 64 0\<rparr>"

text \<open>The fields before the extensions, then the extensions up to pre_shared_key; the positions
  of the length fields are taken from the writer as it passes them.\<close>

definition ch_write_front :: "'x hs_ctx \<Rightarrow> drbg \<Rightarrow> nat \<times> nat \<times> 'x chw" where
  "ch_write_front hs rng =
     (let st = ch_emit 5 [TLS13_CT_HANDSHAKE, 3, 1] 2 (hs, rng, 0, True);
          hs_len_pos = fst (snd (snd st)) + 1;
          st = ch_emit 4 [TLS13_HT_CLIENT_HELLO] 3 st;
          st = ch_emit 2 (put_u16 TLS12_VERSION) 0 st;
          st = ch_write_random st;
          st = ch_write_session_id st;
          total_suites = length tls13_cipher_suites + length tls12_cipher_suites;
          st = ch_emit (2 + total_suites * 2)
                 (put_u16 (word_of_nat (total_suites * 2))
                  @ concat (map put_u16 tls13_cipher_suites) @ concat (map put_u16 tls12_cipher_suites)) 0 st;
          st = ch_emit 2 [1, 0] 0 st;
          ext_len_pos = fst (snd (snd st))
      in (hs_len_pos, ext_len_pos, ch_emit 2 [] 2 st))"

definition ch_write_extensions :: "'x hs_ctx \<Rightarrow> bytes \<Rightarrow> 'x chw \<Rightarrow> 'x chw" where
  "ch_write_extensions hs hostname st =
     (let st = ch_emit (4 + (2 + 1 + 2 + length hostname)) (ext_sni hostname) 0 st;
          st = ch_emit (4 + 2 + 6) ext_groups 0 st;
          st = ch_emit (4 + 2 + length sig_algorithms * 2) ext_sigalgs 0 st;
          st = ch_emit (4 + 5) ext_versions 0 st;
          st = ch_emit (4 + 2 + 2 + 2 + ecdhe_public_len hs) (ext_key_share hs) 0 st;
          st = (if 0 < hs_cookie_len hs then ch_emit (4 + 2 + hs_cookie_len hs) (ext_cookie hs) 0 st else st);
          st = ch_emit (4 + 11) ext_alpn 0 st
      in ch_emit 6 ext_psk_modes 0 st)"

text \<open>The back-patching of the three lengths.\<close>

definition ch_backpatch :: "nat \<Rightarrow> nat \<Rightarrow> nat \<Rightarrow> bytes \<Rightarrow> bytes" where
  "ch_backpatch hs_len_pos ext_len_pos pos buf =
     (let buf = wr buf ext_len_pos (put_u16 (word_of_nat (pos - (ext_len_pos + 2))));
          buf = wr buf hs_len_pos (put_u24 (word_of_nat (pos - hs_len_pos - 3)))
      in wr buf 3 (put_u16 (word_of_nat (pos - 5))))"

definition tls13_build_client_hello :: "'x hs_ctx \<Rightarrow> bytes \<Rightarrow> drbg \<Rightarrow> 'x hs_ctx \<times> drbg \<times> bool" where
  "tls13_build_client_hello hs0 hostname rng =
     (let (hs_len_pos, ext_len_pos, st) = ch_write_front hs0 rng;
          (hs, rng, pos, ok) = ch_write_extensions hs0 hostname st
      in if \<not> ok then (hs, rng, False)
         else case offer_ticket hs of
             Some tk \<Rightarrow>
               if resuming hs \<and> tk_psk_len tk = t_hash_len (hs_transcript hs)
               then let id_len = tk_ticket_len tk; blen = tk_psk_len tk;
                        psk_ext_data = 2 + (2 + id_len + 4) + 2 + (1 + blen);
                        binders_section = 2 + (1 + blen);
                        psk_hash = (if blen = 48 then SHA384 else SHA256);
                        (hs, rng, pos, ok) =
                          ch_emit (4 + psk_ext_data) (ext_psk tk (offer_obfuscated_age hs)) 0 (hs, rng, pos, True)
                    in if \<not> ok then (hs, rng, False)
                       else let buf = ch_backpatch hs_len_pos ext_len_pos pos (msg_buf hs);
                                binder_ks = tls13_ks_init stack_ks psk_hash;
                                binder = tls13_compute_binder binder_ks (rd (tk_psk tk) 0 blen) (hs_transcript hs)
                                           (rd buf 5 ((pos - 5) - binders_section));
                                buf = wr buf (pos - blen) binder
                            in (hs\<lparr>msg_buf := buf, msg_len := pos, msg_offset := 0,
                                   hs_transcript := tls13_transcript_update (hs_transcript hs) (rd buf 5 (pos - 5))\<rparr>,
                                rng, True)
               else let buf = ch_backpatch hs_len_pos ext_len_pos pos (msg_buf hs)
                    in (hs\<lparr>msg_buf := buf, msg_len := pos, msg_offset := 0,
                           hs_transcript := tls13_transcript_update (hs_transcript hs) (rd buf 5 (pos - 5))\<rparr>,
                        rng, True)
           | None \<Rightarrow>
               let buf = ch_backpatch hs_len_pos ext_len_pos pos (msg_buf hs)
               in (hs\<lparr>msg_buf := buf, msg_len := pos, msg_offset := 0,
                      hs_transcript := tls13_transcript_update (hs_transcript hs) (rd buf 5 (pos - 5))\<rparr>,
                   rng, True))"

definition tls13_build_ccs :: bytes where
  "tls13_build_ccs = [TLS13_CT_CHANGE_CIPHER_SPEC, 0x03, 0x03, 0x00, 0x01, 0x01]"

section \<open>The two sending states\<close>

definition tls13_state_send_client_hello ::
  "'x prims \<Rightarrow> 'x hs_ctx \<Rightarrow> bytes \<Rightarrow> 'x hs_ctx \<times> tls13_hs_result" where
  "tls13_state_send_client_hello P hs hostname =
     (case hs_eng hs of
        None \<Rightarrow> (hs_fail BR_ERR_BAD_STATE hs, kTLS13_Error)
      | Some eng \<Rightarrow>
          let eng = (if eng_rng_init_done eng then eng else p_inject_entropy P eng);
              (seed, r) = br_hmac_drbg_generate (eng_rng eng) 32;
              hs = hs\<lparr>hs_eng := Some (eng\<lparr>eng_rng := r\<rparr>)\<rparr>;
              rng = br_hmac_drbg_init SHA256 seed;
              hs = (if \<not> hrr_received hs
                    then hs\<lparr>hs_transcript := tls13_transcript_init (hs_transcript hs) SHA256\<rparr> else hs);
              kg = (if hrr_received hs then hrr_group hs else TLS13_GROUP_X25519);
              (hs, rng, ok) = tls13_generate_keypair P hs kg rng
          in if \<not> ok then (hs_fail_at BR_ERR_BAD_STATE TLS13_FAIL_KEYGEN hs, kTLS13_Error)
             else let (hs, rng, ok) = tls13_build_client_hello hs hostname rng
                  in if \<not> ok then (hs_fail_at BR_ERR_TOO_LARGE TLS13_FAIL_CH_BUILD hs, kTLS13_Error)
                     else (hs, kTLS13_WantWrite))"

definition tls13_state_send_ccs :: "'x hs_ctx \<Rightarrow> 'x hs_ctx \<times> tls13_hs_result" where
  "tls13_state_send_ccs hs =
     (hs\<lparr>msg_buf := wr (msg_buf hs) 0 tls13_build_ccs, msg_len := length tls13_build_ccs, msg_offset := 0\<rparr>,
      kTLS13_WantWrite)"

section \<open>Specification: nested length-prefixed vectors\<close>

definition vec8 :: "bytes \<Rightarrow> bytes" where "vec8 d = [word_of_nat (length d)] @ d"
definition vec16 :: "bytes \<Rightarrow> bytes" where "vec16 d = put_u16 (word_of_nat (length d)) @ d"
definition vec24 :: "bytes \<Rightarrow> bytes" where "vec24 d = put_u24 (word_of_nat (length d)) @ d"
definition ext_spec :: "u16 \<Rightarrow> bytes \<Rightarrow> bytes" where "ext_spec t d = put_u16 t @ vec16 d"

lemma length_vec [simp]:
  "length (vec8 d) = length d + 1" "length (vec16 d) = length d + 2" "length (vec24 d) = length d + 3"
  "length (ext_spec t d) = length d + 4"
  by (simp_all add: vec8_def vec16_def vec24_def ext_spec_def)

definition ch_extensions_spec :: "bytes \<Rightarrow> u16 \<Rightarrow> bytes \<Rightarrow> bytes \<Rightarrow> bytes" where
  "ch_extensions_spec hostname grp pub cookie =
     ext_spec 0 (vec16 ([0] @ vec16 hostname))
     @ ext_spec 10 (vec16 (concat (map put_u16 [0x1D, 0x17, 0x18])))
     @ ext_spec 13 (vec16 (concat (map put_u16 sig_algorithms)))
     @ ext_spec 43 (vec8 (concat (map put_u16 [0x0304, 0x0303])))
     @ ext_spec 51 (vec16 (put_u16 grp @ vec16 pub))
     @ (if cookie = [] then [] else ext_spec 44 (vec16 cookie))
     @ ext_spec 16 (vec16 (vec8 (ascii ''http/1.1'')))
     @ ext_spec 45 (vec8 [1])"

text \<open>The handshake message with the extension block \<open>exts\<close>, and its record.\<close>

definition ch_message_spec :: "bytes \<Rightarrow> bytes \<Rightarrow> bytes \<Rightarrow> bytes" where
  "ch_message_spec random session_id exts =
     [1] @ vec24 (put_u16 0x0303 @ random @ vec8 session_id
       @ vec16 (concat (map put_u16 (tls13_cipher_suites @ tls12_cipher_suites))) @ vec8 [0] @ vec16 exts)"

definition ch_record_spec :: "bytes \<Rightarrow> bytes" where
  "ch_record_spec m = [22, 3, 1] @ vec16 m"

definition psk_ext_spec :: "bytes \<Rightarrow> u32 \<Rightarrow> bytes \<Rightarrow> bytes" where
  "psk_ext_spec identity age binder =
     ext_spec 41 (vec16 (vec16 identity @ put_u32 age) @ vec16 (vec8 binder))"

section \<open>What each extension writer writes\<close>

lemma ext_sni_spec: "ext_sni h = ext_spec 0 (vec16 ([0] @ vec16 h))"
  by (simp add: ext_sni_def ext_spec_def vec16_def Let_def ext_defs)

lemma ext_groups_spec: "ext_groups = ext_spec 10 (vec16 (concat (map put_u16 [0x1D, 0x17, 0x18])))"
  by (simp add: ext_groups_def ext_spec_def vec16_def ext_defs group_defs)

lemma length_sig_algorithms [simp]: "length sig_algorithms = 6"
  by (simp add: sig_algorithms_def)

lemma length_suites [simp]: "length tls13_cipher_suites = 2" "length tls12_cipher_suites = 4"
  by (simp_all add: tls13_cipher_suites_def tls12_cipher_suites_def)

lemma length_concat_u16 [simp]: "length (concat (map put_u16 xs)) = 2 * length xs"
  by (induction xs) simp_all

lemma ext_sigalgs_spec: "ext_sigalgs = ext_spec 13 (vec16 (concat (map put_u16 sig_algorithms)))"
  by (simp add: ext_sigalgs_def ext_spec_def vec16_def ext_defs)

lemma ext_versions_spec: "ext_versions = ext_spec 43 (vec8 (concat (map put_u16 [0x0304, 0x0303])))"
  by (simp add: ext_versions_def ext_spec_def vec16_def vec8_def ext_defs version_defs)

lemma ext_key_share_spec:
  "ext_key_share hs = ext_spec 51 (vec16 (put_u16 (ecdhe_group hs) @ vec16 (rd (ecdhe_public hs) 0 (ecdhe_public_len hs))))"
  by (simp add: ext_key_share_def ext_spec_def vec16_def Let_def ext_defs)

lemma ext_cookie_spec: "ext_cookie hs = ext_spec 44 (vec16 (rd (hs_cookie hs) 0 (hs_cookie_len hs)))"
  by (simp add: ext_cookie_def ext_spec_def vec16_def ext_defs)

lemma ext_alpn_spec: "ext_alpn = ext_spec 16 (vec16 (vec8 (ascii ''http/1.1'')))"
  by (simp add: ext_alpn_def ext_spec_def vec16_def vec8_def ext_defs)

lemma ext_psk_modes_spec: "ext_psk_modes = ext_spec 45 (vec8 [1])"
  by (simp add: ext_psk_modes_def ext_spec_def vec16_def vec8_def ext_defs)

lemma ext_psk_spec:
  "ext_psk tk age = psk_ext_spec (rd (tk_ticket tk) 0 (tk_ticket_len tk)) age (replicate (tk_psk_len tk) 0)"
  by (simp add: ext_psk_def psk_ext_spec_def ext_spec_def vec16_def vec8_def Let_def ext_defs)

lemmas ext_writers = ext_sni_spec ext_groups_spec ext_sigalgs_spec ext_versions_spec ext_key_share_spec
  ext_cookie_spec ext_alpn_spec ext_psk_modes_spec

section \<open>The writer's invariant\<close>

text \<open>\<open>ch_ok hs0 st out\<close>: the writer never leaves the buffer, it fails exactly when \<open>out\<close> does
  not fit, and unless it failed the context is \<open>hs0\<close> with some message buffer whose first
  \<open>pos\<close> bytes are \<open>out\<close>.\<close>

definition ch_same_but :: "'x hs_ctx \<Rightarrow> 'x hs_ctx \<Rightarrow> bool" where
  "ch_same_but hs0 hs \<longleftrightarrow> hs = hs0\<lparr>msg_buf := msg_buf hs, ch_random := ch_random hs,
     ch_session_id := ch_session_id hs, ch_fields_valid := ch_fields_valid hs\<rparr>"

definition ch_ok :: "'x hs_ctx \<Rightarrow> 'x chw \<Rightarrow> bytes \<Rightarrow> bool" where
  "ch_ok hs0 st out \<longleftrightarrow> (case st of (hs, rng, pos, ok) \<Rightarrow>
     length (msg_buf hs) = HS_BUF \<and> ok = (length out \<le> HS_BUF) \<and> ch_same_but hs0 hs \<and>
     (ok \<longrightarrow> hs = hs0\<lparr>msg_buf := msg_buf hs\<rparr> \<and> pos = length out \<and> take pos (msg_buf hs) = out))"

lemma ch_emit_ok:
  assumes "ch_ok hs0 st out" "need = length bs + skip"
  shows "\<exists>g. length g = skip \<and> ch_ok hs0 (ch_emit need bs skip st) (out @ bs @ g)"
proof -
  obtain hs rng pos ok where st: "st = (hs, rng, pos, ok)" by (cases st) auto
  show ?thesis
  proof (cases "ok \<and> pos + need \<le> HS_BUF")
    case False
    then show ?thesis using assms st by (intro exI [of _ "replicate skip 0"]) (auto simp: ch_ok_def ch_emit_def)
  next
    case True
    let ?b = "wr (msg_buf hs) pos bs"
    have l: "length (msg_buf hs) = HS_BUF" "pos = length out" "take pos (msg_buf hs) = out"
      "hs = hs0\<lparr>msg_buf := msg_buf hs\<rparr>" "length out \<le> HS_BUF"
      using True assms st by (auto simp: ch_ok_def)
    have lb: "length ?b = HS_BUF" using l True assms(2) by (simp add: max_def)
    have t: "take (pos + length bs) ?b = out @ bs"
      using take_wr_upto [of pos "msg_buf hs" bs] True l by simp
    define g where "g = take skip (drop (pos + length bs) ?b)"
    have "skip \<le> HS_BUF - (pos + length bs)" using True assms(2) by linarith
    then have "length g = skip" by (simp only: g_def length_take length_drop lb min_absorb2)
    moreover have "take (pos + length bs + skip) ?b = out @ bs @ g"
      using t by (simp add: take_add g_def)
    moreover have "hs\<lparr>msg_buf := ?b\<rparr> = hs0\<lparr>msg_buf := ?b\<rparr>"
      by (subst l(4)) simp
    ultimately show ?thesis
      using True lb l assms(2) st by (intro exI [of _ g]) (auto simp: ch_ok_def ch_emit_def ch_same_but_def)
  qed
qed

lemma ch_emit0_ok:
  assumes "ch_ok hs0 st out" "need = length bs"
  shows "ch_ok hs0 (ch_emit need bs 0 st) (out @ bs)"
  using ch_emit_ok [of hs0 st out need bs 0] assms by simp

lemma length_drbg_32: "length (fst (br_hmac_drbg_generate rng n)) = n"
  by (rule length_drbg_generate [of rng n _ "snd (br_hmac_drbg_generate rng n)"]) simp

lemma ch_write_random_ok:
  assumes "ch_ok hs0 st out"
  shows "\<exists>rr. (if ch_fields_valid hs0 then rr = ch_random hs0 else length rr = 32) \<and>
           ch_ok (hs0\<lparr>ch_random := rr\<rparr>) (ch_write_random st) (out @ rd rr 0 32)"
proof -
  obtain hs rng pos ok where st: "st = (hs, rng, pos, ok)" by (cases st) auto
  define rr where "rr = (if ch_fields_valid hs0 then ch_random hs0 else fst (br_hmac_drbg_generate rng 32))"
  have rr: "if ch_fields_valid hs0 then rr = ch_random hs0 else length rr = 32"
    by (simp add: rr_def length_drbg_32)
  show ?thesis
  proof (cases "ok \<and> pos + 32 \<le> HS_BUF")
    case False
    then have "ch_ok (hs0\<lparr>ch_random := rr\<rparr>) (ch_write_random st) (out @ rd rr 0 32)"
      using assms st by (auto simp: ch_ok_def ch_write_random_def ch_same_but_def)
    with rr show ?thesis by blast
  next
    case True
    let ?b = "wr (msg_buf hs) pos (rd rr 0 32)"
    have l: "length (msg_buf hs) = HS_BUF" "pos = length out" "take pos (msg_buf hs) = out"
      "hs = hs0\<lparr>msg_buf := msg_buf hs\<rparr>"
      using True assms st by (auto simp: ch_ok_def)
    have lb: "length ?b = HS_BUF" using l True by (simp add: max_def)
    have t: "take (pos + 32) ?b = out @ rd rr 0 32"
      using take_wr_upto [of pos "msg_buf hs" "rd rr 0 32"] True l by simp
    have v: "ch_fields_valid hs = ch_fields_valid hs0" "ch_random hs = ch_random hs0"
      by (subst l(4), simp)+
    have w: "hs\<lparr>ch_random := rr, msg_buf := ?b\<rparr> = hs0\<lparr>ch_random := rr, msg_buf := ?b\<rparr>"
      by (subst l(4)) simp
    have "\<exists>rng'. ch_write_random st = (hs\<lparr>ch_random := rr, msg_buf := ?b\<rparr>, rng', pos + 32, True)"
      using True st v by (auto simp: ch_write_random_def Let_def rr_def split: prod.split)
    then obtain rng' where "ch_write_random st = (hs0\<lparr>ch_random := rr, msg_buf := ?b\<rparr>, rng', pos + 32, True)"
      using w by auto
    then have "ch_ok (hs0\<lparr>ch_random := rr\<rparr>) (ch_write_random st) (out @ rd rr 0 32)"
      using lb l True t by (simp add: ch_ok_def ch_same_but_def)
    with rr show ?thesis by blast
  qed
qed

lemma ch_write_session_id_ok:
  assumes "ch_ok hs0 st out"
  shows "\<exists>ss. (if ch_fields_valid hs0 then ss = ch_session_id hs0 else length ss = 32) \<and>
           ch_ok (hs0\<lparr>ch_session_id := ss, ch_fields_valid := True\<rparr>) (ch_write_session_id st)
             (out @ [32] @ rd ss 0 32)"
proof -
  obtain hs rng pos ok where st: "st = (hs, rng, pos, ok)" by (cases st) auto
  define ss where "ss = (if ch_fields_valid hs0 then ch_session_id hs0 else fst (br_hmac_drbg_generate rng 32))"
  have ss: "if ch_fields_valid hs0 then ss = ch_session_id hs0 else length ss = 32"
    by (simp add: ss_def length_drbg_32)
  let ?hs1 = "hs0\<lparr>ch_session_id := ss, ch_fields_valid := True\<rparr>"
  show ?thesis
  proof (cases "ok \<and> pos + 33 \<le> HS_BUF")
    case False
    then have "ch_ok ?hs1 (ch_write_session_id st) (out @ [32] @ rd ss 0 32)"
      using assms st by (auto simp: ch_ok_def ch_write_session_id_def ch_same_but_def)
    with ss show ?thesis by blast
  next
    case True
    let ?b = "wr (msg_buf hs) pos ([32] @ rd ss 0 32)"
    have l: "length (msg_buf hs) = HS_BUF" "pos = length out" "take pos (msg_buf hs) = out"
      "hs = hs0\<lparr>msg_buf := msg_buf hs\<rparr>"
      using True assms st by (auto simp: ch_ok_def)
    have lb: "length ?b = HS_BUF" using l True by (simp add: max_def)
    have t: "take (pos + 33) ?b = out @ [32] @ rd ss 0 32"
      using take_wr_upto [of pos "msg_buf hs" "[32] @ rd ss 0 32"] True l by simp
    have v: "ch_fields_valid hs = ch_fields_valid hs0" "ch_session_id hs = ch_session_id hs0"
      by (subst l(4), simp)+
    have w: "hs\<lparr>ch_session_id := ss, msg_buf := ?b, ch_fields_valid := True\<rparr>
             = hs0\<lparr>ch_session_id := ss, msg_buf := ?b, ch_fields_valid := True\<rparr>"
      by (subst l(4)) simp
    have "\<exists>rng'. ch_write_session_id st =
        (hs\<lparr>ch_session_id := ss, msg_buf := ?b, ch_fields_valid := True\<rparr>, rng', pos + 33, True)"
      using True st v by (auto simp: ch_write_session_id_def Let_def ss_def split: prod.split)
    then obtain rng' where "ch_write_session_id st =
        (hs0\<lparr>ch_session_id := ss, msg_buf := ?b, ch_fields_valid := True\<rparr>, rng', pos + 33, True)"
      using w by auto
    then have "ch_ok ?hs1 (ch_write_session_id st) (out @ [32] @ rd ss 0 32)"
      using lb l True t by (simp add: ch_ok_def ch_same_but_def)
    with ss show ?thesis by blast
  qed
qed

section \<open>The whole message\<close>

lemma rd_Nil_iff: "rd b i n = [] \<longleftrightarrow> n = 0"
  using length_rd [of b i n] by (metis length_0_conv)

lemma ch_write_front_ok:
  assumes "length (msg_buf hs0) = HS_BUF" "ch_write_front hs0 rng = (p1, p2, st)"
  shows "\<exists>rr ss g1 g2 g3.
     (if ch_fields_valid hs0 then rr = ch_random hs0 \<and> ss = ch_session_id hs0
      else length rr = 32 \<and> length ss = 32) \<and>
     length g1 = 2 \<and> length g2 = 3 \<and> length g3 = 2 \<and> p1 = 6 \<and> p2 = 92 \<and>
     ch_ok (hs0\<lparr>ch_random := rr, ch_session_id := ss, ch_fields_valid := True\<rparr>) st
       ([22, 3, 1] @ g1 @ [1] @ g2
        @ (put_u16 0x0303 @ rd rr 0 32 @ vec8 (rd ss 0 32)
           @ vec16 (concat (map put_u16 (tls13_cipher_suites @ tls12_cipher_suites))) @ vec8 [0])
        @ g3)"
proof -
  have s0: "ch_ok hs0 (hs0, rng, 0, True) []"
    using assms(1) by (simp add: ch_ok_def ch_same_but_def)
  define st1 where "st1 = ch_emit 5 [TLS13_CT_HANDSHAKE, 3, 1] 2 (hs0, rng, 0, True)"
  have pos1: "fst (snd (snd st1)) = 5"
    by (simp add: st1_def ch_emit_def HS_BUF_def)
  obtain g1 where g1: "length g1 = 2"
    and s1: "ch_ok hs0 st1 ([] @ [TLS13_CT_HANDSHAKE, 3, 1] @ g1)"
    using ch_emit_ok [OF s0, of 5 "[TLS13_CT_HANDSHAKE, 3, 1]" 2] by (auto simp: st1_def)
  obtain g2 where g2: "length g2 = 3"
    and s2: "ch_ok hs0 (ch_emit 4 [TLS13_HT_CLIENT_HELLO] 3 st1)
       (([] @ [TLS13_CT_HANDSHAKE, 3, 1] @ g1) @ [TLS13_HT_CLIENT_HELLO] @ g2)"
    using ch_emit_ok [OF s1, of 4 "[TLS13_HT_CLIENT_HELLO]" 3] by auto
  define st3 where "st3 = ch_emit 2 (put_u16 TLS12_VERSION) 0 (ch_emit 4 [TLS13_HT_CLIENT_HELLO] 3 st1)"
  define o3 where "o3 = (([] @ [TLS13_CT_HANDSHAKE, 3, 1] @ g1) @ [TLS13_HT_CLIENT_HELLO] @ g2) @ put_u16 TLS12_VERSION"
  have s3: "ch_ok hs0 st3 o3"
    unfolding st3_def o3_def by (rule ch_emit0_ok [OF s2]) simp
  obtain rr where rr: "if ch_fields_valid hs0 then rr = ch_random hs0 else length rr = 32"
    and s4: "ch_ok (hs0\<lparr>ch_random := rr\<rparr>) (ch_write_random st3) (o3 @ rd rr 0 32)"
    using ch_write_random_ok [OF s3] by blast
  define st5 where "st5 = ch_write_session_id (ch_write_random st3)"
  obtain ss where ss': "if ch_fields_valid (hs0\<lparr>ch_random := rr\<rparr>) then ss = ch_session_id (hs0\<lparr>ch_random := rr\<rparr>)
      else length ss = 32"
    and s5: "ch_ok (hs0\<lparr>ch_random := rr, ch_session_id := ss, ch_fields_valid := True\<rparr>) st5
      ((o3 @ rd rr 0 32) @ [32] @ rd ss 0 32)"
    using ch_write_session_id_ok [OF s4] unfolding st5_def by blast
  from ss' have ss: "if ch_fields_valid hs0 then ss = ch_session_id hs0 else length ss = 32"
    by (simp cong: if_cong)
  let ?hs = "hs0\<lparr>ch_random := rr, ch_session_id := ss, ch_fields_valid := True\<rparr>"
  define suites where "suites = put_u16 (word_of_nat ((length tls13_cipher_suites + length tls12_cipher_suites) * 2))
        @ concat (map put_u16 tls13_cipher_suites) @ concat (map put_u16 tls12_cipher_suites)"
  define st7 where "st7 = ch_emit 2 [1, 0] 0
     (ch_emit (2 + (length tls13_cipher_suites + length tls12_cipher_suites) * 2) suites 0 st5)"
  define o7 where "o7 = (((o3 @ rd rr 0 32) @ [32] @ rd ss 0 32) @ suites) @ [1, 0]"
  have s7: "ch_ok ?hs st7 o7"
    unfolding st7_def o7_def by (intro ch_emit0_ok s5) (simp_all add: suites_def)
  have l7: "length o7 = 92" by (simp add: o7_def o3_def suites_def g1 g2)
  then have pos7: "fst (snd (snd st7)) = 92" using s7 by (auto simp: ch_ok_def HS_BUF_def)
  obtain g3 where g3: "length g3 = 2" and s8: "ch_ok ?hs (ch_emit 2 [] 2 st7) (o7 @ [] @ g3)"
    using ch_emit_ok [OF s7, of 2 "[]" 2] by auto
  have "ch_write_front hs0 rng = (fst (snd (snd st1)) + 1, fst (snd (snd st7)), ch_emit 2 [] 2 st7)"
    unfolding ch_write_front_def Let_def st7_def suites_def st5_def st3_def st1_def by (rule refl)
  then have st: "p1 = 6" "p2 = 92" "st = ch_emit 2 [] 2 st7"
    using assms(2) pos1 pos7 by simp_all
  have o7: "o7 @ [] @ g3 = [22, 3, 1] @ g1 @ [1] @ g2
        @ (put_u16 0x0303 @ rd rr 0 32 @ vec8 (rd ss 0 32)
           @ vec16 (concat (map put_u16 (tls13_cipher_suites @ tls12_cipher_suites))) @ vec8 [0])
        @ g3"
    by (simp add: o7_def o3_def suites_def vec8_def vec16_def ct_defs ht_defs version_defs)
  show ?thesis
    using rr ss g1 g2 g3 st s8 [unfolded o7]
    by (intro exI [of _ rr] exI [of _ ss] exI [of _ g1] exI [of _ g2] exI [of _ g3])
       (auto split: if_splits)
qed

lemma ch_write_extensions_ok:
  assumes "ch_ok hs0 st out" "ecdhe_public_len hs = klen"
  shows "ch_ok hs0 (ch_write_extensions hs hostname st)
     (out @ ch_extensions_spec hostname (ecdhe_group hs) (rd (ecdhe_public hs) 0 (ecdhe_public_len hs))
            (rd (hs_cookie hs) 0 (hs_cookie_len hs)))"
proof -
  have c: "ch_ok hs0 (if 0 < hs_cookie_len hs then ch_emit (4 + 2 + hs_cookie_len hs) (ext_cookie hs) 0 st else st)
     (out @ (if rd (hs_cookie hs) 0 (hs_cookie_len hs) = [] then []
             else ext_spec 44 (vec16 (rd (hs_cookie hs) 0 (hs_cookie_len hs)))))"
    if "ch_ok hs0 st out" for st out
    using that ch_emit0_ok [OF that, of "4 + 2 + hs_cookie_len hs" "ext_cookie hs"]
    by (simp add: ext_cookie_spec rd_Nil_iff)
  have "ch_ok hs0 (ch_write_extensions hs hostname st)
     (((((((((out @ ext_sni hostname) @ ext_groups) @ ext_sigalgs) @ ext_versions) @ ext_key_share hs)
        @ (if rd (hs_cookie hs) 0 (hs_cookie_len hs) = [] then []
             else ext_spec 44 (vec16 (rd (hs_cookie hs) 0 (hs_cookie_len hs)))))
        @ ext_alpn) @ ext_psk_modes))"
    unfolding ch_write_extensions_def Let_def
    by (intro ch_emit0_ok c assms(1)) (simp_all add: ext_writers)
  then show ?thesis by (simp add: ext_writers ch_extensions_spec_def)
qed

lemma wr_mid:
  assumes "length A = n" "length G = length X"
  shows "wr (A @ G @ B) n X = A @ X @ B"
  using assms by (auto simp: wr_def)

lemma wr_prefix: "off + length xs \<le> length a \<Longrightarrow> wr (a @ r) off xs = wr a off xs @ r"
  by (auto simp: wr_def)

lemma take_wr_take: "off + length xs \<le> n \<Longrightarrow> n \<le> length b \<Longrightarrow> take n (wr b off xs) = wr (take n b) off xs"
  using wr_prefix [of off xs "take n b" "drop n b"] by (simp add: min_def)

lemma ch_backpatch_ok:
  assumes "take pos buf = [22, 3, 1] @ g1 @ [1] @ g2 @ front @ g3 @ exts"
    and len: "pos = 94 + length exts" "pos \<le> length buf"
    and g: "length g1 = 2" "length g2 = 3" "length g3 = 2" "length front = 83"
  shows "take pos (ch_backpatch 6 92 pos buf) = ch_record_spec ([1] @ vec24 (front @ vec16 exts))"
    "length (ch_backpatch 6 92 pos buf) = length buf"
proof -
  note pos = len(1)
  have "take pos (ch_backpatch 6 92 pos buf)
        = wr (wr (wr (take pos buf) 92 (put_u16 (word_of_nat (length exts)))) 6
             (put_u24 (word_of_nat (85 + length exts)))) 3 (put_u16 (word_of_nat (89 + length exts)))"
    using pos len by (simp add: ch_backpatch_def Let_def take_wr_take le_max_iff_disj)
  also have "wr (take pos buf) 92 (put_u16 (word_of_nat (length exts)))
      = [22, 3, 1] @ g1 @ [1] @ g2 @ front @ put_u16 (word_of_nat (length exts)) @ exts"
    using wr_mid [of "[22, 3, 1] @ g1 @ [1] @ g2 @ front" 92 g3 "put_u16 (word_of_nat (length exts))" exts] g
    by (simp add: assms(1))
  also have "wr \<dots> 6 (put_u24 (word_of_nat (85 + length exts)))
      = [22, 3, 1] @ g1 @ [1] @ put_u24 (word_of_nat (85 + length exts)) @ front
        @ put_u16 (word_of_nat (length exts)) @ exts"
    using wr_mid [of "[22, 3, 1] @ g1 @ [1]" 6 g2 "put_u24 (word_of_nat (85 + length exts))"
        "front @ put_u16 (word_of_nat (length exts)) @ exts"] g by simp
  also have "wr \<dots> 3 (put_u16 (word_of_nat (89 + length exts)))
      = [22, 3, 1] @ put_u16 (word_of_nat (89 + length exts)) @ [1] @ put_u24 (word_of_nat (85 + length exts))
        @ front @ put_u16 (word_of_nat (length exts)) @ exts"
    using wr_mid [of "[22, 3, 1]" 3 g1 "put_u16 (word_of_nat (89 + length exts))"
        "[1] @ put_u24 (word_of_nat (85 + length exts)) @ front @ put_u16 (word_of_nat (length exts)) @ exts"] g
    by simp
  also have "\<dots> = ch_record_spec ([1] @ vec24 (front @ vec16 exts))"
    using g by (simp add: ch_record_spec_def vec16_def vec24_def)
  finally show "take pos (ch_backpatch 6 92 pos buf) = ch_record_spec ([1] @ vec24 (front @ vec16 exts))" .
  show "length (ch_backpatch 6 92 pos buf) = length buf"
    using pos len by (simp add: ch_backpatch_def Let_def max_def)
qed

text \<open>With the binder as its last bytes, a record with a pre_shared_key extension is a prefix
  that depends on the binder's length only, then the binder.\<close>

definition psk_prefix :: "bytes \<Rightarrow> bytes \<Rightarrow> bytes \<Rightarrow> u32 \<Rightarrow> nat \<Rightarrow> bytes" where
  "psk_prefix front exts identity age n =
     (let l4 = 2 + (length identity + 6) + 2 + (n + 1); l3 = length exts + 4 + l4; l2 = length front + 2 + l3
      in [22, 3, 1] @ put_u16 (word_of_nat (4 + l2)) @ [1] @ put_u24 (word_of_nat l2) @ front
         @ put_u16 (word_of_nat l3) @ exts @ put_u16 41 @ put_u16 (word_of_nat l4)
         @ put_u16 (word_of_nat (length identity + 6)) @ put_u16 (word_of_nat (length identity)) @ identity
         @ put_u32 age @ put_u16 (word_of_nat (n + 1)) @ [word_of_nat n])"

lemma psk_record_split:
  "length b = n \<Longrightarrow>
   ch_record_spec ([1] @ vec24 (front @ vec16 (exts @ psk_ext_spec identity age b)))
   = psk_prefix front exts identity age n @ b"
  by (simp add: ch_record_spec_def psk_ext_spec_def ext_spec_def vec8_def vec16_def vec24_def psk_prefix_def
      Let_def add.commute add.left_commute add.assoc)

definition ch_front :: "bytes \<Rightarrow> bytes \<Rightarrow> bytes" where
  "ch_front random session_id = put_u16 0x0303 @ random @ vec8 session_id
     @ vec16 (concat (map put_u16 (tls13_cipher_suites @ tls12_cipher_suites))) @ vec8 [0]"

lemma ch_message_front: "ch_message_spec r s exts = [1] @ vec24 (ch_front r s @ vec16 exts)"
  by (simp add: ch_message_spec_def ch_front_def)

lemma length_ch_front: "length r = 32 \<Longrightarrow> length s = 32 \<Longrightarrow> length (ch_front r s) = 83"
  by (simp add: ch_front_def)

text \<open>The extensions a context writes, without pre_shared_key.\<close>

definition ch_exts :: "'x hs_ctx \<Rightarrow> bytes \<Rightarrow> bytes" where
  "ch_exts hs hostname = ch_extensions_spec hostname (ecdhe_group hs)
     (rd (ecdhe_public hs) 0 (ecdhe_public_len hs)) (rd (hs_cookie hs) 0 (hs_cookie_len hs))"

lemma ch_written:
  assumes "length (msg_buf hs0) = HS_BUF" "ch_write_front hs0 rng = (p1, p2, st)"
    "ch_write_extensions hs0 hostname st = (hs, rng', pos, ok)"
  shows "\<exists>rr ss g1 g2 g3.
     (if ch_fields_valid hs0 then rr = ch_random hs0 \<and> ss = ch_session_id hs0
      else length rr = 32 \<and> length ss = 32) \<and>
     length g1 = 2 \<and> length g2 = 3 \<and> length g3 = 2 \<and> p1 = 6 \<and> p2 = 92 \<and>
     ch_ok (hs0\<lparr>ch_random := rr, ch_session_id := ss, ch_fields_valid := True\<rparr>) (hs, rng', pos, ok)
       ([22, 3, 1] @ g1 @ [1] @ g2 @ ch_front (rd rr 0 32) (rd ss 0 32) @ g3 @ ch_exts hs0 hostname)"
proof -
  obtain rr ss g1 g2 g3 where
    r: "if ch_fields_valid hs0 then rr = ch_random hs0 \<and> ss = ch_session_id hs0
      else length rr = 32 \<and> length ss = 32" and
    g: "length g1 = 2" "length g2 = 3" "length g3 = 2" "p1 = 6" "p2 = 92" and
    ok: "ch_ok (hs0\<lparr>ch_random := rr, ch_session_id := ss, ch_fields_valid := True\<rparr>) st
       ([22, 3, 1] @ g1 @ [1] @ g2 @ ch_front (rd rr 0 32) (rd ss 0 32) @ g3)"
    using ch_write_front_ok [OF assms(1,2)] unfolding ch_front_def by blast
  have "ch_ok (hs0\<lparr>ch_random := rr, ch_session_id := ss, ch_fields_valid := True\<rparr>) (hs, rng', pos, ok)
       (([22, 3, 1] @ g1 @ [1] @ g2 @ ch_front (rd rr 0 32) (rd ss 0 32) @ g3) @ ch_exts hs0 hostname)"
    using ch_write_extensions_ok [OF ok refl, of hs0 hostname]
    by (simp only: assms(3) ch_exts_def)
  then show ?thesis using r g
    by (intro exI [of _ rr] exI [of _ ss] exI [of _ g1] exI [of _ g2] exI [of _ g3])
       (simp split: if_splits)
qed

text \<open>The two ways a build succeeds: with the pre_shared_key extension or without.\<close>

definition ch_offers_psk :: "'x hs_ctx \<Rightarrow> bool" where
  "ch_offers_psk hs \<longleftrightarrow> resuming hs \<and> (case offer_ticket hs of None \<Rightarrow> False
     | Some tk \<Rightarrow> tk_psk_len tk = t_hash_len (hs_transcript hs))"

definition ch_binder :: "'x hs_ctx \<Rightarrow> bytes \<Rightarrow> bytes" where
  "ch_binder hs trunc =
     (let tk = the (offer_ticket hs)
      in tls13_compute_binder (tls13_ks_init stack_ks (if tk_psk_len tk = 48 then SHA384 else SHA256))
           (rd (tk_psk tk) 0 (tk_psk_len tk)) (hs_transcript hs) trunc)"

definition ch_message :: "'x hs_ctx \<Rightarrow> bytes \<Rightarrow> bytes \<Rightarrow> bytes \<Rightarrow> bytes" where
  "ch_message hs hostname random session_id =
     (if ch_offers_psk hs
      then let tk = the (offer_ticket hs); n = tk_psk_len tk;
               with_binder = (\<lambda>b. ch_message_spec random session_id (ch_exts hs hostname
                  @ psk_ext_spec (rd (tk_ticket tk) 0 (tk_ticket_len tk)) (offer_obfuscated_age hs) b));
               m0 = with_binder (replicate n 0)
           in with_binder (ch_binder hs (take (length m0 - (n + 3)) m0))
      else ch_message_spec random session_id (ch_exts hs hostname))"

text \<open>The context after a successful build.\<close>

definition ch_built :: "'x hs_ctx \<Rightarrow> bytes \<Rightarrow> bytes \<Rightarrow> 'x hs_ctx \<Rightarrow> bytes \<Rightarrow> bool" where
  "ch_built hs0 rr ss hs m \<longleftrightarrow>
     length (msg_buf hs) = HS_BUF \<and> msg_len hs = length m + 5 \<and> msg_len hs \<le> HS_BUF
     \<and> take (msg_len hs) (msg_buf hs) = ch_record_spec m
     \<and> hs = hs0\<lparr>ch_random := rr, ch_session_id := ss, ch_fields_valid := True, msg_buf := msg_buf hs,
               msg_len := msg_len hs, msg_offset := 0,
               hs_transcript := tls13_transcript_update (hs_transcript hs0) m\<rparr>"

lemma rd_record_spec:
  assumes "take pos buf = ch_record_spec m" "pos \<le> length buf"
  shows "rd buf 5 (pos - 5) = m" "pos = length m + 5"
proof -
  have "length (take pos buf) = length (ch_record_spec m)" using assms(1) by (rule arg_cong)
  then show p: "pos = length m + 5" using assms(2) by (simp add: ch_record_spec_def)
  have "rd buf 5 (pos - 5) = take (pos - 5) (drop 5 buf)" using p assms(2) by (intro rd_eq_take_drop) simp
  also have "\<dots> = drop 5 (take pos buf)" by (simp add: drop_take)
  also have "\<dots> = m" by (simp add: assms(1) ch_record_spec_def vec16_def)
  finally show "rd buf 5 (pos - 5) = m" .
qed

lemma ch_finish_plain:
  assumes "ch_ok hs1 (hs, rng, pos, True) ([22, 3, 1] @ g1 @ [1] @ g2 @ ch_front r s @ g3 @ exts)"
    and g: "length g1 = 2" "length g2 = 3" "length g3 = 2" and rs: "length r = 32" "length s = 32"
  defines "buf \<equiv> ch_backpatch 6 92 pos (msg_buf hs)"
  shows "take pos buf = ch_record_spec (ch_message_spec r s exts)" "length buf = HS_BUF" "pos \<le> HS_BUF"
    "hs = hs1\<lparr>msg_buf := msg_buf hs\<rparr>"
proof -
  have ok: "length (msg_buf hs) = HS_BUF" "pos = length ([22, 3, 1] @ g1 @ [1] @ g2 @ ch_front r s @ g3 @ exts)"
    "pos \<le> HS_BUF" "take pos (msg_buf hs) = [22, 3, 1] @ g1 @ [1] @ g2 @ ch_front r s @ g3 @ exts"
    "hs = hs1\<lparr>msg_buf := msg_buf hs\<rparr>"
    using assms(1) by (auto simp: ch_ok_def)
  have pos: "pos = 94 + length exts" using ok(2) g rs by (simp add: length_ch_front)
  show "take pos buf = ch_record_spec (ch_message_spec r s exts)" "length buf = HS_BUF" "pos \<le> HS_BUF"
    "hs = hs1\<lparr>msg_buf := msg_buf hs\<rparr>"
    using ch_backpatch_ok [OF ok(4) pos _ g length_ch_front [OF rs]] ok
    by (simp_all add: buf_def ch_message_front)
qed

lemma length_compute_binder:
  "length (tls13_compute_binder ks psk t trunc) = br_digest_size (ks_hash ks)"
  by (simp add: tls13_compute_binder_def Let_def hmac_out_pieces tls13_ks_extract_early_psk_def)

lemma length_ch_binder:
  assumes "t_hash_len (hs_transcript hs) = br_digest_size a" "ch_offers_psk hs"
  shows "length (ch_binder hs trunc) = tk_psk_len (the (offer_ticket hs))"
  using assms
  by (cases a; cases "offer_ticket hs")
     (simp_all add: ch_binder_def Let_def length_compute_binder tls13_ks_init_def ch_offers_psk_def)

lemma rd_take: "rd b i (n - k) = take (n - k) (rd b i n)"
  by (rule nth_equalityI) (simp_all add: nth_rd)

lemma ch_built_intro:
  assumes B: "take L B = ch_record_spec m" "length B = HS_BUF" "L \<le> HS_BUF"
    and h1: "hs1 = hs0\<lparr>ch_random := rr, ch_session_id := ss, ch_fields_valid := True, msg_buf := X\<rparr>"
    and hs: "hs = hs1\<lparr>msg_buf := B, msg_len := L, msg_offset := 0,
         hs_transcript := tls13_transcript_update (hs_transcript hs0) (rd B 5 (L - 5))\<rparr>"
  shows "ch_built hs0 rr ss hs m"
proof -
  have m: "rd B 5 (L - 5) = m" "L = length m + 5" using rd_record_spec [OF B(1)] B by simp_all
  have "hs = hs0\<lparr>ch_random := rr, ch_session_id := ss, ch_fields_valid := True, msg_buf := B,
         msg_len := L, msg_offset := 0, hs_transcript := tls13_transcript_update (hs_transcript hs0) m\<rparr>"
    unfolding hs h1 m(1) by simp
  then show ?thesis using B m(2) by (simp add: ch_built_def)
qed

lemma build_client_hello_ok:
  assumes buf: "length (msg_buf hs0) = HS_BUF" and t: "t_hash_len (hs_transcript hs0) = br_digest_size a"
    and b: "tls13_build_client_hello hs0 hostname rng = (hs, rng', True)"
  shows "\<exists>rr ss. (if ch_fields_valid hs0 then rr = ch_random hs0 \<and> ss = ch_session_id hs0
                 else length rr = 32 \<and> length ss = 32) \<and>
           ch_built hs0 rr ss hs (ch_message hs0 hostname (rd rr 0 32) (rd ss 0 32))"
proof -
  obtain p1 p2 st where f: "ch_write_front hs0 rng = (p1, p2, st)" by (metis prod.collapse)
  obtain hs1 rng1 pos ok where e: "ch_write_extensions hs0 hostname st = (hs1, rng1, pos, ok)"
    by (metis prod.collapse)
  obtain rr ss g1 g2 g3 where
    r: "if ch_fields_valid hs0 then rr = ch_random hs0 \<and> ss = ch_session_id hs0
      else length rr = 32 \<and> length ss = 32" and
    g: "length g1 = 2" "length g2 = 3" "length g3 = 2" and p: "p1 = 6" "p2 = 92" and
    w: "ch_ok (hs0\<lparr>ch_random := rr, ch_session_id := ss, ch_fields_valid := True\<rparr>) (hs1, rng1, pos, ok)
       ([22, 3, 1] @ g1 @ [1] @ g2 @ ch_front (rd rr 0 32) (rd ss 0 32) @ g3 @ ch_exts hs0 hostname)"
    using ch_written [OF buf f e] by blast
  let ?hs = "hs0\<lparr>ch_random := rr, ch_session_id := ss, ch_fields_valid := True\<rparr>"
  have ok: "ok" using b by (cases ok) (simp_all add: tls13_build_client_hello_def f e)
  have l: "length (rd rr 0 32) = 32" "length (rd ss 0 32) = 32" by simp_all
  have h1: "hs1 = ?hs\<lparr>msg_buf := msg_buf hs1\<rparr>" using w ok by (simp add: ch_ok_def)
  have sel: "offer_ticket hs1 = offer_ticket hs0" "resuming hs1 = resuming hs0"
    "hs_transcript hs1 = hs_transcript hs0" "offer_obfuscated_age hs1 = offer_obfuscated_age hs0"
    by (subst h1, simp)+
  show ?thesis
  proof (cases "ch_offers_psk hs0")
    case False
    note fin = ch_finish_plain [OF w [unfolded ok[THEN eqTrueI]] g l]
    let ?b = "ch_backpatch 6 92 pos (msg_buf hs1)"
    let ?m = "ch_message_spec (rd rr 0 32) (rd ss 0 32) (ch_exts hs0 hostname)"
    have "hs = hs1\<lparr>msg_buf := ?b, msg_len := pos, msg_offset := 0,
         hs_transcript := tls13_transcript_update (hs_transcript hs0) (rd ?b 5 (pos - 5))\<rparr>"
      using b ok False
      by (auto simp: tls13_build_client_hello_def f e p Let_def sel ch_offers_psk_def split: option.splits)
    from ch_built_intro [OF fin(1-3) h1 [simplified] this] r False show ?thesis
      by (intro exI [of _ rr] exI [of _ ss]) (simp add: ch_message_def split: if_splits)
  next
    case True
    then obtain tk where tk: "offer_ticket hs0 = Some tk" "resuming hs0" "tk_psk_len tk = t_hash_len (hs_transcript hs0)"
      by (auto simp: ch_offers_psk_def split: option.splits)
    define n where "n = tk_psk_len tk"
    define age where "age = offer_obfuscated_age hs0"
    define id where "id = rd (tk_ticket tk) 0 (tk_ticket_len tk)"
    let ?exts = "ch_exts hs0 hostname"
    obtain hs2 rng2 pos2 ok2 where e2: "ch_emit (4 + (2 + (2 + tk_ticket_len tk + 4) + 2 + (1 + n))) (ext_psk tk age) 0
        (hs1, rng1, pos, True) = (hs2, rng2, pos2, ok2)" by (metis prod.collapse)
    have "ch_ok ?hs (hs2, rng2, pos2, ok2) (([22, 3, 1] @ g1 @ [1] @ g2 @ ch_front (rd rr 0 32) (rd ss 0 32) @ g3
         @ ?exts) @ ext_psk tk age)"
      unfolding e2 [symmetric]
      by (rule ch_emit0_ok [OF w [unfolded ok[THEN eqTrueI]]])
         (simp add: ext_psk_spec n_def psk_ext_spec_def)
    then have w2: "ch_ok ?hs (hs2, rng2, pos2, ok2) ([22, 3, 1] @ g1 @ [1] @ g2 @ ch_front (rd rr 0 32) (rd ss 0 32) @ g3
         @ ?exts @ psk_ext_spec id age (replicate n 0))"
      by (simp only: ext_psk_spec id_def n_def append_assoc)
    have ok2: "ok2" using b ok tk e2
      by (cases ok2) (simp_all add: tls13_build_client_hello_def f e p Let_def sel n_def age_def)
    note fin = ch_finish_plain [OF w2 [unfolded ok2[THEN eqTrueI]] g l]
    let ?b = "ch_backpatch 6 92 pos2 (msg_buf hs2)"
    let ?m = "\<lambda>b. ch_message_spec (rd rr 0 32) (rd ss 0 32) (?exts @ psk_ext_spec id age b)"
    let ?P = "psk_prefix (ch_front (rd rr 0 32) (rd ss 0 32)) ?exts id age n"
    have split: "length b = n \<Longrightarrow> ch_record_spec (?m b) = ?P @ b" for b
      by (simp only: ch_message_front) (rule psk_record_split)
    define bd where "bd = ch_binder hs0 (take (length (?m (replicate n 0)) - (n + 3)) (?m (replicate n 0)))"
    have lbd: "length bd = n" using length_ch_binder [OF t True] tk by (simp add: bd_def n_def)
    have m0: "rd ?b 5 (pos2 - 5) = ?m (replicate n 0)" "pos2 = length (?m (replicate n 0)) + 5"
      using rd_record_spec [OF fin(1)] fin by simp_all
    have lt: "pos2 = length (take pos2 ?b)" using fin(2,3) by (simp only: length_take min_absorb2)
    have sz: "ch_record_spec (?m (replicate n 0)) = ?P @ replicate n 0" by (rule split) simp
    have lP: "pos2 = length ?P + n" by (subst lt) (simp only: fin(1) sz length_append length_replicate)
    have trunc: "rd ?b 5 (pos2 - 5 - (2 + (1 + n))) = take (length (?m (replicate n 0)) - (n + 3)) (?m (replicate n 0))"
    proof -
      have k: "2 + (1 + n) = n + 3" "pos2 - 5 = length (?m (replicate n 0))" using m0(2) by simp_all
      show ?thesis by (simp only: rd_take m0(1) k m0(1) [unfolded k])
    qed
    have B: "take pos2 (wr ?b (pos2 - n) bd) = ch_record_spec (?m bd)" "length (wr ?b (pos2 - n) bd) = HS_BUF"
    proof -
      have "take pos2 (wr ?b (pos2 - n) bd) = wr (take pos2 ?b) (pos2 - n) bd"
        using lP lbd fin by (intro take_wr_take) simp_all
      also have "\<dots> = wr (?P @ replicate n 0 @ []) (pos2 - n) bd"
        using fin(1) split [of "replicate n 0"] by simp
      also have "\<dots> = ?P @ bd @ []" using lP lbd by (intro wr_mid) simp_all
      finally show "take pos2 (wr ?b (pos2 - n) bd) = ch_record_spec (?m bd)" using split [OF lbd] by simp
      show "length (wr ?b (pos2 - n) bd) = HS_BUF" using lP lbd fin by simp
    qed
    have h2: "hs2 = hs0\<lparr>ch_random := rr, ch_session_id := ss, ch_fields_valid := True, msg_buf := msg_buf hs2\<rparr>"
      using fin(4) by simp
    have sel2: "hs_transcript hs2 = hs_transcript hs0" by (subst h2) simp
    have "hs = hs2\<lparr>msg_buf := wr ?b (pos2 - n) bd, msg_len := pos2, msg_offset := 0,
         hs_transcript := tls13_transcript_update (hs_transcript hs0) (rd (wr ?b (pos2 - n) bd) 5 (pos2 - 5))\<rparr>"
      using b ok ok2 tk e2 trunc
      by (simp add: tls13_build_client_hello_def f e p Let_def sel sel2 n_def [symmetric] age_def [symmetric]
          bd_def ch_binder_def)
    from ch_built_intro [OF B fin(3) h2 this] r True tk show ?thesis
      by (intro exI [of _ rr] exI [of _ ss])
         (simp add: ch_message_def Let_def n_def id_def age_def bd_def split: if_splits)
  qed
qed

end
