(* ===== verification/Server_Hello.thy ===== *)
theory Server_Hello
  imports Client_Hello
begin

text \<open>
  The ServerHello of os9/ostls_tls13_handshake.c: the parser with its extension loop
  (\<open>tls13_parse_server_hello\<close>), the processing of a HelloRetryRequest and of a regular
  ServerHello (ECDHE, key schedule, record keys) and the \<open>RecvServerHello\<close> state.

  The C function is one body; it is split here where it stops reading the message:
  \<open>sh_parse\<close> covers it up to the end of the extension loop, \<open>sh_finish\<close> the rest. The message is
  the byte list the record carries. For a key_share of length 3 the C code reads one byte past
  the extension before it rejects it; \<open>byte_at\<close> gives that byte as 0 when it is past the record,
  and \<open>key_share_length_three\<close> shows that the outcome does not depend on it.
\<close>

unbundle bit_operations_syntax

section \<open>Parsing\<close>

definition hrr_random :: bytes where
  "hrr_random =
    [0xCF, 0x21, 0xAD, 0x74, 0xE5, 0x9A, 0x61, 0x11, 0xBE, 0x1D, 0x8C, 0x02, 0x1E, 0x65, 0xB8, 0x91,
     0xC2, 0xA2, 0x11, 0x16, 0x7A, 0xBB, 0x8C, 0x5E, 0x07, 0x9E, 0x09, 0xE2, 0xC8, 0xA8, 0x33, 0x9C]"

text \<open>The local variables the extension loop sets.\<close>

record sh_info =
  sh_suite :: u16
  sh_is_hrr :: bool
  sh_msg_len :: nat
  found_supported_versions :: bool
  negotiated_version :: u16
  found_key_share :: bool
  server_share_group :: u16
  server_public :: bytes

datatype 'a step = Stop tls13_hs_result | Go 'a

definition sh_extension :: "'x hs_ctx \<Rightarrow> sh_info \<Rightarrow> bytes \<Rightarrow> u16 \<Rightarrow> nat \<Rightarrow> nat \<Rightarrow> 'x hs_ctx \<times> sh_info step" where
  "sh_extension hs sh msg ext_type d ext_len =
     (if ext_type = TLS13_EXT_SUPPORTED_VERSIONS
      then if ext_len \<noteq> 2 then (hs_fail BR_ERR_BAD_PARAM hs, Stop kTLS13_Error)
           else (hs, Go (sh\<lparr>negotiated_version := get_u16 msg d, found_supported_versions := True\<rparr>))
      else if ext_type = TLS13_EXT_KEY_SHARE
      then if ext_len < 2 then (hs_fail BR_ERR_BAD_PARAM hs, Stop kTLS13_Error)
           else let grp = get_u16 msg d; sh = sh\<lparr>server_share_group := grp\<rparr>
                in if ext_len = 2 then (hs, Go (sh\<lparr>found_key_share := True\<rparr>))
                   else let ke_len = unat (get_u16 msg (d + 2))
                        in if tls13_br_curve_for_group grp = 0
                           then (hs_fail BR_ERR_BAD_PARAM hs, Stop kTLS13_Error)
                           else if ke_len = 0 \<or> ext_len \<noteq> 4 + ke_len \<or> 133 < ke_len
                           then (hs_fail BR_ERR_BAD_PARAM hs, Stop kTLS13_Error)
                           else (hs, Go (sh\<lparr>server_public := rd msg (d + 4) ke_len, found_key_share := True\<rparr>))
      else if ext_type = TLS13_EXT_COOKIE
      then if ext_len < 2 then (hs_fail BR_ERR_BAD_PARAM hs, Stop kTLS13_Error)
           else let cookie_len = unat (get_u16 msg d)
                in if cookie_len + 2 \<noteq> ext_len then (hs_fail BR_ERR_BAD_PARAM hs, Stop kTLS13_Error)
                   else if 256 < cookie_len then (hs_fail BR_ERR_TOO_LARGE hs, Stop kTLS13_Error)
                   else (hs\<lparr>hs_cookie := wr (hs_cookie hs) 0 (rd msg (d + 2) cookie_len),
                            hs_cookie_len := cookie_len\<rparr>, Go sh)
      else if ext_type = TLS13_EXT_PRE_SHARED_KEY
      then if ext_len \<noteq> 2 then (hs_fail BR_ERR_BAD_PARAM hs, Stop kTLS13_Error)
           else (hs\<lparr>resumption_accepted := True\<rparr>, Go sh)
      else (hs, Go sh))"

function sh_extensions :: "'x hs_ctx \<Rightarrow> sh_info \<Rightarrow> bytes \<Rightarrow> nat \<Rightarrow> nat \<Rightarrow> 'x hs_ctx \<times> sh_info step" where
  "sh_extensions hs sh msg pos ext_end =
     (if ext_end < pos + 4 then (hs, Go sh)
      else let ext_type = get_u16 msg pos;
               ext_len = unat (get_u16 msg (pos + 2));
               pos = pos + 4
           in if ext_end < pos + ext_len then (hs_fail BR_ERR_BAD_PARAM hs, Stop kTLS13_Error)
              else case sh_extension hs sh msg ext_type pos ext_len of
                  (hs, Stop r) \<Rightarrow> (hs, Stop r)
                | (hs, Go sh) \<Rightarrow> sh_extensions hs sh msg (pos + ext_len) ext_end)"
  by pat_completeness auto
termination
  by (relation "measure (\<lambda>(hs, sh, msg, pos, ext_end). ext_end - pos)") auto

declare sh_extensions.simps [simp del]

definition sh_parse :: "'x hs_ctx \<Rightarrow> bytes \<Rightarrow> 'x hs_ctx \<times> sh_info step" where
  "sh_parse hs msg =
     (let msg_len = length msg; bad = (\<lambda>e. (hs_fail e hs, Stop kTLS13_Error))
      in if msg_len < 44 then bad BR_ERR_BAD_PARAM
         else if byte_at msg 0 \<noteq> TLS13_HT_SERVER_HELLO then bad BR_ERR_UNEXPECTED
         else let hs_msg_len = unat (get_u24 msg 1)
              in if msg_len < hs_msg_len + 4 then bad BR_ERR_BAD_PARAM
         else if get_u16 msg 4 \<noteq> TLS12_VERSION then bad BR_ERR_BAD_VERSION
         else let is_hrr = (rd msg 6 32 = hrr_random);
                  session_id_len = unat (byte_at msg 38);
                  pos = 39
              in if msg_len < pos + session_id_len then bad BR_ERR_BAD_PARAM
         else let pos = pos + session_id_len
              in if msg_len < pos + 2 then bad BR_ERR_BAD_PARAM
         else let suite = get_u16 msg pos; pos = pos + 2
              in if msg_len \<le> pos \<or> byte_at msg pos \<noteq> 0 then bad BR_ERR_BAD_PARAM
         else let pos = pos + 1
              in if msg_len < pos + 2 then (hs, Stop kTLS13_Fallback12)
         else let ext_total_len = unat (get_u16 msg pos); pos = pos + 2; ext_end = pos + ext_total_len
              in if msg_len < ext_end then bad BR_ERR_BAD_PARAM
         else sh_extensions hs
                \<lparr>sh_suite = suite, sh_is_hrr = is_hrr, sh_msg_len = hs_msg_len,
                 found_supported_versions = False, negotiated_version = 0,
                 found_key_share = False, server_share_group = 0, server_public = []\<rparr>
                msg pos ext_end)"

section \<open>Key exchange\<close>

definition tls13_ecdh_shared :: "'x prims \<Rightarrow> u16 \<Rightarrow> bytes \<Rightarrow> bytes \<Rightarrow> bytes option" where
  "tls13_ecdh_shared P grp priv peer_pub =
     (let curve = tls13_br_curve_for_group grp; flen = tls13_ecdh_secret_len grp
      in if curve = 0 \<or> flen = 0 \<or> peer_pub = [] \<or> 133 < length peer_pub then None
         else case p_ec_mul P curve peer_pub priv of
             None \<Rightarrow> None
           | Some point \<Rightarrow>
               if grp = TLS13_GROUP_X25519 then Some (rd point 0 flen)
               else if length peer_pub < 1 + flen then None
               else Some (rd point 1 flen))"

text \<open>Early Secret (from the PSK when the server took it), Handshake Secret, and the record keys
  of both directions.\<close>

definition sh_install_keys :: "'x hs_ctx \<Rightarrow> u16 \<Rightarrow> bytes \<Rightarrow> 'x hs_ctx" where
  "sh_install_keys hs suite shared_secret =
     (let ks = tls13_ks_init (hs_ks hs) (t_hash (hs_transcript hs));
          ks = (case offer_ticket hs of
                  Some tk \<Rightarrow> if resumption_accepted hs
                             then tls13_ks_extract_early_psk ks (rd (tk_psk tk) 0 (tk_psk_len tk))
                             else tls13_ks_extract_early ks
                | None \<Rightarrow> tls13_ks_extract_early ks);
          ks = tls13_ks_extract_handshake ks shared_secret;
          transcript_hash = tls13_transcript_snapshot (hs_transcript hs);
          key_len = tls13_key_len_for_suite suite;
          k = tls13_ks_derive_handshake_keys ks transcript_hash key_len
      in hs\<lparr>hs_ks := ks,
            client_hs_secret := wr (client_hs_secret hs) 0 (client_secret k),
            server_hs_secret := wr (server_hs_secret hs) 0 (server_secret k),
            hs_read_ctx := tls13_record_init (hs_read_ctx hs) (server_key k) (server_iv k) suite,
            hs_write_ctx := tls13_record_init (hs_write_ctx hs) (client_key k) (client_iv k) suite\<rparr>)"

definition sh_retry :: "'x hs_ctx \<Rightarrow> sh_info \<Rightarrow> bytes \<Rightarrow> 'x hs_ctx \<times> tls13_hs_result" where
  "sh_retry hs sh msg =
     (if hrr_received hs then (hs_fail_at BR_ERR_UNEXPECTED TLS13_FAIL_HRR_DOUBLE hs, kTLS13_Error)
      else let hs = hs\<lparr>hrr_received := True\<rparr>
           in if tls13_br_curve_for_group (server_share_group sh) = 0
              then (hs_fail_at BR_ERR_BAD_PARAM TLS13_FAIL_HRR_GROUP_UNSUPP hs, kTLS13_Error)
              else (hs\<lparr>hrr_group := server_share_group sh, hrr_pending := True,
                       hs_transcript := tls13_transcript_update (tls13_transcript_reset_for_hrr (hs_transcript hs))
                                          (rd msg 0 (sh_msg_len sh + 4))\<rparr>, kTLS13_WantRead))"

definition sh_regular :: "'x prims \<Rightarrow> 'x hs_ctx \<Rightarrow> sh_info \<Rightarrow> bytes \<Rightarrow> 'x hs_ctx \<times> tls13_hs_result" where
  "sh_regular P hs sh msg =
     (if \<not> found_key_share sh then (hs_fail_at BR_ERR_BAD_PARAM TLS13_FAIL_SH_NO_KEYSHARE hs, kTLS13_Error)
      else if tls13_hash_for_suite (sh_suite sh) \<noteq> t_hash (hs_transcript hs)
      then (hs_fail_at BR_ERR_BAD_CIPHER_SUITE TLS13_FAIL_SH_HASH_MISMATCH hs, kTLS13_Error)
      else let hs = hs\<lparr>hs_transcript := tls13_transcript_update (hs_transcript hs) (rd msg 0 (sh_msg_len sh + 4))\<rparr>
           in if server_share_group sh \<noteq> ecdhe_group hs
              then (hs_fail_at BR_ERR_BAD_PARAM TLS13_FAIL_SH_GROUP_MISMATCH hs, kTLS13_Error)
              else case tls13_ecdh_shared P (ecdhe_group hs) (rd (ecdhe_secret hs) 0 (ecdhe_secret_len hs))
                          (server_public sh) of
                  None \<Rightarrow> (hs_fail_at BR_ERR_BAD_PARAM TLS13_FAIL_ECDH_COMPUTE hs, kTLS13_Error)
                | Some shared_secret \<Rightarrow>
                    ((sh_install_keys hs (sh_suite sh) shared_secret)\<lparr>ecdhe_secret := replicate 64 0\<rparr>, kTLS13_OK))"

definition sh_finish :: "'x prims \<Rightarrow> 'x hs_ctx \<Rightarrow> sh_info \<Rightarrow> bytes \<Rightarrow> 'x hs_ctx \<times> tls13_hs_result" where
  "sh_finish P hs sh msg =
     (if \<not> found_supported_versions sh \<or> negotiated_version sh = TLS12_VERSION then (hs, kTLS13_Fallback12)
      else if negotiated_version sh \<noteq> TLS13_VERSION then (hs_fail BR_ERR_BAD_VERSION hs, kTLS13_Error)
      else let hs = hs\<lparr>hs_cipher_suite := sh_suite sh, is_tls13 := True\<rparr>
           in if tls13_key_len_for_suite (sh_suite sh) = 0
              then (hs_fail BR_ERR_BAD_CIPHER_SUITE hs, kTLS13_Error)
              else if sh_is_hrr sh then sh_retry hs sh msg
              else sh_regular P hs sh msg)"

definition tls13_parse_server_hello :: "'x prims \<Rightarrow> 'x hs_ctx \<Rightarrow> bytes \<Rightarrow> 'x hs_ctx \<times> tls13_hs_result" where
  "tls13_parse_server_hello P hs msg =
     (case sh_parse hs msg of
        (hs, Stop r) \<Rightarrow> (hs, r)
      | (hs, Go sh) \<Rightarrow> sh_finish P hs sh msg)"

section \<open>The RecvServerHello state\<close>

text \<open>The receive buffer is the list of its unconsumed bytes; consuming a record (the C
  \<open>memmove\<close>) drops it from the front.\<close>

definition tls13_state_recv_server_hello ::
  "'x prims \<Rightarrow> 'x hs_ctx \<Rightarrow> bytes \<Rightarrow> 'x hs_ctx \<times> bytes \<times> tls13_hs_result" where
  "tls13_state_recv_server_hello P hs recv =
     (if length recv < 5 then (hs, recv, kTLS13_WantRead)
      else let record_type = byte_at recv 0;
               record_len = unat (get_u16 recv 3);
               total = 5 + record_len
           in if length recv < total then (hs, recv, kTLS13_WantRead)
              else if record_type = TLS13_CT_CHANGE_CIPHER_SPEC then (hs, drop total recv, kTLS13_WantRead)
              else if record_type = TLS13_CT_ALERT
              then (hs_fail (if 2 \<le> record_len
                             then 0x10000 + 256 * uint (byte_at recv 5) + uint (byte_at recv 6)
                             else 0x1F000 + int record_len) hs,
                    drop total recv, kTLS13_Fallback12)
              else if record_type \<noteq> TLS13_CT_HANDSHAKE
              then (hs_fail (0x2000 + uint record_type) hs, recv, kTLS13_Error)
              else let (hs, r) = tls13_parse_server_hello P hs (rd recv 5 record_len)
                   in (hs, drop total recv, r))"

section \<open>Two corners\<close>

lemma key_share_length_three:
  "sh_extension hs sh msg TLS13_EXT_KEY_SHARE d 3 = (hs_fail BR_ERR_BAD_PARAM hs, Stop kTLS13_Error)"
  by (simp add: sh_extension_def ext_defs Let_def)

lemma retry_without_group:
  "server_share_group sh = 0 \<Longrightarrow> snd (sh_retry hs sh msg) = kTLS13_Error"
  by (simp add: sh_retry_def tls13_br_curve_for_group_def group_defs)

end
