(* ===== verification/Cert_Chain.thy ===== *)
theory Cert_Chain
  imports Handshake_State "HOL-Library.Monad_Syntax"
begin

text \<open>
  The certificate list of os9/ostls_tls13_handshake.c: the DER reader (\<open>ostls_der_tlv\<close>,
  \<open>ostls_cert_dns\<close>) and the three passes of \<open>tls13_state_recv_certificate\<close> over the list: framing
  (\<open>collect_certs\<close>), reordering leaf-first along issuer names (\<open>chain_order\<close>) and feeding the
  X.509 engine (\<open>feed_certs\<close>).

  Pointers into the message buffer are offsets into the byte list that holds it; a range is an
  offset and a length.

  Proved: the reader never leaves its range, collected certificates lie inside the list, the
  order is a duplicate-free list of certificate indices that starts at the leaf and links each
  certificate's issuer to the next one's subject, and the passes terminate.
\<close>

unbundle bit_operations_syntax

definition OSTLS_MAX_CHAIN :: nat where "OSTLS_MAX_CHAIN = 12"

section \<open>DER\<close>

text \<open>\<open>ostls_der_tlv b p e\<close> reads a TLV at offset \<open>p\<close> with the range ending at \<open>e\<close>; the result
  is the tag, the value's offset and length, and the bytes consumed (0 in C for an error).\<close>

definition ostls_der_tlv :: "bytes \<Rightarrow> nat \<Rightarrow> nat \<Rightarrow> (byte \<times> nat \<times> nat \<times> nat) option" where
  "ostls_der_tlv b p e =
     (if e < p + 2 then None
      else let tag = byte_at b p; l0 = byte_at b (p + 1)
           in let hl = (if l0 < 0x80 then Some (2, ucast l0 :: u32)
                        else let nb = unat (l0 AND 0x7F)
                             in if nb = 0 \<or> 4 < nb \<or> e < p + 2 + nb then None
                                else Some (2 + nb, fold (\<lambda>i len. push_bit 8 len OR ucast (byte_at b (p + 2 + i))) [0..<nb] 0))
              in case hl of None \<Rightarrow> None
                 | Some (hdr, len) \<Rightarrow>
                     if e - (p + hdr) < unat len then None
                     else Some (tag, p + hdr, unat len, hdr + unat len))"

text \<open>The steps of \<open>ostls_cert_dns\<close>: enter a SEQUENCE, skip an element, capture a Name; then
  the issuer and subject ranges of the certificate at \<open>[c, c + clen)\<close>.\<close>

definition der_enter :: "bytes \<Rightarrow> nat \<Rightarrow> nat \<Rightarrow> (nat \<times> nat) option" where
  "der_enter b p e = do {
     (tag, val, vlen, used) \<leftarrow> ostls_der_tlv b p e;
     if tag \<noteq> 0x30 then None else Some (val, vlen)
   }"

definition der_skip :: "bytes \<Rightarrow> nat \<Rightarrow> nat \<Rightarrow> nat option" where
  "der_skip b e p = do { (tag, val, vlen, used) \<leftarrow> ostls_der_tlv b p e; Some (p + used) }"

definition der_name :: "bytes \<Rightarrow> nat \<Rightarrow> nat \<Rightarrow> (nat \<times> nat) option" where
  "der_name b e p = do {
     (tag, val, vlen, used) \<leftarrow> ostls_der_tlv b p e;
     if tag \<noteq> 0x30 then None else Some (p, used)
   }"

definition ostls_cert_dns :: "bytes \<Rightarrow> nat \<Rightarrow> nat \<Rightarrow> ((nat \<times> nat) \<times> (nat \<times> nat)) option" where
  "ostls_cert_dns b c clen = do {
     (val, vlen) \<leftarrow> der_enter b c (c + clen);
     (tbs, tbs_len) \<leftarrow> der_enter b val (val + vlen);
     let tbs_end = tbs + tbs_len;
     p \<leftarrow> (if tbs < tbs_end \<and> byte_at b tbs = 0xA0 then der_skip b tbs_end tbs else Some tbs);
     p \<leftarrow> der_skip b tbs_end p;
     p \<leftarrow> der_skip b tbs_end p;
     (iss, ilen) \<leftarrow> der_name b tbs_end p;
     p \<leftarrow> der_skip b tbs_end (iss + ilen);
     (sub, slen) \<leftarrow> der_name b tbs_end p;
     Some ((iss, ilen), (sub, slen))
   }"

lemma der_tlv_range:
  assumes "ostls_der_tlv b p e = Some (tag, v, vlen, used)"
  shows "p + 2 \<le> v" "v + vlen \<le> e" "used = v + vlen - p" "2 \<le> used" "tag = byte_at b p" "p + used = v + vlen"
proof -
  obtain hdr len where h: "2 \<le> hdr" "p + hdr \<le> e" "v = p + hdr" "vlen = unat (len :: u32)" "used = hdr + unat len"
    "unat len \<le> e - (p + hdr)" "tag = byte_at b p"
    using assms
    by (auto simp: ostls_der_tlv_def Let_def not_less split: if_splits option.splits)
  then show "p + 2 \<le> v" "v + vlen \<le> e" "used = v + vlen - p" "2 \<le> used" "tag = byte_at b p" "p + used = v + vlen"
    by simp_all
qed

lemma der_tlv_inside:
  "ostls_der_tlv b p e = Some (tag, v, vlen, used) \<Longrightarrow>
   p + 2 \<le> v \<and> v + vlen \<le> e \<and> p + used = v + vlen \<and> 2 \<le> used \<and> tag = byte_at b p"
  using der_tlv_range [of b p e tag v vlen used] by simp

lemma der_step_ranges:
  "der_enter b p e = Some (v, n) \<Longrightarrow> p + 2 \<le> v \<and> v + n \<le> e"
  "der_skip b e p = Some q \<Longrightarrow> p + 2 \<le> q \<and> q \<le> e"
  "der_name b e p = Some (v, n) \<Longrightarrow> v = p \<and> 2 \<le> n \<and> v + n \<le> e \<and> byte_at b v = 0x30"
  by (auto simp: der_enter_def der_skip_def der_name_def bind_eq_Some_conv split: if_splits
      dest!: der_tlv_inside)

lemma cert_dns_range:
  assumes "ostls_cert_dns b c clen = Some ((iss, ilen), (sub, slen))"
  shows "c < iss \<and> iss + ilen \<le> sub \<and> sub + slen \<le> c + clen \<and> 2 \<le> ilen \<and> 2 \<le> slen
     \<and> byte_at b iss = 0x30 \<and> byte_at b sub = 0x30"
proof -
  obtain val vlen tbs n p0 p1 p2 p3 where
    s: "der_enter b c (c + clen) = Some (val, vlen)" "der_enter b val (val + vlen) = Some (tbs, n)"
    "(if tbs < tbs + n \<and> byte_at b tbs = 0xA0 then der_skip b (tbs + n) tbs else Some tbs) = Some p0"
    "der_skip b (tbs + n) p0 = Some p1" "der_skip b (tbs + n) p1 = Some p2"
    "der_name b (tbs + n) p2 = Some (iss, ilen)" "der_skip b (tbs + n) (iss + ilen) = Some p3"
    "der_name b (tbs + n) p3 = Some (sub, slen)"
    using assms unfolding ostls_cert_dns_def Let_def bind_eq_Some_conv by (auto simp: bind_eq_Some_conv)
  have "tbs \<le> p0" using s(3) der_step_ranges(2) [of b "tbs + n" tbs p0] by (auto split: if_splits)
  then show ?thesis
    using der_step_ranges(1) [OF s(1)] der_step_ranges(1) [OF s(2)] der_step_ranges(2) [OF s(4)]
      der_step_ranges(2) [OF s(5)] der_step_ranges(3) [OF s(6)] der_step_ranges(2) [OF s(7)]
      der_step_ranges(3) [OF s(8)]
    by linarith
qed

section \<open>Framing\<close>

text \<open>Pass 1. \<open>certs\<close> is what \<open>cert_ptr\<close> and \<open>cert_len\<close> hold so far; a certificate past the
  twelfth is framed but not kept. The skip over the extensions is not checked against the end of
  the list.\<close>

function collect_certs :: "bytes \<Rightarrow> nat \<Rightarrow> nat \<Rightarrow> (nat \<times> nat) list \<Rightarrow> (nat \<times> nat) list option" where
  "collect_certs b pos list_end certs =
     (if list_end \<le> pos then Some certs
      else if list_end < pos + 3 then None
      else let cert_data_len = unat (get_u24 b pos); pos = pos + 3
           in if list_end < pos + cert_data_len then None
              else let certs = (if length certs < OSTLS_MAX_CHAIN then certs @ [(pos, cert_data_len)] else certs);
                       pos = pos + cert_data_len
                   in if list_end < pos + 2 then None
                      else collect_certs b (pos + 2 + unat (get_u16 b pos)) list_end certs)"
  by pat_completeness auto
termination
  by (relation "measure (\<lambda>(b, pos, list_end, certs). list_end - pos)") auto

declare collect_certs.simps [simp del]

lemma collect_certs_range:
  assumes "collect_certs b pos list_end certs = Some certs'"
    and "\<forall>(o', l)\<in>set certs. p0 \<le> o' \<and> o' + l \<le> list_end" "length certs \<le> OSTLS_MAX_CHAIN" "p0 \<le> pos"
  shows "(\<forall>(o', l)\<in>set certs'. p0 \<le> o' \<and> o' + l \<le> list_end) \<and> length certs' \<le> OSTLS_MAX_CHAIN"
  using assms
proof (induction b pos list_end certs rule: collect_certs.induct)
  case (1 b pos list_end certs)
  show ?case
  proof (cases "list_end \<le> pos")
    case True
    with "1.prems" show ?thesis by (simp add: collect_certs.simps)
  next
    case False
    let ?l = "unat (get_u24 b pos)"
    let ?c = "if length certs < OSTLS_MAX_CHAIN then certs @ [(pos + 3, ?l)] else certs"
    from "1.prems"(1) False have h: "\<not> list_end < pos + 3" "\<not> list_end < pos + 3 + ?l"
      "\<not> list_end < pos + 3 + ?l + 2"
      "collect_certs b (pos + 3 + ?l + 2 + unat (get_u16 b (pos + 3 + ?l))) list_end ?c = Some certs'"
      by (subst (asm) collect_certs.simps, simp add: Let_def split: if_splits)+
    show ?thesis
      by (rule "1.IH" [OF False h(1) refl refl h(2) refl refl h(3) h(4)]) (use "1.prems" h in auto)
  qed
qed

section \<open>Ordering\<close>

text \<open>The first certificate not yet used whose subject is the given issuer name.\<close>

definition subject_matches :: "bytes \<Rightarrow> (nat \<times> nat) list \<Rightarrow> nat \<times> nat \<Rightarrow> nat \<Rightarrow> bool" where
  "subject_matches b certs iss j =
     (case ostls_cert_dns b (fst (certs ! j)) (snd (certs ! j)) of
        None \<Rightarrow> False
      | Some (_, (sub, slen)) \<Rightarrow> slen = snd iss \<and> rd b sub slen = rd b (fst iss) slen)"

definition find_issuer :: "bytes \<Rightarrow> (nat \<times> nat) list \<Rightarrow> nat list \<Rightarrow> nat \<times> nat \<Rightarrow> nat option" where
  "find_issuer b certs order iss =
     find (\<lambda>j. j \<notin> set order \<and> subject_matches b certs iss j) [0..<length certs]"

text \<open>Pass 2. The list is \<open>order[0..n_order)\<close>, its members the used flags; the flag is
  \<open>use_ordered\<close> at the end of the loop.\<close>

function chain_order :: "bytes \<Rightarrow> (nat \<times> nat) list \<Rightarrow> nat list \<Rightarrow> nat list \<times> bool" where
  "chain_order b certs order =
     (let cur = last order
      in case ostls_cert_dns b (fst (certs ! cur)) (snd (certs ! cur)) of
           None \<Rightarrow> (order, False)
         | Some (iss, _) \<Rightarrow>
             (case find_issuer b certs order iss of
                None \<Rightarrow> (order, True)
              | Some found \<Rightarrow>
                  if length certs \<le> length order + 1 then (order @ [found], True)
                  else chain_order b certs (order @ [found])))"
  by pat_completeness auto
termination
  by (relation "measure (\<lambda>(b, certs, order). length certs - length order)") auto

declare chain_order.simps [simp del]

text \<open>The indices fed to the validator: the ordered list, or wire order.\<close>

definition feed_order :: "bytes \<Rightarrow> (nat \<times> nat) list \<Rightarrow> nat list" where
  "feed_order b certs =
     (let (order, use_ordered) = chain_order b certs [0];
          use_ordered = (if length order = 1 \<and> 1 < length certs then False else use_ordered)
      in if use_ordered then order else [0..<length certs])"

definition feed_certs :: "'x prims \<Rightarrow> bytes \<Rightarrow> (nat \<times> nat) list \<Rightarrow> nat list \<Rightarrow> 'x \<Rightarrow> 'x" where
  "feed_certs P b certs idx xc =
     fold (\<lambda>k xc. let (off, len) = certs ! k
                  in p_end_cert P (p_append P (p_start_cert P xc len) (rd b off len))) idx xc"

text \<open>What an ordered chain is: distinct indices from the leaf on, each certificate's issuer the
  next one's subject.\<close>

definition issuer_of :: "bytes \<Rightarrow> (nat \<times> nat) list \<Rightarrow> nat \<Rightarrow> bytes option" where
  "issuer_of b certs i =
     map_option (\<lambda>((iss, ilen), _). rd b iss ilen) (ostls_cert_dns b (fst (certs ! i)) (snd (certs ! i)))"

definition subject_of :: "bytes \<Rightarrow> (nat \<times> nat) list \<Rightarrow> nat \<Rightarrow> bytes option" where
  "subject_of b certs i =
     map_option (\<lambda>(_, (sub, slen)). rd b sub slen) (ostls_cert_dns b (fst (certs ! i)) (snd (certs ! i)))"

definition linked_chain :: "bytes \<Rightarrow> (nat \<times> nat) list \<Rightarrow> nat list \<Rightarrow> bool" where
  "linked_chain b certs order \<longleftrightarrow> order \<noteq> [] \<and> hd order = 0 \<and> distinct order
     \<and> (\<forall>i\<in>set order. i < length certs)
     \<and> (\<forall>k. Suc k < length order \<longrightarrow>
          (\<exists>name. issuer_of b certs (order ! k) = Some name \<and> subject_of b certs (order ! Suc k) = Some name))"

lemma find_issuer_Some:
  assumes "find_issuer b certs order iss = Some j"
  shows "j < length certs" "j \<notin> set order" "subject_of b certs j = Some (rd b (fst iss) (snd iss))"
proof -
  have f: "j < length certs \<and> j \<notin> set order \<and> subject_matches b certs iss j"
    using assms by (auto simp: find_issuer_def find_Some_iff)
  then show "j < length certs" "j \<notin> set order" by simp_all
  obtain x sub slen where "ostls_cert_dns b (fst (certs ! j)) (snd (certs ! j)) = Some (x, (sub, slen))"
    "slen = snd iss" "rd b sub slen = rd b (fst iss) slen"
    using f by (auto simp: subject_matches_def split: option.splits)
  then show "subject_of b certs j = Some (rd b (fst iss) (snd iss))"
    by (simp add: subject_of_def)
qed

lemma linked_chain_snoc:
  assumes "linked_chain b certs order" "find_issuer b certs order iss = Some j"
    "ostls_cert_dns b (fst (certs ! last order)) (snd (certs ! last order)) = Some (iss, sub)"
  shows "linked_chain b certs (order @ [j])"
proof -
  have i: "issuer_of b certs (last order) = Some (rd b (fst iss) (snd iss))"
    using assms(3) by (simp add: issuer_of_def split: prod.splits)
  note j = find_issuer_Some [OF assms(2)]
  have ne: "order \<noteq> []" using assms(1) by (simp add: linked_chain_def)
  have link: "\<exists>name. issuer_of b certs ((order @ [j]) ! k) = Some name
      \<and> subject_of b certs ((order @ [j]) ! Suc k) = Some name" if k: "Suc k < length (order @ [j])" for k
  proof (cases "Suc k < length order")
    case True
    then show ?thesis using assms(1) by (simp add: linked_chain_def nth_append)
  next
    case False
    with k have kk: "k = length order - 1" "Suc k = length order" by auto
    then have "(order @ [j]) ! k = last order" using ne by (simp add: nth_append last_conv_nth)
    moreover have "(order @ [j]) ! Suc k = j" using kk by (simp add: nth_append)
    ultimately show ?thesis using i j by simp
  qed
  moreover have "hd (order @ [j]) = 0" "distinct (order @ [j])" "\<forall>i\<in>set (order @ [j]). i < length certs"
    using assms(1) j ne by (auto simp: linked_chain_def)
  ultimately show ?thesis unfolding linked_chain_def by blast
qed

lemma chain_order_linked:
  "linked_chain b certs order \<Longrightarrow> linked_chain b certs (fst (chain_order b certs order))"
proof (induction b certs order rule: chain_order.induct)
  case (1 b certs order)
  show ?case
    using 1 linked_chain_snoc [OF "1.prems"]
    by (subst chain_order.simps) (auto simp: Let_def split: option.split prod.split)
qed

lemma feed_order_cases:
  assumes "certs \<noteq> []"
  shows "feed_order b certs = [0..<length certs] \<or> linked_chain b certs (feed_order b certs)"
proof -
  have "linked_chain b certs [0]" using assms by (simp add: linked_chain_def)
  from chain_order_linked [OF this] show ?thesis
    by (auto simp: feed_order_def Let_def split: prod.splits)
qed

section \<open>Properties\<close>

text \<open>For any bytes, the issuer and subject names that the DER walk finds lie in the
  certificate, one after the other, and each is a SEQUENCE; reading them stays inside the
  buffer.\<close>

lemma certificate_names_in_range:
  assumes "ostls_cert_dns b c clen = Some ((iss, ilen), (sub, slen))"
  shows "c < iss \<and> iss + ilen \<le> sub \<and> sub + slen \<le> c + clen \<and> 2 \<le> ilen \<and> 2 \<le> slen
     \<and> byte_at b iss = 0x30 \<and> byte_at b sub = 0x30"
  using assms by (rule cert_dns_range)

lemma certificate_names_in_range_witness:
  "\<exists>iss ilen sub slen. ostls_cert_dns
      [0x30, 16, 0x30, 14, 2, 1, 5, 0x30, 0, 0x30, 1, 7, 0x30, 0, 0x30, 2, 8, 9] 0 18 = Some ((iss, ilen), (sub, slen))
     \<and> sub + slen \<le> 18"
proof -
  have e: "ostls_cert_dns [0x30, 16, 0x30, 14, 2, 1, 5, 0x30, 0, 0x30, 1, 7, 0x30, 0, 0x30, 2, 8, 9] 0 18
      = Some ((9, 3), (14, 4))"
    by code_simp
  from certificate_names_in_range [OF e] e show ?thesis by auto
qed

text \<open>C32: the certificate ranges collected from a Certificate message lie between the start of the
  list and its end, and there are at most twelve.\<close>

theorem certificate_list_in_range:
  assumes "collect_certs b pos list_end [] = Some certs"
  shows "(\<forall>(off, len) \<in> set certs. pos \<le> off \<and> off + len \<le> list_end) \<and> length certs \<le> OSTLS_MAX_CHAIN"
  using collect_certs_range [OF assms, of pos] by (simp add: OSTLS_MAX_CHAIN_def)

theorem certificate_list_in_range_witness:
  "\<exists>certs. collect_certs [0, 0, 2, 7, 8, 0, 0] 0 7 [] = Some certs \<and> length certs \<le> OSTLS_MAX_CHAIN"
proof -
  have e: "collect_certs [0, 0, 2, 7, 8, 0, 0] 0 7 [] = Some [(3, 2)]" by code_simp
  from certificate_list_in_range [OF e] e show ?thesis by auto
qed

text \<open>C33: the certificates are fed to the X.509 engine either in the order received or as a chain
  that starts at the server's own certificate and in which the subject of each next certificate
  is the issuer of the one before.\<close>

theorem chain_is_linked:
  assumes "certs \<noteq> []"
  shows "feed_order b certs = [0..<length certs] \<or> linked_chain b certs (feed_order b certs)"
  using assms by (rule feed_order_cases)

theorem chain_is_linked_witness:
  "feed_order [] [(0, 0)] = [0..<1] \<or> linked_chain [] [(0, 0)] (feed_order [] [(0, 0)])"
  using chain_is_linked [of "[(0, 0)]" "[]"] by simp

end
