(* ===== verification/Handshake.thy ===== *)
theory Handshake
  imports Server_Hello Cert_Chain
begin

text \<open>
  The encrypted part of the handshake and its driver, os9/ostls_tls13_handshake.c: reassembly of
  handshake messages from records (\<open>tls13_read_encrypted_hs\<close>), the states from
  EncryptedExtensions to the client's Finished, and \<open>tls13_handshake_step\<close>.

  A state handler takes the context and the receive buffer (its unconsumed bytes) and returns
  both with a result, as the C functions do through their pointers. Wiping stack copies of keys
  has no counterpart; wiping context fields does.
\<close>

unbundle bit_operations_syntax

section \<open>Reassembly of handshake messages\<close>

text \<open>The extraction block: a complete message is copied to \<open>msg_buf\<close>; an incomplete one is
  moved to the front of \<open>plain_buf\<close>.\<close>

definition rh_extract :: "'x hs_ctx \<Rightarrow> 'x hs_ctx \<times> nat option step" where
  "rh_extract hs =
     (if plain_len hs \<le> plain_offset hs then (hs, Go None)
      else let off = plain_offset hs;
               remaining = plain_len hs - off;
               compact = hs\<lparr>plain_buf := (if 0 < off then wr (plain_buf hs) 0 (rd (plain_buf hs) off remaining)
                                          else plain_buf hs),
                            plain_len := remaining, plain_offset := 0\<rparr>
           in if remaining < 4 then (compact, Go None)
              else let total_hs = 4 + unat (get_u24 (plain_buf hs) (off + 1))
                   in if HS_BUF < total_hs then (hs_fail BR_ERR_BAD_PARAM hs, Stop kTLS13_Error)
                      else if total_hs \<le> remaining
                      then let hs = hs\<lparr>msg_buf := wr (msg_buf hs) 0 (rd (plain_buf hs) off total_hs),
                                       plain_offset := off + total_hs\<rparr>;
                               hs = (if plain_len hs \<le> plain_offset hs
                                     then hs\<lparr>plain_len := 0, plain_offset := 0\<rparr> else hs)
                           in (hs, Go (Some total_hs))
                      else (compact, Go None))"

text \<open>The result carries \<open>out_hs_type\<close> and \<open>out_len\<close>, meaningful with \<open>kTLS13_OK\<close>.\<close>

function tls13_read_encrypted_hs ::
  "'x hs_ctx \<Rightarrow> bytes \<Rightarrow> 'x hs_ctx \<times> bytes \<times> tls13_hs_result \<times> byte \<times> nat" where
  "tls13_read_encrypted_hs hs0 recv =
     (case rh_extract hs0 of
        (hs, Stop r) \<Rightarrow> (hs, recv, r, 0, 0)
      | (hs, Go (Some n)) \<Rightarrow> (hs, recv, kTLS13_OK, byte_at (msg_buf hs) 0, n)
      | (hs, Go None) \<Rightarrow>
          if length recv < 5 then (hs, recv, kTLS13_WantRead, 0, 0)
          else let record_type = byte_at recv 0;
                   record_len = unat (get_u16 recv 3);
                   total = 5 + record_len
               in if length recv < total then (hs, recv, kTLS13_WantRead, 0, 0)
                  else if HS_BUF < record_len then (hs_fail BR_ERR_BAD_PARAM hs, recv, kTLS13_Error, 0, 0)
                  else if record_type = TLS13_CT_CHANGE_CIPHER_SPEC
                  then tls13_read_encrypted_hs hs (drop total recv)
                  else if record_type \<noteq> TLS13_CT_APPLICATION_DATA
                  then (hs_fail BR_ERR_UNEXPECTED hs, recv, kTLS13_Error, 0, 0)
                  else if HS_BUF < plain_len hs + record_len
                  then (hs_fail BR_ERR_BAD_PARAM hs, recv, kTLS13_Error, 0, 0)
                  else case tls13_record_decrypt (hs_read_ctx hs) (rd recv 5 record_len) of
                      (ctx, buf, None) \<Rightarrow>
                        (hs_fail BR_ERR_BAD_MAC (hs\<lparr>hs_read_ctx := ctx, plain_buf := wr (plain_buf hs) (plain_len hs) buf\<rparr>),
                         recv, kTLS13_Error, 0, 0)
                    | (ctx, buf, Some (pt_len, inner_ct)) \<Rightarrow>
                        let hs = hs\<lparr>hs_read_ctx := ctx, plain_buf := wr (plain_buf hs) (plain_len hs) buf,
                                    plain_len := plain_len hs + pt_len\<rparr>
                        in if inner_ct \<noteq> TLS13_CT_HANDSHAKE
                           then (hs_fail BR_ERR_UNEXPECTED hs, drop total recv, kTLS13_Error, 0, 0)
                           else tls13_read_encrypted_hs hs (drop total recv))"
  by pat_completeness auto
termination
  by (relation "measure (\<lambda>(hs, recv). length recv)") auto

declare tls13_read_encrypted_hs.simps [simp del]

section \<open>EncryptedExtensions, CertificateRequest, Certificate\<close>

definition tls13_state_recv_encrypted_extensions ::
  "'x hs_ctx \<Rightarrow> bytes \<Rightarrow> 'x hs_ctx \<times> bytes \<times> tls13_hs_result" where
  "tls13_state_recv_encrypted_extensions hs recv =
     (let (hs, recv, r, hs_type, mlen) = tls13_read_encrypted_hs hs recv
      in if r \<noteq> kTLS13_OK then (hs, recv, r)
         else if hs_type \<noteq> TLS13_HT_ENCRYPTED_EXTENSIONS then (hs_fail BR_ERR_UNEXPECTED hs, recv, kTLS13_Error)
         else let body_len = unat (get_u24 (msg_buf hs) 1)
              in if mlen < 4 + body_len then (hs_fail BR_ERR_BAD_PARAM hs, recv, kTLS13_Error)
                 else if 2 \<le> body_len \<and> body_len < unat (get_u16 (msg_buf hs) 4) + 2
                 then (hs_fail BR_ERR_BAD_PARAM hs, recv, kTLS13_Error)
                 else (hs\<lparr>hs_transcript := tls13_transcript_update (hs_transcript hs) (rd (msg_buf hs) 0 (4 + body_len)),
                          hs_state := (if resumption_accepted hs then kTLS13_RecvFinished
                                       else kTLS13_RecvCertRequestOrCert)\<rparr>, recv, kTLS13_OK))"

definition tls13_state_recv_cert_request_or_cert ::
  "'x hs_ctx \<Rightarrow> bytes \<Rightarrow> 'x hs_ctx \<times> bytes \<times> tls13_hs_result" where
  "tls13_state_recv_cert_request_or_cert hs recv =
     (let (hs, recv, r, hs_type, mlen) = tls13_read_encrypted_hs hs recv
      in if r \<noteq> kTLS13_OK then (hs, recv, r)
         else if hs_type = TLS13_HT_CERTIFICATE_REQUEST
         then let body_len = unat (get_u24 (msg_buf hs) 1)
              in if mlen < 4 + body_len then (hs_fail BR_ERR_BAD_PARAM hs, recv, kTLS13_Error)
                 else (hs\<lparr>cert_request_received := True,
                          hs_transcript := tls13_transcript_update (hs_transcript hs) (rd (msg_buf hs) 0 (4 + body_len)),
                          hs_state := kTLS13_RecvCertificate\<rparr>, recv, kTLS13_OK)
         else if hs_type = TLS13_HT_CERTIFICATE
         then (hs\<lparr>pending_recv_msg_len := mlen, hs_state := kTLS13_RecvCertificate\<rparr>, recv, kTLS13_OK)
         else (hs_fail BR_ERR_UNEXPECTED hs, recv, kTLS13_Error))"

text \<open>The Certificate message in \<open>msg_buf\<close>: its framing yields the certificate ranges.\<close>

definition cert_msg_parse :: "'x hs_ctx \<Rightarrow> byte \<Rightarrow> nat \<Rightarrow> (int, (nat \<times> nat) list) sum" where
  "cert_msg_parse hs hs_type mlen =
     (let b = msg_buf hs
      in if hs_type \<noteq> TLS13_HT_CERTIFICATE then Inl BR_ERR_UNEXPECTED
         else let body_len = unat (get_u24 b 1)
              in if mlen < 4 + body_len then Inl BR_ERR_BAD_PARAM
                 else if 4 + body_len \<le> 4 then Inl BR_ERR_BAD_PARAM
                 else let pos = 4 + 1 + unat (byte_at b 4)
                      in if 4 + body_len < pos + 3 then Inl BR_ERR_BAD_PARAM
                         else let cert_list_len = unat (get_u24 b pos); pos = pos + 3;
                                  cert_list_end = pos + cert_list_len
                              in if 4 + body_len < cert_list_end then Inl BR_ERR_BAD_PARAM
                                 else if cert_list_len = 0 then Inl BR_ERR_X509_NOT_TRUSTED
                                 else case collect_certs b pos cert_list_end [] of
                                     None \<Rightarrow> Inl BR_ERR_BAD_PARAM
                                   | Some certs \<Rightarrow>
                                       if certs = [] then Inl BR_ERR_X509_NOT_TRUSTED else Inr certs)"

text \<open>Feeding the chain, its verdict, the key.\<close>

definition cert_validate :: "'x prims \<Rightarrow> 'x hs_ctx \<Rightarrow> bytes \<Rightarrow> (nat \<times> nat) list \<Rightarrow> 'x hs_ctx \<times> bool" where
  "cert_validate P hs hostname certs =
     (let b = msg_buf hs;
          xc = p_start_chain P (hs_x509 hs) hostname;
          xc = feed_certs P b certs (feed_order b certs) xc;
          (xc, x509_err) = p_end_chain P xc;
          hs = hs\<lparr>hs_x509 := xc\<rparr>
      in if x509_err \<noteq> 0 then (hs_fail (int x509_err) hs, False)
         else case p_get_pkey P xc of
             None \<Rightarrow> (hs_fail BR_ERR_X509_NOT_TRUSTED hs, False)
           | Some pkey \<Rightarrow>
               (hs\<lparr>server_pkey := pkey,
                   hs_transcript := tls13_transcript_update (hs_transcript hs)
                     (rd b 0 (4 + unat (get_u24 b 1))),
                   hs_state := kTLS13_RecvCertificateVerify\<rparr>, True))"

definition tls13_state_recv_certificate ::
  "'x prims \<Rightarrow> 'x hs_ctx \<Rightarrow> bytes \<Rightarrow> bytes \<Rightarrow> 'x hs_ctx \<times> bytes \<times> tls13_hs_result" where
  "tls13_state_recv_certificate P hs recv hostname =
     (let (hs, recv, r, hs_type, mlen) =
            (if 0 < pending_recv_msg_len hs
             then (hs\<lparr>pending_recv_msg_len := 0\<rparr>, recv, kTLS13_OK, byte_at (msg_buf hs) 0, pending_recv_msg_len hs)
             else tls13_read_encrypted_hs hs recv)
      in if r \<noteq> kTLS13_OK then (hs, recv, r)
         else case cert_msg_parse hs hs_type mlen of
             Inl e \<Rightarrow> (hs_fail e hs, recv, kTLS13_Error)
           | Inr certs \<Rightarrow>
               let (hs, ok) = cert_validate P hs hostname certs
               in (hs, recv, if ok then kTLS13_OK else kTLS13_Error))"

section \<open>CertificateVerify\<close>

definition tls13_build_verify_content :: "bytes \<Rightarrow> nat \<Rightarrow> bytes" where
  "tls13_build_verify_content transcript_hash hash_len =
     replicate 64 0x20 @ ascii ''TLS 1.3, server CertificateVerify'' @ [0x00] @ rd transcript_hash 0 hash_len"

definition tls13_ct_memcmp :: "bytes \<Rightarrow> bytes \<Rightarrow> nat \<Rightarrow> byte" where
  "tls13_ct_memcmp a b len = fold (\<lambda>i acc. acc OR (byte_at a i XOR byte_at b i)) [0..<len] 0"

text \<open>The digest of the signed content with the hash of the signature scheme.\<close>

definition cv_content_hash :: "hash_alg \<Rightarrow> bytes \<Rightarrow> bytes" where
  "cv_content_hash a content =
     (case a of SHA256 \<Rightarrow> br_sha256_out (br_sha256_update fresh256 content)
      | SHA384 \<Rightarrow> br_sha384_out (br_sha384_update fresh384 content))"

definition cv_check :: "'x prims \<Rightarrow> x509_pkey \<Rightarrow> u16 \<Rightarrow> bytes \<Rightarrow> bytes \<Rightarrow> int option" where
  "cv_check P pkey sig_scheme content sig =
     (if sig_scheme = TLS13_SIG_RSA_PSS_RSAE_SHA256 \<or> sig_scheme = TLS13_SIG_RSA_PSS_RSAE_SHA384
      then case pkey of
          RsaKey n e \<Rightarrow>
            let a = (if sig_scheme = TLS13_SIG_RSA_PSS_RSAE_SHA256 then SHA256 else SHA384)
            in if p_rsa_pss_vrfy P sig a (cv_content_hash a content) (n, e) \<noteq> 1
               then Some BR_ERR_BAD_SIGNATURE else None
        | _ \<Rightarrow> Some BR_ERR_BAD_PARAM
      else if sig_scheme = TLS13_SIG_ECDSA_SECP256R1_SHA256 \<or> sig_scheme = TLS13_SIG_ECDSA_SECP384R1_SHA384
      then case pkey of
          EcKey curve q \<Rightarrow>
            let a = (if sig_scheme = TLS13_SIG_ECDSA_SECP256R1_SHA256 then SHA256 else SHA384)
            in if p_ecdsa_vrfy P (cv_content_hash a content) (curve, q) sig \<noteq> 1
               then Some BR_ERR_BAD_SIGNATURE else None
        | _ \<Rightarrow> Some BR_ERR_BAD_PARAM
      else Some BR_ERR_BAD_PARAM)"

definition tls13_state_recv_certificate_verify ::
  "'x prims \<Rightarrow> 'x hs_ctx \<Rightarrow> bytes \<Rightarrow> 'x hs_ctx \<times> bytes \<times> tls13_hs_result" where
  "tls13_state_recv_certificate_verify P hs recv =
     (let (hs, recv, r, hs_type, mlen) = tls13_read_encrypted_hs hs recv
      in if r \<noteq> kTLS13_OK then (hs, recv, r)
         else if hs_type \<noteq> TLS13_HT_CERTIFICATE_VERIFY then (hs_fail BR_ERR_UNEXPECTED hs, recv, kTLS13_Error)
         else let body_len = unat (get_u24 (msg_buf hs) 1)
              in if mlen < 4 + body_len \<or> body_len < 4 then (hs_fail BR_ERR_BAD_PARAM hs, recv, kTLS13_Error)
                 else let sig_scheme = get_u16 (msg_buf hs) 4;
                          sig_len = unat (get_u16 (msg_buf hs) 6)
                      in if body_len < sig_len + 4 then (hs_fail BR_ERR_BAD_PARAM hs, recv, kTLS13_Error)
                         else let content = tls13_build_verify_content
                                    (tls13_transcript_snapshot (hs_transcript hs)) (t_hash_len (hs_transcript hs))
                              in case cv_check P (server_pkey hs) sig_scheme content (rd (msg_buf hs) 8 sig_len) of
                                   Some e \<Rightarrow> (hs_fail e hs, recv, kTLS13_Error)
                                 | None \<Rightarrow>
                                     (hs\<lparr>hs_transcript := tls13_transcript_update (hs_transcript hs)
                                           (rd (msg_buf hs) 0 (4 + body_len)),
                                         hs_state := kTLS13_RecvFinished\<rparr>, recv, kTLS13_OK))"

section \<open>Finished\<close>

text \<open>\<open>verify_data = HMAC(finished_key, transcript hash)\<close>, as both directions compute it.\<close>

definition finished_mac :: "hash_alg \<Rightarrow> nat \<Rightarrow> bytes \<Rightarrow> bytes \<Rightarrow> bytes" where
  "finished_mac hash hash_len finished_key transcript_hash =
     br_hmac_out (br_hmac_update (br_hmac_init (br_hmac_key_init hash (rd finished_key 0 hash_len)) 0)
       (rd transcript_hash 0 hash_len))"

text \<open>Steps 5 and on of \<open>tls13_state_recv_finished\<close>: the application keys.\<close>

definition rf_install_keys :: "'x hs_ctx \<Rightarrow> nat \<Rightarrow> 'x hs_ctx" where
  "rf_install_keys hs body_len =
     (let t = tls13_transcript_update (hs_transcript hs) (rd (msg_buf hs) 0 (4 + body_len));
          app_transcript_hash = tls13_transcript_snapshot t;
          ks = tls13_ks_extract_master (hs_ks hs);
          key_len = tls13_key_len_for_suite (hs_cipher_suite hs);
          k = tls13_ks_derive_app_keys ks app_transcript_hash key_len;
          client_finished_key = tls13_ks_derive_finished_key ks (client_hs_secret hs)
      in hs\<lparr>hs_transcript := t, hs_ks := ks,
            hs_read_ctx := tls13_record_init (hs_read_ctx hs) (server_key k) (server_iv k) (hs_cipher_suite hs),
            server_hs_secret := wr (server_hs_secret hs) 0 (rd client_finished_key 0 (t_hash_len t)),
            client_hs_secret := wr (wr (client_hs_secret hs) 0 (client_key k)) key_len (client_iv k),
            hs_state := kTLS13_SendFinished\<rparr>)"

definition tls13_state_recv_finished :: "'x hs_ctx \<Rightarrow> bytes \<Rightarrow> 'x hs_ctx \<times> bytes \<times> tls13_hs_result" where
  "tls13_state_recv_finished hs recv =
     (let (hs, recv, r, hs_type, mlen) = tls13_read_encrypted_hs hs recv
      in if r \<noteq> kTLS13_OK then (hs, recv, r)
         else if hs_type \<noteq> TLS13_HT_FINISHED then (hs_fail BR_ERR_UNEXPECTED hs, recv, kTLS13_Error)
         else let body_len = unat (get_u24 (msg_buf hs) 1);
                  hash_len = t_hash_len (hs_transcript hs)
              in if mlen < 4 + body_len then (hs_fail BR_ERR_BAD_PARAM hs, recv, kTLS13_Error)
                 else if body_len \<noteq> hash_len then (hs_fail BR_ERR_BAD_PARAM hs, recv, kTLS13_Error)
                 else let finished_key = tls13_ks_derive_finished_key (hs_ks hs) (server_hs_secret hs);
                          expected = finished_mac (t_hash (hs_transcript hs)) hash_len finished_key
                                       (tls13_transcript_snapshot (hs_transcript hs))
                      in if tls13_ct_memcmp (drop 4 (msg_buf hs)) expected hash_len \<noteq> 0
                         then (hs_fail BR_ERR_BAD_FINISHED hs, recv, kTLS13_Error)
                         else (rf_install_keys hs body_len, recv, kTLS13_OK))"

definition tls13_state_send_finished :: "'x hs_ctx \<Rightarrow> 'x hs_ctx \<times> tls13_hs_result" where
  "tls13_state_send_finished hs =
     (let hash_len = t_hash_len (hs_transcript hs);
          key_len = tls13_key_len_for_suite (hs_cipher_suite hs);
          finished_key = rd (server_hs_secret hs) 0 hash_len;
          verify_data = finished_mac (t_hash (hs_transcript hs)) hash_len finished_key
                          (tls13_transcript_snapshot (hs_transcript hs));
          hs_msg = [TLS13_HT_FINISHED] @ put_u24 (word_of_nat hash_len) @ rd verify_data 0 hash_len;
          (wctx, ciphertext) = tls13_record_encrypt (hs_write_ctx hs) hs_msg TLS13_CT_HANDSHAKE;
          ct_len = length ciphertext;
          hs = hs\<lparr>hs_write_ctx := wctx\<rparr>
      in if HS_BUF < 5 + ct_len then (hs_fail BR_ERR_TOO_LARGE hs, kTLS13_Error)
         else let t = tls13_transcript_update (hs_transcript hs) hs_msg
              in (hs\<lparr>msg_buf := wr (msg_buf hs) 0
                        ([TLS13_CT_APPLICATION_DATA, 0x03, 0x03] @ put_u16 (word_of_nat ct_len) @ ciphertext),
                     msg_len := 5 + ct_len, msg_offset := 0,
                     hs_transcript := t,
                     res_master := wr (res_master hs) 0
                        (tls13_ks_derive_resumption_master (hs_ks hs) (tls13_transcript_snapshot t)),
                     res_master_valid := True,
                     hs_write_ctx := tls13_record_init (hs_write_ctx hs) (rd (client_hs_secret hs) 0 key_len)
                        (rd (client_hs_secret hs) key_len 12) (hs_cipher_suite hs),
                     client_hs_secret := replicate 64 0, server_hs_secret := replicate 64 0,
                     hs_state := kTLS13_Complete\<rparr>, kTLS13_WantWrite))"

section \<open>The driver\<close>

definition tls13_handshake_step ::
  "'x prims \<Rightarrow> 'x hs_ctx \<Rightarrow> bytes \<Rightarrow> bytes \<Rightarrow> 'x hs_ctx \<times> bytes \<times> tls13_hs_result" where
  "tls13_handshake_step P hs recv hostname =
     (case hs_state hs of
        kTLS13_SendClientHello \<Rightarrow>
          (let (hs, r) = tls13_state_send_client_hello P hs hostname
           in (if r = kTLS13_WantWrite then hs\<lparr>hs_state := kTLS13_RecvServerHello\<rparr> else hs, recv, r))
      | kTLS13_SendCCS \<Rightarrow>
          (let (hs, r) = tls13_state_send_ccs hs
           in (if r = kTLS13_WantWrite then hs\<lparr>hs_state := kTLS13_RecvServerHello\<rparr> else hs, recv, r))
      | kTLS13_RecvServerHello \<Rightarrow>
          (let (hs, recv, r) = tls13_state_recv_server_hello P hs recv
           in if r = kTLS13_OK then (hs\<lparr>hs_state := kTLS13_RecvEncryptedExtensions\<rparr>, recv, kTLS13_OK)
              else if r = kTLS13_WantRead \<and> hrr_pending hs
              then (hs\<lparr>hrr_pending := False, hs_state := kTLS13_SendClientHello\<rparr>, recv, kTLS13_OK)
              else (hs, recv, r))
      | kTLS13_RecvEncryptedExtensions \<Rightarrow> tls13_state_recv_encrypted_extensions hs recv
      | kTLS13_RecvCertRequestOrCert \<Rightarrow> tls13_state_recv_cert_request_or_cert hs recv
      | kTLS13_RecvCertificate \<Rightarrow> tls13_state_recv_certificate P hs recv hostname
      | kTLS13_RecvCertificateVerify \<Rightarrow> tls13_state_recv_certificate_verify P hs recv
      | kTLS13_RecvFinished \<Rightarrow> tls13_state_recv_finished hs recv
      | kTLS13_SendFinished \<Rightarrow>
          (let (hs, r) = tls13_state_send_finished hs in (hs, recv, r))
      | kTLS13_Complete \<Rightarrow> (hs, recv, kTLS13_OK))"

end
