(* ===== verification/Hs_Stream.thy ===== *)
theory Hs_Stream
  imports Handshake
begin

text \<open>
  The abstract view of the reassembly buffer: \<open>plain_buf\<close> between \<open>plain_offset\<close> and
  \<open>plain_len\<close> is a byte stream (\<open>pending\<close>) to which decrypted records are appended at the end
  and from whose front whole handshake messages are taken. \<open>read_stream\<close> is
  \<open>tls13_read_encrypted_hs\<close> over that stream, without offsets and compaction;
  \<open>read_encrypted_hs_refines\<close> is the simulation, with the bounds of both buffers.
\<close>

section \<open>The stream\<close>

definition buf_wf :: "'x hs_ctx \<Rightarrow> bool" where
  "buf_wf hs \<longleftrightarrow> length (msg_buf hs) = HS_BUF \<and> length (plain_buf hs) = HS_BUF \<and> plain_len hs \<le> HS_BUF
     \<and> (plain_offset hs < plain_len hs \<or> plain_offset hs = 0 \<and> plain_len hs = 0)"

definition pending :: "'x hs_ctx \<Rightarrow> bytes" where
  "pending hs = rd (plain_buf hs) (plain_offset hs) (plain_len hs - plain_offset hs)"

datatype framed = Need | TooBig | Message bytes bytes

definition first_message :: "bytes \<Rightarrow> framed" where
  "first_message s =
     (if length s < 4 then Need
      else let n = 4 + unat (get_u24 s 1)
           in if HS_BUF < n then TooBig
              else if n \<le> length s then Message (take n s) (drop n s) else Need)"

definition first_record :: "bytes \<Rightarrow> (byte \<times> bytes \<times> bytes) option" where
  "first_record recv =
     (if length recv < 5 then None
      else let n = unat (get_u16 recv 3)
           in if length recv < 5 + n then None
              else Some (byte_at recv 0, take n (drop 5 recv), drop (5 + n) recv))"

text \<open>The specification of a read: an error, or \<open>None\<close> for more input wanted, or the message;
  with the record keys, the stream and the input after it.\<close>

function read_stream ::
  "record_ctx \<Rightarrow> bytes \<Rightarrow> bytes \<Rightarrow> record_ctx \<times> bytes \<times> bytes \<times> (int, bytes option) sum" where
  "read_stream ctx s recv =
     (case first_message s of
        Message m rest \<Rightarrow> (ctx, rest, recv, Inr (Some m))
      | TooBig \<Rightarrow> (ctx, s, recv, Inl BR_ERR_BAD_PARAM)
      | Need \<Rightarrow>
          (case first_record recv of
             None \<Rightarrow> (ctx, s, recv, Inr None)
           | Some (ty, payload, rest) \<Rightarrow>
               if HS_BUF < length payload then (ctx, s, recv, Inl BR_ERR_BAD_PARAM)
               else if ty = TLS13_CT_CHANGE_CIPHER_SPEC then read_stream ctx s rest
               else if ty \<noteq> TLS13_CT_APPLICATION_DATA then (ctx, s, recv, Inl BR_ERR_UNEXPECTED)
               else if HS_BUF < length s + length payload then (ctx, s, recv, Inl BR_ERR_BAD_PARAM)
               else case tls13_record_decrypt ctx payload of
                   (ctx, buf, None) \<Rightarrow> (ctx, s, recv, Inl BR_ERR_BAD_MAC)
                 | (ctx, buf, Some (n, ct)) \<Rightarrow>
                     if ct \<noteq> TLS13_CT_HANDSHAKE then (ctx, s @ take n buf, rest, Inl BR_ERR_UNEXPECTED)
                     else read_stream ctx (s @ take n buf) rest))"
  by pat_completeness auto
termination
  by (relation "measure (\<lambda>(ctx, s, recv). length recv)")
     (auto simp: first_record_def Let_def split: if_splits)

declare read_stream.simps [simp del]

text \<open>The outcome the C function reports for each result of the specification.\<close>

fun read_result :: "(int, bytes option) sum \<Rightarrow> tls13_hs_result \<times> nat" where
  "read_result (Inl e) = (kTLS13_Error, 0)"
| "read_result (Inr None) = (kTLS13_WantRead, 0)"
| "read_result (Inr (Some m)) = (kTLS13_OK, length m)"

section \<open>Taking a message\<close>

lemma length_pending: "buf_wf hs \<Longrightarrow> length (pending hs) = plain_len hs - plain_offset hs"
  by (simp add: pending_def)

lemma get_u24_rd: "i + 3 \<le> n \<Longrightarrow> get_u24 (rd b off n) i = get_u24 b (off + i)"
  by (simp add: get_u24_def byte_at_rd add.assoc)

lemma take_rd: "k \<le> n \<Longrightarrow> take k (rd b off n) = rd b off k"
  by (rule nth_equalityI) (simp_all add: nth_rd)

lemma drop_rd: "drop k (rd b off n) = rd b (off + k) (n - k)"
  by (rule nth_equalityI) (simp_all add: nth_rd add.assoc)

lemma pending_first:
  assumes "buf_wf hs" "plain_offset hs < plain_len hs"
  shows "first_message (pending hs) =
     (if plain_len hs - plain_offset hs < 4 then Need
      else let n = 4 + unat (get_u24 (plain_buf hs) (plain_offset hs + 1))
           in if HS_BUF < n then TooBig
              else if n \<le> plain_len hs - plain_offset hs
              then Message (rd (plain_buf hs) (plain_offset hs) n)
                     (rd (plain_buf hs) (plain_offset hs + n) (plain_len hs - (plain_offset hs + n)))
              else Need)"
  by (simp add: first_message_def length_pending [OF assms(1)] pending_def get_u24_rd take_rd drop_rd Let_def)

lemma compact_wf:
  assumes "buf_wf hs" "plain_offset hs < plain_len hs"
  defines "hs' \<equiv> hs\<lparr>plain_buf := (if 0 < plain_offset hs
       then wr (plain_buf hs) 0 (rd (plain_buf hs) (plain_offset hs) (plain_len hs - plain_offset hs))
       else plain_buf hs), plain_len := plain_len hs - plain_offset hs, plain_offset := 0\<rparr>"
  shows "buf_wf hs'" "pending hs' = pending hs" "plain_offset hs' = 0" "hs_read_ctx hs' = hs_read_ctx hs"
  using assms(1,2) by (auto simp: hs'_def buf_wf_def pending_def rd_wr_same_len)

text \<open>Contexts that differ only in what a read may change.\<close>

definition erase :: "'x hs_ctx \<Rightarrow> 'x hs_ctx" where
  "erase hs = hs\<lparr>hs_read_ctx := zero_record_ctx, msg_buf := [], plain_buf := [], plain_len := 0,
     plain_offset := 0, hs_error := 0\<rparr>"

lemma erase_upd [simp]:
  "erase (hs\<lparr>hs_read_ctx := c\<rparr>) = erase hs" "erase (hs\<lparr>msg_buf := mb\<rparr>) = erase hs"
  "erase (hs\<lparr>plain_buf := pb\<rparr>) = erase hs" "erase (hs\<lparr>plain_len := pl\<rparr>) = erase hs"
  "erase (hs\<lparr>plain_offset := po\<rparr>) = erase hs" "erase (hs\<lparr>hs_error := e\<rparr>) = erase hs"
  by (simp_all add: erase_def)

lemma hs_fail_simps [simp]:
  "buf_wf (hs_fail e hs) = buf_wf hs" "pending (hs_fail e hs) = pending hs" "erase (hs_fail e hs) = erase hs"
  "hs_read_ctx (hs_fail e hs) = hs_read_ctx hs" "hs_error (hs_fail e hs) = e"
  by (simp_all add: hs_fail_def buf_wf_def pending_def)

lemma erase_frame:
  assumes "erase hs' = erase hs"
  shows "hs_state hs' = hs_state hs" "hs_ks hs' = hs_ks hs" "hs_transcript hs' = hs_transcript hs"
    "resumption_accepted hs' = resumption_accepted hs" "hrr_received hs' = hrr_received hs"
    "offer_ticket hs' = offer_ticket hs" "server_hs_secret hs' = server_hs_secret hs"
    "client_hs_secret hs' = client_hs_secret hs" "hs_cipher_suite hs' = hs_cipher_suite hs"
    "server_pkey hs' = server_pkey hs" "hs_x509 hs' = hs_x509 hs"
    "pending_recv_msg_len hs' = pending_recv_msg_len hs" "hs_write_ctx hs' = hs_write_ctx hs"
proof -
  show "hs_state hs' = hs_state hs" "hs_ks hs' = hs_ks hs" "hs_transcript hs' = hs_transcript hs"
    "resumption_accepted hs' = resumption_accepted hs" "hrr_received hs' = hrr_received hs"
    "offer_ticket hs' = offer_ticket hs" "server_hs_secret hs' = server_hs_secret hs"
    "client_hs_secret hs' = client_hs_secret hs" "hs_cipher_suite hs' = hs_cipher_suite hs"
    "server_pkey hs' = server_pkey hs" "hs_x509 hs' = hs_x509 hs"
    "pending_recv_msg_len hs' = pending_recv_msg_len hs" "hs_write_ctx hs' = hs_write_ctx hs"
    using assms [THEN arg_cong, of hs_state] assms [THEN arg_cong, of hs_ks]
      assms [THEN arg_cong, of hs_transcript] assms [THEN arg_cong, of resumption_accepted]
      assms [THEN arg_cong, of hrr_received] assms [THEN arg_cong, of offer_ticket]
      assms [THEN arg_cong, of server_hs_secret] assms [THEN arg_cong, of client_hs_secret]
      assms [THEN arg_cong, of hs_cipher_suite] assms [THEN arg_cong, of server_pkey]
      assms [THEN arg_cong, of hs_x509] assms [THEN arg_cong, of pending_recv_msg_len]
      assms [THEN arg_cong, of hs_write_ctx]
    by (simp_all add: erase_def)
qed

lemma extract_facts:
  assumes wf: "buf_wf hs" and e: "rh_extract hs = (hs', r)"
  shows "erase hs' = erase hs" "hs_read_ctx hs' = hs_read_ctx hs" "buf_wf hs'"
    "case first_message (pending hs) of
       Need \<Rightarrow> r = Go None \<and> pending hs' = pending hs \<and> plain_offset hs' = 0 \<and> hs_error hs' = hs_error hs
     | TooBig \<Rightarrow> r = Stop kTLS13_Error \<and> hs_error hs' = BR_ERR_BAD_PARAM \<and> pending hs' = pending hs
     | Message m rest \<Rightarrow> r = Go (Some (length m)) \<and> pending hs' = rest \<and> rd (msg_buf hs') 0 (length m) = m \<and> hs_error hs' = hs_error hs"
proof -
  have "erase hs' = erase hs \<and> hs_read_ctx hs' = hs_read_ctx hs \<and> buf_wf hs' \<and>
    (case first_message (pending hs) of
       Need \<Rightarrow> r = Go None \<and> pending hs' = pending hs \<and> plain_offset hs' = 0 \<and> hs_error hs' = hs_error hs
     | TooBig \<Rightarrow> r = Stop kTLS13_Error \<and> hs_error hs' = BR_ERR_BAD_PARAM \<and> pending hs' = pending hs
     | Message m rest \<Rightarrow> r = Go (Some (length m)) \<and> pending hs' = rest \<and> rd (msg_buf hs') 0 (length m) = m \<and> hs_error hs' = hs_error hs)"
  proof (cases "plain_len hs \<le> plain_offset hs")
    case True
    with e have *: "hs' = hs" "r = Go None" by (simp_all add: rh_extract_def)
    have "plain_offset hs = 0" "plain_len hs = 0" using True wf by (auto simp: buf_wf_def)
    then show ?thesis using wf * by (simp add: pending_def first_message_def)
  next
    case False
    then have lt: "plain_offset hs < plain_len hs" by simp
    define off where "off = plain_offset hs"
    define len where "len = plain_len hs - off"
    define n where "n = 4 + unat (get_u24 (plain_buf hs) (off + 1))"
    define c where "c = hs\<lparr>plain_buf := (if 0 < off then wr (plain_buf hs) 0 (rd (plain_buf hs) off len)
                                       else plain_buf hs), plain_len := len, plain_offset := 0\<rparr>"
    have c: "erase c = erase hs" "hs_read_ctx c = hs_read_ctx hs" "plain_offset c = 0" "hs_error c = hs_error hs"
      by (simp_all add: c_def)
    have c': "buf_wf c" "pending c = pending hs"
      unfolding c_def off_def len_def by (rule compact_wf [OF wf lt])+
    have fm: "first_message (pending hs) =
       (if len < 4 then Need else if HS_BUF < n then TooBig
        else if n \<le> len then Message (rd (plain_buf hs) off n) (rd (plain_buf hs) (off + n) (plain_len hs - (off + n)))
        else Need)"
      by (simp add: pending_first [OF wf lt] off_def len_def n_def Let_def)
    have e': "(hs', r) = (if len < 4 then (c, Go None)
       else if HS_BUF < n then (hs_fail BR_ERR_BAD_PARAM hs, Stop kTLS13_Error)
       else if n \<le> len
       then (let h = hs\<lparr>msg_buf := wr (msg_buf hs) 0 (rd (plain_buf hs) off n), plain_offset := off + n\<rparr>
             in (if plain_len h \<le> plain_offset h then h\<lparr>plain_len := 0, plain_offset := 0\<rparr> else h, Go (Some n)))
       else (c, Go None))"
      by (simp only: e [symmetric] rh_extract_def Let_def off_def len_def n_def c_def False if_False)
    show ?thesis
    proof (cases "len < 4 \<or> \<not> HS_BUF < n \<and> \<not> n \<le> len")
      case True
      then have "(hs', r) = (c, Go None)" "first_message (pending hs) = Need"
        unfolding e' fm by auto
      then show ?thesis using c c' by simp
    next
      case go: False
      show ?thesis
      proof (cases "HS_BUF < n")
        case True
        then show ?thesis using go e' fm wf by (simp add: hs_fail_def pending_def buf_wf_def)
      next
        case False
        then have fm: "first_message (pending hs) =
            Message (rd (plain_buf hs) off n) (rd (plain_buf hs) (off + n) (plain_len hs - (off + n)))"
          and r: "r = Go (Some n)"
          and h: "hs' = (let h = hs\<lparr>msg_buf := wr (msg_buf hs) 0 (rd (plain_buf hs) off n), plain_offset := off + n\<rparr>
             in if plain_len h \<le> plain_offset h then h\<lparr>plain_len := 0, plain_offset := 0\<rparr> else h)"
          using go e' fm by (simp_all add: Let_def)
        have "erase hs' = erase hs" "hs_read_ctx hs' = hs_read_ctx hs" "buf_wf hs'" "hs_error hs' = hs_error hs"
          "pending hs' = rd (plain_buf hs) (off + n) (plain_len hs - (off + n))"
          "rd (msg_buf hs') 0 n = rd (plain_buf hs) off n"
          using wf False by (simp_all add: h Let_def buf_wf_def pending_def rd_wr_same_len)
        then show ?thesis by (simp add: fm r)
      qed
    qed
  qed
  then show "erase hs' = erase hs" "hs_read_ctx hs' = hs_read_ctx hs" "buf_wf hs'"
    "case first_message (pending hs) of
       Need \<Rightarrow> r = Go None \<and> pending hs' = pending hs \<and> plain_offset hs' = 0 \<and> hs_error hs' = hs_error hs
     | TooBig \<Rightarrow> r = Stop kTLS13_Error \<and> hs_error hs' = BR_ERR_BAD_PARAM \<and> pending hs' = pending hs
     | Message m rest \<Rightarrow> r = Go (Some (length m)) \<and> pending hs' = rest \<and> rd (msg_buf hs') 0 (length m) = m \<and> hs_error hs' = hs_error hs"
    by simp_all
qed

section \<open>The simulation\<close>

lemma first_record_Some:
  assumes "first_record recv = Some (ty, payload, rest)"
  shows "recv = take 5 recv @ payload @ rest" "length recv = 5 + length payload + length rest"
    "ty = byte_at recv 0" "length payload = unat (get_u16 recv 3)"
  using assms
  by (auto simp: first_record_def Let_def take_drop [symmetric] min_def split: if_splits)
     (metis append_take_drop_id drop_drop add.commute)

lemma read_unfold:
  assumes "rh_extract hs = (h, Go None)"
  shows "tls13_read_encrypted_hs hs recv =
     (case first_record recv of
        None \<Rightarrow> (h, recv, kTLS13_WantRead, 0, 0)
      | Some (ty, payload, rest) \<Rightarrow>
          if HS_BUF < length payload then (hs_fail BR_ERR_BAD_PARAM h, recv, kTLS13_Error, 0, 0)
          else if ty = TLS13_CT_CHANGE_CIPHER_SPEC then tls13_read_encrypted_hs h rest
          else if ty \<noteq> TLS13_CT_APPLICATION_DATA then (hs_fail BR_ERR_UNEXPECTED h, recv, kTLS13_Error, 0, 0)
          else if HS_BUF < plain_len h + length payload then (hs_fail BR_ERR_BAD_PARAM h, recv, kTLS13_Error, 0, 0)
          else case tls13_record_decrypt (hs_read_ctx h) payload of
              (ctx, buf, None) \<Rightarrow>
                (hs_fail BR_ERR_BAD_MAC (h\<lparr>hs_read_ctx := ctx, plain_buf := wr (plain_buf h) (plain_len h) buf\<rparr>),
                 recv, kTLS13_Error, 0, 0)
            | (ctx, buf, Some (pt_len, inner_ct)) \<Rightarrow>
                let h = h\<lparr>hs_read_ctx := ctx, plain_buf := wr (plain_buf h) (plain_len h) buf,
                          plain_len := plain_len h + pt_len\<rparr>
                in if inner_ct \<noteq> TLS13_CT_HANDSHAKE
                   then (hs_fail BR_ERR_UNEXPECTED h, rest, kTLS13_Error, 0, 0)
                   else tls13_read_encrypted_hs h rest)"
proof (cases "length recv < 5 \<or> length recv < 5 + unat (get_u16 recv 3)")
  case True
  then show ?thesis
    by (subst tls13_read_encrypted_hs.simps) (auto simp: assms first_record_def Let_def)
next
  case False
  then have "rd recv 5 (unat (get_u16 recv 3)) = take (unat (get_u16 recv 3)) (drop 5 recv)"
    by (intro rd_eq_take_drop) simp
  moreover have "length (take (unat (get_u16 recv 3)) (drop 5 recv)) = unat (get_u16 recv 3)"
    using False by (auto simp: min_def)
  ultimately show ?thesis using False
    by (subst tls13_read_encrypted_hs.simps) (simp add: assms first_record_def Let_def)
qed

text \<open>Appending a decrypted record to the stream.\<close>

lemma append_record:
  assumes wf: "buf_wf h" and off: "plain_offset h = 0" and fits: "plain_len h + length payload \<le> HS_BUF"
    and d: "tls13_record_decrypt ctx0 payload = (ctx, buf, r)"
  shows "buf_wf (h\<lparr>hs_read_ctx := ctx, plain_buf := wr (plain_buf h) (plain_len h) buf\<rparr>)"
    "pending (h\<lparr>hs_read_ctx := ctx, plain_buf := wr (plain_buf h) (plain_len h) buf\<rparr>) = pending h"
    "r = Some (n, ct) \<Longrightarrow> buf_wf (h\<lparr>hs_read_ctx := ctx, plain_buf := wr (plain_buf h) (plain_len h) buf,
        plain_len := plain_len h + n\<rparr>)"
    "r = Some (n, ct) \<Longrightarrow> pending (h\<lparr>hs_read_ctx := ctx, plain_buf := wr (plain_buf h) (plain_len h) buf,
        plain_len := plain_len h + n\<rparr>) = pending h @ take n buf"
proof -
  have l: "length buf \<le> length payload" by (rule record_decrypt_length [OF d])
  show "buf_wf (h\<lparr>hs_read_ctx := ctx, plain_buf := wr (plain_buf h) (plain_len h) buf\<rparr>)"
    "pending (h\<lparr>hs_read_ctx := ctx, plain_buf := wr (plain_buf h) (plain_len h) buf\<rparr>) = pending h"
    using wf off fits l by (auto simp: buf_wf_def pending_def rd_wr_before)
  assume r: "r = Some (n, ct)"
  have n: "n \<le> length buf" "length buf = length payload"
    using record_decrypt_outcomes [OF d] by (simp_all add: r)
  show "buf_wf (h\<lparr>hs_read_ctx := ctx, plain_buf := wr (plain_buf h) (plain_len h) buf,
        plain_len := plain_len h + n\<rparr>)"
    using wf off fits n by (auto simp: buf_wf_def)
  have "rd (wr (plain_buf h) (plain_len h) buf) (plain_len h) n = take n buf"
    using take_rd [OF n(1), of "wr (plain_buf h) (plain_len h) buf" "plain_len h"] by simp
  then show "pending (h\<lparr>hs_read_ctx := ctx, plain_buf := wr (plain_buf h) (plain_len h) buf,
        plain_len := plain_len h + n\<rparr>) = pending h @ take n buf"
    using off by (simp add: pending_def rd_append rd_wr_before)
qed

lemma read_encrypted_hs_refines:
  assumes "buf_wf hs" "tls13_read_encrypted_hs hs recv = (hs', recv', r, ty, n)"
  shows "\<exists>out. read_stream (hs_read_ctx hs) (pending hs) recv = (hs_read_ctx hs', pending hs', recv', out)
    \<and> (r, n) = read_result out \<and> buf_wf hs' \<and> erase hs' = erase hs \<and>
    (case out of Inl e \<Rightarrow> hs_error hs' = e | Inr None \<Rightarrow> hs_error hs' = hs_error hs
     | Inr (Some m) \<Rightarrow> hs_error hs' = hs_error hs \<and> rd (msg_buf hs') 0 (length m) = m \<and> ty = byte_at (msg_buf hs') 0)"
  using assms
proof (induction "length recv" arbitrary: hs recv rule: less_induct)
  case less
  obtain h x where e: "rh_extract hs = (h, x)" by fastforce
  note E = extract_facts [OF less.prems(1) e]
  show ?case
  proof (cases "first_message (pending hs)")
    case (Message m rest)
    with E(4) less.prems(2) have *: "hs' = h" "recv' = recv" "r = kTLS13_OK" "ty = byte_at (msg_buf h) 0" "n = length m"
      by (auto simp: tls13_read_encrypted_hs.simps e)
    show ?thesis
      using E Message unfolding * by (intro exI [of _ "Inr (Some m)"]) (simp add: read_stream.simps)
  next
    case TooBig
    with E(4) less.prems(2) have *: "hs' = h" "recv' = recv" "r = kTLS13_Error" "n = 0"
      by (simp_all add: tls13_read_encrypted_hs.simps e)
    show ?thesis
      using E TooBig by (intro exI [of _ "Inl BR_ERR_BAD_PARAM"]) (simp add: * read_stream.simps)
  next
    case Need
    with E(4) have x: "x = Go None" and p: "pending h = pending hs" and off: "plain_offset h = 0"
      and er: "hs_error h = hs_error hs" by simp_all
    note U = read_unfold [OF e [unfolded x], of recv]
    have pl: "plain_len h = length (pending hs)" using length_pending [OF E(3)] p off by simp
    show ?thesis
    proof (cases "first_record recv")
      case None
      with less.prems(2) U have "hs' = h" "recv' = recv" "r = kTLS13_WantRead" "n = 0" by simp_all
      then show ?thesis
        using E Need None p er by (intro exI [of _ "Inr None"]) (simp add: read_stream.simps)
    next
      case (Some y)
      then obtain t payload rest where fr: "first_record recv = Some (t, payload, rest)" by (cases y) auto
      note U = U [unfolded fr option.case prod.case]
      note S = read_stream.simps [of "hs_read_ctx hs" "pending hs" recv, unfolded Need fr framed.case option.case prod.case]
      have lt: "length rest < length recv" using first_record_Some(2) [OF fr] by simp
      consider (large) "HS_BUF < length payload"
        | (ccs) "\<not> HS_BUF < length payload" "t = TLS13_CT_CHANGE_CIPHER_SPEC"
        | (other) "\<not> HS_BUF < length payload" "t \<noteq> TLS13_CT_CHANGE_CIPHER_SPEC" "t \<noteq> TLS13_CT_APPLICATION_DATA"
        | (full) "\<not> HS_BUF < length payload" "t \<noteq> TLS13_CT_CHANGE_CIPHER_SPEC"
            "t = TLS13_CT_APPLICATION_DATA" "HS_BUF < plain_len h + length payload"
        | (data) "\<not> HS_BUF < length payload" "t \<noteq> TLS13_CT_CHANGE_CIPHER_SPEC"
            "t = TLS13_CT_APPLICATION_DATA" "\<not> HS_BUF < plain_len h + length payload"
        by blast
      then show ?thesis
      proof cases
        case large
        then have "hs' = hs_fail BR_ERR_BAD_PARAM h" "recv' = recv" "r = kTLS13_Error" "n = 0"
          using less.prems(2) by (simp_all add: U)
        then show ?thesis
          using E p large by (intro exI [of _ "Inl BR_ERR_BAD_PARAM"])
            (simp add: S)
      next
        case ccs
        then have "tls13_read_encrypted_hs h rest = (hs', recv', r, ty, n)"
          using less.prems(2) by (simp add: U)
        from less.hyps [OF lt E(3) this, unfolded er] show ?thesis
          using E(1,2) p ccs by (simp add: S)
      next
        case other
        then have "hs' = hs_fail BR_ERR_UNEXPECTED h" "recv' = recv" "r = kTLS13_Error" "n = 0"
          using less.prems(2) by (simp_all add: U)
        then show ?thesis
          using E p other by (intro exI [of _ "Inl BR_ERR_UNEXPECTED"])
            (simp add: S)
      next
        case full
        then have "hs' = hs_fail BR_ERR_BAD_PARAM h" "recv' = recv" "r = kTLS13_Error" "n = 0"
          using less.prems(2) by (simp_all add: U ct_defs)
        then show ?thesis
          using E p full pl by (intro exI [of _ "Inl BR_ERR_BAD_PARAM"])
            (simp add: S ct_defs)
      next
        case data
        obtain ctx buf d where dec: "tls13_record_decrypt (hs_read_ctx hs) payload = (ctx, buf, d)"
          by (metis prod_cases3)
        have fits: "plain_len h + length payload \<le> HS_BUF" using data by simp
        note A = append_record [OF E(3) off fits dec]
        show ?thesis
        proof (cases d)
          case None
          then have *: "hs' = hs_fail BR_ERR_BAD_MAC (h\<lparr>hs_read_ctx := ctx, plain_buf := wr (plain_buf h) (plain_len h) buf\<rparr>)"
            "recv' = recv" "r = kTLS13_Error" "n = 0"
            using less.prems(2) data dec E(2) by (simp_all add: U)
          show ?thesis
            using A(1,2) E(1) p data pl dec None unfolding *
            by (intro exI [of _ "Inl BR_ERR_BAD_MAC"]) (simp add: S)
        next
          case (Some y)
          then obtain k ct where d: "d = Some (k, ct)" by (cases y) auto
          define g where "g = h\<lparr>hs_read_ctx := ctx, plain_buf := wr (plain_buf h) (plain_len h) buf,
                          plain_len := plain_len h + k\<rparr>"
          have g: "buf_wf g" "pending g = pending hs @ take k buf" "erase g = erase hs" "hs_read_ctx g = ctx" "hs_error g = hs_error hs"
            using A(3,4) [OF d] E(1) er by (simp_all add: g_def p)
          show ?thesis
          proof (cases "ct = TLS13_CT_HANDSHAKE")
            case True
            then have "tls13_read_encrypted_hs g rest = (hs', recv', r, ty, n)"
              using less.prems(2) data dec E(2) by (simp add: U d g_def)
            from less.hyps [OF lt g(1) this, unfolded g(5)] show ?thesis
              using g True data dec pl by (simp add: S d)
          next
            case False
            then have *: "hs' = hs_fail BR_ERR_UNEXPECTED g" "recv' = rest" "r = kTLS13_Error" "n = 0"
              using less.prems(2) data dec E(2) by (simp_all add: U d g_def)
            show ?thesis
              using g False data dec pl unfolding *
              by (intro exI [of _ "Inl BR_ERR_UNEXPECTED"]) (simp add: S d)
          qed
        qed
      qed
    qed
  qed
qed

section \<open>What is delivered\<close>

text \<open>\<open>delivers c recv c' p recv'\<close>: the input up to \<open>recv'\<close> is a sequence of whole records, each a
  ChangeCipherSpec record, which is dropped, or an authentic record of handshake content; \<open>p\<close>
  is their content in order.\<close>

inductive delivers :: "record_ctx \<Rightarrow> bytes \<Rightarrow> record_ctx \<Rightarrow> bytes \<Rightarrow> bytes \<Rightarrow> bool" where
  nothing: "delivers c recv c [] recv"
| ccs: "first_record recv = Some (TLS13_CT_CHANGE_CIPHER_SPEC, payload, rest) \<Longrightarrow> delivers c rest c' p recv'
    \<Longrightarrow> delivers c recv c' p recv'"
| handshake: "first_record recv = Some (TLS13_CT_APPLICATION_DATA, payload, rest)
    \<Longrightarrow> tls13_record_decrypt c payload = (c1, buf, Some (n, TLS13_CT_HANDSHAKE))
    \<Longrightarrow> delivers c1 rest c' p recv' \<Longrightarrow> delivers c recv c' (take n buf @ p) recv'"

lemma first_message_Message:
  assumes "first_message s = Message m rest"
  shows "s = m @ rest" "length m = 4 + unat (get_u24 m 1)" "length m \<le> HS_BUF"
proof -
  have n: "\<not> length s < 4" "m = take (4 + unat (get_u24 s 1)) s" "rest = drop (4 + unat (get_u24 s 1)) s"
    "4 + unat (get_u24 s 1) \<le> length s" "\<not> HS_BUF < 4 + unat (get_u24 s 1)"
    using assms by (auto simp: first_message_def Let_def split: if_splits)
  then show "s = m @ rest" by simp
  have l: "length m = 4 + unat (get_u24 s 1)" using n by simp
  have "get_u24 m 1 = get_u24 s 1"
    using l \<open>s = m @ rest\<close> by (simp add: get_u24_def byte_at_append) (simp add: byte_at_def)
  then show "length m = 4 + unat (get_u24 m 1)" using l by simp
  show "length m \<le> HS_BUF" using l n by simp
qed

lemma read_stream_delivers:
  assumes "read_stream c s recv = (c', s', recv', Inr out)"
  shows "\<exists>p. delivers c recv c' p recv' \<and> s @ p = (case out of None \<Rightarrow> [] | Some m \<Rightarrow> m) @ s'
    \<and> (case out of None \<Rightarrow> True | Some m \<Rightarrow> length m = 4 + unat (get_u24 m 1) \<and> length m \<le> HS_BUF)"
  using assms
proof (induction c s recv rule: read_stream.induct)
  case (1 c s recv)
  note S = read_stream.simps [of c s recv]
  show ?case
  proof (cases "first_message s")
    case (Message m rest)
    then show ?thesis
      using 1(3) first_message_Message [OF Message] S
      by (intro exI [of _ "[]"]) (auto intro: delivers.nothing)
  next
    case TooBig
    then show ?thesis using 1(3) S by simp
  next
    case Need
    show ?thesis
    proof (cases "first_record recv")
      case None
      then show ?thesis
        using 1(3) S Need by (intro exI [of _ "[]"]) (auto intro: delivers.nothing)
    next
      case (Some y)
      then obtain t payload rest where fr: "first_record recv = Some (t, payload, rest)" by (cases y) auto
      show ?thesis
      proof (cases "HS_BUF < length payload")
        case True
        then show ?thesis using 1(3) S Need fr by simp
      next
        case small: False
        show ?thesis
        proof (cases "t = TLS13_CT_CHANGE_CIPHER_SPEC")
          case True
          then show ?thesis
            using 1(1) [OF Need fr refl refl small True] 1(3) S Need fr small
            by (auto intro: delivers.ccs)
        next
          case False
          then have app: "t = TLS13_CT_APPLICATION_DATA" and fits: "\<not> HS_BUF < length s + length payload"
            using 1(3) S Need fr small by (auto split: if_splits)
          obtain c1 buf n where dec: "tls13_record_decrypt c payload = (c1, buf, Some (n, TLS13_CT_HANDSHAKE))"
            using 1(3) S Need fr small False app fits
            by (auto split: prod.splits option.splits if_splits)
          have rs: "read_stream c1 (s @ take n buf) rest = (c', s', recv', Inr out)"
            using 1(3) S Need fr small False app fits dec by simp
          obtain p where "delivers c1 rest c' p recv'"
            "(s @ take n buf) @ p = (case out of None \<Rightarrow> [] | Some m \<Rightarrow> m) @ s'"
            "case out of None \<Rightarrow> True | Some m \<Rightarrow> length m = 4 + unat (get_u24 m 1) \<and> length m \<le> HS_BUF"
            using 1(2) [OF Need fr refl refl small False _ fits dec [symmetric] refl refl refl _ rs] app by auto
          then show ?thesis
            using delivers.handshake [OF fr [unfolded app] dec] by (intro exI [of _ "take n buf @ p"]) simp
        qed
      qed
    qed
  qed
qed

lemma read_encrypted_hs_ok:
  assumes "buf_wf hs" "tls13_read_encrypted_hs hs recv = (hs', recv', kTLS13_OK, ty, n)"
  shows "\<exists>p. delivers (hs_read_ctx hs) recv (hs_read_ctx hs') p recv'
      \<and> pending hs @ p = rd (msg_buf hs') 0 n @ pending hs'"
    "ty = byte_at (msg_buf hs') 0" "n = 4 + unat (get_u24 (msg_buf hs') 1)" "n \<le> HS_BUF"
    "buf_wf hs'" "erase hs' = erase hs"
proof -
  obtain out where out: "read_stream (hs_read_ctx hs) (pending hs) recv = (hs_read_ctx hs', pending hs', recv', out)"
    "(kTLS13_OK, n) = read_result out" and wf: "buf_wf hs'" "erase hs' = erase hs" and
    c: "case out of Inl e \<Rightarrow> hs_error hs' = e | Inr None \<Rightarrow> hs_error hs' = hs_error hs
     | Inr (Some m) \<Rightarrow> hs_error hs' = hs_error hs \<and> rd (msg_buf hs') 0 (length m) = m \<and> ty = byte_at (msg_buf hs') 0"
    using read_encrypted_hs_refines [OF assms] by blast
  obtain m where m: "out = Inr (Some m)" "n = length m"
    using out(2) by (cases out rule: read_result.cases) simp_all
  with c have r: "rd (msg_buf hs') 0 n = m" and "ty = byte_at (msg_buf hs') 0" by simp_all
  then show "ty = byte_at (msg_buf hs') 0" by simp
  obtain p where p: "delivers (hs_read_ctx hs) recv (hs_read_ctx hs') p recv'" "pending hs @ p = m @ pending hs'"
    "length m = 4 + unat (get_u24 m 1)" "length m \<le> HS_BUF"
    using read_stream_delivers [OF out(1) [unfolded m]] by auto
  then show "\<exists>p. delivers (hs_read_ctx hs) recv (hs_read_ctx hs') p recv'
      \<and> pending hs @ p = rd (msg_buf hs') 0 n @ pending hs'" using r by auto
  have "get_u24 m 1 = get_u24 (msg_buf hs') 1"
    using p(3) m(2) r get_u24_rd [of 1 n "msg_buf hs'" 0] by simp
  then show "n = 4 + unat (get_u24 (msg_buf hs') 1)" "n \<le> HS_BUF" using p m by simp_all
  show "buf_wf hs'" "erase hs' = erase hs" by (fact wf)+
qed

lemma read_encrypted_hs_wf:
  assumes "buf_wf hs" "tls13_read_encrypted_hs hs recv = (hs', recv', r, ty, n)"
  shows "buf_wf hs'" "erase hs' = erase hs" "r \<in> {kTLS13_OK, kTLS13_WantRead, kTLS13_Error}"
proof -
  obtain out where "(r, n) = read_result out" and *: "buf_wf hs'" "erase hs' = erase hs"
    using read_encrypted_hs_refines [OF assms] by blast
  then show "r \<in> {kTLS13_OK, kTLS13_WantRead, kTLS13_Error}"
    by (cases out rule: read_result.cases) simp_all
  show "buf_wf hs'" "erase hs' = erase hs" by (fact *)+
qed

section \<open>Properties\<close>

text \<open>C12: the reader of the encrypted handshake, with its compacted buffer, its offset and its loop
  over records, refines a reader over the plain byte stream held. The two leave the same bytes
  pending, the same input unread and the same record context. Where the stream reader reports an
  error, so does the code, with the same code in \<open>error\<close>; where it wants input, so does the code;
  and where it takes a message, the code returns OK with the message's length and type and its
  bytes at the front of \<open>msg_buf\<close>. No other field of the context changes, and \<open>error\<close> changes
  only on an error.\<close>

theorem reader_refines_stream:
  assumes "buf_wf hs" "tls13_read_encrypted_hs hs recv = (hs', recv', r, ty, n)"
  shows "\<exists>out. read_stream (hs_read_ctx hs) (pending hs) recv = (hs_read_ctx hs', pending hs', recv', out)
    \<and> (case out of
         Inl e \<Rightarrow> r = kTLS13_Error \<and> hs_error hs' = e
       | Inr None \<Rightarrow> r = kTLS13_WantRead \<and> hs_error hs' = hs_error hs
       | Inr (Some m) \<Rightarrow> r = kTLS13_OK \<and> n = length m \<and> ty = hd m \<and> take n (msg_buf hs') = m \<and> hs_error hs' = hs_error hs)
    \<and> buf_wf hs' \<and> erase hs' = erase hs"
proof -
  obtain out where out: "read_stream (hs_read_ctx hs) (pending hs) recv = (hs_read_ctx hs', pending hs', recv', out)"
    "(r, n) = read_result out" "buf_wf hs'" "erase hs' = erase hs" and
    c: "case out of Inl e \<Rightarrow> hs_error hs' = e | Inr None \<Rightarrow> hs_error hs' = hs_error hs
     | Inr (Some m) \<Rightarrow> hs_error hs' = hs_error hs \<and> rd (msg_buf hs') 0 (length m) = m \<and> ty = byte_at (msg_buf hs') 0"
    using read_encrypted_hs_refines [OF assms] by blast
  have "length m \<le> HS_BUF \<and> 4 \<le> length m" if "out = Inr (Some m)" for m
    using read_stream_delivers [OF out(1) [unfolded that]] by auto
  moreover from this have "take (length m) (msg_buf hs') = m" if "out = Inr (Some m)" for m
    using c out(3) that rd_eq_take_drop [of 0 "length m" "msg_buf hs'"] by (simp add: buf_wf_def)
  ultimately have "ty = hd m \<and> take (length m) (msg_buf hs') = m" if "out = Inr (Some m)" for m
    using c that by (cases m; cases "msg_buf hs'") (force simp: byte_at_def)+
  with out c show ?thesis by (cases out rule: read_result.cases) auto
qed

theorem reader_refines_stream_witness:
  "\<exists>hs'. tls13_read_encrypted_hs ((tls13_handshake_init ())\<lparr>plain_buf := [8, 0, 0, 2, 0, 0] @ replicate (HS_BUF - 6) 0, plain_len := 6\<rparr>) []
       = (hs', [], kTLS13_OK, 8, 6) \<and> take 6 (msg_buf hs') = [8, 0, 0, 2, 0, 0]"
proof -
  let ?h = "(tls13_handshake_init ())\<lparr>plain_buf := [8, 0, 0, 2, 0, 0] @ replicate (HS_BUF - 6) 0, plain_len := 6\<rparr>"
  obtain hs' recv' r ty n where e: "tls13_read_encrypted_hs ?h [] = (hs', recv', r, ty, n)" by (metis prod.collapse)
  have w: "buf_wf ?h" "hs_read_ctx ?h = zero_record_ctx" by (simp_all add: buf_wf_def tls13_handshake_init_def HS_BUF_def)
  have p: "pending ?h = [8, 0, 0, 2, 0, 0]"
    by (simp add: pending_def tls13_handshake_init_def rd_def byte_at_def upt_rec)
  have "first_message [8, 0, 0, 2, 0, 0] = Message [8, 0, 0, 2, 0, 0] []"
    by (simp add: first_message_def get_u24_def byte_at_def HS_BUF_def)
  then have "read_stream c [8, 0, 0, 2, 0, 0] [] = (c, [], [], Inr (Some [8, 0, 0, 2, 0, 0]))" for c
    by (subst read_stream.simps) simp
  with reader_refines_stream [OF w(1) e] show ?thesis unfolding w(2) p e by (auto simp: eval_nat_numeral)
qed

end
