(* ===== verification/Hs_Safety.thy ===== *)
theory Hs_Safety
  imports Hs_Stream
begin

text \<open>
  Invariants of the handshake context under \<open>tls13_handshake_step\<close>, for any input and any
  behaviour of the primitives: every array keeps its length (a write past an array's end would
  lengthen the list), every length field stays within its array, and the running transcript is
  the hash of some byte string once the handshake has begun; the states advance in order except
  for the single restart of a HelloRetryRequest.
\<close>

section \<open>The invariant\<close>

definition ctx_arrays :: "'x hs_ctx \<Rightarrow> bool" where
  "ctx_arrays hs \<longleftrightarrow>
     length (ecdhe_secret hs) = 64 \<and> ecdhe_secret_len hs \<le> 64 \<and>
     length (ecdhe_public hs) = 133 \<and> ecdhe_public_len hs \<le> 133 \<and>
     length (ch_random hs) = 32 \<and> length (ch_session_id hs) = 32 \<and>
     length (client_hs_secret hs) = 64 \<and> length (server_hs_secret hs) = 64 \<and>
     length (hs_cookie hs) = 256 \<and> hs_cookie_len hs \<le> 256 \<and> length (res_master hs) = 64"

definition ctx_keys :: "'x hs_ctx \<Rightarrow> bool" where
  "ctx_keys hs \<longleftrightarrow>
     length (ks_secret (hs_ks hs)) = 64 \<and> length (ks_empty_hash (hs_ks hs)) = 64 \<and>
     ks_hash_len (hs_ks hs) \<le> br_digest_size (ks_hash (hs_ks hs)) \<and>
     length (rc_key (hs_read_ctx hs)) = 32 \<and> length (rc_iv (hs_read_ctx hs)) = 12 \<and>
     length (rc_key (hs_write_ctx hs)) = 32 \<and> length (rc_iv (hs_write_ctx hs)) = 12"

definition transcript_wf :: "transcript \<Rightarrow> bool" where
  "transcript_wf t \<longleftrightarrow> (\<exists>m. transcript_repr t (t_hash t) m)"

definition ctx_transcript :: "'x hs_ctx \<Rightarrow> bool" where
  "ctx_transcript hs \<longleftrightarrow>
     length (s_buf (t_sha256 (hs_transcript hs))) = 64 \<and> length (b_buf (t_sha384 (hs_transcript hs))) = 128 \<and>
     (hs_state hs \<noteq> kTLS13_SendClientHello \<or> hrr_received hs \<longrightarrow> transcript_wf (hs_transcript hs))"

definition hs_ok :: "'x hs_ctx \<Rightarrow> bool" where
  "hs_ok hs \<longleftrightarrow> ctx_arrays hs \<and> ctx_keys hs \<and> ctx_transcript hs \<and> buf_wf hs \<and> msg_len hs \<le> HS_BUF
     \<and> pending_recv_msg_len hs \<le> HS_BUF \<and> \<not> hrr_pending hs"

lemmas hs_ok_defs = hs_ok_def ctx_arrays_def ctx_keys_def ctx_transcript_def

lemma hs_ok_init: "hs_ok (tls13_handshake_init xc)"
  by (simp add: hs_ok_defs buf_wf_def tls13_handshake_init_def zero_ctx256_def zero_ctx384_def
      zero_record_ctx_def)

lemma hs_ok_fail [simp]: "hs_ok (hs_fail e hs) = hs_ok hs" "hs_ok (hs_fail_at e s hs) = hs_ok hs"
  by (simp_all add: hs_fail_def hs_fail_at_def hs_ok_defs buf_wf_def)

lemma transcript_wf_facts:
  assumes "transcript_wf t"
  shows "t_hash_len t = br_digest_size (t_hash t)" "length (s_buf (t_sha256 t)) = 64"
    "length (b_buf (t_sha384 t)) = 128"
  using assms by (auto simp: transcript_wf_def transcript_repr_def)

text \<open>Fields the invariant does not mention, and some it does.\<close>

lemma hs_ok_upd [simp]:
  "hs_ok (hs\<lparr>hs_error := e\<rparr>) = hs_ok hs" "hs_ok (hs\<lparr>fail_site := f\<rparr>) = hs_ok hs"
  "hs_ok (hs\<lparr>hs_cipher_suite := s\<rparr>) = hs_ok hs" "hs_ok (hs\<lparr>is_tls13 := b\<rparr>) = hs_ok hs"
  "hs_ok (hs\<lparr>hrr_group := g\<rparr>) = hs_ok hs" "hs_ok (hs\<lparr>resumption_accepted := b\<rparr>) = hs_ok hs"
  "hs_ok (hs\<lparr>hs_x509 := x\<rparr>) = hs_ok hs" "hs_ok (hs\<lparr>hs_eng := eng\<rparr>) = hs_ok hs"
  "hs_ok (hs\<lparr>ch_fields_valid := b\<rparr>) = hs_ok hs" "hs_ok (hs\<lparr>msg_offset := n\<rparr>) = hs_ok hs"
  by (simp_all add: hs_ok_defs buf_wf_def)

lemma hs_ok_retry:
  "hs_ok hs \<Longrightarrow> hs_state hs \<noteq> kTLS13_SendClientHello \<Longrightarrow> hs_ok (hs\<lparr>hrr_received := b\<rparr>)"
  "hs_ok hs \<Longrightarrow> transcript_wf t \<Longrightarrow> hs_ok (hs\<lparr>hs_transcript := t\<rparr>)"
  "hs_ok hs \<Longrightarrow> hs_ok (hs\<lparr>ecdhe_secret := replicate 64 0\<rparr>)"
  by (simp_all add: hs_ok_defs buf_wf_def transcript_wf_facts)

lemma hrr_pending_clear: "\<not> hrr_pending hs \<Longrightarrow> hs\<lparr>hrr_pending := False\<rparr> = hs"
  by (cases hs) simp

lemma transcript_wf_ops:
  "transcript_wf t \<Longrightarrow> transcript_wf (tls13_transcript_update t d)"
  "transcript_wf t \<Longrightarrow> transcript_wf (tls13_transcript_reset_for_hrr t)"
  "length (s_buf (t_sha256 t)) = 64 \<Longrightarrow> length (b_buf (t_sha384 t)) = 128 \<Longrightarrow>
     transcript_wf (tls13_transcript_init t a)"
proof -
  have h: "transcript_repr t a m \<Longrightarrow> t_hash t = a" for t a m by (simp add: transcript_repr_def)
  show "transcript_wf t \<Longrightarrow> transcript_wf (tls13_transcript_update t d)"
    unfolding transcript_wf_def using transcript_repr_update h by metis
  show "transcript_wf t \<Longrightarrow> transcript_wf (tls13_transcript_reset_for_hrr t)"
    unfolding transcript_wf_def using transcript_repr_hrr h by metis
  show "length (s_buf (t_sha256 t)) = 64 \<Longrightarrow> length (b_buf (t_sha384 t)) = 128 \<Longrightarrow>
     transcript_wf (tls13_transcript_init t a)"
    unfolding transcript_wf_def using transcript_repr_init h by metis
qed

section \<open>Reads\<close>

lemma read_stream_seq:
  assumes "read_stream c s recv = (c', s', recv', out)"
  shows "\<exists>q. c' = c\<lparr>rc_seq := q\<rparr>"
  using assms
proof (induction c s recv rule: read_stream.induct)
  case (1 c s recv)
  note S = read_stream.simps [of c s recv]
  have r: "\<exists>q. c = c\<lparr>rc_seq := q\<rparr>" by (intro exI [of _ "rc_seq c"]) simp
  show ?case
  proof (cases "first_message s")
    case Need
    show ?thesis
    proof (cases "first_record recv")
      case (Some y)
      then obtain t payload rest where fr: "first_record recv = Some (t, payload, rest)" by (cases y) auto
      obtain c1 buf d where dec: "tls13_record_decrypt c payload = (c1, buf, d)" by (metis prod_cases3)
      have c1: "\<exists>q. c1 = c\<lparr>rc_seq := q\<rparr>"
        using record_decrypt_outcomes [OF dec] r by (auto split: option.splits)
      show ?thesis
      proof (cases "\<not> HS_BUF < length payload \<and> t = TLS13_CT_CHANGE_CIPHER_SPEC")
        case True
        then show ?thesis using 1(1) [OF Need fr refl refl] 1(3) S Need fr by simp
      next
        case other: False
        show ?thesis
        proof (cases "\<exists>n. d = Some (n, TLS13_CT_HANDSHAKE) \<and> \<not> HS_BUF < length payload
             \<and> t = TLS13_CT_APPLICATION_DATA \<and> \<not> HS_BUF < length s + length payload")
          case True
          then obtain n where d: "d = Some (n, TLS13_CT_HANDSHAKE)" "\<not> HS_BUF < length payload"
            "t = TLS13_CT_APPLICATION_DATA" "\<not> HS_BUF < length s + length payload" by blast
          then have "read_stream c1 (s @ take n buf) rest = (c', s', recv', out)"
            using 1(3) S Need fr dec other by simp
          from 1(2) [OF Need fr refl refl d(2) _ _ d(4) dec [symmetric] refl d(1) refl _ this] c1 d other
          show ?thesis by auto
        next
          case False
          with other 1(3) S Need fr dec c1 r show ?thesis
            by (auto split: if_splits option.splits)
        qed
      qed
    qed (use 1(3) S Need r in simp)
  qed (use 1(3) S r in simp_all)
qed

lemma read_ok:
  assumes ok: "hs_ok hs" and e: "tls13_read_encrypted_hs hs recv = (hs', recv', r, ty, n)"
  shows "hs_ok hs'" "erase hs' = erase hs" "r = kTLS13_OK \<Longrightarrow> n \<le> HS_BUF"
    "r \<in> {kTLS13_OK, kTLS13_WantRead, kTLS13_Error}"
proof -
  have wf: "buf_wf hs" using ok by (simp add: hs_ok_def)
  obtain out where o: "read_stream (hs_read_ctx hs) (pending hs) recv = (hs_read_ctx hs', pending hs', recv', out)"
    "buf_wf hs'" "erase hs' = erase hs"
    using read_encrypted_hs_refines [OF wf e] by blast
  obtain q where q: "hs_read_ctx hs' = (hs_read_ctx hs)\<lparr>rc_seq := q\<rparr>" using read_stream_seq [OF o(1)] by blast
  have "hs_ok (erase hs'\<lparr>hs_read_ctx := hs_read_ctx hs', msg_buf := msg_buf hs', plain_buf := plain_buf hs',
     plain_len := plain_len hs', plain_offset := plain_offset hs'\<rparr>)"
    unfolding o(3) using ok o(2) by (simp add: erase_def hs_ok_defs buf_wf_def q)
  then show "hs_ok hs'" by (simp add: erase_def hs_ok_defs buf_wf_def)
  show "erase hs' = erase hs" by (fact o)
  show "r = kTLS13_OK \<Longrightarrow> n \<le> HS_BUF" using read_encrypted_hs_ok(4) [OF wf] e by blast
  show "r \<in> {kTLS13_OK, kTLS13_WantRead, kTLS13_Error}" by (rule read_encrypted_hs_wf(3) [OF wf e])
qed

section \<open>Keys have their lengths\<close>

lemma length_expand_label:
  "n \<le> br_digest_size a \<Longrightarrow> length (hkdf_expand_label a s l c n) = n"
  by (simp add: hkdf_expand_label_def Let_def)

lemma digest_size_range: "32 \<le> br_digest_size a" "br_digest_size a \<le> 48"
  by (cases a; simp)+

lemma digest_size_64 [simp]: "br_digest_size a \<le> 64"
  by (cases a) simp_all

lemma key_len_range: "tls13_key_len_for_suite s \<le> 32"
  by (simp add: tls13_key_len_for_suite_def)

lemma length_derive_secret:
  "hl \<le> br_digest_size a \<Longrightarrow> length (derive_secret a hl s l th) = hl"
  by (simp add: derive_secret_def length_expand_label)

lemma length_hkdf_extract [simp]: "length (hkdf_extract a salt ikm) = br_digest_size a"
  by (simp add: hkdf_extract_eq)

lemma length_traffic_keys:
  assumes "ks_hash_len ks \<le> br_digest_size (ks_hash ks)" "kl \<le> 32"
  shows "length (client_key (tls13_ks_derive_handshake_keys ks th kl)) = kl"
    "length (server_key (tls13_ks_derive_handshake_keys ks th kl)) = kl"
    "length (client_iv (tls13_ks_derive_handshake_keys ks th kl)) = 12"
    "length (server_iv (tls13_ks_derive_handshake_keys ks th kl)) = 12"
    "length (client_secret (tls13_ks_derive_handshake_keys ks th kl)) = ks_hash_len ks"
    "length (server_secret (tls13_ks_derive_handshake_keys ks th kl)) = ks_hash_len ks"
    "length (client_key (tls13_ks_derive_app_keys ks th kl)) = kl"
    "length (server_key (tls13_ks_derive_app_keys ks th kl)) = kl"
    "length (client_iv (tls13_ks_derive_app_keys ks th kl)) = 12"
    "length (server_iv (tls13_ks_derive_app_keys ks th kl)) = 12"
proof -
  have "kl \<le> br_digest_size (ks_hash ks)" using assms(2) digest_size_range(1) by (rule order_trans)
  then show "length (client_key (tls13_ks_derive_handshake_keys ks th kl)) = kl"
    "length (server_key (tls13_ks_derive_handshake_keys ks th kl)) = kl"
    "length (client_iv (tls13_ks_derive_handshake_keys ks th kl)) = 12"
    "length (server_iv (tls13_ks_derive_handshake_keys ks th kl)) = 12"
    "length (client_secret (tls13_ks_derive_handshake_keys ks th kl)) = ks_hash_len ks"
    "length (server_secret (tls13_ks_derive_handshake_keys ks th kl)) = ks_hash_len ks"
    "length (client_key (tls13_ks_derive_app_keys ks th kl)) = kl"
    "length (server_key (tls13_ks_derive_app_keys ks th kl)) = kl"
    "length (client_iv (tls13_ks_derive_app_keys ks th kl)) = 12"
    "length (server_iv (tls13_ks_derive_app_keys ks th kl)) = 12"
    using assms
    by (simp_all add: tls13_ks_derive_handshake_keys_def tls13_ks_derive_app_keys_def Let_def
        length_expand_label length_derive_secret)
qed

lemma record_init_lengths [simp]:
  "length key \<le> 32 \<Longrightarrow> length (rc_key c) = 32 \<Longrightarrow> length (rc_key (tls13_record_init c key iv su)) = 32"
  "length (rc_iv (tls13_record_init c key iv su)) = 12"
  by (simp_all add: tls13_record_init_def)

lemma record_encrypt_ctx: "fst (tls13_record_encrypt c pt ct) = c\<lparr>rc_seq := rc_seq c + 1\<rparr>"
  by (simp add: record_encrypt_seal)

section \<open>Each handler keeps the invariant\<close>

text \<open>What an encrypted-phase handler stores.\<close>

lemma hs_ok_store:
  assumes "hs_ok hs" "hs_state hs \<noteq> kTLS13_SendClientHello"
  shows "hs_ok (hs\<lparr>hs_transcript := tls13_transcript_update (hs_transcript hs) d, hs_state := st\<rparr>)"
    "hs_ok (hs\<lparr>cert_request_received := b, hs_transcript := tls13_transcript_update (hs_transcript hs) d, hs_state := st\<rparr>)"
    "hs_ok (hs\<lparr>server_pkey := pk, hs_transcript := tls13_transcript_update (hs_transcript hs) d, hs_state := st\<rparr>)"
    "n \<le> HS_BUF \<Longrightarrow> hs_ok (hs\<lparr>pending_recv_msg_len := n, hs_state := st\<rparr>)"
proof -
  have w: "transcript_wf (hs_transcript hs)" using assms by (simp add: hs_ok_defs)
  note u = transcript_wf_ops(1) [OF w, of d]
  show "hs_ok (hs\<lparr>hs_transcript := tls13_transcript_update (hs_transcript hs) d, hs_state := st\<rparr>)"
    "hs_ok (hs\<lparr>cert_request_received := b, hs_transcript := tls13_transcript_update (hs_transcript hs) d, hs_state := st\<rparr>)"
    "hs_ok (hs\<lparr>server_pkey := pk, hs_transcript := tls13_transcript_update (hs_transcript hs) d, hs_state := st\<rparr>)"
    "n \<le> HS_BUF \<Longrightarrow> hs_ok (hs\<lparr>pending_recv_msg_len := n, hs_state := st\<rparr>)"
    using assms u w transcript_wf_facts(2,3) [OF u] by (simp_all add: hs_ok_defs buf_wf_def)
qed

lemma recv_encrypted_extensions_ok:
  assumes "hs_ok hs" "hs_state hs \<noteq> kTLS13_SendClientHello"
    "tls13_state_recv_encrypted_extensions hs recv = (hs', recv', r)"
  shows "hs_ok hs'"
proof -
  obtain h rv q ty n where e: "tls13_read_encrypted_hs hs recv = (h, rv, q, ty, n)" by (metis prod.collapse)
  note R = read_ok [OF assms(1) e]
  have "hs_state h \<noteq> kTLS13_SendClientHello" using erase_frame(1) [OF R(2)] assms(2) by simp
  from hs_ok_store(1) [OF R(1) this] R(1) assms(3) show ?thesis
    by (auto simp: tls13_state_recv_encrypted_extensions_def e Let_def split: if_splits)
qed

lemma recv_cert_request_or_cert_ok:
  assumes "hs_ok hs" "hs_state hs \<noteq> kTLS13_SendClientHello"
    "tls13_state_recv_cert_request_or_cert hs recv = (hs', recv', r)"
  shows "hs_ok hs'"
proof -
  obtain h rv q ty n where e: "tls13_read_encrypted_hs hs recv = (h, rv, q, ty, n)" by (metis prod.collapse)
  note R = read_ok [OF assms(1) e]
  have "hs_state h \<noteq> kTLS13_SendClientHello" using erase_frame(1) [OF R(2)] assms(2) by simp
  from hs_ok_store(2,4) [OF R(1) this] R(1,3) assms(3) show ?thesis
    by (auto simp: tls13_state_recv_cert_request_or_cert_def e Let_def split: if_splits)
qed

lemma cert_validate_ok:
  assumes "hs_ok hs" "hs_state hs \<noteq> kTLS13_SendClientHello" "cert_validate P hs host certs = (hs', b)"
  shows "hs_ok hs'"
proof -
  have x: "hs_ok (hs\<lparr>hs_x509 := xc\<rparr>)" for xc using assms(1) by (simp add: hs_ok_defs buf_wf_def)
  have "hs_ok (hs\<lparr>hs_x509 := xc, server_pkey := pk,
      hs_transcript := tls13_transcript_update (hs_transcript hs) d, hs_state := st\<rparr>)" for xc pk d st
    using hs_ok_store(3) [OF x [of xc], where pk = pk and d = d and st = st] assms(2) by simp
  with x assms(3) show ?thesis
    by (auto simp: cert_validate_def Let_def split_beta split: if_splits option.splits)
qed

lemma recv_certificate_ok:
  assumes "hs_ok hs" "hs_state hs \<noteq> kTLS13_SendClientHello"
    "tls13_state_recv_certificate P hs recv host = (hs', recv', r)"
  shows "hs_ok hs'"
proof -
  obtain h rv q ty n where e: "(if 0 < pending_recv_msg_len hs
             then (hs\<lparr>pending_recv_msg_len := 0\<rparr>, recv, kTLS13_OK, byte_at (msg_buf hs) 0, pending_recv_msg_len hs)
             else tls13_read_encrypted_hs hs recv) = (h, rv, q, ty, n)" by (metis prod.collapse)
  have "hs_ok (hs\<lparr>pending_recv_msg_len := 0\<rparr>)" using assms(1) by (simp add: hs_ok_defs buf_wf_def)
  then have h: "hs_ok h \<and> hs_state h \<noteq> kTLS13_SendClientHello"
  proof (cases "0 < pending_recv_msg_len hs")
    case False
    then have "tls13_read_encrypted_hs hs recv = (h, rv, q, ty, n)" using e by simp
    note R = read_ok [OF assms(1) this]
    show ?thesis using R(1) erase_frame(1) [OF R(2)] assms(2) by simp
  qed (use e assms(2) in auto)
  have v: "hs_ok (fst (cert_validate P h host certs))" for certs
    by (rule cert_validate_ok [of h P host certs _ "snd (cert_validate P h host certs)"]) (use h in simp_all)
  from v h assms(3) show ?thesis
    by (auto simp: tls13_state_recv_certificate_def e Let_def split_beta split: if_splits sum.splits)
qed

lemma recv_certificate_verify_ok:
  assumes "hs_ok hs" "hs_state hs \<noteq> kTLS13_SendClientHello"
    "tls13_state_recv_certificate_verify P hs recv = (hs', recv', r)"
  shows "hs_ok hs'"
proof -
  obtain h rv q ty n where e: "tls13_read_encrypted_hs hs recv = (h, rv, q, ty, n)" by (metis prod.collapse)
  note R = read_ok [OF assms(1) e]
  have "hs_state h \<noteq> kTLS13_SendClientHello" using erase_frame(1) [OF R(2)] assms(2) by simp
  from hs_ok_store(1) [OF R(1) this] R(1) assms(3) show ?thesis
    by (auto simp: tls13_state_recv_certificate_verify_def e Let_def split: if_splits option.splits)
qed

lemma ks_master_lengths:
  "ks_hash (tls13_ks_extract_master ks) = ks_hash ks"
  "ks_hash_len (tls13_ks_extract_master ks) = ks_hash_len ks"
  "length (ks_secret ks) = 64 \<Longrightarrow> length (ks_secret (tls13_ks_extract_master ks)) = 64"
  "ks_empty_hash (tls13_ks_extract_master ks) = ks_empty_hash ks"
  by (simp_all add: tls13_ks_extract_master_def Let_def max_absorb1)

lemma rf_install_keys_ok:
  assumes ok: "hs_ok hs" and st: "hs_state hs \<noteq> kTLS13_SendClientHello"
  shows "hs_ok (rf_install_keys hs n)"
proof -
  let ?t = "tls13_transcript_update (hs_transcript hs) (rd (msg_buf hs) 0 (4 + n))"
  let ?ks = "tls13_ks_extract_master (hs_ks hs)" and ?kl = "tls13_key_len_for_suite (hs_cipher_suite hs)"
  have w: "transcript_wf ?t" using ok st by (intro transcript_wf_ops(1)) (simp add: hs_ok_defs)
  note T = transcript_wf_facts [OF w] digest_size_range(2) [of "t_hash ?t"]
  have ks: "ks_hash_len ?ks \<le> br_digest_size (ks_hash ?ks)"
    using ok by (simp add: ks_master_lengths hs_ok_defs)
  note K = length_traffic_keys [OF ks key_len_range [of "hs_cipher_suite hs"]]
  show ?thesis
    using ok st w T K(7-) ks key_len_range [of "hs_cipher_suite hs"]
    by (simp add: rf_install_keys_def Let_def hs_ok_defs buf_wf_def ks_master_lengths max_absorb1)
qed

lemma recv_finished_ok:
  assumes "hs_ok hs" "hs_state hs \<noteq> kTLS13_SendClientHello"
    "tls13_state_recv_finished hs recv = (hs', recv', r)"
  shows "hs_ok hs'"
proof -
  obtain h rv q ty n where e: "tls13_read_encrypted_hs hs recv = (h, rv, q, ty, n)" by (metis prod.collapse)
  note R = read_ok [OF assms(1) e]
  have "hs_state h \<noteq> kTLS13_SendClientHello" using erase_frame(1) [OF R(2)] assms(2) by simp
  from rf_install_keys_ok [OF R(1) this] R(1) assms(3) show ?thesis
    by (auto simp: tls13_state_recv_finished_def e Let_def split: if_splits)
qed

lemma hs_ok_write_ctx:
  "hs_ok hs \<Longrightarrow> hs_ok (hs\<lparr>hs_write_ctx := (hs_write_ctx hs)\<lparr>rc_seq := q\<rparr>\<rparr>)"
  by (simp add: hs_ok_defs buf_wf_def)

lemma hs_ok_finish:
  assumes "hs_ok hs" "hs_state hs \<noteq> kTLS13_SendClientHello"
    and "length mb \<le> HS_BUF" "ml \<le> HS_BUF" "length rm \<le> 64" "length key \<le> 32"
  shows "hs_ok (hs\<lparr>msg_buf := wr (msg_buf hs) 0 mb, msg_len := ml, msg_offset := 0,
     hs_transcript := tls13_transcript_update (hs_transcript hs) d,
     res_master := wr (res_master hs) 0 rm, res_master_valid := True,
     hs_write_ctx := tls13_record_init (hs_write_ctx hs) key iv su,
     client_hs_secret := replicate 64 0, server_hs_secret := replicate 64 0, hs_state := kTLS13_Complete\<rparr>)"
proof -
  have w: "transcript_wf (hs_transcript hs)" using assms by (simp add: hs_ok_defs)
  note u = transcript_wf_ops(1) [OF w, of d]
  show ?thesis
    using assms u transcript_wf_facts(2,3) [OF u] by (simp add: hs_ok_defs buf_wf_def max_absorb1)
qed

lemma send_finished_ok:
  assumes ok: "hs_ok hs" and st: "hs_state hs \<noteq> kTLS13_SendClientHello"
    and e: "tls13_state_send_finished hs = (hs', r)"
  shows "hs_ok hs'"
proof -
  define w where "w = hs\<lparr>hs_write_ctx := (hs_write_ctx hs)\<lparr>rc_seq := rc_seq (hs_write_ctx hs) + 1\<rparr>\<rparr>"
  have w: "hs_ok w" "hs_state w \<noteq> kTLS13_SendClientHello"
    using hs_ok_write_ctx [OF ok] st by (simp_all add: w_def)
  have hl: "ks_hash_len (hs_ks hs) \<le> br_digest_size (ks_hash (hs_ks hs))" using ok by (simp add: hs_ok_defs)
  have rm: "length (tls13_ks_derive_resumption_master (hs_ks hs) th) \<le> 64" for th
    using order_trans [OF hl digest_size_range(2)] hl
    by (simp add: tls13_ks_derive_resumption_master_def length_derive_secret)
  show ?thesis
    using e hs_ok_finish [OF w _ _ rm] w(1) key_len_range [of "hs_cipher_suite hs"]
    unfolding tls13_state_send_finished_def Let_def record_encrypt_seal prod.case
    by (auto simp: w_def split: if_splits)
qed

section \<open>ServerHello\<close>

definition sh_same :: "'x hs_ctx \<Rightarrow> 'x hs_ctx \<Rightarrow> bool" where
  "sh_same hs hs' \<longleftrightarrow>
     hs' = hs\<lparr>hs_cookie := hs_cookie hs', hs_cookie_len := hs_cookie_len hs',
              resumption_accepted := resumption_accepted hs', hs_error := hs_error hs'\<rparr>
     \<and> (length (hs_cookie hs) = 256 \<and> hs_cookie_len hs \<le> 256
        \<longrightarrow> length (hs_cookie hs') = 256 \<and> hs_cookie_len hs' \<le> 256)"

lemma sh_same_refl: "sh_same hs hs"
  by (simp add: sh_same_def)

lemma sh_same_trans:
  assumes "sh_same a b" "sh_same b c"
  shows "sh_same a c"
proof -
  have b: "b = a\<lparr>hs_cookie := hs_cookie b, hs_cookie_len := hs_cookie_len b,
      resumption_accepted := resumption_accepted b, hs_error := hs_error b\<rparr>"
    and c: "c = b\<lparr>hs_cookie := hs_cookie c, hs_cookie_len := hs_cookie_len c,
      resumption_accepted := resumption_accepted c, hs_error := hs_error c\<rparr>"
    using assms by (simp_all add: sh_same_def)
  have "c = a\<lparr>hs_cookie := hs_cookie c, hs_cookie_len := hs_cookie_len c,
      resumption_accepted := resumption_accepted c, hs_error := hs_error c\<rparr>"
    by (subst c, subst b) simp
  then show ?thesis using assms by (simp add: sh_same_def)
qed

lemma sh_same_ok:
  assumes "sh_same hs hs'" "hs_ok hs"
  shows "hs_ok hs'"
proof -
  have h: "hs' = hs\<lparr>hs_cookie := hs_cookie hs', hs_cookie_len := hs_cookie_len hs',
      resumption_accepted := resumption_accepted hs', hs_error := hs_error hs'\<rparr>"
    using assms(1) by (simp add: sh_same_def)
  have "length (hs_cookie hs') = 256 \<and> hs_cookie_len hs' \<le> 256"
    using assms by (simp add: sh_same_def hs_ok_defs)
  then show ?thesis
    by (subst h) (insert assms(2), simp add: hs_ok_defs buf_wf_def)
qed

lemma sh_extension_same:
  assumes "sh_extension hs sh msg ty d n = (hs', out)"
  shows "sh_same hs hs'"
proof (cases "ty = TLS13_EXT_COOKIE")
  case True
  then show ?thesis
    using assms by (auto simp: sh_extension_def Let_def sh_same_def hs_fail_def ext_defs max_def split: if_splits)
next
  case False
  then show ?thesis
    using assms by (auto simp: sh_extension_def Let_def sh_same_def hs_fail_def split: if_splits)
qed

lemma sh_extensions_same:
  assumes "sh_extensions hs sh msg pos e = (hs', out)"
  shows "sh_same hs hs'"
  using assms
proof (induction hs sh msg pos e rule: sh_extensions.induct)
  case (1 hs sh msg pos e)
  obtain h o1 where x: "sh_extension hs sh msg (get_u16 msg pos) (pos + 4) (unat (get_u16 msg (pos + 2))) = (h, o1)"
    by (metis prod.collapse)
  note s = sh_extension_same [OF x]
  show ?case
  proof (cases o1)
    case (Stop r)
    then show ?thesis using 1(2) x s
      by (subst (asm) sh_extensions.simps) (auto simp: Let_def sh_same_refl sh_same_def hs_fail_def split: if_splits)
  next
    case (Go sh')
    then show ?thesis using 1 x s sh_same_trans [OF s]
      by (subst (asm) (2) sh_extensions.simps)
         (auto simp: Let_def sh_same_refl sh_same_def hs_fail_def split: if_splits)
  qed
qed

lemma sh_fail_same: "sh_same hs (hs_fail e hs)"
  by (simp add: sh_same_def hs_fail_def)

lemma sh_parse_same:
  assumes "sh_parse hs msg = (hs', out)"
  shows "sh_same hs hs'"
  using assms sh_fail_same [of hs] sh_same_refl [of hs] sh_extensions_same
  unfolding sh_parse_def Let_def by (auto split: if_splits)

lemma ks_wf_lengths:
  "ks_wf a ks \<Longrightarrow> length (ks_secret ks) = 64 \<and> length (ks_empty_hash ks) = 64
     \<and> ks_hash_len ks = br_digest_size (ks_hash ks) \<and> ks_hash ks = a"
  by (simp add: ks_wf_def)

definition sh_early :: "'x hs_ctx \<Rightarrow> keysched" where
  "sh_early hs =
     (let ks = tls13_ks_init (hs_ks hs) (t_hash (hs_transcript hs))
      in case offer_ticket hs of
           Some tk \<Rightarrow> if resumption_accepted hs
                      then tls13_ks_extract_early_psk ks (rd (tk_psk tk) 0 (tk_psk_len tk))
                      else tls13_ks_extract_early ks
         | None \<Rightarrow> tls13_ks_extract_early ks)"

text \<open>The PSK that enters the schedule: the offered ticket's when the server took it.\<close>

definition sh_psk :: "'x hs_ctx \<Rightarrow> bytes option" where
  "sh_psk hs = (case offer_ticket hs of
      Some tk \<Rightarrow> if resumption_accepted hs then Some (rd (tk_psk tk) 0 (tk_psk_len tk)) else None
    | None \<Rightarrow> None)"

lemma sh_early_wf:
  assumes "length (ks_empty_hash (hs_ks hs)) = 64"
  shows "ks_wf (t_hash (hs_transcript hs)) (sh_early hs)"
    "ks_cur (sh_early hs) = early_secret_spec (t_hash (hs_transcript hs)) (sh_psk hs)"
proof -
  note i = ks_extract_early [OF ks_wf_init [OF assms, of "t_hash (hs_transcript hs)"]]
  show "ks_wf (t_hash (hs_transcript hs)) (sh_early hs)"
    "ks_cur (sh_early hs) = early_secret_spec (t_hash (hs_transcript hs)) (sh_psk hs)"
    using i by (simp_all add: sh_early_def sh_psk_def Let_def split: option.split)
qed

lemma sh_install_keys_eq:
  "sh_install_keys hs suite shared =
     (let ks = tls13_ks_extract_handshake (sh_early hs) shared;
          k = tls13_ks_derive_handshake_keys ks (tls13_transcript_snapshot (hs_transcript hs))
                (tls13_key_len_for_suite suite)
      in hs\<lparr>hs_ks := ks,
            client_hs_secret := wr (client_hs_secret hs) 0 (client_secret k),
            server_hs_secret := wr (server_hs_secret hs) 0 (server_secret k),
            hs_read_ctx := tls13_record_init (hs_read_ctx hs) (server_key k) (server_iv k) suite,
            hs_write_ctx := tls13_record_init (hs_write_ctx hs) (client_key k) (client_iv k) suite\<rparr>)"
  by (simp only: sh_install_keys_def sh_early_def Let_def)

lemma sh_install_keys_ok:
  assumes "hs_ok hs"
  shows "hs_ok (sh_install_keys hs suite shared)"
proof -
  let ?ks = "tls13_ks_extract_handshake (sh_early hs) shared"
  have "ks_wf (t_hash (hs_transcript hs)) ?ks"
    using sh_early_wf(1) [of hs] assms by (intro ks_extract_next(1)) (simp add: hs_ok_defs)
  note w = ks_wf_lengths [OF this]
  have h: "ks_hash_len ?ks \<le> br_digest_size (ks_hash ?ks)" using w by simp
  note K = length_traffic_keys [OF h key_len_range [of suite]]
  show ?thesis
    using assms w K key_len_range [of suite]
    by (simp add: sh_install_keys_eq Let_def hs_ok_defs buf_wf_def max_absorb1)
qed

text \<open>The result of a ServerHello: the invariant, but for a retry, whose flag the driver clears.\<close>

definition sh_post :: "'x hs_ctx \<Rightarrow> 'x hs_ctx \<Rightarrow> tls13_hs_result \<Rightarrow> bool" where
  "sh_post hs hs' r \<longleftrightarrow> hs_ok (hs'\<lparr>hrr_pending := False\<rparr>) \<and> hs_state hs' = hs_state hs
     \<and> (hrr_pending hs' \<longleftrightarrow> r = kTLS13_WantRead) \<and> (hrr_received hs \<longrightarrow> hrr_received hs')
     \<and> (hrr_pending hs' \<longrightarrow> \<not> hrr_received hs \<and> hrr_received hs') \<and> r \<noteq> kTLS13_WantWrite"

lemma sh_post_stay:
  assumes "hs_ok hs'" "hs_state hs' = hs_state hs" "hrr_received hs' = hrr_received hs"
    "r \<noteq> kTLS13_WantRead" "r \<noteq> kTLS13_WantWrite"
  shows "sh_post hs hs' r"
proof -
  have "\<not> hrr_pending hs'" using assms(1) by (simp add: hs_ok_def)
  then show ?thesis unfolding sh_post_def hrr_pending_clear [OF \<open>\<not> hrr_pending hs'\<close>] using assms by simp
qed

lemma sh_retry_post:
  assumes ok: "hs_ok hs" and st: "hs_state hs \<noteq> kTLS13_SendClientHello" and e: "sh_retry hs sh msg = (hs', r)"
  shows "sh_post hs hs' r"
proof -
  have w: "transcript_wf (hs_transcript hs)" using ok st by (simp add: hs_ok_defs)
  define t where "t = tls13_transcript_update (tls13_transcript_reset_for_hrr (hs_transcript hs))
      (rd msg 0 (sh_msg_len sh + 4))"
  have t: "transcript_wf t" unfolding t_def by (intro transcript_wf_ops w)
  define h where "h = hs\<lparr>hrr_received := True, hrr_group := server_share_group sh, hs_transcript := t\<rparr>"
  have h: "hs_ok h" unfolding h_def by (intro hs_ok_retry(2) t) (simp add: hs_ok_retry(1) [OF ok st])
  have p: "\<not> hrr_pending hs" using ok by (simp add: hs_ok_def)
  consider "hs' = hs_fail_at BR_ERR_UNEXPECTED TLS13_FAIL_HRR_DOUBLE hs" "r = kTLS13_Error"
    | "hs' = hs_fail_at BR_ERR_BAD_PARAM TLS13_FAIL_HRR_GROUP_UNSUPP (hs\<lparr>hrr_received := True\<rparr>)" "r = kTLS13_Error"
    | "\<not> hrr_received hs" "hs' = h\<lparr>hrr_pending := True\<rparr>" "r = kTLS13_WantRead"
    using e by (auto simp: sh_retry_def Let_def t_def h_def split: if_splits)
  then show ?thesis
  proof cases
    case 1
    then show ?thesis using ok by (intro sh_post_stay) (simp_all add: hs_fail_at_def)
  next
    case 2
    have "hs_ok (hs\<lparr>hrr_received := True\<rparr>)" by (rule hs_ok_retry(1) [OF ok st])
    then have o: "hs_ok hs'" and n: "\<not> hrr_pending hs'" using p 2 by (simp_all add: hs_fail_at_def)
    show ?thesis unfolding sh_post_def hrr_pending_clear [OF n] using o n 2 by (simp add: hs_fail_at_def)
  next
    case 3
    have "\<not> hrr_pending h" using h by (simp add: hs_ok_def)
    then have "hs_ok (h\<lparr>hrr_pending := False\<rparr>)" using h by (subst hrr_pending_clear)
    with 3 show ?thesis by (simp add: sh_post_def) (simp add: h_def)
  qed
qed

lemma sh_regular_post:
  assumes ok: "hs_ok hs" and st: "hs_state hs \<noteq> kTLS13_SendClientHello" and e: "sh_regular P hs sh msg = (hs', r)"
  shows "sh_post hs hs' r"
proof -
  define t where "t = tls13_transcript_update (hs_transcript hs) (rd msg 0 (sh_msg_len sh + 4))"
  have t: "hs_ok (hs\<lparr>hs_transcript := t\<rparr>)"
    unfolding t_def using ok st by (intro hs_ok_retry(2) transcript_wf_ops(1)) (simp_all add: hs_ok_defs)
  have i: "hs_ok ((sh_install_keys (hs\<lparr>hs_transcript := t\<rparr>) su shared)\<lparr>ecdhe_secret := replicate 64 0\<rparr>)" for su shared
    by (intro hs_ok_retry(3) sh_install_keys_ok t)
  have same: "hs_state (sh_install_keys h su shared) = hs_state h"
    "hrr_received (sh_install_keys h su shared) = hrr_received h" for h :: "'a hs_ctx" and su shared
    by (simp_all add: sh_install_keys_def Let_def)
  show ?thesis
  proof (rule sh_post_stay)
    show "hs_ok hs'" "hs_state hs' = hs_state hs" "hrr_received hs' = hrr_received hs"
      "r \<noteq> kTLS13_WantRead" "r \<noteq> kTLS13_WantWrite"
      using e ok t i same
      unfolding sh_regular_def Let_def t_def [symmetric]
      by (auto simp: hs_fail_at_def split: if_splits option.splits)
  qed
qed

lemma sh_finish_post:
  assumes ok: "hs_ok hs" and st: "hs_state hs \<noteq> kTLS13_SendClientHello" and e: "sh_finish P hs sh msg = (hs', r)"
  shows "sh_post hs hs' r"
proof -
  let ?h = "hs\<lparr>hs_cipher_suite := sh_suite sh, is_tls13 := True\<rparr>"
  have h: "hs_ok ?h" "hs_state ?h \<noteq> kTLS13_SendClientHello" using ok st by simp_all
  have p: "sh_post ?h hs' r \<Longrightarrow> sh_post hs hs' r" by (simp add: sh_post_def)
  let ?supp = "found_supported_versions sh" and ?v = "negotiated_version sh"
  show ?thesis
  proof (cases "?supp \<and> ?v = TLS13_VERSION")
    case False
    then have "hs' = hs \<and> r = kTLS13_Fallback12 \<or> hs' = hs_fail BR_ERR_BAD_VERSION hs \<and> r = kTLS13_Error"
      using e by (simp add: sh_finish_def split: if_splits)
    then show ?thesis using ok by (elim disjE) (auto intro!: sh_post_stay simp: hs_fail_def)
  next
    case True
    then have v: "\<not> (\<not> ?supp \<or> ?v = TLS12_VERSION)" "\<not> ?v \<noteq> TLS13_VERSION" by (simp_all add: version_defs)
    note e = e [unfolded sh_finish_def Let_def if_not_P [OF v(1)] if_not_P [OF v(2)]]
    show ?thesis
    proof (cases "tls13_key_len_for_suite (sh_suite sh) = 0")
      case True
      with e have "hs' = hs_fail BR_ERR_BAD_CIPHER_SUITE ?h" "r = kTLS13_Error" by simp_all
      then show ?thesis using ok by (intro sh_post_stay) (simp_all add: hs_fail_def)
    next
      case False
      then show ?thesis
        using e sh_retry_post [OF h, of sh msg hs' r] sh_regular_post [OF h, of P sh msg hs' r]
        by (intro p) (cases "sh_is_hrr sh"; simp)
    qed
  qed
qed

lemma sh_same_frame:
  assumes "sh_same hs hs'"
  shows "hs_state hs' = hs_state hs" "hrr_received hs' = hrr_received hs" "hrr_pending hs' = hrr_pending hs"
    "hs_transcript hs' = hs_transcript hs" "hs_ks hs' = hs_ks hs" "offer_ticket hs' = offer_ticket hs"
    "ecdhe_group hs' = ecdhe_group hs" "ecdhe_secret hs' = ecdhe_secret hs"
    "ecdhe_secret_len hs' = ecdhe_secret_len hs" "hs_x509 hs' = hs_x509 hs" "server_pkey hs' = server_pkey hs"
    "erase hs' = erase hs\<lparr>hs_cookie := hs_cookie hs', hs_cookie_len := hs_cookie_len hs',
              resumption_accepted := resumption_accepted hs'\<rparr>"
proof -
  have h: "hs' = hs\<lparr>hs_cookie := hs_cookie hs', hs_cookie_len := hs_cookie_len hs',
      resumption_accepted := resumption_accepted hs', hs_error := hs_error hs'\<rparr>"
    using assms by (simp add: sh_same_def)
  show "hs_state hs' = hs_state hs" "hrr_received hs' = hrr_received hs" "hrr_pending hs' = hrr_pending hs"
    "hs_transcript hs' = hs_transcript hs" "hs_ks hs' = hs_ks hs" "offer_ticket hs' = offer_ticket hs"
    "ecdhe_group hs' = ecdhe_group hs" "ecdhe_secret hs' = ecdhe_secret hs"
    "ecdhe_secret_len hs' = ecdhe_secret_len hs" "hs_x509 hs' = hs_x509 hs" "server_pkey hs' = server_pkey hs"
    by (subst h, simp)+
  show "erase hs' = erase hs\<lparr>hs_cookie := hs_cookie hs', hs_cookie_len := hs_cookie_len hs',
              resumption_accepted := resumption_accepted hs'\<rparr>"
    by (subst h) (simp add: erase_def)
qed

lemma sh_extensions_stop: "sh_extensions hs sh msg pos e = (h, Stop r) \<Longrightarrow> r = kTLS13_Error"
proof (induction hs sh msg pos e rule: sh_extensions.induct)
  case (1 hs sh msg pos e)
  have x: "sh_extension hs sh msg ty d n = (h, Stop q) \<Longrightarrow> q = kTLS13_Error" for h ty d n q
    by (auto simp: sh_extension_def Let_def split: if_splits)
  obtain h1 o1 where e1: "sh_extension hs sh msg (get_u16 msg pos) (pos + 4) (unat (get_u16 msg (pos + 2))) = (h1, o1)"
    by (metis prod.collapse)
  note S = sh_extensions.simps [of hs sh msg pos e]
  show ?case
    using 1(1) [OF _ refl refl refl _ e1 [symmetric]] 1(2) S e1 x [of "get_u16 msg pos" "pos + 4"]
    by (cases o1) (auto simp: Let_def split: if_splits)
qed

lemma sh_parse_stop: "sh_parse hs msg = (h, Stop r) \<Longrightarrow> r = kTLS13_Error \<or> r = kTLS13_Fallback12"
  unfolding sh_parse_def Let_def by (auto dest: sh_extensions_stop split: if_splits)

lemma parse_server_hello_post:
  assumes ok: "hs_ok hs" and st: "hs_state hs \<noteq> kTLS13_SendClientHello"
    and e: "tls13_parse_server_hello P hs msg = (hs', r)"
  shows "sh_post hs hs' r"
proof -
  obtain h out where p: "sh_parse hs msg = (h, out)" by (metis prod.collapse)
  note s = sh_parse_same [OF p]
  note h = sh_same_ok [OF s ok] and f = sh_same_frame [OF s]
  have q: "sh_post h hs' r \<Longrightarrow> sh_post hs hs' r" using f(1-3) by (simp add: sh_post_def)
  show ?thesis
  proof (cases out)
    case (Go sh)
    then have "sh_finish P h sh msg = (hs', r)" using e p by (simp add: tls13_parse_server_hello_def)
    then show ?thesis using sh_finish_post [OF h] st f(1) q by simp
  next
    case (Stop x)
    then have "hs' = h" "r = x" using e p by (simp_all add: tls13_parse_server_hello_def)
    moreover have "x \<noteq> kTLS13_WantRead \<and> x \<noteq> kTLS13_WantWrite"
      using sh_parse_stop [OF p [unfolded Stop]] by auto
    ultimately show ?thesis using h f(1,2) by (intro sh_post_stay) simp_all
  qed
qed

lemma recv_server_hello_post:
  assumes ok: "hs_ok hs" and st: "hs_state hs \<noteq> kTLS13_SendClientHello"
    and e: "tls13_state_recv_server_hello P hs recv = (hs', recv', r)"
  shows "sh_post hs hs' r \<or> (hs' = hs \<and> r = kTLS13_WantRead)"
proof -
  obtain h q where p: "tls13_parse_server_hello P hs (rd recv 5 (unat (get_u16 recv 3))) = (h, q)" by fastforce
  have f: "sh_post hs (hs_fail x hs) kTLS13_Error" "sh_post hs (hs_fail x hs) kTLS13_Fallback12" for x
    using ok by (auto intro!: sh_post_stay simp: hs_fail_def)
  show ?thesis
    using e f parse_server_hello_post [OF ok st p]
    unfolding tls13_state_recv_server_hello_def Let_def p prod.case
    by (auto split: if_splits)
qed

section \<open>ClientHello\<close>

definition ch_len :: "'x chw \<Rightarrow> bool" where
  "ch_len = (\<lambda>(hs, rng, pos, ok). length (ch_random hs) = 32 \<and> length (ch_session_id hs) = 32)"

lemma ch_len_emit [simp]: "ch_len (ch_emit n b k st) = ch_len st"
  by (cases st) (simp add: ch_len_def ch_emit_def)

lemma ch_len_random: "ch_len st \<Longrightarrow> ch_len (ch_write_random st)"
  by (cases st) (auto simp: ch_len_def ch_write_random_def length_drbg_32 split_beta Let_def)

lemma ch_len_session_id: "ch_len st \<Longrightarrow> ch_len (ch_write_session_id st)"
  by (cases st) (auto simp: ch_len_def ch_write_session_id_def length_drbg_32 split_beta Let_def)

lemma ch_len_written:
  assumes "length (ch_random hs0) = 32" "length (ch_session_id hs0) = 32"
    "ch_write_front hs0 rng = (p1, p2, st)" "ch_write_extensions hs0 host st = st'"
  shows "ch_len st'"
proof -
  have "ch_len st"
    using assms(1-3) by (auto simp: ch_write_front_def Let_def intro!: ch_len_session_id ch_len_random)
      (simp add: ch_len_def)
  then show ?thesis using assms(4) by (auto simp: ch_write_extensions_def Let_def)
qed

lemma ch_partial_ok:
  assumes "hs_ok hs0" "ch_ok (hs0\<lparr>ch_random := rr, ch_session_id := ss, ch_fields_valid := True\<rparr>) (hs, rng, pos, ok) out"
    "ch_len (hs, rng, pos, ok)"
  shows "hs_ok hs"
proof -
  have h: "hs = hs0\<lparr>ch_random := rr, ch_session_id := ss, ch_fields_valid := True,
      msg_buf := msg_buf hs, ch_random := ch_random hs,
      ch_session_id := ch_session_id hs, ch_fields_valid := ch_fields_valid hs\<rparr>"
    and l: "length (msg_buf hs) = HS_BUF"
    using assms(2) by (simp_all add: ch_ok_def ch_same_but_def)
  have r: "length (ch_random hs) = 32 \<and> length (ch_session_id hs) = 32" using assms(3) by (simp add: ch_len_def)
  show ?thesis by (subst h) (insert assms(1) l r, simp add: hs_ok_defs buf_wf_def)
qed

lemma build_client_hello_safe:
  assumes ok0: "hs_ok hs0" and w: "transcript_wf (hs_transcript hs0)"
    and b: "tls13_build_client_hello hs0 host rng = (hs, rng', ok)"
  shows "hs_ok hs" "ok \<Longrightarrow> transcript_wf (hs_transcript hs)" "hs_state hs = hs_state hs0"
    "hrr_received hs = hrr_received hs0" "resumption_accepted hs = resumption_accepted hs0"
proof -
  obtain p1 p2 st where f: "ch_write_front hs0 rng = (p1, p2, st)" by (metis prod.collapse)
  obtain hs1 rng1 pos1 ok1 where e: "ch_write_extensions hs0 host st = (hs1, rng1, pos1, ok1)"
    by (metis prod.collapse)
  have l0: "length (msg_buf hs0) = HS_BUF" "length (ch_random hs0) = 32" "length (ch_session_id hs0) = 32"
    using ok0 by (simp_all add: hs_ok_defs buf_wf_def)
  obtain rr ss out where c1: "ch_ok (hs0\<lparr>ch_random := rr, ch_session_id := ss, ch_fields_valid := True\<rparr>) (hs1, rng1, pos1, ok1) out"
    using ch_written [OF l0(1) f e] by blast
  have l1: "ch_len (hs1, rng1, pos1, ok1)" by (rule ch_len_written [OF l0(2,3) f e])
  have s1: "hs_ok hs1" by (rule ch_partial_ok [OF ok0 c1 l1])
  have "hs_ok hs \<and> (ok \<longrightarrow> transcript_wf (hs_transcript hs)) \<and> hs_state hs = hs_state hs0
     \<and> hrr_received hs = hrr_received hs0 \<and> resumption_accepted hs = resumption_accepted hs0"
  proof (cases ok)
    case True
    then have b: "tls13_build_client_hello hs0 host rng = (hs, rng', True)" using b by simp
    obtain r s where rs: "if ch_fields_valid hs0 then r = ch_random hs0 \<and> s = ch_session_id hs0
                 else length r = 32 \<and> length s = 32"
      and bu: "ch_built hs0 r s hs (ch_message hs0 host (rd r 0 32) (rd s 0 32))"
      using build_client_hello_ok [OF l0(1) transcript_wf_facts(1) [OF w] b] by blast
    define m where "m = ch_message hs0 host (rd r 0 32) (rd s 0 32)"
    have h: "hs = hs0\<lparr>ch_random := r, ch_session_id := s, ch_fields_valid := True, msg_buf := msg_buf hs,
               msg_len := msg_len hs, msg_offset := 0,
               hs_transcript := tls13_transcript_update (hs_transcript hs0) m\<rparr>"
      and mb: "length (msg_buf hs) = HS_BUF" "msg_len hs \<le> HS_BUF"
      using bu unfolding ch_built_def m_def by blast+
    have l: "length r = 32" "length s = 32" using rs l0 by (auto split: if_splits)
    have t: "transcript_wf (tls13_transcript_update (hs_transcript hs0) m)" by (rule transcript_wf_ops(1) [OF w])
    have "hs_ok hs" by (subst h) (insert ok0 mb l t, simp add: hs_ok_defs buf_wf_def transcript_wf_facts)
    moreover have "hs_transcript hs = tls13_transcript_update (hs_transcript hs0) m"
      "hs_state hs = hs_state hs0" "hrr_received hs = hrr_received hs0"
      "resumption_accepted hs = resumption_accepted hs0" by (subst h, simp)+
    ultimately show ?thesis using t by simp
  next
    case False
    have h: "hs1 = hs0\<lparr>ch_random := rr, ch_session_id := ss, ch_fields_valid := True,
        msg_buf := msg_buf hs1, ch_random := ch_random hs1,
        ch_session_id := ch_session_id hs1, ch_fields_valid := ch_fields_valid hs1\<rparr>"
      using c1 by (simp add: ch_ok_def ch_same_but_def)
    have "hs_state hs1 = hs_state hs0" "hrr_received hs1 = hrr_received hs0"
      "resumption_accepted hs1 = resumption_accepted hs0" by (subst h, simp)+
    moreover have "hs = hs1"
      using b False
      by (auto simp: tls13_build_client_hello_def f e Let_def ch_emit_def split: if_splits option.splits)
    ultimately show ?thesis using s1 False by simp
  qed
  then show "hs_ok hs" "ok \<Longrightarrow> transcript_wf (hs_transcript hs)" "hs_state hs = hs_state hs0"
    "hrr_received hs = hrr_received hs0" "resumption_accepted hs = resumption_accepted hs0" by simp_all
qed

lemma generate_keypair_ok:
  assumes "hs_ok hs" "tls13_generate_keypair P hs g rng = (hs', rng', ok)"
  shows "hs_ok hs'" "hs_transcript hs' = hs_transcript hs" "hs_state hs' = hs_state hs"
    "hrr_received hs' = hrr_received hs" "resumption_accepted hs' = resumption_accepted hs"
proof -
  have "hs_ok hs' \<and> hs_transcript hs' = hs_transcript hs \<and> hs_state hs' = hs_state hs
     \<and> hrr_received hs' = hrr_received hs \<and> resumption_accepted hs' = resumption_accepted hs"
  proof -
    define F where "F = (\<lambda>x pub. hs\<lparr>ecdhe_secret := wr (ecdhe_secret hs) 0 x, ecdhe_secret_len := length x,
                ecdhe_public := wr (ecdhe_public hs) 0 pub, ecdhe_public_len := length pub, ecdhe_group := g\<rparr>)"
    have "hs' = hs \<or> (\<exists>x pub. length x \<le> 64 \<and> length pub \<le> 133 \<and> hs' = F x pub)"
      using assms(2) unfolding tls13_generate_keypair_def Let_def
      by (auto simp: F_def [THEN fun_cong, THEN fun_cong, symmetric] not_less split: if_splits prod.splits option.splits)
    then show ?thesis
    proof
      assume "\<exists>x pub. length x \<le> 64 \<and> length pub \<le> 133 \<and> hs' = F x pub"
      then obtain x pub where "length x \<le> 64" "length pub \<le> 133" "hs' = F x pub" by blast
      with assms(1) show ?thesis by (simp add: F_def hs_ok_defs buf_wf_def max_absorb1)
    qed (use assms(1) in simp)
  qed
  then show "hs_ok hs'" "hs_transcript hs' = hs_transcript hs" "hs_state hs' = hs_state hs"
    "hrr_received hs' = hrr_received hs" "resumption_accepted hs' = resumption_accepted hs" by simp_all
qed

lemma send_client_hello_ok:
  assumes ok: "hs_ok hs" and e: "tls13_state_send_client_hello P hs host = (hs', r)"
  shows "hs_ok hs'" "r = kTLS13_WantWrite \<Longrightarrow> transcript_wf (hs_transcript hs')" "hs_state hs' = hs_state hs"
    "hrr_received hs' = hrr_received hs" "resumption_accepted hs' = resumption_accepted hs"
    "r = kTLS13_WantWrite \<or> r = kTLS13_Error"
proof -
  have "hs_ok hs' \<and> (r = kTLS13_WantWrite \<longrightarrow> transcript_wf (hs_transcript hs')) \<and> hs_state hs' = hs_state hs
    \<and> hrr_received hs' = hrr_received hs \<and> resumption_accepted hs' = resumption_accepted hs
    \<and> (r = kTLS13_WantWrite \<or> r = kTLS13_Error)"
  proof (cases "hs_eng hs")
    case None
    then show ?thesis using e ok by (auto simp: tls13_state_send_client_hello_def hs_fail_def)
  next
    case (Some eng)
    define eng1 where "eng1 = (if eng_rng_init_done eng then eng else p_inject_entropy P eng)"
    define sr where "sr = br_hmac_drbg_generate (eng_rng eng1) 32"
    define h0 where "h0 = hs\<lparr>hs_eng := Some (eng1\<lparr>eng_rng := snd sr\<rparr>)\<rparr>"
    define h1 where "h1 = (if \<not> hrr_received h0
       then h0\<lparr>hs_transcript := tls13_transcript_init (hs_transcript h0) SHA256\<rparr> else h0)"
    define kg where "kg = (if hrr_received h1 then hrr_group h1 else TLS13_GROUP_X25519)"
    obtain h2 g ok2 where k: "tls13_generate_keypair P h1 kg (br_hmac_drbg_init SHA256 (fst sr)) = (h2, g, ok2)"
      by (metis prod.collapse)
    obtain h3 g3 ok3 where b: "tls13_build_client_hello h2 host g = (h3, g3, ok3)" by (metis prod.collapse)
    have h0: "hs_ok h0" using ok by (simp add: h0_def)
    have w0: "length (s_buf (t_sha256 (hs_transcript h0))) = 64" "length (b_buf (t_sha384 (hs_transcript h0))) = 128"
      using h0 by (simp_all add: hs_ok_defs)
    have w: "transcript_wf (hs_transcript h1)"
      using h0 transcript_wf_ops(3) [OF w0, of SHA256] by (auto simp: h1_def hs_ok_defs)
    have h1: "hs_ok h1" using hs_ok_retry(2) [OF h0 transcript_wf_ops(3) [OF w0]] h0 by (simp add: h1_def)
    have s1: "hs_state h1 = hs_state hs" "hrr_received h1 = hrr_received hs"
      "resumption_accepted h1 = resumption_accepted hs" by (simp_all add: h1_def h0_def)
    note G = generate_keypair_ok [OF h1 k]
    have w2: "transcript_wf (hs_transcript h2)" using w G(2) by simp
    note B = build_client_hello_safe [OF G(1) w2 b]
    have "(hs', r) = (if \<not> ok2 then (hs_fail_at BR_ERR_BAD_STATE TLS13_FAIL_KEYGEN h2, kTLS13_Error)
       else if \<not> ok3 then (hs_fail_at BR_ERR_TOO_LARGE TLS13_FAIL_CH_BUILD h3, kTLS13_Error)
       else (h3, kTLS13_WantWrite))"
      by (simp only: e [symmetric] tls13_state_send_client_hello_def Some option.case Let_def split_beta
          eng1_def [symmetric] sr_def [symmetric] h0_def [symmetric] h1_def [symmetric] kg_def [symmetric]
          k b fst_conv snd_conv)
    then show ?thesis using G B s1 by (auto simp: hs_fail_at_def split: if_splits)
  qed
  then show "hs_ok hs'" "r = kTLS13_WantWrite \<Longrightarrow> transcript_wf (hs_transcript hs')" "hs_state hs' = hs_state hs"
    "hrr_received hs' = hrr_received hs" "resumption_accepted hs' = resumption_accepted hs"
    "r = kTLS13_WantWrite \<or> r = kTLS13_Error" by blast+
qed

section \<open>The driver\<close>

lemma hs_ok_to_send:
  assumes "hs_ok (hs\<lparr>hrr_pending := False\<rparr>)" "hrr_received hs"
  shows "hs_ok (hs\<lparr>hrr_pending := False, hs_state := st\<rparr>)"
  using assms by (simp add: hs_ok_defs buf_wf_def)

lemma hs_ok_state:
  assumes "hs_ok hs" "transcript_wf (hs_transcript hs)"
  shows "hs_ok (hs\<lparr>hs_state := st\<rparr>)"
  using assms by (simp add: hs_ok_defs buf_wf_def)

lemma send_ccs_ok: "hs_ok hs \<Longrightarrow> hs_ok (fst (tls13_state_send_ccs hs))"
  by (simp add: tls13_state_send_ccs_def tls13_build_ccs_def hs_ok_defs buf_wf_def HS_BUF_def)

lemma step_keeps_ok:
  assumes ok: "hs_ok hs" and e: "tls13_handshake_step P hs recv host = (hs', recv', r)"
  shows "hs_ok hs'"
proof (cases "hs_state hs")
  case kTLS13_SendClientHello
  obtain h q where s: "tls13_state_send_client_hello P hs host = (h, q)" by fastforce
  note S = send_client_hello_ok [OF ok s]
  show ?thesis
    using e S hs_ok_state [OF S(1,2)] kTLS13_SendClientHello
    by (auto simp: tls13_handshake_step_def s split: if_splits)
next
  case kTLS13_SendCCS
  have "transcript_wf (hs_transcript (fst (tls13_state_send_ccs hs)))"
    using ok kTLS13_SendCCS by (simp add: hs_ok_defs tls13_state_send_ccs_def)
  with hs_ok_state [OF send_ccs_ok [OF ok]] send_ccs_ok [OF ok] e kTLS13_SendCCS show ?thesis
    by (auto simp: tls13_handshake_step_def split_beta Let_def split: if_splits)
next
  case kTLS13_RecvServerHello
  obtain h rv q where s: "tls13_state_recv_server_hello P hs recv = (h, rv, q)" by (metis prod.collapse)
  have st: "hs_state hs \<noteq> kTLS13_SendClientHello" using kTLS13_RecvServerHello by simp
  have D: "(hs', recv', r) =
     (if q = kTLS13_OK then (h\<lparr>hs_state := kTLS13_RecvEncryptedExtensions\<rparr>, rv, kTLS13_OK)
      else if q = kTLS13_WantRead \<and> hrr_pending h
      then (h\<lparr>hrr_pending := False, hs_state := kTLS13_SendClientHello\<rparr>, rv, kTLS13_OK)
      else (h, rv, q))"
    using e kTLS13_RecvServerHello by (simp add: tls13_handshake_step_def s)
  from recv_server_hello_post [OF ok st s] show ?thesis
  proof
    assume p: "sh_post hs h q"
    show ?thesis
    proof (cases "hrr_pending h")
      case True
      then have "q = kTLS13_WantRead" "hrr_received h" "hs_ok (h\<lparr>hrr_pending := False\<rparr>)"
        using p by (simp_all add: sh_post_def)
      then show ?thesis using D True hs_ok_to_send [of h] by simp
    next
      case False
      then have h: "hs_ok h" using p hrr_pending_clear [OF False] unfolding sh_post_def by metis
      have "transcript_wf (hs_transcript h)"
        using h p kTLS13_RecvServerHello by (simp add: hs_ok_defs sh_post_def)
      then show ?thesis using D False h hs_ok_state [OF h] by (auto split: if_splits)
    qed
  next
    assume "h = hs \<and> q = kTLS13_WantRead"
    moreover have "\<not> hrr_pending hs" using ok by (simp add: hs_ok_def)
    ultimately show ?thesis using D ok by simp
  qed
next
  case kTLS13_SendFinished
  then have "tls13_state_send_finished hs = (hs', r)"
    using e by (auto simp: tls13_handshake_step_def split_beta Let_def)
  with send_finished_ok [OF ok] kTLS13_SendFinished show ?thesis by simp
next
  case kTLS13_RecvEncryptedExtensions
  then show ?thesis using e recv_encrypted_extensions_ok [OF ok] by (simp add: tls13_handshake_step_def)
next
  case kTLS13_RecvCertRequestOrCert
  then show ?thesis using e recv_cert_request_or_cert_ok [OF ok] by (simp add: tls13_handshake_step_def)
next
  case kTLS13_RecvCertificate
  then show ?thesis using e recv_certificate_ok [OF ok] by (simp add: tls13_handshake_step_def)
next
  case kTLS13_RecvCertificateVerify
  then show ?thesis using e recv_certificate_verify_ok [OF ok] by (simp add: tls13_handshake_step_def)
next
  case kTLS13_RecvFinished
  then show ?thesis using e recv_finished_ok [OF ok] by (simp add: tls13_handshake_step_def)
next
  case kTLS13_Complete
  then show ?thesis using e ok by (simp add: tls13_handshake_step_def)
qed

text \<open>Where each handler of the encrypted phase can go.\<close>

lemma encrypted_phase_order:
  assumes ok: "hs_ok hs" and s: "kTLS13_RecvEncryptedExtensions \<le> hs_state hs"
    and e: "tls13_handshake_step P hs recv host = (hs', recv', r)"
  shows "hs_state hs \<le> hs_state hs'" "hrr_received hs' = hrr_received hs"
    "resumption_accepted hs' = resumption_accepted hs"
proof -
  obtain h rv q ty n where rd: "tls13_read_encrypted_hs hs recv = (h, rv, q, ty, n)" by (metis prod.collapse)
  note f = erase_frame [OF read_ok(2) [OF ok rd]]
  have cv: "hs_state h = kTLS13_RecvCertificate \<Longrightarrow> 5 \<le> state_index (hs_state (fst (cert_validate P h host certs)))"
      "hrr_received (fst (cert_validate P h host certs)) = hrr_received h"
      "resumption_accepted (fst (cert_validate P h host certs)) = resumption_accepted h" for h :: "'a hs_ctx" and certs
    by (auto simp: cert_validate_def Let_def split_beta hs_fail_def split: option.splits)
  have "hs_state hs \<le> hs_state hs' \<and> hrr_received hs' = hrr_received hs
      \<and> resumption_accepted hs' = resumption_accepted hs"
  proof (cases "hs_state hs")
    case kTLS13_RecvEncryptedExtensions
    then show ?thesis using e f
      by (auto simp: tls13_handshake_step_def tls13_state_recv_encrypted_extensions_def rd Let_def hs_fail_def
          state_order split: if_splits)
  next
    case kTLS13_RecvCertRequestOrCert
    then show ?thesis using e f
      by (auto simp: tls13_handshake_step_def tls13_state_recv_cert_request_or_cert_def rd Let_def hs_fail_def
          state_order split: if_splits)
  next
    case kTLS13_RecvCertificate
    obtain h2 rv2 q2 ty2 n2 where e2: "(if 0 < pending_recv_msg_len hs
             then (hs\<lparr>pending_recv_msg_len := 0\<rparr>, recv, kTLS13_OK, byte_at (msg_buf hs) 0, pending_recv_msg_len hs)
             else tls13_read_encrypted_hs hs recv) = (h2, rv2, q2, ty2, n2)" by (metis prod.collapse)
    have h2: "hs_state h2 = hs_state hs" "hrr_received h2 = hrr_received hs"
      "resumption_accepted h2 = resumption_accepted hs"
      using e2 f rd by (auto split: if_splits)
    have "hs' = h2 \<or> (\<exists>x. hs' = hs_fail x h2) \<or> (\<exists>certs. hs' = fst (cert_validate P h2 host certs))"
      using e kTLS13_RecvCertificate unfolding tls13_handshake_step_def tls13_state_recv_certificate_def e2 Let_def
      by (simp add: split_beta split: if_splits sum.splits) blast+
    then show ?thesis
      using cv [of h2] h2 kTLS13_RecvCertificate by (auto simp: state_order hs_fail_def)
  next
    case kTLS13_RecvCertificateVerify
    then show ?thesis using e f
      by (auto simp: tls13_handshake_step_def tls13_state_recv_certificate_verify_def rd Let_def hs_fail_def
          state_order split: if_splits option.splits)
  next
    case kTLS13_RecvFinished
    then show ?thesis using e f
      by (auto simp: tls13_handshake_step_def tls13_state_recv_finished_def rd Let_def hs_fail_def rf_install_keys_def
          state_order split: if_splits)
  next
    case kTLS13_SendFinished
    then show ?thesis using e
      by (auto simp: tls13_handshake_step_def tls13_state_send_finished_def Let_def hs_fail_def split_beta
          state_order split: if_splits)
  next
    case kTLS13_Complete
    then show ?thesis using e by (simp add: tls13_handshake_step_def)
  qed (use s in \<open>simp_all add: state_order\<close>)
  then show "hs_state hs \<le> hs_state hs'" "hrr_received hs' = hrr_received hs"
    "resumption_accepted hs' = resumption_accepted hs" by simp_all
qed

lemma step_order:
  assumes ok: "hs_ok hs" and e: "tls13_handshake_step P hs recv host = (hs', recv', r)"
  shows "hrr_received hs \<Longrightarrow> hrr_received hs'"
    "hs_state hs \<le> hs_state hs' \<or> hs_state hs = kTLS13_RecvServerHello \<and> hs_state hs' = kTLS13_SendClientHello
       \<and> \<not> hrr_received hs \<and> hrr_received hs'"
    "hs_state hs = kTLS13_SendClientHello \<Longrightarrow> hs_state hs' = kTLS13_RecvServerHello \<or>
       hs_state hs' = kTLS13_SendClientHello \<and> r \<noteq> kTLS13_WantWrite"
proof -
  have "(hrr_received hs \<longrightarrow> hrr_received hs') \<and>
    (hs_state hs \<le> hs_state hs' \<or> hs_state hs = kTLS13_RecvServerHello \<and> hs_state hs' = kTLS13_SendClientHello
       \<and> \<not> hrr_received hs \<and> hrr_received hs') \<and>
    (hs_state hs = kTLS13_SendClientHello \<longrightarrow> hs_state hs' = kTLS13_RecvServerHello \<or>
       hs_state hs' = kTLS13_SendClientHello \<and> r \<noteq> kTLS13_WantWrite)"
  proof (cases "kTLS13_RecvEncryptedExtensions \<le> hs_state hs")
    case True
    then show ?thesis using encrypted_phase_order [OF ok True e] by (auto simp: state_order)
  next
    case False
    then consider "hs_state hs = kTLS13_SendClientHello" | "hs_state hs = kTLS13_SendCCS"
      | "hs_state hs = kTLS13_RecvServerHello"
      by (cases "hs_state hs") (simp_all add: state_order)
    then show ?thesis
    proof cases
      case 1
      obtain h q where s: "tls13_state_send_client_hello P hs host = (h, q)" by fastforce
      show ?thesis
        using e 1 send_client_hello_ok [OF ok s] by (auto simp: tls13_handshake_step_def s state_order split: if_splits)
    next
      case 2
      then show ?thesis
        using e by (auto simp: tls13_handshake_step_def tls13_state_send_ccs_def state_order)
    next
      case 3
      obtain h rv q where s: "tls13_state_recv_server_hello P hs recv = (h, rv, q)" by (metis prod.collapse)
      have "sh_post hs h q \<or> h = hs \<and> q = kTLS13_WantRead"
        using recv_server_hello_post [OF ok _ s] 3 by simp
      moreover have "\<not> hrr_pending hs" using ok by (simp add: hs_ok_def)
      ultimately show ?thesis
        using e 3 by (auto simp: tls13_handshake_step_def s sh_post_def state_order split: if_splits)
    qed
  qed
  then show "hrr_received hs \<Longrightarrow> hrr_received hs'"
    "hs_state hs \<le> hs_state hs' \<or> hs_state hs = kTLS13_RecvServerHello \<and> hs_state hs' = kTLS13_SendClientHello
       \<and> \<not> hrr_received hs \<and> hrr_received hs'"
    "hs_state hs = kTLS13_SendClientHello \<Longrightarrow> hs_state hs' = kTLS13_RecvServerHello \<or>
       hs_state hs' = kTLS13_SendClientHello \<and> r \<noteq> kTLS13_WantWrite" by blast+
qed

section \<open>Runs\<close>

text \<open>\<open>reaches P host hs0 n hs\<close>: steps with any input lead from \<open>hs0\<close> to \<open>hs\<close>, handing out \<open>n\<close>
  ClientHellos. The input of each step is arbitrary, so that the runs include those of any
  caller and any peer.\<close>

inductive reaches :: "'x prims \<Rightarrow> bytes \<Rightarrow> 'x hs_ctx \<Rightarrow> nat \<Rightarrow> 'x hs_ctx \<Rightarrow> bool"
  for P host hs0 where
  start: "reaches P host hs0 0 hs0"
| step: "reaches P host hs0 n hs \<Longrightarrow> tls13_handshake_step P hs recv host = (hs', recv', r) \<Longrightarrow>
     reaches P host hs0 (if hs_state hs = kTLS13_SendClientHello \<and> r = kTLS13_WantWrite then n + 1 else n) hs'"

lemma state_index_0 [simp]: "state_index s = 0 \<longleftrightarrow> s = kTLS13_SendClientHello"
  by (cases s) simp_all

lemma reaches_ok: "reaches P host hs0 n hs \<Longrightarrow> hs_ok hs0 \<Longrightarrow> hs_ok hs"
  by (induction rule: reaches.induct) (auto intro: step_keeps_ok)

lemma reaches_hellos:
  assumes "reaches P host hs0 n hs" "hs_ok hs0" "hs_state hs0 = kTLS13_SendClientHello" "\<not> hrr_received hs0"
  shows "n \<le> (if hs_state hs = kTLS13_SendClientHello then 0 else 1) + (if hrr_received hs then 1 else 0)"
  using assms
proof (induction rule: reaches.induct)
  case (step n hs recv hs' recv' r)
  note o = step_order [OF reaches_ok [OF step.hyps(1) step.prems(1)] step.hyps(2)]
  show ?case
    using step.IH [OF step.prems] o by (auto simp: state_order split: if_splits)
qed simp

end
