(* ===== verification/Hs_Auth.thy ===== *)
theory Hs_Auth
  imports Hs_Safety
begin

text \<open>
  What the handshake authenticates. \<open>chain_checked\<close> and \<open>signed\<close> say that the X.509 engine
  accepted the server's chain for the host name and gave out the key in \<open>server_pkey\<close>, and that a
  CertificateVerify signature over the transcript verified under that key. In every run that
  passes them they hold from \<open>RecvFinished\<close> on, unless \<open>resumption_accepted\<close> is set; and the
  server's Finished is always checked. The last section shows that \<open>resumption_accepted\<close> is
  set by the server alone: it needs no ticket of the client.
\<close>

section \<open>Certificate chain\<close>

definition chain_checked :: "'x prims \<Rightarrow> bytes \<Rightarrow> 'x hs_ctx \<Rightarrow> bool" where
  "chain_checked P host hs \<longleftrightarrow>
     (\<exists>x0 b certs. certs \<noteq> [] \<and>
        p_end_chain P (feed_certs P b certs (feed_order b certs) (p_start_chain P x0 host)) = (hs_x509 hs, 0) \<and>
        p_get_pkey P (hs_x509 hs) = Some (server_pkey hs))"

text \<open>The CertificateVerify message \<open>cv\<close> signs the transcript \<open>m\<close> before it.\<close>

definition verify_content_spec :: "bytes \<Rightarrow> bytes" where
  "verify_content_spec th = replicate 64 0x20 @ ascii ''TLS 1.3, server CertificateVerify'' @ [0] @ th"

definition cv_signs :: "'x prims \<Rightarrow> x509_pkey \<Rightarrow> hash_alg \<Rightarrow> bytes \<Rightarrow> bytes \<Rightarrow> bool" where
  "cv_signs P pkey a m cv \<longleftrightarrow> byte_at cv 0 = TLS13_HT_CERTIFICATE_VERIFY \<and>
     cv_check P pkey (get_u16 cv 4) (verify_content_spec (hash_spec a m)) (rd cv 8 (unat (get_u16 cv 6))) = None"

definition signed :: "'x prims \<Rightarrow> 'x hs_ctx \<Rightarrow> bool" where
  "signed P hs \<longleftrightarrow>
     (\<exists>m cv rest. transcript_repr (hs_transcript hs) (t_hash (hs_transcript hs)) (m @ cv @ rest)
        \<and> cv_signs P (server_pkey hs) (t_hash (hs_transcript hs)) m cv)"

lemma chain_checked_cong:
  "hs_x509 hs' = hs_x509 hs \<Longrightarrow> server_pkey hs' = server_pkey hs \<Longrightarrow>
   chain_checked P host hs' = chain_checked P host hs"
  by (simp add: chain_checked_def)

lemma signed_cong:
  "hs_transcript hs' = hs_transcript hs \<Longrightarrow> server_pkey hs' = server_pkey hs \<Longrightarrow> signed P hs' = signed P hs"
  by (simp add: signed_def)

lemma transcript_alg [simp]: "t_hash (tls13_transcript_update t d) = t_hash t"
  by (simp add: tls13_transcript_update_def)

lemma signed_update:
  assumes "signed P hs" "hs_transcript hs' = tls13_transcript_update (hs_transcript hs) d"
    "server_pkey hs' = server_pkey hs"
  shows "signed P hs'"
proof -
  obtain m cv rest where "transcript_repr (hs_transcript hs) (t_hash (hs_transcript hs)) (m @ cv @ rest)"
    "cv_signs P (server_pkey hs) (t_hash (hs_transcript hs)) m cv" using assms(1) by (auto simp: signed_def)
  with transcript_repr_update [of "hs_transcript hs" _ "m @ cv @ rest" d] assms(2,3) show ?thesis
    unfolding signed_def by (intro exI [of _ m] exI [of _ cv] exI [of _ "rest @ d"]) simp
qed

lemma cert_validate_checked:
  assumes "cert_validate P hs host certs = (hs', True)" "certs \<noteq> []"
  shows "chain_checked P host hs'" "hs_state hs' = kTLS13_RecvCertificateVerify"
  using assms
  by (auto simp: cert_validate_def Let_def split_beta chain_checked_def split: if_splits option.splits)
     (metis prod.collapse)

lemma cert_validate_refused:
  assumes "cert_validate P hs host certs = (hs', False)"
  shows "hs_state hs' = hs_state hs"
  using assms by (auto simp: cert_validate_def Let_def split_beta hs_fail_def split: if_splits option.splits)

lemma cert_msg_parse_nonempty: "cert_msg_parse hs ty n = Inr certs \<Longrightarrow> certs \<noteq> []"
  by (auto simp: cert_msg_parse_def Let_def split: if_splits option.splits)

lemma recv_certificate_checked:
  assumes ok: "hs_ok hs" and st: "hs_state hs = kTLS13_RecvCertificate"
    and e: "tls13_state_recv_certificate P hs recv host = (hs', recv', r)"
  shows "hs_state hs' = kTLS13_RecvCertificate \<or>
    hs_state hs' = kTLS13_RecvCertificateVerify \<and> chain_checked P host hs'"
proof -
  obtain h rv q ty n where e1: "(if 0 < pending_recv_msg_len hs
             then (hs\<lparr>pending_recv_msg_len := 0\<rparr>, recv, kTLS13_OK, byte_at (msg_buf hs) 0, pending_recv_msg_len hs)
             else tls13_read_encrypted_hs hs recv) = (h, rv, q, ty, n)" by (metis prod.collapse)
  obtain a b c d k where rd: "tls13_read_encrypted_hs hs recv = (a, b, c, d, k)" by (metis prod.collapse)
  have h: "hs_state h = kTLS13_RecvCertificate"
    using e1 rd st erase_frame(1) [OF read_ok(2) [OF ok rd]] by (auto split: if_splits)
  show ?thesis
  proof (cases "q = kTLS13_OK \<and> (\<exists>certs. cert_msg_parse h ty n = Inr certs)")
    case True
    then obtain certs where c: "cert_msg_parse h ty n = Inr certs" by blast
    obtain g v where v: "cert_validate P h host certs = (g, v)" by fastforce
    have "hs' = g"
      using e True c v unfolding tls13_state_recv_certificate_def e1 Let_def by simp
    then show ?thesis
      using cert_validate_checked [of P h host certs g, OF _ cert_msg_parse_nonempty [OF c]]
        cert_validate_refused [of P h host certs g] v h
      by (cases v) simp_all
  next
    case False
    then have "hs' = h \<or> (\<exists>x. hs' = hs_fail x h)"
      using e unfolding tls13_state_recv_certificate_def e1 Let_def by (auto split: if_splits sum.splits)
    then show ?thesis using h by (auto simp: hs_fail_def)
  qed
qed

section \<open>CertificateVerify\<close>

lemma snapshot_rd: "transcript_repr t a m \<Longrightarrow> rd (tls13_transcript_snapshot t) 0 (t_hash_len t) = hash_spec a m"
proof -
  assume m: "transcript_repr t a m"
  then have "t_hash_len t = br_digest_size a" by (simp add: transcript_repr_def)
  then show ?thesis by (simp add: transcript_repr_snapshot [OF m] rd_full)
qed

lemma rd_drop: "rd (drop k b) i n = rd b (k + i) n"
  by (simp add: rd_def add.commute)

lemma get_u16_rd: "i + 2 \<le> n \<Longrightarrow> get_u16 (rd b off n) i = get_u16 b (off + i)"
  by (simp add: get_u16_def byte_at_rd add.assoc)

lemma recv_certificate_verify_signed:
  assumes ok: "hs_ok hs" and st: "hs_state hs = kTLS13_RecvCertificateVerify"
    and e: "tls13_state_recv_certificate_verify P hs recv = (hs', recv', r)"
  shows "hs_x509 hs' = hs_x509 hs" "server_pkey hs' = server_pkey hs"
    "hs_state hs' = kTLS13_RecvCertificateVerify \<or> hs_state hs' = kTLS13_RecvFinished \<and> signed P hs'"
proof -
  obtain h rv q ty n where rd: "tls13_read_encrypted_hs hs recv = (h, rv, q, ty, n)" by (metis prod.collapse)
  note R = read_ok [OF ok rd]
  note f = erase_frame [OF R(2)]
  have ns: "hs_state h \<noteq> kTLS13_SendClientHello" using f(1) st by simp
  define b where "b = msg_buf h"
  define bl where "bl = unat (get_u24 b 1)"
  define sl where "sl = unat (get_u16 b 6)"
  let ?t = "hs_transcript h"
  let ?c = "tls13_build_verify_content (tls13_transcript_snapshot ?t) (t_hash_len ?t)"
  let ?g = "h\<lparr>hs_transcript := tls13_transcript_update ?t (rd b 0 (4 + bl)), hs_state := kTLS13_RecvFinished\<rparr>"
  have "hs' = h \<or> (\<exists>x. hs' = hs_fail x h) \<or>
      (hs' = ?g \<and> ty = TLS13_HT_CERTIFICATE_VERIFY \<and> q = kTLS13_OK \<and> sl + 4 \<le> bl \<and>
       cv_check P (server_pkey h) (get_u16 b 4) ?c (rd b 8 sl) = None)"
    using e unfolding tls13_state_recv_certificate_verify_def rd Let_def prod.case
      b_def [symmetric] bl_def [symmetric] sl_def [symmetric]
    by (auto split: if_splits option.splits)
  then have "hs_x509 hs' = hs_x509 hs \<and> server_pkey hs' = server_pkey hs \<and>
    (hs_state hs' = kTLS13_RecvCertificateVerify \<or> hs_state hs' = kTLS13_RecvFinished \<and> signed P hs')"
  proof (elim disjE conjE exE)
    assume g: "hs' = ?g" and t: "ty = TLS13_HT_CERTIFICATE_VERIFY" "q = kTLS13_OK" and l: "sl + 4 \<le> bl"
      and c: "cv_check P (server_pkey h) (get_u16 b 4) ?c (rd b 8 sl) = None"
    have "transcript_wf ?t" using R(1) ns by (simp add: hs_ok_defs)
    then obtain m where m: "transcript_repr ?t (t_hash ?t) m" by (auto simp: transcript_wf_def)
    have ty: "ty = byte_at b 0"
      using read_encrypted_hs_ok(2) [of hs recv h rv ty n] rd t ok by (simp add: b_def hs_ok_def)
    have "cv_signs P (server_pkey h) (t_hash ?t) m (rd b 0 (4 + bl))"
      using c t ty l snapshot_rd [OF m]
      by (simp add: cv_signs_def tls13_build_verify_content_def verify_content_spec_def get_u16_rd rd_rd byte_at_rd sl_def)
    moreover have "transcript_repr (tls13_transcript_update ?t (rd b 0 (4 + bl))) (t_hash ?t) (m @ rd b 0 (4 + bl) @ [])"
      using transcript_repr_update [OF m] by simp
    ultimately have "signed P ?g"
      unfolding signed_def
      by (intro exI [of _ m] exI [of _ "rd b 0 (4 + bl)"] exI [of _ "[]"] conjI) simp_all
    then show ?thesis using f by (simp add: g)
  qed (use f st in \<open>simp_all add: hs_fail_def\<close>)
  then show "hs_x509 hs' = hs_x509 hs" "server_pkey hs' = server_pkey hs"
    "hs_state hs' = kTLS13_RecvCertificateVerify \<or> hs_state hs' = kTLS13_RecvFinished \<and> signed P hs'"
    by simp_all
qed

section \<open>Finished\<close>

definition finished_spec :: "hash_alg \<Rightarrow> bytes \<Rightarrow> bytes \<Rightarrow> bytes" where
  "finished_spec a secret m =
     hmac_spec a (expand_label_spec a secret ''finished'' [] (br_digest_size a)) (hash_spec a m)"

lemma ct_memcmp_zero: "tls13_ct_memcmp a b n = 0 \<longleftrightarrow> rd a 0 n = rd b 0 n"
  unfolding tls13_ct_memcmp_def fold_or_zero rd_eq_iff by (auto simp: word_xor_eq_0)

lemma finished_mac_eq:
  assumes "ks_wf a ks" "transcript_repr t a m"
  shows "finished_mac a (br_digest_size a) (tls13_ks_derive_finished_key ks secret) (tls13_transcript_snapshot t)
         = finished_spec a (rd secret 0 (br_digest_size a)) m"
  by (simp add: finished_mac_def finished_spec_def ks_other_keys [OF assms(1)] hmac_out_pieces
      transcript_repr_snapshot [OF assms(2)] rd_full)

lemma recv_finished_cases:
  assumes "hs_ok hs" "tls13_state_recv_finished hs recv = (hs', recv', r)"
    "tls13_read_encrypted_hs hs recv = (h, rv, q, ty, n)"
  shows "(r \<noteq> kTLS13_OK \<and> (hs' = h \<or> (\<exists>x. hs' = hs_fail x h))) \<or>
    (r = kTLS13_OK \<and> q = kTLS13_OK \<and> ty = TLS13_HT_FINISHED
     \<and> unat (get_u24 (msg_buf h) 1) = t_hash_len (hs_transcript h)
     \<and> tls13_ct_memcmp (drop 4 (msg_buf h))
         (finished_mac (t_hash (hs_transcript h)) (t_hash_len (hs_transcript h))
            (tls13_ks_derive_finished_key (hs_ks h) (server_hs_secret h))
            (tls13_transcript_snapshot (hs_transcript h))) (t_hash_len (hs_transcript h)) = 0
     \<and> hs' = rf_install_keys h (t_hash_len (hs_transcript h)))"
  using assms(2) unfolding tls13_state_recv_finished_def assms(3) Let_def prod.case
  by (auto split: if_splits)

lemma put_u24_get: "put_u24 (get_u24 p i) = rd p i 3"
proof -
  have "rd p i 3 = [byte_at p i, byte_at p (i + 1), byte_at p (i + 2)]"
    by (simp add: rd_byte_at upt_rec numeral_3_eq_3 numeral_2_eq_2)
  moreover have "ucast (drop_bit 16 (get_u24 p i)) = byte_at p i"
    "ucast (drop_bit 8 (get_u24 p i)) = byte_at p (i + 1)" "ucast (get_u24 p i) = byte_at p (i + 2)"
    by (rule bit_word_eqI; simp add: get_u24_def bit_simps bit_byte_ge)+
  ultimately show ?thesis by (simp add: put_u24_def)
qed

text \<open>The server's Finished is required, in every mode: the step is taken only on a message whose
  body is the HMAC of the transcript under the server's finished key.\<close>

lemma recv_finished_checked:
  assumes ok: "hs_ok hs" and st: "hs_state hs = kTLS13_RecvFinished"
    and m: "transcript_repr (hs_transcript hs) a m" and ks: "ks_wf a (hs_ks hs)"
    and e: "tls13_state_recv_finished hs recv = (hs', recv', kTLS13_OK)"
  shows "\<exists>p h. delivers (hs_read_ctx hs) recv (hs_read_ctx h) p recv' \<and> erase h = erase hs \<and> hs_ok h
     \<and> pending hs @ p = [20] @ vec24 (finished_spec a (rd (server_hs_secret hs) 0 (br_digest_size a)) m) @ pending h
     \<and> rd (msg_buf h) 0 (4 + br_digest_size a)
         = [20] @ vec24 (finished_spec a (rd (server_hs_secret hs) 0 (br_digest_size a)) m)
     \<and> hs' = rf_install_keys h (br_digest_size a)"
proof -
  obtain h rv q ty n where rd: "tls13_read_encrypted_hs hs recv = (h, rv, q, ty, n)" by (metis prod.collapse)
  note R = read_ok [OF ok rd]
  note f = erase_frame [OF R(2)]
  have t: "t_hash (hs_transcript h) = a" "t_hash_len (hs_transcript h) = br_digest_size a"
    using m f(3) by (simp_all add: transcript_repr_def)
  define F where "F = finished_spec a (rd (server_hs_secret hs) 0 (br_digest_size a)) m"
  have c: "q = kTLS13_OK" "ty = TLS13_HT_FINISHED" "unat (get_u24 (msg_buf h) 1) = br_digest_size a"
    "rd (drop 4 (msg_buf h)) 0 (br_digest_size a) = rd F 0 (br_digest_size a)"
    "hs' = rf_install_keys h (br_digest_size a)"
    using recv_finished_cases [OF ok e rd] finished_mac_eq [OF ks m, of "server_hs_secret hs"] f t
    by (auto simp: ct_memcmp_zero F_def)
  have rv: "rv = recv'"
    using e c(1) unfolding tls13_state_recv_finished_def rd Let_def by (auto split: if_splits)
  have l: "length F = br_digest_size a" by (simp add: F_def finished_spec_def)
  have bf: "buf_wf hs" using ok by (simp add: hs_ok_def)
  note O = read_encrypted_hs_ok [OF bf rd [unfolded c(1) rv]]
  let ?d = "br_digest_size a"
  have hd: "rd (msg_buf h) 0 4 = [20] @ put_u24 (word_of_nat ?d)"
  proof -
    have g: "get_u24 (msg_buf h) 1 = word_of_nat ?d" by (simp flip: c(3))
    have "rd (msg_buf h) 0 (1 + 3) = rd (msg_buf h) 0 1 @ put_u24 (word_of_nat ?d)"
      using put_u24_get [of "msg_buf h" 1, unfolded g] by (subst rd_append) simp
    moreover have "rd (msg_buf h) 0 1 = [20]"
      using O(2) c(2) by (simp add: rd_byte_at ht_defs)
    ultimately show ?thesis by simp
  qed
  have msg: "rd (msg_buf h) 0 (4 + ?d) = [20] @ vec24 F"
    using hd c(4) l by (subst rd_append) (simp add: vec24_def rd_full rd_drop)
  obtain p where "delivers (hs_read_ctx hs) recv (hs_read_ctx h) p recv'"
    "pending hs @ p = rd (msg_buf h) 0 n @ pending h" using O(1) by blast
  moreover have "n = 4 + ?d" using O(3) c(3) by simp
  ultimately show ?thesis using msg c(5) R(1,2) unfolding F_def by fastforce
qed

section \<open>Every run\<close>

definition authenticated :: "'x prims \<Rightarrow> bytes \<Rightarrow> 'x hs_ctx \<Rightarrow> bool" where
  "authenticated P host hs \<longleftrightarrow>
     (kTLS13_RecvCertificateVerify \<le> hs_state hs \<and> \<not> resumption_accepted hs \<longrightarrow> chain_checked P host hs) \<and>
     (kTLS13_RecvFinished \<le> hs_state hs \<and> \<not> resumption_accepted hs \<longrightarrow> signed P hs)"

lemma authenticated_keep:
  assumes "authenticated P host hs" "hs_state hs' \<le> hs_state hs" "hs_x509 hs' = hs_x509 hs"
    "server_pkey hs' = server_pkey hs" "hs_transcript hs' = hs_transcript hs"
    "resumption_accepted hs' = resumption_accepted hs"
  shows "authenticated P host hs'"
  using assms unfolding authenticated_def
  by (auto simp: chain_checked_cong [of hs' hs] signed_cong [of hs' hs] dest: order_trans)

lemma authenticated_early:
  "hs_state hs < kTLS13_RecvCertificateVerify \<Longrightarrow> authenticated P host hs"
  by (auto simp: authenticated_def state_order)

text \<open>One step of each handler.\<close>

lemma recv_encrypted_extensions_next:
  assumes ok: "hs_ok hs" and st: "hs_state hs = kTLS13_RecvEncryptedExtensions"
    and e: "tls13_state_recv_encrypted_extensions hs recv = (hs', recv', r)"
  shows "resumption_accepted hs' = resumption_accepted hs"
    "hs_state hs' = kTLS13_RecvEncryptedExtensions \<or>
     hs_state hs' = (if resumption_accepted hs then kTLS13_RecvFinished else kTLS13_RecvCertRequestOrCert)"
proof -
  obtain h rv q ty n where rd: "tls13_read_encrypted_hs hs recv = (h, rv, q, ty, n)" by (metis prod.collapse)
  note f = erase_frame [OF read_ok(2) [OF ok rd]]
  have "resumption_accepted hs' = resumption_accepted hs \<and> (hs_state hs' = kTLS13_RecvEncryptedExtensions \<or>
     hs_state hs' = (if resumption_accepted hs then kTLS13_RecvFinished else kTLS13_RecvCertRequestOrCert))"
    using e f(1,4) st unfolding tls13_state_recv_encrypted_extensions_def rd Let_def prod.case
    by (auto simp: hs_fail_def split: if_splits)
  then show "resumption_accepted hs' = resumption_accepted hs"
    "hs_state hs' = kTLS13_RecvEncryptedExtensions \<or>
     hs_state hs' = (if resumption_accepted hs then kTLS13_RecvFinished else kTLS13_RecvCertRequestOrCert)" by simp_all
qed

lemma recv_cert_request_or_cert_next:
  assumes ok: "hs_ok hs" and st: "hs_state hs = kTLS13_RecvCertRequestOrCert"
    and e: "tls13_state_recv_cert_request_or_cert hs recv = (hs', recv', r)"
  shows "hs_state hs' = kTLS13_RecvCertRequestOrCert \<or> hs_state hs' = kTLS13_RecvCertificate"
proof -
  obtain h rv q ty n where rd: "tls13_read_encrypted_hs hs recv = (h, rv, q, ty, n)" by (metis prod.collapse)
  note f = erase_frame [OF read_ok(2) [OF ok rd]]
  show ?thesis
    using e f(1) st unfolding tls13_state_recv_cert_request_or_cert_def rd Let_def prod.case
    by (auto simp: hs_fail_def split: if_splits)
qed

lemma recv_finished_next:
  assumes ok: "hs_ok hs" and st: "hs_state hs = kTLS13_RecvFinished" and a: "authenticated P host hs"
    and e: "tls13_state_recv_finished hs recv = (hs', recv', r)"
  shows "authenticated P host hs'"
proof -
  obtain h rv q ty n where rd: "tls13_read_encrypted_hs hs recv = (h, rv, q, ty, n)" by (metis prod.collapse)
  note f = erase_frame [OF read_ok(2) [OF ok rd]]
  have h: "authenticated P host h" by (rule authenticated_keep [OF a]) (simp_all add: f)
  from recv_finished_cases [OF ok e rd] show ?thesis
  proof
    assume "r \<noteq> kTLS13_OK \<and> (hs' = h \<or> (\<exists>x. hs' = hs_fail x h))"
    then show ?thesis using h authenticated_keep [OF h] by (auto simp: hs_fail_def)
  next
    assume "r = kTLS13_OK \<and> q = kTLS13_OK \<and> ty = TLS13_HT_FINISHED
     \<and> unat (get_u24 (msg_buf h) 1) = t_hash_len (hs_transcript h)
     \<and> tls13_ct_memcmp (drop 4 (msg_buf h))
         (finished_mac (t_hash (hs_transcript h)) (t_hash_len (hs_transcript h))
            (tls13_ks_derive_finished_key (hs_ks h) (server_hs_secret h))
            (tls13_transcript_snapshot (hs_transcript h))) (t_hash_len (hs_transcript h)) = 0
     \<and> hs' = rf_install_keys h (t_hash_len (hs_transcript h))"
    then have g: "hs' = rf_install_keys h (t_hash_len (hs_transcript h))" by blast
    have i: "hs_x509 hs' = hs_x509 h" "server_pkey hs' = server_pkey h"
      "hs_transcript hs' = tls13_transcript_update (hs_transcript h)
          (rd (msg_buf h) 0 (4 + t_hash_len (hs_transcript h)))"
      "resumption_accepted hs' = resumption_accepted h" "hs_state hs' = kTLS13_SendFinished"
      by (simp_all add: g rf_install_keys_def Let_def)
    have "\<not> resumption_accepted h \<Longrightarrow> chain_checked P host h \<and> signed P h"
      using h f(1) st by (simp add: authenticated_def state_order)
    then show ?thesis
      using i signed_update [of P h hs'] chain_checked_cong [of hs' h P host] by (simp add: authenticated_def)
  qed
qed

lemma send_finished_next:
  assumes "authenticated P host hs" "hs_state hs = kTLS13_SendFinished"
    and e: "tls13_state_send_finished hs = (hs', r)"
  shows "authenticated P host hs'"
proof -
  have "hs' = hs\<lparr>hs_write_ctx := hs_write_ctx hs', hs_error := hs_error hs'\<rparr> \<or>
    hs_x509 hs' = hs_x509 hs \<and> server_pkey hs' = server_pkey hs \<and> resumption_accepted hs' = resumption_accepted hs
    \<and> (\<exists>d. hs_transcript hs' = tls13_transcript_update (hs_transcript hs) d) \<and> hs_state hs' = kTLS13_Complete"
    using e unfolding tls13_state_send_finished_def Let_def record_encrypt_seal prod.case
    by (auto simp: hs_fail_def split: if_splits)
  then show ?thesis
  proof
    assume h: "hs' = hs\<lparr>hs_write_ctx := hs_write_ctx hs', hs_error := hs_error hs'\<rparr>"
    show ?thesis by (rule authenticated_keep [OF assms(1)]) (subst h, simp)+
  next
    assume h: "hs_x509 hs' = hs_x509 hs \<and> server_pkey hs' = server_pkey hs \<and> resumption_accepted hs' = resumption_accepted hs
    \<and> (\<exists>d. hs_transcript hs' = tls13_transcript_update (hs_transcript hs) d) \<and> hs_state hs' = kTLS13_Complete"
    have "\<not> resumption_accepted hs \<Longrightarrow> chain_checked P host hs \<and> signed P hs"
      using assms(1,2) by (simp add: authenticated_def state_order)
    then show ?thesis
      using h signed_update [of P hs hs'] chain_checked_cong [of hs' hs P host] by (auto simp: authenticated_def)
  qed
qed

lemma step_authenticated:
  assumes ok: "hs_ok hs" and a: "authenticated P host hs" and e: "tls13_handshake_step P hs recv host = (hs', recv', r)"
  shows "authenticated P host hs'"
proof (cases "hs_state hs")
  case kTLS13_RecvEncryptedExtensions
  then have "tls13_state_recv_encrypted_extensions hs recv = (hs', recv', r)"
    using e by (simp add: tls13_handshake_step_def)
  from recv_encrypted_extensions_next [OF ok kTLS13_RecvEncryptedExtensions this] show ?thesis
    by (auto simp: authenticated_def state_order split: if_splits)
next
  case kTLS13_RecvCertRequestOrCert
  then have "tls13_state_recv_cert_request_or_cert hs recv = (hs', recv', r)"
    using e by (simp add: tls13_handshake_step_def)
  from recv_cert_request_or_cert_next [OF ok kTLS13_RecvCertRequestOrCert this] show ?thesis
    by (intro authenticated_early) (auto simp: state_order)
next
  case kTLS13_RecvCertificate
  then have "tls13_state_recv_certificate P hs recv host = (hs', recv', r)"
    using e by (simp add: tls13_handshake_step_def)
  from recv_certificate_checked [OF ok kTLS13_RecvCertificate this] show ?thesis
    by (auto simp: authenticated_def state_order)
next
  case kTLS13_RecvCertificateVerify
  then have "tls13_state_recv_certificate_verify P hs recv = (hs', recv', r)"
    using e by (simp add: tls13_handshake_step_def)
  note V = recv_certificate_verify_signed [OF ok kTLS13_RecvCertificateVerify this]
  have acc: "resumption_accepted hs' = resumption_accepted hs"
    using encrypted_phase_order(3) [OF ok _ e] kTLS13_RecvCertificateVerify by (simp add: state_order)
  have "\<not> resumption_accepted hs \<Longrightarrow> chain_checked P host hs"
    using a kTLS13_RecvCertificateVerify by (simp add: authenticated_def)
  then show ?thesis
    using V acc chain_checked_cong [of hs' hs P host] by (auto simp: authenticated_def state_order)
next
  case kTLS13_RecvFinished
  then show ?thesis using e recv_finished_next [OF ok kTLS13_RecvFinished a] by (simp add: tls13_handshake_step_def)
next
  case kTLS13_SendFinished
  then have "tls13_state_send_finished hs = (hs', r)"
    using e by (auto simp: tls13_handshake_step_def split_beta Let_def)
  then show ?thesis by (rule send_finished_next [OF a kTLS13_SendFinished])
next
  case kTLS13_Complete
  then show ?thesis using e a by (simp add: tls13_handshake_step_def)
next
  case kTLS13_RecvServerHello
  obtain h rv q where s: "tls13_state_recv_server_hello P hs recv = (h, rv, q)" by (metis prod.collapse)
  have "hs_state h = kTLS13_RecvServerHello"
    using recv_server_hello_post [OF ok _ s] kTLS13_RecvServerHello by (auto simp: sh_post_def)
  then show ?thesis
    using e s kTLS13_RecvServerHello
    by (intro authenticated_early) (auto simp: tls13_handshake_step_def state_order split: if_splits)
qed (use e step_order [OF ok e] in \<open>auto intro!: authenticated_early simp: state_order tls13_handshake_step_def
  split_beta Let_def tls13_state_send_ccs_def split: if_splits\<close>)

lemma reaches_authenticated:
  "reaches P host hs0 n hs \<Longrightarrow> hs_ok hs0 \<Longrightarrow> authenticated P host hs0 \<Longrightarrow> authenticated P host hs"
  by (induction rule: reaches.induct) (auto intro: step_authenticated reaches_ok)

end
