(* ===== verification/Hs_Keys.thy ===== *)
theory Hs_Keys
  imports Hs_Auth
begin

text \<open>
  The keys a handshake installs. After a ServerHello both record contexts hold the handshake
  traffic keys of RFC 8446 section 7.1 over the transcript up to and with that message; after
  the server's Finished the read side holds the server's application keys; the client's
  Finished is the MAC under the client's finished key, and sending it installs the client's
  application keys and the resumption secret.
\<close>

section \<open>After the ServerHello\<close>

text \<open>A record context ready for use with a key and an iv.\<close>

definition keyed :: "record_ctx \<Rightarrow> u16 \<Rightarrow> bytes \<Rightarrow> bytes \<Rightarrow> bool" where
  "keyed c suite key iv \<longleftrightarrow> rd (rc_key c) 0 (rc_key_len c) = key \<and> rc_key_len c = length key \<and> rc_iv c = iv
     \<and> rc_seq c = 0 \<and> rc_suite c = suite"

lemma keyed_init: "length iv = 12 \<Longrightarrow> keyed (tls13_record_init c key iv suite) suite key iv"
  by (simp add: keyed_def tls13_record_init_def rd_full)

definition hs_traffic_spec :: "hash_alg \<Rightarrow> bytes option \<Rightarrow> bytes \<Rightarrow> bytes \<Rightarrow> u16 \<Rightarrow> traffic_keys" where
  "hs_traffic_spec a psk dhe m suite =
     traffic_keys_spec a (handshake_secret_spec a psk dhe) ''c hs traffic'' ''s hs traffic'' (hash_spec a m)
       (tls13_key_len_for_suite suite)"

definition ap_traffic_spec :: "hash_alg \<Rightarrow> bytes \<Rightarrow> bytes \<Rightarrow> u16 \<Rightarrow> traffic_keys" where
  "ap_traffic_spec a master m suite =
     traffic_keys_spec a master ''c ap traffic'' ''s ap traffic'' (hash_spec a m) (tls13_key_len_for_suite suite)"

lemma key_len_digest [simp]: "tls13_key_len_for_suite s \<le> br_digest_size a"
  using key_len_range [of s] digest_size_range(1) [of a] by (rule order_trans)

lemma sh_install_keys_spec:
  fixes suite :: u16 and dhe :: bytes
  assumes ok: "hs_ok hs" and m: "transcript_repr (hs_transcript hs) a m"
  defines "K \<equiv> hs_traffic_spec a (sh_psk hs) dhe m suite"
  defines "hs' \<equiv> sh_install_keys hs suite dhe"
  shows "ks_wf a (hs_ks hs')" "ks_cur (hs_ks hs') = handshake_secret_spec a (sh_psk hs) dhe"
    "keyed (hs_read_ctx hs') suite (server_key K) (server_iv K)"
    "keyed (hs_write_ctx hs') suite (client_key K) (client_iv K)"
    "rd (server_hs_secret hs') 0 (br_digest_size a) = server_secret K"
    "rd (client_hs_secret hs') 0 (br_digest_size a) = client_secret K"
proof -
  have a: "t_hash (hs_transcript hs) = a" using m by (simp add: transcript_repr_def)
  note E = sh_early_wf [of hs, unfolded a]
  have e64: "length (ks_empty_hash (hs_ks hs)) = 64" using ok by (simp add: hs_ok_defs)
  let ?ks = "tls13_ks_extract_handshake (sh_early hs) dhe"
  have wf: "ks_wf a ?ks" and cur: "ks_cur ?ks = handshake_secret_spec a (sh_psk hs) dhe"
    using ks_extract_next(1,2) [OF E(1) [OF e64]] E(2) [OF e64]
    by (simp_all add: handshake_secret_spec_def)
  have s: "tls13_transcript_snapshot (hs_transcript hs) = hash_spec a m" by (rule transcript_repr_snapshot [OF m])
  have K: "tls13_ks_derive_handshake_keys ?ks (hash_spec a m) (tls13_key_len_for_suite suite) = K"
    by (simp add: ks_traffic_keys [OF wf] K_def hs_traffic_spec_def cur rd_full)
  have len: "length (server_iv K) = 12" "length (client_iv K) = 12" "length (server_secret K) = br_digest_size a"
    "length (client_secret K) = br_digest_size a"
    by (simp_all add: K_def hs_traffic_spec_def traffic_keys_spec_def Let_def)
  show "ks_wf a (hs_ks hs')" "ks_cur (hs_ks hs') = handshake_secret_spec a (sh_psk hs) dhe"
    "keyed (hs_read_ctx hs') suite (server_key K) (server_iv K)"
    "keyed (hs_write_ctx hs') suite (client_key K) (client_iv K)"
    "rd (server_hs_secret hs') 0 (br_digest_size a) = server_secret K"
    "rd (client_hs_secret hs') 0 (br_digest_size a) = client_secret K"
    by (simp_all add: hs'_def sh_install_keys_eq Let_def s K wf cur keyed_init len rd_wr_same_len)
qed

lemma server_hello_keys:
  assumes ok: "hs_ok hs" and m: "transcript_repr (hs_transcript hs) a m"
    and e: "sh_regular P hs sh msg = (hs', kTLS13_OK)"
  shows "\<exists>dhe K. tls13_ecdh_shared P (ecdhe_group hs) (rd (ecdhe_secret hs) 0 (ecdhe_secret_len hs)) (server_public sh) = Some dhe
     \<and> K = hs_traffic_spec a (sh_psk hs) dhe (m @ rd msg 0 (sh_msg_len sh + 4)) (sh_suite sh)
     \<and> keyed (hs_read_ctx hs') (sh_suite sh) (server_key K) (server_iv K)
     \<and> keyed (hs_write_ctx hs') (sh_suite sh) (client_key K) (client_iv K)
     \<and> rd (server_hs_secret hs') 0 (br_digest_size a) = server_secret K
     \<and> rd (client_hs_secret hs') 0 (br_digest_size a) = client_secret K
     \<and> ks_wf a (hs_ks hs') \<and> ks_cur (hs_ks hs') = handshake_secret_spec a (sh_psk hs) dhe"
    "found_key_share sh" "server_share_group sh = ecdhe_group hs" "tls13_hash_for_suite (sh_suite sh) = a"
    "transcript_repr (hs_transcript hs') a (m @ rd msg 0 (sh_msg_len sh + 4))"
    "ecdhe_secret hs' = replicate 64 0"
proof -
  define d where "d = rd msg 0 (sh_msg_len sh + 4)"
  define h where "h = hs\<lparr>hs_transcript := tls13_transcript_update (hs_transcript hs) d\<rparr>"
  have a: "t_hash (hs_transcript hs) = a" using m by (simp add: transcript_repr_def)
  obtain dhe where dhe: "tls13_ecdh_shared P (ecdhe_group hs) (rd (ecdhe_secret hs) 0 (ecdhe_secret_len hs))
      (server_public sh) = Some dhe" and h': "hs' = (sh_install_keys h (sh_suite sh) dhe)\<lparr>ecdhe_secret := replicate 64 0\<rparr>"
    and c: "found_key_share sh" "tls13_hash_for_suite (sh_suite sh) = t_hash (hs_transcript hs)"
      "server_share_group sh = ecdhe_group hs"
    using e unfolding sh_regular_def Let_def d_def [symmetric] h_def [symmetric]
    by (auto simp: h_def split: if_splits option.splits)
  have t: "transcript_repr (hs_transcript h) a (m @ d)"
    using transcript_repr_update [OF m] by (simp add: h_def)
  have "transcript_wf (hs_transcript h)" using t by (auto simp: transcript_wf_def transcript_repr_def)
  then have okh: "hs_ok h" unfolding h_def using ok by (intro hs_ok_retry(2)) (simp_all add: h_def)
  have p: "sh_psk h = sh_psk hs" by (simp add: h_def sh_psk_def split: option.split)
  note I = sh_install_keys_spec [OF okh t, of "sh_suite sh" dhe, unfolded p]
  show "\<exists>dhe K. tls13_ecdh_shared P (ecdhe_group hs) (rd (ecdhe_secret hs) 0 (ecdhe_secret_len hs)) (server_public sh) = Some dhe
     \<and> K = hs_traffic_spec a (sh_psk hs) dhe (m @ rd msg 0 (sh_msg_len sh + 4)) (sh_suite sh)
     \<and> keyed (hs_read_ctx hs') (sh_suite sh) (server_key K) (server_iv K)
     \<and> keyed (hs_write_ctx hs') (sh_suite sh) (client_key K) (client_iv K)
     \<and> rd (server_hs_secret hs') 0 (br_digest_size a) = server_secret K
     \<and> rd (client_hs_secret hs') 0 (br_digest_size a) = client_secret K
     \<and> ks_wf a (hs_ks hs') \<and> ks_cur (hs_ks hs') = handshake_secret_spec a (sh_psk hs) dhe"
    using dhe I by (simp add: h' d_def)
  show "found_key_share sh" "server_share_group sh = ecdhe_group hs" "tls13_hash_for_suite (sh_suite sh) = a"
    using c a by simp_all
  show "transcript_repr (hs_transcript hs') a (m @ rd msg 0 (sh_msg_len sh + 4))"
    using t by (simp add: h' sh_install_keys_def Let_def d_def)
  show "ecdhe_secret hs' = replicate 64 0" by (simp add: h')
qed

section \<open>After the server's Finished\<close>

definition master_of :: "hash_alg \<Rightarrow> bytes \<Rightarrow> bytes" where
  "master_of a hs_secret =
     hmac_spec a (derive_spec a hs_secret ''derived'' (hash_spec a [])) (replicate (br_digest_size a) 0)"

lemma master_of_spec: "master_of a (handshake_secret_spec a psk dhe) = master_secret_spec a psk dhe"
  by (simp add: master_of_def master_secret_spec_def)

lemma rf_install_keys_spec:
  fixes n :: nat
  assumes ok: "hs_ok hs" and m: "transcript_repr (hs_transcript hs) a m" and ks: "ks_wf a (hs_ks hs)"
  defines "d \<equiv> rd (msg_buf hs) 0 (4 + n)"
  defines "K \<equiv> ap_traffic_spec a (master_of a (ks_cur (hs_ks hs))) (m @ d) (hs_cipher_suite hs)"
  defines "hs' \<equiv> rf_install_keys hs n"
  shows "transcript_repr (hs_transcript hs') a (m @ d)" "ks_wf a (hs_ks hs')"
    "ks_cur (hs_ks hs') = master_of a (ks_cur (hs_ks hs))"
    "keyed (hs_read_ctx hs') (hs_cipher_suite hs) (server_key K) (server_iv K)"
    "rd (server_hs_secret hs') 0 (br_digest_size a)
      = expand_label_spec a (rd (client_hs_secret hs) 0 (br_digest_size a)) ''finished'' [] (br_digest_size a)"
    "rd (client_hs_secret hs') 0 (tls13_key_len_for_suite (hs_cipher_suite hs)) = client_key K"
    "rd (client_hs_secret hs') (tls13_key_len_for_suite (hs_cipher_suite hs)) 12 = client_iv K"
    "hs_write_ctx hs' = hs_write_ctx hs" "hs_cipher_suite hs' = hs_cipher_suite hs" "hs_state hs' = kTLS13_SendFinished"
proof -
  let ?t = "tls13_transcript_update (hs_transcript hs) d" and ?ks = "tls13_ks_extract_master (hs_ks hs)"
  let ?kl = "tls13_key_len_for_suite (hs_cipher_suite hs)"
  have t: "transcript_repr ?t a (m @ d)" by (rule transcript_repr_update [OF m])
  note s = transcript_repr_snapshot [OF t]
  have tl: "t_hash_len ?t = br_digest_size a" using t by (simp add: transcript_repr_def)
  have wf: "ks_wf a ?ks" and cur: "ks_cur ?ks = master_of a (ks_cur (hs_ks hs))"
    using ks_extract_next(3,4) [OF ks] by (simp_all add: master_of_def)
  have K: "tls13_ks_derive_app_keys ?ks (hash_spec a (m @ d)) ?kl = K"
    by (simp add: ks_traffic_keys [OF wf] K_def ap_traffic_spec_def cur rd_full)
  have len: "length (server_iv K) = 12" "length (client_iv K) = 12" "length (client_key K) = ?kl"
    by (simp_all add: K_def ap_traffic_spec_def traffic_keys_spec_def Let_def)
  note H = rf_install_keys_def [of hs n, unfolded Let_def, folded d_def, unfolded s K]
  show "transcript_repr (hs_transcript hs') a (m @ d)" "ks_wf a (hs_ks hs')"
    "ks_cur (hs_ks hs') = master_of a (ks_cur (hs_ks hs))"
    "keyed (hs_read_ctx hs') (hs_cipher_suite hs) (server_key K) (server_iv K)"
    "hs_write_ctx hs' = hs_write_ctx hs" "hs_cipher_suite hs' = hs_cipher_suite hs" "hs_state hs' = kTLS13_SendFinished"
    using t wf cur len by (simp_all add: hs'_def H keyed_init)
  show "rd (server_hs_secret hs') 0 (br_digest_size a)
      = expand_label_spec a (rd (client_hs_secret hs) 0 (br_digest_size a)) ''finished'' [] (br_digest_size a)"
    by (simp add: hs'_def H tl ks_other_keys [OF wf] rd_full rd_wr_same_len)
  show "rd (client_hs_secret hs') 0 ?kl = client_key K" "rd (client_hs_secret hs') ?kl 12 = client_iv K"
    using len by (simp_all add: hs'_def H rd_wr_before rd_wr_same_len)
qed

section \<open>The client's Finished\<close>

lemma send_finished_spec:
  assumes ok: "hs_ok hs" and m: "transcript_repr (hs_transcript hs) a m" and ks: "ks_wf a (hs_ks hs)"
    and fk: "rd (server_hs_secret hs) 0 (br_digest_size a)
               = expand_label_spec a secret ''finished'' [] (br_digest_size a)"
  defines "msg \<equiv> [20] @ vec24 (finished_spec a secret m)"
  defines "kl \<equiv> tls13_key_len_for_suite (hs_cipher_suite hs)"
  obtains hs' where "tls13_state_send_finished hs = (hs', kTLS13_WantWrite)" "hs_state hs' = kTLS13_Complete"
    "take (msg_len hs') (msg_buf hs') = [23, 3, 3] @ vec16 (record_seal (hs_write_ctx hs) (msg @ [22]))"
    "keyed (hs_write_ctx hs') (hs_cipher_suite hs) (rd (client_hs_secret hs) 0 kl) (rd (client_hs_secret hs) kl 12)"
    "transcript_repr (hs_transcript hs') a (m @ msg)" "res_master_valid hs'"
    "rd (res_master hs') 0 (br_digest_size a) = derive_spec a (ks_cur (hs_ks hs)) ''res master'' (hash_spec a (m @ msg))"
    "client_hs_secret hs' = replicate 64 0" "server_hs_secret hs' = replicate 64 0" "hs_read_ctx hs' = hs_read_ctx hs"
proof -
  have t: "t_hash (hs_transcript hs) = a" "t_hash_len (hs_transcript hs) = br_digest_size a"
    using m by (simp_all add: transcript_repr_def)
  note s = transcript_repr_snapshot [OF m]
  define v where "v = finished_spec a secret m"
  have v: "finished_mac a (br_digest_size a) (rd (server_hs_secret hs) 0 (br_digest_size a)) (hash_spec a m) = v"
    by (simp add: v_def finished_mac_def finished_spec_def hmac_out_pieces fk rd_full)
  have lv: "length v = br_digest_size a" by (simp add: v_def finished_spec_def)
  have msg: "msg = [TLS13_HT_FINISHED] @ put_u24 (word_of_nat (br_digest_size a)) @ rd v 0 (br_digest_size a)"
    by (simp add: msg_def v_def [symmetric] vec24_def lv rd_full ht_defs)
  define c where "c = record_seal (hs_write_ctx hs) (msg @ [TLS13_CT_HANDSHAKE])"
  have lc: "length c = br_digest_size a + 21" by (simp add: c_def length_record_seal msg)
  have fits: "\<not> HS_BUF < 5 + length c" by (cases a) (simp_all add: lc HS_BUF_def)
  have t2: "transcript_repr (tls13_transcript_update (hs_transcript hs) msg) a (m @ msg)"
    by (rule transcript_repr_update [OF m])
  note s2 = transcript_repr_snapshot [OF t2]
  have lm: "length (msg_buf hs) = HS_BUF" using ok by (simp add: hs_ok_defs buf_wf_def)
  note D = tls13_state_send_finished_def [of hs, unfolded Let_def t s v, folded msg, unfolded record_encrypt_seal
      prod.case, folded c_def, unfolded if_not_P [OF fits] s2]
  have w: "take (5 + length c) (wr (msg_buf hs) 0 ([TLS13_CT_APPLICATION_DATA, 3, 3] @ put_u16 (word_of_nat (length c)) @ c))
      = [23, 3, 3] @ vec16 c"
  proof -
    have x: "[TLS13_CT_APPLICATION_DATA, 3, 3] @ put_u16 (word_of_nat (length c)) @ c = [23, 3, 3] @ vec16 c"
      by (simp add: vec16_def ct_defs)
    have l: "5 + length c = 0 + length ([23, 3, 3] @ vec16 c)" by simp
    show ?thesis unfolding x l by (subst take_wr_upto) simp_all
  qed
  show ?thesis
    by (rule that, rule D)
       (use w t2 in \<open>simp_all add: s2 keyed_init ct_defs c_def ks_other_keys [OF ks] rd_full rd_wr_same_len kl_def\<close>)
qed

end
