(* ===== verification/Post_Handshake.thy ===== *)
theory Post_Handshake
  imports Hs_Keys
begin

text \<open>
  Messages after the handshake, os9/ostls_tls13_handshake.c: the NewSessionTicket parser
  (\<open>tls13_parse_new_session_ticket\<close>) and its dispatcher (\<open>tls13_handle_post_handshake\<close>).

  The parser writes the ticket it is given field by field and may fail half way: \<open>nst_fields\<close>
  is the checks and what they yield, the operation returns the ticket as the C code leaves it,
  also on failure. \<open>nst_spec\<close> is the wire grammar of RFC 8446 section 4.6.1.
\<close>

section \<open>Operations\<close>

definition nst_too_short :: "bytes \<Rightarrow> nat \<Rightarrow> bool" where
  "nst_too_short msg lim \<longleftrightarrow> lim < 4 + 8"

text \<open>From the nonce on: \<open>None\<close> for a malformed message, else nonce and ticket.\<close>

definition nst_fields :: "bytes \<Rightarrow> nat \<Rightarrow> (bytes \<times> bytes) option" where
  "nst_fields msg lim =
     (let off = 12
      in if lim < off + 1 then None
         else let nonce_len = unat (byte_at msg off); off = off + 1
              in if lim < off + nonce_len then None
                 else let nonce = rd msg off nonce_len; off = off + nonce_len
                      in if lim < off + 2 then None
                         else let tlen = unat (get_u16 msg off); off = off + 2
                              in if tlen = 0 \<or> lim < off + tlen then None
                                 else if TLS13_MAX_TICKET_LEN < tlen then None
                                 else Some (nonce, rd msg off tlen))"

definition tls13_parse_new_session_ticket ::
  "'x hs_ctx \<Rightarrow> bytes \<Rightarrow> session_ticket \<Rightarrow> session_ticket \<times> bool" where
  "tls13_parse_new_session_ticket hs msg out =
     (if \<not> res_master_valid hs then (out, False)
      else if length msg < 4 then (out, False)
      else if byte_at msg 0 \<noteq> TLS13_HT_NEW_SESSION_TICKET then (out, False)
      else let lim = unat (get_u24 msg 1) + 4
           in if length msg < lim then (out, False)
              else if nst_too_short msg lim then (out, False)
              else let out = out\<lparr>tk_lifetime := get_u32 msg 4, tk_age_add := get_u32 msg 8\<rparr>
                   in case nst_fields msg lim of
                        None \<Rightarrow> (out, False)
                      | Some (nonce, ticket) \<Rightarrow>
                          (out\<lparr>tk_ticket := wr (tk_ticket out) 0 ticket, tk_ticket_len := length ticket,
                               tk_suite := hs_cipher_suite hs, tk_psk_len := ks_hash_len (hs_ks hs),
                               tk_psk := wr (tk_psk out) 0
                                 (tls13_ks_derive_resumption_psk (hs_ks hs) (res_master hs) nonce),
                               tk_valid := True\<rparr>, True))"

definition tls13_handle_post_handshake :: "'x hs_ctx \<Rightarrow> bytes \<Rightarrow> 'x hs_ctx \<times> tls13_hs_result" where
  "tls13_handle_post_handshake hs data =
     (if length data < 1 then (hs_fail BR_ERR_BAD_PARAM hs, kTLS13_Error)
      else let msg_type = byte_at data 0
           in if msg_type = TLS13_HT_NEW_SESSION_TICKET
              then let (tk, ok) = tls13_parse_new_session_ticket hs data (hs_ticket hs);
                       hs = hs\<lparr>hs_ticket := tk\<rparr>
                   in (if ok then hs\<lparr>ticket_valid := True\<rparr> else hs, kTLS13_OK)
              else if msg_type = TLS13_HT_KEY_UPDATE then (hs_fail BR_ERR_UNEXPECTED hs, kTLS13_Error)
              else (hs_fail BR_ERR_UNEXPECTED hs, kTLS13_Error))"

section \<open>Parsing inverts the grammar\<close>

definition nst_spec :: "u32 \<Rightarrow> u32 \<Rightarrow> bytes \<Rightarrow> bytes \<Rightarrow> bytes \<Rightarrow> bytes" where
  "nst_spec lifetime age_add nonce ticket exts =
     [4] @ vec24 (put_u32 lifetime @ put_u32 age_add @ vec8 nonce @ vec16 ticket @ vec16 exts)"

lemma get_u16_at:
  assumes "b = A @ put_u16 (word_of_nat n) @ B" "length A = i" "n < 2 ^ 16"
  shows "unat (get_u16 b i) = n"
  using assms by (subst get_u16_put [of b i "word_of_nat n"]) (simp_all add: rd_def unat_of_nat)

lemma nst_fields_spec:
  assumes b: "msg = pre @ vec8 nonce @ vec16 ticket @ rest" "length pre = 12"
    and n: "length nonce < 256" and t: "ticket \<noteq> []" "length ticket \<le> 512"
    and lim: "lim = 12 + (length nonce + 1) + (length ticket + 2) + k" "lim \<le> length msg"
  shows "nst_fields msg lim = Some (nonce, ticket)"
proof -
  have nl: "unat (byte_at msg 12) = length nonce"
    using b n by (simp add: byte_at_append vec8_def unat_of_nat)
  have rn: "rd msg 13 (length nonce) = nonce"
  proof -
    have "msg = (pre @ [word_of_nat (length nonce)]) @ nonce @ vec16 ticket @ rest" using b by (simp add: vec8_def)
    then show ?thesis using b(2) by (simp add: rd_def)
  qed
  have tl: "unat (get_u16 msg (13 + length nonce)) = length ticket"
    by (rule get_u16_at [of _ "pre @ vec8 nonce" _ "ticket @ rest"]) (use b t in \<open>simp_all add: vec16_def\<close>)
  have rt: "rd msg (15 + length nonce) (length ticket) = ticket"
  proof -
    have "msg = (pre @ vec8 nonce @ put_u16 (word_of_nat (length ticket))) @ ticket @ rest"
      using b by (simp add: vec16_def)
    then show ?thesis using b(2) by (simp add: rd_def)
  qed
  show ?thesis
    using nl rn tl rt t lim
    by (simp add: nst_fields_def Let_def TLS13_MAX_TICKET_LEN_def add.commute add.left_commute)
qed

lemma nst_spec_bytes:
  fixes lifetime age_add :: u32
  assumes "length nonce < 256" "ticket \<noteq> []" "length ticket \<le> 512" "length exts < 65536"
  defines "m \<equiv> nst_spec lifetime age_add nonce ticket exts"
  shows "byte_at m 0 = 4" "unat (get_u24 m 1) + 4 = length m" "get_u32 m 4 = lifetime" "get_u32 m 8 = age_add"
    "length m = 17 + length nonce + length ticket + length exts" "nst_fields m (length m) = Some (nonce, ticket)"
proof -
  define B where "B = put_u32 lifetime @ put_u32 age_add @ vec8 nonce @ vec16 ticket @ vec16 exts"
  have m: "m = [4] @ put_u24 (word_of_nat (length B)) @ B" by (simp add: m_def nst_spec_def B_def vec24_def)
  have lB: "length B = 13 + length nonce + length ticket + length exts" by (simp add: B_def)
  show "byte_at m 0 = 4" by (simp add: m)
  show lm: "length m = 17 + length nonce + length ticket + length exts" by (simp add: m lB)
  have lt: "length B < 2 ^ 24" using assms(1,3,4) by (simp add: lB)
  then have ub: "unat (word_of_nat (length B) :: u32) = length B" by (simp add: unat_of_nat)
  have "get_u24 m 1 = word_of_nat (length B)"
    by (rule get_u24_put) (use lt ub in \<open>simp_all add: m rd_def put_u24_def\<close>)
  then show "unat (get_u24 m 1) + 4 = length m" using ub by (simp add: lB lm)
  show "get_u32 m 4 = lifetime" "get_u32 m 8 = age_add"
    by (rule get_u32_put; simp add: m B_def rd_def put_u24_def put_u32_def)+
  show "nst_fields m (length m) = Some (nonce, ticket)"
    by (rule nst_fields_spec [of m "[4] @ put_u24 (word_of_nat (length B)) @ put_u32 lifetime @ put_u32 age_add" _ _
          "vec16 exts" _ "length exts + 2"])
       (use assms(1-3) in \<open>simp_all add: m, simp_all add: B_def\<close>)
qed

text \<open>A well-formed ticket message is stored with the resumption PSK of its nonce.\<close>

lemma parse_nst_ok:
  assumes rm: "res_master_valid hs" and ks: "ks_wf a (hs_ks hs)"
    and n: "length nonce < 256" "ticket \<noteq> []" "length ticket \<le> 512" "length exts < 65536"
    and out: "length (tk_psk out) = 64" "length (tk_ticket out) = 512"
  shows "\<exists>out'. tls13_parse_new_session_ticket hs (nst_spec lifetime age_add nonce ticket exts) out = (out', True)
     \<and> tk_valid out' \<and> tk_lifetime out' = lifetime \<and> tk_age_add out' = age_add \<and> tk_suite out' = hs_cipher_suite hs
     \<and> rd (tk_ticket out') 0 (tk_ticket_len out') = ticket \<and> tk_psk_len out' = br_digest_size a
     \<and> rd (tk_psk out') 0 (tk_psk_len out')
         = expand_label_spec a (rd (res_master hs) 0 (br_digest_size a)) ''resumption'' nonce (br_digest_size a)
     \<and> length (tk_psk out') = 64 \<and> length (tk_ticket out') = 512"
proof -
  let ?m = "nst_spec lifetime age_add nonce ticket exts"
  note B = nst_spec_bytes [OF n, of lifetime age_add]
  have hl: "ks_hash_len (hs_ks hs) = br_digest_size a" using ks by (simp add: ks_wf_def)
  have "tls13_parse_new_session_ticket hs ?m out =
     (out\<lparr>tk_lifetime := lifetime, tk_age_add := age_add, tk_ticket := wr (tk_ticket out) 0 ticket,
          tk_ticket_len := length ticket, tk_suite := hs_cipher_suite hs, tk_psk_len := br_digest_size a,
          tk_psk := wr (tk_psk out) 0 (expand_label_spec a (rd (res_master hs) 0 (br_digest_size a))
            ''resumption'' nonce (br_digest_size a)), tk_valid := True\<rparr>, True)"
    unfolding tls13_parse_new_session_ticket_def Let_def B(2) B(6) option.case prod.case
    using rm by (simp add: B(1,3,4,5) nst_too_short_def ht_defs hl ks_other_keys(3) [OF ks])
  then show ?thesis using out n by (simp add: rd_wr_same_len)
qed

text \<open>Whatever the message, the stored arrays keep their sizes; a failed parse can leave only the
  two integers changed.\<close>

lemma parse_nst_bounds:
  assumes e: "tls13_parse_new_session_ticket hs msg out = (out', ok)"
    and ks: "ks_hash_len (hs_ks hs) \<le> br_digest_size (ks_hash (hs_ks hs))"
    and out: "length (tk_psk out) = 64" "length (tk_ticket out) = 512" "tk_ticket_len out \<le> 512" "tk_psk_len out \<le> 64"
  shows "length (tk_psk out') = 64" "length (tk_ticket out') = 512" "tk_ticket_len out' \<le> 512" "tk_psk_len out' \<le> 64"
    "\<not> ok \<Longrightarrow> \<exists>l g. out' = out\<lparr>tk_lifetime := l, tk_age_add := g\<rparr>"
proof -
  define lim where "lim = unat (get_u24 msg 1) + 4"
  have r: "\<exists>l g. out = out\<lparr>tk_lifetime := l, tk_age_add := g\<rparr>"
    by (intro exI [of _ "tk_lifetime out"] exI [of _ "tk_age_add out"]) simp
  have p: "length (tls13_ks_derive_resumption_psk (hs_ks hs) rm nonce) \<le> 64"
    "ks_hash_len (hs_ks hs) \<le> 64" for rm nonce
    using order_trans [OF ks digest_size_64] ks
    by (simp_all add: tls13_ks_derive_resumption_psk_def length_expand_label)
  have f: "length t \<le> 512" if "nst_fields msg lim = Some (n, t)" for n t
    using that by (auto simp: nst_fields_def Let_def TLS13_MAX_TICKET_LEN_def split: if_splits)
  have "(\<exists>l g. out' = out\<lparr>tk_lifetime := l, tk_age_add := g\<rparr>) \<or>
     (ok \<and> (\<exists>l g n t. nst_fields msg lim = Some (n, t) \<and> out' = out\<lparr>tk_lifetime := l, tk_age_add := g,
        tk_ticket := wr (tk_ticket out) 0 t, tk_ticket_len := length t, tk_suite := hs_cipher_suite hs,
        tk_psk_len := ks_hash_len (hs_ks hs),
        tk_psk := wr (tk_psk out) 0 (tls13_ks_derive_resumption_psk (hs_ks hs) (res_master hs) n), tk_valid := True\<rparr>))"
    using e r unfolding tls13_parse_new_session_ticket_def Let_def lim_def [symmetric]
    by (simp split: if_splits option.splits prod.splits) blast+
  then have "length (tk_psk out') = 64 \<and> length (tk_ticket out') = 512 \<and> tk_ticket_len out' \<le> 512 \<and> tk_psk_len out' \<le> 64
     \<and> (\<not> ok \<longrightarrow> (\<exists>l g. out' = out\<lparr>tk_lifetime := l, tk_age_add := g\<rparr>))"
    using out f p by (elim disjE) (auto simp: max_absorb1)
  then show "length (tk_psk out') = 64" "length (tk_ticket out') = 512" "tk_ticket_len out' \<le> 512" "tk_psk_len out' \<le> 64"
    "\<not> ok \<Longrightarrow> \<exists>l g. out' = out\<lparr>tk_lifetime := l, tk_age_add := g\<rparr>" by simp_all
qed

section \<open>Properties\<close>

text \<open>C30: a NewSessionTicket message as RFC 8446 encodes it, with a ticket of at most the 512 bytes
  the client keeps (\<open>TLS13_MAX_TICKET_LEN\<close>), is taken apart into the lifetime, the age obfuscation
  and the ticket it was made of, and the pre-shared key stored with it is the resumption key for
  its nonce.\<close>

theorem new_session_ticket_roundtrip:
  fixes ticket exts :: bytes
  assumes "res_master_valid hs" "ks_wf a (hs_ks hs)" "length nonce < 256" "ticket \<noteq> []" "length ticket \<le> 512"
    "length exts < 65536" "length (tk_psk out) = 64" "length (tk_ticket out) = 512"
  shows "\<exists>out'. tls13_parse_new_session_ticket hs (nst_spec lifetime age_add nonce ticket exts) out = (out', True)
     \<and> tk_valid out' \<and> tk_lifetime out' = lifetime \<and> tk_age_add out' = age_add \<and> tk_suite out' = hs_cipher_suite hs
     \<and> rd (tk_ticket out') 0 (tk_ticket_len out') = ticket
     \<and> rd (tk_psk out') 0 (tk_psk_len out')
         = expand_label_spec a (rd (res_master hs) 0 (br_digest_size a)) ''resumption'' nonce (br_digest_size a)"
  using parse_nst_ok [OF assms, of lifetime age_add] by blast

theorem new_session_ticket_roundtrip_witness:
  "\<exists>out'. tls13_parse_new_session_ticket ((tls13_handshake_init ())\<lparr>res_master_valid := True,
        hs_ks := tls13_ks_init (hs_ks (tls13_handshake_init ())) SHA256\<rparr>)
      (nst_spec 3600 77 [0, 1] [5, 6, 7] []) zero_ticket = (out', True)
     \<and> tk_lifetime out' = 3600 \<and> rd (tk_ticket out') 0 (tk_ticket_len out') = [5, 6, 7]"
proof -
  let ?h = "(tls13_handshake_init ())\<lparr>res_master_valid := True, hs_ks := tls13_ks_init (hs_ks (tls13_handshake_init ())) SHA256\<rparr>"
  have k: "ks_wf SHA256 (hs_ks ?h)"
    using ks_wf_init [of "hs_ks (tls13_handshake_init ())" SHA256] by (simp add: tls13_handshake_init_def)
  have "res_master_valid ?h" "length [0 :: byte, 1] < 256" "[5 :: byte, 6, 7] \<noteq> []" "length [5 :: byte, 6, 7] \<le> 512"
    "length ([] :: bytes) < 65536" "length (tk_psk zero_ticket) = 64" "length (tk_ticket zero_ticket) = 512"
    by (simp_all add: zero_ticket_def)
  from new_session_ticket_roundtrip [OF this(1) k this(2-)] show ?thesis by blast
qed

text \<open>Whatever the message says, the parser stays within the arrays of the ticket it fills, and
  when it refuses the message it has changed at most the two numbers at its front; a refused
  message leaves the validity of a ticket held before as it was.\<close>

lemma new_session_ticket_bounds:
  assumes "tls13_parse_new_session_ticket hs msg out = (out', ok)"
    and "ks_hash_len (hs_ks hs) \<le> br_digest_size (ks_hash (hs_ks hs))"
    and "length (tk_psk out) = 64" "length (tk_ticket out) = 512" "tk_ticket_len out \<le> 512" "tk_psk_len out \<le> 64"
  shows "length (tk_psk out') = 64 \<and> length (tk_ticket out') = 512 \<and> tk_ticket_len out' \<le> 512 \<and> tk_psk_len out' \<le> 64
     \<and> (if ok then tk_valid out' else \<exists>l g. out' = out\<lparr>tk_lifetime := l, tk_age_add := g\<rparr>)"
proof -
  have "ok \<Longrightarrow> tk_valid out'"
    using assms(1) by (auto simp: tls13_parse_new_session_ticket_def Let_def split: if_splits option.splits)
  then show ?thesis using parse_nst_bounds [OF assms] by auto
qed

lemma new_session_ticket_bounds_witness:
  "\<exists>out'. tls13_parse_new_session_ticket (tls13_handshake_init ()) [4, 0, 0, 1] zero_ticket = (out', False)
     \<and> length (tk_ticket out') = 512"
proof -
  have e: "tls13_parse_new_session_ticket (tls13_handshake_init ()) [4, 0, 0, 1] zero_ticket = (zero_ticket, False)"
    by (simp add: tls13_parse_new_session_ticket_def tls13_handshake_init_def)
  have "length (tk_ticket zero_ticket) = 512"
    using new_session_ticket_bounds [OF e] by (simp add: tls13_handshake_init_def zero_ticket_def)
  with e show ?thesis by blast
qed

end
