(* ===== verification/Ticket_Cache.thy ===== *)
theory Ticket_Cache
  imports Handshake_State
begin

text \<open>
  The resumption ticket cache, os9/ostls_ticket_cache.c: six slots, one ticket per host, the
  least recently stored evicted, lifetimes enforced on lookup. The file-level array \<open>g_slots\<close> is
  passed and returned. Host names are C strings, that is byte lists without NUL; \<open>None\<close> stands for
  a null pointer. Clock values are 32-bit words, whose difference wraps.

  The contract of a store that may forget but never invents is the locale \<open>lossy_store\<close>; its
  interpretation shows that the cache, with the host's first 255 bytes as the key, satisfies it.
  What it forgets is the refinement at the end: the table stands for a list of at most six
  entries, newest first (\<open>cache_abs\<close>), and both operations agree with \<open>lru_put\<close> and \<open>lru_get\<close> on it.
\<close>

section \<open>Operations\<close>

record ticket_slot =
  sl_used :: bool
  sl_host :: bytes
  sl_received :: u32
  sl_t :: session_ticket

definition OSTLS_TICKET_CACHE_SLOTS :: nat where "OSTLS_TICKET_CACHE_SLOTS = 6"

definition OSTLS_TicketCacheReset :: "ticket_slot list" where
  "OSTLS_TicketCacheReset = replicate OSTLS_TICKET_CACHE_SLOTS
     \<lparr>sl_used = False, sl_host = [], sl_received = 0, sl_t = zero_ticket\<rparr>"

definition host_eq :: "bytes \<Rightarrow> bytes \<Rightarrow> bool" where
  "host_eq a b \<longleftrightarrow> take 255 a = take 255 b"

text \<open>The two searching loops: the first slot that satisfies a test.\<close>

fun first_slot :: "(ticket_slot \<Rightarrow> bool) \<Rightarrow> ticket_slot list \<Rightarrow> nat option" where
  "first_slot p [] = None"
| "first_slot p (s # ss) = (if p s then Some 0 else map_option Suc (first_slot p ss))"

text \<open>The eviction loop: the candidate index and its time stamp.\<close>

definition oldest_step :: "ticket_slot list \<Rightarrow> nat \<Rightarrow> nat \<times> u32 \<Rightarrow> nat \<times> u32" where
  "oldest_step ss i = (\<lambda>(target, oldest_recv).
     if sl_received (ss ! i) < oldest_recv then (i, sl_received (ss ! i)) else (target, oldest_recv))"

definition oldest_slot :: "ticket_slot list \<Rightarrow> nat" where
  "oldest_slot ss = fst (fold (oldest_step ss) [1..<OSTLS_TICKET_CACHE_SLOTS] (0, sl_received (ss ! 0)))"

definition put_target :: "bytes \<Rightarrow> ticket_slot list \<Rightarrow> nat" where
  "put_target host ss =
     (case first_slot (\<lambda>s. sl_used s \<and> host_eq (sl_host s) host) ss of
        Some i \<Rightarrow> i
      | None \<Rightarrow> (case first_slot (\<lambda>s. \<not> sl_used s) ss of
            Some i \<Rightarrow> i
          | None \<Rightarrow> oldest_slot ss))"

definition OSTLS_TicketCachePut ::
  "bytes option \<Rightarrow> session_ticket option \<Rightarrow> u32 \<Rightarrow> ticket_slot list \<Rightarrow> ticket_slot list" where
  "OSTLS_TicketCachePut host t now ss =
     (case (host, t) of
        (Some host, Some t) \<Rightarrow>
          if \<not> tk_valid t \<or> tk_ticket_len t = 0 then ss
          else ss[put_target host ss :=
                  \<lparr>sl_used = True, sl_host = take 255 host, sl_received = now, sl_t = t\<rparr>]
      | _ \<Rightarrow> ss)"

definition ticket_age_ms :: "u32 \<Rightarrow> u32 \<Rightarrow> u32" where
  "ticket_age_ms elapsed_ticks ticks_per_sec =
     elapsed_ticks div ticks_per_sec * 1000 + (elapsed_ticks mod ticks_per_sec * 1000) div ticks_per_sec"

text \<open>The result is \<open>Some\<close> for a return value of 1, with the ticket and the age.\<close>

definition OSTLS_TicketCacheGet ::
  "bytes option \<Rightarrow> u32 \<Rightarrow> u32 \<Rightarrow> ticket_slot list \<Rightarrow> ticket_slot list \<times> (session_ticket \<times> u32) option" where
  "OSTLS_TicketCacheGet host now ticks_per_sec ss =
     (case host of
        None \<Rightarrow> (ss, None)
      | Some host \<Rightarrow>
          if ticks_per_sec = 0 then (ss, None)
          else case first_slot (\<lambda>s. sl_used s \<and> host_eq (sl_host s) host) ss of
              None \<Rightarrow> (ss, None)
            | Some i \<Rightarrow>
                let elapsed_ticks = now - sl_received (ss ! i);
                    elapsed_sec = elapsed_ticks div ticks_per_sec
                in if tk_lifetime (sl_t (ss ! i)) \<le> elapsed_sec
                   then (ss[i := (ss ! i)\<lparr>sl_used := False\<rparr>], None)
                   else (ss, Some (sl_t (ss ! i), ticket_age_ms elapsed_ticks ticks_per_sec)))"

section \<open>The slots as a map\<close>

text \<open>At most one slot in use per key; names fit their field.\<close>

definition cache_ok :: "ticket_slot list \<Rightarrow> bool" where
  "cache_ok ss \<longleftrightarrow> length ss = OSTLS_TICKET_CACHE_SLOTS
     \<and> (\<forall>i < length ss. length (sl_host (ss ! i)) \<le> 255)
     \<and> (\<forall>i < length ss. \<forall>j < length ss. sl_used (ss ! i) \<and> sl_used (ss ! j)
          \<and> sl_host (ss ! i) = sl_host (ss ! j) \<longrightarrow> i = j)"

definition cache_lookup :: "ticket_slot list \<Rightarrow> bytes \<Rightarrow> (session_ticket \<times> u32) option" where
  "cache_lookup ss key = map_option (\<lambda>i. (sl_t (ss ! i), sl_received (ss ! i)))
     (first_slot (\<lambda>s. sl_used s \<and> host_eq (sl_host s) key) ss)"

lemma first_slot_Some:
  "first_slot p ss = Some i \<Longrightarrow> i < length ss \<and> p (ss ! i) \<and> (\<forall>j < i. \<not> p (ss ! j))"
  by (induction ss arbitrary: i) (auto split: if_splits simp: nth_Cons less_Suc_eq_0_disj)

lemma first_slot_None: "first_slot p ss = None \<longleftrightarrow> (\<forall>j < length ss. \<not> p (ss ! j))"
proof -
  have "first_slot p ss = None \<longleftrightarrow> (\<forall>s \<in> set ss. \<not> p s)" by (induction ss) auto
  then show ?thesis by (simp add: all_set_conv_all_nth)
qed

lemma first_slot_unique:
  assumes "i < length ss" "p (ss ! i)" "\<And>j. j < length ss \<Longrightarrow> p (ss ! j) \<Longrightarrow> j = i"
  shows "first_slot p ss = Some i"
proof (cases "first_slot p ss")
  case None
  then show ?thesis using assms(1,2) by (auto simp: first_slot_None)
next
  case (Some k)
  then show ?thesis using first_slot_Some [OF Some] assms(3) by auto
qed

lemma oldest_loop:
  assumes "1 \<le> n" "fold (oldest_step ss) [1..<n] (0, sl_received (ss ! 0)) = (t, r)"
  shows "t < n \<and> r = sl_received (ss ! t) \<and> (\<forall>j < n. r \<le> sl_received (ss ! j))
     \<and> (\<forall>j < t. r < sl_received (ss ! j))"
  using assms
proof (induction n arbitrary: t r rule: dec_induct)
  case base
  then show ?case by simp
next
  case (step n)
  obtain t0 r0 where f: "fold (oldest_step ss) [1..<n] (0, sl_received (ss ! 0)) = (t0, r0)" by fastforce
  note I = step.IH [OF f]
  have e: "oldest_step ss n (t0, r0) = (t, r)"
    using step.prems step.hyps f by simp
  show ?case
  proof (cases "sl_received (ss ! n) < r0")
    case True
    then have tr: "t = n" "r = sl_received (ss ! n)" using e by (auto simp: oldest_step_def)
    have lt: "r < sl_received (ss ! j)" if "j < n" for j
      using I True tr that by (metis order_less_le_trans)
    then have "r \<le> sl_received (ss ! j)" if "j < Suc n" for j
      using that tr(2) by (cases "j = n") (auto simp: less_Suc_eq intro: less_imp_le)
    with lt show ?thesis unfolding tr by simp
  next
    case False
    then have "t = t0" "r = r0" using e by (simp_all add: oldest_step_def)
    with I False show ?thesis by (auto simp: less_Suc_eq not_less)
  qed
qed

lemma oldest_slot_min:
  assumes "length ss = OSTLS_TICKET_CACHE_SLOTS"
  shows "oldest_slot ss < length ss" "j < length ss \<Longrightarrow> sl_received (ss ! oldest_slot ss) \<le> sl_received (ss ! j)"
    "j < oldest_slot ss \<Longrightarrow> sl_received (ss ! oldest_slot ss) < sl_received (ss ! j)"
proof -
  obtain t r where f: "fold (oldest_step ss) [1..<OSTLS_TICKET_CACHE_SLOTS] (0, sl_received (ss ! 0)) = (t, r)"
    by fastforce
  then have o: "oldest_slot ss = t" by (simp add: oldest_slot_def)
  have "1 \<le> OSTLS_TICKET_CACHE_SLOTS" by (simp add: OSTLS_TICKET_CACHE_SLOTS_def)
  from oldest_loop [OF this f] assms
  show "oldest_slot ss < length ss" "j < length ss \<Longrightarrow> sl_received (ss ! oldest_slot ss) \<le> sl_received (ss ! j)"
    "j < oldest_slot ss \<Longrightarrow> sl_received (ss ! oldest_slot ss) < sl_received (ss ! j)"
    unfolding o by auto
qed

lemma cache_ok_host: "cache_ok ss \<Longrightarrow> i < length ss \<Longrightarrow> take 255 (sl_host (ss ! i)) = sl_host (ss ! i)"
  by (simp add: cache_ok_def)

lemma cache_ok_unique:
  "cache_ok ss \<Longrightarrow> i < length ss \<Longrightarrow> j < length ss \<Longrightarrow> sl_used (ss ! i) \<Longrightarrow> sl_used (ss ! j) \<Longrightarrow>
   sl_host (ss ! i) = sl_host (ss ! j) \<Longrightarrow> i = j"
  by (simp add: cache_ok_def)

lemma put_target_less: "length ss = OSTLS_TICKET_CACHE_SLOTS \<Longrightarrow> put_target host ss < length ss"
  using oldest_slot_min(1) [of ss]
  by (auto simp: put_target_def split: option.split dest: first_slot_Some)

text \<open>No slot but the target holds the key.\<close>

lemma put_target_only:
  assumes "cache_ok ss" "j < length ss" "sl_used (ss ! j)" "sl_host (ss ! j) = take 255 host"
  shows "j = put_target host ss"
proof -
  have h: "host_eq (sl_host (ss ! j)) host" using assms(4) by (simp add: host_eq_def)
  obtain i where i: "first_slot (\<lambda>s. sl_used s \<and> host_eq (sl_host s) host) ss = Some i"
    using assms(2,3) h first_slot_None [of "\<lambda>s. sl_used s \<and> host_eq (sl_host s) host" ss] by fastforce
  note I = first_slot_Some [OF i]
  have "sl_host (ss ! i) = take 255 host" using I cache_ok_host [OF assms(1), of i] by (simp add: host_eq_def)
  then have "i = j" using I assms by (intro cache_ok_unique [OF assms(1)]) simp_all
  then show ?thesis using i by (simp add: put_target_def)
qed

definition stored :: "bytes \<Rightarrow> session_ticket \<Rightarrow> u32 \<Rightarrow> ticket_slot" where
  "stored host t now = \<lparr>sl_used = True, sl_host = take 255 host, sl_received = now, sl_t = t\<rparr>"

lemma put_eq:
  "tk_valid t \<Longrightarrow> tk_ticket_len t \<noteq> 0 \<Longrightarrow>
   OSTLS_TicketCachePut (Some host) (Some t) now ss = ss[put_target host ss := stored host t now]"
  by (simp add: OSTLS_TicketCachePut_def stored_def)

lemma cache_ok_update:
  assumes "cache_ok ss"
  shows "cache_ok (ss[put_target host ss := stored host t now])"
proof -
  let ?k = "put_target host ss"
  let ?ss = "ss[?k := stored host t now]"
  have k: "?k < length ss" using assms by (intro put_target_less) (simp add: cache_ok_def)
  have only: "i = ?k" if "i < length ss" "sl_used (?ss ! i)" "sl_host (?ss ! i) = take 255 host" for i
  proof (rule ccontr)
    assume ne: "i \<noteq> ?k"
    then have "sl_used (ss ! i)" "sl_host (ss ! i) = take 255 host" using that(2,3) by (simp_all only: nth_list_update_neq)
    with put_target_only [OF assms that(1)] ne show False by blast
  qed
  have sk: "sl_host (?ss ! ?k) = take 255 host" using k by (simp add: stored_def)
  have "i = j" if "i < length ss" "j < length ss" "sl_used (?ss ! i)" "sl_used (?ss ! j)"
    "sl_host (?ss ! i) = sl_host (?ss ! j)" for i j
  proof (cases "i = ?k \<or> j = ?k")
    case True
    then show ?thesis
    proof
      assume i: "i = ?k"
      have "sl_host (?ss ! j) = take 255 host" using that(5) unfolding i sk by (rule sym)
      with only [OF that(2,4)] i show ?thesis by simp
    next
      assume j: "j = ?k"
      have "sl_host (?ss ! i) = take 255 host" using that(5) unfolding j sk .
      with only [OF that(1,3)] j show ?thesis by simp
    qed
  next
    case False
    then show ?thesis using that by (intro cache_ok_unique [OF assms]) simp_all
  qed
  moreover have "length (sl_host (?ss ! i)) \<le> 255" if "i < length ss" for i
    using that assms by (cases "i = ?k") (simp_all add: stored_def cache_ok_def)
  ultimately show ?thesis using assms by (simp add: cache_ok_def)
qed

lemma cache_lookup_at:
  assumes "cache_ok ss" "i < length ss" "sl_used (ss ! i)" "sl_host (ss ! i) = take 255 key"
  shows "cache_lookup ss key = Some (sl_t (ss ! i), sl_received (ss ! i))"
proof -
  have "first_slot (\<lambda>s. sl_used s \<and> host_eq (sl_host s) key) ss = Some i"
  proof (rule first_slot_unique [OF assms(2)])
    show "sl_used (ss ! i) \<and> host_eq (sl_host (ss ! i)) key" using assms by (simp add: host_eq_def)
    fix j assume "j < length ss" "sl_used (ss ! j) \<and> host_eq (sl_host (ss ! j)) key"
    then show "j = i"
      using assms cache_ok_host [OF assms(1), of j] by (intro cache_ok_unique [OF assms(1)]) (simp_all add: host_eq_def)
  qed
  then show ?thesis by (simp add: cache_lookup_def)
qed

lemma cache_lookup_cases:
  assumes "cache_ok ss"
  obtains (miss) "cache_lookup ss key = None" "\<And>i. i < length ss \<Longrightarrow> sl_used (ss ! i) \<Longrightarrow> sl_host (ss ! i) \<noteq> take 255 key"
  | (hit) i where "i < length ss" "sl_used (ss ! i)" "sl_host (ss ! i) = take 255 key"
proof (cases "cache_lookup ss key")
  case None
  then have "first_slot (\<lambda>s. sl_used s \<and> host_eq (sl_host s) key) ss = None" by (simp add: cache_lookup_def)
  then show ?thesis using None by (intro miss) (auto simp: first_slot_None host_eq_def)
next
  case (Some x)
  then obtain i where "first_slot (\<lambda>s. sl_used s \<and> host_eq (sl_host s) key) ss = Some i"
    by (auto simp: cache_lookup_def)
  from first_slot_Some [OF this] cache_ok_host [OF assms, of i] show ?thesis
    by (intro hit [of i]) (simp_all add: host_eq_def)
qed

lemma put_lookup_same:
  assumes "cache_ok ss"
  shows "cache_lookup (ss[put_target host ss := stored host t now]) host = Some (t, now)"
proof -
  have "put_target host ss < length ss" using assms by (intro put_target_less) (simp add: cache_ok_def)
  with cache_lookup_at [OF cache_ok_update [OF assms], of "put_target host ss" host t now host] show ?thesis
    by (simp add: stored_def)
qed

lemma put_lookup_other:
  assumes ok: "cache_ok ss" and ne: "take 255 key \<noteq> take 255 host"
  shows "cache_lookup (ss[put_target host ss := stored host t now]) key = cache_lookup ss key \<or>
    cache_lookup (ss[put_target host ss := stored host t now]) key = None"
proof -
  let ?k = "put_target host ss" and ?ss = "ss[put_target host ss := stored host t now]"
  have k: "?k < length ss" using ok by (intro put_target_less) (simp add: cache_ok_def)
  show ?thesis
  proof (rule cache_lookup_cases [OF cache_ok_update [OF ok, of host t now], of key])
    fix i assume hit: "i < length ?ss" "sl_used (?ss ! i)" "sl_host (?ss ! i) = take 255 key"
    then have "i \<noteq> ?k" using ne k by (auto simp: stored_def)
    then have "cache_lookup ss key = Some (sl_t (ss ! i), sl_received (ss ! i))"
      using hit k by (intro cache_lookup_at [OF ok]) simp_all
    moreover have "cache_lookup ?ss key = Some (sl_t (?ss ! i), sl_received (?ss ! i))"
      by (rule cache_lookup_at [OF cache_ok_update [OF ok] hit])
    ultimately show ?thesis using \<open>i \<noteq> ?k\<close> by simp
  qed simp
qed

section \<open>The contract\<close>

text \<open>A store of bounded size: what was put last is found, other keys keep their value or lose
  it, nothing else appears.\<close>

locale lossy_store =
  fixes put :: "'k \<Rightarrow> 'v \<Rightarrow> 's \<Rightarrow> 's" and look :: "'s \<Rightarrow> 'k \<Rightarrow> 'v option"
    and same :: "'k \<Rightarrow> 'k \<Rightarrow> bool" and good :: "'v \<Rightarrow> bool" and inv :: "'s \<Rightarrow> bool" and empty :: 's
  assumes inv_empty: "inv empty" and look_empty: "look empty k = None"
    and inv_put: "inv s \<Longrightarrow> good v \<Longrightarrow> inv (put k v s)"
    and look_put: "inv s \<Longrightarrow> good v \<Longrightarrow> same k' k \<Longrightarrow> look (put k v s) k' = Some v"
    and look_other: "inv s \<Longrightarrow> good v \<Longrightarrow> \<not> same k' k \<Longrightarrow>
      look (put k v s) k' = look s k' \<or> look (put k v s) k' = None"
begin

text \<open>The value of the last put under a key.\<close>

definition last_put :: "('k \<times> 'v) list \<Rightarrow> 'k \<Rightarrow> 'v option" where
  "last_put kvs k = map_option snd (find (\<lambda>(k', v). same k k') (rev kvs))"

lemma inv_puts: "\<forall>(k, v) \<in> set kvs. good v \<Longrightarrow> inv (fold (\<lambda>(k, v). put k v) kvs empty)"
  by (induction kvs rule: rev_induct) (auto simp: inv_empty inv_put)

lemma never_invents:
  assumes "\<forall>(k, v) \<in> set kvs. good v"
  shows "look (fold (\<lambda>(k, v). put k v) kvs empty) k = None \<or>
         look (fold (\<lambda>(k, v). put k v) kvs empty) k = last_put kvs k"
  using assms
proof (induction kvs rule: rev_induct)
  case Nil
  then show ?case by (simp add: look_empty)
next
  case (snoc x kvs)
  obtain k' v where x: "x = (k', v)" by fastforce
  have g: "good v" "\<forall>(k, v) \<in> set kvs. good v" using snoc.prems by (auto simp: x)
  note i = inv_puts [OF g(2)]
  show ?case
  proof (cases "same k k'")
    case True
    then show ?thesis using look_put [OF i g(1) True] by (simp add: x last_put_def)
  next
    case False
    then show ?thesis using look_other [OF i g(1) False] snoc.IH [OF g(2)] by (auto simp: x last_put_def)
  qed
qed

end

lemma cache_ok_reset: "cache_ok OSTLS_TicketCacheReset"
  by (simp add: cache_ok_def OSTLS_TicketCacheReset_def)

interpretation tickets: lossy_store
  "\<lambda>host (t, now). OSTLS_TicketCachePut (Some host) (Some t) now" cache_lookup host_eq
  "\<lambda>(t, now). tk_valid t \<and> tk_ticket_len t \<noteq> 0" cache_ok OSTLS_TicketCacheReset
proof
  show "cache_ok OSTLS_TicketCacheReset" by (rule cache_ok_reset)
  show "cache_lookup OSTLS_TicketCacheReset k = None" for k
    by (simp add: cache_lookup_def first_slot_None OSTLS_TicketCacheReset_def)
  fix s :: "ticket_slot list" and v :: "session_ticket \<times> u32" and k k'
  assume s: "cache_ok s" and v: "case v of (t, now) \<Rightarrow> tk_valid t \<and> tk_ticket_len t \<noteq> 0"
  obtain t now where tv: "v = (t, now)" by fastforce
  have p: "(case v of (t, now) \<Rightarrow> OSTLS_TicketCachePut (Some k) (Some t) now) s
      = s[put_target k s := stored k t now]" using v by (simp add: tv put_eq)
  show "cache_ok ((case v of (t, now) \<Rightarrow> OSTLS_TicketCachePut (Some k) (Some t) now) s)"
    unfolding p by (rule cache_ok_update [OF s])
  show "cache_lookup ((case v of (t, now) \<Rightarrow> OSTLS_TicketCachePut (Some k) (Some t) now) s) k' = Some v"
    if "host_eq k' k"
    using put_lookup_same [OF s, of k t now] that
    unfolding p by (simp add: tv cache_lookup_def host_eq_def)
  show "cache_lookup ((case v of (t, now) \<Rightarrow> OSTLS_TicketCachePut (Some k) (Some t) now) s) k' = cache_lookup s k' \<or>
        cache_lookup ((case v of (t, now) \<Rightarrow> OSTLS_TicketCachePut (Some k) (Some t) now) s) k' = None"
    if "\<not> host_eq k' k"
    unfolding p by (rule put_lookup_other [OF s]) (use that in \<open>simp add: host_eq_def\<close>)
qed

section \<open>Lookups\<close>

lemma get_result:
  assumes "cache_ok ss" "OSTLS_TicketCacheGet (Some host) now tps ss = (ss', r)"
  shows "cache_ok ss'"
    "r = Some (t, age) \<Longrightarrow> \<exists>recv. cache_lookup ss host = Some (t, recv) \<and> tps \<noteq> 0
        \<and> (now - recv) div tps < tk_lifetime t \<and> age = ticket_age_ms (now - recv) tps \<and> ss' = ss"
    "r = None \<Longrightarrow> tps \<noteq> 0 \<Longrightarrow> cache_lookup ss' host = None"
    "r = None \<Longrightarrow> tps \<noteq> 0 \<Longrightarrow> cache_lookup ss host = None \<or>
       (\<exists>t recv. cache_lookup ss host = Some (t, recv) \<and> tk_lifetime t \<le> (now - recv) div tps)"
proof -
  let ?p = "\<lambda>s. sl_used s \<and> host_eq (sl_host s) host"
  have "cache_ok ss' \<and> (r = Some (t, age) \<longrightarrow> (\<exists>recv. cache_lookup ss host = Some (t, recv) \<and> tps \<noteq> 0
        \<and> (now - recv) div tps < tk_lifetime t \<and> age = ticket_age_ms (now - recv) tps \<and> ss' = ss)) \<and>
    (r = None \<longrightarrow> tps \<noteq> 0 \<longrightarrow> cache_lookup ss' host = None) \<and>
    (r = None \<longrightarrow> tps \<noteq> 0 \<longrightarrow> cache_lookup ss host = None \<or>
       (\<exists>t recv. cache_lookup ss host = Some (t, recv) \<and> tk_lifetime t \<le> (now - recv) div tps))"
  proof (cases "first_slot ?p ss")
    case None
    then show ?thesis
      using assms by (auto simp: OSTLS_TicketCacheGet_def cache_lookup_def split: if_splits)
  next
    case (Some i)
    note I = first_slot_Some [OF Some]
    have h: "sl_host (ss ! i) = take 255 host" using I cache_ok_host [OF assms(1), of i] by (simp add: host_eq_def)
    let ?ss = "ss[i := (ss ! i)\<lparr>sl_used := False\<rparr>]"
    have old: "sl_host (?ss ! k) = sl_host (ss ! k) \<and> (sl_used (?ss ! k) \<longrightarrow> sl_used (ss ! k))" if "k < length ss" for k
      using that I by (simp add: nth_list_update)
    have "cache_ok ?ss"
      unfolding cache_ok_def
    proof (intro conjI allI impI)
      fix k l assume "k < length ?ss" "l < length ?ss"
        "sl_used (?ss ! k) \<and> sl_used (?ss ! l) \<and> sl_host (?ss ! k) = sl_host (?ss ! l)"
      then show "k = l" using old by (intro cache_ok_unique [OF assms(1)]) simp_all
    qed (use assms(1) old in \<open>simp_all add: cache_ok_def\<close>)
    note ok = this
    have "cache_lookup ?ss host = None"
    proof (rule cache_lookup_cases [OF ok, of host])
      fix j assume hit: "j < length ?ss" "sl_used (?ss ! j)" "sl_host (?ss ! j) = take 255 host"
      then have "j \<noteq> i" "sl_used (ss ! j)" "sl_host (ss ! j) = sl_host (ss ! i)" using I h
        by (auto simp: nth_list_update split: if_splits)
      then have "j = i" using I hit(1) by (intro cache_ok_unique [OF assms(1)]) simp_all
      with \<open>j \<noteq> i\<close> show ?thesis ..
    qed
    then show ?thesis
      using assms Some ok by (auto simp: OSTLS_TicketCacheGet_def cache_lookup_def Let_def not_le split: if_splits)
  qed
  then show "cache_ok ss'"
    "r = Some (t, age) \<Longrightarrow> \<exists>recv. cache_lookup ss host = Some (t, recv) \<and> tps \<noteq> 0
        \<and> (now - recv) div tps < tk_lifetime t \<and> age = ticket_age_ms (now - recv) tps \<and> ss' = ss"
    "r = None \<Longrightarrow> tps \<noteq> 0 \<Longrightarrow> cache_lookup ss' host = None"
    "r = None \<Longrightarrow> tps \<noteq> 0 \<Longrightarrow> cache_lookup ss host = None \<or>
       (\<exists>t recv. cache_lookup ss host = Some (t, recv) \<and> tk_lifetime t \<le> (now - recv) div tps)" by blast+
qed

text \<open>After any insertions a lookup answers with the ticket put last for the host or with nothing.\<close>

lemma cache_never_invents:
  assumes "\<forall>(host, t, now) \<in> set puts. tk_valid t \<and> tk_ticket_len t \<noteq> 0"
  defines "ss \<equiv> fold (\<lambda>(host, t, now). OSTLS_TicketCachePut (Some host) (Some t) now) puts OSTLS_TicketCacheReset"
  shows "cache_ok ss
    \<and> cache_lookup ss key \<in> {None, map_option snd (find (\<lambda>(host, v). host_eq key host) (rev puts))}"
proof -
  have g: "\<forall>(k, v) \<in> set puts. (\<lambda>(t, now). tk_valid t \<and> tk_ticket_len t \<noteq> 0) v" using assms(1) by auto
  have "(\<lambda>(host, t, now). OSTLS_TicketCachePut (Some host) (Some t) now)
      = (\<lambda>(k, v). (\<lambda>host (t, now). OSTLS_TicketCachePut (Some host) (Some t) now) k v)" by auto
  then show ?thesis
    using tickets.inv_puts [OF g] tickets.never_invents [OF g, of key]
    by (auto simp: ss_def tickets.last_put_def)
qed

text \<open>A hit returns the ticket stored for the host, only while its lifetime has not run out,
  with its age in milliseconds; a miss means that nothing is stored or that the lifetime has run
  out, and the slot is then freed.\<close>

lemma cache_get_result:
  assumes "cache_ok ss" "OSTLS_TicketCacheGet (Some host) now tps ss = (ss', r)" "tps \<noteq> 0"
  shows "cache_ok ss' \<and> (case r of
      Some (t, age) \<Rightarrow> \<exists>recv. cache_lookup ss host = Some (t, recv)
        \<and> (now - recv) div tps < tk_lifetime t \<and> age = ticket_age_ms (now - recv) tps \<and> ss' = ss
    | None \<Rightarrow> cache_lookup ss' host = None \<and> (case cache_lookup ss host of None \<Rightarrow> True
        | Some (t, recv) \<Rightarrow> tk_lifetime t \<le> (now - recv) div tps))"
proof (cases r)
  case None
  then show ?thesis using get_result(1,3,4) [OF assms(1,2)] assms(3) by auto
next
  case (Some x)
  then obtain t age where "r = Some (t, age)" by (cases x) auto
  then show ?thesis using get_result(1,2) [OF assms(1,2)] by auto
qed

section \<open>The cache as a list, newest first\<close>

text \<open>The reference: the entries by age of insertion. An insertion takes the host's entry out, puts the
  new one in front and drops what comes after the sixth. A lookup finds the host's entry; when its
  lifetime has run out it is taken out and nothing is found.\<close>

type_synonym entry = "bytes \<times> session_ticket \<times> u32"

definition lru_put :: "bytes \<Rightarrow> session_ticket \<Rightarrow> u32 \<Rightarrow> entry list \<Rightarrow> entry list" where
  "lru_put key t now L = take 6 ((key, t, now) # filter (\<lambda>e. fst e \<noteq> key) L)"

definition lru_get :: "bytes \<Rightarrow> u32 \<Rightarrow> u32 \<Rightarrow> entry list \<Rightarrow> entry list \<times> (session_ticket \<times> u32) option" where
  "lru_get key now tps L =
     (case find (\<lambda>e. fst e = key) L of
        None \<Rightarrow> (L, None)
      | Some (_, t, recv) \<Rightarrow>
          if tk_lifetime t \<le> (now - recv) div tps then (filter (\<lambda>e. fst e \<noteq> key) L, None)
          else (L, Some (t, ticket_age_ms (now - recv) tps)))"

datatype cache_op = Put "bytes option" "session_ticket option" u32 | Get "bytes option" u32 u32

text \<open>The answers of the lookups in a sequence of operations, by the code and by the reference.\<close>

fun run_cache :: "cache_op list \<Rightarrow> ticket_slot list \<Rightarrow> (session_ticket \<times> u32) option list" where
  "run_cache [] ss = []"
| "run_cache (Put host t now # ops) ss = run_cache ops (OSTLS_TicketCachePut host t now ss)"
| "run_cache (Get host now tps # ops) ss =
     (let (ss, r) = OSTLS_TicketCacheGet host now tps ss in r # run_cache ops ss)"

fun run_lru :: "cache_op list \<Rightarrow> entry list \<Rightarrow> (session_ticket \<times> u32) option list" where
  "run_lru [] L = []"
| "run_lru (Put host t now # ops) L =
     run_lru ops (case (host, t) of
        (Some h, Some t) \<Rightarrow> if tk_valid t \<and> tk_ticket_len t \<noteq> 0 then lru_put (take 255 h) t now L else L
      | _ \<Rightarrow> L)"
| "run_lru (Get host now tps # ops) L =
     (case host of
        Some h \<Rightarrow> if tps \<noteq> 0 then let (L, r) = lru_get (take 255 h) now tps L in r # run_lru ops L else None # run_lru ops L
      | None \<Rightarrow> None # run_lru ops L)"

fun put_times :: "cache_op list \<Rightarrow> u32 list" where
  "put_times [] = []"
| "put_times (Put host t now # ops) = now # put_times ops"
| "put_times (Get host now tps # ops) = put_times ops"

definition entry :: "ticket_slot \<Rightarrow> entry" where "entry s = (sl_host s, sl_t s, sl_received s)"
definition in_use :: "ticket_slot list \<Rightarrow> nat set" where "in_use ss = {i. i < length ss \<and> sl_used (ss ! i)}"

abbreviation newer :: "entry \<Rightarrow> entry \<Rightarrow> bool" where "newer a b \<equiv> snd (snd b) < snd (snd a)"

definition cache_abs :: "ticket_slot list \<Rightarrow> entry list \<Rightarrow> bool" where
  "cache_abs ss L \<longleftrightarrow> cache_ok ss \<and> sorted_wrt newer L \<and> set L = (\<lambda>i. entry (ss ! i)) ` in_use ss"

lemma newer_distinct: "sorted_wrt newer L \<Longrightarrow> distinct L"
  by (induction L) auto

lemma finite_in_use [simp]: "finite (in_use ss)"
  by (simp add: in_use_def)

lemma entry_inj:
  assumes "cache_ok ss"
  shows "inj_on (\<lambda>i. entry (ss ! i)) (in_use ss)"
  by (rule inj_onI) (use cache_ok_unique [OF assms] in \<open>auto simp: in_use_def entry_def\<close>)

lemma abs_length:
  assumes "cache_abs ss L"
  shows "length L = card (in_use ss)"
proof -
  have a: "cache_ok ss" "sorted_wrt newer L" "set L = (\<lambda>i. entry (ss ! i)) ` in_use ss" using assms by (simp_all add: cache_abs_def)
  have "length L = card (set L)" using distinct_card [OF newer_distinct [OF a(2)]] by (rule sym)
  also have "\<dots> = card (in_use ss)" unfolding a(3) by (rule card_image [OF entry_inj [OF a(1)]])
  finally show ?thesis .
qed

lemma in_use_le: "cache_ok ss \<Longrightarrow> card (in_use ss) \<le> 6"
  using card_mono [of "{..<length ss}" "in_use ss"] by (auto simp: in_use_def cache_ok_def OSTLS_TICKET_CACHE_SLOTS_def)

text \<open>The entry of a host, in the slots and in the list.\<close>

lemma abs_member:
  assumes "cache_abs ss L" "e \<in> set L"
  obtains i where "i < length ss" "sl_used (ss ! i)" "e = entry (ss ! i)"
  using assms by (auto simp: cache_abs_def in_use_def)

lemma abs_slot: "cache_abs ss L \<Longrightarrow> i < length ss \<Longrightarrow> sl_used (ss ! i) \<Longrightarrow> entry (ss ! i) \<in> set L"
  by (auto simp: cache_abs_def in_use_def)

lemma abs_found:
  assumes a: "cache_abs ss L" and i: "first_slot (\<lambda>s. sl_used s \<and> host_eq (sl_host s) host) ss = Some i"
  shows "find (\<lambda>e. fst e = take 255 host) L = Some (entry (ss ! i))" "i < length ss" "sl_used (ss ! i)" "sl_host (ss ! i) = take 255 host"
proof -
  have ok: "cache_ok ss" using a by (simp add: cache_abs_def)
  note I = first_slot_Some [OF i]
  show h: "i < length ss" "sl_used (ss ! i)" "sl_host (ss ! i) = take 255 host"
    using I cache_ok_host [OF ok, of i] by (simp_all add: host_eq_def)
  have "e = entry (ss ! i)" if e: "e \<in> set L" "fst e = take 255 host" for e
  proof -
    obtain j where j: "j < length ss" "sl_used (ss ! j)" "e = entry (ss ! j)" by (rule abs_member [OF a e(1)])
    then have "j = i" using h e(2) by (intro cache_ok_unique [OF ok]) (simp_all add: entry_def)
    then show ?thesis using j by simp
  qed
  note only = this
  have m: "entry (ss ! i) \<in> set L" "fst (entry (ss ! i)) = take 255 host" using abs_slot [OF a h(1,2)] h(3) by (simp_all add: entry_def)
  show "find (\<lambda>e. fst e = take 255 host) L = Some (entry (ss ! i))"
  proof (cases "find (\<lambda>e. fst e = take 255 host) L")
    case None
    then show ?thesis using m unfolding find_None_iff by blast
  next
    case (Some e)
    then obtain j where "j < length L" "fst (L ! j) = take 255 host" "e = L ! j" unfolding find_Some_iff by blast
    then show ?thesis using only [of e] Some by simp
  qed
qed

lemma abs_missing:
  assumes a: "cache_abs ss L" and i: "first_slot (\<lambda>s. sl_used s \<and> host_eq (sl_host s) host) ss = None"
  shows "e \<in> set L \<Longrightarrow> fst e \<noteq> take 255 host"
proof -
  assume e: "e \<in> set L"
  obtain j where j: "j < length ss" "sl_used (ss ! j)" "e = entry (ss ! j)" by (rule abs_member [OF a e])
  then have "\<not> host_eq (sl_host (ss ! j)) host" using i by (auto simp: first_slot_None)
  then show ?thesis using j a cache_ok_host [of ss j] by (auto simp: entry_def host_eq_def cache_abs_def)
qed

text \<open>The eviction takes the last entry of a full list.\<close>

lemma sorted_last_least:
  assumes "sorted_wrt newer L" "e \<in> set L" "\<And>x. x \<in> set L \<Longrightarrow> snd (snd e) \<le> snd (snd x)"
  shows "set (butlast L) = set L - {e}"
proof (cases L rule: rev_cases)
  case Nil
  then show ?thesis using assms(2) by simp
next
  case (snoc xs x)
  have n: "newer y x" if "y \<in> set xs" for y using assms(1) that by (simp add: snoc sorted_wrt_append)
  have "e = x"
  proof (rule ccontr)
    assume "e \<noteq> x"
    then have "newer e x" using assms(2) n by (simp add: snoc)
    moreover have "snd (snd e) \<le> snd (snd x)" using assms(3) [of x] by (simp add: snoc)
    ultimately show False by simp
  qed
  moreover have "x \<notin> set xs" using n by blast
  ultimately show ?thesis by (simp add: snoc)
qed

lemma put_keeps:
  fixes host :: bytes
  assumes a: "cache_abs ss L"
  defines "k \<equiv> put_target host ss"
  shows "set (take 5 (filter (\<lambda>e. fst e \<noteq> take 255 host) L)) = (\<lambda>i. entry (ss ! i)) ` (in_use ss - {k})"
proof -
  let ?h = "take 255 host" and ?F = "filter (\<lambda>e. fst e \<noteq> take 255 host) L" and ?I = "\<lambda>i. entry (ss ! i)"
  have ok: "cache_ok ss" and sL: "set L = ?I ` in_use ss" using a by (simp_all add: cache_abs_def)
  have len: "length ss = 6" using ok by (simp add: cache_ok_def OSTLS_TICKET_CACHE_SLOTS_def)
  have le: "length L \<le> 6" using abs_length [OF a] in_use_le [OF ok] by simp
  have inj: "?I ` (in_use ss - {k}) = ?I ` in_use ss - {?I k}" if "k \<in> in_use ss"
    using inj_on_image_set_diff [OF entry_inj [OF ok], of "in_use ss" "{k}"] that by auto
  consider (same) "first_slot (\<lambda>s. sl_used s \<and> host_eq (sl_host s) host) ss = Some k"
    | (free) "first_slot (\<lambda>s. sl_used s \<and> host_eq (sl_host s) host) ss = None" "first_slot (\<lambda>s. \<not> sl_used s) ss = Some k"
    | (full) "first_slot (\<lambda>s. sl_used s \<and> host_eq (sl_host s) host) ss = None" "first_slot (\<lambda>s. \<not> sl_used s) ss = None" "k = oldest_slot ss"
    unfolding k_def put_target_def
    by (cases "first_slot (\<lambda>s. sl_used s \<and> host_eq (sl_host s) host) ss"; cases "first_slot (\<lambda>s. \<not> sl_used s) ss") auto
  then show ?thesis
  proof cases
    case same
    note S = abs_found [OF a same]
    have k: "k \<in> in_use ss" using S by (simp add: in_use_def)
    have "e = ?I k" if e: "e \<in> set L" "fst e = ?h" for e
    proof -
      obtain j where j: "j < length ss" "sl_used (ss ! j)" "e = entry (ss ! j)" by (rule abs_member [OF a e(1)])
      then have "j = k" using S e(2) by (intro cache_ok_unique [OF ok]) (simp_all add: entry_def)
      then show ?thesis using j by simp
    qed
    moreover have "fst (?I k) = ?h" using S by (simp add: entry_def)
    ultimately have F: "set ?F = set L - {?I k}" by auto
    moreover have "?I k \<in> set L" using sL k by blast
    moreover have d: "distinct L" using a newer_distinct unfolding cache_abs_def by blast
    ultimately have "card (set ?F) < card (set L)" using card_Diff1_less [of "set L" "?I k"] by simp
    then have "length ?F < length L" using distinct_card [OF d] distinct_card [OF distinct_filter [OF d]] by metis
    then show ?thesis using F inj [OF k] sL le by simp
  next
    case free
    have "?F = L" using abs_missing [OF a free(1)] by (simp add: filter_id_conv)
    moreover have k: "k < length ss" "\<not> sl_used (ss ! k)" using first_slot_Some [OF free(2)] by simp_all
    then have "in_use ss - {k} = in_use ss" "in_use ss \<subseteq> {..<length ss} - {k}" by (auto simp: in_use_def)
    moreover have "card ({..<length ss} - {k}) = 5" using k len by simp
    ultimately show ?thesis
      using sL abs_length [OF a] card_mono [of "{..<length ss} - {k}" "in_use ss"] by simp
  next
    case full
    have F: "?F = L" using abs_missing [OF a full(1)] by (simp add: filter_id_conv)
    have u: "in_use ss = {..<6}" using full(2) len by (auto simp: first_slot_None in_use_def)
    then have l: "length L = 6" using abs_length [OF a] by simp
    have k: "k \<in> in_use ss" and least: "\<And>j. j < 6 \<Longrightarrow> sl_received (ss ! k) \<le> sl_received (ss ! j)"
      using oldest_slot_min [of ss] ok full(3) u len by (simp_all add: cache_ok_def)
    have "set (butlast L) = set L - {?I k}"
    proof (rule sorted_last_least)
      show "sorted_wrt newer L" using a by (simp add: cache_abs_def)
      show "?I k \<in> set L" using sL k by blast
      show "snd (snd (?I k)) \<le> snd (snd x)" if "x \<in> set L" for x using that sL u least by (auto simp: entry_def)
    qed
    then show ?thesis using F inj [OF k] sL l by (simp add: butlast_conv_take)
  qed
qed

lemma abs_put:
  assumes a: "cache_abs ss L" and new: "\<forall>e\<in>set L. snd (snd e) < now" and v: "tk_valid t" "tk_ticket_len t \<noteq> 0"
  shows "cache_abs (OSTLS_TicketCachePut (Some host) (Some t) now ss) (lru_put (take 255 host) t now L)"
proof -
  let ?k = "put_target host ss" and ?e = "(take 255 host, t, now)" and ?F = "filter (\<lambda>e. fst e \<noteq> take 255 host) L"
  let ?ss = "ss[?k := stored host t now]"
  have ok: "cache_ok ss" using a by (simp add: cache_abs_def)
  have k: "?k < length ss" using ok by (intro put_target_less) (simp add: cache_ok_def)
  have L: "lru_put (take 255 host) t now L = ?e # take 5 ?F" by (simp add: lru_put_def)
  have "sorted_wrt newer (take 5 ?F)" using a by (simp add: cache_abs_def sorted_wrt_filter sorted_wrt_take)
  moreover have "set (take 5 ?F) \<subseteq> set L" using set_take_subset [of 5 ?F] by auto
  ultimately have s: "sorted_wrt newer (?e # take 5 ?F)" using new by auto
  have "in_use ?ss = insert ?k (in_use ss - {?k})" using k by (auto simp: in_use_def nth_list_update stored_def)
  moreover have "entry (?ss ! ?k) = ?e" using k by (simp add: entry_def stored_def)
  moreover have "(\<lambda>i. entry (?ss ! i)) ` (in_use ss - {?k}) = (\<lambda>i. entry (ss ! i)) ` (in_use ss - {?k})" by simp
  ultimately have "(\<lambda>i. entry (?ss ! i)) ` in_use ?ss = set (?e # take 5 ?F)"
    using put_keeps [OF a, of host] by (simp only: image_insert list.set)
  then show ?thesis using s cache_ok_update [OF ok, of host t now] unfolding cache_abs_def put_eq [OF v] L by simp
qed

lemma abs_get:
  assumes a: "cache_abs ss L" and e: "OSTLS_TicketCacheGet (Some host) now tps ss = (ss', r)" and t: "tps \<noteq> 0"
  shows "\<exists>L'. lru_get (take 255 host) now tps L = (L', r) \<and> cache_abs ss' L' \<and> set L' \<subseteq> set L"
proof (cases "first_slot (\<lambda>s. sl_used s \<and> host_eq (sl_host s) host) ss")
  case None
  have "find (\<lambda>e. fst e = take 255 host) L = None" unfolding find_None_iff using abs_missing [OF a None] by blast
  then show ?thesis using e t None a by (auto simp: OSTLS_TicketCacheGet_def lru_get_def)
next
  case (Some i)
  note S = abs_found [OF a Some]
  have ok: "cache_ok ss" and sL: "set L = (\<lambda>i. entry (ss ! i)) ` in_use ss" using a by (simp_all add: cache_abs_def)
  let ?ss = "ss[i := (ss ! i)\<lparr>sl_used := False\<rparr>]" and ?F = "filter (\<lambda>e. fst e \<noteq> take 255 host) L"
  define ex where "ex \<longleftrightarrow> tk_lifetime (sl_t (ss ! i)) \<le> (now - sl_received (ss ! i)) div tps"
  have R: "(ss', r) = (if ex then (?ss, None) else (ss, Some (sl_t (ss ! i), ticket_age_ms (now - sl_received (ss ! i)) tps)))"
    using e t Some by (simp add: OSTLS_TicketCacheGet_def Let_def ex_def)
  have G: "lru_get (take 255 host) now tps L
      = (if ex then (?F, None) else (L, Some (sl_t (ss ! i), ticket_age_ms (now - sl_received (ss ! i)) tps)))"
    using S by (simp add: lru_get_def entry_def ex_def)
  have "cache_abs ?ss ?F" if ex
  proof -
    have "cache_ok ss'" using get_result(1) [OF ok e] .
    then have ok': "cache_ok ?ss" using R that by simp
    have u: "in_use ?ss = in_use ss - {i}" using S by (auto simp: in_use_def nth_list_update)
    have "entry (ss ! j) \<in> set ?F \<longleftrightarrow> j \<noteq> i" if "j \<in> in_use ss" for j
      using that S cache_ok_unique [OF ok, of j i] sL by (auto simp: entry_def in_use_def)
    then have "set ?F = (\<lambda>i. entry (ss ! i)) ` (in_use ss - {i})" using sL by auto
    moreover have "(\<lambda>j. entry (?ss ! j)) ` (in_use ss - {i}) = (\<lambda>j. entry (ss ! j)) ` (in_use ss - {i})" by simp
    ultimately show ?thesis using ok' a u by (simp add: cache_abs_def sorted_wrt_filter)
  qed
  then show ?thesis using R G a by (auto split: if_splits)
qed

lemma run_cache_lru:
  assumes "cache_abs ss L" "sorted_wrt (<) (put_times ops)" "\<forall>e\<in>set L. \<forall>t\<in>set (put_times ops). snd (snd e) < t"
  shows "run_cache ops ss = run_lru ops L"
  using assms
proof (induction ops arbitrary: ss L)
  case (Cons op ops)
  show ?case
  proof (cases op)
    case (Put host t now)
    show ?thesis
    proof (cases "\<exists>h x. host = Some h \<and> t = Some x \<and> tk_valid x \<and> tk_ticket_len x \<noteq> 0")
      case True
      then obtain h x where x: "host = Some h" "t = Some x" "tk_valid x" "tk_ticket_len x \<noteq> 0" by blast
      have "cache_abs (OSTLS_TicketCachePut host t now ss) (lru_put (take 255 h) x now L)"
        unfolding x(1,2) by (rule abs_put [OF Cons.prems(1) _ x(3,4)]) (use Cons.prems(3) in \<open>simp add: Put\<close>)
      moreover have "snd (snd e) < t'" if "e \<in> set (lru_put (take 255 h) x now L)" "t' \<in> set (put_times ops)" for e t'
      proof -
        have "e = (take 255 h, x, now) \<or> e \<in> set L" using that(1) by (auto simp: lru_put_def dest: in_set_takeD)
        then show ?thesis using that(2) Cons.prems(2,3) by (auto simp: Put)
      qed
      ultimately show ?thesis using Cons.IH Cons.prems(2) x by (simp add: Put)
    next
      case False
      then have "OSTLS_TicketCachePut host t now ss = ss" by (auto simp: OSTLS_TicketCachePut_def split: option.split)
      then show ?thesis using False Cons.IH [OF Cons.prems(1)] Cons.prems(2,3) by (auto simp: Put split: option.split)
    qed
  next
    case (Get host now tps)
    obtain ss' r where g: "OSTLS_TicketCacheGet host now tps ss = (ss', r)" by fastforce
    show ?thesis
    proof (cases "\<exists>h. host = Some h \<and> tps \<noteq> 0")
      case True
      then obtain h where h: "host = Some h" "tps \<noteq> 0" by blast
      obtain L' where L': "lru_get (take 255 h) now tps L = (L', r)" "cache_abs ss' L'" "set L' \<subseteq> set L"
        using abs_get [OF Cons.prems(1) g [unfolded h(1)] h(2)] by blast
      have "run_cache ops ss' = run_lru ops L'" using L'(3) Cons.prems(2,3) by (intro Cons.IH [OF L'(2)]) (auto simp: Get)
      then show ?thesis using L'(1) g h by (simp add: Get)
    next
      case False
      then have "ss' = ss" "r = None" using g by (auto simp: OSTLS_TicketCacheGet_def split: option.splits)
      then show ?thesis using False g Cons.IH [OF Cons.prems(1)] Cons.prems(2,3) by (auto simp: Get split: option.split)
    qed
  qed
qed simp

section \<open>Properties\<close>

text \<open>C29: over any sequence of insertions and lookups, on the empty cache, whose insertions come at
  increasing clock readings, the lookups answer exactly as a list of at most six entries, newest
  first, does: an insertion of a valid ticket replaces the host's entry and drops the entry
  inserted longest ago when there are six others, any other insertion does nothing, and a lookup
  answers with the ticket inserted last for the host and its age in milliseconds, unless it was
  dropped or its lifetime has run out, in which case it is forgotten. A host counts by its first
  255 bytes.\<close>

theorem cache_is_lru:
  assumes "sorted_wrt (<) (put_times ops)"
  shows "run_cache ops OSTLS_TicketCacheReset = run_lru ops []"
proof -
  have "cache_abs OSTLS_TicketCacheReset []"
    using cache_ok_reset by (simp add: cache_abs_def in_use_def OSTLS_TicketCacheReset_def)
  from run_cache_lru [OF this assms] show ?thesis by simp
qed

theorem cache_is_lru_witness:
  "run_cache (map (\<lambda>i. Put (Some [i]) (Some (zero_ticket\<lparr>tk_valid := True, tk_ticket_len := 3, tk_lifetime := 9\<rparr>)) (ucast i)) [1, 2, 3, 4, 5, 6, 7]
       @ [Get (Some [1]) 60 60, Get (Some [7]) 97 60, Get (Some [7]) 607 60, Get (Some [7]) 97 60]) OSTLS_TicketCacheReset
     = [None, Some (zero_ticket\<lparr>tk_valid := True, tk_ticket_len := 3, tk_lifetime := 9\<rparr>, 1500), None, None]"
proof -
  define t where "t = zero_ticket\<lparr>tk_valid := True, tk_ticket_len := 3, tk_lifetime := 9\<rparr>"
  have t: "tk_valid t" "tk_ticket_len t \<noteq> 0" "tk_lifetime t = 9" by (simp_all add: t_def)
  let ?ops = "map (\<lambda>i. Put (Some [i]) (Some t) (ucast i)) [1, 2, 3, 4, 5, 6, 7]
       @ [Get (Some [1]) 60 60, Get (Some [7]) 97 60, Get (Some [7]) 607 60, Get (Some [7]) 97 60]"
  have "sorted_wrt (<) (put_times ?ops)" by simp
  moreover have "run_lru ?ops [] = [None, Some (t, 1500), None, None]"
    by (simp add: t lru_put_def lru_get_def ticket_age_ms_def Let_def) (simp add: word_le_nat_alt)
  ultimately show ?thesis unfolding t_def [symmetric] using cache_is_lru [of ?ops] by simp
qed

end
