(* ===== verification/Http.thy ===== *)
theory Http
  imports Key_Schedule
begin

text \<open>
  The HTTP helpers, os9/ostls_http.c: the chunked-transfer decoder and the request formatters.

  The decoder's loops run over the unread input as a list and the output written so far;
  \<open>size_buf\<close> with \<open>size_len\<close> is the list of the characters held. \<open>strtol(_, NULL, 16)\<close> is
  modelled for the 32-bit \<open>long\<close> of the target, saturation included. Null-pointer arguments are
  not represented.

  The reference is a machine that reads one byte at a time (\<open>byte_run\<close>), with the room left in
  the output and whether it is inside a chunk extension. The buffered decoder equals it for every
  input and capacity (\<open>process_eq_run\<close>); hence a body may be cut into buffers anywhere but inside
  an extension (\<open>process_split\<close>), and the decoder reads what the chunked coding of RFC 9112
  writes, extensions and trailers included (\<open>run_encode\<close>).
\<close>

unbundle bit_operations_syntax

section \<open>The decoder\<close>

datatype chunk_state =
  kOSTLSChunkStateSize | kOSTLSChunkStateData | kOSTLSChunkStateCRLF | kOSTLSChunkStateTrailer
| kOSTLSChunkStateDone

record chunk_decoder =
  cd_state :: chunk_state
  cd_remaining :: u32
  cd_size :: bytes
  trailer_just_after_eol :: bool

definition OSTLS_HTTP_ChunkDecoderInit :: chunk_decoder where
  "OSTLS_HTTP_ChunkDecoderInit =
     \<lparr>cd_state = kOSTLSChunkStateSize, cd_remaining = 0, cd_size = [], trailer_just_after_eol = False\<rparr>"

definition hex_digit :: "byte \<Rightarrow> nat option" where
  "hex_digit c =
     (if 0x30 \<le> c \<and> c \<le> 0x39 then Some (unat c - 0x30)
      else if 0x41 \<le> c \<and> c \<le> 0x46 then Some (unat c - 0x37)
      else if 0x61 \<le> c \<and> c \<le> 0x66 then Some (unat c - 0x57) else None)"

fun hex_val :: "nat \<Rightarrow> bytes \<Rightarrow> nat" where
  "hex_val acc [] = acc"
| "hex_val acc (c # cs) = (case hex_digit c of None \<Rightarrow> acc | Some d \<Rightarrow> hex_val (16 * acc + d) cs)"

definition is_space :: "byte \<Rightarrow> bool" where
  "is_space c \<longleftrightarrow> c = 0x20 \<or> (0x09 \<le> c \<and> c \<le> 0x0D)"

definition strtol16 :: "bytes \<Rightarrow> int" where
  "strtol16 s =
     (let s = dropWhile is_space s;
          neg = (byte_at s 0 = 0x2D);
          s = (if s \<noteq> [] \<and> (byte_at s 0 = 0x2D \<or> byte_at s 0 = 0x2B) then drop 1 s else s);
          s = (if 3 \<le> length s \<and> byte_at s 0 = 0x30 \<and> (byte_at s 1 = 0x78 \<or> byte_at s 1 = 0x58)
                  \<and> hex_digit (byte_at s 2) \<noteq> None
               then drop 2 s else s);
          n = int (hex_val 0 s);
          v = (if neg then - n else n)
      in max (- (2 ^ 31)) (min (2 ^ 31 - 1) v))"

text \<open>The end of a size line.\<close>

definition size_done :: "chunk_decoder \<Rightarrow> chunk_decoder" where
  "size_done d =
     (let sz = strtol16 (cd_size d);
          d = d\<lparr>cd_size := [], cd_remaining := word_of_int sz\<rparr>
      in if sz = 0 then d\<lparr>cd_state := kOSTLSChunkStateTrailer, trailer_just_after_eol := True\<rparr>
         else d\<lparr>cd_state := kOSTLSChunkStateData\<rparr>)"

function size_loop :: "chunk_decoder \<Rightarrow> bytes \<Rightarrow> chunk_decoder \<times> bytes" where
  "size_loop d inp =
     (case inp of
        [] \<Rightarrow> (d, [])
      | ch # r \<Rightarrow>
          if ch = 0x0A then (size_done d, r)
          else if ch = 0x0D then size_loop d r
          else if ch = 0x3B then size_loop d (dropWhile (\<lambda>c. c \<noteq> 0x0A) r)
          else size_loop (if length (cd_size d) < 15 then d\<lparr>cd_size := cd_size d @ [ch]\<rparr> else d) r)"
  by pat_completeness auto
termination
  by (relation "measure (\<lambda>(d, inp). length inp)") (auto simp: length_dropWhile_le less_Suc_eq_le)

fun crlf_loop :: "chunk_decoder \<Rightarrow> bytes \<Rightarrow> chunk_decoder \<times> bytes" where
  "crlf_loop d [] = (d, [])"
| "crlf_loop d (ch # r) = (if ch = 0x0A then (d\<lparr>cd_state := kOSTLSChunkStateSize\<rparr>, r) else crlf_loop d r)"

fun trailer_loop :: "chunk_decoder \<Rightarrow> bytes \<Rightarrow> chunk_decoder \<times> bytes" where
  "trailer_loop d [] = (d, [])"
| "trailer_loop d (ch # r) =
     (if ch = 0x0D then trailer_loop d r
      else if ch = 0x0A
      then if trailer_just_after_eol d then (d\<lparr>cd_state := kOSTLSChunkStateDone\<rparr>, r)
           else trailer_loop (d\<lparr>trailer_just_after_eol := True\<rparr>) r
      else trailer_loop (d\<lparr>trailer_just_after_eol := False\<rparr>) r)"

declare size_loop.simps [simp del]

lemma size_loop_le: "length (snd (size_loop d inp)) \<le> length inp"
proof (induction d inp rule: size_loop.induct)
  case (1 d inp)
  show ?case
  proof (cases inp)
    case (Cons ch r)
    show ?thesis
      using 1(1) [OF Cons] order_trans [OF 1(2) [OF Cons] length_dropWhile_le] 1(3) [OF Cons]
      by (subst size_loop.simps) (auto simp: Cons intro: le_SucI)
  qed (simp add: size_loop.simps)
qed

lemma size_loop_shorter: "inp \<noteq> [] \<Longrightarrow> length (snd (size_loop d inp)) < length inp"
proof (cases inp)
  case (Cons ch r)
  then show ?thesis
    using order_trans [OF size_loop_le length_dropWhile_le, of d "\<lambda>c. c \<noteq> 0x0A" r] size_loop_le
    by (subst size_loop.simps) (auto simp: less_Suc_eq_le)
qed simp

lemma crlf_loop_le: "length (snd (crlf_loop d inp)) \<le> length inp"
  by (induction d inp rule: crlf_loop.induct) auto

lemma crlf_loop_shorter: "inp \<noteq> [] \<Longrightarrow> length (snd (crlf_loop d inp)) < length inp"
  using crlf_loop_le by (cases inp) (auto simp: less_Suc_eq_le)

lemma trailer_loop_le: "length (snd (trailer_loop d inp)) \<le> length inp"
  by (induction d inp rule: trailer_loop.induct) auto

lemma trailer_loop_shorter: "inp \<noteq> [] \<Longrightarrow> length (snd (trailer_loop d inp)) < length inp"
  using trailer_loop_le by (cases inp) (auto simp: less_Suc_eq_le)

text \<open>The Data state: how much is delivered.\<close>

definition chunk_deliver :: "nat \<Rightarrow> chunk_decoder \<Rightarrow> bytes \<Rightarrow> bytes \<Rightarrow> nat" where
  "chunk_deliver cap d inp out =
     (let avail_in = length inp; avail_out = cap - length out;
          deliver = (if avail_in < unat (cd_remaining d) then avail_in else unat (cd_remaining d))
      in if avail_out < deliver then avail_out else deliver)"

text \<open>The outer loop: decoder, unread input, output.\<close>

function chunk_loop :: "nat \<Rightarrow> chunk_decoder \<Rightarrow> bytes \<Rightarrow> bytes \<Rightarrow> chunk_decoder \<times> bytes \<times> bytes" where
  "chunk_loop cap d inp out =
     (if inp = [] then (d, inp, out)
      else case cd_state d of
          kOSTLSChunkStateSize \<Rightarrow>
            (let (d', r) = size_loop d inp in chunk_loop cap d' r out)
        | kOSTLSChunkStateData \<Rightarrow>
            (let k = chunk_deliver cap d inp out;
                 d' = d\<lparr>cd_remaining := cd_remaining d - word_of_nat k\<rparr>;
                 out' = out @ take k inp; inp' = drop k inp
             in if cd_remaining d' = 0 then chunk_loop cap (d'\<lparr>cd_state := kOSTLSChunkStateCRLF\<rparr>) inp' out'
                else if cap \<le> length out' then (d', inp', out')
                else chunk_loop cap d' inp' out')
        | kOSTLSChunkStateCRLF \<Rightarrow>
            (let (d', r) = crlf_loop d inp in chunk_loop cap d' r out)
        | kOSTLSChunkStateTrailer \<Rightarrow>
            (let (d', r) = trailer_loop d inp in chunk_loop cap d' r out)
        | kOSTLSChunkStateDone \<Rightarrow> (d, inp, out))"
  by pat_completeness auto
termination
proof (relation "measure (\<lambda>(cap, d, inp, out). 2 * length inp + (if cd_state d = kOSTLSChunkStateData then 1 else 0))",
    goal_cases)
  case (2 cap d inp out x d' r)
  then show ?case using size_loop_shorter [of inp d] by (cases "size_loop d inp") auto
next
  case (3 cap d inp out k d' out' inp')
  then show ?case by simp
next
  case (4 cap d inp out k d' out' inp')
  have "k \<noteq> 0"
  proof
    assume k: "k = 0"
    then have "unat (cd_remaining d) \<noteq> 0" using 4 by (simp add: unat_eq_0)
    moreover have "length out < cap" using 4 k by simp
    ultimately show False using 4(1,3) k by (auto simp: chunk_deliver_def Let_def split: if_splits)
  qed
  then show ?case using 4 by auto
next
  case (5 cap d inp out x d' r)
  then show ?case using crlf_loop_shorter [of inp d] by (cases "crlf_loop d inp") auto
next
  case (6 cap d inp out x d' r)
  then show ?case using trailer_loop_shorter [of inp d] by (cases "trailer_loop d inp") auto
qed simp_all

declare chunk_loop.simps [simp del]

text \<open>The call: decoder, \<open>out_buf\<close> up to \<open>*out_read\<close>, \<open>*in_consumed\<close>.\<close>

definition OSTLS_HTTP_ChunkDecoderProcess ::
  "chunk_decoder \<Rightarrow> bytes \<Rightarrow> nat \<Rightarrow> chunk_decoder \<times> bytes \<times> nat" where
  "OSTLS_HTTP_ChunkDecoderProcess d inp cap =
     (let (d, r, out) = chunk_loop cap d inp [] in (d, out, length inp - length r))"

section \<open>The formatters\<close>

text \<open>\<open>sprintf\<close> stores the whole request with its terminator; the capacity is looked at
  afterwards. The result is what is stored and the value returned.\<close>

definition http_result :: "nat \<Rightarrow> bytes \<Rightarrow> bytes \<times> nat" where
  "http_result cap s = (s @ [0], if cap \<le> length s then 0 else length s)"

definition OSTLS_HTTP_FormatGet :: "nat \<Rightarrow> bytes \<Rightarrow> bytes \<Rightarrow> bytes \<times> nat" where
  "OSTLS_HTTP_FormatGet cap host path =
     http_result cap
       (ascii ''GET '' @ path @ ascii '' HTTP/1.1'' @ [0x0D, 0x0A] @ ascii ''Host: '' @ host @ [0x0D, 0x0A]
        @ ascii ''User-Agent: macTLS/0.3'' @ [0x0D, 0x0A] @ ascii ''Accept: */*'' @ [0x0D, 0x0A]
        @ ascii ''Connection: close'' @ [0x0D, 0x0A] @ [0x0D, 0x0A])"

fun decimal :: "nat \<Rightarrow> bytes" where
  "decimal n = (if n < 10 then [word_of_nat (48 + n)] else decimal (n div 10) @ [word_of_nat (48 + n mod 10)])"

definition OSTLS_HTTP_FormatPost :: "nat \<Rightarrow> bytes \<Rightarrow> bytes \<Rightarrow> bytes \<Rightarrow> u32 \<Rightarrow> bytes \<times> nat" where
  "OSTLS_HTTP_FormatPost cap host path content_type content_length =
     http_result cap
       (ascii ''POST '' @ path @ ascii '' HTTP/1.1'' @ [0x0D, 0x0A] @ ascii ''Host: '' @ host @ [0x0D, 0x0A]
        @ ascii ''User-Agent: macTLS/0.3'' @ [0x0D, 0x0A] @ ascii ''Content-Type: '' @ content_type @ [0x0D, 0x0A]
        @ ascii ''Content-Length: '' @ decimal (unat content_length) @ [0x0D, 0x0A]
        @ ascii ''Connection: close'' @ [0x0D, 0x0A] @ [0x0D, 0x0A])"

section \<open>The byte machine\<close>

text \<open>One byte at a time, with the room left in the output and, beside the decoder, whether a
  semicolon was seen in the current size line. The machine stops in the state \<open>Done\<close>, and at a data
  byte for which there is no room.\<close>

definition byte_step :: "bool \<Rightarrow> chunk_decoder \<Rightarrow> byte \<Rightarrow> bool \<times> chunk_decoder \<times> bytes" where
  "byte_step x d ch =
     (case cd_state d of
        kOSTLSChunkStateSize \<Rightarrow>
          if ch = 0x0A then (False, size_done d, [])
          else if x \<or> ch = 0x3B then (True, d, [])
          else (False, if ch \<noteq> 0x0D \<and> length (cd_size d) < 15 then d\<lparr>cd_size := cd_size d @ [ch]\<rparr> else d, [])
      | kOSTLSChunkStateData \<Rightarrow>
          (x, let d = d\<lparr>cd_remaining := cd_remaining d - 1\<rparr>
              in if cd_remaining d = 0 then d\<lparr>cd_state := kOSTLSChunkStateCRLF\<rparr> else d, [ch])
      | kOSTLSChunkStateCRLF \<Rightarrow>
          (x, if ch = 0x0A then d\<lparr>cd_state := kOSTLSChunkStateSize\<rparr> else d, [])
      | kOSTLSChunkStateTrailer \<Rightarrow>
          (x, if ch = 0x0D then d
              else if ch = 0x0A
              then if trailer_just_after_eol d then d\<lparr>cd_state := kOSTLSChunkStateDone\<rparr>
                   else d\<lparr>trailer_just_after_eol := True\<rparr>
              else d\<lparr>trailer_just_after_eol := False\<rparr>, [])
      | kOSTLSChunkStateDone \<Rightarrow> (x, d, []))"

abbreviation stuck :: "nat \<Rightarrow> chunk_decoder \<Rightarrow> bool" where
  "stuck room d \<equiv> cd_state d = kOSTLSChunkStateDone \<or> cd_state d = kOSTLSChunkStateData \<and> room = 0"

fun byte_run :: "nat \<Rightarrow> bool \<Rightarrow> chunk_decoder \<Rightarrow> bytes \<Rightarrow> bool \<times> chunk_decoder \<times> bytes \<times> bytes" where
  "byte_run room x d [] = (x, d, [], [])"
| "byte_run room x d (ch # r) =
     (if stuck room d then (x, d, ch # r, [])
      else let (x1, d1, o1) = byte_step x d ch; (x2, d2, r2, o2) = byte_run (room - length o1) x1 d1 r
           in (x2, d2, r2, o1 @ o2))"

text \<open>Whether the machine ends its input behind the semicolon of a size line.\<close>

definition in_extension :: "nat \<Rightarrow> chunk_decoder \<Rightarrow> bytes \<Rightarrow> bool" where
  "in_extension room d inp = fst (byte_run room False d inp)"

definition chunk_ok :: "chunk_decoder \<Rightarrow> bool" where
  "chunk_ok d \<longleftrightarrow> length (cd_size d) \<le> 15 \<and> (cd_state d = kOSTLSChunkStateData \<longrightarrow> cd_remaining d \<noteq> 0)"

lemma strtol16_range: "- (2 ^ 31) \<le> strtol16 s" "strtol16 s \<le> 2 ^ 31 - 1"
  by (simp_all add: strtol16_def Let_def)

lemma size_word_nonzero:
  assumes "- (2 ^ 31) \<le> i" "i \<le> 2 ^ 31 - 1"
  shows "(word_of_int i :: u32) = 0 \<longleftrightarrow> i = 0"
proof
  assume "(word_of_int i :: u32) = 0"
  then have "(2 :: int) ^ 32 dvd i" by (simp add: word_of_int_eq_0_iff)
  then show "i = 0" using assms zdvd_imp_le [of "2 ^ 32" "abs i"] by (cases "i = 0") auto
qed simp

lemma size_done_ok: "chunk_ok (size_done d)"
  using strtol16_range [of "cd_size d"]
  by (simp add: size_done_def Let_def chunk_ok_def size_word_nonzero)

lemma run_stuck: "stuck room d \<Longrightarrow> byte_run room x d inp = (x, d, inp, [])"
  by (cases inp) auto

lemma run_append:
  "byte_run room x d (a @ b) =
     (let (x1, d1, r1, o1) = byte_run room x d a; (x2, d2, r2, o2) = byte_run (room - length o1) x1 d1 (r1 @ b)
      in (x2, d2, r2, o1 @ o2))"
proof (induction a arbitrary: room x d)
  case Nil
  show ?case by (simp split: prod.split)
next
  case (Cons ch a)
  show ?case
  proof (cases "stuck room d")
    case True
    show ?thesis by (simp add: run_stuck [OF True] del: byte_run.simps)
  next
    case False
    have U: "byte_run room x d (ch # y) = (let (x1, d1, o1) = byte_step x d ch;
        (x2, d2, r2, o2) = byte_run (room - length o1) x1 d1 y in (x2, d2, r2, o1 @ o2))" for y
      by (simp only: byte_run.simps False if_False)
    show ?thesis unfolding append_Cons U by (simp add: Cons.IH split_beta Let_def del: byte_run.simps)
  qed
qed

text \<open>Each inner loop is a stretch of the byte machine, but for the mark of the semicolon, which it
  forgets at the end of its input.\<close>

lemma run_extension:
  assumes "cd_state d = kOSTLSChunkStateSize"
  shows "snd (byte_run room True d r) = snd (byte_run room False d (dropWhile (\<lambda>c. c \<noteq> 0x0A) r))"
proof (induction r)
  case (Cons ch r)
  then show ?case using assms by (cases "ch = 0x0A") (simp_all add: byte_step_def split_beta)
qed simp

lemma size_loop_run:
  assumes "cd_state d = kOSTLSChunkStateSize" "chunk_ok d" "size_loop d inp = (d', r)"
  shows "snd (byte_run room False d inp) = snd (byte_run room False d' r) \<and> chunk_ok d'"
  using assms
proof (induction d inp rule: size_loop.induct)
  case (1 d inp)
  show ?case
  proof (cases inp)
    case Nil
    then show ?thesis using 1(6,5) by (simp add: size_loop.simps)
  next
    case (Cons ch s)
    let ?d = "if length (cd_size d) < 15 then d\<lparr>cd_size := cd_size d @ [ch]\<rparr> else d"
    have S: "size_loop d (ch # s) = (if ch = 0x0A then (size_done d, s) else if ch = 0x0D then size_loop d s
        else if ch = 0x3B then size_loop d (dropWhile (\<lambda>c. c \<noteq> 0x0A) s) else size_loop ?d s)"
      by (subst size_loop.simps) simp
    have B: "snd (byte_run room False d (ch # s)) = snd (if ch = 0x0A then byte_run room False (size_done d) s
        else if ch = 0x3B then byte_run room True d s else if ch = 0x0D then byte_run room False d s
        else byte_run room False ?d s)"
      using 1(4) by (simp add: byte_step_def split_beta)
    consider "ch = 0x0A" | "ch = 0x0D" | "ch = 0x3B" | "ch \<noteq> 0x0A" "ch \<noteq> 0x0D" "ch \<noteq> 0x3B" by blast
    then show ?thesis
    proof cases
      case 1
      then show ?thesis using "1.prems"(3) [unfolded Cons S] size_done_ok [of d] unfolding Cons B by auto
    next
      case 2
      then show ?thesis using "1.IH"(1) [OF Cons] "1.prems"(1,2) "1.prems"(3) [unfolded Cons S] unfolding Cons B by simp
    next
      case 3
      then show ?thesis using "1.IH"(2) [OF Cons] "1.prems"(1,2) "1.prems"(3) [unfolded Cons S] run_extension [of d room s] unfolding Cons B by simp
    next
      case 4
      then show ?thesis using "1.IH"(3) [OF Cons] "1.prems"(1,2) "1.prems"(3) [unfolded Cons S] unfolding Cons B by (simp add: chunk_ok_def)
    qed
  qed
qed

lemma crlf_loop_run:
  assumes "cd_state d = kOSTLSChunkStateCRLF" "chunk_ok d" "crlf_loop d inp = (d', r)"
  shows "byte_run room x d inp = byte_run room x d' r \<and> chunk_ok d'"
  using assms
  by (induction d inp rule: crlf_loop.induct) (auto simp: byte_step_def chunk_ok_def split_beta Let_def split: if_splits)

lemma trailer_loop_run:
  assumes "cd_state d = kOSTLSChunkStateTrailer" "chunk_ok d" "trailer_loop d inp = (d', r)"
  shows "byte_run room x d inp = byte_run room x d' r \<and> chunk_ok d'"
  using assms
  by (induction d inp rule: trailer_loop.induct) (auto simp: byte_step_def chunk_ok_def split_beta Let_def split: if_splits)

definition data_after :: "chunk_decoder \<Rightarrow> nat \<Rightarrow> chunk_decoder" where
  "data_after d k =
     (let d = d\<lparr>cd_remaining := cd_remaining d - word_of_nat k\<rparr>
      in if cd_remaining d = 0 then d\<lparr>cd_state := kOSTLSChunkStateCRLF\<rparr> else d)"

lemma data_run:
  assumes "cd_state d = kOSTLSChunkStateData" "k \<le> length inp" "k \<le> unat (cd_remaining d)" "k \<le> room" "cd_remaining d \<noteq> 0"
  shows "byte_run room x d inp = (let (x2, d2, r2, o2) = byte_run (room - k) x (data_after d k) (drop k inp) in (x2, d2, r2, take k inp @ o2))"
  using assms
proof (induction k arbitrary: d inp room)
  case 0
  have "d\<lparr>cd_remaining := cd_remaining d\<rparr> = d" by simp
  then show ?case using 0 by (simp add: data_after_def)
next
  case (Suc k)
  obtain ch r where i: "inp = ch # r" using Suc.prems(2) by (cases inp) auto
  obtain n where n: "room = Suc n" using Suc.prems(4) by (cases room) auto
  let ?d = "d\<lparr>cd_remaining := cd_remaining d - 1\<rparr>"
  have u: "unat (cd_remaining d - 1) = unat (cd_remaining d) - 1"
    using Suc.prems(5) by (simp add: unat_minus_one)
  have a: "data_after ?d k = data_after d (Suc k)" by (simp add: data_after_def algebra_simps)
  show ?case
  proof (cases "cd_remaining d - 1 = 0")
    case True
    then have "cd_remaining d = 1" by simp
    then have "k = 0" using Suc.prems(3) by simp
    then show ?thesis
      using Suc.prems True by (simp add: i n byte_step_def data_after_def Let_def split_beta)
  next
    case False
    have "byte_run n x ?d r = (let (x2, d2, r2, o2) = byte_run (n - k) x (data_after ?d k) (drop k r) in (x2, d2, r2, take k r @ o2))"
      using Suc.prems u False by (intro Suc.IH) (simp_all add: i n)
    then show ?thesis
      using Suc.prems(1) False a by (simp add: i n byte_step_def Let_def split_beta)
  qed
qed

section \<open>The decoder is the byte machine\<close>

lemma data_after_ok: "chunk_ok d \<Longrightarrow> chunk_ok (data_after d k)"
  by (simp add: data_after_def Let_def chunk_ok_def)

lemma chunk_loop_eq:
  assumes "chunk_ok d" "length out \<le> cap"
  shows "chunk_loop cap d inp out = (let (d2, r2, o2) = snd (byte_run (cap - length out) False d inp) in (d2, r2, out @ o2))"
  using assms
proof (induction cap d inp out rule: chunk_loop.induct)
  case (1 cap d inp out)
  note C = chunk_loop.simps [of cap d inp out]
  let ?n = "cap - length out"
  show ?case
  proof (cases "inp = []")
    case True
    then show ?thesis unfolding C by simp
  next
    case ne: False
    show ?thesis
    proof (cases "cd_state d")
      case kOSTLSChunkStateSize
      obtain d1 r where s: "size_loop d inp = (d1, r)" by fastforce
      note R = size_loop_run [OF kOSTLSChunkStateSize 1(6) s, of ?n]
      from 1(1) [OF ne kOSTLSChunkStateSize s [symmetric] refl] R 1(7)
      show ?thesis by (simp add: C ne kOSTLSChunkStateSize s)
    next
      case kOSTLSChunkStateCRLF
      obtain d1 r where s: "crlf_loop d inp = (d1, r)" by fastforce
      note R = crlf_loop_run [OF kOSTLSChunkStateCRLF 1(6) s, of ?n False]
      from 1(4) [OF ne kOSTLSChunkStateCRLF s [symmetric] refl] R 1(7)
      show ?thesis by (simp add: C ne kOSTLSChunkStateCRLF s)
    next
      case kOSTLSChunkStateTrailer
      obtain d1 r where s: "trailer_loop d inp = (d1, r)" by fastforce
      note R = trailer_loop_run [OF kOSTLSChunkStateTrailer 1(6) s, of ?n False]
      from 1(5) [OF ne kOSTLSChunkStateTrailer s [symmetric] refl] R 1(7)
      show ?thesis by (simp add: C ne kOSTLSChunkStateTrailer s)
    next
      case kOSTLSChunkStateDone
      with ne show ?thesis unfolding C by (simp add: run_stuck)
    next
      case kOSTLSChunkStateData
      define k where "k = chunk_deliver cap d inp out"
      have rem: "cd_remaining d \<noteq> 0" using 1(6) kOSTLSChunkStateData by (simp add: chunk_ok_def)
      have kb: "k \<le> length inp" "k \<le> unat (cd_remaining d)" "k \<le> ?n"
        by (auto simp: k_def chunk_deliver_def Let_def)
      note D = data_run [OF kOSTLSChunkStateData kb rem, of False]
      let ?d = "d\<lparr>cd_remaining := cd_remaining d - word_of_nat k\<rparr>"
      have len: "length (out @ take k inp) \<le> cap" and room: "cap - length (out @ take k inp) = ?n - k"
        using 1(7) kb by simp_all
      have L: "chunk_loop cap d inp out = (if cd_remaining ?d = 0
          then chunk_loop cap (?d\<lparr>cd_state := kOSTLSChunkStateCRLF\<rparr>) (drop k inp) (out @ take k inp)
          else if cap \<le> length (out @ take k inp) then (?d, drop k inp, out @ take k inp)
          else chunk_loop cap ?d (drop k inp) (out @ take k inp))"
        using ne kOSTLSChunkStateData by (subst C) (simp only: Let_def k_def if_False chunk_state.case)
      show ?thesis
      proof (cases "cd_remaining ?d = 0")
        case True
        have ok: "chunk_ok (?d\<lparr>cd_state := kOSTLSChunkStateCRLF\<rparr>)" using 1(6) by (simp add: chunk_ok_def)
        from 1(2) [OF ne kOSTLSChunkStateData k_def refl refl refl True ok len]
        show ?thesis using True D by (simp only: L if_P data_after_def Let_def split_beta room) simp
      next
        case False
        have ok: "chunk_ok ?d" using 1(6) False by (simp add: chunk_ok_def)
        have da: "data_after d k = ?d" using False by (simp add: data_after_def)
        show ?thesis
        proof (cases "cap \<le> length (out @ take k inp)")
          case True
          then have "stuck (?n - k) ?d" using kOSTLSChunkStateData len kb by simp
          from run_stuck [OF this, of False "drop k inp"] show ?thesis
            using D True False by (simp only: L if_P if_not_P da) simp
        next
          case full: False
          from 1(3) [OF ne kOSTLSChunkStateData k_def refl refl refl False full ok len]
          show ?thesis using False full D by (simp only: L if_not_P da split_beta room) (simp add: split_beta Let_def)
        qed
      qed
    qed
  qed
qed

lemma process_eq_run:
  assumes "chunk_ok d"
  shows "OSTLS_HTTP_ChunkDecoderProcess d inp cap =
     (let (d', r, out) = snd (byte_run cap False d inp) in (d', out, length inp - length r))"
  using assms by (simp add: OSTLS_HTTP_ChunkDecoderProcess_def chunk_loop_eq split_beta Let_def)

lemma step_ok: "chunk_ok d \<Longrightarrow> chunk_ok (fst (snd (byte_step x d ch)))"
  using size_done_ok [of d] by (auto simp: byte_step_def chunk_ok_def Let_def split: chunk_state.split)

lemma run_ok: "chunk_ok d \<Longrightarrow> byte_run room x d inp = (x', d', r, out) \<Longrightarrow> chunk_ok d' \<and> length r \<le> length inp"
proof (induction inp arbitrary: room x d out)
  case (Cons ch inp)
  then show ?case using step_ok [OF Cons.prems(1), of x ch] by (auto simp: Let_def split: if_splits prod.splits) (fastforce dest: Cons.IH)+
qed auto

text \<open>A call that used up its input, followed by a call with the rest and the room left.\<close>

lemma process_split:
  assumes ok: "chunk_ok d" and x: "\<not> in_extension cap d a" and e: "OSTLS_HTTP_ChunkDecoderProcess d a cap = (d1, o1, length a)"
  shows "OSTLS_HTTP_ChunkDecoderProcess d (a @ b) cap =
     (let (d2, o2, n2) = OSTLS_HTTP_ChunkDecoderProcess d1 b (cap - length o1) in (d2, o1 @ o2, length a + n2))"
proof -
  obtain x1 e1 r1 p1 where r: "byte_run cap False d a = (x1, e1, r1, p1)" by (metis prod.collapse)
  note k = run_ok [OF ok r]
  have "e1 = d1" "p1 = o1" "length a - length r1 = length a" using e by (simp_all add: process_eq_run [OF ok] r)
  then have *: "x1 = False" "e1 = d1" "p1 = o1" using x r by (simp_all add: in_extension_def)
  have "length r1 = 0" using k \<open>length a - length r1 = length a\<close> by linarith
  then have r1: "r1 = []" by simp
  have ok1: "chunk_ok d1" using k * by simp
  obtain x2 d2 r2 o2 where s: "byte_run (cap - length o1) False d1 b = (x2, d2, r2, o2)" by (metis prod.collapse)
  have "byte_run cap False d (a @ b) = (x2, d2, r2, o1 @ o2)" unfolding run_append [of cap False d a b] r by (simp add: r1 * s)
  then show ?thesis using run_ok [OF ok1 s] by (simp add: process_eq_run [OF ok] process_eq_run [OF ok1] s)
qed

section \<open>Bounds\<close>

lemma chunk_loop_bounds:
  assumes "length out \<le> cap" "length (cd_size d) \<le> 15" "chunk_loop cap d inp out = (d', r, out')"
  shows "length out' \<le> cap \<and> length (cd_size d') \<le> 15 \<and> length r \<le> length inp \<and> (\<exists>x. out' = out @ x)"
  using assms
proof (induction cap d inp out arbitrary: d' r out' rule: chunk_loop.induct)
  case (1 cap d inp out)
  note C = chunk_loop.simps [of cap d inp out]
  have sl: "length (cd_size (fst (size_loop e i))) \<le> 15" if "length (cd_size e) \<le> 15" for e i
    using that
    by (induction e i rule: size_loop.induct)
       (subst size_loop.simps, auto simp: size_done_def Let_def split: list.split)
  have cl: "cd_size (fst (crlf_loop e i)) = cd_size e" for e i
    by (induction e i rule: crlf_loop.induct) auto
  have tl: "cd_size (fst (trailer_loop e i)) = cd_size e" for e i
    by (induction e i rule: trailer_loop.induct) auto
  show ?case
  proof (cases "inp = []")
    case True
    then show ?thesis using 1(6,7) 1(8) [unfolded C] by simp
  next
    case ne: False
    show ?thesis
    proof (cases "cd_state d")
      case kOSTLSChunkStateSize
      obtain d1 r1 where s: "size_loop d inp = (d1, r1)" by fastforce
      show ?thesis
        using 1(1) [OF ne kOSTLSChunkStateSize s [symmetric] refl] 1(6-8) sl [of d inp] size_loop_le [of d inp]
        by (simp add: C ne kOSTLSChunkStateSize s)
    next
      case kOSTLSChunkStateCRLF
      obtain d1 r1 where s: "crlf_loop d inp = (d1, r1)" by fastforce
      show ?thesis
        using 1(4) [OF ne kOSTLSChunkStateCRLF s [symmetric] refl] 1(6-8) cl [of d inp] crlf_loop_le [of d inp]
        by (simp add: C ne kOSTLSChunkStateCRLF s)
    next
      case kOSTLSChunkStateTrailer
      obtain d1 r1 where s: "trailer_loop d inp = (d1, r1)" by fastforce
      show ?thesis
        using 1(5) [OF ne kOSTLSChunkStateTrailer s [symmetric] refl] 1(6-8) tl [of d inp] trailer_loop_le [of d inp]
        by (simp add: C ne kOSTLSChunkStateTrailer s)
    next
      case kOSTLSChunkStateDone
      with ne 1(6-8) show ?thesis by (simp add: C)
    next
      case kOSTLSChunkStateData
      define k where "k = chunk_deliver cap d inp out"
      let ?d = "d\<lparr>cd_remaining := cd_remaining d - word_of_nat k\<rparr>"
      have k: "length (out @ take k inp) \<le> cap"
        using 1(6) by (auto simp: k_def chunk_deliver_def Let_def)
      have L: "chunk_loop cap d inp out = (if cd_remaining ?d = 0
          then chunk_loop cap (?d\<lparr>cd_state := kOSTLSChunkStateCRLF\<rparr>) (drop k inp) (out @ take k inp)
          else if cap \<le> length (out @ take k inp) then (?d, drop k inp, out @ take k inp)
          else chunk_loop cap ?d (drop k inp) (out @ take k inp))"
        using ne kOSTLSChunkStateData by (subst C) (simp only: Let_def k_def if_False chunk_state.case)
      note I2 = 1(2) [OF ne kOSTLSChunkStateData k_def refl refl refl _ k]
      note I3 = 1(3) [OF ne kOSTLSChunkStateData k_def refl refl refl _ _ k]
      consider "cd_remaining ?d = 0" | "cd_remaining ?d \<noteq> 0" "cap \<le> length (out @ take k inp)"
        | "cd_remaining ?d \<noteq> 0" "\<not> cap \<le> length (out @ take k inp)" by blast
      then show ?thesis
      proof cases
        case 1
        then show ?thesis using I2 [of d' r out'] "1.prems" L by (simp only: if_P) auto
      next
        case 2
        then show ?thesis using "1.prems" L k by (simp only: if_P if_not_P) auto
      next
        case 3
        then show ?thesis using I3 [of d' r out'] "1.prems" L by (simp only: if_not_P) auto
      qed
    qed
  qed
qed

section \<open>Encoding and decoding\<close>

definition hex_char :: "nat \<Rightarrow> byte" where
  "hex_char d = (if d < 10 then word_of_nat (48 + d) else word_of_nat (87 + d))"

fun hex_encode :: "nat \<Rightarrow> bytes" where
  "hex_encode n = (if n < 16 then [hex_char n] else hex_encode (n div 16) @ [hex_char (n mod 16)])"

declare hex_encode.simps [simp del]

text \<open>The chunked coding of RFC 9112, section 7.1: chunks with their extensions, the last chunk with
  its extension, the trailer lines and the empty line.\<close>

definition chunk_encode :: "(bytes \<times> bytes) list \<Rightarrow> bytes \<Rightarrow> bytes list \<Rightarrow> bytes" where
  "chunk_encode cs e ts =
     concat (map (\<lambda>(e, c). hex_encode (length c) @ e @ [0x0D, 0x0A] @ c @ [0x0D, 0x0A]) cs)
     @ [0x30] @ e @ [0x0D, 0x0A] @ concat (map (\<lambda>t. t @ [0x0D, 0x0A]) ts) @ [0x0D, 0x0A]"

lemma hex_char_digit: "d < 16 \<Longrightarrow> hex_digit (hex_char d) = Some d"
proof -
  assume "d < 16"
  then have "d \<in> set [0..<16]" by simp
  moreover have "\<forall>d \<in> set [0..<16]. hex_digit (hex_char d) = Some d" by code_simp
  ultimately show ?thesis by blast
qed

lemma hex_val_append:
  "\<forall>c \<in> set a. hex_digit c \<noteq> None \<Longrightarrow> hex_val acc (a @ b) = hex_val (hex_val acc a) b"
  by (induction a arbitrary: acc) auto

lemma hex_encode_digits: "\<forall>c \<in> set (hex_encode n). hex_digit c \<noteq> None"
proof (induction n rule: hex_encode.induct)
  case (1 n)
  then show ?case
    by (subst hex_encode.simps) (simp add: hex_char_digit del: not_None_eq)
qed

lemma hex_val_encode: "hex_val 0 (hex_encode n) = n"
proof (induction n rule: hex_encode.induct)
  case (1 n)
  then show ?case
    using hex_encode_digits [of "n div 16"]
    by (subst hex_encode.simps) (simp add: hex_val_append hex_char_digit)
qed

lemma hex_encode_length: "n < 16 ^ Suc k \<Longrightarrow> length (hex_encode n) \<le> Suc k"
proof (induction k arbitrary: n)
  case 0
  then show ?case by (subst hex_encode.simps) simp
next
  case (Suc k)
  have "n div 16 < 16 ^ Suc k" using Suc.prems by (simp add: less_mult_imp_div_less)
  with Suc.IH show ?case by (subst hex_encode.simps) simp
qed

lemma hex_encode_nonempty: "hex_encode n \<noteq> []"
  by (subst hex_encode.simps) simp

text \<open>No hexadecimal digit is a separator, a sign or a radix prefix.\<close>

lemma not_hex_digit:
  "hex_digit 0x0A = None" "hex_digit 0x0D = None" "hex_digit 0x3B = None" "hex_digit 0x2D = None"
  "hex_digit 0x2B = None" "hex_digit 0x78 = None" "hex_digit 0x58 = None"
  by (simp_all add: hex_digit_def)

lemma hex_digit_no_space: "hex_digit c \<noteq> None \<Longrightarrow> \<not> is_space c"
  by (auto simp: hex_digit_def is_space_def word_le_nat_alt split: if_splits)

lemma strtol16_encode:
  assumes "n < 2 ^ 31"
  shows "strtol16 (hex_encode n) = int n"
proof -
  let ?s = "hex_encode n"
  obtain c r where s: "?s = c # r" using hex_encode_nonempty by (cases ?s) auto
  have dig: "hex_digit (byte_at ?s i) \<noteq> None" if "i < length ?s" for i
    using hex_encode_digits [of n] that by (simp add: byte_at_def)
  have "hex_digit c \<noteq> None" using dig [of 0] s by simp
  then have drop: "dropWhile is_space ?s = ?s" using hex_digit_no_space [of c] s by simp
  have sign: "byte_at ?s 0 \<noteq> 0x2D" "byte_at ?s 0 \<noteq> 0x2B"
    using dig [of 0] s by (auto simp: not_hex_digit)
  have pre: "3 \<le> length ?s \<longrightarrow> byte_at ?s (Suc 0) \<noteq> 0x78 \<and> byte_at ?s (Suc 0) \<noteq> 0x58"
    using dig [of 1] by (auto simp: not_hex_digit)
  have "strtol16 ?s = max (- (2 ^ 31)) (min (2 ^ 31 - 1) (int (hex_val 0 ?s)))"
    using sign pre by (cases "3 \<le> length ?s") (simp_all add: strtol16_def Let_def drop)
  then show ?thesis using assms by (simp add: hex_val_encode)
qed

lemma run_size_chars:
  assumes "cd_state d = kOSTLSChunkStateSize" "\<forall>c \<in> set hs. hex_digit c \<noteq> None" "length (cd_size d) + length hs \<le> 15"
  shows "byte_run room False d (hs @ rest) = byte_run room False (d\<lparr>cd_size := cd_size d @ hs\<rparr>) rest"
  using assms
proof (induction hs arbitrary: d)
  case (Cons c hs)
  have c: "c \<noteq> 0x0A" "c \<noteq> 0x0D" "c \<noteq> 0x3B" using Cons.prems(2) by (auto simp: not_hex_digit)
  show ?case
    using Cons.prems Cons.IH [of "d\<lparr>cd_size := cd_size d @ [c]\<rparr>"] c
    by (simp add: byte_step_def split_beta)
qed simp

text \<open>The line ends of the format. A chunk extension is empty or starts with a semicolon, and
  contains no line feed; a trailer line contains no line feed and something other than carriage returns.\<close>

definition ext_ok :: "bytes \<Rightarrow> bool" where
  "ext_ok e \<longleftrightarrow> 0x0A \<notin> set e \<and> (e = [] \<or> hd e = 0x3B)"

definition trailer_ok :: "bytes \<Rightarrow> bool" where
  "trailer_ok t \<longleftrightarrow> 0x0A \<notin> set t \<and> set t - {0x0D} \<noteq> {}"

lemma run_to_eol:
  assumes "cd_state d = kOSTLSChunkStateSize" "0x0A \<notin> set e"
  shows "byte_run room True d (e @ 0x0A # rest) = byte_run room False (size_done d) rest"
  using assms by (induction e) (simp_all add: byte_step_def split_beta)

lemma run_size_line:
  assumes "cd_state d = kOSTLSChunkStateSize" "ext_ok e"
  shows "byte_run room False d (e @ 0x0D # 0x0A # rest) = byte_run room False (size_done d) rest"
proof (cases e)
  case Nil
  have "byte_step False d 0x0D = (False, d, [])" "byte_step False d 0x0A = (False, size_done d, [])"
    using assms by (simp_all add: byte_step_def)
  then show ?thesis using assms by (simp add: Nil split_beta)
next
  case (Cons c e')
  then have "c = 0x3B" "0x0A \<notin> set (e' @ [0x0D])" using assms(2) by (auto simp: ext_ok_def)
  moreover from this have "byte_step False d c = (True, d, [])" using assms(1) by (simp add: byte_step_def)
  ultimately show ?thesis using run_to_eol [OF assms(1), of "e' @ [0x0D]" room rest] assms(1) by (simp add: Cons split_beta)
qed

lemma run_data_line:
  assumes "cd_state d = kOSTLSChunkStateCRLF"
  shows "byte_run room x d (0x0D # 0x0A # rest) = byte_run room x (d\<lparr>cd_state := kOSTLSChunkStateSize\<rparr>) rest"
proof -
  have "byte_step x d 0x0D = (x, d, [])" "byte_step x d 0x0A = (x, d\<lparr>cd_state := kOSTLSChunkStateSize\<rparr>, [])"
    using assms by (simp_all add: byte_step_def)
  then show ?thesis using assms by (simp add: split_beta)
qed

lemma run_trailer_text:
  assumes "cd_state d = kOSTLSChunkStateTrailer" "0x0A \<notin> set t"
  shows "byte_run room x d (t @ rest)
    = byte_run room x (d\<lparr>trailer_just_after_eol := trailer_just_after_eol d \<and> set t \<subseteq> {0x0D}\<rparr>) rest"
  using assms
proof (induction t arbitrary: d)
  case (Cons c t)
  have "byte_step x d c = (x, if c = 0x0D then d else d\<lparr>trailer_just_after_eol := False\<rparr>, [])"
    using Cons.prems by (simp add: byte_step_def)
  then show ?case using Cons.prems Cons.IH [of d] Cons.IH [of "d\<lparr>trailer_just_after_eol := False\<rparr>"]
    by (simp add: split_beta)
qed simp

lemma run_trailer_line:
  assumes "cd_state d = kOSTLSChunkStateTrailer" "trailer_ok t" "trailer_just_after_eol d"
  shows "byte_run room x d (t @ 0x0D # 0x0A # rest) = byte_run room x d rest"
proof -
  let ?d = "d\<lparr>trailer_just_after_eol := False\<rparr>"
  have "byte_run room x d ((t @ [0x0D]) @ 0x0A # rest) = byte_run room x ?d (0x0A # rest)"
    using run_trailer_text [OF assms(1), of "t @ [0x0D]" room x "0x0A # rest"] assms(2) by (auto simp: trailer_ok_def)
  also have "\<dots> = byte_run room x (d\<lparr>trailer_just_after_eol := True\<rparr>) rest"
    using assms(1) by (simp add: byte_step_def split_beta)
  also have "d\<lparr>trailer_just_after_eol := True\<rparr> = d" using assms(3) by (cases d) simp
  finally show ?thesis by simp
qed

lemma run_last_line:
  assumes "cd_state d = kOSTLSChunkStateTrailer" "trailer_just_after_eol d"
  shows "byte_run room x d (0x0D # 0x0A # rest) = (x, d\<lparr>cd_state := kOSTLSChunkStateDone\<rparr>, rest, [])"
proof -
  have "byte_step x d 0x0D = (x, d, [])" "byte_step x d 0x0A = (x, d\<lparr>cd_state := kOSTLSChunkStateDone\<rparr>, [])"
    using assms by (simp_all add: byte_step_def)
  then show ?thesis using assms by (simp add: split_beta run_stuck)
qed

lemma run_trailers:
  assumes "cd_state d = kOSTLSChunkStateTrailer" "\<forall>t\<in>set ts. trailer_ok t" "trailer_just_after_eol d"
  shows "byte_run room x d (concat (map (\<lambda>t. t @ [0x0D, 0x0A]) ts) @ [0x0D, 0x0A] @ rest)
    = (x, d\<lparr>cd_state := kOSTLSChunkStateDone\<rparr>, rest, [])"
  using assms
proof (induction ts)
  case Nil
  then show ?case by (simp add: run_last_line del: byte_run.simps)
next
  case (Cons t ts)
  then show ?case by (simp add: run_trailer_line del: byte_run.simps)
qed

lemma run_chunk:
  assumes d: "cd_state d = kOSTLSChunkStateSize" "cd_size d = []" and c: "c \<noteq> []" "length c < 2 ^ 31" "length c \<le> room"
    and e: "ext_ok e"
  shows "byte_run room False d (hex_encode (length c) @ e @ [0x0D, 0x0A] @ c @ [0x0D, 0x0A] @ rest) =
     (let (x2, d2, r2, o2) = byte_run (room - length c) False (d\<lparr>cd_remaining := 0\<rparr>) rest in (x2, d2, r2, c @ o2))"
proof -
  let ?n = "length c"
  have hl: "length (hex_encode ?n) \<le> 15"
    using hex_encode_length [of ?n 7] c(2) by simp
  define b where "b = d\<lparr>cd_remaining := word_of_nat ?n, cd_state := kOSTLSChunkStateData\<rparr>"
  have w: "unat (word_of_nat ?n :: u32) = ?n" using c(2) by (simp add: unat_of_nat)
  have wn: "(word_of_nat ?n :: u32) \<noteq> 0" using w c(1) by auto
  have "size_done (d\<lparr>cd_size := hex_encode ?n\<rparr>) = b\<lparr>cd_size := []\<rparr>"
    using c by (simp add: size_done_def Let_def strtol16_encode b_def)
  then have sd: "size_done (d\<lparr>cd_size := hex_encode ?n\<rparr>) = b" using d(2) by (simp add: b_def)
  have "byte_run room False d (hex_encode ?n @ e @ [0x0D, 0x0A] @ c @ [0x0D, 0x0A] @ rest)
      = byte_run room False (d\<lparr>cd_size := hex_encode ?n\<rparr>) (e @ [0x0D, 0x0A] @ c @ [0x0D, 0x0A] @ rest)"
    using run_size_chars [OF d(1) hex_encode_digits, of ?n room "e @ [0x0D, 0x0A] @ c @ [0x0D, 0x0A] @ rest"] d(2) hl by simp
  also have "\<dots> = byte_run room False b (c @ [0x0D, 0x0A] @ rest)"
    using run_size_line [of "d\<lparr>cd_size := hex_encode ?n\<rparr>" e room "c @ [0x0D, 0x0A] @ rest"] d(1) e
    by (simp add: sd del: byte_run.simps)
  also have "\<dots> = (let (x2, d2, r2, o2) = byte_run (room - ?n) False (data_after b ?n) ([0x0D, 0x0A] @ rest) in (x2, d2, r2, c @ o2))"
    using data_run [of b ?n "c @ [0x0D, 0x0A] @ rest" room False] w wn c(3) by (simp add: b_def)
  also have "data_after b ?n = d\<lparr>cd_remaining := 0, cd_state := kOSTLSChunkStateCRLF\<rparr>"
    by (simp add: data_after_def b_def)
  also have "byte_run (room - ?n) False (d\<lparr>cd_remaining := 0, cd_state := kOSTLSChunkStateCRLF\<rparr>) ([0x0D, 0x0A] @ rest)
      = byte_run (room - ?n) False (d\<lparr>cd_remaining := 0, cd_state := kOSTLSChunkStateSize\<rparr>) rest"
    by (simp add: run_data_line del: byte_run.simps)
  also have "d\<lparr>cd_remaining := 0, cd_state := kOSTLSChunkStateSize\<rparr> = d\<lparr>cd_remaining := 0\<rparr>"
    using d(1) by simp
  finally show ?thesis .
qed

lemma run_encode:
  assumes "\<forall>(e, c) \<in> set cs. ext_ok e \<and> c \<noteq> [] \<and> length c < 2 ^ 31" "ext_ok e" "\<forall>t\<in>set ts. trailer_ok t"
    "length (concat (map snd cs)) \<le> room" "cd_state d = kOSTLSChunkStateSize" "cd_size d = []"
  shows "\<exists>d'. byte_run room False d (chunk_encode cs e ts @ rest) = (False, d', rest, concat (map snd cs))
     \<and> cd_state d' = kOSTLSChunkStateDone"
  using assms(1,4-6)
proof (induction cs arbitrary: d room)
  case Nil
  have "hex_encode 0 = [0x30]" by (subst hex_encode.simps) (simp add: hex_char_def)
  then have z: "strtol16 [0x30] = 0" using strtol16_encode [of 0] by simp
  define t where "t = d\<lparr>cd_remaining := 0, cd_state := kOSTLSChunkStateTrailer, trailer_just_after_eol := True\<rparr>"
  have "size_done (d\<lparr>cd_size := [0x30]\<rparr>) = t\<lparr>cd_size := []\<rparr>" by (simp add: size_done_def Let_def z t_def)
  then have sd: "size_done (d\<lparr>cd_size := [0x30]\<rparr>) = t" using Nil(4) by (simp add: t_def)
  define r where "r = concat (map (\<lambda>t. t @ [0x0D, 0x0A]) ts) @ [0x0D, 0x0A] @ rest"
  have "byte_run room False d (chunk_encode [] e ts @ rest) = byte_run room False (d\<lparr>cd_size := [0x30]\<rparr>) (e @ 0x0D # 0x0A # r)"
    using run_size_chars [OF Nil(3), of "[0x30]" room "e @ 0x0D # 0x0A # r"] Nil(4)
    by (simp add: chunk_encode_def hex_digit_def r_def)
  also have "\<dots> = byte_run room False t r"
    using run_size_line [of "d\<lparr>cd_size := [0x30]\<rparr>" e room r] Nil(3) assms(2) by (simp add: sd)
  also have "\<dots> = (False, t\<lparr>cd_state := kOSTLSChunkStateDone\<rparr>, rest, [])"
    unfolding r_def by (rule run_trailers [OF _ assms(3)]) (simp_all add: t_def)
  finally show ?case by simp
next
  case (Cons ec cs)
  obtain x c where ec: "ec = (x, c)" by fastforce
  have k: "chunk_encode (ec # cs) e ts @ rest
      = hex_encode (length c) @ x @ [0x0D, 0x0A] @ c @ [0x0D, 0x0A] @ (chunk_encode cs e ts @ rest)"
    by (simp add: chunk_encode_def ec)
  have "length c + length (concat (map snd cs)) \<le> room" using Cons.prems(2) by (simp add: ec)
  then have l: "length (concat (map snd cs)) \<le> room - length c" by linarith
  obtain d' where "byte_run (room - length c) False (d\<lparr>cd_remaining := 0\<rparr>) (chunk_encode cs e ts @ rest) = (False, d', rest, concat (map snd cs))"
    "cd_state d' = kOSTLSChunkStateDone"
    using Cons.IH [OF _ l, of "d\<lparr>cd_remaining := 0\<rparr>"] Cons.prems by (auto simp: ec)
  then show ?case unfolding k using run_chunk [of d c room x "chunk_encode cs e ts @ rest"] Cons.prems by (simp add: ec)
qed

section \<open>Properties\<close>

text \<open>C28: for every state the decoder can be in, every input and every capacity, out of space and
  chunk extensions included, one call computes exactly the machine that looks at one byte at a
  time and stops at the end of the body or at a data byte without room. Hence a body may be cut
  anywhere but inside a chunk extension: a call on a part it uses up, followed by a call on the
  next part with the room left, is the call on both parts together.\<close>

theorem decoder_is_byte_machine:
  assumes "chunk_ok d"
  shows "OSTLS_HTTP_ChunkDecoderProcess d inp cap =
       (let (d', r, out) = snd (byte_run cap False d inp) in (d', out, length inp - length r))
     \<and> (OSTLS_HTTP_ChunkDecoderProcess d inp cap = (d1, o1, length inp) \<and> \<not> in_extension cap d inp \<longrightarrow>
        OSTLS_HTTP_ChunkDecoderProcess d (inp @ inp2) cap =
          (let (d2, o2, n2) = OSTLS_HTTP_ChunkDecoderProcess d1 inp2 (cap - length o1) in (d2, o1 @ o2, length inp + n2)))"
  using process_eq_run [OF assms] process_split [OF assms] by blast

theorem decoder_is_byte_machine_witness:
  "OSTLS_HTTP_ChunkDecoderProcess OSTLS_HTTP_ChunkDecoderInit [0x33, 0x3B, 0x61, 0x0A, 1, 2, 3, 0x0D, 0x0A] 2
     = (\<lparr>cd_state = kOSTLSChunkStateData, cd_remaining = 1, cd_size = [], trailer_just_after_eol = False\<rparr>, [1, 2], 6)"
proof -
  have i: "chunk_ok OSTLS_HTTP_ChunkDecoderInit" by (simp add: chunk_ok_def OSTLS_HTTP_ChunkDecoderInit_def)
  have "snd (byte_run 2 False OSTLS_HTTP_ChunkDecoderInit [0x33, 0x3B, 0x61, 0x0A, 1, 2, 3, 0x0D, 0x0A])
     = (\<lparr>cd_state = kOSTLSChunkStateData, cd_remaining = 1, cd_size = [], trailer_just_after_eol = False\<rparr>, [3, 0x0D, 0x0A], [1, 2])"
    by code_simp
  with decoder_is_byte_machine [OF i, of "[0x33, 0x3B, 0x61, 0x0A, 1, 2, 3, 0x0D, 0x0A]" 2] show ?thesis by simp
qed

text \<open>C27: decoding what the chunked coding of RFC 9112 makes of a list of non-empty chunks of less
  than 2 GB, each with or without an extension, and of trailer lines, into a buffer that holds
  the body, yields the concatenation of the chunks, ends in the state \<open>Done\<close> and leaves the bytes
  after the body unread. Nothing is asked of the bytes of the chunks, or of what follows.\<close>

theorem chunked_roundtrip:
  assumes "\<forall>(e, c) \<in> set cs. ext_ok e \<and> c \<noteq> [] \<and> length c < 2 ^ 31" "ext_ok e" "\<forall>t \<in> set ts. trailer_ok t"
    "length (concat (map snd cs)) \<le> cap"
  shows "\<exists>d. OSTLS_HTTP_ChunkDecoderProcess OSTLS_HTTP_ChunkDecoderInit (chunk_encode cs e ts @ rest) cap
       = (d, concat (map snd cs), length (chunk_encode cs e ts)) \<and> cd_state d = kOSTLSChunkStateDone"
proof -
  have i: "chunk_ok OSTLS_HTTP_ChunkDecoderInit" "cd_state OSTLS_HTTP_ChunkDecoderInit = kOSTLSChunkStateSize"
    "cd_size OSTLS_HTTP_ChunkDecoderInit = []"
    by (simp_all add: chunk_ok_def OSTLS_HTTP_ChunkDecoderInit_def)
  show ?thesis using run_encode [OF assms i(2,3), of rest] process_eq_run [OF i(1)] by auto
qed

theorem chunked_roundtrip_witness:
  "\<exists>d inp. OSTLS_HTTP_ChunkDecoderProcess OSTLS_HTTP_ChunkDecoderInit inp 3 = (d, [104, 0x3B, 0x0A], length inp)
     \<and> cd_state d = kOSTLSChunkStateDone"
proof -
  let ?cs = "[([0x3B, 0x61], [104, 0x3B]), ([], [0x0A])]"
  have "\<forall>(e, c) \<in> set ?cs. ext_ok e \<and> c \<noteq> [] \<and> length c < 2 ^ 31" "ext_ok []"
    "\<forall>t \<in> set [[0x58, 0x3A]]. trailer_ok t" "length (concat (map snd ?cs)) \<le> 3"
    by (auto simp: ext_ok_def trailer_ok_def)
  from chunked_roundtrip [OF this, of "[]"] show ?thesis by auto
qed

text \<open>C39: whatever the input, the decoder writes at most as many bytes as the output buffer holds,
  keeps its size buffer within its sixteen bytes and does not read past its input.\<close>

theorem decoder_bounds:
  assumes "length (cd_size d) \<le> 15" "OSTLS_HTTP_ChunkDecoderProcess d inp cap = (d', out, consumed)"
  shows "length out \<le> cap \<and> length (cd_size d') \<le> 15 \<and> consumed \<le> length inp"
proof -
  obtain r where "chunk_loop cap d inp [] = (d', r, out)" "consumed = length inp - length r"
    using assms(2) by (auto simp: OSTLS_HTTP_ChunkDecoderProcess_def split: prod.splits)
  then show ?thesis using chunk_loop_bounds [of "[]" cap d inp d' r out] assms(1) by simp
qed

theorem decoder_bounds_witness:
  "length (fst (snd (OSTLS_HTTP_ChunkDecoderProcess OSTLS_HTTP_ChunkDecoderInit [0x35, 0x0A, 1, 2, 3, 4, 5] 2))) \<le> 2"
  using decoder_bounds [of OSTLS_HTTP_ChunkDecoderInit "[0x35, 0x0A, 1, 2, 3, 4, 5]" 2]
  by (cases "OSTLS_HTTP_ChunkDecoderProcess OSTLS_HTTP_ChunkDecoderInit [0x35, 0x0A, 1, 2, 3, 4, 5] 2")
     (simp add: OSTLS_HTTP_ChunkDecoderInit_def)

end
