(* ===== verification/Mac_Time.thy ===== *)
theory Mac_Time
  imports Mactls_Prelude
begin

text \<open>
  The clock conversion, os9/ostls_time.c: from the seconds since 1904 in local time that
  \<open>GetDateTime\<close> returns, and the \<open>gmtDelta\<close> word that \<open>ReadLocation\<close> fills, to BearSSL's days
  since year 0 and seconds of the day. The two Toolbox readings are arguments; \<open>long\<close> is the
  32-bit type of the target. The reference is the Gregorian calendar (\<open>days_before\<close>) and the
  difference, over the integers, of the clock and the low 24 bits of the delta as a signed number.
\<close>

unbundle bit_operations_syntax

section \<open>The conversion\<close>

definition kOSTLSTimeOK :: int where "kOSTLSTimeOK = 0"
definition kOSTLSTimeClockBefore2000 :: int where "kOSTLSTimeClockBefore2000 = 251"

definition OSTLS_MAC_TO_UNIX_OFFSET :: u32 where "OSTLS_MAC_TO_UNIX_OFFSET = 2082844800"
definition OSTLS_BEARSSL_DAYS_UNIX_EPOCH :: u32 where "OSTLS_BEARSSL_DAYS_UNIX_EPOCH = 719528"
definition OSTLS_UNIX_TO_2000_OFFSET :: u32 where "OSTLS_UNIX_TO_2000_OFFSET = 946684800"

record OSTLSTimeDetails =
  local_mac_seconds :: u32
  gmt_delta_seconds :: int
  utc_mac_seconds :: u32
  unix_seconds :: u32
  bearssl_days :: u32
  bearssl_seconds :: u32
  td_result :: int

definition zero_details :: OSTLSTimeDetails where
  "zero_details =
     \<lparr>local_mac_seconds = 0, gmt_delta_seconds = 0, utc_mac_seconds = 0, unix_seconds = 0,
      bearssl_days = 0, bearssl_seconds = 0, td_result = 0\<rparr>"

definition gmt_delta :: "u32 \<Rightarrow> int" where
  "gmt_delta loc =
     (let d = uint (loc AND 0x00FFFFFF)
      in if (loc AND 0x00FFFFFF) AND 0x00800000 \<noteq> 0 then d - 0x01000000 else d)"

definition to_gmt :: "u32 \<Rightarrow> int \<Rightarrow> u32" where
  "to_gmt mac d =
     (if 0 \<le> d then (if word_of_int d \<le> mac then mac - word_of_int d else mac)
      else mac + word_of_int (- d))"

definition OSTLS_GetBearSSLTimeDetails :: "u32 \<Rightarrow> u32 \<Rightarrow> OSTLSTimeDetails" where
  "OSTLS_GetBearSSLTimeDetails now loc =
     (let t = zero_details\<lparr>local_mac_seconds := now\<rparr>;
          delta = gmt_delta loc;
          mac = to_gmt now delta;
          t = t\<lparr>gmt_delta_seconds := delta, utc_mac_seconds := mac\<rparr>
      in if mac < OSTLS_MAC_TO_UNIX_OFFSET then t\<lparr>td_result := kOSTLSTimeClockBefore2000\<rparr>
         else
           let unix = mac - OSTLS_MAC_TO_UNIX_OFFSET;
               t = t\<lparr>unix_seconds := unix\<rparr>
           in if unix < OSTLS_UNIX_TO_2000_OFFSET then t\<lparr>td_result := kOSTLSTimeClockBefore2000\<rparr>
              else t\<lparr>bearssl_days := unix div 86400 + OSTLS_BEARSSL_DAYS_UNIX_EPOCH,
                     bearssl_seconds := unix mod 86400, td_result := kOSTLSTimeOK\<rparr>)"

definition OSTLS_GetBearSSLTime :: "u32 \<Rightarrow> u32 \<Rightarrow> u32 \<times> u32 \<times> int" where
  "OSTLS_GetBearSSLTime now loc =
     (let t = OSTLS_GetBearSSLTimeDetails now loc in (bearssl_days t, bearssl_seconds t, td_result t))"

section \<open>The calendar\<close>

definition leap_year :: "nat \<Rightarrow> bool" where
  "leap_year y \<longleftrightarrow> 4 dvd y \<and> (\<not> 100 dvd y \<or> 400 dvd y)"

fun days_before :: "nat \<Rightarrow> nat" where
  "days_before 0 = 0"
| "days_before (Suc y) = days_before y + (if leap_year y then 366 else 365)"

text \<open>The closed form of the day count, with a leap day every 4, 100 and 400 years.\<close>

lemma div_round_up:
  fixes k y :: nat
  assumes k: "0 < k"
  shows "(y + (k - 1)) div k = y div k + (if k dvd y then 0 else 1)"
proof -
  have "y + (k - 1) = y mod k + (k - 1) + y div k * k" by simp
  then have "(y + (k - 1)) div k = y div k + (y mod k + (k - 1)) div k" using k by (metis div_mult_self1 gr_implies_not0 add.commute)
  moreover have "(y mod k + (k - 1)) div k = (if k dvd y then 0 else 1)"
  proof (cases "k dvd y")
    case True
    then show ?thesis using k by (simp add: dvd_eq_mod_eq_0)
  next
    case False
    then have "0 < y mod k" by (simp add: dvd_eq_mod_eq_0)
    moreover have "y mod k < k" using k by simp
    ultimately have "(y mod k + (k - 1)) div k = 1" by (intro div_nat_eqI) auto
    with False show ?thesis by simp
  qed
  ultimately show ?thesis by simp
qed

lemma div_Suc_step:
  fixes k y :: nat
  assumes k: "0 < k"
  shows "(Suc y + (k - 1)) div k = (y + (k - 1)) div k + (if k dvd y then 1 else 0)"
proof -
  have "Suc y + (k - 1) = y + k" using k by simp
  then have "(Suc y + (k - 1)) div k = (y + k) div k" by (simp only:)
  also have "\<dots> = Suc (y div k)" using div_add_self2 [of k y] k by linarith
  finally have "(Suc y + (k - 1)) div k = Suc (y div k)" .
  then show ?thesis using div_round_up [OF k] by simp
qed

lemma days_before_closed:
  "int (days_before y) = 365 * int y + int ((y + 3) div 4) - int ((y + 99) div 100) + int ((y + 399) div 400)"
proof (induction y)
  case (Suc y)
  have d: "400 dvd y \<Longrightarrow> 100 dvd y" "100 dvd y \<Longrightarrow> 4 dvd y"
    using dvd_trans [of "100 :: nat" 400 y] dvd_trans [of "4 :: nat" 100 y] by presburger+
  define p q r where pqr: "p = (4 dvd y)" "q = (100 dvd y)" "r = (400 dvd y)"
  define A B C where abc: "A = (y + 3) div 4" "B = (y + 99) div 100" "C = (y + 399) div 400"
  have s: "(Suc y + 3) div 4 = A + (if p then 1 else 0)"
      "(Suc y + 99) div 100 = B + (if q then 1 else 0)"
      "(Suc y + 399) div 400 = C + (if r then 1 else 0)"
    using div_Suc_step [of 4 y] div_Suc_step [of 100 y] div_Suc_step [of 400 y] by (simp_all add: pqr abc)
  have i: "int (days_before y) = 365 * int y + int A - int B + int C" using Suc by (simp only: abc)
  have l: "leap_year y \<longleftrightarrow> p \<and> (\<not> q \<or> r)" by (simp only: leap_year_def pqr)
  have "r \<longrightarrow> q" "q \<longrightarrow> p" using d by (simp_all only: pqr) blast+
  then consider "p" "q" "r" | "p" "q" "\<not> r" | "p" "\<not> q" "\<not> r" | "\<not> p" "\<not> q" "\<not> r" by blast
  then show ?case unfolding s days_before.simps l by cases (simp_all add: i)
qed simp

lemma epoch_days: "days_before 1904 = 695421" "days_before 1970 = 719528" "days_before 2000 = 730485"
  using days_before_closed [of 1904] days_before_closed [of 1970] days_before_closed [of 2000] by simp_all

section \<open>Lemmas\<close>

lemmas time_constants = OSTLS_MAC_TO_UNIX_OFFSET_def OSTLS_BEARSSL_DAYS_UNIX_EPOCH_def
  OSTLS_UNIX_TO_2000_OFFSET_def kOSTLSTimeOK_def kOSTLSTimeClockBefore2000_def

lemma gmt_delta_range: "- (2 ^ 23) \<le> gmt_delta loc \<and> gmt_delta loc < 2 ^ 23"
proof -
  let ?w = "loc AND 0x00FFFFFF"
  have w: "uint ?w = uint loc mod 2 ^ 24"
  proof -
    have "?w = take_bit 24 loc" by (simp add: take_bit_eq_mask mask_eq_exp_minus_1)
    then show ?thesis by (simp only: unsigned_take_bit_eq) (simp add: take_bit_eq_mod)
  qed
  have b: "(?w AND 0x00800000 \<noteq> 0) \<longleftrightarrow> 2 ^ 23 \<le> uint ?w" if "uint ?w < 2 ^ 24"
  proof -
    have "?w AND 0x00800000 = ?w AND push_bit 23 1" by simp
    then have "(?w AND 0x00800000 \<noteq> 0) \<longleftrightarrow> bit ?w 23" by (simp only: bit_iff_and_push_bit_not_eq_0)
    also have "\<dots> \<longleftrightarrow> bit (uint ?w) 23" by (simp only: bit_uint_iff) simp
    also have "\<dots> \<longleftrightarrow> odd (uint ?w div 2 ^ 23)" by (rule bit_iff_odd)
    also have "\<dots> \<longleftrightarrow> 2 ^ 23 \<le> uint ?w"
    proof -
      have "uint ?w div 2 ^ 23 = (if 2 ^ 23 \<le> uint ?w then 1 else 0)"
        using that by (auto intro: int_div_pos_eq [of _ _ 1 "uint ?w - 2 ^ 23"] div_pos_pos_trivial)
      then show ?thesis by simp
    qed
    finally show ?thesis .
  qed
  show ?thesis using w b by (auto simp: gmt_delta_def Let_def)
qed

lemma details_ok:
  assumes "td_result (OSTLS_GetBearSSLTimeDetails now loc) = kOSTLSTimeOK"
  defines "t \<equiv> OSTLS_GetBearSSLTimeDetails now loc"
  shows "86400 * unat (bearssl_days t) + unat (bearssl_seconds t)
       = 86400 * days_before 1904 + unat (to_gmt now (gmt_delta loc))"
    "unat (bearssl_seconds t) < 86400" "days_before 2000 \<le> unat (bearssl_days t)"
proof -
  define mac where "mac = to_gmt now (gmt_delta loc)"
  define unix where "unix = mac - OSTLS_MAC_TO_UNIX_OFFSET"
  have c: "\<not> mac < OSTLS_MAC_TO_UNIX_OFFSET" "\<not> unix < OSTLS_UNIX_TO_2000_OFFSET"
    and t: "bearssl_days t = unix div 86400 + OSTLS_BEARSSL_DAYS_UNIX_EPOCH" "bearssl_seconds t = unix mod 86400"
    using assms(1)
    by (auto simp: t_def OSTLS_GetBearSSLTimeDetails_def Let_def mac_def unix_def kOSTLSTimeOK_def
        kOSTLSTimeClockBefore2000_def split: if_splits)
  have u: "unat unix = unat mac - 2082844800" "2082844800 \<le> unat mac"
    using c(1) by (simp_all add: unix_def time_constants unat_sub word_le_nat_alt word_less_nat_alt not_less)
  have u2: "946684800 \<le> unat unix" using c(2) by (simp add: time_constants word_le_nat_alt not_less)
  have "unat unix < 2 ^ 32" using unsigned_less [of unix] by simp
  then have d: "unat (bearssl_days t) = unat unix div 86400 + 719528"
    by (simp add: t time_constants unat_word_ariths unat_div)
  have s: "unat (bearssl_seconds t) = unat unix mod 86400" by (simp add: t unat_mod)
  show "86400 * unat (bearssl_days t) + unat (bearssl_seconds t)
       = 86400 * days_before 1904 + unat (to_gmt now (gmt_delta loc))"
    using u div_mult_mod_eq [of "unat unix" 86400] by (simp add: d s epoch_days flip: mac_def)
  show "unat (bearssl_seconds t) < 86400" by (simp add: s)
  show "days_before 2000 \<le> unat (bearssl_days t)" using u2 by (simp add: d epoch_days)
qed

text \<open>The two readings as integers: the zone is the signed value of the low 24 bits, and the seconds in
  GMT are exact unless they leave the 32-bit range. Before 1904 the code keeps the local time, past
  2040 it wraps; both ends are before 2000.\<close>

lemma gmt_delta_sint: "gmt_delta loc = sint (ucast loc :: 24 word)"
proof -
  let ?w = "loc AND 0x00FFFFFF" and ?x = "ucast loc :: 24 word"
  have "?w = take_bit 24 loc" by (simp add: take_bit_eq_mask mask_eq_exp_minus_1)
  then have w: "uint ?w = uint ?x" by (simp add: unsigned_take_bit_eq unsigned_ucast_eq)
  have "?w AND 0x00800000 = ?w AND push_bit 23 1" by simp
  then have "(?w AND 0x00800000 \<noteq> 0) \<longleftrightarrow> bit (uint ?w) 23"
    by (simp only: bit_iff_and_push_bit_not_eq_0 [symmetric] bit_uint_iff) simp
  then have b: "(?w AND 0x00800000 \<noteq> 0) \<longleftrightarrow> bit (uint ?x) 23" unfolding w .
  have t: "take_bit 24 (uint ?x) = uint ?x" by (rule take_bit_int_eq_self) (use uint_lt2p [of ?x] in simp_all)
  have "sint ?x = uint ?x - 2 ^ 24 * of_bool (bit (uint ?x) 23)"
    by (simp add: sint_uint signed_take_bit_eq_take_bit_minus t)
  then show ?thesis using b by (simp add: gmt_delta_def w)
qed

lemma to_gmt_int:
  assumes "- (2 ^ 23) \<le> d" "d < 2 ^ 23"
  shows "if uint now - d < 0 then uint (to_gmt now d) < 2 ^ 23
    else uint (to_gmt now d) = (uint now - d) mod 2 ^ 32 \<and> (2 ^ 32 \<le> uint now - d \<longrightarrow> uint (to_gmt now d) < 2 ^ 23)"
proof -
  have n: "0 \<le> uint now" "uint now < 2 ^ 32" using uint_lt2p [of now] by simp_all
  consider "0 \<le> d" "d \<le> uint now" | "0 \<le> d" "uint now < d" | "d < 0" by linarith
  then show ?thesis
  proof cases
    case 1
    then have w: "uint (word_of_int d :: u32) = d" using assms by (simp add: uint_word_of_int)
    have "to_gmt now d = now - word_of_int d" using 1 w by (simp add: to_gmt_def word_le_def)
    then have "uint (to_gmt now d) = uint now - d" using 1 w uint_sub_lem [of "word_of_int d :: u32" now] by simp
    then show ?thesis using 1 n by simp
  next
    case 2
    then have w: "uint (word_of_int d :: u32) = d" using assms by (simp add: uint_word_of_int)
    have "to_gmt now d = now" using 2 w by (simp add: to_gmt_def word_le_def)
    then show ?thesis using 2 assms by simp
  next
    case 3
    have u: "uint (to_gmt now d) = (uint now - d) mod 2 ^ 32" using 3 by (simp add: to_gmt_def uint_word_ariths uint_word_of_int mod_simps)
    have g: "\<not> uint now - d < 0" using 3 n by linarith
    have "(uint now - d) mod 2 ^ 32 < 2 ^ 23" if "2 ^ 32 \<le> uint now - d"
    proof -
      have "(uint now - d - 2 ^ 32) mod 2 ^ 32 = uint now - d - 2 ^ 32"
        using that n assms by (intro mod_pos_pos_trivial) simp_all
      then have "(uint now - d) mod 2 ^ 32 = uint now - d - 2 ^ 32" by (simp only: minus_mod_self2)
      then show ?thesis using n assms by linarith
    qed
    then show ?thesis using g u by simp
  qed
qed

lemma details_err:
  "td_result (OSTLS_GetBearSSLTimeDetails now loc) = kOSTLSTimeOK
     \<longleftrightarrow> 86400 * (days_before 2000 - days_before 1904) \<le> unat (to_gmt now (gmt_delta loc))"
proof -
  define mac where "mac = to_gmt now (gmt_delta loc)"
  have "td_result (OSTLS_GetBearSSLTimeDetails now loc) = kOSTLSTimeOK
      \<longleftrightarrow> \<not> mac < 2082844800 \<and> \<not> mac - 2082844800 < 946684800"
    by (simp add: OSTLS_GetBearSSLTimeDetails_def Let_def time_constants zero_details_def flip: mac_def)
  also have "\<dots> \<longleftrightarrow> 3029529600 \<le> unat mac"
    by (auto simp: word_less_nat_alt word_le_nat_alt not_less unat_sub)
  finally show ?thesis by (simp add: mac_def epoch_days)
qed

lemma details_fail:
  "td_result (OSTLS_GetBearSSLTimeDetails now loc) \<noteq> kOSTLSTimeOK \<Longrightarrow>
   td_result (OSTLS_GetBearSSLTimeDetails now loc) = kOSTLSTimeClockBefore2000
     \<and> bearssl_days (OSTLS_GetBearSSLTimeDetails now loc) = 0 \<and> bearssl_seconds (OSTLS_GetBearSSLTimeDetails now loc) = 0"
  by (simp add: OSTLS_GetBearSSLTimeDetails_def zero_details_def Let_def split: if_splits)

text \<open>When the conversion succeeds, over the integers; the word then holds the time in GMT.\<close>

lemma details_result:
  fixes now loc :: u32
  defines "gmt \<equiv> uint now - sint (ucast loc :: 24 word)"
  shows "td_result (OSTLS_GetBearSSLTimeDetails now loc) = kOSTLSTimeOK
      \<longleftrightarrow> 86400 * int (days_before 2000 - days_before 1904) \<le> gmt \<and> gmt < 2 ^ 32"
    and "86400 * int (days_before 2000 - days_before 1904) \<le> gmt \<Longrightarrow> gmt < 2 ^ 32 \<Longrightarrow> uint (to_gmt now (gmt_delta loc)) = gmt"
proof -
  let ?m = "to_gmt now (gmt_delta loc)"
  have t: "if gmt < 0 then uint ?m < 2 ^ 23 else uint ?m = gmt mod 2 ^ 32 \<and> (2 ^ 32 \<le> gmt \<longrightarrow> uint ?m < 2 ^ 23)"
    using to_gmt_int [of "gmt_delta loc" now] gmt_delta_range [of loc] unfolding gmt_def gmt_delta_sint [symmetric] by blast
  have "td_result (OSTLS_GetBearSSLTimeDetails now loc) = kOSTLSTimeOK \<longleftrightarrow> 3029529600 \<le> unat ?m"
    unfolding details_err by (simp add: epoch_days)
  then have e: "td_result (OSTLS_GetBearSSLTimeDetails now loc) = kOSTLSTimeOK \<longleftrightarrow> 3029529600 \<le> uint ?m"
    unfolding uint_nat by linarith
  have m: "uint ?m = gmt" if "0 \<le> gmt" "gmt < 2 ^ 32" using t that by simp
  have "uint ?m < 2 ^ 23" if "\<not> (0 \<le> gmt \<and> gmt < 2 ^ 32)" using t that by (simp split: if_splits)
  then show "td_result (OSTLS_GetBearSSLTimeDetails now loc) = kOSTLSTimeOK
      \<longleftrightarrow> 86400 * int (days_before 2000 - days_before 1904) \<le> gmt \<and> gmt < 2 ^ 32"
    unfolding e using m by (cases "0 \<le> gmt \<and> gmt < 2 ^ 32") (auto simp: epoch_days)
  show "uint ?m = gmt" if "86400 * int (days_before 2000 - days_before 1904) \<le> gmt" "gmt < 2 ^ 32"
    using m that by (simp add: epoch_days)
qed

section \<open>Properties\<close>

text \<open>C40: let \<open>gmt\<close> be the local seconds since 1904 less the signed 24-bit zone offset. When it lies
  between the start of 2000 and the end of the 32-bit range (in 2040), the conversion succeeds, and
  days and seconds are that time counted from the year 0 of the Gregorian calendar; otherwise,
  dates past 2040 included, it reports a clock before 2000, and both numbers are 0.\<close>

theorem clock_is_gregorian:
  fixes now loc :: u32
  assumes "OSTLS_GetBearSSLTime now loc = (days, seconds, err)"
  defines "gmt \<equiv> uint now - sint (ucast loc :: 24 word)"
  shows "if 86400 * int (days_before 2000 - days_before 1904) \<le> gmt \<and> gmt < 2 ^ 32
    then err = kOSTLSTimeOK \<and> 86400 * uint days + uint seconds = 86400 * int (days_before 1904) + gmt \<and> uint seconds < 86400
    else err = kOSTLSTimeClockBefore2000 \<and> days = 0 \<and> seconds = 0"
proof (cases "err = kOSTLSTimeOK")
  case True
  then have g: "86400 * int (days_before 2000 - days_before 1904) \<le> gmt" "gmt < 2 ^ 32" "uint (to_gmt now (gmt_delta loc)) = gmt"
    using details_result [of now loc] assms(1) unfolding gmt_def by (auto simp: OSTLS_GetBearSSLTime_def Let_def)
  have "int (86400 * unat days + unat seconds) = int (86400 * days_before 1904 + unat (to_gmt now (gmt_delta loc)))" "unat seconds < 86400"
    using True details_ok [of now loc] assms(1) by (auto simp: OSTLS_GetBearSSLTime_def Let_def)
  then have "86400 * uint days + uint seconds = 86400 * int (days_before 1904) + gmt" "uint seconds < 86400"
    unfolding g(3) [symmetric] uint_nat by linarith+
  then show ?thesis using True g by simp
next
  case False
  then show ?thesis using details_result [of now loc] details_fail [of now loc] assms(1) unfolding gmt_def
    by (auto simp: OSTLS_GetBearSSLTime_def Let_def)
qed

theorem clock_is_gregorian_witness:
  "OSTLS_GetBearSSLTime 3029533200 3600 = (word_of_nat (days_before 2000), 0, kOSTLSTimeOK)
     \<and> OSTLS_GetBearSSLTime 3029533200 0x00FFF1F0 = (word_of_nat (days_before 2000), 7200, kOSTLSTimeOK)"
proof -
  have e: "OSTLS_GetBearSSLTime 3029533200 3600 = (730485, 0, kOSTLSTimeOK)"
    and f: "OSTLS_GetBearSSLTime 3029533200 0x00FFF1F0 = (730485, 7200, kOSTLSTimeOK)"
    by code_simp+
  from clock_is_gregorian [OF e] clock_is_gregorian [OF f] show ?thesis by (simp add: e f epoch_days)
qed

end
