(* ===== verification/Async_Conn.thy ===== *)
theory Async_Conn
  imports Post_Handshake Ticket_Cache Http Mac_Time
begin

text \<open>
  The connection object of os9/ostls_async.c: its states, the notifier that Open Transport calls
  at interrupt time, creation, failure and the precedence of events, the session cache of the
  TLS 1.2 path, and the calls of the client that touch only the connection (\<open>OSTLS_Write\<close>,
  \<open>OSTLS_Read\<close>, the introspection functions).

  Open Transport, the Memory Manager, the clocks, the entropy pool and BearSSL's TLS 1.2 engine
  are the fields of the record \<open>env\<close>: each field is one call, on an abstract state of the
  operating system (\<open>'w\<close>) or of the engine (\<open>'e\<close>). What a call leaves behind is its new state.

  \<open>ssl_iobuf\<close> with \<open>tls13_recv_len\<close> is the list of the bytes received and not consumed; the
  read ring, the write queue and the outbound record are arrays with their indices. Log calls
  and the field kept for them (\<open>t13_dbg_state\<close>) are left out.
\<close>

unbundle bit_operations_syntax

section \<open>States, events, codes\<close>

datatype OSTLSState =
    kOSTLSStateIdle | kOSTLSStateConnecting | kOSTLSStateHandshaking | kOSTLSStateOpen
  | kOSTLSStateClosing | kOSTLSStateClosed | kOSTLSStateFailed

datatype OSTLSEvent =
    kOSTLSEventNone | kOSTLSEventConnected | kOSTLSEventHandshakeDone | kOSTLSEventReadable
  | kOSTLSEventWritable | kOSTLSEventClosed | kOSTLSEventFailed

datatype connect_phase =
    kConnectPhase_NeedsOpen | kConnectPhase_OpenInFlight | kConnectPhase_NeedsBind
  | kConnectPhase_BindInFlight | kConnectPhase_NeedsConnect | kConnectPhase_ConnectInFlight
  | kConnectPhase_Done

datatype t13_mode = kT13Mode_Off | kT13Mode_Trying | kT13Mode_Open

definition kOSTLSAsync_OK :: int where "kOSTLSAsync_OK = 0"
definition kOSTLSAsync_BadArgs :: int where "kOSTLSAsync_BadArgs = 2000"
definition kOSTLSAsync_NoMemory :: int where "kOSTLSAsync_NoMemory = 2001"
definition kOSTLSAsync_ClockBefore2000 :: int where "kOSTLSAsync_ClockBefore2000 = 2002"
definition kOSTLSAsync_OTConfigFail :: int where "kOSTLSAsync_OTConfigFail = 2003"
definition kOSTLSAsync_OTOpenFail :: int where "kOSTLSAsync_OTOpenFail = 2004"
definition kOSTLSAsync_OTBindFail :: int where "kOSTLSAsync_OTBindFail = 2005"
definition kOSTLSAsync_OTConnectFail :: int where "kOSTLSAsync_OTConnectFail = 2006"
definition kOSTLSAsync_OTSndFail :: int where "kOSTLSAsync_OTSndFail = 2008"
definition kOSTLSAsync_OTRcvFail :: int where "kOSTLSAsync_OTRcvFail = 2009"
definition kOSTLSAsync_EntropyFail :: int where "kOSTLSAsync_EntropyFail = 2010"
definition kOSTLSAsync_ClientResetFail :: int where "kOSTLSAsync_ClientResetFail = 2011"
definition kOSTLSAsync_BearSSLError :: int where "kOSTLSAsync_BearSSLError = 2012"
definition kOSTLSAsync_ConnectTimeout :: int where "kOSTLSAsync_ConnectTimeout = 2013"
definition kOSTLSAsync_HandshakeTimeout :: int where "kOSTLSAsync_HandshakeTimeout = 2014"
definition kOSTLSAsync_PeerClosed :: int where "kOSTLSAsync_PeerClosed = 2015"
definition kOSTLSAsync_WrongState :: int where "kOSTLSAsync_WrongState = 2016"
definition kOSTLSAsync_Disposed :: int where "kOSTLSAsync_Disposed = 2017"

definition noErr :: int where "noErr = 0"
definition kOTNoError :: int where "kOTNoError = 0"
definition kOTNoDataErr :: int where "kOTNoDataErr = - 3162"
definition kOTFlowErr :: int where "kOTFlowErr = - 3161"
definition kOTLookErr :: int where "kOTLookErr = - 3158"
definition T_OPENCOMPLETE :: int where "T_OPENCOMPLETE = 0x20000001"
definition T_BINDCOMPLETE :: int where "T_BINDCOMPLETE = 0x20000002"
definition T_CONNECT :: int where "T_CONNECT = 0x00000002"
definition T_DATA :: int where "T_DATA = 0x00000004"
definition T_EXDATA :: int where "T_EXDATA = 0x00000008"
definition T_DISCONNECT :: int where "T_DISCONNECT = 0x00000010"
definition T_ORDREL :: int where "T_ORDREL = 0x00000080"
definition T_GODATA :: int where "T_GODATA = 0x00000100"
definition T_OUTCON :: int where "T_OUTCON = 3"
definition T_DATAXFER :: int where "T_DATAXFER = 5"
definition T_OUTREL :: int where "T_OUTREL = 6"

definition OSTLS_READ_BUF_SIZE :: nat where "OSTLS_READ_BUF_SIZE = 16384"
definition OSTLS_WRITE_BUF_SIZE :: nat where "OSTLS_WRITE_BUF_SIZE = 4096"
definition OSTLS_DEFAULT_TIMEOUT :: u32 where "OSTLS_DEFAULT_TIMEOUT = 1800"
definition BR_SSL_BUFSIZE_BIDI :: nat where "BR_SSL_BUFSIZE_BIDI = (16384 + 325) + (16384 + 85)"
definition BR_SSL_CLOSED :: u32 where "BR_SSL_CLOSED = 0x0001"
definition BR_SSL_SENDREC :: u32 where "BR_SSL_SENDREC = 0x0002"
definition BR_SSL_RECVREC :: u32 where "BR_SSL_RECVREC = 0x0004"
definition BR_SSL_SENDAPP :: u32 where "BR_SSL_SENDAPP = 0x0008"
definition BR_SSL_RECVAPP :: u32 where "BR_SSL_RECVAPP = 0x0010"
definition OSTLS_SESS_MAX :: nat where "OSTLS_SESS_MAX = 16"
definition OSTLS_SESS_KEY_LEN :: nat where "OSTLS_SESS_KEY_LEN = 280"

section \<open>The operating system and the TLS 1.2 engine\<close>

text \<open>An \<open>EndpointRef\<close> is a number, 0 the null reference. \<open>ot_rcv\<close> returns the code and the bytes
  it stored. The engine's buffer calls come in pairs in C, a pointer with a length and an
  acknowledgement: reading one is the list of its bytes, writing into one and acknowledging is a
  single field (\<open>br_recvrec\<close>, \<open>br_sendapp\<close>).\<close>

type_synonym endpoint = nat

record ('w, 'e, 's, 'x) env =
  ot_create_configuration :: "'w \<Rightarrow> bool \<times> 'w"
  ot_async_open_endpoint :: "'w \<Rightarrow> int \<times> 'w"
  ot_bind :: "endpoint \<Rightarrow> 'w \<Rightarrow> int \<times> 'w"
  ot_init_dns_address :: "bytes \<Rightarrow> int"
  ot_connect :: "endpoint \<Rightarrow> bytes \<Rightarrow> 'w \<Rightarrow> int \<times> 'w"
  ot_rcv_connect :: "endpoint \<Rightarrow> 'w \<Rightarrow> int \<times> 'w"
  ot_tcp_nodelay :: "endpoint \<Rightarrow> 'w \<Rightarrow> 'w"
  ot_get_endpoint_state :: "endpoint \<Rightarrow> 'w \<Rightarrow> int"
  ot_rcv :: "endpoint \<Rightarrow> nat \<Rightarrow> 'w \<Rightarrow> (int \<times> bytes) \<times> 'w"
  ot_snd :: "endpoint \<Rightarrow> bytes \<Rightarrow> 'w \<Rightarrow> int \<times> 'w"
  ot_look :: "endpoint \<Rightarrow> 'w \<Rightarrow> int"
  ot_rcv_orderly_disconnect :: "endpoint \<Rightarrow> 'w \<Rightarrow> 'w"
  ot_rcv_disconnect :: "endpoint \<Rightarrow> 'w \<Rightarrow> 'w"
  ot_snd_orderly_disconnect :: "endpoint \<Rightarrow> 'w \<Rightarrow> 'w"
  ot_snd_disconnect :: "endpoint \<Rightarrow> 'w \<Rightarrow> 'w"
  ot_close_provider :: "endpoint \<Rightarrow> 'w \<Rightarrow> 'w"
  new_ptr_clear :: "'w \<Rightarrow> bool \<times> 'w"
  tick_count :: "'w \<Rightarrow> u32 \<times> 'w"
  read_clock :: "'w \<Rightarrow> (u32 \<times> u32) \<times> 'w"
  stir_timer :: "nat \<Rightarrow> 'w \<Rightarrow> 'w"
  inject_entropy :: "'e \<Rightarrow> 'w \<Rightarrow> (int \<times> 'e) \<times> 'w"
  br_init_full :: "u32 \<Rightarrow> u32 \<Rightarrow> 'e"
  br_eng :: "'e \<Rightarrow> ssl_engine"
  br_x509 :: "'e \<Rightarrow> 'x"
  br_session :: "'e \<Rightarrow> 's"
  br_session_suite :: "'s \<Rightarrow> u16"
  br_set_session :: "'s \<Rightarrow> 'e \<Rightarrow> 'e"
  br_client_reset :: "bytes \<Rightarrow> bool \<Rightarrow> 'e \<Rightarrow> bool \<times> 'e"
  br_current_state :: "'e \<Rightarrow> u32"
  br_last_error :: "'e \<Rightarrow> int"
  br_recvrec_room :: "'e \<Rightarrow> nat"
  br_recvrec :: "bytes \<Rightarrow> 'e \<Rightarrow> 'e"
  br_sendrec_buf :: "'e \<Rightarrow> bytes"
  br_sendrec_ack :: "nat \<Rightarrow> 'e \<Rightarrow> 'e"
  br_recvapp_buf :: "'e \<Rightarrow> bytes"
  br_recvapp_ack :: "nat \<Rightarrow> 'e \<Rightarrow> 'e"
  br_sendapp_room :: "'e \<Rightarrow> nat"
  br_sendapp :: "bytes \<Rightarrow> 'e \<Rightarrow> 'e"
  br_flush :: "'e \<Rightarrow> 'e"
  br_close :: "'e \<Rightarrow> 'e"

text \<open>The state of the process: the operating system, the two caches and the master switch of the
  TLS 1.3 path.\<close>

record ('w, 's) globals =
  g_os :: 'w
  g_tickets :: "ticket_slot list"
  g_sessions :: "(bytes \<times> 's) list"
  g_try_tls13 :: bool

definition on_os :: "('w \<Rightarrow> 'a \<times> 'w) \<Rightarrow> ('w, 's) globals \<Rightarrow> 'a \<times> ('w, 's) globals" where
  "on_os f g = (let (r, o') = f (g_os g) in (r, g\<lparr>g_os := o'\<rparr>))"

definition do_os :: "('w \<Rightarrow> 'w) \<Rightarrow> ('w, 's) globals \<Rightarrow> ('w, 's) globals" where
  "do_os f g = g\<lparr>g_os := f (g_os g)\<rparr>"

section \<open>The connection\<close>

record ('e, 'x) conn =
  c_state :: OSTLSState
  c_os_err :: int
  c_ot_err :: int
  c_br_err :: int
  c_cipher_suite :: u16
  c_resumed :: bool
  c_host :: bytes
  c_server_name :: bytes
  c_host_port :: bytes
  c_port :: u16
  connect_timeout_ticks :: u32
  handshake_timeout_ticks :: u32
  user_refcon :: nat
  start_ticks :: u32
  handshake_start_ticks :: u32
  c_phase :: connect_phase
  c_started :: bool
  c_disposed :: bool
  close_requested :: bool
  peer_closed :: bool
  c_ep :: endpoint
  ep_open :: bool
  ord_consumed :: bool
  disc_consumed :: bool
  nf_open_complete :: bool
  nf_bind_complete :: bool
  nf_connect_complete :: bool
  nf_data_pending :: bool
  nf_ord_release :: bool
  nf_disconnect :: bool
  nf_want_write :: bool
  nf_last_result :: int
  c_sc :: 'e
  bearssl_initialised :: bool
  handshake_done :: bool
  close_notify_sent :: bool
  c_hs13 :: "'x hs_ctx option"
  offer_ticket_storage :: session_ticket
  tls13_mode :: t13_mode
  tls13_disabled :: bool
  c_recv :: bytes
  t13_plain_len :: nat
  t13_plain_off :: nat
  t13_send_rec :: bytes
  t13_send_len :: nat
  t13_send_off :: nat
  read_buf :: bytes
  read_pos :: nat
  read_avail :: nat
  write_buf :: bytes
  write_pos :: nat
  write_avail :: nat
  dbg_ot_send_calls :: u32
  dbg_ot_send_bytes :: u32
  dbg_ot_send_zero :: u32
  dbg_ot_send_flow :: u32
  dbg_ot_recv_calls :: u32
  dbg_ot_recv_bytes :: u32
  dbg_ot_recv_nodata :: u32
  dbg_pump_calls :: u32
  br_state_last :: u32

text \<open>The notifier runs at interrupt time and only writes the \<open>nf_\<close> fields and the endpoint. The
  calls it makes on a fresh endpoint (asynchronous, non-blocking, idle events) change no field.\<close>

definition ostls_notifier :: "int \<Rightarrow> int \<Rightarrow> endpoint \<Rightarrow> ('e, 'x) conn \<Rightarrow> ('e, 'x) conn" where
  "ostls_notifier event result cookie c =
     (let c = c\<lparr>nf_last_result := result\<rparr>
      in if event = T_OPENCOMPLETE then c\<lparr>c_ep := cookie, nf_open_complete := True\<rparr>
         else if event = T_BINDCOMPLETE then c\<lparr>nf_bind_complete := True\<rparr>
         else if event = T_CONNECT then c\<lparr>nf_connect_complete := True\<rparr>
         else if event = T_DATA \<or> event = T_EXDATA then c\<lparr>nf_data_pending := True\<rparr>
         else if event = T_GODATA then c\<lparr>nf_want_write := False, nf_data_pending := True\<rparr>
         else if event = T_ORDREL then c\<lparr>nf_ord_release := True\<rparr>
         else if event = T_DISCONNECT then c\<lparr>nf_disconnect := True\<rparr>
         else c)"

record config =
  cfg_host :: "bytes option"
  cfg_port :: u16
  cfg_server_name :: "bytes option"
  cfg_connect_timeout :: u32
  cfg_handshake_timeout :: u32
  cfg_refcon :: nat

text \<open>\<open>NewPtrClear\<close> and the assignments after it. \<open>sc\<close> is the engine's cleared memory.\<close>

definition fresh_conn :: "'e \<Rightarrow> bytes \<Rightarrow> bytes \<Rightarrow> config \<Rightarrow> ('e, 'x) conn" where
  "fresh_conn sc host server_name cfg =
     \<lparr>c_state = kOSTLSStateIdle, c_os_err = noErr, c_ot_err = 0x7FFFFFFF, c_br_err = 0,
      c_cipher_suite = 0, c_resumed = False, c_host = host, c_server_name = server_name,
      c_host_port = take 250 host @ [0x3A] @ decimal (unat (cfg_port cfg)), c_port = cfg_port cfg,
      connect_timeout_ticks = (if 0 < cfg_connect_timeout cfg then cfg_connect_timeout cfg else OSTLS_DEFAULT_TIMEOUT),
      handshake_timeout_ticks =
        (if 0 < cfg_handshake_timeout cfg then cfg_handshake_timeout cfg else OSTLS_DEFAULT_TIMEOUT),
      user_refcon = cfg_refcon cfg, start_ticks = 0, handshake_start_ticks = 0,
      c_phase = kConnectPhase_NeedsOpen, c_started = False, c_disposed = False, close_requested = False,
      peer_closed = False, c_ep = 0, ep_open = False, ord_consumed = False, disc_consumed = False,
      nf_open_complete = False, nf_bind_complete = False, nf_connect_complete = False,
      nf_data_pending = False, nf_ord_release = False, nf_disconnect = False, nf_want_write = False,
      nf_last_result = 0, c_sc = sc, bearssl_initialised = False, handshake_done = False,
      close_notify_sent = False, c_hs13 = None, offer_ticket_storage = zero_ticket,
      tls13_mode = kT13Mode_Off, tls13_disabled = False, c_recv = [], t13_plain_len = 0, t13_plain_off = 0,
      t13_send_rec = replicate (OSTLS_WRITE_BUF_SIZE + 64) 0, t13_send_len = 0, t13_send_off = 0,
      read_buf = replicate OSTLS_READ_BUF_SIZE 0, read_pos = 0, read_avail = 0,
      write_buf = replicate OSTLS_WRITE_BUF_SIZE 0, write_pos = 0, write_avail = 0,
      dbg_ot_send_calls = 0, dbg_ot_send_bytes = 0, dbg_ot_send_zero = 0, dbg_ot_send_flow = 0,
      dbg_ot_recv_calls = 0, dbg_ot_recv_bytes = 0, dbg_ot_recv_nodata = 0, dbg_pump_calls = 0,
      br_state_last = 0\<rparr>"

definition OSTLS_New ::
  "('w, 'e, 's, 'x) env \<Rightarrow> 'e \<Rightarrow> config option \<Rightarrow> ('w, 's) globals
   \<Rightarrow> ('e, 'x) conn option \<times> int \<times> ('w, 's) globals" where
  "OSTLS_New E sc config g =
     (case config of
        None \<Rightarrow> (None, kOSTLSAsync_BadArgs, g)
      | Some cfg \<Rightarrow>
          (case (cfg_host cfg, cfg_server_name cfg) of
             (Some host, Some server_name) \<Rightarrow>
               if cfg_port cfg = 0 then (None, kOSTLSAsync_BadArgs, g)
               else if length host = 0 \<or> 256 \<le> length host \<or> length server_name = 0 \<or> 256 \<le> length server_name
               then (None, kOSTLSAsync_BadArgs, g)
               else let (ok, g) = on_os (new_ptr_clear E) g
                    in if \<not> ok then (None, kOSTLSAsync_NoMemory, g)
                       else (Some (fresh_conn sc host server_name cfg), kOSTLSAsync_OK, g)
           | _ \<Rightarrow> (None, kOSTLSAsync_BadArgs, g)))"

text \<open>\<open>OSTLS_Dispose\<close> frees the connection; what remains of it is the process.\<close>

definition OSTLS_Dispose :: "('w, 'e, 's, 'x) env \<Rightarrow> ('e, 'x) conn \<Rightarrow> ('w, 's) globals \<Rightarrow> ('w, 's) globals" where
  "OSTLS_Dispose E c g =
     (if c_disposed c then g
      else if ep_open c \<and> c_ep c \<noteq> 0
      then do_os (ot_close_provider E (c_ep c)) (do_os (ot_snd_orderly_disconnect E (c_ep c)) g)
      else g)"

definition ostls_fail :: "('e, 'x) conn \<Rightarrow> int \<Rightarrow> int \<Rightarrow> int \<Rightarrow> ('e, 'x) conn \<times> OSTLSEvent" where
  "ostls_fail c os_err ot_err br_err =
     (let c = (if c_os_err c = noErr then c\<lparr>c_os_err := os_err\<rparr> else c);
          c = (if c_ot_err c = 0x7FFFFFFF then c\<lparr>c_ot_err := ot_err\<rparr> else c);
          c = (if br_err \<noteq> 0 \<and> c_br_err c = 0 then c\<lparr>c_br_err := br_err\<rparr> else c)
      in if c_state c = kOSTLSStateFailed \<or> c_state c = kOSTLSStateClosed then (c, kOSTLSEventNone)
         else (c\<lparr>c_state := kOSTLSStateFailed\<rparr>, kOSTLSEventFailed))"

fun event_priority :: "OSTLSEvent \<Rightarrow> nat" where
  "event_priority kOSTLSEventFailed = 7"
| "event_priority kOSTLSEventClosed = 6"
| "event_priority kOSTLSEventHandshakeDone = 5"
| "event_priority kOSTLSEventConnected = 4"
| "event_priority kOSTLSEventReadable = 3"
| "event_priority kOSTLSEventWritable = 2"
| "event_priority kOSTLSEventNone = 0"

definition event_bump :: "OSTLSEvent \<Rightarrow> OSTLSEvent \<Rightarrow> OSTLSEvent" where
  "event_bump current candidate =
     (if event_priority current < event_priority candidate then candidate else current)"

section \<open>The session cache of the TLS 1.2 path\<close>

fun sess_cache_find :: "bytes \<Rightarrow> (bytes \<times> 's) list \<Rightarrow> nat option" where
  "sess_cache_find key [] = None"
| "sess_cache_find key (e # es) =
     (if key = [] then None else if fst e = key then Some 0 else map_option Suc (sess_cache_find key es))"

definition sess_cache_get :: "bytes \<Rightarrow> (bytes \<times> 's) list \<Rightarrow> 's option" where
  "sess_cache_get key es = (case sess_cache_find key es of None \<Rightarrow> None | Some i \<Rightarrow> Some (snd (es ! i)))"

definition sess_cache_put :: "bytes \<Rightarrow> 's \<Rightarrow> (bytes \<times> 's) list \<Rightarrow> (bytes \<times> 's) list" where
  "sess_cache_put key p es =
     (if key = [] then es
      else case sess_cache_find key es of
          Some i \<Rightarrow> es[i := (fst (es ! i), p)]
        | None \<Rightarrow> (if OSTLS_SESS_MAX \<le> length es then drop 1 es else es)
                  @ [(take (OSTLS_SESS_KEY_LEN - 1) key, p)])"

definition sess_cache_make_key :: "('e, 'x) conn \<Rightarrow> nat \<Rightarrow> bytes" where
  "sess_cache_make_key c cap =
     (let s = c_host c @ [0x3A] @ decimal (unat (c_port c)) in if cap \<le> length s then [] else s)"

section \<open>Plaintext in and out\<close>

definition OSTLS_Write ::
  "('e, 'x) conn option \<Rightarrow> bytes option \<Rightarrow> ('e, 'x) conn option \<times> int \<times> nat" where
  "OSTLS_Write conn buf =
     (case (conn, buf) of
        (Some c, Some data) \<Rightarrow>
          if c_disposed c then (conn, kOSTLSAsync_Disposed, 0)
          else if c_state c \<noteq> kOSTLSStateOpen then (conn, kOSTLSAsync_WrongState, 0)
          else if length data = 0 then (conn, noErr, 0)
          else let c = (if 0 < write_pos c \<and> 0 < write_avail c
                        then c\<lparr>write_buf := wr (write_buf c) 0 (rd (write_buf c) (write_pos c) (write_avail c)),
                               write_pos := 0\<rparr>
                        else c);
                   free_room = OSTLS_WRITE_BUF_SIZE - write_avail c;
                   to_copy = (if length data < free_room then length data else free_room)
               in if to_copy = 0 then (Some c, noErr, 0)
                  else (Some (c\<lparr>write_buf := wr (write_buf c) (write_avail c) (take to_copy data),
                                write_avail := write_avail c + to_copy\<rparr>), noErr, to_copy)
      | _ \<Rightarrow> (conn, kOSTLSAsync_BadArgs, 0))"

text \<open>\<open>OSTLS_Read\<close> into a buffer of \<open>cap\<close> bytes (\<open>None\<close>: a null buffer); the last component is what
  it stored there.\<close>

definition OSTLS_Read ::
  "('e, 'x) conn option \<Rightarrow> nat option \<Rightarrow> ('e, 'x) conn option \<times> int \<times> bytes" where
  "OSTLS_Read conn buf =
     (case (conn, buf) of
        (Some c, Some cap) \<Rightarrow>
          if c_disposed c then (conn, kOSTLSAsync_Disposed, [])
          else if c_state c \<noteq> kOSTLSStateOpen \<and> c_state c \<noteq> kOSTLSStateClosing \<and> c_state c \<noteq> kOSTLSStateClosed
          then (conn, kOSTLSAsync_WrongState, [])
          else if cap = 0 then (conn, noErr, [])
          else if read_avail c = 0 then (conn, noErr, [])
          else let ring_size = OSTLS_READ_BUF_SIZE;
                   to_copy = (if cap < read_avail c then cap else read_avail c);
                   first_chunk = (if to_copy < ring_size - read_pos c then to_copy else ring_size - read_pos c);
                   second_chunk = to_copy - first_chunk
               in (Some (c\<lparr>read_pos := (read_pos c + to_copy) mod ring_size, read_avail := read_avail c - to_copy\<rparr>),
                   noErr, rd (read_buf c) (read_pos c) first_chunk @ rd (read_buf c) 0 second_chunk)
      | _ \<Rightarrow> (conn, kOSTLSAsync_BadArgs, []))"

section \<open>Introspection\<close>

definition OSTLS_GetState :: "('e, 'x) conn option \<Rightarrow> OSTLSState" where
  "OSTLS_GetState conn =
     (case conn of None \<Rightarrow> kOSTLSStateFailed | Some c \<Rightarrow> if c_disposed c then kOSTLSStateFailed else c_state c)"

definition OSTLS_GetLastError :: "('e, 'x) conn option \<Rightarrow> int" where
  "OSTLS_GetLastError conn =
     (case conn of None \<Rightarrow> kOSTLSAsync_BadArgs | Some c \<Rightarrow> if c_disposed c then kOSTLSAsync_Disposed else c_os_err c)"

definition OSTLS_GetCipherSuite :: "('e, 'x) conn option \<Rightarrow> u16" where
  "OSTLS_GetCipherSuite conn = (case conn of None \<Rightarrow> 0 | Some c \<Rightarrow> if c_disposed c then 0 else c_cipher_suite c)"

definition OSTLS_GetResumed :: "('e, 'x) conn option \<Rightarrow> bool" where
  "OSTLS_GetResumed conn = (case conn of None \<Rightarrow> False | Some c \<Rightarrow> \<not> c_disposed c \<and> c_resumed c)"

definition OSTLS_GetUserRefcon :: "('e, 'x) conn option \<Rightarrow> nat" where
  "OSTLS_GetUserRefcon conn = (case conn of None \<Rightarrow> 0 | Some c \<Rightarrow> if c_disposed c then 0 else user_refcon c)"

definition OSTLS_WantWrite :: "('e, 'x) conn option \<Rightarrow> bool" where
  "OSTLS_WantWrite conn = (case conn of None \<Rightarrow> False | Some c \<Rightarrow> \<not> c_disposed c \<and> nf_want_write c)"

record diagnostics =
  d_os_err :: int
  d_ot_err :: int
  d_br_err :: int
  d_state :: OSTLSState
  d_cipher_suite :: u16
  d_ot_send_calls :: u32
  d_ot_send_bytes :: u32
  d_ot_send_zero :: u32
  d_ot_send_flow :: u32
  d_ot_recv_calls :: u32
  d_ot_recv_bytes :: u32
  d_ot_recv_nodata :: u32
  d_pump_calls :: u32
  d_br_state_last :: u32
  d_hs_fail_site :: nat
  d_hs_state :: nat

definition OSTLS_GetDiagnostics_none :: diagnostics where
  "OSTLS_GetDiagnostics_none =
     \<lparr>d_os_err = kOSTLSAsync_Disposed, d_ot_err = noErr, d_br_err = 0, d_state = kOSTLSStateFailed, d_cipher_suite = 0,
      d_ot_send_calls = 0, d_ot_send_bytes = 0, d_ot_send_zero = 0, d_ot_send_flow = 0, d_ot_recv_calls = 0,
      d_ot_recv_bytes = 0, d_ot_recv_nodata = 0, d_pump_calls = 0, d_br_state_last = 0, d_hs_fail_site = 0, d_hs_state = 0\<rparr>"

definition OSTLS_GetDiagnostics :: "('e, 'x) conn option \<Rightarrow> diagnostics" where
  "OSTLS_GetDiagnostics conn =
     (case conn of
        Some c \<Rightarrow>
          if c_disposed c then OSTLS_GetDiagnostics_none
          else \<lparr>d_os_err = c_os_err c, d_ot_err = c_ot_err c, d_br_err = c_br_err c, d_state = c_state c,
            d_cipher_suite = c_cipher_suite c, d_ot_send_calls = dbg_ot_send_calls c, d_ot_send_bytes = dbg_ot_send_bytes c,
            d_ot_send_zero = dbg_ot_send_zero c, d_ot_send_flow = dbg_ot_send_flow c, d_ot_recv_calls = dbg_ot_recv_calls c,
            d_ot_recv_bytes = dbg_ot_recv_bytes c, d_ot_recv_nodata = dbg_ot_recv_nodata c, d_pump_calls = dbg_pump_calls c,
            d_br_state_last = br_state_last c, d_hs_fail_site = (case c_hs13 c of None \<Rightarrow> 0 | Some hs \<Rightarrow> fail_site hs),
            d_hs_state = (case c_hs13 c of None \<Rightarrow> 0 | Some hs \<Rightarrow> state_index (hs_state hs))\<rparr>
      | None \<Rightarrow> OSTLS_GetDiagnostics_none)"

definition OSTLS_SetTryTLS13 :: "bool \<Rightarrow> ('w, 's) globals \<Rightarrow> ('w, 's) globals" where
  "OSTLS_SetTryTLS13 enabled g = g\<lparr>g_try_tls13 := enabled\<rparr>"

end
