(* ===== verification/Async_Pump.thy ===== *)
theory Async_Pump
  imports Async_Conn
begin

text \<open>
  The pump of os9/ostls_async.c: connecting over Open Transport, the TLS 1.3 path, the TLS 1.2
  path over BearSSL's engine, the fallback from the one to the other, \<open>OSTLS_Start\<close>,
  \<open>OSTLS_Pump\<close> and \<open>OSTLS_Close\<close>.

  A handler takes and returns the connection and the process state; its C result (1: work done,
  0: idle, -1: terminal failure) is an \<open>int\<close>, and the event slot it may raise is threaded as
  \<open>best\<close>. Branches the C code repeats (what to do with an orderly release or a disconnect that
  \<open>OTLook\<close> reports) are named once: \<open>consume_release\<close>, \<open>consume_disconnect\<close>.
\<close>

unbundle bit_operations_syntax

section \<open>Open Transport events\<close>

definition consume_release ::
  "('w, 'e, 's, 'x) env \<Rightarrow> ('e, 'x) conn \<Rightarrow> ('w, 's) globals \<Rightarrow> ('e, 'x) conn \<times> ('w, 's) globals" where
  "consume_release E c g =
     (if ord_consumed c then (c\<lparr>peer_closed := True\<rparr>, g)
      else (c\<lparr>ord_consumed := True, peer_closed := True\<rparr>, do_os (ot_rcv_orderly_disconnect E (c_ep c)) g))"

definition consume_disconnect ::
  "('w, 'e, 's, 'x) env \<Rightarrow> int \<Rightarrow> ('e, 'x) conn \<Rightarrow> ('w, 's) globals \<Rightarrow> ('e, 'x) conn \<times> ('w, 's) globals" where
  "consume_disconnect E look c g =
     (let (c, g) = (if disc_consumed c then (c, g)
                    else (c\<lparr>disc_consumed := True\<rparr>, do_os (ot_rcv_disconnect E (c_ep c)) g))
      in (fst (ostls_fail c kOSTLSAsync_PeerClosed look 0), g))"

section \<open>Receiving\<close>

text \<open>The end of both receive functions: \<open>got\<close> is not positive.\<close>

definition recv_no_bytes ::
  "('w, 'e, 's, 'x) env \<Rightarrow> int \<Rightarrow> ('e, 'x) conn \<Rightarrow> ('w, 's) globals \<Rightarrow> ('e, 'x) conn \<times> ('w, 's) globals \<times> int" where
  "recv_no_bytes E got c g =
     (if got = kOTNoDataErr
      then if nf_ord_release c \<and> \<not> ord_consumed c
           then let (c, g) = consume_release E c g in (c, g, 1)
           else (c\<lparr>nf_data_pending := False, dbg_ot_recv_nodata := dbg_ot_recv_nodata c + 1\<rparr>, g, 0)
      else if got = 0
      then let (c, g) = consume_release E c g in (c\<lparr>nf_data_pending := False\<rparr>, g, 1)
      else if got = kOTLookErr
      then let look = ot_look E (c_ep c) (g_os g)
           in if look = T_ORDREL
              then let (c, g) = consume_release E c g in (c\<lparr>nf_data_pending := False\<rparr>, g, 1)
              else if look = T_DISCONNECT
              then let (c, g) = consume_disconnect E look c g in (c, g, -1)
              else (c, g, 0)
      else (fst (ostls_fail c kOSTLSAsync_OTRcvFail got 0), g, -1))"

definition pump_ot_recv_into_bearssl ::
  "('w, 'e, 's, 'x) env \<Rightarrow> ('e, 'x) conn \<Rightarrow> ('w, 's) globals \<Rightarrow> ('e, 'x) conn \<times> ('w, 's) globals \<times> int" where
  "pump_ot_recv_into_bearssl E c g =
     (let rlen = br_recvrec_room E (c_sc c)
      in if rlen = 0 then (c, g, 0)
         else let st = ot_get_endpoint_state E (c_ep c) (g_os g)
              in if st \<noteq> T_DATAXFER \<and> st \<noteq> T_OUTREL
                 then let c = c\<lparr>c_sc := br_recvrec E [] (c_sc c), nf_data_pending := False\<rparr>
                      in (if c_state c = kOSTLSStateOpen \<or> c_state c = kOSTLSStateClosing
                          then c\<lparr>c_sc := br_close E (c_sc c)\<rparr> else c, g, 1)
                 else let ((got, data), g) = on_os (ot_rcv E (c_ep c) rlen) g;
                          c = c\<lparr>dbg_ot_recv_calls := dbg_ot_recv_calls c + 1\<rparr>
                      in if 0 < got
                         then (c\<lparr>c_sc := br_recvrec E data (c_sc c), nf_data_pending := False,
                                 dbg_ot_recv_bytes := dbg_ot_recv_bytes c + word_of_int got\<rparr>,
                               do_os (stir_timer E (nat got)) g, 1)
                         else recv_no_bytes E got c g)"

definition pump_ot_recv_tls13 ::
  "('w, 'e, 's, 'x) env \<Rightarrow> ('e, 'x) conn \<Rightarrow> ('w, 's) globals \<Rightarrow> ('e, 'x) conn \<times> ('w, 's) globals \<times> int" where
  "pump_ot_recv_tls13 E c g =
     (if BR_SSL_BUFSIZE_BIDI \<le> length (c_recv c) then (c, g, 0)
      else let rcap = BR_SSL_BUFSIZE_BIDI - length (c_recv c);
               st = ot_get_endpoint_state E (c_ep c) (g_os g)
           in if st \<noteq> T_DATAXFER \<and> st \<noteq> T_OUTREL then (c\<lparr>nf_data_pending := False\<rparr>, g, 0)
              else let ((got, data), g) = on_os (ot_rcv E (c_ep c) rcap) g;
                       c = c\<lparr>dbg_ot_recv_calls := dbg_ot_recv_calls c + 1\<rparr>
                   in if 0 < got
                      then (c\<lparr>c_recv := c_recv c @ data, nf_data_pending := False,
                              dbg_ot_recv_bytes := dbg_ot_recv_bytes c + word_of_int got\<rparr>,
                            do_os (stir_timer E (nat got)) g, 1)
                      else recv_no_bytes E got c g)"

section \<open>Sending\<close>

definition send_look ::
  "('w, 'e, 's, 'x) env \<Rightarrow> ('e, 'x) conn \<Rightarrow> ('w, 's) globals \<Rightarrow> ('e, 'x) conn \<times> ('w, 's) globals \<times> int" where
  "send_look E c g =
     (let look = ot_look E (c_ep c) (g_os g)
      in if look = T_ORDREL then let (c, g) = consume_release E c g in (c, g, 1)
         else if look = T_DISCONNECT then let (c, g) = consume_disconnect E look c g in (c, g, -1)
         else (c, g, 0))"

definition pump_ot_send_from_bearssl ::
  "('w, 'e, 's, 'x) env \<Rightarrow> ('e, 'x) conn \<Rightarrow> ('w, 's) globals \<Rightarrow> ('e, 'x) conn \<times> ('w, 's) globals \<times> int" where
  "pump_ot_send_from_bearssl E c g =
     (let sbuf = br_sendrec_buf E (c_sc c); slen = length sbuf
      in if slen = 0 then (c, g, 0)
         else let st = ot_get_endpoint_state E (c_ep c) (g_os g)
              in if st \<noteq> T_DATAXFER \<and> st \<noteq> T_OUTCON
                 then (c\<lparr>c_sc := br_sendrec_ack E slen (c_sc c)\<rparr>, g, 1)
                 else let (sent, g) = on_os (ot_snd E (c_ep c) sbuf) g;
                          c = c\<lparr>dbg_ot_send_calls := dbg_ot_send_calls c + 1\<rparr>
                      in if 0 < sent
                         then (c\<lparr>c_sc := br_sendrec_ack E (nat sent) (c_sc c),
                                 dbg_ot_send_bytes := dbg_ot_send_bytes c + word_of_int sent\<rparr>, g, 1)
                         else if sent = 0 then (c\<lparr>dbg_ot_send_zero := dbg_ot_send_zero c + 1\<rparr>, g, 0)
                         else if sent = kOTFlowErr
                         then (c\<lparr>dbg_ot_send_flow := dbg_ot_send_flow c + 1, nf_want_write := True\<rparr>, g, 0)
                         else if sent = kOTLookErr
                         then let (c, g, r) = send_look E c g
                              in (if r = 1 then c\<lparr>c_sc := br_sendrec_ack E slen (c_sc c)\<rparr> else c, g, r)
                         else (fst (ostls_fail c kOSTLSAsync_OTSndFail sent 0), g, -1))"

text \<open>\<open>ostls_send_raw\<close>; the last component is \<open>*out_sent\<close>.\<close>

definition ostls_send_raw ::
  "('w, 'e, 's, 'x) env \<Rightarrow> bytes \<Rightarrow> ('e, 'x) conn \<Rightarrow> ('w, 's) globals
   \<Rightarrow> ('e, 'x) conn \<times> ('w, 's) globals \<times> int \<times> nat" where
  "ostls_send_raw E buf c g =
     (if length buf = 0 then (c, g, 0, 0)
      else let st = ot_get_endpoint_state E (c_ep c) (g_os g)
           in if st \<noteq> T_DATAXFER \<and> st \<noteq> T_OUTCON then (c, g, 0, 0)
              else let (sent, g) = on_os (ot_snd E (c_ep c) buf) g;
                       c = c\<lparr>dbg_ot_send_calls := dbg_ot_send_calls c + 1\<rparr>
                   in if 0 \<le> sent
                      then (c\<lparr>dbg_ot_send_bytes := dbg_ot_send_bytes c + word_of_int sent,
                              dbg_ot_send_zero := (if sent = 0 then dbg_ot_send_zero c + 1 else dbg_ot_send_zero c)\<rparr>,
                            g, 0, nat sent)
                      else if sent = kOTFlowErr
                      then (c\<lparr>dbg_ot_send_flow := dbg_ot_send_flow c + 1, nf_want_write := True\<rparr>, g, 0, 0)
                      else if sent = kOTLookErr
                      then let (c, g, r) = send_look E c g in (c, g, if r < 0 then -1 else 0, 0)
                      else (fst (ostls_fail c kOSTLSAsync_OTSndFail sent 0), g, -1, 0))"

section \<open>The read ring\<close>

text \<open>Both paths copy plaintext into the ring the same way: at most up to the end of the array and
  at most what is free. \<open>ring_put\<close> returns the number of bytes taken.\<close>

definition ring_put :: "bytes \<Rightarrow> ('e, 'x) conn \<Rightarrow> ('e, 'x) conn \<times> nat" where
  "ring_put src c =
     (let room = OSTLS_READ_BUF_SIZE - read_avail c;
          write_idx = (read_pos c + read_avail c) mod OSTLS_READ_BUF_SIZE;
          free_at_end = (let f = OSTLS_READ_BUF_SIZE - write_idx in if room < f then room else f);
          to_copy = (if free_at_end < length src then free_at_end else length src)
      in (c\<lparr>read_buf := wr (read_buf c) write_idx (take to_copy src), read_avail := read_avail c + to_copy\<rparr>, to_copy))"

text \<open>Both paths take bytes off the front of the write queue the same way.\<close>

definition queue_take :: "nat \<Rightarrow> ('e, 'x) conn \<Rightarrow> ('e, 'x) conn \<times> bytes" where
  "queue_take n c =
     (let data = rd (write_buf c) (write_pos c) n;
          c = c\<lparr>write_pos := write_pos c + n, write_avail := write_avail c - n\<rparr>
      in (if write_avail c = 0 then c\<lparr>write_pos := 0\<rparr> else c, data))"

definition pump_bearssl_recvapp_to_ring ::
  "('w, 'e, 's, 'x) env \<Rightarrow> ('e, 'x) conn \<Rightarrow> OSTLSEvent \<Rightarrow> ('e, 'x) conn \<times> OSTLSEvent \<times> int" where
  "pump_bearssl_recvapp_to_ring E c best =
     (let abuf = br_recvapp_buf E (c_sc c)
      in if length abuf = 0 then (c, best, 0)
         else if OSTLS_READ_BUF_SIZE \<le> read_avail c then (c, best, 0)
         else let (c, n) = ring_put abuf c
              in (c\<lparr>c_sc := br_recvapp_ack E n (c_sc c)\<rparr>, event_bump best kOSTLSEventReadable, 1))"

definition pump_ring_to_bearssl_sendapp ::
  "('w, 'e, 's, 'x) env \<Rightarrow> ('e, 'x) conn \<Rightarrow> OSTLSEvent \<Rightarrow> ('e, 'x) conn \<times> OSTLSEvent \<times> int" where
  "pump_ring_to_bearssl_sendapp E c best =
     (if write_avail c = 0 then (c, best, 0)
      else let alen = br_sendapp_room E (c_sc c)
           in if alen = 0 then (c, best, 0)
              else let to_copy = (if alen < write_avail c then alen else write_avail c);
                       (c, data) = queue_take to_copy c;
                       c = c\<lparr>c_sc := br_sendapp E data (c_sc c)\<rparr>
                   in if write_avail c = 0
                      then (c\<lparr>c_sc := br_flush E (c_sc c)\<rparr>, event_bump best kOSTLSEventWritable, 1)
                      else (c, best, 1))"

section \<open>The TLS 1.3 path\<close>

text \<open>The pointer \<open>hs13\<close> is not tested in the functions of this path; they are called only in the
  modes in which it is set (\<open>None\<close> marks the undefined access, shown unreachable).\<close>

definition pump_tls13_deliver_plain :: "('e, 'x) conn \<Rightarrow> OSTLSEvent \<Rightarrow> ('e, 'x) conn \<times> OSTLSEvent \<times> int" where
  "pump_tls13_deliver_plain c best =
     (case c_hs13 c of
        None \<Rightarrow> (c, best, 0)
      | Some hs \<Rightarrow>
          let pend = t13_plain_len c - t13_plain_off c
          in if pend = 0 then (c, best, 0)
             else if OSTLS_READ_BUF_SIZE \<le> read_avail c then (c, best, 0)
             else let (c, n) = ring_put (rd (plain_buf hs) (t13_plain_off c) pend) c
                  in (c\<lparr>t13_plain_off := t13_plain_off c + n\<rparr>, event_bump best kOSTLSEventReadable, 1))"

text \<open>What is done with a decrypted record, by its inner content type.\<close>

definition t13_alert :: "bytes \<Rightarrow> ('e, 'x) conn \<Rightarrow> OSTLSEvent \<Rightarrow> ('e, 'x) conn \<times> OSTLSEvent" where
  "t13_alert plain c best =
     (let desc = (if 2 \<le> length plain then uint (byte_at plain 1) else - 1)
      in if desc = 0
         then let c = c\<lparr>peer_closed := True\<rparr>
              in if c_state c = kOSTLSStateOpen \<or> c_state c = kOSTLSStateClosing
                 then (c\<lparr>c_state := kOSTLSStateClosed\<rparr>, event_bump best kOSTLSEventClosed)
                 else (c, best)
         else (fst (ostls_fail c kOSTLSAsync_BearSSLError noErr desc), kOSTLSEventFailed))"

definition t13_post_handshake ::
  "('w, 'e, 's, 'x) env \<Rightarrow> 'x hs_ctx \<Rightarrow> bytes \<Rightarrow> ('e, 'x) conn \<Rightarrow> ('w, 's) globals
   \<Rightarrow> ('e, 'x) conn \<times> ('w, 's) globals" where
  "t13_post_handshake E hs plain c g =
     (let hs = fst (tls13_handle_post_handshake hs plain)
      in if ticket_valid hs
         then let (now, g) = on_os (tick_count E) g
              in (c\<lparr>c_hs13 := Some (hs\<lparr>ticket_valid := False\<rparr>)\<rparr>,
                  g\<lparr>g_tickets := OSTLS_TicketCachePut (Some (c_host c)) (Some (hs_ticket hs)) now (g_tickets g)\<rparr>)
         else (c\<lparr>c_hs13 := Some hs\<rparr>, g))"

definition pump_tls13_consume_record ::
  "('w, 'e, 's, 'x) env \<Rightarrow> ('e, 'x) conn \<Rightarrow> ('w, 's) globals \<Rightarrow> OSTLSEvent
   \<Rightarrow> ('e, 'x) conn \<times> ('w, 's) globals \<times> OSTLSEvent \<times> int" where
  "pump_tls13_consume_record E c g best =
     (case c_hs13 c of
        None \<Rightarrow> (c, g, best, 0)
      | Some hs \<Rightarrow>
          if length (c_recv c) < 5 then (c, g, best, 0)
          else let reclen = unat (get_u16 (c_recv c) 3)
               in if HS_BUF < reclen
                  then (fst (ostls_fail c kOSTLSAsync_BearSSLError noErr BR_ERR_BAD_PARAM), g, kOSTLSEventFailed, 1)
                  else if length (c_recv c) < 5 + reclen then (c, g, best, 0)
                  else case tls13_record_decrypt (hs_read_ctx hs) (rd (c_recv c) 5 reclen) of (ctx, buf, res) \<Rightarrow>
                       let hs = hs\<lparr>hs_read_ctx := ctx, plain_buf := wr (plain_buf hs) 0 buf\<rparr>;
                           c = c\<lparr>c_hs13 := Some hs, c_recv := drop (5 + reclen) (c_recv c)\<rparr>
                       in (case res of
                             None \<Rightarrow> (fst (ostls_fail c kOSTLSAsync_BearSSLError noErr BR_ERR_BAD_MAC), g, kOSTLSEventFailed, 1)
                           | Some (plen, inner) \<Rightarrow>
                               if inner = TLS13_CT_APPLICATION_DATA
                               then let (c, best, _) = pump_tls13_deliver_plain (c\<lparr>t13_plain_len := plen, t13_plain_off := 0\<rparr>) best
                                    in (c, g, best, 1)
                               else if inner = TLS13_CT_ALERT
                               then let (c, best) = t13_alert (take plen (plain_buf hs)) c best in (c, g, best, 1)
                               else if inner = TLS13_CT_HANDSHAKE
                               then let (c, g) = t13_post_handshake E hs (take plen (plain_buf hs)) c g in (c, g, best, 1)
                               else (c, g, best, 1)))"

definition pump_tls13_build_send :: "('e, 'x) conn \<Rightarrow> ('e, 'x) conn \<times> int" where
  "pump_tls13_build_send c =
     (case c_hs13 c of
        None \<Rightarrow> (c, 0)
      | Some hs \<Rightarrow>
          if t13_send_off c < t13_send_len c then (c, 0)
          else if write_avail c = 0 then (c, 0)
          else let chunk = (if OSTLS_WRITE_BUF_SIZE < write_avail c then OSTLS_WRITE_BUF_SIZE else write_avail c);
                   (c, data) = queue_take chunk c;
                   (ctx, rec) = tls13_record_encrypt (hs_write_ctx hs) data TLS13_CT_APPLICATION_DATA;
                   clen = length rec
               in (c\<lparr>c_hs13 := Some (hs\<lparr>hs_write_ctx := ctx\<rparr>),
                     t13_send_rec := wr (wr (t13_send_rec c) 5 rec) 0 ([0x17, 3, 3] @ put_u16 (word_of_nat clen)),
                     t13_send_len := 5 + clen, t13_send_off := 0\<rparr>, 1))"

text \<open>The server declined TLS 1.3: close the endpoint and open another one for TLS 1.2.\<close>

definition open_endpoint ::
  "('w, 'e, 's, 'x) env \<Rightarrow> ('e, 'x) conn \<Rightarrow> ('w, 's) globals \<Rightarrow> (int \<times> int) option \<times> ('w, 's) globals" where
  "open_endpoint E c g =
     (let (ok, g) = on_os (ot_create_configuration E) g
      in if \<not> ok then (Some (kOSTLSAsync_OTConfigFail, noErr), g)
         else let (oterr, g) = on_os (ot_async_open_endpoint E) g
              in if oterr \<noteq> noErr then (Some (kOSTLSAsync_OTOpenFail, oterr), g) else (None, g))"

definition ostls_fallback_to_tls12 ::
  "('w, 'e, 's, 'x) env \<Rightarrow> ('e, 'x) conn \<Rightarrow> ('w, 's) globals \<Rightarrow> ('e, 'x) conn \<times> ('w, 's) globals \<times> OSTLSEvent" where
  "ostls_fallback_to_tls12 E c g =
     (let (c, g) = (if ep_open c \<and> c_ep c \<noteq> 0
                    then (c\<lparr>c_ep := 0, ep_open := False\<rparr>,
                          do_os (ot_close_provider E (c_ep c)) (do_os (ot_snd_orderly_disconnect E (c_ep c)) g))
                    else (c, g));
          c = c\<lparr>nf_open_complete := False, nf_bind_complete := False, nf_connect_complete := False,
                nf_data_pending := False, nf_ord_release := False, nf_disconnect := False,
                ord_consumed := False, disc_consumed := False, peer_closed := False,
                bearssl_initialised := False, handshake_done := False, close_notify_sent := False,
                tls13_mode := kT13Mode_Off, tls13_disabled := True, c_recv := [], c_hs13 := None\<rparr>;
          (err, g) = open_endpoint E c g
      in case err of
           Some (e, oterr) \<Rightarrow> (let (c, ev) = ostls_fail c e oterr 0 in (c, g, ev))
         | None \<Rightarrow> let (now, g) = on_os (tick_count E) g
                   in (c\<lparr>c_state := kOSTLSStateConnecting, c_phase := kConnectPhase_OpenInFlight, start_ticks := now\<rparr>,
                       g, kOSTLSEventNone))"

text \<open>The four parts of \<open>pump_tls13_step\<close>. The first two return the result of the step when it
  ends there.\<close>

definition t13_flush_handshake ::
  "('w, 'e, 's, 'x) env \<Rightarrow> 'x hs_ctx \<Rightarrow> ('e, 'x) conn \<Rightarrow> ('w, 's) globals
   \<Rightarrow> ('e, 'x) conn \<times> ('w, 's) globals \<times> int option" where
  "t13_flush_handshake E hs c g =
     (if msg_offset hs < msg_len hs
      then let (c, g, r, sent) = ostls_send_raw E (rd (msg_buf hs) (msg_offset hs) (msg_len hs - msg_offset hs)) c g
           in if r < 0 then (c, g, Some (- 1))
              else let c = c\<lparr>c_hs13 := Some (hs\<lparr>msg_offset := msg_offset hs + sent\<rparr>)\<rparr>
                   in if msg_offset hs + sent < msg_len hs then (c, g, Some (if 0 < sent then 1 else 0))
                      else (c, g, None)
      else (c, g, None))"

definition t13_flush_record ::
  "('w, 'e, 's, 'x) env \<Rightarrow> ('e, 'x) conn \<Rightarrow> ('w, 's) globals \<Rightarrow> OSTLSEvent
   \<Rightarrow> ('e, 'x) conn \<times> ('w, 's) globals \<times> OSTLSEvent \<times> int option" where
  "t13_flush_record E c g best =
     (if t13_send_off c < t13_send_len c
      then let (c, g, r, sent) =
                 ostls_send_raw E (rd (t13_send_rec c) (t13_send_off c) (t13_send_len c - t13_send_off c)) c g
           in if r < 0 then (c, g, best, Some (- 1))
              else let c = c\<lparr>t13_send_off := t13_send_off c + sent\<rparr>;
                       (c, best) = (if t13_send_len c \<le> t13_send_off c
                                    then (c\<lparr>t13_send_len := 0, t13_send_off := 0\<rparr>, event_bump best kOSTLSEventWritable)
                                    else (c, best))
                   in (c, g, best, if 0 < sent then Some 1 else None)
      else (c, g, best, None))"

definition t13_handshake_phase ::
  "('w, 'e, 's, 'x) env \<Rightarrow> 'x prims \<Rightarrow> 'x hs_ctx \<Rightarrow> ('e, 'x) conn \<Rightarrow> ('w, 's) globals \<Rightarrow> OSTLSEvent
   \<Rightarrow> ('e, 'x) conn \<times> ('w, 's) globals \<times> OSTLSEvent \<times> int" where
  "t13_handshake_phase E P hs c g best =
     (case tls13_handshake_step P hs (c_recv c) (c_server_name c) of (hs, recv, r) \<Rightarrow>
      let c = c\<lparr>c_hs13 := Some hs, c_recv := recv\<rparr>
      in if hs_state hs = kTLS13_Complete \<and> msg_len hs \<le> msg_offset hs
         then (c\<lparr>handshake_done := True, c_state := kOSTLSStateOpen, tls13_mode := kT13Mode_Open,
                 c_cipher_suite := hs_cipher_suite hs, c_resumed := resumption_accepted hs\<rparr>,
               g, event_bump best kOSTLSEventHandshakeDone, 1)
         else (case r of
                 kTLS13_WantRead \<Rightarrow> (let (c, g, n) = pump_ot_recv_tls13 E c g in (c, g, best, n))
               | kTLS13_WantWrite \<Rightarrow> (c, g, best, 1)
               | kTLS13_OK \<Rightarrow> (c, g, best, 1)
               | kTLS13_Fallback12 \<Rightarrow>
                   (let (c, g, ev) = ostls_fallback_to_tls12 E c g
                    in (c, g, if ev = kOSTLSEventFailed then kOSTLSEventFailed else best, 1))
               | kTLS13_Error \<Rightarrow>
                   (fst (ostls_fail c kOSTLSAsync_BearSSLError noErr (hs_error hs)), g, kOSTLSEventFailed, 1)))"

definition t13_open_phase ::
  "('w, 'e, 's, 'x) env \<Rightarrow> ('e, 'x) conn \<Rightarrow> ('w, 's) globals \<Rightarrow> OSTLSEvent
   \<Rightarrow> ('e, 'x) conn \<times> ('w, 's) globals \<times> OSTLSEvent \<times> int" where
  "t13_open_phase E c g best =
     (if t13_plain_off c < t13_plain_len c
      then let (c, best, r) = pump_tls13_deliver_plain c best in (c, g, best, r)
      else let (c, built) = (if 0 < write_avail c \<and> t13_send_len c \<le> t13_send_off c
                             then pump_tls13_build_send c else (c, 0))
           in if built \<noteq> 0 then (c, g, best, 1)
              else case pump_tls13_consume_record E c g best of (c, g, best, r) \<Rightarrow>
                if r \<noteq> 0 then (c, g, best, 1)
                else let (c, g, got) = (if peer_closed c then (c, g, 0) else pump_ot_recv_tls13 E c g)
                     in if got \<noteq> 0 then (c, g, best, got)
                        else if peer_closed c \<and> t13_plain_len c \<le> t13_plain_off c \<and> length (c_recv c) < 5
                          \<and> c_state c \<noteq> kOSTLSStateClosed \<and> c_state c \<noteq> kOSTLSStateFailed
                        then (c\<lparr>c_state := kOSTLSStateClosed\<rparr>, g, event_bump best kOSTLSEventClosed, 1)
                        else (c, g, best, 0))"

definition pump_tls13_step ::
  "('w, 'e, 's, 'x) env \<Rightarrow> 'x prims \<Rightarrow> ('e, 'x) conn \<Rightarrow> ('w, 's) globals \<Rightarrow> OSTLSEvent
   \<Rightarrow> ('e, 'x) conn \<times> ('w, 's) globals \<times> OSTLSEvent \<times> int" where
  "pump_tls13_step E P c g best =
     (case c_hs13 c of
        None \<Rightarrow> (c, g, best, 0)
      | Some hs \<Rightarrow>
          (case t13_flush_handshake E hs c g of
             (c, g, Some r) \<Rightarrow> (c, g, best, r)
           | (c, g, None) \<Rightarrow>
               (case t13_flush_record E c g best of
                  (c, g, best, Some r) \<Rightarrow> (c, g, best, r)
                | (c, g, best, None) \<Rightarrow>
                    if c_state c = kOSTLSStateHandshaking \<and> tls13_mode c = kT13Mode_Trying
                    then (case c_hs13 c of None \<Rightarrow> (c, g, best, 0) | Some hs \<Rightarrow> t13_handshake_phase E P hs c g best)
                    else if c_state c = kOSTLSStateOpen \<or> c_state c = kOSTLSStateClosing
                    then t13_open_phase E c g best
                    else (c, g, best, 0))))"

section \<open>The TLS 1.2 path\<close>

definition pump_bearssl_step ::
  "('w, 'e, 's, 'x) env \<Rightarrow> ('e, 'x) conn \<Rightarrow> ('w, 's) globals \<Rightarrow> OSTLSEvent
   \<Rightarrow> ('e, 'x) conn \<times> ('w, 's) globals \<times> OSTLSEvent \<times> int" where
  "pump_bearssl_step E c g best =
     (let state = br_current_state E (c_sc c); on = (\<lambda>m. state AND m \<noteq> 0);
          up = (\<lambda>c. c_state c = kOSTLSStateOpen \<or> c_state c = kOSTLSStateClosing)
      in if on BR_SSL_CLOSED
         then let br_err = br_last_error E (c_sc c)
              in if br_err = 0
                 then if up c then (c\<lparr>c_state := kOSTLSStateClosed\<rparr>, g, event_bump best kOSTLSEventClosed, 1)
                      else (fst (ostls_fail c kOSTLSAsync_PeerClosed noErr 0), g, kOSTLSEventFailed, 1)
                 else (fst (ostls_fail c kOSTLSAsync_BearSSLError noErr br_err), g, kOSTLSEventFailed, 1)
         else if \<not> handshake_done c \<and> c_state c = kOSTLSStateHandshaking \<and> on (BR_SSL_SENDAPP OR BR_SSL_RECVAPP)
         then let sess = br_session E (c_sc c); key = sess_cache_make_key c OSTLS_SESS_KEY_LEN
              in (c\<lparr>handshake_done := True, c_state := kOSTLSStateOpen, c_cipher_suite := br_session_suite E sess\<rparr>,
                  g\<lparr>g_sessions := sess_cache_put key sess (g_sessions g)\<rparr>,
                  event_bump best kOSTLSEventHandshakeDone, 1)
         else case (if on BR_SSL_SENDREC then pump_ot_send_from_bearssl E c g else (c, g, 0)) of (c, g, r) \<Rightarrow>
           if r \<noteq> 0 then (c, g, best, r)
           else case (if on BR_SSL_RECVREC \<and> \<not> peer_closed c then pump_ot_recv_into_bearssl E c g else (c, g, 0)) of (c, g, r) \<Rightarrow>
             if r \<noteq> 0 then (c, g, best, r)
             else case (if up c \<and> on BR_SSL_RECVAPP then pump_bearssl_recvapp_to_ring E c best else (c, best, 0)) of (c, best, r) \<Rightarrow>
               if r \<noteq> 0 then (c, g, best, r)
               else case (if up c \<and> 0 < write_avail c \<and> on BR_SSL_SENDAPP
                          then pump_ring_to_bearssl_sendapp E c best else (c, best, 0)) of (c, best, r) \<Rightarrow>
                 if r \<noteq> 0 then (c, g, best, r)
                 else if peer_closed c \<and> c_state c \<noteq> kOSTLSStateClosed \<and> c_state c \<noteq> kOSTLSStateFailed
                 then if on BR_SSL_RECVAPP then (c, g, best, 0)
                      else (c\<lparr>c_state := kOSTLSStateClosed\<rparr>, g, event_bump best kOSTLSEventClosed, 1)
                 else (c, g, best, 0))"

section \<open>Connecting\<close>

text \<open>Arming the TLS 1.3 path, with a cached ticket if there is one for the host.\<close>

definition arm_tls13 ::
  "('w, 'e, 's, 'x) env \<Rightarrow> ('e, 'x) conn \<Rightarrow> ('w, 's) globals \<Rightarrow> ('e, 'x) conn \<times> ('w, 's) globals" where
  "arm_tls13 E c g =
     (let hs = (tls13_handshake_init (br_x509 E (c_sc c)))\<lparr>hs_eng := Some (br_eng E (c_sc c))\<rparr>;
          (now, g) = on_os (tick_count E) g;
          (tickets, r) = OSTLS_TicketCacheGet (Some (c_host c)) now 60 (g_tickets g);
          g = g\<lparr>g_tickets := tickets\<rparr>
      in case r of
           Some (t, age_ms) \<Rightarrow>
             (c\<lparr>offer_ticket_storage := t, tls13_mode := kT13Mode_Trying,
                c_hs13 := Some (hs\<lparr>resuming := True, offer_ticket := Some t,
                                   offer_obfuscated_age := age_ms + tk_age_add t\<rparr>)\<rparr>, g)
         | None \<Rightarrow> (c\<lparr>tls13_mode := kT13Mode_Trying, c_hs13 := Some hs\<rparr>, g))"

definition ostls_setup_bearssl ::
  "('w, 'e, 's, 'x) env \<Rightarrow> ('e, 'x) conn \<Rightarrow> ('w, 's) globals \<Rightarrow> ('e, 'x) conn \<times> ('w, 's) globals \<times> OSTLSEvent" where
  "ostls_setup_bearssl E c g =
     (let ((now, loc), g) = on_os (read_clock E) g; (days, seconds, time_err) = OSTLS_GetBearSSLTime now loc
      in if time_err \<noteq> kOSTLSTimeOK
         then let (c, ev) = ostls_fail c kOSTLSAsync_ClockBefore2000 noErr 0 in (c, g, ev)
         else let ((entropy_err, sc), g) = on_os (inject_entropy E (br_init_full E days seconds)) g; c = c\<lparr>c_sc := sc\<rparr>
              in if entropy_err \<noteq> 0
                 then let (c, ev) = ostls_fail c kOSTLSAsync_EntropyFail noErr 0 in (c, g, ev)
                 else let (ticks, g) = on_os (tick_count E) g;
                          c = c\<lparr>bearssl_initialised := True, handshake_start_ticks := ticks, c_recv := [],
                                t13_plain_len := 0, t13_plain_off := 0, t13_send_len := 0, t13_send_off := 0\<rparr>;
                          (ctx, g) = (if g_try_tls13 g \<and> \<not> tls13_disabled c
                                      then if c_hs13 c = None then on_os (new_ptr_clear E) g else (True, g)
                                      else (False, g))
                      in if ctx then let (c, g) = arm_tls13 E c g in (c, g, kOSTLSEventNone)
                         else let c = c\<lparr>tls13_mode := kT13Mode_Off\<rparr>;
                                  key = sess_cache_make_key c OSTLS_SESS_KEY_LEN;
                                  (sc, resume) = (case sess_cache_get key (g_sessions g) of
                                                    Some p \<Rightarrow> (br_set_session E p (c_sc c), True)
                                                  | None \<Rightarrow> (c_sc c, False));
                                  (reset_ok, sc) = br_client_reset E (c_server_name c) resume sc;
                                  c = c\<lparr>c_sc := sc\<rparr>
                              in if \<not> reset_ok
                                 then let (c, ev) = ostls_fail c kOSTLSAsync_ClientResetFail noErr (br_last_error E sc)
                                      in (c, g, ev)
                                 else (c, g, kOSTLSEventNone))"

definition connect_fail ::
  "('e, 'x) conn \<Rightarrow> ('w, 's) globals \<Rightarrow> int \<Rightarrow> int \<Rightarrow> ('e, 'x) conn \<times> ('w, 's) globals \<times> OSTLSEvent \<times> bool" where
  "connect_fail c g os ot = (let (c, ev) = ostls_fail c os ot 0 in (c, g, ev, False))"

text \<open>One step of connecting; the last component tells whether a step was used. The call that
  turns off Nagle's algorithm is \<open>ot_tcp_nodelay\<close>, its result ignored.\<close>

definition pump_connect_step ::
  "('w, 'e, 's, 'x) env \<Rightarrow> ('e, 'x) conn \<Rightarrow> ('w, 's) globals
   \<Rightarrow> ('e, 'x) conn \<times> ('w, 's) globals \<times> OSTLSEvent \<times> bool" where
  "pump_connect_step E c g =
     (let (now, g) = on_os (tick_count E) g
      in if connect_timeout_ticks c < now - start_ticks c then connect_fail c g kOSTLSAsync_ConnectTimeout noErr
         else if nf_disconnect c
         then connect_fail (c\<lparr>nf_disconnect := False\<rparr>) g kOSTLSAsync_OTConnectFail (nf_last_result c)
         else case c_phase c of
           kConnectPhase_OpenInFlight \<Rightarrow>
             if \<not> nf_open_complete c then (c, g, kOSTLSEventNone, False)
             else let c = c\<lparr>nf_open_complete := False\<rparr>
                  in if nf_last_result c \<noteq> noErr then connect_fail c g kOSTLSAsync_OTOpenFail (nf_last_result c)
                     else if c_ep c = 0 then connect_fail c g kOSTLSAsync_OTOpenFail (- 1)
                     else (c\<lparr>ep_open := True, c_phase := kConnectPhase_NeedsBind\<rparr>, g, kOSTLSEventNone, True)
         | kConnectPhase_NeedsBind \<Rightarrow>
             let (oterr, g) = on_os (ot_bind E (c_ep c)) g
             in if oterr \<noteq> noErr \<and> oterr \<noteq> kOTNoError then connect_fail c g kOSTLSAsync_OTBindFail oterr
                else (c\<lparr>c_phase := kConnectPhase_BindInFlight\<rparr>, g, kOSTLSEventNone, True)
         | kConnectPhase_BindInFlight \<Rightarrow>
             if \<not> nf_bind_complete c then (c, g, kOSTLSEventNone, False)
             else let c = c\<lparr>nf_bind_complete := False\<rparr>
                  in if nf_last_result c \<noteq> noErr then connect_fail c g kOSTLSAsync_OTBindFail (nf_last_result c)
                     else (c\<lparr>c_phase := kConnectPhase_NeedsConnect\<rparr>, g, kOSTLSEventNone, True)
         | kConnectPhase_NeedsConnect \<Rightarrow>
             let dns_len = ot_init_dns_address E (c_host_port c)
             in if dns_len \<le> 0 then connect_fail c g kOSTLSAsync_OTConnectFail dns_len
                else let (oterr, g) = on_os (ot_connect E (c_ep c) (c_host_port c)) g
                     in if oterr \<noteq> noErr \<and> oterr \<noteq> kOTNoError \<and> oterr \<noteq> kOTNoDataErr
                        then connect_fail c g kOSTLSAsync_OTConnectFail oterr
                        else (c\<lparr>c_phase := kConnectPhase_ConnectInFlight\<rparr>, g, kOSTLSEventNone, True)
         | kConnectPhase_ConnectInFlight \<Rightarrow>
             if \<not> nf_connect_complete c then (c, g, kOSTLSEventNone, False)
             else let c = c\<lparr>nf_connect_complete := False\<rparr>
                  in if nf_last_result c \<noteq> noErr then connect_fail c g kOSTLSAsync_OTConnectFail (nf_last_result c)
                     else let (oterr, g) = on_os (ot_rcv_connect E (c_ep c)) g
                          in if oterr \<noteq> noErr then connect_fail c g kOSTLSAsync_OTConnectFail oterr
                             else let g = do_os (ot_tcp_nodelay E (c_ep c)) g;
                                      (c, g, ev) = ostls_setup_bearssl E
                                         (c\<lparr>c_phase := kConnectPhase_Done, c_state := kOSTLSStateHandshaking\<rparr>) g
                                  in if ev = kOSTLSEventFailed then (c, g, kOSTLSEventFailed, False)
                                     else (c, g, kOSTLSEventConnected, True)
         | _ \<Rightarrow> (c, g, kOSTLSEventNone, False))"

definition OSTLS_Start ::
  "('w, 'e, 's, 'x) env \<Rightarrow> ('e, 'x) conn option \<Rightarrow> ('w, 's) globals \<Rightarrow> ('e, 'x) conn option \<times> ('w, 's) globals \<times> int" where
  "OSTLS_Start E conn g =
     (case conn of
        None \<Rightarrow> (conn, g, kOSTLSAsync_BadArgs)
      | Some c \<Rightarrow>
          if c_disposed c then (conn, g, kOSTLSAsync_BadArgs)
          else if c_started c \<or> c_state c \<noteq> kOSTLSStateIdle then (conn, g, kOSTLSAsync_WrongState)
          else let ((now, loc), g) = on_os (read_clock E) g;
                   failed = (\<lambda>os. c\<lparr>c_state := kOSTLSStateFailed, c_os_err := os\<rparr>)
               in if td_result (OSTLS_GetBearSSLTimeDetails now loc) \<noteq> kOSTLSTimeOK
                  then (Some (failed kOSTLSAsync_ClockBefore2000), g, kOSTLSAsync_ClockBefore2000)
                  else let (err, g) = open_endpoint E c g
                       in case err of
                            Some (e, oterr) \<Rightarrow>
                              (Some (if e = kOSTLSAsync_OTOpenFail then (failed e)\<lparr>c_ot_err := oterr\<rparr> else failed e), g, e)
                          | None \<Rightarrow>
                              let (ticks, g) = on_os (tick_count E) g
                              in (Some (c\<lparr>c_state := kOSTLSStateConnecting, c_phase := kConnectPhase_OpenInFlight,
                                          start_ticks := ticks, c_started := True\<rparr>), g, kOSTLSAsync_OK))"

section \<open>The pump\<close>

definition pump_handshake_or_open_pre ::
  "('w, 'e, 's, 'x) env \<Rightarrow> ('e, 'x) conn \<Rightarrow> ('w, 's) globals \<Rightarrow> ('e, 'x) conn \<times> ('w, 's) globals \<times> OSTLSEvent" where
  "pump_handshake_or_open_pre E c g =
     (let (late, g) = (if c_state c = kOSTLSStateHandshaking
                       then let (now, g) = on_os (tick_count E) g
                            in (handshake_timeout_ticks c < now - handshake_start_ticks c, g)
                       else (False, g))
      in if late then let (c, ev) = ostls_fail c kOSTLSAsync_HandshakeTimeout noErr 0 in (c, g, ev)
         else if nf_disconnect c \<and> \<not> disc_consumed c
         then let g = do_os (ot_rcv_disconnect E (c_ep c)) g;
                  (c, ev) = ostls_fail (c\<lparr>disc_consumed := True\<rparr>) kOSTLSAsync_OTSndFail (nf_last_result c) 0
              in (c, g, ev)
         else (c, g, kOSTLSEventNone))"

text \<open>The body of the loop of \<open>OSTLS_Pump\<close>; the last component tells whether the loop goes on, which
  it does exactly when a step was used.\<close>

definition pump_iteration ::
  "('w, 'e, 's, 'x) env \<Rightarrow> 'x prims \<Rightarrow> ('e, 'x) conn \<Rightarrow> ('w, 's) globals \<Rightarrow> OSTLSEvent
   \<Rightarrow> ('e, 'x) conn \<times> ('w, 's) globals \<times> OSTLSEvent \<times> bool" where
  "pump_iteration E P c g best =
     (if c_state c = kOSTLSStateFailed \<or> c_state c = kOSTLSStateClosed then (c, g, best, False)
      else case pump_handshake_or_open_pre E c g of (c, g, ev) \<Rightarrow>
        if ev = kOSTLSEventFailed then (c, g, event_bump best kOSTLSEventFailed, False)
        else if c_state c = kOSTLSStateConnecting
        then let (c, g, ev, used) = pump_connect_step E c g in (c, g, event_bump best ev, used)
        else if c_state c = kOSTLSStateHandshaking \<or> c_state c = kOSTLSStateOpen \<or> c_state c = kOSTLSStateClosing
        then let (c, g, best, did) =
                   (if tls13_mode c \<noteq> kT13Mode_Off then pump_tls13_step E P c g best else pump_bearssl_step E c g best)
             in (c, g, best, 0 < did)
        else (c, g, best, False))"

primrec pump_loop ::
  "('w, 'e, 's, 'x) env \<Rightarrow> 'x prims \<Rightarrow> nat \<Rightarrow> ('e, 'x) conn \<Rightarrow> ('w, 's) globals \<Rightarrow> OSTLSEvent
   \<Rightarrow> ('e, 'x) conn \<times> ('w, 's) globals \<times> OSTLSEvent" where
  "pump_loop E P 0 c g best = (c, g, best)"
| "pump_loop E P (Suc n) c g best =
     (case pump_iteration E P c g best of (c, g, best, again) \<Rightarrow>
        if again then pump_loop E P n c g best else (c, g, best))"

definition OSTLS_Pump ::
  "('w, 'e, 's, 'x) env \<Rightarrow> 'x prims \<Rightarrow> nat \<Rightarrow> ('e, 'x) conn option \<Rightarrow> ('w, 's) globals
   \<Rightarrow> ('e, 'x) conn option \<times> ('w, 's) globals \<times> int \<times> OSTLSEvent" where
  "OSTLS_Pump E P max_steps conn g =
     (case conn of
        None \<Rightarrow> (conn, g, kOSTLSAsync_BadArgs, kOSTLSEventNone)
      | Some c \<Rightarrow>
          if c_disposed c then (conn, g, kOSTLSAsync_Disposed, kOSTLSEventNone)
          else let c = c\<lparr>dbg_pump_calls := dbg_pump_calls c + 1,
                         br_state_last := (if bearssl_initialised c then br_current_state E (c_sc c) else br_state_last c)\<rparr>
               in if c_state c = kOSTLSStateFailed then (Some c, g, noErr, kOSTLSEventFailed)
                  else if c_state c = kOSTLSStateClosed
                  then (Some c, g, noErr, if 0 < read_avail c then kOSTLSEventReadable else kOSTLSEventClosed)
                  else let (c, g, best) = pump_loop E P max_steps c g kOSTLSEventNone
                       in (Some c, g, noErr, best))"

definition OSTLS_Close ::
  "('w, 'e, 's, 'x) env \<Rightarrow> ('e, 'x) conn option \<Rightarrow> ('w, 's) globals \<Rightarrow> ('e, 'x) conn option \<times> ('w, 's) globals" where
  "OSTLS_Close E conn g =
     (case conn of
        None \<Rightarrow> (conn, g)
      | Some c \<Rightarrow>
          if c_disposed c \<or> close_requested c then (conn, g)
          else let c = c\<lparr>close_requested := True\<rparr>; open_ep = ep_open c \<and> c_ep c \<noteq> 0
               in if c_state c = kOSTLSStateClosed \<or> c_state c = kOSTLSStateFailed then (Some c, g)
                  else if c_state c = kOSTLSStateHandshaking \<or> c_state c = kOSTLSStateConnecting
                  then (Some (c\<lparr>c_state := kOSTLSStateFailed, c_os_err := kOSTLSAsync_WrongState\<rparr>),
                        if open_ep then do_os (ot_snd_disconnect E (c_ep c)) g else g)
                  else if c_state c = kOSTLSStateOpen \<or> c_state c = kOSTLSStateClosing
                  then if tls13_mode c = kT13Mode_Open
                       then (Some (c\<lparr>close_notify_sent := True, c_state := kOSTLSStateClosing\<rparr>),
                             if open_ep then do_os (ot_snd_orderly_disconnect E (c_ep c)) g else g)
                       else (Some ((if close_notify_sent c then c
                                    else c\<lparr>c_sc := br_close E (c_sc c), close_notify_sent := True\<rparr>)
                                   \<lparr>c_state := kOSTLSStateClosing\<rparr>), g)
                  else (Some c, g))"

end
