(* ===== verification/Byte_Queue.thy ===== *)
theory Byte_Queue
  imports Async_Pump
begin

text \<open>
  The two plaintext queues of a connection as first-in-first-out byte queues. \<open>byte_fifo\<close> is the
  interface: what is put is appended, as much of it as is accepted, and what is got comes off
  the front. It is interpreted on the read ring (filled by \<open>ring_put\<close>, emptied by \<open>OSTLS_Read\<close>)
  and on the write queue (filled by \<open>OSTLS_Write\<close>, emptied by \<open>queue_take\<close>).
\<close>

section \<open>The interface\<close>

datatype fifo_op = Put bytes | Get nat

locale byte_fifo =
  fixes wf :: "'q \<Rightarrow> bool"
    and contents :: "'q \<Rightarrow> bytes"
    and put :: "bytes \<Rightarrow> 'q \<Rightarrow> 'q \<times> nat"
    and get :: "nat \<Rightarrow> 'q \<Rightarrow> 'q \<times> bytes"
  assumes put: "wf q \<Longrightarrow> put xs q = (q', n) \<Longrightarrow> wf q' \<and> n \<le> length xs \<and> contents q' = contents q @ take n xs"
    and get: "wf q \<Longrightarrow> get k q = (q', ys) \<Longrightarrow> wf q' \<and> contents q = ys @ contents q' \<and> length ys \<le> k"
begin

text \<open>A run of operations, with the bytes accepted and the bytes handed out.\<close>

primrec run :: "fifo_op list \<Rightarrow> 'q \<Rightarrow> 'q \<times> bytes \<times> bytes" where
  "run [] q = (q, [], [])"
| "run (p # ops) q =
     (case p of
        Put xs \<Rightarrow> (let (q, n) = put xs q; (q, i, u) = run ops q in (q, take n xs @ i, u))
      | Get k \<Rightarrow> (let (q, ys) = get k q; (q, i, u) = run ops q in (q, i, ys @ u)))"

lemma run_fifo: "wf q \<Longrightarrow> run ops q = (q', i, u) \<Longrightarrow> wf q' \<and> contents q @ i = u @ contents q'"
proof (induction ops arbitrary: q q' i u)
  case Nil
  then show ?case by simp
next
  case (Cons p ops)
  show ?case
  proof (cases p)
    case (Put xs)
    obtain q1 n where p1: "put xs q = (q1, n)" by fastforce
    obtain i1 where r: "run ops q1 = (q', i1, u)" "i = take n xs @ i1"
      using Cons.prems Put p1 by (auto split: prod.splits)
    from put [OF Cons.prems(1) p1] Cons.IH [OF _ r(1)] r(2) show ?thesis by simp
  next
    case (Get k)
    obtain q1 ys where g1: "get k q = (q1, ys)" by fastforce
    obtain u1 where r: "run ops q1 = (q', i, u1)" "u = ys @ u1"
      using Cons.prems Get g1 by (auto split: prod.splits)
    from get [OF Cons.prems(1) g1] Cons.IH [OF _ r(1)] r(2) show ?thesis by simp
  qed
qed

end

section \<open>The read ring\<close>

definition ring_wf :: "('e, 'x) conn \<Rightarrow> bool" where
  "ring_wf c \<longleftrightarrow> length (read_buf c) = OSTLS_READ_BUF_SIZE \<and> read_pos c < OSTLS_READ_BUF_SIZE
     \<and> read_avail c \<le> OSTLS_READ_BUF_SIZE"

definition ring :: "('e, 'x) conn \<Rightarrow> bytes" where
  "ring c = map (\<lambda>i. byte_at (read_buf c) ((read_pos c + i) mod OSTLS_READ_BUF_SIZE)) [0..<read_avail c]"

definition ring_get :: "nat \<Rightarrow> ('e, 'x) conn \<Rightarrow> ('e, 'x) conn \<times> bytes" where
  "ring_get cap c = (let (c', _, ys) = OSTLS_Read (Some c) (Some cap) in (the c', ys))"

lemma mod_once: "a < 2 * S \<Longrightarrow> a mod S = (if a < S then a else a - S)" for a S :: nat
  by (auto simp: mod_if)

lemma map_upt_append: "map f [0..<m + n] = map f [0..<m] @ map (\<lambda>i. f (m + i)) [0..<n]" for f :: "nat \<Rightarrow> 'a"
  by (induction n) simp_all

lemma ring_put_fifo:
  assumes w: "ring_wf c" and e: "ring_put xs c = (c', n)"
  shows "ring_wf c' \<and> n \<le> length xs \<and> ring c' = ring c @ take n xs"
proof -
  define S pos avail where d: "S = OSTLS_READ_BUF_SIZE" "pos = read_pos c" "avail = read_avail c"
  define idx where "idx = (pos + avail) mod S"
  have S: "0 < S" "pos < S" "avail \<le> S" "length (read_buf c) = S" using w by (simp_all add: ring_wf_def d OSTLS_READ_BUF_SIZE_def)
  have n: "n \<le> length xs" "n \<le> S - avail" "n \<le> S - idx"
    and c': "read_buf c' = wr (read_buf c) idx (take n xs)" "read_avail c' = avail + n" "read_pos c' = pos"
    using e by (auto simp: ring_put_def Let_def d idx_def split: if_splits)
  have idx: "idx = (if pos + avail < S then pos + avail else pos + avail - S)" "idx < S"
    using S by (auto simp: idx_def mod_once)
  have old: "byte_at (read_buf c') ((pos + i) mod S) = byte_at (read_buf c) ((pos + i) mod S)" if "i < avail" for i
  proof -
    have m: "(pos + i) mod S = (if pos + i < S then pos + i else pos + i - S)" using S that by (intro mod_once) simp
    have "(pos + i) mod S < idx \<or> idx + n \<le> (pos + i) mod S"
    proof (cases "pos + avail < S")
      case True
      then show ?thesis using that by (simp add: m idx(1))
    next
      case False
      then have "idx + n \<le> pos" using n(2) S that by (simp add: idx(1))
      moreover have "(pos + i) mod S < idx \<or> pos \<le> (pos + i) mod S"
        using False that S by (cases "pos + i < S") (simp_all add: m idx(1) diff_less_mono)
      ultimately show ?thesis by linarith
    qed
    then show ?thesis using n(1) idx(2) S(4) by (auto simp: c' byte_at_wr)
  qed
  have new: "byte_at (read_buf c') ((pos + (avail + i)) mod S) = take n xs ! i" if "i < n" for i
  proof -
    have "(pos + (avail + i)) mod S = (if pos + (avail + i) < S then pos + (avail + i) else pos + (avail + i) - S)"
      using S n that by (intro mod_once) simp
    also have "\<dots> = idx + i" using idx(1) n(3) that S by (simp split: if_splits)
    finally show ?thesis using n(1) idx(2) S(4) that by (simp add: c' byte_at_wr)
  qed
  have "ring c' = map (\<lambda>i. byte_at (read_buf c') ((pos + i) mod S)) [0..<avail]
      @ map (\<lambda>i. byte_at (read_buf c') ((pos + (avail + i)) mod S)) [0..<n]"
    unfolding ring_def c'(2,3) d(1) [symmetric] by (rule map_upt_append)
  also have "map (\<lambda>i. byte_at (read_buf c') ((pos + i) mod S)) [0..<avail] = ring c"
    by (simp add: ring_def d [symmetric] old)
  also have "map (\<lambda>i. byte_at (read_buf c') ((pos + (avail + i)) mod S)) [0..<n] = take n xs"
    using n(1) by (intro nth_equalityI) (simp_all add: new)
  finally have "ring c' = ring c @ take n xs" .
  moreover have "ring_wf c'" using n S idx(2) by (simp add: ring_wf_def c' d [symmetric])
  ultimately show ?thesis using n(1) by simp
qed

lemma ring_read:
  assumes w: "ring_wf c" and e: "OSTLS_Read (Some c) (Some cap) = (r, err, ys)"
  shows "\<exists>c'. r = Some c' \<and> ring_wf c' \<and> ring c = ys @ ring c' \<and> length ys \<le> cap
    \<and> c' = c\<lparr>read_pos := read_pos c', read_avail := read_avail c'\<rparr>"
proof (cases "c_disposed c \<or> c_state c \<noteq> kOSTLSStateOpen \<and> c_state c \<noteq> kOSTLSStateClosing \<and> c_state c \<noteq> kOSTLSStateClosed
    \<or> cap = 0 \<or> read_avail c = 0")
  case True
  then have "r = Some c" "ys = []" using e by (auto simp: OSTLS_Read_def split: if_splits)
  then show ?thesis using w by simp
next
  case False
  define S pos avail where d: "S = OSTLS_READ_BUF_SIZE" "pos = read_pos c" "avail = read_avail c"
  define n where "n = min cap avail"
  define k where "k = min n (S - pos)"
  define c' where "c' = c\<lparr>read_pos := (pos + n) mod S, read_avail := avail - n\<rparr>"
  have S: "0 < S" "pos < S" "avail \<le> S" "length (read_buf c) = S" "n \<le> avail"
    using w by (simp_all add: ring_wf_def d n_def OSTLS_READ_BUF_SIZE_def)
  have r: "r = Some c'" "ys = rd (read_buf c) pos k @ rd (read_buf c) 0 (n - k)"
    using e False by (auto simp: OSTLS_Read_def Let_def d n_def k_def c'_def min_def split: if_splits)
  have k: "k + (n - k) = n" by (simp add: k_def)
  have "map (\<lambda>i. byte_at (read_buf c) ((pos + i) mod S)) [0..<n] = ys"
  proof -
    have 1: "(pos + i) mod S = pos + i" if "i < k" for i using that S by (intro mod_less) (simp add: k_def, linarith)
    have 2: "(pos + (k + i)) mod S = i" if "i < n - k" for i
      using that S by (subst mod_once) (auto simp: k_def min_def split: if_splits)
    have "map (\<lambda>i. byte_at (read_buf c) ((pos + i) mod S)) [0..<k + (n - k)] = ys"
      unfolding map_upt_append r(2) rd_byte_at by (simp add: 1 2)
    then show ?thesis by (simp add: k)
  qed
  moreover have "ring c = map (\<lambda>i. byte_at (read_buf c) ((pos + i) mod S)) [0..<n]
      @ map (\<lambda>i. byte_at (read_buf c) ((pos + (n + i)) mod S)) [0..<avail - n]"
    using map_upt_append [of _ n "avail - n"] S(5) by (simp add: ring_def d)
  moreover have "map (\<lambda>i. byte_at (read_buf c) ((pos + (n + i)) mod S)) [0..<avail - n] = ring c'"
    by (simp add: ring_def c'_def d [symmetric] mod_add_left_eq add.assoc)
  moreover have "length ys \<le> cap" by (simp add: r(2) k n_def k_def)
  ultimately show ?thesis using S r(1) by (auto simp: c'_def ring_wf_def d)
qed

interpretation read_ring: byte_fifo ring_wf ring ring_put ring_get
proof
  show "ring_wf q' \<and> n \<le> length xs \<and> ring q' = ring q @ take n xs"
    if "ring_wf q" "ring_put xs q = (q', n)" for q q' :: "('e, 'x) conn" and xs n
    using that by (rule ring_put_fifo)
  show "ring_wf q' \<and> ring q = ys @ ring q' \<and> length ys \<le> k"
    if w: "ring_wf q" and g: "ring_get k q = (q', ys)" for q q' :: "('e, 'x) conn" and k ys
  proof -
    obtain r err where e: "OSTLS_Read (Some q) (Some k) = (r, err, ys)" "q' = the r"
      using g by (auto simp: ring_get_def split: prod.splits)
    from ring_read [OF w e(1)] e(2) show ?thesis by auto
  qed
qed

section \<open>The write queue\<close>

definition queue_wf :: "('e, 'x) conn \<Rightarrow> bool" where
  "queue_wf c \<longleftrightarrow> length (write_buf c) = OSTLS_WRITE_BUF_SIZE \<and> write_pos c + write_avail c \<le> OSTLS_WRITE_BUF_SIZE
     \<and> (write_avail c = 0 \<longrightarrow> write_pos c = 0)"

definition queued :: "('e, 'x) conn \<Rightarrow> bytes" where
  "queued c = rd (write_buf c) (write_pos c) (write_avail c)"

definition queue_put :: "bytes \<Rightarrow> ('e, 'x) conn \<Rightarrow> ('e, 'x) conn \<times> nat" where
  "queue_put xs c = (let (c', _, n) = OSTLS_Write (Some c) (Some xs) in (the c', n))"

definition queue_get :: "nat \<Rightarrow> ('e, 'x) conn \<Rightarrow> ('e, 'x) conn \<times> bytes" where
  "queue_get k c = queue_take (min k (write_avail c)) c"

lemma queue_write:
  assumes w: "queue_wf c" and e: "OSTLS_Write (Some c) (Some xs) = (r, err, n)"
  shows "\<exists>c'. r = Some c' \<and> queue_wf c' \<and> n \<le> length xs \<and> queued c' = queued c @ take n xs
    \<and> c' = c\<lparr>write_buf := write_buf c', write_pos := write_pos c', write_avail := write_avail c'\<rparr>"
proof (cases "c_disposed c \<or> c_state c \<noteq> kOSTLSStateOpen \<or> length xs = 0")
  case True
  then have "r = Some c" "n = 0" using e by (auto simp: OSTLS_Write_def split: if_splits)
  then show ?thesis using w by simp
next
  case False
  define S where "S = OSTLS_WRITE_BUF_SIZE"
  define c1 where "c1 = (if 0 < write_pos c \<and> 0 < write_avail c
      then c\<lparr>write_buf := wr (write_buf c) 0 (queued c), write_pos := 0\<rparr> else c)"
  have w': "length (write_buf c) = S" "write_pos c + write_avail c \<le> S" "write_avail c = 0 \<Longrightarrow> write_pos c = 0"
    using w by (simp_all add: queue_wf_def S_def)
  have lq: "length (queued c) = write_avail c" by (simp add: queued_def)
  have c1: "length (write_buf c1) = S" "write_pos c1 = 0" "write_avail c1 = write_avail c" "queued c1 = queued c"
    using w' lq rd_wr_same [of "write_buf c" 0 "queued c"] by (auto simp: c1_def queued_def)
  define k where "k = min (length xs) (S - write_avail c)"
  define c' where "c' = (if k = 0 then c1
      else c1\<lparr>write_buf := wr (write_buf c1) (write_avail c1) (take k xs), write_avail := write_avail c1 + k\<rparr>)"
  have r: "r = Some c'" "n = k"
  proof -
    have "OSTLS_Write (Some c) (Some xs) = (let to_copy = (if length xs < S - write_avail c1 then length xs else S - write_avail c1)
        in if to_copy = 0 then (Some c1, noErr, 0)
           else (Some (c1\<lparr>write_buf := wr (write_buf c1) (write_avail c1) (take to_copy xs),
                           write_avail := write_avail c1 + to_copy\<rparr>), noErr, to_copy))"
      using False by (simp add: OSTLS_Write_def c1_def queued_def S_def Let_def)
    moreover have "(if length xs < S - write_avail c1 then length xs else S - write_avail c1) = k"
      by (simp add: k_def c1(3) min_def)
    ultimately show "r = Some c'" "n = k" using e by (auto simp: Let_def c'_def split: if_splits)
  qed
  have "queued c' = queued c @ take k xs"
  proof -
    have "queued c' = rd (wr (write_buf c1) (write_avail c) (take k xs)) 0 (write_avail c + k)" if "k \<noteq> 0"
      using that by (simp add: queued_def c'_def c1)
    then have "queued c' = rd (write_buf c1) 0 (write_avail c) @ take k xs" if "k \<noteq> 0"
      using that by (simp add: rd_append rd_wr_before rd_wr_same_len k_def)
    then show ?thesis using c1 by (cases "k = 0") (auto simp: queued_def c'_def)
  qed
  moreover have "queue_wf c'" using c1 w' by (auto simp: queue_wf_def c'_def k_def S_def [symmetric])
  moreover have "c' = c\<lparr>write_buf := write_buf c', write_pos := write_pos c', write_avail := write_avail c'\<rparr>"
    by (simp add: c'_def c1_def)
  ultimately show ?thesis using r by (auto simp: k_def)
qed

lemma queue_take_fifo:
  assumes w: "queue_wf c" and n: "n \<le> write_avail c" and e: "queue_take n c = (c', ys)"
  shows "queue_wf c' \<and> queued c = ys @ queued c' \<and> length ys = n
    \<and> c' = c\<lparr>write_pos := write_pos c', write_avail := write_avail c'\<rparr>"
proof -
  have "queued c = rd (write_buf c) (write_pos c) n @ rd (write_buf c) (write_pos c + n) (write_avail c - n)"
    using n rd_append [of "write_buf c" "write_pos c" n "write_avail c - n"] by (simp add: queued_def)
  then show ?thesis using w n e by (auto simp: queue_take_def Let_def queue_wf_def queued_def split: if_splits)
qed

interpretation write_queue: byte_fifo queue_wf queued queue_put queue_get
proof
  show "queue_wf q' \<and> n \<le> length xs \<and> queued q' = queued q @ take n xs"
    if w: "queue_wf q" and g: "queue_put xs q = (q', n)" for q q' :: "('e, 'x) conn" and xs n
  proof -
    obtain r err where e: "OSTLS_Write (Some q) (Some xs) = (r, err, n)" "q' = the r"
      using g by (auto simp: queue_put_def split: prod.splits)
    from queue_write [OF w e(1)] e(2) show ?thesis by auto
  qed
  show "queue_wf q' \<and> queued q = ys @ queued q' \<and> length ys \<le> k"
    if "queue_wf q" "queue_get k q = (q', ys)" for q q' :: "('e, 'x) conn" and k ys
    using queue_take_fifo [OF that(1) _ that(2) [unfolded queue_get_def]] by simp
qed

end
