(* ===== verification/Hs_Psk.thy ===== *)
theory Hs_Psk
  imports Hs_Keys
begin

text \<open>
  Delivery of a handshake message in one record, and what the pre_shared_key extension of a
  ServerHello does when the client offered no ticket: the parser sets \<open>resumption_accepted\<close>
  whatever was offered, the key schedule then runs with the zero PSK (there is no ticket), and
  \<open>RecvEncryptedExtensions\<close> goes to \<open>RecvFinished\<close>. \<open>unsolicited_psk_run\<close> builds, for any server
  public key, the three records with which a peer that knows the ECDHE secret alone brings
  the client past the server's Finished without a certificate.
\<close>

section \<open>One message in one record\<close>

definition sealed_record :: "record_ctx \<Rightarrow> bytes \<Rightarrow> bytes" where
  "sealed_record ctx m = [TLS13_CT_APPLICATION_DATA, 3, 3] @ vec16 (record_seal ctx (m @ [TLS13_CT_HANDSHAKE]))"

lemma get_u16_small:
  assumes "rd b i 2 = put_u16 (word_of_nat n)" "n < 2 ^ 16"
  shows "unat (get_u16 b i) = n"
  using assms by (simp add: get_u16_put unat_of_nat)

lemma first_record_sealed:
  assumes "length m + 17 \<le> HS_BUF"
  shows "first_record (sealed_record ctx m)
     = Some (TLS13_CT_APPLICATION_DATA, record_seal ctx (m @ [TLS13_CT_HANDSHAKE]), [])"
proof -
  define c where "c = record_seal ctx (m @ [TLS13_CT_HANDSHAKE])"
  have lc: "length c = length m + 17" by (simp add: c_def length_record_seal)
  have s: "sealed_record ctx m = [TLS13_CT_APPLICATION_DATA, 3, 3] @ put_u16 (word_of_nat (length c)) @ c"
    by (simp add: sealed_record_def vec16_def c_def)
  have "unat (get_u16 (sealed_record ctx m) 3) = length c"
    by (rule get_u16_small)
       (use assms in \<open>simp_all add: s lc HS_BUF_def rd_def put_u16_def\<close>)
  then show ?thesis
    by (simp add: first_record_def s c_def [symmetric] put_u16_def)
qed

lemma first_message_whole:
  assumes "length m = 4 + unat (get_u24 m 1)" "length m \<le> HS_BUF"
  shows "first_message m = Message m []"
  using assms by (simp add: first_message_def Let_def)

lemma read_one_record:
  assumes ok: "hs_ok hs" and p: "pending hs = []"
    and m: "length m = 4 + unat (get_u24 m 1)" "length m + 17 \<le> HS_BUF"
  shows "\<exists>hs'. tls13_read_encrypted_hs hs (sealed_record (hs_read_ctx hs) m) = (hs', [], kTLS13_OK, byte_at m 0, length m)
     \<and> rd (msg_buf hs') 0 (length m) = m \<and> pending hs' = [] \<and> erase hs' = erase hs \<and> hs_ok hs'
     \<and> hs_read_ctx hs' = (hs_read_ctx hs)\<lparr>rc_seq := rc_seq (hs_read_ctx hs) + 1\<rparr>"
proof -
  let ?c = "hs_read_ctx hs" and ?w = "sealed_record (hs_read_ctx hs) m"
  obtain hs' recv' r ty n where e: "tls13_read_encrypted_hs hs ?w = (hs', recv', r, ty, n)" by (metis prod.collapse)
  have bf: "buf_wf hs" using ok by (simp add: hs_ok_def)
  obtain out where o: "read_stream ?c [] ?w = (hs_read_ctx hs', pending hs', recv', out)"
    "(r, n) = read_result out" and x: "case out of Inl e \<Rightarrow> hs_error hs' = e | Inr None \<Rightarrow> hs_error hs' = hs_error hs
     | Inr (Some m) \<Rightarrow> hs_error hs' = hs_error hs \<and> rd (msg_buf hs') 0 (length m) = m \<and> ty = byte_at (msg_buf hs') 0"
    using read_encrypted_hs_refines [OF bf e] p by auto
  have ct: "TLS13_CT_HANDSHAKE \<noteq> 0" by (simp add: ct_defs)
  obtain buf where d: "tls13_record_decrypt ?c (record_seal ?c (m @ [TLS13_CT_HANDSHAKE])) =
       (?c\<lparr>rc_seq := rc_seq ?c + 1\<rparr>, buf, Some (length m, TLS13_CT_HANDSHAKE))" "take (length m) buf = m"
    using record_padded_roundtrip [OF ct, of ?c m 0] by auto
  have "first_message [] = Need" by (simp add: first_message_def)
  then have rs: "read_stream ?c [] ?w = read_stream (?c\<lparr>rc_seq := rc_seq ?c + 1\<rparr>) m []"
    using m(2) by (subst read_stream.simps)
      (simp add: first_record_sealed length_record_seal d, simp add: ct_defs)
  have "read_stream (?c\<lparr>rc_seq := rc_seq ?c + 1\<rparr>) m [] = (?c\<lparr>rc_seq := rc_seq ?c + 1\<rparr>, [], [], Inr (Some m))"
    using first_message_whole [OF m(1)] m(2) by (subst read_stream.simps) simp
  with rs o(1) have *: "hs_read_ctx hs' = ?c\<lparr>rc_seq := rc_seq ?c + 1\<rparr>" "pending hs' = []" "recv' = []"
    "out = Inr (Some m)" by simp_all
  have "byte_at (msg_buf hs') 0 = byte_at m 0"
    using x * m(1) byte_at_rd [of 0 "length m" "msg_buf hs'" 0] by simp
  with * o(2) x e read_ok(1,2) [OF ok e] show ?thesis by (intro exI [of _ hs']) simp
qed

section \<open>The ServerHello of the attack\<close>

definition psk_server_hello :: "bytes \<Rightarrow> bytes" where
  "psk_server_hello pub =
     [2, 0, 0, 92, 3, 3] @ replicate 32 0 @ [0, 0x13, 0x03, 0, 0, 52, 0, 43, 0, 2, 3, 4,
      0, 51, 0, 36, 0, 0x1D, 0, 32] @ pub @ [0, 41, 0, 2, 0, 0]"

definition psk_info :: "bytes \<Rightarrow> sh_info" where
  "psk_info pub =
     \<lparr>sh_suite = TLS13_CHACHA20_POLY1305_SHA256, sh_is_hrr = False, sh_msg_len = 92,
      found_supported_versions = True, negotiated_version = TLS13_VERSION,
      found_key_share = True, server_share_group = TLS13_GROUP_X25519, server_public = pub\<rparr>"

lemma psk_server_hello_bytes:
  assumes "length pub = 32"
  shows "length (psk_server_hello pub) = 96" "byte_at (psk_server_hello pub) 0 = 2"
    "get_u24 (psk_server_hello pub) 1 = 92" "get_u16 (psk_server_hello pub) 4 = 0x0303"
    "rd (psk_server_hello pub) 6 32 = replicate 32 0" "byte_at (psk_server_hello pub) 38 = 0"
    "get_u16 (psk_server_hello pub) 39 = 0x1303" "byte_at (psk_server_hello pub) 41 = 0"
    "get_u16 (psk_server_hello pub) 42 = 52" "get_u16 (psk_server_hello pub) 44 = 43"
    "get_u16 (psk_server_hello pub) 46 = 2" "get_u16 (psk_server_hello pub) 48 = 0x0304"
    "get_u16 (psk_server_hello pub) 50 = 51" "get_u16 (psk_server_hello pub) 52 = 36"
    "get_u16 (psk_server_hello pub) 54 = 0x1D" "get_u16 (psk_server_hello pub) 56 = 32"
    "rd (psk_server_hello pub) 58 32 = pub" "get_u16 (psk_server_hello pub) 90 = 41"
    "get_u16 (psk_server_hello pub) 92 = 2"
proof -
  define A :: bytes where "A = [2, 0, 0, 92, 3, 3] @ replicate 32 0 @ [0, 0x13, 0x03, 0, 0, 52, 0, 43, 0, 2, 3, 4,
      0, 51, 0, 36, 0, 0x1D, 0, 32]"
  have A: "length A = 58" by (simp add: A_def)
  have s: "psk_server_hello pub = A @ pub @ [0, 41, 0, 2, 0, 0]" by (simp add: psk_server_hello_def A_def)
  have lo: "byte_at (psk_server_hello pub) i = byte_at A i" if "i < 58" for i
    using that by (simp add: s byte_at_append A byte_at_def [of A])
  have hi: "byte_at (psk_server_hello pub) i = byte_at [0, 41, 0, 2, 0, 0] (i - 90)" if "90 \<le> i" for i
  proof -
    have "\<not> i < 58" "\<not> i - 58 < 32" using that by simp_all
    then show ?thesis using assms by (simp add: s byte_at_append A)
  qed
  show "rd (psk_server_hello pub) 58 32 = pub"
    using assms by (simp add: s rd_def A)
  show "length (psk_server_hello pub) = 96" by (simp add: s A assms)
  show "rd (psk_server_hello pub) 6 32 = replicate 32 0"
    unfolding psk_server_hello_def by (simp only: rd_def, simp)
  show "byte_at (psk_server_hello pub) 0 = 2"
    "get_u24 (psk_server_hello pub) 1 = 92" "get_u16 (psk_server_hello pub) 4 = 0x0303"
    "byte_at (psk_server_hello pub) 38 = 0"
    "get_u16 (psk_server_hello pub) 39 = 0x1303" "byte_at (psk_server_hello pub) 41 = 0"
    "get_u16 (psk_server_hello pub) 42 = 52" "get_u16 (psk_server_hello pub) 44 = 43"
    "get_u16 (psk_server_hello pub) 46 = 2" "get_u16 (psk_server_hello pub) 48 = 0x0304"
    "get_u16 (psk_server_hello pub) 50 = 51" "get_u16 (psk_server_hello pub) 52 = 36"
    "get_u16 (psk_server_hello pub) 54 = 0x1D" "get_u16 (psk_server_hello pub) 56 = 32"
    by (simp_all add: get_u16_def get_u24_def lo A_def byte_at_append)
  show "get_u16 (psk_server_hello pub) 90 = 41" "get_u16 (psk_server_hello pub) 92 = 2"
    by (simp_all add: get_u16_def hi)
qed

lemma sh_extensions_psk:
  assumes "length pub = 32"
  shows "sh_extensions hs
      \<lparr>sh_suite = TLS13_CHACHA20_POLY1305_SHA256, sh_is_hrr = False, sh_msg_len = 92,
       found_supported_versions = False, negotiated_version = 0,
       found_key_share = False, server_share_group = 0, server_public = []\<rparr> (psk_server_hello pub) 44 96
    = (hs\<lparr>resumption_accepted := True\<rparr>, Go (psk_info pub))"
proof -
  note B = psk_server_hello_bytes [OF assms]
  let ?m = "psk_server_hello pub"
  have e: "sh_extension hs sh ?m 43 48 2 = (hs, Go (sh\<lparr>negotiated_version := TLS13_VERSION, found_supported_versions := True\<rparr>))" for sh
    by (simp add: sh_extension_def ext_defs B version_defs)
  have k: "sh_extension hs sh ?m 51 54 36
      = (hs, Go (sh\<lparr>server_share_group := TLS13_GROUP_X25519, server_public := pub, found_key_share := True\<rparr>))" for sh
    by (simp add: sh_extension_def ext_defs B group_defs tls13_br_curve_for_group_def Let_def)
  have q: "sh_extension hs sh ?m 41 94 2 = (hs\<lparr>resumption_accepted := True\<rparr>, Go sh)" for sh
    by (simp add: sh_extension_def ext_defs)
  show ?thesis
    by (subst sh_extensions.simps, simp add: B e Let_def,
        subst sh_extensions.simps, simp add: B k Let_def,
        subst sh_extensions.simps, simp add: B q Let_def,
        subst sh_extensions.simps, simp add: psk_info_def)
qed

lemma sh_parse_psk:
  assumes "length pub = 32"
  shows "sh_parse hs (psk_server_hello pub) = (hs\<lparr>resumption_accepted := True\<rparr>, Go (psk_info pub))"
proof -
  note B = psk_server_hello_bytes [OF assms]
  have r: "replicate 32 0 \<noteq> hrr_random" by (simp add: hrr_random_def numeral_eq_Suc)
  show ?thesis
    by (simp add: sh_parse_def Let_def B B(3) [unfolded One_nat_def] ht_defs version_defs r)
       (use sh_extensions_psk [OF assms, of hs] in \<open>simp add: suite_defs\<close>)
qed

definition hello_record :: "bytes \<Rightarrow> bytes" where
  "hello_record m = [TLS13_CT_HANDSHAKE, 3, 3] @ vec16 m"

lemma recv_hello_record:
  assumes "length m < 2 ^ 16"
  shows "tls13_state_recv_server_hello P hs (hello_record m)
     = (let (hs, r) = tls13_parse_server_hello P hs m in (hs, [], r))"
proof -
  have s: "hello_record m = [TLS13_CT_HANDSHAKE, 3, 3] @ put_u16 (word_of_nat (length m)) @ m"
    by (simp add: hello_record_def vec16_def)
  have l: "unat (get_u16 (hello_record m) 3) = length m"
    by (rule get_u16_small) (use assms in \<open>simp_all add: s rd_def put_u16_def\<close>)
  have "rd (hello_record m) 5 (length m) = m"
    by (simp add: s rd_def put_u16_def)
  then show ?thesis
    using l by (simp add: tls13_state_recv_server_hello_def Let_def s ct_defs split_beta)
qed

section \<open>The run\<close>

lemma psk_hello_step:
  assumes ok: "hs_ok hs" and st: "hs_state hs = kTLS13_RecvServerHello" and m: "transcript_repr (hs_transcript hs) SHA256 m"
    and tk: "offer_ticket hs = None" and g: "ecdhe_group hs = TLS13_GROUP_X25519"
    and pub: "length pub = 32" and x: "p_ec_mul P 29 pub (rd (ecdhe_secret hs) 0 (ecdhe_secret_len hs)) = Some point"
  shows "\<exists>h. tls13_handshake_step P hs (hello_record (psk_server_hello pub)) host = (h, [], kTLS13_OK)
     \<and> hs_state h = kTLS13_RecvEncryptedExtensions \<and> resumption_accepted h
     \<and> transcript_repr (hs_transcript h) SHA256 (m @ psk_server_hello pub) \<and> ks_wf SHA256 (hs_ks h)
     \<and> hs_x509 h = hs_x509 hs \<and> server_pkey h = server_pkey hs \<and> pending h = pending hs
     \<and> msg_len h = msg_len hs \<and> msg_offset h = msg_offset hs \<and> offer_ticket h = None"
proof -
  let ?sh = "psk_server_hello pub"
  define h0 where "h0 = hs\<lparr>resumption_accepted := True, hs_cipher_suite := TLS13_CHACHA20_POLY1305_SHA256, is_tls13 := True\<rparr>"
  define t where "t = tls13_transcript_update (hs_transcript hs) ?sh"
  have h0: "hs_ok h0" "transcript_repr (hs_transcript h0) SHA256 m" using ok m by (simp_all add: h0_def)
  have a: "t_hash (hs_transcript hs) = SHA256" using m by (simp add: transcript_repr_def)
  have hash: "tls13_hash_for_suite TLS13_CHACHA20_POLY1305_SHA256 = SHA256"
    "tls13_key_len_for_suite TLS13_CHACHA20_POLY1305_SHA256 \<noteq> 0"
    by (simp_all add: tls13_hash_for_suite_def tls13_key_len_for_suite_def suite_defs)
  have dhe: "tls13_ecdh_shared P TLS13_GROUP_X25519 (rd (ecdhe_secret hs) 0 (ecdhe_secret_len hs)) pub
      = Some (rd point 0 32)"
    using x pub by (auto simp: tls13_ecdh_shared_def tls13_br_curve_for_group_def tls13_ecdh_secret_len_def Let_def)
  have whole: "rd ?sh 0 (sh_msg_len (psk_info pub) + 4) = ?sh"
    using psk_server_hello_bytes(1) [OF pub] by (simp add: psk_info_def rd_full)
  define h where "h = (sh_install_keys (h0\<lparr>hs_transcript := t\<rparr>) TLS13_CHACHA20_POLY1305_SHA256 (rd point 0 32))
      \<lparr>ecdhe_secret := replicate 64 0\<rparr>"
  have reg: "sh_regular P h0 (psk_info pub) ?sh = (h, kTLS13_OK)"
    using dhe hash(1) a g whole by (simp add: sh_regular_def psk_info_def h0_def t_def h_def Let_def)
  have "tls13_parse_server_hello P hs ?sh = (h, kTLS13_OK)"
    using reg hash(2) by (simp add: tls13_parse_server_hello_def sh_parse_psk [OF pub] sh_finish_def Let_def h0_def)
       (simp add: psk_info_def version_defs)
  then have step: "tls13_handshake_step P hs (hello_record ?sh) host = (h\<lparr>hs_state := kTLS13_RecvEncryptedExtensions\<rparr>, [], kTLS13_OK)"
    using st psk_server_hello_bytes(1) [OF pub] by (simp add: tls13_handshake_step_def recv_hello_record)
  have K: "transcript_repr (hs_transcript h) SHA256 (m @ ?sh)" "ks_wf SHA256 (hs_ks h)"
    using server_hello_keys(1,5) [OF h0 reg] whole by auto
  have same: "resumption_accepted h" "hs_x509 h = hs_x509 hs" "server_pkey h = server_pkey hs" "pending h = pending hs"
    "msg_len h = msg_len hs" "msg_offset h = msg_offset hs" "offer_ticket h = None"
    by (simp_all add: h_def h0_def sh_install_keys_def Let_def pending_def tk)
  show ?thesis using step K same by (intro exI [of _ "h\<lparr>hs_state := kTLS13_RecvEncryptedExtensions\<rparr>"]) (simp add: pending_def)
qed

definition empty_encrypted_extensions :: bytes where
  "empty_encrypted_extensions = [8, 0, 0, 2, 0, 0]"

lemma erase_msg:
  assumes "erase hs' = erase hs"
  shows "msg_len hs' = msg_len hs" "msg_offset hs' = msg_offset hs"
  using arg_cong [OF assms, of msg_len] arg_cong [OF assms, of msg_offset] by (simp_all add: erase_def)

lemma encrypted_extensions_step:
  assumes ok: "hs_ok hs" and st: "hs_state hs = kTLS13_RecvEncryptedExtensions" and p: "pending hs = []"
  defines "w \<equiv> sealed_record (hs_read_ctx hs) empty_encrypted_extensions"
  shows "\<exists>h. tls13_handshake_step P hs w host = (h, [], kTLS13_OK)
     \<and> hs_state h = (if resumption_accepted hs then kTLS13_RecvFinished else kTLS13_RecvCertRequestOrCert)
     \<and> hs_transcript h = tls13_transcript_update (hs_transcript hs) empty_encrypted_extensions
     \<and> hs_ks h = hs_ks hs \<and> hs_x509 h = hs_x509 hs \<and> server_pkey h = server_pkey hs \<and> pending h = []
     \<and> server_hs_secret h = server_hs_secret hs \<and> resumption_accepted h = resumption_accepted hs
     \<and> msg_len h = msg_len hs \<and> msg_offset h = msg_offset hs \<and> offer_ticket h = offer_ticket hs"
proof -
  let ?m = "empty_encrypted_extensions"
  have m: "length ?m = 4 + unat (get_u24 ?m 1)" "length ?m + 17 \<le> HS_BUF"
    by (simp_all add: empty_encrypted_extensions_def get_u24_def HS_BUF_def)
  obtain g where g: "tls13_read_encrypted_hs hs w = (g, [], kTLS13_OK, byte_at ?m 0, length ?m)"
    "rd (msg_buf g) 0 (length ?m) = ?m" "pending g = []" "erase g = erase hs"
    using read_one_record [OF ok p m] unfolding w_def by blast
  note f = erase_frame [OF g(4)] erase_msg [OF g(4)]
  have l: "length ?m = 6" by (simp add: empty_encrypted_extensions_def)
  have b: "unat (get_u24 (msg_buf g) 1) = 2" "unat (get_u16 (msg_buf g) 4) = 0"
    using get_u24_rd [of 1 6 "msg_buf g" 0] get_u16_rd [of 4 6 "msg_buf g" 0] g(2)
    by (simp_all add: l) (simp_all add: empty_encrypted_extensions_def get_u24_def get_u16_def)
  have "tls13_state_recv_encrypted_extensions hs w =
     (g\<lparr>hs_transcript := tls13_transcript_update (hs_transcript g) ?m,
        hs_state := (if resumption_accepted g then kTLS13_RecvFinished else kTLS13_RecvCertRequestOrCert)\<rparr>, [], kTLS13_OK)"
    using b g(2) by (simp add: tls13_state_recv_encrypted_extensions_def g(1) Let_def l ht_defs)
      (simp add: empty_encrypted_extensions_def)
  then show ?thesis
    using st f g(3) by (simp add: tls13_handshake_step_def pending_def)
qed

lemma finished_step:
  assumes ok: "hs_ok hs" and st: "hs_state hs = kTLS13_RecvFinished" and p: "pending hs = []"
    and m: "transcript_repr (hs_transcript hs) a m" and ks: "ks_wf a (hs_ks hs)"
  defines "F \<equiv> [20] @ vec24 (finished_spec a (rd (server_hs_secret hs) 0 (br_digest_size a)) m)"
  shows "\<exists>h. tls13_handshake_step P hs (sealed_record (hs_read_ctx hs) F) host = (h, [], kTLS13_OK)
     \<and> hs_state h = kTLS13_SendFinished \<and> hs_x509 h = hs_x509 hs \<and> server_pkey h = server_pkey hs
     \<and> msg_len h = msg_len hs \<and> msg_offset h = msg_offset hs \<and> offer_ticket h = offer_ticket hs
     \<and> hs_transcript h = tls13_transcript_update (hs_transcript hs) F \<and> resumption_accepted h = resumption_accepted hs"
proof -
  let ?d = "br_digest_size a" and ?w = "sealed_record (hs_read_ctx hs) F"
  define v where "v = finished_spec a (rd (server_hs_secret hs) 0 ?d) m"
  have v: "length v = ?d" by (simp add: v_def finished_spec_def)
  have F: "F = [20] @ put_u24 (word_of_nat ?d) @ v" "length F = 4 + ?d"
    by (simp_all add: F_def v_def [symmetric] vec24_def v)
  have ud: "unat (word_of_nat ?d :: u32) = ?d" by (cases a) simp_all
  have dl: "?d < 2 ^ 24" by (cases a) simp_all
  have u: "get_u24 F 1 = word_of_nat ?d"
    by (rule get_u24_put) (use ud dl in \<open>simp_all add: F(1) rd_def put_u24_def\<close>)
  have ml: "length F = 4 + unat (get_u24 F 1)" "length F + 17 \<le> HS_BUF"
    using u ud by (cases a; simp add: F(2) HS_BUF_def)+
  obtain g where g: "tls13_read_encrypted_hs hs ?w = (g, [], kTLS13_OK, byte_at F 0, length F)"
    "rd (msg_buf g) 0 (length F) = F" "pending g = []" "erase g = erase hs"
    using read_one_record [OF ok p ml] by blast
  note f = erase_frame [OF g(4)] erase_msg [OF g(4)]
  have t: "t_hash (hs_transcript g) = a" "t_hash_len (hs_transcript g) = ?d"
    using m f(3) by (simp_all add: transcript_repr_def)
  have b: "unat (get_u24 (msg_buf g) 1) = ?d"
    using get_u24_rd [of 1 "length F" "msg_buf g" 0] g(2) u ud F(2) by simp
  have "drop 4 F = v" by (simp add: F(1) put_u24_def)
  then have "drop 4 (rd (msg_buf g) 0 (4 + ?d)) = v" using g(2) F(2) by simp
  then have vd: "rd (drop 4 (msg_buf g)) 0 ?d = v" by (simp add: drop_rd rd_drop)
  have mac: "finished_mac a ?d (tls13_ks_derive_finished_key (hs_ks g) (server_hs_secret g))
      (tls13_transcript_snapshot (hs_transcript g)) = v"
    using finished_mac_eq [OF ks m] f by (simp add: v_def)
  have "tls13_state_recv_finished hs ?w = (rf_install_keys g ?d, [], kTLS13_OK)"
    using b t mac vd v
    by (simp add: tls13_state_recv_finished_def g(1) Let_def F(2) ct_memcmp_zero rd_full ht_defs)
       (simp add: F(1))
  then show ?thesis
    using st f g(2) F(2) by (simp add: tls13_handshake_step_def) (simp add: rf_install_keys_def Let_def)
qed

lemma unsolicited_psk_run:
  assumes ok: "hs_ok hs" and st: "hs_state hs = kTLS13_RecvServerHello" and m: "transcript_repr (hs_transcript hs) SHA256 m"
    and tk: "offer_ticket hs = None" and g: "ecdhe_group hs = TLS13_GROUP_X25519" and p: "pending hs = []"
    and pub: "length pub = 32" and x: "p_ec_mul P 29 pub (rd (ecdhe_secret hs) 0 (ecdhe_secret_len hs)) = Some point"
  shows "\<exists>r1 r2 r3 h1 h2 h3. tls13_handshake_step P hs r1 host = (h1, [], kTLS13_OK)
     \<and> tls13_handshake_step P h1 r2 host = (h2, [], kTLS13_OK)
     \<and> tls13_handshake_step P h2 r3 host = (h3, [], kTLS13_OK)
     \<and> hs_state h3 = kTLS13_SendFinished \<and> hs_x509 h3 = hs_x509 hs \<and> server_pkey h3 = server_pkey hs"
proof -
  obtain h1 where h1: "tls13_handshake_step P hs (hello_record (psk_server_hello pub)) host = (h1, [], kTLS13_OK)"
    "hs_state h1 = kTLS13_RecvEncryptedExtensions" "resumption_accepted h1"
    "transcript_repr (hs_transcript h1) SHA256 (m @ psk_server_hello pub)" "ks_wf SHA256 (hs_ks h1)"
    "hs_x509 h1 = hs_x509 hs" "server_pkey h1 = server_pkey hs" "pending h1 = []"
    using psk_hello_step [OF ok st m tk g pub x, of host] p by auto
  have ok1: "hs_ok h1" by (rule step_keeps_ok [OF ok h1(1)])
  obtain r2 h2 where h2: "tls13_handshake_step P h1 r2 host = (h2, [], kTLS13_OK)"
    "hs_state h2 = kTLS13_RecvFinished" "hs_ks h2 = hs_ks h1" "hs_x509 h2 = hs_x509 h1"
    "hs_transcript h2 = tls13_transcript_update (hs_transcript h1) empty_encrypted_extensions"
    "server_pkey h2 = server_pkey h1" "pending h2 = []"
    using encrypted_extensions_step [OF ok1 h1(2,8), of P host] h1(3) by auto
  have ok2: "hs_ok h2" by (rule step_keeps_ok [OF ok1 h2(1)])
  have t2: "transcript_repr (hs_transcript h2) SHA256 ((m @ psk_server_hello pub) @ empty_encrypted_extensions)"
    unfolding h2(5) by (rule transcript_repr_update [OF h1(4)])
  have k2: "ks_wf SHA256 (hs_ks h2)" using h1(5) h2(3) by simp
  obtain r3 h3 where "tls13_handshake_step P h2 r3 host = (h3, [], kTLS13_OK)"
    "hs_state h3 = kTLS13_SendFinished" "hs_x509 h3 = hs_x509 h2" "server_pkey h3 = server_pkey h2"
    using finished_step [OF ok2 h2(2,7) t2 k2, of P host] by blast
  with h1 h2 show ?thesis by metis
qed

end
