(* ===== verification/Hs_Run.thy ===== *)
theory Hs_Run
  imports Hs_Psk
begin

text \<open>
  Runs from a fresh context. The ClientHello of a fresh context always fits its buffer
  (\<open>first_hello_step\<close>), so the handshake gets under way whenever the key generator works; and
  with the unsolicited pre_shared_key of \<open>Hs_Psk\<close> it runs to its end against a server that
  proved nothing (\<open>fresh_psk_run\<close>). \<open>sample_prims\<close> is a concrete instance of the primitives
  for closed examples.
\<close>

unbundle bit_operations_syntax

section \<open>The first ClientHello\<close>

lemma length_ch_exts:
  assumes "hs_cookie_len hs = 0"
  shows "length (ch_exts hs hostname) = 79 + length hostname + ecdhe_public_len hs"
proof -
  have "rd (hs_cookie hs) 0 (hs_cookie_len hs) = []" using assms by simp
  then show ?thesis by (simp add: ch_exts_def ch_extensions_spec_def)
qed

lemma client_hello_fits:
  assumes ok: "hs_ok hs0" and tk: "offer_ticket hs0 = None" and c: "hs_cookie_len hs0 = 0"
    and host: "length hostname \<le> 16000"
  shows "\<exists>hs rng'. tls13_build_client_hello hs0 hostname rng = (hs, rng', True)"
proof -
  obtain p1 p2 st where f: "ch_write_front hs0 rng = (p1, p2, st)" by (metis prod.collapse)
  obtain hs1 rng1 pos ok where e: "ch_write_extensions hs0 hostname st = (hs1, rng1, pos, ok)"
    by (metis prod.collapse)
  have buf: "length (msg_buf hs0) = HS_BUF" using ok by (simp add: hs_ok_defs buf_wf_def)
  obtain rr ss g1 g2 g3 where g: "length g1 = 2" "length g2 = 3" "length g3 = 2" and
    w: "ch_ok (hs0\<lparr>ch_random := rr, ch_session_id := ss, ch_fields_valid := True\<rparr>) (hs1, rng1, pos, ok)
       ([22, 3, 1] @ g1 @ [1] @ g2 @ ch_front (rd rr 0 32) (rd ss 0 32) @ g3 @ ch_exts hs0 hostname)"
    using ch_written [OF buf f e] by blast
  have l: "length (ch_front (rd rr 0 32) (rd ss 0 32)) = 83" by (rule length_ch_front) simp_all
  have "ecdhe_public_len hs0 \<le> 133" using ok by (simp add: hs_ok_defs)
  then have "length ([22, 3, 1] @ g1 @ [1] @ g2 @ ch_front (rd rr 0 32) (rd ss 0 32) @ g3 @ ch_exts hs0 hostname) \<le> HS_BUF"
    using g l host by (simp add: length_ch_exts [OF c] HS_BUF_def)
  then have "ok" using w by (simp add: ch_ok_def)
  moreover have "offer_ticket hs1 = None"
  proof -
    have h: "hs1 = (hs0\<lparr>ch_random := rr, ch_session_id := ss, ch_fields_valid := True\<rparr>)\<lparr>msg_buf := msg_buf hs1\<rparr>"
      using w \<open>ok\<close> by (simp add: ch_ok_def)
    show ?thesis using arg_cong [OF h, of offer_ticket] tk by simp
  qed
  ultimately show ?thesis by (simp add: tls13_build_client_hello_def f e tk Let_def)
qed

lemma generate_x25519:
  assumes "p_ec_keygen P 29 rng = (Some x, rng')" "p_ec_compute_pub P 29 x = Some pub"
    "length x \<le> 64" "length pub \<le> 133"
  shows "tls13_generate_keypair P hs TLS13_GROUP_X25519 rng =
     (hs\<lparr>ecdhe_secret := wr (ecdhe_secret hs) 0 x, ecdhe_secret_len := length x,
         ecdhe_public := wr (ecdhe_public hs) 0 pub, ecdhe_public_len := length pub,
         ecdhe_group := TLS13_GROUP_X25519\<rparr>, rng', True)"
  using assms by (simp add: tls13_generate_keypair_def tls13_br_curve_for_group_def)

text \<open>A context as the connection layer hands it over: initialised, with an engine and perhaps no
  ticket.\<close>

definition fresh_ctx :: "'x \<Rightarrow> ssl_engine \<Rightarrow> 'x hs_ctx" where
  "fresh_ctx xc eng = (tls13_handshake_init xc)\<lparr>hs_eng := Some eng\<rparr>"

lemma fresh_ctx_ok: "hs_ok (fresh_ctx xc eng)"
  using hs_ok_init by (simp add: fresh_ctx_def)

text \<open>What X25519 does with 32-byte scalars and points: it makes a key pair, and a multiplication of a
  32-byte point by a 32-byte scalar succeeds.\<close>

definition mul_works :: "'x prims \<Rightarrow> bool" where
  "mul_works P \<longleftrightarrow> (\<forall>q x. length q = 32 \<longrightarrow> length x = 32 \<longrightarrow> (\<exists>point. p_ec_mul P 29 q x = Some point))"

definition keygen_works :: "'x prims \<Rightarrow> bool" where
  "keygen_works P \<longleftrightarrow> (\<forall>rng. \<exists>x rng' pub. p_ec_keygen P 29 rng = (Some x, rng')
     \<and> p_ec_compute_pub P 29 x = Some pub \<and> length x = 32 \<and> length pub = 32)"

lemma first_hello_step:
  assumes P: "keygen_works P" and host: "length hostname \<le> 16000"
  shows "\<exists>hs m. tls13_handshake_step P (fresh_ctx xc eng) recv hostname = (hs, recv, kTLS13_WantWrite)
     \<and> hs_state hs = kTLS13_RecvServerHello \<and> transcript_repr (hs_transcript hs) SHA256 m
     \<and> take (msg_len hs) (msg_buf hs) = ch_record_spec m \<and> msg_offset hs = 0
     \<and> ecdhe_group hs = TLS13_GROUP_X25519 \<and> offer_ticket hs = None \<and> pending hs = [] \<and> hs_x509 hs = xc
     \<and> server_pkey hs = NoKey \<and> ecdhe_secret_len hs = 32"
proof -
  let ?hs = "fresh_ctx xc eng"
  define eng1 where "eng1 = (if eng_rng_init_done eng then eng else p_inject_entropy P eng)"
  define sr where "sr = br_hmac_drbg_generate (eng_rng eng1) 32"
  define h1 where "h1 = ?hs\<lparr>hs_eng := Some (eng1\<lparr>eng_rng := snd sr\<rparr>),
     hs_transcript := tls13_transcript_init (hs_transcript ?hs) SHA256\<rparr>"
  obtain x g pub where kg: "p_ec_keygen P 29 (br_hmac_drbg_init SHA256 (fst sr)) = (Some x, g)"
    "p_ec_compute_pub P 29 x = Some pub" "length x = 32" "length pub = 32"
    using P unfolding keygen_works_def by blast
  obtain h2 where h2: "h2 = h1\<lparr>ecdhe_secret := wr (ecdhe_secret h1) 0 x, ecdhe_secret_len := length x,
         ecdhe_public := wr (ecdhe_public h1) 0 pub, ecdhe_public_len := length pub,
         ecdhe_group := TLS13_GROUP_X25519\<rparr>" by blast
  have k: "tls13_generate_keypair P h1 TLS13_GROUP_X25519 (br_hmac_drbg_init SHA256 (fst sr)) = (h2, g, True)"
    unfolding h2 by (rule generate_x25519 [OF kg(1,2)]) (simp_all add: kg)
  have t1: "transcript_repr (hs_transcript h1) SHA256 []"
    using fresh_ctx_ok [of xc eng] by (auto simp: h1_def hs_ok_defs intro!: transcript_repr_init)
  have "hs_ok h1"
    using hs_ok_retry(2) [of "?hs\<lparr>hs_eng := Some (eng1\<lparr>eng_rng := snd sr\<rparr>)\<rparr>" "hs_transcript h1"] t1 fresh_ctx_ok [of xc eng]
    by (auto simp: h1_def transcript_wf_def transcript_repr_def)
  then have ok2: "hs_ok h2" by (rule generate_keypair_ok(1) [OF _ k])
  have s2: "offer_ticket h2 = None" "hs_cookie_len h2 = 0" "hs_transcript h2 = hs_transcript h1" "resuming h2 = False"
    "hs_x509 h2 = xc" "server_pkey h2 = NoKey" "ecdhe_group h2 = TLS13_GROUP_X25519" "plain_len h2 = 0" "ecdhe_secret_len h2 = 32"
    by (simp_all add: kg add: h2 h1_def fresh_ctx_def tls13_handshake_init_def)
  obtain h3 g3 where b: "tls13_build_client_hello h2 hostname g = (h3, g3, True)"
    using client_hello_fits [OF ok2 s2(1,2) host] by blast
  have buf: "length (msg_buf h2) = HS_BUF" using ok2 by (simp add: hs_ok_defs buf_wf_def)
  have len: "t_hash_len (hs_transcript h2) = br_digest_size SHA256" using t1 s2(3) by (simp add: transcript_repr_def)
  obtain rr ss m where c: "ch_built h2 rr ss h3 m"
    using build_client_hello_ok [OF buf len b] by blast
  have r1: "\<not> hrr_received h1" by (simp add: h1_def fresh_ctx_def tls13_handshake_init_def)
  have e: "tls13_state_send_client_hello P ?hs hostname = (h3, kTLS13_WantWrite)"
    using k b r1 by (simp add: tls13_state_send_client_hello_def fresh_ctx_def tls13_handshake_init_def Let_def split_beta
      eng1_def [symmetric] sr_def [symmetric] h1_def [unfolded fresh_ctx_def tls13_handshake_init_def, simplified, symmetric])
  have h3: "h3 = h2\<lparr>ch_random := rr, ch_session_id := ss, ch_fields_valid := True, msg_buf := msg_buf h3,
     msg_len := msg_len h3, msg_offset := 0, hs_transcript := tls13_transcript_update (hs_transcript h2) m\<rparr>"
    and rec: "take (msg_len h3) (msg_buf h3) = ch_record_spec m"
    using c unfolding ch_built_def by blast+
  have f3: "hs_transcript h3 = tls13_transcript_update (hs_transcript h2) m" "msg_offset h3 = 0"
    "ecdhe_group h3 = TLS13_GROUP_X25519" "offer_ticket h3 = None" "plain_len h3 = 0" "hs_x509 h3 = xc" "server_pkey h3 = NoKey" "ecdhe_secret_len h3 = 32"
    using arg_cong [OF h3, of hs_transcript] arg_cong [OF h3, of ecdhe_secret_len] arg_cong [OF h3, of msg_offset] arg_cong [OF h3, of ecdhe_group]
      arg_cong [OF h3, of offer_ticket] arg_cong [OF h3, of plain_len] arg_cong [OF h3, of hs_x509]
      arg_cong [OF h3, of server_pkey] s2
    by simp_all
  have "transcript_repr (hs_transcript h3) SHA256 m"
    using transcript_repr_update [OF t1, of m] by (simp add: f3(1) s2(3))
  then show ?thesis
    using e rec f3 by (intro exI [of _ "h3\<lparr>hs_state := kTLS13_RecvServerHello\<rparr>"] exI [of _ m])
      (simp add: tls13_handshake_step_def fresh_ctx_def tls13_handshake_init_def pending_def)
qed

section \<open>A run against a server that proved nothing\<close>

text \<open>From a fresh context that offers no ticket, four messages take the client to its last
  state although no certificate was looked at: the X.509 engine is untouched and the server key
  is still the empty one. What the server needs is a public value of 32 bytes.\<close>

lemma fresh_psk_run:
  fixes pub :: bytes
  assumes P: "keygen_works P" and mul: "mul_works P"
    and host: "length hostname \<le> 16000" and pub: "length pub = 32"
  shows "\<exists>n hs. reaches P hostname (fresh_ctx xc eng) n hs \<and> hs_state hs = kTLS13_SendFinished
     \<and> hs_x509 hs = xc \<and> server_pkey hs = NoKey"
proof -
  obtain h m where h: "tls13_handshake_step P (fresh_ctx xc eng) [] hostname = (h, [], kTLS13_WantWrite)"
    "hs_state h = kTLS13_RecvServerHello" "transcript_repr (hs_transcript h) SHA256 m" "ecdhe_group h = TLS13_GROUP_X25519"
    "offer_ticket h = None" "pending h = []" "hs_x509 h = xc" "server_pkey h = NoKey" "ecdhe_secret_len h = 32"
    using first_hello_step [OF P host, of xc eng "[]"] by blast
  have ok: "hs_ok h" by (rule step_keeps_ok [OF fresh_ctx_ok h(1)])
  have "\<exists>point. p_ec_mul P 29 pub (rd (ecdhe_secret h) 0 (ecdhe_secret_len h)) = Some point"
    using mul pub by (simp add: mul_works_def h(9))
  then obtain point where x: "p_ec_mul P 29 pub (rd (ecdhe_secret h) 0 (ecdhe_secret_len h)) = Some point" ..
  obtain r1 r2 r3 h1 h2 h3 where s: "tls13_handshake_step P h r1 hostname = (h1, [], kTLS13_OK)"
    "tls13_handshake_step P h1 r2 hostname = (h2, [], kTLS13_OK)" "tls13_handshake_step P h2 r3 hostname = (h3, [], kTLS13_OK)"
    "hs_state h3 = kTLS13_SendFinished" "hs_x509 h3 = hs_x509 h" "server_pkey h3 = server_pkey h"
    using unsolicited_psk_run [OF ok h(2,3,5,4,6) pub x, of hostname] by blast
  obtain n where "reaches P hostname (fresh_ctx xc eng) n h3"
    using reaches.step [OF reaches.step [OF reaches.step [OF reaches.step [OF reaches.start h(1)] s(1)] s(2)] s(3)] by blast
  with s(4,5,6) h(7,8) show ?thesis by (intro exI [of _ n] exI [of _ h3]) simp
qed

section \<open>A concrete instance of the primitives\<close>

definition sample_prims :: "unit prims" where
  "sample_prims =
     \<lparr>p_inject_entropy = (\<lambda>e. e\<lparr>eng_rng_init_done := True\<rparr>),
      p_ec_keygen = (\<lambda>c rng. let (x, rng) = br_hmac_drbg_generate rng 32 in (Some x, rng)),
      p_ec_compute_pub = (\<lambda>c x. Some x),
      p_ec_mul = (\<lambda>c q x. Some (xorbuf q x)),
      p_rsa_pss_vrfy = (\<lambda>s a h pk. 1),
      p_ecdsa_vrfy = (\<lambda>h pk s. 1),
      p_start_chain = (\<lambda>x h. x),
      p_start_cert = (\<lambda>x n. x),
      p_append = (\<lambda>x b. x),
      p_end_cert = (\<lambda>x. x),
      p_end_chain = (\<lambda>x. (x, 0)),
      p_get_pkey = (\<lambda>x. Some NoKey)\<rparr>"

definition sample_engine :: ssl_engine where
  "sample_engine = \<lparr>eng_rng = br_hmac_drbg_init SHA256 [1, 2, 3], eng_rng_init_done = False\<rparr>"

lemma sample_keygen: "keygen_works sample_prims"
  using length_drbg_32 by (auto simp: keygen_works_def sample_prims_def split_beta)

lemma sample_mul: "mul_works sample_prims"
  by (simp add: mul_works_def sample_prims_def)

lemma sample_run:
  "\<exists>n hs. reaches sample_prims (ascii ''example.org'') (fresh_ctx () sample_engine) n hs \<and> hs_state hs = kTLS13_SendFinished"
  using fresh_psk_run [OF sample_keygen sample_mul, of "ascii ''example.org''" "replicate 32 9" "()" sample_engine] by auto

lemma sample_hello:
  "\<exists>hs m. tls13_handshake_step sample_prims (fresh_ctx () sample_engine) [] (ascii ''example.org'') = (hs, [], kTLS13_WantWrite)
     \<and> hs_state hs = kTLS13_RecvServerHello \<and> transcript_repr (hs_transcript hs) SHA256 m \<and> hs_ok hs
     \<and> ecdhe_group hs = TLS13_GROUP_X25519 \<and> offer_ticket hs = None \<and> pending hs = []"
proof -
  have "length (ascii ''example.org'') \<le> 16000" by simp
  from first_hello_step [OF sample_keygen this, of "()" sample_engine "[]"]
  show ?thesis using step_keeps_ok [OF fresh_ctx_ok, of sample_prims] by metis
qed

text \<open>A context in a later state, over an empty transcript.\<close>

definition sample_ctx :: "tls13_hs_state \<Rightarrow> unit hs_ctx" where
  "sample_ctx st = (fresh_ctx () sample_engine)\<lparr>hs_state := st,
     hs_transcript := tls13_transcript_init (hs_transcript (fresh_ctx () sample_engine)) SHA256,
     hs_ks := tls13_ks_init (hs_ks (fresh_ctx () sample_engine)) SHA256,
     ecdhe_group := TLS13_GROUP_X25519, ecdhe_secret_len := 32, hs_cipher_suite := TLS13_CHACHA20_POLY1305_SHA256\<rparr>"

lemma sample_ctx_facts:
  "hs_state (sample_ctx st) = st" "transcript_repr (hs_transcript (sample_ctx st)) SHA256 []"
  "ks_wf SHA256 (hs_ks (sample_ctx st))" "pending (sample_ctx st) = []" "hs_ok (sample_ctx st)"
  "ecdhe_group (sample_ctx st) = TLS13_GROUP_X25519" "offer_ticket (sample_ctx st) = None"
proof -
  show "hs_state (sample_ctx st) = st" "pending (sample_ctx st) = []"
    "ecdhe_group (sample_ctx st) = TLS13_GROUP_X25519" "offer_ticket (sample_ctx st) = None"
    by (simp_all add: sample_ctx_def pending_def fresh_ctx_def tls13_handshake_init_def)
  have f: "hs_ok (fresh_ctx () sample_engine)" by (rule fresh_ctx_ok)
  have t: "transcript_repr (tls13_transcript_init (hs_transcript (fresh_ctx () sample_engine)) SHA256) SHA256 []"
    by (rule transcript_repr_init) (use f in \<open>simp_all add: hs_ok_defs\<close>)
  then show "transcript_repr (hs_transcript (sample_ctx st)) SHA256 []" by (simp add: sample_ctx_def)
  have e: "length (ks_empty_hash (hs_ks (fresh_ctx () sample_engine))) = 64" using f by (simp add: hs_ok_defs)
  show k: "ks_wf SHA256 (hs_ks (sample_ctx st))" using ks_wf_init [OF e] by (simp add: sample_ctx_def)
  have w: "transcript_wf (hs_transcript (sample_ctx st))"
    using t by (auto simp: sample_ctx_def transcript_wf_def transcript_repr_def)
  have b: "length (s_buf (t_sha256 (hs_transcript (sample_ctx st)))) = 64" "length (b_buf (t_sha384 (hs_transcript (sample_ctx st)))) = 128"
    using t by (simp_all add: sample_ctx_def transcript_repr_def)
  show "hs_ok (sample_ctx st)"
    using f k w b unfolding hs_ok_defs ks_wf_def by (simp add: sample_ctx_def buf_wf_def)
qed

section \<open>Properties\<close>

text \<open>C10: every step of the state machine, whatever bytes the peer sent and whatever the
  primitives answer, keeps the context well formed: every C array keeps its size, so nothing is
  written past one; every length stays within its array; and the transcript stands for a
  message sequence.\<close>

theorem step_keeps_context:
  assumes "hs_ok hs" "tls13_handshake_step P hs recv host = (hs', recv', r)"
  shows "hs_ok hs'"
  using assms by (rule step_keeps_ok)

theorem step_keeps_context_witness:
  "hs_ok (fst (tls13_handshake_step sample_prims (fresh_ctx () sample_engine) [22, 3, 3] [97]))"
  using step_keeps_context [OF fresh_ctx_ok, of sample_prims "()" sample_engine "[22, 3, 3]" "[97]"] by (metis prod.collapse)

text \<open>C23: the state of the handshake only moves forward, save for the one step back to sending a
  ClientHello that the first HelloRetryRequest causes.\<close>

theorem step_moves_forward:
  assumes "hs_ok hs" "tls13_handshake_step P hs recv host = (hs', recv', r)"
  shows "if hs_state hs' < hs_state hs
         then hs_state hs = kTLS13_RecvServerHello \<and> hs_state hs' = kTLS13_SendClientHello
              \<and> \<not> hrr_received hs \<and> hrr_received hs'
         else hs_state hs \<le> hs_state hs'"
  using step_order [OF assms] by (auto simp: not_less)

theorem step_moves_forward_witness:
  "kTLS13_RecvFinished \<le> hs_state (fst (tls13_handshake_step sample_prims (sample_ctx kTLS13_RecvFinished) [23, 3, 3] []))"
proof -
  note f = sample_ctx_facts [of kTLS13_RecvFinished]
  obtain hs' recv' r where e: "tls13_handshake_step sample_prims (sample_ctx kTLS13_RecvFinished) [23, 3, 3] [] = (hs', recv', r)"
    by (metis prod.collapse)
  from step_moves_forward [OF f(5) e] e show ?thesis by (auto simp: f state_order split: if_splits)
qed

text \<open>In any run a client sends at most two ClientHellos, the second one only after a
  HelloRetryRequest.\<close>

lemma at_most_two_hellos:
  assumes "reaches P host hs0 n hs" "hs_ok hs0" "hs_state hs0 = kTLS13_SendClientHello" "\<not> hrr_received hs0"
  shows "n \<le> (if hrr_received hs then 2 else 1)"
  using reaches_hellos [OF assms] by (auto split: if_splits)

lemma at_most_two_hellos_witness:
  "\<exists>hs. reaches sample_prims (ascii ''example.org'') (fresh_ctx () sample_engine) 1 hs \<and> (1 :: nat) \<le> (if hrr_received hs then 2 else 1)"
proof -
  have s: "hs_state (fresh_ctx () sample_engine) = kTLS13_SendClientHello" "\<not> hrr_received (fresh_ctx () sample_engine)"
    by (simp_all add: fresh_ctx_def tls13_handshake_init_def)
  obtain hs where e: "tls13_handshake_step sample_prims (fresh_ctx () sample_engine) [] (ascii ''example.org'') = (hs, [], kTLS13_WantWrite)"
    using sample_hello by blast
  have "reaches sample_prims (ascii ''example.org'') (fresh_ctx () sample_engine) 1 hs"
    using reaches.step [OF reaches.start e] s by simp
  then show ?thesis using at_most_two_hellos [OF _ fresh_ctx_ok s] by blast
qed

text \<open>C3: when a run from a context that has just been set up comes to the client's Finished or
  past it, then either the server's chain was accepted by the X.509 engine for this host and a
  CertificateVerify under the key of that chain, over exactly the messages before it in the
  transcript, was verified, or the resumption flag is set.\<close>

theorem completed_is_authenticated:
  assumes "reaches P host hs0 n hs" "hs_ok hs0" "hs_state hs0 = kTLS13_SendClientHello"
    "kTLS13_SendFinished \<le> hs_state hs"
  shows "resumption_accepted hs \<or> chain_checked P host hs \<and> signed P hs"
proof -
  have "authenticated P host hs0" using assms(3) by (intro authenticated_early) (simp add: state_order)
  then have "authenticated P host hs" by (rule reaches_authenticated [OF assms(1,2)])
  then show ?thesis using assms(4) by (auto simp: authenticated_def state_order)
qed

theorem completed_is_authenticated_witness:
  "\<exists>n hs. reaches sample_prims (ascii ''example.org'') (fresh_ctx () sample_engine) n hs
     \<and> hs_state hs = kTLS13_SendFinished
     \<and> (resumption_accepted hs \<or> chain_checked sample_prims (ascii ''example.org'') hs \<and> signed sample_prims hs)"
proof -
  obtain n hs where r: "reaches sample_prims (ascii ''example.org'') (fresh_ctx () sample_engine) n hs"
    "hs_state hs = kTLS13_SendFinished" using sample_run by blast
  have "hs_state (fresh_ctx () sample_engine) = kTLS13_SendClientHello" by (simp add: fresh_ctx_def tls13_handshake_init_def)
  from completed_is_authenticated [OF r(1) fresh_ctx_ok this] r show ?thesis by (auto simp: state_order)
qed

text \<open>The resumption flag is no evidence. The ServerHello parser sets it on any
  pre_shared_key extension, also when the client offered no ticket: from a fresh context without
  a ticket there is a run to the client's Finished in which the X.509 engine was never called and
  the server key is the empty one, for any server that sends a 32-byte key share.\<close>

lemma unsolicited_psk_skips_certificate:
  fixes pub :: bytes
  assumes "keygen_works P" "mul_works P"
    "length hostname \<le> 16000" "length pub = 32"
  shows "\<exists>n hs. reaches P hostname (fresh_ctx xc eng) n hs \<and> hs_state hs = kTLS13_SendFinished
     \<and> offer_ticket (fresh_ctx xc eng) = None \<and> hs_x509 hs = xc \<and> server_pkey hs = NoKey"
  using fresh_psk_run [OF assms] by (simp add: fresh_ctx_def tls13_handshake_init_def)

text \<open>C11: the client leaves the state \<open>RecvFinished\<close> only when the decrypted stream carries the
  server's Finished with the MAC under its finished key over the whole transcript; nothing else
  it reads gets it there.\<close>

theorem finished_is_verified:
  assumes "hs_ok hs" "hs_state hs = kTLS13_RecvFinished" "transcript_repr (hs_transcript hs) a m" "ks_wf a (hs_ks hs)"
    and "tls13_state_recv_finished hs recv = (hs', recv', kTLS13_OK)"
  shows "\<exists>p h. delivers (hs_read_ctx hs) recv (hs_read_ctx h) p recv'
     \<and> pending hs @ p = [20] @ vec24 (finished_spec a (rd (server_hs_secret hs) 0 (br_digest_size a)) m) @ pending h
     \<and> hs' = rf_install_keys h (br_digest_size a)"
  using recv_finished_checked [OF assms] by blast

theorem finished_is_verified_witness:
  "\<exists>recv p (h :: unit hs_ctx). delivers (hs_read_ctx (sample_ctx kTLS13_RecvFinished)) recv (hs_read_ctx h) p []
     \<and> p = [20] @ vec24 (finished_spec SHA256 (rd (server_hs_secret (sample_ctx kTLS13_RecvFinished)) 0 32) []) @ pending h"
proof -
  note f = sample_ctx_facts [of kTLS13_RecvFinished]
  obtain recv h where "tls13_handshake_step sample_prims (sample_ctx kTLS13_RecvFinished) recv [] = (h, [], kTLS13_OK)"
    using finished_step [OF f(5,1,4,2,3), of sample_prims "[]"] by blast
  then have "tls13_state_recv_finished (sample_ctx kTLS13_RecvFinished) recv = (h, [], kTLS13_OK)"
    by (simp add: tls13_handshake_step_def f)
  from finished_is_verified [OF f(5,1,2,3) this] show ?thesis using f(4) by auto
qed

text \<open>The handshake gets under way: from a fresh context, whenever the generator of key pairs
  works and the host name has at most 16000 bytes, the first step yields a complete ClientHello
  record in the buffer, records the message in the transcript and waits for the server.\<close>

lemma first_hello_is_sent:
  assumes "keygen_works P" "length hostname \<le> 16000"
  shows "\<exists>hs m. tls13_handshake_step P (fresh_ctx xc eng) recv hostname = (hs, recv, kTLS13_WantWrite)
     \<and> hs_state hs = kTLS13_RecvServerHello \<and> transcript_repr (hs_transcript hs) SHA256 m
     \<and> take (msg_len hs) (msg_buf hs) = ch_record_spec m \<and> msg_offset hs = 0"
  using first_hello_step [OF assms, of xc eng recv] by blast

lemma first_hello_is_sent_witness:
  "\<exists>hs m. tls13_handshake_step sample_prims (fresh_ctx () sample_engine) [] (ascii ''example.org'') = (hs, [], kTLS13_WantWrite)
     \<and> take (msg_len hs) (msg_buf hs) = ch_record_spec m"
proof -
  have "length (ascii ''example.org'') \<le> 16000" by simp
  from first_hello_is_sent [OF sample_keygen this, of "()" sample_engine "[]"] show ?thesis by blast
qed

text \<open>What the reader of the encrypted handshake returns are the bytes that the server
  sealed: the messages handed on and what is still held are, in order and without loss,
  the contents of the handshake records opened under consecutive sequence numbers.\<close>

lemma messages_delivered_intact:
  assumes "buf_wf hs" "tls13_read_encrypted_hs hs recv = (hs', recv', kTLS13_OK, ty, n)"
  shows "(\<exists>p. delivers (hs_read_ctx hs) recv (hs_read_ctx hs') p recv'
            \<and> pending hs @ p = rd (msg_buf hs') 0 n @ pending hs')
     \<and> ty = byte_at (msg_buf hs') 0 \<and> n = 4 + unat (get_u24 (msg_buf hs') 1) \<and> n \<le> HS_BUF"
  using read_encrypted_hs_ok [OF assms] by simp

text \<open>Conversely the reader does not stall: a message sealed in one record under the key and
  sequence number of the read side comes back at once, whole, with nothing left over.\<close>

lemma sealed_message_is_read:
  assumes "hs_ok hs" "pending hs = []" "length m = 4 + unat (get_u24 m 1)" "length m + 17 \<le> HS_BUF"
  shows "\<exists>hs'. tls13_read_encrypted_hs hs (sealed_record (hs_read_ctx hs) m) = (hs', [], kTLS13_OK, byte_at m 0, length m)
     \<and> rd (msg_buf hs') 0 (length m) = m \<and> pending hs' = []
     \<and> hs_read_ctx hs' = (hs_read_ctx hs)\<lparr>rc_seq := rc_seq (hs_read_ctx hs) + 1\<rparr>"
  using read_one_record [OF assms] by blast

lemma sealed_message_is_read_witness:
  "\<exists>hs' recv. tls13_read_encrypted_hs (sample_ctx kTLS13_RecvEncryptedExtensions) recv = (hs', [], kTLS13_OK, 8, 6)
     \<and> rd (msg_buf hs') 0 6 = [8, 0, 0, 2, 0, 0]"
proof -
  note f = sample_ctx_facts [of kTLS13_RecvEncryptedExtensions]
  have "length [8, 0, 0, 2, 0, 0 :: byte] = 4 + unat (get_u24 [8, 0, 0, 2, 0, 0] 1)"
    "length [8, 0, 0, 2, 0, 0 :: byte] + 17 \<le> HS_BUF"
    by (simp_all add: get_u24_def HS_BUF_def)
  note r = sealed_message_is_read [OF f(5,4) this]
  have "length [8, 0, 0, 2, 0, 0 :: byte] = 6" "byte_at [8, 0, 0, 2, 0, 0] 0 = 8" by simp_all
  from r [unfolded this] show ?thesis by blast
qed

text \<open>C14: a ServerHello that is accepted carries a key share of the group offered and a suite of
  the transcript's hash; both record contexts then hold the handshake traffic keys of RFC 8446
  for the shared secret and the transcript with this message, and the client's private key is
  erased.\<close>

theorem server_hello_installs_keys:
  assumes "hs_ok hs" "transcript_repr (hs_transcript hs) a m" "sh_regular P hs sh msg = (hs', kTLS13_OK)"
  shows "(\<exists>dhe K. tls13_ecdh_shared P (ecdhe_group hs) (rd (ecdhe_secret hs) 0 (ecdhe_secret_len hs)) (server_public sh) = Some dhe
     \<and> K = hs_traffic_spec a (sh_psk hs) dhe (m @ rd msg 0 (sh_msg_len sh + 4)) (sh_suite sh)
     \<and> keyed (hs_read_ctx hs') (sh_suite sh) (server_key K) (server_iv K)
     \<and> keyed (hs_write_ctx hs') (sh_suite sh) (client_key K) (client_iv K)
     \<and> rd (server_hs_secret hs') 0 (br_digest_size a) = server_secret K
     \<and> rd (client_hs_secret hs') 0 (br_digest_size a) = client_secret K)
   \<and> server_share_group sh = ecdhe_group hs \<and> tls13_hash_for_suite (sh_suite sh) = a
   \<and> ecdhe_secret hs' = replicate 64 0"
  using server_hello_keys [OF assms] by blast

theorem server_hello_installs_keys_witness:
  "\<exists>hs'. sh_regular sample_prims (sample_ctx kTLS13_RecvServerHello) (psk_info (replicate 32 9)) (psk_server_hello (replicate 32 9))
       = (hs', kTLS13_OK) \<and> ecdhe_secret hs' = replicate 64 0"
proof -
  note f = sample_ctx_facts [of kTLS13_RecvServerHello]
  have h: "t_hash (hs_transcript (sample_ctx kTLS13_RecvServerHello)) = SHA256" using f(2) by (simp add: transcript_repr_def)
  have x: "tls13_ecdh_shared sample_prims TLS13_GROUP_X25519 key (replicate 32 9) = Some (rd (xorbuf (replicate 32 9) key) 0 32)" for key
    by (simp add: tls13_ecdh_shared_def sample_prims_def tls13_br_curve_for_group_def tls13_ecdh_secret_len_def Let_def)
  obtain hs' where e: "sh_regular sample_prims (sample_ctx kTLS13_RecvServerHello) (psk_info (replicate 32 9))
      (psk_server_hello (replicate 32 9)) = (hs', kTLS13_OK)"
    by (simp add: sh_regular_def psk_info_def h f tls13_hash_for_suite_def x Let_def TLS13_CHACHA20_POLY1305_SHA256_def
        TLS13_AES_256_GCM_SHA384_def)
  from server_hello_installs_keys [OF f(5,2) e] e show ?thesis by blast
qed

text \<open>The server's Finished turns the read side to the server's application keys of the Master
  Secret over the transcript with that Finished, and keeps the client's finished key and its
  application keys for the last step.\<close>

lemma finished_installs_keys:
  assumes "hs_ok hs" "transcript_repr (hs_transcript hs) a m" "ks_wf a (hs_ks hs)"
  shows "\<exists>hs' d K. rf_install_keys hs n = hs' \<and> d = rd (msg_buf hs) 0 (4 + n)
    \<and> K = ap_traffic_spec a (master_of a (ks_cur (hs_ks hs))) (m @ d) (hs_cipher_suite hs)
    \<and> transcript_repr (hs_transcript hs') a (m @ d)
    \<and> keyed (hs_read_ctx hs') (hs_cipher_suite hs) (server_key K) (server_iv K)
    \<and> rd (server_hs_secret hs') 0 (br_digest_size a)
        = expand_label_spec a (rd (client_hs_secret hs) 0 (br_digest_size a)) ''finished'' [] (br_digest_size a)
    \<and> rd (client_hs_secret hs') 0 (tls13_key_len_for_suite (hs_cipher_suite hs)) = client_key K
    \<and> rd (client_hs_secret hs') (tls13_key_len_for_suite (hs_cipher_suite hs)) 12 = client_iv K
    \<and> hs_write_ctx hs' = hs_write_ctx hs"
  using rf_install_keys_spec [OF assms, of n] by blast

lemma finished_installs_keys_witness:
  "\<exists>K. K = ap_traffic_spec SHA256 (master_of SHA256 (ks_cur (hs_ks (sample_ctx kTLS13_RecvFinished)))) (replicate 36 0) 0x1303
     \<and> keyed (hs_read_ctx (rf_install_keys (sample_ctx kTLS13_RecvFinished) 32)) 0x1303 (server_key K) (server_iv K)"
proof -
  note f = sample_ctx_facts [of kTLS13_RecvFinished]
  have "rd (msg_buf (sample_ctx kTLS13_RecvFinished)) 0 36 = replicate 36 0"
    by (simp add: sample_ctx_def fresh_ctx_def tls13_handshake_init_def HS_BUF_def rd_def)
  moreover have "hs_cipher_suite (sample_ctx kTLS13_RecvFinished) = 0x1303"
    by (simp add: sample_ctx_def TLS13_CHACHA20_POLY1305_SHA256_def)
  ultimately show ?thesis using finished_installs_keys [OF f(5,2,3), of 32] by auto
qed

text \<open>C17: the client's last flight is one record with its Finished, the MAC under the key kept by
  the previous step over the transcript, sealed under the handshake key; sending it installs the
  application keys, erases the secrets they came from and leaves the resumption master secret.\<close>

theorem client_finished_is_sent:
  assumes "hs_ok hs" "transcript_repr (hs_transcript hs) a m" "ks_wf a (hs_ks hs)"
    and "rd (server_hs_secret hs) 0 (br_digest_size a) = expand_label_spec a secret ''finished'' [] (br_digest_size a)"
  shows "\<exists>hs' msg kl. tls13_state_send_finished hs = (hs', kTLS13_WantWrite) \<and> hs_state hs' = kTLS13_Complete
    \<and> msg = [20] @ vec24 (finished_spec a secret m) \<and> kl = tls13_key_len_for_suite (hs_cipher_suite hs)
    \<and> take (msg_len hs') (msg_buf hs') = [23, 3, 3] @ vec16 (record_seal (hs_write_ctx hs) (msg @ [22]))
    \<and> keyed (hs_write_ctx hs') (hs_cipher_suite hs) (rd (client_hs_secret hs) 0 kl) (rd (client_hs_secret hs) kl 12)
    \<and> rd (res_master hs') 0 (br_digest_size a) = derive_spec a (ks_cur (hs_ks hs)) ''res master'' (hash_spec a (m @ msg))
    \<and> client_hs_secret hs' = replicate 64 0 \<and> server_hs_secret hs' = replicate 64 0"
  by (rule send_finished_spec [OF assms]) blast

theorem client_finished_is_sent_witness:
  "\<exists>hs hs'. tls13_state_send_finished hs = (hs', kTLS13_WantWrite) \<and> hs_state hs' = kTLS13_Complete
     \<and> hs = rf_install_keys (sample_ctx kTLS13_RecvFinished) 32"
proof -
  note f = sample_ctx_facts [of kTLS13_RecvFinished]
  note i = rf_install_keys_spec [OF f(5,2,3), of 32]
  have "hs_ok (rf_install_keys (sample_ctx kTLS13_RecvFinished) 32)"
    by (rule rf_install_keys_ok [OF f(5)]) (simp add: f)
  from client_finished_is_sent [OF this i(1,2,5)] show ?thesis by blast
qed

text \<open>C16: a ClientHello that the builder reports as built is, byte for byte, the record of RFC 8446
  with the client's random, session id, suites and extensions, with a pre_shared_key extension
  last and its binder over the truncated message when a ticket is offered; a second ClientHello
  repeats the random and the session id of the first; the transcript takes the message in.\<close>

theorem client_hello_encoding:
  assumes "length (msg_buf hs0) = HS_BUF" "t_hash_len (hs_transcript hs0) = br_digest_size a"
    "tls13_build_client_hello hs0 hostname rng = (hs, rng', True)"
  shows "\<exists>rr ss m. (if ch_fields_valid hs0 then rr = ch_random hs0 \<and> ss = ch_session_id hs0
                 else length rr = 32 \<and> length ss = 32)
     \<and> m = ch_message hs0 hostname (rd rr 0 32) (rd ss 0 32)
     \<and> take (msg_len hs) (msg_buf hs) = ch_record_spec m \<and> msg_len hs = length m + 5 \<and> msg_len hs \<le> HS_BUF
     \<and> ch_random hs = rr \<and> ch_session_id hs = ss \<and> ch_fields_valid hs
     \<and> hs_transcript hs = tls13_transcript_update (hs_transcript hs0) m"
proof -
  obtain rr ss where r: "if ch_fields_valid hs0 then rr = ch_random hs0 \<and> ss = ch_session_id hs0
      else length rr = 32 \<and> length ss = 32"
    and c: "ch_built hs0 rr ss hs (ch_message hs0 hostname (rd rr 0 32) (rd ss 0 32))"
    using build_client_hello_ok [OF assms] by blast
  note b = c [unfolded ch_built_def]
  have h: "hs = hs0\<lparr>ch_random := rr, ch_session_id := ss, ch_fields_valid := True, msg_buf := msg_buf hs,
      msg_len := msg_len hs, msg_offset := 0,
      hs_transcript := tls13_transcript_update (hs_transcript hs0) (ch_message hs0 hostname (rd rr 0 32) (rd ss 0 32))\<rparr>"
    using b by blast
  have "ch_random hs = rr" "ch_session_id hs = ss" "ch_fields_valid hs"
    "hs_transcript hs = tls13_transcript_update (hs_transcript hs0) (ch_message hs0 hostname (rd rr 0 32) (rd ss 0 32))"
    using arg_cong [OF h, of ch_random] arg_cong [OF h, of ch_session_id] arg_cong [OF h, of ch_fields_valid]
      arg_cong [OF h, of hs_transcript] by simp_all
  with b r show ?thesis by blast
qed

theorem client_hello_encoding_witness:
  "\<exists>hs rng' m. tls13_build_client_hello (sample_ctx kTLS13_SendClientHello) (ascii ''example.org'') (eng_rng sample_engine) = (hs, rng', True)
     \<and> take (msg_len hs) (msg_buf hs) = ch_record_spec m"
proof -
  note f = sample_ctx_facts [of kTLS13_SendClientHello]
  have c: "hs_cookie_len (sample_ctx kTLS13_SendClientHello) = 0" "length (ascii ''example.org'') \<le> 16000"
    by (simp_all add: sample_ctx_def fresh_ctx_def tls13_handshake_init_def)
  obtain hs rng' where e: "tls13_build_client_hello (sample_ctx kTLS13_SendClientHello) (ascii ''example.org'') (eng_rng sample_engine) = (hs, rng', True)"
    using client_hello_fits [OF f(5,7) c] by blast
  have "length (msg_buf (sample_ctx kTLS13_SendClientHello)) = HS_BUF" using f(5) by (simp add: hs_ok_defs buf_wf_def)
  moreover have "t_hash_len (hs_transcript (sample_ctx kTLS13_SendClientHello)) = br_digest_size SHA256"
    using f(2) by (simp add: transcript_repr_def)
  ultimately show ?thesis using client_hello_encoding [OF _ _ e] e by blast
qed

end
