(* ===== verification/Async_Safety.thy ===== *)
theory Async_Safety
  imports Byte_Queue Hs_Run
begin

text \<open>
  The invariant \<open>conn_ok\<close> of a connection and its preservation by every call and every
  notification. It covers the arrays and indices of the two plaintext queues and of the outbound
  record, the bound on the received bytes, the handshake context, and how the public state and
  the TLS 1.3 mode go together. \<open>ot_laws\<close> is what is asked of Open Transport: a receive stores
  as many bytes as it reports and no more than asked, a send takes no more than it was given.
  The functions \<open>wi\<close> and \<open>wo\<close> read off an operating-system state the bytes received from and sent
  to the peer so far; every other call leaves both alone.
\<close>

unbundle bit_operations_syntax

section \<open>A handshake step consumes its input\<close>

lemma read_stream_shrinks:
  "read_stream ctx s recv = (ctx', s', recv', out) \<Longrightarrow> length recv' \<le> length recv"
proof (induction "length recv" arbitrary: ctx s recv rule: less_induct)
  case less
  have here: "recv' = recv \<Longrightarrow> ?case" by simp
  show ?case
  proof (cases "first_message s")
    case Need
    show ?thesis
    proof (cases "first_record recv")
      case None
      then show ?thesis using less.prems Need by (simp add: read_stream.simps)
    next
      case (Some t)
      obtain ty p rest where t: "t = (ty, p, rest)" by (cases t)
      have l: "length rest < length recv" using Some by (auto simp: t first_record_def Let_def split: if_splits)
      note IH = less.hyps [OF l]
      obtain c1 buf res where d: "tls13_record_decrypt ctx p = (c1, buf, res)" by (metis prod.collapse)
      show ?thesis
      proof (cases res)
        case None
        then show ?thesis using less.prems Need Some t d l IH
          by (auto simp: read_stream.simps [of ctx s recv] split: if_splits intro: less_imp_le order_trans [OF _ less_imp_le [OF l]])
      next
        case (Some q)
        then show ?thesis using less.prems Need \<open>first_record recv = Some t\<close> t d l IH
          by (cases q) (auto simp: read_stream.simps [of ctx s recv] split: if_splits intro: less_imp_le order_trans [OF _ less_imp_le [OF l]])
      qed
    qed
  qed (use less.prems in \<open>simp_all add: read_stream.simps [of ctx s recv]\<close>)
qed

lemma read_encrypted_hs_shrinks:
  assumes "buf_wf hs" "tls13_read_encrypted_hs hs recv = (hs', recv', r, ty, n)"
  shows "length recv' \<le> length recv"
  using read_encrypted_hs_refines [OF assms] read_stream_shrinks by blast

lemma step_shrinks:
  assumes ok: "hs_ok hs" and e: "tls13_handshake_step P hs recv host = (hs', recv', r)"
  shows "length recv' \<le> length recv"
proof -
  have w: "buf_wf hs" using ok by (simp add: hs_ok_def)
  obtain h rv q ty n where R: "tls13_read_encrypted_hs hs recv = (h, rv, q, ty, n)" by (metis prod.collapse)
  note s = read_encrypted_hs_shrinks [OF w R]
  show ?thesis
  proof (cases "hs_state hs")
    case kTLS13_RecvServerHello
    obtain h1 rv1 q1 where S: "tls13_state_recv_server_hello P hs recv = (h1, rv1, q1)" by (metis prod.collapse)
    have "length rv1 \<le> length recv"
      using S by (auto simp: tls13_state_recv_server_hello_def Let_def split: if_splits prod.splits)
    then show ?thesis using e kTLS13_RecvServerHello by (auto simp: tls13_handshake_step_def S split: if_splits)
  qed (use e s R in \<open>auto simp: tls13_handshake_step_def tls13_state_recv_encrypted_extensions_def
      tls13_state_recv_cert_request_or_cert_def tls13_state_recv_certificate_def
      tls13_state_recv_certificate_verify_def tls13_state_recv_finished_def Let_def
      split: if_splits prod.splits option.splits sum.splits\<close>)
qed

section \<open>The invariant\<close>

definition send_wf :: "('e, 'x) conn \<Rightarrow> bool" where
  "send_wf c \<longleftrightarrow> length (t13_send_rec c) = OSTLS_WRITE_BUF_SIZE + 64 \<and> t13_send_off c \<le> t13_send_len c
     \<and> t13_send_len c \<le> OSTLS_WRITE_BUF_SIZE + 64"

definition plain_wf :: "('e, 'x) conn \<Rightarrow> bool" where
  "plain_wf c \<longleftrightarrow> t13_plain_off c \<le> t13_plain_len c \<and> t13_plain_len c \<le> HS_BUF"

definition recv_wf :: "('e, 'x) conn \<Rightarrow> bool" where
  "recv_wf c \<longleftrightarrow> length (c_recv c) \<le> BR_SSL_BUFSIZE_BIDI"

text \<open>The handshake context, when there is one, is well formed; in the mode \<open>Open\<close> its handshake
  is complete and all it had to send is sent.\<close>

definition hs13_wf :: "('e, 'x) conn \<Rightarrow> bool" where
  "hs13_wf c \<longleftrightarrow> (case c_hs13 c of
      None \<Rightarrow> tls13_mode c = kT13Mode_Off
    | Some hs \<Rightarrow> hs_ok hs \<and> (tls13_mode c = kT13Mode_Open \<longrightarrow> hs_state hs = kTLS13_Complete \<and> msg_len hs \<le> msg_offset hs))"

definition mode_wf :: "('e, 'x) conn \<Rightarrow> bool" where
  "mode_wf c \<longleftrightarrow>
     (tls13_mode c = kT13Mode_Trying \<longrightarrow> c_state c = kOSTLSStateHandshaking \<or> c_state c = kOSTLSStateFailed) \<and>
     (tls13_mode c = kT13Mode_Open \<longrightarrow> c_state c = kOSTLSStateOpen \<or> c_state c = kOSTLSStateClosing
        \<or> c_state c = kOSTLSStateClosed \<or> c_state c = kOSTLSStateFailed) \<and>
     (tls13_mode c \<noteq> kT13Mode_Off \<longrightarrow> \<not> tls13_disabled c)"

definition conn_ok :: "('e, 'x) conn \<Rightarrow> bool" where
  "conn_ok c \<longleftrightarrow> ring_wf c \<and> queue_wf c \<and> send_wf c \<and> plain_wf c \<and> recv_wf c \<and> hs13_wf c \<and> mode_wf c"

lemmas conn_ok_defs = conn_ok_def ring_wf_def queue_wf_def send_wf_def plain_wf_def recv_wf_def hs13_wf_def mode_wf_def

text \<open>What each part of the invariant does not depend on.\<close>

lemma ring_wf_upd [simp]:
  "ring_wf (c\<lparr>c_hs13 := v0\<rparr>) = ring_wf c" "ring_wf (c\<lparr>tls13_mode := v1\<rparr>) = ring_wf c"
  "ring_wf (c\<lparr>c_recv := v2\<rparr>) = ring_wf c" "ring_wf (c\<lparr>t13_plain_len := v3\<rparr>) = ring_wf c"
  "ring_wf (c\<lparr>t13_plain_off := v4\<rparr>) = ring_wf c" "ring_wf (c\<lparr>t13_send_rec := v5\<rparr>) = ring_wf c"
  "ring_wf (c\<lparr>t13_send_len := v6\<rparr>) = ring_wf c" "ring_wf (c\<lparr>t13_send_off := v7\<rparr>) = ring_wf c"
  "ring_wf (c\<lparr>write_buf := v11\<rparr>) = ring_wf c" "ring_wf (c\<lparr>write_pos := v12\<rparr>) = ring_wf c"
  "ring_wf (c\<lparr>write_avail := v13\<rparr>) = ring_wf c" "ring_wf (c\<lparr>c_state := v14\<rparr>) = ring_wf c"
  "ring_wf (c\<lparr>offer_ticket_storage := v15\<rparr>) = ring_wf c" "ring_wf (c\<lparr>c_sc := v16\<rparr>) = ring_wf c"
  "ring_wf (c\<lparr>c_cipher_suite := v17\<rparr>) = ring_wf c" "ring_wf (c\<lparr>c_resumed := v18\<rparr>) = ring_wf c"
  "ring_wf (c\<lparr>handshake_done := v19\<rparr>) = ring_wf c" "ring_wf (c\<lparr>bearssl_initialised := v20\<rparr>) = ring_wf c"
  "ring_wf (c\<lparr>handshake_start_ticks := v21\<rparr>) = ring_wf c" "ring_wf (c\<lparr>close_notify_sent := v22\<rparr>) = ring_wf c"
  "ring_wf (c\<lparr>peer_closed := v23\<rparr>) = ring_wf c" "ring_wf (c\<lparr>start_ticks := v24\<rparr>) = ring_wf c"
  "ring_wf (c\<lparr>c_phase := v25\<rparr>) = ring_wf c" "ring_wf (c\<lparr>c_started := v26\<rparr>) = ring_wf c"
  "ring_wf (c\<lparr>close_requested := v27\<rparr>) = ring_wf c" "ring_wf (c\<lparr>c_os_err := v28\<rparr>) = ring_wf c"
  by (simp_all add: ring_wf_def split: option.split)

lemma queue_wf_upd [simp]:
  "queue_wf (c\<lparr>c_hs13 := v0\<rparr>) = queue_wf c" "queue_wf (c\<lparr>tls13_mode := v1\<rparr>) = queue_wf c"
  "queue_wf (c\<lparr>c_recv := v2\<rparr>) = queue_wf c" "queue_wf (c\<lparr>t13_plain_len := v3\<rparr>) = queue_wf c"
  "queue_wf (c\<lparr>t13_plain_off := v4\<rparr>) = queue_wf c" "queue_wf (c\<lparr>t13_send_rec := v5\<rparr>) = queue_wf c"
  "queue_wf (c\<lparr>t13_send_len := v6\<rparr>) = queue_wf c" "queue_wf (c\<lparr>t13_send_off := v7\<rparr>) = queue_wf c"
  "queue_wf (c\<lparr>read_buf := v8\<rparr>) = queue_wf c" "queue_wf (c\<lparr>read_pos := v9\<rparr>) = queue_wf c"
  "queue_wf (c\<lparr>read_avail := v10\<rparr>) = queue_wf c" "queue_wf (c\<lparr>c_state := v14\<rparr>) = queue_wf c"
  "queue_wf (c\<lparr>offer_ticket_storage := v15\<rparr>) = queue_wf c" "queue_wf (c\<lparr>c_sc := v16\<rparr>) = queue_wf c"
  "queue_wf (c\<lparr>c_cipher_suite := v17\<rparr>) = queue_wf c" "queue_wf (c\<lparr>c_resumed := v18\<rparr>) = queue_wf c"
  "queue_wf (c\<lparr>handshake_done := v19\<rparr>) = queue_wf c" "queue_wf (c\<lparr>bearssl_initialised := v20\<rparr>) = queue_wf c"
  "queue_wf (c\<lparr>handshake_start_ticks := v21\<rparr>) = queue_wf c" "queue_wf (c\<lparr>close_notify_sent := v22\<rparr>) = queue_wf c"
  "queue_wf (c\<lparr>peer_closed := v23\<rparr>) = queue_wf c" "queue_wf (c\<lparr>start_ticks := v24\<rparr>) = queue_wf c"
  "queue_wf (c\<lparr>c_phase := v25\<rparr>) = queue_wf c" "queue_wf (c\<lparr>c_started := v26\<rparr>) = queue_wf c"
  "queue_wf (c\<lparr>close_requested := v27\<rparr>) = queue_wf c" "queue_wf (c\<lparr>c_os_err := v28\<rparr>) = queue_wf c"
  by (simp_all add: queue_wf_def split: option.split)

lemma send_wf_upd [simp]:
  "send_wf (c\<lparr>c_hs13 := v0\<rparr>) = send_wf c" "send_wf (c\<lparr>tls13_mode := v1\<rparr>) = send_wf c"
  "send_wf (c\<lparr>c_recv := v2\<rparr>) = send_wf c" "send_wf (c\<lparr>t13_plain_len := v3\<rparr>) = send_wf c"
  "send_wf (c\<lparr>t13_plain_off := v4\<rparr>) = send_wf c" "send_wf (c\<lparr>read_buf := v8\<rparr>) = send_wf c"
  "send_wf (c\<lparr>read_pos := v9\<rparr>) = send_wf c" "send_wf (c\<lparr>read_avail := v10\<rparr>) = send_wf c"
  "send_wf (c\<lparr>write_buf := v11\<rparr>) = send_wf c" "send_wf (c\<lparr>write_pos := v12\<rparr>) = send_wf c"
  "send_wf (c\<lparr>write_avail := v13\<rparr>) = send_wf c" "send_wf (c\<lparr>c_state := v14\<rparr>) = send_wf c"
  "send_wf (c\<lparr>offer_ticket_storage := v15\<rparr>) = send_wf c" "send_wf (c\<lparr>c_sc := v16\<rparr>) = send_wf c"
  "send_wf (c\<lparr>c_cipher_suite := v17\<rparr>) = send_wf c" "send_wf (c\<lparr>c_resumed := v18\<rparr>) = send_wf c"
  "send_wf (c\<lparr>handshake_done := v19\<rparr>) = send_wf c" "send_wf (c\<lparr>bearssl_initialised := v20\<rparr>) = send_wf c"
  "send_wf (c\<lparr>handshake_start_ticks := v21\<rparr>) = send_wf c" "send_wf (c\<lparr>close_notify_sent := v22\<rparr>) = send_wf c"
  "send_wf (c\<lparr>peer_closed := v23\<rparr>) = send_wf c" "send_wf (c\<lparr>start_ticks := v24\<rparr>) = send_wf c"
  "send_wf (c\<lparr>c_phase := v25\<rparr>) = send_wf c" "send_wf (c\<lparr>c_started := v26\<rparr>) = send_wf c"
  "send_wf (c\<lparr>close_requested := v27\<rparr>) = send_wf c" "send_wf (c\<lparr>c_os_err := v28\<rparr>) = send_wf c"
  by (simp_all add: send_wf_def split: option.split)

lemma plain_wf_upd [simp]:
  "plain_wf (c\<lparr>c_hs13 := v0\<rparr>) = plain_wf c" "plain_wf (c\<lparr>tls13_mode := v1\<rparr>) = plain_wf c"
  "plain_wf (c\<lparr>c_recv := v2\<rparr>) = plain_wf c" "plain_wf (c\<lparr>t13_send_rec := v5\<rparr>) = plain_wf c"
  "plain_wf (c\<lparr>t13_send_len := v6\<rparr>) = plain_wf c" "plain_wf (c\<lparr>t13_send_off := v7\<rparr>) = plain_wf c"
  "plain_wf (c\<lparr>read_buf := v8\<rparr>) = plain_wf c" "plain_wf (c\<lparr>read_pos := v9\<rparr>) = plain_wf c"
  "plain_wf (c\<lparr>read_avail := v10\<rparr>) = plain_wf c" "plain_wf (c\<lparr>write_buf := v11\<rparr>) = plain_wf c"
  "plain_wf (c\<lparr>write_pos := v12\<rparr>) = plain_wf c" "plain_wf (c\<lparr>write_avail := v13\<rparr>) = plain_wf c"
  "plain_wf (c\<lparr>c_state := v14\<rparr>) = plain_wf c" "plain_wf (c\<lparr>offer_ticket_storage := v15\<rparr>) = plain_wf c"
  "plain_wf (c\<lparr>c_sc := v16\<rparr>) = plain_wf c" "plain_wf (c\<lparr>c_cipher_suite := v17\<rparr>) = plain_wf c"
  "plain_wf (c\<lparr>c_resumed := v18\<rparr>) = plain_wf c" "plain_wf (c\<lparr>handshake_done := v19\<rparr>) = plain_wf c"
  "plain_wf (c\<lparr>bearssl_initialised := v20\<rparr>) = plain_wf c" "plain_wf (c\<lparr>handshake_start_ticks := v21\<rparr>) = plain_wf c"
  "plain_wf (c\<lparr>close_notify_sent := v22\<rparr>) = plain_wf c" "plain_wf (c\<lparr>peer_closed := v23\<rparr>) = plain_wf c"
  "plain_wf (c\<lparr>start_ticks := v24\<rparr>) = plain_wf c" "plain_wf (c\<lparr>c_phase := v25\<rparr>) = plain_wf c"
  "plain_wf (c\<lparr>c_started := v26\<rparr>) = plain_wf c" "plain_wf (c\<lparr>close_requested := v27\<rparr>) = plain_wf c"
  "plain_wf (c\<lparr>c_os_err := v28\<rparr>) = plain_wf c"
  by (simp_all add: plain_wf_def split: option.split)

lemma recv_wf_upd [simp]:
  "recv_wf (c\<lparr>c_hs13 := v0\<rparr>) = recv_wf c" "recv_wf (c\<lparr>tls13_mode := v1\<rparr>) = recv_wf c"
  "recv_wf (c\<lparr>t13_plain_len := v3\<rparr>) = recv_wf c" "recv_wf (c\<lparr>t13_plain_off := v4\<rparr>) = recv_wf c"
  "recv_wf (c\<lparr>t13_send_rec := v5\<rparr>) = recv_wf c" "recv_wf (c\<lparr>t13_send_len := v6\<rparr>) = recv_wf c"
  "recv_wf (c\<lparr>t13_send_off := v7\<rparr>) = recv_wf c" "recv_wf (c\<lparr>read_buf := v8\<rparr>) = recv_wf c"
  "recv_wf (c\<lparr>read_pos := v9\<rparr>) = recv_wf c" "recv_wf (c\<lparr>read_avail := v10\<rparr>) = recv_wf c"
  "recv_wf (c\<lparr>write_buf := v11\<rparr>) = recv_wf c" "recv_wf (c\<lparr>write_pos := v12\<rparr>) = recv_wf c"
  "recv_wf (c\<lparr>write_avail := v13\<rparr>) = recv_wf c" "recv_wf (c\<lparr>c_state := v14\<rparr>) = recv_wf c"
  "recv_wf (c\<lparr>offer_ticket_storage := v15\<rparr>) = recv_wf c" "recv_wf (c\<lparr>c_sc := v16\<rparr>) = recv_wf c"
  "recv_wf (c\<lparr>c_cipher_suite := v17\<rparr>) = recv_wf c" "recv_wf (c\<lparr>c_resumed := v18\<rparr>) = recv_wf c"
  "recv_wf (c\<lparr>handshake_done := v19\<rparr>) = recv_wf c" "recv_wf (c\<lparr>bearssl_initialised := v20\<rparr>) = recv_wf c"
  "recv_wf (c\<lparr>handshake_start_ticks := v21\<rparr>) = recv_wf c" "recv_wf (c\<lparr>close_notify_sent := v22\<rparr>) = recv_wf c"
  "recv_wf (c\<lparr>peer_closed := v23\<rparr>) = recv_wf c" "recv_wf (c\<lparr>start_ticks := v24\<rparr>) = recv_wf c"
  "recv_wf (c\<lparr>c_phase := v25\<rparr>) = recv_wf c" "recv_wf (c\<lparr>c_started := v26\<rparr>) = recv_wf c"
  "recv_wf (c\<lparr>close_requested := v27\<rparr>) = recv_wf c" "recv_wf (c\<lparr>c_os_err := v28\<rparr>) = recv_wf c"
  by (simp_all add: recv_wf_def split: option.split)

lemma hs13_wf_upd [simp]:
  "hs13_wf (c\<lparr>c_recv := v2\<rparr>) = hs13_wf c" "hs13_wf (c\<lparr>t13_plain_len := v3\<rparr>) = hs13_wf c"
  "hs13_wf (c\<lparr>t13_plain_off := v4\<rparr>) = hs13_wf c" "hs13_wf (c\<lparr>t13_send_rec := v5\<rparr>) = hs13_wf c"
  "hs13_wf (c\<lparr>t13_send_len := v6\<rparr>) = hs13_wf c" "hs13_wf (c\<lparr>t13_send_off := v7\<rparr>) = hs13_wf c"
  "hs13_wf (c\<lparr>read_buf := v8\<rparr>) = hs13_wf c" "hs13_wf (c\<lparr>read_pos := v9\<rparr>) = hs13_wf c"
  "hs13_wf (c\<lparr>read_avail := v10\<rparr>) = hs13_wf c" "hs13_wf (c\<lparr>write_buf := v11\<rparr>) = hs13_wf c"
  "hs13_wf (c\<lparr>write_pos := v12\<rparr>) = hs13_wf c" "hs13_wf (c\<lparr>write_avail := v13\<rparr>) = hs13_wf c"
  "hs13_wf (c\<lparr>c_state := v14\<rparr>) = hs13_wf c" "hs13_wf (c\<lparr>offer_ticket_storage := v15\<rparr>) = hs13_wf c"
  "hs13_wf (c\<lparr>c_sc := v16\<rparr>) = hs13_wf c" "hs13_wf (c\<lparr>c_cipher_suite := v17\<rparr>) = hs13_wf c"
  "hs13_wf (c\<lparr>c_resumed := v18\<rparr>) = hs13_wf c" "hs13_wf (c\<lparr>handshake_done := v19\<rparr>) = hs13_wf c"
  "hs13_wf (c\<lparr>bearssl_initialised := v20\<rparr>) = hs13_wf c" "hs13_wf (c\<lparr>handshake_start_ticks := v21\<rparr>) = hs13_wf c"
  "hs13_wf (c\<lparr>close_notify_sent := v22\<rparr>) = hs13_wf c" "hs13_wf (c\<lparr>peer_closed := v23\<rparr>) = hs13_wf c"
  "hs13_wf (c\<lparr>start_ticks := v24\<rparr>) = hs13_wf c" "hs13_wf (c\<lparr>c_phase := v25\<rparr>) = hs13_wf c"
  "hs13_wf (c\<lparr>c_started := v26\<rparr>) = hs13_wf c" "hs13_wf (c\<lparr>close_requested := v27\<rparr>) = hs13_wf c"
  "hs13_wf (c\<lparr>c_os_err := v28\<rparr>) = hs13_wf c"
  by (simp_all add: hs13_wf_def split: option.split)

lemma mode_wf_upd [simp]:
  "mode_wf (c\<lparr>c_hs13 := v0\<rparr>) = mode_wf c" "mode_wf (c\<lparr>c_recv := v2\<rparr>) = mode_wf c"
  "mode_wf (c\<lparr>t13_plain_len := v3\<rparr>) = mode_wf c" "mode_wf (c\<lparr>t13_plain_off := v4\<rparr>) = mode_wf c"
  "mode_wf (c\<lparr>t13_send_rec := v5\<rparr>) = mode_wf c" "mode_wf (c\<lparr>t13_send_len := v6\<rparr>) = mode_wf c"
  "mode_wf (c\<lparr>t13_send_off := v7\<rparr>) = mode_wf c" "mode_wf (c\<lparr>read_buf := v8\<rparr>) = mode_wf c"
  "mode_wf (c\<lparr>read_pos := v9\<rparr>) = mode_wf c" "mode_wf (c\<lparr>read_avail := v10\<rparr>) = mode_wf c"
  "mode_wf (c\<lparr>write_buf := v11\<rparr>) = mode_wf c" "mode_wf (c\<lparr>write_pos := v12\<rparr>) = mode_wf c"
  "mode_wf (c\<lparr>write_avail := v13\<rparr>) = mode_wf c" "mode_wf (c\<lparr>offer_ticket_storage := v15\<rparr>) = mode_wf c"
  "mode_wf (c\<lparr>c_sc := v16\<rparr>) = mode_wf c" "mode_wf (c\<lparr>c_cipher_suite := v17\<rparr>) = mode_wf c"
  "mode_wf (c\<lparr>c_resumed := v18\<rparr>) = mode_wf c" "mode_wf (c\<lparr>handshake_done := v19\<rparr>) = mode_wf c"
  "mode_wf (c\<lparr>bearssl_initialised := v20\<rparr>) = mode_wf c" "mode_wf (c\<lparr>handshake_start_ticks := v21\<rparr>) = mode_wf c"
  "mode_wf (c\<lparr>close_notify_sent := v22\<rparr>) = mode_wf c" "mode_wf (c\<lparr>peer_closed := v23\<rparr>) = mode_wf c"
  "mode_wf (c\<lparr>start_ticks := v24\<rparr>) = mode_wf c" "mode_wf (c\<lparr>c_phase := v25\<rparr>) = mode_wf c"
  "mode_wf (c\<lparr>c_started := v26\<rparr>) = mode_wf c" "mode_wf (c\<lparr>close_requested := v27\<rparr>) = mode_wf c"
  "mode_wf (c\<lparr>c_os_err := v28\<rparr>) = mode_wf c"
  by (simp_all add: mode_wf_def split: option.split)

text \<open>Most handlers leave the data of a connection alone and change its state at most to
  \<open>Failed\<close>.\<close>

definition same_data :: "('e, 'x) conn \<Rightarrow> ('e, 'x) conn \<Rightarrow> bool" where
  "same_data c c' \<longleftrightarrow>
     c_hs13 c' = c_hs13 c \<and> tls13_mode c' = tls13_mode c \<and> tls13_disabled c' = tls13_disabled c \<and> c_recv c' = c_recv c \<and> c_server_name c' = c_server_name c \<and>
     t13_plain_len c' = t13_plain_len c \<and> t13_plain_off c' = t13_plain_off c \<and>
     t13_send_rec c' = t13_send_rec c \<and> t13_send_len c' = t13_send_len c \<and> t13_send_off c' = t13_send_off c \<and>
     read_buf c' = read_buf c \<and> read_pos c' = read_pos c \<and> read_avail c' = read_avail c \<and>
     write_buf c' = write_buf c \<and> write_pos c' = write_pos c \<and> write_avail c' = write_avail c"

definition aside :: "('e, 'x) conn \<Rightarrow> ('e, 'x) conn \<Rightarrow> bool" where
  "aside c c' \<longleftrightarrow> same_data c c' \<and> (c_state c' = c_state c \<or> c_state c' = kOSTLSStateFailed)"

lemma same_data_refl [simp]: "same_data c c" by (simp add: same_data_def)
lemma aside_refl [simp]: "aside c c" by (simp add: aside_def)

lemma same_data_trans: "same_data a b \<Longrightarrow> same_data b c \<Longrightarrow> same_data a c" by (simp add: same_data_def)
lemma aside_trans [trans]: "aside a b \<Longrightarrow> aside b c \<Longrightarrow> aside a c"
  by (auto simp: aside_def intro: same_data_trans)

lemma same_data_queues:
  assumes "same_data c c'"
  shows "ring c' = ring c" "queued c' = queued c"
  using assms by (simp_all add: same_data_def ring_def queued_def)

lemma same_data_wf:
  assumes "same_data c c'"
  shows "ring_wf c' = ring_wf c" "queue_wf c' = queue_wf c" "send_wf c' = send_wf c" "plain_wf c' = plain_wf c"
    "recv_wf c' = recv_wf c" "hs13_wf c' = hs13_wf c" "tls13_mode c' = tls13_mode c" "tls13_disabled c' = tls13_disabled c"
  using assms by (simp_all add: same_data_def ring_wf_def queue_wf_def send_wf_def plain_wf_def recv_wf_def hs13_wf_def
      split: option.split)

lemma aside_ok:
  assumes "aside c c'" "conn_ok c"
  shows "conn_ok c'"
proof -
  have d: "same_data c c'" and s: "c_state c' = c_state c \<or> c_state c' = kOSTLSStateFailed"
    using assms(1) by (simp_all add: aside_def)
  have "mode_wf c" using assms(2) by (simp add: conn_ok_def)
  with s have "mode_wf c'" by (elim disjE) (simp_all add: mode_wf_def same_data_wf [OF d])
  then show ?thesis using assms(2) by (simp add: conn_ok_def same_data_wf [OF d])
qed

text \<open>Fields outside the data.\<close>

lemma aside_upd [simp]:
  "aside c (c0\<lparr>nf_data_pending := b\<rparr>) = aside c c0" "aside c (c0\<lparr>dbg_ot_recv_nodata := n\<rparr>) = aside c c0"
  "aside c (c0\<lparr>dbg_ot_recv_calls := n\<rparr>) = aside c c0" "aside c (c0\<lparr>dbg_ot_recv_bytes := n\<rparr>) = aside c c0"
  "aside c (c0\<lparr>dbg_ot_send_calls := n\<rparr>) = aside c c0" "aside c (c0\<lparr>dbg_ot_send_bytes := n\<rparr>) = aside c c0"
  "aside c (c0\<lparr>dbg_ot_send_zero := n\<rparr>) = aside c c0" "aside c (c0\<lparr>dbg_ot_send_flow := n\<rparr>) = aside c c0"
  "aside c (c0\<lparr>nf_want_write := b\<rparr>) = aside c c0" "aside c (c0\<lparr>ord_consumed := b\<rparr>) = aside c c0"
  "aside c (c0\<lparr>disc_consumed := b\<rparr>) = aside c c0" "aside c (c0\<lparr>peer_closed := b\<rparr>) = aside c c0"
  "aside c (c0\<lparr>c_sc := e\<rparr>) = aside c c0" "aside c (c0\<lparr>nf_open_complete := b\<rparr>) = aside c c0"
  "aside c (c0\<lparr>nf_bind_complete := b\<rparr>) = aside c c0" "aside c (c0\<lparr>nf_connect_complete := b\<rparr>) = aside c c0"
  "aside c (c0\<lparr>nf_disconnect := b\<rparr>) = aside c c0" "aside c (c0\<lparr>ep_open := b\<rparr>) = aside c c0"
  "aside c (c0\<lparr>c_phase := p\<rparr>) = aside c c0" "aside c (c0\<lparr>close_notify_sent := b\<rparr>) = aside c c0"
  "aside c (c0\<lparr>nf_last_result := r\<rparr>) = aside c c0" "aside c (c0\<lparr>nf_ord_release := b\<rparr>) = aside c c0"
  "aside c (c0\<lparr>dbg_pump_calls := n\<rparr>) = aside c c0" "aside c (c0\<lparr>br_state_last := n\<rparr>) = aside c c0"
  "aside c (c0\<lparr>close_requested := b\<rparr>) = aside c c0" "aside c (c0\<lparr>c_ep := ep\<rparr>) = aside c c0"
  "aside c (c0\<lparr>c_br_err := b'\<rparr>) = aside c c0" "aside c (c0\<lparr>c_os_err := ep'\<rparr>) = aside c c0" "aside c (c0\<lparr>c_ot_err := ep'\<rparr>) = aside c c0"
  by (simp_all add: aside_def same_data_def)

lemma fail_aside [simp]: "aside c (fst (ostls_fail c e o' b))"
proof -
  define c1 where "c1 = (if c_os_err c = noErr then c\<lparr>c_os_err := e\<rparr> else c)"
  define c2 where "c2 = (if c_ot_err c1 = 0x7FFFFFFF then c1\<lparr>c_ot_err := o'\<rparr> else c1)"
  define c3 where "c3 = (if b \<noteq> 0 \<and> c_br_err c2 = 0 then c2\<lparr>c_br_err := b\<rparr> else c2)"
  have a: "aside c c3" by (simp add: c3_def c2_def c1_def)
  have "ostls_fail c e o' b =
      (if c_state c3 = kOSTLSStateFailed \<or> c_state c3 = kOSTLSStateClosed then (c3, kOSTLSEventNone)
       else (c3\<lparr>c_state := kOSTLSStateFailed\<rparr>, kOSTLSEventFailed))"
    unfolding ostls_fail_def Let_def c1_def c2_def c3_def ..
  then show ?thesis using a by (simp add: aside_def same_data_def)
qed

lemma fail_aside': "ostls_fail c e o' b = (c', ev) \<Longrightarrow> aside c c'"
  using fail_aside [of c e o' b] by simp

lemma fail_of_aside: "aside c c0 \<Longrightarrow> aside c (fst (ostls_fail c0 e o' b))"
  by (rule aside_trans [OF _ fail_aside])

text \<open>The public state moves up, except in the call that gives up TLS 1.3.\<close>

fun state_rank :: "OSTLSState \<Rightarrow> nat" where
  "state_rank kOSTLSStateIdle = 0"
| "state_rank kOSTLSStateConnecting = 1"
| "state_rank kOSTLSStateHandshaking = 2"
| "state_rank kOSTLSStateOpen = 3"
| "state_rank kOSTLSStateClosing = 4"
| "state_rank kOSTLSStateClosed = 5"
| "state_rank kOSTLSStateFailed = 6"

lemma state_rank_le [simp]: "state_rank s \<le> 6" by (cases s) simp_all

definition forward :: "('e, 'x) conn \<Rightarrow> ('e, 'x) conn \<Rightarrow> bool" where
  "forward c c' \<longleftrightarrow> (tls13_disabled c \<longrightarrow> tls13_disabled c') \<and>
     (tls13_disabled c' = tls13_disabled c \<longrightarrow> state_rank (c_state c) \<le> state_rank (c_state c'))"

lemma forward_refl [simp]: "forward c c" by (simp add: forward_def)
lemma forward_trans [trans]: "forward a b \<Longrightarrow> forward b c \<Longrightarrow> forward a c" by (auto simp: forward_def)

lemma aside_forward: "aside c c' \<Longrightarrow> forward c c'"
  by (auto simp: aside_def forward_def dest: same_data_wf(8))

section \<open>Open Transport\<close>

definition quiet :: "('w \<Rightarrow> bytes) \<Rightarrow> ('w \<Rightarrow> bytes) \<Rightarrow> ('w \<Rightarrow> 'w) \<Rightarrow> bool" where
  "quiet wi wo f \<longleftrightarrow> (\<forall>w. wi (f w) = wi w \<and> wo (f w) = wo w)"

definition ot_laws :: "('w \<Rightarrow> bytes) \<Rightarrow> ('w \<Rightarrow> bytes) \<Rightarrow> ('w, 'e, 's, 'x) env \<Rightarrow> bool" where
  "ot_laws wi wo E \<longleftrightarrow>
     (\<forall>ep n w got d w'. ot_rcv E ep n w = ((got, d), w') \<longrightarrow> wo w' = wo w \<and>
        (if 0 < got then length d = nat got \<and> nat got \<le> n \<and> wi w' = wi w @ d else wi w' = wi w)) \<and>
     (\<forall>ep b w sent w'. ot_snd E ep b w = (sent, w') \<longrightarrow>
        sent \<le> int (length b) \<and> wi w' = wi w \<and> wo w' = wo w @ take (nat sent) b) \<and>
     quiet wi wo (snd \<circ> ot_create_configuration E) \<and> quiet wi wo (snd \<circ> ot_async_open_endpoint E) \<and>
     (\<forall>ep. quiet wi wo (snd \<circ> ot_bind E ep) \<and> (\<forall>a. quiet wi wo (snd \<circ> ot_connect E ep a)) \<and>
        quiet wi wo (snd \<circ> ot_rcv_connect E ep) \<and> quiet wi wo (ot_tcp_nodelay E ep) \<and>
        quiet wi wo (ot_rcv_orderly_disconnect E ep) \<and> quiet wi wo (ot_rcv_disconnect E ep) \<and>
        quiet wi wo (ot_snd_orderly_disconnect E ep) \<and> quiet wi wo (ot_snd_disconnect E ep) \<and>
        quiet wi wo (ot_close_provider E ep)) \<and>
     quiet wi wo (snd \<circ> new_ptr_clear E) \<and> quiet wi wo (snd \<circ> tick_count E) \<and> quiet wi wo (snd \<circ> read_clock E) \<and>
     (\<forall>n. quiet wi wo (stir_timer E n)) \<and> (\<forall>e. quiet wi wo (snd \<circ> inject_entropy E e))"

text \<open>\<open>io wi wo g i o' g'\<close>: from \<open>g\<close> to \<open>g'\<close> the bytes \<open>i\<close> came in and \<open>o'\<close> went out.\<close>

definition io :: "('w \<Rightarrow> bytes) \<Rightarrow> ('w \<Rightarrow> bytes) \<Rightarrow> ('w, 's) globals \<Rightarrow> bytes \<Rightarrow> bytes \<Rightarrow> ('w, 's) globals \<Rightarrow> bool" where
  "io wi wo g i o' g' \<longleftrightarrow> wi (g_os g') = wi (g_os g) @ i \<and> wo (g_os g') = wo (g_os g) @ o'"

lemma io_refl [simp]: "io wi wo g [] [] g" by (simp add: io_def)

lemma io_trans: "io wi wo g i u g1 \<Longrightarrow> io wi wo g1 i' u' g2 \<Longrightarrow> io wi wo g (i @ i') (u @ u') g2"
  by (simp add: io_def)

lemma io_quiet_trans:
  "io wi wo g [] [] g1 \<Longrightarrow> io wi wo g1 i u g2 \<Longrightarrow> io wi wo g i u g2"
  "io wi wo g i u g1 \<Longrightarrow> io wi wo g1 [] [] g2 \<Longrightarrow> io wi wo g i u g2"
  by (simp_all add: io_def)

lemma io_upd [simp]:
  "io wi wo g i u (g'\<lparr>g_tickets := t\<rparr>) = io wi wo g i u g'" "io wi wo g i u (g'\<lparr>g_sessions := s\<rparr>) = io wi wo g i u g'"
  by (simp_all add: io_def)

lemma io_on_os: "quiet wi wo (snd \<circ> f) \<Longrightarrow> on_os f g = (r, g') \<Longrightarrow> io wi wo g [] [] g'"
  by (auto simp: quiet_def on_os_def io_def split: prod.splits) (metis snd_conv)+

lemma io_do_os: "quiet wi wo f \<Longrightarrow> io wi wo g [] [] (do_os f g)"
  by (simp add: quiet_def do_os_def io_def)

lemma ot_quiet:
  assumes "ot_laws wi wo E"
  shows "quiet wi wo (snd \<circ> ot_create_configuration E)" "quiet wi wo (snd \<circ> ot_async_open_endpoint E)"
    "quiet wi wo (snd \<circ> ot_bind E ep)" "quiet wi wo (snd \<circ> ot_connect E ep a)" "quiet wi wo (snd \<circ> ot_rcv_connect E ep)"
    "quiet wi wo (ot_tcp_nodelay E ep)" "quiet wi wo (ot_rcv_orderly_disconnect E ep)"
    "quiet wi wo (ot_rcv_disconnect E ep)" "quiet wi wo (ot_snd_orderly_disconnect E ep)"
    "quiet wi wo (ot_snd_disconnect E ep)" "quiet wi wo (ot_close_provider E ep)" "quiet wi wo (snd \<circ> new_ptr_clear E)"
    "quiet wi wo (snd \<circ> tick_count E)" "quiet wi wo (snd \<circ> read_clock E)" "quiet wi wo (stir_timer E n)"
    "quiet wi wo (snd \<circ> inject_entropy E e)"
  using assms unfolding ot_laws_def by blast+

lemma ot_rcv_law:
  assumes "ot_laws wi wo E" "on_os (ot_rcv E ep n) g = ((got, d), g')"
  shows "0 < got \<Longrightarrow> length d = nat got \<and> nat got \<le> n \<and> io wi wo g d [] g'" "got \<le> 0 \<Longrightarrow> io wi wo g [] [] g'"
proof -
  obtain w' where w: "ot_rcv E ep n (g_os g) = ((got, d), w')" "g' = g\<lparr>g_os := w'\<rparr>"
    using assms(2) by (auto simp: on_os_def split: prod.splits)
  from assms(1) w(1) have "wo w' = wo (g_os g) \<and>
      (if 0 < got then length d = nat got \<and> nat got \<le> n \<and> wi w' = wi (g_os g) @ d else wi w' = wi (g_os g))"
    unfolding ot_laws_def by blast
  then show "0 < got \<Longrightarrow> length d = nat got \<and> nat got \<le> n \<and> io wi wo g d [] g'" "got \<le> 0 \<Longrightarrow> io wi wo g [] [] g'"
    by (simp_all add: io_def w(2))
qed

lemma ot_snd_law:
  assumes "ot_laws wi wo E" "on_os (ot_snd E ep b) g = (sent, g')"
  shows "nat sent \<le> length b" "io wi wo g [] (take (nat sent) b) g'"
proof -
  obtain w' where w: "ot_snd E ep b (g_os g) = (sent, w')" "g' = g\<lparr>g_os := w'\<rparr>"
    using assms(2) by (auto simp: on_os_def split: prod.splits)
  from assms(1) w(1) have "sent \<le> int (length b) \<and> wi w' = wi (g_os g) \<and> wo w' = wo (g_os g) @ take (nat sent) b"
    unfolding ot_laws_def by blast
  then show "nat sent \<le> length b" "io wi wo g [] (take (nat sent) b) g'"
    by (simp_all add: io_def w(2) nat_le_iff)
qed

section \<open>Handlers that leave the data alone\<close>

lemma consume_release_aside:
  assumes L: "ot_laws wi wo E" and e: "consume_release E c g = (c', g')"
  shows "aside c c' \<and> io wi wo g [] [] g'"
  using e io_do_os [OF ot_quiet(7) [OF L]] by (auto simp: consume_release_def split: if_splits)

lemma consume_disconnect_aside:
  assumes L: "ot_laws wi wo E" and e: "consume_disconnect E look c g = (c', g')"
  shows "aside c c' \<and> io wi wo g [] [] g'"
  using e io_do_os [OF ot_quiet(8) [OF L]]
  by (auto simp: consume_disconnect_def split: if_splits intro: fail_of_aside)

lemma recv_no_bytes_aside:
  assumes L: "ot_laws wi wo E" and e: "recv_no_bytes E got c g = (c', g', r)"
  shows "aside c c' \<and> io wi wo g [] [] g'"
proof -
  obtain c1 g1 where R: "consume_release E c g = (c1, g1)" by fastforce
  obtain c2 g2 where D: "consume_disconnect E T_DISCONNECT c g = (c2, g2)" by fastforce
  note R' = consume_release_aside [OF L R] and D' = consume_disconnect_aside [OF L D]
  show ?thesis
    using e R' D' by (auto simp: recv_no_bytes_def R D Let_def split: if_splits)
qed

lemma pump_ot_recv_tls13_data:
  assumes L: "ot_laws wi wo E" and w: "recv_wf c" and e: "pump_ot_recv_tls13 E c g = (c', g', r)"
  shows "\<exists>d. aside (c\<lparr>c_recv := c_recv c @ d\<rparr>) c' \<and> recv_wf c' \<and> io wi wo g d [] g'"
proof -
  define n where "n = BR_SSL_BUFSIZE_BIDI - length (c_recv c)"
  obtain got d g1 where R: "on_os (ot_rcv E (c_ep c) n) g = ((got, d), g1)" by (metis prod.collapse)
  define c1 where "c1 = c\<lparr>dbg_ot_recv_calls := dbg_ot_recv_calls c + 1\<rparr>"
  have c1: "c_recv c1 = c_recv c" "aside c c1" by (simp_all add: c1_def)
  obtain c2 g2 r2 where N: "recv_no_bytes E got c1 g1 = (c2, g2, r2)" by (metis prod.collapse)
  note N' = recv_no_bytes_aside [OF L N]
  have D: "(c', g', r) =
     (if BR_SSL_BUFSIZE_BIDI \<le> length (c_recv c) then (c, g, 0)
      else if ot_get_endpoint_state E (c_ep c) (g_os g) \<noteq> T_DATAXFER \<and> ot_get_endpoint_state E (c_ep c) (g_os g) \<noteq> T_OUTREL
      then (c\<lparr>nf_data_pending := False\<rparr>, g, 0)
      else if 0 < got
      then (c1\<lparr>c_recv := c_recv c1 @ d, nf_data_pending := False,
               dbg_ot_recv_bytes := dbg_ot_recv_bytes c1 + word_of_int got\<rparr>, do_os (stir_timer E (nat got)) g1, 1)
      else (c2, g2, r2))"
    using e [symmetric] unfolding pump_ot_recv_tls13_def n_def [symmetric] Let_def R prod.case c1_def [symmetric] N .
  show ?thesis
  proof (cases "BR_SSL_BUFSIZE_BIDI \<le> length (c_recv c) \<or> ot_get_endpoint_state E (c_ep c) (g_os g) \<noteq> T_DATAXFER
      \<and> ot_get_endpoint_state E (c_ep c) (g_os g) \<noteq> T_OUTREL")
    case True
    then have "aside c c'" "recv_wf c'" "g' = g" using D w by (auto simp: recv_wf_def split: if_splits)
    then show ?thesis by (intro exI [of _ "[]"]) simp
  next
    case False
    show ?thesis
    proof (cases "0 < got")
      case True
      then have d: "length d \<le> n" "io wi wo g d [] g1" using ot_rcv_law(1) [OF L R] by simp_all
      have c': "c' = c1\<lparr>c_recv := c_recv c1 @ d, nf_data_pending := False,
               dbg_ot_recv_bytes := dbg_ot_recv_bytes c1 + word_of_int got\<rparr>" and g': "g' = do_os (stir_timer E (nat got)) g1"
        using D False True by auto
      have "aside (c\<lparr>c_recv := c_recv c @ d\<rparr>) c'" by (simp add: c' c1_def aside_def same_data_def)
      moreover have "recv_wf c'" using d(1) w by (simp add: c' recv_wf_def n_def c1_def)
      moreover have "io wi wo g d [] g'"
        unfolding g' by (rule io_quiet_trans(2) [OF d(2) io_do_os [OF ot_quiet(15) [OF L]]])
      ultimately show ?thesis by blast
    next
      case got: False
      have c': "c' = c2" "g' = g2" using D False got by auto
      have a: "aside c c'" unfolding c' using aside_trans [OF c1(2)] N' by blast
      then have "recv_wf c'" using w same_data_wf(5) unfolding aside_def by blast
      moreover have "io wi wo g [] [] g'"
        unfolding c' using io_quiet_trans(1) [OF ot_rcv_law(2) [OF L R]] N' got by simp
      ultimately show ?thesis using a by (intro exI [of _ "[]"]) simp
    qed
  qed
qed

lemma send_look_aside:
  assumes L: "ot_laws wi wo E" and e: "send_look E c g = (c', g', r)"
  shows "aside c c' \<and> io wi wo g [] [] g'"
proof -
  obtain c1 g1 where R: "consume_release E c g = (c1, g1)" by fastforce
  obtain c2 g2 where D: "consume_disconnect E T_DISCONNECT c g = (c2, g2)" by fastforce
  note R' = consume_release_aside [OF L R] and D' = consume_disconnect_aside [OF L D]
  show ?thesis using e R' D' by (auto simp: send_look_def R D Let_def split: if_splits)
qed

lemma ostls_send_raw_aside:
  assumes L: "ot_laws wi wo E" and e: "ostls_send_raw E buf c g = (c', g', r, n)"
  shows "aside c c' \<and> n \<le> length buf \<and> io wi wo g [] (take n buf) g' \<and> (r < 0 \<longrightarrow> n = 0)"
proof -
  obtain sent g1 where S: "on_os (ot_snd E (c_ep c) buf) g = (sent, g1)" by fastforce
  define c1 where "c1 = c\<lparr>dbg_ot_send_calls := dbg_ot_send_calls c + 1\<rparr>"
  have c1: "aside c c1" by (simp add: c1_def)
  obtain c2 g2 r2 where K: "send_look E c1 g1 = (c2, g2, r2)" by (metis prod.collapse)
  note K' = send_look_aside [OF L K]
  note laws = ot_snd_law [OF L S]
  have neg: "io wi wo g [] [] g1" if "sent < 0" using laws(2) that by simp
  have c2: "aside c c2" using aside_trans [OF c1] K' by blast
  have g2: "io wi wo g [] [] g2" if "sent < 0" using io_quiet_trans(1) [OF neg [OF that]] K' by blast
  have D: "(c', g', r, n) =
     (if length buf = 0 then (c, g, 0, 0)
      else if ot_get_endpoint_state E (c_ep c) (g_os g) \<noteq> T_DATAXFER \<and> ot_get_endpoint_state E (c_ep c) (g_os g) \<noteq> T_OUTCON
      then (c, g, 0, 0)
      else if 0 \<le> sent
      then (c1\<lparr>dbg_ot_send_bytes := dbg_ot_send_bytes c1 + word_of_int sent,
               dbg_ot_send_zero := (if sent = 0 then dbg_ot_send_zero c1 + 1 else dbg_ot_send_zero c1)\<rparr>, g1, 0, nat sent)
      else if sent = kOTFlowErr
      then (c1\<lparr>dbg_ot_send_flow := dbg_ot_send_flow c1 + 1, nf_want_write := True\<rparr>, g1, 0, 0)
      else if sent = kOTLookErr then (c2, g2, if r2 < 0 then -1 else 0, 0)
      else (fst (ostls_fail c1 kOSTLSAsync_OTSndFail sent 0), g1, -1, 0))"
    using e [symmetric] unfolding ostls_send_raw_def Let_def S prod.case c1_def [symmetric] K .
  show ?thesis
  proof (cases "0 \<le> sent")
    case True
    then show ?thesis using D laws c1 by (auto split: if_splits)
  next
    case False
    then show ?thesis using D neg c1 c2 g2 fail_of_aside [OF c1] by (auto split: if_splits)
  qed
qed

end
