(* ===== verification/Async_Stream.thy ===== *)
theory Async_Stream
  imports Async_Safety "HOL-Library.Sublist"
begin

text \<open>
  The open phase of a TLS 1.3 connection as two streams. \<open>app_data\<close> reads off a byte stream the
  plaintext of its application-data records, up to an alert, a record that does not decrypt or
  the end; \<open>seal_stream\<close> is the sequence of records that carry given chunks. \<open>flows\<close> relates two
  states of a connection: what came in since extends what the caller can still read, what went
  out is the sealed queue. Every handler of the open phase keeps \<open>conn_ok\<close> and flows.
\<close>

section \<open>The streams\<close>

function app_data :: "record_ctx \<Rightarrow> bytes \<Rightarrow> bytes" where
  "app_data ctx wire =
     (case first_record wire of
        None \<Rightarrow> []
      | Some (_, payload, rest) \<Rightarrow>
          if HS_BUF < length payload then []
          else (case tls13_record_decrypt ctx payload of
                  (ctx', buf, None) \<Rightarrow> []
                | (ctx', buf, Some (n, ct)) \<Rightarrow>
                    if ct = TLS13_CT_APPLICATION_DATA then take n buf @ app_data ctx' rest
                    else if ct = TLS13_CT_ALERT then [] else app_data ctx' rest))"
  by pat_completeness auto
termination
  by (relation "measure (\<lambda>(ctx, wire). length wire)") (auto simp: first_record_def Let_def split: if_splits)

declare app_data.simps [simp del]

definition app_record :: "record_ctx \<Rightarrow> bytes \<Rightarrow> bytes" where
  "app_record ctx d = [0x17, 3, 3] @ vec16 (record_seal ctx (d @ [TLS13_CT_APPLICATION_DATA]))"

primrec seal_stream :: "record_ctx \<Rightarrow> bytes list \<Rightarrow> bytes" where
  "seal_stream ctx [] = []"
| "seal_stream ctx (d # ds) = app_record ctx d @ seal_stream (ctx\<lparr>rc_seq := rc_seq ctx + 1\<rparr>) ds"

lemma seal_stream_append:
  "seal_stream ctx (ds @ es) = seal_stream ctx ds @ seal_stream (ctx\<lparr>rc_seq := rc_seq ctx + of_nat (length ds)\<rparr>) es"
  by (induction ds arbitrary: ctx) (simp_all add: add.assoc)

text \<open>Reading what was sealed.\<close>

lemma app_data_Nil: "app_data ctx [] = []"
  by (subst app_data.simps) (simp add: first_record_def)

lemma first_record_app_record:
  assumes "length d + 17 \<le> HS_BUF"
  shows "first_record (app_record ctx d @ rest) = Some (0x17, record_seal ctx (d @ [TLS13_CT_APPLICATION_DATA]), rest)"
proof -
  define c where "c = record_seal ctx (d @ [TLS13_CT_APPLICATION_DATA])"
  have lc: "length c = length d + 17" by (simp add: c_def length_record_seal)
  have s: "app_record ctx d = [0x17, 3, 3] @ put_u16 (word_of_nat (length c)) @ c"
    by (simp add: app_record_def vec16_def c_def)
  have "unat (get_u16 (app_record ctx d @ rest) 3) = length c"
    by (rule get_u16_small) (use assms in \<open>simp_all add: s lc HS_BUF_def rd_def put_u16_def\<close>)
  then show ?thesis
    by (simp add: first_record_def s c_def [symmetric] put_u16_def Let_def add.commute [of 5] del: drop_drop flip: drop_drop)
qed

lemma app_data_sealed:
  "\<forall>d\<in>set ds. length d + 17 \<le> HS_BUF \<Longrightarrow>
   app_data ctx (seal_stream ctx ds @ W) = concat ds @ app_data (ctx\<lparr>rc_seq := rc_seq ctx + of_nat (length ds)\<rparr>) W"
proof (induction ds arbitrary: ctx)
  case Nil
  show ?case by simp
next
  case (Cons d ds)
  define n where "n = ctx\<lparr>rc_seq := rc_seq ctx + 1\<rparr>"
  have ct: "TLS13_CT_APPLICATION_DATA \<noteq> 0" by (simp add: ct_defs)
  obtain buf where d: "tls13_record_decrypt ctx (record_seal ctx (d @ [TLS13_CT_APPLICATION_DATA])) =
       (n, buf, Some (length d, TLS13_CT_APPLICATION_DATA))" "take (length d) buf = d"
    using record_padded_roundtrip [OF ct, of ctx d 0] unfolding n_def by auto
  have l: "length d + 17 \<le> HS_BUF" using Cons.prems by simp
  have "app_data ctx (app_record ctx d @ seal_stream n ds @ W) = d @ app_data n (seal_stream n ds @ W)"
    using l by (subst app_data.simps) (simp add: first_record_app_record [OF l] d length_record_seal)
  also have "\<dots> = d @ concat ds @ app_data (n\<lparr>rc_seq := rc_seq n + of_nat (length ds)\<rparr>) W"
    using Cons.IH Cons.prems by simp
  finally show ?case by (simp add: n_def add.assoc)
qed

section \<open>What a connection still holds\<close>

definition staged :: "('e, 'x) conn \<Rightarrow> bytes" where
  "staged c = (case c_hs13 c of None \<Rightarrow> []
     | Some hs \<Rightarrow> rd (plain_buf hs) (t13_plain_off c) (t13_plain_len c - t13_plain_off c))"

definition outgoing :: "('e, 'x) conn \<Rightarrow> bytes" where
  "outgoing c = rd (t13_send_rec c) (t13_send_off c) (t13_send_len c - t13_send_off c)"

abbreviation up :: "('e, 'x) conn \<Rightarrow> bool" where
  "up c \<equiv> c_state c = kOSTLSStateOpen \<or> c_state c = kOSTLSStateClosing"

definition rctx :: "('e, 'x) conn \<Rightarrow> record_ctx" where "rctx c = hs_read_ctx (the (c_hs13 c))"
definition wctx :: "('e, 'x) conn \<Rightarrow> record_ctx" where "wctx c = hs_write_ctx (the (c_hs13 c))"

lemma staged_cong:
  "c_hs13 c' = c_hs13 c \<Longrightarrow> t13_plain_len c' = t13_plain_len c \<Longrightarrow> t13_plain_off c' = t13_plain_off c \<Longrightarrow> staged c' = staged c"
  by (simp add: staged_def split: option.split)

text \<open>What of the context decides whom the peer was authenticated as.\<close>

definition kept :: "('e, 'x) conn \<Rightarrow> bytes \<times> tls13_hs_state \<times> 'x \<times> x509_pkey \<times> transcript \<times> bool" where
  "kept c = (let hs = the (c_hs13 c)
     in (c_server_name c, hs_state hs, hs_x509 hs, server_pkey hs, hs_transcript hs, resumption_accepted hs))"

text \<open>What the caller may still read if the bytes \<open>W\<close> are to come.\<close>

definition readable :: "('e, 'x) conn \<Rightarrow> bytes \<Rightarrow> bytes" where
  "readable c W = ring c @ staged c @ (if up c then app_data (rctx c) (c_recv c @ W) else [])"

definition flows ::
  "('w \<Rightarrow> bytes) \<Rightarrow> ('w \<Rightarrow> bytes) \<Rightarrow> ('e, 'x) conn \<Rightarrow> ('w, 's) globals \<Rightarrow> ('e, 'x) conn \<Rightarrow> ('w, 's) globals \<Rightarrow> bool" where
  "flows wi wo c g c' g' \<longleftrightarrow>
     (\<exists>i u ds. io wi wo g i u g' \<and> (\<forall>W. prefix (readable c' W) (readable c (i @ W))) \<and>
        u @ outgoing c' = outgoing c @ seal_stream (wctx c) ds \<and>
        wctx c' = (wctx c)\<lparr>rc_seq := rc_seq (wctx c) + of_nat (length ds)\<rparr> \<and> queued c = concat ds @ queued c' \<and>
        kept c' = kept c \<and> forward c c' \<and> (\<forall>d\<in>set ds. length d \<le> OSTLS_WRITE_BUF_SIZE))"

lemma flows_refl: "io wi wo g [] [] g' \<Longrightarrow> flows wi wo c g c g'"
  unfolding flows_def by (intro exI [of _ "[]"]) simp

lemma flows_trans [trans]:
  assumes "flows wi wo c g c1 g1" "flows wi wo c1 g1 c2 g2"
  shows "flows wi wo c g c2 g2"
proof -
  obtain i u ds where a: "io wi wo g i u g1" "\<And>W. prefix (readable c1 W) (readable c (i @ W))"
    "u @ outgoing c1 = outgoing c @ seal_stream (wctx c) ds"
    "wctx c1 = (wctx c)\<lparr>rc_seq := rc_seq (wctx c) + of_nat (length ds)\<rparr>" "queued c = concat ds @ queued c1"
    "kept c1 = kept c" "forward c c1" "\<forall>d\<in>set ds. length d \<le> OSTLS_WRITE_BUF_SIZE"
    using assms(1) unfolding flows_def by blast
  obtain i' u' ds' where b: "io wi wo g1 i' u' g2" "\<And>W. prefix (readable c2 W) (readable c1 (i' @ W))"
    "u' @ outgoing c2 = outgoing c1 @ seal_stream (wctx c1) ds'"
    "wctx c2 = (wctx c1)\<lparr>rc_seq := rc_seq (wctx c1) + of_nat (length ds')\<rparr>" "queued c1 = concat ds' @ queued c2"
    "kept c2 = kept c1" "forward c1 c2" "\<forall>d\<in>set ds'. length d \<le> OSTLS_WRITE_BUF_SIZE"
    using assms(2) unfolding flows_def by blast
  have "(u @ u') @ outgoing c2 = u @ outgoing c1 @ seal_stream (wctx c1) ds'" using b(3) by simp
  also have "\<dots> = outgoing c @ seal_stream (wctx c) (ds @ ds')"
    using a(3) by (simp add: seal_stream_append a(4) flip: append_assoc)
  finally have o: "(u @ u') @ outgoing c2 = outgoing c @ seal_stream (wctx c) (ds @ ds')" .
  have "prefix (readable c2 W) (readable c ((i @ i') @ W))" for W
    using prefix_order.trans [OF b(2) a(2)] by simp
  then show ?thesis
    unfolding flows_def using io_trans [OF a(1) b(1)] o a(4-6) b(4-6) forward_trans [OF a(7) b(7)]
    by (intro exI [of _ "i @ i'"] exI [of _ "u @ u'"] exI [of _ "ds @ ds'"]) (use a(8) b(8) in \<open>auto simp: add.assoc\<close>)
qed

lemma flows_aside:
  assumes a: "aside c c'" and io: "io wi wo g [] [] g'"
  shows "flows wi wo c g c' g'"
proof -
  have d: "same_data c c'" and s: "c_state c' = c_state c \<or> c_state c' = kOSTLSStateFailed"
    using a by (simp_all add: aside_def)
  have e: "staged c' = staged c" "outgoing c' = outgoing c" "rctx c' = rctx c" "wctx c' = wctx c" "c_recv c' = c_recv c"
      "kept c' = kept c"
    using d by (simp_all add: same_data_def staged_def outgoing_def rctx_def wctx_def kept_def split: option.split)
  have "prefix (readable c' W) (readable c W)" for W
    using s by (elim disjE) (simp_all add: readable_def e same_data_queues [OF d])
  then show ?thesis unfolding flows_def using io aside_forward [OF a]
    by (intro exI [of _ "[]"]) (simp add: e same_data_queues [OF d])
qed

section \<open>The handshake context after the handshake\<close>

lemma hs_ok_read:
  assumes "hs_ok hs" "length (rc_key ctx) = 32" "length (rc_iv ctx) = 12" "length b = HS_BUF"
  shows "hs_ok (hs\<lparr>hs_read_ctx := ctx, plain_buf := b\<rparr>)"
  using assms by (simp add: hs_ok_defs buf_wf_def)

lemma hs_ok_write:
  assumes "hs_ok hs" "length (rc_key ctx) = 32" "length (rc_iv ctx) = 12"
  shows "hs_ok (hs\<lparr>hs_write_ctx := ctx\<rparr>)"
  using assms by (simp add: hs_ok_defs buf_wf_def)

lemma hs_ok_ticket [simp]:
  "hs_ok (hs\<lparr>hs_ticket := t\<rparr>) = hs_ok hs" "hs_ok (hs\<lparr>ticket_valid := b\<rparr>) = hs_ok hs"
  "hs_ok (hs\<lparr>resuming := b\<rparr>) = hs_ok hs" "hs_ok (hs\<lparr>offer_ticket := tk\<rparr>) = hs_ok hs"
  "hs_ok (hs\<lparr>offer_obfuscated_age := n\<rparr>) = hs_ok hs"
  by (simp_all add: hs_ok_defs buf_wf_def)

text \<open>A context that differs only in what messages after the handshake may change.\<close>

definition hs_post :: "'x hs_ctx \<Rightarrow> 'x hs_ctx \<Rightarrow> bool" where
  "hs_post hs hs' \<longleftrightarrow> hs' = hs\<lparr>hs_error := hs_error hs', hs_ticket := hs_ticket hs', ticket_valid := ticket_valid hs'\<rparr>"

lemma hs_postI: "hs' = hs\<lparr>hs_error := e, hs_ticket := t, ticket_valid := v\<rparr> \<Longrightarrow> hs_post hs hs'"
  by (simp add: hs_post_def)

lemma hs_postI':
  assumes "h = hs\<lparr>hs_error := hs_error h, hs_ticket := hs_ticket h, ticket_valid := ticket_valid h\<rparr>"
  shows "(h\<lparr>ticket_valid := b\<rparr>) = hs\<lparr>hs_error := hs_error (h\<lparr>ticket_valid := b\<rparr>),
    hs_ticket := hs_ticket (h\<lparr>ticket_valid := b\<rparr>), ticket_valid := ticket_valid (h\<lparr>ticket_valid := b\<rparr>)\<rparr>"
  using assms by (cases h, cases hs) simp

lemma hs_post_facts:
  assumes "hs_post hs hs'"
  shows "hs_ok hs' = hs_ok hs" "hs_state hs' = hs_state hs" "msg_len hs' = msg_len hs" "msg_offset hs' = msg_offset hs"
    "hs_read_ctx hs' = hs_read_ctx hs" "hs_write_ctx hs' = hs_write_ctx hs" "plain_buf hs' = plain_buf hs"
    "hs_x509 hs' = hs_x509 hs" "server_pkey hs' = server_pkey hs" "hs_transcript hs' = hs_transcript hs"
    "resumption_accepted hs' = resumption_accepted hs"
proof -
  define e t v where d: "e = hs_error hs'" "t = hs_ticket hs'" "v = ticket_valid hs'"
  have h: "hs' = hs\<lparr>hs_error := e, hs_ticket := t, ticket_valid := v\<rparr>" using assms unfolding hs_post_def d .
  show "hs_ok hs' = hs_ok hs" "hs_state hs' = hs_state hs" "msg_len hs' = msg_len hs" "msg_offset hs' = msg_offset hs"
    "hs_read_ctx hs' = hs_read_ctx hs" "hs_write_ctx hs' = hs_write_ctx hs" "plain_buf hs' = plain_buf hs"
    "hs_x509 hs' = hs_x509 hs" "server_pkey hs' = server_pkey hs" "hs_transcript hs' = hs_transcript hs"
    "resumption_accepted hs' = resumption_accepted hs"
    unfolding h by simp_all
qed

lemma handle_post_handshake_post: "hs_post hs (fst (tls13_handle_post_handshake hs d))"
  by (auto simp: hs_post_def tls13_handle_post_handshake_def hs_fail_def Let_def split: prod.splits)

section \<open>Handlers of the open phase\<close>

text \<open>The connection is in the mode \<open>Open\<close>, with its context.\<close>

definition open13 :: "('e, 'x) conn \<Rightarrow> bool" where
  "open13 c \<longleftrightarrow> conn_ok c \<and> tls13_mode c = kT13Mode_Open"

lemma open13D:
  assumes "open13 c"
  obtains hs where "c_hs13 c = Some hs" "hs_ok hs" "hs_state hs = kTLS13_Complete" "msg_len hs \<le> msg_offset hs"
  using assms by (auto simp: open13_def conn_ok_def hs13_wf_def split: option.splits)

lemma open13_aside: "aside c c' \<Longrightarrow> open13 c \<Longrightarrow> open13 c'"
  by (auto simp: open13_def aside_def dest: same_data_wf(7) intro: aside_ok [unfolded aside_def])

lemma ring_put_frame:
  "ring_put xs c = (c', n) \<Longrightarrow> c' = c\<lparr>read_buf := read_buf c', read_avail := read_avail c'\<rparr>"
  by (auto simp: ring_put_def Let_def)

lemma deliver_plain_flows:
  assumes o: "open13 c" and e: "pump_tls13_deliver_plain c best = (c', best', r)"
  shows "open13 c' \<and> ring c' @ staged c' = ring c @ staged c \<and> up c' = up c \<and> c_state c' = c_state c \<and>
    rctx c' = rctx c \<and> wctx c' = wctx c \<and> c_recv c' = c_recv c \<and> outgoing c' = outgoing c \<and> queued c' = queued c \<and> kept c' = kept c \<and> forward c c'"
proof -
  obtain hs where hs: "c_hs13 c = Some hs" using o by (rule open13D)
  define p where "p = t13_plain_len c - t13_plain_off c"
  show ?thesis
  proof (cases "p = 0 \<or> OSTLS_READ_BUF_SIZE \<le> read_avail c")
    case True
    then have "c' = c" using e by (auto simp: pump_tls13_deliver_plain_def hs p_def Let_def split: if_splits)
    then show ?thesis using o by simp
  next
    case False
    define src where "src = rd (plain_buf hs) (t13_plain_off c) p"
    obtain c1 n where R: "ring_put src c = (c1, n)" by fastforce
    have c': "c' = c1\<lparr>t13_plain_off := t13_plain_off c1 + n\<rparr>"
      using e False by (auto simp: pump_tls13_deliver_plain_def hs p_def [symmetric] src_def [symmetric] R Let_def)
    define rb ra where d: "rb = read_buf c1" "ra = read_avail c1"
    have c1: "c1 = c\<lparr>read_buf := rb, read_avail := ra\<rparr>" unfolding d by (rule ring_put_frame [OF R])
    have w: "ring_wf c" using o by (simp add: open13_def conn_ok_def)
    note P = read_ring.put [OF w R]
    have n: "n \<le> p" using P by (simp add: src_def)
    have C: "c' = c\<lparr>read_buf := rb, read_avail := ra, t13_plain_off := t13_plain_off c + n\<rparr>"
      unfolding c' c1 by simp
    have r: "ring c' = ring c1" unfolding C c1 by (simp add: ring_def)
    have "ring_wf c'" using P unfolding C c1 by (simp add: ring_wf_def)
    moreover have "queue_wf c' = queue_wf c" "send_wf c' = send_wf c" "recv_wf c' = recv_wf c" "hs13_wf c' = hs13_wf c"
        "mode_wf c' = mode_wf c" "tls13_mode c' = tls13_mode c"
      unfolding C by (simp_all add: queue_wf_def send_wf_def recv_wf_def hs13_wf_def mode_wf_def split: option.split)
    moreover have "plain_wf c'" using o n unfolding C by (simp add: open13_def conn_ok_def plain_wf_def p_def, linarith)
    ultimately have "open13 c'" using o by (simp add: open13_def conn_ok_def)
    moreover have "take n src @ staged c' = staged c"
    proof -
      have "staged c = rd (plain_buf hs) (t13_plain_off c) n @ rd (plain_buf hs) (t13_plain_off c + n) (p - n)"
        using n rd_append [of "plain_buf hs" "t13_plain_off c" n "p - n"] by (simp add: staged_def hs p_def [symmetric])
      moreover have "take n src = rd (plain_buf hs) (t13_plain_off c) n"
        using n rd_append [of "plain_buf hs" "t13_plain_off c" n "p - n"] by (simp add: src_def)
      moreover have "staged c' = rd (plain_buf hs) (t13_plain_off c + n) (p - n)"
        unfolding C by (simp add: staged_def hs p_def)
      ultimately show ?thesis by simp
    qed
    ultimately show ?thesis using P r unfolding C by (simp add: rctx_def wctx_def outgoing_def queued_def kept_def forward_def)
  qed
qed

text \<open>A complete record at the front.\<close>

lemma first_record_complete:
  assumes "5 \<le> length recv" "5 + unat (get_u16 recv 3) \<le> length recv"
  shows "first_record (recv @ W) = Some (byte_at recv 0, rd recv 5 (unat (get_u16 recv 3)), drop (5 + unat (get_u16 recv 3)) recv @ W)"
proof -
  have b: "byte_at (recv @ W) i = byte_at recv i" if "i < 5" for i using assms that by (simp add: byte_at_append, simp add: byte_at_def)
  have g: "get_u16 (recv @ W) 3 = get_u16 recv 3" by (simp add: get_u16_def b)
  have "rd recv 5 (unat (get_u16 recv 3)) = take (unat (get_u16 recv 3)) (drop 5 recv)"
    using assms(2) by (intro rd_eq_take_drop) simp
  then show ?thesis using assms by (simp add: first_record_def Let_def g b)
qed

lemma decrypt_outcome:
  assumes "tls13_record_decrypt ctx p = (ctx', buf, r)"
  shows "rc_key ctx' = rc_key ctx" "rc_iv ctx' = rc_iv ctx" "length buf \<le> length p"
    "r = Some (n, ct) \<Longrightarrow> n \<le> length buf"
  using record_decrypt_outcomes [OF assms] record_decrypt_length [OF assms] by (auto split: option.splits)

lemma rd_wr_take: "n \<le> length xs \<Longrightarrow> rd (wr b 0 xs) 0 n = take n xs"
  by (rule nth_equalityI) (simp_all add: nth_rd byte_at_wr)

text \<open>Replacing the context.\<close>

lemma open13_context:
  assumes "open13 c" "hs_ok hs" "hs_state hs = kTLS13_Complete" "msg_len hs \<le> msg_offset hs"
  shows "open13 (c\<lparr>c_hs13 := Some hs\<rparr>)"
  using assms unfolding open13_def conn_ok_def by (simp add: hs13_wf_def)

lemma open13_recv:
  assumes "open13 c" "length r \<le> length (c_recv c)"
  shows "open13 (c\<lparr>c_recv := r\<rparr>)"
  using assms unfolding open13_def conn_ok_def by (simp add: recv_wf_def)

lemma open13_plain:
  assumes "open13 c" "n \<le> HS_BUF"
  shows "open13 (c\<lparr>t13_plain_len := n, t13_plain_off := 0\<rparr>)"
  using assms unfolding open13_def conn_ok_def by (simp add: plain_wf_def)

lemma open13_closed:
  assumes "open13 c" "s = kOSTLSStateClosed \<or> s = kOSTLSStateFailed \<or> s = kOSTLSStateClosing"
  shows "open13 (c\<lparr>c_state := s\<rparr>)"
  using assms(1) unfolding open13_def conn_ok_def by (simp add: mode_wf_def) (use assms(2) in blast)

lemma t13_post_handshake_post:
  assumes L: "ot_laws wi wo E" and e: "t13_post_handshake E hs d c g = (c', g')"
  obtains hs' where "hs_post hs hs'" "c' = c\<lparr>c_hs13 := Some hs'\<rparr>" "io wi wo g [] [] g'"
proof -
  define h where "h = fst (tls13_handle_post_handshake hs d)"
  have p: "hs_post hs h" unfolding h_def by (rule handle_post_handshake_post)
  obtain now g1 where T: "on_os (tick_count E) g = (now, g1)" by fastforce
  have q: "io wi wo g [] [] g1" by (rule io_on_os [OF ot_quiet(13) [OF L] T])
  have p': "hs_post hs (h\<lparr>ticket_valid := False\<rparr>)" using p unfolding hs_post_def by (rule hs_postI')
  have D: "(c', g') = (if ticket_valid h
      then (c\<lparr>c_hs13 := Some (h\<lparr>ticket_valid := False\<rparr>)\<rparr>,
            g1\<lparr>g_tickets := OSTLS_TicketCachePut (Some (c_host c)) (Some (hs_ticket h)) now (g_tickets g1)\<rparr>)
      else (c\<lparr>c_hs13 := Some h\<rparr>, g))"
    using e [symmetric] unfolding t13_post_handshake_def h_def [symmetric] Let_def T prod.case .
  show thesis
  proof (cases "ticket_valid h")
    case True
    then show thesis using D that [OF p'] q by simp
  next
    case False
    then show thesis using D that [OF p] by simp
  qed
qed

lemma consume_record_flows:
  assumes L: "ot_laws wi wo E" and o: "open13 c" and s: "t13_plain_len c \<le> t13_plain_off c" and u: "up c"
    and e: "pump_tls13_consume_record E c g best = (c', g', best', r)"
  shows "open13 c' \<and> flows wi wo c g c' g'"
proof -
  obtain hs where hs: "c_hs13 c = Some hs" "hs_ok hs" "hs_state hs = kTLS13_Complete" "msg_len hs \<le> msg_offset hs"
    using o by (rule open13D)
  define recv where "recv = c_recv c"
  define n where "n = unat (get_u16 recv 3)"
  have st: "staged c = []" using s by (simp add: staged_def hs)
  show ?thesis
  proof (cases "length recv < 5 \<or> HS_BUF < n \<or> length recv < 5 + n")
    case True
    then have "aside c c' \<and> g' = g"
      using e by (auto simp: pump_tls13_consume_record_def hs recv_def n_def Let_def split: if_splits)
    then show ?thesis using flows_aside open13_aside [OF _ o] io_refl by blast
  next
    case False
    obtain ctx buf res where d: "tls13_record_decrypt (hs_read_ctx hs) (rd recv 5 n) = (ctx, buf, res)"
      by (metis prod.collapse)
    note D = decrypt_outcome [OF d]
    have rc: "length (rc_key ctx) = 32" "length (rc_iv ctx) = 12" using hs(2) D(1,2) by (simp_all add: hs_ok_defs)
    define hs1 where "hs1 = hs\<lparr>hs_read_ctx := ctx, plain_buf := wr (plain_buf hs) 0 buf\<rparr>"
    define c1 where "c1 = c\<lparr>c_hs13 := Some hs1, c_recv := drop (5 + n) recv\<rparr>"
    have "length (wr (plain_buf hs) 0 buf) = HS_BUF" using hs(2) D(3) False by (simp add: hs_ok_defs buf_wf_def)
    then have hs1: "hs_ok hs1" "hs_state hs1 = kTLS13_Complete" "msg_len hs1 \<le> msg_offset hs1"
      using hs_ok_read [OF hs(2) rc] hs(3,4) by (simp_all add: hs1_def)
    have o1: "open13 c1"
      unfolding c1_def using open13_recv [OF open13_context [OF o hs1], of "drop (5 + n) recv"] by (simp add: recv_def)
    have step: "(c', g', best', r) = (case res of
         None \<Rightarrow> (fst (ostls_fail c1 kOSTLSAsync_BearSSLError noErr BR_ERR_BAD_MAC), g, kOSTLSEventFailed, 1)
       | Some (plen, inner) \<Rightarrow>
           if inner = TLS13_CT_APPLICATION_DATA
           then let (c, best, _) = pump_tls13_deliver_plain (c1\<lparr>t13_plain_len := plen, t13_plain_off := 0\<rparr>) best in (c, g, best, 1)
           else if inner = TLS13_CT_ALERT then let (c, best) = t13_alert (take plen (plain_buf hs1)) c1 best in (c, g, best, 1)
           else if inner = TLS13_CT_HANDSHAKE
           then let (c, g) = t13_post_handshake E hs1 (take plen (plain_buf hs1)) c1 g in (c, g, best, 1)
           else (c1, g, best, 1))"
    proof -
      have F: "\<not> length recv < 5" "\<not> HS_BUF < n" "\<not> length recv < 5 + n" using False by simp_all
      show ?thesis
        using e [symmetric] unfolding pump_tls13_consume_record_def hs(1) option.case Let_def recv_def [symmetric]
          n_def [symmetric] d prod.case hs1_def [symmetric] c1_def [symmetric] if_not_P [OF F(1)] if_not_P [OF F(2)]
          if_not_P [OF F(3)] .
    qed
    have fr: "first_record (recv @ W) = Some (byte_at recv 0, rd recv 5 n, drop (5 + n) recv @ W)" for W
      using False unfolding n_def by (intro first_record_complete) simp_all
    have rdW: "readable c W = ring c @ (case res of None \<Rightarrow> []
        | Some (plen, ct) \<Rightarrow> if ct = TLS13_CT_APPLICATION_DATA then take plen buf @ app_data ctx (drop (5 + n) recv @ W)
            else if ct = TLS13_CT_ALERT then [] else app_data ctx (drop (5 + n) recv @ W))" for W
      using u False by (simp add: readable_def st rctx_def hs recv_def [symmetric] app_data.simps [of "hs_read_ctx hs"] fr d)
    have fixed: "wctx c1 = wctx c" "outgoing c1 = outgoing c" "queued c1 = queued c" "ring c1 = ring c" "staged c1 = []"
        "rctx c1 = ctx" "c_recv c1 = drop (5 + n) recv" "c_state c1 = c_state c" "kept c1 = kept c" "forward c c1"
      using s by (simp_all add: forward_def kept_def c1_def wctx_def rctx_def hs1_def hs outgoing_def queued_def ring_def staged_def)
    have nothing_out: "flows wi wo c g c' g'"
      if "io wi wo g [] [] g'" "wctx c' = wctx c1" "outgoing c' = outgoing c1" "queued c' = queued c1"
        "kept c' = kept c1" "forward c1 c'" "\<And>W. prefix (readable c' W) (readable c W)" for c' g'
      unfolding flows_def using that fixed forward_trans [OF fixed(10) that(6)] by (intro exI [of _ "[]"]) simp
    have same: "flows wi wo c g c' g'" if a: "aside c1 c'" and io: "io wi wo g [] [] g'"
        and k: "\<And>W. prefix (readable c1 W) (readable c W) \<or> \<not> up c'" for c' g'
    proof -
      have f: "flows wi wo c1 g c' g'" by (rule flows_aside [OF a io])
      have d: "same_data c1 c'" using a by (simp add: aside_def)
      have q: "staged c' = staged c1" "outgoing c' = outgoing c1" "rctx c' = rctx c1" "wctx c' = wctx c1" "c_recv c' = c_recv c1"
          "kept c' = kept c1"
        using d by (simp_all add: same_data_def staged_def outgoing_def rctx_def wctx_def kept_def split: option.split)
      have "prefix (readable c' W) (readable c W)" for W
      proof (cases "up c'")
        case True
        then have "c_state c' = c_state c1" using a by (auto simp: aside_def)
        then have "readable c' W = readable c1 W" by (simp add: readable_def q same_data_queues [OF d])
        then show ?thesis using k [of W] True by simp
      next
        case False
        then show ?thesis by (simp add: readable_def q same_data_queues [OF d] fixed rdW)
      qed
      then show ?thesis using io q same_data_queues [OF d] aside_forward [OF a] by (intro nothing_out) simp_all
    qed
    show ?thesis
    proof (cases res)
      case None
      have r: "c' = fst (ostls_fail c1 kOSTLSAsync_BearSSLError noErr BR_ERR_BAD_MAC)" "g' = g"
        using step None by simp_all
      have a: "aside c1 c'" unfolding r by (rule fail_aside)
      have "\<not> up c'" unfolding r by (simp add: ostls_fail_def Let_def)
      then show ?thesis using same [OF a] open13_aside [OF a o1] r(2) by simp
    next
      case (Some pc)
      obtain plen ct where pc: "res = Some (plen, ct)" using Some by (cases pc) simp
      have plen: "plen \<le> length buf" using D(4) pc by blast
      have tk: "rd (plain_buf hs1) 0 plen = take plen buf"
        using rd_wr_take [OF plen] by (simp add: hs1_def)
      consider (app) "ct = TLS13_CT_APPLICATION_DATA" | (alert) "ct \<noteq> TLS13_CT_APPLICATION_DATA" "ct = TLS13_CT_ALERT"
        | (hs) "ct \<noteq> TLS13_CT_APPLICATION_DATA" "ct \<noteq> TLS13_CT_ALERT" "ct = TLS13_CT_HANDSHAKE"
        | (other) "ct \<noteq> TLS13_CT_APPLICATION_DATA" "ct \<noteq> TLS13_CT_ALERT" "ct \<noteq> TLS13_CT_HANDSHAKE" by blast
      then show ?thesis
      proof cases
        case app
        define c2 where "c2 = c1\<lparr>t13_plain_len := plen, t13_plain_off := 0\<rparr>"
        obtain c3 b3 r3 where d3: "pump_tls13_deliver_plain c2 best = (c3, b3, r3)" by (metis prod.collapse)
        have r: "c' = c3" "g' = g" using step pc app by (simp_all add: c2_def [symmetric] d3)
        have pl: "plen \<le> HS_BUF" using plen D(3) False by simp
        have o2: "open13 c2" unfolding c2_def by (rule open13_plain [OF o1 pl])
        note F = deliver_plain_flows [OF o2 d3]
        have c2: "wctx c2 = wctx c1" "outgoing c2 = outgoing c1" "queued c2 = queued c1" "ring c2 = ring c1"
            "rctx c2 = ctx" "c_recv c2 = c_recv c1" "c_state c2 = c_state c1" "staged c2 = rd (plain_buf hs1) 0 plen"
            "kept c2 = kept c1" "forward c1 c2"
          using fixed(6) by (simp_all add: forward_def kept_def c2_def c1_def wctx_def rctx_def outgoing_def queued_def ring_def staged_def)
        have "readable c' W = readable c W" for W
          using F u unfolding r readable_def [of c3] by (simp add: rdW pc c2 tk fixed \<open>ct = _\<close>)
        moreover have "forward c1 c3" using F forward_trans [OF c2(10)] by blast
        ultimately show ?thesis using F unfolding r by (intro conjI nothing_out) (simp_all add: c2 fixed)
      next
        case alert
        obtain c3 b3 where a3: "t13_alert (take plen (plain_buf hs1)) c1 best = (c3, b3)" by fastforce
        have r: "c' = c3" "g' = g" using step pc alert by (simp_all add: a3)
        define desc where "desc = (if 2 \<le> length (take plen (plain_buf hs1)) then uint (byte_at (take plen (plain_buf hs1)) 1) else - 1)"
        have A: "(c3, b3) = (if desc = 0
            then if up (c1\<lparr>peer_closed := True\<rparr>)
              then (c1\<lparr>peer_closed := True\<rparr>\<lparr>c_state := kOSTLSStateClosed\<rparr>, event_bump best kOSTLSEventClosed)
              else (c1\<lparr>peer_closed := True\<rparr>, best)
            else (fst (ostls_fail c1 kOSTLSAsync_BearSSLError noErr desc), kOSTLSEventFailed))"
          using a3 [symmetric] unfolding t13_alert_def Let_def desc_def [symmetric] .
        show ?thesis
        proof (cases "desc = 0")
          case True
          have c3: "c3 = c1\<lparr>peer_closed := True, c_state := kOSTLSStateClosed\<rparr>"
            using A True u by (simp add: fixed)
          have "staged c3 = staged c1" "ring c3 = ring c1" unfolding c3 by (auto intro: staged_cong simp: ring_def)
          then have "readable c3 W = ring c" for W
            using fixed(4,5) by (simp add: readable_def c3)
          moreover have "open13 c3" unfolding c3 using open13_aside [OF _ o1, of "c1\<lparr>peer_closed := True\<rparr>"]
            by (intro open13_closed) simp_all
          ultimately show ?thesis unfolding r
            by (intro conjI nothing_out) (use u in \<open>simp_all add: rdW c3 wctx_def outgoing_def queued_def kept_def forward_def fixed\<close>, auto)
        next
          case False
          have c3: "c3 = fst (ostls_fail c1 kOSTLSAsync_BearSSLError noErr desc)"
            using A False by simp
          have a: "aside c1 c'" unfolding r c3 by (rule fail_aside)
          have "\<not> up c'" unfolding r c3 by (simp add: ostls_fail_def Let_def)
          then show ?thesis using same [OF a] open13_aside [OF a o1] r(2) by simp
        qed
      next
        case hs
        obtain c3 g3 where p3: "t13_post_handshake E hs1 (take plen (plain_buf hs1)) c1 g = (c3, g3)" by fastforce
        have r: "c' = c3" "g' = g3" using step pc hs by (simp_all add: p3)
        obtain hs3 where h3: "hs_post hs1 hs3" "c3 = c1\<lparr>c_hs13 := Some hs3\<rparr>" "io wi wo g [] [] g3"
          by (rule t13_post_handshake_post [OF L p3])
        note H = hs_post_facts [OF h3(1)]
        have o3: "open13 c3" unfolding h3(2) using hs1 by (intro open13_context [OF o1]) (simp_all add: H)
        have "wctx c3 = wctx c1" "outgoing c3 = outgoing c1" "queued c3 = queued c1" "ring c3 = ring c1" "rctx c3 = ctx"
            "c_recv c3 = c_recv c1" "c_state c3 = c_state c1" "staged c3 = staged c1"
            "kept c3 = kept c1" "forward c1 c3"
          using H fixed(6) by (simp_all add: h3(2) forward_def kept_def c1_def wctx_def rctx_def outgoing_def queued_def ring_def staged_def)
        then show ?thesis using o3 h3(3) u hs unfolding r
          by (intro conjI nothing_out) (simp_all add: readable_def [of c3] rdW pc fixed)
      next
        case other
        have r: "c' = c1" "g' = g" using step pc other by simp_all
        show ?thesis using o1 u other unfolding r
          by (intro conjI nothing_out) (simp_all add: readable_def [of c1] rdW pc fixed)
      qed
    qed
  qed
qed

lemma build_send_flows:
  assumes o: "open13 c" and e: "pump_tls13_build_send c = (c', r)"
  shows "open13 c' \<and> flows wi wo c g c' g"
proof -
  obtain hs where hs: "c_hs13 c = Some hs" "hs_ok hs" "hs_state hs = kTLS13_Complete" "msg_len hs \<le> msg_offset hs"
    using o by (rule open13D)
  show ?thesis
  proof (cases "t13_send_off c < t13_send_len c \<or> write_avail c = 0")
    case True
    then have "c' = c" using e by (auto simp: pump_tls13_build_send_def hs split: if_splits)
    then show ?thesis using o flows_refl [of wi wo g g] by simp
  next
    case False
    have q: "queue_wf c" "send_wf c" using o by (simp_all add: open13_def conn_ok_def)
    have wa: "write_avail c \<le> OSTLS_WRITE_BUF_SIZE" using q(1) by (simp add: queue_wf_def)
    obtain c1 data where T: "queue_take (write_avail c) c = (c1, data)" by fastforce
    note Q = queue_take_fifo [OF q(1) le_refl T]
    define wp wa' where d: "wp = write_pos c1" "wa' = write_avail c1"
    have c1: "c1 = c\<lparr>write_pos := wp, write_avail := wa'\<rparr>" using Q unfolding d by blast
    define seal where "seal = record_seal (hs_write_ctx hs) (data @ [TLS13_CT_APPLICATION_DATA])"
    define hs' where "hs' = hs\<lparr>hs_write_ctx := (hs_write_ctx hs)\<lparr>rc_seq := rc_seq (hs_write_ctx hs) + 1\<rparr>\<rparr>"
    define b where "b = wr (wr (t13_send_rec c) 5 seal) 0 ([0x17, 3, 3] @ put_u16 (word_of_nat (length seal)))"
    have ls: "length seal = write_avail c + 17" using Q by (simp add: seal_def length_record_seal)
    have c': "c' = c\<lparr>write_pos := wp, write_avail := wa', c_hs13 := Some hs', t13_send_rec := b,
        t13_send_len := 5 + length seal, t13_send_off := 0\<rparr>"
      using e False wa by (simp add: pump_tls13_build_send_def hs T Let_def record_encrypt_seal hs'_def seal_def b_def c1)
    have b: "length b = OSTLS_WRITE_BUF_SIZE + 64" "rd b 0 (5 + length seal) = [0x17, 3, 3] @ vec16 seal"
    proof -
      show "length b = OSTLS_WRITE_BUF_SIZE + 64" using q(2) ls wa by (simp add: b_def send_wf_def OSTLS_WRITE_BUF_SIZE_def)
      have "rd b 0 5 = [0x17, 3, 3] @ put_u16 (word_of_nat (length seal))" unfolding b_def by (rule rd_wr_same_len) simp
      moreover have "rd b 5 (length seal) = seal" unfolding b_def by (subst rd_wr_after) simp_all
      ultimately show "rd b 0 (5 + length seal) = [0x17, 3, 3] @ vec16 seal" by (simp add: rd_append vec16_def)
    qed
    have h: "hs_ok hs'" "hs_state hs' = kTLS13_Complete" "msg_len hs' \<le> msg_offset hs'"
      using hs hs_ok_write [OF hs(2), of "(hs_write_ctx hs)\<lparr>rc_seq := rc_seq (hs_write_ctx hs) + 1\<rparr>"]
      by (simp_all add: hs'_def) (simp_all add: hs_ok_defs)
    have "open13 c1" using o Q unfolding c1 open13_def conn_ok_def by simp
    then have "open13 (c1\<lparr>c_hs13 := Some hs'\<rparr>)" using h by (rule open13_context)
    then have "open13 c'" using b(1) ls wa unfolding c' c1 open13_def conn_ok_def by (simp add: send_wf_def)
    moreover have "flows wi wo c g c' g"
    proof -
      have w: "wctx c = hs_write_ctx hs" "wctx c' = (hs_write_ctx hs)\<lparr>rc_seq := rc_seq (hs_write_ctx hs) + 1\<rparr>"
        unfolding c' by (simp_all add: wctx_def hs hs'_def)
      have "readable c' W = readable c W" for W
        unfolding c' by (simp add: readable_def ring_def staged_def hs hs'_def rctx_def)
      moreover have "outgoing c = []" using False by (simp add: outgoing_def)
      moreover have "outgoing c' = app_record (wctx c) data"
        using b(2) unfolding c' w by (simp add: outgoing_def app_record_def seal_def)
      moreover have "queued c = data @ queued c'" using Q unfolding c' c1 by (simp add: queued_def)
      moreover have "kept c' = kept c" "forward c c'" unfolding c' by (simp_all add: kept_def hs hs'_def forward_def)
      moreover have "length data \<le> OSTLS_WRITE_BUF_SIZE" using Q wa by simp
      ultimately show ?thesis
        unfolding flows_def w(2) by (intro exI [of _ "[]"] exI [of _ "[data]"]) (simp add: w(1))
    qed
    ultimately show ?thesis by blast
  qed
qed

lemma flush_record_flows:
  assumes L: "ot_laws wi wo E" and o: "open13 c" and e: "t13_flush_record E c g best = (c', g', best', r)"
  shows "open13 c' \<and> flows wi wo c g c' g' \<and> (c_state c' = c_state c \<or> c_state c' = kOSTLSStateFailed)"
proof (cases "t13_send_off c < t13_send_len c")
  case False
  then have "c' = c" "g' = g" using e by (simp_all add: t13_flush_record_def)
  then show ?thesis using o flows_refl [of wi wo g g] by simp
next
  case True
  obtain c1 g1 q n where S: "ostls_send_raw E (outgoing c) c g = (c1, g1, q, n)" by (metis prod.collapse)
  note S' = ostls_send_raw_aside [OF L S]
  have a: "same_data c c1" "c_state c1 = c_state c \<or> c_state c1 = kOSTLSStateFailed" using S' by (simp_all add: aside_def)
  have o1: "open13 c1" using S' open13_aside [OF _ o] by blast
  define k where "k = t13_send_off c + n"
  have n: "n \<le> t13_send_len c - t13_send_off c" using S' by (simp add: outgoing_def)
  have k: "k \<le> t13_send_len c" using n True by (simp add: k_def)
  have oc: "take n (outgoing c) @ rd (t13_send_rec c) k (t13_send_len c - k) = outgoing c"
    using rd_append [of "t13_send_rec c" "t13_send_off c" n "t13_send_len c - k"] n True
    by (simp add: outgoing_def k_def rd_append)
  have f: "flows wi wo c g c2 g1" if c2: "same_data c1 (c2\<lparr>t13_send_len := t13_send_len c1, t13_send_off := t13_send_off c1\<rparr>)"
    "outgoing c2 = rd (t13_send_rec c) k (t13_send_len c - k)" "c_state c2 = c_state c1" for c2
  proof -
    have fw: "forward c c2" using a c2 by (auto simp: forward_def same_data_def)
    have e: "c_hs13 c2 = c_hs13 c" "c_server_name c2 = c_server_name c" "c_recv c2 = c_recv c" "t13_plain_len c2 = t13_plain_len c" "t13_plain_off c2 = t13_plain_off c"
      "read_buf c2 = read_buf c" "read_pos c2 = read_pos c" "read_avail c2 = read_avail c"
      "write_buf c2 = write_buf c" "write_pos c2 = write_pos c" "write_avail c2 = write_avail c"
      using a(1) c2(1) by (simp_all add: same_data_def)
    have sr: "staged c2 = staged c" "ring c2 = ring c" by (intro staged_cong) (simp_all add: e ring_def)
    have "prefix (readable c2 W) (readable c W)" for W
      using a(2) c2(3) by (elim disjE) (simp_all add: readable_def sr rctx_def e)
    then show ?thesis unfolding flows_def using S' oc
      by (intro exI [of _ "[]"] exI [of _ "take n (outgoing c)"]) (simp add: c2(2) wctx_def e queued_def kept_def fw)
  qed
  have D: "(c', g', best', r) = (if q < 0 then (c1, g1, best, Some (- 1))
      else let c2 = c1\<lparr>t13_send_off := t13_send_off c1 + n\<rparr>;
               (c2, best) = (if t13_send_len c2 \<le> t13_send_off c2
                             then (c2\<lparr>t13_send_len := 0, t13_send_off := 0\<rparr>, event_bump best kOSTLSEventWritable)
                             else (c2, best))
           in (c2, g1, best, if 0 < n then Some 1 else None))"
    using e True S by (simp add: t13_flush_record_def outgoing_def)
  have w: "send_wf c" using o by (simp add: open13_def conn_ok_def)
  consider (failed) "q < 0" | (all) "0 \<le> q" "k = t13_send_len c" | (part) "0 \<le> q" "k < t13_send_len c" using k by linarith
  then show ?thesis
  proof cases
    case failed
    then have "c' = c1" "g' = g1" using D by simp_all
    moreover have "n = 0" using S' failed by simp
    then have "outgoing c1 = rd (t13_send_rec c) k (t13_send_len c - k)"
      using a(1) by (simp add: outgoing_def same_data_def k_def)
    ultimately show ?thesis using f [of c1] o1 a(2) by (simp add: same_data_def)
  next
    case all
    then have c': "c' = c1\<lparr>t13_send_len := 0, t13_send_off := 0\<rparr>" "g' = g1"
      using D a(1) by (simp_all add: same_data_def k_def)
    have "open13 c'" using o1 unfolding c' open13_def conn_ok_def by (simp add: send_wf_def)
    moreover have "flows wi wo c g c' g1" unfolding c' by (rule f) (simp_all add: all outgoing_def)
    ultimately show ?thesis using a(2) by (simp add: c')
  next
    case part
    then have c': "c' = c1\<lparr>t13_send_off := k\<rparr>" "g' = g1"
      using D a(1) by (auto simp: same_data_def k_def Let_def)
    have "open13 c'" using o1 w part a(1) unfolding c' open13_def conn_ok_def by (simp add: send_wf_def same_data_def)
    moreover have "flows wi wo c g c' g1" unfolding c' using a(1) by (intro f) (simp_all add: outgoing_def same_data_def)
    ultimately show ?thesis using a(2) by (simp add: c')
  qed
qed

lemma recv_tls13_flows:
  assumes L: "ot_laws wi wo E" and o: "open13 c" and e: "pump_ot_recv_tls13 E c g = (c', g', r)"
  shows "open13 c' \<and> flows wi wo c g c' g'"
proof -
  have w: "recv_wf c" using o by (simp add: open13_def conn_ok_def)
  obtain d where d: "aside (c\<lparr>c_recv := c_recv c @ d\<rparr>) c'" "recv_wf c'" "io wi wo g d [] g'"
    using pump_ot_recv_tls13_data [OF L w e] by blast
  define c1 where "c1 = c\<lparr>c_recv := c_recv c @ d\<rparr>"
  have a: "aside c1 c'" and sd: "same_data c1 c'" using d(1) by (simp_all add: c1_def aside_def)
  have "recv_wf c1" using d(2) same_data_wf(5) [OF sd] by blast
  then have o1: "open13 c1" using o unfolding c1_def open13_def conn_ok_def by simp
  have "flows wi wo c1 g' c' g'" by (rule flows_aside [OF a]) simp
  then obtain i u ds where F: "io wi wo g' i u g'" "\<And>W. prefix (readable c' W) (readable c1 (i @ W))"
      "u @ outgoing c' = outgoing c1 @ seal_stream (wctx c1) ds"
      "wctx c' = (wctx c1)\<lparr>rc_seq := rc_seq (wctx c1) + of_nat (length ds)\<rparr>" "queued c1 = concat ds @ queued c'"
      "kept c' = kept c1" "forward c1 c'" "\<forall>d\<in>set ds. length d \<le> OSTLS_WRITE_BUF_SIZE"
    unfolding flows_def by blast
  have z: "i = []" "u = []" using F(1) by (simp_all add: io_def)
  have q: "outgoing c1 = outgoing c" "wctx c1 = wctx c" "queued c1 = queued c" "ring c1 = ring c" "staged c1 = staged c"
      "rctx c1 = rctx c" "kept c1 = kept c" "forward c c1"
    by (simp_all add: forward_def kept_def c1_def outgoing_def wctx_def queued_def ring_def staged_def rctx_def split: option.split)
  have r1: "readable c1 W = readable c (d @ W)" for W unfolding readable_def q by (simp add: c1_def)
  have "flows wi wo c g c' g'"
    unfolding flows_def using d(3) F(2-6) F(8) forward_trans [OF q(8) F(7)] unfolding z r1 [symmetric] q
    by (intro exI [of _ d] exI [of _ "[]"] exI [of _ ds]) (simp add: r1)
  then show ?thesis using open13_aside [OF a o1] by simp
qed

lemma open_phase_flows:
  assumes L: "ot_laws wi wo E" and o: "open13 c" and u: "up c" and e: "t13_open_phase E c g best = (c', g', best', r)"
  shows "open13 c' \<and> flows wi wo c g c' g'"
proof (cases "t13_plain_off c < t13_plain_len c")
  case True
  obtain c1 b1 r1 where D: "pump_tls13_deliver_plain c best = (c1, b1, r1)" by (metis prod.collapse)
  have c': "c' = c1" "g' = g" using e True by (simp_all add: t13_open_phase_def D)
  note F = deliver_plain_flows [OF o D]
  have "readable c1 W = readable c W" for W
    using F by (simp add: readable_def flip: append_assoc)
  then show ?thesis using F unfolding c' flows_def by (intro conjI exI [of _ "[]"]) simp_all
next
  case False
  obtain c1 built where B: "(if 0 < write_avail c \<and> t13_send_len c \<le> t13_send_off c
      then pump_tls13_build_send c else (c, 0)) = (c1, built)" by fastforce
  have B': "open13 c1 \<and> flows wi wo c g c1 g"
  proof (cases "0 < write_avail c \<and> t13_send_len c \<le> t13_send_off c")
    case True
    then show ?thesis using build_send_flows [OF o, of c1 built wi wo g] B by simp
  next
    case False
    then show ?thesis using B o flows_refl [of wi wo g g] by auto
  qed
  obtain c2 g2 b2 r2 where C: "pump_tls13_consume_record E c1 g best = (c2, g2, b2, r2)" by (metis prod.collapse)
  obtain c3 g3 r3 where R: "(if peer_closed c2 then (c2, g2, 0) else pump_ot_recv_tls13 E c2 g2) = (c3, g3, r3)"
    by (metis prod.collapse)
  have D: "(c', g', best', r) =
    (if built \<noteq> 0 then (c1, g, best, 1)
     else if r2 \<noteq> 0 then (c2, g2, b2, 1)
     else if r3 \<noteq> 0 then (c3, g3, b2, r3)
     else if peer_closed c3 \<and> t13_plain_len c3 \<le> t13_plain_off c3 \<and> length (c_recv c3) < 5
       \<and> c_state c3 \<noteq> kOSTLSStateClosed \<and> c_state c3 \<noteq> kOSTLSStateFailed
     then (c3\<lparr>c_state := kOSTLSStateClosed\<rparr>, g3, event_bump b2 kOSTLSEventClosed, 1)
     else (c3, g3, b2, 0))"
    using e [symmetric] unfolding t13_open_phase_def if_not_P [OF False] B Let_def prod.case C R .
  show ?thesis
  proof (cases "built \<noteq> 0")
    case True
    then show ?thesis using D B' by simp
  next
    case nb: False
    then have "c1 = c" using B by (auto simp: pump_tls13_build_send_def Let_def split: if_splits option.splits prod.splits)
    then have C': "open13 c2 \<and> flows wi wo c g c2 g2"
      using consume_record_flows [OF L o _ u] C False by auto
    have R': "open13 c3 \<and> flows wi wo c2 g2 c3 g3"
    proof (cases "peer_closed c2")
      case True
      then show ?thesis using R C' flows_refl [of wi wo g2 g2] by simp
    next
      case False
      then show ?thesis using recv_tls13_flows [OF L, of c2 g2 c3 g3 r3] C' R by simp
    qed
    have T: "flows wi wo c g c3 g3" using C' R' flows_trans by blast
    have cl: "open13 (c3\<lparr>c_state := kOSTLSStateClosed\<rparr>) \<and> flows wi wo c3 g3 (c3\<lparr>c_state := kOSTLSStateClosed\<rparr>) g3"
      if nf: "c_state c3 \<noteq> kOSTLSStateFailed"
    proof
      let ?c = "c3\<lparr>c_state := kOSTLSStateClosed\<rparr>"
      show "open13 ?c" using R' by (intro open13_closed) simp_all
      have q: "outgoing ?c = outgoing c3" "wctx ?c = wctx c3" "queued ?c = queued c3" "ring ?c = ring c3" "staged ?c = staged c3"
          "kept ?c = kept c3"
        by (auto simp: kept_def outgoing_def wctx_def queued_def ring_def intro: staged_cong)
      have fw: "forward c3 ?c" using nf by (cases "c_state c3") (simp_all add: forward_def)
      have "prefix (readable ?c W) (readable c3 W)" for W by (simp add: readable_def q)
      then show "flows wi wo c3 g3 ?c g3" unfolding flows_def by (intro exI [of _ "[]"]) (use fw in \<open>simp add: q\<close>)
    qed
    show ?thesis using D nb C' R' T cl flows_trans [OF T] by (auto split: if_splits)
  qed
qed

text \<open>One step, one turn of the loop, one call.\<close>

lemma tls13_step_flows:
  assumes L: "ot_laws wi wo E" and o: "open13 c" and u: "up c" and e: "pump_tls13_step E P c g best = (c', g', best', r)"
  shows "open13 c' \<and> flows wi wo c g c' g'"
proof -
  obtain hs where hs: "c_hs13 c = Some hs" "msg_len hs \<le> msg_offset hs" using o by (rule open13D)
  have m: "tls13_mode c = kT13Mode_Open" using o by (simp add: open13_def)
  obtain c1 g1 b1 r1 where F: "t13_flush_record E c g best = (c1, g1, b1, r1)" by (metis prod.collapse)
  note F' = flush_record_flows [OF L o F]
  have m1: "tls13_mode c1 = kT13Mode_Open" using F' by (simp add: open13_def)
  have fl: "t13_flush_handshake E hs c g = (c, g, None)" using hs(2) by (simp add: t13_flush_handshake_def)
  show ?thesis
  proof (cases "r1 = None \<and> up c1")
    case False
    then have "c' = c1" "g' = g1" using e F' u m1 by (auto simp: pump_tls13_step_def hs(1) fl F split: option.splits)
    then show ?thesis using F' by simp
  next
    case True
    then have "t13_open_phase E c1 g1 b1 = (c', g', best', r)"
      using e m1 by (auto simp: pump_tls13_step_def hs(1) fl F)
    then show ?thesis using open_phase_flows [OF L] F' True flows_trans by blast
  qed
qed

lemma pump_pre_aside:
  assumes L: "ot_laws wi wo E" and e: "pump_handshake_or_open_pre E c g = (c', g', ev)"
  shows "aside c c' \<and> io wi wo g [] [] g' \<and> (ev \<noteq> kOSTLSEventFailed \<longrightarrow> c_state c' = c_state c)"
proof -
  obtain now g1 where T: "on_os (tick_count E) g = (now, g1)" by fastforce
  have q1: "io wi wo g [] [] g1" by (rule io_on_os [OF ot_quiet(13) [OF L] T])
  define late where "late \<longleftrightarrow> c_state c = kOSTLSStateHandshaking \<and> handshake_timeout_ticks c < now - handshake_start_ticks c"
  define g2 where "g2 = (if c_state c = kOSTLSStateHandshaking then g1 else g)"
  have q2: "io wi wo g [] [] g2" using q1 by (simp add: g2_def)
  have q3: "io wi wo g [] [] (do_os (ot_rcv_disconnect E (c_ep c)) g2)"
    by (rule io_quiet_trans(2) [OF q2 io_do_os [OF ot_quiet(8) [OF L]]])
  obtain c3 e3 where F3: "ostls_fail c kOSTLSAsync_HandshakeTimeout noErr 0 = (c3, e3)" by fastforce
  obtain c4 e4 where F4: "ostls_fail (c\<lparr>disc_consumed := True\<rparr>) kOSTLSAsync_OTSndFail (nf_last_result c) 0 = (c4, e4)" by fastforce
  have a: "aside c c3" "aside c c4"
    using fail_aside' [OF F3] fail_of_aside [of c "c\<lparr>disc_consumed := True\<rparr>" kOSTLSAsync_OTSndFail "nf_last_result c" 0] F4 by simp_all
  have st: "e3 \<noteq> kOSTLSEventFailed \<Longrightarrow> c_state c3 = c_state c" "e4 \<noteq> kOSTLSEventFailed \<Longrightarrow> c_state c4 = c_state c"
    using F3 F4 by (auto simp: ostls_fail_def Let_def split: if_splits)
  have D: "(c', g', ev) = (if late then (c3, g2, e3)
     else if nf_disconnect c \<and> \<not> disc_consumed c then (c4, do_os (ot_rcv_disconnect E (c_ep c)) g2, e4)
     else (c, g2, kOSTLSEventNone))"
    using e by (cases "c_state c = kOSTLSStateHandshaking")
      (auto simp: pump_handshake_or_open_pre_def T late_def g2_def F3 F4)
  show ?thesis using D a st q2 q3 by (auto split: if_splits)
qed

lemma iteration_flows:
  assumes L: "ot_laws wi wo E" and o: "open13 c" and e: "pump_iteration E P c g best = (c', g', best', again)"
  shows "open13 c' \<and> flows wi wo c g c' g'"
proof (cases "c_state c = kOSTLSStateFailed \<or> c_state c = kOSTLSStateClosed")
  case True
  then show ?thesis using e o flows_refl [of wi wo g g] by (simp add: pump_iteration_def)
next
  case False
  then have u: "up c" using o by (auto simp: open13_def conn_ok_def mode_wf_def)
  obtain c1 g1 ev where p: "pump_handshake_or_open_pre E c g = (c1, g1, ev)" by (metis prod.collapse)
  note p' = pump_pre_aside [OF L p]
  have o1: "open13 c1" and f1: "flows wi wo c g c1 g1" using p' open13_aside [OF _ o] flows_aside by blast+
  show ?thesis
  proof (cases "ev = kOSTLSEventFailed")
    case True
    then show ?thesis using e False o1 f1 by (simp add: pump_iteration_def p)
  next
    case nf: False
    have u1: "up c1" using p' nf u by auto
    have m1: "tls13_mode c1 = kT13Mode_Open" using o1 by (simp add: open13_def)
    obtain c2 g2 b2 r2 where s: "pump_tls13_step E P c1 g1 best = (c2, g2, b2, r2)" by (metis prod.collapse)
    have "c' = c2" "g' = g2" using e False nf u1 by (auto simp: pump_iteration_def p m1 s)
    then show ?thesis using tls13_step_flows [OF L o1 u1 s] f1 flows_trans by blast
  qed
qed

lemma loop_flows:
  assumes L: "ot_laws wi wo E"
  shows "open13 c \<Longrightarrow> pump_loop E P n c g best = (c', g', best') \<Longrightarrow> open13 c' \<and> flows wi wo c g c' g'"
proof (induction n arbitrary: c g best)
  case 0
  then show ?case using flows_refl [of wi wo g g] by simp
next
  case (Suc n)
  obtain c1 g1 b1 again where i: "pump_iteration E P c g best = (c1, g1, b1, again)" by (metis prod.collapse)
  note I = iteration_flows [OF L Suc.prems(1) i]
  show ?case
  proof (cases again)
    case True
    then show ?thesis using Suc.IH [of c1 g1 b1] Suc.prems(2) I flows_trans by (auto simp: i) blast
  next
    case False
    then show ?thesis using Suc.prems(2) I by (simp add: i)
  qed
qed

lemma pump_flows:
  assumes L: "ot_laws wi wo E" and o: "open13 c" and e: "OSTLS_Pump E P n (Some c) g = (r, g', err, ev)"
  shows "\<exists>c'. r = Some c' \<and> open13 c' \<and> flows wi wo c g c' g'"
proof -
  define c1 where "c1 = c\<lparr>dbg_pump_calls := dbg_pump_calls c + 1,
      br_state_last := (if bearssl_initialised c then br_current_state E (c_sc c) else br_state_last c)\<rparr>"
  have a: "aside c c1" by (simp add: c1_def)
  obtain c2 g2 b where l: "pump_loop E P n c1 g kOSTLSEventNone = (c2, g2, b)" by (metis prod.collapse)
  have o1: "open13 c1" by (rule open13_aside [OF a o])
  have f1: "flows wi wo c g c1 g" by (rule flows_aside [OF a]) simp
  have "r = Some c \<and> g' = g \<or> r = Some c1 \<and> g' = g \<or> r = Some c2 \<and> g' = g2"
    using e unfolding OSTLS_Pump_def option.case Let_def c1_def [symmetric] l prod.case by (simp split: if_splits)
  then show ?thesis
    using o o1 f1 flows_refl [of wi wo g g] loop_flows [OF L o1 l] flows_trans [OF f1] by auto
qed

section \<open>Sessions\<close>

text \<open>Any sequence of calls of the client and notifications of Open Transport on one connection,
  with the bytes \<open>OSTLS_Read\<close> handed out and the bytes \<open>OSTLS_Write\<close> accepted.\<close>

inductive session ::
  "('w, 'e, 's, 'x) env \<Rightarrow> 'x prims \<Rightarrow> ('e, 'x) conn \<Rightarrow> ('w, 's) globals \<Rightarrow> bytes \<Rightarrow> bytes
   \<Rightarrow> ('e, 'x) conn \<Rightarrow> ('w, 's) globals \<Rightarrow> bool" for E P c0 g0 where
  start: "session E P c0 g0 [] [] c0 g0"
| pumped: "session E P c0 g0 r w c g \<Longrightarrow> OSTLS_Pump E P n (Some c) g = (Some c', g', err, ev) \<Longrightarrow> session E P c0 g0 r w c' g'"
| got: "session E P c0 g0 r w c g \<Longrightarrow> OSTLS_Read (Some c) (Some cap) = (Some c', err, ys) \<Longrightarrow>
    session E P c0 g0 (r @ ys) w c' g"
| wrote: "session E P c0 g0 r w c g \<Longrightarrow> OSTLS_Write (Some c) (Some data) = (Some c', err, n) \<Longrightarrow>
    session E P c0 g0 r (w @ take n data) c' g"
| closing: "session E P c0 g0 r w c g \<Longrightarrow> OSTLS_Close E (Some c) g = (Some c', g') \<Longrightarrow> session E P c0 g0 r w c' g'"
| notified: "session E P c0 g0 r w c g \<Longrightarrow> session E P c0 g0 r w (ostls_notifier event result cookie c) g"

lemma notifier_aside: "aside c (ostls_notifier event result cookie c)"
  by (simp add: ostls_notifier_def Let_def)

lemma read_flows:
  assumes o: "open13 c" and e: "OSTLS_Read (Some c) (Some cap) = (Some c', err, ys)"
  shows "open13 c' \<and> readable c W = ys @ readable c' W \<and> outgoing c' = outgoing c \<and> wctx c' = wctx c \<and> queued c' = queued c"
proof -
  have w: "ring_wf c" using o by (simp add: open13_def conn_ok_def)
  have R: "ring_wf c'" "ring c = ys @ ring c'" "c' = c\<lparr>read_pos := read_pos c', read_avail := read_avail c'\<rparr>"
    using ring_read [OF w e] by auto
  define rp ra where d: "rp = read_pos c'" "ra = read_avail c'"
  have c': "c' = c\<lparr>read_pos := rp, read_avail := ra\<rparr>" using R(3) unfolding d .
  have "open13 c'" using o R(1) unfolding c' open13_def conn_ok_def by simp
  moreover have "staged c' = staged c" unfolding c' by (intro staged_cong) simp_all
  moreover have "outgoing c' = outgoing c" "wctx c' = wctx c" "rctx c' = rctx c" "queued c' = queued c" "c_recv c' = c_recv c"
      "c_state c' = c_state c"
    unfolding c' by (simp_all add: outgoing_def wctx_def rctx_def queued_def)
  ultimately show ?thesis using R(2) by (simp add: readable_def)
qed

lemma write_flows:
  assumes o: "open13 c" and e: "OSTLS_Write (Some c) (Some data) = (Some c', err, n)"
  shows "open13 c' \<and> readable c' W = readable c W \<and> outgoing c' = outgoing c \<and> wctx c' = wctx c
    \<and> queued c' = queued c @ take n data"
proof -
  have w: "queue_wf c" using o by (simp add: open13_def conn_ok_def)
  have R: "queue_wf c'" "queued c' = queued c @ take n data"
      "c' = c\<lparr>write_buf := write_buf c', write_pos := write_pos c', write_avail := write_avail c'\<rparr>"
    using queue_write [OF w e] by auto
  define wb wp wa where d: "wb = write_buf c'" "wp = write_pos c'" "wa = write_avail c'"
  have c': "c' = c\<lparr>write_buf := wb, write_pos := wp, write_avail := wa\<rparr>" using R(3) unfolding d .
  have "open13 c'" using o R(1) unfolding c' open13_def conn_ok_def by simp
  moreover have "staged c' = staged c" unfolding c' by (intro staged_cong) simp_all
  moreover have "outgoing c' = outgoing c" "wctx c' = wctx c" "rctx c' = rctx c" "ring c' = ring c" "c_recv c' = c_recv c"
      "c_state c' = c_state c"
    unfolding c' by (simp_all add: outgoing_def wctx_def rctx_def ring_def)
  ultimately show ?thesis using R(2) by (simp add: readable_def)
qed

lemma close_flows:
  assumes L: "ot_laws wi wo E" and o: "open13 c" and e: "OSTLS_Close E (Some c) g = (Some c', g')"
  shows "open13 c' \<and> flows wi wo c g c' g'"
proof -
  have m: "tls13_mode c = kT13Mode_Open" "mode_wf c" using o by (simp_all add: open13_def conn_ok_def)
  define c1 where "c1 = c\<lparr>close_requested := True\<rparr>"
  have a1: "aside c c1" by (simp add: c1_def)
  show ?thesis
  proof (cases "c_disposed c \<or> close_requested c \<or> \<not> up c")
    case True
    then have "(c' = c \<or> c' = c1) \<and> g' = g"
      using e m by (auto simp: OSTLS_Close_def c1_def mode_wf_def Let_def split: if_splits)
    then show ?thesis using o open13_aside [OF a1 o] flows_aside [OF a1 io_refl] flows_refl [of wi wo g g] by auto
  next
    case False
    define c2 where "c2 = c1\<lparr>close_notify_sent := True\<rparr>"
    have a2: "aside c c2" by (simp add: c2_def c1_def)
    have o2: "open13 c2" by (rule open13_aside [OF a2 o])
    have c': "c' = c2\<lparr>c_state := kOSTLSStateClosing\<rparr>" and io: "io wi wo g [] [] g'"
      using e m False io_do_os [OF ot_quiet(9) [OF L, of "c_ep c"], of g]
      by (auto simp: OSTLS_Close_def c2_def c1_def Let_def split: if_splits)
    have q: "outgoing c' = outgoing c2" "wctx c' = wctx c2" "queued c' = queued c2" "ring c' = ring c2"
        "rctx c' = rctx c2" "c_recv c' = c_recv c2" "staged c' = staged c2" "up c2" "kept c' = kept c2"
      using False unfolding c' by (auto simp: kept_def outgoing_def wctx_def queued_def ring_def rctx_def c2_def c1_def intro: staged_cong)
    have "readable c' W = readable c2 W" for W using q by (simp add: readable_def) (simp add: c')
    moreover have "forward c2 c'" using q(8) unfolding c' by (auto simp: forward_def)
    ultimately have "flows wi wo c2 g c' g'" unfolding flows_def using io q by (intro exI [of _ "[]"]) simp
    moreover have "flows wi wo c g c2 g" by (rule flows_aside [OF a2]) simp
    moreover have "open13 c'" unfolding c' using o2 by (intro open13_closed) simp_all
    ultimately show ?thesis using flows_trans by blast
  qed
qed

lemma session_flows:
  fixes g0 g :: "('w, 's) globals"
  assumes L: "ot_laws wi wo E" and o: "open13 c0" and s: "session E P c0 g0 r w c g"
  shows "open13 c \<and> (\<exists>i u ds. io wi wo g0 i u g \<and> (\<forall>W. prefix (r @ readable c W) (readable c0 (i @ W))) \<and>
    u @ outgoing c = outgoing c0 @ seal_stream (wctx c0) ds \<and>
    wctx c = (wctx c0)\<lparr>rc_seq := rc_seq (wctx c0) + of_nat (length ds)\<rparr> \<and> queued c0 @ w = concat ds @ queued c \<and>
    (\<forall>d\<in>set ds. length d \<le> OSTLS_WRITE_BUF_SIZE))"
  using s
proof (induction rule: session.induct)
  case start
  show ?case using o by (intro conjI exI [of _ "[]"]) simp_all
next
  have go: "\<exists>i u ds. io wi wo g0 i u g' \<and> (\<forall>W. prefix (r @ readable c' W) (readable c0 (i @ W))) \<and>
      u @ outgoing c' = outgoing c0 @ seal_stream (wctx c0) ds \<and>
      wctx c' = (wctx c0)\<lparr>rc_seq := rc_seq (wctx c0) + of_nat (length ds)\<rparr> \<and> queued c0 @ w = concat ds @ queued c' \<and>
      (\<forall>d\<in>set ds. length d \<le> OSTLS_WRITE_BUF_SIZE)"
    if H: "\<exists>i u ds. io wi wo g0 i u g \<and> (\<forall>W. prefix (r @ readable c W) (readable c0 (i @ W))) \<and>
      u @ outgoing c = outgoing c0 @ seal_stream (wctx c0) ds \<and>
      wctx c = (wctx c0)\<lparr>rc_seq := rc_seq (wctx c0) + of_nat (length ds)\<rparr> \<and> queued c0 @ w = concat ds @ queued c \<and>
      (\<forall>d\<in>set ds. length d \<le> OSTLS_WRITE_BUF_SIZE)"
    and F: "flows wi wo c g c' g'" for c c' r w and g g' :: "('w, 's) globals"
  proof -
    obtain i u ds where h: "io wi wo g0 i u g" "\<And>W. prefix (r @ readable c W) (readable c0 (i @ W))"
      "u @ outgoing c = outgoing c0 @ seal_stream (wctx c0) ds"
      "wctx c = (wctx c0)\<lparr>rc_seq := rc_seq (wctx c0) + of_nat (length ds)\<rparr>" "queued c0 @ w = concat ds @ queued c"
      "\<forall>d\<in>set ds. length d \<le> OSTLS_WRITE_BUF_SIZE"
      using H by blast
    obtain i' u' ds' where f: "io wi wo g i' u' g'" "\<And>W. prefix (readable c' W) (readable c (i' @ W))"
      "u' @ outgoing c' = outgoing c @ seal_stream (wctx c) ds'"
      "wctx c' = (wctx c)\<lparr>rc_seq := rc_seq (wctx c) + of_nat (length ds')\<rparr>" "queued c = concat ds' @ queued c'"
      "\<forall>d\<in>set ds'. length d \<le> OSTLS_WRITE_BUF_SIZE"
      using F unfolding flows_def by blast
    have "(u @ u') @ outgoing c' = u @ outgoing c @ seal_stream (wctx c) ds'" using f(3) by simp
    also have "\<dots> = outgoing c0 @ seal_stream (wctx c0) (ds @ ds')"
      using h(3) by (simp add: seal_stream_append h(4) flip: append_assoc)
    finally have o: "(u @ u') @ outgoing c' = outgoing c0 @ seal_stream (wctx c0) (ds @ ds')" .
    have "prefix (r @ readable c' W) (readable c0 ((i @ i') @ W))" for W
      using prefix_order.trans [OF _ h(2) [of "i' @ W"]] f(2) [of W] by simp
    then show ?thesis using io_trans [OF h(1) f(1)] o h(4,5) f(4,5)
      by (intro exI [of _ "i @ i'"] exI [of _ "u @ u'"] exI [of _ "ds @ ds'"]) (use h(6) f(6) in \<open>auto simp: add.assoc\<close>)
  qed
  {
    case (pumped r w c g n c' g' err ev)
    then have "open13 c' \<and> flows wi wo c g c' g'" using pump_flows [OF L] by blast
    then show ?case using go pumped.IH by blast
  next
    case (got r w c g cap c' err ys)
    have o: "open13 c" using got.IH by blast
    note R = read_flows [OF o got.hyps(2)]
    obtain i u ds where h: "io wi wo g0 i u g" "\<And>W. prefix (r @ readable c W) (readable c0 (i @ W))"
      "u @ outgoing c = outgoing c0 @ seal_stream (wctx c0) ds"
      "wctx c = (wctx c0)\<lparr>rc_seq := rc_seq (wctx c0) + of_nat (length ds)\<rparr>" "queued c0 @ w = concat ds @ queued c"
      "\<forall>d\<in>set ds. length d \<le> OSTLS_WRITE_BUF_SIZE"
      using got.IH by blast
    have "prefix ((r @ ys) @ readable c' W) (readable c0 (i @ W))" for W using h(2) [of W] R [of W] by simp
    then show ?case using h R by auto
  next
    case (wrote r w c g data c' err n)
    have o: "open13 c" using wrote.IH by blast
    note R = write_flows [OF o wrote.hyps(2)]
    obtain i u ds where h: "io wi wo g0 i u g" "\<And>W. prefix (r @ readable c W) (readable c0 (i @ W))"
      "u @ outgoing c = outgoing c0 @ seal_stream (wctx c0) ds"
      "wctx c = (wctx c0)\<lparr>rc_seq := rc_seq (wctx c0) + of_nat (length ds)\<rparr>" "queued c0 @ w = concat ds @ queued c"
      "\<forall>d\<in>set ds. length d \<le> OSTLS_WRITE_BUF_SIZE"
      using wrote.IH by blast
    have q: "queued c0 @ w @ take n data = concat ds @ queued c'" using h(5) R by (simp flip: append_assoc)
    show ?case using h(1-4,6) R q by (intro conjI exI [of _ i] exI [of _ u] exI [of _ ds]) simp_all
  next
    case (closing r w c g c' g')
    then have "open13 c' \<and> flows wi wo c g c' g'" using close_flows [OF L] by blast
    then show ?case using go closing.IH by blast
  next
    case (notified r w c g event result cookie)
    have "flows wi wo c g (ostls_notifier event result cookie c) g" by (rule flows_aside [OF notifier_aside]) simp
    then show ?case using go notified.IH open13_aside [OF notifier_aside] by blast
  }
qed

end
