(* ===== verification/Async_Life.thy ===== *)
theory Async_Life
  imports Async_Stream
begin

text \<open>
  The life of a connection, from \<open>OSTLS_New\<close> through any sequence of calls and notifications.
  \<open>live\<close> is \<open>conn_ok\<close> together with what the handshake has authenticated; \<open>forward\<close> says that
  the public state only moves up, except in the call that gives up TLS 1.3. \<open>lifetime\<close> collects
  the connections a client can hold. \<open>cut_off\<close> is a connection whose peer closed inside a record;
  \<open>sessions_meet\<close> puts the streams of two connections together.
\<close>

unbundle bit_operations_syntax

section \<open>What is kept and where it goes\<close>

definition live :: "'x prims \<Rightarrow> ('e, 'x) conn \<Rightarrow> bool" where
  "live P c \<longleftrightarrow> conn_ok c \<and> (\<forall>hs. c_hs13 c = Some hs \<longrightarrow> authenticated P (c_server_name c) hs)"

lemma aside_live:
  assumes "aside c c'" "live P c"
  shows "live P c'"
  using assms aside_ok [OF assms(1)] by (simp add: live_def aside_def same_data_def)

definition goes :: "'x prims \<Rightarrow> ('e, 'x) conn \<Rightarrow> ('e, 'x) conn \<Rightarrow> bool" where
  "goes P c c' \<longleftrightarrow> live P c' \<and> forward c c'"

lemma goes_aside: "aside c c' \<Longrightarrow> live P c \<Longrightarrow> goes P c c'"
  by (simp add: goes_def aside_live aside_forward)

lemma goes_trans: "goes P a b \<Longrightarrow> (live P b \<Longrightarrow> goes P b c) \<Longrightarrow> goes P a c"
  using forward_trans by (auto simp: goes_def)

section \<open>The TLS 1.2 path\<close>

lemma recv_into_bearssl_aside:
  assumes L: "ot_laws wi wo E" and e: "pump_ot_recv_into_bearssl E c g = (c', g', r)"
  shows "aside c c'"
proof -
  define n where "n = br_recvrec_room E (c_sc c)"
  obtain got d g1 where R: "on_os (ot_rcv E (c_ep c) n) g = ((got, d), g1)" by (metis prod.collapse)
  define c1 where "c1 = c\<lparr>dbg_ot_recv_calls := dbg_ot_recv_calls c + 1\<rparr>"
  have c1: "aside c c1" by (simp add: c1_def)
  obtain c2 g2 r2 where N: "recv_no_bytes E got c1 g1 = (c2, g2, r2)" by (metis prod.collapse)
  have c2: "aside c c2" using aside_trans [OF c1] recv_no_bytes_aside [OF L N] by blast
  define c3 where "c3 = c\<lparr>c_sc := br_recvrec E [] (c_sc c), nf_data_pending := False\<rparr>"
  have D: "(c', g', r) =
     (if n = 0 then (c, g, 0)
      else if ot_get_endpoint_state E (c_ep c) (g_os g) \<noteq> T_DATAXFER \<and> ot_get_endpoint_state E (c_ep c) (g_os g) \<noteq> T_OUTREL
      then (if c_state c3 = kOSTLSStateOpen \<or> c_state c3 = kOSTLSStateClosing then c3\<lparr>c_sc := br_close E (c_sc c3)\<rparr> else c3, g, 1)
      else if 0 < got
      then (c1\<lparr>c_sc := br_recvrec E d (c_sc c1), nf_data_pending := False,
               dbg_ot_recv_bytes := dbg_ot_recv_bytes c1 + word_of_int got\<rparr>, do_os (stir_timer E (nat got)) g1, 1)
      else (c2, g2, r2))"
    using e [symmetric] unfolding pump_ot_recv_into_bearssl_def Let_def n_def [symmetric] R prod.case c1_def [symmetric]
      c3_def [symmetric] N .
  show ?thesis using D c1 c2 by (auto simp: c3_def split: if_splits)
qed

lemma send_from_bearssl_aside:
  assumes L: "ot_laws wi wo E" and e: "pump_ot_send_from_bearssl E c g = (c', g', r)"
  shows "aside c c'"
proof -
  define b where "b = br_sendrec_buf E (c_sc c)"
  obtain sent g1 where S: "on_os (ot_snd E (c_ep c) b) g = (sent, g1)" by fastforce
  define c1 where "c1 = c\<lparr>dbg_ot_send_calls := dbg_ot_send_calls c + 1\<rparr>"
  have c1: "aside c c1" by (simp add: c1_def)
  obtain c2 g2 r2 where K: "send_look E c1 g1 = (c2, g2, r2)" by (metis prod.collapse)
  have c2: "aside c c2" using aside_trans [OF c1] send_look_aside [OF L K] by blast
  have D: "(c', g', r) =
     (if length b = 0 then (c, g, 0)
      else if ot_get_endpoint_state E (c_ep c) (g_os g) \<noteq> T_DATAXFER \<and> ot_get_endpoint_state E (c_ep c) (g_os g) \<noteq> T_OUTCON
      then (c\<lparr>c_sc := br_sendrec_ack E (length b) (c_sc c)\<rparr>, g, 1)
      else if 0 < sent
      then (c1\<lparr>c_sc := br_sendrec_ack E (nat sent) (c_sc c1),
               dbg_ot_send_bytes := dbg_ot_send_bytes c1 + word_of_int sent\<rparr>, g1, 1)
      else if sent = 0 then (c1\<lparr>dbg_ot_send_zero := dbg_ot_send_zero c1 + 1\<rparr>, g1, 0)
      else if sent = kOTFlowErr
      then (c1\<lparr>dbg_ot_send_flow := dbg_ot_send_flow c1 + 1, nf_want_write := True\<rparr>, g1, 0)
      else if sent = kOTLookErr
      then (if r2 = 1 then c2\<lparr>c_sc := br_sendrec_ack E (length b) (c_sc c2)\<rparr> else c2, g2, r2)
      else (fst (ostls_fail c1 kOSTLSAsync_OTSndFail sent 0), g1, -1))"
    using e [symmetric] unfolding pump_ot_send_from_bearssl_def Let_def b_def [symmetric] S prod.case c1_def [symmetric] K .
  show ?thesis using D c1 c2 fail_of_aside [OF c1] by (auto split: if_splits)
qed

text \<open>Changes of the two queues only.\<close>

lemma live_ring:
  assumes "live P c" "ring_put xs c = (c', n)"
  shows "goes P c c'"
proof -
  define rb ra where d: "rb = read_buf c'" "ra = read_avail c'"
  have c': "c' = c\<lparr>read_buf := rb, read_avail := ra\<rparr>" unfolding d by (rule ring_put_frame [OF assms(2)])
  have "ring_wf c'" using read_ring.put [OF _ assms(2)] assms(1) by (simp add: live_def conn_ok_def)
  then show ?thesis using assms(1) unfolding c' goes_def live_def conn_ok_def by (simp add: forward_def)
qed

lemma live_queue:
  assumes "live P c" "n \<le> write_avail c" "queue_take n c = (c', ys)"
  shows "goes P c c'"
proof -
  have w: "queue_wf c" using assms(1) by (simp add: live_def conn_ok_def)
  note Q = queue_take_fifo [OF w assms(2,3)]
  define wp wa where d: "wp = write_pos c'" "wa = write_avail c'"
  have c': "c' = c\<lparr>write_pos := wp, write_avail := wa\<rparr>" using Q unfolding d by blast
  show ?thesis using assms(1) Q unfolding c' goes_def live_def conn_ok_def by (simp add: forward_def)
qed

lemma recvapp_to_ring_goes:
  assumes l: "live P c" and e: "pump_bearssl_recvapp_to_ring E c best = (c', best', r)"
  shows "goes P c c'"
proof -
  obtain c1 n where R: "ring_put (br_recvapp_buf E (c_sc c)) c = (c1, n)" by fastforce
  note G = live_ring [OF l R]
  have "c' = c \<or> c' = c1\<lparr>c_sc := br_recvapp_ack E n (c_sc c1)\<rparr>"
    using e by (auto simp: pump_bearssl_recvapp_to_ring_def R Let_def split: if_splits)
  moreover have "goes P c1 (c1\<lparr>c_sc := br_recvapp_ack E n (c_sc c1)\<rparr>)" using G by (intro goes_aside) (simp_all add: goes_def)
  ultimately show ?thesis using goes_trans [OF G] goes_aside [OF aside_refl l] by auto
qed

lemma ring_to_sendapp_goes:
  assumes l: "live P c" and e: "pump_ring_to_bearssl_sendapp E c best = (c', best', r)"
  shows "goes P c c'"
proof -
  define n where "n = (if br_sendapp_room E (c_sc c) < write_avail c then br_sendapp_room E (c_sc c) else write_avail c)"
  obtain c1 d where Q: "queue_take n c = (c1, d)" by fastforce
  have "n \<le> write_avail c" by (simp add: n_def)
  note G = live_queue [OF l this Q]
  define c2 where "c2 = c1\<lparr>c_sc := br_sendapp E d (c_sc c1)\<rparr>"
  have "c' = c \<or> aside c1 c'"
    using e unfolding pump_ring_to_bearssl_sendapp_def Let_def n_def [symmetric] Q prod.case
    by (auto split: if_splits)
  moreover have "live P c1" using G by (simp add: goes_def)
  ultimately show ?thesis using goes_trans [OF G] goes_aside l aside_refl by metis
qed

lemma app_idle:
  "pump_bearssl_recvapp_to_ring E c best = (c', best', 0) \<Longrightarrow> c' = c \<and> best' = best"
  "pump_ring_to_bearssl_sendapp E c best = (c', best', 0) \<Longrightarrow> c' = c \<and> best' = best"
  by (auto simp: pump_bearssl_recvapp_to_ring_def pump_ring_to_bearssl_sendapp_def Let_def split: if_splits prod.splits)

lemma goes_state:
  assumes "live P c" "tls13_mode c = kT13Mode_Off" "state_rank (c_state c) \<le> state_rank s"
  shows "goes P c (c\<lparr>c_state := s\<rparr>)"
  using assms by (simp add: goes_def live_def conn_ok_def mode_wf_def forward_def)

lemma bearssl_step_goes:
  assumes L: "ot_laws wi wo E" and l: "live P c" and m: "tls13_mode c = kT13Mode_Off"
    and st: "c_state c = kOSTLSStateHandshaking \<or> up c"
    and e: "pump_bearssl_step E c g best = (c', g', best', r)"
  shows "goes P c c'"
proof -
  define on where "on m \<longleftrightarrow> br_current_state E (c_sc c) AND m \<noteq> 0" for m
  define err where "err = br_last_error E (c_sc c)"
  define opened where "opened = c\<lparr>handshake_done := True, c_state := kOSTLSStateOpen,
      c_cipher_suite := br_session_suite E (br_session E (c_sc c))\<rparr>"
  obtain c1 g1 r1 where 1: "(if on BR_SSL_SENDREC then pump_ot_send_from_bearssl E c g else (c, g, 0)) = (c1, g1, r1)"
    by (metis prod.collapse)
  obtain c2 g2 r2 where 2: "(if on BR_SSL_RECVREC \<and> \<not> peer_closed c1 then pump_ot_recv_into_bearssl E c1 g1 else (c1, g1, 0)) = (c2, g2, r2)"
    by (metis prod.collapse)
  obtain c3 b3 r3 where 3: "(if up c2 \<and> on BR_SSL_RECVAPP then pump_bearssl_recvapp_to_ring E c2 best else (c2, best, 0)) = (c3, b3, r3)"
    by (metis prod.collapse)
  obtain c4 b4 r4 where 4: "(if up c3 \<and> 0 < write_avail c3 \<and> on BR_SSL_SENDAPP then pump_ring_to_bearssl_sendapp E c3 b3 else (c3, b3, 0)) = (c4, b4, r4)"
    by (metis prod.collapse)
  have D: "(c', g', best', r) =
     (if on BR_SSL_CLOSED
      then if err = 0
           then if up c then (c\<lparr>c_state := kOSTLSStateClosed\<rparr>, g, event_bump best kOSTLSEventClosed, 1)
                else (fst (ostls_fail c kOSTLSAsync_PeerClosed noErr 0), g, kOSTLSEventFailed, 1)
           else (fst (ostls_fail c kOSTLSAsync_BearSSLError noErr err), g, kOSTLSEventFailed, 1)
      else if \<not> handshake_done c \<and> c_state c = kOSTLSStateHandshaking \<and> on (BR_SSL_SENDAPP OR BR_SSL_RECVAPP)
      then (opened, g\<lparr>g_sessions := sess_cache_put (sess_cache_make_key c OSTLS_SESS_KEY_LEN) (br_session E (c_sc c)) (g_sessions g)\<rparr>,
            event_bump best kOSTLSEventHandshakeDone, 1)
      else if r1 \<noteq> 0 then (c1, g1, best, r1)
      else if r2 \<noteq> 0 then (c2, g2, best, r2)
      else if r3 \<noteq> 0 then (c3, g2, b3, r3)
      else if r4 \<noteq> 0 then (c4, g2, b4, r4)
      else if peer_closed c4 \<and> c_state c4 \<noteq> kOSTLSStateClosed \<and> c_state c4 \<noteq> kOSTLSStateFailed
      then if on BR_SSL_RECVAPP then (c4, g2, b4, 0)
           else (c4\<lparr>c_state := kOSTLSStateClosed\<rparr>, g2, event_bump b4 kOSTLSEventClosed, 1)
      else (c4, g2, b4, 0))"
    using e [symmetric] unfolding pump_bearssl_step_def Let_def on_def [symmetric] err_def [symmetric] opened_def [symmetric]
      1 2 3 4 prod.case .
  have a1: "aside c c1" using 1 send_from_bearssl_aside [OF L] by (auto split: if_splits)
  have "aside c1 c2" using 2 recv_into_bearssl_aside [OF L] by (auto split: if_splits)
  with a1 have a2: "aside c c2" by (rule aside_trans)
  have l2: "live P c2" by (rule aside_live [OF a2 l])
  have g3: "goes P c2 c3" using 3 recvapp_to_ring_goes [OF l2] goes_aside [OF aside_refl l2] by (auto split: if_splits)
  have l3: "live P c3" using g3 by (simp add: goes_def)
  have g4: "goes P c3 c4" using 4 ring_to_sendapp_goes [OF l3] goes_aside [OF aside_refl l3] by (auto split: if_splits)
  have G2: "goes P c c2" by (rule goes_aside [OF a2 l])
  have G3: "goes P c c3" using goes_trans [OF G2] g3 by blast
  have G4: "goes P c c4" using goes_trans [OF G3] g4 by blast
  have same: "c4 = c2" if "r3 = 0" "r4 = 0"
  proof -
    have "c3 = c2" using 3 that(1) by (auto dest: app_idle(1) split: if_splits)
    moreover have "c4 = c3" using 4 that(2) by (auto dest: app_idle(2) split: if_splits)
    ultimately show ?thesis by simp
  qed
  have m2: "tls13_mode c2 = kT13Mode_Off" using a2 m by (auto simp: aside_def same_data_def)
  have "goes P c opened"
    if "c_state c = kOSTLSStateHandshaking"
  proof -
    have "goes P c (c\<lparr>c_state := kOSTLSStateOpen\<rparr>)" using that by (intro goes_state [OF l m]) simp
    then show ?thesis by (simp add: goes_def live_def conn_ok_def forward_def opened_def mode_wf_def)
  qed
  moreover have "goes P c (c\<lparr>c_state := kOSTLSStateClosed\<rparr>)" using st by (intro goes_state [OF l m]) auto
  moreover have "goes P c (c4\<lparr>c_state := kOSTLSStateClosed\<rparr>)"
    if "r3 = 0" "r4 = 0" "c_state c4 \<noteq> kOSTLSStateFailed"
  proof -
    have "goes P c2 (c2\<lparr>c_state := kOSTLSStateClosed\<rparr>)"
      using that same by (intro goes_state [OF l2 m2]) (cases "c_state c2", simp_all)
    then show ?thesis using goes_trans [OF G2] same [OF that(1,2)] by simp
  qed
  moreover note goes_aside [OF a1 l] G2 G3 G4 goes_aside [OF fail_aside l]
  ultimately show ?thesis using D by (auto split: if_splits)
qed

section \<open>Setting up and connecting\<close>

lemma hs_ok_fresh: "hs_ok ((tls13_handshake_init xc)\<lparr>hs_eng := e\<rparr>)"
  by (simp add: hs_ok_init)

lemma authenticated_fresh:
  "hs_state hs = kTLS13_SendClientHello \<Longrightarrow> authenticated P host hs"
  by (rule authenticated_early) (simp add: state_order)

lemma arm_tls13_goes:
  assumes w: "ring_wf c" "queue_wf c" "send_wf c" "plain_wf c" "recv_wf c"
    and st: "c_state c = kOSTLSStateHandshaking" "\<not> tls13_disabled c" and e: "arm_tls13 E c g = (c', g')"
  shows "goes P c c'"
proof -
  define hs where "hs = (tls13_handshake_init (br_x509 E (c_sc c)))\<lparr>hs_eng := Some (br_eng E (c_sc c))\<rparr>"
  have ok: "hs_ok hs" unfolding hs_def by (rule hs_ok_fresh)
  have s0: "hs_state hs = kTLS13_SendClientHello" by (simp add: hs_def tls13_handshake_init_def)
  obtain now g1 where T: "on_os (tick_count E) g = (now, g1)" by fastforce
  obtain ts tk where G: "OSTLS_TicketCacheGet (Some (c_host c)) now 60 (g_tickets g1) = (ts, tk)" by fastforce
  define hs' where "hs' = (case tk of Some (t, age) \<Rightarrow> hs\<lparr>resuming := True, offer_ticket := Some t,
      offer_obfuscated_age := age + tk_age_add t\<rparr> | None \<Rightarrow> hs)"
  define st' where "st' = (case tk of Some (t, age) \<Rightarrow> t | None \<Rightarrow> offer_ticket_storage c)"
  have c': "c' = c\<lparr>offer_ticket_storage := st', tls13_mode := kT13Mode_Trying, c_hs13 := Some hs'\<rparr>"
    using e by (auto simp: arm_tls13_def hs_def [symmetric] T G hs'_def st'_def Let_def split: option.splits)
  have "hs_ok hs'" "hs_state hs' = kTLS13_SendClientHello" using ok s0 by (auto simp: hs'_def split: option.split)
  then show ?thesis using w st unfolding c' goes_def live_def conn_ok_def
    by (simp add: hs13_wf_def mode_wf_def forward_def authenticated_fresh)
qed

lemma setup_goes:
  assumes L: "ot_laws wi wo E" and l: "live P c" and st: "c_state c = kOSTLSStateHandshaking"
    and e: "ostls_setup_bearssl E c g = (c', g', ev)"
  shows "goes P c c'"
proof -
  obtain now loc g1 where 1: "on_os (read_clock E) g = ((now, loc), g1)" by (metis prod.collapse)
  obtain days secs terr where 2: "OSTLS_GetBearSSLTime now loc = (days, secs, terr)" by (metis prod.collapse)
  obtain ee sc g2 where 3: "on_os (inject_entropy E (br_init_full E days secs)) g1 = ((ee, sc), g2)" by (metis prod.collapse)
  obtain ticks g3 where 4: "on_os (tick_count E) g2 = (ticks, g3)" by fastforce
  define c1 where "c1 = c\<lparr>c_sc := sc\<rparr>"
  define c2 where "c2 = c1\<lparr>bearssl_initialised := True, handshake_start_ticks := ticks, c_recv := [],
      t13_plain_len := 0, t13_plain_off := 0, t13_send_len := 0, t13_send_off := 0\<rparr>"
  obtain ctx g4 where 5: "(if g_try_tls13 g3 \<and> \<not> tls13_disabled c2
      then if c_hs13 c2 = None then on_os (new_ptr_clear E) g3 else (True, g3) else (False, g3)) = (ctx, g4)" by fastforce
  define c3 where "c3 = c2\<lparr>tls13_mode := kT13Mode_Off\<rparr>"
  define key where "key = sess_cache_make_key c3 OSTLS_SESS_KEY_LEN"
  obtain sc4 resume where 6: "(case sess_cache_get key (g_sessions g4) of
      Some p \<Rightarrow> (br_set_session E p (c_sc c3), True) | None \<Rightarrow> (c_sc c3, False)) = (sc4, resume)" by fastforce
  obtain rok sc5 where 7: "br_client_reset E (c_server_name c3) resume sc4 = (rok, sc5)" by fastforce
  define c4 where "c4 = c3\<lparr>c_sc := sc5\<rparr>"
  obtain ca ga where A: "arm_tls13 E c2 g4 = (ca, ga)" by fastforce
  have D: "c' = (if terr \<noteq> kOSTLSTimeOK then fst (ostls_fail c kOSTLSAsync_ClockBefore2000 noErr 0)
     else if ee \<noteq> 0 then fst (ostls_fail c1 kOSTLSAsync_EntropyFail noErr 0)
     else if ctx then ca
     else if \<not> rok then fst (ostls_fail c4 kOSTLSAsync_ClientResetFail noErr (br_last_error E sc5)) else c4)"
  proof -
    have "(c', g', ev) = (if terr \<noteq> kOSTLSTimeOK
     then let (c, ev) = ostls_fail c kOSTLSAsync_ClockBefore2000 noErr 0 in (c, g1, ev)
     else if ee \<noteq> 0 then let (c, ev) = ostls_fail c1 kOSTLSAsync_EntropyFail noErr 0 in (c, g2, ev)
     else if ctx then let (c, g) = (ca, ga) in (c, g, kOSTLSEventNone)
     else if \<not> rok then let (c, ev) = ostls_fail c4 kOSTLSAsync_ClientResetFail noErr (br_last_error E sc5) in (c, g4, ev)
     else (c4, g4, kOSTLSEventNone))"
      using e [symmetric] unfolding ostls_setup_bearssl_def Let_def 1 prod.case 2 3 c1_def [symmetric] 4 c2_def [symmetric] 5 A
        c3_def [symmetric] key_def [symmetric] 6 7 c4_def [symmetric] .
    then show ?thesis by (auto simp: split_beta split: if_splits)
  qed
  have a1: "aside c c1" by (simp add: c1_def)
  have w1: "ring_wf c1" "queue_wf c1" "send_wf c1" "hs13_wf c1" "c_state c1 = kOSTLSStateHandshaking"
      "tls13_disabled c1 = tls13_disabled c" "\<And>hs. c_hs13 c1 = Some hs \<Longrightarrow> authenticated P (c_server_name c1) hs"
    using l st by (simp_all add: c1_def live_def conn_ok_def)
  have w2: "ring_wf c2" "queue_wf c2" "send_wf c2" "plain_wf c2" "recv_wf c2" "c_state c2 = kOSTLSStateHandshaking"
    using w1 by (simp_all add: c2_def send_wf_def plain_wf_def recv_wf_def)
  have g2: "goes P c ca" if "ctx"
  proof -
    have nd: "\<not> tls13_disabled c2" using 5 that by (auto split: if_splits)
    from arm_tls13_goes [OF w2 nd A, of P] have "goes P c2 ca" .
    then show ?thesis using st by (simp add: goes_def forward_def c2_def c1_def)
  qed
  have g4: "goes P c c4"
  proof -
    have "hs13_wf c4" using w1(4) by (auto simp: c4_def c3_def c2_def hs13_wf_def split: option.splits)
    then show ?thesis using w1 w2 st unfolding goes_def live_def conn_ok_def c4_def c3_def
      by (simp add: mode_wf_def forward_def c2_def c1_def send_wf_def plain_wf_def recv_wf_def)
  qed
  have g4': "goes P c (fst (ostls_fail c4 kOSTLSAsync_ClientResetFail noErr (br_last_error E sc5)))"
    using goes_trans [OF g4] goes_aside [OF fail_aside] by blast
  show ?thesis
    unfolding D using goes_aside [OF fail_aside l] goes_aside [OF fail_of_aside [OF a1] l] g2 g4 g4' by (simp split: if_splits)
qed

text \<open>A connect step either leaves the data alone or goes on to set up the handshake.\<close>

lemma connect_step_cases:
  assumes e: "pump_connect_step E c g = (c', g', ev, used)"
  shows "aside c c' \<or> (\<exists>g1 g2 ev'. ostls_setup_bearssl E
     (c\<lparr>nf_connect_complete := False, c_phase := kConnectPhase_Done, c_state := kOSTLSStateHandshaking\<rparr>) g1 = (c', g2, ev'))"
proof -
  obtain now g1 where T: "on_os (tick_count E) g = (now, g1)" by fastforce
  have f: "aside c c'" if "connect_fail c1 gx os ot = (c', g', ev, used)" "aside c c1" for c1 and gx :: "('c, 'd) globals" and os ot
    using that(1) fail_of_aside [OF that(2), of os ot 0] by (auto simp: connect_fail_def split: prod.splits)
  show ?thesis
  proof (cases "connect_timeout_ticks c < now - start_ticks c \<or> nf_disconnect c")
    case True
    then show ?thesis using e by (auto simp: pump_connect_step_def T split: if_splits intro: f)
  next
    case False
    then show ?thesis using e
      by (cases "c_phase c") (auto simp: pump_connect_step_def T Let_def split: if_splits prod.splits intro: f)
  qed
qed

lemma connecting_mode:
  assumes "live P c" "c_state c = kOSTLSStateConnecting \<or> c_state c = kOSTLSStateIdle"
  shows "tls13_mode c = kT13Mode_Off"
  using assms by (cases "tls13_mode c") (auto simp: live_def conn_ok_def mode_wf_def)

lemma connect_step_goes:
  assumes L: "ot_laws wi wo E" and l: "live P c" and st: "c_state c = kOSTLSStateConnecting"
    and e: "pump_connect_step E c g = (c', g', ev, used)"
  shows "goes P c c'"
  using connect_step_cases [OF e]
proof
  assume "aside c c'"
  then show ?thesis by (rule goes_aside [OF _ l])
next
  define c1 where "c1 = c\<lparr>nf_connect_complete := False, c_phase := kConnectPhase_Done\<rparr>"
  define c2 where "c2 = c1\<lparr>c_state := kOSTLSStateHandshaking\<rparr>"
  have a: "aside c c1" by (simp add: c1_def)
  have g1: "goes P c c1" by (rule goes_aside [OF a l])
  have m: "tls13_mode c1 = kT13Mode_Off" using connecting_mode [OF l] st by (simp add: c1_def)
  have l1: "live P c1" using g1 by (simp add: goes_def)
  have "goes P c1 c2" unfolding c2_def by (rule goes_state [OF l1 m]) (simp add: c1_def st)
  then have g2: "goes P c c2" using goes_trans [OF g1] by blast
  then have l2: "live P c2" and s2: "c_state c2 = kOSTLSStateHandshaking" by (simp_all add: goes_def c2_def)
  assume "\<exists>g1 g2 ev'. ostls_setup_bearssl E
     (c\<lparr>nf_connect_complete := False, c_phase := kConnectPhase_Done, c_state := kOSTLSStateHandshaking\<rparr>) g1 = (c', g2, ev')"
  then show ?thesis using setup_goes [OF L l2 s2] goes_trans [OF g2] by (auto simp: c2_def c1_def)
qed

section \<open>The handshake phase\<close>

lemma goes_context:
  assumes "live P c" "tls13_mode c = kT13Mode_Trying" "hs_ok hs" "authenticated P (c_server_name c) hs"
  shows "goes P c (c\<lparr>c_hs13 := Some hs\<rparr>)"
  using assms by (simp add: goes_def live_def conn_ok_def hs13_wf_def forward_def)

lemma authenticated_offset:
  "authenticated P host hs \<Longrightarrow> authenticated P host (hs\<lparr>msg_offset := n\<rparr>)"
  by (erule authenticated_keep) simp_all

lemma flush_handshake_goes:
  assumes L: "ot_laws wi wo E" and l: "live P c" and m: "tls13_mode c = kT13Mode_Trying" and hs: "c_hs13 c = Some hs"
    and e: "t13_flush_handshake E hs c g = (c', g', r)"
  shows "goes P c c' \<and> (c_state c' = c_state c \<or> c_state c' = kOSTLSStateFailed) \<and> tls13_mode c' = tls13_mode c"
proof (cases "msg_offset hs < msg_len hs")
  case False
  then have "c' = c" using e by (simp add: t13_flush_handshake_def)
  then show ?thesis using goes_aside [OF aside_refl l] by simp
next
  case True
  obtain c1 g1 q n where S: "ostls_send_raw E (rd (msg_buf hs) (msg_offset hs) (msg_len hs - msg_offset hs)) c g = (c1, g1, q, n)"
    by (metis prod.collapse)
  have a: "aside c c1" using ostls_send_raw_aside [OF L S] by blast
  have d: "c_hs13 c1 = c_hs13 c" "tls13_mode c1 = tls13_mode c" "c_server_name c1 = c_server_name c"
      "c_state c1 = c_state c \<or> c_state c1 = kOSTLSStateFailed"
    using a by (simp_all add: aside_def same_data_def)
  have g1: "goes P c c1" by (rule goes_aside [OF a l])
  have l1: "live P c1" using g1 by (simp add: goes_def)
  define c2 where "c2 = c1\<lparr>c_hs13 := Some (hs\<lparr>msg_offset := msg_offset hs + n\<rparr>)\<rparr>"
  have "hs_ok hs" "authenticated P (c_server_name c) hs" using l hs by (auto simp: live_def conn_ok_def hs13_wf_def)
  then have "goes P c1 c2" unfolding c2_def using d m by (intro goes_context [OF l1]) (simp_all add: authenticated_offset)
  then have "goes P c c2" using goes_trans [OF g1] by blast
  moreover have "c' = c1 \<or> c' = c2"
    using e True by (auto simp: t13_flush_handshake_def S c2_def Let_def split: if_splits)
  ultimately show ?thesis using g1 d by (auto simp: c2_def)
qed

lemma flush_record_aside:
  assumes L: "ot_laws wi wo E" and l: "live P c" and e: "t13_flush_record E c g best = (c', g', best', r)"
  shows "goes P c c' \<and> (c_state c' = c_state c \<or> c_state c' = kOSTLSStateFailed) \<and> tls13_mode c' = tls13_mode c
    \<and> c_hs13 c' = c_hs13 c"
proof (cases "t13_send_off c < t13_send_len c")
  case False
  then have "c' = c" using e by (simp add: t13_flush_record_def)
  then show ?thesis using goes_aside [OF aside_refl l] by simp
next
  case True
  obtain c1 g1 q n where S: "ostls_send_raw E (rd (t13_send_rec c) (t13_send_off c) (t13_send_len c - t13_send_off c)) c g
      = (c1, g1, q, n)" by (metis prod.collapse)
  have a: "aside c c1" and n: "n \<le> t13_send_len c - t13_send_off c" using ostls_send_raw_aside [OF L S] by simp_all
  have d: "c_hs13 c1 = c_hs13 c" "tls13_mode c1 = tls13_mode c" "t13_send_len c1 = t13_send_len c"
      "t13_send_off c1 = t13_send_off c" "c_state c1 = c_state c \<or> c_state c1 = kOSTLSStateFailed"
    using a by (simp_all add: aside_def same_data_def)
  have g1: "goes P c c1" by (rule goes_aside [OF a l])
  have "c' = c1 \<or> c' = c1\<lparr>t13_send_len := 0, t13_send_off := 0\<rparr>
      \<or> c' = c1\<lparr>t13_send_off := t13_send_off c + n\<rparr> \<and> t13_send_off c + n \<le> t13_send_len c"
    using e True n d by (auto simp: t13_flush_record_def S Let_def split: if_splits)
  moreover have "goes P c (c1\<lparr>t13_send_len := 0, t13_send_off := 0\<rparr>)"
    using g1 unfolding goes_def live_def conn_ok_def by (simp add: send_wf_def forward_def)
  moreover have "goes P c (c1\<lparr>t13_send_off := t13_send_off c + n\<rparr>)" if "t13_send_off c + n \<le> t13_send_len c"
    using g1 that d unfolding goes_def live_def conn_ok_def by (simp add: send_wf_def forward_def)
  ultimately show ?thesis using g1 d by auto
qed

lemma fallback_goes:
  assumes l: "live P c" and nd: "\<not> tls13_disabled c" and e: "ostls_fallback_to_tls12 E c g = (c', g', ev)"
  shows "goes P c c'"
proof -
  obtain c1 g1 where 1: "(if ep_open c \<and> c_ep c \<noteq> 0
      then (c\<lparr>c_ep := 0, ep_open := False\<rparr>, do_os (ot_close_provider E (c_ep c)) (do_os (ot_snd_orderly_disconnect E (c_ep c)) g))
      else (c, g)) = (c1, g1)" by fastforce
  have a: "aside c c1" using 1 by (auto split: if_splits)
  define c2 where "c2 = c1\<lparr>nf_open_complete := False, nf_bind_complete := False, nf_connect_complete := False,
                nf_data_pending := False, nf_ord_release := False, nf_disconnect := False,
                ord_consumed := False, disc_consumed := False, peer_closed := False,
                bearssl_initialised := False, handshake_done := False, close_notify_sent := False,
                tls13_mode := kT13Mode_Off, tls13_disabled := True, c_recv := [], c_hs13 := None\<rparr>"
  obtain err g2 where 2: "open_endpoint E c2 g1 = (err, g2)" by fastforce
  obtain now g3 where 3: "on_os (tick_count E) g2 = (now, g3)" by fastforce
  define c3 where "c3 = c2\<lparr>c_state := kOSTLSStateConnecting, c_phase := kConnectPhase_OpenInFlight, start_ticks := now\<rparr>"
  have l1: "live P c1" by (rule aside_live [OF a l])
  then have w: "ring_wf c1" "queue_wf c1" "send_wf c1" "plain_wf c1" by (simp_all add: live_def conn_ok_def)
  have w2: "ring_wf c2" "queue_wf c2" "send_wf c2" "plain_wf c2" "recv_wf c2" "hs13_wf c2" "mode_wf c2"
    using w by (simp_all add: c2_def ring_wf_def queue_wf_def send_wf_def plain_wf_def recv_wf_def hs13_wf_def mode_wf_def)
  have g2: "goes P c c2" using w2 nd unfolding goes_def live_def conn_ok_def by (simp add: forward_def c2_def)
  have g3: "goes P c c3" using w2 nd unfolding goes_def live_def conn_ok_def c3_def
    by (simp add: forward_def c2_def mode_wf_def)
  have "c' = c3 \<or> (\<exists>e oterr. c' = fst (ostls_fail c2 e oterr 0))"
    using e [unfolded ostls_fallback_to_tls12_def 1 Let_def prod.case, folded c2_def, unfolded 2 prod.case 3, folded c3_def]
    by (auto split: option.splits prod.splits) (metis fst_conv)+
  then show ?thesis using g3 goes_trans [OF g2] goes_aside [OF fail_aside] by blast
qed

lemma handshake_phase_goes:
  assumes L: "ot_laws wi wo E" and l: "live P c" and m: "tls13_mode c = kT13Mode_Trying"
    and st: "c_state c = kOSTLSStateHandshaking" and hs: "c_hs13 c = Some hs"
    and e: "t13_handshake_phase E P hs c g best = (c', g', best', r)"
  shows "goes P c c'"
proof -
  obtain hs1 rv q where S: "tls13_handshake_step P hs (c_recv c) (c_server_name c) = (hs1, rv, q)" by (metis prod.collapse)
  have ok: "hs_ok hs" "authenticated P (c_server_name c) hs" using l hs by (auto simp: live_def conn_ok_def hs13_wf_def)
  have ok1: "hs_ok hs1" "authenticated P (c_server_name c) hs1" "length rv \<le> length (c_recv c)"
    using step_keeps_ok [OF ok(1) S] step_authenticated [OF ok S] step_shrinks [OF ok(1) S] by simp_all
  define c1 where "c1 = c\<lparr>c_hs13 := Some hs1, c_recv := rv\<rparr>"
  have nd: "\<not> tls13_disabled c" using l m by (simp add: live_def conn_ok_def mode_wf_def)
  have g1: "goes P c c1"
    using goes_context [OF l m ok1(1,2)] ok1(3) l unfolding c1_def goes_def live_def conn_ok_def
    by (simp add: recv_wf_def forward_def)
  then have l1: "live P c1" by (simp add: goes_def)
  define c2 where "c2 = c1\<lparr>handshake_done := True, c_state := kOSTLSStateOpen, tls13_mode := kT13Mode_Open,
      c_cipher_suite := hs_cipher_suite hs1, c_resumed := resumption_accepted hs1\<rparr>"
  obtain c3 g3 r3 where R: "pump_ot_recv_tls13 E c1 g = (c3, g3, r3)" by (metis prod.collapse)
  obtain c4 g4 e4 where F: "ostls_fallback_to_tls12 E c1 g = (c4, g4, e4)" by (metis prod.collapse)
  have D: "c' = (if hs_state hs1 = kTLS13_Complete \<and> msg_len hs1 \<le> msg_offset hs1 then c2
     else (case q of kTLS13_WantRead \<Rightarrow> c3 | kTLS13_WantWrite \<Rightarrow> c1 | kTLS13_OK \<Rightarrow> c1 | kTLS13_Fallback12 \<Rightarrow> c4
           | kTLS13_Error \<Rightarrow> fst (ostls_fail c1 kOSTLSAsync_BearSSLError noErr (hs_error hs1))))"
    using e [unfolded t13_handshake_phase_def S Let_def prod.case, folded c1_def, folded c2_def, unfolded R F prod.case]
    by (auto split: if_splits tls13_hs_result.splits)
  have "goes P c c2" if "hs_state hs1 = kTLS13_Complete" "msg_len hs1 \<le> msg_offset hs1"
    using l1 that st ok1(2) nd unfolding goes_def live_def conn_ok_def c2_def c1_def
    by (simp add: hs13_wf_def mode_wf_def forward_def)
  moreover have "goes P c c3"
  proof -
    have w: "recv_wf c1" using l1 by (simp add: live_def conn_ok_def)
    obtain d where d: "aside (c1\<lparr>c_recv := c_recv c1 @ d\<rparr>) c3" "recv_wf c3" using pump_ot_recv_tls13_data [OF L w R] by blast
    define c5 where "c5 = c1\<lparr>c_recv := c_recv c1 @ d\<rparr>"
    have "recv_wf c5" using d same_data_wf(5) unfolding c5_def aside_def by blast
    then have "goes P c1 c5" using l1 unfolding goes_def live_def conn_ok_def c5_def by (simp add: forward_def)
    moreover have "live P c5 \<Longrightarrow> goes P c5 c3" using d(1) unfolding c5_def by (rule goes_aside)
    ultimately show ?thesis using goes_trans [OF g1] goes_trans by blast
  qed
  moreover have "goes P c c4"
    using goes_trans [OF g1] fallback_goes [OF _ _ F] nd by (simp add: c1_def)
  moreover have "goes P c (fst (ostls_fail c1 kOSTLSAsync_BearSSLError noErr (hs_error hs1)))"
    using goes_trans [OF g1] goes_aside [OF fail_aside] by blast
  ultimately show ?thesis unfolding D using g1 by (simp split: tls13_hs_result.split)
qed

lemma open13_live: "live P c \<Longrightarrow> tls13_mode c = kT13Mode_Open \<Longrightarrow> open13 c"
  by (simp add: live_def open13_def)

text \<open>In the mode \<open>Open\<close> the context keeps what was authenticated (\<open>kept\<close>).\<close>

lemma flows_goes:
  assumes l: "live P c" and m: "tls13_mode c = kT13Mode_Open" and f: "open13 c'" "flows wi wo c g c' g'"
  shows "goes P c c'"
proof -
  obtain hs where hs: "c_hs13 c = Some hs" using open13_live [OF l m] by (rule open13D)
  obtain hs' where hs': "c_hs13 c' = Some hs'" using f(1) by (rule open13D)
  have k: "kept c' = kept c" "forward c c'" using f(2) by (auto simp: flows_def)
  have "authenticated P (c_server_name c) hs" using l hs by (simp add: live_def)
  then have "authenticated P (c_server_name c) hs'"
    by (rule authenticated_keep) (use k(1) hs hs' in \<open>simp_all add: kept_def\<close>)
  moreover have "c_server_name c' = c_server_name c" using k(1) by (simp add: kept_def Let_def)
  ultimately show ?thesis using f(1) k(2) hs' by (simp add: goes_def live_def open13_def)
qed

lemma tls13_step_goes:
  assumes L: "ot_laws wi wo E" and l: "live P c" and m: "tls13_mode c \<noteq> kT13Mode_Off"
    and st: "c_state c = kOSTLSStateHandshaking \<or> up c"
    and e: "pump_tls13_step E P c g best = (c', g', best', r)"
  shows "goes P c c'"
proof (cases "tls13_mode c")
  case kT13Mode_Open
  note o = open13_live [OF l kT13Mode_Open]
  have "up c" using st l kT13Mode_Open by (auto simp: live_def conn_ok_def mode_wf_def)
  from tls13_step_flows [OF L o this e] show ?thesis using flows_goes [OF l kT13Mode_Open] by blast
next
  case kT13Mode_Trying
  then have s: "c_state c = kOSTLSStateHandshaking" using st l by (auto simp: live_def conn_ok_def mode_wf_def)
  obtain hs where hs: "c_hs13 c = Some hs" using l m by (auto simp: live_def conn_ok_def hs13_wf_def split: option.splits)
  obtain c1 g1 r1 where 1: "t13_flush_handshake E hs c g = (c1, g1, r1)" by (metis prod.collapse)
  note F1 = flush_handshake_goes [OF L l kT13Mode_Trying hs 1]
  have l1: "live P c1" using F1 by (simp add: goes_def)
  obtain c2 g2 b2 r2 where 2: "t13_flush_record E c1 g1 best = (c2, g2, b2, r2)" by (metis prod.collapse)
  note F2 = flush_record_aside [OF L l1 2]
  have G2: "goes P c c2" using F1 F2 goes_trans by blast
  then have l2: "live P c2" by (simp add: goes_def)
  have st2: "c_state c2 = kOSTLSStateHandshaking \<or> c_state c2 = kOSTLSStateFailed" using F1 F2 s by auto
  have m2: "tls13_mode c2 = kT13Mode_Trying" using F1 F2 kT13Mode_Trying by simp
  obtain hs2 where hs2: "c_hs13 c2 = Some hs2" using l2 m2 by (auto simp: live_def conn_ok_def hs13_wf_def split: option.splits)
  show ?thesis
  proof (cases "r1 = None \<and> r2 = None \<and> c_state c2 = kOSTLSStateHandshaking")
    case True
    then have "t13_handshake_phase E P hs2 c2 g2 b2 = (c', g', best', r)"
      using e hs m2 by (simp add: pump_tls13_step_def 1 2 hs2)
    then show ?thesis using handshake_phase_goes [OF L l2 m2 _ hs2] True goes_trans [OF G2] by blast
  next
    case False
    then have "c' = c1 \<or> c' = c2"
      using e hs st2 by (auto simp: pump_tls13_step_def 1 2 split: option.splits)
    then show ?thesis using F1 G2 by auto
  qed
qed (use m in simp)

section \<open>Calls\<close>

lemma iteration_goes:
  assumes L: "ot_laws wi wo E" and l: "live P c" and e: "pump_iteration E P c g best = (c', g', best', again)"
  shows "goes P c c'"
proof -
  obtain c1 g1 ev where p: "pump_handshake_or_open_pre E c g = (c1, g1, ev)" by (metis prod.collapse)
  have a: "aside c c1" using pump_pre_aside [OF L p] by blast
  note G1 = goes_aside [OF a l]
  have l1: "live P c1" using G1 by (simp add: goes_def)
  obtain c2 g2 ev2 u2 where C: "pump_connect_step E c1 g1 = (c2, g2, ev2, u2)" by (metis prod.collapse)
  obtain c3 g3 b3 r3 where T: "pump_tls13_step E P c1 g1 best = (c3, g3, b3, r3)" by (metis prod.collapse)
  obtain c4 g4 b4 r4 where B: "pump_bearssl_step E c1 g1 best = (c4, g4, b4, r4)" by (metis prod.collapse)
  have D: "c' = (if c_state c = kOSTLSStateFailed \<or> c_state c = kOSTLSStateClosed then c
     else if ev = kOSTLSEventFailed then c1
     else if c_state c1 = kOSTLSStateConnecting then c2
     else if c_state c1 = kOSTLSStateHandshaking \<or> up c1 then if tls13_mode c1 \<noteq> kT13Mode_Off then c3 else c4
     else c1)"
    using e by (auto simp: pump_iteration_def p C T B split: if_splits)
  have "c_state c1 = kOSTLSStateConnecting \<Longrightarrow> goes P c c2"
    using connect_step_goes [OF L l1 _ C] goes_trans [OF G1] by blast
  moreover have "c_state c1 = kOSTLSStateHandshaking \<or> up c1 \<Longrightarrow> tls13_mode c1 \<noteq> kT13Mode_Off \<Longrightarrow> goes P c c3"
    using tls13_step_goes [OF L l1 _ _ T] goes_trans [OF G1] by blast
  moreover have "c_state c1 = kOSTLSStateHandshaking \<or> up c1 \<Longrightarrow> tls13_mode c1 = kT13Mode_Off \<Longrightarrow> goes P c c4"
    using bearssl_step_goes [OF L l1 _ _ B] goes_trans [OF G1] by blast
  ultimately show ?thesis unfolding D using G1 goes_aside [OF aside_refl l] by (simp split: if_splits)
qed

lemma loop_goes:
  assumes L: "ot_laws wi wo E"
  shows "live P c \<Longrightarrow> pump_loop E P n c g best = (c', g', best') \<Longrightarrow> goes P c c'"
proof (induction n arbitrary: c g best)
  case 0
  then show ?case using goes_aside [OF aside_refl] by simp
next
  case (Suc n)
  obtain c1 g1 b1 again where i: "pump_iteration E P c g best = (c1, g1, b1, again)" by (metis prod.collapse)
  note I = iteration_goes [OF L Suc.prems(1) i]
  show ?case
    using Suc.IH [of c1 g1 b1] Suc.prems(2) I goes_trans [OF I] by (cases again) (simp_all add: i)
qed

lemma pump_goes:
  assumes L: "ot_laws wi wo E" and l: "live P c" and e: "OSTLS_Pump E P n (Some c) g = (r, g', err, ev)"
  shows "\<exists>c'. r = Some c' \<and> goes P c c'"
proof -
  define c1 where "c1 = c\<lparr>dbg_pump_calls := dbg_pump_calls c + 1,
      br_state_last := (if bearssl_initialised c then br_current_state E (c_sc c) else br_state_last c)\<rparr>"
  have a: "aside c c1" by (simp add: c1_def)
  obtain c2 g2 b where lp: "pump_loop E P n c1 g kOSTLSEventNone = (c2, g2, b)" by (metis prod.collapse)
  have G1: "goes P c c1" by (rule goes_aside [OF a l])
  have "r = Some c \<or> r = Some c1 \<or> r = Some c2"
    using e unfolding OSTLS_Pump_def option.case Let_def c1_def [symmetric] lp prod.case by (simp split: if_splits)
  then show ?thesis
    using G1 goes_aside [OF aside_refl l] loop_goes [OF L _ lp] goes_trans [OF G1] by blast
qed

text \<open>The client's calls. A failure there sets the state directly.\<close>

lemma aside_failed [simp]: "aside c (c\<lparr>c_state := kOSTLSStateFailed\<rparr>)"
  by (simp add: aside_def same_data_def)

lemma aside_ot_err [simp]: "aside c (c0\<lparr>c_ot_err := e\<rparr>) = aside c c0" "aside c (c0\<lparr>close_notify_sent := b\<rparr>) = aside c c0"
  "aside c (c0\<lparr>close_requested := b\<rparr>) = aside c c0"
  by (simp_all add: aside_def same_data_def)

lemma start_goes:
  assumes l: "live P c" and e: "OSTLS_Start E (Some c) g = (r, g', err)"
  shows "\<exists>c'. r = Some c' \<and> goes P c c'"
proof -
  obtain now loc g1 where K: "on_os (read_clock E) g = ((now, loc), g1)" by (metis prod.collapse)
  obtain er g2 where O: "open_endpoint E c g1 = (er, g2)" by fastforce
  obtain t g3 where T: "on_os (tick_count E) g2 = (t, g3)" by fastforce
  define cc where "cc = c\<lparr>c_state := kOSTLSStateConnecting, c_phase := kConnectPhase_OpenInFlight, start_ticks := t, c_started := True\<rparr>"
  have ok: "(\<exists>c'. r = Some c' \<and> aside c c') \<or> c_state c = kOSTLSStateIdle \<and> r = Some cc"
  proof (cases "c_disposed c \<or> c_started c \<or> c_state c \<noteq> kOSTLSStateIdle
      \<or> td_result (OSTLS_GetBearSSLTimeDetails now loc) \<noteq> kOSTLSTimeOK")
    case True
    then show ?thesis using e unfolding OSTLS_Start_def option.case Let_def K prod.case
      by (cases "c_disposed c"; cases "c_started c \<or> c_state c \<noteq> kOSTLSStateIdle") auto
  next
    case False
    then have e': "(case er of Some (x, oterr) \<Rightarrow>
         (Some (if x = kOSTLSAsync_OTOpenFail then c\<lparr>c_state := kOSTLSStateFailed, c_os_err := x\<rparr>\<lparr>c_ot_err := oterr\<rparr>
            else c\<lparr>c_state := kOSTLSStateFailed, c_os_err := x\<rparr>), g2, x)
       | None \<Rightarrow> (Some cc, g3, kOSTLSAsync_OK)) = (r, g', err)"
      using e unfolding OSTLS_Start_def option.case Let_def K prod.case O T cc_def [symmetric] by simp
    have i: "c_state c = kOSTLSStateIdle" using False by simp
    show ?thesis
    proof (cases er)
      case None
      then show ?thesis using e' i by simp
    next
      case (Some p)
      obtain x oterr where p: "p = (x, oterr)" by (cases p)
      have "r = Some (if x = kOSTLSAsync_OTOpenFail then c\<lparr>c_state := kOSTLSStateFailed, c_os_err := x\<rparr>\<lparr>c_ot_err := oterr\<rparr>
            else c\<lparr>c_state := kOSTLSStateFailed, c_os_err := x\<rparr>)"
        using arg_cong [OF e', of fst] unfolding Some p option.case prod.case fst_conv by (rule sym)
      then show ?thesis by (cases "x = kOSTLSAsync_OTOpenFail") simp_all
    qed
  qed
  have "goes P c cc" if i: "c_state c = kOSTLSStateIdle"
  proof -
    have "goes P c (c\<lparr>c_state := kOSTLSStateConnecting\<rparr>)"
      using connecting_mode [OF l] i by (intro goes_state [OF l]) simp_all
    then show ?thesis unfolding cc_def by (simp add: goes_def live_def conn_ok_def forward_def mode_wf_def)
  qed
  then show ?thesis using ok goes_aside [OF _ l] by blast
qed

lemma close_goes:
  assumes l: "live P c" and e: "OSTLS_Close E (Some c) g = (r, g')"
  shows "\<exists>c'. r = Some c' \<and> goes P c c'"
proof -
  define c1 where "c1 = c\<lparr>close_requested := True\<rparr>"
  define c2 where "c2 = c1\<lparr>close_notify_sent := True\<rparr>"
  define c3 where "c3 = (if close_notify_sent c1 then c1 else c1\<lparr>c_sc := br_close E (c_sc c1), close_notify_sent := True\<rparr>)"
  have st: "c_state c1 = c_state c" "c_state c2 = c_state c" "c_state c3 = c_state c" by (simp_all add: c1_def c2_def c3_def)
  have as: "aside c c1" "aside c c2" "aside c c3" by (simp_all add: c1_def c2_def c3_def)
  have m: "up c \<Longrightarrow> tls13_mode c \<noteq> kT13Mode_Open \<Longrightarrow> tls13_mode c = kT13Mode_Off"
    using l by (cases "tls13_mode c") (auto simp: live_def conn_ok_def mode_wf_def)
  have closing: "goes P c (d\<lparr>c_state := kOSTLSStateClosing\<rparr>)" if u: "up c" and a: "aside c d" and s: "c_state d = c_state c" for d
  proof -
    have g2: "goes P c d" by (rule goes_aside [OF a l])
    have "mode_wf d" using g2 by (simp add: goes_def live_def conn_ok_def)
    then have "mode_wf (d\<lparr>c_state := kOSTLSStateClosing\<rparr>)" "forward d (d\<lparr>c_state := kOSTLSStateClosing\<rparr>)"
      using u s by (auto simp: mode_wf_def forward_def)
    then show ?thesis using g2 forward_trans [of c d] by (simp add: goes_def live_def conn_ok_def)
  qed
  have D: "r = Some (if c_disposed c \<or> close_requested c then c
     else if c_state c1 = kOSTLSStateClosed \<or> c_state c1 = kOSTLSStateFailed then c1
     else if c_state c1 = kOSTLSStateHandshaking \<or> c_state c1 = kOSTLSStateConnecting
     then c1\<lparr>c_state := kOSTLSStateFailed, c_os_err := kOSTLSAsync_WrongState\<rparr>
     else if up c1 then if tls13_mode c1 = kT13Mode_Open then c2\<lparr>c_state := kOSTLSStateClosing\<rparr>
       else c3\<lparr>c_state := kOSTLSStateClosing\<rparr>
     else c1)"
    using e unfolding OSTLS_Close_def option.case Let_def c1_def [symmetric] c3_def [symmetric]
    by (auto simp: c2_def split: if_splits)
  have "aside c (c1\<lparr>c_state := kOSTLSStateFailed, c_os_err := kOSTLSAsync_WrongState\<rparr>)"
    using aside_trans [OF as(1) aside_failed] by simp
  then show ?thesis
    unfolding D using closing [OF _ as(2) st(2)] closing [OF _ as(3) st(3)] goes_aside [OF as(1) l] goes_aside [OF _ l] goes_aside [OF aside_refl l] st
    by (simp split: if_splits)
qed

lemma read_goes:
  assumes l: "live P c" and e: "OSTLS_Read (Some c) (Some cap) = (r, err, ys)"
  shows "\<exists>c'. r = Some c' \<and> goes P c c'"
proof -
  have w: "ring_wf c" using l by (simp add: live_def conn_ok_def)
  obtain c' where R: "r = Some c'" "ring_wf c'" "c' = c\<lparr>read_pos := read_pos c', read_avail := read_avail c'\<rparr>"
    using ring_read [OF w e] by blast
  define rp ra where d: "rp = read_pos c'" "ra = read_avail c'"
  have c': "c' = c\<lparr>read_pos := rp, read_avail := ra\<rparr>" using R(3) unfolding d .
  have "goes P c c'" using l R(2) unfolding c' goes_def live_def conn_ok_def by (simp add: forward_def)
  with R(1) show ?thesis by blast
qed

lemma write_goes:
  assumes l: "live P c" and e: "OSTLS_Write (Some c) (Some xs) = (r, err, n)"
  shows "\<exists>c'. r = Some c' \<and> goes P c c'"
proof -
  have w: "queue_wf c" using l by (simp add: live_def conn_ok_def)
  obtain c' where R: "r = Some c'" "queue_wf c'"
    "c' = c\<lparr>write_buf := write_buf c', write_pos := write_pos c', write_avail := write_avail c'\<rparr>"
    using queue_write [OF w e] by blast
  define wb wp wa where d: "wb = write_buf c'" "wp = write_pos c'" "wa = write_avail c'"
  have c': "c' = c\<lparr>write_buf := wb, write_pos := wp, write_avail := wa\<rparr>" using R(3) unfolding d .
  have "goes P c c'" using l R(2) unfolding c' goes_def live_def conn_ok_def by (simp add: forward_def)
  with R(1) show ?thesis by blast
qed

section \<open>A connection's life\<close>

text \<open>The calls on a connection, in any state \<open>g\<close> of the process: other connections run between
  two of them.\<close>

inductive client_call :: "('w, 'e, 's, 'x) env \<Rightarrow> 'x prims \<Rightarrow> ('e, 'x) conn \<Rightarrow> ('e, 'x) conn \<Rightarrow> bool" for E P c where
  started: "OSTLS_Start E (Some c) g = (Some c', g', err) \<Longrightarrow> client_call E P c c'"
| pumped: "OSTLS_Pump E P n (Some c) g = (Some c', g', err, ev) \<Longrightarrow> client_call E P c c'"
| got: "OSTLS_Read (Some c) (Some cap) = (Some c', err, ys) \<Longrightarrow> client_call E P c c'"
| wrote: "OSTLS_Write (Some c) (Some data) = (Some c', err, n) \<Longrightarrow> client_call E P c c'"
| closing: "OSTLS_Close E (Some c) g = (Some c', g') \<Longrightarrow> client_call E P c c'"
| notified: "client_call E P c (ostls_notifier event result cookie c)"

inductive lifetime :: "('w, 'e, 's, 'x) env \<Rightarrow> 'x prims \<Rightarrow> ('e, 'x) conn \<Rightarrow> bool" for E P where
  new: "OSTLS_New E sc config g = (Some c, err, g') \<Longrightarrow> lifetime E P c"
| call: "lifetime E P c \<Longrightarrow> client_call E P c c' \<Longrightarrow> lifetime E P c'"

lemma fresh_live: "live P (fresh_conn sc host server_name cfg)"
  by (simp add: live_def conn_ok_defs fresh_conn_def OSTLS_READ_BUF_SIZE_def)

lemma call_goes:
  assumes L: "ot_laws wi wo E" and c: "client_call E P c c'" and l: "live P c"
  shows "goes P c c'"
  using c
proof (cases rule: client_call.cases)
  case (started g g' err)
  then show ?thesis using start_goes [OF l] by blast
next
  case (pumped n g g' err ev)
  then show ?thesis using pump_goes [OF L l] by blast
next
  case (got cap err ys)
  then show ?thesis using read_goes [OF l] by blast
next
  case (wrote data err n)
  then show ?thesis using write_goes [OF l] by blast
next
  case (closing g g')
  then show ?thesis using close_goes [OF l] by blast
next
  case (notified event result cookie)
  then show ?thesis using goes_aside [OF notifier_aside l] by simp
qed

lemma lifetime_live:
  assumes L: "ot_laws wi wo E"
  shows "lifetime E P c \<Longrightarrow> live P c"
proof (induction rule: lifetime.induct)
  case (new sc config g c err g')
  then obtain host server_name cfg where "c = fresh_conn sc host server_name cfg"
    by (auto simp: OSTLS_New_def Let_def split: option.splits if_splits prod.splits)
  then show ?case using fresh_live by simp
next
  case (call c c')
  then show ?case using call_goes [OF L] by (auto simp: goes_def)
qed

section \<open>An incomplete last record\<close>

text \<open>An open connection with nothing to send or deliver, whose peer has closed its side, and whose
  unread bytes are less than a record.\<close>

definition cut_off :: "('e, 'x) conn \<Rightarrow> bool" where
  "cut_off c \<longleftrightarrow> c_state c = kOSTLSStateOpen \<and> tls13_mode c = kT13Mode_Open
     \<and> (\<exists>hs. c_hs13 c = Some hs \<and> msg_len hs \<le> msg_offset hs) \<and> t13_send_len c \<le> t13_send_off c
     \<and> t13_plain_len c \<le> t13_plain_off c \<and> write_avail c = 0 \<and> peer_closed c \<and> (nf_disconnect c \<longrightarrow> disc_consumed c)
     \<and> first_record (c_recv c) = None"

text \<open>What one step of the pump makes of it.\<close>

definition cut_off_step :: "('e, 'x) conn \<Rightarrow> ('e, 'x) conn \<times> OSTLSEvent" where
  "cut_off_step c =
     (if length (c_recv c) < 5 then (c\<lparr>c_state := kOSTLSStateClosed\<rparr>, kOSTLSEventClosed)
      else if HS_BUF < unat (get_u16 (c_recv c) 3) then ostls_fail c kOSTLSAsync_BearSSLError noErr BR_ERR_BAD_PARAM
      else (c, kOSTLSEventNone))"

lemma cut_off_iteration:
  assumes "cut_off c"
  shows "pump_iteration E P c g kOSTLSEventNone
    = (fst (cut_off_step c), g, snd (cut_off_step c), snd (cut_off_step c) \<noteq> kOSTLSEventNone)"
proof -
  obtain hs where hs: "c_hs13 c = Some hs" "msg_len hs \<le> msg_offset hs" using assms by (auto simp: cut_off_def)
  have f: "t13_flush_handshake E hs c g = (c, g, None)" using hs by (simp add: t13_flush_handshake_def)
  have r: "t13_flush_record E c g kOSTLSEventNone = (c, g, kOSTLSEventNone, None)"
    using assms by (simp add: t13_flush_record_def cut_off_def)
  have p: "pump_handshake_or_open_pre E c g = (c, g, kOSTLSEventNone)"
    using assms by (auto simp: pump_handshake_or_open_pre_def cut_off_def)
  have s: "c_state c = kOSTLSStateOpen" "tls13_mode c = kT13Mode_Open" "peer_closed c" using assms by (simp_all add: cut_off_def)
  have i: "\<not> length (c_recv c) < 5 \<Longrightarrow> length (c_recv c) < 5 + unat (get_u16 (c_recv c) 3)"
    using assms by (simp add: cut_off_def first_record_def Let_def split: if_splits)
  have e: "snd (ostls_fail c kOSTLSAsync_BearSSLError noErr BR_ERR_BAD_PARAM) = kOSTLSEventFailed"
    using s by (simp add: ostls_fail_def Let_def)
  have b: "event_bump kOSTLSEventNone kOSTLSEventClosed = kOSTLSEventClosed" by (simp add: event_bump_def)
  have "t13_open_phase E c g kOSTLSEventNone
      = (fst (cut_off_step c), g, snd (cut_off_step c), if snd (cut_off_step c) \<noteq> kOSTLSEventNone then 1 else 0)"
    using assms s i e by (auto simp: t13_open_phase_def pump_tls13_consume_record_def hs cut_off_def cut_off_step_def b Let_def)
  then have "pump_tls13_step E P c g kOSTLSEventNone
      = (fst (cut_off_step c), g, snd (cut_off_step c), if snd (cut_off_step c) \<noteq> kOSTLSEventNone then 1 else 0)"
    by (simp add: pump_tls13_step_def hs f r s)
  then show ?thesis by (simp add: pump_iteration_def p s)
qed

lemma cut_off_pump:
  fixes E :: "('w, 'e, 's, 'x) env" and c :: "('e, 'x) conn"
  assumes s: "cut_off c" and d: "c_disposed c = False" and n: "0 < n"
  defines "c1 \<equiv> c\<lparr>dbg_pump_calls := dbg_pump_calls c + 1,
      br_state_last := (if bearssl_initialised c then br_current_state E (c_sc c) else br_state_last c)\<rparr>"
  shows "OSTLS_Pump E P n (Some c) g = (Some (fst (cut_off_step c1)), g, noErr, snd (cut_off_step c1))"
proof -
  have s1: "cut_off c1" using s by (simp add: c1_def cut_off_def)
  have o: "c_state c1 = kOSTLSStateOpen" using s1 by (simp add: cut_off_def)
  obtain m where m: "n = Suc m" using n by (cases n) auto
  have stop: "pump_loop E P m c' g ev = (c', g, ev)" if "c_state c' = kOSTLSStateFailed \<or> c_state c' = kOSTLSStateClosed" for c' ev
    using that by (cases m) (simp_all add: pump_iteration_def)
  have "c_state (fst (cut_off_step c1)) = kOSTLSStateFailed \<or> c_state (fst (cut_off_step c1)) = kOSTLSStateClosed"
    if "snd (cut_off_step c1) \<noteq> kOSTLSEventNone"
    using that o by (auto simp: cut_off_step_def ostls_fail_def Let_def split: if_splits)
  then have "pump_loop E P n c1 g kOSTLSEventNone = (fst (cut_off_step c1), g, snd (cut_off_step c1))"
    using stop by (simp add: m cut_off_iteration [OF s1])
  then show ?thesis
    unfolding OSTLS_Pump_def option.case Let_def c1_def [symmetric] using d o by simp
qed

section \<open>Two connections\<close>

text \<open>What one connection seals the other reads.\<close>

lemma sessions_meet:
  assumes a: "ot_laws wi wo E" "open13 a0" "session E P a0 ga0 ra w a ga"
    and b: "ot_laws wi' wo' E'" "open13 b0" "session E' P' b0 gb0 r wb b gb"
    and keys: "rctx b0 = wctx a0"
    and fresh: "queued a0 = []" "outgoing a0 = []" "ring b0 = []" "staged b0 = []" "c_recv b0 = []"
    and sent: "wo (g_os ga) = wo (g_os ga0) @ u" and got: "wi' (g_os gb) = wi' (g_os gb0) @ i" and net: "prefix i u"
  shows "prefix (r @ ring b @ staged b) w"
proof -
  obtain ia u' ds where A: "io wi wo ga0 ia u' ga" "u' @ outgoing a = outgoing a0 @ seal_stream (wctx a0) ds"
    "queued a0 @ w = concat ds @ queued a" "\<forall>d\<in>set ds. length d \<le> OSTLS_WRITE_BUF_SIZE"
    using session_flows [OF a] by blast
  obtain i' ub dsb where B: "io wi' wo' gb0 i' ub gb" "\<And>W. prefix (r @ readable b W) (readable b0 (i' @ W))"
    using session_flows [OF b] by blast
  have "u' = u" "i' = i" using A(1) B(1) sent got by (simp_all add: io_def)
  then have s: "u @ outgoing a = seal_stream (wctx a0) ds" using A(2) fresh by simp
  obtain v where v: "u = i @ v" using net by (auto simp: prefix_def)
  have "\<forall>d\<in>set ds. length d + 17 \<le> HS_BUF" using A(4) by (auto simp: OSTLS_WRITE_BUF_SIZE_def HS_BUF_def)
  from app_data_sealed [OF this, of "wctx a0" "[]"] have d: "app_data (wctx a0) (seal_stream (wctx a0) ds) = concat ds"
    by (simp add: app_data_Nil)
  have "readable b0 (i @ v @ outgoing a) = (if up b0 then concat ds else [])"
    using s d by (simp add: readable_def fresh keys v)
  then have "prefix (readable b0 (i @ v @ outgoing a)) w" using A(3) fresh(1) by simp
  moreover have "prefix (r @ readable b (v @ outgoing a)) (readable b0 (i @ v @ outgoing a))"
    using B(2) [of "v @ outgoing a"] \<open>i' = i\<close> by simp
  moreover have "prefix (r @ ring b @ staged b) (r @ readable b (v @ outgoing a))" by (simp add: readable_def)
  ultimately show ?thesis by (blast intro: prefix_order.trans)
qed

section \<open>A concrete process\<close>

text \<open>An Open Transport whose state is the bytes that have arrived, those received and those sent:
  a receive hands out what has arrived, a send takes everything, every other call succeeds. Its
  TLS 1.2 engine, configured with the generator \<open>eng\<close> and the X.509 engine \<open>xc\<close>, never asks for
  anything.\<close>

definition net_env :: "ssl_engine \<Rightarrow> 'x \<Rightarrow> (bytes \<times> bytes \<times> bytes, unit, unit, 'x) env" where
  "net_env eng xc =
     \<lparr>ot_create_configuration = (\<lambda>w. (True, w)), ot_async_open_endpoint = (\<lambda>w. (noErr, w)), ot_bind = (\<lambda>ep w. (noErr, w)),
      ot_init_dns_address = int \<circ> length, ot_connect = (\<lambda>ep a w. (kOTNoDataErr, w)), ot_rcv_connect = (\<lambda>ep w. (noErr, w)),
      ot_tcp_nodelay = (\<lambda>ep w. w), ot_get_endpoint_state = (\<lambda>ep w. T_DATAXFER),
      ot_rcv = (\<lambda>ep n (arrived, rx, tx). if arrived = [] \<or> n = 0 then ((kOTNoDataErr, []), (arrived, rx, tx))
                  else ((int (length (take n arrived)), take n arrived), (drop n arrived, rx @ take n arrived, tx))),
      ot_snd = (\<lambda>ep b (arrived, rx, tx). (int (length b), (arrived, rx, tx @ b))),
      ot_look = (\<lambda>ep w. 0), ot_rcv_orderly_disconnect = (\<lambda>ep w. w), ot_rcv_disconnect = (\<lambda>ep w. w),
      ot_snd_orderly_disconnect = (\<lambda>ep w. w), ot_snd_disconnect = (\<lambda>ep w. w), ot_close_provider = (\<lambda>ep w. w),
      new_ptr_clear = (\<lambda>w. (True, w)), tick_count = (\<lambda>w. (0, w)), read_clock = (\<lambda>w. ((0xE0000000, 0), w)),
      stir_timer = (\<lambda>n w. w), inject_entropy = (\<lambda>e w. ((0, e), w)),
      br_init_full = (\<lambda>days seconds. ()), br_eng = (\<lambda>e. eng), br_x509 = (\<lambda>e. xc), br_session = (\<lambda>e. ()),
      br_session_suite = (\<lambda>s. 0), br_set_session = (\<lambda>s e. e), br_client_reset = (\<lambda>h r e. (True, e)),
      br_current_state = (\<lambda>e. 0), br_last_error = (\<lambda>e. 0), br_recvrec_room = (\<lambda>e. 0), br_recvrec = (\<lambda>b e. e),
      br_sendrec_buf = (\<lambda>e. []), br_sendrec_ack = (\<lambda>n e. e), br_recvapp_buf = (\<lambda>e. []), br_recvapp_ack = (\<lambda>n e. e),
      br_sendapp_room = (\<lambda>e. 0), br_sendapp = (\<lambda>b e. e), br_flush = (\<lambda>e. e), br_close = (\<lambda>e. e)\<rparr>"

definition sample_env :: "(bytes \<times> bytes \<times> bytes, unit, unit, unit) env" where
  "sample_env = net_env sample_engine ()"

definition rx_log :: "bytes \<times> bytes \<times> bytes \<Rightarrow> bytes" where "rx_log w = fst (snd w)"
definition tx_log :: "bytes \<times> bytes \<times> bytes \<Rightarrow> bytes" where "tx_log w = snd (snd w)"

lemma net_laws: "ot_laws rx_log tx_log (net_env eng xc)"
  by (auto simp: ot_laws_def quiet_def net_env_def rx_log_def tx_log_def kOTNoDataErr_def)

lemma sample_laws: "ot_laws rx_log tx_log sample_env"
  unfolding sample_env_def by (rule net_laws)

definition sample_globals :: "bytes \<Rightarrow> (bytes \<times> bytes \<times> bytes, unit) globals" where
  "sample_globals arrived = \<lparr>g_os = (arrived, [], []), g_tickets = [], g_sessions = [], g_try_tls13 = True\<rparr>"

definition sample_config :: config where
  "sample_config = \<lparr>cfg_host = Some (ascii ''example.org''), cfg_port = 443, cfg_server_name = Some (ascii ''example.org''),
     cfg_connect_timeout = 0, cfg_handshake_timeout = 0, cfg_refcon = 0\<rparr>"

definition sample_conn :: "(unit, unit) conn" where
  "sample_conn = fresh_conn () (ascii ''example.org'') (ascii ''example.org'') sample_config"

lemma sample_new: "OSTLS_New sample_env () (Some sample_config) (sample_globals w) = (Some sample_conn, kOSTLSAsync_OK, sample_globals w)"
  by (simp add: OSTLS_New_def sample_config_def sample_conn_def sample_env_def net_env_def sample_globals_def on_os_def ascii_def)

text \<open>A connection in the open phase of TLS 1.3.\<close>

definition sample_open :: "(unit, unit) conn" where
  "sample_open = sample_conn\<lparr>c_state := kOSTLSStateOpen, c_hs13 := Some (sample_ctx kTLS13_Complete), tls13_mode := kT13Mode_Open\<rparr>"

lemma sample_open_ok: "conn_ok sample_open" "tls13_mode sample_open = kT13Mode_Open"
proof -
  have "conn_ok sample_conn" using fresh_live [of sample_prims] unfolding sample_conn_def live_def by (rule conjunct1)
  moreover have "msg_len (sample_ctx kTLS13_Complete) \<le> msg_offset (sample_ctx kTLS13_Complete)"
    by (simp add: sample_ctx_def fresh_ctx_def tls13_handshake_init_def)
  ultimately show "conn_ok sample_open" using sample_ctx_facts(1,5) [of kTLS13_Complete]
    by (simp add: sample_open_def conn_ok_def hs13_wf_def mode_wf_def) (simp add: sample_conn_def fresh_conn_def)
  show "tls13_mode sample_open = kT13Mode_Open" by (simp add: sample_open_def)
qed

section \<open>Properties\<close>

text \<open>C4: over any sequence of pumps, reads, writes, a close and notifications on an open TLS 1.3
  connection: what \<open>OSTLS_Read\<close> handed out is a prefix of what the connection held unread
  followed by the plaintext of the application-data records among the bytes received, in
  order, none lost and none twice; and what went to Open Transport, with the record still on its
  way, is exactly the sequence of records, with consecutive sequence numbers, that carry the
  bytes \<open>OSTLS_Write\<close> accepted, in order, up to those still queued.\<close>

theorem session_streams:
  assumes "ot_laws wi wo E" "conn_ok c0" "tls13_mode c0 = kT13Mode_Open" "session E P c0 g0 r w c g"
  shows "\<exists>i u ds. wi (g_os g) = wi (g_os g0) @ i \<and> wo (g_os g) = wo (g_os g0) @ u
    \<and> prefix (r @ ring c @ staged c) (ring c0 @ staged c0 @ (if up c0 then app_data (rctx c0) (c_recv c0 @ i) else []))
    \<and> u @ outgoing c = outgoing c0 @ seal_stream (wctx c0) ds
    \<and> concat ds @ queued c = queued c0 @ w"
proof -
  have "open13 c0" using assms(2,3) by (simp add: open13_def)
  from session_flows [OF assms(1) this assms(4)] obtain i u ds where h: "io wi wo g0 i u g"
    "\<And>W. prefix (r @ readable c W) (readable c0 (i @ W))" "u @ outgoing c = outgoing c0 @ seal_stream (wctx c0) ds"
    "queued c0 @ w = concat ds @ queued c" by blast
  have "prefix (r @ ring c @ staged c) (r @ readable c [])" by (simp add: readable_def)
  also have "prefix \<dots> (readable c0 i)" using h(2) [of "[]"] by simp
  finally show ?thesis using h unfolding io_def readable_def by (metis)
qed

theorem session_streams_witness:
  "\<exists>c g u ds. session sample_env sample_prims sample_open (sample_globals []) [] [104, 105] c g
     \<and> tx_log (g_os g) = u \<and> u @ outgoing c = seal_stream (wctx sample_open) ds \<and> concat ds @ queued c = [104, 105]"
proof -
  obtain c1 err n where W: "OSTLS_Write (Some sample_open) (Some [104, 105]) = (Some c1, err, n)" "take n [104, 105] = [104, 105 :: byte]"
    by (simp add: OSTLS_Write_def sample_open_def sample_conn_def fresh_conn_def OSTLS_WRITE_BUF_SIZE_def)
  have s1: "session sample_env sample_prims sample_open (sample_globals []) [] [104, 105] c1 (sample_globals [])"
    using session.wrote [OF session.start W(1)] unfolding W(2) by simp
  have "live sample_prims sample_open \<or> True" by simp
  obtain r2 g2 e2 v2 where Pm: "OSTLS_Pump sample_env sample_prims 4 (Some c1) (sample_globals []) = (r2, g2, e2, v2)"
    by (metis prod.collapse)
  obtain c2 where r2: "r2 = Some c2"
    using Pm by (auto simp: OSTLS_Pump_def Let_def split: if_splits prod.splits)
  have s2: "session sample_env sample_prims sample_open (sample_globals []) [] [104, 105] c2 g2"
    using session.pumped [OF s1 Pm [unfolded r2]] .
  have z: "tx_log (g_os (sample_globals [])) = []" "outgoing sample_open = []" "queued sample_open = []"
    by (simp_all add: tx_log_def sample_globals_def outgoing_def queued_def sample_open_def sample_conn_def fresh_conn_def)
  from session_streams [OF sample_laws sample_open_ok s2] show ?thesis using s2 unfolding z by auto
qed

text \<open>C8: two connections end to end. Let an open TLS 1.3 connection that has sent nothing yet, and one
  that has received nothing yet and reads with the key, IV and sequence number the first writes
  with, each go through any calls and notifications, on its own Open Transport, while the network
  delivers to the second no more than a prefix of the bytes the first sent, cut in any way. Then
  what \<open>OSTLS_Read\<close> handed out at the second, with what it still holds, is a prefix of what
  \<open>OSTLS_Write\<close> accepted at the first.\<close>

theorem written_is_read:
  assumes "ot_laws wi wo E" "conn_ok a0" "tls13_mode a0 = kT13Mode_Open" "session E P a0 ga0 ra w a ga"
    and "ot_laws wi' wo' E'" "conn_ok b0" "tls13_mode b0 = kT13Mode_Open" "session E' P' b0 gb0 r wb b gb"
    and "rctx b0 = wctx a0" "queued a0 = []" "outgoing a0 = []" "ring b0 = []" "staged b0 = []" "c_recv b0 = []"
    and "wo (g_os ga) = wo (g_os ga0) @ u" "wi' (g_os gb) = wi' (g_os gb0) @ i" "prefix i u"
  shows "prefix (r @ ring b @ staged b) w"
  using sessions_meet [OF assms(1) _ assms(4,5) _ assms(8-17)] assms(2,3,6,7) by (simp add: open13_def)

theorem written_is_read_witness:
  "\<exists>a ga u. session sample_env sample_prims sample_open (sample_globals []) [] [104, 105] a ga \<and> tx_log (g_os ga) = u
     \<and> (\<forall>r wb b gb. session sample_env sample_prims sample_open (sample_globals u) r wb b gb \<longrightarrow>
          prefix (rx_log (g_os gb)) u \<longrightarrow> prefix r [104, 105])"
proof -
  obtain c1 err n where W: "OSTLS_Write (Some sample_open) (Some [104, 105]) = (Some c1, err, n)" "take n [104, 105] = [104, 105 :: byte]"
    by (simp add: OSTLS_Write_def sample_open_def sample_conn_def fresh_conn_def OSTLS_WRITE_BUF_SIZE_def)
  have s1: "session sample_env sample_prims sample_open (sample_globals []) [] [104, 105] c1 (sample_globals [])"
    using session.wrote [OF session.start W(1)] unfolding W(2) by simp
  obtain r2 g2 e2 v2 where Pm: "OSTLS_Pump sample_env sample_prims 4 (Some c1) (sample_globals []) = (r2, g2, e2, v2)"
    by (metis prod.collapse)
  obtain c2 where r2: "r2 = Some c2"
    using Pm by (auto simp: OSTLS_Pump_def Let_def split: if_splits prod.splits)
  have s2: "session sample_env sample_prims sample_open (sample_globals []) [] [104, 105] c2 g2"
    using session.pumped [OF s1 Pm [unfolded r2]] .
  have z: "tx_log (g_os (sample_globals [])) = []" "rx_log (g_os (sample_globals x)) = []" "outgoing sample_open = []"
    "queued sample_open = []" "ring sample_open = []" "staged sample_open = []" "c_recv sample_open = []" for x
    by (simp_all add: tx_log_def rx_log_def sample_globals_def outgoing_def queued_def ring_def staged_def sample_open_def
        sample_conn_def fresh_conn_def)
  have k: "rctx sample_open = wctx sample_open"
    by (simp add: rctx_def wctx_def sample_open_def sample_ctx_def fresh_ctx_def tls13_handshake_init_def)
  have "prefix r [104, 105]" if s: "session sample_env sample_prims sample_open (sample_globals u) r wb b gb"
    and "prefix (rx_log (g_os gb)) (tx_log (g_os g2))" for u r wb b gb
    using written_is_read [OF sample_laws sample_open_ok s2 sample_laws sample_open_ok s k z(4,3,5-7)] that(2)
    by (auto simp: z prefix_def)
  then show ?thesis using s2 by blast
qed

text \<open>C5: in every connection a client can come to hold, through any calls and notifications in any
  order and with other connections at work in between, every array keeps its size and every
  index and length stays within its array, the handshake context is well formed, and the public
  state and the TLS 1.3 mode go together.\<close>

theorem connection_stays_well_formed:
  assumes "ot_laws wi wo E" "lifetime E P c"
  shows "conn_ok c"
  using lifetime_live [OF assms] by (simp add: live_def)

theorem connection_stays_well_formed_witness:
  "lifetime sample_env sample_prims sample_conn \<and> conn_ok sample_conn"
  using lifetime.new [OF sample_new] connection_stays_well_formed [OF sample_laws] by blast

text \<open>C7: no call takes the public state of a connection back, except the one call, in its whole
  life, that gives up TLS 1.3 and connects again for TLS 1.2.\<close>

theorem connection_moves_forward:
  assumes "ot_laws wi wo E" "lifetime E P c" "client_call E P c c'"
  shows "if tls13_disabled c' = tls13_disabled c then state_rank (c_state c) \<le> state_rank (c_state c')
         else \<not> tls13_disabled c \<and> tls13_disabled c'"
  using call_goes [OF assms(1,3) lifetime_live [OF assms(1,2)]] by (auto simp: goes_def forward_def)

theorem connection_moves_forward_witness:
  "\<exists>c'. client_call sample_env sample_prims sample_conn c'
     \<and> (if tls13_disabled c' = tls13_disabled sample_conn then state_rank (c_state sample_conn) \<le> state_rank (c_state c')
        else \<not> tls13_disabled sample_conn \<and> tls13_disabled c')"
  using connection_moves_forward [OF sample_laws lifetime.new [OF sample_new] client_call.notified] client_call.notified by blast

text \<open>C9: a peer that closes its side in the middle of a record. Let an open TLS 1.3 connection have
  nothing queued, nothing staged, no record on its way and no pending disconnect, and let its unread
  bytes be less than a whole record. A call of \<open>OSTLS_Pump\<close> then, whatever Open Transport does, makes
  no call to it and: with fewer than the five bytes of a record header reports a clean close; with a
  header that announces too long a record fails; and with five bytes or more of any other record
  reports no event and leaves the connection open, the same but for two debugging counters, so
  that every later call finds it, and leaves it, as this one did.\<close>

theorem truncated_record:
  fixes E :: "('w, 'e, 's, 'x) env" and c :: "('e, 'x) conn"
  assumes "c_state c = kOSTLSStateOpen" "tls13_mode c = kT13Mode_Open" "c_hs13 c = Some hs" "msg_len hs \<le> msg_offset hs"
    "t13_send_len c \<le> t13_send_off c" "t13_plain_len c \<le> t13_plain_off c" "write_avail c = 0"
    "peer_closed c" "nf_disconnect c \<longrightarrow> disc_consumed c" "\<not> c_disposed c"
    "first_record (c_recv c) = None" "0 < n"
  shows "OSTLS_Pump E P n (Some c) g =
    (let c1 = c\<lparr>dbg_pump_calls := dbg_pump_calls c + 1,
           br_state_last := (if bearssl_initialised c then br_current_state E (c_sc c) else br_state_last c)\<rparr> in
     if length (c_recv c) < 5 then (Some (c1\<lparr>c_state := kOSTLSStateClosed\<rparr>), g, noErr, kOSTLSEventClosed)
     else if HS_BUF < unat (get_u16 (c_recv c) 3)
     then (Some (fst (ostls_fail c1 kOSTLSAsync_BearSSLError noErr BR_ERR_BAD_PARAM)), g, noErr, kOSTLSEventFailed)
     else (Some c1, g, noErr, kOSTLSEventNone))"
proof -
  have "cut_off c" using assms(1-11) by (simp add: cut_off_def)
  from cut_off_pump [OF this _ assms(12), of E P g] assms(1,10) show ?thesis
    by (simp add: cut_off_step_def Let_def) (simp add: ostls_fail_def Let_def)
qed

theorem truncated_record_witness:
  "snd (snd (OSTLS_Pump sample_env sample_prims 9 (Some (sample_open\<lparr>peer_closed := True, c_recv := [23, 3, 3, 0, 40, 1, 2]\<rparr>)) (sample_globals [])))
       = (noErr, kOSTLSEventNone)
   \<and> snd (snd (OSTLS_Pump sample_env sample_prims 9 (Some (sample_open\<lparr>peer_closed := True, c_recv := [23, 3, 3, 0]\<rparr>)) (sample_globals [])))
       = (noErr, kOSTLSEventClosed)"
proof -
  have m: "msg_len (sample_ctx kTLS13_Complete) \<le> msg_offset (sample_ctx kTLS13_Complete)"
    by (simp add: sample_ctx_def fresh_ctx_def tls13_handshake_init_def)
  have r: "first_record [23, 3, 3, 0, 40, 1, 2 :: byte] = None" "first_record [23, 3, 3, 0 :: byte] = None"
    "unat (get_u16 [23, 3, 3, 0, 40, 1, 2] 3) = 40"
    by (simp_all add: first_record_def get_u16_def byte_at_def)
  show ?thesis
    using truncated_record [of "sample_open\<lparr>peer_closed := True, c_recv := [23, 3, 3, 0, 40, 1, 2]\<rparr>" "sample_ctx kTLS13_Complete" 9 sample_env sample_prims "sample_globals []"]
      truncated_record [of "sample_open\<lparr>peer_closed := True, c_recv := [23, 3, 3, 0]\<rparr>" "sample_ctx kTLS13_Complete" 9 sample_env sample_prims "sample_globals []"]
      m r by (simp add: sample_open_def sample_conn_def fresh_conn_def HS_BUF_def)
qed

end
