(* ===== verification/Async_Open.thy ===== *)
theory Async_Open
  imports Async_Life
begin

text \<open>
  A connection that opens. On the network of \<open>net_env\<close>, which delivers what it is given, the pump
  takes a fresh connection through the phases of connecting to its ClientHello, and then relays
  the steps of the handshake: \<open>relay_step\<close>, \<open>relay_read\<close> and \<open>relay_open\<close> turn a step of
  \<open>tls13_handshake_step\<close> into a call of \<open>OSTLS_Pump\<close>. With the records of \<open>Hs_Psk\<close> the connection
  comes to the state Open although no certificate was sent.
\<close>

section \<open>One step of the pump\<close>

text \<open>A connection the pump works on. The time is always 0, so no timeout strikes.\<close>

definition running :: "bytes \<Rightarrow> ('e, 'x) conn \<Rightarrow> bool" where
  "running sn c \<longleftrightarrow> \<not> c_disposed c \<and> \<not> nf_disconnect c \<and> c_server_name c = sn \<and> start_ticks c = 0
     \<and> handshake_start_ticks c = 0 \<and> \<not> tls13_disabled c \<and> c_host_port c \<noteq> [] \<and> c_ep c \<noteq> 0"

definition counted :: "('w, 'e, 's, 'x) env \<Rightarrow> ('e, 'x) conn \<Rightarrow> ('e, 'x) conn" where
  "counted E c = c\<lparr>dbg_pump_calls := dbg_pump_calls c + 1,
     br_state_last := (if bearssl_initialised c then br_current_state E (c_sc c) else br_state_last c)\<rparr>"

lemma counted_simps [simp]:
  "c_state (counted E c) = c_state c" "tls13_mode (counted E c) = tls13_mode c" "c_hs13 (counted E c) = c_hs13 c"
  "c_recv (counted E c) = c_recv c" "t13_send_len (counted E c) = t13_send_len c" "t13_send_off (counted E c) = t13_send_off c"
  "c_phase (counted E c) = c_phase c" "nf_open_complete (counted E c) = nf_open_complete c"
  "nf_bind_complete (counted E c) = nf_bind_complete c" "nf_connect_complete (counted E c) = nf_connect_complete c"
  "nf_last_result (counted E c) = nf_last_result c" "running sn (counted E c) = running sn c"
  "c_server_name (counted E c) = c_server_name c"
  by (simp_all add: counted_def running_def)

lemma one_pump:
  assumes i: "pump_iteration E P (counted E c) g kOSTLSEventNone = (c', g', b, again)"
    and r: "running sn c" and s: "c_state c \<noteq> kOSTLSStateFailed" "c_state c \<noteq> kOSTLSStateClosed"
  shows "client_call E P c c'"
proof -
  have "pump_loop E P 1 (counted E c) g kOSTLSEventNone = (c', g', b)" using i by simp
  then have "OSTLS_Pump E P 1 (Some c) g = (Some c', g', noErr, b)"
    using r s unfolding OSTLS_Pump_def option.case Let_def counted_def [symmetric] by (simp add: running_def)
  then show ?thesis by (rule client_call.pumped)
qed

lemma quiet_pre:
  assumes "running sn c"
  shows "pump_handshake_or_open_pre (net_env eng xc) c g = (c, g, kOSTLSEventNone)"
  using assms by (simp add: pump_handshake_or_open_pre_def running_def net_env_def on_os_def)

section \<open>Relaying the handshake\<close>

definition handshaking :: "bytes \<Rightarrow> 'x hs_ctx \<Rightarrow> bytes \<Rightarrow> ('e, 'x) conn \<Rightarrow> bool" where
  "handshaking sn hs recv c \<longleftrightarrow> running sn c \<and> c_state c = kOSTLSStateHandshaking \<and> tls13_mode c = kT13Mode_Trying
     \<and> c_hs13 c = Some hs \<and> c_recv c = recv \<and> t13_send_len c \<le> t13_send_off c"

text \<open>The context once its outbound bytes are sent.\<close>

definition flushed :: "'x hs_ctx \<Rightarrow> 'x hs_ctx" where
  "flushed hs = (if msg_offset hs < msg_len hs then hs\<lparr>msg_offset := msg_len hs\<rparr> else hs)"

lemma relay_flush:
  fixes g :: "(bytes \<times> bytes \<times> bytes, unit) globals"
  assumes "handshaking sn hs recv c"
  shows "\<exists>c1 g1. handshaking sn (flushed hs) recv c1 \<and>
     t13_flush_handshake (net_env eng xc) hs c g = (c1, g1, None) \<and> (\<exists>rx tx. g_os g1 = (fst (g_os g), rx, tx)) \<and> g_tickets g1 = g_tickets g"
proof (cases "msg_offset hs < msg_len hs")
  case True
  define b where "b = rd (msg_buf hs) (msg_offset hs) (msg_len hs - msg_offset hs)"
  obtain a rx tx where o: "g_os g = (a, rx, tx)" by (cases "g_os g") auto
  have l: "length b = msg_len hs - msg_offset hs" "length b \<noteq> 0" using True by (simp_all add: b_def)
  have s: "ostls_send_raw (net_env eng xc) b c g = (c\<lparr>dbg_ot_send_calls := dbg_ot_send_calls c + 1,
       dbg_ot_send_bytes := dbg_ot_send_bytes c + word_of_int (int (length b)), dbg_ot_send_zero := dbg_ot_send_zero c\<rparr>,
       g\<lparr>g_os := (a, rx, tx @ b)\<rparr>, 0, length b)"
    using l by (simp add: ostls_send_raw_def net_env_def on_os_def o Let_def)
  show ?thesis using assms True s l
    by (simp add: t13_flush_handshake_def b_def [symmetric] o flushed_def handshaking_def running_def)
next
  case False
  then show ?thesis using assms by (cases "g_os g") (auto simp: t13_flush_handshake_def flushed_def)
qed

lemma relay:
  fixes g :: "(bytes \<times> bytes \<times> bytes, unit) globals"
  assumes h: "handshaking sn hs recv c"
  shows "\<exists>c1 g1. handshaking sn (flushed hs) recv c1 \<and> (\<exists>rx tx. g_os g1 = (fst (g_os g), rx, tx)) \<and>
     (\<forall>c' g' b r. t13_handshake_phase (net_env eng xc) P (flushed hs) c1 g1 kOSTLSEventNone = (c', g', b, r)
        \<longrightarrow> client_call (net_env eng xc) P c c')"
proof -
  let ?E = "net_env eng xc"
  have h1: "handshaking sn hs recv (counted ?E c)" using h by (simp add: handshaking_def)
  obtain c1 g1 where f: "handshaking sn (flushed hs) recv c1" "t13_flush_handshake ?E hs (counted ?E c) g = (c1, g1, None)"
    "\<exists>rx tx. g_os g1 = (fst (g_os g), rx, tx)" using relay_flush [OF h1] by blast
  have r: "t13_flush_record ?E c1 g1 kOSTLSEventNone = (c1, g1, kOSTLSEventNone, None)"
    using f(1) by (simp add: t13_flush_record_def handshaking_def)
  have "client_call ?E P c c'" if p: "t13_handshake_phase ?E P (flushed hs) c1 g1 kOSTLSEventNone = (c', g', b, n)" for c' g' b n
  proof -
    have st: "pump_tls13_step ?E P (counted ?E c) g kOSTLSEventNone = (c', g', b, n)"
      using h1 f(1,2) r p by (simp add: pump_tls13_step_def handshaking_def)
    have rn: "running sn (counted ?E c)" using h1 by (simp add: handshaking_def)
    have "pump_iteration ?E P (counted ?E c) g kOSTLSEventNone = (c', g', b, 0 < n)"
      using h1 st by (simp add: pump_iteration_def quiet_pre [OF rn] handshaking_def)
    then show ?thesis using h by (intro one_pump [of _ _ _ g]) (auto simp: handshaking_def)
  qed
  with f show ?thesis by blast
qed

lemma relay_step:
  assumes h: "handshaking sn hs recv c" and e: "tls13_handshake_step P (flushed hs) recv sn = (hs', recv', r)"
    and r: "r = kTLS13_OK \<or> r = kTLS13_WantWrite" and n: "hs_state hs' \<noteq> kTLS13_Complete \<or> msg_offset hs' < msg_len hs'"
  shows "\<exists>c'. client_call (net_env eng xc) P c c' \<and> handshaking sn hs' recv' c'"
proof -
  obtain c1 g1 where c1: "handshaking sn (flushed hs) recv c1"
    "\<And>c' g' b n. t13_handshake_phase (net_env eng xc) P (flushed hs) c1 g1 kOSTLSEventNone = (c', g', b, n)
        \<Longrightarrow> client_call (net_env eng xc) P c c'" using relay [OF h] by blast
  have f: "c_recv c1 = recv" "c_server_name c1 = sn" using c1(1) by (simp_all add: handshaking_def running_def)
  have "t13_handshake_phase (net_env eng xc) P (flushed hs) c1 g1 kOSTLSEventNone =
      (c1\<lparr>c_hs13 := Some hs', c_recv := recv'\<rparr>, g1, kOSTLSEventNone, 1)"
    using e r n by (auto simp: t13_handshake_phase_def f)
  moreover have "handshaking sn hs' recv' (c1\<lparr>c_hs13 := Some hs', c_recv := recv'\<rparr>)"
    using c1(1) by (simp add: handshaking_def running_def)
  ultimately show ?thesis using c1(2) by blast
qed

lemma relay_read:
  assumes h: "handshaking sn hs recv c" and e: "tls13_handshake_step P (flushed hs) recv sn = (hs', recv', kTLS13_WantRead)"
    and n: "hs_state hs' \<noteq> kTLS13_Complete" and d: "length recv' + length d \<le> BR_SSL_BUFSIZE_BIDI" "d \<noteq> []"
  shows "\<exists>c'. client_call (net_env eng xc) P c c' \<and> handshaking sn hs' (recv' @ d) c'"
proof -
  define g :: "(bytes \<times> bytes \<times> bytes, unit) globals" where
    "g = \<lparr>g_os = (d, [], []), g_tickets = [], g_sessions = [], g_try_tls13 = True\<rparr>"
  obtain c1 g1 rx tx where c1: "handshaking sn (flushed hs) recv c1" "g_os g1 = (fst (g_os g), rx, tx)"
    "\<And>c' g' b n. t13_handshake_phase (net_env eng xc) P (flushed hs) c1 g1 kOSTLSEventNone = (c', g', b, n)
        \<Longrightarrow> client_call (net_env eng xc) P c c'" using relay [OF h, of g] by blast
  have f: "c_recv c1 = recv" "c_server_name c1 = sn" using c1(1) by (simp_all add: handshaking_def running_def)
  define c2 where "c2 = c1\<lparr>c_hs13 := Some hs', c_recv := recv'\<rparr>"
  have o: "g_os g1 = (d, rx, tx)" using c1(2) by (simp add: g_def)
  have room: "length recv' < BR_SSL_BUFSIZE_BIDI" using d by (cases d) simp_all
  obtain c3 g3 where R: "pump_ot_recv_tls13 (net_env eng xc) c2 g1 = (c3, g3, 1)" "handshaking sn hs' (recv' @ d) c3"
  proof
    show "pump_ot_recv_tls13 (net_env eng xc) c2 g1 =
       (c2\<lparr>dbg_ot_recv_calls := dbg_ot_recv_calls c2 + 1, c_recv := recv' @ d, nf_data_pending := False,
           dbg_ot_recv_bytes := dbg_ot_recv_bytes c2 + word_of_int (int (length d))\<rparr>,
        g1\<lparr>g_os := ([], rx @ d, tx)\<rparr>, 1)"
      using d o room by (simp add: pump_ot_recv_tls13_def net_env_def on_os_def do_os_def c2_def Let_def)
    show "handshaking sn hs' (recv' @ d) (c2\<lparr>dbg_ot_recv_calls := dbg_ot_recv_calls c2 + 1, c_recv := recv' @ d,
           nf_data_pending := False, dbg_ot_recv_bytes := dbg_ot_recv_bytes c2 + word_of_int (int (length d))\<rparr>)"
      using c1(1) by (simp add: handshaking_def running_def c2_def)
  qed
  have "t13_handshake_phase (net_env eng xc) P (flushed hs) c1 g1 kOSTLSEventNone = (c3, g3, kOSTLSEventNone, 1)"
    using n by (simp add: t13_handshake_phase_def f e c2_def [symmetric] R)
  then show ?thesis using c1(3) R(2) by blast
qed

lemma relay_open:
  assumes h: "handshaking sn hs recv c" and e: "tls13_handshake_step P (flushed hs) recv sn = (hs', recv', r)"
    and n: "hs_state hs' = kTLS13_Complete" "msg_len hs' \<le> msg_offset hs'"
  shows "\<exists>c'. client_call (net_env eng xc) P c c' \<and> c_state c' = kOSTLSStateOpen \<and> tls13_mode c' = kT13Mode_Open
     \<and> c_hs13 c' = Some hs' \<and> c_server_name c' = sn"
proof -
  obtain c1 g1 where c1: "handshaking sn (flushed hs) recv c1"
    "\<And>c' g' b n. t13_handshake_phase (net_env eng xc) P (flushed hs) c1 g1 kOSTLSEventNone = (c', g', b, n)
        \<Longrightarrow> client_call (net_env eng xc) P c c'" using relay [OF h] by blast
  have f: "c_recv c1 = recv" "c_server_name c1 = sn" using c1(1) by (simp_all add: handshaking_def running_def)
  define c2 where "c2 = c1\<lparr>c_hs13 := Some hs', c_recv := recv', handshake_done := True, c_state := kOSTLSStateOpen,
     tls13_mode := kT13Mode_Open, c_cipher_suite := hs_cipher_suite hs', c_resumed := resumption_accepted hs'\<rparr>"
  have "t13_handshake_phase (net_env eng xc) P (flushed hs) c1 g1 kOSTLSEventNone =
      (c2, g1, event_bump kOSTLSEventNone kOSTLSEventHandshakeDone, 1)"
    using n by (simp add: t13_handshake_phase_def f e c2_def)
  from c1(2) [OF this] show ?thesis using f(2) by (intro exI [of _ c2]) (simp add: c2_def)
qed

section \<open>Dialling\<close>

definition dialling :: "bytes \<Rightarrow> connect_phase \<Rightarrow> ('e, 'x) conn \<Rightarrow> bool" where
  "dialling sn ph c \<longleftrightarrow> running sn c \<and> c_state c = kOSTLSStateConnecting \<and> c_phase c = ph \<and> c_hs13 c = None
     \<and> nf_last_result c = 0"

lemma dial_step:
  assumes d: "dialling sn ph c"
    and p: "pump_connect_step (net_env eng xc) (counted (net_env eng xc) c) g = (c', g', ev, True)"
  shows "client_call (net_env eng xc) P c c'"
proof -
  let ?E = "net_env eng xc"
  have rn: "running sn (counted ?E c)" using d by (simp add: dialling_def)
  have "pump_iteration ?E P (counted ?E c) g kOSTLSEventNone = (c', g', event_bump kOSTLSEventNone ev, True)"
    using d p by (simp add: pump_iteration_def quiet_pre [OF rn] dialling_def)
  then show ?thesis using d by (intro one_pump [of _ _ _ g]) (auto simp: dialling_def)
qed

definition idle_net :: "(bytes \<times> bytes \<times> bytes, unit) globals" where
  "idle_net = \<lparr>g_os = ([], [], []), g_tickets = [], g_sessions = [], g_try_tls13 = True\<rparr>"

text \<open>The phases, with the notifications of Open Transport between them.\<close>

lemma dial_on:
  assumes "dialling sn ph c"
    and "pump_connect_step (net_env eng xc) (counted (net_env eng xc) c) idle_net = (c1, idle_net, kOSTLSEventNone, True)"
    and "dialling sn ph' c1"
  shows "\<exists>c'. client_call (net_env eng xc) P c c' \<and> dialling sn ph' c'"
  using dial_step [OF assms(1,2)] assms(3) by blast

lemmas dial_simps = pump_connect_step_def dialling_def running_def net_env_def on_os_def idle_net_def noErr_def
  kOTNoError_def kOTNoDataErr_def counted_def

lemma dial_open:
  assumes "dialling sn kConnectPhase_OpenInFlight c" "nf_open_complete c"
  shows "\<exists>c'. client_call (net_env eng xc) P c c' \<and> dialling sn kConnectPhase_NeedsBind c'"
  by (rule dial_on [OF assms(1), where ?c1.0 =
      "(counted (net_env eng xc) c)\<lparr>nf_open_complete := False, ep_open := True, c_phase := kConnectPhase_NeedsBind\<rparr>"])
    (use assms in \<open>simp_all add: dial_simps\<close>)

lemma dial_bind:
  assumes "dialling sn kConnectPhase_NeedsBind c"
  shows "\<exists>c'. client_call (net_env eng xc) P c c' \<and> dialling sn kConnectPhase_BindInFlight c'"
  by (rule dial_on [OF assms(1), where ?c1.0 = "(counted (net_env eng xc) c)\<lparr>c_phase := kConnectPhase_BindInFlight\<rparr>"])
    (use assms in \<open>simp_all add: dial_simps\<close>)

lemma dial_bound:
  assumes "dialling sn kConnectPhase_BindInFlight c" "nf_bind_complete c"
  shows "\<exists>c'. client_call (net_env eng xc) P c c' \<and> dialling sn kConnectPhase_NeedsConnect c'"
  by (rule dial_on [OF assms(1), where ?c1.0 =
      "(counted (net_env eng xc) c)\<lparr>nf_bind_complete := False, c_phase := kConnectPhase_NeedsConnect\<rparr>"])
    (use assms in \<open>simp_all add: dial_simps\<close>)

lemma dial_connect:
  assumes "dialling sn kConnectPhase_NeedsConnect c"
  shows "\<exists>c'. client_call (net_env eng xc) P c c' \<and> dialling sn kConnectPhase_ConnectInFlight c'"
  by (rule dial_on [OF assms(1), where ?c1.0 = "(counted (net_env eng xc) c)\<lparr>c_phase := kConnectPhase_ConnectInFlight\<rparr>"])
    (use assms in \<open>simp_all add: dial_simps\<close>)

lemma dial_notified:
  assumes "dialling sn ph c"
  shows "dialling sn ph (ostls_notifier T_BINDCOMPLETE 0 0 c)" "nf_bind_complete (ostls_notifier T_BINDCOMPLETE 0 0 c)"
    "dialling sn ph (ostls_notifier T_CONNECT 0 0 c)" "nf_connect_complete (ostls_notifier T_CONNECT 0 0 c)"
  using assms by (simp_all add: ostls_notifier_def T_OPENCOMPLETE_def T_BINDCOMPLETE_def T_CONNECT_def dialling_def running_def)

lemma net_clock: "OSTLS_GetBearSSLTime 0xE0000000 0 = (d, s, e) \<Longrightarrow> e = kOSTLSTimeOK"
  "td_result (OSTLS_GetBearSSLTimeDetails 0xE0000000 0) = kOSTLSTimeOK"
proof -
  show t: "td_result (OSTLS_GetBearSSLTimeDetails 0xE0000000 0) = kOSTLSTimeOK"
    by code_simp
  show "OSTLS_GetBearSSLTime 0xE0000000 0 = (d, s, e) \<Longrightarrow> e = kOSTLSTimeOK"
    using t by (auto simp: OSTLS_GetBearSSLTime_def Let_def)
qed

lemma dial_connected:
  assumes "dialling sn kConnectPhase_ConnectInFlight c" "nf_connect_complete c"
  shows "\<exists>c'. client_call (net_env eng xc) P c c' \<and> handshaking sn (fresh_ctx xc eng) [] c'"
proof -
  let ?E = "net_env eng xc"
  obtain d s e where T: "OSTLS_GetBearSSLTime 0xE0000000 0 = (d, s, e)" by (metis prod.collapse)
  note e = net_clock(1) [OF T]
  define c1 where "c1 = (counted ?E c)\<lparr>nf_connect_complete := False, c_phase := kConnectPhase_Done,
     c_state := kOSTLSStateHandshaking, c_sc := (), bearssl_initialised := True, handshake_start_ticks := 0, c_recv := [],
     t13_plain_len := 0, t13_plain_off := 0, t13_send_len := 0, t13_send_off := 0\<rparr>"
  define c2 where "c2 = c1\<lparr>tls13_mode := kT13Mode_Trying, c_hs13 := Some (fresh_ctx xc eng)\<rparr>"
  have a: "arm_tls13 ?E c1 idle_net = (c2, idle_net)"
    by (simp add: arm_tls13_def net_env_def on_os_def idle_net_def OSTLS_TicketCacheGet_def c2_def fresh_ctx_def Let_def)
  have p: "pump_connect_step ?E (counted ?E c) idle_net = (c2, idle_net, kOSTLSEventConnected, True)"
    using assms a
    by (simp add: pump_connect_step_def dialling_def running_def net_env_def on_os_def do_os_def idle_net_def noErr_def
      ostls_setup_bearssl_def T e c1_def counted_def Let_def)
  show ?thesis
    using dial_step [OF assms(1) p] assms
    by (intro exI [of _ c2]) (auto simp: dialling_def running_def handshaking_def c2_def c1_def counted_def)
qed

text \<open>From \<open>OSTLS_New\<close> to the first step of the handshake.\<close>

lemma lifetime_handshaking:
  fixes cfg :: config
  assumes host: "cfg_host cfg = Some host" "host \<noteq> []" "length host < 256"
    and sn: "cfg_server_name cfg = Some sn" "sn \<noteq> []" "length sn < 256" and port: "cfg_port cfg \<noteq> 0"
  shows "\<exists>c. lifetime (net_env eng xc) P c \<and> handshaking sn (fresh_ctx xc eng) [] c"
proof -
  let ?E = "net_env eng xc"
  define c0 :: "(unit, 'a) conn" where "c0 = fresh_conn () host sn cfg"
  have "OSTLS_New ?E () (Some cfg) idle_net = (Some c0, kOSTLSAsync_OK, idle_net)"
    using assms by (simp add: OSTLS_New_def net_env_def on_os_def idle_net_def c0_def)
  then have l0: "lifetime ?E P c0" by (rule lifetime.new)
  define c1 where "c1 = c0\<lparr>c_state := kOSTLSStateConnecting, c_phase := kConnectPhase_OpenInFlight, start_ticks := 0, c_started := True\<rparr>"
  have "OSTLS_Start ?E (Some c0) idle_net = (Some c1, idle_net, kOSTLSAsync_OK)"
    using net_clock(2) by (simp add: OSTLS_Start_def open_endpoint_def net_env_def on_os_def idle_net_def noErr_def c1_def)
      (simp add: c0_def fresh_conn_def)
  then have l1: "lifetime ?E P c1" by (intro lifetime.call [OF l0] client_call.started)
  define c2 where "c2 = ostls_notifier T_OPENCOMPLETE 0 1 c1"
  have l2: "lifetime ?E P c2" unfolding c2_def by (intro lifetime.call [OF l1] client_call.notified)
  have d2: "dialling sn kConnectPhase_OpenInFlight c2" "nf_open_complete c2"
    by (simp_all add: c2_def c1_def ostls_notifier_def dialling_def running_def Let_def) (simp_all add: c0_def fresh_conn_def)
  obtain c3 where c3: "client_call ?E P c2 c3" "dialling sn kConnectPhase_NeedsBind c3"
    using dial_open [OF d2] by blast
  obtain c4 where c4: "client_call ?E P c3 c4" "dialling sn kConnectPhase_BindInFlight c4"
    using dial_bind [OF c3(2)] by blast
  note n4 = dial_notified(1,2) [OF c4(2)]
  obtain c5 where c5: "client_call ?E P (ostls_notifier T_BINDCOMPLETE 0 0 c4) c5" "dialling sn kConnectPhase_NeedsConnect c5"
    using dial_bound [OF n4] by blast
  obtain c6 where c6: "client_call ?E P c5 c6" "dialling sn kConnectPhase_ConnectInFlight c6"
    using dial_connect [OF c5(2)] by blast
  note n6 = dial_notified(3,4) [OF c6(2)]
  obtain c7 where c7: "client_call ?E P (ostls_notifier T_CONNECT 0 0 c6) c7" "handshaking sn (fresh_ctx xc eng) [] c7"
    using dial_connected [OF n6] by blast
  have "lifetime ?E P c4" using lifetime.call [OF lifetime.call [OF l2 c3(1)] c4(1)] .
  then have "lifetime ?E P c6" using lifetime.call [OF lifetime.call [OF lifetime.call [OF _ client_call.notified] c5(1)] c6(1)] by blast
  then have "lifetime ?E P c7" using lifetime.call [OF lifetime.call [OF _ client_call.notified] c7(1)] by blast
  with c7(2) show ?thesis by blast
qed

section \<open>Open without a certificate\<close>

text \<open>Nothing to read: the reading states ask for more and change nothing.\<close>

lemma pending_empty: "pending hs = [] \<longleftrightarrow> plain_len hs \<le> plain_offset hs"
proof -
  have "length (pending hs) = plain_len hs - plain_offset hs" by (simp add: pending_def)
  then show ?thesis by (metis diff_is_0_eq length_0_conv)
qed

lemma wait_step:
  assumes "pending hs = []"
    and "hs_state hs = kTLS13_RecvServerHello \<or> hs_state hs = kTLS13_RecvEncryptedExtensions \<or> hs_state hs = kTLS13_RecvFinished"
    and "hs_state hs = kTLS13_RecvServerHello \<Longrightarrow> \<not> hrr_pending hs"
  shows "tls13_handshake_step P hs [] sn = (hs, [], kTLS13_WantRead)"
proof -
  have "tls13_read_encrypted_hs hs [] = (hs, [], kTLS13_WantRead, 0, 0)"
    using assms(1) by (subst tls13_read_encrypted_hs.simps) (simp add: rh_extract_def pending_empty)
  then show ?thesis using assms(2,3)
    by (elim disjE) (simp_all add: tls13_handshake_step_def tls13_state_recv_server_hello_def
      tls13_state_recv_encrypted_extensions_def tls13_state_recv_finished_def)
qed

lemma flushed_id: "msg_len hs \<le> msg_offset hs \<Longrightarrow> flushed hs = hs"
  by (simp add: flushed_def)

lemma flushed_sent: "msg_len (flushed hs) \<le> msg_offset (flushed hs)"
  by (simp add: flushed_def)

text \<open>A record delivered to a waiting connection whose context it takes one step on: two pumps.\<close>

lemma flushed_flushed [simp]: "flushed (flushed hs) = flushed hs"
  by (simp add: flushed_def)

lemma relay_record:
  assumes h: "handshaking sn hs [] c" and w: "tls13_handshake_step P (flushed hs) [] sn = (flushed hs, [], kTLS13_WantRead)"
    and r: "r \<noteq> []" "length r \<le> BR_SSL_BUFSIZE_BIDI"
    and e: "tls13_handshake_step P (flushed hs) r sn = (hs', [], kTLS13_OK)" and n: "hs_state hs' \<noteq> kTLS13_Complete"
    and l: "lifetime (net_env eng xc) P c"
  shows "\<exists>c'. lifetime (net_env eng xc) P c' \<and> handshaking sn hs' [] c'"
proof -
  have "hs_state (flushed hs) \<noteq> kTLS13_Complete" using w by (auto simp: tls13_handshake_step_def)
  then obtain c1 where c1: "client_call (net_env eng xc) P c c1" "handshaking sn (flushed hs) ([] @ r) c1"
    using relay_read [OF h w, of r eng xc] r by auto
  obtain c2 where c2: "client_call (net_env eng xc) P c1 c2" "handshaking sn hs' [] c2"
    using relay_step [OF c1(2), of P hs' "[]" kTLS13_OK eng xc] e n by auto
  show ?thesis using lifetime.call [OF lifetime.call [OF l c1(1)] c2(1)] c2(2) by blast
qed

lemma send_finished_total:
  assumes ok: "hs_ok hs" and st: "hs_state hs = kTLS13_SendFinished"
  shows "\<exists>h. tls13_handshake_step P hs recv sn = (h, recv, kTLS13_WantWrite) \<and> hs_state h = kTLS13_Complete
     \<and> msg_offset h < msg_len h \<and> hs_x509 h = hs_x509 hs \<and> server_pkey h = server_pkey hs \<and> offer_ticket h = offer_ticket hs
     \<and> resumption_accepted h = resumption_accepted hs \<and> (\<exists>f. length f = t_hash_len (hs_transcript hs)
       \<and> hs_transcript h = tls13_transcript_update (hs_transcript hs) ([20] @ vec24 f))"
proof -
  have "t_hash_len (hs_transcript hs) \<le> 48"
    using ok st by (cases "t_hash (hs_transcript hs)") (auto simp: hs_ok_defs transcript_wf_def transcript_repr_def)
  moreover have "[TLS13_HT_FINISHED] @ put_u24 (word_of_nat n) @ rd v 0 n = [20] @ vec24 (rd v 0 n)" for n and v :: bytes
    by (simp add: ht_defs vec24_def)
  moreover have "\<exists>f. length f = n \<and> u ([20] @ vec24 (rd v 0 n)) = u ([20] @ vec24 f)" for n and v :: bytes and u :: "bytes \<Rightarrow> transcript"
    by (intro exI [of _ "rd v 0 n"]) simp
  ultimately show ?thesis using st
    by (simp add: tls13_handshake_step_def tls13_state_send_finished_def Let_def record_encrypt_seal length_record_seal HS_BUF_def)
qed

lemma length_sealed_record: "length (sealed_record ctx m) = length m + 22"
  by (simp add: sealed_record_def vec16_def length_record_seal)

text \<open>The whole way, with the records of \<open>Hs_Psk\<close>.\<close>

lemma psk_connection:
  fixes pub :: bytes and P :: "'x prims" and cfg :: config
  assumes P: "keygen_works P" and mul: "mul_works P" and pub: "length pub = 32"
    and host: "cfg_host cfg = Some host" "host \<noteq> []" "length host < 256"
    and sn: "cfg_server_name cfg = Some sn" "sn \<noteq> []" "length sn < 256" and port: "cfg_port cfg \<noteq> 0"
  shows "\<exists>c hs. lifetime (net_env eng xc) P c \<and> c_state c = kOSTLSStateOpen \<and> tls13_mode c = kT13Mode_Open
     \<and> c_hs13 c = Some hs \<and> c_server_name c = sn \<and> offer_ticket hs = None \<and> hs_x509 hs = xc \<and> server_pkey hs = NoKey
     \<and> resumption_accepted hs \<and> (\<exists>ch f f'. length f = 32 \<and> length f' = 32 \<and> transcript_repr (hs_transcript hs) SHA256
          (ch @ psk_server_hello pub @ empty_encrypted_extensions @ ([20] @ vec24 f) @ ([20] @ vec24 f')))"
proof -
  let ?E = "net_env eng xc"
  obtain c where c: "lifetime ?E P c" "handshaking sn (fresh_ctx xc eng) [] c"
    using lifetime_handshaking [OF host sn port, of eng xc P] by blast
  have l: "length sn \<le> 16000" using sn by simp
  obtain h m where h: "tls13_handshake_step P (fresh_ctx xc eng) [] sn = (h, [], kTLS13_WantWrite)"
    "hs_state h = kTLS13_RecvServerHello" "transcript_repr (hs_transcript h) SHA256 m" "ecdhe_group h = TLS13_GROUP_X25519"
    "offer_ticket h = None" "pending h = []" "hs_x509 h = xc" "server_pkey h = NoKey" "ecdhe_secret_len h = 32"
    using first_hello_step [OF P l, of xc eng "[]"] by blast
  have "flushed (fresh_ctx xc eng) = fresh_ctx xc eng"
    by (simp add: flushed_def fresh_ctx_def tls13_handshake_init_def)
  then obtain c1 where c1: "lifetime ?E P c1" "handshaking sn h [] c1"
    using relay_step [OF c(2), of P h "[]" kTLS13_WantWrite eng xc] h(1,2) lifetime.call [OF c(1)] by auto
  define k where "k = flushed h"
  have ok: "hs_ok k" using step_keeps_ok [OF fresh_ctx_ok h(1)] by (simp add: k_def flushed_def)
  have k: "hs_state k = kTLS13_RecvServerHello" "transcript_repr (hs_transcript k) SHA256 m" "ecdhe_group k = TLS13_GROUP_X25519"
    "offer_ticket k = None" "pending k = []" "hs_x509 k = xc" "server_pkey k = NoKey" "\<not> hrr_pending k" "msg_len k \<le> msg_offset k" "ecdhe_secret_len k = 32"
    using h ok by (simp_all add: k_def flushed_def pending_def hs_ok_def)
  have "\<exists>point. p_ec_mul P 29 pub (rd (ecdhe_secret k) 0 (ecdhe_secret_len k)) = Some point"
    using mul pub by (simp add: mul_works_def k(10))
  then obtain point where x: "p_ec_mul P 29 pub (rd (ecdhe_secret k) 0 (ecdhe_secret_len k)) = Some point" ..
  obtain h1 where h1: "tls13_handshake_step P k (hello_record (psk_server_hello pub)) sn = (h1, [], kTLS13_OK)"
    "hs_state h1 = kTLS13_RecvEncryptedExtensions" "resumption_accepted h1"
    "transcript_repr (hs_transcript h1) SHA256 (m @ psk_server_hello pub)" "ks_wf SHA256 (hs_ks h1)"
    "hs_x509 h1 = xc" "server_pkey h1 = NoKey" "pending h1 = []" "msg_len h1 \<le> msg_offset h1" "offer_ticket h1 = None"
    using psk_hello_step [OF ok k(1,2,4,3) pub x, of sn] k by auto
  have i1: "flushed h1 = h1" using h1(9) by (rule flushed_id)
  have ok1: "hs_ok h1" by (rule step_keeps_ok [OF ok h1(1)])
  have s1: "hello_record (psk_server_hello pub) \<noteq> []" "length (hello_record (psk_server_hello pub)) \<le> BR_SSL_BUFSIZE_BIDI"
    using psk_server_hello_bytes(1) [OF pub] by (simp_all add: hello_record_def vec16_def BR_SSL_BUFSIZE_BIDI_def)
  obtain c2 where c2: "lifetime ?E P c2" "handshaking sn h1 [] c2"
    using relay_record [OF c1(2) _ s1 _ _ c1(1)] wait_step [OF k(5)] k(1,8) h1(1,2) unfolding k_def by auto
  define r2 where "r2 = sealed_record (hs_read_ctx h1) empty_encrypted_extensions"
  obtain h2 where h2: "tls13_handshake_step P h1 r2 sn = (h2, [], kTLS13_OK)"
    "hs_state h2 = kTLS13_RecvFinished" "hs_ks h2 = hs_ks h1" "hs_x509 h2 = xc" "server_pkey h2 = NoKey" "pending h2 = []"
    "hs_transcript h2 = tls13_transcript_update (hs_transcript h1) empty_encrypted_extensions"
    "msg_len h2 \<le> msg_offset h2" "offer_ticket h2 = None" "resumption_accepted h2"
    using encrypted_extensions_step [OF ok1 h1(2,8), of P sn] h1 unfolding r2_def by auto
  have i2: "flushed h2 = h2" using h2(8) by (rule flushed_id)
  have ok2: "hs_ok h2" by (rule step_keeps_ok [OF ok1 h2(1)])
  have s2: "r2 \<noteq> []" "length r2 \<le> BR_SSL_BUFSIZE_BIDI"
    by (simp_all add: r2_def sealed_record_def) (simp add: vec16_def length_record_seal BR_SSL_BUFSIZE_BIDI_def empty_encrypted_extensions_def)
  obtain c3 where c3: "lifetime ?E P c3" "handshaking sn h2 [] c3"
    using relay_record [OF c2(2) _ s2 _ _ c2(1)] wait_step [OF h1(8)] h1(2) h2(1,2) unfolding i1 by auto
  have t2: "transcript_repr (hs_transcript h2) SHA256 ((m @ psk_server_hello pub) @ empty_encrypted_extensions)"
    unfolding h2(7) by (rule transcript_repr_update [OF h1(4)])
  have k2: "ks_wf SHA256 (hs_ks h2)" using h1(5) h2(3) by simp
  define f where "f = finished_spec SHA256 (rd (server_hs_secret h2) 0 (br_digest_size SHA256))
     ((m @ psk_server_hello pub) @ empty_encrypted_extensions)"
  have lf: "length f = 32" by (simp add: f_def finished_spec_def)
  define r3 where "r3 = sealed_record (hs_read_ctx h2) ([20] @ vec24 f)"
  obtain h3 where h3: "tls13_handshake_step P h2 r3 sn = (h3, [], kTLS13_OK)"
    "hs_state h3 = kTLS13_SendFinished" "hs_x509 h3 = xc" "server_pkey h3 = NoKey" "msg_len h3 \<le> msg_offset h3" "offer_ticket h3 = None"
    "resumption_accepted h3" "hs_transcript h3 = tls13_transcript_update (hs_transcript h2) ([20] @ vec24 f)"
    using finished_step [OF ok2 h2(2,6) t2 k2, of P sn] h2 unfolding r3_def f_def by auto
  have t3: "transcript_repr (hs_transcript h3) SHA256 (((m @ psk_server_hello pub) @ empty_encrypted_extensions) @ [20] @ vec24 f)"
    unfolding h3(8) by (rule transcript_repr_update [OF t2])
  have i3: "flushed h3 = h3" using h3(5) by (rule flushed_id)
  have ok3: "hs_ok h3" by (rule step_keeps_ok [OF ok2 h3(1)])
  have s3: "r3 \<noteq> []" "length r3 \<le> BR_SSL_BUFSIZE_BIDI"
    by (simp_all add: r3_def sealed_record_def) (simp add: vec16_def vec24_def length_record_seal BR_SSL_BUFSIZE_BIDI_def lf)
  obtain c4 where c4: "lifetime ?E P c4" "handshaking sn h3 [] c4"
    using relay_record [OF c3(2) _ s3 _ _ c3(1)] wait_step [OF h2(6)] h2(2) h3(1,2) unfolding i2 by auto
  have "t_hash_len (hs_transcript h3) = 32" using t3 by (simp add: transcript_repr_def)
  then obtain h4 f' where h4: "tls13_handshake_step P h3 [] sn = (h4, [], kTLS13_WantWrite)" "hs_state h4 = kTLS13_Complete"
    "msg_offset h4 < msg_len h4" "hs_x509 h4 = xc" "server_pkey h4 = NoKey" "offer_ticket h4 = None" "resumption_accepted h4"
    "length f' = 32" "hs_transcript h4 = tls13_transcript_update (hs_transcript h3) ([20] @ vec24 f')"
    using send_finished_total [OF ok3 h3(2), of P "[]" sn] h3(3-7) by auto
  have t4: "transcript_repr (hs_transcript h4) SHA256
      (m @ psk_server_hello pub @ empty_encrypted_extensions @ ([20] @ vec24 f) @ ([20] @ vec24 f'))"
    unfolding h4(9) using transcript_repr_update [OF t3, of "[20] @ vec24 f'"] by simp
  obtain c5 where c5: "lifetime ?E P c5" "handshaking sn h4 [] c5"
    using relay_step [OF c4(2), of P h4 "[]" kTLS13_WantWrite eng xc] h4(1,3) lifetime.call [OF c4(1)] unfolding i3 by auto
  have f4: "hs_state (flushed h4) = kTLS13_Complete" "hs_x509 (flushed h4) = xc" "server_pkey (flushed h4) = NoKey"
    "offer_ticket (flushed h4) = None" "resumption_accepted (flushed h4)" "hs_transcript (flushed h4) = hs_transcript h4"
    using h4 by (simp_all add: flushed_def)
  have "tls13_handshake_step P (flushed h4) [] sn = (flushed h4, [], kTLS13_OK)" using f4(1) by (simp add: tls13_handshake_step_def)
  from relay_open [OF c5(2) this f4(1) flushed_sent, of eng xc] show ?thesis
    using lifetime.call [OF c5(1)] f4 t4 lf h4(8) by metis
qed

lemma sample_config_facts:
  "length (replicate 32 (9 :: byte)) = 32" "cfg_host sample_config = Some (ascii ''example.org'')" "ascii ''example.org'' \<noteq> []"
  "length (ascii ''example.org'') < 256" "cfg_server_name sample_config = Some (ascii ''example.org'')" "cfg_port sample_config \<noteq> 0"
  by (simp_all add: sample_config_def ascii_def)

section \<open>Properties\<close>

text \<open>C1: whatever calls and notifications brought a connection there, when it is open under TLS 1.3
  its handshake is complete, and either the server's chain was accepted by the X.509 engine for
  the server name the client asked for and a CertificateVerify under the key of that chain was
  verified over the transcript, or the resumption flag is set.\<close>

theorem open_is_authenticated:
  assumes "ot_laws wi wo E" "lifetime E P c" "tls13_mode c = kT13Mode_Open"
  shows "\<exists>hs. c_hs13 c = Some hs \<and> hs_state hs = kTLS13_Complete
     \<and> (resumption_accepted hs \<or> chain_checked P (c_server_name c) hs \<and> signed P hs)"
proof -
  have l: "live P c" by (rule lifetime_live [OF assms(1,2)])
  then obtain hs where "c_hs13 c = Some hs" "hs_state hs = kTLS13_Complete" "authenticated P (c_server_name c) hs"
    using assms(3) by (auto simp: live_def conn_ok_def hs13_wf_def split: option.splits)
  then show ?thesis by (auto simp: authenticated_def state_order)
qed

theorem open_is_authenticated_witness:
  "\<exists>c hs. lifetime sample_env sample_prims c \<and> tls13_mode c = kT13Mode_Open \<and> c_hs13 c = Some hs
     \<and> (resumption_accepted hs \<or> chain_checked sample_prims (c_server_name c) hs \<and> signed sample_prims hs)"
proof -
  from psk_connection [OF sample_keygen sample_mul sample_config_facts(1-5,3,4,6), of sample_engine "()"]
  obtain c where "lifetime sample_env sample_prims c" "tls13_mode c = kT13Mode_Open" unfolding sample_env_def by blast
  then show ?thesis using open_is_authenticated [OF sample_laws] by blast
qed

text \<open>C2: the resumption flag is no evidence. Let X25519 make key pairs of 32 bytes and multiply 32-byte
  points by 32-byte scalars. Then a new connection, on a network that delivers what it is given,
  can be brought to the state Open with the resumption flag set although it offered no ticket: the
  transcript of the whole handshake is the ClientHello, a ServerHello with a 32-byte key share and
  a pre_shared_key extension nobody asked for, empty EncryptedExtensions and the two Finished. No
  certificate was sent: the X.509 engine is as it was configured, and the server key is the empty one.\<close>

theorem opens_without_certificate:
  fixes pub :: bytes and P :: "'x prims" and cfg :: config
  assumes "keygen_works P" "mul_works P" "length pub = 32"
    "cfg_host cfg = Some host" "host \<noteq> []" "length host < 256"
    "cfg_server_name cfg = Some sn" "sn \<noteq> []" "length sn < 256" "cfg_port cfg \<noteq> 0"
  shows "\<exists>c hs. lifetime (net_env eng xc) P c \<and> c_state c = kOSTLSStateOpen \<and> tls13_mode c = kT13Mode_Open
     \<and> c_hs13 c = Some hs \<and> c_server_name c = sn \<and> offer_ticket hs = None \<and> hs_x509 hs = xc \<and> server_pkey hs = NoKey
     \<and> resumption_accepted hs \<and> (\<exists>ch f f'. length f = 32 \<and> length f' = 32 \<and> transcript_repr (hs_transcript hs) SHA256
          (ch @ psk_server_hello pub @ empty_encrypted_extensions @ ([20] @ vec24 f) @ ([20] @ vec24 f')))"
  by (rule psk_connection [OF assms])

theorem opens_without_certificate_witness:
  "\<exists>c hs ch f f'. lifetime sample_env sample_prims c \<and> c_state c = kOSTLSStateOpen \<and> c_hs13 c = Some hs
     \<and> offer_ticket hs = None \<and> server_pkey hs = NoKey \<and> transcript_repr (hs_transcript hs) SHA256
          (ch @ psk_server_hello (replicate 32 9) @ empty_encrypted_extensions @ ([20] @ vec24 f) @ ([20] @ vec24 f'))"
proof -
  from opens_without_certificate [OF sample_keygen sample_mul sample_config_facts(1-5,3,4,6), of sample_engine "()"]
  show ?thesis unfolding sample_env_def by blast
qed

end
