(* ===== verification/Entropy.thy ===== *)
theory Entropy
  imports Key_Schedule "HOL-Library.Sublist"
begin

text \<open>
  The entropy pool of os9/ostls_entropy.c: one SHA-256 context that every sample is folded into,
  and from which seeds are drawn by hashing a copy with a tag and folding the result back.

  The clocks, the mouse, the address of a local variable and the File Manager are the fields of
  the record \<open>host\<close>, on an abstract state \<open>'w\<close> of the machine. Samples are the bytes of the C
  objects on the target (big-endian, \<open>unsigned long\<close> of 32 bits). Every operation that draws
  seeds also returns the list of them, in order, for the theorems to speak of. Log calls are left
  out.

  The abstract pool is the sequence of all bytes folded in; a seed is the SHA-256 digest of that
  sequence with a tag. \<open>call_acts\<close> prescribes, call by call, which samples are folded in and which
  seeds are drawn; \<open>do_call_acts\<close> and its relatives show that the operations do that and
  nothing else, so that no two seeds are ever digests of the same input.
\<close>

unbundle bit_operations_syntax

section \<open>The pool\<close>

record 'w host =
  h_ticks :: "'w \<Rightarrow> u32 \<times> 'w"
  h_microseconds :: "'w \<Rightarrow> (u32 \<times> u32) \<times> 'w"
  h_mouse :: "'w \<Rightarrow> (u16 \<times> u16) \<times> 'w"
  h_stack_address :: "'w \<Rightarrow> u32"
  fs_find_folder :: "'w \<Rightarrow> int \<times> 'w"
  fs_make_spec :: "'w \<Rightarrow> int \<times> 'w"
  fs_delete :: "'w \<Rightarrow> 'w"
  fs_create :: "'w \<Rightarrow> int \<times> 'w"
  fs_open :: "bool \<Rightarrow> 'w \<Rightarrow> int \<times> 'w"
  fs_read :: "nat \<Rightarrow> 'w \<Rightarrow> (int \<times> bytes) \<times> 'w"
  fs_set_eof :: "'w \<Rightarrow> 'w"
  fs_write :: "bytes \<Rightarrow> 'w \<Rightarrow> int \<times> 'w"
  fs_close :: "'w \<Rightarrow> 'w"
  fs_flush_vol :: "'w \<Rightarrow> 'w"

record pool =
  g_pool :: sha256_ctx
  g_pool_init :: bool
  g_sample_count :: u32
  g_last_mouse :: "u16 \<times> u16"
  g_seed_saved :: bool

definition OSTLS_SEED_BYTES :: nat where "OSTLS_SEED_BYTES = 32"
definition eofErr :: int where "eofErr = - 39"

text \<open>\<open>pool_update\<close> on a pool that is initialised.\<close>

definition pool_fold :: "bytes \<Rightarrow> pool \<Rightarrow> pool" where
  "pool_fold data s = s\<lparr>g_pool := br_sha256_update (g_pool s) data, g_sample_count := g_sample_count s + 1\<rparr>"

definition seed_spec :: "'w host \<Rightarrow> 'w \<Rightarrow> bool \<times> 'w" where
  "seed_spec H w =
     (let (err, w) = fs_find_folder H w
      in if err \<noteq> 0 then (False, w)
         else let (err, w) = fs_make_spec H w in (err = 0 \<or> err = - 43, w))"

text \<open>\<open>OSTLS_LoadSeed\<close> calls \<open>pool_update\<close>, which calls \<open>pool_ensure_init\<close>, which calls
  \<open>OSTLS_LoadSeed\<close>; the flag is set before the last call, so the inner \<open>pool_update\<close> finds the pool
  initialised. \<open>load_seed\<close> has the call of \<open>pool_update\<close> as its argument; the equation of the C
  functions is \<open>ensure_init_eq\<close> below.\<close>

definition load_seed :: "(bytes \<Rightarrow> pool \<Rightarrow> 'w \<Rightarrow> pool \<times> 'w) \<Rightarrow> 'w host \<Rightarrow> pool \<Rightarrow> 'w \<Rightarrow> pool \<times> 'w" where
  "load_seed update H s w =
     (let (ok, w) = seed_spec H w
      in if \<not> ok then (s, w)
         else let (err, w) = fs_open H False w
              in if err \<noteq> 0 then (s, w)
                 else let ((err, buf), w) = fs_read H OSTLS_SEED_BYTES w; w = fs_close H w
                      in if (err = 0 \<or> err = eofErr) \<and> 0 < length buf then update buf s w else (s, w))"

definition pool_ensure_init :: "'w host \<Rightarrow> pool \<Rightarrow> 'w \<Rightarrow> pool \<times> 'w" where
  "pool_ensure_init H s w =
     (if g_pool_init s then (s, w)
      else load_seed (\<lambda>data s w. (pool_fold data s, w)) H (s\<lparr>g_pool := br_sha256_init (g_pool s), g_pool_init := True\<rparr>) w)"

definition pool_update :: "'w host \<Rightarrow> bytes \<Rightarrow> pool \<Rightarrow> 'w \<Rightarrow> pool \<times> 'w" where
  "pool_update H data s w = (let (s, w) = pool_ensure_init H s w in (pool_fold data s, w))"

definition OSTLS_LoadSeed :: "'w host \<Rightarrow> pool \<Rightarrow> 'w \<Rightarrow> pool \<times> 'w" where
  "OSTLS_LoadSeed H s w = load_seed (pool_update H) H s w"

definition pool_extract :: "'w host \<Rightarrow> bytes \<Rightarrow> pool \<Rightarrow> 'w \<Rightarrow> pool \<times> 'w \<times> bytes" where
  "pool_extract H tag s w =
     (let (s, w) = pool_ensure_init H s w; out = br_sha256_out (br_sha256_update (g_pool s) tag)
      in (s\<lparr>g_pool := br_sha256_update (g_pool s) out\<rparr>, w, out))"

section \<open>Operations\<close>

definition seed_tag :: bytes where "seed_tag = ascii ''macSeed'' @ [0]"
definition inject_tag :: bytes where "inject_tag = ascii ''macExtr'' @ [0]"
definition test_tag :: bytes where "test_tag = ascii ''macStst'' @ [0]"
definition rand_tag :: bytes where "rand_tag = ascii ''macErnd'' @ [0]"

definition OSTLS_SaveSeed :: "'w host \<Rightarrow> pool \<Rightarrow> 'w \<Rightarrow> pool \<times> 'w \<times> bytes list" where
  "OSTLS_SaveSeed H s w =
     (let (ok, w) = seed_spec H w
      in if \<not> ok then (s, w, [])
         else let (s, w, seed) = pool_extract H seed_tag s w;
                  w = fs_delete H w;
                  (err, w) = fs_create H w
              in if err \<noteq> 0 then (s, w, [seed])
                 else let (err, w) = fs_open H True w
                      in if err \<noteq> 0 then (s, w, [seed])
                         else let w = fs_set_eof H w; (err, w) = fs_write H seed w
                              in (s, fs_flush_vol H (fs_close H w), [seed]))"

definition put_wide :: "u32 \<times> u32 \<Rightarrow> bytes" where "put_wide t = put_u32 (fst t) @ put_u32 (snd t)"
definition put_point :: "u16 \<times> u16 \<Rightarrow> bytes" where "put_point p = put_u16 (fst p) @ put_u16 (snd p)"

definition OSTLS_CollectEntropy :: "'w host \<Rightarrow> pool \<Rightarrow> 'w \<Rightarrow> pool \<times> 'w" where
  "OSTLS_CollectEntropy H s w =
     (let (ticks, w) = h_ticks H w; (usec, w) = h_microseconds H w; (mouse, w) = h_mouse H w;
          (s, w) = pool_update H (put_u32 ticks) s w;
          (s, w) = pool_update H (put_wide usec) s w
      in if mouse \<noteq> g_last_mouse s
         then let (s, w) = pool_update H (put_point mouse) s w in (s\<lparr>g_last_mouse := mouse\<rparr>, w)
         else (s, w))"

definition OSTLS_StirTimer :: "'w host \<Rightarrow> u32 \<Rightarrow> pool \<Rightarrow> 'w \<Rightarrow> pool \<times> 'w" where
  "OSTLS_StirTimer H hint s w =
     (let (ticks, w) = h_ticks H w; (usec, w) = h_microseconds H w;
          (s, w) = pool_update H (put_u32 ticks) s w;
          (s, w) = pool_update H (put_wide usec) s w
      in pool_update H (put_u32 hint) s w)"

definition OSTLS_EntropySampleCount :: "pool \<Rightarrow> u32" where
  "OSTLS_EntropySampleCount s = g_sample_count s"

definition OSTLS_StirEntropy :: "'w host \<Rightarrow> bytes option \<Rightarrow> u32 \<Rightarrow> pool \<Rightarrow> 'w \<Rightarrow> pool \<times> 'w" where
  "OSTLS_StirEntropy H data len s w =
     (let (s, w) = (case data of
                      Some d \<Rightarrow> if 0 < len then pool_update H (take (unat len) d) s w else (s, w)
                    | None \<Rightarrow> (s, w))
      in OSTLS_StirTimer H len s w)"

text \<open>The seeding of the engine, \<open>br_ssl_engine_inject_entropy\<close>, is the argument \<open>inject\<close>.\<close>

definition OSTLS_InjectEntropy ::
  "'w host \<Rightarrow> (bytes \<Rightarrow> 'e \<Rightarrow> 'e) \<Rightarrow> 'e option \<Rightarrow> pool \<Rightarrow> 'w \<Rightarrow> int \<times> 'e option \<times> pool \<times> 'w \<times> bytes list" where
  "OSTLS_InjectEntropy H inject eng s w =
     (case eng of
        None \<Rightarrow> (- 1, None, s, w, [])
      | Some e \<Rightarrow>
          let (s, w) = pool_ensure_init H s w;
              (s, w) = pool_update H (put_u32 (h_stack_address H w)) s w;
              (usec, w) = h_microseconds H w;
              (s, w) = pool_update H (put_wide usec) s w;
              (s, w) = pool_update H (put_u32 (g_sample_count s)) s w;
              (s, w, seed) = pool_extract H inject_tag s w;
              e = inject seed e
          in if g_seed_saved s then (0, Some e, s, w, [seed])
             else let (s, w, saved) = OSTLS_SaveSeed H s w
                  in (0, Some e, s\<lparr>g_seed_saved := True\<rparr>, w, seed # saved))"

function random_loop :: "'w host \<Rightarrow> nat \<Rightarrow> pool \<Rightarrow> 'w \<Rightarrow> pool \<times> 'w \<times> bytes \<times> bytes list" where
  "random_loop H len s w =
     (if len = 0 then (s, w, [], [])
      else let (s, w, blk) = pool_extract H rand_tag s w;
               n = (if len < OSTLS_SEED_BYTES then len else OSTLS_SEED_BYTES);
               (s, w, out, seeds) = random_loop H (len - n) s w
           in (s, w, take n blk @ out, blk # seeds))"
  by pat_completeness auto
termination by (relation "measure (\<lambda>(H, len, s, w). len)") (auto simp: OSTLS_SEED_BYTES_def)

declare random_loop.simps [simp del]

definition OSTLS_RandomBytes :: "'w host \<Rightarrow> nat \<Rightarrow> pool \<Rightarrow> 'w \<Rightarrow> pool \<times> 'w \<times> bytes \<times> bytes list" where
  "OSTLS_RandomBytes H len s w =
     (if len = 0 then (s, w, [], [])
      else let (s, w) = pool_ensure_init H s w;
               (s, w) = pool_update H (put_u32 (h_stack_address H w)) s w;
               (usec, w) = h_microseconds H w;
               (s, w) = pool_update H (put_wide usec) s w
           in random_loop H len s w)"

section \<open>The self test\<close>

text \<open>The 64 seeds of \<open>OSTLS_EntropySelfTest\<close> and what it computes from them: the number of equal
  neighbours, the histogram of the bytes, the number of one bits and the fingerprint.\<close>

primrec draw_seeds :: "nat \<Rightarrow> 'w host \<Rightarrow> pool \<Rightarrow> 'w \<Rightarrow> pool \<times> 'w \<times> bytes list" where
  "draw_seeds 0 H s w = (s, w, [])"
| "draw_seeds (Suc n) H s w =
     (let (s, w, seed) = pool_extract H test_tag s w; (s, w, seeds) = draw_seeds n H s w in (s, w, seed # seeds))"

fun count_dups :: "bytes list \<Rightarrow> nat" where
  "count_dups (a # b # xs) = (if a = b then 1 else 0) + count_dups (b # xs)"
| "count_dups xs = 0"

definition seed_hist :: "bytes list \<Rightarrow> nat list" where
  "seed_hist seeds = fold (\<lambda>c h. h[unat c := h ! unat c + 1]) (concat seeds) (replicate 256 0)"

definition count_ones :: "bytes list \<Rightarrow> nat" where
  "count_ones seeds = sum_list (map (\<lambda>c. length (filter (\<lambda>b. c AND push_bit b 1 \<noteq> 0) [0..<8])) (concat seeds))"

definition seeds_pass :: "bytes list \<Rightarrow> bool" where
  "seeds_pass seeds =
     (let total_bits = length seeds * OSTLS_SEED_BYTES * 8; half = total_bits div 2; tol = total_bits div 20;
          hist = seed_hist seeds; nonempty = length (filter (\<lambda>n. 0 < n) hist); maxbucket = fold max hist 0;
          ones = count_ones seeds
      in count_dups seeds = 0 \<and> 250 \<le> nonempty \<and> maxbucket \<le> 40 \<and> half - tol \<le> ones \<and> ones \<le> half + tol)"

definition OSTLS_EntropySelfTest :: "'w host \<Rightarrow> pool \<Rightarrow> 'w \<Rightarrow> int \<times> u32 \<times> pool \<times> 'w \<times> bytes list" where
  "OSTLS_EntropySelfTest H s w =
     (let (s, w) = pool_ensure_init H s w;
          (s, w) = OSTLS_CollectEntropy H s w;
          (s, w) = OSTLS_StirTimer H 0x53454C46 s w;
          (s, w, seeds) = draw_seeds 64 H s w;
          fp_out = br_sha256_out (foldl br_sha256_update (br_sha256_init (g_pool s)) seeds)
      in (if seeds_pass seeds then 0 else 1, br_dec32be fp_out 0, s, w, seeds))"

section \<open>The abstract pool\<close>

definition pool_tags :: "bytes set" where "pool_tags = {seed_tag, inject_tag, test_tag, rand_tag}"

lemma length_tags: "t \<in> pool_tags \<Longrightarrow> length t = 8"
  by (auto simp: pool_tags_def seed_tag_def inject_tag_def test_tag_def rand_tag_def ascii_def)

lemma tags_in: "seed_tag \<in> pool_tags" "inject_tag \<in> pool_tags" "test_tag \<in> pool_tags" "rand_tag \<in> pool_tags"
  by (simp_all add: pool_tags_def)

text \<open>The recursion as the C code has it.\<close>

lemma update_initialised: "g_pool_init s \<Longrightarrow> pool_update H d s w = (pool_fold d s, w)"
  by (simp add: pool_update_def pool_ensure_init_def)

lemma load_seed_cong:
  assumes "\<And>d w. upd d s w = upd' d s w"
  shows "load_seed upd H s w = load_seed upd' H s w"
  by (simp add: load_seed_def assms split_beta Let_def)

lemma ensure_init_eq:
  "pool_ensure_init H s w =
     (if g_pool_init s then (s, w)
      else OSTLS_LoadSeed H (s\<lparr>g_pool := br_sha256_init (g_pool s), g_pool_init := True\<rparr>) w)"
  unfolding pool_ensure_init_def OSTLS_LoadSeed_def
  by (auto simp: update_initialised intro!: load_seed_cong)

text \<open>What a pool does is fold bytes in and draw seeds; \<open>run_acts\<close> gives the bytes folded in so far
  and the inputs of the digests drawn.\<close>

datatype act = Fold bytes | Extract bytes

fun run_acts :: "bytes \<Rightarrow> act list \<Rightarrow> bytes \<times> bytes list" where
  "run_acts m [] = (m, [])"
| "run_acts m (Fold d # as) = run_acts (m @ d) as"
| "run_acts m (Extract t # as) = (let (m', ins) = run_acts (m @ sha256_spec (m @ t)) as in (m', (m @ t) # ins))"

fun act_ok :: "act \<Rightarrow> bool" where
  "act_ok (Fold d) = True"
| "act_ok (Extract t) = (t \<in> pool_tags)"

fun folds :: "act list \<Rightarrow> nat" where
  "folds [] = 0"
| "folds (Fold d # as) = Suc (folds as)"
| "folds (Extract t # as) = folds as"

lemma run_acts_append:
  "run_acts m (as @ bs) = (let (m', i) = run_acts m as; (m'', j) = run_acts m' bs in (m'', i @ j))"
  by (induction m as rule: run_acts.induct) (simp_all add: split_beta Let_def)

lemma folds_append [simp]: "folds (as @ bs) = folds as + folds bs"
  by (induction as rule: folds.induct) simp_all

lemma folds_replicate [simp]: "folds (replicate n (Extract t)) = 0"
  by (induction n) simp_all

definition pool_repr :: "pool \<Rightarrow> bytes \<Rightarrow> bool" where
  "pool_repr s m \<longleftrightarrow> (if g_pool_init s then sha256_repr (g_pool s) m else length (s_buf (g_pool s)) = 64 \<and> m = [])"

text \<open>\<open>acts s as ss s'\<close>: from \<open>s\<close> to \<open>s'\<close> the pool performed the actions \<open>as\<close>, and drew the seeds \<open>ss\<close>.\<close>

definition acts :: "pool \<Rightarrow> act list \<Rightarrow> bytes list \<Rightarrow> pool \<Rightarrow> bool" where
  "acts s as ss s' \<longleftrightarrow> g_sample_count s' = g_sample_count s + of_nat (folds as) \<and>
     (\<forall>m. pool_repr s m \<longrightarrow> pool_repr s' (fst (run_acts m as)) \<and> ss = map sha256_spec (snd (run_acts m as)))"

lemma acts_refl: "acts s [] [] s"
  by (simp add: acts_def)

lemma acts_trans:
  assumes "acts s as ss s'" "acts s' bs ts s''"
  shows "acts s (as @ bs) (ss @ ts) s''"
  using assms by (auto simp: acts_def run_acts_append split_beta Let_def)

lemma acts_step: "acts s as [] s' \<Longrightarrow> acts s' bs ts s'' \<Longrightarrow> acts s (as @ bs) ts s''"
  using acts_trans [of s as "[]" s' bs ts s''] by simp

text \<open>Fields the pool does not depend on, and what the pool functions leave of them.\<close>

lemma acts_upd [simp]:
  "acts s as ss (s'\<lparr>g_last_mouse := p\<rparr>) = acts s as ss s'" "acts s as ss (s'\<lparr>g_seed_saved := b\<rparr>) = acts s as ss s'"
  by (simp_all add: acts_def pool_repr_def)

definition on_from :: "pool \<Rightarrow> pool \<Rightarrow> bool" where
  "on_from s s' \<longleftrightarrow> g_pool_init s' \<and> g_last_mouse s' = g_last_mouse s \<and> g_seed_saved s' = g_seed_saved s"

section \<open>What every operation has to fold in and draw\<close>

text \<open>The bytes of the seed file, when there are any.\<close>

definition seed_file :: "'w host \<Rightarrow> 'w \<Rightarrow> bytes option \<times> 'w" where
  "seed_file H w =
     (let (ok, w) = seed_spec H w
      in if \<not> ok then (None, w)
         else let (err, w) = fs_open H False w
              in if err \<noteq> 0 then (None, w)
                 else let ((err, buf), w) = fs_read H OSTLS_SEED_BYTES w
                      in (if (err = 0 \<or> err = eofErr) \<and> buf \<noteq> [] then Some buf else None, fs_close H w))"

text \<open>The first use of the pool folds the seed file in.\<close>

definition boot :: "'w host \<Rightarrow> pool \<Rightarrow> 'w \<Rightarrow> act list \<times> 'w" where
  "boot H s w =
     (if g_pool_init s then ([], w)
      else case seed_file H w of (None, w) \<Rightarrow> ([], w) | (Some d, w) \<Rightarrow> ([Fold d], w))"

definition fold_clock :: "u32 \<Rightarrow> u32 \<times> u32 \<Rightarrow> act list" where
  "fold_clock ticks usec = [Fold (put_u32 ticks), Fold (put_wide usec)]"

definition fold_mouse :: "(u16 \<times> u16) \<Rightarrow> pool \<Rightarrow> act list" where
  "fold_mouse p s = (if p \<noteq> g_last_mouse s then [Fold (put_point p)] else [])"

definition stir_acts :: "'w host \<Rightarrow> u32 \<Rightarrow> pool \<Rightarrow> 'w \<Rightarrow> act list" where
  "stir_acts H hint s w =
     (let (t, w) = h_ticks H w; (u, w) = h_microseconds H w in fst (boot H s w) @ fold_clock t u @ [Fold (put_u32 hint)])"

definition save_acts :: "'w host \<Rightarrow> pool \<Rightarrow> 'w \<Rightarrow> act list" where
  "save_acts H s w = (let (ok, w) = seed_spec H w in if ok then fst (boot H s w) @ [Extract seed_tag] else [])"

text \<open>The calls of the interface, with their arguments.\<close>

datatype pool_call =
  CLoad | CSave | CCollect | CStir u32 | CStirData "bytes option" u32 | CInject "bytes list option" | CRandom nat | CSelfTest

fun call_acts :: "'w host \<Rightarrow> pool_call \<Rightarrow> pool \<Rightarrow> 'w \<Rightarrow> act list" where
  "call_acts H CLoad s w = (case seed_file H w of (None, w) \<Rightarrow> [] | (Some d, w) \<Rightarrow> fst (boot H s w) @ [Fold d])"
| "call_acts H CSave s w = save_acts H s w"
| "call_acts H CCollect s w =
     (let (t, w) = h_ticks H w; (u, w) = h_microseconds H w; (p, w) = h_mouse H w
      in fst (boot H s w) @ fold_clock t u @ fold_mouse p s)"
| "call_acts H (CStir hint) s w = stir_acts H hint s w"
| "call_acts H (CStirData d len) s w =
     (case d of
        Some x \<Rightarrow>
          if 0 < len
          then let (b, w) = boot H s w; (t, w) = h_ticks H w; (u, w) = h_microseconds H w
               in b @ [Fold (take (unat len) x)] @ fold_clock t u @ [Fold (put_u32 len)]
          else stir_acts H len s w
      | None \<Rightarrow> stir_acts H len s w)"
| "call_acts H (CInject eng) s w =
     (case eng of
        None \<Rightarrow> []
      | Some e \<Rightarrow>
          let (b, w1) = boot H s w; (u, w2) = h_microseconds H w1
          in b @ [Fold (put_u32 (h_stack_address H w1)), Fold (put_wide u),
                  Fold (put_u32 (g_sample_count s + of_nat (folds b) + 2)), Extract inject_tag]
             @ (if \<not> g_seed_saved s \<and> fst (seed_spec H w2) then [Extract seed_tag] else []))"
| "call_acts H (CRandom n) s w =
     (if n = 0 then []
      else let (b, w1) = boot H s w; (u, w2) = h_microseconds H w1
           in b @ [Fold (put_u32 (h_stack_address H w1)), Fold (put_wide u)] @ replicate ((n + 31) div 32) (Extract rand_tag))"
| "call_acts H CSelfTest s w =
     (let (b, w) = boot H s w; (t, w) = h_ticks H w; (u, w) = h_microseconds H w; (p, w) = h_mouse H w;
          (t', w) = h_ticks H w; (u', w) = h_microseconds H w
      in b @ fold_clock t u @ fold_mouse p s @ fold_clock t' u' @ [Fold (put_u32 0x53454C46)] @ replicate 64 (Extract test_tag))"

lemma boot_ok [simp]: "\<forall>a\<in>set (fst (boot H s w)). act_ok a"
  by (simp add: boot_def split: prod.split option.split)

lemma boot_init [simp]: "g_pool_init s \<Longrightarrow> boot H s w = ([], w)"
  by (simp add: boot_def)

lemma call_acts_ok: "\<forall>a\<in>set (call_acts H c s w). act_ok a"
proof -
  have [simp]: "\<forall>a\<in>set (fold_clock t u). act_ok a" "\<forall>a\<in>set (fold_mouse p s). act_ok a" for t u p
    by (simp_all add: fold_clock_def fold_mouse_def)
  have "act_ok a" if "a \<in> set (fst (boot H s w))" for a w using boot_ok [of H s w] that by blast
  moreover from this have "act_ok a" if "(b, w') = boot H s w" "a \<in> set b" for a b w w' using that by (metis fst_conv)
  ultimately show ?thesis
    by (cases c) (auto simp: stir_acts_def save_acts_def tags_in Let_def split: prod.splits option.splits if_splits)
qed

section \<open>Every operation is its sequence of actions\<close>

lemma pool_fold_acts: "g_pool_init s \<Longrightarrow> acts s [Fold d] [] (pool_fold d s) \<and> on_from s (pool_fold d s)"
  by (simp add: acts_def on_from_def pool_fold_def pool_repr_def sha256_repr_update)

lemma init_acts:
  "\<not> g_pool_init s \<Longrightarrow> acts s [] [] (s\<lparr>g_pool := br_sha256_init (g_pool s), g_pool_init := True\<rparr>)"
  by (simp add: acts_def pool_repr_def sha256_repr_init)

lemma load_seed_file:
  "load_seed upd H s w = (case seed_file H w of (None, w) \<Rightarrow> (s, w) | (Some d, w) \<Rightarrow> upd d s w)"
  by (auto simp: load_seed_def seed_file_def Let_def split: prod.split)

lemma on_from_trans: "on_from s s' \<Longrightarrow> on_from s' s'' \<Longrightarrow> on_from s s''"
  by (simp add: on_from_def)

lemma ensure_init_acts:
  assumes "pool_ensure_init H s w = (s', w')"
  shows "acts s (fst (boot H s w)) [] s'" "w' = snd (boot H s w)" "on_from s s'"
proof -
  have "acts s (fst (boot H s w)) [] s' \<and> w' = snd (boot H s w) \<and> on_from s s'"
  proof (cases "g_pool_init s")
    case True
    then show ?thesis using assms by (simp add: pool_ensure_init_def acts_refl on_from_def)
  next
    case False
    let ?s = "s\<lparr>g_pool := br_sha256_init (g_pool s), g_pool_init := True\<rparr>"
    obtain f w1 where f: "seed_file H w = (f, w1)" by fastforce
    have "(s', w') = (case f of None \<Rightarrow> (?s, w1) | Some d \<Rightarrow> (pool_fold d ?s, w1))"
      using assms False by (simp add: pool_ensure_init_def load_seed_file f)
    moreover have "on_from s ?s" by (simp add: on_from_def)
    ultimately show ?thesis
      using False init_acts [OF False] pool_fold_acts [of ?s] acts_step [OF init_acts [OF False]] on_from_trans [of s ?s]
      by (cases f) (simp_all add: boot_def f)
  qed
  then show "acts s (fst (boot H s w)) [] s'" "w' = snd (boot H s w)" "on_from s s'" by blast+
qed

lemma pool_update_acts:
  assumes "pool_update H d s w = (s', w')"
  shows "acts s (fst (boot H s w) @ [Fold d]) [] s'" "w' = snd (boot H s w)" "on_from s s'"
proof -
  obtain s1 w1 where i: "pool_ensure_init H s w = (s1, w1)" by fastforce
  note I = ensure_init_acts [OF i]
  have s': "s' = pool_fold d s1" "w' = w1" using assms by (simp_all add: pool_update_def i)
  have "g_pool_init s1" using I(3) by (simp add: on_from_def)
  note F = pool_fold_acts [OF this, of d]
  show "acts s (fst (boot H s w) @ [Fold d]) [] s'" unfolding s' using acts_step I(1) F by blast
  show "w' = snd (boot H s w)" "on_from s s'" using I F on_from_trans unfolding s' by blast+
qed

text \<open>An update of a pool in use.\<close>

lemma update_on:
  assumes "pool_update H d s w = (s', w')" "on_from s0 s"
  shows "acts s [Fold d] [] s' \<and> w' = w \<and> on_from s0 s'"
  using pool_update_acts [OF assms(1)] assms(2) by (simp add: on_from_def)

lemma pool_extract_acts:
  assumes e: "pool_extract H tag s w = (s', w', out)"
  shows "acts s (fst (boot H s w) @ [Extract tag]) [out] s'" "on_from s s'" "w' = snd (boot H s w)"
proof -
  obtain s1 w1 where i: "pool_ensure_init H s w = (s1, w1)" by fastforce
  note I = ensure_init_acts [OF i]
  have o: "out = br_sha256_out (br_sha256_update (g_pool s1) tag)" "s' = s1\<lparr>g_pool := br_sha256_update (g_pool s1) out\<rparr>"
    "w' = w1" using e by (auto simp: pool_extract_def i Let_def)
  have n: "g_pool_init s1" using I(3) by (simp add: on_from_def)
  have "out = sha256_spec (m @ tag) \<and> pool_repr s' (m @ out)" if "pool_repr s1 m" for m
  proof -
    have r: "sha256_repr (g_pool s1) m" using that n by (simp add: pool_repr_def)
    have "out = sha256_spec (m @ tag)" unfolding o by (rule sha256_repr_out [OF sha256_repr_update [OF r]])
    then show ?thesis using n sha256_repr_update [OF r, of out] by (simp add: o(2) pool_repr_def)
  qed
  then have "acts s1 [Extract tag] [out] s'" by (auto simp: acts_def o(2) Let_def)
  then show "acts s (fst (boot H s w) @ [Extract tag]) [out] s'" using acts_step I(1) by blast
  show "on_from s s'" "w' = snd (boot H s w)" using I by (simp_all add: o on_from_def)
qed

lemma extract_on:
  assumes "pool_extract H tag s w = (s', w', out)" "on_from s0 s"
  shows "acts s [Extract tag] [out] s' \<and> w' = w \<and> on_from s0 s'"
  using pool_extract_acts [OF assms(1)] assms(2) by (simp add: on_from_def)

lemma LoadSeed_acts:
  assumes "OSTLS_LoadSeed H s w = (s', w')"
  shows "acts s (call_acts H CLoad s w) [] s'"
proof -
  obtain f w1 where f: "seed_file H w = (f, w1)" by fastforce
  show ?thesis
    using assms pool_update_acts(1) [of H _ s w1]
    by (cases f) (auto simp: OSTLS_LoadSeed_def load_seed_file f acts_refl)
qed

lemma SaveSeed_acts:
  assumes "OSTLS_SaveSeed H s w = (s', w', ss)"
  shows "acts s (save_acts H s w) ss s'"
proof -
  obtain ok w1 where a: "seed_spec H w = (ok, w1)" by fastforce
  obtain s2 w2 seed where x: "pool_extract H seed_tag s w1 = (s2, w2, seed)" by (metis prod.collapse)
  have "(s', ss) = (if ok then (s2, [seed]) else (s, []))"
    using assms by (auto simp: OSTLS_SaveSeed_def a x Let_def split: prod.splits if_splits)
  then show ?thesis using pool_extract_acts(1) [OF x] acts_refl by (auto simp: save_acts_def a split: if_splits)
qed

lemma CollectEntropy_acts:
  assumes "OSTLS_CollectEntropy H s w = (s', w')" "h_ticks H w = (t, w1)" "h_microseconds H w1 = (u, w2)" "h_mouse H w2 = (p, w3)"
  shows "acts s (fst (boot H s w3) @ fold_clock t u @ fold_mouse p s) [] s' \<and> g_pool_init s' \<and> w' = snd (boot H s w3)"
proof -
  obtain s4 w4 where 4: "pool_update H (put_u32 t) s w3 = (s4, w4)" by fastforce
  obtain s5 w5 where 5: "pool_update H (put_wide u) s4 w4 = (s5, w5)" by fastforce
  obtain s6 w6 where 6: "pool_update H (put_point p) s5 w5 = (s6, w6)" by fastforce
  note 1 = pool_update_acts [OF 4]
  note 2 = update_on [OF 5 1(3)]
  have 3: "acts s5 [Fold (put_point p)] [] s6 \<and> w6 = w5 \<and> on_from s s6" using update_on [OF 6] 2 by blast
  have a: "acts s ((fst (boot H s w3) @ [Fold (put_u32 t)]) @ [Fold (put_wide u)]) [] s5" using acts_step [OF 1(1)] 2 by blast
  have m: "g_last_mouse s5 = g_last_mouse s" using 2 by (simp add: on_from_def)
  have "(s', w') = (if p \<noteq> g_last_mouse s then (s6\<lparr>g_last_mouse := p\<rparr>, w6) else (s5, w5))"
    using assms 4 5 6 m by (auto simp: OSTLS_CollectEntropy_def)
  then show ?thesis
    using a acts_step [OF a, of "[Fold (put_point p)]"] 1(2) 2 3
    by (auto simp: fold_clock_def fold_mouse_def on_from_def split: if_splits)
qed

lemma StirTimer_acts:
  assumes "OSTLS_StirTimer H hint s w = (s', w')" "h_ticks H w = (t, w1)" "h_microseconds H w1 = (u, w2)"
  shows "acts s (fst (boot H s w2) @ fold_clock t u @ [Fold (put_u32 hint)]) [] s' \<and> w' = snd (boot H s w2) \<and> on_from s s'"
proof -
  obtain s4 w4 where 4: "pool_update H (put_u32 t) s w2 = (s4, w4)" by fastforce
  obtain s5 w5 where 5: "pool_update H (put_wide u) s4 w4 = (s5, w5)" by fastforce
  have 6: "pool_update H (put_u32 hint) s5 w5 = (s', w')" using assms 4 5 by (simp add: OSTLS_StirTimer_def)
  note 1 = pool_update_acts [OF 4]
  note 2 = update_on [OF 5 1(3)]
  have 3: "acts s5 [Fold (put_u32 hint)] [] s' \<and> w' = w5 \<and> on_from s s'" using update_on [OF 6] 2 by blast
  have "acts s (((fst (boot H s w2) @ [Fold (put_u32 t)]) @ [Fold (put_wide u)]) @ [Fold (put_u32 hint)]) [] s'"
    using acts_step [OF acts_step [OF 1(1)]] 2 3 by blast
  then show ?thesis using 1 2 3 by (simp add: fold_clock_def)
qed

lemma StirTimer_call:
  assumes "OSTLS_StirTimer H hint s w = (s', w')"
  shows "acts s (stir_acts H hint s w) [] s'"
proof -
  obtain t w1 where 1: "h_ticks H w = (t, w1)" by fastforce
  obtain u w2 where 2: "h_microseconds H w1 = (u, w2)" by fastforce
  show ?thesis using StirTimer_acts [OF assms 1 2] by (simp add: stir_acts_def 1 2)
qed

lemma StirEntropy_acts:
  assumes "OSTLS_StirEntropy H d len s w = (s', w')"
  shows "acts s (call_acts H (CStirData d len) s w) [] s'"
proof (cases "\<exists>x. d = Some x \<and> 0 < len")
  case True
  then obtain x where x: "d = Some x" "0 < len" by blast
  obtain s1 w1 where 1: "pool_update H (take (unat len) x) s w = (s1, w1)" by fastforce
  have 2: "OSTLS_StirTimer H len s1 w1 = (s', w')" using assms x 1 by (simp add: OSTLS_StirEntropy_def)
  note U = pool_update_acts [OF 1]
  obtain t w2 where 3: "h_ticks H w1 = (t, w2)" by fastforce
  obtain u w3 where 4: "h_microseconds H w2 = (u, w3)" by fastforce
  have b: "boot H s w = (fst (boot H s w), w1)" using U(2) by simp
  have "acts s1 (fold_clock t u @ [Fold (put_u32 len)]) [] s'"
    using StirTimer_acts [OF 2 3 4] U(3) by (simp add: on_from_def)
  from acts_step [OF U(1) this] show ?thesis
    unfolding call_acts.simps x option.case by (subst b) (use x in \<open>simp add: 3 4\<close>)
next
  case False
  then have "OSTLS_StirTimer H len s w = (s', w')" using assms by (auto simp: OSTLS_StirEntropy_def split: option.splits)
  from StirTimer_call [OF this] False show ?thesis by (auto split: option.split)
qed

lemma seed_and_save:
  assumes e: "OSTLS_InjectEntropy H inject (Some e) s w = (r, eng', s', w', ss)"
    and b: "boot H s w = (b, w1)" and u: "h_microseconds H w1 = (u, w2)"
  shows "acts s (call_acts H (CInject (Some x)) s w) ss s'"
proof -
  obtain s1 w1' where 1: "pool_ensure_init H s w = (s1, w1')" by fastforce
  note I = ensure_init_acts [OF 1]
  have w1: "w1' = w1" "acts s b [] s1" "on_from s s1" using I b by simp_all
  obtain s2 w2' where 2: "pool_update H (put_u32 (h_stack_address H w1)) s1 w1 = (s2, w2')" by fastforce
  have U2: "acts s1 [Fold (put_u32 (h_stack_address H w1))] [] s2" "w2' = w1" "on_from s s2"
    using update_on [OF 2 w1(3)] by simp_all
  obtain s4 w4 where 4: "pool_update H (put_wide u) s2 w2 = (s4, w4)" by fastforce
  have U4: "acts s2 [Fold (put_wide u)] [] s4" "w4 = w2" "on_from s s4" using update_on [OF 4 U2(3)] by simp_all
  obtain s5 w5 where 5: "pool_update H (put_u32 (g_sample_count s4)) s4 w2 = (s5, w5)" by fastforce
  have U5: "acts s4 [Fold (put_u32 (g_sample_count s4))] [] s5" "w5 = w2" "on_from s s5" using update_on [OF 5 U4(3)] by simp_all
  obtain s6 w6 seed where 6: "pool_extract H inject_tag s5 w2 = (s6, w6, seed)" by (metis prod.collapse)
  have U6: "acts s5 [Extract inject_tag] [seed] s6" "w6 = w2" "on_from s s6" using extract_on [OF 6 U5(3)] by simp_all
  obtain s7 w7 sv where 7: "OSTLS_SaveSeed H s6 w2 = (s7, w7, sv)" by (metis prod.collapse)
  have i6: "g_pool_init s6" using U6(3) by (simp add: on_from_def)
  have U7: "acts s6 (if fst (seed_spec H w2) then [Extract seed_tag] else []) sv s7"
    using SaveSeed_acts [OF 7] i6 by (simp add: save_acts_def split_beta Let_def split: if_splits)
  have c: "g_sample_count s4 = g_sample_count s + of_nat (folds b) + 2"
    using w1(2) U2(1) U4(1) by (simp add: acts_def)
  have "acts s (b @ [Fold (put_u32 (h_stack_address H w1)), Fold (put_wide u), Fold (put_u32 (g_sample_count s4)), Extract inject_tag]) [seed] s6"
    using acts_step [OF w1(2) acts_step [OF U2(1) acts_step [OF U4(1) acts_step [OF U5(1) U6(1)]]]] by simp
  note A = this acts_trans [OF this U7]
  have "(s', ss) = (if g_seed_saved s then (s6, [seed]) else (s7\<lparr>g_seed_saved := True\<rparr>, seed # sv))"
    using e U6(3) by (auto simp: OSTLS_InjectEntropy_def on_from_def 1 w1(1) 2 U2(2) u 4 U4(2) 5 U5(2) 6 U6(2) 7 Let_def split: if_splits)
  then show ?thesis using A by (auto simp: b u c split: if_splits)
qed

lemma InjectEntropy_acts:
  assumes "OSTLS_InjectEntropy H inject eng s w = (r, eng', s', w', ss)"
  shows "acts s (call_acts H (CInject (map_option (\<lambda>e. x) eng)) s w) ss s'"
proof (cases eng)
  case None
  then show ?thesis using assms by (simp add: OSTLS_InjectEntropy_def acts_refl)
next
  case (Some e)
  obtain b w1 where b: "boot H s w = (b, w1)" by fastforce
  obtain u w2 where u: "h_microseconds H w1 = (u, w2)" by fastforce
  show ?thesis using seed_and_save [OF assms [unfolded Some] b u] by (simp add: Some)
qed

lemma random_loop_acts:
  "random_loop H len s w = (s', w', out, ss) \<Longrightarrow> on_from s0 s \<Longrightarrow> acts s (replicate ((len + 31) div 32) (Extract rand_tag)) ss s'"
proof (induction len arbitrary: s w s' w' out ss rule: less_induct)
  case (less len)
  show ?case
  proof (cases "len = 0")
    case True
    then show ?thesis using less.prems by (simp add: random_loop.simps [of H 0] acts_refl)
  next
    case False
    define n where "n = (if len < OSTLS_SEED_BYTES then len else OSTLS_SEED_BYTES)"
    obtain s1 w1 blk where x: "pool_extract H rand_tag s w = (s1, w1, blk)" by (metis prod.collapse)
    obtain s2 w2 o2 ss2 where r: "random_loop H (len - n) s1 w1 = (s2, w2, o2, ss2)" by (metis prod.collapse)
    have n: "0 < n" "n \<le> len" using False by (auto simp: n_def OSTLS_SEED_BYTES_def)
    have e: "s' = s2" "ss = [blk] @ ss2" using less.prems False r
      by (auto simp: random_loop.simps [of H len] x n_def Let_def)
    note X = extract_on [OF x less.prems(2)]
    have "acts s1 (replicate ((len - n + 31) div 32) (Extract rand_tag)) ss2 s2" by (rule less.IH [OF _ r]) (use n X in auto)
    moreover have "(len + 31) div 32 = Suc ((len - n + 31) div 32)"
    proof (cases "len < 32")
      case True
      then have "n = len" by (simp add: n_def OSTLS_SEED_BYTES_def)
      moreover have "(len + 31) div 32 = 1" using True False by (intro div_nat_eqI) auto
      ultimately show ?thesis by simp
    next
      case False
      then have "n = 32" by (simp add: n_def OSTLS_SEED_BYTES_def)
      moreover have "len + 31 = (len - 32 + 31) + 32" using False by simp
      ultimately show ?thesis by (metis add.commute div_add_self1 plus_1_eq_Suc zero_neq_numeral)
    qed
    ultimately show ?thesis unfolding e using acts_trans X by fastforce
  qed
qed

lemma RandomBytes_acts:
  assumes "OSTLS_RandomBytes H len s w = (s', w', out, ss)"
  shows "acts s (call_acts H (CRandom len) s w) ss s'"
proof (cases "len = 0")
  case True
  then show ?thesis using assms by (simp add: OSTLS_RandomBytes_def acts_refl)
next
  case False
  obtain b w1 where b: "boot H s w = (b, w1)" by fastforce
  obtain u w2 where u: "h_microseconds H w1 = (u, w2)" by fastforce
  obtain s1 w1' where 1: "pool_ensure_init H s w = (s1, w1')" by fastforce
  have w1: "w1' = w1" "acts s b [] s1" "on_from s s1" using ensure_init_acts [OF 1] b by simp_all
  obtain s2 w2' where 2: "pool_update H (put_u32 (h_stack_address H w1)) s1 w1 = (s2, w2')" by fastforce
  have U2: "acts s1 [Fold (put_u32 (h_stack_address H w1))] [] s2" "w2' = w1" "on_from s s2"
    using update_on [OF 2 w1(3)] by simp_all
  obtain s4 w4 where 4: "pool_update H (put_wide u) s2 w2 = (s4, w4)" by fastforce
  have U4: "acts s2 [Fold (put_wide u)] [] s4" "w4 = w2" "on_from s s4" using update_on [OF 4 U2(3)] by simp_all
  have "random_loop H len s4 w2 = (s', w', out, ss)"
    using assms False by (simp add: OSTLS_RandomBytes_def 1 w1(1) 2 U2(2) u 4 U4(2))
  from random_loop_acts [OF this U4(3)] show ?thesis
    using acts_step [OF w1(2) acts_step [OF U2(1) acts_step [OF U4(1)]]] False by (simp add: b u)
qed

lemma draw_seeds_acts:
  "draw_seeds n H s w = (s', w', ss) \<Longrightarrow> on_from s0 s \<Longrightarrow> acts s (replicate n (Extract test_tag)) ss s'"
proof (induction n arbitrary: s w ss)
  case 0
  then show ?case by (simp add: acts_refl)
next
  case (Suc n)
  obtain s1 w1 blk where x: "pool_extract H test_tag s w = (s1, w1, blk)" by (metis prod.collapse)
  obtain s2 w2 ss2 where r: "draw_seeds n H s1 w1 = (s2, w2, ss2)" by (metis prod.collapse)
  have e: "s' = s2" "ss = [blk] @ ss2" "w' = w2" using Suc.prems(1) by (auto simp: x r)
  note X = extract_on [OF x Suc.prems(2)]
  then have "acts s1 (replicate n (Extract test_tag)) ss2 s'" using Suc.IH [of s1 w1 ss2] r e by simp
  then show ?case unfolding e using acts_trans X by fastforce
qed

lemma EntropySelfTest_acts:
  assumes "OSTLS_EntropySelfTest H s w = (r, fp, s', w', ss)"
  shows "acts s (call_acts H CSelfTest s w) ss s'"
proof -
  obtain s1 w1 where 1: "pool_ensure_init H s w = (s1, w1)" by fastforce
  note I = ensure_init_acts [OF 1]
  have i1: "g_pool_init s1" "g_last_mouse s1 = g_last_mouse s" using I(3) by (simp_all add: on_from_def)
  obtain s2 w2 where 2: "OSTLS_CollectEntropy H s1 w1 = (s2, w2)" by fastforce
  obtain s3 w3 where 3: "OSTLS_StirTimer H 0x53454C46 s2 w2 = (s3, w3)" by fastforce
  obtain s4 w4 ss4 where 4: "draw_seeds 64 H s3 w3 = (s4, w4, ss4)" by (metis prod.collapse)
  obtain t a where t: "h_ticks H w1 = (t, a)" by fastforce
  obtain u b where u: "h_microseconds H a = (u, b)" by fastforce
  obtain p c where p: "h_mouse H b = (p, c)" by fastforce
  note C = CollectEntropy_acts [OF 2 t u p]
  have w2: "w2 = c" "g_pool_init s2" "acts s1 (fold_clock t u @ fold_mouse p s) [] s2" using C i1 by (simp_all add: fold_mouse_def)
  obtain t' d where t': "h_ticks H w2 = (t', d)" by fastforce
  obtain u' e where u': "h_microseconds H d = (u', e)" by fastforce
  note S = StirTimer_acts [OF 3 t' u']
  have s: "acts s2 (fold_clock t' u' @ [Fold (put_u32 0x53454C46)]) [] s3" using S w2(2) by simp
  have D: "acts s3 (replicate 64 (Extract test_tag)) ss4 s4" using draw_seeds_acts [OF 4] S by blast
  have "s' = s4" "ss = ss4" using assms by (simp_all add: OSTLS_EntropySelfTest_def 1 2 3 4 Let_def)
  then show ?thesis
    using acts_step [OF I(1) acts_step [OF w2(3) acts_step [OF s D]]] t t' u' p u w2(1) I(2)
    by (simp add: split_beta)
qed

section \<open>Histories\<close>

text \<open>A sequence of calls, each in any state of the machine: the pool after it, what the calls had
  to do and the seeds they drew.\<close>

fun do_call :: "'w host \<Rightarrow> pool_call \<Rightarrow> pool \<Rightarrow> 'w \<Rightarrow> pool \<times> bytes list" where
  "do_call H CLoad s w = (fst (OSTLS_LoadSeed H s w), [])"
| "do_call H CSave s w = (let (s, w, ss) = OSTLS_SaveSeed H s w in (s, ss))"
| "do_call H CCollect s w = (fst (OSTLS_CollectEntropy H s w), [])"
| "do_call H (CStir hint) s w = (fst (OSTLS_StirTimer H hint s w), [])"
| "do_call H (CStirData d len) s w = (fst (OSTLS_StirEntropy H d len s w), [])"
| "do_call H (CInject eng) s w = (let (r, e, s, w, ss) = OSTLS_InjectEntropy H (\<lambda>seed e. e @ [seed]) eng s w in (s, ss))"
| "do_call H (CRandom n) s w = (let (s, w, out, ss) = OSTLS_RandomBytes H n s w in (s, ss))"
| "do_call H CSelfTest s w = (let (r, fp, s, w, ss) = OSTLS_EntropySelfTest H s w in (s, ss))"

fun pool_calls :: "'w host \<Rightarrow> (pool_call \<times> 'w) list \<Rightarrow> pool \<Rightarrow> pool \<times> act list \<times> bytes list" where
  "pool_calls H [] s = (s, [], [])"
| "pool_calls H ((c, w) # cs) s =
     (let (s1, ss) = do_call H c s w; (s2, as, ts) = pool_calls H cs s1 in (s2, call_acts H c s w @ as, ss @ ts))"

lemma do_call_acts:
  assumes "do_call H c s w = (s', ss)"
  shows "acts s (call_acts H c s w) ss s'"
proof (cases c)
  case CLoad
  then show ?thesis using assms LoadSeed_acts [of H s w] by (cases "OSTLS_LoadSeed H s w") auto
next
  case CSave
  then show ?thesis using assms SaveSeed_acts [of H s w] by (auto split: prod.splits)
next
  case CCollect
  obtain t w1 u w2 p w3 where r: "h_ticks H w = (t, w1)" "h_microseconds H w1 = (u, w2)" "h_mouse H w2 = (p, w3)"
    by (metis prod.collapse)
  then show ?thesis using assms CCollect CollectEntropy_acts [OF _ r, of s] by (cases "OSTLS_CollectEntropy H s w") auto
next
  case (CStir h)
  then show ?thesis using assms StirTimer_call [of H h s w] by (cases "OSTLS_StirTimer H h s w") auto
next
  case (CStirData d len)
  then show ?thesis using assms StirEntropy_acts [of H d len s w] by (cases "OSTLS_StirEntropy H d len s w") simp
next
  case (CInject eng)
  obtain r e s1 w1 ts where i: "OSTLS_InjectEntropy H (\<lambda>seed e. e @ [seed]) eng s w = (r, e, s1, w1, ts)" by (metis prod.collapse)
  have "call_acts H (CInject (map_option (\<lambda>e. []) eng)) s w = call_acts H (CInject eng) s w" by (cases eng) simp_all
  then show ?thesis using assms CInject i InjectEntropy_acts [OF i, of "[]"] by (simp del: call_acts.simps)
next
  case (CRandom n)
  then show ?thesis using assms RandomBytes_acts [of H n s w] by (auto simp del: call_acts.simps split: prod.splits)
next
  case CSelfTest
  then show ?thesis using assms EntropySelfTest_acts [of H s w] by (auto simp del: call_acts.simps split: prod.splits)
qed

lemma pool_calls_acts:
  "pool_calls H cs s = (s', as, ss) \<Longrightarrow> acts s as ss s' \<and> (\<forall>a\<in>set as. act_ok a)"
proof (induction cs arbitrary: s as ss)
  case Nil
  then show ?case by (simp add: acts_refl)
next
  case (Cons cw cs)
  obtain c w where cw: "cw = (c, w)" by fastforce
  obtain s1 ts where 1: "do_call H c s w = (s1, ts)" by fastforce
  obtain s2 bs us where 2: "pool_calls H cs s1 = (s2, bs, us)" by (metis prod.collapse)
  have e: "s' = s2" "as = call_acts H c s w @ bs" "ss = ts @ us" using Cons.prems by (simp_all add: cw 1 2)
  show ?case
    using acts_trans [OF do_call_acts [OF 1]] Cons.IH [OF 2 [folded e(1)]] call_acts_ok [of H c s w] e by auto
qed

text \<open>Every seed goes into the input of every later one, so no two digests are of the same input.\<close>

lemma run_acts_growing:
  "\<forall>a\<in>set as. act_ok a \<Longrightarrow> run_acts m as = (m', ins) \<Longrightarrow>
   (\<forall>x\<in>set ins. length m + 8 \<le> length x) \<and> sorted_wrt (<) (map length ins)"
proof (induction m as arbitrary: m' ins rule: run_acts.induct)
  case (2 m d as)
  then show ?case by fastforce
next
  case (3 m t as)
  obtain m'' ins' where r: "run_acts (m @ sha256_spec (m @ t)) as = (m'', ins')" by fastforce
  have i: "ins = (m @ t) # ins'" using 3(3) r by simp
  have "length t = 8" using 3(2) length_tags by simp
  then show ?case using "3.IH" [OF _ r] 3(2) by (fastforce simp: i length_sha256_spec)
qed simp

lemma run_acts_distinct:
  assumes "\<forall>a\<in>set as. act_ok a"
  shows "distinct (snd (run_acts m as))"
proof -
  obtain m' ins where r: "run_acts m as = (m', ins)" by fastforce
  have "sorted_wrt (<) (map length ins)" using run_acts_growing [OF assms r] by blast
  then have "distinct (map length ins)" by (simp add: strict_sorted_iff)
  then show ?thesis by (simp add: r distinct_map)
qed

text \<open>The bytes handed out are the seeds drawn for them, one after the other, cut to the length
  asked for.\<close>

lemma random_loop_out:
  "random_loop H len s w = (s', w', out, ss) \<Longrightarrow> \<forall>x\<in>set ss. length x = 32 \<Longrightarrow>
   out = take len (concat ss) \<and> len \<le> 32 * length ss \<and> 32 * length ss < len + 32"
proof (induction len arbitrary: s w s' w' out ss rule: less_induct)
  case (less len)
  show ?case
  proof (cases "len = 0")
    case True
    then show ?thesis using less.prems by (simp add: random_loop.simps [of H 0])
  next
    case False
    define n where "n = (if len < OSTLS_SEED_BYTES then len else OSTLS_SEED_BYTES)"
    obtain s1 w1 blk where x: "pool_extract H rand_tag s w = (s1, w1, blk)" by (metis prod.collapse)
    obtain s2 w2 o2 ss2 where r: "random_loop H (len - n) s1 w1 = (s2, w2, o2, ss2)" by (metis prod.collapse)
    have n: "0 < n" "n \<le> len" "n \<le> 32" "n < 32 \<Longrightarrow> n = len" using False by (auto simp: n_def OSTLS_SEED_BYTES_def)
    have e: "out = take n blk @ o2" "ss = blk # ss2" using less.prems(1) False r
      by (auto simp: random_loop.simps [of H len] x n_def Let_def)
    have b: "length blk = 32" using less.prems(2) e by simp
    have IH: "o2 = take (len - n) (concat ss2) \<and> len - n \<le> 32 * length ss2 \<and> 32 * length ss2 < len - n + 32"
      by (rule less.IH [OF _ r]) (use n less.prems(2) e in simp_all)
    show ?thesis
    proof (cases "n = 32")
      case True
      then show ?thesis using IH b n unfolding e by (simp add: le_diff_conv)
    next
      case False
      then have "n = len" "len < 32" using n by linarith+
      then show ?thesis using IH b \<open>len \<noteq> 0\<close> unfolding e by simp
    qed
  qed
qed

lemma random_bytes_out:
  assumes e: "OSTLS_RandomBytes H len s w = (s', w', out, ss)" and r: "pool_repr s m"
  shows "out = take len (concat ss)" "length out = len" "length ss = (len + 31) div 32"
proof -
  have "ss = map sha256_spec (snd (run_acts m (call_acts H (CRandom len) s w)))"
    using RandomBytes_acts [OF e] r unfolding acts_def by blast
  then have "\<forall>x\<in>set ss. length x = 32" by (auto simp: length_sha256_spec)
  note l = this
  show o: "out = take len (concat ss)"
    and n: "length out = len" and k: "length ss = (len + 31) div 32"
  proof -
    have L: "length (concat ss) = 32 * length ss" using l by (induction ss) simp_all
    consider "len = 0" "out = []" "ss = []" | s4 w4 where "0 < len" "random_loop H len s4 w4 = (s', w', out, ss)"
      using e by (auto simp: OSTLS_RandomBytes_def Let_def split: prod.splits if_splits)
    then have "out = take len (concat ss) \<and> length out = len \<and> length ss = (len + 31) div 32"
    proof cases
      case 2
      from random_loop_out [OF 2(2) l] show ?thesis using L by auto
    qed simp
    then show "out = take len (concat ss)" "length out = len" "length ss = (len + 31) div 32" by auto
  qed
qed

text \<open>The engine is seeded with the first seed drawn.\<close>

lemma inject_seeds_engine:
  "OSTLS_InjectEntropy H inject (Some e) s w = (r, eng', s', w', ss) \<Longrightarrow> r = 0 \<and> eng' = Some (inject (hd ss) e)"
  by (auto simp: OSTLS_InjectEntropy_def Let_def split: prod.splits if_splits)

text \<open>A machine for examples: clocks at 0, a mouse at rest, no seed file.\<close>

definition still_host :: "unit host" where
  "still_host = \<lparr>h_ticks = (\<lambda>w. (0, w)), h_microseconds = (\<lambda>w. ((0, 0), w)), h_mouse = (\<lambda>w. ((0, 0), w)),
     h_stack_address = (\<lambda>w. 0), fs_find_folder = (\<lambda>w. (0, w)), fs_make_spec = (\<lambda>w. (- 43, w)), fs_delete = (\<lambda>w. w),
     fs_create = (\<lambda>w. (0, w)), fs_open = (\<lambda>b w. (- 43, w)), fs_read = (\<lambda>n w. ((eofErr, []), w)), fs_set_eof = (\<lambda>w. w),
     fs_write = (\<lambda>b w. (0, w)), fs_close = (\<lambda>w. w), fs_flush_vol = (\<lambda>w. w)\<rparr>"

definition cold_pool :: pool where
  "cold_pool = \<lparr>g_pool = \<lparr>s_buf = replicate 64 0, s_val = [], s_count = 0\<rparr>, g_pool_init = False, g_sample_count = 0,
     g_last_mouse = (0, 0), g_seed_saved = False\<rparr>"

section \<open>Properties\<close>

text \<open>C35: over any sequence of calls of the entropy pool, each in any state of the machine, on a pool
  that was never used: the seeds drawn, for the engine, for the seed file, for random bytes and
  for the self test, are the SHA-256 digests of what \<open>call_acts\<close> prescribes, that is of all bytes
  folded in before, followed by the tag of their purpose. It prescribes the seed file at the
  first use; ticks, microseconds and a moved mouse for \<open>OSTLS_CollectEntropy\<close>; ticks, microseconds
  and the caller's number for \<open>OSTLS_StirTimer\<close>, the caller's bytes as well for \<open>OSTLS_StirEntropy\<close>;
  the stack address, microseconds and the count for \<open>OSTLS_InjectEntropy\<close>; and each seed after it
  is drawn. The pool holds exactly those bytes, the sample count counts the samples, and no two
  seeds are digests of the same input.\<close>

theorem pool_history:
  assumes "pool_calls H cs s0 = (s, as, ss)" "\<not> g_pool_init s0" "length (s_buf (g_pool s0)) = 64"
  shows "pool_repr s (fst (run_acts [] as)) \<and> ss = map sha256_spec (snd (run_acts [] as)) \<and> distinct (snd (run_acts [] as))
    \<and> g_sample_count s = g_sample_count s0 + of_nat (folds as)"
proof -
  have "pool_repr s0 []" using assms(2,3) by (simp add: pool_repr_def)
  then show ?thesis using pool_calls_acts [OF assms(1)] run_acts_distinct unfolding acts_def by blast
qed

theorem pool_history_witness:
  "\<exists>s as ss. pool_calls still_host [(CCollect, ()), (CStirData (Some [7, 8]) 2, ()), (CRandom 40, ())] cold_pool = (s, as, ss)
     \<and> length ss = 2 \<and> ss ! 0 = sha256_spec (replicate 12 0 @ [7, 8] @ replicate 12 0 @ [0, 0, 0, 2] @ replicate 12 0 @ rand_tag)
     \<and> g_sample_count s = 8"
proof -
  let ?cs = "[(CCollect, ()), (CStirData (Some [7, 8]) 2, ()), (CRandom 40, ())]"
  obtain s as ss where e: "pool_calls still_host ?cs cold_pool = (s, as, ss)" by (metis prod.collapse)
  have i: "\<not> g_pool_init cold_pool" "length (s_buf (g_pool cold_pool)) = 64" by (simp_all add: cold_pool_def)
  obtain s1 where 1: "do_call still_host CCollect cold_pool () = (s1, [])" "g_pool_init s1"
    using CollectEntropy_acts [of still_host cold_pool "()"]
    by (cases "OSTLS_CollectEntropy still_host cold_pool ()") (simp add: still_host_def)
  obtain s2 where 2: "do_call still_host (CStirData (Some [7, 8]) 2) s1 () = (s2, [])" "g_pool_init s2"
  proof -
    obtain a where a: "pool_update still_host [7, 8] s1 () = (a, ())" "g_pool_init a" using 1(2) by (simp add: update_initialised pool_fold_def)
    obtain b where b: "OSTLS_StirTimer still_host 2 a () = (b, ())" by (cases "OSTLS_StirTimer still_host 2 a ()") simp
    have "g_pool_init b" using StirTimer_acts [OF b, of 0 "()" "(0, 0)" "()"] by (simp add: on_from_def still_host_def)
    with a b that show thesis by (simp add: OSTLS_StirEntropy_def)
  qed
  have as: "as = [Fold (replicate 4 0), Fold (replicate 8 0), Fold [7, 8], Fold (replicate 4 0), Fold (replicate 8 0), Fold [0, 0, 0, 2],
      Fold (replicate 4 0), Fold (replicate 8 0), Extract rand_tag, Extract rand_tag]"
  proof -
    have z: "put_u32 0 = replicate 4 0" "put_wide (0, 0) = replicate 8 0" "put_u32 2 = [0, 0, 0, 2]" by code_simp+
    have b: "boot still_host cold_pool () = ([], ())" "fold_mouse (0, 0) cold_pool = []"
      by (simp_all add: boot_def seed_file_def seed_spec_def still_host_def fold_mouse_def cold_pool_def)
    show ?thesis using e 1 2 b
      by (auto simp: z fold_clock_def stir_acts_def Let_def split: prod.splits) (simp add: still_host_def z numeral_2_eq_2)+
  qed
  define m :: bytes where "m = replicate 12 0 @ [7, 8] @ replicate 12 0 @ [0, 0, 0, 2] @ replicate 12 0"
  have "replicate 4 0 @ replicate 8 0 @ xs = replicate 12 0 @ xs" for xs :: bytes by (simp flip: replicate_add append_assoc)
  from this this [of "[]"] have "snd (run_acts [] as) = [m @ rand_tag, (m @ sha256_spec (m @ rand_tag)) @ rand_tag]"
    by (simp add: as m_def Let_def)
  moreover have "folds as = 8" by (simp add: as)
  ultimately show ?thesis using pool_history [OF e i] e by (simp add: cold_pool_def m_def)
qed

end
