(* ===== verification/Fetch.thy ===== *)
theory Fetch
  imports Async_Conn "HOL-Library.Sublist"
begin

text \<open>
  The blocking fetch of os9/ostls_fetch.c: one HTTPS GET over a synchronous endpoint and BearSSL's
  TLS 1.2 engine. The record \<open>fetch_env\<close> adds the synchronous open to the calls of \<open>env\<close>.

  The caller's buffers are arrays: a store past the end of one makes the list longer, so that
  "the length is unchanged" says that the C code stays inside. The one store through a pointer that
  may be null is the result \<open>Null_store\<close>. C strings are lists without their terminator.

  The loop is \<open>fetch_loop\<close>, a partial function: it has no bound of its own but the clock.
  \<open>fetch_returns\<close> shows that the deadline makes it return, provided every call of Open Transport
  returns; with a blocking endpoint that is an assumption on the peer.
\<close>

unbundle bit_operations_syntax

section \<open>Codes and messages\<close>

definition kOSTLSFetch_OK :: int where "kOSTLSFetch_OK = 0"
definition kOSTLSFetch_BadArgs :: int where "kOSTLSFetch_BadArgs = 1000"
definition kOSTLSFetch_ClockBefore2000 :: int where "kOSTLSFetch_ClockBefore2000 = 1001"
definition kOSTLSFetch_OTConfigFail :: int where "kOSTLSFetch_OTConfigFail = 1002"
definition kOSTLSFetch_OTOpenEndptFail :: int where "kOSTLSFetch_OTOpenEndptFail = 1003"
definition kOSTLSFetch_OTBindFail :: int where "kOSTLSFetch_OTBindFail = 1004"
definition kOSTLSFetch_OTDnsAddrFail :: int where "kOSTLSFetch_OTDnsAddrFail = 1005"
definition kOSTLSFetch_OTConnectFail :: int where "kOSTLSFetch_OTConnectFail = 1006"
definition kOSTLSFetch_EntropyFail :: int where "kOSTLSFetch_EntropyFail = 1007"
definition kOSTLSFetch_ClientResetFail :: int where "kOSTLSFetch_ClientResetFail = 1008"
definition kOSTLSFetch_OTSndFail :: int where "kOSTLSFetch_OTSndFail = 1009"
definition kOSTLSFetch_OTRcvFail :: int where "kOSTLSFetch_OTRcvFail = 1010"
definition kOSTLSFetch_HandshakeTimeout :: int where "kOSTLSFetch_HandshakeTimeout = 1011"
definition kOSTLSFetch_BearSSLError :: int where "kOSTLSFetch_BearSSLError = 1012"
definition kOSTLSFetch_NoBytesReceived :: int where "kOSTLSFetch_NoBytesReceived = 1014"

lemmas fetch_codes = kOSTLSFetch_OK_def kOSTLSFetch_BadArgs_def kOSTLSFetch_ClockBefore2000_def
  kOSTLSFetch_OTConfigFail_def kOSTLSFetch_OTOpenEndptFail_def kOSTLSFetch_OTBindFail_def
  kOSTLSFetch_OTDnsAddrFail_def kOSTLSFetch_OTConnectFail_def kOSTLSFetch_EntropyFail_def
  kOSTLSFetch_ClientResetFail_def kOSTLSFetch_OTSndFail_def kOSTLSFetch_OTRcvFail_def
  kOSTLSFetch_HandshakeTimeout_def kOSTLSFetch_BearSSLError_def kOSTLSFetch_NoBytesReceived_def

text \<open>The conversion \<open>%ld\<close>.\<close>

definition signed_decimal :: "int \<Rightarrow> bytes" where
  "signed_decimal n = (if n < 0 then ascii ''-'' @ decimal (nat (- n)) else decimal (nat n))"

definition fetch_status :: "bytes option \<Rightarrow> u32 \<Rightarrow> bytes \<Rightarrow> int \<Rightarrow> bytes option" where
  "fetch_status out out_len pre err =
     (case out of
        None \<Rightarrow> None
      | Some b \<Rightarrow>
          if out_len < 4 then Some b
          else let text = (if err = 0 then take 140 pre
                           else take 110 pre @ ascii '' (err='' @ signed_decimal err @ ascii '')'');
                   b = wr b 0 (text @ [0])
               in Some (wr b (unat (out_len - 1)) [0]))"

definition fetch_suite_label :: "u16 \<Rightarrow> bytes" where
  "fetch_suite_label suite =
     (if suite = 0xC02B then ascii ''TLS1.2 ECDHE-ECDSA AES128-GCM''
      else if suite = 0xC02C then ascii ''TLS1.2 ECDHE-ECDSA AES256-GCM''
      else if suite = 0xC02F then ascii ''TLS1.2 ECDHE-RSA AES128-GCM''
      else if suite = 0xC030 then ascii ''TLS1.2 ECDHE-RSA AES256-GCM''
      else if suite = 0xCCA8 then ascii ''TLS1.2 ECDHE-RSA CHACHA20''
      else if suite = 0xCCA9 then ascii ''TLS1.2 ECDHE-ECDSA CHACHA20''
      else ascii ''TLS1.2'')"

text \<open>The report of success is stored without a look at the pointer or at the capacity.\<close>

definition fetch_ok_message :: "bytes \<Rightarrow> u32 \<Rightarrow> u16 \<Rightarrow> nat \<Rightarrow> bytes" where
  "fetch_ok_message b out_len suite n =
     (let b = wr b 0 (ascii ''OK '' @ fetch_suite_label suite @ [0x20] @ decimal n @ ascii ''B body'' @ [0])
      in wr b (unat (out_len - 1)) [0])"

definition crlf :: bytes where "crlf = [0x0D, 0x0A]"

definition fetch_target :: "bytes \<Rightarrow> u16 \<Rightarrow> bytes" where
  "fetch_target host port = take 80 host @ [0x3A] @ decimal (unat port)"

definition fetch_request :: "bytes \<Rightarrow> bytes \<Rightarrow> bytes" where
  "fetch_request path server_name =
     ascii ''GET '' @ take 80 path @ ascii '' HTTP/1.0'' @ crlf
     @ ascii ''Host: '' @ take 80 server_name @ crlf
     @ ascii ''User-Agent: macTLS/0.1'' @ crlf
     @ ascii ''Connection: close'' @ crlf @ crlf"

section \<open>The call\<close>

record ('w, 'e, 's, 'x) fetch_env = "('w, 'e, 's, 'x) env" +
  ot_open_endpoint :: "'w \<Rightarrow> (int \<times> endpoint) \<times> 'w"

text \<open>The variables of the loop: the machine, the engine and the locals of \<open>OSTLS_Fetch\<close>.\<close>

record ('w, 'e) fetch_st =
  f_os :: 'w
  f_eng :: 'e
  f_handshake_done :: bool
  request_sent :: nat
  response_collected :: nat
  out_bytes :: bytes

datatype ('w, 'e) fetch_verdict =
    Again "('w, 'e) fetch_st"
  | Break "('w, 'e) fetch_st"
  | Abort int bytes int bool "('w, 'e) fetch_st"

text \<open>One pass through the body of the loop. \<open>Abort\<close> carries the code, the text and number of the
  status, and whether an orderly disconnect is sent before the endpoint is closed.\<close>

definition fetch_push :: "('w, 'e, 's, 'x) fetch_env \<Rightarrow> bytes \<Rightarrow> ('w, 'e) fetch_st \<Rightarrow> ('w, 'e) fetch_verdict" where
  "fetch_push E request s =
     (let alen = br_sendapp_room E (f_eng s)
      in if alen = 0 then Again s
         else let to_copy = length request - request_sent s;
                  to_copy = (if alen < to_copy then alen else to_copy);
                  e = br_sendapp E (take to_copy (drop (request_sent s) request)) (f_eng s);
                  sent = request_sent s + to_copy;
                  e = (if length request \<le> sent then br_flush E e else e)
              in Again (s\<lparr>f_eng := e, request_sent := sent\<rparr>))"

definition fetch_drain :: "('w, 'e, 's, 'x) fetch_env \<Rightarrow> u32 \<Rightarrow> ('w, 'e) fetch_st \<Rightarrow> ('w, 'e) fetch_verdict" where
  "fetch_drain E out_cap s =
     (let abuf = br_recvapp_buf E (f_eng s); alen = length abuf
      in if alen = 0 then Again s
         else let room = unat out_cap - response_collected s;
                  to_copy = (if room < alen then room else alen);
                  s = s\<lparr>out_bytes := wr (out_bytes s) (response_collected s) (take to_copy abuf),
                        response_collected := response_collected s + to_copy,
                        f_eng := br_recvapp_ack E to_copy (f_eng s)\<rparr>
              in if unat out_cap \<le> response_collected s then Break s else Again s)"

definition fetch_send :: "('w, 'e, 's, 'x) fetch_env \<Rightarrow> endpoint \<Rightarrow> ('w, 'e) fetch_st \<Rightarrow> ('w, 'e) fetch_verdict" where
  "fetch_send E ep s =
     (let sbuf = br_sendrec_buf E (f_eng s)
      in if sbuf = [] then Again s
         else let (sent, w) = ot_snd E ep sbuf (f_os s); s = s\<lparr>f_os := w\<rparr>
              in if sent < 0 then Abort kOSTLSFetch_OTSndFail (ascii ''OSTLS_Fetch: OTSnd FAIL'') sent True s
                 else Again (s\<lparr>f_eng := br_sendrec_ack E (nat sent) (f_eng s)\<rparr>))"

definition fetch_recv :: "('w, 'e, 's, 'x) fetch_env \<Rightarrow> endpoint \<Rightarrow> ('w, 'e) fetch_st \<Rightarrow> ('w, 'e) fetch_verdict" where
  "fetch_recv E ep s =
     (let rlen = br_recvrec_room E (f_eng s)
      in if rlen = 0 then Again s
         else let ((got, buf), w) = ot_rcv E ep rlen (f_os s); s = s\<lparr>f_os := w\<rparr>
              in if got < 0 then Abort kOSTLSFetch_OTRcvFail (ascii ''OSTLS_Fetch: OTRcv FAIL'') got True s
                 else Again (s\<lparr>f_eng := br_recvrec E (take (nat got) buf) (f_eng s)\<rparr>))"

definition fetch_step ::
  "('w, 'e, 's, 'x) fetch_env \<Rightarrow> endpoint \<Rightarrow> bytes \<Rightarrow> u32 \<Rightarrow> u32 \<Rightarrow> ('w, 'e) fetch_st \<Rightarrow> ('w, 'e) fetch_verdict" where
  "fetch_step E ep request out_cap deadline s =
     (let (now, w) = tick_count E (f_os s); s = s\<lparr>f_os := w\<rparr>
      in if deadline < now
         then Abort kOSTLSFetch_HandshakeTimeout (ascii ''OSTLS_Fetch: handshake/IO timeout (60 s)'') 0 True s
         else
           let ssl_state = br_current_state E (f_eng s)
           in if ssl_state AND BR_SSL_CLOSED \<noteq> 0
              then let ssl_err = br_last_error E (f_eng s)
                   in if ssl_err = 0
                      then if 0 < response_collected s then Break s
                           else Abort kOSTLSFetch_NoBytesReceived
                                  (ascii ''OSTLS_Fetch: peer closed before any plaintext'') 0 False s
                      else Abort kOSTLSFetch_BearSSLError (ascii ''OSTLS_Fetch: BearSSL error during I/O'') ssl_err True s
              else
                let s = (if \<not> f_handshake_done s \<and> ssl_state AND (BR_SSL_SENDAPP OR BR_SSL_RECVAPP) \<noteq> 0
                         then s\<lparr>f_handshake_done := True\<rparr> else s)
                in if f_handshake_done s \<and> request_sent s < length request \<and> ssl_state AND BR_SSL_SENDAPP \<noteq> 0
                   then fetch_push E request s
                   else if f_handshake_done s \<and> ssl_state AND BR_SSL_RECVAPP \<noteq> 0 \<and> response_collected s < unat out_cap
                   then fetch_drain E out_cap s
                   else if ssl_state AND BR_SSL_SENDREC \<noteq> 0 then fetch_send E ep s
                   else if ssl_state AND BR_SSL_RECVREC \<noteq> 0 then fetch_recv E ep s
                   else Again s)"

partial_function (option) fetch_loop ::
  "('w, 'e, 's, 'x) fetch_env \<Rightarrow> endpoint \<Rightarrow> bytes \<Rightarrow> u32 \<Rightarrow> u32 \<Rightarrow> ('w, 'e) fetch_st \<Rightarrow> ('w, 'e) fetch_verdict option" where
  "fetch_loop E ep request out_cap deadline s =
     (case fetch_step E ep request out_cap deadline s of
        Again s' \<Rightarrow> fetch_loop E ep request out_cap deadline s'
      | Break s' \<Rightarrow> Some (Break s')
      | Abort code pre err orderly s' \<Rightarrow> Some (Abort code pre err orderly s'))"

text \<open>Opening and connecting the endpoint; the left side is the code, the status and the machine
  at an early return.\<close>

definition fetch_connect ::
  "('w, 'e, 's, 'x) fetch_env \<Rightarrow> bytes \<Rightarrow> 'w \<Rightarrow> (int \<times> bytes \<times> int \<times> 'w) + (endpoint \<times> 'w)" where
  "fetch_connect E target w =
     (let (ok, w) = ot_create_configuration E w
      in if \<not> ok then Inl (kOSTLSFetch_OTConfigFail, ascii ''OSTLS_Fetch: OTCreateConfiguration FAIL'', 0, w)
         else
           let ((oterr, ep), w) = ot_open_endpoint E w
           in if oterr \<noteq> noErr \<or> ep = 0
              then Inl (kOSTLSFetch_OTOpenEndptFail, ascii ''OSTLS_Fetch: OTOpenEndpoint FAIL'', oterr, w)
              else
                let (oterr, w) = ot_bind E ep w
                in if oterr \<noteq> noErr
                   then Inl (kOSTLSFetch_OTBindFail, ascii ''OSTLS_Fetch: OTBind FAIL'', oterr, ot_close_provider E ep w)
                   else
                     let dns_len = ot_init_dns_address E target
                     in if dns_len \<le> 0
                        then Inl (kOSTLSFetch_OTDnsAddrFail, ascii ''OSTLS_Fetch: OTInitDNSAddress FAIL'', dns_len,
                                  ot_close_provider E ep w)
                        else
                          let (oterr, w) = ot_connect E ep target w
                          in if oterr \<noteq> noErr
                             then Inl (kOSTLSFetch_OTConnectFail, ascii ''OSTLS_Fetch: OTConnect FAIL'', oterr,
                                       ot_close_provider E ep w)
                             else Inr (ep, w))"

text \<open>The engine over an open endpoint: anchors, time, entropy, buffer and reset.\<close>

definition hang_up :: "('w, 'e, 's, 'x) fetch_env \<Rightarrow> endpoint \<Rightarrow> 'w \<Rightarrow> 'w" where
  "hang_up E ep w = ot_close_provider E ep (ot_snd_orderly_disconnect E ep w)"

definition fetch_arm ::
  "('w, 'e, 's, 'x) fetch_env \<Rightarrow> endpoint \<Rightarrow> bytes \<Rightarrow> u32 \<Rightarrow> u32 \<Rightarrow> 'w \<Rightarrow> (int \<times> bytes \<times> int \<times> 'w) + ('e \<times> 'w)" where
  "fetch_arm E ep server_name days seconds w =
     (let ((entropy_err, e), w) = inject_entropy E (br_init_full E days seconds) w
      in if entropy_err \<noteq> 0
         then Inl (kOSTLSFetch_EntropyFail, ascii ''OSTLS_Fetch: entropy inject FAIL'', 0, hang_up E ep w)
         else
           let (reset_ok, e) = br_client_reset E server_name False e
           in if \<not> reset_ok
              then Inl (kOSTLSFetch_ClientResetFail, ascii ''OSTLS_Fetch: br_ssl_client_reset returned 0'',
                        br_last_error E e, hang_up E ep w)
              else Inr (e, w))"

text \<open>A returned call: the code, the caller's buffer, the number of bytes in it, the message, the
  machine, and the engine when the call came to the loop.\<close>

datatype ('w, 'e) fetch_result =
    Returned (fr_code: int) (fr_out: "bytes option") (fr_len: nat) (fr_msg: "bytes option") (fr_os: 'w) (fr_eng: "'e option")
  | Null_store

definition OSTLS_Fetch ::
  "('w, 'e, 's, 'x) fetch_env \<Rightarrow> bytes option \<Rightarrow> u16 \<Rightarrow> bytes option \<Rightarrow> bytes option \<Rightarrow> bytes option \<Rightarrow> u32
   \<Rightarrow> bytes option \<Rightarrow> u32 \<Rightarrow> 'w \<Rightarrow> ('w, 'e) fetch_result option" where
  "OSTLS_Fetch E host port server_name path out_buf out_cap out_msg out_msg_len w =
     (let fail = (\<lambda>out eng (code, pre, err, w).
                   Some (Returned code out 0 (fetch_status out_msg out_msg_len pre err) w eng))
      in case (host, server_name, path, out_buf) of
           (Some host, Some server_name, Some path, Some buf) \<Rightarrow>
             if out_cap < 1 \<or> port = 0
             then fail out_buf None (kOSTLSFetch_BadArgs, ascii ''OSTLS_Fetch: bad args'', 0, w)
             else
               let ((now, loc), w) = read_clock E w; (days, seconds, time_err) = OSTLS_GetBearSSLTime now loc
               in if time_err = kOSTLSTimeClockBefore2000
                  then fail out_buf None (kOSTLSFetch_ClockBefore2000, ascii ''OSTLS_Fetch: system clock before 2000'', 0, w)
                  else if time_err \<noteq> kOSTLSTimeOK
                  then fail out_buf None
                         (kOSTLSFetch_ClockBefore2000, ascii ''OSTLS_Fetch: time helper failure'', time_err, w)
                  else case fetch_connect E (fetch_target host port) w of
                         Inl f \<Rightarrow> fail out_buf None f
                       | Inr (ep, w) \<Rightarrow>
                           (case fetch_arm E ep server_name days seconds w of
                              Inl f \<Rightarrow> fail out_buf None f
                            | Inr (e, w) \<Rightarrow>
                                let (t, w) = tick_count E w; deadline = t + 60 * 60;
                                    s = \<lparr>f_os = w, f_eng = e, f_handshake_done = False, request_sent = 0,
                                         response_collected = 0, out_bytes = buf\<rparr>
                                in case fetch_loop E ep (fetch_request path server_name) out_cap deadline s of
                                     None \<Rightarrow> None
                                   | Some (Abort code pre err orderly s) \<Rightarrow>
                                       fail (Some (out_bytes s)) (Some (f_eng s))
                                         (code, pre, err,
                                          if orderly then hang_up E ep (f_os s) else ot_close_provider E ep (f_os s))
                                   | Some (Break s) \<Rightarrow>
                                       (case out_msg of
                                          None \<Rightarrow> Some Null_store
                                        | Some b \<Rightarrow>
                                            Some (Returned kOSTLSFetch_OK (Some (out_bytes s)) (response_collected s)
                                              (Some (fetch_ok_message b out_msg_len
                                                 (br_session_suite E (br_session E (f_eng s))) (response_collected s)))
                                              (hang_up E ep (f_os s)) (Some (f_eng s))))
                                   | Some (Again s) \<Rightarrow> None)
         | _ \<Rightarrow> fail out_buf None (kOSTLSFetch_BadArgs, ascii ''OSTLS_Fetch: bad args'', 0, w))"

section \<open>Strings and buffers\<close>

declare decimal.simps [simp del]

lemma length_decimal: "n < 10 ^ Suc k \<Longrightarrow> length (decimal n) \<le> Suc k"
proof (induction k arbitrary: n)
  case (Suc k)
  then have "n div 10 < 10 ^ Suc k" by (simp add: less_mult_imp_div_less)
  then have "length (decimal (n div 10)) \<le> Suc k" by (rule Suc.IH)
  then show ?case by (subst decimal.simps) simp
qed (simp add: decimal.simps)

lemma length_signed_decimal: "\<bar>n\<bar> < 10 ^ 10 \<Longrightarrow> length (signed_decimal n) \<le> 11"
  using length_decimal [of "nat \<bar>n\<bar>" 9] by (auto simp: signed_decimal_def ascii_def nat_less_iff abs_if)

text \<open>The request and the address fit the C arrays of 256 and 128 bytes, terminators included.\<close>

lemma request_fits: "length (fetch_request path server_name) < 256"
  by (simp add: fetch_request_def ascii_def crlf_def)

lemma target_fits: "length (fetch_target host port) < 128"
proof -
  have "unat port < 2 ^ 16" using unsigned_less [of port] by simp
  then show ?thesis using length_decimal [of "unat port" 4] by (simp add: fetch_target_def)
qed

text \<open>A path of more than 80 bytes is cut, and the request names another resource.\<close>

lemma request_cuts_path: "fetch_request path server_name = fetch_request (take 80 path) server_name"
  by (simp add: fetch_request_def)

text \<open>The capacity of the message is looked at only for the last byte: a status is stored past the
  end of a short buffer.\<close>

lemma status_overruns: "map_option length (fetch_status (Some [0, 0, 0, 0]) 4 (ascii ''OSTLS_Fetch: bad args'') 0) = Some 22"
  by (simp add: fetch_status_def ascii_def wr_def)

lemma status_in_bounds:
  assumes "length b = unat len" "180 \<le> len" "\<bar>err\<bar> < 10 ^ 10"
  shows "\<exists>m. fetch_status (Some b) len pre err = Some m \<and> length m = length b \<and> last m = 0"
proof -
  have l: "180 \<le> unat len" using assms(2) by (simp add: word_le_nat_alt)
  then have n: "\<not> len < 4" "unat (len - 1) = unat len - 1"
    by (simp_all add: word_less_nat_alt unat_sub word_le_nat_alt)
  define str where "str = (if err = 0 then take 140 pre else take 110 pre @ ascii '' (err='' @ signed_decimal err @ ascii '')'')"
  have t: "length str < 180" using length_signed_decimal [OF assms(3)] by (auto simp: str_def ascii_def)
  define m where "m = wr (wr b 0 (str @ [0])) (unat len - 1) [0]"
  have s: "fetch_status (Some b) len pre err = Some m"
    using n by (simp add: fetch_status_def Let_def m_def str_def)
  have lm: "length m = length b" using t l assms(1) by (simp add: m_def)
  have "last m = byte_at m (length m - 1)" using lm l assms(1) by (subst last_conv_nth) (auto simp: byte_at_def)
  also have "\<dots> = 0" using lm assms(1) l by (simp add: m_def byte_at_wr)
  finally show ?thesis using s lm by blast
qed

lemma ok_message_in_bounds:
  assumes "length b = unat len" "180 \<le> len" "n < 10 ^ 10"
  shows "length (fetch_ok_message b len suite n) = length b" "last (fetch_ok_message b len suite n) = 0"
proof -
  have l: "180 \<le> unat len" using assms(2) by (simp add: word_le_nat_alt)
  then have u: "unat (len - 1) = unat len - 1" by (simp add: unat_sub word_le_nat_alt)
  have "length (fetch_suite_label suite) \<le> 29" by (simp add: fetch_suite_label_def ascii_def)
  then show m: "length (fetch_ok_message b len suite n) = length b"
    using length_decimal [of n 9] assms(3) l assms(1) by (simp add: fetch_ok_message_def u ascii_def)
  have "last (fetch_ok_message b len suite n) = byte_at (fetch_ok_message b len suite n) (length b - 1)"
    using m l assms(1) by (subst last_conv_nth) (auto simp: byte_at_def)
  also have "\<dots> = 0" using assms(1) l by (simp add: fetch_ok_message_def byte_at_wr u)
  finally show "last (fetch_ok_message b len suite n) = 0" .
qed

section \<open>What is asked of the engine and of the machine\<close>

text \<open>The engine's application data: \<open>inp\<close> the plaintext it has decrypted since the reset, \<open>used\<close> how
  much of it was acknowledged, \<open>outp\<close> the plaintext it has accepted. The buffer it offers is the next
  piece of \<open>inp\<close>; only \<open>recvapp_ack\<close> uses input, only \<open>sendapp\<close> accepts output.\<close>

definition engine_laws :: "('e \<Rightarrow> bytes) \<Rightarrow> ('e \<Rightarrow> nat) \<Rightarrow> ('e \<Rightarrow> bytes) \<Rightarrow> ('w, 'e, 's, 'x) fetch_env \<Rightarrow> bool" where
  "engine_laws inp used outp E \<longleftrightarrow>
     (\<forall>e. prefix (br_recvapp_buf E e) (drop (used e) (inp e)) \<and> used e \<le> length (inp e))
   \<and> (\<forall>e n. n \<le> length (br_recvapp_buf E e) \<longrightarrow>
        used (br_recvapp_ack E n e) = used e + n \<and> inp (br_recvapp_ack E n e) = inp e \<and> outp (br_recvapp_ack E n e) = outp e)
   \<and> (\<forall>e d. length d \<le> br_sendapp_room E e \<longrightarrow>
        outp (br_sendapp E d e) = outp e @ d \<and> used (br_sendapp E d e) = used e \<and> inp (br_sendapp E d e) = inp e)
   \<and> (\<forall>e. outp (br_flush E e) = outp e \<and> used (br_flush E e) = used e \<and> inp (br_flush E e) = inp e)
   \<and> (\<forall>e n. outp (br_sendrec_ack E n e) = outp e \<and> used (br_sendrec_ack E n e) = used e \<and> inp (br_sendrec_ack E n e) = inp e)
   \<and> (\<forall>e b. outp (br_recvrec E b e) = outp e \<and> used (br_recvrec E b e) = used e \<and> prefix (inp e) (inp (br_recvrec E b e)))
   \<and> (\<forall>n r e e'. br_client_reset E n r e = (True, e') \<longrightarrow> inp e' = [] \<and> outp e' = [])"

text \<open>The endpoints of the process: opening adds one, closing removes it, nothing else changes them.\<close>

definition endpoint_laws :: "('w \<Rightarrow> endpoint set) \<Rightarrow> ('w, 'e, 's, 'x) fetch_env \<Rightarrow> bool" where
  "endpoint_laws opened E \<longleftrightarrow>
     (\<forall>w err ep w'. ot_open_endpoint E w = ((err, ep), w') \<longrightarrow>
        (if err = noErr \<and> ep \<noteq> 0 then ep \<notin> opened w \<and> opened w' = insert ep (opened w) else opened w' = opened w))
   \<and> (\<forall>ep w. opened (ot_close_provider E ep w) = opened w - {ep})
   \<and> (\<forall>w. opened (snd (ot_create_configuration E w)) = opened w \<and> opened (snd (tick_count E w)) = opened w
        \<and> opened (snd (read_clock E w)) = opened w)
   \<and> (\<forall>ep w. opened (snd (ot_bind E ep w)) = opened w \<and> opened (ot_snd_orderly_disconnect E ep w) = opened w)
   \<and> (\<forall>ep a w. opened (snd (ot_connect E ep a w)) = opened w \<and> opened (snd (ot_snd E ep a w)) = opened w)
   \<and> (\<forall>ep n w. opened (snd (ot_rcv E ep n w)) = opened w)
   \<and> (\<forall>e w. opened (snd (inject_entropy E e w)) = opened w)"

text \<open>The clock: \<open>mu\<close> is the time of the machine in units of which a tick has \<open>K\<close>. Reading the tick
  count takes some time; no call takes longer than twelve days, and none turns the clock back.\<close>

definition lasts :: "('w \<Rightarrow> nat) \<Rightarrow> nat \<Rightarrow> 'w \<Rightarrow> 'w \<Rightarrow> bool" where
  "lasts mu K w w' \<longleftrightarrow> mu w \<le> mu w' \<and> mu w' \<le> mu w + K * 2 ^ 26"

definition clock_laws :: "('w \<Rightarrow> nat) \<Rightarrow> nat \<Rightarrow> ('w, 'e, 's, 'x) fetch_env \<Rightarrow> bool" where
  "clock_laws mu K E \<longleftrightarrow>
     0 < K
   \<and> (\<forall>w. fst (tick_count E w) = word_of_nat (mu w div K) \<and> mu w < mu (snd (tick_count E w)) \<and> lasts mu K w (snd (tick_count E w)))
   \<and> (\<forall>ep b w. lasts mu K w (snd (ot_snd E ep b w)) \<and> lasts mu K w (snd (ot_connect E ep b w)))
   \<and> (\<forall>ep n w. lasts mu K w (snd (ot_rcv E ep n w)))
   \<and> (\<forall>ep w. lasts mu K w (snd (ot_bind E ep w)))
   \<and> (\<forall>e w. lasts mu K w (snd (inject_entropy E e w)))
   \<and> (\<forall>w. lasts mu K w (snd (ot_create_configuration E w)) \<and> lasts mu K w (snd (ot_open_endpoint E w))
        \<and> lasts mu K w (snd (read_clock E w)))"

section \<open>One pass\<close>

fun verdict_st :: "('w, 'e) fetch_verdict \<Rightarrow> ('w, 'e) fetch_st" where
  "verdict_st (Again s) = s"
| "verdict_st (Break s) = s"
| "verdict_st (Abort code pre err orderly s) = s"

text \<open>The body with the state after the clock was read and the handshake noted.\<close>

definition clocked :: "('w, 'e, 's, 'x) fetch_env \<Rightarrow> bool \<Rightarrow> ('w, 'e) fetch_st \<Rightarrow> ('w, 'e) fetch_st" where
  "clocked E d s = s\<lparr>f_os := snd (tick_count E (f_os s)), f_handshake_done := d\<rparr>"

lemma clocked_sel [simp]:
  "f_os (clocked E d s) = snd (tick_count E (f_os s))" "f_handshake_done (clocked E d s) = d" "f_eng (clocked E d s) = f_eng s"
  "request_sent (clocked E d s) = request_sent s" "response_collected (clocked E d s) = response_collected s"
  "out_bytes (clocked E d s) = out_bytes s"
  by (simp_all add: clocked_def)

definition done_after :: "('w, 'e, 's, 'x) fetch_env \<Rightarrow> ('w, 'e) fetch_st \<Rightarrow> bool" where
  "done_after E s = (f_handshake_done s \<or> br_current_state E (f_eng s) AND (BR_SSL_SENDAPP OR BR_SSL_RECVAPP) \<noteq> 0)"

lemma fetch_step_eq:
  fixes E :: "('w, 'e, 's, 'x) fetch_env" and s :: "('w, 'e) fetch_st"
  defines "st \<equiv> br_current_state E (f_eng s)" and "s1 \<equiv> clocked E (f_handshake_done s) s" and "s2 \<equiv> clocked E (done_after E s) s"
  shows "fetch_step E ep request cap dl s =
     (if dl < fst (tick_count E (f_os s))
      then Abort kOSTLSFetch_HandshakeTimeout (ascii ''OSTLS_Fetch: handshake/IO timeout (60 s)'') 0 True s1
      else if st AND BR_SSL_CLOSED \<noteq> 0
      then if br_last_error E (f_eng s) = 0
           then if 0 < response_collected s then Break s1
                else Abort kOSTLSFetch_NoBytesReceived (ascii ''OSTLS_Fetch: peer closed before any plaintext'') 0 False s1
           else Abort kOSTLSFetch_BearSSLError (ascii ''OSTLS_Fetch: BearSSL error during I/O'') (br_last_error E (f_eng s)) True s1
      else if done_after E s \<and> request_sent s < length request \<and> st AND BR_SSL_SENDAPP \<noteq> 0 then fetch_push E request s2
      else if done_after E s \<and> st AND BR_SSL_RECVAPP \<noteq> 0 \<and> response_collected s < unat cap then fetch_drain E cap s2
      else if st AND BR_SSL_SENDREC \<noteq> 0 then fetch_send E ep s2
      else if st AND BR_SSL_RECVREC \<noteq> 0 then fetch_recv E ep s2 else Again s2)"
proof -
  obtain now w where t: "tick_count E (f_os s) = (now, w)" by fastforce
  have e: "s\<lparr>f_os := w\<rparr> = s1" by (simp add: s1_def clocked_def t)
  have n: "(if \<not> f_handshake_done s1 \<and> st AND (BR_SSL_SENDAPP OR BR_SSL_RECVAPP) \<noteq> 0
            then s1\<lparr>f_handshake_done := True\<rparr> else s1) = s2"
    by (auto simp: s1_def s2_def st_def done_after_def clocked_def)
  have f: "f_eng s1 = f_eng s" "response_collected s1 = response_collected s" "response_collected s2 = response_collected s"
    "request_sent s2 = request_sent s" "f_handshake_done s2 = done_after E s" by (simp_all add: s1_def s2_def)
  show ?thesis unfolding fetch_step_def t Let_def prod.case e f(1,2) st_def [symmetric] n fst_conv unfolding f ..
qed

lemma fetch_step_cases:
  fixes E :: "('w, 'e, 's, 'x) fetch_env" and ep request cap dl and s :: "('w, 'e) fetch_st"
  defines "v \<equiv> fetch_step E ep request cap dl s"
  obtains (quiet) d where "verdict_st v = clocked E d s" "v = Break (clocked E d s) \<Longrightarrow>
        0 < response_collected s \<and> br_current_state E (f_eng s) AND BR_SSL_CLOSED \<noteq> 0 \<and> br_last_error E (f_eng s) = 0"
  | (push) d where "v = fetch_push E request (clocked E d s)" "request_sent s < length request"
  | (drain) d where "v = fetch_drain E cap (clocked E d s)" "response_collected s < unat cap"
  | (send) d where "v = fetch_send E ep (clocked E d s)"
  | (recv) d where "v = fetch_recv E ep (clocked E d s)"
proof -
  note v = fetch_step_eq [of E ep request cap dl s, folded v_def]
  have q: "v = Abort code pre err o' (clocked E d s) \<Longrightarrow> thesis" "v = Again (clocked E d s) \<Longrightarrow> thesis" for code pre err o' d
    by (rule quiet [of d]; simp)+
  consider "dl < fst (tick_count E (f_os s))"
    | "\<not> dl < fst (tick_count E (f_os s))" "br_current_state E (f_eng s) AND BR_SSL_CLOSED \<noteq> 0"
    | "\<not> dl < fst (tick_count E (f_os s))" "br_current_state E (f_eng s) AND BR_SSL_CLOSED = 0" by blast
  then show thesis
  proof cases
    case 1
    with v have "v = Abort kOSTLSFetch_HandshakeTimeout (ascii ''OSTLS_Fetch: handshake/IO timeout (60 s)'') 0 True
      (clocked E (f_handshake_done s) s)" by simp
    then show thesis by (rule q)
  next
    case 2
    have "v = Abort kOSTLSFetch_BearSSLError (ascii ''OSTLS_Fetch: BearSSL error during I/O'') (br_last_error E (f_eng s)) True
        (clocked E (f_handshake_done s) s)
      \<or> v = Abort kOSTLSFetch_NoBytesReceived (ascii ''OSTLS_Fetch: peer closed before any plaintext'') 0 False
        (clocked E (f_handshake_done s) s)
      \<or> v = Break (clocked E (f_handshake_done s) s) \<and> 0 < response_collected s \<and> br_last_error E (f_eng s) = 0"
      unfolding v using 2 by simp
    then show thesis
    proof (elim disjE)
      assume b: "v = Break (clocked E (f_handshake_done s) s) \<and> 0 < response_collected s \<and> br_last_error E (f_eng s) = 0"
      show thesis by (rule quiet [of "f_handshake_done s"]) (use b 2 in auto)
    qed (rule q, assumption)+
  next
    case 3
    then have "v = fetch_push E request (clocked E (done_after E s) s) \<and> request_sent s < length request
      \<or> v = fetch_drain E cap (clocked E (done_after E s) s) \<and> response_collected s < unat cap
      \<or> v = fetch_send E ep (clocked E (done_after E s) s) \<or> v = fetch_recv E ep (clocked E (done_after E s) s)
      \<or> v = Again (clocked E (done_after E s) s)"
      using v by (simp split: if_splits)
    then show thesis using push drain send recv q(2) by blast
  qed
qed

text \<open>What the locals of the loop say about the engine.\<close>

definition fetch_inv ::
  "('e \<Rightarrow> bytes) \<Rightarrow> ('e \<Rightarrow> nat) \<Rightarrow> ('e \<Rightarrow> bytes) \<Rightarrow> bytes \<Rightarrow> u32 \<Rightarrow> bytes \<Rightarrow> ('w, 'e) fetch_st \<Rightarrow> bool" where
  "fetch_inv inp used outp request cap buf s \<longleftrightarrow>
     used (f_eng s) = response_collected s \<and> outp (f_eng s) = take (request_sent s) request
   \<and> request_sent s \<le> length request \<and> response_collected s \<le> unat cap
   \<and> response_collected s \<le> length (inp (f_eng s))
   \<and> out_bytes s = take (response_collected s) (inp (f_eng s)) @ drop (response_collected s) buf"

lemma fetch_inv_frame [simp]:
  "fetch_inv inp used outp request cap buf (s\<lparr>f_os := w\<rparr>) = fetch_inv inp used outp request cap buf s"
  "fetch_inv inp used outp request cap buf (clocked E d s) = fetch_inv inp used outp request cap buf s"
  "fetch_inv inp used outp request cap buf (s\<lparr>f_handshake_done := d\<rparr>) = fetch_inv inp used outp request cap buf s"
  by (simp_all add: fetch_inv_def)

lemma push_inv:
  assumes L: "engine_laws inp used outp E" and i: "fetch_inv inp used outp request cap buf s" and l: "request_sent s < length request"
  shows "\<exists>s'. fetch_push E request s = Again s' \<and> fetch_inv inp used outp request cap buf s'"
proof (cases "br_sendapp_room E (f_eng s) = 0")
  case True
  then show ?thesis using i by (simp add: fetch_push_def)
next
  case False
  define n where "n = (if br_sendapp_room E (f_eng s) < length request - request_sent s then br_sendapp_room E (f_eng s)
                       else length request - request_sent s)"
  define d where "d = take n (drop (request_sent s) request)"
  define e where "e = br_sendapp E d (f_eng s)"
  define e' where "e' = (if length request \<le> request_sent s + n then br_flush E e else e)"
  have n: "n \<le> br_sendapp_room E (f_eng s)" "n \<le> length request - request_sent s" by (simp_all add: n_def)
  have "length d \<le> br_sendapp_room E (f_eng s)" using n by (simp add: d_def)
  then have "outp e' = outp (f_eng s) @ d \<and> used e' = used (f_eng s) \<and> inp e' = inp (f_eng s)"
    using L unfolding engine_laws_def e'_def e_def by simp
  then have "fetch_inv inp used outp request cap buf (s\<lparr>f_eng := e', request_sent := request_sent s + n\<rparr>)"
    using i n l by (simp add: fetch_inv_def d_def take_add)
  moreover have "fetch_push E request s = Again (s\<lparr>f_eng := e', request_sent := request_sent s + n\<rparr>)"
    using False by (simp add: fetch_push_def Let_def n_def d_def e_def e'_def)
  ultimately show ?thesis by (intro exI [of _ "s\<lparr>f_eng := e', request_sent := request_sent s + n\<rparr>"]) simp
qed

lemma drain_inv:
  assumes L: "engine_laws inp used outp E" and i: "fetch_inv inp used outp request cap buf s"
    and c: "unat cap \<le> length buf" and l: "response_collected s < unat cap"
  shows "\<exists>s'. fetch_drain E cap s \<in> {Again s', Break s'} \<and> fetch_inv inp used outp request cap buf s'
     \<and> (fetch_drain E cap s = Break s' \<longrightarrow> response_collected s' = unat cap)"
proof (cases "br_recvapp_buf E (f_eng s) = []")
  case True
  then show ?thesis using i by (intro exI [of _ s]) (simp add: fetch_drain_def)
next
  case False
  define ab where "ab = br_recvapp_buf E (f_eng s)"
  define n where "n = (if unat cap - response_collected s < length ab then unat cap - response_collected s else length ab)"
  define e where "e = br_recvapp_ack E n (f_eng s)"
  define s' where "s' = s\<lparr>out_bytes := wr (out_bytes s) (response_collected s) (take n ab),
    response_collected := response_collected s + n, f_eng := e\<rparr>"
  have n: "n \<le> length ab" "response_collected s + n \<le> unat cap" using l by (auto simp: n_def)
  have p: "prefix ab (drop (used (f_eng s)) (inp (f_eng s)))"
    and e: "used e = used (f_eng s) + n" "inp e = inp (f_eng s)" "outp e = outp (f_eng s)"
    using L n(1) unfolding engine_laws_def e_def ab_def by blast+
  have t: "take n ab = take n (drop (response_collected s) (inp (f_eng s)))"
    using p n(1) i by (auto simp: prefix_def fetch_inv_def)
  have m: "response_collected s + n \<le> length (inp (f_eng s))"
    using p n(1) i prefix_length_le [OF p] unfolding fetch_inv_def by simp linarith
  have o: "out_bytes s = take (response_collected s) (inp (f_eng s)) @ drop (response_collected s) buf"
    "response_collected s \<le> length (inp (f_eng s))" using i by (simp_all add: fetch_inv_def)
  have w: "wr (out_bytes s) (response_collected s) (take n ab)
      = take (response_collected s + n) (inp (f_eng s)) @ drop (response_collected s + n) buf"
    using o n t m c l by (simp add: wr_def take_add [of "response_collected s" n] add.commute [of n])
  have "fetch_inv inp used outp request cap buf s'"
    using i e n w m by (simp add: fetch_inv_def s'_def take_add)
  moreover have "fetch_drain E cap s = (if unat cap \<le> response_collected s' then Break s' else Again s')" "f_os s' = f_os s"
    using False by (simp_all add: fetch_drain_def Let_def ab_def [symmetric] n_def [symmetric] e_def [symmetric] s'_def)
  moreover have "response_collected s' \<le> unat cap" using n by (simp add: s'_def)
  ultimately show ?thesis by (intro exI [of _ s']) auto
qed

lemma send_inv:
  assumes L: "engine_laws inp used outp E" and i: "fetch_inv inp used outp request cap buf s"
  shows "fetch_inv inp used outp request cap buf (verdict_st (fetch_send E ep s)) \<and> (\<forall>s'. fetch_send E ep s \<noteq> Break s')"
proof -
  have "\<And>n e. outp (br_sendrec_ack E n e) = outp e \<and> used (br_sendrec_ack E n e) = used e \<and> inp (br_sendrec_ack E n e) = inp e"
    using L unfolding engine_laws_def by blast
  then show ?thesis using i by (auto simp: fetch_send_def Let_def fetch_inv_def split: prod.split)
qed

lemma recv_inv:
  assumes L: "engine_laws inp used outp E" and i: "fetch_inv inp used outp request cap buf s"
  shows "fetch_inv inp used outp request cap buf (verdict_st (fetch_recv E ep s)) \<and> (\<forall>s'. fetch_recv E ep s \<noteq> Break s')"
proof -
  have l: "\<And>b e. outp (br_recvrec E b e) = outp e \<and> used (br_recvrec E b e) = used e \<and> prefix (inp e) (inp (br_recvrec E b e))"
    using L unfolding engine_laws_def by blast
  have "fetch_inv inp used outp request cap buf (s\<lparr>f_os := w, f_eng := br_recvrec E b (f_eng s)\<rparr>)" for b w
    using l [where e = "f_eng s" and b = b] i by (auto simp: fetch_inv_def prefix_def)
  then show ?thesis using i by (auto simp: fetch_recv_def Let_def split: prod.split)
qed

lemma step_inv:
  assumes L: "engine_laws inp used outp E" and i: "fetch_inv inp used outp request cap buf s" and c: "unat cap \<le> length buf"
  shows "fetch_inv inp used outp request cap buf (verdict_st (fetch_step E ep request cap dl s))"
proof -
  have i': "fetch_inv inp used outp request cap buf (clocked E d s)" for d using i by simp
  show ?thesis
  proof (cases rule: fetch_step_cases [of E ep request cap dl s])
    case (quiet d)
    then show ?thesis using i by simp
  next
    case (push d)
    then show ?thesis using push_inv [OF L i', of d] by auto
  next
    case (drain d)
    then show ?thesis using drain_inv [OF L i' c, of d] by auto
  next
    case (send d)
    then show ?thesis using send_inv [OF L i'] by simp
  next
    case (recv d)
    then show ?thesis using recv_inv [OF L i'] by simp
  qed
qed

section \<open>The loop\<close>

lemma fetch_loop_inv:
  assumes "\<And>s. I s \<Longrightarrow> I (verdict_st (fetch_step E ep request cap dl s))" "fetch_loop E ep request cap dl s = Some v" "I s"
  shows "\<exists>s0. I s0 \<and> v = fetch_step E ep request cap dl s0 \<and> I (verdict_st v) \<and> (\<forall>s'. v \<noteq> Again s')"
  using assms(2,1,3)
proof -
  have "(\<forall>s. I s \<longrightarrow> I (verdict_st (fetch_step E ep request cap dl s))) \<longrightarrow> I s \<longrightarrow>
      (\<exists>s0. I s0 \<and> v = fetch_step E ep request cap dl s0 \<and> I (verdict_st v) \<and> (\<forall>s'. v \<noteq> Again s'))"
    using assms(2)
  proof (rule fetch_loop.raw_induct [where P = "\<lambda>E ep request cap dl s v.
      (\<forall>s. I s \<longrightarrow> I (verdict_st (fetch_step E ep request cap dl s))) \<longrightarrow> I s \<longrightarrow>
      (\<exists>s0. I s0 \<and> v = fetch_step E ep request cap dl s0 \<and> I (verdict_st v) \<and> (\<forall>s'. v \<noteq> Again s'))", rotated])
    fix loop E ep request cap dl s v
    assume IH: "\<And>E ep request cap dl s v. loop E ep request cap dl s = Some v \<Longrightarrow>
        (\<forall>s. I s \<longrightarrow> I (verdict_st (fetch_step E ep request cap dl s))) \<longrightarrow> I s \<longrightarrow>
        (\<exists>s0. I s0 \<and> v = fetch_step E ep request cap dl s0 \<and> I (verdict_st v) \<and> (\<forall>s'. v \<noteq> Again s'))"
      and e: "(case fetch_step E ep request cap dl s of Again s' \<Rightarrow> loop E ep request cap dl s'
        | Break s' \<Rightarrow> Some (Break s') | Abort code pre err orderly s' \<Rightarrow> Some (Abort code pre err orderly s')) = Some v"
    show "(\<forall>s. I s \<longrightarrow> I (verdict_st (fetch_step E ep request cap dl s))) \<longrightarrow> I s \<longrightarrow>
        (\<exists>s0. I s0 \<and> v = fetch_step E ep request cap dl s0 \<and> I (verdict_st v) \<and> (\<forall>s'. v \<noteq> Again s'))"
    proof (intro impI)
      assume h: "\<forall>s. I s \<longrightarrow> I (verdict_st (fetch_step E ep request cap dl s))" and i: "I s"
      have j: "I (verdict_st (fetch_step E ep request cap dl s))" using h i by blast
      show "\<exists>s0. I s0 \<and> v = fetch_step E ep request cap dl s0 \<and> I (verdict_st v) \<and> (\<forall>s'. v \<noteq> Again s')"
      proof (cases "fetch_step E ep request cap dl s")
        case (Again s')
        then show ?thesis using IH [of E ep request cap dl s' v] e h j by simp
      qed (use e i j in \<open>auto intro!: exI [of _ s]\<close>)
    qed
  qed
  then show ?thesis using assms(1,3) by blast
qed

text \<open>Why the loop is left without an error.\<close>

lemma break_reason:
  assumes L: "engine_laws inp used outp E" and i: "fetch_inv inp used outp request cap buf s" and c: "unat cap \<le> length buf"
    and p: "1 \<le> cap" and b: "fetch_step E ep request cap dl s = Break s'"
  shows "0 < response_collected s' \<and> (response_collected s' = unat cap
     \<or> br_current_state E (f_eng s') AND BR_SSL_CLOSED \<noteq> 0 \<and> br_last_error E (f_eng s') = 0)"
proof -
  have p: "0 < unat cap" using p by (simp add: word_le_nat_alt)
  have i': "fetch_inv inp used outp request cap buf (clocked E d s)" for d using i by simp
  show ?thesis
  proof (cases rule: fetch_step_cases [of E ep request cap dl s])
    case (quiet d)
    then show ?thesis using b by simp
  next
    case (push d)
    then show ?thesis using push_inv [OF L i', of d] b by auto
  next
    case (drain d)
    then show ?thesis using drain_inv [OF L i' c, of d] b p by auto
  next
    case (send d)
    then show ?thesis using send_inv [OF L i', of ep d] b by (metis (no_types))
  next
    case (recv d)
    then show ?thesis using recv_inv [OF L i', of ep d] b by (metis (no_types))
  qed
qed

text \<open>The machine after a pass: the clock was read, and at most one call of Open Transport made.\<close>

lemma step_os:
  fixes E :: "('w, 'e, 's, 'x) fetch_env" and ep request cap dl and s :: "('w, 'e) fetch_st"
  defines "w1 \<equiv> snd (tick_count E (f_os s))" and "w' \<equiv> f_os (verdict_st (fetch_step E ep request cap dl s))"
  obtains "w' = w1" | b where "w' = snd (ot_snd E ep b w1)" | n where "w' = snd (ot_rcv E ep n w1)"
proof (cases rule: fetch_step_cases [of E ep request cap dl s])
  case (quiet d)
  then show thesis using that(1) by (simp add: w1_def w'_def)
next
  case (push d)
  then have "w' = w1" by (simp add: w1_def w'_def fetch_push_def Let_def)
  then show thesis by (rule that(1))
next
  case (drain d)
  then have "w' = w1" by (simp add: w1_def w'_def fetch_drain_def Let_def)
  then show thesis by (rule that(1))
next
  case (send d)
  then have "w' \<in> {w1, snd (ot_snd E ep (br_sendrec_buf E (f_eng s)) w1)}"
    by (simp add: w1_def w'_def fetch_send_def Let_def split: prod.split)
  then show thesis using that by blast
next
  case (recv d)
  then have "w' \<in> {w1, snd (ot_rcv E ep (br_recvrec_room E (f_eng s)) w1)}"
    by (simp add: w1_def w'_def fetch_recv_def Let_def split: prod.split)
  then show thesis using that by blast
qed

lemma step_opened:
  assumes "endpoint_laws opened E"
  shows "opened (f_os (verdict_st (fetch_step E ep request cap dl s))) = opened (f_os s)"
proof -
  have l: "opened (snd (tick_count E w)) = opened w" "opened (snd (ot_snd E ep b w)) = opened w" "opened (snd (ot_rcv E ep n w)) = opened w"
    for w b n using assms unfolding endpoint_laws_def by (elim conjE; simp)+
  show ?thesis by (cases rule: step_os [of E ep request cap dl s]) (simp_all only: l)
qed

text \<open>The deadline ends the loop.\<close>

lemma step_clock:
  assumes "clock_laws mu K E"
  shows "mu (f_os s) < mu (f_os (verdict_st (fetch_step E ep request cap dl s)))"
    "mu (f_os (verdict_st (fetch_step E ep request cap dl s))) \<le> mu (f_os s) + K * 2 ^ 27"
proof -
  have t: "mu w < mu (snd (tick_count E w))" "lasts mu K w (snd (tick_count E w))"
    "lasts mu K w (snd (ot_snd E ep b w))" "lasts mu K w (snd (ot_rcv E ep n w))" for w b n
    using assms unfolding clock_laws_def by blast+
  have t: "mu w < mu (snd (tick_count E w))" "mu (snd (tick_count E w)) \<le> mu w + K * 2 ^ 26"
    "mu w \<le> mu (snd (ot_snd E ep b w))" "mu (snd (ot_snd E ep b w)) \<le> mu w + K * 2 ^ 26"
    "mu w \<le> mu (snd (ot_rcv E ep n w))" "mu (snd (ot_rcv E ep n w)) \<le> mu w + K * 2 ^ 26" for w b n
    using t unfolding lasts_def by blast+
  define w where "w = f_os s"
  note t1 = t(1,2) [of w]
  note t2 = t(3-6) [where w = "snd (tick_count E w)"]
  have "mu w < mu w' \<and> mu w' \<le> mu w + K * 2 ^ 27" if "w' = f_os (verdict_st (fetch_step E ep request cap dl s))" for w'
  proof (cases rule: step_os [of E ep request cap dl s])
    case 1
    then show ?thesis using t1 that by (simp add: w_def)
  next
    case (2 b)
    then show ?thesis using t1 t2(1,2) [where b = b] that by (simp add: w_def)
  next
    case (3 n)
    then show ?thesis using t1 t2(3,4) [where n = n] that by (simp add: w_def)
  qed
  then show "mu (f_os s) < mu (f_os (verdict_st (fetch_step E ep request cap dl s)))"
    "mu (f_os (verdict_st (fetch_step E ep request cap dl s))) \<le> mu (f_os s) + K * 2 ^ 27" unfolding w_def by blast+
qed

lemma loop_returns:
  assumes L: "clock_laws mu K E" and d: "unat dl < 2 ^ 31"
  shows "mu (f_os s) < K * 2 ^ 32 \<Longrightarrow> \<exists>v. fetch_loop E ep request cap dl s = Some v"
proof (induction "K * 2 ^ 32 - mu (f_os s)" arbitrary: s rule: less_induct)
  case less
  have K: "0 < K" and t: "fst (tick_count E (f_os s)) = word_of_nat (mu (f_os s) div K)"
    using L unfolding clock_laws_def by blast+
  show ?case
  proof (cases "fetch_step E ep request cap dl s")
    case (Again s')
    have q: "mu (f_os s) div K < 2 ^ 32" using less.prems K by (simp add: div_less_iff_less_mult mult.commute)
    have "\<not> dl < fst (tick_count E (f_os s))" using Again by (auto simp: fetch_step_eq split: if_splits)
    then have "unat (word_of_nat (mu (f_os s) div K) :: u32) \<le> unat dl" by (simp add: t word_le_nat_alt not_less)
    then have n: "mu (f_os s) div K \<le> unat dl" using q by (simp add: unat_of_nat)
    have "mu (f_os s) div K < 2 ^ 31" using n d by simp
    then have "mu (f_os s) < K * 2 ^ 31" using K by (simp add: div_less_iff_less_mult mult.commute)
    then have b: "mu (f_os s') < K * 2 ^ 32" using step_clock(2) [OF L, of ep request cap dl s] Again K by simp
    have "K * 2 ^ 32 - mu (f_os s') < K * 2 ^ 32 - mu (f_os s)"
      using step_clock(1) [OF L, of s ep request cap dl] Again less.prems by simp
    then obtain v where "fetch_loop E ep request cap dl s' = Some v" using less.hyps b by blast
    then show ?thesis by (subst fetch_loop.simps) (simp add: Again)
  qed (subst fetch_loop.simps, simp)+
qed

lemma abort_code: "fetch_step E ep request cap dl s = Abort code pre err orderly s' \<Longrightarrow> code \<noteq> kOSTLSFetch_OK"
  by (auto simp: fetch_step_eq fetch_push_def fetch_drain_def fetch_send_def fetch_recv_def Let_def fetch_codes
      split: if_splits prod.splits)

section \<open>The whole call\<close>

lemma connect_opened:
  assumes L: "endpoint_laws opened E"
  shows "fetch_connect E target w = Inl (code, pre, err, w') \<Longrightarrow> opened w' = opened w \<and> code \<noteq> kOSTLSFetch_OK"
    "fetch_connect E target w = Inr (ep, w') \<Longrightarrow> ep \<notin> opened w \<and> opened w' = insert ep (opened w)"
proof -
  obtain ok w1 where 1: "ot_create_configuration E w = (ok, w1)" by fastforce
  obtain oe ep' w2 where 2: "ot_open_endpoint E w1 = ((oe, ep'), w2)" by (metis prod.collapse)
  obtain oe3 w3 where 3: "ot_bind E ep' w2 = (oe3, w3)" by fastforce
  obtain oe4 w4 where 4: "ot_connect E ep' target w3 = (oe4, w4)" by fastforce
  have "opened (snd (ot_create_configuration E w)) = opened w" "opened (snd (ot_bind E ep' w2)) = opened w2"
    "opened (snd (ot_connect E ep' target w3)) = opened w3"
    using L unfolding endpoint_laws_def by (elim conjE; simp)+
  then have o: "opened w1 = opened w" "opened w3 = opened w2" "opened w4 = opened w3" by (simp_all add: 1 3 4)
  have c: "opened (ot_close_provider E ep x) = opened x - {ep}" for ep x using L unfolding endpoint_laws_def by (elim conjE) simp
  have p: "if oe = noErr \<and> ep' \<noteq> 0 then ep' \<notin> opened w1 \<and> opened w2 = insert ep' (opened w1) else opened w2 = opened w1"
    by (rule L [unfolded endpoint_laws_def, THEN conjunct1, THEN spec, THEN spec, THEN spec, THEN spec, THEN mp, OF 2])
  show "fetch_connect E target w = Inl (code, pre, err, w') \<Longrightarrow> opened w' = opened w \<and> code \<noteq> kOSTLSFetch_OK"
    using o c p unfolding fetch_connect_def 1 2 3 4 Let_def prod.case
    by (auto simp: 2 3 4 fetch_codes split: if_splits)
  show "fetch_connect E target w = Inr (ep, w') \<Longrightarrow> ep \<notin> opened w \<and> opened w' = insert ep (opened w)"
    using o c p unfolding fetch_connect_def 1 2 3 4 Let_def prod.case
    by (auto simp: 2 3 4 split: if_splits)
qed

lemma connect_lasts:
  assumes L: "clock_laws mu K E" and c: "fetch_connect E target w = Inr (ep, w')"
  shows "mu w' \<le> mu w + 4 * (K * 2 ^ 26)"
proof -
  obtain ok w1 where 1: "ot_create_configuration E w = (ok, w1)" by fastforce
  obtain oe ep' w2 where 2: "ot_open_endpoint E w1 = ((oe, ep'), w2)" by (metis prod.collapse)
  obtain oe3 w3 where 3: "ot_bind E ep' w2 = (oe3, w3)" by fastforce
  obtain oe4 w4 where 4: "ot_connect E ep' target w3 = (oe4, w4)" by fastforce
  have "lasts mu K w (snd (ot_create_configuration E w))" "lasts mu K w1 (snd (ot_open_endpoint E w1))"
    "lasts mu K w2 (snd (ot_bind E ep' w2))" "lasts mu K w3 (snd (ot_connect E ep' target w3))"
    using L unfolding clock_laws_def by (elim conjE; simp)+
  then have "mu w4 \<le> mu w + 4 * (K * 2 ^ 26)" by (simp add: 1 2 3 4 lasts_def)
  moreover have "w' = w4" using c unfolding fetch_connect_def 1 2 3 4 Let_def prod.case by (auto simp: 2 3 4 split: if_splits)
  ultimately show ?thesis by simp
qed

lemma arm_lasts:
  assumes L: "clock_laws mu K E" and a: "fetch_arm E ep sn days secs w = Inr (e, w')"
  shows "mu w' \<le> mu w + K * 2 ^ 26"
proof -
  have "lasts mu K w (snd (inject_entropy E (br_init_full E days secs) w))"
    using L unfolding clock_laws_def by (elim conjE) simp
  then show ?thesis using a by (auto simp: fetch_arm_def lasts_def split: if_splits prod.splits)
qed

lemma hang_up_opened: "endpoint_laws opened E \<Longrightarrow> opened (hang_up E ep w) = opened w - {ep}"
  unfolding endpoint_laws_def hang_up_def by (elim conjE) simp

lemma arm_opened:
  assumes L: "endpoint_laws opened E"
  shows "fetch_arm E ep sn days secs w = Inl (code, pre, err, w') \<Longrightarrow> opened w' = opened w - {ep} \<and> code \<noteq> kOSTLSFetch_OK"
    "fetch_arm E ep sn days secs w = Inr (e, w') \<Longrightarrow> opened w' = opened w"
proof -
  obtain ee e1 w1 where 1: "inject_entropy E (br_init_full E days secs) w = ((ee, e1), w1)" by (metis prod.collapse)
  have "opened (snd (inject_entropy E (br_init_full E days secs) w)) = opened w"
    using L unfolding endpoint_laws_def by (elim conjE) simp
  then have o: "opened w1 = opened w" by (simp add: 1)
  show "fetch_arm E ep sn days secs w = Inl (code, pre, err, w') \<Longrightarrow> opened w' = opened w - {ep} \<and> code \<noteq> kOSTLSFetch_OK"
    using o hang_up_opened [OF L] by (auto simp: fetch_arm_def 1 fetch_codes split: if_splits prod.splits)
  show "fetch_arm E ep sn days secs w = Inr (e, w') \<Longrightarrow> opened w' = opened w"
    using o by (auto simp: fetch_arm_def 1 split: if_splits prod.splits)
qed

lemma arm_fresh:
  assumes L: "engine_laws inp used outp E" and a: "fetch_arm E ep sn days secs w = Inr (e, w')"
  shows "used e = 0" "inp e = []" "outp e = []"
proof -
  have "inp e = [] \<and> outp e = []"
    using a L unfolding engine_laws_def by (auto simp: fetch_arm_def split: if_splits prod.splits)
  moreover have "used e \<le> length (inp e)" using L unfolding engine_laws_def by blast
  ultimately show "used e = 0" "inp e = []" "outp e = []" by simp_all
qed

text \<open>How a call comes back.\<close>

definition loop_start :: "bytes \<Rightarrow> 'w \<Rightarrow> 'e \<Rightarrow> ('w, 'e) fetch_st" where
  "loop_start buf w e = \<lparr>f_os = w, f_eng = e, f_handshake_done = False, request_sent = 0, response_collected = 0, out_bytes = buf\<rparr>"

lemma fetch_cases:
  assumes "OSTLS_Fetch E host port sn path ob cap msg mlen w = r"
  obtains (args) m where "r = Some (Returned kOSTLSFetch_BadArgs ob 0 m w None)"
  | (clock) m where "r = Some (Returned kOSTLSFetch_ClockBefore2000 ob 0 m (snd (read_clock E w)) None)"
  | (connect) m target code pre err w' where "fetch_connect E target (snd (read_clock E w)) = Inl (code, pre, err, w')"
      "r = Some (Returned code ob 0 m w' None)"
  | (arm) m target ep w1 n days secs code pre err w' where "fetch_connect E target (snd (read_clock E w)) = Inr (ep, w1)"
      "fetch_arm E ep n days secs w1 = Inl (code, pre, err, w')" "r = Some (Returned code ob 0 m w' None)"
  | (loop) target ep w1 n pt days secs e w2 buf res where "ob = Some buf" "1 \<le> cap" "sn = Some n" "path = Some pt"
      "fetch_connect E target (snd (read_clock E w)) = Inr (ep, w1)" "fetch_arm E ep n days secs w1 = Inr (e, w2)"
      "fetch_loop E ep (fetch_request pt n) cap (fst (tick_count E w2) + 3600) (loop_start buf (snd (tick_count E w2)) e) = res"
      "r = (case res of None \<Rightarrow> None
            | Some (Abort code pre err orderly s) \<Rightarrow>
                Some (Returned code (Some (out_bytes s)) 0 (fetch_status msg mlen pre err)
                  (if orderly then hang_up E ep (f_os s) else ot_close_provider E ep (f_os s)) (Some (f_eng s)))
            | Some (Break s) \<Rightarrow>
                (case msg of None \<Rightarrow> Some Null_store
                 | Some b \<Rightarrow> Some (Returned kOSTLSFetch_OK (Some (out_bytes s)) (response_collected s)
                     (Some (fetch_ok_message b mlen (br_session_suite E (br_session E (f_eng s))) (response_collected s)))
                     (hang_up E ep (f_os s)) (Some (f_eng s))))
            | Some (Again s) \<Rightarrow> None)"
proof (cases "\<exists>h n pt buf. host = Some h \<and> sn = Some n \<and> path = Some pt \<and> ob = Some buf \<and> \<not> (cap < 1 \<or> port = 0)")
  case False
  then have "\<exists>m. r = Some (Returned kOSTLSFetch_BadArgs ob 0 m w None)"
    using assms unfolding OSTLS_Fetch_def Let_def by (auto split: option.splits)
  then show thesis using args by blast
next
  case True
  then obtain h n pt buf where a: "host = Some h" "sn = Some n" "path = Some pt" "ob = Some buf" and c: "\<not> (cap < 1 \<or> port = 0)" by blast
  obtain now loc w1 where 1: "read_clock E w = ((now, loc), w1)" by (metis prod.collapse)
  obtain days secs te where 2: "OSTLS_GetBearSSLTime now loc = (days, secs, te)" by (metis prod.collapse)
  have s1: "snd (read_clock E w) = w1" by (simp add: 1)
  have k: "1 \<le> cap" using c by (simp only: not_less de_Morgan_disj)
  have "(\<exists>m. r = Some (Returned kOSTLSFetch_ClockBefore2000 ob 0 m w1 None)) \<or> te = kOSTLSTimeOK"
    using assms unfolding OSTLS_Fetch_def Let_def a option.case prod.case if_not_P [OF c] 1 2 by auto
  moreover
  { assume "te = kOSTLSTimeOK"
    then have t: "te \<noteq> kOSTLSTimeClockBefore2000" "\<not> te \<noteq> kOSTLSTimeOK" by (simp_all add: kOSTLSTimeOK_def kOSTLSTimeClockBefore2000_def)
    note r = assms [symmetric, unfolded OSTLS_Fetch_def Let_def a option.case prod.case if_not_P [OF c] 1 2 if_not_P [OF t(1)] if_not_P [OF t(2)]]
    have thesis
    proof (cases "fetch_connect E (fetch_target h port) w1")
      case (Inl f)
      obtain code pre err w' where f: "f = (code, pre, err, w')" by (metis prod.collapse)
      show thesis using connect [of "fetch_target h port" code pre err w'] r Inl by (simp add: s1 f a)
    next
      case (Inr p)
      obtain ep w2 where p: "p = (ep, w2)" by fastforce
      show thesis
      proof (cases "fetch_arm E ep n days secs w2")
        case (Inl f)
        obtain code pre err w' where f: "f = (code, pre, err, w')" by (metis prod.collapse)
        show thesis using arm [of "fetch_target h port" ep w2 n days secs code pre err w'] r Inl Inr by (simp add: s1 f p a)
      next
        case i: (Inr q)
        obtain e w3 where q: "q = (e, w3)" by fastforce
        obtain t w4 where t: "tick_count E w3 = (t, w4)" by fastforce
        show thesis
          by (rule loop [of buf n pt "fetch_target h port" ep w2 days secs e w3 _, OF _ _ _ _ _ _ refl])
            (use r Inr i k in \<open>simp_all add: a s1 p q t loop_start_def\<close>)
      qed
    qed }
  ultimately show thesis using clock s1 by blast
qed

section \<open>A network\<close>

text \<open>A clock that counts its readings, a wire with the bytes still to arrive, one endpoint; and an
  engine with the null cipher, whose plaintext is what came over the wire.\<close>

type_synonym wire = "nat \<times> bytes \<times> endpoint set"
type_synonym null_engine = "bytes \<times> bytes \<times> nat \<times> bool"

definition wire_env :: "ssl_engine \<Rightarrow> (wire, null_engine, unit, unit) fetch_env" where
  "wire_env g =
     \<lparr>ot_create_configuration = (\<lambda>w. (True, w)), ot_async_open_endpoint = (\<lambda>w. (noErr, w)), ot_bind = (\<lambda>ep w. (noErr, w)),
      ot_init_dns_address = int \<circ> length, ot_connect = (\<lambda>ep a w. (noErr, w)), ot_rcv_connect = (\<lambda>ep w. (noErr, w)),
      ot_tcp_nodelay = (\<lambda>ep w. w), ot_get_endpoint_state = (\<lambda>ep w. T_DATAXFER),
      ot_rcv = (\<lambda>ep n (c, a, o'). ((int (length (take n a)), take n a), (c, drop n a, o'))),
      ot_snd = (\<lambda>ep b w. (int (length b), w)),
      ot_look = (\<lambda>ep w. 0), ot_rcv_orderly_disconnect = (\<lambda>ep w. w), ot_rcv_disconnect = (\<lambda>ep w. w),
      ot_snd_orderly_disconnect = (\<lambda>ep w. w), ot_snd_disconnect = (\<lambda>ep w. w),
      ot_close_provider = (\<lambda>ep (c, a, o'). (c, a, o' - {ep})),
      new_ptr_clear = (\<lambda>w. (True, w)), tick_count = (\<lambda>(c, a, o'). (word_of_nat c, (Suc c, a, o'))),
      read_clock = (\<lambda>w. ((0xE0000000, 0), w)), stir_timer = (\<lambda>n w. w), inject_entropy = (\<lambda>e w. ((0, e), w)),
      br_init_full = (\<lambda>days seconds. ([], [], 0, False)), br_eng = (\<lambda>e. g), br_x509 = (\<lambda>e. ()), br_session = (\<lambda>e. ()),
      br_session_suite = (\<lambda>s. 0xC02F), br_set_session = (\<lambda>s e. e), br_client_reset = (\<lambda>h r e. (True, ([], [], 0, False))),
      br_current_state = (\<lambda>(p, i, u, cl). if cl then BR_SSL_CLOSED else if p = [] then BR_SSL_SENDAPP
         else if u < length i then BR_SSL_RECVAPP else BR_SSL_RECVREC),
      br_last_error = (\<lambda>e. 0), br_recvrec_room = (\<lambda>e. 100),
      br_recvrec = (\<lambda>b (p, i, u, cl). (p, i @ b, min u (length i), b = [])),
      br_sendrec_buf = (\<lambda>e. []), br_sendrec_ack = (\<lambda>n e. e), br_recvapp_buf = (\<lambda>(p, i, u, cl). drop u i),
      br_recvapp_ack = (\<lambda>n (p, i, u, cl). (p, i, u + n, cl)),
      br_sendapp_room = (\<lambda>e. 1000), br_sendapp = (\<lambda>b (p, i, u, cl). (p @ b, i, u, cl)), br_flush = (\<lambda>e. e), br_close = (\<lambda>e. e),
      ot_open_endpoint = (\<lambda>(c, a, o'). if 1 \<in> o' then ((- 1, 0), (c, a, o')) else ((noErr, 1), (c, a, insert 1 o')))\<rparr>"

definition wire_inp :: "null_engine \<Rightarrow> bytes" where "wire_inp e = fst (snd e)"
definition wire_used :: "null_engine \<Rightarrow> nat" where "wire_used e = min (fst (snd (snd e))) (length (fst (snd e)))"
definition wire_outp :: "null_engine \<Rightarrow> bytes" where "wire_outp e = fst e"

lemma wire_engine: "engine_laws wire_inp wire_used wire_outp (wire_env g)"
  by (auto simp: engine_laws_def wire_env_def wire_inp_def wire_used_def wire_outp_def min_def)

lemma wire_endpoint: "endpoint_laws (\<lambda>w. snd (snd w)) (wire_env g)"
  by (auto simp: endpoint_laws_def wire_env_def noErr_def)

lemma wire_clock: "clock_laws fst 1 (wire_env g)"
  by (auto simp: clock_laws_def lasts_def wire_env_def)

lemma wire_time: "OSTLS_GetBearSSLTime 0xE0000000 0 = (d, s, e) \<Longrightarrow> e = kOSTLSTimeOK"
  by (code_simp, auto)

text \<open>A fetch of two bytes over it, pass by pass: the request, the two bytes off the wire, the two
  bytes to the caller, the end of the stream, the closed engine.\<close>

lemma wire_loop:
  assumes "length req \<noteq> 0" "length req \<le> 1000"
  shows "fetch_loop (wire_env g) 1 req 3 3600 \<lparr>f_os = (1, [104, 105], {1}), f_eng = ([], [], 0, False), f_handshake_done = False,
      request_sent = 0, response_collected = 0, out_bytes = [0, 0, 0]\<rparr>
    = Some (Break \<lparr>f_os = (6, [], {1}), f_eng = (req, [104, 105], 2, True), f_handshake_done = True,
      request_sent = length req, response_collected = 2, out_bytes = [104, 105, 0]\<rparr>)"
proof -
  note c = fetch_step_eq clocked_def done_after_def wire_env_def BR_SSL_CLOSED_def BR_SSL_SENDAPP_def BR_SSL_RECVAPP_def
    BR_SSL_SENDREC_def BR_SSL_RECVREC_def fetch_push_def fetch_drain_def fetch_send_def fetch_recv_def Let_def wr_def
  have n: "req \<noteq> []" using assms(1) by auto
  have 1: "fetch_step (wire_env g) 1 req 3 3600 \<lparr>f_os = (1, [104, 105], {1}), f_eng = ([], [], 0, False), f_handshake_done = False,
      request_sent = 0, response_collected = 0, out_bytes = [0, 0, 0]\<rparr>
    = Again \<lparr>f_os = (2, [104, 105], {1}), f_eng = (req, [], 0, False), f_handshake_done = True,
      request_sent = length req, response_collected = 0, out_bytes = [0, 0, 0]\<rparr>"
    using assms n by (simp add: c)
  have 2: "fetch_step (wire_env g) 1 req 3 3600 \<lparr>f_os = (2, [104, 105], {1}), f_eng = (req, [], 0, False), f_handshake_done = True,
      request_sent = length req, response_collected = 0, out_bytes = [0, 0, 0]\<rparr>
    = Again \<lparr>f_os = (3, [], {1}), f_eng = (req, [104, 105], 0, False), f_handshake_done = True,
      request_sent = length req, response_collected = 0, out_bytes = [0, 0, 0]\<rparr>"
    using assms n by (simp add: c)
  have 3: "fetch_step (wire_env g) 1 req 3 3600 \<lparr>f_os = (3, [], {1}), f_eng = (req, [104, 105], 0, False), f_handshake_done = True,
      request_sent = length req, response_collected = 0, out_bytes = [0, 0, 0]\<rparr>
    = Again \<lparr>f_os = (4, [], {1}), f_eng = (req, [104, 105], 2, False), f_handshake_done = True,
      request_sent = length req, response_collected = 2, out_bytes = [104, 105, 0]\<rparr>"
    using assms n by (simp add: c)
  have 4: "fetch_step (wire_env g) 1 req 3 3600 \<lparr>f_os = (4, [], {1}), f_eng = (req, [104, 105], 2, False), f_handshake_done = True,
      request_sent = length req, response_collected = 2, out_bytes = [104, 105, 0]\<rparr>
    = Again \<lparr>f_os = (5, [], {1}), f_eng = (req, [104, 105], 2, True), f_handshake_done = True,
      request_sent = length req, response_collected = 2, out_bytes = [104, 105, 0]\<rparr>"
    using assms n by (simp add: c)
  have 5: "fetch_step (wire_env g) 1 req 3 3600 \<lparr>f_os = (5, [], {1}), f_eng = (req, [104, 105], 2, True), f_handshake_done = True,
      request_sent = length req, response_collected = 2, out_bytes = [104, 105, 0]\<rparr>
    = Break \<lparr>f_os = (6, [], {1}), f_eng = (req, [104, 105], 2, True), f_handshake_done = True,
      request_sent = length req, response_collected = 2, out_bytes = [104, 105, 0]\<rparr>"
    using assms n by (simp add: c)
  show ?thesis
    by (subst fetch_loop.simps, simp only: 1 fetch_verdict.case, subst fetch_loop.simps, simp only: 2 fetch_verdict.case,
        subst fetch_loop.simps, simp only: 3 fetch_verdict.case, subst fetch_loop.simps, simp only: 4 fetch_verdict.case,
        subst fetch_loop.simps, simp only: 5 fetch_verdict.case)
qed

lemma wire_fetch:
  "\<exists>m w e. OSTLS_Fetch (wire_env g) (Some (ascii ''a'')) 443 (Some (ascii ''a'')) (Some (ascii ''/'')) (Some [0, 0, 0]) 3
      (Some (replicate 180 0)) 180 (0, [104, 105], {}) = Some (Returned kOSTLSFetch_OK (Some [104, 105, 0]) 2 m w (Some e))"
proof -
  obtain d s t where T: "OSTLS_GetBearSSLTime 0xE0000000 0 = (d, s, t)" by (metis prod.collapse)
  have T2: "t = kOSTLSTimeOK" by (rule wire_time [OF T])
  have c: "fetch_connect (wire_env g) (fetch_target (ascii ''a'') 443) (0, [104, 105], {}) = Inr (1, (0, [104, 105], {1}))"
    by (simp add: fetch_connect_def wire_env_def noErr_def fetch_target_def ascii_def)
  have a: "fetch_arm (wire_env g) 1 (ascii ''a'') d s (0, [104, 105], {1}) = Inr (([], [], 0, False), (0, [104, 105], {1}))"
    by (simp add: fetch_arm_def wire_env_def)
  have l: "length (fetch_request (ascii ''/'') (ascii ''a'')) = 70"
    by (simp add: fetch_request_def ascii_def crlf_def)
  note L = wire_loop [of "fetch_request (ascii ''/'') (ascii ''a'')" g, unfolded l]
  have r: "read_clock (wire_env g) w = ((0xE0000000, 0), w)" for w by (simp add: wire_env_def)
  have tc: "tick_count (wire_env g) (0, [104, 105], {1}) = (0, (1, [104, 105], {1}))" by (simp add: wire_env_def)
  show ?thesis
    unfolding OSTLS_Fetch_def option.case prod.case Let_def r T c a sum.case tc
    using L by (simp add: T2 kOSTLSTimeOK_def kOSTLSTimeClockBefore2000_def hang_up_def)
      (auto simp: wire_env_def)
qed

section \<open>Properties\<close>

text \<open>C24: when a fetch succeeds, the caller's buffer holds, from its first byte on, the first
  \<open>n\<close> bytes of the plaintext the engine decrypted, and is otherwise untouched; \<open>n\<close> is positive and
  within the capacity; it is the whole capacity unless the engine closed without an error; and what
  the engine was given to send is a prefix of the one request.\<close>

theorem fetch_delivers:
  assumes "engine_laws inp used outp E" "unat cap \<le> length buf"
    "OSTLS_Fetch E host port (Some sn) (Some path) (Some buf) cap msg mlen w = Some (Returned kOSTLSFetch_OK out n m w' eng)"
  shows "\<exists>e. eng = Some e \<and> out = Some (take n (inp e) @ drop n buf) \<and> 0 < n \<and> n \<le> unat cap \<and> n \<le> length (inp e)
     \<and> (n = unat cap \<or> br_current_state E e AND BR_SSL_CLOSED \<noteq> 0 \<and> br_last_error E e = 0)
     \<and> prefix (outp e) (fetch_request path sn)"
  using assms(3)
proof (cases rule: fetch_cases)
  case (connect m target code pre err w')
  then show ?thesis by (auto simp: fetch_codes fetch_connect_def Let_def split: prod.splits if_splits)
next
  case (arm m target ep w1 n days secs code pre err w')
  then show ?thesis by (auto simp: fetch_codes fetch_arm_def Let_def split: prod.splits if_splits)
next
  case (loop target ep w1 sn' pt days secs e w2 buf' res)
  then have v: "buf' = buf" "sn' = sn" "pt = path" by simp_all
  define dl where "dl = fst (tick_count E w2) + 3600"
  define s0 where "s0 = loop_start buf (snd (tick_count E w2)) e"
  have i0: "fetch_inv inp used outp (fetch_request path sn) cap buf s0"
    using arm_fresh [OF assms(1) loop(6)] by (simp add: fetch_inv_def s0_def loop_start_def)
  have L: "fetch_loop E ep (fetch_request path sn) cap dl s0 = res" using loop(7) by (simp add: v dl_def s0_def)
  have inv: "\<exists>s1. fetch_inv inp used outp (fetch_request path sn) cap buf s1 \<and> v = fetch_step E ep (fetch_request path sn) cap dl s1
      \<and> fetch_inv inp used outp (fetch_request path sn) cap buf (verdict_st v)" if "res = Some v" for v
    using fetch_loop_inv [where I = "fetch_inv inp used outp (fetch_request path sn) cap buf", OF _ L [unfolded that] i0]
      step_inv [OF assms(1) _ assms(2)] by blast
  have "code \<noteq> kOSTLSFetch_OK" if "res = Some (Abort code pre err orderly s)" for code pre err orderly s
    using inv [OF that] abort_code by metis
  then obtain s b where r: "res = Some (Break s)" "msg = Some b" and o: "out = Some (out_bytes s)" "n = response_collected s" "eng = Some (f_eng s)"
    using loop(8) by (auto split: option.splits fetch_verdict.splits)
  from inv [OF r(1)] obtain s1 where
    I: "fetch_inv inp used outp (fetch_request path sn) cap buf s1" "Break s = fetch_step E ep (fetch_request path sn) cap dl s1"
    "fetch_inv inp used outp (fetch_request path sn) cap buf s" by auto
  show ?thesis
    using break_reason [OF assms(1) I(1) assms(2) loop(2) I(2) [symmetric]] I(3)
    by (auto simp: o fetch_inv_def take_is_prefix)
qed (simp_all add: fetch_codes)

theorem fetch_delivers_witness:
  "\<forall>g. \<exists>m w e. OSTLS_Fetch (wire_env g) (Some (ascii ''a'')) 443 (Some (ascii ''a'')) (Some (ascii ''/'')) (Some [0, 0, 0]) 3
      (Some (replicate 180 0)) 180 (0, [104, 105], {}) = Some (Returned kOSTLSFetch_OK (Some [104, 105, 0]) 2 m w (Some e))
    \<and> take 2 (wire_inp e) = [104, 105] \<and> prefix (wire_outp e) (fetch_request (ascii ''/'') (ascii ''a''))"
proof
  fix g
  obtain m w e where r: "OSTLS_Fetch (wire_env g) (Some (ascii ''a'')) 443 (Some (ascii ''a'')) (Some (ascii ''/'')) (Some [0, 0, 0]) 3
      (Some (replicate 180 0)) 180 (0, [104, 105], {}) = Some (Returned kOSTLSFetch_OK (Some [104, 105, 0]) 2 m w (Some e))"
    using wire_fetch by blast
  have "unat (3 :: u32) \<le> length [0, 0, 0 :: byte]" by simp
  from fetch_delivers [OF wire_engine this r] have "prefix (wire_outp e) (fetch_request (ascii ''/'') (ascii ''a''))" 
    "[104, 105, 0] = take 2 (wire_inp e) @ drop 2 [0, 0, 0 :: byte]" "2 \<le> length (wire_inp e)" by auto
  then show "\<exists>m w e. OSTLS_Fetch (wire_env g) (Some (ascii ''a'')) 443 (Some (ascii ''a'')) (Some (ascii ''/'')) (Some [0, 0, 0]) 3
      (Some (replicate 180 0)) 180 (0, [104, 105], {}) = Some (Returned kOSTLSFetch_OK (Some [104, 105, 0]) 2 m w (Some e))
    \<and> take 2 (wire_inp e) = [104, 105] \<and> prefix (wire_outp e) (fetch_request (ascii ''/'') (ascii ''a''))"
    using r by (intro exI conjI) auto
qed

text \<open>C25: every call returns: the deadline, sixty seconds after the loop began, ends it, provided that the
  clock runs, that every call of Open Transport returns (here within 2^26 ticks, twelve days) and
  that the 32-bit tick count does not wrap, for which it has to stand below 2^30 at the start.\<close>

theorem fetch_returns:
  assumes "clock_laws mu K E" "mu w < K * 2 ^ 30"
  shows "\<exists>r. OSTLS_Fetch E host port sn path out cap msg mlen w = Some r"
proof (rule ccontr)
  have L: "lasts mu K x (snd (read_clock E x))" "lasts mu K x (snd (ot_create_configuration E x))" "lasts mu K x (snd (ot_open_endpoint E x))"
    "lasts mu K x (snd (ot_bind E ep x))" "lasts mu K x (snd (ot_connect E ep a x))" "lasts mu K x (snd (inject_entropy E e x))"
    "lasts mu K x (snd (tick_count E x))" "fst (tick_count E x) = word_of_nat (mu x div K)" for x ep a e
    using assms(1) unfolding clock_laws_def by (elim conjE; simp)+
  have K: "0 < K" using assms(1) by (simp add: clock_laws_def)
  assume n: "\<nexists>r. OSTLS_Fetch E host port sn path out cap msg mlen w = Some r"
  then have "OSTLS_Fetch E host port sn path out cap msg mlen w = None" by simp
  then show False
  proof (cases rule: fetch_cases)
    case (loop target ep w1 n pt days secs e w2 buf res)
    have "mu w1 \<le> mu (snd (read_clock E w)) + 4 * (K * 2 ^ 26)" by (rule connect_lasts [OF assms(1) loop(5)])
    then have "mu w1 \<le> mu w + 5 * (K * 2 ^ 26)" using L(1) [of w] by (simp add: lasts_def)
    moreover have "mu w2 \<le> mu w1 + K * 2 ^ 26" by (rule arm_lasts [OF assms(1) loop(6)])
    ultimately have b: "mu w2 < K * 2 ^ 30 + 6 * (K * 2 ^ 26)" using assms(2) by simp
    then have "mu w2 < K * (2 ^ 31 - 3600)" using K by simp
    then have "mu w2 div K < 2 ^ 31 - 3600" using K by (simp add: div_less_iff_less_mult mult.commute)
    then have d: "unat (fst (tick_count E w2) + 3600) < 2 ^ 31"
      by (simp add: L(8) unat_word_ariths unat_of_nat)
    have "mu (f_os (loop_start buf (snd (tick_count E w2)) e)) < K * 2 ^ 32"
      using b L(7) [of w2] K by (simp add: loop_start_def lasts_def)
    from loop_returns [OF assms(1) d this] loop(7) obtain v where "res = Some v" by metis
    moreover have "v \<noteq> Again s" for s
      using fetch_loop_inv [where I = "\<lambda>s. True", OF _ loop(7) [unfolded \<open>res = Some v\<close>]] by blast
    ultimately show False using loop(8) by (auto split: option.splits fetch_verdict.splits)
  qed simp_all
qed

theorem fetch_returns_witness:
  "\<forall>g. \<exists>r. OSTLS_Fetch (wire_env g) (Some (ascii ''a'')) 443 (Some (ascii ''a'')) (Some (ascii ''/'')) (Some [0, 0, 0]) 3
      None 0 (0, [104, 105], {}) = Some r"
  using fetch_returns [OF wire_clock, of "(0, [104, 105], {})"] by simp

text \<open>C26: whatever happens, on every path on which the call returns, the endpoint it opened is
  closed: the process holds the same endpoints as before.\<close>

theorem fetch_closes_endpoint:
  assumes "endpoint_laws opened E"
    "OSTLS_Fetch E host port sn path out cap msg mlen w = Some (Returned code out' n m w' eng)"
  shows "opened w' = opened w"
proof -
  have rc: "opened (snd (read_clock E x)) = opened x" "opened (snd (tick_count E x)) = opened x"
    "opened (ot_close_provider E ep x) = opened x - {ep}" for x ep
    using assms(1) unfolding endpoint_laws_def by (elim conjE; simp)+
  show ?thesis using assms(2)
  proof (cases rule: fetch_cases)
    case (connect m target code pre err w')
    then show ?thesis using connect_opened(1) [OF assms(1) connect(1)] rc(1) by simp
  next
    case (arm m target ep w1 n days secs code pre err w')
    then show ?thesis using connect_opened(2) [OF assms(1) arm(1)] arm_opened(1) [OF assms(1) arm(2)] rc(1) by simp
  next
    case (loop target ep w1 n pt days secs e w2 buf res)
    have o: "opened w2 = insert ep (opened w)" "ep \<notin> opened w"
      using connect_opened(2) [OF assms(1) loop(5)] arm_opened(2) [OF assms(1) loop(6)] rc(1) by simp_all
    obtain v where v: "res = Some v" using loop(8) by (cases res) simp_all
    from fetch_loop_inv [where I = "\<lambda>s. opened (f_os s) = opened w2", OF _ loop(7) [unfolded v]]
    have i: "opened (f_os (verdict_st v)) = opened w2"
      using step_opened [OF assms(1)] by (auto simp: loop_start_def rc)
    show ?thesis using loop(8) i o
      by (auto simp: v rc hang_up_opened [OF assms(1)] split: option.splits fetch_verdict.splits if_splits)
  qed (simp_all add: rc)
qed

theorem fetch_closes_endpoint_witness:
  "\<forall>g. \<exists>m w e. OSTLS_Fetch (wire_env g) (Some (ascii ''a'')) 443 (Some (ascii ''a'')) (Some (ascii ''/'')) (Some [0, 0, 0]) 3
      (Some (replicate 180 0)) 180 (0, [104, 105], {}) = Some (Returned kOSTLSFetch_OK (Some [104, 105, 0]) 2 m w (Some e))
    \<and> snd (snd w) = {}"
proof
  fix g
  obtain m w e where r: "OSTLS_Fetch (wire_env g) (Some (ascii ''a'')) 443 (Some (ascii ''a'')) (Some (ascii ''/'')) (Some [0, 0, 0]) 3
      (Some (replicate 180 0)) 180 (0, [104, 105], {}) = Some (Returned kOSTLSFetch_OK (Some [104, 105, 0]) 2 m w (Some e))"
    using wire_fetch by blast
  from fetch_closes_endpoint [OF wire_endpoint r] show "\<exists>m w e. OSTLS_Fetch (wire_env g) (Some (ascii ''a'')) 443 (Some (ascii ''a'')) (Some (ascii ''/'')) (Some [0, 0, 0]) 3
      (Some (replicate 180 0)) 180 (0, [104, 105], {}) = Some (Returned kOSTLSFetch_OK (Some [104, 105, 0]) 2 m w (Some e))
    \<and> snd (snd w) = {}" using r by (intro exI conjI) auto
qed

end
