(* ===== verification/Limbs.thy ===== *)
theory Limbs
  imports Chacha_Poly
begin

text \<open>
  Numbers as lists of digits, least significant first: the vocabulary in which the routines on limbs
  are stated (Poly1305, and the big integers of bearssl/src/int/).
\<close>

unbundle bit_operations_syntax

primrec val :: "nat \<Rightarrow> nat list \<Rightarrow> nat" where
  "val B [] = 0"
| "val B (x # xs) = x + B * val B xs"

lemma val_append: "val B (xs @ ys) = val B xs + B ^ length xs * val B ys"
  by (induction xs) (simp_all add: algebra_simps)

lemma val_zeros [simp]: "val B (replicate n 0) = 0"
  by (induction n) simp_all

lemma val_less: "(\<forall>x\<in>set xs. x < B) \<Longrightarrow> val B xs < B ^ length xs"
proof (induction xs)
  case (Cons x xs)
  then have "x < B" "val B xs + 1 \<le> B ^ length xs" by auto
  then have "x + B * val B xs < B * (val B xs + 1)" by simp
  also have "\<dots> \<le> B * B ^ length xs" using \<open>val B xs + 1 \<le> B ^ length xs\<close> by (intro mult_le_mono2)
  finally show ?case by simp
qed simp

lemma val_drop:
  assumes "\<forall>x\<in>set xs. x < B"
  shows "val B (drop n xs) = val B xs div B ^ n"
proof (cases "n \<le> length xs")
  case True
  have "\<forall>x\<in>set (take n xs). x < B" using assms by (meson in_set_takeD)
  then have "val B (take n xs) < B ^ n" using val_less [of "take n xs" B] True by simp
  moreover have "val B xs = val B (take n xs) + B ^ n * val B (drop n xs)"
    using val_append [of B "take n xs" "drop n xs"] True by simp
  moreover have "B ^ n \<noteq> 0" using calculation(1) by linarith
  ultimately show ?thesis by simp
next
  case False
  show ?thesis
  proof (cases "B = 0")
    case True
    then have "xs = []" using assms by (cases xs) auto
    then show ?thesis by simp
  next
    case b: False
    have "val B xs < B ^ length xs" by (rule val_less [OF assms])
    also have "\<dots> \<le> B ^ n" using False b by (intro power_increasing) simp_all
    finally show ?thesis using False by simp
  qed
qed

lemma val_take:
  assumes "\<forall>x\<in>set xs. x < B" "n \<le> length xs"
  shows "val B (take n xs) = val B xs mod B ^ n"
proof -
  have "\<forall>x\<in>set (take n xs). x < B" using assms(1) by (meson in_set_takeD)
  then have "val B (take n xs) < B ^ n" using val_less [of "take n xs" B] assms(2) by simp
  moreover have "val B xs = val B (take n xs) + B ^ n * val B (drop n xs)"
    using val_append [of B "take n xs" "drop n xs"] assms(2) by simp
  ultimately show ?thesis by simp
qed

lemma val_inject:
  assumes "val B xs = val B ys" "length xs = length ys" "\<forall>x\<in>set xs. x < B" "\<forall>x\<in>set ys. x < B"
  shows "xs = ys"
  using assms
proof (induction xs arbitrary: ys)
  case (Cons x xs)
  then obtain y ys' where y: "ys = y # ys'" by (cases ys) auto
  have b: "x < B" "y < B" and e: "x + B * val B xs = y + B * val B ys'" using Cons.prems by (auto simp: y)
  then have "x = y" by (metis mod_less mod_mult_self2)
  moreover from this e b have "val B xs = val B ys'" by simp
  ultimately show ?case using Cons by (simp add: y)
qed simp

section \<open>Bytes\<close>

text \<open>A byte string as a little-endian and as a big-endian number.\<close>

definition le_num :: "bytes \<Rightarrow> nat" where "le_num bs = val 256 (map unat bs)"
definition be_num :: "bytes \<Rightarrow> nat" where "be_num bs = val 256 (map unat (rev bs))"

lemma byte_digits [simp]: "\<forall>x\<in>set (map unat (bs :: bytes)). x < 256"
proof -
  have "unat x < 256" for x :: byte using unsigned_less [of x] by simp
  then show ?thesis by simp
qed

lemma le_num_simps [simp]: "le_num [] = 0" "le_num (b # bs) = unat b + 256 * le_num bs"
  by (simp_all add: le_num_def)

lemma le_num_append: "le_num (xs @ ys) = le_num xs + 256 ^ length xs * le_num ys"
  by (simp add: le_num_def val_append)

lemma le_num_zeros [simp]: "le_num (replicate n 0) = 0"
  by (simp add: le_num_def)

lemma le_num_less: "le_num bs < 256 ^ length bs"
  using val_less [OF byte_digits, of bs] by (simp add: le_num_def)

lemma le_num_drop: "le_num (drop n bs) = le_num bs div 256 ^ n"
  using val_drop [OF byte_digits, of n bs] by (simp add: le_num_def drop_map)

lemma le_num_take: "n \<le> length bs \<Longrightarrow> le_num (take n bs) = le_num bs mod 256 ^ n"
  using val_take [OF byte_digits, of n bs] by (simp add: le_num_def take_map)

lemma le_num_inject: "le_num xs = le_num ys \<Longrightarrow> length xs = length ys \<Longrightarrow> xs = ys"
  using val_inject [OF _ _ byte_digits byte_digits, of xs ys] unsigned_word_eqI
  by (simp add: le_num_def inj_map_eq_map [OF injI])

primrec le_bytes :: "nat \<Rightarrow> nat \<Rightarrow> bytes" where
  "le_bytes 0 n = []"
| "le_bytes (Suc k) n = word_of_nat n # le_bytes k (n div 256)"

lemma length_le_bytes [simp]: "length (le_bytes k n) = k"
  by (induction k arbitrary: n) simp_all

lemma le_bytes_map: "le_bytes k n = map (\<lambda>i. word_of_nat (n div 256 ^ i)) [0..<k]"
proof (induction k arbitrary: n)
  case (Suc k)
  have "[0..<Suc k] = 0 # map Suc [0..<k]" by (simp add: map_Suc_upt upt_conv_Cons del: upt_Suc)
  then show ?case using Suc by (simp add: comp_def div_mult2_eq del: upt_Suc)
qed simp

lemma le_num_le_bytes: "le_num (le_bytes k n) = n mod 256 ^ k"
proof (induction k arbitrary: n)
  case (Suc k)
  have "unat (word_of_nat n :: byte) = n mod 256" by (simp add: unat_of_nat)
  then show ?case using Suc by (simp add: mod_mult2_eq mult.commute)
qed simp

lemma le_bytes_mod: "le_bytes k (n mod 256 ^ k) = le_bytes k n"
  by (rule le_num_inject) (simp_all add: le_num_le_bytes)

lemma le_bytes_le_num: "length bs = k \<Longrightarrow> le_bytes k (le_num bs) = bs"
  by (rule le_num_inject) (use le_num_less [of bs] in \<open>simp_all add: le_num_le_bytes\<close>)

section \<open>Words\<close>

text \<open>Words as naturals, one operation each; sums and products under a bound.\<close>

named_theorems nat_of

lemma unat_mask [nat_of]: "unat (x AND mask n :: 'a :: len word) = unat x mod 2 ^ n"
  by (simp only: unsigned_take_bit_eq take_bit_eq_mod [of n "unat x"] take_bit_eq_mask [symmetric])

lemma unat_shift [nat_of]: "unat (drop_bit n x :: 'a :: len word) = unat x div 2 ^ n"
  by (simp only: unat_drop_bit_eq drop_bit_eq_div [of n "unat x"])

lemma unat_plus_small: "unat x + unat y < 2 ^ LENGTH('a) \<Longrightarrow> unat (x + y :: 'a :: len word) = unat x + unat y"
  by (simp add: unat_add_lem)

lemma unat_times_small: "unat x * unat y < 2 ^ LENGTH('a) \<Longrightarrow> unat (x * y :: 'a :: len word) = unat x * unat y"
  by (simp add: unat_mult_lem)

lemma unat_narrow: "unat (ucast (x :: u64) :: u32) = unat x mod 2 ^ 32"
  by (simp add: unsigned_ucast_eq take_bit_eq_mod)

lemma unat_widen: "unat (ucast (x :: u32) :: u64) = unat x"
proof -
  have "unat x < 2 ^ 32" using unsigned_less [of x, where ?'a = nat] by simp
  then show ?thesis by (simp add: unsigned_ucast_eq take_bit_eq_mod)
qed

lemma unat_mul64: "unat (mul64 x y) = unat x * unat y"
proof -
  have "unat x < 2 ^ 32" "unat y < 2 ^ 32"
    using unsigned_less [of x, where ?'a = nat] unsigned_less [of y, where ?'a = nat] by simp_all
  then have "unat x * unat y < 2 ^ 32 * 2 ^ 32" by (intro mult_strict_mono) simp_all
  then show ?thesis by (subst unat_times_small) (simp_all add: unat_widen)
qed

lemma unat_widen8: "unat (ucast (x :: byte) :: u32) = unat x"
proof -
  have "unat x < 2 ^ 8" using unsigned_less [of x, where ?'a = nat] by simp
  then show ?thesis by (simp add: unsigned_ucast_eq take_bit_eq_mod)
qed

lemma or_shift:
  assumes "unat x < 2 ^ k"
  shows "x OR push_bit k y = (x + push_bit k y :: 'a :: len word)"
proof -
  have "unat (take_bit k x) = unat x" using assms by (simp only: unsigned_take_bit_eq take_bit_eq_mod [of k "unat x"] mod_less)
  then have x: "take_bit k x = x" by (rule unsigned_word_eqI)
  have "take_bit k x AND push_bit k y = 0" by (rule bit_eqI) (auto simp: bit_simps)
  then show ?thesis by (simp add: x disjunctive_add_eq_or)
qed

lemma unat_push: "2 ^ k * unat y < 2 ^ LENGTH('a) \<Longrightarrow> unat (push_bit k y :: 'a :: len word) = 2 ^ k * unat y"
  by (simp only: unsigned_push_bit_eq take_bit_eq_mod push_bit_eq_mult [of k "unat y"] mult.commute [of "unat y"] mod_less)

lemma unat_or_shift:
  "unat x < 2 ^ k \<Longrightarrow> unat x + 2 ^ k * unat y < 2 ^ LENGTH('a)
   \<Longrightarrow> unat (x OR push_bit k y :: 'a :: len word) = unat x + 2 ^ k * unat y"
  by (simp add: or_shift unat_push unat_plus_small)

lemma unat_le32:
  "unat (ucast (a :: byte) OR push_bit 8 (ucast (b :: byte)) OR push_bit 16 (ucast (c :: byte)) OR push_bit 24 (ucast (d :: byte)) :: u32)
     = unat a + 256 * unat b + 65536 * unat c + 16777216 * unat d"
proof -
  have l: "unat x < 256" for x :: byte using unsigned_less [of x, where ?'a = nat] by simp
  have 1: "unat (ucast a OR push_bit 8 (ucast b) :: u32) = unat a + 256 * unat b"
    using l [of a] l [of b] by (subst unat_or_shift) (simp_all add: unat_widen8)
  have 2: "unat ((ucast a OR push_bit 8 (ucast b)) OR push_bit 16 (ucast c) :: u32) = unat a + 256 * unat b + 65536 * unat c"
    using l [of a] l [of b] l [of c] by (subst unat_or_shift) (simp_all add: unat_widen8 1)
  have "unat (((ucast a OR push_bit 8 (ucast b)) OR push_bit 16 (ucast c)) OR push_bit 24 (ucast d) :: u32)
      = unat a + 256 * unat b + 65536 * unat c + 16777216 * unat d"
    using l [of a] l [of b] l [of c] l [of d] by (subst unat_or_shift) (simp_all add: unat_widen8 2)
  then show ?thesis by (simp add: or.assoc)
qed

section \<open>Constant-time comparison\<close>

lemma bit_31_unat: "bit (x :: u32) 31 \<longleftrightarrow> 2 ^ 31 \<le> unat x"
proof -
  have "unat x < 2 ^ 32" using unsigned_less [of x, where ?'a = nat] by simp
  moreover have "bit (unat x) 31 = bit x 31" by (simp add: bit_unsigned_iff)
  moreover have "bit (unat x) 31 = odd (unat x div 2 ^ 31)" by (rule bit_iff_odd)
  moreover have "odd (k div 2 ^ 31) = (2 ^ 31 \<le> k)" if "k < 2 ^ 32" for k :: nat
  proof (cases "k < 2 ^ 31")
    case False
    then have "k div 2 ^ 31 = 1" using that by (intro div_nat_eqI) simp_all
    then show ?thesis using False by simp
  qed simp
  ultimately show ?thesis by blast
qed

lemma GT_ct_eq: "GT_ct x y = of_bool (y < x)"
proof -
  have u: "unat x < 2 ^ 32" "unat y < 2 ^ 32"
    using unsigned_less [of x, where ?'a = nat] unsigned_less [of y, where ?'a = nat] by simp_all
  have z: "unat (y - x) = (if unat x \<le> unat y then unat y - unat x else unat y + 2 ^ 32 - unat x)"
    using unat_sub_if' [of y x] by simp
  have "bit ((y - x) XOR ((x XOR y) AND (x XOR (y - x)))) 31 \<longleftrightarrow> unat y < unat x"
    using u unfolding bit_xor_iff bit_and_iff unfolding bit_31_unat z by auto
  then show ?thesis by (simp only: GT_ct_def Let_def drop_bit_31 word_less_nat_alt)
qed

end
