(* ===== verification/Poly1305.thy ===== *)
theory Poly1305
  imports Chacha_Poly Limbs
begin

text \<open>
  The arithmetic of bearssl/src/symcipher/poly1305_ctmul.c against RFC 8439: the limbs of the
  accumulator as a number modulo \<open>2 ^ 130 - 5\<close>. The block function computes the polynomial step of
  the RFC. The final carry propagation does not: a carry out of the top limb is added once to
  the bottom limb and not five times, so that the tag is wrong for the few messages whose
  polynomial value is small (\<open>poly1305_drops_factor\<close>).
\<close>

unbundle bit_operations_syntax

section \<open>RFC 8439\<close>

definition P1305 :: nat where "P1305 = 2 ^ 130 - 5"

definition rfc_clamp :: "bytes \<Rightarrow> nat" where
  "rfc_clamp pkey = le_num (take 16 pkey) AND 0x0ffffffc0ffffffc0ffffffc0fffffff"

fun rfc_blocks :: "nat \<Rightarrow> nat \<Rightarrow> bytes \<Rightarrow> nat" where
  "rfc_blocks r h [] = h"
| "rfc_blocks r h (b # bs) = rfc_blocks r ((h + le_num (take 16 (b # bs)) + 2 ^ (8 * length (take 16 (b # bs)))) * r mod P1305) (drop 15 bs)"

definition pad16 :: "bytes \<Rightarrow> bytes" where
  "pad16 bs = bs @ replicate ((16 - length bs mod 16) mod 16) 0"

text \<open>Section 2.8: the polynomial of the padded additional data, the padded text and the lengths.\<close>

definition rfc_poly :: "bytes \<Rightarrow> bytes \<Rightarrow> bytes \<Rightarrow> nat" where
  "rfc_poly pkey aad data =
     rfc_blocks (rfc_clamp pkey) 0
       (pad16 aad @ pad16 data @ le_bytes 8 (length aad) @ le_bytes 8 (length data))"

definition rfc_tag :: "bytes \<Rightarrow> nat \<Rightarrow> bytes" where
  "rfc_tag pkey h = le_bytes 16 (h + le_num (take 16 (drop 16 pkey)))"

section \<open>Limbs\<close>

fun limbs_val :: "limbs5 \<Rightarrow> nat" where
  "limbs_val (a0, a1, a2, a3, a4) = val (2 ^ 26) [unat a0, unat a1, unat a2, unat a3, unat a4]"

fun key_ok :: "limbs5 \<Rightarrow> bool" where
  "key_ok (a0, a1, a2, a3, a4) \<longleftrightarrow>
     unat a0 < 2 ^ 26 \<and> unat a1 < 2 ^ 26 \<and> unat a2 < 2 ^ 26 \<and> unat a3 < 2 ^ 26 \<and> unat a4 < 2 ^ 26"

fun acc_ok :: "limbs5 \<Rightarrow> bool" where
  "acc_ok (a0, a1, a2, a3, a4) \<longleftrightarrow>
     unat a0 < 2 ^ 26 \<and> unat a1 < 2 ^ 26 + 64 \<and> unat a2 < 2 ^ 26 \<and> unat a3 < 2 ^ 26 \<and> unat a4 < 2 ^ 26"

lemma masks: "(0x03FFFFFF :: u32) = mask 26" "(0x03FFFFFF :: u64) = mask 26" "(0x000FFFFF :: u32) = mask 20"
  by (simp_all add: mask_eq_exp_minus_1)

lemma unat_dec32le:
  assumes "i + 4 \<le> length b"
  shows "unat (br_dec32le b i) = le_num b div 256 ^ i mod 2 ^ 32"
proof -
  define f where "f k = byte_at b (i + k)" for k
  have t: "take 4 (drop i b) = [f 0, f 1, f 2, f 3]"
    using assms by (intro nth_equalityI) (auto simp: f_def byte_at_def nth_Cons numeral_eq_Suc less_Suc_eq split: nat.split)
  have "le_num b div 256 ^ i mod 2 ^ 32 = le_num (take 4 (drop i b))"
    using assms le_num_take [of 4 "drop i b"] by (simp add: le_num_drop)
  also have "\<dots> = unat (f 0) + 256 * unat (f 1) + 256 ^ 2 * unat (f 2) + 256 ^ 3 * unat (f 3)" by (simp add: t)
  finally have e: "le_num b div 256 ^ i mod 2 ^ 32 = unat (f 0) + 256 * unat (f 1) + 256 ^ 2 * unat (f 2) + 256 ^ 3 * unat (f 3)" .
  then show ?thesis by (simp add: br_dec32le_def unat_le32 f_def)
qed

text \<open>Fields of a number.\<close>

lemma field_mod: "j + n \<le> m \<Longrightarrow> (x :: nat) mod 2 ^ m div 2 ^ j mod 2 ^ n = x div 2 ^ j mod 2 ^ n"
  by (simp only: drop_bit_eq_div [symmetric] take_bit_eq_mod [symmetric])
     (rule bit_eqI, auto simp: bit_simps)

lemma field_div: "(x :: nat) div 2 ^ m div 2 ^ j = x div 2 ^ (m + j)"
  by (simp add: div_mult2_eq power_add)

lemma five_digits:
  "val (2 ^ 26) [x mod 2 ^ 26, x div 2 ^ 26 mod 2 ^ 26, x div 2 ^ 52 mod 2 ^ 26, x div 2 ^ 78 mod 2 ^ 26, x div 2 ^ 104] = x"
proof -
  have e: "y = y mod 2 ^ 26 + 2 ^ 26 * (y div 2 ^ 26)" for y :: nat by simp
  have d: "x div 2 ^ 52 = x div 2 ^ 26 div 2 ^ 26" "x div 2 ^ 78 = x div 2 ^ 52 div 2 ^ 26" "x div 2 ^ 104 = x div 2 ^ 78 div 2 ^ 26"
    by (simp_all only: field_div) simp_all
  show ?thesis
    using e [of x] e [of "x div 2 ^ 26"] e [of "x div 2 ^ 52"] e [of "x div 2 ^ 78"] unfolding d by simp
qed

lemma message_limbs:
  assumes "length buf = 16"
  shows "unat (br_dec32le buf 0 AND 0x03FFFFFF) = le_num buf mod 2 ^ 26"
    "unat (drop_bit 2 (br_dec32le buf 3) AND 0x03FFFFFF) = le_num buf div 2 ^ 26 mod 2 ^ 26"
    "unat (drop_bit 4 (br_dec32le buf 6) AND 0x03FFFFFF) = le_num buf div 2 ^ 52 mod 2 ^ 26"
    "unat (drop_bit 6 (br_dec32le buf 9) AND 0x03FFFFFF) = le_num buf div 2 ^ 78 mod 2 ^ 26"
    "unat (drop_bit 8 (br_dec32le buf 12) OR 0x01000000) = le_num buf div 2 ^ 104 + 2 ^ 24"
    "le_num buf div 2 ^ 104 < 2 ^ 24"
proof -
  have l: "le_num buf < 2 ^ 128" using le_num_less [of buf] assms by simp
  have u: "unat (br_dec32le buf i) = le_num buf div 2 ^ (8 * i) mod 2 ^ 32" if "i \<le> 12" for i
    using that assms by (simp add: unat_dec32le power_mult)
  have f: "le_num buf div 2 ^ m mod 2 ^ 32 div 2 ^ j mod 2 ^ 26 = le_num buf div 2 ^ (m + j) mod 2 ^ 26" if "j \<le> 6" for m j
    using that by (simp only: field_mod field_div)
  show "unat (br_dec32le buf 0 AND 0x03FFFFFF) = le_num buf mod 2 ^ 26"
    using f [of 0 0] by (simp add: masks unat_mask u)
  show "unat (drop_bit 2 (br_dec32le buf 3) AND 0x03FFFFFF) = le_num buf div 2 ^ 26 mod 2 ^ 26"
    using f [of 2 24] by (simp only: masks unat_mask unat_shift u) simp
  show "unat (drop_bit 4 (br_dec32le buf 6) AND 0x03FFFFFF) = le_num buf div 2 ^ 52 mod 2 ^ 26"
    using f [of 4 48] by (simp only: masks unat_mask unat_shift u) simp
  show "unat (drop_bit 6 (br_dec32le buf 9) AND 0x03FFFFFF) = le_num buf div 2 ^ 78 mod 2 ^ 26"
    using f [of 6 72] by (simp only: masks unat_mask unat_shift u) simp
  show h: "le_num buf div 2 ^ 104 < 2 ^ 24" using l by (simp add: less_mult_imp_div_less)
  have "le_num buf div 2 ^ 96 < 2 ^ 32" using l by (simp add: less_mult_imp_div_less)
  then have "unat (drop_bit 8 (br_dec32le buf 12)) = le_num buf div 2 ^ 104"
    using u [of 12] field_div [of "le_num buf" 96 8] by (simp only: unat_shift) simp
  then show "unat (drop_bit 8 (br_dec32le buf 12) OR 0x01000000) = le_num buf div 2 ^ 104 + 2 ^ 24"
    using unat_or_shift [of "drop_bit 8 (br_dec32le buf 12)" 24 1] h by simp
qed

lemma message_digits:
  assumes "length buf = 16"
  obtains d0 d1 d2 d3 d4 where "unat (br_dec32le buf 0 AND 0x03FFFFFF) = d0" "unat (drop_bit 2 (br_dec32le buf 3) AND 0x03FFFFFF) = d1"
    "unat (drop_bit 4 (br_dec32le buf 6) AND 0x03FFFFFF) = d2" "unat (drop_bit 6 (br_dec32le buf 9) AND 0x03FFFFFF) = d3"
    "unat (drop_bit 8 (br_dec32le buf 12) OR 0x01000000) = d4"
    "d0 < 2 ^ 26" "d1 < 2 ^ 26" "d2 < 2 ^ 26" "d3 < 2 ^ 26" "d4 < 2 ^ 26" "val (2 ^ 26) [d0, d1, d2, d3, d4] = le_num buf + 2 ^ 128"
proof -
  note M = message_limbs [OF assms]
  have "val (2 ^ 26) [a, b, c, d, e + 2 ^ 24] = val (2 ^ 26) [a, b, c, d, e] + 2 ^ 128" for a b c d e
    by simp
  note v = this [of "le_num buf mod 2 ^ 26" "le_num buf div 2 ^ 26 mod 2 ^ 26" "le_num buf div 2 ^ 52 mod 2 ^ 26"
      "le_num buf div 2 ^ 78 mod 2 ^ 26" "le_num buf div 2 ^ 104", unfolded five_digits]
  have lt: "x mod 2 ^ 26 < 2 ^ 26" for x :: nat by simp
  have "e < 2 ^ 24 \<Longrightarrow> e + 2 ^ 24 < 2 ^ 26" for e :: nat by simp
  from this [OF M(6)] show thesis by (rule that [OF M(1-5) lt lt lt lt _ v])
qed

section \<open>The block function\<close>

text \<open>Products over \<open>2 ^ 130 = 5\<close>, and the chain of carries.\<close>

lemma limb_product:
  "val (2 ^ 26) [a0, a1, a2, a3, a4] * val (2 ^ 26) [r0, r1, r2, r3, r4]
   = val (2 ^ 26)
       [a0 * r0 + a1 * (5 * r4) + a2 * (5 * r3) + a3 * (5 * r2) + a4 * (5 * r1),
        a0 * r1 + a1 * r0 + a2 * (5 * r4) + a3 * (5 * r3) + a4 * (5 * r2),
        a0 * r2 + a1 * r1 + a2 * r0 + a3 * (5 * r4) + a4 * (5 * r3),
        a0 * r3 + a1 * r2 + a2 * r1 + a3 * r0 + a4 * (5 * r4),
        a0 * r4 + a1 * r3 + a2 * r2 + a3 * r1 + a4 * r0]
     + P1305 * val (2 ^ 26) [a1 * r4 + a2 * r3 + a3 * r2 + a4 * r1, a2 * r4 + a3 * r3 + a4 * r2, a3 * r4 + a4 * r3, a4 * r4]"
  by (simp add: P1305_def algebra_simps)

lemma carry_chain:
  fixes w0 w1 w2 w3 w4 :: nat
  defines "x1 \<equiv> w1 + w0 div 2 ^ 26"
  defines "x2 \<equiv> w2 + x1 div 2 ^ 26"
  defines "x3 \<equiv> w3 + x2 div 2 ^ 26"
  defines "x4 \<equiv> w4 + x3 div 2 ^ 26"
  defines "z \<equiv> w0 mod 2 ^ 26 + 5 * (x4 div 2 ^ 26)"
  shows "val (2 ^ 26) [z mod 2 ^ 26, x1 mod 2 ^ 26 + z div 2 ^ 26, x2 mod 2 ^ 26, x3 mod 2 ^ 26, x4 mod 2 ^ 26]
      + P1305 * (x4 div 2 ^ 26) = val (2 ^ 26) [w0, w1, w2, w3, w4]"
proof -
  have e: "\<exists>d c. y mod 2 ^ 26 = d \<and> y div 2 ^ 26 = c \<and> y = d + 2 ^ 26 * c" for y :: nat by simp
  obtain d0 c0 where 0: "w0 mod 2 ^ 26 = d0" "w0 div 2 ^ 26 = c0" "w0 = d0 + 2 ^ 26 * c0" using e [of w0] by blast
  obtain d1 c1 where 1: "x1 mod 2 ^ 26 = d1" "x1 div 2 ^ 26 = c1" "x1 = d1 + 2 ^ 26 * c1" using e [of x1] by blast
  obtain d2 c2 where 2: "x2 mod 2 ^ 26 = d2" "x2 div 2 ^ 26 = c2" "x2 = d2 + 2 ^ 26 * c2" using e [of x2] by blast
  obtain d3 c3 where 3: "x3 mod 2 ^ 26 = d3" "x3 div 2 ^ 26 = c3" "x3 = d3 + 2 ^ 26 * c3" using e [of x3] by blast
  obtain d4 c4 where 4: "x4 mod 2 ^ 26 = d4" "x4 div 2 ^ 26 = c4" "x4 = d4 + 2 ^ 26 * c4" using e [of x4] by blast
  obtain d5 c5 where 5: "z mod 2 ^ 26 = d5" "z div 2 ^ 26 = c5" "z = d5 + 2 ^ 26 * c5" using e [of z] by blast
  note x = x1_def x2_def x3_def x4_def z_def
  note x [unfolded 0(1,2) 1(1,2) 2(1,2) 3(1,2) 4(1,2) 5(1,2)]
  with 0(3) 1(3) 2(3) 3(3) 4(3) 5(3) show ?thesis
    unfolding 0(1,2) 1(1,2) 2(1,2) 3(1,2) 4(1,2) 5(1,2) val.simps P1305_def by simp
qed

lemma unat_sum5:
  fixes p q r s t :: u64
  assumes "unat p \<le> 2 ^ 60" "unat q \<le> 2 ^ 60" "unat r \<le> 2 ^ 60" "unat s \<le> 2 ^ 60" "unat t \<le> 2 ^ 60"
  shows "unat (p + q + r + s + t) = unat p + unat q + unat r + unat s + unat t"
proof -
  have 1: "unat (p + q) = unat p + unat q" using assms by (intro unat_plus_small) simp
  have 2: "unat (p + q + r) = unat p + unat q + unat r" using assms 1 by (subst unat_plus_small) simp_all
  have 3: "unat (p + q + r + s) = unat p + unat q + unat r + unat s" using assms 2 by (subst unat_plus_small) simp_all
  show ?thesis using assms 3 by (subst unat_plus_small) simp_all
qed

text \<open>One limb of the product: at most \<open>2 ^ 57 \<cdot> 5\<close>.\<close>

lemma unat_row:
  assumes "unat a0 \<le> 2 ^ 28" "unat a1 \<le> 2 ^ 28" "unat a2 \<le> 2 ^ 28" "unat a3 \<le> 2 ^ 28" "unat a4 \<le> 2 ^ 28"
    "unat r0 \<le> 5 * 2 ^ 26" "unat r1 \<le> 5 * 2 ^ 26" "unat r2 \<le> 5 * 2 ^ 26" "unat r3 \<le> 5 * 2 ^ 26" "unat r4 \<le> 5 * 2 ^ 26"
  shows "unat (mul64 a0 r0 + mul64 a1 r1 + mul64 a2 r2 + mul64 a3 r3 + mul64 a4 r4)
      = unat a0 * unat r0 + unat a1 * unat r1 + unat a2 * unat r2 + unat a3 * unat r3 + unat a4 * unat r4"
    "unat a0 * unat r0 + unat a1 * unat r1 + unat a2 * unat r2 + unat a3 * unat r3 + unat a4 * unat r4 \<le> 2 ^ 60"
proof -
  have m: "unat a * unat r \<le> 5 * 2 ^ 54" if "unat a \<le> 2 ^ 28" "unat r \<le> 5 * 2 ^ 26" for a r :: u32
    using mult_le_mono [OF that] by simp
  note b = m [OF assms(1,6)] m [OF assms(2,7)] m [OF assms(3,8)] m [OF assms(4,9)] m [OF assms(5,10)]
  show "unat (mul64 a0 r0 + mul64 a1 r1 + mul64 a2 r2 + mul64 a3 r3 + mul64 a4 r4)
      = unat a0 * unat r0 + unat a1 * unat r1 + unat a2 * unat r2 + unat a3 * unat r3 + unat a4 * unat r4"
    using b by (subst unat_sum5) (simp_all add: unat_mul64)
  show "unat a0 * unat r0 + unat a1 * unat r1 + unat a2 * unat r2 + unat a3 * unat r3 + unat a4 * unat r4 \<le> 2 ^ 60"
    using b by simp
qed

lemma unat_low26: "unat (ucast (w :: u64) AND 0x3FFFFFF :: u32) = unat w mod 2 ^ 26"
  by (simp only: masks unat_mask unat_narrow) (simp add: mod_mod_cancel)

lemma unat_add_carry:
  fixes w c :: u64
  assumes "unat w \<le> 2 ^ 60" "unat c \<le> 2 ^ 61"
  shows "unat (w + drop_bit 26 c) = unat w + unat c div 2 ^ 26" "unat w + unat c div 2 ^ 26 \<le> 2 ^ 61"
proof -
  have "unat c div 2 ^ 26 \<le> 2 ^ 35" using div_le_mono [OF assms(2), of "2 ^ 26"] by simp
  then show "unat w + unat c div 2 ^ 26 \<le> 2 ^ 61" using assms by simp
  then show "unat (w + drop_bit 26 c) = unat w + unat c div 2 ^ 26"
    by (subst unat_plus_small) (simp_all add: unat_shift)
qed

lemma unat_add26: "unat (x :: u32) < 2 ^ 26 + 64 \<Longrightarrow> unat y = n \<Longrightarrow> n < 2 ^ 26 \<Longrightarrow> unat (x + y) = unat x + n"
  by (subst unat_plus_small) simp_all

lemma less_26: "(2 :: nat) ^ 26 < 2 ^ 26 + 64"
  by simp

lemma block_val:
  assumes r: "key_ok r" and a: "acc_ok a" and l: "length buf = 16"
  shows "acc_ok (poly1305_block r buf a)"
    "limbs_val (poly1305_block r buf a) mod P1305 = (limbs_val a + le_num buf + 2 ^ 128) * limbs_val r mod P1305"
proof -
  obtain r0 r1 r2 r3 r4 where R: "r = (r0, r1, r2, r3, r4)" by (metis prod.collapse)
  obtain a0 a1 a2 a3 a4 where A: "a = (a0, a1, a2, a3, a4)" by (metis prod.collapse)
  note rb = r [unfolded R key_ok.simps]
  note ab = a [unfolded A acc_ok.simps]
  note M = message_limbs [OF l]
  define u1 u2 u3 u4 where "u1 = r1 * 5" and "u2 = r2 * 5" and "u3 = r3 * 5" and "u4 = r4 * 5"
  have u: "unat u1 = 5 * unat r1" "unat u2 = 5 * unat r2" "unat u3 = 5 * unat r3" "unat u4 = 5 * unat r4"
    using rb unfolding u1_def u2_def u3_def u4_def by (simp_all add: unat_times_small)
  define b0 b1 b2 b3 b4 where "b0 = a0 + (br_dec32le buf 0 AND 0x03FFFFFF)" and "b1 = a1 + (drop_bit 2 (br_dec32le buf 3) AND 0x03FFFFFF)"
    and "b2 = a2 + (drop_bit 4 (br_dec32le buf 6) AND 0x03FFFFFF)" and "b3 = a3 + (drop_bit 6 (br_dec32le buf 9) AND 0x03FFFFFF)"
    and "b4 = a4 + (drop_bit 8 (br_dec32le buf 12) OR 0x01000000)"
  obtain d0 d1 d2 d3 d4 where D: "unat (br_dec32le buf 0 AND 0x03FFFFFF) = d0" "unat (drop_bit 2 (br_dec32le buf 3) AND 0x03FFFFFF) = d1"
    "unat (drop_bit 4 (br_dec32le buf 6) AND 0x03FFFFFF) = d2" "unat (drop_bit 6 (br_dec32le buf 9) AND 0x03FFFFFF) = d3"
    "unat (drop_bit 8 (br_dec32le buf 12) OR 0x01000000) = d4" and dl: "d0 < 2 ^ 26" "d1 < 2 ^ 26" "d2 < 2 ^ 26" "d3 < 2 ^ 26" "d4 < 2 ^ 26"
    and dv: "val (2 ^ 26) [d0, d1, d2, d3, d4] = le_num buf + 2 ^ 128" using message_digits [OF l] .
  have lt: "x mod 2 ^ 26 < 2 ^ 26" for x :: nat by simp
  have b: "unat b0 = unat a0 + d0" "unat b1 = unat a1 + d1" "unat b2 = unat a2 + d2" "unat b3 = unat a3 + d3" "unat b4 = unat a4 + d4"
    unfolding b0_def b1_def b2_def b3_def b4_def
    using ab by (simp_all only: unat_add26 [OF _ D(1) dl(1)] unat_add26 [OF _ D(2) dl(2)] unat_add26 [OF _ D(3) dl(3)]
        unat_add26 [OF _ D(4) dl(4)] unat_add26 [OF _ D(5) dl(5)] less_trans [OF _ less_26])
  have bb: "unat b0 \<le> 2 ^ 27 + 64" "unat b1 \<le> 2 ^ 27 + 64" "unat b2 \<le> 2 ^ 27 + 64" "unat b3 \<le> 2 ^ 27 + 64" "unat b4 \<le> 2 ^ 27 + 64"
    using ab dl unfolding b by simp_all
  have b28: "unat b0 \<le> 2 ^ 28" "unat b1 \<le> 2 ^ 28" "unat b2 \<le> 2 ^ 28" "unat b3 \<le> 2 ^ 28" "unat b4 \<le> 2 ^ 28" using bb by simp_all
  have rr: "unat r0 \<le> 5 * 2 ^ 26" "unat r1 \<le> 5 * 2 ^ 26" "unat r2 \<le> 5 * 2 ^ 26" "unat r3 \<le> 5 * 2 ^ 26" "unat r4 \<le> 5 * 2 ^ 26"
    "unat u1 \<le> 5 * 2 ^ 26" "unat u2 \<le> 5 * 2 ^ 26" "unat u3 \<le> 5 * 2 ^ 26" "unat u4 \<le> 5 * 2 ^ 26" using rb u by simp_all
  note w = b28 rr
  define w0 w1 w2 w3 w4 where
        "w0 = mul64 b0 r0 + mul64 b1 u4 + mul64 b2 u3 + mul64 b3 u2 + mul64 b4 u1"
    and "w1 = mul64 b0 r1 + mul64 b1 r0 + mul64 b2 u4 + mul64 b3 u3 + mul64 b4 u2"
    and "w2 = mul64 b0 r2 + mul64 b1 r1 + mul64 b2 r0 + mul64 b3 u4 + mul64 b4 u3"
    and "w3 = mul64 b0 r3 + mul64 b1 r2 + mul64 b2 r1 + mul64 b3 r0 + mul64 b4 u4"
    and "w4 = mul64 b0 r4 + mul64 b1 r3 + mul64 b2 r2 + mul64 b3 r1 + mul64 b4 r0"
  define x1 x2 x3 x4 where "x1 = w1 + drop_bit 26 w0" and "x2 = w2 + drop_bit 26 x1" and "x3 = w3 + drop_bit 26 x2" and "x4 = w4 + drop_bit 26 x3"
  define z where "z = (ucast w0 AND 0x3FFFFFF) + ucast (drop_bit 26 x4) * (5 :: u32)"
  have blk: "poly1305_block r buf a = (z AND 0x3FFFFFF, (ucast x1 AND 0x3FFFFFF) + drop_bit 26 z, ucast x2 AND 0x3FFFFFF,
      ucast x3 AND 0x3FFFFFF, ucast x4 AND 0x3FFFFFF)"
    unfolding poly1305_block_def R A prod.case Let_def b0_def b1_def b2_def b3_def b4_def u1_def u2_def u3_def u4_def
      w0_def w1_def w2_def w3_def w4_def x1_def x2_def x3_def x4_def z_def ..
  note W0 = unat_row [OF w(1-5) w(6) w(14) w(13) w(12) w(11), folded w0_def]
  note W1 = unat_row [OF w(1-5) w(7) w(6) w(14) w(13) w(12), folded w1_def]
  note W2 = unat_row [OF w(1-5) w(8) w(7) w(6) w(14) w(13), folded w2_def]
  note W3 = unat_row [OF w(1-5) w(9) w(8) w(7) w(6) w(14), folded w3_def]
  note W4 = unat_row [OF w(1-5) w(10) w(9) w(8) w(7) w(6), folded w4_def]
  have wb: "unat w0 \<le> 2 ^ 60" "unat w1 \<le> 2 ^ 60" "unat w2 \<le> 2 ^ 60" "unat w3 \<le> 2 ^ 60" "unat w4 \<le> 2 ^ 60"
    using W0 W1 W2 W3 W4 by simp_all
  have "unat w0 \<le> 2 ^ 61" using wb by simp
  note X1 = unat_add_carry [OF wb(2) this, folded x1_def]
  note X2 = unat_add_carry [OF wb(3) X1(2) [folded X1(1)], folded x2_def]
  note X3 = unat_add_carry [OF wb(4) X2(2) [folded X2(1)], folded x3_def]
  note X4 = unat_add_carry [OF wb(5) X3(2) [folded X3(1)], folded x4_def]
  have "unat b * unat r \<le> (2 ^ 27 + 64) * 2 ^ 26" if "unat b \<le> 2 ^ 27 + 64" "unat r < 2 ^ 26" for b r :: u32
    using that by (intro mult_le_mono) simp_all
  from this [of b0 r4] this [of b1 r3] this [of b2 r2] this [of b3 r1] this [of b4 r0]
  have "unat w4 \<le> 5 * ((2 ^ 27 + 64) * 2 ^ 26)" unfolding W4(1) using bb rb by simp
  moreover have "unat x3 div 2 ^ 26 \<le> 2 ^ 35" using div_le_mono [OF X3(2) [folded X3(1)], of "2 ^ 26"] by simp
  ultimately have "unat x4 \<le> 5 * ((2 ^ 27 + 64) * 2 ^ 26) + 2 ^ 35" unfolding X4(1) by simp
  from div_le_mono [OF this, of "2 ^ 26"] have c4: "unat x4 div 2 ^ 26 \<le> 671090000" by simp
  then have c: "unat (ucast (drop_bit 26 x4) :: u32) = unat x4 div 2 ^ 26" by (simp add: unat_narrow unat_shift)
  have c5: "unat (ucast (drop_bit 26 x4) * 5 :: u32) = 5 * (unat x4 div 2 ^ 26)" using c4 by (subst unat_times_small) (simp_all add: c)
  have z: "unat z = unat w0 mod 2 ^ 26 + 5 * (unat x4 div 2 ^ 26)"
    unfolding z_def using c4 lt [of "unat w0"] by (subst unat_plus_small) (simp_all add: c5 unat_low26)
  have "k < 2 ^ 26 \<Longrightarrow> n \<le> 671090000 \<Longrightarrow> k + 5 * n < 64 * 2 ^ 26" for k n :: nat by simp
  from this [OF lt c4] have "unat z < 64 * 2 ^ 26" unfolding z .
  then have zc: "unat z div 2 ^ 26 < 64" by (rule less_mult_imp_div_less)
  have o1: "unat ((ucast x1 AND 0x3FFFFFF) + drop_bit 26 z) = unat x1 mod 2 ^ 26 + unat z div 2 ^ 26"
    using zc lt [of "unat x1"] by (subst unat_plus_small) (simp_all add: unat_low26 unat_shift)
  have o0: "unat (z AND 0x3FFFFFF) = unat z mod 2 ^ 26" by (simp only: masks unat_mask)
  show "acc_ok (poly1305_block r buf a)"
    unfolding blk acc_ok.simps o1 o0 unat_low26 using zc lt [of "unat x1"] by simp
  have v: "limbs_val (poly1305_block r buf a) + P1305 * (unat x4 div 2 ^ 26) = val (2 ^ 26) [unat w0, unat w1, unat w2, unat w3, unat w4]"
    unfolding blk limbs_val.simps o1 o0 unat_low26
    using carry_chain [where ?w0.0 = "unat w0" and ?w1.0 = "unat w1" and ?w2.0 = "unat w2" and ?w3.0 = "unat w3" and ?w4.0 = "unat w4", folded X1(1), folded X2(1), folded X3(1), folded X4(1), folded z] .
  have s: "val (2 ^ 26) [unat b0, unat b1, unat b2, unat b3, unat b4] = limbs_val a + le_num buf + 2 ^ 128"
    using dv unfolding A limbs_val.simps b val.simps by simp
  have "(limbs_val a + le_num buf + 2 ^ 128) * limbs_val r = val (2 ^ 26) [unat w0, unat w1, unat w2, unat w3, unat w4]
      + P1305 * val (2 ^ 26) [unat b1 * unat r4 + unat b2 * unat r3 + unat b3 * unat r2 + unat b4 * unat r1,
          unat b2 * unat r4 + unat b3 * unat r3 + unat b4 * unat r2, unat b3 * unat r4 + unat b4 * unat r3, unat b4 * unat r4]"
    unfolding s [symmetric] R limbs_val.simps limb_product W0(1) W1(1) W2(1) W3(1) W4(1) u ..
  then have "(limbs_val a + le_num buf + 2 ^ 128) * limbs_val r = limbs_val (poly1305_block r buf a) + P1305 * ((unat x4 div 2 ^ 26)
      + val (2 ^ 26) [unat b1 * unat r4 + unat b2 * unat r3 + unat b3 * unat r2 + unat b4 * unat r1,
          unat b2 * unat r4 + unat b3 * unat r3 + unat b4 * unat r2, unat b3 * unat r4 + unat b4 * unat r3, unat b4 * unat r4])"
    unfolding v [symmetric] by (simp only: distrib_left add.assoc)
  then show "limbs_val (poly1305_block r buf a) mod P1305 = (limbs_val a + le_num buf + 2 ^ 128) * limbs_val r mod P1305"
    by simp
qed

text \<open>The loop over a buffer is the polynomial of the padded buffer.\<close>

lemma rfc_blocks_step:
  "length blk = 16 \<Longrightarrow> rfc_blocks r h (blk @ rest) = rfc_blocks r ((h + le_num blk + 2 ^ 128) * r mod P1305) rest"
  by (cases blk) simp_all

lemma rfc_blocks_append: "length xs mod 16 = 0 \<Longrightarrow> rfc_blocks r h (xs @ ys) = rfc_blocks r (rfc_blocks r h xs) ys"
proof (induction "length xs" arbitrary: xs h rule: less_induct)
  case less
  show ?case
  proof (cases "xs = []")
    case False
    then have l: "16 \<le> length xs" using less.prems by (cases "length xs < 16") auto
    then have b: "length (take 16 xs) = 16" by simp
    have "length (drop 16 xs) mod 16 = 0" using less.prems l by (simp add: le_mod_geq)
    then have "rfc_blocks r h' (drop 16 xs @ ys) = rfc_blocks r (rfc_blocks r h' (drop 16 xs)) ys" for h'
      using less.hyps [of "drop 16 xs"] l by simp
    then show ?thesis
      using rfc_blocks_step [OF b, of r h "drop 16 xs @ ys"] rfc_blocks_step [OF b, of r h "drop 16 xs"]
      by (simp add: append.assoc [symmetric] del: append.assoc)
  qed simp
qed

lemma pad16_simps:
  "pad16 [] = []"
  "0 < length xs \<Longrightarrow> length xs < 16 \<Longrightarrow> pad16 xs = xs @ replicate (16 - length xs) 0"
  "16 \<le> length xs \<Longrightarrow> pad16 xs = take 16 xs @ pad16 (drop 16 xs)"
  "length (pad16 xs) mod 16 = 0"
proof -
  show "16 \<le> length xs \<Longrightarrow> pad16 xs = take 16 xs @ pad16 (drop 16 xs)"
    by (simp add: pad16_def le_mod_geq)
  have "(k + (16 - k mod 16) mod 16) mod 16 = 0" for k :: nat
  proof (cases "k mod 16 = 0")
    case False
    obtain q r where "k div 16 = q" "k mod 16 = r" "k = 16 * q + r" "r < 16" by (metis mult_div_mod_eq mod_less_divisor zero_less_numeral)
    then have "k + (16 - k mod 16) = 16 * (k div 16 + 1)" by simp
    then show ?thesis using False by simp
  qed simp
  then show "length (pad16 xs) mod 16 = 0" by (simp add: pad16_def)
qed (simp_all add: pad16_def)

lemma mod_absorb: "((x :: nat) mod p + c) * r mod p = (x + c) * r mod p"
  by (metis mod_add_left_eq mod_mult_left_eq)

lemma inner_val:
  assumes "key_ok r" "acc_ok a"
  shows "acc_ok (poly1305_inner r a data)
    \<and> limbs_val (poly1305_inner r a data) mod P1305 = rfc_blocks (limbs_val r) (limbs_val a mod P1305) (pad16 data)"
  using assms
proof (induction r a data rule: poly1305_inner.induct)
  case (1 r a data)
  have step: "acc_ok (poly1305_block r blk a) \<and> limbs_val (poly1305_block r blk a) mod P1305
      = (limbs_val a mod P1305 + le_num blk + 2 ^ 128) * limbs_val r mod P1305" if "length blk = 16" for blk
    using block_val [OF "1.prems" that] unfolding add.assoc mod_absorb by (rule conjI)
  consider "data = []" | "data \<noteq> []" "length data < 16" | "16 \<le> length data" by linarith
  then show ?case
  proof cases
    case 1
    then show ?thesis using "1.prems" by (simp add: poly1305_inner.simps pad16_simps)
  next
    case 2
    have e: "poly1305_inner r a data = poly1305_block r (pad16 data) a"
      using 2 by (simp add: poly1305_inner.simps [of r a data] pad16_simps)
    have l: "length (pad16 data) = 16" using 2 by (simp add: pad16_simps)
    show ?thesis using step [OF l] rfc_blocks_step [OF l, of _ _ "[]"] by (simp add: e)
  next
    case 3
    then have n: "data \<noteq> []" "\<not> length data < 16" by auto
    have l: "length (take 16 data) = 16" using 3 by simp
    have e: "poly1305_inner r a data = poly1305_inner r (poly1305_block r (take 16 data) a) (drop 16 data)"
      using n by (simp add: poly1305_inner.simps [of r a data])
    show ?thesis
      using "1.IH" [OF n "1.prems"(1)] step [OF l] by (simp add: e pad16_simps(3) [OF 3] rfc_blocks_step [OF l])
  qed
qed

section \<open>The key\<close>

lemma dec32le_take: "i + 4 \<le> n \<Longrightarrow> n \<le> length b \<Longrightarrow> br_dec32le (take n b) i = br_dec32le b i"
  by (simp add: br_dec32le_def byte_at_def)

lemma field_and:
  "(x AND y :: nat) mod 2 ^ n = (x mod 2 ^ n) AND (y mod 2 ^ n)"
  "(x AND y :: nat) div 2 ^ m = (x div 2 ^ m) AND (y div 2 ^ m)"
  by (simp_all only: take_bit_eq_mod [symmetric] drop_bit_eq_div [symmetric] take_bit_and drop_bit_and)

lemma and_narrow: "y < 2 ^ n \<Longrightarrow> (x AND y :: nat) = (x mod 2 ^ n) AND y"
proof -
  assume "y < 2 ^ n"
  then have y: "take_bit n y = y" by (simp add: take_bit_eq_mod)
  have "x AND take_bit n y = take_bit n x AND take_bit n y" by (rule bit_eqI) (auto simp: bit_simps)
  then show ?thesis unfolding y unfolding take_bit_eq_mod .
qed

lemma clamp_val:
  assumes "length pkey = 32"
  shows "key_ok (poly1305_clamp pkey)" "limbs_val (poly1305_clamp pkey) = rfc_clamp pkey"
proof -
  define k where "k = le_num (take 16 pkey)"
  define mask :: nat where "mask = 0x0ffffffc0ffffffc0ffffffc0fffffff"
  have u: "unat (br_dec32le pkey i) = k div 2 ^ (8 * i) mod 2 ^ 32" if "i \<le> 12" for i
    using unat_dec32le [of i "take 16 pkey"] dec32le_take [of i 16 pkey] that assms by (simp add: k_def power_mult)
  have f: "k div 2 ^ m mod 2 ^ 32 div 2 ^ j mod 2 ^ 26 = k div 2 ^ (m + j) mod 2 ^ 26" if "j \<le> 6" for m j
    using that by (simp only: field_mod field_div)
  have c: "unat (x AND y :: u32) = (unat x mod 2 ^ 26) AND unat y" if "unat y < 2 ^ 26" for x y
    unfolding unsigned_and_eq by (rule and_narrow [OF that])
  have k: "k < 2 ^ 128" using le_num_less [of "take 16 pkey"] assms by (simp add: k_def)
  have l0: "unat (br_dec32le pkey 0 AND 0x03FFFFFF) = (k AND mask) mod 2 ^ 26"
    unfolding field_and using f [of 0 0] by (subst c) (simp_all add: u mask_def)
  have l1: "unat (drop_bit 2 (br_dec32le pkey 3) AND 0x03FFFF03) = (k AND mask) div 2 ^ 26 mod 2 ^ 26"
    unfolding field_and using f [of 2 24] by (subst c) (simp_all add: u mask_def unat_shift)
  have l2: "unat (drop_bit 4 (br_dec32le pkey 6) AND 0x03FFC0FF) = (k AND mask) div 2 ^ 52 mod 2 ^ 26"
    unfolding field_and using f [of 4 48] by (subst c) (simp_all add: u mask_def unat_shift)
  have l3: "unat (drop_bit 6 (br_dec32le pkey 9) AND 0x03F03FFF) = (k AND mask) div 2 ^ 78 mod 2 ^ 26"
    unfolding field_and using f [of 6 72] by (subst c) (simp_all add: u mask_def unat_shift)
  have "k div 2 ^ 104 < 2 ^ 24" using k by (intro less_mult_imp_div_less) simp
  then have "k div 2 ^ 104 mod 2 ^ 26 = k div 2 ^ 104" "k div 2 ^ 104 mod 2 ^ 24 = k div 2 ^ 104" by simp_all
  then have l4: "unat (drop_bit 8 (br_dec32le pkey 12) AND 0x000FFFFF) = (k AND mask) div 2 ^ 104"
    unfolding field_and using field_mod [of 8 24 32 "k div 2 ^ 96"] field_div [of k 96 8] by (subst c) (simp_all add: u mask_def unat_shift)
  have lt: "x mod 2 ^ 26 < 2 ^ 26" for x :: nat by simp
  have "(k AND mask) div 2 ^ 104 < 2 ^ 26"
    unfolding l4 [symmetric] masks unat_mask by (rule less_trans [OF mod_less_divisor]) simp_all
  then show "key_ok (poly1305_clamp pkey)" unfolding poly1305_clamp_def key_ok.simps l0 l1 l2 l3 l4 using lt by blast
  show "limbs_val (poly1305_clamp pkey) = rfc_clamp pkey"
    unfolding poly1305_clamp_def limbs_val.simps l0 l1 l2 l3 l4 five_digits rfc_clamp_def k_def mask_def ..
qed

section \<open>The final reduction\<close>

lemma carry_pass:
  "fst (fold poly1305_carry_step [1..<7] ([a0, a1, a2, a3, a4], 0))
   = (let t2 = a2 + drop_bit 26 a1; t3 = a3 + drop_bit 26 t2; t4 = a4 + drop_bit 26 t3; t0 = a0 + drop_bit 26 t4;
          t1 = (a1 AND 0x03FFFFFF) + drop_bit 26 t0
      in [t0 AND 0x03FFFFFF, t1 AND 0x03FFFFFF, t2 AND 0x03FFFFFF, t3 AND 0x03FFFFFF, t4 AND 0x03FFFFFF])"
proof -
  have "[1..<7] = [1, 2, 3, 4, 5, 6 :: nat]" by (simp add: upt_rec)
  then show ?thesis by (simp add: poly1305_carry_step_def Let_def)
qed

lemma sub_pass:
  "fst (fold (poly1305_sub_step (of_bool c)) [0..<5] ([a0, a1, a2, a3, a4], 5))
   = (let t0 = a0 + 5; t1 = a1 + drop_bit 26 t0; t2 = a2 + drop_bit 26 t1; t3 = a3 + drop_bit 26 t2; t4 = a4 + drop_bit 26 t3
      in if c then [t0 AND 0x03FFFFFF, t1 AND 0x03FFFFFF, t2 AND 0x03FFFFFF, t3 AND 0x03FFFFFF, t4 AND 0x03FFFFFF]
         else [a0, a1, a2, a3, a4])"
proof -
  have "[0..<5] = [0, 1, 2, 3, 4 :: nat]" by (simp add: upt_rec)
  then show ?thesis by (simp add: poly1305_sub_step_def Let_def MUX_eq)
qed

lemma ctl_eq:
  "fold (\<lambda>i ctl. ctl AND EQ_ct ([a0, a1, a2, a3, a4] ! i) 0x03FFFFFF) [1..<5] (GT_ct ([a0, a1, a2, a3, a4] ! 0) 0x03FFFFFA)
   = of_bool (0x03FFFFFA < a0 \<and> a1 = 0x03FFFFFF \<and> a2 = 0x03FFFFFF \<and> a3 = 0x03FFFFFF \<and> a4 = 0x03FFFFFF)"
proof -
  have "[1..<5] = [1, 2, 3, 4 :: nat]" by (simp add: upt_rec)
  then show ?thesis by (simp add: GT_ct_eq EQ_ct_eq)
qed

text \<open>Both passes as arithmetic: a carry out of the top limb comes back once, not five times.\<close>

definition final_num :: "nat \<Rightarrow> nat" where
  "final_num v = (if v < 2 ^ 130 then v mod P1305 else v - 2 ^ 130 + 1)"

lemma top_digit:
  assumes "x < 2 * 2 ^ n"
  obtains d c where "x mod 2 ^ n = d" "x div 2 ^ n = c" "(x :: nat) = d + 2 ^ n * c" "d < 2 ^ n" "c \<le> 1"
proof (rule that [OF refl refl])
  have "x div 2 ^ n < 2" by (rule less_mult_imp_div_less) (use assms in simp)
  then show "x div 2 ^ n \<le> 1" by simp
qed simp_all

lemma carry_pass_nat:
  fixes a0 a1 a2 a3 a4 :: nat
  assumes "a0 < 2 ^ 26" "a1 < 2 ^ 26 + 64" "a2 < 2 ^ 26" "a3 < 2 ^ 26" "a4 < 2 ^ 26"
  defines "t2 \<equiv> a2 + a1 div 2 ^ 26"
  defines "t3 \<equiv> a3 + t2 div 2 ^ 26"
  defines "t4 \<equiv> a4 + t3 div 2 ^ 26"
  defines "t0 \<equiv> a0 + t4 div 2 ^ 26"
  defines "t1 \<equiv> a1 mod 2 ^ 26 + t0 div 2 ^ 26"
  defines "v \<equiv> val (2 ^ 26) [a0, a1, a2, a3, a4]"
  shows "t2 \<le> 2 ^ 26" "t3 \<le> 2 ^ 26" "t4 \<le> 2 ^ 26" "t0 \<le> 2 ^ 26" "t1 < 2 ^ 26"
    "val (2 ^ 26) [t0 mod 2 ^ 26, t1, t2 mod 2 ^ 26, t3 mod 2 ^ 26, t4 mod 2 ^ 26] = (if v < 2 ^ 130 then v else v - 2 ^ 130 + 1)"
    "v < 2 ^ 130 + 2 ^ 33"
proof -
  have l1: "a1 < 2 * 2 ^ 26" using assms(2) by simp
  obtain d1 c1 where 1: "a1 mod 2 ^ 26 = d1" "a1 div 2 ^ 26 = c1" "a1 = d1 + 2 ^ 26 * c1" "d1 < 2 ^ 26" "c1 \<le> 1" by (rule top_digit [OF l1])
  have t2: "t2 = a2 + c1" by (simp only: t2_def 1(2))
  have l2: "t2 < 2 * 2 ^ 26" using assms(3) 1(5) t2 by simp
  obtain d2 c2 where 2: "t2 mod 2 ^ 26 = d2" "t2 div 2 ^ 26 = c2" "t2 = d2 + 2 ^ 26 * c2" "d2 < 2 ^ 26" "c2 \<le> 1" by (rule top_digit [OF l2])
  have t3: "t3 = a3 + c2" by (simp only: t3_def 2(2))
  have l3: "t3 < 2 * 2 ^ 26" using assms(4) 2(5) t3 by simp
  obtain d3 c3 where 3: "t3 mod 2 ^ 26 = d3" "t3 div 2 ^ 26 = c3" "t3 = d3 + 2 ^ 26 * c3" "d3 < 2 ^ 26" "c3 \<le> 1" by (rule top_digit [OF l3])
  have t4: "t4 = a4 + c3" by (simp only: t4_def 3(2))
  have l4: "t4 < 2 * 2 ^ 26" using assms(5) 3(5) t4 by simp
  obtain d4 c4 where 4: "t4 mod 2 ^ 26 = d4" "t4 div 2 ^ 26 = c4" "t4 = d4 + 2 ^ 26 * c4" "d4 < 2 ^ 26" "c4 \<le> 1" by (rule top_digit [OF l4])
  have t0: "t0 = a0 + c4" by (simp only: t0_def 4(2))
  have l0: "t0 < 2 * 2 ^ 26" using assms(1) 4(5) t0 by simp
  obtain d0 c0 where 0: "t0 mod 2 ^ 26 = d0" "t0 div 2 ^ 26 = c0" "t0 = d0 + 2 ^ 26 * c0" "d0 < 2 ^ 26" "c0 \<le> 1" by (rule top_digit [OF l0])
  have t1: "t1 = d1 + c0" by (simp only: t1_def 0(2) 1(1))
  have v: "v = a0 + 2 ^ 26 * a1 + 2 ^ 52 * a2 + 2 ^ 78 * a3 + 2 ^ 104 * a4" by (simp add: v_def)
  have e: "d0 + 2 ^ 26 * t1 + 2 ^ 52 * d2 + 2 ^ 78 * d3 + 2 ^ 104 * d4 + 2 ^ 130 * c4 = v + c4"
    using 0(3) 1(3) 2(3) 3(3) 4(3) unfolding v t0 t1 t2 t3 t4 by simp
  have z: "c4 = 0 \<or> c4 = 1 \<and> c1 = 1 \<and> d1 < 64"
  proof (cases "c4 = 0")
    case False
    then have "c4 = 1" using 4(5) by simp
    moreover from this have "c3 = 1" using 4(3) 3(5) assms(5) unfolding t4 by simp
    moreover from this have "c2 = 1" using 3(3) 2(5) assms(4) unfolding t3 by simp
    moreover from this have "c1 = 1" using 2(3) 1(5) assms(3) unfolding t2 by simp
    moreover from this have "d1 < 64" using 1(3) assms(2) by simp
    ultimately show ?thesis by simp
  qed simp
  have z0: "c4 = 0 \<Longrightarrow> c0 = 0" using 0(3) assms(1) unfolding t0 by (cases c0) simp_all
  show "t2 \<le> 2 ^ 26" "t3 \<le> 2 ^ 26" "t4 \<le> 2 ^ 26" "t0 \<le> 2 ^ 26"
    using t0 t2 t3 t4 1(5) 2(5) 3(5) 4(5) assms by simp_all
  show "t1 < 2 ^ 26" using z z0 1(4) 0(5) unfolding t1 by auto
  show l: "v < 2 ^ 130 + 2 ^ 33" using assms unfolding v by simp
  show "val (2 ^ 26) [t0 mod 2 ^ 26, t1, t2 mod 2 ^ 26, t3 mod 2 ^ 26, t4 mod 2 ^ 26] = (if v < 2 ^ 130 then v else v - 2 ^ 130 + 1)"
  proof (cases "c4 = 0")
    case True
    have "v < 2 ^ 130" using e 0(4) 2(4) 3(4) 4(4) \<open>t1 < 2 ^ 26\<close> True by simp
    then show ?thesis using e True unfolding 0(1) 2(1) 3(1) 4(1) by simp
  next
    case False
    then have c: "c4 = 1" using z by simp
    have "1 \<le> d0 + 2 ^ 26 * t1" using 0(3) c unfolding t0 t1 by (cases c0) simp_all
    then show ?thesis using e c unfolding 0(1) 2(1) 3(1) 4(1) by simp
  qed
qed

lemma sub_pass_nat:
  fixes a0 a1 a2 a3 a4 :: nat
  assumes "a0 < 2 ^ 26" "2 ^ 26 - 6 < a0" "a1 = 2 ^ 26 - 1" "a2 = 2 ^ 26 - 1" "a3 = 2 ^ 26 - 1" "a4 = 2 ^ 26 - 1"
  shows "val (2 ^ 26) [(a0 + 5) mod 2 ^ 26, 0, 0, 0, 0] = val (2 ^ 26) [a0, a1, a2, a3, a4] - P1305"
    "(a0 + 5) div 2 ^ 26 = 1"
proof -
  show d: "(a0 + 5) div 2 ^ 26 = 1" using assms(1,2) by (intro div_nat_eqI) simp_all
  have "a0 + 5 = (a0 + 5) mod 2 ^ 26 + 2 ^ 26" using mult_div_mod_eq [of "2 ^ 26" "a0 + 5"] unfolding d by simp
  then show "val (2 ^ 26) [(a0 + 5) mod 2 ^ 26, 0, 0, 0, 0] = val (2 ^ 26) [a0, a1, a2, a3, a4] - P1305"
    unfolding assms(3-6) by (simp add: P1305_def)
qed

text \<open>The limbs after both passes.\<close>

definition poly1305_reduce :: "limbs5 \<Rightarrow> u32 list" where
  "poly1305_reduce a =
     (let (a0, a1, a2, a3, a4) = a;
          acc = fst (fold poly1305_carry_step [1..<7] ([a0, a1, a2, a3, a4], 0));
          ctl = fold (\<lambda>i ctl. ctl AND EQ_ct (acc ! i) 0x03FFFFFF) [1..<5] (GT_ct (acc ! 0) 0x03FFFFFA)
      in fst (fold (poly1305_sub_step ctl) [0..<5] (acc, 5)))"

lemma mod_P1305: "P1305 \<le> v \<Longrightarrow> v < 2 ^ 130 \<Longrightarrow> v mod P1305 = v - P1305"
  by (simp add: le_mod_geq P1305_def)

lemma reduce_val:
  assumes "acc_ok a"
  obtains b0 b1 b2 b3 b4 where "poly1305_reduce a = [b0, b1, b2, b3, b4]" "key_ok (b0, b1, b2, b3, b4)"
    "limbs_val (b0, b1, b2, b3, b4) = final_num (limbs_val a)" "limbs_val a < 2 ^ 130 + 2 ^ 33"
proof -
  obtain a0 a1 a2 a3 a4 where A: "a = (a0, a1, a2, a3, a4)" by (metis prod.collapse)
  note a = assms [unfolded A acc_ok.simps]
  have N: "unat a0 < 2 ^ 26" "unat a1 < 2 ^ 26 + 64" "unat a2 < 2 ^ 26" "unat a3 < 2 ^ 26" "unat a4 < 2 ^ 26" using a by blast+
  note N = carry_pass_nat [OF N]
  have add: "unat (x + drop_bit 26 y) = unat x + unat y div 2 ^ 26" if "unat x + unat y div 2 ^ 26 \<le> 2 ^ 26" for x y :: u32
    using that by (subst unat_plus_small) (simp_all add: unat_shift)
  define t2 where "t2 = a2 + drop_bit 26 a1"
  have u2: "unat a2 + unat a1 div 2 ^ 26 = unat t2" unfolding t2_def by (rule add [symmetric], rule N(1))
  note N = N [unfolded u2]
  define t3 where "t3 = a3 + drop_bit 26 t2"
  have u3: "unat a3 + unat t2 div 2 ^ 26 = unat t3" unfolding t3_def by (rule add [symmetric], rule N(2))
  note N = N [unfolded u3]
  define t4 where "t4 = a4 + drop_bit 26 t3"
  have u4: "unat a4 + unat t3 div 2 ^ 26 = unat t4" unfolding t4_def by (rule add [symmetric], rule N(3))
  note N = N [unfolded u4]
  define t0 where "t0 = a0 + drop_bit 26 t4"
  have u0: "unat a0 + unat t4 div 2 ^ 26 = unat t0" unfolding t0_def by (rule add [symmetric], rule N(4))
  note N = N [unfolded u0]
  define t1 where "t1 = (a1 AND 0x03FFFFFF) + drop_bit 26 t0"
  have m1: "unat (a1 AND 0x03FFFFFF) = unat a1 mod 2 ^ 26" by (simp only: masks unat_mask)
  have u1: "unat a1 mod 2 ^ 26 + unat t0 div 2 ^ 26 = unat t1"
    unfolding t1_def m1 [symmetric] by (rule add [symmetric]) (use N(5) in \<open>simp only: m1 less_imp_le\<close>)
  note N = N [unfolded u1]
  define e0 e1 e2 e3 e4 where e_defs: "e0 = t0 AND 0x03FFFFFF" "e1 = t1 AND 0x03FFFFFF" "e2 = t2 AND 0x03FFFFFF"
    "e3 = t3 AND 0x03FFFFFF" "e4 = t4 AND 0x03FFFFFF"
  have e: "unat e0 = unat t0 mod 2 ^ 26" "unat e1 = unat t1" "unat e2 = unat t2 mod 2 ^ 26" "unat e3 = unat t3 mod 2 ^ 26"
    "unat e4 = unat t4 mod 2 ^ 26" unfolding e_defs masks unat_mask using N(5) by simp_all
  have lt: "x mod 2 ^ 26 < 2 ^ 26" for x :: nat by simp
  have k: "key_ok (e0, e1, e2, e3, e4)" unfolding key_ok.simps e using N(5) lt by blast
  define w where "w = (if limbs_val a < 2 ^ 130 then limbs_val a else limbs_val a - 2 ^ 130 + 1)"
  have v: "limbs_val (e0, e1, e2, e3, e4) = w"
    using N(6) unfolding w_def A limbs_val.simps e .
  have vl: "limbs_val a < 2 ^ 130 + 2 ^ 33" using N(7) unfolding A limbs_val.simps .
  define c where "c \<longleftrightarrow> 0x03FFFFFA < e0 \<and> e1 = 0x03FFFFFF \<and> e2 = 0x03FFFFFF \<and> e3 = 0x03FFFFFF \<and> e4 = 0x03FFFFFF"
  have r: "poly1305_reduce a = (let t0 = e0 + 5; t1 = e1 + drop_bit 26 t0; t2 = e2 + drop_bit 26 t1; t3 = e3 + drop_bit 26 t2; t4 = e4 + drop_bit 26 t3
      in if c then [t0 AND 0x03FFFFFF, t1 AND 0x03FFFFFF, t2 AND 0x03FFFFFF, t3 AND 0x03FFFFFF, t4 AND 0x03FFFFFF]
         else [e0, e1, e2, e3, e4])"
    unfolding poly1305_reduce_def A prod.case Let_def carry_pass ctl_eq sub_pass c_def e_defs t0_def t1_def t2_def t3_def t4_def ..
  show thesis
  proof (cases c)
    case True
    then have c: "2 ^ 26 - 6 < unat e0" "e1 = 0x03FFFFFF" "e2 = 0x03FFFFFF" "e3 = 0x03FFFFFF" "e4 = 0x03FFFFFF"
      by (simp_all add: c_def word_less_nat_alt)
    have k0: "unat e0 < 2 ^ 26" using k by simp
    note S = sub_pass_nat [OF k0 c(1), of "unat e1" "unat e2" "unat e3" "unat e4", unfolded c(2-5), simplified]
    have p5: "unat (e0 + 5) = unat e0 + 5" using k0 by (subst unat_plus_small) simp_all
    have "unat (drop_bit 26 (e0 + 5)) = unat (1 :: u32)" using S(2) by (simp add: unat_shift p5)
    then have d: "drop_bit 26 (e0 + 5) = 1" by (rule unsigned_word_eqI)
    have o: "poly1305_reduce a = [(e0 + 5) AND 0x03FFFFFF, 0, 0, 0, 0]" using True unfolding r Let_def d c(2-5) by simp
    have o0: "unat ((e0 + 5) AND 0x03FFFFFF) = (unat e0 + 5) mod 2 ^ 26" by (simp only: masks unat_mask p5)
    have wp: "w - P1305 = (unat e0 + 5) mod 2 ^ 26" using S(1) unfolding v [symmetric] limbs_val.simps c(2-5) by simp
    have P: "P1305 \<le> w" using c(1) unfolding v [symmetric] limbs_val.simps c(2-5) P1305_def by simp
    have l: "limbs_val a < 2 ^ 130"
    proof (rule ccontr)
      assume "\<not> limbs_val a < 2 ^ 130"
      then have "w \<le> 2 ^ 33" using vl by (simp add: w_def)
      then show False using P by (simp add: P1305_def)
    qed
    then have f: "final_num (limbs_val a) = w - P1305" using P mod_P1305 by (simp add: final_num_def w_def)
    show thesis
    proof (rule that [OF o])
      show "key_ok (e0 + 5 AND 0x03FFFFFF, 0, 0, 0, 0)" unfolding key_ok.simps o0 using lt by simp
      show "limbs_val (e0 + 5 AND 0x03FFFFFF, 0, 0, 0, 0) = final_num (limbs_val a)" unfolding limbs_val.simps o0 f wp by simp
    qed (rule vl)
  next
    case False
    have "w < P1305"
    proof (rule ccontr)
      assume "\<not> w < P1305"
      then have g: "2 ^ 130 - 5 \<le> val (2 ^ 26) [unat e0, unat e1, unat e2, unat e3, unat e4]"
        unfolding v [symmetric] limbs_val.simps P1305_def by (simp only: not_less)
      have "unat e1 = 2 ^ 26 - 1" "unat e2 = 2 ^ 26 - 1" "unat e3 = 2 ^ 26 - 1" "unat e4 = 2 ^ 26 - 1" "2 ^ 26 - 6 < unat e0"
        using g k by simp_all
      then have "c" by (simp add: c_def word_less_nat_alt word_unat_eq_iff)
      then show False using False by simp
    qed
    then have "final_num (limbs_val a) = w" by (auto simp: final_num_def w_def)
    then show thesis using that [of e0 e1 e2 e3 e4] False k v vl by (simp only: r Let_def if_False)
  qed
qed

section \<open>The tag\<close>

definition poly1305_serialize :: "bytes \<Rightarrow> u32 list \<Rightarrow> bytes" where
  "poly1305_serialize pkey acc =
     (let w = (ucast (acc ! 0) :: u64) + push_bit 26 (ucast (acc ! 1)) + ucast (br_dec32le pkey 16);
          t0 = br_enc32le (ucast w);
          w = drop_bit 32 w + push_bit 20 (ucast (acc ! 2)) + ucast (br_dec32le pkey 20);
          t1 = br_enc32le (ucast w);
          w = drop_bit 32 w + push_bit 14 (ucast (acc ! 3)) + ucast (br_dec32le pkey 24);
          t2 = br_enc32le (ucast w);
          hi = ucast (drop_bit 32 w) + push_bit 8 (acc ! 4) + br_dec32le pkey 28
      in t0 @ t1 @ t2 @ br_enc32le hi)"

lemma finish_eq: "poly1305_finish pkey a = poly1305_serialize pkey (poly1305_reduce a)"
  by (simp only: poly1305_finish_def poly1305_serialize_def poly1305_reduce_def Let_def split_beta fst_conv)

lemma le_num_enc32le: "le_num (br_enc32le x) = unat x"
proof -
  have f: "unat (ucast (drop_bit k x) :: byte) = unat x div 2 ^ k mod 256" for k
    by (simp add: unsigned_ucast_eq take_bit_eq_mod unat_drop_bit_eq drop_bit_eq_div [of k "unat x"])
  have "le_num (br_enc32le x) = unat x mod 256 + 256 * (unat x div 2 ^ 8 mod 256 + 256 * (unat x div 2 ^ 16 mod 256
      + 256 * (unat x div 2 ^ 24 mod 256)))"
    unfolding br_enc32le_def list.map le_num_simps f by simp
  also have "\<dots> = unat x"
  proof -
    have e: "\<exists>d c. y mod 256 = d \<and> y div 2 ^ 8 = c \<and> y = d + 256 * c" for y :: nat by simp
    have g: "unat x div 2 ^ 16 = unat x div 2 ^ 8 div 2 ^ 8" "unat x div 2 ^ 24 = unat x div 2 ^ 8 div 2 ^ 8 div 2 ^ 8"
      by (simp_all only: field_div) simp_all
    obtain d0 c0 where 0: "unat x mod 256 = d0" "unat x div 2 ^ 8 = c0" "unat x = d0 + 256 * c0" using e [of "unat x"] by blast
    obtain d1 c1 where 1: "c0 mod 256 = d1" "c0 div 2 ^ 8 = c1" "c0 = d1 + 256 * c1" using e [of c0] by blast
    obtain d2 c2 where 2: "c1 mod 256 = d2" "c1 div 2 ^ 8 = c2" "c1 = d2 + 256 * c2" using e [of c1] by blast
    have "unat x < 2 ^ 32" using unsigned_less [of x, where ?'a = nat] by simp
    then have "c2 < 256" using 0(3) 1(3) 2(3) by simp
    then show ?thesis unfolding g unfolding 0(1,2) 1(1,2) 2(1,2) using 0(3) 1(3) 2(3) by simp
  qed
  finally show ?thesis .
qed

text \<open>The sum modulo \<open>2 ^ 128\<close>, 32 bits at a time.\<close>

lemma sum_chain:
  fixes b0 b1 b2 b3 b4 s0 s1 s2 s3 :: nat
  defines "w0 \<equiv> b0 + 2 ^ 26 * b1 + s0"
  defines "w1 \<equiv> w0 div 2 ^ 32 + 2 ^ 20 * b2 + s1"
  defines "w2 \<equiv> w1 div 2 ^ 32 + 2 ^ 14 * b3 + s2"
  defines "w3 \<equiv> w2 div 2 ^ 32 + 2 ^ 8 * b4 + s3"
  shows "val (2 ^ 32) [w0 mod 2 ^ 32, w1 mod 2 ^ 32, w2 mod 2 ^ 32, w3 mod 2 ^ 32]
      = (val (2 ^ 26) [b0, b1, b2, b3, b4] + val (2 ^ 32) [s0, s1, s2, s3]) mod 2 ^ 128"
proof -
  have e: "\<exists>d c. y mod 2 ^ 32 = d \<and> y div 2 ^ 32 = c \<and> y = d + 2 ^ 32 * c \<and> d < 2 ^ 32" for y :: nat by simp
  obtain d0 c0 where 0: "w0 mod 2 ^ 32 = d0" "w0 div 2 ^ 32 = c0" "w0 = d0 + 2 ^ 32 * c0" "d0 < 2 ^ 32" using e [of w0] by blast
  obtain d1 c1 where 1: "w1 mod 2 ^ 32 = d1" "w1 div 2 ^ 32 = c1" "w1 = d1 + 2 ^ 32 * c1" "d1 < 2 ^ 32" using e [of w1] by blast
  obtain d2 c2 where 2: "w2 mod 2 ^ 32 = d2" "w2 div 2 ^ 32 = c2" "w2 = d2 + 2 ^ 32 * c2" "d2 < 2 ^ 32" using e [of w2] by blast
  obtain d3 c3 where 3: "w3 mod 2 ^ 32 = d3" "w3 div 2 ^ 32 = c3" "w3 = d3 + 2 ^ 32 * c3" "d3 < 2 ^ 32" using e [of w3] by blast
  have w: "w0 = b0 + 2 ^ 26 * b1 + s0" "w1 = c0 + 2 ^ 20 * b2 + s1" "w2 = c1 + 2 ^ 14 * b3 + s2" "w3 = c2 + 2 ^ 8 * b4 + s3"
    by (simp only: w0_def, simp only: w1_def 0(2), simp only: w2_def 1(2), simp only: w3_def 2(2))
  have "val (2 ^ 26) [b0, b1, b2, b3, b4] + val (2 ^ 32) [s0, s1, s2, s3] = val (2 ^ 32) [d0, d1, d2, d3] + 2 ^ 128 * c3"
    using w 0(3) 1(3) 2(3) 3(3) by simp
  moreover have "val (2 ^ 32) [d0, d1, d2, d3] < 2 ^ 128"
    using val_less [of "[d0, d1, d2, d3]" "2 ^ 32"] 0(4) 1(4) 2(4) 3(4) by simp
  ultimately show ?thesis unfolding 0(1) 1(1) 2(1) 3(1) by simp
qed

lemma four_digits:
  assumes "x < 2 ^ 128"
  shows "val (2 ^ 32) [x mod 2 ^ 32, x div 2 ^ 32 mod 2 ^ 32, x div 2 ^ 64 mod 2 ^ 32, x div 2 ^ 96 mod 2 ^ 32] = x"
proof -
  have e: "\<exists>d c. y mod 2 ^ 32 = d \<and> y div 2 ^ 32 = c \<and> y = d + 2 ^ 32 * c" for y :: nat by simp
  have g: "x div 2 ^ 64 = x div 2 ^ 32 div 2 ^ 32" "x div 2 ^ 96 = x div 2 ^ 32 div 2 ^ 32 div 2 ^ 32"
    by (simp_all only: field_div) simp_all
  obtain d0 c0 where 0: "x mod 2 ^ 32 = d0" "x div 2 ^ 32 = c0" "x = d0 + 2 ^ 32 * c0" using e [of x] by blast
  obtain d1 c1 where 1: "c0 mod 2 ^ 32 = d1" "c0 div 2 ^ 32 = c1" "c0 = d1 + 2 ^ 32 * c1" using e [of c0] by blast
  obtain d2 c2 where 2: "c1 mod 2 ^ 32 = d2" "c1 div 2 ^ 32 = c2" "c1 = d2 + 2 ^ 32 * c2" using e [of c1] by blast
  have "c2 < 2 ^ 32" using assms 0(3) 1(3) 2(3) by simp
  then have m: "c2 mod 2 ^ 32 = c2" by simp
  show ?thesis unfolding g unfolding 0(1,2) 1(1,2) 2(1,2) m using 0(3) 1(3) 2(3) by simp
qed

lemma serialize_val:
  assumes k: "key_ok (b0, b1, b2, b3, b4)" and l: "length pkey = 32"
  shows "poly1305_serialize pkey [b0, b1, b2, b3, b4] = rfc_tag pkey (limbs_val (b0, b1, b2, b3, b4))"
proof -
  define S where "S i = br_dec32le pkey (16 + 4 * i)" for i
  have Sl: "unat (S i) < 2 ^ 32" for i using unsigned_less [of "S i", where ?'a = nat] by simp
  define w0 where "w0 = (ucast b0 :: u64) + push_bit 26 (ucast b1) + ucast (S 0)"
  define w1 where "w1 = drop_bit 32 w0 + push_bit 20 (ucast b2) + ucast (S 1)"
  define w2 where "w2 = drop_bit 32 w1 + push_bit 14 (ucast b3) + ucast (S 2)"
  define hi where "hi = ucast (drop_bit 32 w2) + push_bit 8 b4 + S 3"
  have ser: "poly1305_serialize pkey [b0, b1, b2, b3, b4] = br_enc32le (ucast w0) @ br_enc32le (ucast w1) @ br_enc32le (ucast w2) @ br_enc32le hi"
    by (simp add: poly1305_serialize_def Let_def w0_def w1_def w2_def hi_def S_def)
  have kb: "unat b0 < 2 ^ 26" "unat b1 < 2 ^ 26" "unat b2 < 2 ^ 26" "unat b3 < 2 ^ 26" "unat b4 < 2 ^ 26" using k by simp_all
  have sum: "unat (x + push_bit n (ucast y) + ucast z :: u64) = unat x + 2 ^ n * unat y + unat z"
    if "unat x < 2 ^ 33" "unat y < 2 ^ 26" "n \<le> 26" for x :: u64 and y z :: u32 and n
  proof -
    have z: "unat z < 2 ^ 32" using unsigned_less [of z, where ?'a = nat] by simp
    have "(2 :: nat) ^ n * unat y < 2 ^ 26 * 2 ^ 26" using that(2,3) by (intro mult_le_less_imp_less power_increasing) simp_all
    then have p: "2 ^ n * unat y < 2 ^ 52" by simp
    then have u: "unat (push_bit n (ucast y) :: u64) = 2 ^ n * unat y" by (subst unat_push) (simp_all add: unat_widen)
    have xy: "unat (x + push_bit n (ucast y)) = unat x + 2 ^ n * unat y" using that(1) p by (subst unat_plus_small) (simp_all add: u)
    show ?thesis using that(1) p z by (subst unat_plus_small) (simp_all add: xy unat_widen)
  qed
  have lim: "unat (drop_bit 32 w) < 2 ^ 33" for w :: u64
    using unsigned_less [of w, where ?'a = nat] by (simp add: unat_shift less_mult_imp_div_less)
  have u0: "unat w0 = unat b0 + 2 ^ 26 * unat b1 + unat (S 0)"
    unfolding w0_def using kb by (subst sum) (simp_all add: unat_widen)
  have u1: "unat w1 = unat w0 div 2 ^ 32 + 2 ^ 20 * unat b2 + unat (S 1)"
    unfolding w1_def using kb lim [of w0] by (subst sum) (simp_all add: unat_shift)
  have u2: "unat w2 = unat w1 div 2 ^ 32 + 2 ^ 14 * unat b3 + unat (S 2)"
    unfolding w2_def using kb lim [of w1] by (subst sum) (simp_all add: unat_shift)
  have "unat (push_bit 8 b4) = 2 ^ 8 * unat b4 mod 2 ^ 32"
    by (simp only: unsigned_push_bit_eq take_bit_eq_mod push_bit_eq_mult [of 8 "unat b4"] mult.commute) simp
  then have u3: "unat hi = (unat w2 div 2 ^ 32 + 2 ^ 8 * unat b4 + unat (S 3)) mod 2 ^ 32"
    unfolding hi_def by (simp add: unat_word_ariths unat_narrow unat_shift mod_simps)
  have s: "val (2 ^ 32) [unat (S 0), unat (S 1), unat (S 2), unat (S 3)] = le_num (take 16 (drop 16 pkey))"
  proof -
    define q where "q = take 16 (drop 16 pkey)"
    have q: "length q = 16" using l by (simp add: q_def)
    have "S i = br_dec32le q (4 * i)" if "i < 4" for i
      using that l by (simp add: S_def q_def br_dec32le_def byte_at_def)
    then have "unat (S i) = le_num q div 2 ^ (32 * i) mod 2 ^ 32" if "i < 4" for i
      using that q unat_dec32le [of "4 * i" q] by (simp add: power_mult)
    from this [of 0] this [of 1] this [of 2] this [of 3]
    have S: "unat (S 0) = le_num q mod 2 ^ 32" "unat (S 1) = le_num q div 2 ^ 32 mod 2 ^ 32"
      "unat (S 2) = le_num q div 2 ^ 64 mod 2 ^ 32" "unat (S 3) = le_num q div 2 ^ 96 mod 2 ^ 32" by simp_all
    have "le_num q < 2 ^ 128" using le_num_less [of q] q by simp
    from four_digits [OF this] show ?thesis unfolding S q_def .
  qed
  have "le_num (poly1305_serialize pkey [b0, b1, b2, b3, b4]) = val (2 ^ 32) [unat w0 mod 2 ^ 32, unat w1 mod 2 ^ 32, unat w2 mod 2 ^ 32, unat hi]"
    by (simp add: ser le_num_append le_num_enc32le unat_narrow)
  also have "\<dots> = (limbs_val (b0, b1, b2, b3, b4) + le_num (take 16 (drop 16 pkey))) mod 2 ^ 128"
    unfolding u3 limbs_val.simps s [symmetric] u2 u1 u0 by (rule sum_chain)
  also have "\<dots> = le_num (rfc_tag pkey (limbs_val (b0, b1, b2, b3, b4)))"
    by (simp add: rfc_tag_def le_num_le_bytes)
  finally show ?thesis by (rule le_num_inject) (simp add: ser rfc_tag_def)
qed

section \<open>The whole tag\<close>

lemma enc64le_bytes: "br_enc64le (word_of_nat n) = le_bytes 8 n"
proof -
  have e: "ucast (drop_bit k (word_of_nat n :: u64)) = (word_of_nat (n div 2 ^ k) :: byte)" if "k + 8 \<le> 64" for k
  proof (rule unsigned_word_eqI)
    have "unat (ucast (drop_bit k (word_of_nat n :: u64)) :: byte) = n mod 2 ^ 64 div 2 ^ k mod 2 ^ 8"
      by (simp add: unsigned_ucast_eq take_bit_eq_mod [of 8] unat_shift unat_of_nat)
    also have "\<dots> = n div 2 ^ k mod 2 ^ 8" by (rule field_mod [OF that])
    also have "\<dots> = unat (word_of_nat (n div 2 ^ k) :: byte)" by (simp add: unat_of_nat)
    finally show "unat (ucast (drop_bit k (word_of_nat n :: u64)) :: byte) = unat (word_of_nat (n div 2 ^ k) :: byte)" .
  qed
  have u: "[0..<8] = [0, 1, 2, 3, 4, 5, 6, 7 :: nat]" by (simp add: upt_rec)
  show ?thesis
    unfolding br_enc64le_def le_bytes_map u list.map using e [of 0] e [of 8] e [of 16] e [of 24] e [of 32] e [of 40] e [of 48] e [of 56]
    by simp
qed

lemma tag_val:
  assumes "length pkey = 32"
  obtains v where "poly1305_tag pkey aad data = rfc_tag pkey (final_num v)" "v mod P1305 = rfc_poly pkey aad data" "v < 2 ^ 130 + 2 ^ 33"
proof -
  define r where "r = poly1305_clamp pkey"
  define foot where "foot = le_bytes 8 (length aad) @ le_bytes 8 (length data)"
  define a1 where "a1 = poly1305_inner r (0, 0, 0, 0, 0) aad"
  define a2 where "a2 = poly1305_inner r a1 data"
  define a3 where "a3 = poly1305_inner r a2 foot"
  have r: "key_ok r" "limbs_val r = rfc_clamp pkey" using clamp_val [OF assms] by (simp_all add: r_def)
  have i1: "acc_ok a1" "limbs_val a1 mod P1305 = rfc_blocks (limbs_val r) 0 (pad16 aad)"
    using inner_val [OF r(1), of "(0, 0, 0, 0, 0)" aad] by (simp_all add: a1_def)
  have i2: "acc_ok a2" "limbs_val a2 mod P1305 = rfc_blocks (limbs_val r) (limbs_val a1 mod P1305) (pad16 data)"
    using inner_val [OF r(1) i1(1), of data] by (simp_all add: a2_def)
  have "pad16 foot = foot" by (simp add: pad16_def foot_def)
  then have i3: "acc_ok a3" "limbs_val a3 mod P1305 = rfc_blocks (limbs_val r) (limbs_val a2 mod P1305) foot"
    using inner_val [OF r(1) i2(1), of foot] by (simp_all add: a3_def)
  have p: "limbs_val a3 mod P1305 = rfc_poly pkey aad data"
    unfolding i3(2) i2(2) i1(2) rfc_poly_def r(2) foot_def by (simp add: rfc_blocks_append pad16_simps(4))
  obtain b0 b1 b2 b3 b4 where b: "poly1305_reduce a3 = [b0, b1, b2, b3, b4]" "key_ok (b0, b1, b2, b3, b4)"
    "limbs_val (b0, b1, b2, b3, b4) = final_num (limbs_val a3)" "limbs_val a3 < 2 ^ 130 + 2 ^ 33" by (rule reduce_val [OF i3(1)])
  have "poly1305_tag pkey aad data = poly1305_finish pkey a3"
    by (simp add: poly1305_tag_def Let_def enc64le_bytes r_def a1_def a2_def a3_def foot_def)
  also have "\<dots> = rfc_tag pkey (final_num (limbs_val a3))"
    unfolding finish_eq b(1) serialize_val [OF b(2) assms] b(3) ..
  finally show thesis using that p b(4) by blast
qed

text \<open>A message whose polynomial value is 10: the tag should be 10 and is 6.\<close>

definition unlucky_key :: bytes where
  "unlucky_key = [137, 56, 94, 176, 148, 35, 85, 81, 130, 86, 139, 150, 232, 164, 254, 242] @ replicate 16 0"

definition unlucky_text :: bytes where
  "unlucky_text = [211, 127, 241, 154, 114, 119, 131, 50, 211, 245, 193, 107, 135, 220, 186, 207]"

lemma unlucky_poly: "rfc_poly unlucky_key [] unlucky_text = 10"
proof -
  have r: "rfc_clamp unlucky_key = 3980644091771739379381503417160448137"
    by (simp add: rfc_clamp_def unlucky_key_def)
  have t: "length unlucky_text = 16" "le_num unlucky_text = 276120435202429186032934309977000083411" by (simp_all add: unlucky_text_def)
  have "le_bytes 8 16 = [16, 0, 0, 0, 0, 0, 0, 0]" "le_bytes 8 0 = [0, 0, 0, 0, 0, 0, 0, 0]" by (simp_all add: le_bytes_map upt_rec)
  then have f: "le_bytes 8 0 @ le_bytes 8 16 = [0, 0, 0, 0, 0, 0, 0, 0, 16, 0, 0, 0, 0, 0, 0, 0] @ []" by simp
  have p: "pad16 unlucky_text = unlucky_text" "pad16 [] = []" using t by (simp_all add: pad16_def)
  show ?thesis
    unfolding rfc_poly_def p t(1) list.size(3) f r append_Nil
    by (subst rfc_blocks_step [OF t(1)], subst rfc_blocks_step) (simp_all add: t(2) P1305_def)
qed

text \<open>The limbs of the C code, block by block.\<close>

lemmas block_eval = poly1305_block_def Let_def br_dec32le_def byte_at_def

lemma unlucky_clamp: "poly1305_clamp unlucky_key = (6174857, 21554432, 23592981, 60824109, 196260)"
  by (simp add: poly1305_clamp_def unlucky_key_def br_dec32le_def byte_at_def)

lemma unlucky_block1: "poly1305_block (6174857, 21554432, 23592981, 60824109, 196260) unlucky_text (0, 0, 0, 0, 0) = (66611459, 9940544, 63986875, 59359201, 64987245)"
  by (simp add: block_eval unlucky_text_def cong: let_weak_cong)

lemma unlucky_block2:
  "poly1305_block (6174857, 21554432, 23592981, 60824109, 196260) [0, 0, 0, 0, 0, 0, 0, 0, 16, 0, 0, 0, 0, 0, 0, 0]
     (66611459, 9940544, 63986875, 59359201, 64987245) = (5, 67108864, 67108863, 67108863, 67108863)"
  by (simp add: block_eval cong: let_weak_cong)

lemma inner_one: "length blk = 16 \<Longrightarrow> poly1305_inner r a blk = poly1305_block r blk a"
  by (auto simp: poly1305_inner.simps [of r a blk] poly1305_inner.simps [of _ _ "[]"])

lemma unlucky_tag: "poly1305_tag unlucky_key [] unlucky_text = [6, 0, 0, 0, 0, 0, 0, 0, 0, 0, 0, 0, 0, 0, 0, 0]"
proof -
  have t: "length unlucky_text = 16" by (simp add: unlucky_text_def)
  have f: "br_enc64le (word_of_nat (length ([] :: bytes))) @ br_enc64le (word_of_nat (length unlucky_text)) = [0, 0, 0, 0, 0, 0, 0, 0, 16, 0, 0, 0, 0, 0, 0, 0]"
    by (simp add: t br_enc64le_def)
  have e: "poly1305_inner r a [] = a" for r a by (simp add: poly1305_inner.simps)
  have "poly1305_reduce (5, 67108864, 67108863, 67108863, 67108863) = [6, 0, 0, 0, 0]"
    unfolding poly1305_reduce_def prod.case Let_def carry_pass ctl_eq sub_pass by simp
  then have "poly1305_finish unlucky_key (5, 67108864, 67108863, 67108863, 67108863) = [6, 0, 0, 0, 0, 0, 0, 0, 0, 0, 0, 0, 0, 0, 0, 0]"
    by (simp add: finish_eq poly1305_serialize_def unlucky_key_def br_dec32le_def byte_at_def br_enc32le_def Let_def)
  then show ?thesis
    unfolding poly1305_tag_def Let_def f e inner_one [OF t] by (simp add: inner_one unlucky_clamp unlucky_block1 unlucky_block2)
qed

lemma poly1305_drops_factor:
  "poly1305_tag unlucky_key [] unlucky_text \<noteq> rfc_tag unlucky_key (rfc_poly unlucky_key [] unlucky_text)"
  unfolding unlucky_poly unlucky_tag by (simp add: rfc_tag_def unlucky_key_def le_bytes_map upt_rec)

section \<open>Properties\<close>

text \<open>C21: the tag of the constant-time Poly1305 is that of RFC 8439, section 2.8, on the padded
  additional data, the padded text and their lengths, for every key and message, unless the value
  of the polynomial lies between 5 and \<open>2 ^ 33 + 4\<close>; there it may be the tag of that value less 4.\<close>

theorem poly1305_is_rfc8439:
  assumes "length pkey = 32"
  shows "poly1305_tag pkey aad data = rfc_tag pkey (rfc_poly pkey aad data)
     \<or> 5 \<le> rfc_poly pkey aad data \<and> rfc_poly pkey aad data < 2 ^ 33 + 5
       \<and> poly1305_tag pkey aad data = rfc_tag pkey (rfc_poly pkey aad data - 4)"
proof -
  obtain v where v: "poly1305_tag pkey aad data = rfc_tag pkey (final_num v)" "v mod P1305 = rfc_poly pkey aad data" "v < 2 ^ 130 + 2 ^ 33"
    by (rule tag_val [OF assms])
  show ?thesis
  proof (cases "v < 2 ^ 130")
    case True
    then show ?thesis using v(1,2) by (simp add: final_num_def)
  next
    case False
    then obtain t where t: "v = 2 ^ 130 + t" by (metis le_Suc_ex not_less)
    have p: "v mod P1305 = t + 5" using v(3) unfolding t by (simp add: P1305_def le_mod_geq)
    have "final_num v = t + 1" unfolding t by (simp add: final_num_def)
    then show ?thesis using v p unfolding t by simp
  qed
qed

theorem poly1305_is_rfc8439_witness:
  "poly1305_tag unlucky_key [] unlucky_text = rfc_tag unlucky_key 6"
  using poly1305_is_rfc8439 [of unlucky_key "[]" unlucky_text] poly1305_drops_factor
  by (simp add: unlucky_poly) (simp add: unlucky_key_def)

end
