(* ===== verification/Big_Int.thy ===== *)
theory Big_Int
  imports Limbs
begin

text \<open>
  The modular integers of bearssl/src/int/ in 31-bit words (i31_*.c), on which RSA runs: subtraction
  and addition, the inverse of the modulus, Montgomery multiplication and the conversion back.
  An array is the list of the words the code has set, the announced bit length first.
\<close>

unbundle bit_operations_syntax

section \<open>Arrays\<close>

text \<open>The number of words that follow the header \<open>h\<close>: \<open>(h + 31) >> 5\<close>.\<close>

definition i31_len :: "u32 list \<Rightarrow> nat" where
  "i31_len x = unat (drop_bit 5 (x ! 0 + 31))"

definition i31_words :: "nat \<Rightarrow> u32 list \<Rightarrow> u32 list" where
  "i31_words n x = take n (tl x)"

definition br_i31_zero :: "u32 \<Rightarrow> u32 list" where
  "br_i31_zero bit_len = bit_len # replicate (unat (drop_bit 5 (bit_len + 31))) 0"

definition NEQ_ct :: "u32 \<Rightarrow> u32 \<Rightarrow> u32" where
  "NEQ_ct x y = (let q = x XOR y in drop_bit 31 (q OR (- q)))"

definition MUL31_lo :: "u32 \<Rightarrow> u32 \<Rightarrow> u32" where
  "MUL31_lo x y = (x * y) AND 0x7FFFFFFF"

section \<open>Subtraction and addition\<close>

text \<open>The loops over the words, with the carry \<open>cc\<close>; the result is the words written and the last carry.\<close>

fun i31_sub_loop :: "u32 \<Rightarrow> u32 \<Rightarrow> u32 list \<Rightarrow> u32 list \<Rightarrow> u32 list \<times> u32" where
  "i31_sub_loop ctl cc (aw # a) (bw # b) =
     (let naw = aw - bw - cc;
          (r, c) = i31_sub_loop ctl (drop_bit 31 naw) a b
      in (MUX ctl (naw AND 0x7FFFFFFF) aw # r, c))"
| "i31_sub_loop ctl cc _ _ = ([], cc)"

definition br_i31_sub :: "u32 list \<Rightarrow> u32 list \<Rightarrow> u32 \<Rightarrow> u32 list \<times> u32" where
  "br_i31_sub a b ctl =
     (let m = unat (drop_bit 5 (a ! 0 + 63));
          (r, cc) = i31_sub_loop ctl 0 (i31_words (m - 1) a) (i31_words (m - 1) b)
      in (a ! 0 # r @ drop m a, cc))"

fun i31_add_loop :: "u32 \<Rightarrow> u32 \<Rightarrow> u32 list \<Rightarrow> u32 list \<Rightarrow> u32 list \<times> u32" where
  "i31_add_loop ctl cc (aw # a) (bw # b) =
     (let naw = aw + bw + cc;
          (r, c) = i31_add_loop ctl (drop_bit 31 naw) a b
      in (MUX ctl (naw AND 0x7FFFFFFF) aw # r, c))"
| "i31_add_loop ctl cc _ _ = ([], cc)"

definition br_i31_add :: "u32 list \<Rightarrow> u32 list \<Rightarrow> u32 \<Rightarrow> u32 list \<times> u32" where
  "br_i31_add a b ctl =
     (let m = unat (drop_bit 5 (a ! 0 + 63));
          (r, cc) = i31_add_loop ctl 0 (i31_words (m - 1) a) (i31_words (m - 1) b)
      in (a ! 0 # r @ drop m a, cc))"

section \<open>The inverse of the modulus\<close>

definition br_i31_ninv31 :: "u32 \<Rightarrow> u32" where
  "br_i31_ninv31 x =
     (let y = 2 - x;
          y = y * (2 - y * x);
          y = y * (2 - y * x);
          y = y * (2 - y * x);
          y = y * (2 - y * x)
      in MUX (x AND 1) (- y) 0 AND 0x7FFFFFFF)"

section \<open>Montgomery multiplication\<close>

text \<open>
  One row: the words \<open>z\<close> of \<open>d + xu * y + f * m\<close> and the carry. The unrolled loop by four and
  the loop over the rest consist of this one statement.
\<close>

fun monty_row :: "u32 \<Rightarrow> u32 \<Rightarrow> u32 \<Rightarrow> u32 list \<Rightarrow> u32 list \<Rightarrow> u32 list \<Rightarrow> u32 list \<times> u32" where
  "monty_row xu f r (dv # d) (yv # y) (mv # m) =
     (let z = ucast dv + mul64 xu yv + mul64 f mv + ucast r :: u64;
          (ws, c) = monty_row xu f (ucast (drop_bit 31 z)) d y m
      in ((ucast z AND 0x7FFFFFFF) # ws, c))"
| "monty_row xu f r _ _ _ = ([], r)"

text \<open>
  The outer loop, over the words of \<open>x\<close>. The first word of a row is written over the header
  \<open>d[0]\<close>, which the code restores at the end; here it is dropped.
\<close>

fun monty_rows :: "u32 list \<Rightarrow> u32 list \<Rightarrow> u32 \<Rightarrow> u32 list \<Rightarrow> u32 list \<Rightarrow> u32 \<Rightarrow> u32 list \<times> u32" where
  "monty_rows y m m0i [] d dh = (d, dh)"
| "monty_rows y m m0i (xu # xs) d dh =
     (let f = MUL31_lo (d ! 0 + MUL31_lo xu (y ! 0)) m0i;
          (ws, r) = monty_row xu f 0 d y m;
          dh = dh + r
      in monty_rows y m m0i xs (tl ws @ [dh AND 0x7FFFFFFF]) (drop_bit 31 dh))"

definition br_i31_montymul :: "u32 list \<Rightarrow> u32 list \<Rightarrow> u32 list \<Rightarrow> u32 \<Rightarrow> u32 list" where
  "br_i31_montymul x y m m0i =
     (let len = i31_len m;
          d = br_i31_zero (m ! 0);
          (w, dh) = monty_rows (i31_words len y) (i31_words len m) m0i (i31_words len x) (i31_words len d) 0;
          d = m ! 0 # w;
          (d, c) = br_i31_sub d m 0
      in fst (br_i31_sub d m (NEQ_ct dh 0 OR NOT_ct c)))"

text \<open>The conversion from Montgomery representation: rows without a product, in place.\<close>

fun fmont_row :: "u32 \<Rightarrow> u64 \<Rightarrow> u32 list \<Rightarrow> u32 list \<Rightarrow> u32 list \<times> u64" where
  "fmont_row f cc (xv # x) (mv # m) =
     (let z = ucast xv + mul64 f mv + cc :: u64;
          (ws, c) = fmont_row f (drop_bit 31 z) x m
      in ((ucast z AND 0x7FFFFFFF) # ws, c))"
| "fmont_row f cc _ _ = ([], cc)"

fun fmont_rows :: "u32 list \<Rightarrow> u32 \<Rightarrow> nat \<Rightarrow> u32 list \<Rightarrow> u32 list" where
  "fmont_rows m m0i 0 x = x"
| "fmont_rows m m0i (Suc u) x =
     (let f = MUL31_lo (x ! 0) m0i;
          (ws, cc) = fmont_row f 0 x m
      in fmont_rows m m0i u (tl ws @ [ucast cc]))"

definition br_i31_from_monty :: "u32 list \<Rightarrow> u32 list \<Rightarrow> u32 \<Rightarrow> u32 list" where
  "br_i31_from_monty x m m0i =
     (let len = i31_len m;
          x = x ! 0 # fmont_rows (i31_words len m) m0i len (i31_words len x);
          (x, c) = br_i31_sub x m 0
      in fst (br_i31_sub x m (NOT_ct c)))"

section \<open>Words as digits\<close>

definition W31 :: nat where "W31 = 2 ^ 31"

definition num31 :: "u32 list \<Rightarrow> nat" where "num31 ws = val W31 (map unat ws)"

definition digits31 :: "u32 list \<Rightarrow> bool" where "digits31 ws \<longleftrightarrow> (\<forall>w\<in>set ws. unat w < W31)"

lemma num31_simps [simp]: "num31 [] = 0" "num31 (w # ws) = unat w + W31 * num31 ws"
  by (simp_all add: num31_def)

lemma digits31_simps [simp]: "digits31 []" "digits31 (w # ws) \<longleftrightarrow> unat w < W31 \<and> digits31 ws"
  "digits31 (xs @ ys) \<longleftrightarrow> digits31 xs \<and> digits31 ys"
  by (auto simp: digits31_def)

lemma num31_append [simp]: "num31 (xs @ ys) = num31 xs + W31 ^ length xs * num31 ys"
  by (simp add: num31_def val_append)

lemma num31_zeros [simp]: "num31 (replicate n 0) = 0"
  by (simp add: num31_def)

lemma digits31_zeros [simp]: "digits31 (replicate n 0)"
  by (simp add: digits31_def W31_def)

lemma num31_less: "digits31 ws \<Longrightarrow> num31 ws < W31 ^ length ws"
  using val_less [of "map unat ws" W31] by (simp add: num31_def digits31_def)

lemma num31_inject: "num31 a = num31 b \<Longrightarrow> length a = length b \<Longrightarrow> digits31 a \<Longrightarrow> digits31 b \<Longrightarrow> a = b"
  using val_inject [of W31 "map unat a" "map unat b"] unsigned_word_eqI
  by (simp add: num31_def digits31_def inj_map_eq_map [OF injI])

lemma digits31_take: "digits31 ws \<Longrightarrow> digits31 (take n ws)"
  by (meson digits31_def in_set_takeD)

lemma W31_pos [simp]: "0 < W31" "W31 \<noteq> 0" "Suc 0 < W31" "1 < W31"
  by (simp_all add: W31_def)

lemma mask31: "(0x7FFFFFFF :: u32) = mask 31"
  by (simp add: mask_eq_exp_minus_1)

lemma unat_mask31: "unat (x AND 0x7FFFFFFF :: u32) = unat x mod W31"
  by (simp only: mask31 unat_mask W31_def)

lemma unat_high31: "unat (drop_bit 31 x :: u32) = unat x div W31"
  by (simp only: unat_shift W31_def)

lemma unat_u32: "unat (x :: u32) < 2 * W31"
  using unsigned_less [of x, where ?'a = nat] by (simp add: W31_def)

lemma length_sub_loop: "length (fst (i31_sub_loop ctl cc a b)) = min (length a) (length b)"
  by (induction ctl cc a b rule: i31_sub_loop.induct) (auto simp: Let_def split: prod.split)

lemma length_add_loop: "length (fst (i31_add_loop ctl cc a b)) = min (length a) (length b)"
  by (induction ctl cc a b rule: i31_add_loop.induct) (auto simp: Let_def split: prod.split)

text \<open>One word of the subtraction and of the addition.\<close>

lemma sub_digit:
  fixes aw bw cc :: u32
  assumes "unat aw < W31" "unat bw < W31" "unat cc \<le> 1"
  obtains d c where "unat ((aw - bw - cc) AND 0x7FFFFFFF) = d" "unat (drop_bit 31 (aw - bw - cc)) = c"
    "c \<le> 1" "d < W31" "unat aw + W31 * c = d + unat bw + unat cc"
proof -
  let ?n = "aw - bw - cc"
  let ?k = "unat ?n"
  have w: "2 * W31 = 2 ^ 32" by (simp add: W31_def)
  have u: "?k = (if unat bw + unat cc \<le> unat aw then unat aw - (unat bw + unat cc) else unat aw + 2 * W31 - (unat bw + unat cc))"
  proof -
    have b: "unat (bw + cc) = unat bw + unat cc" by (rule unat_plus_small) (use assms in \<open>simp add: W31_def\<close>)
    have n: "?n = aw - (bw + cc)" by simp
    show ?thesis using unat_sub_if' [of aw "bw + cc"] unfolding n b w by simp
  qed
  have d: "?k = ?k mod W31 + W31 * (?k div W31)" by simp
  have m: "?k mod W31 < W31" by simp
  show thesis
  proof (cases "unat bw + unat cc \<le> unat aw")
    case True
    then have "?k < W31" using u assms by simp
    then show thesis using that [of ?k 0] True u by (simp add: unat_mask31 unat_high31)
  next
    case False
    then have k: "?k = unat aw + 2 * W31 - (unat bw + unat cc)" and "W31 \<le> ?k" "?k < 2 * W31" using u assms by simp_all
    then have q: "?k div W31 = 1" by (intro div_nat_eqI) simp_all
    then have r: "?k = ?k mod W31 + W31" using d by simp
    show thesis by (rule that [of "?k mod W31" 1]) (use q r k m assms in \<open>simp_all add: unat_mask31 unat_high31\<close>)
  qed
qed

lemma add_digit:
  fixes aw bw cc :: u32
  assumes "unat aw < W31" "unat bw < W31" "unat cc \<le> 1"
  obtains d c where "unat ((aw + bw + cc) AND 0x7FFFFFFF) = d" "unat (drop_bit 31 (aw + bw + cc)) = c"
    "c \<le> 1" "d < W31" "unat aw + unat bw + unat cc = d + W31 * c"
proof -
  have "unat (aw + bw) = unat aw + unat bw" by (rule unat_plus_small) (use assms in \<open>simp add: W31_def\<close>)
  moreover have "unat (aw + bw + cc) = unat (aw + bw) + unat cc"
    by (rule unat_plus_small) (use assms calculation in \<open>simp add: W31_def\<close>)
  ultimately have u: "unat (aw + bw + cc) = unat aw + unat bw + unat cc" by simp
  have "unat aw + unat bw + unat cc < 2 * W31" using assms by simp
  then have "(unat aw + unat bw + unat cc) div W31 < 2" by (rule less_mult_imp_div_less)
  then show thesis
    by (intro that [of "(unat aw + unat bw + unat cc) mod W31" "(unat aw + unat bw + unat cc) div W31"])
       (simp_all add: unat_mask31 unat_high31 u)
qed

lemma sub_loop_correct:
  assumes "digits31 a" "digits31 b" "length a = length b" "unat cc \<le> 1"
  obtains r c d where "i31_sub_loop (of_bool t) cc a b = (r, c)" "r = (if t then d else a)"
    "length d = length a" "digits31 d" "unat c \<le> 1" "num31 a + W31 ^ length a * unat c = num31 d + num31 b + unat cc"
  using assms
proof (induction a arbitrary: b cc thesis)
  case Nil
  then show ?case using Nil.prems(1) [of "[]" cc "[]"] by simp
next
  case (Cons aw a)
  obtain bw b' where b: "b = bw # b'" using Cons.prems by (cases b) auto
  have p: "unat aw < W31" "digits31 a" "unat bw < W31" "digits31 b'" "length a = length b'" "unat cc \<le> 1"
    using Cons.prems by (simp_all add: b)
  obtain d0 c0 where 1: "unat ((aw - bw - cc) AND 0x7FFFFFFF) = d0" "unat (drop_bit 31 (aw - bw - cc)) = c0"
    "c0 \<le> 1" "d0 < W31" "unat aw + W31 * c0 = d0 + unat bw + unat cc"
    using sub_digit [OF p(1) p(3) p(6)] by blast
  obtain r c d where 2: "i31_sub_loop (of_bool t) (drop_bit 31 (aw - bw - cc)) a b' = (r, c)" "r = (if t then d else a)"
    "length d = length a" "digits31 d" "unat c \<le> 1" "num31 a + W31 ^ length a * unat c = num31 d + num31 b' + c0"
    using Cons.IH [of "drop_bit 31 (aw - bw - cc)" b'] p 1(2,3) by metis
  have e: "W31 * num31 a + W31 * W31 ^ length a * unat c = W31 * num31 d + W31 * num31 b' + W31 * c0"
    using arg_cong [OF 2(6), of "\<lambda>x. W31 * x"] by (simp add: algebra_simps)
  let ?w = "(aw - bw - cc) AND 0x7FFFFFFF"
  show ?case
  proof (rule Cons.prems(1))
    show "i31_sub_loop (of_bool t) cc (aw # a) b = (MUX (of_bool t) ?w aw # r, c)" by (simp add: b 2(1))
    show "MUX (of_bool t) ?w aw # r = (if t then ?w # d else aw # a)" by (simp add: MUX_eq 2(2))
    show "num31 (aw # a) + W31 ^ length (aw # a) * unat c = num31 (?w # d) + num31 b + unat cc"
      using e 1 by (simp add: b)
  qed (use 1 2 in simp_all)
qed

lemma add_loop_correct:
  assumes "digits31 a" "digits31 b" "length a = length b" "unat cc \<le> 1"
  obtains r c d where "i31_add_loop (of_bool t) cc a b = (r, c)" "r = (if t then d else a)"
    "length d = length a" "digits31 d" "unat c \<le> 1" "num31 a + num31 b + unat cc = num31 d + W31 ^ length a * unat c"
  using assms
proof (induction a arbitrary: b cc thesis)
  case Nil
  then show ?case using Nil.prems(1) [of "[]" cc "[]"] by simp
next
  case (Cons aw a)
  obtain bw b' where b: "b = bw # b'" using Cons.prems by (cases b) auto
  have p: "unat aw < W31" "digits31 a" "unat bw < W31" "digits31 b'" "length a = length b'" "unat cc \<le> 1"
    using Cons.prems by (simp_all add: b)
  obtain d0 c0 where 1: "unat ((aw + bw + cc) AND 0x7FFFFFFF) = d0" "unat (drop_bit 31 (aw + bw + cc)) = c0"
    "c0 \<le> 1" "d0 < W31" "unat aw + unat bw + unat cc = d0 + W31 * c0"
    using add_digit [OF p(1) p(3) p(6)] by blast
  obtain r c d where 2: "i31_add_loop (of_bool t) (drop_bit 31 (aw + bw + cc)) a b' = (r, c)" "r = (if t then d else a)"
    "length d = length a" "digits31 d" "unat c \<le> 1" "num31 a + num31 b' + c0 = num31 d + W31 ^ length a * unat c"
    using Cons.IH [of "drop_bit 31 (aw + bw + cc)" b'] p 1(2,3) by metis
  have e: "W31 * num31 a + W31 * num31 b' + W31 * c0 = W31 * num31 d + W31 * W31 ^ length a * unat c"
    using arg_cong [OF 2(6), of "\<lambda>x. W31 * x"] by (simp add: algebra_simps)
  let ?w = "(aw + bw + cc) AND 0x7FFFFFFF"
  show ?case
  proof (rule Cons.prems(1))
    show "i31_add_loop (of_bool t) cc (aw # a) b = (MUX (of_bool t) ?w aw # r, c)" by (simp add: b 2(1))
    show "MUX (of_bool t) ?w aw # r = (if t then ?w # d else aw # a)" by (simp add: MUX_eq 2(2))
    show "num31 (aw # a) + num31 b + unat cc = num31 (?w # d) + W31 ^ length (aw # a) * unat c"
      using e 1 by (simp add: b)
  qed (use 1 2 in simp_all)
qed

text \<open>Headers: the number of words \<open>n\<close> that a bit length announces.\<close>

definition hdr31 :: "nat \<Rightarrow> u32 \<Rightarrow> bool" where
  "hdr31 n h \<longleftrightarrow> unat h + 63 < 2 ^ 32 \<and> (unat h + 31) div 32 = n"

lemma hdr_len: "hdr31 n h \<Longrightarrow> unat (drop_bit 5 (h + 31)) = n"
  using unat_plus_small [of h 31] by (simp add: hdr31_def unat_shift)

lemma hdr_len_sub: "hdr31 n h \<Longrightarrow> unat (drop_bit 5 (h + 63)) = Suc n"
  using unat_plus_small [of h 63] div_add_self1 [of 32 "unat h + 31"] by (simp add: hdr31_def unat_shift)

lemma hdr_i31_len: "hdr31 n (x ! 0) \<Longrightarrow> i31_len x = n"
  by (simp add: i31_len_def hdr_len)

lemma hdr_zero: "hdr31 n h \<Longrightarrow> br_i31_zero h = h # replicate n 0"
  by (simp add: br_i31_zero_def hdr_len)

lemma i31_words_array [simp]: "length w = n \<Longrightarrow> i31_words n (h # w) = w"
  by (simp add: i31_words_def)

lemma br_i31_sub_correct:
  assumes "hdr31 n h" "length a = n" "digits31 a" "length (i31_words n b) = n" "digits31 (i31_words n b)"
  obtains d c where "br_i31_sub (h # a) b (of_bool t) = (h # (if t then d else a), of_bool c)"
    "length d = n" "digits31 d" "num31 a + (if c then W31 ^ n else 0) = num31 d + num31 (i31_words n b)"
    "c \<longleftrightarrow> num31 a < num31 (i31_words n b)"
proof -
  obtain r c d where s: "i31_sub_loop (of_bool t) 0 a (i31_words n b) = (r, c)" "r = (if t then d else a)"
    "length d = length a" "digits31 d" "unat c \<le> 1" "num31 a + W31 ^ length a * unat c = num31 d + num31 (i31_words n b) + 0"
    using sub_loop_correct [of a "i31_words n b" 0 t] assms by (auto simp: unat_0)
  have l: "num31 d < W31 ^ n" "num31 (i31_words n b) < W31 ^ n"
    using num31_less [OF s(4)] num31_less [OF assms(5)] s(3) assms(2,4) by simp_all
  from s(5) have c01: "unat c = 0 \<or> unat c = 1" by linarith
  then have c: "c = of_bool (c = 1)" by (auto simp: word_unat_eq_iff)
  have e: "num31 a + (if c = 1 then W31 ^ n else 0) = num31 d + num31 (i31_words n b)"
    using s(6) c01 assms(2) by (subst (asm) c, cases "c = 1") (simp_all)
  show thesis
  proof (rule that [where c = "c = 1" and d = d])
    show "br_i31_sub (h # a) b (of_bool t) = (h # (if t then d else a), of_bool (c = 1))"
      using assms s(1,2) c by (simp add: br_i31_sub_def hdr_len_sub)
    show "(c = 1) \<longleftrightarrow> num31 a < num31 (i31_words n b)" using e l by (auto split: if_splits)
  qed (use e s assms in simp_all)
qed

lemma br_i31_add_correct:
  assumes "hdr31 n h" "length a = n" "digits31 a" "length (i31_words n b) = n" "digits31 (i31_words n b)"
  obtains d c where "br_i31_add (h # a) b (of_bool t) = (h # (if t then d else a), c)"
    "length d = n" "digits31 d" "num31 d = (num31 a + num31 (i31_words n b)) mod W31 ^ n"
proof -
  obtain r c d where s: "i31_add_loop (of_bool t) 0 a (i31_words n b) = (r, c)" "r = (if t then d else a)"
    "length d = length a" "digits31 d" "num31 a + num31 (i31_words n b) + 0 = num31 d + W31 ^ length a * unat c"
    by (rule add_loop_correct [of a "i31_words n b" 0 t]) (use assms in auto)
  have "num31 d < W31 ^ n" using num31_less [OF s(4)] s(3) assms(2) by simp
  then have "num31 d = (num31 a + num31 (i31_words n b)) mod W31 ^ n" using s(5) assms(2) by simp
  then show thesis using that s assms by (simp add: br_i31_add_def hdr_len_sub)
qed

section \<open>The inverse of the modulus\<close>

text \<open>Newton's iteration: the error of \<open>y\<close> as an inverse of \<open>x\<close> is squared by each step.\<close>

lemma newton_step: "1 - (y * (2 - y * x)) * x = (1 - y * x) ^ 2" for x y :: u32
  by (simp add: algebra_simps power2_eq_square)

lemma ninv31_word:
  assumes "odd (unat x)"
  shows "br_i31_ninv31 x = (- (let y = 2 - x; y = y * (2 - y * x); y = y * (2 - y * x); y = y * (2 - y * x) in y * (2 - y * x))) AND 0x7FFFFFFF"
proof -
  have "x AND 1 = of_bool True"
    using assms bit_unsigned_iff [of x 0, where 'a = nat] by (simp add: bit_0 and_one_eq mod_2_eq_odd)
  then have m: "MUX (x AND 1) a b = a" for a b using MUX_eq [of True a b] by simp
  show ?thesis by (simp add: br_i31_ninv31_def Let_def m)
qed

lemma newton_inverse:
  assumes "odd (unat x)"
  shows "(let y = 2 - x; y = y * (2 - y * x); y = y * (2 - y * x); y = y * (2 - y * x) in y * (2 - y * x)) * x = (1 :: u32)"
proof -
  obtain k where k: "unat x = 2 * k + 1" using assms by (rule oddE)
  have x: "x = 2 * word_of_nat k + 1" using arg_cong [OF k, of "word_of_nat :: nat \<Rightarrow> u32"] by simp
  have e: "1 - (2 - x) * x = (1 - x) ^ 2" by (simp add: algebra_simps power2_eq_square)
  have "(1 - x) ^ 32 = (2 * (- word_of_nat k)) ^ 32" by (simp add: x)
  also have "\<dots> = 2 ^ 32 * (- word_of_nat k) ^ 32" by (rule power_mult_distrib)
  also have "(2 :: u32) ^ 32 = 0" by simp
  finally have z: "(1 - x) ^ 32 = 0" by simp
  have "1 - (let y = 2 - x; y = y * (2 - y * x); y = y * (2 - y * x); y = y * (2 - y * x) in y * (2 - y * x)) * x = (1 - x) ^ 32"
    unfolding Let_def newton_step e by (simp add: power_mult [symmetric])
  then show ?thesis unfolding z by simp
qed

lemma ninv31_correct:
  assumes "odd (unat x)"
  shows "(unat x * unat (br_i31_ninv31 x) + 1) mod W31 = 0" "odd (unat (br_i31_ninv31 x))" "unat (br_i31_ninv31 x) < W31"
proof -
  define y where "y = (let y = 2 - x; y = y * (2 - y * x); y = y * (2 - y * x); y = y * (2 - y * x) in y * (2 - y * x))"
  have r: "br_i31_ninv31 x = (- y) AND 0x7FFFFFFF" unfolding y_def by (rule ninv31_word [OF assms])
  have "y * x = 1" unfolding y_def by (rule newton_inverse [OF assms])
  then have "x * (- y) + 1 = 0" by (simp add: algebra_simps)
  moreover have "word_of_nat (unat x * unat (- y) + 1) = x * (- y) + 1"
    by simp
  ultimately have "unat (word_of_nat (unat x * unat (- y) + 1) :: u32) = 0" by simp
  then have "(unat x * unat (- y) + 1) mod 2 ^ 32 = 0" by (simp only: unat_of_nat) simp
  then have "2 ^ 32 dvd unat x * unat (- y) + 1" by (rule dvd_eq_mod_eq_0 [THEN iffD2])
  then have "W31 dvd unat x * unat (- y) + 1" by (rule dvd_trans [rotated]) (simp add: W31_def)
  then have d: "(unat x * unat (- y) + 1) mod W31 = 0" by (rule mod_eq_0_iff_dvd [THEN iffD2])
  show c: "(unat x * unat (br_i31_ninv31 x) + 1) mod W31 = 0"
    unfolding r unat_mask31 by (rule trans [OF _ d]) (metis mod_add_left_eq mod_mult_right_eq)
  show "unat (br_i31_ninv31 x) < W31" by (simp add: r unat_mask31)
  have "W31 dvd unat x * unat (br_i31_ninv31 x) + 1" using c by (rule mod_eq_0_iff_dvd [THEN iffD1])
  then have "2 dvd unat x * unat (br_i31_ninv31 x) + 1" by (rule dvd_trans [rotated]) (simp add: W31_def)
  then show "odd (unat (br_i31_ninv31 x))" by auto
qed

section \<open>Montgomery multiplication\<close>

lemma row_bound:
  fixes a b c x y :: nat
  assumes "a < W31" "x < W31" "b < W31" "y < W31" "c < W31" "r < 2 * W31"
  shows "a + x * b + y * c + r < 2 * W31 * W31"
proof -
  have w: "a + 1 \<le> W31" "x \<le> W31 - 1" "b \<le> W31 - 1" "y \<le> W31 - 1" "c \<le> W31 - 1" "r + 1 \<le> 2 * W31" using assms by simp_all
  have "x * b \<le> (W31 - 1) * (W31 - 1)" "y * c \<le> (W31 - 1) * (W31 - 1)" using w by (simp_all add: mult_mono)
  then have "a + x * b + y * c + r + 2 \<le> W31 + 2 * ((W31 - 1) * (W31 - 1)) + 2 * W31" using w by linarith
  also have "\<dots> \<le> 2 * W31 * W31 + 1" by (simp add: W31_def)
  finally show ?thesis by simp
qed

lemma row_digit:
  fixes dv yv mv xu f r :: u32
  assumes "unat dv < W31" "unat yv < W31" "unat mv < W31" "unat xu < W31" "unat f < W31"
    and z: "z = (ucast dv + mul64 xu yv + mul64 f mv + ucast r :: u64)"
  shows "unat (ucast z AND 0x7FFFFFFF :: u32) < W31"
    "unat dv + unat xu * unat yv + unat f * unat mv + unat r
       = unat (ucast z AND 0x7FFFFFFF :: u32) + W31 * unat (ucast (drop_bit 31 z) :: u32)"
proof -
  have b: "unat dv + unat xu * unat yv + unat f * unat mv + unat r < 2 * W31 * W31"
    using assms by (intro row_bound) (simp_all add: unat_u32)
  then have b64: "unat dv + unat xu * unat yv + unat f * unat mv + unat r < 2 ^ LENGTH(64)" by (simp add: W31_def)
  have "unat (ucast dv + mul64 xu yv) = unat dv + unat xu * unat yv"
    using b64 by (subst unat_plus_small) (simp_all add: unat_widen unat_mul64)
  then have "unat (ucast dv + mul64 xu yv + mul64 f mv) = unat dv + unat xu * unat yv + unat f * unat mv"
    using b64 by (subst unat_plus_small) (simp_all add: unat_widen unat_mul64)
  then have u: "unat z = unat dv + unat xu * unat yv + unat f * unat mv + unat r"
    using b64 unfolding z by (subst unat_plus_small) (simp_all add: unat_widen unat_mul64)
  show "unat (ucast z AND 0x7FFFFFFF :: u32) < W31" by (simp add: unat_mask31)
  have lo: "unat (ucast z AND 0x7FFFFFFF :: u32) = unat z mod W31"
    by (simp add: unat_mask31 unat_narrow W31_def mod_mod_cancel)
  have "unat z < W31 * (2 * W31)" using b u by (simp add: mult_ac)
  then have "unat z div W31 < 2 * W31" by (simp add: less_mult_imp_div_less mult.commute)
  then have hi: "unat (ucast (drop_bit 31 z) :: u32) = unat z div W31"
    by (simp add: unat_narrow unat_shift W31_def)
  show "unat dv + unat xu * unat yv + unat f * unat mv + unat r
       = unat (ucast z AND 0x7FFFFFFF :: u32) + W31 * unat (ucast (drop_bit 31 z) :: u32)"
    unfolding lo hi u [symmetric] by simp
qed

lemma monty_row_correct:
  assumes "digits31 d" "digits31 y" "digits31 m" "length y = length d" "length m = length d" "unat xu < W31" "unat f < W31"
  obtains ws c where "monty_row xu f r d y m = (ws, c)" "length ws = length d" "digits31 ws"
    "num31 d + unat xu * num31 y + unat f * num31 m + unat r = num31 ws + W31 ^ length d * unat c"
  using assms
proof (induction d arbitrary: y m r thesis)
  case Nil
  then show ?case by simp
next
  case (Cons dv d)
  obtain yv y' mv m' where e: "y = yv # y'" "m = mv # m'" using Cons.prems by (cases y; cases m) auto
  have p: "unat dv < W31" "unat yv < W31" "unat mv < W31" "digits31 d" "digits31 y'" "digits31 m'"
    "length y' = length d" "length m' = length d" "unat xu < W31" "unat f < W31"
    using Cons.prems by (simp_all add: e)
  define z where "z = (ucast dv + mul64 xu yv + mul64 f mv + ucast r :: u64)"
  note D = row_digit [OF p(1,2,3,9,10) z_def]
  obtain ws c where 1: "monty_row xu f (ucast (drop_bit 31 z)) d y' m' = (ws, c)" "length ws = length d" "digits31 ws"
    "num31 d + unat xu * num31 y' + unat f * num31 m' + unat (ucast (drop_bit 31 z) :: u32) = num31 ws + W31 ^ length d * unat c"
    by (rule Cons.IH [OF _ p(4-10)])
  have g: "W31 * num31 d + W31 * (unat xu * num31 y') + W31 * (unat f * num31 m') + W31 * unat (ucast (drop_bit 31 z) :: u32)
      = W31 * num31 ws + W31 * (W31 ^ length d * unat c)"
    using arg_cong [OF 1(4), of "\<lambda>x. W31 * x"] by (simp add: distrib_left)
  show ?case
  proof (rule Cons.prems(1))
    show "monty_row xu f r (dv # d) y m = ((ucast z AND 0x7FFFFFFF) # ws, c)" using 1(1) by (simp add: e Let_def z_def)
    show "num31 (dv # d) + unat xu * num31 y + unat f * num31 m + unat r
        = num31 ((ucast z AND 0x7FFFFFFF) # ws) + W31 ^ length (dv # d) * unat c"
      using g D(2) by (simp add: e distrib_left mult.left_commute [of _ W31] mult.assoc)
  qed (use 1 D(1) in simp_all)
qed

text \<open>The multiple of the modulus that clears the lowest word.\<close>

lemma monty_factor:
  fixes d0 xu y0 m0 m0i :: u32
  assumes "(unat m0 * unat m0i + 1) mod W31 = 0"
  shows "(unat d0 + unat xu * unat y0 + unat (MUL31_lo (d0 + MUL31_lo xu y0) m0i) * unat m0) mod W31 = 0"
proof -
  have w: "2 ^ 32 mod W31 = 0" "W31 dvd 2 ^ 32" by (simp_all add: W31_def)
  have lo: "unat (MUL31_lo a b) mod W31 = unat a * unat b mod W31" for a b
    unfolding MUL31_lo_def unat_mask31 unat_word_ariths by (simp add: mod_mod_cancel W31_def)
  have s: "unat (d0 + MUL31_lo xu y0) mod W31 = (unat d0 + unat xu * unat y0) mod W31"
  proof -
    have "unat (d0 + MUL31_lo xu y0) mod W31 = (unat d0 + unat (MUL31_lo xu y0)) mod W31"
      unfolding unat_word_ariths by (simp add: mod_mod_cancel W31_def)
    also have "\<dots> = (unat d0 + unat (MUL31_lo xu y0) mod W31) mod W31" by (rule mod_add_right_eq [symmetric])
    finally show ?thesis unfolding lo by (simp add: mod_add_right_eq)
  qed
  let ?s = "unat d0 + unat xu * unat y0" and ?f = "unat (MUL31_lo (d0 + MUL31_lo xu y0) m0i)"
  have f: "?f mod W31 = ?s * unat m0i mod W31"
    unfolding lo by (metis s mod_mult_left_eq)
  have "(?s + ?f * unat m0) mod W31 = (?s + ?s * unat m0i * unat m0) mod W31"
    by (metis f mod_add_right_eq mod_mult_left_eq)
  also have "?s + ?s * unat m0i * unat m0 = ?s * (unat m0 * unat m0i + 1)" by (simp add: algebra_simps)
  also have "\<dots> mod W31 = 0" using assms by (metis mod_mult_right_eq mult_0_right mod_0)
  finally show ?thesis .
qed

lemma num31_hd: "ws \<noteq> [] \<Longrightarrow> num31 ws = unat (hd ws) + W31 * num31 (tl ws)"
  by (cases ws) simp_all

lemma MUL31_lo_less: "unat (MUL31_lo a b) < W31"
  by (simp add: MUL31_lo_def unat_mask31)

text \<open>A word list with the extra word \<open>dh\<close> as a number.\<close>

definition num_dh :: "u32 list \<Rightarrow> u32 \<Rightarrow> nat" where
  "num_dh d dh = num31 d + W31 ^ length d * unat dh"

lemma monty_step:
  assumes d: "digits31 d" "digits31 y" "digits31 m" "length y = length d" "length m = length d" "d \<noteq> []" "unat xu < W31"
    and inv: "(unat (m ! 0) * unat m0i + 1) mod W31 = 0"
    and lt: "num31 y < num31 m" "num_dh d dh < 2 * num31 m"
    and f: "f = MUL31_lo (d ! 0 + MUL31_lo xu (y ! 0)) m0i"
    and row: "monty_row xu f 0 d y m = (ws, r)"
    and d': "d' = tl ws @ [(dh + r) AND 0x7FFFFFFF]" and dh': "dh' = drop_bit 31 (dh + r)"
  shows "length d' = length d" "digits31 d'" "num_dh d' dh' < 2 * num31 m"
    "W31 * num_dh d' dh' = num_dh d dh + unat xu * num31 y + unat f * num31 m"
proof -
  have fl: "unat f < W31" by (simp add: f MUL31_lo_less)
  obtain n where n: "length d = Suc n" using d(6) by (cases d) auto
  have w: "length ws = length d" "digits31 ws"
    "num31 d + unat xu * num31 y + unat f * num31 m = num31 ws + W31 ^ length d * unat r"
    using monty_row_correct [OF d(1-5) d(7) fl, of 0] row by (auto simp: unat_0)
  have ne: "ws \<noteq> []" "y \<noteq> []" "m \<noteq> []" using w(1) d by auto
  have h: "unat (hd ws) < W31" "digits31 (tl ws)" "length (tl ws) = n" using w ne n by (cases ws; simp)+
  have first: "unat (hd ws) = 0"
  proof -
    have "num31 d + unat xu * num31 y + unat f * num31 m
        = unat (d ! 0) + unat xu * unat (y ! 0) + unat f * unat (m ! 0)
          + W31 * (num31 (tl d) + unat xu * num31 (tl y) + unat f * num31 (tl m))"
      using d(6) ne by (simp add: num31_hd [of d] num31_hd [of y] num31_hd [of m] hd_conv_nth algebra_simps)
    then have "(num31 d + unat xu * num31 y + unat f * num31 m) mod W31 = (unat (d ! 0) + unat xu * unat (y ! 0) + unat f * unat (m ! 0)) mod W31"
      by simp
    also have "\<dots> = 0" unfolding f by (rule monty_factor [OF inv])
    finally have "(num31 ws + W31 ^ length d * unat r) mod W31 = 0" unfolding w(3) .
    moreover have "num31 ws + W31 ^ length d * unat r = unat (hd ws) + W31 * (num31 (tl ws) + W31 ^ n * unat r)"
      using ne by (simp add: num31_hd [of ws] n algebra_simps)
    ultimately have "unat (hd ws) mod W31 = 0" by simp
    then show ?thesis using h(1) by simp
  qed
  have tot: "num_dh d dh + unat xu * num31 y + unat f * num31 m = num31 ws + W31 ^ length d * (unat dh + unat r)"
    using w(3) by (simp add: num_dh_def algebra_simps)
  have bound: "num_dh d dh + unat xu * num31 y + unat f * num31 m < 2 * W31 * num31 m"
  proof -
    have "unat xu * num31 y \<le> (W31 - 1) * num31 m" using d(7) lt(1) by (intro mult_mono) simp_all
    moreover have "unat f * num31 m \<le> (W31 - 1) * num31 m" using fl by (intro mult_mono) simp_all
    moreover have "W31 * num31 m = (W31 - 1) * num31 m + num31 m" by (simp add: diff_mult_distrib W31_def)
    ultimately show ?thesis using lt(2) by linarith
  qed
  have "unat dh + unat r < 2 * W31"
  proof -
    have "W31 ^ length d * (unat dh + unat r) \<le> num31 ws + W31 ^ length d * (unat dh + unat r)" by simp
    also have "\<dots> < 2 * W31 * num31 m" using bound unfolding tot .
    also have "\<dots> \<le> 2 * W31 * W31 ^ length d" using num31_less [OF d(3)] d(5) by (intro mult_le_mono2) simp
    also have "\<dots> = W31 ^ length d * (2 * W31)" by (rule mult.commute)
    finally show ?thesis by (simp only: mult_less_cancel1)
  qed
  then have s: "unat (dh + r) = unat dh + unat r" by (subst unat_plus_small) (simp_all add: W31_def)
  have l: "length d' = length d" by (simp add: d' w(1) n)
  have k: "num_dh d' dh' = num31 (tl ws) + W31 ^ n * (unat dh + unat r)"
  proof -
    have j: "p * (x mod q) + q * p * (x div q) = p * x" for p q x :: nat
      by (metis distrib_left mod_mult_div_eq mult.assoc mult.commute)
    show ?thesis
      using j [of "W31 ^ n" "unat (dh + r)" W31]
      by (simp add: num_dh_def l n d' dh' w(1) unat_mask31 unat_high31 s)
  qed
  have v: "W31 * num_dh d' dh' = num_dh d dh + unat xu * num31 y + unat f * num31 m"
    unfolding tot k by (simp add: num31_hd [OF ne(1)] first n distrib_left mult.assoc)
  show "length d' = length d" by (rule l)
  show "digits31 d'" by (simp add: d' h(2) unat_mask31)
  show "W31 * num_dh d' dh' = num_dh d dh + unat xu * num31 y + unat f * num31 m" by (rule v)
  have "W31 * num_dh d' dh' < W31 * (2 * num31 m)" using bound by (simp add: v mult_ac)
  then show "num_dh d' dh' < 2 * num31 m" by (simp only: mult_less_cancel1)
qed

lemma monty_rows_correct:
  assumes "digits31 y" "digits31 m" "length y = n" "length m = n" "0 < n"
    and inv: "(unat (m ! 0) * unat m0i + 1) mod W31 = 0" and lt: "num31 y < num31 m"
    and "digits31 xs" "digits31 d" "length d = n" "num_dh d dh < 2 * num31 m"
  shows "\<exists>w h k. monty_rows y m m0i xs d dh = (w, h) \<and> length w = n \<and> digits31 w \<and> num_dh w h < 2 * num31 m
           \<and> W31 ^ length xs * num_dh w h = num_dh d dh + num31 xs * num31 y + k * num31 m"
  using assms(8-11)
proof (induction xs arbitrary: d dh)
  case (Cons xu xs)
  define f where "f = MUL31_lo (d ! 0 + MUL31_lo xu (y ! 0)) m0i"
  obtain ws r where row: "monty_row xu f 0 d y m = (ws, r)" by fastforce
  define d' where "d' = tl ws @ [(dh + r) AND 0x7FFFFFFF]"
  define dh' where "dh' = drop_bit 31 (dh + r)"
  have ne: "d \<noteq> []" and xu: "unat xu < W31" and xs: "digits31 xs" using Cons.prems assms(5) by auto
  note S = monty_step [OF Cons.prems(2) assms(1,2) _ _ ne xu inv lt Cons.prems(4) f_def row d'_def dh'_def]
  have S: "length d' = n" "digits31 d'" "num_dh d' dh' < 2 * num31 m"
    "W31 * num_dh d' dh' = num_dh d dh + unat xu * num31 y + unat f * num31 m"
    using S assms(3,4) Cons.prems(3) by simp_all
  obtain w h k where r: "monty_rows y m m0i xs d' dh' = (w, h)" "length w = n" "digits31 w" "num_dh w h < 2 * num31 m"
    "W31 ^ length xs * num_dh w h = num_dh d' dh' + num31 xs * num31 y + k * num31 m"
    using Cons.IH [OF xs S(2,1,3)] by blast
  have e: "monty_rows y m m0i (xu # xs) d dh = (w, h)"
    using r(1) row by (simp add: Let_def f_def d'_def dh'_def)
  have "W31 ^ length (xu # xs) * num_dh w h = W31 * (W31 ^ length xs * num_dh w h)" by (simp add: mult.assoc)
  also have "\<dots> = W31 * num_dh d' dh' + W31 * (num31 xs * num31 y) + W31 * (k * num31 m)" by (simp only: r(5) distrib_left)
  also have "\<dots> = num_dh d dh + num31 (xu # xs) * num31 y + (unat f + W31 * k) * num31 m" by (simp add: S(4) algebra_simps)
  finally show ?case using e r(2-4) by blast
qed (use assms in auto)

text \<open>
  A modulus of \<open>n\<close> words and the negated inverse of its lowest word; the residues it acts on.
\<close>

definition modulus31 :: "nat \<Rightarrow> u32 list \<Rightarrow> bool" where
  "modulus31 n m \<longleftrightarrow> 0 < n \<and> hdr31 n (m ! 0) \<and> length (i31_words n m) = n \<and> digits31 (i31_words n m)"

definition ninv_of :: "u32 list \<Rightarrow> u32 \<Rightarrow> bool" where
  "ninv_of m m0i \<longleftrightarrow> (unat (m ! 1) * unat m0i + 1) mod W31 = 0"

definition residue31 :: "nat \<Rightarrow> u32 list \<Rightarrow> u32 list \<Rightarrow> bool" where
  "residue31 n m x \<longleftrightarrow> (\<exists>w. x = m ! 0 # w \<and> length w = n \<and> digits31 w \<and> num31 w < num31 (i31_words n m))"

lemma ct_bools: "NEQ_ct x 0 = of_bool (x \<noteq> 0)" "NOT_ct (of_bool c) = of_bool (\<not> c)"
  "of_bool a OR of_bool b = (of_bool (a \<or> b) :: u32)"
proof -
  show "NEQ_ct x 0 = of_bool (x \<noteq> 0)"
    using bit_31_or_uminus [of x] by (auto simp: NEQ_ct_def Let_def drop_bit_31 bit_or_iff)
qed (auto simp: NOT_ct_def)

lemma br_i31_montymul_correct:
  assumes m: "modulus31 n m" and inv: "ninv_of m m0i"
    and x: "length (i31_words n x) = n" "digits31 (i31_words n x)"
    and y: "length (i31_words n y) = n" "digits31 (i31_words n y)" "num31 (i31_words n y) < num31 (i31_words n m)"
  obtains w where "br_i31_montymul x y m m0i = m ! 0 # w" "length w = n" "digits31 w" "num31 w < num31 (i31_words n m)"
    "W31 ^ n * num31 w mod num31 (i31_words n m) = num31 (i31_words n x) * num31 (i31_words n y) mod num31 (i31_words n m)"
proof -
  define M where "M = num31 (i31_words n m)"
  have h: "hdr31 n (m ! 0)" and n: "0 < n" and ml: "length (i31_words n m) = n" "digits31 (i31_words n m)"
    using m by (simp_all add: modulus31_def)
  have M: "M < W31 ^ n" using num31_less [OF ml(2)] ml(1) by (simp add: M_def)
  have m1: "i31_words n m ! 0 = m ! 1" using ml(1) n by (simp add: i31_words_def nth_tl)
  have i: "(unat (i31_words n m ! 0) * unat m0i + 1) mod W31 = 0" using inv unfolding ninv_of_def m1 .
  have z: "num_dh (replicate n 0) 0 < 2 * num31 (i31_words n m)" using y(3) by (simp add: num_dh_def)
  obtain w dh k where r: "monty_rows (i31_words n y) (i31_words n m) m0i (i31_words n x) (replicate n 0) 0 = (w, dh)"
    "length w = n" "digits31 w" "num_dh w dh < 2 * M"
    "W31 ^ n * num_dh w dh = num31 (i31_words n x) * num31 (i31_words n y) + k * M"
    using monty_rows_correct [OF y(2) ml(2) y(1) ml(1) n i y(3) x(2) digits31_zeros _ z] x(1) by (auto simp: M_def num_dh_def)
  obtain c0 where s0: "fst (br_i31_sub (m ! 0 # w) m (of_bool False)) = m ! 0 # w"
    "snd (br_i31_sub (m ! 0 # w) m (of_bool False)) = of_bool c0" "c0 \<longleftrightarrow> num31 w < M"
    by (rule br_i31_sub_correct [OF h r(2,3) ml, where t = False]) (simp add: M_def)
  define t where "t = (dh \<noteq> 0 \<or> \<not> c0)"
  obtain d c where s1: "br_i31_sub (m ! 0 # w) m (of_bool t) = (m ! 0 # (if t then d else w), of_bool c)"
    "length d = n" "digits31 d" "num31 w + (if c then W31 ^ n else 0) = num31 d + M" "c \<longleftrightarrow> num31 w < M"
    unfolding M_def by (rule br_i31_sub_correct [OF h r(2,3) ml, where t = t])
  have e: "br_i31_montymul x y m m0i = m ! 0 # (if t then d else w)"
  proof -
    have "br_i31_sub (m ! 0 # w) m 0 = (m ! 0 # w, of_bool c0)" using s0(1,2) by (intro prod_eqI) simp_all
    then show ?thesis
      using s1(1) r(1) by (simp add: br_i31_montymul_def hdr_i31_len [of n m] h hdr_zero [OF h] ct_bools t_def)
  qed
  have dh: "unat dh = 0 \<or> unat dh = 1"
  proof -
    have "W31 ^ n * unat dh \<le> num_dh w dh" using r(2) by (simp add: num_dh_def)
    also have "\<dots> < 2 * M" by (rule r(4))
    also have "\<dots> \<le> W31 ^ n * 2" using M by simp
    finally have "unat dh < 2" by (simp only: mult_less_cancel1)
    then show ?thesis by linarith
  qed
  define v where "v = (if t then d else w)"
  have v: "num31 v < M \<and> (num_dh w dh = num31 v \<or> num_dh w dh = num31 v + M)"
  proof (cases "unat dh = 0")
    case True
    then have "dh = 0" by (simp add: unat_eq_0)
    then show ?thesis using s0(3) s1(4,5) r(2,4) by (auto simp: t_def v_def num_dh_def split: if_splits)
  next
    case False
    then have "unat dh = 1" "dh \<noteq> 0" using dh by auto
    then show ?thesis using s1(4,5) r(2,4) M by (auto simp: t_def v_def num_dh_def split: if_splits)
  qed
  have "W31 ^ n * num31 v mod M = W31 ^ n * num_dh w dh mod M" using v by (auto simp: distrib_left)
  also have "\<dots> = num31 (i31_words n x) * num31 (i31_words n y) mod M" unfolding r(5) by simp
  finally have vm: "W31 ^ n * num31 v mod M = num31 (i31_words n x) * num31 (i31_words n y) mod M" .
  show thesis
    by (rule that [of v]) (use e v vm r s1 in \<open>simp_all add: v_def M_def\<close>)
qed

abbreviation ival :: "nat \<Rightarrow> u32 list \<Rightarrow> nat" where "ival n x \<equiv> num31 (i31_words n x)"

lemma residueD:
  assumes "residue31 n m x"
  shows "x ! 0 = m ! 0" "length (i31_words n x) = n" "digits31 (i31_words n x)" "ival n x < ival n m"
    "x = m ! 0 # i31_words n x"
  using assms by (auto simp: residue31_def)

lemma residueI: "length w = n \<Longrightarrow> digits31 w \<Longrightarrow> num31 w < ival n m \<Longrightarrow> residue31 n m (m ! 0 # w)"
  by (auto simp: residue31_def)

text \<open>The product of two residues, and its value.\<close>

lemma montymul_residue:
  assumes "modulus31 n m" "ninv_of m m0i" "residue31 n m x" "residue31 n m y"
  shows "residue31 n m (br_i31_montymul x y m m0i)"
    "W31 ^ n * ival n (br_i31_montymul x y m m0i) mod ival n m = ival n x * ival n y mod ival n m"
  using br_i31_montymul_correct [OF assms(1,2) residueD(2,3) [OF assms(3)] residueD(2-4) [OF assms(4)]]
  by (metis residueI i31_words_array)+

section \<open>Conversion from Montgomery representation\<close>

lemma fmont_digit:
  fixes xv mv f :: u32 and cc :: u64
  assumes "unat xv < W31" "unat mv < W31" "unat f < W31" "unat cc < W31"
    and z: "z = (ucast xv + mul64 f mv + cc :: u64)"
  shows "unat (ucast z AND 0x7FFFFFFF :: u32) < W31" "unat (drop_bit 31 z) < W31"
    "unat xv + unat f * unat mv + unat cc = unat (ucast z AND 0x7FFFFFFF :: u32) + W31 * unat (drop_bit 31 z)"
proof -
  have b: "unat xv + unat f * unat mv + unat cc < W31 * W31"
  proof -
    have "unat f * unat mv \<le> (W31 - 1) * (W31 - 1)" using assms by (intro mult_mono) simp_all
    moreover have "W31 * W31 = (W31 - 1) * (W31 - 1) + 2 * (W31 - 1) + 1" by (simp add: W31_def)
    ultimately show ?thesis using assms(1,4) by linarith
  qed
  then have b64: "unat xv + unat f * unat mv + unat cc < 2 ^ LENGTH(64)" by (simp add: W31_def)
  have "unat (ucast xv + mul64 f mv) = unat xv + unat f * unat mv"
    using b64 by (subst unat_plus_small) (simp_all add: unat_widen unat_mul64)
  then have u: "unat z = unat xv + unat f * unat mv + unat cc"
    using b64 unfolding z by (subst unat_plus_small) simp_all
  show "unat (ucast z AND 0x7FFFFFFF :: u32) < W31" by (simp add: unat_mask31)
  have lo: "unat (ucast z AND 0x7FFFFFFF :: u32) = unat z mod W31"
    by (simp add: unat_mask31 unat_narrow W31_def mod_mod_cancel)
  have hi: "unat (drop_bit 31 z) = unat z div W31" by (simp add: unat_shift W31_def)
  show "unat (drop_bit 31 z) < W31" using b unfolding hi u by (simp add: less_mult_imp_div_less)
  show "unat xv + unat f * unat mv + unat cc = unat (ucast z AND 0x7FFFFFFF :: u32) + W31 * unat (drop_bit 31 z)"
    unfolding lo hi u [symmetric] by simp
qed

lemma fmont_row_correct:
  assumes "digits31 x" "digits31 m" "length m = length x" "unat f < W31" "unat cc < W31"
  obtains ws c where "fmont_row f cc x m = (ws, c)" "length ws = length x" "digits31 ws" "unat c < W31"
    "num31 x + unat f * num31 m + unat cc = num31 ws + W31 ^ length x * unat c"
  using assms
proof (induction x arbitrary: m cc thesis)
  case Nil
  then show ?case by simp
next
  case (Cons xv x)
  obtain mv m' where e: "m = mv # m'" using Cons.prems by (cases m) auto
  have p: "unat xv < W31" "unat mv < W31" "digits31 x" "digits31 m'" "length m' = length x" "unat f < W31" "unat cc < W31"
    using Cons.prems by (simp_all add: e)
  define z where "z = (ucast xv + mul64 f mv + cc :: u64)"
  note D = fmont_digit [OF p(1,2,6,7) z_def]
  obtain ws c where 1: "fmont_row f (drop_bit 31 z) x m' = (ws, c)" "length ws = length x" "digits31 ws" "unat c < W31"
    "num31 x + unat f * num31 m' + unat (drop_bit 31 z) = num31 ws + W31 ^ length x * unat c"
    by (rule Cons.IH [OF _ p(3-6) D(2)])
  have g: "W31 * num31 x + W31 * (unat f * num31 m') + W31 * unat (drop_bit 31 z) = W31 * num31 ws + W31 * (W31 ^ length x * unat c)"
    using arg_cong [OF 1(5), of "\<lambda>x. W31 * x"] by (simp add: distrib_left)
  show ?case
  proof (rule Cons.prems(1))
    show "fmont_row f cc (xv # x) m = ((ucast z AND 0x7FFFFFFF) # ws, c)" using 1(1) by (simp add: e Let_def z_def)
    show "num31 (xv # x) + unat f * num31 m + unat cc = num31 ((ucast z AND 0x7FFFFFFF) # ws) + W31 ^ length (xv # x) * unat c"
      using g D(3) by (simp add: e distrib_left mult.left_commute [of _ W31] mult.assoc)
  qed (use 1 D(1) in simp_all)
qed

lemma fmont_step:
  assumes d: "digits31 x" "digits31 m" "length m = length x" "x \<noteq> []"
    and inv: "(unat (m ! 0) * unat m0i + 1) mod W31 = 0" and lt: "num31 x < num31 m"
    and f: "f = MUL31_lo (x ! 0) m0i" and row: "fmont_row f 0 x m = (ws, cc)"
  shows "length (tl ws @ [ucast cc]) = length x" "digits31 (tl ws @ [ucast cc])" "num31 (tl ws @ [ucast cc]) < num31 m"
    "W31 * num31 (tl ws @ [ucast cc]) = num31 x + unat f * num31 m"
proof -
  have fl: "unat f < W31" by (simp add: f MUL31_lo_less)
  obtain n where n: "length x = Suc n" using d(4) by (cases x) auto
  have w: "length ws = length x" "digits31 ws" "unat cc < W31" "num31 x + unat f * num31 m = num31 ws + W31 ^ length x * unat cc"
    using fmont_row_correct [OF d(1-3) fl, of 0] row by (auto simp: unat_0)
  have ne: "ws \<noteq> []" "m \<noteq> []" using w(1) d by auto
  have h: "unat (hd ws) < W31" "digits31 (tl ws)" using w ne by (cases ws; simp)+
  have c: "unat (ucast cc :: u32) = unat cc" using w(3) by (simp add: unat_narrow W31_def)
  have first: "unat (hd ws) = 0"
  proof -
    have "num31 x + unat f * num31 m = unat (x ! 0) + unat f * unat (m ! 0) + W31 * (num31 (tl x) + unat f * num31 (tl m))"
      using d(4) ne by (simp add: num31_hd [of x] num31_hd [of m] hd_conv_nth algebra_simps)
    then have "(num31 x + unat f * num31 m) mod W31 = (unat (x ! 0) + unat f * unat (m ! 0)) mod W31" by simp
    also have "\<dots> = 0" using monty_factor [OF inv, of "x ! 0" 0 0] by (simp add: f MUL31_lo_def)
    finally have "(num31 ws + W31 ^ length x * unat cc) mod W31 = 0" unfolding w(4) .
    moreover have "num31 ws + W31 ^ length x * unat cc = unat (hd ws) + W31 * (num31 (tl ws) + W31 ^ n * unat cc)"
      using ne by (simp add: num31_hd [of ws] n algebra_simps)
    ultimately have "unat (hd ws) mod W31 = 0" by simp
    then show ?thesis using h(1) by simp
  qed
  show "length (tl ws @ [ucast cc]) = length x" by (simp add: w(1) n)
  show "digits31 (tl ws @ [ucast cc])" using h(2) w(3) by (simp add: c)
  show v: "W31 * num31 (tl ws @ [ucast cc]) = num31 x + unat f * num31 m"
    unfolding w(4) by (simp add: num31_hd [OF ne(1)] first n w(1) c distrib_left mult.assoc)
  have "unat f * num31 m \<le> (W31 - 1) * num31 m" using fl by (intro mult_mono) simp_all
  moreover have "W31 * num31 m = (W31 - 1) * num31 m + num31 m" by (simp add: diff_mult_distrib W31_def)
  ultimately have "W31 * num31 (tl ws @ [ucast cc]) < W31 * num31 m" using lt unfolding v by linarith
  then show "num31 (tl ws @ [ucast cc]) < num31 m" by (simp only: mult_less_cancel1)
qed

lemma fmont_rows_correct:
  assumes "digits31 m" "length m = n" "0 < n" "(unat (m ! 0) * unat m0i + 1) mod W31 = 0"
    and "digits31 x" "length x = n" "num31 x < num31 m"
  shows "length (fmont_rows m m0i u x) = n \<and> digits31 (fmont_rows m m0i u x) \<and> num31 (fmont_rows m m0i u x) < num31 m
    \<and> (\<exists>k. W31 ^ u * num31 (fmont_rows m m0i u x) = num31 x + k * num31 m)"
  using assms(5-7)
proof (induction u arbitrary: x)
  case 0
  then show ?case by (auto intro: exI [of _ 0])
next
  case (Suc u)
  obtain ws cc where row: "fmont_row (MUL31_lo (x ! 0) m0i) 0 x m = (ws, cc)" by fastforce
  let ?x = "tl ws @ [ucast cc]" and ?f = "unat (MUL31_lo (x ! 0) m0i)"
  have ne: "x \<noteq> []" "length m = length x" using Suc.prems assms(2,3) by auto
  note S = fmont_step [OF Suc.prems(1) assms(1) ne(2,1) assms(4) Suc.prems(3) refl row]
  have e: "fmont_rows m m0i (Suc u) x = fmont_rows m m0i u ?x" using row by (simp add: Let_def)
  obtain k where k: "length (fmont_rows m m0i u ?x) = n" "digits31 (fmont_rows m m0i u ?x)" "num31 (fmont_rows m m0i u ?x) < num31 m"
    "W31 ^ u * num31 (fmont_rows m m0i u ?x) = num31 ?x + k * num31 m"
    using Suc.IH [OF S(2) _ S(3)] S(1) Suc.prems(2) by auto
  have "W31 ^ Suc u * num31 (fmont_rows m m0i u ?x) = W31 * (W31 ^ u * num31 (fmont_rows m m0i u ?x))" by (simp add: mult.assoc)
  also have "\<dots> = W31 * num31 ?x + W31 * (k * num31 m)" by (simp only: k(4) distrib_left)
  also have "\<dots> = num31 x + (?f + W31 * k) * num31 m" unfolding S(4) by (simp add: algebra_simps)
  finally have "\<exists>k. W31 ^ Suc u * num31 (fmont_rows m m0i u ?x) = num31 x + k * num31 m" by blast
  then show ?case using k(1-3) unfolding e by blast
qed

lemma from_monty_residue:
  assumes "modulus31 n m" "ninv_of m m0i" "residue31 n m x"
  shows "residue31 n m (br_i31_from_monty x m m0i)"
    "W31 ^ n * ival n (br_i31_from_monty x m m0i) mod ival n m = ival n x mod ival n m"
proof -
  have h: "hdr31 n (m ! 0)" and n: "0 < n" and ml: "length (i31_words n m) = n" "digits31 (i31_words n m)"
    using assms(1) by (simp_all add: modulus31_def)
  have m1: "i31_words n m ! 0 = m ! 1" using ml(1) n by (simp add: i31_words_def nth_tl)
  have i: "(unat (i31_words n m ! 0) * unat m0i + 1) mod W31 = 0" using assms(2) unfolding ninv_of_def m1 .
  note x = residueD [OF assms(3)]
  let ?w = "fmont_rows (i31_words n m) m0i n (i31_words n x)"
  obtain k where w: "length ?w = n" "digits31 ?w" "num31 ?w < ival n m" "W31 ^ n * num31 ?w = ival n x + k * ival n m"
    using fmont_rows_correct [OF ml(2,1) n i x(3,2,4), of n] by blast
  obtain d where s: "br_i31_sub (m ! 0 # ?w) m (of_bool False) = (m ! 0 # ?w, of_bool True)"
    using w(3) by (auto intro: br_i31_sub_correct [OF h w(1,2) ml, where t = False])
  have e: "br_i31_from_monty x m m0i = m ! 0 # ?w"
    using s by (simp add: br_i31_from_monty_def hdr_i31_len [of n m] h x(1) NOT_ct_def)
  show "residue31 n m (br_i31_from_monty x m m0i)" unfolding e by (rule residueI [OF w(1-3)])
  show "W31 ^ n * ival n (br_i31_from_monty x m m0i) mod ival n m = ival n x mod ival n m"
    unfolding e by (simp add: w(1) w(4))
qed

section \<open>Properties\<close>

text \<open>C20: the Montgomery product of the code, with its 32-bit carries, is exact: for any modulus with the
  inverse \<open>m0i\<close>, any words \<open>x\<close> and any residue \<open>y\<close> it is a residue \<open>w\<close> with \<open>2 ^ (31 * n) * w\<close> equal
  to \<open>x * y\<close> modulo the modulus; no carry is lost and one subtraction at the end is enough.\<close>

theorem montymul_is_montgomery_product:
  assumes "modulus31 n m" "ninv_of m m0i" "length (i31_words n x) = n" "digits31 (i31_words n x)" "residue31 n m y"
  shows "residue31 n m (br_i31_montymul x y m m0i)
     \<and> 2 ^ (31 * n) * ival n (br_i31_montymul x y m m0i) mod ival n m = ival n x * ival n y mod ival n m"
  using br_i31_montymul_correct [OF assms(1-4) residueD(2-4) [OF assms(5)]]
  by (metis W31_def i31_words_array power_mult residueI)

theorem montymul_is_montgomery_product_witness:
  "2 ^ 62 * ival 2 (br_i31_montymul [34, 5, 1] [34, 7, 0] [34, 9, 2] (br_i31_ninv31 9)) mod (9 + 2 ^ 32) = (5 + 2 ^ 31) * 7 mod (9 + 2 ^ 32)"
proof -
  have w: "i31_words 2 [34, 9, 2] = [9, 2]" "i31_words 2 [34, 5, 1] = [5, 1]" "i31_words 2 [34, 7, 0] = [7, 0]" by (simp_all add: i31_words_def)
  have m: "modulus31 2 [34, 9, 2]" by (simp add: modulus31_def hdr31_def w) (simp add: W31_def)
  have i: "ninv_of [34, 9, 2] (br_i31_ninv31 9)" using ninv31_correct(1) [of 9] by (simp add: ninv_of_def)
  have y: "residue31 2 [34, 9, 2] [34, 7, 0]" by (simp add: residue31_def w) (simp add: W31_def)
  show ?thesis
    using montymul_is_montgomery_product [OF m i _ _ y, of "[34, 5, 1]"] by (simp add: w W31_def)
qed

end
