(* ===== verification/Big_Div.thy ===== *)
theory Big_Div
  imports Big_Int
begin

text \<open>
  Division of a double word (bearssl/src/int/i32_div32.c) and the step \<open>x * 2 ^ 31 + z\<close> modulo
  \<open>m\<close> that rests on it (i31_muladd.c), with the conversion to Montgomery representation
  (i31_tmont.c). The quotient is estimated from the top words; the estimate is off by at most one.
\<close>

unbundle bit_operations_syntax

section \<open>Division of a double word\<close>

text \<open>The loop over \<open>k = 31 .. 1\<close>, the state \<open>hi\<close>, \<open>lo\<close> and the quotient \<open>q\<close>.\<close>

fun divrem_loop :: "nat \<Rightarrow> u32 \<Rightarrow> u32 \<Rightarrow> u32 \<Rightarrow> u32 \<Rightarrow> u32 \<times> u32 \<times> u32" where
  "divrem_loop 0 d hi lo q = (hi, lo, q)"
| "divrem_loop (Suc k') d hi lo q =
     (let k = Suc k';
          j = 32 - k;
          w = push_bit j hi OR drop_bit k lo;
          ctl = NOT_ct (GT_ct d w) OR drop_bit k hi;
          hi2 = drop_bit j (w - d);
          lo2 = lo - push_bit k d
      in divrem_loop k' d (MUX ctl hi2 hi) (MUX ctl lo2 lo) (q OR push_bit k ctl))"

definition br_divrem :: "u32 \<Rightarrow> u32 \<Rightarrow> u32 \<Rightarrow> u32 \<times> u32" where
  "br_divrem hi lo d =
     (let ch = EQ_ct hi d;
          hi = MUX ch 0 hi;
          (hi, lo, q) = divrem_loop 31 d hi lo 0;
          cf = NOT_ct (GT_ct d lo) OR hi
      in (q OR cf, MUX cf (lo - d) lo))"

definition br_rem :: "u32 \<Rightarrow> u32 \<Rightarrow> u32 \<Rightarrow> u32" where "br_rem hi lo d = snd (br_divrem hi lo d)"

definition br_div :: "u32 \<Rightarrow> u32 \<Rightarrow> u32 \<Rightarrow> u32" where "br_div hi lo d = fst (br_divrem hi lo d)"

section \<open>Shift by a word, add and reduce\<close>

text \<open>The 31 bits below the top \<open>mblr\<close> bits of word \<open>mlen\<close>, from the two highest words.\<close>

definition i31_top :: "nat \<Rightarrow> nat \<Rightarrow> u32 list \<Rightarrow> u32" where
  "i31_top mblr mlen w = (push_bit (31 - mblr) (w ! (mlen - 1)) OR drop_bit mblr (w ! (mlen - 2))) AND 0x7FFFFFFF"

text \<open>Subtraction of \<open>q * m\<close>, with the comparison of the result to \<open>m\<close> in \<open>tb\<close>.\<close>

fun muladd_loop :: "u32 \<Rightarrow> u32 \<Rightarrow> u32 \<Rightarrow> u32 list \<Rightarrow> u32 list \<Rightarrow> u32 list \<times> u32 \<times> u32" where
  "muladd_loop q cc tb (xw # x) (mw # m) =
     (let zl = mul64 mw q + ucast cc :: u64;
          cc = ucast (drop_bit 31 zl);
          zw = ucast zl AND 0x7FFFFFFF :: u32;
          nxw = xw - zw;
          cc = cc + drop_bit 31 nxw;
          nxw = nxw AND 0x7FFFFFFF;
          (ws, r) = muladd_loop q cc (MUX (EQ_ct nxw mw) tb (GT_ct nxw mw)) x m
      in (nxw # ws, r))"
| "muladd_loop q cc tb _ _ = ([], cc, tb)"

definition br_i31_muladd_small :: "u32 list \<Rightarrow> u32 \<Rightarrow> u32 list \<Rightarrow> u32 list" where
  "br_i31_muladd_small x z m =
     (let m_bitlen = m ! 0 in
      if m_bitlen = 0 then x
      else if m_bitlen \<le> 31 then
        (let hi = drop_bit 1 (x ! 1);
             lo = push_bit 31 (x ! 1) OR z
         in x[1 := br_rem hi lo (m ! 1)])
      else
        (let mlen = unat (drop_bit 5 (m_bitlen + 31));
             mblr = unat (m_bitlen AND 31);
             hi = x ! mlen;
             w = i31_words mlen x;
             mw = i31_words mlen m;
             w' = z # butlast w;
             (a0, a1, b0) =
               (if mblr = 0 then (w ! (mlen - 1), w' ! (mlen - 1), mw ! (mlen - 1))
                else (i31_top mblr mlen w, i31_top mblr mlen w', i31_top mblr mlen mw));
             g = br_div (drop_bit 1 a0) (a1 OR push_bit 31 a0) b0;
             q = MUX (EQ_ct a0 b0) 0x7FFFFFFF (MUX (EQ_ct g 0) 0 (g - 1));
             (w', cc, tb) = muladd_loop q 0 1 w' mw;
             over = GT_ct cc hi;
             under = NOT over AND (tb OR GT_ct hi cc);
             x = x ! 0 # w' @ drop (Suc mlen) x;
             (x, _) = br_i31_add x m over
         in fst (br_i31_sub x m under)))"

primrec i31_muladds :: "nat \<Rightarrow> u32 list \<Rightarrow> u32 list \<Rightarrow> u32 list" where
  "i31_muladds 0 x m = x"
| "i31_muladds (Suc k) x m = i31_muladds k (br_i31_muladd_small x 0 m) m"

definition br_i31_to_monty :: "u32 list \<Rightarrow> u32 list \<Rightarrow> u32 list" where
  "br_i31_to_monty x m = i31_muladds (unat (drop_bit 5 (m ! 0 + 31))) x m"

section \<open>The division is exact\<close>

lemma or_high:
  fixes q c :: u32
  assumes "2 ^ Suc k dvd unat q" "unat c \<le> 1" "k < 32"
  shows "unat (q OR push_bit k c) = unat q + 2 ^ k * unat c"
proof -
  have t: "take_bit (Suc k) (unat q) = 0" using assms(1) by (simp only: take_bit_eq_mod dvd_eq_mod_eq_0)
  have b: "\<not> bit q i" if "i \<le> k" for i
    using arg_cong [OF t, of "\<lambda>x. bit x i"] that by (simp add: bit_take_bit_iff bit_unsigned_iff)
  have c: "take_bit 1 c = c"
    using assms(2) by (intro take_bit_word_small) simp
  have d: "\<not> bit c i" if "0 < i" for i
    using arg_cong [OF c, of "\<lambda>x. bit x i"] that by (simp add: bit_take_bit_iff)
  have z: "q AND push_bit k c = 0"
  proof (rule bit_eqI)
    fix i show "bit (q AND push_bit k c) i = bit 0 i"
    proof (cases "i \<le> k")
      case True
      then show ?thesis using b by (simp add: bit_and_iff)
    next
      case False
      then show ?thesis using d [of "i - k"] by (simp add: bit_and_iff bit_push_bit_iff)
    qed
  qed
  have "unat q < 2 ^ 32" using unsigned_less [of q, where ?'a = nat] by simp
  moreover obtain e where e: "unat q = 2 ^ Suc k * e" using assms(1) by (rule dvdE)
  ultimately have "2 ^ Suc k * e < 2 ^ Suc k * 2 ^ (31 - k)"
    using assms(3) by (simp only: power_add [symmetric]) simp
  then have "e + 1 \<le> 2 ^ (31 - k)" by simp
  then have "2 ^ Suc k * (e + 1) \<le> 2 ^ Suc k * 2 ^ (31 - k)" by (rule mult_le_mono2)
  then have "2 ^ Suc k * (e + 1) \<le> 2 ^ 32" using assms(3) by (simp only: power_add [symmetric]) simp
  then have s: "unat q + 2 ^ Suc k \<le> 2 ^ 32" by (simp add: e)
  have "2 ^ k * unat c \<le> (2 :: nat) ^ k" using assms(2) by simp
  moreover have "0 < (2 :: nat) ^ k" by simp
  ultimately have l: "unat q + 2 ^ k * unat c < 2 ^ 32" using s unfolding power_Suc by linarith
  then have p: "unat (push_bit k c) = 2 ^ k * unat c" by (intro unat_push) simp
  have "q OR push_bit k c = q + push_bit k c" using z by (simp add: disjunctive_add_eq_or)
  then show ?thesis using l p by (simp add: unat_plus_small)
qed

lemma word_sub_nat: "b \<le> a \<Longrightarrow> word_of_nat a - word_of_nat b = (word_of_nat (a - b) :: 'a :: len word)"
  by (simp add: of_nat_diff)

lemma unat_word32: "n < 2 ^ 32 \<Longrightarrow> unat (word_of_nat n :: u32) = n"
  by (simp add: unat_of_nat)

lemma of_nat_mod32: "(word_of_nat (n mod 2 ^ 32) :: u32) = word_of_nat n"
  by (simp only: word_unat_eq_iff unat_of_nat) simp

text \<open>A double word as a number.\<close>

definition dword :: "nat \<Rightarrow> u32 \<Rightarrow> u32 \<Rightarrow> bool" where
  "dword n hi lo \<longleftrightarrow> unat hi = n div 2 ^ 32 \<and> unat lo = n mod 2 ^ 32"

lemma divrem_step:
  fixes d hi lo :: u32
  assumes k: "0 < k" "k < 32" and n: "dword n hi lo" and lt: "n < 2 ^ Suc k * unat d"
    and j: "j = 32 - k" and w: "w = push_bit j hi OR drop_bit k lo"
  shows "NOT_ct (GT_ct d w) OR drop_bit k hi = of_bool (2 ^ k * unat d \<le> n)"
    "2 ^ k * unat d \<le> n \<Longrightarrow> dword (n - 2 ^ k * unat d) (drop_bit j (w - d)) (lo - push_bit k d)"
proof -
  have kj: "k + j = 32" using k j by simp
  have d32: "unat d < 2 ^ 32" using unsigned_less [of d, where ?'a = nat] by simp
  define W where "W = n div 2 ^ k"
  have W2: "W < 2 * unat d" unfolding W_def using lt by (intro less_mult_imp_div_less) (simp add: mult_ac)
  have p32: "(2 :: nat) ^ 32 = 2 ^ k * 2 ^ j" by (simp only: power_add [symmetric] kj)
  have We: "W = 2 ^ j * unat hi + unat lo div 2 ^ k"
  proof -
    have "n = 2 ^ k * (2 ^ j * unat hi) + unat lo"
      using n mod_mult_div_eq [of n "2 ^ 32"] by (simp only: dword_def p32 mult.assoc add.commute)
    then show ?thesis unfolding W_def by simp
  qed
  have wW: "unat w = W mod 2 ^ 32"
  proof -
    have "unat lo < 2 ^ j * 2 ^ k" using unsigned_less [of lo, where ?'a = nat] p32 by (simp add: mult.commute)
    then have "unat (drop_bit k lo) < 2 ^ j" by (simp add: unat_shift less_mult_imp_div_less)
    then have "w = drop_bit k lo + push_bit j hi" unfolding w or.commute [of "push_bit j hi"] by (rule or_shift)
    then have "unat w = (unat (drop_bit k lo) + unat (push_bit j hi)) mod 2 ^ 32" by (simp add: unat_word_ariths)
    also have "unat (push_bit j hi) = 2 ^ j * unat hi mod 2 ^ 32"
      by (simp only: unsigned_push_bit_eq take_bit_eq_mod push_bit_eq_mult [of j "unat hi"] mult.commute [of "unat hi"]) simp
    finally show ?thesis by (simp only: We unat_shift mod_add_right_eq add.commute)
  qed
  have hk: "unat (drop_bit k hi) = W div 2 ^ 32"
    using n by (simp only: unat_shift dword_def W_def div_mult2_eq [symmetric] mult.commute)
  have "W < 2 * 2 ^ 32" using W2 d32 by simp
  then have top: "W div 2 ^ 32 < 2" by (rule less_mult_imp_div_less)
  have hb: "drop_bit k hi = of_bool (2 ^ 32 \<le> W)"
  proof (cases "2 ^ 32 \<le> W")
    case True
    then have "W div 2 ^ 32 = 1" using top div_le_mono [OF True, of "2 ^ 32"] by simp
    then show ?thesis using True hk by (simp add: word_unat_eq_iff)
  next
    case False
    then have "W div 2 ^ 32 = 0" by simp
    then show ?thesis using False hk by (simp add: word_unat_eq_iff)
  qed
  have cmp: "unat w < unat d \<and> W < 2 ^ 32 \<longleftrightarrow> W < unat d" using wW d32 by auto
  have le: "unat d \<le> W \<longleftrightarrow> 2 ^ k * unat d \<le> n"
    unfolding W_def by (simp add: less_eq_div_iff_mult_less_eq mult.commute)
  show "NOT_ct (GT_ct d w) OR drop_bit k hi = of_bool (2 ^ k * unat d \<le> n)"
    unfolding GT_ct_eq ct_bools hb using cmp le by (auto simp: word_less_nat_alt)
  assume "2 ^ k * unat d \<le> n"
  then have dW: "unat d \<le> W" using le by simp
  have "w = word_of_nat W" by (simp only: word_unat_eq_iff wW unat_of_nat) simp
  then have "w - d = word_of_nat W - word_of_nat (unat d)" by simp
  then have wd: "unat (w - d) = W - unat d" using W2 d32 unfolding word_sub_nat [OF dW] by (simp only: unat_word32)
  define n' where "n' = n - 2 ^ k * unat d"
  have n': "n = n' + 2 ^ k * unat d" using \<open>2 ^ k * unat d \<le> n\<close> by (simp add: n'_def)
  have "W = n' div 2 ^ k + unat d" unfolding W_def n' by simp
  then have hi: "unat (drop_bit j (w - d)) = n' div 2 ^ 32"
    by (simp only: unat_shift wd p32 div_mult2_eq) simp
  have "lo = word_of_nat n" using n by (simp only: word_unat_eq_iff dword_def unat_of_nat) simp
  moreover have "push_bit k d = word_of_nat (2 ^ k * unat d)" by (simp add: push_bit_eq_mult mult.commute)
  ultimately have "lo - push_bit k d = word_of_nat n'" by (simp only: n' of_nat_add) simp
  then have "unat (lo - push_bit k d) = n' mod 2 ^ 32" by (simp add: unat_of_nat)
  then show "dword (n - 2 ^ k * unat d) (drop_bit j (w - d)) (lo - push_bit k d)"
    using hi by (simp add: dword_def n'_def)
qed

lemma divrem_loop_correct:
  assumes "k < 32" "dword n hi lo" "n < 2 ^ Suc k * unat d" "2 ^ Suc k dvd unat q"
  shows "\<exists>hi' lo' q' n'. divrem_loop k d hi lo q = (hi', lo', q') \<and> dword n' hi' lo' \<and> n' < 2 * unat d
           \<and> 2 dvd unat q' \<and> n + unat d * unat q = n' + unat d * unat q'"
  using assms
proof (induction k arbitrary: hi lo q n)
  case 0
  then show ?case by auto
next
  case (Suc k')
  define k where "k = Suc k'"
  define j where "j = 32 - k"
  define w where "w = push_bit j hi OR drop_bit k lo"
  define t where "t \<longleftrightarrow> 2 ^ k * unat d \<le> n"
  have k: "0 < k" "k < 32" using Suc.prems(1) by (simp_all add: k_def)
  have lt: "n < 2 ^ Suc k * unat d" using Suc.prems(3) by (simp add: k_def)
  note S = divrem_step [OF k Suc.prems(2) lt j_def w_def, folded t_def]
  have q: "unat (q OR push_bit k (of_bool t)) = unat q + 2 ^ k * of_bool t"
    by (subst or_high) (use Suc.prems(4) k in \<open>auto simp: k_def\<close>)
  obtain e where e: "unat q = 2 ^ Suc k * e" using Suc.prems(4) unfolding k_def by (rule dvdE)
  have dv: "2 ^ Suc k' dvd unat (q OR push_bit k (of_bool t))"
    unfolding q e by (simp add: k_def)
  define n1 where "n1 = (if t then n - 2 ^ k * unat d else n)"
  define hi1 where "hi1 = (if t then drop_bit j (w - d) else hi)"
  define lo1 where "lo1 = (if t then lo - push_bit k d else lo)"
  have d1: "dword n1 hi1 lo1" using S(2) Suc.prems(2) by (auto simp: n1_def hi1_def lo1_def t_def)
  have "n1 < 2 ^ k * unat d" using lt by (auto simp: n1_def t_def)
  then have l1: "n1 < 2 ^ Suc k' * unat d" by (simp only: k_def)
  have e1: "divrem_loop (Suc k') d hi lo q = divrem_loop k' d hi1 lo1 (q OR push_bit k (of_bool t))"
    unfolding divrem_loop.simps(2) Let_def unfolding k_def [symmetric] j_def [symmetric] w_def [symmetric] S(1) MUX_eq
    by (simp add: hi1_def lo1_def)
  have i: "n + unat d * unat q = n1 + unat d * unat (q OR push_bit k (of_bool t))"
    unfolding q by (auto simp: n1_def t_def algebra_simps)
  show ?case unfolding e1 i using Suc.prems(1) by (intro Suc.IH [OF _ d1 l1 dv]) simp
qed

lemma br_divrem_correct:
  assumes "unat hi < unat d"
  shows "unat (fst (br_divrem hi lo d)) = (2 ^ 32 * unat hi + unat lo) div unat d"
    "unat (snd (br_divrem hi lo d)) = (2 ^ 32 * unat hi + unat lo) mod unat d"
proof -
  let ?n = "2 ^ 32 * unat hi + unat lo"
  have d32: "unat d < 2 ^ 32" using unsigned_less [of d, where ?'a = nat] by simp
  have l32: "unat lo < 2 ^ 32" using unsigned_less [of lo, where ?'a = nat] by simp
  have ne: "hi \<noteq> d" using assms by auto
  have n: "dword ?n hi lo" using l32 by (simp add: dword_def)
  have "unat hi + 1 \<le> unat d" using assms by simp
  then have "2 ^ 32 * (unat hi + 1) \<le> 2 ^ Suc 31 * unat d" unfolding power_Suc [symmetric] by simp
  then have lt: "?n < 2 ^ Suc 31 * unat d" using l32 by simp
  obtain h l q n' where r: "divrem_loop 31 d hi lo 0 = (h, l, q)" "dword n' h l" "n' < 2 * unat d" "2 dvd unat q"
    "?n + unat d * unat (0 :: u32) = n' + unat d * unat q"
    using divrem_loop_correct [of 31, OF _ n lt, of 0] by auto
  define t where "t \<longleftrightarrow> unat d \<le> n'"
  have h: "h = of_bool (2 ^ 32 \<le> n')"
  proof -
    have "n' < 2 * 2 ^ 32" using r(3) d32 by simp
    then have "n' div 2 ^ 32 < 2" by (rule less_mult_imp_div_less)
    moreover have "2 ^ 32 \<le> n' \<longleftrightarrow> n' div 2 ^ 32 \<noteq> 0" by (simp add: div_eq_0_iff not_less)
    ultimately show ?thesis using r(2) by (auto simp: dword_def word_unat_eq_iff)
  qed
  have lcmp: "n' < 2 ^ 32 \<Longrightarrow> unat l = n'" using r(2) by (simp add: dword_def)
  have cf: "NOT_ct (GT_ct d l) OR h = of_bool t"
    unfolding GT_ct_eq ct_bools h using lcmp d32 by (cases "n' < 2 ^ 32") (auto simp: t_def word_less_nat_alt)
  have e: "br_divrem hi lo d = (q OR of_bool t, if t then l - d else l)"
    using ne r(1) cf by (simp add: br_divrem_def EQ_ct_eq MUX_eq [of False, simplified] MUX_eq)
  have q: "unat (q OR of_bool t) = unat q + of_bool t"
    using or_high [of 0 q "of_bool t"] r(4) by auto
  have v: "unat (if t then l - d else l) = n' - (if t then unat d else 0)"
  proof (cases t)
    case True
    have "l = word_of_nat n'" using r(2) by (simp only: word_unat_eq_iff dword_def unat_of_nat) simp
    then have "l - d = word_of_nat n' - word_of_nat (unat d)" by simp
    then have "l - d = word_of_nat (n' - unat d)" using True by (simp only: word_sub_nat t_def)
    moreover have "n' - unat d < 2 ^ 32" using r(3) d32 by simp
    ultimately show ?thesis using True by (simp only: unat_word32 if_True)
  next
    case False
    then show ?thesis using lcmp d32 by (simp add: t_def)
  qed
  have "?n = unat d * (unat q + of_bool t) + (n' - (if t then unat d else 0))"
    using r(5) by (auto simp: t_def algebra_simps unat_0)
  moreover have "n' - (if t then unat d else 0) < unat d" using r(3) assms by (auto simp: t_def)
  ultimately have "?n div unat d = unat q + of_bool t" "?n mod unat d = n' - (if t then unat d else 0)"
    by (metis div_mult_self4 div_less add.right_neutral less_nat_zero_code, metis mod_less mod_mult_self4)
  then show "unat (fst (br_divrem hi lo d)) = ?n div unat d" "unat (snd (br_divrem hi lo d)) = ?n mod unat d"
    unfolding e fst_conv snd_conv q v by simp_all
qed

section \<open>The subtraction of the estimate\<close>

lemma digit_less:
  assumes "a < W31" "b < W31"
  shows "a + W31 * x < b + W31 * y \<longleftrightarrow> x < y \<or> x = y \<and> a < b" "a + W31 * x = b + W31 * y \<longleftrightarrow> x = y \<and> a = b"
proof -
  have "a + W31 * x < b + W31 * y" if "a < W31" "x < y" for a b x y
  proof -
    have "a + W31 * x < W31 * Suc x" using that by simp
    also have "\<dots> \<le> W31 * y" using that by (intro mult_le_mono2) simp
    finally show ?thesis by simp
  qed
  then show "a + W31 * x < b + W31 * y \<longleftrightarrow> x < y \<or> x = y \<and> a < b" "a + W31 * x = b + W31 * y \<longleftrightarrow> x = y \<and> a = b"
    using assms by (metis linorder_neq_iff nat_add_left_cancel_less not_less_iff_gr_or_eq add.commute)+
qed

lemma muladd_digit:
  fixes xw mw q cc :: u32
  assumes "unat xw < W31" "unat mw < W31" "unat q < W31" "unat cc \<le> W31"
    and zl: "zl = (mul64 mw q + ucast cc :: u64)" and nxw: "nxw = xw - (ucast zl AND 0x7FFFFFFF)"
    and c: "c = ucast (drop_bit 31 zl) + drop_bit 31 nxw"
  shows "unat c \<le> W31" "unat (nxw AND 0x7FFFFFFF) < W31"
    "unat xw + W31 * unat c = unat (nxw AND 0x7FFFFFFF) + unat q * unat mw + unat cc"
proof -
  have b: "unat mw * unat q + unat cc < W31 * W31"
  proof -
    have "unat mw * unat q \<le> (W31 - 1) * (W31 - 1)" using assms by (intro mult_mono) simp_all
    moreover have "W31 * W31 = (W31 - 1) * (W31 - 1) + 2 * (W31 - 1) + 1" "W31 \<le> 2 * (W31 - 1)" by (simp_all add: W31_def)
    ultimately show ?thesis using assms(4) by linarith
  qed
  then have "unat mw * unat q + unat cc < 2 ^ LENGTH(64)" by (simp add: W31_def)
  then have u: "unat zl = unat mw * unat q + unat cc"
    unfolding zl by (subst unat_plus_small) (simp_all add: unat_widen unat_mul64)
  have lo: "unat (ucast zl AND 0x7FFFFFFF :: u32) = unat zl mod W31"
    by (simp add: unat_mask31 unat_narrow W31_def mod_mod_cancel)
  have zd: "unat zl div W31 < W31" using b unfolding u by (simp add: less_mult_imp_div_less)
  then have hi: "unat (ucast (drop_bit 31 zl) :: u32) = unat zl div W31"
    by (simp add: unat_narrow unat_shift W31_def)
  have lt: "unat (ucast zl AND 0x7FFFFFFF :: u32) < W31" by (simp add: lo)
  obtain d e where D: "unat (nxw AND 0x7FFFFFFF) = d" "unat (drop_bit 31 nxw) = e" "e \<le> 1" "d < W31"
    "unat xw + W31 * e = d + unat (ucast zl AND 0x7FFFFFFF :: u32)"
    using sub_digit [OF assms(1) lt, of 0] unfolding nxw by (auto simp: unat_0)
  have c': "unat c = unat zl div W31 + e"
    unfolding c using zd D(2,3) hi by (subst unat_plus_small) (simp_all add: W31_def)
  show "unat c \<le> W31" using c' zd D(3) by simp
  show "unat (nxw AND 0x7FFFFFFF) < W31" by (simp add: unat_mask31)
  have "unat xw + W31 * unat c = d + unat zl mod W31 + W31 * (unat zl div W31)"
    using D(5) unfolding c' lo distrib_left by linarith
  then show "unat xw + W31 * unat c = unat (nxw AND 0x7FFFFFFF) + unat q * unat mw + unat cc"
    unfolding D(1) add.assoc mod_mult_div_eq u by (simp add: mult.commute)
qed

lemma muladd_loop_correct:
  assumes "digits31 x" "digits31 m" "length m = length x" "unat q < W31" "unat cc \<le> W31"
  shows "\<exists>ws c t. muladd_loop q cc (of_bool tb) x m = (ws, c, of_bool t) \<and> length ws = length x \<and> digits31 ws \<and> unat c \<le> W31
    \<and> num31 x + W31 ^ length x * unat c = num31 ws + unat q * num31 m + unat cc
    \<and> (t \<longleftrightarrow> num31 m < num31 ws \<or> num31 m = num31 ws \<and> tb)"
  using assms
proof (induction x arbitrary: m cc tb)
  case Nil
  then show ?case by auto
next
  case (Cons xw x)
  obtain mw m' where e: "m = mw # m'" using Cons.prems by (cases m) auto
  have p: "unat xw < W31" "unat mw < W31" "digits31 x" "digits31 m'" "length m' = length x" "unat q < W31" "unat cc \<le> W31"
    using Cons.prems by (simp_all add: e)
  define zl where "zl = (mul64 mw q + ucast cc :: u64)"
  define nxw where "nxw = xw - (ucast zl AND 0x7FFFFFFF)"
  define c1 where "c1 = (ucast (drop_bit 31 zl) + drop_bit 31 nxw :: u32)"
  define nw where "nw = nxw AND 0x7FFFFFFF"
  define tb1 where "tb1 = (if nw = mw then tb else mw < nw)"
  note D = muladd_digit [OF p(1,2,6,7) zl_def nxw_def c1_def, folded nw_def]
  obtain ws c t where r: "muladd_loop q c1 (of_bool tb1) x m' = (ws, c, of_bool t)" "length ws = length x" "digits31 ws" "unat c \<le> W31"
    "num31 x + W31 ^ length x * unat c = num31 ws + unat q * num31 m' + unat c1"
    "t \<longleftrightarrow> num31 m' < num31 ws \<or> num31 m' = num31 ws \<and> tb1"
    using Cons.IH [OF p(3-6) D(1), of tb1] by blast
  have 1: "muladd_loop q cc (of_bool tb) (xw # x) m = (nw # ws, c, of_bool t)"
  proof -
    have "MUX (EQ_ct nw mw) (of_bool tb) (GT_ct nw mw) = of_bool tb1"
      by (simp add: EQ_ct_eq GT_ct_eq MUX_eq tb1_def)
    then show ?thesis
      using r(1) unfolding e muladd_loop.simps(1) Let_def
      unfolding zl_def [symmetric] unfolding nxw_def [symmetric] unfolding nw_def [symmetric] c1_def [symmetric] by simp
  qed
  have g: "W31 * num31 x + W31 * (W31 ^ length x * unat c) = W31 * num31 ws + W31 * (unat q * num31 m') + W31 * unat c1"
    using arg_cong [OF r(5), of "\<lambda>x. W31 * x"] by (simp only: distrib_left)
  have 2: "num31 (xw # x) + W31 ^ length (xw # x) * unat c = num31 (nw # ws) + unat q * num31 m + unat cc"
    using g D(3) by (simp add: e distrib_left mult.left_commute [of _ W31] mult.assoc)
  have 3: "t \<longleftrightarrow> num31 m < num31 (nw # ws) \<or> num31 m = num31 (nw # ws) \<and> tb"
    unfolding r(6) e num31_simps digit_less [OF p(2) D(2)] tb1_def by (auto simp: word_less_nat_alt word_unat_eq_iff)
  show ?case
    by (intro exI conjI) (rule 1, use r(2-4) D(2) 2 3 in simp_all)
qed

section \<open>The estimate\<close>

lemma i31_top_correct:
  assumes "digits31 w" "length w = n" "2 \<le> n" "1 \<le> b" "b \<le> 31"
  shows "unat (i31_top b n w) = num31 w div (W31 ^ (n - 2) * 2 ^ b) mod W31"
proof -
  define hi where "hi = w ! (n - 1)"
  define lo where "lo = w ! (n - 2)"
  have dr: "drop (n - 2) w = [lo, hi]"
    by (rule nth_equalityI) (use assms in \<open>auto simp: hi_def lo_def nth_Cons numeral_2_eq_2 less_Suc_eq split: nat.split\<close>)
  have l: "unat lo < W31" using assms by (auto simp: digits31_def lo_def)
  have P: "num31 w div W31 ^ (n - 2) = unat lo + W31 * unat hi"
    using val_drop [of "map unat w" W31 "n - 2"] assms(1) dr by (simp add: num31_def digits31_def drop_map)
  have W: "W31 = 2 ^ b * 2 ^ (31 - b)" using assms(5) by (simp add: W31_def flip: power_add)
  have "unat (drop_bit b lo) < 2 ^ (31 - b)"
    using l by (simp add: unat_shift W less_mult_imp_div_less mult.commute)
  then have o: "i31_top b n w = (drop_bit b lo + push_bit (31 - b) hi) AND 0x7FFFFFFF"
    unfolding i31_top_def hi_def [symmetric] lo_def [symmetric] or.commute [of "push_bit (31 - b) hi"] by (simp only: or_shift)
  have "unat (i31_top b n w) = (unat (drop_bit b lo) + unat (push_bit (31 - b) hi)) mod W31"
    unfolding o unat_mask31 unat_word_ariths by (simp add: mod_mod_cancel W31_def)
  also have "unat (push_bit (31 - b) hi) = 2 ^ (31 - b) * unat hi mod 2 ^ 32"
    by (simp only: unsigned_push_bit_eq take_bit_eq_mod push_bit_eq_mult [of _ "unat hi"] mult.commute [of "unat hi"]) simp
  also have "(unat (drop_bit b lo) + 2 ^ (31 - b) * unat hi mod 2 ^ 32) mod W31 = (unat lo div 2 ^ b + 2 ^ (31 - b) * unat hi) mod W31"
  proof -
    have "(2 ^ (31 - b) * unat hi mod 2 ^ 32) mod W31 = 2 ^ (31 - b) * unat hi mod W31"
      by (rule mod_mod_cancel) (simp add: W31_def)
    then show ?thesis unfolding unat_shift by (metis mod_add_right_eq)
  qed
  also have "unat lo div 2 ^ b + 2 ^ (31 - b) * unat hi = (unat lo + W31 * unat hi) div 2 ^ b"
    by (simp add: W mult.assoc)
  also have "\<dots> = num31 w div (W31 ^ (n - 2) * 2 ^ b)" by (simp only: P div_mult2_eq)
  finally show ?thesis .
qed

text \<open>The quotient of the leading digits is at most two more than the quotient (Knuth).\<close>

lemma estimate_upper:
  fixes A M S :: nat
  assumes "0 < S" "S \<le> M"
  shows "A div M \<le> (A div S) div (M div S)"
proof -
  have "0 < M div S" using assms by (simp add: div_greater_zero_iff)
  have "A div M * (M div S) * S \<le> A div M * M" by (simp add: mult.assoc)
  also have "\<dots> \<le> A" by simp
  finally have "A div M * (M div S) \<le> A div S" using assms(1) by (simp add: less_eq_div_iff_mult_less_eq)
  then show ?thesis using \<open>0 < M div S\<close> by (simp add: less_eq_div_iff_mult_less_eq)
qed

lemma estimate_lower:
  fixes A M S g :: nat
  assumes "0 < S" "g * (M div S) \<le> A div S" "g \<le> 2 * (M div S) + 2" "0 < M"
  shows "g - 2 \<le> A div M"
proof (cases "2 \<le> g")
  case True
  define b where "b = M div S"
  obtain h where h: "g = h + 2" using True by (metis add.commute le_Suc_ex)
  have "M < S * (b + 1)" using assms(1) by (metis b_def Suc_eq_plus1 dividend_less_times_div mult_Suc_right add.commute)
  then have "h * M \<le> h * (S * (b + 1))" by simp
  also have "\<dots> = S * (h * b + h)" by (simp add: algebra_simps)
  also have "\<dots> \<le> S * (g * b)" using assms(3) by (intro mult_le_mono2) (simp add: h b_def [symmetric] algebra_simps)
  also have "\<dots> \<le> S * (A div S)" using assms(2) by (simp add: b_def)
  also have "\<dots> \<le> A" by simp
  finally show ?thesis using assms(4) by (simp add: h less_eq_div_iff_mult_less_eq)
qed simp

lemma quotient_word:
  fixes a0 a1 b0 :: u32
  assumes a: "unat a0 \<le> unat b0" "unat a1 < W31" and b: "2 ^ 30 \<le> unat b0" "unat b0 < W31"
    and T: "T = W31 * unat a0 + unat a1"
    and g: "g = br_div (drop_bit 1 a0) (a1 OR push_bit 31 a0) b0"
    and q: "q = MUX (EQ_ct a0 b0) 0x7FFFFFFF (MUX (EQ_ct g 0) 0 (g - 1))"
  shows "unat q < W31" "a0 = b0 \<Longrightarrow> unat q = W31 - 1" "a0 \<noteq> b0 \<Longrightarrow> unat q = T div unat b0 - 1 \<and> T div unat b0 < W31"
proof -
  have hi: "unat (drop_bit 1 a0) = unat a0 div 2" by (simp add: unat_shift)
  have lt: "unat (drop_bit 1 a0) < unat b0" using a(1) b(1) unfolding hi by simp
  have "unat (push_bit 31 a0) = 2 ^ 31 * unat a0 mod 2 ^ 32"
    by (simp only: unsigned_push_bit_eq take_bit_eq_mod push_bit_eq_mult [of _ "unat a0"] mult.commute [of "unat a0"]) simp
  also have "\<dots> = 2 ^ 31 * (unat a0 mod 2)" using mult_mod_right [of "2 ^ 31" "unat a0" 2] by simp
  finally have p: "unat (push_bit 31 a0) = W31 * (unat a0 mod 2)" by (simp add: W31_def)
  have m2: "unat a0 mod 2 \<le> 1" by simp
  then have "unat a1 + W31 * (unat a0 mod 2) < 2 ^ 32" using a(2) mult_le_mono2 [OF m2, of W31] by (simp add: W31_def)
  moreover have "a1 OR push_bit 31 a0 = a1 + push_bit 31 a0" using a(2) by (intro or_shift) (simp add: W31_def)
  ultimately have lo: "unat (a1 OR push_bit 31 a0) = unat a1 + W31 * (unat a0 mod 2)" by (simp add: unat_plus_small p)
  have "2 ^ 32 * u + (x + W31 * v) = W31 * (2 * u + v) + x" for u v x by (simp add: W31_def)
  note this [of "unat a0 div 2" "unat a1" "unat a0 mod 2"]
  then have n: "2 ^ 32 * (unat a0 div 2) + (unat a1 + W31 * (unat a0 mod 2)) = T" by (simp only: mult_div_mod_eq T)
  have gT: "unat g = T div unat b0"
    unfolding g br_div_def br_divrem_correct(1) [OF lt] hi lo n ..
  have 1: "unat q = T div unat b0 - 1 \<and> T div unat b0 < W31" if "a0 \<noteq> b0"
  proof -
    have "unat a0 < unat b0" using a(1) that by (simp add: word_unat_eq_iff)
    then have "W31 * (unat a0 + 1) \<le> W31 * unat b0" by (intro mult_le_mono2) simp
    then have "T < W31 * unat b0" using a(2) by (simp add: T)
    then have l: "T div unat b0 < W31" by (simp add: less_mult_imp_div_less)
    have "q = (if g = 0 then 0 else g - 1)" using that by (simp add: q EQ_ct_eq MUX_eq MUX_eq [of False, simplified])
    then have "unat q = unat g - 1" by (auto simp: unat_minus_one)
    then show ?thesis using gT l by simp
  qed
  have 2: "unat q = W31 - 1" if "a0 = b0"
    using that by (simp add: q EQ_ct_eq MUX_eq [of True, simplified] W31_def)
  show "unat q < W31" using 1 2 by (cases "a0 = b0") auto
  show "a0 = b0 \<Longrightarrow> unat q = W31 - 1" "a0 \<noteq> b0 \<Longrightarrow> unat q = T div unat b0 - 1 \<and> T div unat b0 < W31" using 1 2 by auto
qed

lemma estimate_near:
  fixes a0 a1 b0 :: u32
  assumes S: "0 < S" and M: "0 < M" and X: "X < M" and z: "z < W31"
    and b0: "unat b0 = M div S" "2 ^ 30 \<le> M div S" "M div S < W31"
    and a0: "unat a0 = X div S" and a1: "unat a1 = (W31 * X + z) div S mod W31"
    and g: "g = br_div (drop_bit 1 a0) (a1 OR push_bit 31 a0) b0"
    and q: "q = MUX (EQ_ct a0 b0) 0x7FFFFFFF (MUX (EQ_ct g 0) 0 (g - 1))"
  shows "unat q < W31" "unat q \<le> (W31 * X + z) div M + 1" "(W31 * X + z) div M \<le> unat q + 1"
proof -
  let ?A = "W31 * X + z"
  let ?T = "?A div S"
  have le: "unat a0 \<le> unat b0" unfolding a0 b0 using X by (intro div_le_mono) simp
  have "?T div W31 = ?A div W31 div S" by (simp only: div_mult2_eq [symmetric] mult.commute)
  also have "?A div W31 = X" using z by simp
  finally have T: "?T = W31 * unat a0 + unat a1" using mult_div_mod_eq [of W31 ?T] by (simp only: a0 a1)
  note Q = quotient_word [OF le _ _ _ T g q]
  have Q: "unat q < W31" "a0 = b0 \<Longrightarrow> unat q = W31 - 1"
    "a0 \<noteq> b0 \<Longrightarrow> unat q = ?T div (M div S) - 1 \<and> ?T div (M div S) < W31"
    using Q b0 a1 by simp_all
  have SM: "S \<le> M" using b0(2) S by (metis div_less not_le not_numeral_le_zero power_eq_0_iff le_zero_eq zero_neq_numeral)
  have "W31 * (X + 1) \<le> W31 * M" using X by (intro mult_le_mono2) simp
  then have "?A < W31 * M" using z by simp
  then have AM: "?A div M < W31" by (simp add: less_mult_imp_div_less)
  have "unat q \<le> ?A div M + 1 \<and> ?A div M \<le> unat q + 1"
  proof (cases "a0 = b0")
    case True
    have "W31 * (M div S) \<le> ?T" using T True b0(1) by simp
    then have "W31 - 2 \<le> ?A div M" using b0(2) by (intro estimate_lower [OF S _ _ M]) (simp_all add: W31_def)
    then show ?thesis using AM Q(2) [OF True] by linarith
  next
    case False
    have up: "?A div M \<le> ?T div (M div S)" by (rule estimate_upper [OF S SM])
    have "?T div (M div S) < 2 ^ 31" using Q(3) [OF False] by (simp add: W31_def)
    then have lim: "?T div (M div S) \<le> 2 * (M div S) + 2" using b0(2) by simp
    have "?T div (M div S) - 2 \<le> ?A div M" by (rule estimate_lower [OF S _ lim M]) simp
    then show ?thesis using up Q(3) [OF False] by linarith
  qed
  then show "unat q < W31" "unat q \<le> ?A div M + 1" "?A div M \<le> unat q + 1" using Q(1) by simp_all
qed

text \<open>The correction by the carry and the comparison.\<close>

lemma estimate_corrected:
  fixes A M N R c q hi :: nat
  assumes A: "A = N * hi + x" and R: "R < N" "M \<le> N" "0 < M" and e: "x + N * c = R + q * M"
    and q: "q \<le> A div M + 1" "A div M \<le> q + 1"
  shows "hi < c \<Longrightarrow> (R + M) mod N = A mod M"
    "\<not> hi < c \<Longrightarrow> M \<le> R \<or> c < hi \<Longrightarrow> (if R < M then N else 0) + R = A mod M + M"
    "\<not> hi < c \<Longrightarrow> \<not> (M \<le> R \<or> c < hi) \<Longrightarrow> R = A mod M"
proof -
  define Q where "Q = A div M"
  define r where "r = A mod M"
  have Qr: "A = Q * M + r" "r < M" using R(3) by (simp_all add: Q_def r_def)
  have key: "A + N * c = R + q * M + N * hi" using A e by simp
  have q3: "q = Q + 1 \<or> q = Q \<or> Q = q + 1" using q unfolding Q_def [symmetric] by linarith
  have s: "N * c = N * hi + N * (c - hi)" if "hi \<le> c" using that by (simp flip: distrib_left)
  have s': "N * hi = N * c + N * (hi - c)" if "c \<le> hi" using that by (simp flip: distrib_left)
  have n1: "N \<le> N * k" if "0 < k" for k using that by simp
  show "(R + M) mod N = A mod M" if o: "hi < c"
  proof -
    have f: "Q * M + r + N * (c - hi) = R + q * M" using key Qr(1) s o by simp
    have g: "N \<le> N * (c - hi)" using o by (intro n1) simp
    have "q = Q + 1"
    proof (rule ccontr)
      assume "q \<noteq> Q + 1"
      then have "q * M \<le> Q * M" using q3 by auto
      then show False using f g R(1) by linarith
    qed
    then have f': "r + N * (c - hi) = R + M" using f by simp
    have "r < N" using Qr(2) R(2) by simp
    then show ?thesis unfolding f' [symmetric] r_def [symmetric] by simp
  qed
  show "(if R < M then N else 0) + R = A mod M + M" if o: "\<not> hi < c" and t: "M \<le> R \<or> c < hi"
  proof -
    have f: "Q * M + r = R + q * M + N * (hi - c)" using key Qr(1) s' o by simp
    have Q1: "Q = q + 1"
    proof (rule ccontr)
      assume "Q \<noteq> q + 1"
      then have "Q * M \<le> q * M" using q3 by auto
      then have "R + N * (hi - c) \<le> r" using f by linarith
      moreover have "N \<le> N * (hi - c)" if "c < hi" using that by (intro n1) simp
      ultimately show False using t Qr(2) R(2) by fastforce
    qed
    then have f': "M + r = R + N * (hi - c)" using f by simp
    have h: "hi - c < 2"
    proof (rule ccontr)
      assume "\<not> hi - c < 2"
      then have "N * 2 \<le> N * (hi - c)" by (intro mult_le_mono2) simp
      then show False using f' Qr(2) R(2) by linarith
    qed
    show ?thesis
    proof (cases "R < M")
      case True
      then have "hi - c = 1" using t h by auto
      then show ?thesis using f' True by (simp add: r_def)
    next
      case False
      have "hi - c = 0"
      proof (rule ccontr)
        assume "hi - c \<noteq> 0"
        then have "N \<le> N * (hi - c)" by (intro n1) simp
        then show False using f' False Qr(2) R(2) by linarith
      qed
      then show ?thesis using f' False by (simp add: r_def)
    qed
  qed
  show "R = A mod M" if o: "\<not> hi < c" and t: "\<not> (M \<le> R \<or> c < hi)"
  proof -
    have "hi = c" using o t by simp
    then have f: "Q * M + r = R + q * M" using key Qr(1) by simp
    have "R mod M = R" "r mod M = r" using t Qr(2) by simp_all
    moreover have "(Q * M + r) mod M = (R + q * M) mod M" by (simp only: f)
    ultimately show ?thesis by (simp add: r_def)
  qed
qed

section \<open>Multiply by a word, add and reduce\<close>

text \<open>A modulus whose announced bit length is its true one: \<open>b\<close> bits in the highest of \<open>n\<close> words.\<close>

definition canon31 :: "nat \<Rightarrow> nat \<Rightarrow> u32 list \<Rightarrow> bool" where
  "canon31 n b m \<longleftrightarrow> modulus31 n m \<and> 1 \<le> b \<and> b \<le> 31 \<and> unat (m ! 0) = 32 * (n - 1) + b
     \<and> 2 ^ (b - 1) \<le> unat (m ! n) \<and> unat (m ! n) < 2 ^ b"

lemma canonD:
  assumes "canon31 n b m"
  shows "modulus31 n m" "0 < n" "hdr31 n (m ! 0)" "length (i31_words n m) = n" "digits31 (i31_words n m)"
    "1 \<le> b" "b \<le> 31" "unat (m ! 0) = 32 * (n - 1) + b" "2 ^ (b - 1) \<le> unat (m ! n)" "unat (m ! n) < 2 ^ b"
  using assms by (simp_all add: canon31_def modulus31_def)

lemma words_nth: "length (i31_words n m) = n \<Longrightarrow> i < n \<Longrightarrow> i31_words n m ! i = m ! Suc i"
  by (auto simp: i31_words_def nth_tl)

lemma canon_bounds:
  assumes "canon31 n b m" "2 \<le> n"
  shows "2 ^ 30 \<le> ival n m div (W31 ^ (n - 2) * 2 ^ b)" "ival n m div (W31 ^ (n - 2) * 2 ^ b) < W31" "0 < ival n m"
proof -
  let ?w = "i31_words n m"
  note C = canonD [OF assms(1)]
  define top where "top = unat (m ! n)"
  have "?w = butlast ?w @ [?w ! (n - 1)]"
    using C(2,4) by (metis append_butlast_last_id last_conv_nth length_greater_0_conv)
  then have w: "?w = butlast ?w @ [m ! n]" using words_nth [OF C(4), of "n - 1"] C(2) by simp
  have l: "num31 (butlast ?w) < W31 ^ (n - 1)"
    using num31_less [of "butlast ?w"] C(4,5) w by (metis digits31_simps(3) length_butlast)
  have v: "ival n m = num31 (butlast ?w) + W31 ^ (n - 1) * top"
    using arg_cong [OF w, of num31] C(4) by (simp add: top_def)
  have p: "W31 ^ (n - 1) = W31 ^ (n - 2) * W31" using assms(2) by (metis Suc_diff_Suc Suc_1 Suc_le_lessD power_Suc2 diff_Suc_1 numeral_2_eq_2)
  have "2 ^ 31 * 2 ^ (b - 1) = (2 :: nat) ^ (30 + b)" using C(6) by (simp only: power_add [symmetric]) simp
  then have b2: "W31 * 2 ^ (b - 1) = 2 ^ 30 * 2 ^ b" by (simp only: W31_def power_add)
  have "2 ^ 30 * (W31 ^ (n - 2) * 2 ^ b) = W31 ^ (n - 1) * 2 ^ (b - 1)" unfolding p mult.assoc b2 by (simp only: mult.left_commute)
  also have "\<dots> \<le> W31 ^ (n - 1) * top" using C(9) by (simp add: top_def)
  also have "\<dots> \<le> ival n m" by (simp add: v)
  finally have lo: "2 ^ 30 * (W31 ^ (n - 2) * 2 ^ b) \<le> ival n m" .
  then show "2 ^ 30 \<le> ival n m div (W31 ^ (n - 2) * 2 ^ b)" by (simp add: less_eq_div_iff_mult_less_eq)
  have pos: "0 < 2 ^ 30 * (W31 ^ (n - 2) * 2 ^ b)" by simp
  show "0 < ival n m" using lo pos by (rule less_le_trans [rotated])
  have "ival n m < W31 ^ (n - 1) * (top + 1)" using l by (simp add: v)
  also have "\<dots> \<le> W31 ^ (n - 1) * 2 ^ b" using C(10) by (intro mult_le_mono2) (simp add: top_def)
  also have "\<dots> = W31 * (W31 ^ (n - 2) * 2 ^ b)" unfolding p by (simp only: mult_ac)
  finally show "ival n m div (W31 ^ (n - 2) * 2 ^ b) < W31" by (rule less_mult_imp_div_less)
qed

lemma muladd_small_one:
  assumes c: "canon31 1 b m" and x: "residue31 1 m x" and z: "unat z < W31"
  shows "residue31 1 m (br_i31_muladd_small x z m)"
    "ival 1 (br_i31_muladd_small x z m) = (W31 * ival 1 x + unat z) mod ival 1 m"
proof -
  note C = canonD [OF c]
  obtain xw where xw: "x = [m ! 0, xw]" "unat xw < W31"
    using residueD(2,3,5) [OF x] by (metis One_nat_def digits31_simps(2) length_0_conv length_Suc_conv)
  have M: "ival 1 m = unat (m ! 1)"
  proof -
    have "i31_words 1 m = [m ! 1]" using C(4) words_nth [OF C(4), of 0]
      by (metis One_nat_def length_0_conv length_Suc_conv nth_Cons_0 zero_less_one)
    then show ?thesis by simp
  qed
  have lt: "unat xw < unat (m ! 1)" using residueD(4) [OF x] M xw by (simp add: i31_words_def)
  have hi: "unat (drop_bit 1 xw) = unat xw div 2" by (simp add: unat_shift)
  have lt2: "unat (drop_bit 1 xw) < unat (m ! 1)" using lt unfolding hi by simp
  have "unat (push_bit 31 xw) = 2 ^ 31 * unat xw mod 2 ^ 32"
    by (simp only: unsigned_push_bit_eq take_bit_eq_mod push_bit_eq_mult [of _ "unat xw"] mult.commute [of "unat xw"]) simp
  also have "\<dots> = 2 ^ 31 * (unat xw mod 2)" using mult_mod_right [of "2 ^ 31" "unat xw" 2] by simp
  finally have p: "unat (push_bit 31 xw) = W31 * (unat xw mod 2)" by (simp add: W31_def)
  have m2: "unat xw mod 2 \<le> 1" by simp
  have "unat z + W31 * (unat xw mod 2) < 2 ^ 32" using z mult_le_mono2 [OF m2, of W31] by (simp add: W31_def)
  moreover have "push_bit 31 xw OR z = z + push_bit 31 xw"
    unfolding or.commute [of "push_bit 31 xw"] using z by (intro or_shift) (simp add: W31_def)
  ultimately have lo: "unat (push_bit 31 xw OR z) = unat z + W31 * (unat xw mod 2)" by (simp add: unat_plus_small p)
  have "2 ^ 32 * u + (k + W31 * v) = W31 * (2 * u + v) + k" for u v k by (simp add: W31_def)
  note this [of "unat xw div 2" "unat z" "unat xw mod 2"]
  then have n: "2 ^ 32 * (unat xw div 2) + (unat z + W31 * (unat xw mod 2)) = W31 * unat xw + unat z" by (simp only: mult_div_mod_eq)
  have r: "unat (br_rem (drop_bit 1 xw) (push_bit 31 xw OR z) (m ! 1)) = (W31 * unat xw + unat z) mod unat (m ! 1)"
    unfolding br_rem_def br_divrem_correct(2) [OF lt2] hi lo n ..
  have h: "m ! 0 \<noteq> 0" "m ! 0 \<le> 31" using C(6,7,8) by (auto simp: word_le_nat_alt)
  have e: "br_i31_muladd_small x z m = [m ! 0, br_rem (drop_bit 1 xw) (push_bit 31 xw OR z) (m ! 1)]"
    using h by (simp add: br_i31_muladd_small_def Let_def xw(1))
  have rl: "unat (br_rem (drop_bit 1 xw) (push_bit 31 xw OR z) (m ! 1)) < unat (m ! 1)" using lt unfolding r by simp
  have ml: "unat (m ! 1) < W31"
    using C(4,5) words_nth [OF C(4), of 0] by (metis One_nat_def digits31_def nth_mem zero_less_one)
  show "residue31 1 m (br_i31_muladd_small x z m)"
    unfolding e by (rule residueI) (use rl ml M in simp_all)
  show "ival 1 (br_i31_muladd_small x z m) = (W31 * ival 1 x + unat z) mod ival 1 m"
    unfolding e M using r xw by (simp add: i31_words_def)
qed

lemma muladd_small_many:
  assumes c: "canon31 n b m" and x: "residue31 n m x" and z: "unat z < W31" and n: "2 \<le> n"
  shows "residue31 n m (br_i31_muladd_small x z m)
    \<and> ival n (br_i31_muladd_small x z m) = (W31 * ival n x + unat z) mod ival n m"
proof -
  note C = canonD [OF c]
  note B = canon_bounds [OF c n]
  note X = residueD [OF x]
  define w where "w = i31_words n x"
  define mw where "mw = i31_words n m"
  define w' where "w' = z # butlast w"
  define hi where "hi = x ! n"
  define S where "S = W31 ^ (n - 2) * 2 ^ b"
  define A where "A = W31 * num31 w + unat z"
  define N where "N = W31 ^ n"
  have wl: "length w = n" "digits31 w" "num31 w < num31 mw" "x = m ! 0 # w" using X by (simp_all add: w_def mw_def)
  have ml: "length mw = n" "digits31 mw" using C(4,5) by (simp_all add: mw_def)
  have MN: "num31 mw < N" using num31_less [OF ml(2)] ml(1) by (simp add: N_def)
  have wn: "w = butlast w @ [hi]"
    using wl n unfolding hi_def by (metis append_butlast_last_id last_conv_nth length_greater_0_conv neq0_conv not_numeral_le_zero nth_Cons_pos zero_less_iff_neq_zero)
  have wl': "length w' = n" "digits31 w'"
    using wl(1,2) wn z n by (simp_all add: w'_def) (metis digits31_simps(3))
  have Ax: "A = N * unat hi + num31 w'"
  proof -
    have "num31 w = num31 (butlast w) + W31 ^ (n - 1) * unat hi" using arg_cong [OF wn, of num31] wl(1) by simp
    moreover have "N = W31 * W31 ^ (n - 1)" using n by (simp add: N_def power_eq_if)
    ultimately show ?thesis by (simp add: A_def w'_def algebra_simps)
  qed
  have SN: "\<exists>k. N = S * W31 * k"
  proof -
    have "W31 * W31 = 2 ^ b * W31 * 2 ^ (31 - b)"
      using C(7) by (simp add: W31_def flip: power_add)
    moreover have "n = n - 2 + 2" using n by simp
    then have "N = W31 ^ (n - 2) * (W31 * W31)" unfolding N_def by (metis power_add power2_eq_square)
    ultimately show ?thesis by (metis S_def mult.assoc)
  qed
  have S0: "0 < S" by (simp add: S_def)
  note top = i31_top_correct [OF _ _ n C(6,7), folded S_def]
  have T0: "unat (i31_top b n w) = num31 w div S"
  proof -
    have "num31 w div S \<le> num31 mw div S" using wl(3) by (intro div_le_mono) simp
    then have "num31 w div S < W31" using B(2) by (simp add: mw_def S_def)
    then show ?thesis using top [OF wl(2,1)] by simp
  qed
  have T1: "unat (i31_top b n w') = A div S mod W31"
  proof -
    obtain k where k: "N = S * W31 * k" using SN by blast
    have "A = num31 w' + S * (W31 * (k * unat hi))" using Ax by (simp add: k mult_ac)
    then have "A div S = W31 * (k * unat hi) + num31 w' div S" using S0 by simp
    then show ?thesis using top [OF wl'(2,1)] by simp
  qed
  have Tm: "unat (i31_top b n mw) = num31 mw div S"
    using top [OF ml(2,1)] B(2) by (simp add: mw_def S_def)
  have Bm: "2 ^ 30 \<le> num31 mw div S" "num31 mw div S < W31" "0 < num31 mw"
    using B by (simp_all add: mw_def S_def)
  define g where "g = br_div (drop_bit 1 (i31_top b n w)) (i31_top b n w' OR push_bit 31 (i31_top b n w)) (i31_top b n mw)"
  define q where "q = MUX (EQ_ct (i31_top b n w) (i31_top b n mw)) 0x7FFFFFFF (MUX (EQ_ct g 0) 0 (g - 1))"
  note E = estimate_near [OF S0 Bm(3) wl(3) z Tm Bm(1,2) T0 T1 [unfolded A_def] g_def q_def, folded A_def]
  obtain ws cc t where L: "muladd_loop q 0 (of_bool True) w' mw = (ws, cc, of_bool t)" "length ws = n" "digits31 ws"
    "num31 w' + N * unat cc = num31 ws + unat q * num31 mw" "t \<longleftrightarrow> num31 mw \<le> num31 ws"
    using muladd_loop_correct [OF wl'(2) ml(2) _ E(1), of 0 True] wl'(1) ml(1) by (auto simp: N_def le_less unat_0)
  have R: "num31 ws < N" using num31_less [OF L(3)] L(2) by (simp add: N_def)
  define over where "over \<longleftrightarrow> unat hi < unat cc"
  define under where "under \<longleftrightarrow> \<not> over \<and> (t \<or> unat cc < unat hi)"
  have o: "GT_ct cc hi = of_bool over" by (simp add: GT_ct_eq over_def word_less_nat_alt)
  have "NOT (GT_ct cc hi) AND (of_bool t OR GT_ct hi cc) = of_bool under"
    unfolding o GT_ct_eq [of hi] ct_bools by (cases over; cases "cc < hi"; cases t) (simp_all add: under_def word_less_nat_alt)
  note u = this
  note K = estimate_corrected [OF Ax R less_imp_le [OF MN] Bm(3) L(4) E(2,3)]
  obtain d1 c1 where a: "br_i31_add (m ! 0 # ws) m (of_bool over) = (m ! 0 # (if over then d1 else ws), c1)"
    "length d1 = n" "digits31 d1" "num31 d1 = (num31 ws + num31 mw) mod N"
    unfolding mw_def N_def by (rule br_i31_add_correct [OF C(3) L(2,3) C(4,5), where t = over])
  define v where "v = (if over then d1 else ws)"
  have v: "length v = n" "digits31 v" using a L by (simp_all add: v_def)
  obtain d2 c2 where s: "br_i31_sub (m ! 0 # v) m (of_bool under) = (m ! 0 # (if under then d2 else v), of_bool c2)"
    "length d2 = n" "digits31 d2" "num31 v + (if c2 then N else 0) = num31 d2 + num31 mw" "c2 \<longleftrightarrow> num31 v < num31 mw"
    unfolding mw_def N_def by (rule br_i31_sub_correct [OF C(3) v C(4,5), where t = under])
  have len: "unat (drop_bit 5 (m ! 0 + 31)) = n" by (rule hdr_len [OF C(3)])
  have L1: "muladd_loop q 0 1 w' mw = (ws, cc, of_bool t)" using L(1) by simp
  have b0: "b \<noteq> 0" using C(6) by simp
  have mb: "unat (m ! 0 AND 31) = b"
  proof -
    have "unat (m ! 0 AND mask 5) = (32 * (n - 1) + b) mod 32" by (simp only: unat_mask C(8)) simp
    then show ?thesis using C(7) by (simp add: mask_eq_exp_minus_1)
  qed
  have h0: "m ! 0 \<noteq> 0" "\<not> m ! 0 \<le> 31"
    using C(6,8) n by (auto simp: word_le_nat_alt)
  have e: "br_i31_muladd_small x z m = m ! 0 # (if under then d2 else v)"
  proof -
    have x0: "x ! 0 # ws @ drop (Suc n) x = m ! 0 # ws" using wl(1,4) by simp
    have "br_i31_muladd_small x z m = fst (br_i31_sub (fst (br_i31_add (x ! 0 # ws @ drop (Suc n) x) m (GT_ct cc hi))) m (NOT (GT_ct cc hi) AND (of_bool t OR GT_ct hi cc)))"
      unfolding br_i31_muladd_small_def Let_def if_not_P [OF h0(1)] if_not_P [OF h0(2)] len mb if_not_P [OF b0] prod.case
      unfolding w_def [symmetric] mw_def [symmetric] hi_def [symmetric] unfolding w'_def [symmetric]
      unfolding g_def [symmetric] unfolding q_def [symmetric] unfolding L1 prod.case
      by (simp add: case_prod_beta)
    also have "\<dots> = m ! 0 # (if under then d2 else v)"
      using s(1) unfolding x0 u unfolding o a(1) v_def [symmetric] by simp
    finally show ?thesis .
  qed
  have val: "num31 (if under then d2 else v) = A mod num31 mw"
  proof (cases over)
    case True
    then show ?thesis using K(1) a(4) by (simp add: under_def over_def v_def)
  next
    case False
    then have v': "v = ws" by (simp add: v_def)
    show ?thesis
    proof (cases under)
      case True
      then have "(if num31 ws < num31 mw then N else 0) + num31 ws = A mod num31 mw + num31 mw"
        using K(2) False L(5) by (auto simp: under_def over_def)
      then show ?thesis using True s(4,5) v' by auto
    next
      case nu: False
      then show ?thesis using K(3) False L(5) v' by (auto simp: under_def over_def)
    qed
  qed
  have "length (if under then d2 else v) = n" "digits31 (if under then d2 else v)" using s v by simp_all
  moreover have "num31 (if under then d2 else v) < ival n m" unfolding val using Bm(3) by (simp add: mw_def)
  ultimately have "residue31 n m (m ! 0 # (if under then d2 else v))" by (rule residueI)
  then show ?thesis
    using \<open>length (if under then d2 else v) = n\<close> val unfolding e
    by (simp only: i31_words_array A_def w_def mw_def)
qed

lemma muladd_small_residue:
  assumes "canon31 n b m" "residue31 n m x" "unat z < W31"
  shows "residue31 n m (br_i31_muladd_small x z m)"
    "ival n (br_i31_muladd_small x z m) = (W31 * ival n x + unat z) mod ival n m"
proof -
  have "n = 1 \<or> 2 \<le> n" using canonD(2) [OF assms(1)] by linarith
  then have "residue31 n m (br_i31_muladd_small x z m)
      \<and> ival n (br_i31_muladd_small x z m) = (W31 * ival n x + unat z) mod ival n m"
    using muladd_small_one [of b m x z] muladd_small_many [OF assms] assms by blast
  then show "residue31 n m (br_i31_muladd_small x z m)"
    "ival n (br_i31_muladd_small x z m) = (W31 * ival n x + unat z) mod ival n m" by simp_all
qed

lemma muladds_residue:
  assumes "canon31 n b m" "residue31 n m x"
  shows "residue31 n m (i31_muladds k x m) \<and> ival n (i31_muladds k x m) = W31 ^ k * ival n x mod ival n m"
  using assms(2)
proof (induction k arbitrary: x)
  case 0
  then show ?case using residueD(4) [OF 0] by simp
next
  case (Suc k)
  note S = muladd_small_residue [OF assms(1) Suc.prems, of 0]
  have "residue31 n m (br_i31_muladd_small x 0 m)" by (rule S(1)) simp
  moreover have "ival n (br_i31_muladd_small x 0 m) = W31 * ival n x mod ival n m" using S(2) by simp
  ultimately show ?case using Suc.IH [of "br_i31_muladd_small x 0 m"] by (simp add: mod_mult_right_eq mult_ac)
qed

lemma to_monty_residue:
  assumes "canon31 n b m" "residue31 n m x"
  shows "residue31 n m (br_i31_to_monty x m)" "ival n (br_i31_to_monty x m) = W31 ^ n * ival n x mod ival n m"
  using muladds_residue [OF assms, of n] hdr_len [OF canonD(3) [OF assms(1)]] by (simp_all add: br_i31_to_monty_def)

end
