(* ===== verification/Big_Codec.thy ===== *)
theory Big_Codec
  imports Big_Div
begin

text \<open>
  Big-endian bytes and 31-bit words (bearssl/src/int/i31_decode.c, i31_decmod.c, i31_encode.c,
  i31_bitlen.c): decoding an integer, decoding a residue with its range check, and encoding.
\<close>

unbundle bit_operations_syntax

section \<open>Bit length\<close>

definition BIT_LENGTH :: "u32 \<Rightarrow> u32" where
  "BIT_LENGTH x =
     (let k = NEQ_ct x 0;
          c = GT_ct x 0xFFFF; x = MUX c (drop_bit 16 x) x; k = k + push_bit 4 c;
          c = GT_ct x 0x00FF; x = MUX c (drop_bit 8 x) x; k = k + push_bit 3 c;
          c = GT_ct x 0x000F; x = MUX c (drop_bit 4 x) x; k = k + push_bit 2 c;
          c = GT_ct x 0x0003; x = MUX c (drop_bit 2 x) x; k = k + push_bit 1 c
      in k + GT_ct x 0x0001)"

text \<open>The loop runs from the last word down; the list is the words in that order.\<close>

fun bitlen_loop :: "u32 \<Rightarrow> u32 \<Rightarrow> u32 list \<Rightarrow> u32 \<times> u32" where
  "bitlen_loop tw twk [] = (tw, twk)"
| "bitlen_loop tw twk (w # ws) =
     (let c = EQ_ct tw 0
      in bitlen_loop (MUX c w tw) (MUX c (word_of_nat (length ws)) twk) ws)"

definition br_i31_bit_length :: "u32 list \<Rightarrow> u32" where
  "br_i31_bit_length x = (let (tw, twk) = bitlen_loop 0 0 (rev x) in push_bit 5 twk + BIT_LENGTH tw)"

section \<open>Decoding\<close>

text \<open>The words written by the loop over the bytes, the last byte first.\<close>

fun decode_loop :: "u32 \<Rightarrow> nat \<Rightarrow> bytes \<Rightarrow> u32 list" where
  "decode_loop acc acc_len [] = (if acc_len \<noteq> 0 then [acc] else [])"
| "decode_loop acc acc_len (c # bs) =
     (let b = ucast c;
          acc = acc OR push_bit acc_len b;
          acc_len = acc_len + 8
      in if 31 \<le> acc_len
         then (acc AND 0x7FFFFFFF) # decode_loop (drop_bit (8 - (acc_len - 31)) b) (acc_len - 31) bs
         else decode_loop acc acc_len bs)"

definition br_i31_decode :: "bytes \<Rightarrow> u32 list" where
  "br_i31_decode src = (let w = decode_loop 0 0 (rev src) in br_i31_bit_length w # w)"

definition CMP_ct :: "u32 \<Rightarrow> u32 \<Rightarrow> u32" where
  "CMP_ct x y = GT_ct x y OR (- GT_ct y x)"

text \<open>
  One pass over the bytes, extended by zeros: the first compares with the modulus, the second
  (\<open>pass\<close>) writes the words under the mask \<open>r\<close>.
\<close>

fun decmod_pass :: "bool \<Rightarrow> nat \<Rightarrow> u32 list \<Rightarrow> nat \<Rightarrow> u32 \<Rightarrow> nat \<Rightarrow> bytes \<Rightarrow> u32 \<times> u32 list \<Rightarrow> u32 \<times> u32 list" where
  "decmod_pass pass mlen m v acc acc_len [] (r, x) = (r, x)"
| "decmod_pass pass mlen m v acc acc_len (c # bs) (r, x) =
     (let b = ucast c;
          acc = acc OR push_bit acc_len b;
          acc_len = acc_len + 8
      in if 31 \<le> acc_len then
           (let xw = acc AND 0x7FFFFFFF;
                acc_len = acc_len - 31;
                acc = drop_bit (8 - acc_len) b;
                rx = (if v \<le> mlen then
                        (if pass then (r, x[v := r AND xw])
                         else (let cc = CMP_ct xw (m ! v) in (MUX (EQ_ct cc 0) r cc, x)))
                      else if \<not> pass then (MUX (EQ_ct xw 0) r 1, x) else (r, x))
            in decmod_pass pass mlen m (Suc v) acc acc_len bs rx)
         else decmod_pass pass mlen m v acc acc_len bs (r, x))"

definition decmod_settle :: "u32 \<Rightarrow> u32" where
  "decmod_settle r = (let r = drop_bit 1 r in r OR push_bit 1 r)"

definition br_i31_decode_mod :: "u32 list \<Rightarrow> bytes \<Rightarrow> u32 list \<Rightarrow> u32 list \<times> u32" where
  "br_i31_decode_mod x src m =
     (let mlen = i31_len m;
          tlen = max (4 * mlen) (length src) + 4;
          bs = rev src @ replicate (tlen - length src) 0;
          (r, x) = decmod_pass False mlen m 1 0 0 bs (0, x);
          r = decmod_settle r;
          (r, x) = decmod_pass True mlen m 1 0 0 bs (r, x);
          r = decmod_settle r
      in (x[0 := m ! 0], r AND 1))"

section \<open>Encoding\<close>

text \<open>The loop writes from the end of the buffer; the result is the \<open>len\<close> bytes it fills.\<close>

function encode_loop :: "u32 list \<Rightarrow> u32 \<Rightarrow> nat \<Rightarrow> nat \<Rightarrow> bytes" where
  "encode_loop ws acc acc_len len =
     (if len = 0 then []
      else
        (let w = (case ws of [] \<Rightarrow> 0 | w # _ \<Rightarrow> w) in
         if acc_len = 0 then encode_loop (tl ws) w 31 len
         else
           (let z = acc OR push_bit acc_len w;
                acc_len' = acc_len - 1;
                acc' = drop_bit (31 - acc_len') w
            in if 4 \<le> len then encode_loop (tl ws) acc' acc_len' (len - 4) @ br_enc32be z
               else if len = 3 then [ucast (drop_bit 16 z), ucast (drop_bit 8 z), ucast z]
               else if len = 2 then [ucast (drop_bit 8 z), ucast z]
               else [ucast z])))"
  by pat_completeness auto

termination by (relation "measure (\<lambda>(ws, acc, acc_len, len). 2 * len + (if acc_len = 0 then 1 else 0))") auto

declare encode_loop.simps [simp del]

definition br_i31_encode :: "nat \<Rightarrow> u32 list \<Rightarrow> bytes" where
  "br_i31_encode len x =
     (let xlen = i31_len x in
      if xlen = 0 then replicate len 0 else encode_loop (i31_words xlen x) 0 0 len)"

section \<open>The decoded number\<close>

lemma unat_byte32: "unat (ucast (c :: byte) :: u32) < 256"
  using unsigned_less [of c, where ?'a = nat] by (simp add: unat_widen8)

lemma decode_digit:
  fixes b acc :: u32
  assumes "unat acc < 2 ^ al" "al < 31" "unat b < 256"
  shows "al + 8 < 31 \<Longrightarrow> unat (acc OR push_bit al b) = unat acc + 2 ^ al * unat b"
    "al + 8 < 31 \<Longrightarrow> unat (acc OR push_bit al b) < 2 ^ (al + 8)"
    "31 \<le> al + 8 \<Longrightarrow> unat ((acc OR push_bit al b) AND 0x7FFFFFFF) + W31 * unat (drop_bit (8 - (al + 8 - 31)) b) = unat acc + 2 ^ al * unat b"
    "31 \<le> al + 8 \<Longrightarrow> unat (drop_bit (8 - (al + 8 - 31)) b) < 2 ^ (al + 8 - 31)"
proof -
  let ?t = "unat acc + 2 ^ al * unat b"
  have "?t < 2 ^ al * (unat b + 1)" using assms(1) by simp
  also have "\<dots> \<le> 2 ^ al * 2 ^ 8" using assms(3) by (intro mult_le_mono2) simp
  finally have t: "?t < 2 ^ al * 2 ^ 8" .
  have o: "acc OR push_bit al b = acc + push_bit al b" by (rule or_shift [OF assms(1)])
  have p: "unat (push_bit al b) = 2 ^ al * unat b mod 2 ^ 32"
    by (simp only: unsigned_push_bit_eq take_bit_eq_mod push_bit_eq_mult [of _ "unat b"] mult.commute [of "unat b"]) simp
  have u: "unat (acc OR push_bit al b) = ?t mod 2 ^ 32"
    unfolding o unat_word_ariths p by (simp add: mod_add_right_eq)
  show "unat (acc OR push_bit al b) = ?t" "unat (acc OR push_bit al b) < 2 ^ (al + 8)" if s: "al + 8 < 31"
  proof -
    have "(2 :: nat) ^ al * 2 ^ 8 \<le> 2 ^ 32" using s by (simp only: power_add [symmetric]) (rule power_increasing, simp_all)
    then have "?t < 2 ^ 32" using t by (rule less_le_trans [rotated])
    then have "?t mod 2 ^ 32 = ?t" by (rule mod_less)
    then show "unat (acc OR push_bit al b) = ?t" "unat (acc OR push_bit al b) < 2 ^ (al + 8)"
      using u t by (simp_all only: power_add)
  qed
  assume l: "31 \<le> al + 8"
  have sh: "8 - (al + 8 - 31) = 31 - al" using l assms(2) by simp
  have W: "W31 = 2 ^ al * 2 ^ (31 - al)" using assms(2) by (simp add: W31_def flip: power_add)
  have "?t div W31 = ?t div 2 ^ al div 2 ^ (31 - al)" unfolding W div_mult2_eq ..
  also have "?t div 2 ^ al = unat b" using assms(1) by simp
  finally have q: "unat (drop_bit (8 - (al + 8 - 31)) b) = ?t div W31" unfolding sh unat_shift ..
  have "unat ((acc OR push_bit al b) AND 0x7FFFFFFF) = ?t mod W31"
    unfolding unat_mask31 u by (rule mod_mod_cancel) (simp add: W31_def)
  then show "unat ((acc OR push_bit al b) AND 0x7FFFFFFF) + W31 * unat (drop_bit (8 - (al + 8 - 31)) b) = ?t"
    unfolding q by simp
  have "2 ^ al * (2 :: nat) ^ 8 = 2 ^ (al + 8 - 31) * W31" unfolding W31_def power_add [symmetric] using l by simp
  then show "unat (drop_bit (8 - (al + 8 - 31)) b) < 2 ^ (al + 8 - 31)"
    unfolding q using t by (intro less_mult_imp_div_less) simp
qed

lemma decode_loop_props:
  "unat acc < 2 ^ al \<Longrightarrow> al < 31 \<Longrightarrow>
     digits31 (decode_loop acc al bs) \<and> num31 (decode_loop acc al bs) = unat acc + 2 ^ al * le_num bs
     \<and> length (decode_loop acc al bs) = (al + 8 * length bs + 30) div 31"
proof (induction acc al bs rule: decode_loop.induct)
  case (1 acc al)
  have "2 ^ al \<le> (2 :: nat) ^ 31" using "1.prems" by (intro power_increasing) simp_all
  then have "unat acc < W31" using "1.prems" by (simp add: W31_def)
  moreover have "(al + 30) div 31 = 1" if "0 < al" using that "1.prems" by (intro div_nat_eqI) simp_all
  ultimately show ?case using "1.prems" by (auto simp: unat_eq_0)
next
  case (2 acc al c bs)
  let ?b = "ucast c :: u32"
  note D = decode_digit [OF "2.prems" unat_byte32 [of c]]
  have bu: "unat ?b = unat c" by (rule unat_widen8)
  show ?case
  proof (cases "31 \<le> al + 8")
    case True
    define al' where "al' = al + 8 - 31"
    define a' where "a' = drop_bit (8 - al') ?b"
    define w where "w = (acc OR push_bit al ?b) AND 0x7FFFFFFF"
    have e: "decode_loop acc al (c # bs) = w # decode_loop a' al' bs"
      using True by (simp add: Let_def a'_def w_def al'_def)
    have I: "digits31 (decode_loop a' al' bs)"
      "num31 (decode_loop a' al' bs) = unat a' + 2 ^ al' * le_num bs"
      "length (decode_loop a' al' bs) = (al' + 8 * length bs + 30) div 31"
      using "2.IH"(1) [OF refl refl refl True] D(4) [OF True] "2.prems"(2) by (auto simp: a'_def al'_def)
    have p: "W31 * 2 ^ al' = 2 ^ al * 256"
    proof -
      have "31 + al' = al + 8" using True by (simp add: al'_def)
      then have "(2 :: nat) ^ 31 * 2 ^ al' = 2 ^ al * 2 ^ 8" by (simp only: power_add [symmetric])
      then show ?thesis by (simp add: W31_def)
    qed
    have "num31 (w # decode_loop a' al' bs) = unat w + W31 * unat a' + W31 * 2 ^ al' * le_num bs"
      by (simp add: I(2) distrib_left)
    also have "\<dots> = unat acc + 2 ^ al * unat c + 2 ^ al * 256 * le_num bs"
      using D(3) [OF True] unfolding p bu by (simp only: a'_def w_def al'_def)
    finally have v: "num31 (w # decode_loop a' al' bs) = unat acc + 2 ^ al * le_num (c # bs)"
      by (simp add: distrib_left)
    have "al + 8 * length (c # bs) + 30 = (al' + 8 * length bs + 30) + 31" using True by (simp add: al'_def)
    then have l: "(al + 8 * length (c # bs) + 30) div 31 = Suc ((al' + 8 * length bs + 30) div 31)"
      by (metis Suc_eq_plus1 add.commute div_add_self2 zero_neq_numeral)
    show ?thesis unfolding e l using v I(1,3) by (simp add: w_def unat_mask31)
  next
    case False
    define a' where "a' = acc OR push_bit al ?b"
    have e: "decode_loop acc al (c # bs) = decode_loop a' (al + 8) bs"
      using False by (simp add: Let_def a'_def)
    have "unat a' < 2 ^ (al + 8)" "al + 8 < 31" using D(2) False by (simp_all add: a'_def)
    then have I: "digits31 (decode_loop a' (al + 8) bs)"
      "num31 (decode_loop a' (al + 8) bs) = unat a' + 2 ^ (al + 8) * le_num bs"
      "length (decode_loop a' (al + 8) bs) = (al + 8 + 8 * length bs + 30) div 31"
      using "2.IH"(2) [OF refl refl refl False] by (auto simp: a'_def)
    have "unat a' = unat acc + 2 ^ al * unat c" using D(1) False bu by (simp add: a'_def)
    then show ?thesis unfolding e using I by (simp add: power_add algebra_simps)
  qed
qed

lemma decode_loop_0:
  "digits31 (decode_loop 0 0 bs)" "num31 (decode_loop 0 0 bs) = le_num bs" "length (decode_loop 0 0 bs) = (8 * length bs + 30) div 31"
  using decode_loop_props [of 0 0 bs] by (simp_all add: unat_0)

section \<open>The announced bit length\<close>

lemma BIT_LENGTH_step:
  assumes "unat x < 2 ^ (2 * k)" "0 < k" "k < 32" "c = GT_ct x (word_of_nat (2 ^ k - 1))" "x' = MUX c (drop_bit k x) x"
  shows "unat x' < 2 ^ k" "x \<noteq> 0 \<Longrightarrow> x' \<noteq> 0"
    "\<exists>t. c = of_bool t \<and> unat x' = unat x div 2 ^ (k * of_bool t)"
proof -
  have "2 ^ k - 1 < (2 :: nat) ^ 32" using power_strict_increasing [OF assms(3), of "2 :: nat"] by simp
  moreover have "0 < (2 :: nat) ^ k" by simp
  then have i: "2 ^ k - 1 < unat x \<longleftrightarrow> 2 ^ k \<le> unat x" by linarith
  ultimately have c: "c = of_bool (2 ^ k \<le> unat x)"
    using i unfolding assms(4) GT_ct_eq word_less_nat_alt by (simp only: unat_word32)
  have x': "unat x' = (if 2 ^ k \<le> unat x then unat x div 2 ^ k else unat x)"
    unfolding assms(5) c MUX_eq by (simp add: unat_shift)
  have "unat x div 2 ^ k < 2 ^ k" using assms(1) by (intro less_mult_imp_div_less) (simp add: power_add mult_2)
  then show "unat x' < 2 ^ k" unfolding x' by auto
  show "x' \<noteq> 0" if "x \<noteq> 0"
  proof -
    have "0 < unat x" using that by (simp add: word_unat_eq_iff)
    then have "unat x' \<noteq> 0" unfolding x' by (auto simp: div_greater_zero_iff)
    then show ?thesis by auto
  qed
  show "\<exists>t. c = of_bool t \<and> unat x' = unat x div 2 ^ (k * of_bool t)" unfolding c x' by auto
qed

lemma BIT_LENGTH_0: "BIT_LENGTH 0 = 0"
  by (simp add: BIT_LENGTH_def Let_def NEQ_ct_def GT_ct_eq MUX_eq [of False, simplified])

lemma between_powers:
  assumes "(x :: nat) div 2 ^ s = y" "1 \<le> y" "y < 4"
  shows "2 ^ (s + of_bool (1 < y)) \<le> x \<and> x < 2 ^ (s + of_bool (1 < y) + 1)"
proof -
  obtain r where x: "x = y * 2 ^ s + r" "r < 2 ^ s"
    using that [of "x mod 2 ^ s"] assms(1) div_mult_mod_eq [of x "2 ^ s"] by simp
  moreover have "y = 1 \<or> y = 2 \<or> y = 3" using assms by linarith
  ultimately show ?thesis by (elim disjE) (simp_all)
qed

lemma BIT_LENGTH_correct:
  assumes "x \<noteq> 0"
  obtains k where "unat (BIT_LENGTH x) = k" "1 \<le> k" "k \<le> 32" "2 ^ (k - 1) \<le> unat x" "unat x < 2 ^ k"
proof -
  define x1 where "x1 = MUX (GT_ct x 0xFFFF) (drop_bit 16 x) x"
  define x2 where "x2 = MUX (GT_ct x1 0x00FF) (drop_bit 8 x1) x1"
  define x3 where "x3 = MUX (GT_ct x2 0x000F) (drop_bit 4 x2) x2"
  define x4 where "x4 = MUX (GT_ct x3 0x0003) (drop_bit 2 x3) x3"
  have x32: "unat x < 2 ^ (2 * 16)" using unsigned_less [of x, where ?'a = nat] by simp
  note S1 = BIT_LENGTH_step [OF x32 _ _ refl, of x1]
  have S1: "unat x1 < 2 ^ (2 * 8)" "x1 \<noteq> 0" "\<exists>t. GT_ct x 0xFFFF = of_bool t \<and> unat x1 = unat x div 2 ^ (16 * of_bool t)"
    using S1 assms by (simp_all add: x1_def)
  note S2 = BIT_LENGTH_step [OF S1(1) _ _ refl, of x2]
  have S2: "unat x2 < 2 ^ (2 * 4)" "x2 \<noteq> 0" "\<exists>t. GT_ct x1 0xFF = of_bool t \<and> unat x2 = unat x1 div 2 ^ (8 * of_bool t)"
    using S2 S1(2) by (simp_all add: x2_def)
  note S3 = BIT_LENGTH_step [OF S2(1) _ _ refl, of x3]
  have S3: "unat x3 < 2 ^ (2 * 2)" "x3 \<noteq> 0" "\<exists>t. GT_ct x2 0xF = of_bool t \<and> unat x3 = unat x2 div 2 ^ (4 * of_bool t)"
    using S3 S2(2) by (simp_all add: x3_def)
  note S4 = BIT_LENGTH_step [OF S3(1) _ _ refl, of x4]
  have S4: "unat x4 < 4" "x4 \<noteq> 0" "\<exists>t. GT_ct x3 3 = of_bool t \<and> unat x4 = unat x3 div 2 ^ (2 * of_bool t)"
    using S4 S3(2) by (simp_all add: x4_def)
  obtain t1 t2 t3 t4 where t: "GT_ct x 0xFFFF = of_bool t1" "GT_ct x1 0xFF = of_bool t2" "GT_ct x2 0xF = of_bool t3" "GT_ct x3 3 = of_bool t4"
    and u: "unat x1 = unat x div 2 ^ (16 * of_bool t1)" "unat x2 = unat x1 div 2 ^ (8 * of_bool t2)"
      "unat x3 = unat x2 div 2 ^ (4 * of_bool t3)" "unat x4 = unat x3 div 2 ^ (2 * of_bool t4)"
    using S1(3) S2(3) S3(3) S4(3) by blast
  define s where "s = 16 * of_bool t1 + 8 * of_bool t2 + 4 * of_bool t3 + (2 * of_bool t4 :: nat)"
  have v: "unat x div 2 ^ s = unat x4" by (simp only: u s_def div_mult2_eq [symmetric] power_add [symmetric] mult.assoc [symmetric])
  have "1 \<le> unat x4" using S4(2) by (simp add: word_unat_eq_iff Suc_le_eq)
  note B = between_powers [OF v this S4(1)]
  have five: "GT_ct x4 1 = of_bool (1 < unat x4)" by (simp add: GT_ct_eq word_less_nat_alt)
  have "BIT_LENGTH x = 1 + push_bit 4 (of_bool t1) + push_bit 3 (of_bool t2) + push_bit 2 (of_bool t3) + push_bit 1 (of_bool t4) + of_bool (1 < unat x4)"
    unfolding BIT_LENGTH_def Let_def x1_def [symmetric] unfolding x2_def [symmetric] unfolding x3_def [symmetric] unfolding x4_def [symmetric]
    unfolding t five using assms by (simp add: ct_bools)
  then have k: "unat (BIT_LENGTH x) = s + of_bool (1 < unat x4) + 1"
    by (cases t1; cases t2; cases t3; cases t4; cases "1 < unat x4") (simp_all add: s_def)
  have "s \<le> 30" by (auto simp: s_def)
  then show thesis using B by (intro that [OF k]) simp_all
qed

lemma bitlen_loop_found: "tw \<noteq> 0 \<Longrightarrow> bitlen_loop tw twk ws = (tw, twk)"
  by (induction ws) (simp_all add: EQ_ct_eq MUX_eq [of False, simplified])

text \<open>The highest nonzero word and its index.\<close>

lemma bitlen_loop_correct:
  assumes "\<exists>w\<in>set ws. w \<noteq> 0"
  obtains lo w hi where "rev ws = lo @ [w] @ replicate hi 0" "w \<noteq> 0" "bitlen_loop 0 0 ws = (w, word_of_nat (length lo))"
proof -
  have "\<exists>hi w lo. ws = replicate hi 0 @ [w] @ lo \<and> w \<noteq> 0 \<and> bitlen_loop 0 k ws = (w, word_of_nat (length lo))" for k
    using assms
  proof (induction ws arbitrary: k)
    case (Cons w ws)
    show ?case
    proof (cases "w = 0")
      case True
      obtain hi w' lo where "ws = replicate hi 0 @ [w'] @ lo" "w' \<noteq> 0" "bitlen_loop 0 (word_of_nat (length ws)) ws = (w', word_of_nat (length lo))"
        using Cons.IH [of "word_of_nat (length ws)"] Cons.prems True by auto
      then show ?thesis
        by (intro exI [of _ "Suc hi"] exI [of _ w'] exI [of _ lo]) (use True in \<open>simp add: EQ_ct_eq MUX_eq [of True, simplified]\<close>)
    next
      case False
      then show ?thesis
        by (intro exI [of _ 0] exI [of _ w] exI [of _ ws]) (simp add: EQ_ct_eq MUX_eq [of True, simplified] bitlen_loop_found)
    qed
  qed simp
  from this [of 0] obtain hi w lo where r: "ws = replicate hi 0 @ [w] @ lo" "w \<noteq> 0" "bitlen_loop 0 0 ws = (w, word_of_nat (length lo))" by blast
  show thesis by (rule that [of "rev lo" w hi]) (use r in simp_all)
qed

lemma num31_nonzero: "num31 ws \<noteq> 0 \<Longrightarrow> \<exists>w\<in>set ws. w \<noteq> 0"
  by (induction ws) (auto simp: unat_eq_0)

lemma be_num_rev: "be_num bs = le_num (rev bs)"
  by (simp add: be_num_def le_num_def)

lemma decode_canon:
  assumes "length src \<le> 2 ^ 26" "be_num src \<noteq> 0"
  obtains n b where "canon31 n b (br_i31_decode src)" "ival n (br_i31_decode src) = be_num src" "n \<le> (8 * length src + 30) div 31"
proof -
  define v where "v = decode_loop 0 0 (rev src)"
  have v: "digits31 v" "num31 v = be_num src" "length v = (8 * length src + 30) div 31"
    using decode_loop_0 [of "rev src"] by (simp_all add: v_def be_num_rev)
  have "\<exists>w\<in>set (rev v). w \<noteq> 0" using num31_nonzero [of v] v(2) assms(2) by simp
  then obtain lo w hi where B: "v = lo @ [w] @ replicate hi 0" "w \<noteq> 0" "bitlen_loop 0 0 (rev v) = (w, word_of_nat (length lo))"
    using bitlen_loop_correct [of "rev v"] by auto
  obtain k where k: "unat (BIT_LENGTH w) = k" "1 \<le> k" "k \<le> 32" "2 ^ (k - 1) \<le> unat w" "unat w < 2 ^ k"
    by (rule BIT_LENGTH_correct [OF B(2)])
  have w31: "unat w < 2 ^ 31" using v(1) B(1) by (simp add: W31_def)
  have k31: "k \<le> 31"
  proof (rule ccontr)
    assume "\<not> k \<le> 31"
    then have "k = 32" using k(3) by simp
    then show False using k(4) w31 by simp
  qed
  have ll: "length lo < length v" using B(1) by simp
  have vb: "length v \<le> 2 ^ 25" using assms(1) unfolding v(3) by simp
  have h: "br_i31_decode src = (push_bit 5 (word_of_nat (length lo)) + BIT_LENGTH w) # v"
    by (simp add: br_i31_decode_def br_i31_bit_length_def v_def [symmetric] B(3))
  have ul: "unat (word_of_nat (length lo) :: u32) = length lo" using ll vb by (intro unat_word32) simp
  have "unat (push_bit 5 (word_of_nat (length lo) :: u32)) = 32 * length lo"
    using ll vb by (subst unat_push) (simp_all add: ul)
  then have uh: "unat (push_bit 5 (word_of_nat (length lo)) + BIT_LENGTH w) = 32 * length lo + k"
    using ll vb k(1) k31 by (subst unat_plus_small) simp_all
  have n: "i31_words (Suc (length lo)) (br_i31_decode src) = lo @ [w]" by (simp add: h i31_words_def B(1))
  have hd: "hdr31 (Suc (length lo)) (br_i31_decode src ! 0)"
  proof -
    have "(32 * length lo + k + 31) div 32 = Suc (length lo)" using k(2) k31 by (intro div_nat_eqI) simp_all
    then show ?thesis using ll vb k31 by (simp add: hdr31_def h uh)
  qed
  have "canon31 (Suc (length lo)) k (br_i31_decode src)"
    unfolding canon31_def modulus31_def n
    using hd k k31 v(1) B(1) uh by (simp add: h nth_append)
  moreover have "ival (Suc (length lo)) (br_i31_decode src) = be_num src"
    unfolding n v(2) [symmetric] by (simp add: B(1))
  ultimately show thesis using that ll v(3) by (metis Suc_leI)
qed

section \<open>The range check\<close>

text \<open>The complete words of a byte string, and the two passes over them.\<close>

fun full_words :: "u32 \<Rightarrow> nat \<Rightarrow> bytes \<Rightarrow> u32 list" where
  "full_words acc acc_len [] = []"
| "full_words acc acc_len (c # bs) =
     (let b = ucast c;
          acc = acc OR push_bit acc_len b;
          acc_len = acc_len + 8
      in if 31 \<le> acc_len
         then (acc AND 0x7FFFFFFF) # full_words (drop_bit (8 - (acc_len - 31)) b) (acc_len - 31) bs
         else full_words acc acc_len bs)"

fun word_pass :: "bool \<Rightarrow> nat \<Rightarrow> u32 list \<Rightarrow> nat \<Rightarrow> u32 list \<Rightarrow> u32 \<times> u32 list \<Rightarrow> u32 \<times> u32 list" where
  "word_pass pass mlen m v [] rx = rx"
| "word_pass pass mlen m v (xw # ws) (r, x) =
     word_pass pass mlen m (Suc v) ws
       (if v \<le> mlen then
          (if pass then (r, x[v := r AND xw])
           else (let cc = CMP_ct xw (m ! v) in (MUX (EQ_ct cc 0) r cc, x)))
        else if \<not> pass then (MUX (EQ_ct xw 0) r 1, x) else (r, x))"

lemma decmod_pass_words: "decmod_pass pass mlen m v acc al bs rx = word_pass pass mlen m v (full_words acc al bs) rx"
proof (induction pass mlen m v acc al bs rx rule: decmod_pass.induct)
  case (2 pass mlen m v acc acc_len c bs r x)
  then show ?case by (simp only: decmod_pass.simps(2) full_words.simps(2) Let_def) (simp add: Let_def)
qed simp

lemma full_words_take:
  "unat acc < 2 ^ al \<Longrightarrow> al < 31 \<Longrightarrow> full_words acc al bs = take ((al + 8 * length bs) div 31) (decode_loop acc al bs)"
proof (induction acc al bs rule: full_words.induct)
  case (2 acc al c bs)
  note D = decode_digit [OF "2.prems" unat_byte32 [of c]]
  show ?case
  proof (cases "31 \<le> al + 8")
    case True
    have "al + 8 * length (c # bs) = (al + 8 - 31 + 8 * length bs) + 31" using True by simp
    then have l: "(al + 8 * length (c # bs)) div 31 = Suc ((al + 8 - 31 + 8 * length bs) div 31)"
      by (metis Suc_eq_plus1 div_add_self2 zero_neq_numeral)
    show ?thesis
      using True "2.IH"(1) [OF refl refl refl True D(4) [OF True]] "2.prems"(2) unfolding l by (simp add: Let_def)
  next
    case False
    then show ?thesis
      using "2.IH"(2) [OF refl refl refl False D(2)] by (simp add: Let_def algebra_simps)
  qed
qed simp

text \<open>Enough zero bytes at the end leave no incomplete word.\<close>

lemma full_words_zeros:
  assumes "length bs = t"
  shows "digits31 (full_words 0 0 (bs @ replicate 4 0))" "num31 (full_words 0 0 (bs @ replicate 4 0)) = le_num bs"
    "length (full_words 0 0 (bs @ replicate 4 0)) = (8 * t + 32) div 31"
proof -
  let ?b = "bs @ replicate 4 0" and ?k = "(8 * t + 32) div 31"
  have f: "full_words 0 0 ?b = take ?k (decode_loop 0 0 ?b)"
    using full_words_take [of 0 0 ?b] assms by (simp add: unat_0 distrib_left)
  have l: "length (decode_loop 0 0 ?b) = (8 * t + 62) div 31"
    using decode_loop_0(3) [of ?b] assms by (simp add: distrib_left)
  have kl: "?k \<le> length (decode_loop 0 0 ?b)" unfolding l by (intro div_le_mono) simp
  show "digits31 (full_words 0 0 ?b)" unfolding f by (intro digits31_take decode_loop_0)
  show "length (full_words 0 0 ?b) = ?k" unfolding f using kl by simp
  have "num31 (full_words 0 0 ?b) = num31 (decode_loop 0 0 ?b) mod W31 ^ ?k"
    using val_take [of "map unat (decode_loop 0 0 ?b)" W31 ?k] decode_loop_0(1) [of ?b] kl
    unfolding f by (simp add: num31_def digits31_def take_map)
  also have "\<dots> = le_num bs mod W31 ^ ?k" by (simp add: decode_loop_0(2) le_num_append)
  also have "\<dots> = le_num bs"
  proof (rule mod_less)
    have "8 * t \<le> 31 * ?k" by linarith
    have "le_num bs < 256 ^ t" using le_num_less [of bs] assms by simp
    also have "\<dots> = 2 ^ (8 * t)" by (simp add: power_mult)
    also have "\<dots> \<le> 2 ^ (31 * ?k)" using \<open>8 * t \<le> 31 * ?k\<close> by (intro power_increasing) simp_all
    also have "\<dots> = W31 ^ ?k" by (simp add: power_mult W31_def)
    finally show "le_num bs < W31 ^ ?k" .
  qed
  finally show "num31 (full_words 0 0 ?b) = le_num bs" .
qed

definition sgn32 :: "nat \<Rightarrow> nat \<Rightarrow> u32" where
  "sgn32 a b = (if a < b then - 1 else if a = b then 0 else 1)"

lemma CMP_ct_eq: "CMP_ct x y = sgn32 (unat x) (unat y)"
  by (auto simp: CMP_ct_def GT_ct_eq sgn32_def word_less_nat_alt word_unat_eq_iff)

lemma sgn32_zero [simp]: "sgn32 a b = 0 \<longleftrightarrow> a = b"
  by (simp add: sgn32_def)

lemma compare_pass:
  assumes "digits31 ws" "digits31 (i31_words n m)" "length (i31_words n m) = n" "n \<le> v + length ws"
  shows "word_pass False n m (Suc v) ws (r, x)
     = (if num31 ws = num31 (drop v (i31_words n m)) then r else sgn32 (num31 ws) (num31 (drop v (i31_words n m))), x)"
  using assms
proof (induction ws arbitrary: v r)
  case Nil
  then show ?case by simp
next
  case (Cons xw ws)
  let ?m = "i31_words n m"
  have xw: "unat xw < W31" "digits31 ws" using Cons.prems(1) by simp_all
  note I = Cons.IH [OF xw(2) Cons.prems(2,3), of "Suc v"]
  show ?case
  proof (cases "v < n")
    case True
    have d: "drop v ?m = m ! Suc v # drop (Suc v) ?m"
      using True Cons.prems(3) words_nth [OF Cons.prems(3) True] by (metis Cons_nth_drop_Suc)
    have mv: "unat (m ! Suc v) < W31"
      using Cons.prems(2,3) True words_nth [OF Cons.prems(3) True] by (metis digits31_def nth_mem)
    have e: "word_pass False n m (Suc v) (xw # ws) (r, x)
        = word_pass False n m (Suc (Suc v)) ws (if xw = m ! Suc v then r else sgn32 (unat xw) (unat (m ! Suc v)), x)"
      using True word_unat_eq_iff [of xw "m ! Suc v"] by (simp add: Let_def CMP_ct_eq EQ_ct_eq MUX_eq)
    show ?thesis
      unfolding e d num31_simps using I [of "if xw = m ! Suc v then r else sgn32 (unat xw) (unat (m ! Suc v))"] Cons.prems(4)
      by (auto simp: sgn32_def digit_less [OF xw(1) mv] word_unat_eq_iff)
  next
    case False
    then have d: "drop v ?m = []" "drop (Suc v) ?m = []" using Cons.prems(3) by simp_all
    have e: "word_pass False n m (Suc v) (xw # ws) (r, x)
        = word_pass False n m (Suc (Suc v)) ws (if xw = 0 then r else 1, x)"
      using False by (simp add: Let_def EQ_ct_eq MUX_eq)
    show ?thesis
      unfolding e d using I [of "if xw = 0 then r else 1"] False unfolding d
      by (auto simp: sgn32_def word_unat_eq_iff)
  qed
qed

lemma write_pass:
  assumes "n < length x" "n \<le> v + length ws" "v \<le> n"
  shows "word_pass True n m (Suc v) ws (r, x) = (r, take (Suc v) x @ map (\<lambda>w. r AND w) (take (n - v) ws) @ drop (Suc n) x)"
  using assms
proof (induction ws arbitrary: v x)
  case Nil
  then have "v = n" by simp
  then show ?case using Nil by simp
next
  case (Cons xw ws)
  show ?case
  proof (cases "v < n")
    case True
    then have "n - v = Suc (n - Suc v)" by simp
    then show ?thesis
      using True Cons.IH [of "x[Suc v := r AND xw]" "Suc v"] Cons.prems
      by (simp add: take_Suc_conv_app_nth [of "Suc v"] nth_list_update drop_update_cancel take_update_cancel)
  next
    case False
    then have v: "v = n" using Cons.prems(3) by simp
    have "word_pass True n m (Suc (Suc n)) ws (r, x) = (r, x)" for ws
    proof -
      have "word_pass True n m v ws (r, x) = (r, x)" if "n < v" for v
        using that by (induction ws arbitrary: v) simp_all
      then show ?thesis by simp
    qed
    then show ?thesis using v by simp
  qed
qed

lemma settle:
  "decmod_settle 0 = 0" "decmod_settle 1 = 0" "decmod_settle (- 1) = - 1"
  by (simp_all add: decmod_settle_def Let_def mask_eq_exp_minus_1)

lemma decode_mod_correct:
  assumes m: "modulus31 n m" and x: "length x = Suc n"
  shows "snd (br_i31_decode_mod x src m) = of_bool (be_num src < ival n m)"
    "residue31 n m (fst (br_i31_decode_mod x src m)) \<or> ival n m = 0"
    "be_num src < ival n m \<Longrightarrow> ival n (fst (br_i31_decode_mod x src m)) = be_num src"
proof -
  have h: "hdr31 n (m ! 0)" and ml: "length (i31_words n m) = n" "digits31 (i31_words n m)"
    using m by (simp_all add: modulus31_def)
  define t where "t = max (4 * n) (length src)"
  define bs where "bs = rev src @ replicate (t - length src) 0"
  have bl: "length bs = t" by (simp add: bs_def t_def)
  define ws where "ws = full_words 0 0 (bs @ replicate 4 0)"
  note F = full_words_zeros [OF bl, folded ws_def]
  have nw: "num31 ws = be_num src" using F(2) by (simp add: bs_def be_num_rev le_num_append)
  have nl: "n \<le> length ws" unfolding F(3) by (simp add: t_def less_eq_div_iff_mult_less_eq)
  define r where "r = (if be_num src < ival n m then - 1 else (0 :: u32))"
  define w where "w = map (\<lambda>w. r AND w) (take n ws)"
  have "(be_num src < ival n m \<longrightarrow> num31 w = be_num src) \<and> (\<not> be_num src < ival n m \<longrightarrow> w = replicate n 0)"
  proof (intro conjI impI)
    assume "be_num src < ival n m"
    moreover have "ival n m < W31 ^ n" using num31_less [OF ml(2)] ml(1) by simp
    ultimately have "num31 ws mod W31 ^ n = be_num src" unfolding nw by simp
    then have "num31 (take n ws) = be_num src"
      using val_take [of "map unat ws" W31 n] F(1) nl by (simp add: num31_def digits31_def take_map)
    then show "num31 w = be_num src" using \<open>be_num src < ival n m\<close> by (simp add: w_def r_def)
  next
    assume "\<not> be_num src < ival n m"
    then show "w = replicate n 0" using nl by (simp add: w_def r_def map_replicate_const)
  qed
  note wv = this
  have wd: "length w = n" "digits31 w" using nl F(1) digits31_take [of ws n] wv by (auto simp: w_def r_def)
  have p0: "decmod_pass False n m (Suc 0) 0 0 (bs @ replicate 4 0) (0, x) = (sgn32 (be_num src) (ival n m), x)"
    unfolding decmod_pass_words ws_def [symmetric]
    using compare_pass [OF F(1) ml(2,1), of 0 0 x] nl by (simp add: nw)
  have p1: "decmod_pass True n m (Suc 0) 0 0 (bs @ replicate 4 0) (r, x) = (r, x ! 0 # w)"
    unfolding decmod_pass_words ws_def [symmetric]
    using write_pass [of n x 0 ws m r] nl x by (simp add: w_def take_Suc_conv_app_nth)
  have s: "decmod_settle (sgn32 (be_num src) (ival n m)) = r" "decmod_settle r = r"
    by (simp_all add: sgn32_def r_def settle)
  have tl: "max (4 * n) (length src) + 4 - length src = t - length src + 4" by (simp add: t_def)
  have e: "br_i31_decode_mod x src m = (m ! 0 # w, r AND 1)"
    unfolding br_i31_decode_mod_def Let_def hdr_i31_len [of n m, OF h] tl replicate_add append_assoc [symmetric] bs_def [symmetric]
    by (simp add: p0 p1 s)
  show "snd (br_i31_decode_mod x src m) = of_bool (be_num src < ival n m)" by (simp add: e r_def)
  show "be_num src < ival n m \<Longrightarrow> ival n (fst (br_i31_decode_mod x src m)) = be_num src" using wv wd by (simp add: e)
  have "num31 w < ival n m" if "0 < ival n m" using wv that by (cases "be_num src < ival n m") simp_all
  then show "residue31 n m (fst (br_i31_decode_mod x src m)) \<or> ival n m = 0"
    using wd unfolding e by (auto intro: residueI)
qed

section \<open>The encoded number\<close>

definition be_bytes :: "nat \<Rightarrow> nat \<Rightarrow> bytes" where
  "be_bytes k n = rev (le_bytes k n)"

lemma length_be_bytes [simp]: "length (be_bytes k n) = k"
  by (simp add: be_bytes_def)

lemma be_num_be_bytes: "be_num (be_bytes k n) = n mod 256 ^ k"
  by (simp add: be_num_rev be_bytes_def le_num_le_bytes)

lemma le_bytes_add: "le_bytes (j + k) n = le_bytes j n @ le_bytes k (n div 256 ^ j)"
  by (induction j arbitrary: n) (simp_all add: div_mult2_eq)

lemma le_bytes_0 [simp]: "le_bytes k 0 = replicate k 0"
  by (induction k) simp_all

lemma le_bytes_mod32: "k \<le> 4 \<Longrightarrow> le_bytes k (n mod 2 ^ 32) = le_bytes k n"
proof -
  assume k: "k \<le> 4"
  have "(2 :: nat) ^ 32 = 256 ^ k * 256 ^ (4 - k)" using k by (simp flip: power_add)
  then have "256 ^ k dvd (2 :: nat) ^ 32" by (metis dvd_triv_left)
  then have "n mod 2 ^ 32 mod 256 ^ k = n mod 256 ^ k" by (rule mod_mod_cancel)
  then show ?thesis by (metis le_bytes_mod)
qed

lemma ucast_byte: "(ucast (x :: u32) :: byte) = word_of_nat (unat x)"
  by simp

lemma le_bytes_word:
  fixes z :: u32
  shows "rev (br_enc32be z) = le_bytes 4 (unat z)"
    "[ucast z, ucast (drop_bit 8 z), ucast (drop_bit 16 z)] = le_bytes 3 (unat z)"
    "[ucast z, ucast (drop_bit 8 z)] = le_bytes 2 (unat z)" "[ucast z] = le_bytes 1 (unat z)"
proof -
  have "[0..<4] = [0, 1, 2, 3]" "[0..<3] = [0, 1, 2]" "[0..<2] = [0, 1]" by (simp_all add: upt_rec)
  note this [simp]
  show "rev (br_enc32be z) = le_bytes 4 (unat z)" "[ucast z, ucast (drop_bit 8 z), ucast (drop_bit 16 z)] = le_bytes 3 (unat z)"
    "[ucast z, ucast (drop_bit 8 z)] = le_bytes 2 (unat z)" "[ucast z] = le_bytes 1 (unat z)"
    by (simp_all only: le_bytes_map br_enc32be_def ucast_byte unat_shift) simp_all
qed

lemma encode_digit:
  fixes acc w :: u32
  assumes "unat acc < 2 ^ al" "0 < al" "al \<le> 31" "unat w < W31"
  shows "unat (acc OR push_bit al w) = (unat acc + 2 ^ al * (unat w + W31 * k)) mod 2 ^ 32"
    "unat (drop_bit (31 - (al - 1)) w) + 2 ^ (al - 1) * k = (unat acc + 2 ^ al * (unat w + W31 * k)) div 2 ^ 32"
    "unat (drop_bit (31 - (al - 1)) w) < 2 ^ (al - 1)"
proof -
  let ?t = "unat acc + 2 ^ al * unat w"
  have o: "acc OR push_bit al w = acc + push_bit al w" by (rule or_shift [OF assms(1)])
  have p: "unat (push_bit al w) = 2 ^ al * unat w mod 2 ^ 32"
    by (simp only: unsigned_push_bit_eq take_bit_eq_mod push_bit_eq_mult [of _ "unat w"] mult.commute [of "unat w"]) simp
  have u: "unat (acc OR push_bit al w) = ?t mod 2 ^ 32"
    unfolding o unat_word_ariths p by (simp add: mod_add_right_eq)
  have "al + 31 = 32 + (al - 1)" using assms(2) by simp
  then have "2 ^ al * (2 :: nat) ^ 31 = 2 ^ 32 * 2 ^ (al - 1)" by (simp only: power_add [symmetric])
  then have "2 ^ al * (W31 * k) = 2 ^ 32 * (2 ^ (al - 1) * k)" by (metis W31_def mult.assoc)
  then have v: "unat acc + 2 ^ al * (unat w + W31 * k) = ?t + 2 ^ 32 * (2 ^ (al - 1) * k)" by (simp only: distrib_left add.assoc)
  show "unat (acc OR push_bit al w) = (unat acc + 2 ^ al * (unat w + W31 * k)) mod 2 ^ 32"
    unfolding u v by simp
  have sh: "31 - (al - 1) = 32 - al" using assms(2,3) by simp
  have "(2 :: nat) ^ 32 = 2 ^ al * 2 ^ (32 - al)" using assms(3) by (simp flip: power_add)
  then have "?t div 2 ^ 32 = ?t div 2 ^ al div 2 ^ (32 - al)" by (simp only: div_mult2_eq)
  also have "?t div 2 ^ al = unat w" using assms(1) by simp
  finally have q: "unat (drop_bit (31 - (al - 1)) w) = ?t div 2 ^ 32" unfolding sh unat_shift ..
  show "unat (drop_bit (31 - (al - 1)) w) + 2 ^ (al - 1) * k = (unat acc + 2 ^ al * (unat w + W31 * k)) div 2 ^ 32"
    unfolding v q by simp
  have "W31 = 2 ^ (al - 1) * 2 ^ (32 - al)" unfolding W31_def power_add [symmetric] using assms(2,3) by simp
  then show "unat (drop_bit (31 - (al - 1)) w) < 2 ^ (al - 1)"
    unfolding sh unat_shift using assms(4) by (intro less_mult_imp_div_less) simp
qed

lemma encode_loop_correct:
  assumes "unat acc < 2 ^ al" "al \<le> 31" "digits31 ws"
  shows "rev (encode_loop ws acc al len) = le_bytes len (unat acc + 2 ^ al * num31 ws)"
  using assms
proof (induction ws acc al len rule: encode_loop.induct)
  case (1 ws acc al len)
  define w where "w = (case ws of [] \<Rightarrow> 0 | w # _ \<Rightarrow> w)"
  have w: "unat w < W31" "digits31 (tl ws)" "num31 ws = unat w + W31 * num31 (tl ws)"
    using "1.prems"(3) by (cases ws; simp add: w_def)+
  consider "len = 0" | "len \<noteq> 0" "al = 0" | "len \<noteq> 0" "al \<noteq> 0" by blast
  then show ?case
  proof cases
    case 1
    then show ?thesis by (simp add: encode_loop.simps)
  next
    case 2
    have "unat acc = 0" using "1.prems"(1) 2(2) by simp
    moreover have "rev (encode_loop (tl ws) w 31 len) = le_bytes len (unat w + 2 ^ 31 * num31 (tl ws))"
      using "1.IH"(1) [OF 2(1) w_def 2(2)] w by (simp add: W31_def)
    moreover have "encode_loop ws acc al len = encode_loop (tl ws) w 31 len"
      using 2 by (simp add: encode_loop.simps [of ws acc 0] w_def [symmetric])
    ultimately show ?thesis using 2(2) w(3) by (simp add: W31_def)
  next
    case 3
    define z where "z = acc OR push_bit al w"
    define acc' where "acc' = drop_bit (31 - (al - 1)) w"
    let ?v = "unat acc + 2 ^ al * num31 ws"
    have E: "unat z = ?v mod 2 ^ 32" "unat acc' + 2 ^ (al - 1) * num31 (tl ws) = ?v div 2 ^ 32" "unat acc' < 2 ^ (al - 1)"
      using encode_digit(1,2) [OF "1.prems"(1) _ "1.prems"(2) w(1), of "num31 (tl ws)"]
        encode_digit(3) [OF "1.prems"(1) _ "1.prems"(2) w(1)] 3(2) w(3) by (simp_all add: z_def acc'_def)
    show ?thesis
    proof (cases "4 \<le> len")
      case True
      have I: "rev (encode_loop (tl ws) acc' (al - 1) (len - 4)) = le_bytes (len - 4) (?v div 2 ^ 32)"
        unfolding E(2) [symmetric]
        by (rule "1.IH"(2) [OF 3(1) w_def 3(2) z_def refl acc'_def True E(3) _ w(2)]) (use "1.prems"(2) in simp)
      have e: "encode_loop ws acc al len = encode_loop (tl ws) acc' (al - 1) (len - 4) @ br_enc32be z"
        using 3 True by (simp add: encode_loop.simps [of ws acc al] w_def [symmetric] z_def acc'_def Let_def)
      have "rev (encode_loop ws acc al len) = le_bytes 4 ?v @ le_bytes (len - 4) (?v div 256 ^ 4)"
        unfolding e rev_append I le_bytes_word(1) E(1) le_bytes_mod32 [of 4, OF order_refl] by simp
      then show ?thesis using le_bytes_add [of 4 "len - 4" ?v] True by simp
    next
      case False
      have u: "encode_loop ws acc al len
          = (if len = 3 then [ucast (drop_bit 16 z), ucast (drop_bit 8 z), ucast z]
             else if len = 2 then [ucast (drop_bit 8 z), ucast z] else [ucast z])"
        using 3 False unfolding encode_loop.simps [of ws acc al len] Let_def
        unfolding w_def [symmetric] unfolding z_def [symmetric] by simp
      have "len = 3 \<or> len = 2 \<or> len = 1" using False 3(1) by linarith
      then have "rev (encode_loop ws acc al len) = le_bytes len (unat z)"
        unfolding u using le_bytes_word(2-4) [of z, symmetric] by (elim disjE) simp_all
      then show ?thesis unfolding E(1) using False by (simp only: le_bytes_mod32 less_imp_le not_le)
    qed
  qed
qed

lemma encode_correct:
  assumes "hdr31 n (x ! 0)" "0 < n" "digits31 (i31_words n x)"
  shows "br_i31_encode len x = be_bytes len (ival n x)"
proof -
  have "rev (encode_loop (i31_words n x) 0 0 len) = le_bytes len (ival n x)"
    using encode_loop_correct [of 0 0 "i31_words n x" len] assms(3) by (simp add: unat_0)
  then show ?thesis
    using assms(2) by (simp add: br_i31_encode_def hdr_i31_len [of n x, OF assms(1)] be_bytes_def rev_swap)
qed

end
