(* ===== verification/Rsa.thy ===== *)
theory Rsa
  imports Big_Codec
begin

text \<open>
  Modular exponentiation (bearssl/src/int/i31_modpow2.c) and the RSA public key operation
  (bearssl/src/rsa/rsa_i31_pub.c): for an odd modulus the result is \<open>x ^ e mod n\<close>.
\<close>

unbundle bit_operations_syntax

section \<open>Modular exponentiation\<close>

text \<open>The window of at most five bits whose table of powers fits into the temporaries.\<close>

fun modpow_window :: "nat \<Rightarrow> nat \<Rightarrow> nat \<Rightarrow> nat" where
  "modpow_window win_len mwlen twlen =
     (if 1 < win_len then
        (if (2 ^ win_len + 1) * mwlen \<le> twlen then win_len else modpow_window (win_len - 1) mwlen twlen)
      else win_len)"

declare modpow_window.simps [simp del]

text \<open>The powers above the first: \<open>count\<close> more entries after \<open>base\<close>.\<close>

primrec modpow_table :: "nat \<Rightarrow> u32 list \<Rightarrow> u32 list \<Rightarrow> u32 list \<Rightarrow> u32 \<Rightarrow> u32 list list" where
  "modpow_table 0 base x m m0i = []"
| "modpow_table (Suc count) base x m m0i =
     (let base' = br_i31_montymul base x m m0i in base' # modpow_table count base' x m m0i)"

text \<open>
  The lookup in constant time. The code runs over \<open>mwlen - 1\<close> words, \<open>mwlen\<close> rounded up to even; the
  word of padding this may add is never read as part of a number and is not in the lists.
\<close>

fun modpow_lookup :: "u32 \<Rightarrow> u32 \<Rightarrow> u32 list list \<Rightarrow> u32 list \<Rightarrow> u32 list" where
  "modpow_lookup u bits [] t2 = t2"
| "modpow_lookup u bits (base # bs) t2 =
     (let msk = - EQ_ct u bits
      in modpow_lookup (u + 1) bits bs (hd t2 # map2 (\<lambda>t b. t OR (msk AND b)) (tl t2) (tl base)))"

primrec modpow_squares :: "nat \<Rightarrow> u32 list \<Rightarrow> u32 list \<Rightarrow> u32 \<Rightarrow> u32 list" where
  "modpow_squares 0 x m m0i = x"
| "modpow_squares (Suc i) x m m0i = modpow_squares i (br_i31_montymul x x m m0i) m m0i"

text \<open>
  The loop over the bits of the exponent; \<open>wl\<close> is \<open>win_len - 1\<close>, and \<open>tab\<close> holds \<open>t2[1]\<close>, \<open>t2[2]\<close>
  and so on (for a window of one bit the single entry \<open>t2\<close>).
\<close>

function modpow_loop :: "nat \<Rightarrow> u32 list list \<Rightarrow> u32 list \<Rightarrow> u32 \<Rightarrow> u32 \<Rightarrow> nat \<Rightarrow> bytes \<Rightarrow> u32 list \<Rightarrow> u32 list" where
  "modpow_loop wl tab m m0i acc acc_len e x =
     (if 0 < acc_len \<or> e \<noteq> [] then
        (let win_len = Suc wl;
             (acc, acc_len, e, k) =
               (if acc_len < win_len then
                  (if e \<noteq> [] then (push_bit 8 acc OR ucast (hd e), acc_len + 8, tl e, win_len)
                   else (acc, acc_len, e, acc_len))
                else (acc, acc_len, e, win_len));
             bits = drop_bit (acc_len - k) acc AND (push_bit k 1 - 1);
             acc_len = acc_len - k;
             x = modpow_squares k x m m0i;
             t2 = (if 1 < win_len then modpow_lookup 1 bits (take (2 ^ k - 1) tab) (br_i31_zero (m ! 0)) else hd tab);
             t1 = br_i31_montymul x t2 m m0i
         in modpow_loop wl tab m m0i acc acc_len e (if NEQ_ct bits 0 = 1 then t1 else x))
      else x)"
  by pat_completeness auto

termination
  by (relation "measure (\<lambda>(wl, tab, m, m0i, acc, acc_len, e, x). 8 * length e + acc_len)")
     (auto split: if_splits simp: neq_Nil_conv)

definition br_i31_modpow_opt :: "u32 list \<Rightarrow> bytes \<Rightarrow> u32 list \<Rightarrow> u32 \<Rightarrow> nat \<Rightarrow> u32 list \<times> u32" where
  "br_i31_modpow_opt x e m m0i twlen =
     (let mwlen = unat (drop_bit 5 (m ! 0 + 63));
          mwlen = mwlen + mwlen mod 2
      in if twlen < 2 * mwlen then (x, 0)
         else
           (let win_len = modpow_window 5 mwlen twlen;
                x = br_i31_to_monty x m;
                tab = (if win_len = 1 then [x] else x # modpow_table (2 ^ win_len - 2) x x m m0i);
                x = (br_i31_zero (m ! 0))[i31_len m := 1];
                x = br_i31_muladd_small x 0 m;
                x = modpow_loop (win_len - 1) tab m m0i 0 0 e x
            in (br_i31_from_monty x m m0i, 1)))"

section \<open>The RSA public key operation\<close>

text \<open>A key: modulus and exponent, big-endian.\<close>

record br_rsa_public_key =
  pk_n :: bytes
  pk_e :: bytes

definition BR_MAX_RSA_SIZE :: nat where "BR_MAX_RSA_SIZE = 4096"

definition RSA_TLEN :: nat where "RSA_TLEN = 4 * (2 + (BR_MAX_RSA_SIZE + 30) div 31)"

function rsa_fwlen :: "int \<Rightarrow> nat \<Rightarrow> nat" where
  "rsa_fwlen z fwlen = (if 0 < z then rsa_fwlen (z - 31) (fwlen + 1) else fwlen)"
  by pat_completeness auto

termination by (relation "measure (\<lambda>(z, _). nat z)") auto

declare rsa_fwlen.simps [simp del]

text \<open>
  \<open>tmp\<close> is the content of the stack buffer before it is written; the area \<open>m\<close> is filled by
  \<open>br_i31_decode\<close>, the area \<open>a\<close> by \<open>br_i31_decode_mod\<close>, and the rest holds the temporaries.
\<close>

definition br_rsa_i31_public :: "u32 list \<Rightarrow> bytes \<Rightarrow> br_rsa_public_key \<Rightarrow> bytes \<times> u32" where
  "br_rsa_i31_public tmp x pk =
     (let n = dropWhile (\<lambda>b. b = 0) (pk_n pk);
          nlen = length n
      in if nlen = 0 \<or> BR_MAX_RSA_SIZE div 8 < nlen \<or> length x \<noteq> nlen then (x, 0)
         else
           (let fwlen = rsa_fwlen (int nlen * 8) 1;
                fwlen = fwlen + fwlen mod 2;
                m = br_i31_decode n;
                m0i = br_i31_ninv31 (m ! 1);
                r = m0i AND 1;
                (a, ok) = br_i31_decode_mod (take (i31_len m + 1) (drop fwlen tmp)) x m;
                r = r AND ok;
                (a, _) = br_i31_modpow_opt a (pk_e pk) m m0i (RSA_TLEN - 2 * fwlen)
            in (br_i31_encode (length x) a, r)))"

section \<open>The domain of Montgomery\<close>

text \<open>\<open>x\<close> stands for the number \<open>v\<close>.\<close>

definition monty :: "nat \<Rightarrow> u32 list \<Rightarrow> u32 list \<Rightarrow> nat \<Rightarrow> bool" where
  "monty n m x v \<longleftrightarrow> residue31 n m x \<and> ival n x = W31 ^ n * v mod ival n m"

lemma mod_cancel:
  fixes R M a b :: nat
  assumes "coprime R M" "R * a mod M = R * b mod M"
  shows "a mod M = b mod M"
proof -
  have "a mod M = b mod M" if "a \<le> b" "R * a mod M = R * b mod M" for a b
  proof -
    have "M dvd R * b - R * a" using that by (subst mod_eq_dvd_iff_nat [symmetric]) simp_all
    then have "M dvd R * (b - a)" by (simp only: diff_mult_distrib2)
    then have "M dvd b - a" using assms(1) by (simp add: coprime_commute coprime_dvd_mult_right_iff)
    then show ?thesis using that(1) by (metis mod_eq_dvd_iff_nat)
  qed
  then show ?thesis using assms(2) by (metis nat_le_linear)
qed

text \<open>An odd modulus of more than one, with the inverse of its lowest word.\<close>

definition odd_modulus :: "nat \<Rightarrow> nat \<Rightarrow> u32 list \<Rightarrow> u32 \<Rightarrow> bool" where
  "odd_modulus n b m m0i \<longleftrightarrow> canon31 n b m \<and> ninv_of m m0i \<and> odd (ival n m) \<and> 1 < ival n m"

lemma odd_modulusD:
  assumes "odd_modulus n b m m0i"
  shows "canon31 n b m" "modulus31 n m" "ninv_of m m0i" "coprime (W31 ^ n) (ival n m)" "1 < ival n m" "hdr31 n (m ! 0)" "0 < n"
proof -
  have "odd (ival n m)" using assms by (simp add: odd_modulus_def)
  then have "coprime 2 (ival n m)" by simp
  then show "coprime (W31 ^ n) (ival n m)" unfolding W31_def power_mult [symmetric] by (simp only: coprime_power_left_iff simp_thms)
qed (use assms canonD(1-3) in \<open>auto simp: odd_modulus_def\<close>)

lemma monty_mul:
  assumes "odd_modulus n b m m0i" "monty n m x v" "monty n m y w"
  shows "monty n m (br_i31_montymul x y m m0i) (v * w)"
proof -
  note O = odd_modulusD [OF assms(1)]
  let ?z = "br_i31_montymul x y m m0i" and ?M = "ival n m"
  have xy: "residue31 n m x" "residue31 n m y" using assms(2,3) by (simp_all add: monty_def)
  note P = montymul_residue [OF O(2,3) xy]
  have "W31 ^ n * ival n ?z mod ?M = (W31 ^ n * v mod ?M) * (W31 ^ n * w mod ?M) mod ?M"
    unfolding P(2) using assms(2,3) by (simp add: monty_def)
  also have "\<dots> = W31 ^ n * (W31 ^ n * (v * w)) mod ?M" by (simp add: mod_mult_eq mult_ac)
  finally have "ival n ?z mod ?M = W31 ^ n * (v * w) mod ?M" by (rule mod_cancel [OF O(4)])
  then show ?thesis using P(1) residueD(4) [OF P(1)] by (simp add: monty_def)
qed

lemma monty_mod: "monty n m x (v mod ival n m) \<longleftrightarrow> monty n m x v"
  by (simp add: monty_def mod_mult_right_eq)

lemma monty_squares:
  assumes "odd_modulus n b m m0i" "monty n m x v"
  shows "monty n m (modpow_squares k x m m0i) (v ^ 2 ^ k)"
  using assms(2)
proof (induction k arbitrary: x v)
  case (Suc k)
  have "monty n m (br_i31_montymul x x m m0i) (v ^ 2)"
    using monty_mul [OF assms(1) Suc.prems Suc.prems] by (simp add: power2_eq_square)
  from Suc.IH [OF this] show ?case by (simp add: power_mult [symmetric])
qed simp

lemma monty_table:
  assumes "odd_modulus n b m m0i" "monty n m x v" "monty n m base (v ^ j)" "i < count"
  shows "monty n m (modpow_table count base x m m0i ! i) (v ^ (j + Suc i))"
  using assms(3,4)
proof (induction count arbitrary: base j i)
  case (Suc count)
  have b: "monty n m (br_i31_montymul base x m m0i) (v ^ Suc j)"
    using monty_mul [OF assms(1) Suc.prems(1) assms(2)] by (simp add: mult.commute)
  show ?case
  proof (cases i)
    case 0
    then show ?thesis using b by (simp add: Let_def)
  next
    case (Suc i')
    then show ?thesis using Suc.IH [OF b, of i'] Suc.prems(2) by (simp add: Let_def)
  qed
qed simp

lemma length_table [simp]: "length (modpow_table count base x m m0i) = count"
  by (induction count arbitrary: base) (simp_all add: Let_def)

section \<open>The window\<close>

lemma window_bounds:
  assumes "1 \<le> w" "w \<le> 5"
  shows "1 \<le> modpow_window w mwlen twlen" "modpow_window w mwlen twlen \<le> 5"
  using assms
proof (induction w mwlen twlen rule: modpow_window.induct)
  case (1 w mwlen twlen)
  { case 1 then show ?case using "1.IH"(1) by (subst modpow_window.simps) auto
  next case 2 then show ?case using "1.IH"(2) by (subst modpow_window.simps) auto }
qed

text \<open>The constant-time lookup reads the entry of the index \<open>bits\<close>, counted from \<open>u\<close>.\<close>

lemma lookup_none:
  assumes "\<forall>i<length tab. u + word_of_nat i \<noteq> bits" "\<forall>t\<in>set tab. length t = Suc n" "length w = n"
  shows "modpow_lookup u bits tab (h # w) = h # w"
  using assms
proof (induction tab arbitrary: u w)
  case (Cons t tab)
  have z: "map2 (\<lambda>t b. t OR (0 AND b)) w (tl t) = w"
    using Cons.prems by (intro nth_equalityI) auto
  have "u \<noteq> bits" using Cons.prems(1) by (auto dest: spec [of _ 0])
  moreover have "\<forall>i<length tab. u + 1 + word_of_nat i \<noteq> bits"
    using Cons.prems(1) by (auto simp: algebra_simps dest: spec [of _ "Suc _"])
  ultimately show ?case using Cons.IH [of "u + 1" w] Cons.prems z by (simp add: EQ_ct_eq Let_def)
qed simp

lemma lookup_entry:
  assumes "j < length tab" "bits = u + word_of_nat j" "length tab < 2 ^ 32" "\<forall>t\<in>set tab. length t = Suc n"
  shows "modpow_lookup u bits tab (h # replicate n 0) = h # tl (tab ! j)"
  using assms
proof (induction tab arbitrary: u j)
  case (Cons t tab)
  have z: "map2 (\<lambda>t b. t OR (0 AND b)) (replicate n 0) (tl t) = replicate n 0"
    using Cons.prems(4) by (intro nth_equalityI) auto
  have o: "map2 (\<lambda>t b. t OR (- 1 AND b)) (replicate n 0) (tl t) = tl t"
    using Cons.prems(4) by (intro nth_equalityI) auto
  show ?case
  proof (cases j)
    case 0
    have "\<forall>i<length tab. u + 1 + word_of_nat i \<noteq> u"
    proof (intro allI impI notI)
      fix i assume "i < length tab" "u + 1 + word_of_nat i = u"
      then have "word_of_nat (Suc i) = (0 :: u32)" by (simp add: algebra_simps)
      then have "unat (word_of_nat (Suc i) :: u32) = 0" by simp
      moreover have "Suc i < 2 ^ 32" using \<open>i < length tab\<close> Cons.prems(3) by simp
      ultimately show False by (simp only: unat_word32)
    qed
    then have "modpow_lookup (u + 1) u tab (h # tl t) = h # tl t"
      using Cons.prems(4) by (intro lookup_none [where n = n]) auto
    then show ?thesis using 0 Cons.prems(2) o by (simp add: EQ_ct_eq Let_def)
  next
    case (Suc j')
    have ne: "u \<noteq> bits"
    proof
      assume "u = bits"
      then have "word_of_nat (Suc j') = (0 :: u32)" using Cons.prems(2) Suc by simp
      then have "unat (word_of_nat (Suc j') :: u32) = 0" by simp
      moreover have "Suc j' < 2 ^ 32" using Cons.prems(1,3) Suc by simp
      ultimately show False by (simp only: unat_word32)
    qed
    have "modpow_lookup (u + 1) bits tab (h # replicate n 0) = h # tl (tab ! j')"
      using Cons.prems Suc by (intro Cons.IH) (auto simp: algebra_simps)
    then show ?thesis using ne Suc z by (simp add: EQ_ct_eq Let_def)
  qed
qed simp

section \<open>The loop over the exponent\<close>

text \<open>The table holds the powers of \<open>v\<close> that a window of \<open>wl + 1\<close> bits needs.\<close>

definition table_ok :: "nat \<Rightarrow> u32 list \<Rightarrow> nat \<Rightarrow> u32 list list \<Rightarrow> nat \<Rightarrow> bool" where
  "table_ok n m wl tab v \<longleftrightarrow> wl < 5 \<and> length tab = 2 ^ Suc wl - 1 \<and> (\<forall>i<length tab. monty n m (tab ! i) (v ^ Suc i))"

lemma unat_bits:
  assumes "k < 32"
  shows "unat (drop_bit s acc AND (push_bit k 1 - 1) :: u32) = unat acc div 2 ^ s mod 2 ^ k"
proof -
  have "push_bit k 1 - 1 = (mask k :: u32)" by (simp add: mask_eq_exp_minus_1)
  then show ?thesis by (simp only: unat_mask unat_shift)
qed

lemma table_entry:
  assumes O: "odd_modulus n b m m0i" and T: "table_ok n m wl tab v" and k: "k \<le> Suc wl"
    and bits: "unat bits < 2 ^ k" "bits \<noteq> 0"
  shows "monty n m (if 1 < Suc wl then modpow_lookup 1 bits (take (2 ^ k - 1) tab) (br_i31_zero (m ! 0)) else hd tab) (v ^ unat bits)"
proof -
  have tl: "length tab = 2 ^ Suc wl - 1" "wl < 5" and tm: "\<forall>i<length tab. monty n m (tab ! i) (v ^ Suc i)"
    using T by (simp_all add: table_ok_def)
  have u0: "0 < unat bits" using bits(2) by (simp add: word_unat_eq_iff)
  have kk: "(2 :: nat) ^ k \<le> 2 ^ Suc wl" using k by (intro power_increasing) simp_all
  define j where "j = unat bits - 1"
  have j: "j < 2 ^ k - 1" "unat bits = Suc j" using u0 bits(1) by (auto simp: j_def)
  have jt: "j < length tab" using j(1) kk tl by linarith
  have mj: "monty n m (tab ! j) (v ^ unat bits)" using tm jt j(2) by simp
  show ?thesis
  proof (cases "1 < Suc wl")
    case True
    have t32: "2 ^ k - 1 < (2 :: nat) ^ 32"
    proof -
      have "(2 :: nat) ^ k \<le> 2 ^ 5" using k tl(2) by (intro power_increasing) simp_all
      then show ?thesis by simp
    qed
    have tlen: "length t = Suc n" if "t \<in> set tab" for t
    proof -
      obtain i where "i < length tab" "t = tab ! i" using \<open>t \<in> set tab\<close> by (auto simp: in_set_conv_nth)
      then have "residue31 n m t" using tm by (auto simp: monty_def)
      then show ?thesis by (auto simp: residue31_def)
    qed
    have "bits = word_of_nat (Suc j)" using j(2) by (metis of_nat_unat ucast_id)
    then have "modpow_lookup 1 bits (take (2 ^ k - 1) tab) (m ! 0 # replicate n 0) = m ! 0 # tl (take (2 ^ k - 1) tab ! j)"
      using j(1) jt t32 tlen by (intro lookup_entry) (auto dest: in_set_takeD)
    also have "\<dots> = tab ! j"
    proof -
      have "residue31 n m (tab ! j)" using mj by (simp add: monty_def)
      then show ?thesis using j(1) by (auto simp: residue31_def)
    qed
    finally have e: "modpow_lookup 1 bits (take (2 ^ k - 1) tab) (br_i31_zero (m ! 0)) = tab ! j"
      by (simp only: hdr_zero [OF odd_modulusD(6) [OF O]])
    show ?thesis unfolding if_P [OF True] e by (rule mj)
  next
    case False
    then have "hd tab = tab ! j" using tl jt by (cases tab) auto
    then show ?thesis unfolding if_not_P [OF False] using mj by simp
  qed
qed

lemma be_num_Cons: "be_num (c # e) = unat c * 2 ^ (8 * length e) + be_num e"
  by (simp add: be_num_rev le_num_append power_mult)

text \<open>The bits of the exponent that are still to be processed.\<close>

definition bits_left :: "u32 \<Rightarrow> nat \<Rightarrow> bytes \<Rightarrow> nat" where
  "bits_left acc al e = unat acc mod 2 ^ al * 2 ^ (8 * length e) + be_num e"

lemma bits_left_fetch:
  assumes "al \<le> 24"
  shows "bits_left (push_bit 8 acc OR ucast (c :: byte)) (al + 8) e = bits_left acc al (c # e)"
proof -
  have "push_bit 8 acc OR ucast c = ucast c + push_bit 8 acc"
    unfolding or.commute [of "push_bit 8 acc"] using unat_byte32 [of c] by (intro or_shift) simp
  moreover have "unat (push_bit 8 acc) = 256 * unat acc mod 2 ^ 32"
    by (simp only: unsigned_push_bit_eq take_bit_eq_mod push_bit_eq_mult [of _ "unat acc"] mult.commute [of "unat acc"]) simp
  ultimately have "unat (push_bit 8 acc OR ucast c) = (unat c + 256 * unat acc) mod 2 ^ 32"
    by (simp only: unat_word_ariths unat_widen8) (simp add: mod_add_right_eq)
  moreover have "2 ^ (al + 8) dvd (2 :: nat) ^ 32" using assms by (intro le_imp_power_dvd) simp
  ultimately have "unat (push_bit 8 acc OR ucast c) mod 2 ^ (al + 8) = (unat c + 256 * unat acc) mod (256 * 2 ^ al)"
    by (simp only: mod_mod_cancel) (simp add: power_add mult.commute)
  also have "\<dots> = unat c + 256 * (unat acc mod 2 ^ al)"
  proof -
    have "unat c < 256" using unsigned_less [of c, where ?'a = nat] by simp
    then show ?thesis by (simp add: mod_mult2_eq)
  qed
  finally show ?thesis by (simp add: bits_left_def be_num_Cons power_add distrib_right)
qed

lemma bits_left_take:
  assumes "k \<le> al" "k < 32"
  shows "bits_left acc al e = unat (drop_bit (al - k) acc AND (push_bit k 1 - 1)) * 2 ^ (al - k + 8 * length e) + bits_left acc (al - k) e"
proof -
  have "(2 :: nat) ^ al = 2 ^ (al - k) * 2 ^ k" using assms(1) by (simp flip: power_add)
  then have "unat acc mod 2 ^ al = 2 ^ (al - k) * (unat acc div 2 ^ (al - k) mod 2 ^ k) + unat acc mod 2 ^ (al - k)"
    by (simp only: mod_mult2_eq)
  then show ?thesis unfolding bits_left_def unat_bits [OF assms(2)] power_add by (simp only: distrib_right distrib_left mult_ac add_ac)
qed

text \<open>One turn: squarings and the product with the power of the bits taken.\<close>

lemma modpow_turn:
  assumes O: "odd_modulus n b m m0i" and T: "table_ok n m wl tab v" and k: "k \<le> Suc wl" "k \<le> al"
    and x: "monty n m x p" and bits: "bits = drop_bit (al - k) acc AND (push_bit k 1 - 1)"
    and x': "x' = modpow_squares k x m m0i"
    and t1: "t1 = br_i31_montymul x' (if 1 < Suc wl then modpow_lookup 1 bits (take (2 ^ k - 1) tab) (br_i31_zero (m ! 0)) else hd tab) m m0i"
  shows "monty n m (if NEQ_ct bits 0 = 1 then t1 else x') (p ^ 2 ^ k * v ^ unat bits)"
proof -
  have k32: "k < 32" using k(1) T by (simp add: table_ok_def)
  have b: "unat bits < 2 ^ k" unfolding bits unat_bits [OF k32] by simp
  have X: "monty n m x' (p ^ 2 ^ k)" unfolding x' by (rule monty_squares [OF O x])
  show ?thesis
  proof (cases "bits = 0")
    case True
    then show ?thesis using X by (simp add: ct_bools)
  next
    case False
    then show ?thesis
      using monty_mul [OF O X table_entry [OF O T k(1) b False]] by (simp add: ct_bools t1)
  qed
qed

lemma modpow_loop_turn:
  assumes "0 < al \<or> e \<noteq> []"
    and "(acc1, al1, e1, k) = (if al < Suc wl then
            (if e \<noteq> [] then (push_bit 8 acc OR ucast (hd e), al + 8, tl e, Suc wl) else (acc, al, e, al))
          else (acc, al, e, Suc wl))"
    and "bits = drop_bit (al1 - k) acc1 AND (push_bit k 1 - 1)" "x' = modpow_squares k x m m0i"
    and "t1 = br_i31_montymul x' (if 1 < Suc wl then modpow_lookup 1 bits (take (2 ^ k - 1) tab) (br_i31_zero (m ! 0)) else hd tab) m m0i"
  shows "modpow_loop wl tab m m0i acc al e x = modpow_loop wl tab m m0i acc1 (al1 - k) e1 (if NEQ_ct bits 0 = 1 then t1 else x')"
  using assms(1) unfolding modpow_loop.simps [of wl tab m m0i acc al e x] Let_def assms(2) [symmetric] prod.case
  unfolding assms(3-5) by simp

declare modpow_loop.simps [simp del]

lemma modpow_loop_correct:
  assumes O: "odd_modulus n b m m0i" and T: "table_ok n m wl tab v" and "monty n m x p" "al \<le> 24"
  shows "monty n m (modpow_loop wl tab m m0i acc al e x) (p ^ 2 ^ (al + 8 * length e) * v ^ bits_left acc al e)"
  using assms(3,4)
proof (induction "8 * length e + al" arbitrary: acc al e x p rule: less_induct)
  case less
  show ?case
  proof (cases "0 < al \<or> e \<noteq> []")
    case False
    then show ?thesis using less.prems by (simp add: modpow_loop.simps bits_left_def be_num_def)
  next
    case True
    have wl: "wl < 5" using T by (simp add: table_ok_def)
    obtain acc1 al1 e1 k where f: "(acc1, al1, e1, k) = (if al < Suc wl then
            (if e \<noteq> [] then (push_bit 8 acc OR ucast (hd e), al + 8, tl e, Suc wl) else (acc, al, e, al))
          else (acc, al, e, Suc wl))" by (metis prod_cases4)
    have F: "1 \<le> k" "k \<le> Suc wl" "k \<le> al1" "al1 - k \<le> 24" "al1 + 8 * length e1 = al + 8 * length e"
      "bits_left acc1 al1 e1 = bits_left acc al e"
      using f True less.prems(2) wl bits_left_fetch [OF less.prems(2), of acc "hd e" "tl e"]
      by (auto split: if_splits simp: neq_Nil_conv)
    define bits where "bits = drop_bit (al1 - k) acc1 AND (push_bit k 1 - 1)"
    define x' where "x' = modpow_squares k x m m0i"
    define t1 where "t1 = br_i31_montymul x' (if 1 < Suc wl then modpow_lookup 1 bits (take (2 ^ k - 1) tab) (br_i31_zero (m ! 0)) else hd tab) m m0i"
    note X = modpow_turn [OF O T F(2,3) less.prems(1) bits_def x'_def t1_def]
    define L where "L = al1 - k + 8 * length e1"
    have L: "al + 8 * length e = k + L" using F(3,5) by (simp add: L_def)
    have "8 * length e1 + (al1 - k) < 8 * length e + al" using L F(1) by (simp add: L_def)
    note I = less.hyps [OF this X F(4)]
    have q: "bits_left acc al e = unat bits * 2 ^ L + bits_left acc1 (al1 - k) e1"
      using bits_left_take [OF F(3), of acc1 e1] F(2,6) wl by (simp add: bits_def L_def)
    have "(p ^ 2 ^ k * v ^ unat bits) ^ 2 ^ L * v ^ bits_left acc1 (al1 - k) e1 = p ^ 2 ^ (al + 8 * length e) * v ^ bits_left acc al e"
      unfolding q L power_mult_distrib power_add power_mult by (simp add: mult.assoc)
    then show ?thesis
      using I [of acc1] unfolding modpow_loop_turn [OF True f bits_def x'_def t1_def] L_def by (simp only:)
  qed
qed

section \<open>The result\<close>

lemma monty_self:
  assumes "canon31 n b m" "residue31 n m x"
  shows "monty n m (br_i31_to_monty x m) (ival n x)"
  using to_monty_residue [OF assms] by (simp add: monty_def)

lemma monty_one:
  assumes O: "odd_modulus n b m m0i"
  shows "monty n m (br_i31_muladd_small ((br_i31_zero (m ! 0))[i31_len m := 1]) 0 m) 1"
proof -
  note D = odd_modulusD [OF O]
  note C = canonD [OF D(1)]
  have l: "i31_len m = n" by (rule hdr_i31_len [OF D(6)])
  obtain n' where n': "n = Suc n'" using D(7) by (cases n) auto
  define w :: "u32 list" where "w = replicate n' 0 @ [1]"
  have z: "(br_i31_zero (m ! 0))[i31_len m := 1] = m ! 0 # w"
    by (simp add: hdr_zero [OF D(6)] l n' w_def replicate_append_same [symmetric] list_update_append del: replicate_append_same)
  have w: "length w = n" "digits31 w" "num31 w = W31 ^ n'" by (simp_all add: w_def n')
  have "W31 ^ n' < ival n m"
  proof -
    have ge: "W31 ^ n' \<le> ival n m"
    proof -
      have "num31 (drop n' (i31_words n m)) = ival n m div W31 ^ n'"
        using val_drop [of "map unat (i31_words n m)" W31 n'] C(5) by (simp add: num31_def digits31_def drop_map)
      moreover have "drop n' (i31_words n m) = [m ! n]"
        using C(4) words_nth [OF C(4), of n'] n' by (metis Cons_nth_drop_Suc drop_all lessI order_refl)
      ultimately have "unat (m ! n) = ival n m div W31 ^ n'" by simp
      moreover have "0 < unat (m ! n)" using C(9) by (metis less_le_trans zero_less_numeral zero_less_power)
      ultimately show ?thesis by (simp add: div_greater_zero_iff)
    qed
    have "W31 ^ n' \<noteq> ival n m"
    proof
      assume e: "W31 ^ n' = ival n m"
      have o: "odd (ival n m)" using O by (simp add: odd_modulus_def)
      then have "n' = 0" unfolding e [symmetric] by (auto simp: W31_def)
      then show False using e D(5) by simp
    qed
    then show ?thesis using ge by simp
  qed
  then have r: "residue31 n m (m ! 0 # w)" by (intro residueI) (simp_all add: w)
  note S = muladd_small_residue [OF D(1) r, of 0]
  show ?thesis unfolding z monty_def using S w by (simp add: n')
qed

lemma br_i31_modpow_opt_correct:
  assumes O: "odd_modulus n b m m0i" and x: "residue31 n m x" and t: "2 * (Suc n + Suc n mod 2) \<le> twlen"
  obtains y where "br_i31_modpow_opt x e m m0i twlen = (y, 1)" "residue31 n m y" "ival n y = ival n x ^ be_num e mod ival n m"
proof -
  note D = odd_modulusD [OF O]
  define mwlen where "mwlen = Suc n + Suc n mod 2"
  define win where "win = modpow_window 5 mwlen twlen"
  have win: "1 \<le> win" "win \<le> 5" using window_bounds [of 5 mwlen twlen] by (simp_all add: win_def)
  define g where "g = br_i31_to_monty x m"
  define tab where "tab = (if win = 1 then [g] else g # modpow_table (2 ^ win - 2) g g m m0i)"
  define one where "one = br_i31_muladd_small ((br_i31_zero (m ! 0))[i31_len m := 1]) 0 m"
  define r where "r = modpow_loop (win - 1) tab m m0i 0 0 e one"
  have g: "monty n m g (ival n x)" unfolding g_def by (rule monty_self [OF D(1) x])
  have w2: "2 \<le> (2 :: nat) ^ win" using power_increasing [OF win(1), of "2 :: nat"] by simp
  have "table_ok n m (win - 1) tab (ival n x)"
  proof -
    have "monty n m (tab ! i) (ival n x ^ Suc i)" if "i < length tab" for i
    proof (cases i)
      case 0
      then show ?thesis using g by (simp add: tab_def)
    next
      case (Suc i')
      then have "win \<noteq> 1" "i' < 2 ^ win - 2" using that by (auto simp: tab_def split: if_splits)
      then show ?thesis using monty_table [OF O g, of g 1 i' "2 ^ win - 2"] g Suc by (simp add: tab_def)
    qed
    moreover have "length tab = 2 ^ win - 1" using w2 by (auto simp: tab_def)
    ultimately show ?thesis using win by (simp add: table_ok_def)
  qed
  from modpow_loop_correct [OF O this monty_one [OF O], of 0 0 e]
  have rm: "monty n m r (ival n x ^ be_num e)" by (simp add: r_def one_def bits_left_def)
  then have rr: "residue31 n m r" "ival n r = W31 ^ n * ival n x ^ be_num e mod ival n m" by (simp_all add: monty_def)
  define y where "y = br_i31_from_monty r m m0i"
  note Y = from_monty_residue [OF D(2,3) rr(1), folded y_def]
  have "W31 ^ n * ival n y mod ival n m = W31 ^ n * (ival n x ^ be_num e) mod ival n m" using Y(2) rr(2) by simp
  then have "ival n y mod ival n m = ival n x ^ be_num e mod ival n m" by (rule mod_cancel [OF D(4)])
  then have v: "ival n y = ival n x ^ be_num e mod ival n m" using residueD(4) [OF Y(1)] by simp
  have mw: "unat (drop_bit 5 (m ! 0 + 63)) = Suc n" by (rule hdr_len_sub [OF D(6)])
  have nt: "\<not> twlen < 2 * mwlen" using t by (simp add: mwlen_def)
  have "br_i31_modpow_opt x e m m0i twlen = (y, 1)"
    unfolding br_i31_modpow_opt_def Let_def mw mwlen_def [symmetric] if_not_P [OF nt]
    unfolding win_def [symmetric] g_def [symmetric] unfolding tab_def [symmetric] one_def [symmetric]
    unfolding r_def [symmetric] y_def [symmetric] ..
  then show thesis using that Y(1) v by blast
qed

lemma be_num_strip: "be_num (dropWhile (\<lambda>b. b = 0) bs) = be_num bs"
  by (induction bs) (simp_all add: be_num_Cons)

lemma rsa_fwlen_eq: "rsa_fwlen (int k) f = f + (k + 30) div 31"
proof (induction k arbitrary: f rule: less_induct)
  case (less k)
  show ?case
  proof (cases "31 \<le> k")
    case True
    have "rsa_fwlen (int k) f = rsa_fwlen (int (k - 31)) (f + 1)"
      using True by (subst rsa_fwlen.simps) (simp add: of_nat_diff)
    also have "\<dots> = f + 1 + (k - 31 + 30) div 31" using True by (intro less) simp
    also have "\<dots> = f + (k + 30) div 31"
      using True div_add_self2 [of 31 "k - 31 + 30"] by simp
    finally show ?thesis .
  next
    case False
    have e: "rsa_fwlen z f = f" if "z \<le> 0" for z f using that by (subst rsa_fwlen.simps) simp
    show ?thesis
    proof (cases "k = 0")
      case True
      then show ?thesis using e by simp
    next
      case k: False
      then have "(k + 30) div 31 = 1" using False by (intro div_nat_eqI) simp_all
      then show ?thesis using k False e by (subst rsa_fwlen.simps) simp
    qed
  qed
qed

lemma and_one_odd: "x AND 1 = (of_bool (odd (unat x)) :: u32)"
  using bit_unsigned_iff [of x 0, where 'a = nat] by (simp add: bit_0 and_one_eq mod_2_eq_odd)

lemma ninv31_even: "even (unat x) \<Longrightarrow> br_i31_ninv31 x = 0"
  by (simp add: br_i31_ninv31_def Let_def and_one_odd MUX_def)

text \<open>The stripped modulus, its decoding and the sizes of the areas.\<close>

lemma rsa_sizes:
  assumes "nlen \<le> 512" "n \<le> (8 * nlen + 30) div 31"
    and "fw = rsa_fwlen (int nlen * 8) 1" "fwlen = fw + fw mod 2"
  shows "2 * (Suc n + Suc n mod 2) \<le> RSA_TLEN - 2 * fwlen" "fwlen + Suc n \<le> RSA_TLEN + 1"
proof -
  have T: "RSA_TLEN = 540" by (simp add: RSA_TLEN_def BR_MAX_RSA_SIZE_def)
  have fw: "fw = 1 + (8 * nlen + 30) div 31" using rsa_fwlen_eq [of "8 * nlen" 1] assms(3) by (simp add: mult.commute)
  have "(8 * nlen + 30) div 31 \<le> 4126 div 31" using assms(1) by (intro div_le_mono) simp
  then have f134: "fw \<le> 134" unfolding fw by simp
  have le: "Suc n \<le> fw" using assms(2) unfolding fw by simp
  have "Suc n + Suc n mod 2 \<le> fwlen"
  proof (cases "Suc n = fw")
    case False
    have "Suc n mod 2 \<le> 1" by simp
    then show ?thesis using False le unfolding assms(4) by linarith
  qed (simp add: assms(4))
  moreover have "fwlen \<le> 134"
  proof (cases "fw = 134")
    case True
    then show ?thesis by (simp add: assms(4))
  next
    case False
    have "fw mod 2 \<le> 1" by simp
    then show ?thesis using False f134 unfolding assms(4) by linarith
  qed
  ultimately have z: "Suc n + Suc n mod 2 \<le> fwlen" "fwlen \<le> 134" by simp_all
  have "2 * r \<le> 540 - 2 * fwlen" if "r \<le> fwlen" for r using that z(2) by linarith
  from this [OF z(1)] show "2 * (Suc n + Suc n mod 2) \<le> RSA_TLEN - 2 * fwlen" unfolding T .
  show "fwlen + Suc n \<le> RSA_TLEN + 1" unfolding T using z by linarith
qed

lemma length_encode_loop: "length (encode_loop ws acc al len) = len"
proof (induction ws acc al len rule: encode_loop.induct)
  case (1 ws acc al len)
  show ?case
  proof (cases "len = 0 \<or> al = 0 \<or> \<not> 4 \<le> len")
    case True
    then show ?thesis using "1.IH"(1) [OF _ refl] by (subst encode_loop.simps) (auto simp: Let_def)
  next
    case False
    then show ?thesis using "1.IH"(2) [OF _ refl _ refl refl refl] by (subst encode_loop.simps) (simp add: Let_def)
  qed
qed

lemma length_encode: "length (br_i31_encode len x) = len"
  by (simp add: br_i31_encode_def Let_def length_encode_loop)

text \<open>The conditions under which the operation reports success.\<close>

definition rsa_valid :: "br_rsa_public_key \<Rightarrow> bytes \<Rightarrow> bool" where
  "rsa_valid pk x \<longleftrightarrow> length x = length (dropWhile (\<lambda>b. b = 0) (pk_n pk)) \<and> length x \<le> 512
     \<and> odd (be_num (pk_n pk)) \<and> be_num x < be_num (pk_n pk)"

lemma rsa_i31_public_correct:
  assumes tmp: "length tmp = RSA_TLEN + 1"
  shows "snd (br_rsa_i31_public tmp x pk) = of_bool (rsa_valid pk x)"
    "length (fst (br_rsa_i31_public tmp x pk)) = length x"
    "rsa_valid pk x \<Longrightarrow> 1 < be_num (pk_n pk) \<Longrightarrow>
       fst (br_rsa_i31_public tmp x pk) = be_bytes (length x) (be_num x ^ be_num (pk_e pk) mod be_num (pk_n pk))"
proof -
  define N where "N = be_num (pk_n pk)"
  define src where "src = dropWhile (\<lambda>b. b = 0) (pk_n pk)"
  have src: "be_num src = N" by (simp add: src_def N_def be_num_strip)
  have "snd (br_rsa_i31_public tmp x pk) = of_bool (rsa_valid pk x) \<and> length (fst (br_rsa_i31_public tmp x pk)) = length x
     \<and> (rsa_valid pk x \<longrightarrow> 1 < N \<longrightarrow> fst (br_rsa_i31_public tmp x pk) = be_bytes (length x) (be_num x ^ be_num (pk_e pk) mod N))"
  proof (cases "length src = 0 \<or> BR_MAX_RSA_SIZE div 8 < length src \<or> length x \<noteq> length src")
    case True
    then have e: "br_rsa_i31_public tmp x pk = (x, 0)" by (auto simp: br_rsa_i31_public_def src_def [symmetric] Let_def)
    have "\<not> rsa_valid pk x"
    proof
      assume v: "rsa_valid pk x"
      then have "length src = 0" using True by (auto simp: rsa_valid_def src_def BR_MAX_RSA_SIZE_def)
      then have "N = 0" using src by (simp add: be_num_def)
      then show False using v by (simp add: rsa_valid_def N_def)
    qed
    then show ?thesis unfolding e by simp
  next
    case False
    then have l: "length x = length src" "length src \<le> 512" "src \<noteq> []" by (auto simp: BR_MAX_RSA_SIZE_def)
    have "N \<noteq> 0"
    proof -
      have "hd src \<noteq> 0" using hd_dropWhile [of "\<lambda>b. b = 0" "pk_n pk"] l(3) by (simp add: src_def)
      moreover have "src = hd src # tl src" using l(3) by simp
      then have "be_num src = unat (hd src) * 2 ^ (8 * length (tl src)) + be_num (tl src)" by (metis be_num_Cons)
      ultimately show ?thesis unfolding src [symmetric] by (simp add: word_unat_eq_iff)
    qed
    define m where "m = br_i31_decode src"
    obtain n b where C: "canon31 n b m" "ival n m = N" "n \<le> (8 * length src + 30) div 31"
      using decode_canon [of src] l(2) src \<open>N \<noteq> 0\<close> by (auto simp: m_def)
    note D = canonD [OF C(1)]
    define fw where "fw = rsa_fwlen (int (length src) * 8) 1"
    define fwlen where "fwlen = fw + fw mod 2"
    note S = rsa_sizes [OF l(2) C(3) fw_def fwlen_def]
    define m0i where "m0i = br_i31_ninv31 (m ! 1)"
    have il: "i31_len m = n" by (rule hdr_i31_len [OF D(3)])
    have tl: "length (take (i31_len m + 1) (drop fwlen tmp)) = Suc n" using S(2) tmp by (simp add: il)
    obtain a ok where a: "br_i31_decode_mod (take (i31_len m + 1) (drop fwlen tmp)) x m = (a, ok)" by fastforce
    note M = decode_mod_correct [OF D(1) tl, of x, unfolded a fst_conv snd_conv C(2)]
    obtain a' ok' where a': "br_i31_modpow_opt a (pk_e pk) m m0i (RSA_TLEN - 2 * fwlen) = (a', ok')" by fastforce
    have e: "br_rsa_i31_public tmp x pk = (br_i31_encode (length x) a', (m0i AND 1) AND ok)"
      unfolding br_rsa_i31_public_def Let_def src_def [symmetric] if_not_P [OF False] m_def [symmetric] fw_def [symmetric]
      unfolding fwlen_def [symmetric] m0i_def [symmetric] a a' prod.case ..
    have par: "odd (unat (m ! 1)) \<longleftrightarrow> odd N"
    proof -
      have "i31_words n m = m ! 1 # tl (i31_words n m)"
        using D(2,4) words_nth [OF D(4), of 0] by (metis One_nat_def hd_Cons_tl hd_conv_nth length_greater_0_conv)
      then have "N = unat (m ! 1) + W31 * num31 (tl (i31_words n m))" unfolding C(2) [symmetric] by (metis num31_simps(2))
      then show ?thesis by (simp add: W31_def)
    qed
    have m0: "m0i AND 1 = of_bool (odd N)"
      using ninv31_correct(2) [of "m ! 1"] ninv31_even [of "m ! 1"] par by (auto simp: m0i_def and_one_odd)
    have flag: "(m0i AND 1) AND ok = of_bool (rsa_valid pk x)"
      unfolding m0 M(1) using l by (auto simp: rsa_valid_def src_def N_def)
    have len: "length (br_i31_encode (length x) a') = length x"
      by (rule length_encode)
    have "br_i31_encode (length x) a' = be_bytes (length x) (be_num x ^ be_num (pk_e pk) mod N)"
      if v: "rsa_valid pk x" "1 < N"
    proof -
      have o: "odd N" "be_num x < N" using v by (simp_all add: rsa_valid_def N_def)
      have O: "odd_modulus n b m m0i"
        using C(1,2) o(1) v(2) ninv31_correct(1) [of "m ! 1"] par by (simp add: odd_modulus_def ninv_of_def m0i_def)
      have r: "residue31 n m a" using M(2) v(2) by simp
      obtain y where y: "br_i31_modpow_opt a (pk_e pk) m m0i (RSA_TLEN - 2 * fwlen) = (y, 1)" "residue31 n m y"
        "ival n y = ival n a ^ be_num (pk_e pk) mod ival n m"
        by (rule br_i31_modpow_opt_correct [OF O r S(1)])
      then have "a' = y" using a' by simp
      moreover have "br_i31_encode (length x) y = be_bytes (length x) (ival n y)"
        using D(2,3) residueD(1,3) [OF y(2)] by (intro encode_correct) simp_all
      ultimately show ?thesis using y(3) M(3) [OF o(2)] C(2) by simp
    qed
    then show ?thesis unfolding e using flag len by simp
  qed
  then show "snd (br_rsa_i31_public tmp x pk) = of_bool (rsa_valid pk x)"
    "length (fst (br_rsa_i31_public tmp x pk)) = length x"
    "rsa_valid pk x \<Longrightarrow> 1 < be_num (pk_n pk) \<Longrightarrow>
       fst (br_rsa_i31_public tmp x pk) = be_bytes (length x) (be_num x ^ be_num (pk_e pk) mod be_num (pk_n pk))"
    by (simp_all add: N_def)
qed

section \<open>Properties\<close>

text \<open>C19: the RSA public key operation accepts exactly the inputs of the length of the modulus and below
  it, for an odd modulus of at most 4096 bits, and then its result is \<open>x ^ e mod n\<close>, big-endian,
  for every modulus and exponent, whatever was in its stack buffer.\<close>

theorem rsa_public_is_exponentiation:
  assumes "length tmp = RSA_TLEN + 1" "1 < be_num (pk_n pk)"
  shows "if rsa_valid pk x
     then br_rsa_i31_public tmp x pk = (be_bytes (length x) (be_num x ^ be_num (pk_e pk) mod be_num (pk_n pk)), 1)
     else snd (br_rsa_i31_public tmp x pk) = 0"
  using rsa_i31_public_correct [OF assms(1), where x = x and pk = pk] assms(2) by (auto intro: prod_eqI)

theorem rsa_public_is_exponentiation_witness:
  "br_rsa_i31_public (replicate (RSA_TLEN + 1) 0) [0, 65] \<lparr>pk_n = [0x0C, 0xA1], pk_e = [17]\<rparr> = ([0x0A, 0xE6], 1)"
proof -
  let ?k = "\<lparr>pk_n = [0x0C, 0xA1], pk_e = [17]\<rparr>"
  have n: "be_num [0x0C, 0xA1] = 3233" "be_num [17] = 17" "be_num [0, 65] = 65" "be_num [] = 0" by (simp_all add: be_num_Cons be_num_rev)
  have p: "(65 :: nat) ^ 17 mod 3233 = 2790" by simp
  have b: "be_bytes (Suc (Suc 0)) 2790 = [0x0A, 0xE6]" by (simp add: be_bytes_def)
  have "rsa_valid ?k [0, 65]" by (simp add: rsa_valid_def n)
  then show ?thesis
    using rsa_public_is_exponentiation [of "replicate (RSA_TLEN + 1) 0" ?k "[0, 65]"] by (simp add: n p b)
qed

end
