(* ===== verification/Rsa_Pss.thy ===== *)
theory Rsa_Pss
  imports Rsa Hmac
begin

text \<open>
  RSASSA-PSS verification: bearssl/src/hash/mgf1.c, bearssl/src/rsa/rsa_pss_sig_unpad.c and
  bearssl/src/rsa/rsa_i31_pss_vrfy.c, against RFC 8017.
\<close>

unbundle bit_operations_syntax

section \<open>The code\<close>

text \<open>The loop over the blocks of the mask; \<open>buf\<close> is what is left of the data from \<open>u\<close> on.\<close>

function mgf1_loop :: "hash_alg \<Rightarrow> bytes \<Rightarrow> u32 \<Rightarrow> bytes \<Rightarrow> bytes" where
  "mgf1_loop dig seed c buf =
     (if buf = [] then []
      else
        (let hc = dig_init dig;
             hc = dig_update hc seed;
             hc = dig_update hc (br_enc32be c);
             tmp = dig_out hc
         in map2 (\<lambda>b t. b XOR t) buf tmp @ mgf1_loop dig seed (c + 1) (drop (br_digest_size dig) buf)))"
  by pat_completeness auto

termination by (relation "measure (\<lambda>(dig, seed, c, buf). length buf)") auto

declare mgf1_loop.simps [simp del]

definition br_mgf1_xor :: "bytes \<Rightarrow> nat \<Rightarrow> hash_alg \<Rightarrow> bytes \<Rightarrow> bytes" where
  "br_mgf1_xor data len dig seed = mgf1_loop dig seed 0 (take len data) @ drop len data"

definition br_rsa_pss_sig_unpad :: "hash_alg \<Rightarrow> hash_alg \<Rightarrow> bytes \<Rightarrow> nat \<Rightarrow> br_rsa_public_key \<Rightarrow> bytes \<Rightarrow> u32" where
  "br_rsa_pss_sig_unpad hf_data hf_mgf1 hash salt_len pk x =
     (let hash_len = br_digest_size hf_data;
          n = dropWhile (\<lambda>b. b = 0) (pk_n pk)
      in if n = [] then 0
         else
           (let n_bitlen = unat (BIT_LENGTH (ucast (hd n)) + push_bit 3 (word_of_nat (length n - 1)) - 1);
                (r, x) = (if n_bitlen mod 8 = 0 then (ucast (byte_at x 0) :: u32, tl x)
                          else (ucast (byte_at x 0) AND push_bit (n_bitlen mod 8) 0xFF, x));
                xlen = (n_bitlen + 7) div 8
            in if xlen < hash_len \<or> xlen < salt_len \<or> xlen < hash_len + salt_len + 2 then 0
               else
                 (let r = r OR (ucast (byte_at x (xlen - 1)) XOR 0xBC);
                      seed = rd x (xlen - hash_len - 1) hash_len;
                      x = br_mgf1_xor x (xlen - hash_len - 1) hf_mgf1 seed;
                      x = (if n_bitlen mod 8 \<noteq> 0 then x[0 := byte_at x 0 AND drop_bit (8 - n_bitlen mod 8) 0xFF] else x);
                      r = foldl (\<lambda>r u. r OR ucast (byte_at x u)) r [0..<xlen - hash_len - salt_len - 2];
                      r = r OR (ucast (byte_at x (xlen - hash_len - salt_len - 2)) XOR 0x01);
                      salt = rd x (xlen - hash_len - salt_len - 1) salt_len;
                      hc = dig_init hf_data;
                      hc = dig_update hc (replicate 8 0);
                      hc = dig_update hc (rd hash 0 hash_len);
                      hc = dig_update hc salt;
                      tmp = dig_out hc;
                      r = foldl (\<lambda>r u. r OR ucast (byte_at tmp u XOR byte_at x (xlen - hash_len - 1 + u))) r [0..<hash_len]
                  in EQ0_ct r)))"

definition br_rsa_i31_pss_vrfy :: "u32 list \<Rightarrow> bytes \<Rightarrow> hash_alg \<Rightarrow> hash_alg \<Rightarrow> bytes \<Rightarrow> nat \<Rightarrow> br_rsa_public_key \<Rightarrow> u32" where
  "br_rsa_i31_pss_vrfy tmp x hf_data hf_mgf1 hash salt_len pk =
     (if BR_MAX_RSA_SIZE div 8 < length x then 0
      else
        (let (sig, ok) = br_rsa_i31_public tmp x pk
         in if ok = 0 then 0 else br_rsa_pss_sig_unpad hf_data hf_mgf1 hash salt_len pk sig))"

section \<open>RFC 8017\<close>

text \<open>Appendix B.2.1.\<close>

definition mgf1_spec :: "hash_alg \<Rightarrow> bytes \<Rightarrow> nat \<Rightarrow> bytes" where
  "mgf1_spec a seed len =
     take len (concat (map (\<lambda>i. hash_spec a (seed @ be_bytes 4 i)) [0..<(len + br_digest_size a - 1) div br_digest_size a]))"

text \<open>Section 9.1.2, the steps in their order; the hash of the mask is that of the message.\<close>

definition emsa_pss_verify :: "hash_alg \<Rightarrow> nat \<Rightarrow> bytes \<Rightarrow> bytes \<Rightarrow> nat \<Rightarrow> bool" where
  "emsa_pss_verify a sLen mHash EM emBits \<longleftrightarrow>
     (let hLen = br_digest_size a;
          emLen = (emBits + 7) div 8;
          maskedDB = take (emLen - hLen - 1) EM;
          H = take hLen (drop (emLen - hLen - 1) EM);
          unused = 8 * emLen - emBits;
          DB = map2 (\<lambda>b t. b XOR t) maskedDB (mgf1_spec a H (emLen - hLen - 1));
          DB = DB[0 := DB ! 0 AND mask (8 - unused)];
          salt = drop (emLen - hLen - sLen - 1) DB
      in hLen + sLen + 2 \<le> emLen \<and> EM ! (emLen - 1) = 0xBC \<and> drop_bit (8 - unused) (maskedDB ! 0) = 0
         \<and> (\<forall>i<emLen - hLen - sLen - 2. DB ! i = 0) \<and> DB ! (emLen - hLen - sLen - 2) = 1
         \<and> H = hash_spec a (replicate 8 0 @ mHash @ salt))"

fun nat_bits :: "nat \<Rightarrow> nat" where
  "nat_bits n = (if n = 0 then 0 else Suc (nat_bits (n div 2)))"

declare nat_bits.simps [simp del]

text \<open>Section 8.1.2, with the hash of the message given.\<close>

definition rsassa_pss_verify :: "hash_alg \<Rightarrow> nat \<Rightarrow> bytes \<Rightarrow> nat \<Rightarrow> nat \<Rightarrow> bytes \<Rightarrow> bool" where
  "rsassa_pss_verify a sLen mHash n e S \<longleftrightarrow>
     (let modBits = nat_bits n;
          emLen = (modBits - 1 + 7) div 8;
          m = be_num S ^ e mod n
      in length S = (modBits + 7) div 8 \<and> be_num S < n \<and> m < 256 ^ emLen
         \<and> emsa_pss_verify a sLen mHash (be_bytes emLen m) (modBits - 1))"

section \<open>The mask\<close>

lemma enc32be_bytes: "br_enc32be (word_of_nat i) = be_bytes 4 i"
  using le_bytes_word(1) [of "word_of_nat i"] le_bytes_mod32 [of 4 i]
  by (simp add: be_bytes_def rev_swap unat_of_nat)

lemma map2_append_le:
  "length u \<le> length xs \<Longrightarrow> map2 f xs u @ map2 f (drop (length u) xs) v = map2 f xs (u @ v)"
  by (induction u arbitrary: xs) (auto simp: Suc_le_length_iff)

lemma map2_short: "length xs \<le> length u \<Longrightarrow> map2 f xs (u @ v) = map2 f xs u"
  by (simp add: zip_append2 take_all drop_all)

lemma mgf1_loop_correct:
  assumes "length buf \<le> k * br_digest_size a"
  shows "mgf1_loop a seed (word_of_nat c) buf
     = map2 (\<lambda>b t. b XOR t) buf (concat (map (\<lambda>i. hash_spec a (seed @ be_bytes 4 i)) [c..<c + k]))"
  using assms
proof (induction k arbitrary: c buf)
  case 0
  then show ?case by (subst mgf1_loop.simps) simp
next
  case (Suc k)
  let ?h = "\<lambda>i. hash_spec a (seed @ be_bytes 4 i)"
  show ?case
  proof (cases "buf = []")
    case True
    then show ?thesis by (subst mgf1_loop.simps) simp
  next
    case False
    have t: "dig_out (dig_update (dig_update (dig_init a) seed) (br_enc32be (word_of_nat c))) = ?h c"
      using dig.out_updates [of a "[seed, br_enc32be (word_of_nat c)]"] by (simp add: enc32be_bytes)
    have w: "word_of_nat c + 1 = (word_of_nat (Suc c) :: u32)" by simp
    have I: "mgf1_loop a seed (word_of_nat (Suc c)) (drop (br_digest_size a) buf)
        = map2 (\<lambda>b t. b XOR t) (drop (br_digest_size a) buf) (concat (map ?h [Suc c..<Suc c + k]))"
      using Suc.prems by (intro Suc.IH) simp
    have e: "mgf1_loop a seed (word_of_nat c) buf = map2 (\<lambda>b t. b XOR t) buf (?h c)
        @ map2 (\<lambda>b t. b XOR t) (drop (br_digest_size a) buf) (concat (map ?h [Suc c..<Suc c + k]))"
      using False by (subst mgf1_loop.simps) (simp only: Let_def t w I if_False)
    have u: "[c..<c + Suc k] = c # [Suc c..<Suc c + k]" by (simp add: upt_conv_Cons)
    show ?thesis
    proof (cases "br_digest_size a \<le> length buf")
      case True
      then show ?thesis
        unfolding e u using map2_append_le [of "?h c" buf "\<lambda>b t. b XOR t" "concat (map ?h [Suc c..<Suc c + k])"] by simp
    next
      case short: False
      then show ?thesis unfolding e u by (simp add: map2_short)
    qed
  qed
qed

lemma length_blocks: "length (concat (map (\<lambda>i. hash_spec a (f i)) is)) = length is * br_digest_size a"
  by (induction "is") simp_all

lemma mgf1_xor_correct:
  assumes "len \<le> length data"
  shows "br_mgf1_xor data len a seed = map2 (\<lambda>b t. b XOR t) (take len data) (mgf1_spec a seed len) @ drop len data"
proof -
  let ?k = "(len + br_digest_size a - 1) div br_digest_size a"
  have "len \<le> ?k * br_digest_size a"
    using digest_size_bounds(2) [of a] by (cases a) simp_all
  then have "mgf1_loop a seed (word_of_nat 0) (take len data)
      = map2 (\<lambda>b t. b XOR t) (take len data) (concat (map (\<lambda>i. hash_spec a (seed @ be_bytes 4 i)) [0..<0 + ?k]))"
    using assms by (intro mgf1_loop_correct) simp
  moreover have "map2 f (take len data) w = map2 f (take len data) (take len w)" for f and w :: bytes
    by (intro nth_equalityI) auto
  ultimately show ?thesis by (simp add: br_mgf1_xor_def mgf1_spec_def)
qed

lemma length_mgf1 [simp]: "length (mgf1_spec a seed len) = len"
proof -
  have "len \<le> (len + br_digest_size a - 1) div br_digest_size a * br_digest_size a"
    using digest_size_bounds(2) [of a] by (cases a) simp_all
  then show ?thesis by (simp add: mgf1_spec_def length_blocks)
qed

section \<open>Bit lengths\<close>

lemma nat_bits_bounds: "0 < n \<Longrightarrow> 0 < nat_bits n \<and> 2 ^ (nat_bits n - 1) \<le> n \<and> n < 2 ^ nat_bits n"
proof (induction n rule: nat_bits.induct)
  case (1 n)
  have e: "nat_bits n = Suc (nat_bits (n div 2))" using "1.prems" by (subst nat_bits.simps) simp
  show ?case
  proof (cases "n = 1")
    case True
    then show ?thesis unfolding e by (simp add: nat_bits.simps [of 0])
  next
    case False
    then have I: "0 < nat_bits (n div 2)" "2 ^ (nat_bits (n div 2) - 1) \<le> n div 2" "n div 2 < 2 ^ nat_bits (n div 2)"
      using "1.IH" "1.prems" by auto
    obtain k where k: "nat_bits (n div 2) = Suc k" using I(1) by (cases "nat_bits (n div 2)") auto
    define q where "q = n div 2"
    have "n = 2 * q \<or> n = 2 * q + 1" unfolding q_def by linarith
    moreover have "nat_bits q = Suc k" using k by (simp add: q_def)
    ultimately show ?thesis using I(2,3) unfolding e q_def [symmetric] by auto
  qed
qed

lemma nat_bits_unique:
  assumes "2 ^ (k - 1) \<le> n" "n < 2 ^ k" "0 < k"
  shows "nat_bits n = k"
proof -
  have n: "0 < n" using assms(1) by (metis less_le_trans zero_less_numeral zero_less_power)
  note B = nat_bits_bounds [OF n]
  have "2 ^ (k - 1) < (2 :: nat) ^ nat_bits n" "2 ^ (nat_bits n - 1) < (2 :: nat) ^ k" using B assms by linarith+
  then have "k - 1 < nat_bits n" "nat_bits n - 1 < k" by simp_all
  then show ?thesis using B assms(3) by linarith
qed

text \<open>The bit length the code computes from the first byte of the stripped modulus.\<close>

lemma modulus_bits:
  assumes "n = dropWhile (\<lambda>b. b = 0) ns" "n \<noteq> []" "length n \<le> 512"
  obtains b where "nat_bits (be_num ns) = b + 8 * (length n - 1)" "1 \<le> b" "b \<le> 8"
    "unat (BIT_LENGTH (ucast (hd n)) + push_bit 3 (word_of_nat (length n - 1)) - 1) = b - 1 + 8 * (length n - 1)"
proof -
  have N: "be_num ns = unat (hd n) * 2 ^ (8 * (length n - 1)) + be_num (tl n)"
  proof -
    have "be_num (hd n # tl n) = be_num ns" using assms(1,2) by (simp add: be_num_strip)
    then show ?thesis by (simp add: be_num_Cons)
  qed
  have "hd n \<noteq> 0" using hd_dropWhile [of "\<lambda>b. b = 0" ns] assms(1,2) by simp
  then have nz: "(ucast (hd n) :: u32) \<noteq> 0" by (simp add: word_unat_eq_iff unat_widen8)
  obtain b where b: "unat (BIT_LENGTH (ucast (hd n))) = b" "1 \<le> b" "b \<le> 32" "2 ^ (b - 1) \<le> unat (hd n)" "unat (hd n) < 2 ^ b"
    using BIT_LENGTH_correct [OF nz] by (metis unat_widen8)
  have b8: "b \<le> 8"
  proof (rule ccontr)
    assume "\<not> b \<le> 8"
    then have "(2 :: nat) ^ 8 \<le> 2 ^ (b - 1)" by (intro power_increasing) simp_all
    then show False using b(4) unsigned_less [of "hd n", where ?'a = nat] by simp
  qed
  let ?L = "8 * (length n - 1)"
  have "be_num (tl n) < 2 ^ ?L"
    using le_num_less [of "rev (tl n)"] by (simp add: be_num_rev power_mult)
  moreover have "(unat (hd n) + 1) * 2 ^ ?L \<le> 2 ^ b * 2 ^ ?L" using b(5) by (intro mult_le_mono1) simp
  ultimately have "be_num ns < 2 ^ b * 2 ^ ?L" unfolding N by simp
  then have hi: "be_num ns < 2 ^ (b + ?L)" by (simp only: power_add)
  have "2 ^ (b - 1) * 2 ^ ?L \<le> unat (hd n) * 2 ^ ?L" using b(4) by (intro mult_le_mono1)
  then have "2 ^ (b - 1) * 2 ^ ?L \<le> be_num ns" unfolding N by linarith
  then have lo: "2 ^ (b + ?L - 1) \<le> be_num ns" using b(2) by (simp add: power_add [symmetric])
  have bits: "nat_bits (be_num ns) = b + ?L" using lo hi b(2) by (intro nat_bits_unique) simp_all
  have l: "unat (word_of_nat (length n - 1) :: u32) = length n - 1" using assms(3) by (intro unat_word32) simp
  have p: "unat (push_bit 3 (word_of_nat (length n - 1) :: u32)) = ?L"
    using assms(3) l by (subst unat_push) simp_all
  have s: "unat (BIT_LENGTH (ucast (hd n)) + push_bit 3 (word_of_nat (length n - 1))) = b + ?L"
    using assms(3) b8 b(1) p by (subst unat_plus_small) simp_all
  have "BIT_LENGTH (ucast (hd n)) + push_bit 3 (word_of_nat (length n - 1)) \<noteq> 0"
    using s b(2) by auto
  then have "unat (BIT_LENGTH (ucast (hd n)) + push_bit 3 (word_of_nat (length n - 1)) - 1) = b - 1 + ?L"
    using s b(2) by (simp add: unat_minus_one)
  then show thesis by (rule that [OF bits b(2) b8])
qed

section \<open>The accumulated differences\<close>

lemma foldl_or_zero: "foldl (\<lambda>r u. r OR f u) r us = (0 :: u32) \<longleftrightarrow> r = 0 \<and> (\<forall>u\<in>set us. f u = 0)"
  by (induction us arbitrary: r) (auto simp: or_eq_0_iff)

lemma or_zero: "a OR b = (0 :: u32) \<longleftrightarrow> a = 0 \<and> b = 0"
  by (rule or_eq_0_iff)

lemma ucast_zero: "(ucast (b :: byte) :: u32) = 0 \<longleftrightarrow> b = 0"
  by (simp add: word_unat_eq_iff unat_widen8)

lemma ucast_xor_const:
  "(ucast (b :: byte) :: u32) XOR 0xBC = 0 \<longleftrightarrow> b = 0xBC" "(ucast b :: u32) XOR 1 = 0 \<longleftrightarrow> b = 1"
  unfolding word_xor_eq_0 by (simp_all add: word_unat_eq_iff unat_widen8)

lemma high_bits:
  assumes "t < 8"
  shows "ucast (b :: byte) AND push_bit t 0xFF = (0 :: u32) \<longleftrightarrow> drop_bit t b = 0"
proof -
  have ff: "(0xFF :: u32) = mask 8" by (simp add: mask_eq_exp_minus_1)
  have "ucast b AND push_bit t 0xFF = (0 :: u32) \<longleftrightarrow> (\<forall>i. \<not> (bit b i \<and> t \<le> i \<and> i < 8 + t \<and> i < 32))"
    unfolding ff by (auto simp: bit_eq_iff bit_simps)
  also have "\<dots> \<longleftrightarrow> (\<forall>i. t \<le> i \<longrightarrow> \<not> bit b i)"
    using bit_imp_le_length [of b] assms by fastforce
  also have "\<dots> \<longleftrightarrow> drop_bit t b = 0"
  proof
    assume a: "\<forall>i. t \<le> i \<longrightarrow> \<not> bit b i"
    show "drop_bit t b = 0" by (rule bit_eqI) (simp add: bit_simps a)
  next
    assume a: "drop_bit t b = 0"
    show "\<forall>i. t \<le> i \<longrightarrow> \<not> bit b i"
    proof (intro allI impI)
      fix i assume "t \<le> i"
      then show "\<not> bit b i" using arg_cong [OF a, of "\<lambda>x. bit x (i - t)"] by (simp add: bit_simps)
    qed
  qed
  finally show ?thesis .
qed

section \<open>The padding\<close>

lemma byte_at_nth: "i < length b \<Longrightarrow> byte_at b i = b ! i"
  by (simp add: byte_at_def)

lemma mask8: "(b :: byte) AND mask 8 = b"
  by (rule bit_eqI) (auto simp: bit_simps dest: bit_imp_le_length)

lemma ff_shift: "t \<le> 8 \<Longrightarrow> drop_bit (8 - t) 0xFF = (mask t :: byte)"
proof -
  assume t: "t \<le> 8"
  have "(0xFF :: byte) = mask 8" by (simp add: mask_eq_exp_minus_1)
  moreover have "drop_bit (8 - t) (mask 8 :: byte) = mask t"
    by (rule bit_eqI) (use t in \<open>auto simp: bit_simps\<close>)
  ultimately show ?thesis by simp
qed

text \<open>The masked data block is unmasked in place.\<close>

lemma unmask_in_place:
  assumes "0 < D" "D \<le> length EM" "t < 8"
    and DB: "DB = map2 (\<lambda>b t. b XOR t) (take D EM) (mgf1_spec a H D)"
    and X: "X = br_mgf1_xor EM D a H"
  shows "(if t \<noteq> 0 then X[0 := byte_at X 0 AND drop_bit (8 - t) 0xFF] else X)
     = DB[0 := DB ! 0 AND mask (8 - (if t = 0 then 0 else 8 - t))] @ drop D EM"
proof -
  have l: "length DB = D" using assms(2) by (simp add: DB)
  have x: "X = DB @ drop D EM" unfolding X DB by (rule mgf1_xor_correct [OF assms(2)])
  have 0: "byte_at X 0 = DB ! 0" using l assms(1) by (simp add: x byte_at_def nth_append)
  show ?thesis
  proof (cases "t = 0")
    case True
    then show ?thesis using l assms(1) by (simp add: x mask8)
  next
    case False
    then show ?thesis using l assms(1,3) by (simp add: 0 ff_shift) (simp add: x list_update_append)
  qed
qed

lemma emsa_size: "emsa_pss_verify a sLen mHash EM emBits \<Longrightarrow> br_digest_size a + sLen + 2 \<le> (emBits + 7) div 8"
  unfolding emsa_pss_verify_def Let_def by (elim conjE)

lemma unpad_correct:
  assumes n: "n = dropWhile (\<lambda>b. b = 0) (pk_n pk)" "n \<noteq> []" "length n \<le> 512" and x: "length x = length n"
  shows "br_rsa_pss_sig_unpad a a hash sLen pk x
     = of_bool (if (nat_bits (be_num (pk_n pk)) - 1) mod 8 = 0
                then byte_at x 0 = 0 \<and> emsa_pss_verify a sLen (rd hash 0 (br_digest_size a)) (tl x) (nat_bits (be_num (pk_n pk)) - 1)
                else emsa_pss_verify a sLen (rd hash 0 (br_digest_size a)) x (nat_bits (be_num (pk_n pk)) - 1))"
proof -
  obtain b where B: "nat_bits (be_num (pk_n pk)) = b + 8 * (length n - 1)" "1 \<le> b" "b \<le> 8"
    "unat (BIT_LENGTH (ucast (hd n)) + push_bit 3 (word_of_nat (length n - 1)) - 1) = b - 1 + 8 * (length n - 1)"
    by (rule modulus_bits [OF n])
  define nb where "nb = b - 1 + 8 * (length n - 1)"
  define t where "t = b - 1"
  have "t < 8" using B(2,3) by (simp add: t_def)
  then have t: "nb mod 8 = t" "t < 8" unfolding nb_def t_def [symmetric] by simp_all
  have nbits: "nat_bits (be_num (pk_n pk)) - 1 = nb" using B(1,2) by (simp add: nb_def)
  define emLen where "emLen = (nb + 7) div 8"
  define EM where "EM = (if t = 0 then tl x else x)"
  define r0 where "r0 = (if t = 0 then ucast (byte_at x 0) else ucast (byte_at x 0) AND push_bit t 0xFF :: u32)"
  have nl: "1 \<le> length n" using n(2) by (cases n) auto
  have eL: "emLen = (if t = 0 then length n - 1 else length n)"
  proof (cases "t = 0")
    case True
    then have "emLen = (8 * (length n - 1) + 7) div 8" by (simp add: emLen_def nb_def t_def)
    also have "\<dots> = length n - 1" by (intro div_nat_eqI) simp_all
    finally show ?thesis using True by simp
  next
    case False
    then have "emLen = length n" unfolding emLen_def nb_def using t(2) nl by (intro div_nat_eqI) (simp_all add: t_def)
    then show ?thesis using False by simp
  qed
  have EMl: "length EM = emLen" using eL x by (simp add: EM_def)
  have unused: "8 * emLen - nb = (if t = 0 then 0 else 8 - t)"
    using eL B(2,3) nl by (auto simp: nb_def t_def)
  define h where "h = br_digest_size a"
  have pair: "(if nb mod 8 = 0 then (ucast (byte_at x 0) :: u32, tl x) else (ucast (byte_at x 0) AND push_bit (nb mod 8) 0xFF, x)) = (r0, EM)"
    by (simp add: t(1) r0_def EM_def)
  have r0: "r0 = 0 \<longleftrightarrow> (if t = 0 then byte_at x 0 = 0 else drop_bit t (EM ! 0) = 0)"
    using nl x by (cases x) (auto simp: r0_def EM_def ucast_zero high_bits [OF t(2)])
  have goal: "br_rsa_pss_sig_unpad a a hash sLen pk x
      = of_bool ((t = 0 \<longrightarrow> byte_at x 0 = 0) \<and> emsa_pss_verify a sLen (rd hash 0 h) EM nb)"
  proof (cases "emLen < h \<or> emLen < sLen \<or> emLen < h + sLen + 2")
    case True
    have "br_rsa_pss_sig_unpad a a hash sLen pk x = 0"
      unfolding br_rsa_pss_sig_unpad_def Let_def n(1) [symmetric] if_not_P [OF n(2)] B(4) nb_def [symmetric] pair prod.case
      unfolding emLen_def [symmetric] h_def [symmetric] by (rule if_P [OF True])
    moreover have "\<not> emsa_pss_verify a sLen (rd hash 0 h) EM nb"
      using emsa_size [of a sLen "rd hash 0 h" EM nb] True unfolding emLen_def h_def by linarith
    ultimately show ?thesis by simp
  next
    case False
    then have sz: "h + sLen + 2 \<le> emLen" by simp
    define D where "D = emLen - h - 1"
    have D: "0 < D" "D + h + 1 = emLen" "sLen < D" "D \<le> length EM" using sz EMl by (simp_all add: D_def)
    define H where "H = take h (drop D EM)"
    have Hr: "rd EM D h = H" using D EMl by (simp add: H_def rd_eq_take_drop)
    have Hl: "length H = h" using D(2) EMl by (simp add: H_def)
    define DB0 where "DB0 = map2 (\<lambda>b t. b XOR t) (take D EM) (mgf1_spec a H D)"
    define DB where "DB = DB0[0 := DB0 ! 0 AND mask (8 - (if t = 0 then 0 else 8 - t))]"
    have DBl: "length DB = D" using D(4) by (simp add: DB_def DB0_def)
    have X: "(if nb mod 8 \<noteq> 0 then (br_mgf1_xor EM D a H)[0 := byte_at (br_mgf1_xor EM D a H) 0 AND drop_bit (8 - nb mod 8) 0xFF]
        else br_mgf1_xor EM D a H) = DB @ drop D EM"
      unfolding t(1) DB_def by (rule unmask_in_place [OF D(1,4) t(2) DB0_def refl])
    define salt where "salt = drop (D - sLen) DB"
    have salt: "rd (DB @ drop D EM) (D - sLen) sLen = salt"
    proof -
      have "rd (DB @ drop D EM) (D - sLen) sLen = rd DB (D - sLen) sLen" using D(3) DBl by (intro rd_append_left) simp
      also have "\<dots> = salt" using D(3) DBl by (simp add: salt_def rd_eq_take_drop)
      finally show ?thesis .
    qed
    define M where "M = hash_spec a (replicate 8 0 @ rd hash 0 h @ salt)"
    have M: "dig_out (dig_update (dig_update (dig_update (dig_init a) (replicate 8 0)) (rd hash 0 h)) salt) = M"
      using dig.out_updates [of a "[replicate 8 0, rd hash 0 h, salt]"] by (simp add: M_def)
    have Ml: "length M = h" by (simp add: M_def h_def)
    have ix: "emLen - h - 1 = D" "emLen - h - sLen - 1 = D - sLen" "emLen - h - sLen - 2 = D - sLen - 1" using sz by (simp_all add: D_def)
    have lo: "byte_at (DB @ drop D EM) u = DB ! u" if "u < D" for u
      using that DBl by (simp add: byte_at_def nth_append)
    have hi: "byte_at (DB @ drop D EM) (D + u) = H ! u" if "u < h" for u
      using that DBl D EMl by (simp add: byte_at_def nth_append H_def)
    have MH: "(\<forall>u<h. byte_at M u = byte_at (DB @ drop D EM) (D + u)) \<longleftrightarrow> H = M"
      using hi Ml Hl by (auto simp: list_eq_iff_nth_eq byte_at_nth)
    have e1: "br_rsa_pss_sig_unpad a a hash sLen pk x
        = EQ0_ct (foldl (\<lambda>r u. r OR ucast (byte_at M u XOR byte_at (DB @ drop D EM) (D + u)))
            (foldl (\<lambda>r u. r OR ucast (byte_at (DB @ drop D EM) u)) (r0 OR (ucast (byte_at EM (emLen - 1)) XOR 0xBC)) [0..<D - sLen - 1]
               OR (ucast (byte_at (DB @ drop D EM) (D - sLen - 1)) XOR 0x01)) [0..<h])"
      unfolding br_rsa_pss_sig_unpad_def Let_def n(1) [symmetric] if_not_P [OF n(2)] B(4) nb_def [symmetric] pair prod.case
      unfolding emLen_def [symmetric] h_def [symmetric] if_not_P [OF False] ix Hr X salt M ..
    have c1: "(\<forall>u\<in>set [0..<D - sLen - 1]. ucast (byte_at (DB @ drop D EM) u) = (0 :: u32)) \<longleftrightarrow> (\<forall>i<D - sLen - 1. DB ! i = 0)"
      using lo D(3) by (auto simp: ucast_zero)
    have c2: "(\<forall>u\<in>set [0..<h]. ucast (byte_at M u XOR byte_at (DB @ drop D EM) (D + u)) = (0 :: u32)) \<longleftrightarrow> H = M"
      unfolding MH [symmetric] by (simp only: ucast_zero word_xor_eq_0) auto
    have c3: "byte_at (DB @ drop D EM) (D - sLen - 1) = DB ! (D - sLen - 1)" using D(3) by (intro lo) simp
    have c4: "byte_at EM (emLen - 1) = EM ! (emLen - 1)" using EMl D(2) by (intro byte_at_nth) simp
    have e2: "br_rsa_pss_sig_unpad a a hash sLen pk x
        = of_bool (r0 = 0 \<and> EM ! (emLen - 1) = 0xBC \<and> (\<forall>i<D - sLen - 1. DB ! i = 0) \<and> DB ! (D - sLen - 1) = 1 \<and> H = M)"
      unfolding e1 EQ0_ct_eq foldl_or_zero or_zero c1 c2 c3 c4 ucast_xor_const by (simp only: conj_assoc)
    have mk: "take D EM ! 0 = EM ! 0" using D(1) by simp
    have top: "drop_bit (8 - (if t = 0 then 0 else 8 - t)) (EM ! 0) = 0 \<longleftrightarrow> t = 0 \<or> drop_bit t (EM ! 0) = 0"
    proof (cases "t = 0")
      case True
      have "drop_bit 8 (EM ! 0) = 0" by (rule bit_eqI) (auto simp: bit_simps dest: bit_imp_le_length)
      then show ?thesis using True by simp
    next
      case False
      then show ?thesis using t(2) by simp
    qed
    have e3: "emsa_pss_verify a sLen (rd hash 0 h) EM nb
        \<longleftrightarrow> EM ! (emLen - 1) = 0xBC \<and> (t = 0 \<or> drop_bit t (EM ! 0) = 0) \<and> (\<forall>i<D - sLen - 1. DB ! i = 0) \<and> DB ! (D - sLen - 1) = 1 \<and> H = M"
      unfolding emsa_pss_verify_def Let_def emLen_def [symmetric] h_def [symmetric] ix unused H_def [symmetric] mk top
      unfolding DB0_def [symmetric] unfolding DB_def [symmetric] salt_def [symmetric] unfolding M_def [symmetric] using sz by simp
    show ?thesis unfolding e2 e3 r0 by auto
  qed
  show ?thesis unfolding goal nbits t(1) by (simp add: EM_def h_def)
qed

section \<open>Verification\<close>

lemma be_bytes_Suc: "be_bytes (Suc k) m = word_of_nat (m div 256 ^ k) # be_bytes k m"
  using le_bytes_add [of k 1 m] by (simp add: be_bytes_def)

lemma be_bytes_first:
  assumes "m < 256 ^ Suc k"
  shows "byte_at (be_bytes (Suc k) m) 0 = 0 \<longleftrightarrow> m < 256 ^ k" "tl (be_bytes (Suc k) m) = be_bytes k m"
proof -
  have "m div 256 ^ k < 256" using assms by (simp add: less_mult_imp_div_less)
  then have "unat (word_of_nat (m div 256 ^ k) :: byte) = m div 256 ^ k" by (simp add: unat_of_nat)
  then show "byte_at (be_bytes (Suc k) m) 0 = 0 \<longleftrightarrow> m < 256 ^ k"
    by (simp add: be_bytes_Suc word_unat_eq_iff div_eq_0_iff)
  show "tl (be_bytes (Suc k) m) = be_bytes k m" by (simp add: be_bytes_Suc)
qed

lemma pss_vrfy_correct:
  assumes tmp: "length tmp = RSA_TLEN + 1" and N: "odd (be_num (pk_n pk))" and l: "length (dropWhile (\<lambda>b. b = 0) (pk_n pk)) \<le> 512"
  shows "br_rsa_i31_pss_vrfy tmp S a a hash sLen pk
     = of_bool (rsassa_pss_verify a sLen (rd hash 0 (br_digest_size a)) (be_num (pk_n pk)) (be_num (pk_e pk)) S)"
proof -
  define n where "n = dropWhile (\<lambda>b. b = 0) (pk_n pk)"
  define M where "M = be_num (pk_n pk)"
  have n0: "n \<noteq> []"
  proof
    assume "n = []"
    then have "be_num n = 0" by (simp add: be_num_def)
    then show False using N by (simp add: n_def be_num_strip)
  qed
  have nl: "length n \<le> 512" using l by (simp add: n_def)
  obtain b where B: "nat_bits M = b + 8 * (length n - 1)" "1 \<le> b" "b \<le> 8"
    using modulus_bits [OF n_def n0 nl] by (auto simp: M_def)
  obtain k where k: "length n = Suc k" using n0 by (cases n) auto
  have oct: "(nat_bits M + 7) div 8 = length n" unfolding B(1) k using B(2,3) by (intro div_nat_eqI) simp_all
  define nb where "nb = nat_bits M - 1"
  have nb: "nb = b - 1 + 8 * k" using B by (simp add: nb_def k)
  note R = rsa_i31_public_correct [OF tmp, where pk = pk and x = S]
  have len: "br_rsa_i31_pss_vrfy tmp S a a hash sLen pk
      = (if rsa_valid pk S then br_rsa_pss_sig_unpad a a hash sLen pk (fst (br_rsa_i31_public tmp S pk)) else 0)"
    using R(1) by (auto simp: br_rsa_i31_pss_vrfy_def rsa_valid_def BR_MAX_RSA_SIZE_def case_prod_beta)
  have val: "rsa_valid pk S \<longleftrightarrow> length S = (nat_bits M + 7) div 8 \<and> be_num S < M"
    unfolding oct using N nl by (auto simp: rsa_valid_def n_def M_def)
  define m where "m = be_num S ^ be_num (pk_e pk) mod M"
  define mh where "mh = rd hash 0 (br_digest_size a)"
  have spec: "rsassa_pss_verify a sLen mh M (be_num (pk_e pk)) S
      \<longleftrightarrow> rsa_valid pk S \<and> m < 256 ^ ((nb + 7) div 8) \<and> emsa_pss_verify a sLen mh (be_bytes ((nb + 7) div 8) m) nb"
    unfolding rsassa_pss_verify_def Let_def nb_def [symmetric] m_def [symmetric] val by (simp only: conj_assoc)
  have "br_rsa_i31_pss_vrfy tmp S a a hash sLen pk = of_bool (rsassa_pss_verify a sLen mh M (be_num (pk_e pk)) S)"
  proof (cases "rsa_valid pk S")
    case False
    then show ?thesis unfolding len spec by simp
  next
    case True
    define x where "x = fst (br_rsa_i31_public tmp S pk)"
    have xl: "length x = length n" using R(2) True by (simp add: x_def rsa_valid_def n_def)
    have U: "br_rsa_i31_pss_vrfy tmp S a a hash sLen pk
        = of_bool (if nb mod 8 = 0 then byte_at x 0 = 0 \<and> emsa_pss_verify a sLen mh (tl x) nb else emsa_pss_verify a sLen mh x nb)"
      using unpad_correct [OF n_def n0 nl xl, of a hash sLen] True unfolding len by (simp add: x_def nb_def M_def mh_def)
    show ?thesis
    proof (cases "M = 1")
      case one: True
      have "nat_bits 1 = 1" by (intro nat_bits_unique) simp_all
      then have "nb = 0" using one by (simp add: nb_def)
      then have "\<not> emsa_pss_verify a sLen mh EM nb" for EM using emsa_size [of a sLen mh EM nb] by auto
      then show ?thesis unfolding U spec by auto
    next
      case False
      then have M1: "1 < M" using N by (cases "M = 0") (auto simp: M_def)
      have x: "x = be_bytes (Suc k) m"
        using R(3) [OF True] M1 xl True unfolding k by (simp add: x_def M_def m_def rsa_valid_def n_def [symmetric] k)
      have "m < M" using M1 by (simp add: m_def)
      moreover have "M < 2 ^ nat_bits M" using nat_bits_bounds [of M] M1 by simp
      moreover have "2 ^ nat_bits M \<le> (2 :: nat) ^ (8 * Suc k)" unfolding B(1) k using B(3) by (intro power_increasing) simp_all
      moreover have "(2 :: nat) ^ (8 * Suc k) = 256 ^ Suc k" by (simp add: power_mult power_add)
      ultimately have mk: "m < 256 ^ Suc k" by linarith
      show ?thesis
      proof (cases "b = 1")
        case b1: True
        then have "nb mod 8 = 0" "(nb + 7) div 8 = k" unfolding nb by simp_all
        then show ?thesis unfolding U spec x using be_bytes_first [OF mk] True by simp
      next
        case False
        have e: "(nb + 7) div 8 = Suc k" unfolding nb using False B(2,3) by (intro div_nat_eqI) simp_all
        have "b - 1 < 8" "b - 1 \<noteq> 0" using False B(2,3) by simp_all
        then have "nb mod 8 \<noteq> 0" unfolding nb by (metis mod_less mod_mult_self2)
        then show ?thesis unfolding U spec x e using mk True by simp
      qed
    qed
  qed
  then show ?thesis by (simp add: M_def mh_def)
qed

section \<open>Encoding\<close>

text \<open>Section 9.1.1 of RFC 8017: what a signer encodes is what the verification accepts.\<close>

definition emsa_pss_encode :: "hash_alg \<Rightarrow> bytes \<Rightarrow> bytes \<Rightarrow> nat \<Rightarrow> bytes" where
  "emsa_pss_encode a mHash salt emBits =
     (let hLen = br_digest_size a;
          emLen = (emBits + 7) div 8;
          H = hash_spec a (replicate 8 0 @ mHash @ salt);
          DB = replicate (emLen - length salt - hLen - 2) 0 @ [1] @ salt;
          maskedDB = map2 (\<lambda>b t. b XOR t) DB (mgf1_spec a H (emLen - hLen - 1))
      in maskedDB[0 := maskedDB ! 0 AND mask (8 - (8 * emLen - emBits))] @ H @ [0xBC])"

lemma emsa_pss_encode_verifies:
  assumes "br_digest_size a + length salt + 2 \<le> (emBits + 7) div 8"
  shows "emsa_pss_verify a (length salt) mHash (emsa_pss_encode a mHash salt emBits) emBits"
    "length (emsa_pss_encode a mHash salt emBits) = (emBits + 7) div 8"
proof -
  define h where "h = br_digest_size a"
  define emLen where "emLen = (emBits + 7) div 8"
  define D where "D = emLen - h - 1"
  define H where "H = hash_spec a (replicate 8 0 @ mHash @ salt)"
  define K where "K = mgf1_spec a H D"
  define DB where "DB = replicate (D - length salt - 1) 0 @ [1] @ salt"
  define j where "j = 8 - (8 * emLen - emBits)"
  define X where "X = map2 (\<lambda>b t. b XOR t) DB K"
  define MD where "MD = X[0 := X ! 0 AND mask j]"
  have sz: "h + length salt + 2 \<le> emLen" using assms by (simp add: h_def emLen_def)
  have ix: "emLen - h - 1 = D" "emLen - length salt - h - 2 = D - length salt - 1" "emLen - h - length salt - 2 = D - length salt - 1"
    "emLen - h - length salt - 1 = D - length salt" using sz by (simp_all add: D_def)
  have D: "length salt < D" "D + h + 1 = emLen" using sz by (simp_all add: D_def)
  have l: "length DB = D" "length K = D" "length H = h" using D by (simp_all add: DB_def K_def H_def h_def)
  have Xl: "length X = D" "length MD = D" by (simp_all add: X_def MD_def l)
  have EM: "emsa_pss_encode a mHash salt emBits = MD @ H @ [0xBC]"
    unfolding emsa_pss_encode_def Let_def emLen_def [symmetric] h_def [symmetric] H_def [symmetric] ix K_def [symmetric] j_def [symmetric]
    unfolding DB_def [symmetric] unfolding X_def [symmetric] unfolding MD_def [symmetric] ..
  show "length (emsa_pss_encode a mHash salt emBits) = (emBits + 7) div 8"
    unfolding EM using D l Xl by (simp add: emLen_def [symmetric])
  have j: "1 \<le> j" "j \<le> 8" using sz unfolding j_def emLen_def by linarith+
  have d0: "DB ! 0 AND mask j = DB ! 0"
  proof -
    have "DB ! 0 = 0 \<or> DB ! 0 = 1" by (cases "D - length salt - 1") (simp_all add: DB_def)
    moreover have "(1 :: byte) AND mask j = 1" by (rule bit_eqI) (use j(1) in \<open>auto simp: bit_simps bit_1_iff\<close>)
    ultimately show ?thesis by auto
  qed
  have tk: "take D (MD @ H @ [0xBC]) = MD" "take h (drop D (MD @ H @ [0xBC])) = H" using l Xl by simp_all
  have inv: "(map2 (\<lambda>b t. b XOR t) MD K)[0 := map2 (\<lambda>b t. b XOR t) MD K ! 0 AND mask j] = DB"
  proof (rule nth_equalityI)
    fix i assume "i < length ((map2 (\<lambda>b t. b XOR t) MD K)[0 := map2 (\<lambda>b t. b XOR t) MD K ! 0 AND mask j])"
    then have i: "i < D" using l Xl by simp
    show "(map2 (\<lambda>b t. b XOR t) MD K)[0 := map2 (\<lambda>b t. b XOR t) MD K ! 0 AND mask j] ! i = DB ! i"
    proof (cases "i = 0")
      case True
      have "((DB ! 0 XOR K ! 0) AND mask j XOR K ! 0) AND mask j = DB ! 0 AND mask j"
        by (rule bit_eqI) (auto simp: bit_simps)
      then show ?thesis using True i l Xl d0 by (simp add: MD_def X_def)
    next
      case False
      then show ?thesis using i l Xl by (simp add: MD_def X_def xor.assoc)
    qed
  qed (use l Xl in simp)
  have top: "drop_bit j (MD ! 0) = 0"
    using D Xl by (simp add: MD_def) (rule bit_eqI, auto simp: bit_simps)
  have last: "(MD @ H @ [0xBC]) ! (emLen - 1) = 0xBC"
  proof -
    have "emLen - 1 = D + h" using D(2) by simp
    then show ?thesis using l Xl by (simp add: nth_append)
  qed
  have ps: "\<forall>i<D - length salt - 1. DB ! i = 0" "DB ! (D - length salt - 1) = 1" "drop (D - length salt) DB = salt"
    using D by (auto simp: DB_def nth_append)
  show "emsa_pss_verify a (length salt) mHash (emsa_pss_encode a mHash salt emBits) emBits"
    unfolding EM emsa_pss_verify_def Let_def emLen_def [symmetric] h_def [symmetric] ix tk K_def [symmetric] j_def [symmetric]
    unfolding inv using sz top last ps by (simp add: H_def)
qed

text \<open>A key of 1025 bits, \<open>2 ^ 1024 + 1\<close>, with the exponent 1: an encoded message is its own signature.\<close>

definition identity_key :: br_rsa_public_key where
  "identity_key = \<lparr>pk_n = be_bytes 129 (2 ^ 1024 + 1), pk_e = [1]\<rparr>"

definition identity_signature :: "bytes \<Rightarrow> bytes" where
  "identity_signature mHash = 0 # emsa_pss_encode SHA256 mHash (replicate 32 7) 1024"

lemma identity_key:
  "be_num (pk_n identity_key) = 2 ^ 1024 + 1" "be_num (pk_e identity_key) = 1"
  "length (dropWhile (\<lambda>b. b = 0) (pk_n identity_key)) \<le> 512"
proof -
  show "be_num (pk_n identity_key) = 2 ^ 1024 + 1" by (simp add: identity_key_def be_num_be_bytes)
  show "be_num (pk_e identity_key) = 1" by (simp add: identity_key_def be_num_Cons be_num_rev)
  show "length (dropWhile (\<lambda>b. b = 0) (pk_n identity_key)) \<le> 512"
  proof -
    have "length (pk_n identity_key) = 129" by (simp add: identity_key_def)
    then show ?thesis using length_dropWhile_le [of "\<lambda>b. b = 0" "pk_n identity_key"] by linarith
  qed
qed

lemma identity_signature_verifies: "rsassa_pss_verify SHA256 32 mHash (2 ^ 1024 + 1) 1 (identity_signature mHash)"
proof -
  define EM where "EM = emsa_pss_encode SHA256 mHash (replicate 32 7) 1024"
  have l: "length EM = 128" using emsa_pss_encode_verifies(2) [of SHA256 "replicate 32 7" 1024] by (simp add: EM_def)
  have n: "be_num (0 # EM) = be_num EM" by (simp add: be_num_Cons)
  have lt: "be_num EM < 256 ^ 128" using le_num_less [of "rev EM"] l by (simp add: be_num_rev)
  have b: "nat_bits (2 ^ 1024 + 1) = 1025" by (rule nat_bits_unique) simp_all
  have p: "(256 :: nat) ^ 128 = 2 ^ 1024" by simp
  have "be_bytes 128 (be_num EM) = EM"
    using le_bytes_le_num [of "rev EM" 128] l by (simp add: be_bytes_def be_num_rev)
  moreover have "emsa_pss_verify SHA256 32 mHash EM 1024"
    using emsa_pss_encode_verifies(1) [of SHA256 "replicate 32 7" 1024] by (simp add: EM_def)
  moreover have "be_num EM ^ 1 mod (2 ^ 1024 + 1) = be_num EM" using lt unfolding p by simp
  ultimately show ?thesis
    using lt l unfolding rsassa_pss_verify_def Let_def identity_signature_def EM_def [symmetric] b n by simp
qed

section \<open>Properties\<close>

text \<open>C18: for an odd modulus of at most 4096 bits the verification accepts exactly the signatures that
  RSASSA-PSS-VERIFY of RFC 8017, section 8.1.2, accepts, for every message digest, signature and
  length of the salt: the exponentiation on 31-bit words, the mask and every check of the padding,
  also when the encoded message is one byte shorter than the modulus.\<close>

theorem pss_vrfy_is_rfc8017:
  assumes "length tmp = RSA_TLEN + 1" "odd (be_num (pk_n pk))" "length (dropWhile (\<lambda>b. b = 0) (pk_n pk)) \<le> 512"
  shows "br_rsa_i31_pss_vrfy tmp S a a hash sLen pk
     = of_bool (rsassa_pss_verify a sLen (rd hash 0 (br_digest_size a)) (be_num (pk_n pk)) (be_num (pk_e pk)) S)"
  by (rule pss_vrfy_correct [OF assms])

theorem pss_vrfy_is_rfc8017_witness:
  "br_rsa_i31_pss_vrfy (replicate (RSA_TLEN + 1) 0) (identity_signature (replicate 32 5)) SHA256 SHA256 (replicate 32 5) 32 identity_key = 1"
proof -
  have "rd (replicate 32 5) 0 32 = (replicate 32 5 :: bytes)" by (subst rd_eq_take_drop) simp_all
  then show ?thesis
    using pss_vrfy_is_rfc8017 [of "replicate (RSA_TLEN + 1) 0" identity_key "identity_signature (replicate 32 5)" SHA256 "replicate 32 5" 32]
      identity_signature_verifies [of "replicate 32 5"] identity_key
    by simp
qed

end
