(* ===== verification/Cert_Verify.thy ===== *)
theory Cert_Verify
  imports Rsa_Pss Hs_Auth Hs_Run
begin

text \<open>
  The handshake with BearSSL's RSA verification in place: the check of CertificateVerify under an
  RSA key (os9/ostls_tls13_handshake.c) is the verification of RFC 8017 over the content of
  RFC 8446, section 4.4.3.
\<close>

section \<open>The default verifier\<close>

text \<open>\<open>br_rsa_pss_vrfy_get_default\<close> is \<open>br_rsa_i31_pss_vrfy\<close> on the target; the handshake passes the same
  hash for the message and the mask and the digest size as length of the salt. \<open>tmp\<close> is the stack
  buffer of \<open>br_rsa_i31_public\<close> before it is written.\<close>

definition br_rsa_pss_vrfy_get_default :: "u32 list \<Rightarrow> bytes \<Rightarrow> hash_alg \<Rightarrow> bytes \<Rightarrow> bytes \<times> bytes \<Rightarrow> u32" where
  "br_rsa_pss_vrfy_get_default tmp sig a hash pk =
     br_rsa_i31_pss_vrfy tmp sig a a hash (br_digest_size a) \<lparr>pk_n = fst pk, pk_e = snd pk\<rparr>"

definition with_rsa :: "u32 list \<Rightarrow> 'x prims \<Rightarrow> 'x prims" where
  "with_rsa tmp P = P\<lparr>p_rsa_pss_vrfy := br_rsa_pss_vrfy_get_default tmp\<rparr>"

text \<open>An RSA key the verification takes: odd, of at most 4096 bits.\<close>

definition rsa_key_ok :: "bytes \<Rightarrow> bool" where
  "rsa_key_ok n \<longleftrightarrow> odd (be_num n) \<and> length (dropWhile (\<lambda>b. b = 0) n) \<le> 512"

definition pss_scheme :: "u16 \<Rightarrow> hash_alg option" where
  "pss_scheme s = (if s = TLS13_SIG_RSA_PSS_RSAE_SHA256 then Some SHA256
     else if s = TLS13_SIG_RSA_PSS_RSAE_SHA384 then Some SHA384 else None)"

lemma cv_content_hash_spec: "cv_content_hash a content = hash_spec a content"
  using sha256.out_updates [of "[content]"] sha384.out_updates [of "[content]"]
  by (cases a) (simp_all add: cv_content_hash_def)

lemma default_vrfy:
  assumes "length tmp = RSA_TLEN + 1" "rsa_key_ok n"
  shows "br_rsa_pss_vrfy_get_default tmp sig a (hash_spec a content) (n, e)
    = of_bool (rsassa_pss_verify a (br_digest_size a) (hash_spec a content) (be_num n) (be_num e) sig)"
proof -
  have "rd (hash_spec a content) 0 (br_digest_size a) = hash_spec a content" by (rule rd_whole) simp
  then show ?thesis
    using pss_vrfy_correct [of tmp "\<lparr>pk_n = n, pk_e = e\<rparr>" sig a "hash_spec a content" "br_digest_size a"] assms
    by (simp add: br_rsa_pss_vrfy_get_default_def rsa_key_ok_def)
qed

lemma cv_check_rsa:
  assumes "length tmp = RSA_TLEN + 1" "rsa_key_ok n"
  shows "cv_check (with_rsa tmp P) (RsaKey n e) s content sig = None
    \<longleftrightarrow> (\<exists>a. pss_scheme s = Some a
          \<and> rsassa_pss_verify a (br_digest_size a) (hash_spec a content) (be_num n) (be_num e) sig)"
  by (auto simp: cv_check_def pss_scheme_def with_rsa_def cv_content_hash_spec default_vrfy [OF assms] Let_def)

text \<open>A run that is \<open>signed\<close> under an RSA key carries a signature of RFC 8017 over the transcript.\<close>

lemma signed_rsa:
  assumes "length tmp = RSA_TLEN + 1" "rsa_key_ok n" "signed (with_rsa tmp P) hs" "server_pkey hs = RsaKey n e"
  shows "\<exists>m cv rest a. transcript_repr (hs_transcript hs) (t_hash (hs_transcript hs)) (m @ cv @ rest)
     \<and> pss_scheme (get_u16 cv 4) = Some a
     \<and> rsassa_pss_verify a (br_digest_size a) (hash_spec a (verify_content_spec (hash_spec (t_hash (hs_transcript hs)) m)))
         (be_num n) (be_num e) (rd cv 8 (unat (get_u16 cv 6)))"
  using assms(3,4) unfolding signed_def cv_signs_def by (auto simp: cv_check_rsa [OF assms(1,2)])

section \<open>Properties\<close>

text \<open>C6: under an RSA key (odd, of at most 4096 bits) a CertificateVerify is accepted exactly when
  its scheme is one of the two RSA-PSS schemes and RSASSA-PSS-VERIFY of RFC 8017, with the hash of
  the scheme and a salt of its length, accepts the signature of the content; the arithmetic on
  31-bit words, the mask and the padding are those of the code.\<close>

theorem rsa_certificate_verify:
  assumes "length tmp = RSA_TLEN + 1" "rsa_key_ok n"
  shows "cv_check (with_rsa tmp P) (RsaKey n e) s content sig = None
    \<longleftrightarrow> (\<exists>a. pss_scheme s = Some a
          \<and> rsassa_pss_verify a (br_digest_size a) (hash_spec a content) (be_num n) (be_num e) sig)"
  by (rule cv_check_rsa [OF assms])

theorem rsa_certificate_verify_witness:
  "cv_check (with_rsa (replicate (RSA_TLEN + 1) 0) sample_prims) (RsaKey (pk_n identity_key) (pk_e identity_key)) TLS13_SIG_RSA_PSS_RSAE_SHA256 [9]
     (identity_signature (hash_spec SHA256 [9])) = None"
proof -
  have k: "rsa_key_ok (pk_n identity_key)" using identity_key by (simp add: rsa_key_ok_def)
  show ?thesis
    using identity_signature_verifies [of "hash_spec SHA256 [9]"] identity_key
      rsa_certificate_verify [OF _ k, of "replicate (RSA_TLEN + 1) 0" sample_prims "pk_e identity_key" TLS13_SIG_RSA_PSS_RSAE_SHA256 "[9]"]
    by (simp add: pss_scheme_def)
qed

end
