(* ===== verification/Spec2Isabelle.thy ===== *)
theory Spec2Isabelle
  imports Async_Open Entropy Fetch Poly1305 Cert_Verify
begin

text \<open>
  A verification development for macTLS, the TLS 1.3 client for Classic Mac OS (os9/), and for
  the parts of its vendored BearSSL (bearssl/) the client rests on. Every definition that
  models code is executable and named after the function it translates; a comment beside it
  names what the C does that the model represents differently.

  \<^bold>\<open>The program and its theories.\<close> A connection drives \<open>tls13_handshake_step\<close>
  with the bytes that arrived; the handshake keeps one context (\<open>tls13_handshake_ctx\<close>), which
  holds the key schedule, the transcript, one record context per direction and the message
  buffer. Below it are the record layer, the key schedule and the BearSSL primitives; beside it
  the ticket cache, the clock for certificate validity and the HTTP helpers.

  \<^item> \<open>Mactls_Prelude\<close>: bytes, words, reads and writes of buffers, byte order (inner.h, codec/).
  \<^item> \<open>Sha2\<close>, \<open>Sha384_Limbs\<close>: hash/sha2small.c and hash/sha2big.c. One locale (a block hash with
    length padding) gives the streaming law for both; the limb core, for compilers with broken
    64-bit arithmetic, is proved equal to the 64-bit one.
  \<^item> \<open>Hmac\<close>: the hash vtable as an interface, mac/hmac.c and rand/hmac_drbg.c.
  \<^item> \<open>Chacha_Poly\<close>, \<open>Aes_Gcm\<close>: symcipher/chacha20_ct.c, poly1305_ctmul.c, aes_ct*.c,
    hash/ghash_ctmul32.c, aead/gcm.c. \<open>Limbs\<close>: numbers as digit lists and words as naturals;
    \<open>Poly1305\<close>: the limb arithmetic against RFC 8439.
  \<^item> \<open>Big_Int\<close>, \<open>Big_Div\<close>, \<open>Big_Codec\<close>: the integers in 31-bit words of int/i31_*.c (Montgomery
    product, the reduction by an estimated quotient, decoding, range check, encoding) and
    int/i32_div32.c, each against the number the words stand for. \<open>Rsa\<close>: int/i31_modpow2.c and
    rsa/rsa_i31_pub.c against \<open>x ^ e mod n\<close>. \<open>Rsa_Pss\<close>: hash/mgf1.c, rsa/rsa_pss_sig_unpad.c and
    rsa/rsa_i31_pss_vrfy.c against RFC 8017. \<open>Cert_Verify\<close>: the handshake with this verifier.
  \<^item> \<open>Key_Schedule\<close>: os9/ostls_tls13_keysched.c against RFC 8446 section 7.1.
  \<^item> \<open>Record_Layer\<close>: os9/ostls_tls13_record.c; the AEAD interface is a locale interpreted on both
    cipher suites.
  \<^item> \<open>Transcript\<close>: the transcript hash and the PSK binder of os9/ostls_tls13_handshake.c.
  \<^item> \<open>Handshake_State\<close>, \<open>Client_Hello\<close>, \<open>Server_Hello\<close>, \<open>Cert_Chain\<close>, \<open>Handshake\<close>: the context and
    every state of os9/ostls_tls13_handshake.c.
  \<^item> \<open>Hs_Stream\<close>: the abstract reader of the decrypted stream that the buffered reader implements.
  \<^item> \<open>Hs_Safety\<close>, \<open>Hs_Auth\<close>, \<open>Hs_Keys\<close>: the invariant \<open>hs_ok\<close>, the reachable contexts
    \<open>reaches\<close>, what is authenticated and which keys are installed.
  \<^item> \<open>Hs_Psk\<close>, \<open>Hs_Run\<close>: a complete concrete run and the properties of whole handshakes.
  \<^item> \<open>Post_Handshake\<close>, \<open>Ticket_Cache\<close>: session tickets (os9/ostls_ticket_cache.c).
  \<^item> \<open>Http\<close>: os9/ostls_http.c. \<open>Mac_Time\<close>: os9/ostls_time.c.
  \<^item> \<open>Async_Conn\<close>, \<open>Async_Pump\<close>: the connection of os9/ostls_async.c, its notifier, the calls of
    the client and the pump that drives the handshake, the record layer, the fallback to TLS 1.2
    and Open Transport. Open Transport, memory, the clocks, the entropy pool and BearSSL's TLS 1.2
    engine are the fields of the record \<open>env\<close>.
  \<^item> \<open>Byte_Queue\<close>: the interface of a byte queue, interpreted on the read ring and the write
    queue of a connection. \<open>Async_Safety\<close>: the invariant \<open>conn_ok\<close> and what is asked of Open
    Transport (\<open>ot_laws\<close>). \<open>Async_Stream\<close>: the open phase as two byte streams. \<open>Async_Life\<close>:
    connections from \<open>OSTLS_New\<close> on, through any calls, and the properties of the whole. \<open>Async_Open\<close>:
    a network on which the pump relays the handshake, and a connection that opens on it.
  \<^item> \<open>Entropy\<close>: the pool of os9/ostls_entropy.c, refined to the sequence of bytes folded in; the
    clocks and the File Manager are the fields of the record \<open>host\<close>.
  \<^item> \<open>Fetch\<close>: the blocking fetch of os9/ostls_fetch.c, over the calls of \<open>env\<close>.

  \<^bold>\<open>Representation.\<close> A C array is a list of its full size and a pointer into one an offset;
  \<open>rd\<close> and \<open>wr\<close> are the copies, and the invariants state that they stay inside. A
  \<open>uint8_t\<close>, \<open>uint16_t\<close>, \<open>uint32_t\<close> or \<open>uint64_t\<close> is a word of that width, so
  that arithmetic wraps as in C; lengths that the code bounds are naturals. A step returns the
  new context, the bytes left to read and the result code. Elliptic curves, RSA, the entropy
  injection and the X.509 engine are the fields of the record \<open>prims\<close>; nothing is assumed of
  them but what a theorem names. \<open>with_rsa\<close> puts the model of BearSSL's RSA verification into its field.
  A big integer is the list of its words, the header first; the areas of a stack buffer that do not
  overlap are lists of their own.

  \<^bold>\<open>Loops.\<close> Every loop is a total function: by structure, by the bytes left to read, or by a
  counter of blocks, but the loop of \<open>OSTLS_Fetch\<close>, which has no bound but the clock: it is a
  partial function, and \<open>fetch_returns\<close> shows that it returns. No fuel is used: the bound \<open>max_steps\<close> on the loop of \<open>OSTLS_Pump\<close> is the
  argument of the C function.

  \<^bold>\<open>What the properties show.\<close> The streaming hash, HMAC, the generator and the key schedule
  compute their RFC definitions; a record that was sealed is read back, nonces are distinct
  and tags compared exactly; the ClientHello is the RFC encoding of its fields; the reader
  delivers the decrypted stream message by message, with the stream's own errors; every step keeps the context well formed on
  any input; a completed handshake checked the server's chain and signature, unless the
  resumption flag is set, and that flag can be set by a server although no ticket was offered
  (\<open>opens_without_certificate\<close>), which is a defect of the code; the ticket cache
  answers as a list of the six hosts stored last; the chunk decoder equals a machine on single bytes
  and inverts the chunked coding; the clock is the Gregorian one in GMT. A connection stays well formed and only moves forward through any calls and notifications; over
  an open one, what the client reads is a prefix of the plaintext of the records received and
  what is sent is the sequence of records that carry what it wrote, so that of two connections one
  reads a prefix of what the other wrote; a peer that closes inside a record is reported in one case
  and leaves the connection open in another (\<open>truncated_record\<close>). The entropy pool holds what each call
  is to fold in, and every seed is a digest of everything folded in before it. A blocking fetch returns, closes what it opened and
  hands over the beginning of what the engine decrypted.
  The RSA verification accepts exactly what RFC 8017 accepts, from the carries of the 31-bit words to
  the last byte of the padding, and with it CertificateVerify is that check of the content of RFC 8446.

  \<^bold>\<open>Not modelled.\<close> Logging, the probes, the table of trust anchors, and of BearSSL the
  TLS 1.2 engine, the curves, the private key and PKCS#1 parts of RSA and the X.509 engine. Wipes of stack buffers have no
  counterpart in a model without a stack; the wipes of the context's fields are modelled.
\<close>

end
